(* ===== verification/Prelude.thy ===== *)
theory Prelude
  imports Main "HOL-Library.AList" "HOL-Library.Sublist"
begin

text \<open>
  Shared vocabulary of the development: the collections of facts that the component
  theories fill, the generic lemmas about ordered dictionaries (association lists updated
  with \<^const>\<open>AList.update\<close>, which keeps the position of an existing key exactly as a Python
  dict does), \<open>dict.fromkeys\<close> de-duplication, and the first of the interfaces: a table of
  rows whose rows are replaced group by group.
\<close>

named_theorems commit_simps "what a commit checks and returns"
named_theorems access_simps "unfolding rules of the access checks"
named_theorems emit_simps "unfolding rules of the event emitters"

section \<open>Ordered dictionaries\<close>

lemma map_of_alist_update [simp]:
  "map_of (AList.update k v al) = (map_of al)(k \<mapsto> v)"
  by (rule ext) (simp add: update_conv)

lemma distinct_keys_update [simp]:
  "distinct (map fst al) \<Longrightarrow> distinct (map fst (AList.update k v al))"
  by (rule distinct_update)

lemma set_keys_update [simp]:
  "fst ` set (AList.update k v al) = insert k (fst ` set al)"
  by (induction al) auto

lemma set_update_subset:
  "set (AList.update k v al) \<subseteq> insert (k, v) (set al)"
  by (induction al) auto

section \<open>dict.fromkeys: the first occurrence of each element, in order\<close>

fun from_keys :: "'a list \<Rightarrow> 'a list" where
  "from_keys [] = []"
| "from_keys (x # xs) = x # filter (\<lambda>y. y \<noteq> x) (from_keys xs)"

lemma set_from_keys [simp]: "set (from_keys xs) = set xs"
  by (induction xs) auto

lemma distinct_from_keys [simp]: "distinct (from_keys xs)"
  by (induction xs) auto

lemma from_keys_distinct: "distinct xs \<Longrightarrow> from_keys xs = xs"
  by (induction xs) (auto simp: filter_id_conv)

section \<open>Decimal text\<close>

fun show_nat :: "nat \<Rightarrow> string" where
  "show_nat n = (if n < 10 then [char_of (48 + n)] else show_nat (n div 10) @ [char_of (48 + n mod 10)])"

section \<open>Small list facts\<close>

lemma filter_False_Nil: "(\<And>x. x \<in> set xs \<Longrightarrow> \<not> P x) \<Longrightarrow> filter P xs = []"
  by (simp add: filter_empty_conv)

lemma distinct_map_filterI [intro]: "distinct (map f xs) \<Longrightarrow> distinct (map f (filter P xs))"
  by (induction xs) auto

lemma find_None_mem: "find P xs = None \<longleftrightarrow> (\<forall>x \<in> set xs. \<not> P x)"
  by (auto simp: find_None_iff)

lemma find_Some_mem: "find P xs = Some x \<Longrightarrow> x \<in> set xs \<and> P x"
  by (auto simp: find_Some_iff)

lemma find_unique:
  assumes "distinct (map f xs)" and "x \<in> set xs"
  shows "find (\<lambda>y. f y = f x) xs = Some x"
  using assms by (induction xs) auto

lemma find_keyed:
  assumes "distinct (map f xs)"
  shows "find (\<lambda>y. f y = k) xs = Some x \<longleftrightarrow> x \<in> set xs \<and> f x = k"
  using assms by (induction xs) auto

lemma find_keyed_case:
  "distinct (map f xs) \<Longrightarrow>
     (case find (\<lambda>y. f y = k) xs of None \<Rightarrow> False | Some x \<Rightarrow> P x) \<longleftrightarrow> (\<exists>x \<in> set xs. f x = k \<and> P x)"
  by (induction xs) (auto simp: image_iff)

text \<open>The rows an enumeration adds, one per element, each with its own drawn values.\<close>

fun with_index :: "(nat \<Rightarrow> 'a \<Rightarrow> 'b) \<Rightarrow> nat \<Rightarrow> 'a list \<Rightarrow> 'b list" where
  "with_index f n [] = []"
| "with_index f n (x # xs) = f n x # with_index f (Suc n) xs"

lemma map_with_index:
  assumes "\<And>i x. g (f i x) = h x"
  shows "map g (with_index f n xs) = map h xs"
  using assms by (induction xs arbitrary: n) auto

lemma length_with_index [simp]: "length (with_index f n xs) = length xs"
  by (induction xs arbitrary: n) auto

lemma with_index_memD:
  "r \<in> set (with_index f n xs) \<Longrightarrow> \<exists>i x. n \<le> i \<and> i < n + length xs \<and> x \<in> set xs \<and> r = f i x"
proof (induction xs arbitrary: n)
  case (Cons x xs)
  from Cons.prems consider "r = f n x" | "r \<in> set (with_index f (Suc n) xs)" by auto
  then show ?case
  proof cases
    case 1
    then show ?thesis by (intro exI [of _ n] exI [of _ x]) simp
  next
    case 2
    from Cons.IH [OF this] obtain i y
      where "Suc n \<le> i" "i < Suc n + length xs" "y \<in> set xs" "r = f i y" by blast
    then show ?thesis by (intro exI [of _ i] exI [of _ y]) simp
  qed
qed simp

lemma map_with_index_draws:
  assumes "\<And>i x. key (f i x) = u i"
  shows "map key (with_index f n xs) = map u [n..<n + length xs]"
proof (induction xs arbitrary: n)
  case (Cons x xs)
  have "[n..<n + length (x # xs)] = n # [Suc n..<Suc n + length xs]"
    using upt_conv_Cons [of n "n + length (x # xs)"] by simp
  then show ?case using assms Cons.IH [of "Suc n"] by simp
qed simp

lemma distinct_with_index_draws:
  assumes "\<And>i x. key (f i x) = u i" and "inj u"
  shows "distinct (map key (with_index f n xs))"
  using assms(2) by (simp add: map_with_index_draws [of key f u, OF assms(1)] distinct_map inj_on_def inj_def)

text \<open>A concrete source of distinct drawn values, for the witnesses.\<close>

definition draw :: "nat \<Rightarrow> string" where
  "draw i = replicate i (CHR ''u'')"

lemma inj_draw: "inj draw"
  by (rule injI) (metis draw_def length_replicate)

lemma draw_not_other: "\<not> list_all (\<lambda>c. c = CHR ''u'') s \<Longrightarrow> draw i \<noteq> s"
  by (auto simp: draw_def list_all_iff)

section \<open>Interface: rows replaced group by group\<close>

text \<open>
  \<open>set_access_grants\<close>, \<open>set_access_control\<close> and \<open>set_group_user_ids_by_id\<close> all replace the
  rows of one group (a resource's grants, a group's members): delete by the group's key, then
  insert. The laws the callers rely on, whatever the rows are.
\<close>

locale row_replace =
  fixes key :: "'row \<Rightarrow> 'k"
    and replace :: "'k \<Rightarrow> 'row list \<Rightarrow> 'row list \<Rightarrow> 'row list"
  assumes replace_own: "(\<And>r. r \<in> set new \<Longrightarrow> key r = k) \<Longrightarrow>
      filter (\<lambda>r. key r = k) (replace k new rows) = new"
    and replace_other: "(\<And>r. r \<in> set new \<Longrightarrow> key r = k) \<Longrightarrow> k' \<noteq> k \<Longrightarrow>
      filter (\<lambda>r. key r = k') (replace k new rows) = filter (\<lambda>r. key r = k') rows"
begin

lemma replace_mem_own:
  assumes "\<And>r. r \<in> set new \<Longrightarrow> key r = k"
  shows "r \<in> set (replace k new rows) \<and> key r = k \<longleftrightarrow> r \<in> set new"
proof -
  have "set (filter (\<lambda>r. key r = k) (replace k new rows)) = set new"
    using replace_own [OF assms] by simp
  then show ?thesis using assms by auto
qed

lemma replace_mem_other:
  assumes "\<And>r. r \<in> set new \<Longrightarrow> key r = k" and "key r \<noteq> k"
  shows "r \<in> set (replace k new rows) \<longleftrightarrow> r \<in> set rows"
proof -
  have "set (filter (\<lambda>x. key x = key r) (replace k new rows)) = set (filter (\<lambda>x. key x = key r) rows)"
    using replace_other [of new k "key r" rows] assms by simp
  then show ?thesis by auto
qed

lemma replace_twice_own:
  assumes "\<And>r. r \<in> set new \<Longrightarrow> key r = k" and "\<And>r. r \<in> set new' \<Longrightarrow> key r = k"
  shows "filter (\<lambda>r. key r = k) (replace k new' (replace k new rows)) = new'"
  using replace_own [OF assms(2)] by simp

end

definition delete_insert :: "('row \<Rightarrow> 'k) \<Rightarrow> 'k \<Rightarrow> 'row list \<Rightarrow> 'row list \<Rightarrow> 'row list" where
  "delete_insert key k new rows = filter (\<lambda>r. key r \<noteq> k) rows @ new"

lemma delete_insert_row_replace: "row_replace key (delete_insert key)"
proof
  fix new rows :: "'a list" and k
  assume new: "\<And>r. r \<in> set new \<Longrightarrow> key r = k"
  show "filter (\<lambda>r. key r = k) (delete_insert key k new rows) = new"
    using new by (auto simp: delete_insert_def filter_id_conv intro: filter_False_Nil)
  fix k' assume "k' \<noteq> k"
  then have "filter (\<lambda>r. key r = k') new = []"
    using new by (auto intro: filter_False_Nil)
  moreover have "filter (\<lambda>r. key r \<noteq> k \<and> key r = k') rows = filter (\<lambda>r. key r = k') rows"
    using \<open>k' \<noteq> k\<close> by (auto intro: filter_cong)
  ultimately show "filter (\<lambda>r. key r = k') (delete_insert key k new rows)
      = filter (\<lambda>r. key r = k') rows"
    by (simp add: delete_insert_def)
qed

end
