(* ===== verification/Chain.thy ===== *)
theory Chain
  imports Prelude
begin

text \<open>
  Walking a parent chain that a corrupt table may have bent into a loop: the base models of a
  model, the ancestors of a folder, the history of a message. Every such loop of the program
  remembers what it has visited and stops at the first repetition. Here is what that visits,
  and the interface a walk with a verdict at each stop has to meet.
\<close>

section \<open>The nodes a guarded walk visits\<close>

text \<open>
  \<open>hop\<close> is the parent link of a known node; \<open>U\<close> lists the known nodes; a link may lead to an
  unknown one, where the walk ends.
\<close>

function trail :: "('n \<Rightarrow> 'n option) \<Rightarrow> 'n list \<Rightarrow> 'n option \<Rightarrow> 'n list \<Rightarrow> 'n list" where
  "trail hop U n seen =
     (case n of None \<Rightarrow> []
      | Some x \<Rightarrow> if x \<in> set seen then []
          else if x \<notin> set U then [x] else x # trail hop U (hop x) (x # seen))"
  by pat_completeness auto
termination
proof (relation "measure (\<lambda>(hop, U, n, seen). card (set U - set seen))", goal_cases)
  case (2 hop U n seen x)
  then have "set U - set (x # seen) \<subset> set U - set seen" by auto
  then have "card (set U - set (x # seen)) < card (set U - set seen)" by (rule psubset_card_mono [rotated]) simp
  then show ?case by simp
qed simp

declare trail.simps [simp del]

lemma trail_None [simp]: "trail hop U None seen = []"
  by (subst trail.simps) simp

lemma trail_Some:
  "trail hop U (Some x) seen = (if x \<in> set seen then []
     else if x \<notin> set U then [x] else x # trail hop U (hop x) (x # seen))"
  by (subst trail.simps) simp

text \<open>One link of the chain, from a known node.\<close>

definition link :: "('n \<Rightarrow> 'n option) \<Rightarrow> 'n list \<Rightarrow> ('n \<times> 'n) set" where
  "link hop U = {(x, y). x \<in> set U \<and> hop x = Some y}"

lemma trail_reachable:
  "y \<in> set (trail hop U (Some x) seen) \<Longrightarrow> (x, y) \<in> (link hop U)\<^sup>*"
proof (induction hop U "Some x" seen arbitrary: x rule: trail.induct)
  case (1 hop U seen x)
  show ?case
  proof (cases "y = x \<or> x \<in> set seen \<or> x \<notin> set U")
    case True
    then show ?thesis using "1.prems" by (auto simp: trail_Some split: if_splits)
  next
    case False
    then have y: "y \<in> set (trail hop U (hop x) (x # seen))" using "1.prems" by (simp add: trail_Some)
    then obtain z where z: "hop x = Some z" by (cases "hop x") auto
    then have "(z, y) \<in> (link hop U)\<^sup>*" using "1.hyps" False y by auto
    moreover have "(x, z) \<in> link hop U" using False z by (simp add: link_def)
    ultimately show ?thesis by (rule converse_rtrancl_into_rtrancl [rotated])
  qed
qed

lemma trail_closed:
  "y \<in> set (trail hop U n seen) \<Longrightarrow> (y, z) \<in> link hop U \<Longrightarrow> z \<in> set (trail hop U n seen) \<union> set seen"
proof (induction hop U n seen rule: trail.induct)
  case (1 hop U n seen)
  show ?case
  proof (cases n)
    case None
    then show ?thesis using "1.prems" by simp
  next
    case (Some x)
    then have nx: "x \<notin> set seen" using "1.prems"(1) by (auto simp: trail_Some split: if_splits)
    show ?thesis
    proof (cases "x \<in> set U")
      case True
      note t = trail_Some [of hop U x seen] nx True Some
      show ?thesis
      proof (cases "y = x")
        case True
        with "1.prems"(2) have h: "hop x = Some z" by (simp add: link_def)
        show ?thesis
        proof (cases "z \<in> set (x # seen)")
          case False
          then have "z \<in> set (trail hop U (hop x) (x # seen))"
            using h by (simp add: trail_Some)
          then show ?thesis using t by simp
        qed (use t in auto)
      next
        case False
        then have "y \<in> set (trail hop U (hop x) (x # seen))" using "1.prems"(1) t by simp
        then have "z \<in> set (trail hop U (hop x) (x # seen)) \<union> set (x # seen)"
          using "1.IH" [OF Some nx] True "1.prems"(2) by blast
        then show ?thesis using t by auto
      qed
    next
      case False
      then have "y = x" using "1.prems"(1) Some nx by (simp add: trail_Some)
      then show ?thesis using "1.prems"(2) False by (simp add: link_def)
    qed
  qed
qed

text \<open>Even where the links loop, the walk visits exactly what they reach.\<close>

lemma set_trail: "set (trail hop U (Some x) []) = {y. (x, y) \<in> (link hop U)\<^sup>*}"
proof (intro equalityI subsetI)
  fix y assume "y \<in> {y. (x, y) \<in> (link hop U)\<^sup>*}"
  then have "(x, y) \<in> (link hop U)\<^sup>*" by simp
  then show "y \<in> set (trail hop U (Some x) [])"
  proof (induction rule: rtrancl_induct)
    case base
    show ?case by (simp add: trail_Some)
  next
    case (step y z)
    then show ?case using trail_closed [of y hop U "Some x" "[]" z] by simp
  qed
qed (simp add: trail_reachable)

lemma distinct_trail: "distinct (trail hop U n seen) \<and> set (trail hop U n seen) \<inter> set seen = {}"
proof (induction hop U n seen rule: trail.induct)
  case (1 hop U n seen)
  show ?case
  proof (cases n)
    case (Some x)
    then show ?thesis using "1.IH" [OF Some] by (auto simp: trail_Some)
  qed simp
qed

text \<open>Where the walk ends: at a node unknown, without a link, or whose link leads back into the walk.\<close>

lemma trail_not_Nil: "x \<notin> set seen \<Longrightarrow> trail hop U (Some x) seen \<noteq> []"
  by (simp add: trail_Some)

lemma trail_end:
  assumes "x \<notin> set seen"
    and "y = last (trail hop U (Some x) seen)"
  shows "y \<notin> set U \<or> hop y = None \<or> (\<exists>z. hop y = Some z \<and> z \<in> set seen \<union> set (trail hop U (Some x) seen))"
  using assms(1) unfolding assms(2)
proof (induction hop U "Some x" seen arbitrary: x rule: trail.induct)
  case (1 hop U seen x)
  show ?case
  proof (cases "x \<in> set U \<and> hop x \<noteq> None \<and> the (hop x) \<notin> set (x # seen)")
    case True
    then obtain z where z: "hop x = Some z" "z \<notin> set (x # seen)" by auto
    have t: "trail hop U (Some x) seen = x # trail hop U (Some z) (x # seen)"
      using "1.prems" True z by (simp add: trail_Some [of hop U x])
    have "trail hop U (Some z) (x # seen) \<noteq> []" using z(2) by (rule trail_not_Nil)
    then show ?thesis
      using "1.hyps" [OF refl "1.prems" _ z(1) z(2)] True unfolding t by auto
  next
    case False
    have "trail hop U (hop x) (x # seen) = []" if "x \<in> set U"
      using False that by (cases "hop x") (auto simp: trail_Some)
    then have "trail hop U (Some x) seen = [x]" using "1.prems" by (simp add: trail_Some [of hop U x])
    then show ?thesis using False by (cases "hop x") auto
  qed
qed

lemma trail_to_end:
  "z \<in> set (trail hop U (Some x) seen) \<Longrightarrow> (z, last (trail hop U (Some x) seen)) \<in> (link hop U)\<^sup>*"
proof (induction hop U "Some x" seen arbitrary: x z rule: trail.induct)
  case (1 hop U seen x)
  show ?case
  proof (cases "x \<in> set seen \<or> x \<notin> set U \<or> trail hop U (hop x) (x # seen) = []")
    case True
    then show ?thesis using "1.prems" by (auto simp: trail_Some split: if_splits)
  next
    case False
    then obtain y where y: "hop x = Some y" by (cases "hop x") auto
    have t: "trail hop U (Some x) seen = x # trail hop U (Some y) (x # seen)"
      using False y by (simp add: trail_Some [of hop U x])
    have notin: "trail hop U (Some y) (x # seen) \<noteq> []" using False y by simp
    have rest: "z' \<in> set (trail hop U (Some y) (x # seen)) \<Longrightarrow>
        (z', last (trail hop U (Some y) (x # seen))) \<in> (link hop U)\<^sup>*" for z'
      using "1.hyps" [OF refl _ _ y] False by blast
    have "y \<in> set (trail hop U (Some y) (x # seen))" using notin by (auto simp: trail_Some split: if_splits)
    then have "(x, last (trail hop U (Some y) (x # seen))) \<in> (link hop U)\<^sup>*"
      using rest False y by (auto simp: link_def intro: converse_rtrancl_into_rtrancl)
    then show ?thesis using rest "1.prems" notin unfolding t by auto
  qed
qed

text \<open>Without a loop, the walk ends at a node without a link or unknown.\<close>

lemma acyclic_trail_end:
  assumes "acyclic (link hop U)"
    and y: "y = last (trail hop U (Some x) [])"
  shows "y \<notin> set U \<or> hop y = None"
proof (rule ccontr)
  assume "\<not> ?thesis"
  then obtain z where z: "y \<in> set U" "hop y = Some z" "z \<in> set (trail hop U (Some x) [])"
    using trail_end [OF _ y] by auto
  then have "(z, y) \<in> (link hop U)\<^sup>*" unfolding y by (intro trail_to_end)
  moreover have "(y, z) \<in> link hop U" using z by (simp add: link_def)
  ultimately have "(y, y) \<in> (link hop U)\<^sup>+" by (rule rtrancl_into_trancl2 [rotated])
  then show False using assms(1) unfolding acyclic_def by blast
qed

text \<open>Each node of the walk is the link of the one before.\<close>

lemma trail_Cons: "trail hop U (Some x) seen = y # ys \<Longrightarrow> y = x"
  by (auto simp: trail_Some split: if_splits)

lemma trail_successive: "successively (\<lambda>x y. hop x = Some y) (trail hop U n seen)"
proof (induction hop U n seen rule: trail.induct)
  case (1 hop U n seen)
  show ?case
  proof (cases n)
    case (Some x)
    show ?thesis
    proof (cases "x \<in> set seen \<or> x \<notin> set U")
      case False
      then have IH: "successively (\<lambda>x y. hop x = Some y) (trail hop U (hop x) (x # seen))"
        using "1.IH" [OF Some] by blast
      show ?thesis
      proof (cases "trail hop U (hop x) (x # seen)")
        case Nil
        then show ?thesis using Some False by (simp add: trail_Some)
      next
        case (Cons y ys)
        then have "hop x = Some y"
          by (cases "hop x") (auto dest: trail_Cons)
        then show ?thesis using IH Some False Cons by (simp add: trail_Some)
      qed
    qed (use Some in \<open>auto simp: trail_Some\<close>)
  qed simp
qed

section \<open>Interface: a walk with a verdict at each stop\<close>

text \<open>
  \<open>stop\<close> is the answer when the chain ends or repeats, \<open>miss\<close> when it leads to an unknown node;
  \<open>verdict\<close> may end the walk at a node with the opposite answer.
\<close>

locale chain_walk =
  fixes hop :: "'n \<Rightarrow> 'n option"
    and U :: "'n list"
    and verdict :: "'n \<Rightarrow> bool"
    and stop :: bool
    and miss :: bool
    and walk :: "'n option \<Rightarrow> 'n list \<Rightarrow> bool"
  assumes walk_end: "walk None seen = stop"
    and walk_node: "walk (Some x) seen =
      (if x \<in> set seen then stop else if x \<notin> set U then miss
       else if verdict x then \<not> stop else walk (hop x) (x # seen))"
begin

lemma walk_trail_aux:
  "h = hop \<Longrightarrow> V = U \<Longrightarrow>
   walk n seen = stop \<longleftrightarrow> (\<forall>x \<in> set (trail h V n seen). if x \<in> set U then \<not> verdict x else miss = stop)"
proof (induction h V n seen rule: trail.induct)
  case (1 h V n seen)
  show ?case
  proof (cases n)
    case None
    then show ?thesis by (simp add: walk_end)
  next
    case (Some x)
    show ?thesis
    proof (cases "x \<in> set seen \<or> x \<notin> set U")
      case True
      then show ?thesis
        using Some walk_node [of x seen] trail_Some [of hop U x seen] "1.prems" by (cases "x \<in> set seen") auto
    next
      case False
      then have "walk (hop x) (x # seen) = stop \<longleftrightarrow>
          (\<forall>y \<in> set (trail hop U (hop x) (x # seen)). if y \<in> set U then \<not> verdict y else miss = stop)"
        using "1.IH" [OF Some] "1.prems" by auto
      then show ?thesis
        using Some False "1.prems" walk_node [of x seen] by (cases "verdict x") (auto simp: trail_Some)
    qed
  qed
qed

lemmas walk_trail = walk_trail_aux [OF refl refl]

lemma walk_decides:
  "walk (Some x) [] = stop \<longleftrightarrow>
     (\<forall>y. (x, y) \<in> (link hop U)\<^sup>* \<longrightarrow> (if y \<in> set U then \<not> verdict y else miss = stop))"
  unfolding walk_trail set_trail by auto

end

end
