(* ===== verification/PyJson.thy ===== *)
theory PyJson
  imports Prelude
begin

text \<open>
  The dynamic values of the Python code: what \<open>json.loads\<close> returns. A dict is an ordered
  association list without a repeated key, updated by \<open>dict_set\<close> as Python updates it (an
  existing key keeps its place). Numbers are integers: no modelled operation computes with a
  JSON fraction. Strings are HOL strings. An operation that raises (an index into a value that
  is no dict) is \<open>None\<close>.
\<close>

datatype json =
    JNull
  | JBool bool
  | JInt int
  | JStr string
  | JArr "json list"
  | JObj "(string \<times> json) list"

text \<open>The exceptions the modelled code can raise or catches.\<close>

datatype py_error =
    TypeError
  | AttributeError
  | KeyError
  | ValueError
  | IntegrityError
  | StaleDataError
  | ValidationError
  | DBAPIError
  | OverflowError
  | IndexError

fun truthy :: "json \<Rightarrow> bool" where
  "truthy JNull = False"
| "truthy (JBool b) = b"
| "truthy (JInt i) = (i \<noteq> 0)"
| "truthy (JStr s) = (s \<noteq> [])"
| "truthy (JArr xs) = (xs \<noteq> [])"
| "truthy (JObj d) = (d \<noteq> [])"

fun is_dict :: "json \<Rightarrow> bool" where
  "is_dict (JObj _) = True"
| "is_dict _ = False"

fun is_list :: "json \<Rightarrow> bool" where
  "is_list (JArr _) = True"
| "is_list _ = False"

fun is_str :: "json \<Rightarrow> bool" where
  "is_str (JStr _) = True"
| "is_str _ = False"

fun as_dict :: "json \<Rightarrow> (string \<times> json) list" where
  "as_dict (JObj d) = d"
| "as_dict _ = []"

fun as_list :: "json \<Rightarrow> json list" where
  "as_list (JArr xs) = xs"
| "as_list _ = []"

fun as_str :: "json \<Rightarrow> string" where
  "as_str (JStr s) = s"
| "as_str _ = []"

type_synonym dict = "(string \<times> json) list"

definition dict_set :: "string \<Rightarrow> json \<Rightarrow> dict \<Rightarrow> dict" where
  "dict_set k v d = AList.update k v d"

text \<open>\<open>{**d, **kvs}\<close>.\<close>

fun dict_update :: "(string \<times> 'a) list \<Rightarrow> (string \<times> 'a) list \<Rightarrow> (string \<times> 'a) list" where
  "dict_update d [] = d"
| "dict_update d ((k, v) # kvs) = dict_update (AList.update k v d) kvs"

definition has_key :: "dict \<Rightarrow> string \<Rightarrow> bool" where
  "has_key d k \<longleftrightarrow> map_of d k \<noteq> None"

text \<open>\<open>d.get(k, default)\<close> on a dict, with the default \<open>None\<close> for \<open>get\<close>.\<close>

definition get_or :: "dict \<Rightarrow> string \<Rightarrow> json \<Rightarrow> json" where
  "get_or d k v = (case map_of d k of None \<Rightarrow> v | Some x \<Rightarrow> x)"

abbreviation get :: "dict \<Rightarrow> string \<Rightarrow> json" where
  "get d k \<equiv> get_or d k JNull"

text \<open>\<open>x or y\<close>: the first value when it is truthy, else the second.\<close>

definition py_or :: "json \<Rightarrow> json \<Rightarrow> json" where
  "py_or x y = (if truthy x then x else y)"

text \<open>\<open>k in v\<close> for a string \<open>k\<close>: None where Python raises a TypeError.\<close>

fun py_in :: "string \<Rightarrow> json \<Rightarrow> bool option" where
  "py_in k (JObj d) = Some (has_key d k)"
| "py_in k (JStr s) = Some (sublist k s)"
| "py_in k (JArr xs) = Some (JStr k \<in> set xs)"
| "py_in k _ = None"

text \<open>Every dict inside the value has its keys once (what \<open>json.loads\<close> gives).\<close>

fun wf_json :: "json \<Rightarrow> bool" where
  "wf_json (JArr xs) = (\<forall>x \<in> set xs. wf_json x)"
| "wf_json (JObj d) = (distinct (map fst d) \<and> (\<forall>(k, v) \<in> set d. wf_json v))"
| "wf_json _ = True"

lemma map_of_dict_set [simp]: "map_of (dict_set k v d) = (map_of d)(k \<mapsto> v)"
  by (simp add: dict_set_def)

lemma has_key_iff: "has_key d k \<longleftrightarrow> k \<in> fst ` set d"
  by (metis has_key_def map_of_eq_None_iff)

lemma map_of_dict_update:
  assumes "\<And>k v. (k, v) \<in> set kvs \<Longrightarrow> f k = Some v"
  shows "map_of (dict_update d kvs) x = (if x \<in> fst ` set kvs then f x else map_of d x)"
  using assms
proof (induction d kvs rule: dict_update.induct)
  case (2 d k v kvs)
  have "f k = Some v" using 2(2) by simp
  moreover have "map_of (dict_update (AList.update k v d) kvs) x = (if x \<in> fst ` set kvs then f x else map_of (AList.update k v d) x)"
    using 2(2) by (intro 2(1)) simp
  ultimately show ?case by simp
qed simp

lemma distinct_dict_update: "distinct (map fst d) \<Longrightarrow> distinct (map fst (dict_update d kvs))"
  by (induction d kvs rule: dict_update.induct) auto

lemma keys_dict_update: "fst ` set (dict_update d kvs) = fst ` set d \<union> fst ` set kvs"
  by (induction d kvs rule: dict_update.induct) auto

lemma get_or_dict_set: "get_or (dict_set k v d) k' x = (if k' = k then v else get_or d k' x)"
  by (simp add: get_or_def)

lemma distinct_dict_set [simp]:
  "distinct (map fst d) \<Longrightarrow> distinct (map fst (dict_set k v d))"
  by (simp add: dict_set_def)

lemma dict_set_not_Nil [simp]: "dict_set k v d \<noteq> []"
  by (cases d) (auto simp: dict_set_def)

lemma truthy_py_or [simp]: "truthy (py_or x y) = (truthy x \<or> truthy y)"
  by (simp add: py_or_def)

lemma size_map_of: "map_of d k = Some v \<Longrightarrow> size v < size (JObj d)"
  by (induction d) (auto split: if_splits)

section \<open>Raising operations\<close>

text \<open>Run the second operation on the first one's result, unless the first raised.\<close>

definition and_then :: "'e + 'a \<Rightarrow> ('a \<Rightarrow> 'e + 'b) \<Rightarrow> 'e + 'b" where
  "and_then r f = (case r of Inl e \<Rightarrow> Inl e | Inr x \<Rightarrow> f x)"

lemma and_then_simps [simp]:
  "and_then (Inl e) f = Inl e"
  "and_then (Inr x) f = f x"
  by (simp_all add: and_then_def)

lemma and_then_Inr: "and_then r f = Inr y \<longleftrightarrow> (\<exists>x. r = Inr x \<and> f x = Inr y)"
  by (cases r) auto

text \<open>\<open>for x in v\<close>: the elements, or a TypeError for a value that is not iterable.\<close>

fun py_iter :: "json \<Rightarrow> py_error + json list" where
  "py_iter (JArr xs) = Inr xs"
| "py_iter (JObj d) = Inr (map (\<lambda>(k, v). JStr k) d)"
| "py_iter (JStr s) = Inr (map (\<lambda>c. JStr [c]) s)"
| "py_iter _ = Inl TypeError"

text \<open>\<open>v.get(k)\<close>: an AttributeError when \<open>v\<close> is no dict.\<close>

fun get_attr :: "json \<Rightarrow> string \<Rightarrow> json \<Rightarrow> py_error + json" where
  "get_attr (JObj d) k v = Inr (get_or d k v)"
| "get_attr _ k v = Inl AttributeError"

text \<open>A list or a dict cannot be looked up in a set: a TypeError.\<close>

definition hashable :: "json \<Rightarrow> bool" where
  "hashable v \<longleftrightarrow> \<not> is_list v \<and> \<not> is_dict v"

definition dict_pop :: "string \<Rightarrow> dict \<Rightarrow> dict" where
  "dict_pop k d = filter (\<lambda>(k', v). k' \<noteq> k) d"

text \<open>\<open>s.split(c)\<close>.\<close>

fun split_on :: "char \<Rightarrow> string \<Rightarrow> string list" where
  "split_on c [] = [[]]"
| "split_on c (x # xs) =
     (if x = c then [] # split_on c xs
      else case split_on c xs of [] \<Rightarrow> [[x]] | w # ws \<Rightarrow> (x # w) # ws)"

text \<open>Run an operation on every element; the first exception ends the loop.\<close>

fun traverse :: "('a \<Rightarrow> 'e + 'b) \<Rightarrow> 'a list \<Rightarrow> 'e + 'b list" where
  "traverse f [] = Inr []"
| "traverse f (x # xs) = and_then (f x) (\<lambda>y. and_then (traverse f xs) (\<lambda>ys. Inr (y # ys)))"

lemma traverse_append:
  "traverse f (xs @ ys) = and_then (traverse f xs) (\<lambda>us. and_then (traverse f ys) (\<lambda>vs. Inr (us @ vs)))"
proof (induction xs)
  case Nil
  then show ?case by (cases "traverse f ys") simp_all
next
  case (Cons x xs)
  then show ?case by (cases "f x"; cases "traverse f xs"; cases "traverse f ys") simp_all
qed

lemma traverse_Inr: "traverse f xs = Inr ys \<Longrightarrow> list_all2 (\<lambda>x y. f x = Inr y) xs ys"
  by (induction xs arbitrary: ys) (auto simp: and_then_Inr)

text \<open>\<open>str(v)\<close>; the representation of a value that is no string is an argument.\<close>

fun py_str :: "(json \<Rightarrow> string) \<Rightarrow> json \<Rightarrow> string" where
  "py_str repr (JStr s) = s"
| "py_str repr v = repr v"

text \<open>\<open>sep.join(values)\<close>.\<close>

fun join_strs :: "string \<Rightarrow> json list \<Rightarrow> py_error + string" where
  "join_strs sep [] = Inr []"
| "join_strs sep [JStr s] = Inr s"
| "join_strs sep (JStr s # vs) = and_then (join_strs sep vs) (\<lambda>t. Inr (s @ sep @ t))"
| "join_strs sep _ = Inl TypeError"

section \<open>Strings\<close>

text \<open>\<open>str.isspace\<close> of one character, and \<open>lstrip\<close>, \<open>rstrip\<close>, \<open>strip\<close>.\<close>

definition is_py_space :: "char \<Rightarrow> bool" where
  "is_py_space c \<longleftrightarrow> (let n = of_char c :: int in 9 \<le> n \<and> n \<le> 13 \<or> 28 \<le> n \<and> n \<le> 32 \<or> n = 133 \<or> n = 160)"

definition lstrip :: "string \<Rightarrow> string" where
  "lstrip = dropWhile is_py_space"

definition rstrip :: "string \<Rightarrow> string" where
  "rstrip s = rev (dropWhile is_py_space (rev s))"

definition strip_text :: "string \<Rightarrow> string" where
  "strip_text s = rstrip (lstrip s)"

lemma strip_text_Nil: "strip_text s = [] \<longleftrightarrow> list_all is_py_space s"
proof -
  have "rstrip (lstrip s) = [] \<longleftrightarrow> (\<forall>c \<in> set (dropWhile is_py_space s). is_py_space c)"
    by (simp add: rstrip_def lstrip_def)
  also have "\<dots> \<longleftrightarrow> list_all is_py_space s"
    by (induction s) (auto simp: list_all_iff)
  finally show ?thesis by (simp add: strip_text_def)
qed

definition is_digit :: "char \<Rightarrow> bool" where
  "is_digit c \<longleftrightarrow> (let n = of_char c :: nat in 48 \<le> n \<and> n \<le> 57)"

text \<open>\<open>str.lower\<close> of one character, among the first 256.\<close>

definition lower_char :: "char \<Rightarrow> char" where
  "lower_char c =
     (let n = of_char c :: nat
      in if 65 \<le> n \<and> n \<le> 90 \<or> 192 \<le> n \<and> n \<le> 222 \<and> n \<noteq> 215 then char_of (n + 32) else c)"

text \<open>\<open>str.upper\<close> of one character, among those of the first 256 whose upper form is among them.\<close>

definition upper_char :: "char \<Rightarrow> char" where
  "upper_char c =
     (let n = of_char c :: nat
      in if 97 \<le> n \<and> n \<le> 122 \<or> 224 \<le> n \<and> n \<le> 254 \<and> n \<noteq> 247 then char_of (n - 32) else c)"

text \<open>\<open>s.splitlines()\<close> and \<open>s.split()\<close>, with what was read of the current piece, reversed.\<close>

definition is_line_break :: "char \<Rightarrow> bool" where
  "is_line_break c \<longleftrightarrow> (let n = of_char c :: int in 10 \<le> n \<and> n \<le> 13 \<or> 28 \<le> n \<and> n \<le> 30 \<or> n = 133)"

fun lines_from :: "string \<Rightarrow> string \<Rightarrow> string list" where
  "lines_from cur [] = (if cur = [] then [] else [rev cur])"
| "lines_from cur (c # cs) =
     (if is_line_break c
      then rev cur # lines_from [] (if c = CHR 0x0D \<and> take 1 cs = [CHR 0x0A] then drop 1 cs else cs)
      else lines_from (c # cur) cs)"

definition splitlines :: "string \<Rightarrow> string list" where
  "splitlines = lines_from []"

fun words_from :: "string \<Rightarrow> string \<Rightarrow> string list" where
  "words_from cur [] = (if cur = [] then [] else [rev cur])"
| "words_from cur (c # cs) =
     (if is_py_space c then (if cur = [] then words_from [] cs else rev cur # words_from [] cs)
      else words_from (c # cur) cs)"

definition split_words :: "string \<Rightarrow> string list" where
  "split_words = words_from []"

text \<open>\<open>sep.join(strings)\<close>.\<close>

fun join_with :: "string \<Rightarrow> string list \<Rightarrow> string" where
  "join_with sep [] = []"
| "join_with sep [s] = s"
| "join_with sep (s # ss) = s @ sep @ join_with sep ss"

abbreviation join_lines :: "string list \<Rightarrow> string" where
  "join_lines \<equiv> join_with [CHR 0x0A]"

text \<open>What follows a prefix.\<close>

definition after_prefix :: "string \<Rightarrow> string \<Rightarrow> string option" where
  "after_prefix p s = (if prefix p s then Some (drop (length p) s) else None)"

section \<open>Integers\<close>

definition digit_value :: "char \<Rightarrow> int" where
  "digit_value c = of_char c - 48"

definition int_of_digits :: "string \<Rightarrow> int" where
  "int_of_digits ds = foldl (\<lambda>n c. 10 * n + digit_value c) 0 ds"

text \<open>The digits of an integer literal may be grouped with single underscores.\<close>

definition digit_groups :: "string \<Rightarrow> bool" where
  "digit_groups s \<longleftrightarrow> list_all (\<lambda>g. g \<noteq> [] \<and> list_all is_digit g) (split_on (CHR ''_'') s)"

definition int_of_str :: "string \<Rightarrow> int option" where
  "int_of_str s =
     (let t = strip_text s;
          (neg, ds) = (case t of [] \<Rightarrow> (False, [])
             | c # cs \<Rightarrow> if c = CHR ''-'' then (True, cs) else if c = CHR ''+'' then (False, cs) else (False, t))
      in if digit_groups ds
         then Some ((if neg then - 1 else 1) * int_of_digits (filter (\<lambda>c. c \<noteq> CHR ''_'') ds)) else None)"

text \<open>\<open>int(v)\<close>.\<close>

fun to_int :: "json \<Rightarrow> py_error + int" where
  "to_int (JInt n) = Inr n"
| "to_int (JBool b) = Inr (if b then 1 else 0)"
| "to_int (JStr s) = (case int_of_str s of None \<Rightarrow> Inl ValueError | Some n \<Rightarrow> Inr n)"
| "to_int _ = Inl TypeError"

section \<open>Changing one element\<close>

fun modify_first :: "('a \<Rightarrow> bool) \<Rightarrow> ('a \<Rightarrow> 'a) \<Rightarrow> 'a list \<Rightarrow> 'a list" where
  "modify_first P f [] = []"
| "modify_first P f (x # xs) = (if P x then f x # xs else x # modify_first P f xs)"

definition modify_last :: "('a \<Rightarrow> bool) \<Rightarrow> ('a \<Rightarrow> 'a) \<Rightarrow> 'a list \<Rightarrow> 'a list" where
  "modify_last P f xs = rev (modify_first P f (rev xs))"

text \<open>The index of the first element with a property.\<close>

fun first_at :: "('a \<Rightarrow> bool) \<Rightarrow> 'a list \<Rightarrow> nat option" where
  "first_at P [] = None"
| "first_at P (x # xs) = (if P x then Some 0 else map_option Suc (first_at P xs))"

lemma first_at_Some: "first_at P xs = Some n \<Longrightarrow> n < length xs \<and> P (xs ! n)"
  by (induction xs arbitrary: n) (auto split: if_splits)

lemma first_at_None: "first_at P xs = None \<longleftrightarrow> list_all (\<lambda>x. \<not> P x) xs"
  by (induction xs) auto

end
