(* ===== verification/GroupTable.thy ===== *)
theory GroupTable
  imports PyJson
begin

text \<open>
  The tables \<open>group\<close> and \<open>group_member\<close> and \<open>GroupTable\<close> (\<open>models/groups.py\<close>). A table is
  the list of its rows. A commit checks what the schema declares: primary keys, the unique
  constraint \<open>uq_group_member_group_user\<close>, and the foreign key of a membership; a violation
  rolls the transaction back and raises \<open>IntegrityError\<close>. Drawn values are arguments: \<open>us i\<close> is
  the i-th uuid4 of the call, \<open>now\<close> its clock reading.
\<close>

section \<open>Rows, tables, commit\<close>

record group =
  gr_id :: string
  gr_user_id :: string
  gr_name :: string
  gr_description :: string
  gr_data :: "dict option"
  gr_permissions :: "dict option"
  gr_created_at :: int
  gr_updated_at :: int

record member =
  mb_id :: string
  mb_group :: string
  mb_user :: string
  mb_created_at :: int
  mb_updated_at :: int

text \<open>
  \<open>fk_on\<close>: whether the engine enforces foreign keys. PostgreSQL does; SQLite, the default engine,
  does so only after \<open>PRAGMA foreign_keys = ON\<close>, which no connection of the program issues.
\<close>

record group_db =
  groups :: "group list"
  members :: "member list"
  fk_on :: bool

record group_form =
  gf_name :: string
  gf_description :: string
  gf_permissions :: "dict option"
  gf_data :: "dict option"

definition member_key :: "member \<Rightarrow> string \<times> string" where
  "member_key m = (mb_group m, mb_user m)"

definition group_ids :: "group_db \<Rightarrow> string list" where
  "group_ids db = map gr_id (groups db)"

definition group_ok :: "group_db \<Rightarrow> bool" where
  "group_ok db \<longleftrightarrow>
     distinct (group_ids db) \<and>
     distinct (map mb_id (members db)) \<and>
     distinct (map member_key (members db)) \<and>
     (fk_on db \<longrightarrow> list_all (\<lambda>m. mb_group m \<in> set (group_ids db)) (members db))"

definition commit_groups :: "group_db \<Rightarrow> py_error + group_db" where
  "commit_groups db = (if group_ok db then Inr db else Inl IntegrityError)"

definition member_of :: "group_db \<Rightarrow> string \<Rightarrow> string \<Rightarrow> bool" where
  "member_of db gid uid \<longleftrightarrow> (gid, uid) \<in> member_key ` set (members db)"

definition new_member :: "(nat \<Rightarrow> string) \<Rightarrow> int \<Rightarrow> string \<Rightarrow> nat \<Rightarrow> string \<Rightarrow> member" where
  "new_member us now gid i uid =
     \<lparr>mb_id = us i, mb_group = gid, mb_user = uid, mb_created_at = now, mb_updated_at = now\<rparr>"

definition touch :: "string set \<Rightarrow> int \<Rightarrow> group list \<Rightarrow> group list" where
  "touch ids now gs = map (\<lambda>g. if gr_id g \<in> ids then g\<lparr>gr_updated_at := now\<rparr> else g) gs"

definition by_updated_desc :: "group list \<Rightarrow> group list" where
  "by_updated_desc gs = sort_key (\<lambda>g. - gr_updated_at g) gs"

section \<open>GroupTable: reads\<close>

definition get_all_groups :: "group_db \<Rightarrow> group list" where
  "get_all_groups db = by_updated_desc (groups db)"

definition get_group_by_name :: "group_db \<Rightarrow> string \<Rightarrow> group option" where
  "get_group_by_name db name = find (\<lambda>g. gr_name g = name) (groups db)"

definition get_group_by_id :: "group_db \<Rightarrow> string \<Rightarrow> group option" where
  "get_group_by_id db gid = find (\<lambda>g. gr_id g = gid) (groups db)"

definition get_groups_by_member_id :: "group_db \<Rightarrow> string \<Rightarrow> group list" where
  "get_groups_by_member_id db uid = by_updated_desc
     (concat (map (\<lambda>g. map (\<lambda>_. g)
       (filter (\<lambda>m. mb_group m = gr_id g \<and> mb_user m = uid) (members db))) (groups db)))"

text \<open>
  One query for several users: the joined rows, newest group first, appended one by one to the
  list of their user.
\<close>

definition append_at :: "string \<Rightarrow> 'a \<Rightarrow> (string \<times> 'a list) list \<Rightarrow> (string \<times> 'a list) list" where
  "append_at k x d = AList.update k ((case map_of d k of None \<Rightarrow> [] | Some xs \<Rightarrow> xs) @ [x]) d"

definition get_groups_by_member_ids :: "group_db \<Rightarrow> string list \<Rightarrow> (string \<times> group list) list" where
  "get_groups_by_member_ids db uids =
     (let rows = sort_key (\<lambda>(u, g). - gr_updated_at g)
        (concat (map (\<lambda>g. map (\<lambda>m. (mb_user m, g))
          (filter (\<lambda>m. mb_group m = gr_id g \<and> mb_user m \<in> set uids) (members db))) (groups db)))
      in foldl (\<lambda>d (u, g). append_at u g d) (map (\<lambda>u. (u, [])) (from_keys uids)) rows)"

definition get_group_user_ids_by_id :: "group_db \<Rightarrow> string \<Rightarrow> string list" where
  "get_group_user_ids_by_id db gid =
     map mb_user (filter (\<lambda>m. mb_group m = gid) (members db))"

definition get_group_user_ids_by_ids :: "group_db \<Rightarrow> string list \<Rightarrow> (string \<times> string list) list" where
  "get_group_user_ids_by_ids db gids =
     foldl (\<lambda>d m. append_at (mb_group m) (mb_user m) d) (map (\<lambda>g. (g, [])) (from_keys gids))
       (filter (\<lambda>m. mb_group m \<in> set gids) (members db))"

definition get_group_member_count_by_id :: "group_db \<Rightarrow> string \<Rightarrow> nat" where
  "get_group_member_count_by_id db gid = length (filter (\<lambda>m. mb_group m = gid) (members db))"

definition get_group_member_counts_by_ids :: "group_db \<Rightarrow> string list \<Rightarrow> (string \<times> nat) list" where
  "get_group_member_counts_by_ids db ids =
     (if ids = [] then []
      else map (\<lambda>g. (g, get_group_member_count_by_id db g))
        (from_keys (map mb_group (filter (\<lambda>m. mb_group m \<in> set ids) (members db)))))"

section \<open>GroupTable: writes\<close>

definition ensure_default_share_config :: "json \<Rightarrow> dict option \<Rightarrow> py_error + dict" where
  "ensure_default_share_config share data =
     (let d = (case data of None \<Rightarrow> [] | Some d \<Rightarrow> d);
          d1 = (if has_key d ''config'' then d else dict_set ''config'' (JObj []) d)
      in case get d1 ''config'' of
           JObj c \<Rightarrow>
             Inr (if has_key c ''share'' then d1
                  else dict_set ''config'' (JObj (dict_set ''share'' share c)) d1)
         | v \<Rightarrow> (case py_in ''share'' v of Some True \<Rightarrow> Inr d1 | _ \<Rightarrow> Inl TypeError))"

definition insert_new_group ::
  "json \<Rightarrow> string \<Rightarrow> int \<Rightarrow> string \<Rightarrow> group_form \<Rightarrow> group_db \<Rightarrow> py_error + (group option \<times> group_db)" where
  "insert_new_group share gid now user_id form db =
     (case ensure_default_share_config share (gf_data form) of
        Inl e \<Rightarrow> Inl e
      | Inr data \<Rightarrow>
          (let g = \<lparr>gr_id = gid, gr_user_id = user_id, gr_name = gf_name form,
                    gr_description = gf_description form, gr_data = Some data,
                    gr_permissions = gf_permissions form, gr_created_at = now, gr_updated_at = now\<rparr>
           in case commit_groups (db\<lparr>groups := groups db @ [g]\<rparr>) of
                Inl _ \<Rightarrow> Inr (None, db)
              | Inr db' \<Rightarrow> Inr (Some g, db')))"

definition set_group_user_ids_by_id ::
  "(nat \<Rightarrow> string) \<Rightarrow> int \<Rightarrow> string \<Rightarrow> string list \<Rightarrow> group_db \<Rightarrow> py_error + group_db" where
  "set_group_user_ids_by_id us now gid uids db =
     commit_groups (db\<lparr>members := delete_insert mb_group gid
       (with_index (new_member us now gid) 0 (from_keys uids)) (members db)\<rparr>)"

definition update_group_by_id ::
  "int \<Rightarrow> string \<Rightarrow> group_form \<Rightarrow> group_db \<Rightarrow> group option \<times> group_db" where
  "update_group_by_id now gid form db =
     (let upd = (\<lambda>g. if gr_id g = gid
            then g\<lparr>gr_name := gf_name form, gr_description := gf_description form,
                   gr_permissions := (case gf_permissions form of None \<Rightarrow> gr_permissions g | p \<Rightarrow> p),
                   gr_data := (case gf_data form of None \<Rightarrow> gr_data g | d \<Rightarrow> d),
                   gr_updated_at := now\<rparr>
            else g);
          db' = db\<lparr>groups := map upd (groups db)\<rparr>
      in (get_group_by_id db' gid, db'))"

definition delete_group_by_id :: "string \<Rightarrow> group_db \<Rightarrow> bool \<times> group_db" where
  "delete_group_by_id gid db =
     (True, db\<lparr>groups := filter (\<lambda>g. gr_id g \<noteq> gid) (groups db),
               members := (if fk_on db then filter (\<lambda>m. mb_group m \<noteq> gid) (members db) else members db)\<rparr>)"

definition delete_all_groups :: "group_db \<Rightarrow> bool \<times> group_db" where
  "delete_all_groups db = (True, db\<lparr>groups := [], members := (if fk_on db then [] else members db)\<rparr>)"

text \<open>The groups of the user are read once, then left one after the other.\<close>

fun leave_groups :: "int \<Rightarrow> string \<Rightarrow> group list \<Rightarrow> group_db \<Rightarrow> group_db" where
  "leave_groups now uid [] db = db"
| "leave_groups now uid (g # gs) db =
     leave_groups now uid gs
       (db\<lparr>members := filter (\<lambda>m. \<not> (mb_group m = gr_id g \<and> mb_user m = uid)) (members db),
           groups := touch {gr_id g} now (groups db)\<rparr>)"

definition remove_user_from_all_groups :: "int \<Rightarrow> string \<Rightarrow> group_db \<Rightarrow> bool \<times> group_db" where
  "remove_user_from_all_groups now uid db =
     (True, leave_groups now uid (get_groups_by_member_id db uid) db)"

fun create_named :: "json \<Rightarrow> (nat \<Rightarrow> string) \<Rightarrow> int \<Rightarrow> string \<Rightarrow> string set \<Rightarrow> nat \<Rightarrow> string list \<Rightarrow>
    group list \<times> group_db \<Rightarrow> group list \<times> group_db" where
  "create_named share us now user_id existing i [] (acc, db) = (acc, db)"
| "create_named share us now user_id existing i (n # ns) (acc, db) =
     (if n \<in> existing then create_named share us now user_id existing i ns (acc, db)
      else let g = \<lparr>gr_id = us i, gr_user_id = user_id, gr_name = n, gr_description = [],
                    gr_data = Some [(''config'', JObj [(''share'', share)])],
                    gr_permissions = None, gr_created_at = now, gr_updated_at = now\<rparr>
           in create_named share us now user_id existing (Suc i) ns
                (case commit_groups (db\<lparr>groups := groups db @ [g]\<rparr>) of
                   Inl _ \<Rightarrow> (acc, db)
                 | Inr db' \<Rightarrow> (acc @ [g], db')))"

definition create_groups_by_group_names ::
  "json \<Rightarrow> (nat \<Rightarrow> string) \<Rightarrow> int \<Rightarrow> string \<Rightarrow> string list \<Rightarrow> group_db \<Rightarrow> group list \<times> group_db" where
  "create_groups_by_group_names share us now user_id names db =
     create_named share us now user_id (set (map gr_name (get_all_groups db))) 0 names ([], db)"

definition sync_groups_by_group_names ::
  "(nat \<Rightarrow> string) \<Rightarrow> int \<Rightarrow> string \<Rightarrow> string list \<Rightarrow> string list \<Rightarrow> group_db \<Rightarrow> bool \<times> group_db" where
  "sync_groups_by_group_names us now uid names keep db =
     (let target = map gr_id (filter (\<lambda>g. gr_name g \<in> set names) (groups db));
          existing = map gr_id (get_groups_by_member_id db uid);
          to_add = filter (\<lambda>g. g \<notin> set existing) target;
          to_remove = filter (\<lambda>g. g \<notin> set target \<and> g \<notin> set keep) existing;
          removed = db\<lparr>members := filter (\<lambda>m. \<not> (mb_user m = uid \<and> mb_group m \<in> set to_remove)) (members db),
                       groups := touch (set to_remove) now (groups db)\<rparr>;
          added = removed\<lparr>members := members removed
                      @ with_index (\<lambda>i g. new_member us now g i uid) 0 to_add,
                    groups := touch (set to_add) now (groups removed)\<rparr>
      in case commit_groups added of Inl _ \<Rightarrow> (False, db) | Inr db' \<Rightarrow> (True, db'))"

text \<open>
  \<open>add_users_to_group\<close> reads the members, then commits; another request may commit in between.
  \<open>others k\<close> is what other requests do to the tables between the read and the commit of attempt
  \<open>k\<close>. A violated constraint is retried once; a group deleted meanwhile makes the update of its
  row fail (\<open>StaleDataError\<close>), which the outer handler turns into None.
\<close>

definition add_users_attempt ::
  "(nat \<Rightarrow> string) \<Rightarrow> int \<Rightarrow> string \<Rightarrow> string list \<Rightarrow> (group_db \<Rightarrow> group_db) \<Rightarrow> group_db \<Rightarrow>
     py_error + group_db" where
  "add_users_attempt us now gid wanted others db =
     (let existing = map mb_user (filter (\<lambda>m. mb_group m = gid \<and> mb_user m \<in> set wanted) (members db));
          new = with_index (new_member us now gid) 0 (filter (\<lambda>u. u \<notin> set existing) wanted);
          db1 = others db
      in if gid \<notin> set (group_ids db1) then Inl StaleDataError
         else commit_groups (db1\<lparr>members := members db1 @ new, groups := touch {gid} now (groups db1)\<rparr>))"

definition add_users_to_group ::
  "(nat \<Rightarrow> nat \<Rightarrow> string) \<Rightarrow> int \<Rightarrow> string \<Rightarrow> string list \<Rightarrow> (nat \<Rightarrow> group_db \<Rightarrow> group_db) \<Rightarrow> group_db \<Rightarrow>
     group option \<times> group_db" where
  "add_users_to_group us now gid user_ids others db =
     (let wanted = from_keys user_ids
      in case get_group_by_id db gid of
           None \<Rightarrow> (None, db)
         | Some _ \<Rightarrow>
             (case add_users_attempt (us 0) now gid wanted (others 0) db of
                Inr db' \<Rightarrow> (get_group_by_id db' gid, db')
              | Inl IntegrityError \<Rightarrow>
                  (let db1 = others 0 db
                   in case get_group_by_id db1 gid of
                        None \<Rightarrow> (None, db1)
                      | Some _ \<Rightarrow>
                          (case add_users_attempt (us 1) now gid wanted (others 1) db1 of
                             Inr db' \<Rightarrow> (get_group_by_id db' gid, db')
                           | Inl _ \<Rightarrow> (None, others 1 db1)))
              | Inl _ \<Rightarrow> (None, others 0 db)))"

definition remove_users_from_group ::
  "int \<Rightarrow> string \<Rightarrow> string list \<Rightarrow> group_db \<Rightarrow> group option \<times> group_db" where
  "remove_users_from_group now gid user_ids db =
     (case get_group_by_id db gid of
        None \<Rightarrow> (None, db)
      | Some g \<Rightarrow>
          (if user_ids = [] then (Some g, db)
           else let db' = db\<lparr>members := filter (\<lambda>m. \<not> (mb_group m = gid \<and> mb_user m \<in> set user_ids)) (members db),
                             groups := touch {gid} now (groups db)\<rparr>
                in (get_group_by_id db' gid, db')))"

section \<open>Facts about rows and commits\<close>

lemma member_of_iff:
  "member_of db gid uid \<longleftrightarrow> (\<exists>m \<in> set (members db). mb_group m = gid \<and> mb_user m = uid)"
  by (auto simp: member_of_def member_key_def image_iff)

lemma touch_ids [simp]: "map gr_id (touch ids now gs) = map gr_id gs"
  by (simp add: touch_def)

lemma set_touch_ids [simp]: "gr_id ` set (touch ids now gs) = gr_id ` set gs"
  by (metis set_map touch_ids)

lemma group_ids_touch [simp]:
  "group_ids (db\<lparr>members := ms, groups := touch ids now gs\<rparr>) = map gr_id gs"
  by (simp add: group_ids_def)

lemma touch_names: "map gr_name (touch ids now gs) = map gr_name gs"
  by (simp add: touch_def)

lemma set_by_updated [simp]: "set (by_updated_desc gs) = set gs"
  by (simp add: by_updated_desc_def)

lemma commit_groups_Inr [commit_simps]:
  "commit_groups db = Inr db' \<longleftrightarrow> group_ok db \<and> db' = db"
  by (auto simp: commit_groups_def)

lemma commit_groups_Inl [commit_simps]:
  "commit_groups db = Inl e \<longleftrightarrow> \<not> group_ok db \<and> e = IntegrityError"
  by (auto simp: commit_groups_def)

lemma set_get_groups_by_member_id:
  "set (get_groups_by_member_id db uid) = {g \<in> set (groups db). member_of db (gr_id g) uid}"
  by (auto simp: get_groups_by_member_id_def member_of_iff)

text \<open>A membership names an existing group, so the join loses none of them.\<close>

lemma member_of_group_exists:
  assumes "group_ok db" and "fk_on db" and "member_of db gid uid"
  shows "gid \<in> set (group_ids db)"
  using assms by (auto simp: group_ok_def member_of_iff list_all_iff)

lemma existing_ids:
  "gr_id ` set (get_groups_by_member_id db uid) = {gid \<in> set (group_ids db). member_of db gid uid}"
  by (auto simp: set_get_groups_by_member_id group_ids_def)

definition fresh_draws :: "(nat \<Rightarrow> string) \<Rightarrow> group_db \<Rightarrow> bool" where
  "fresh_draws us db \<longleftrightarrow> inj us \<and> (\<forall>i. us i \<notin> mb_id ` set (members db))"

lemma new_member_simps [simp]:
  "mb_id (new_member us now g i u) = us i"
  "mb_group (new_member us now g i u) = g"
  "mb_user (new_member us now g i u) = u"
  by (simp_all add: new_member_def)

text \<open>Rows dropped, and groups whose other fields change, keep a consistent database consistent.\<close>

lemma group_ok_shrink:
  assumes "group_ok db"
  shows "group_ok (db\<lparr>members := filter P (members db), groups := touch ids now (groups db)\<rparr>)"
  using assms by (auto simp: group_ok_def list_all_iff group_ids_def)

lemma group_ok_add_members:
  assumes "group_ok db" and "fresh_draws us db"
    and rows: "new = with_index f 0 xs" "\<And>i x. mb_id (f i x) = us i"
    and keys: "\<And>i x. member_key (f i x) = k x" "distinct xs" "inj_on k (set xs)"
    and apart: "\<And>x. x \<in> set xs \<Longrightarrow> k x \<notin> member_key ` set (members db) \<and> fst (k x) \<in> set (group_ids db)"
  shows "group_ok (db\<lparr>members := members db @ new, groups := touch ids now (groups db)\<rparr>)"
proof -
  have ids: "distinct (map mb_id new)"
    using assms(2) rows by (auto simp: fresh_draws_def intro: distinct_with_index_draws)
  have "map member_key new = map k xs"
    using rows keys(1) by (auto intro: map_with_index)
  then have key: "distinct (map member_key new)" "set (map member_key new) = k ` set xs"
    using keys(2,3) by (simp_all add: distinct_map)
  have "mb_id ` set new \<inter> mb_id ` set (members db) = {}"
  proof -
    have "\<exists>i. mb_id m = us i" if "m \<in> set new" for m
      using that rows with_index_memD [of m f 0 xs] by auto
    then show ?thesis using assms(2) unfolding fresh_draws_def by fastforce
  qed
  moreover have "member_key ` set new \<inter> member_key ` set (members db) = {}"
  proof -
    have "k ` set xs \<inter> member_key ` set (members db) = {}" using apart by blast
    then show ?thesis using key(2) by simp
  qed
  moreover have "mb_group m \<in> set (group_ids db)" if "m \<in> set new" for m
  proof -
    from that key(2) obtain x where "x \<in> set xs" "member_key m = k x" by auto
    with apart show ?thesis by (metis fst_conv member_key_def)
  qed
  ultimately show ?thesis
    using assms(1) ids key(1) by (auto simp: group_ok_def list_all_iff group_ids_def)
qed

lemma member_of_add:
  "member_of (db\<lparr>members := ms @ new, groups := gs\<rparr>) gid uid \<longleftrightarrow>
   (gid, uid) \<in> member_key ` set ms \<or> (gid, uid) \<in> member_key ` set new"
  by (auto simp: member_of_def)

section \<open>Synchronising a user's groups\<close>

text \<open>
  After sign-in synchronises a user's groups, the user belongs to exactly the groups whose
  name was sent and to the kept groups it was in before; nobody else's membership changes, no
  membership of a group that is gone does, and the call reports success.
\<close>

theorem sync_groups_exact:
  assumes ok: "group_ok db" and fresh: "fresh_draws us db"
  shows "\<exists>db'. sync_groups_by_group_names us now uid names keep db = (True, db') \<and> group_ok db' \<and>
     (\<forall>gid \<in> set (group_ids db). member_of db' gid uid \<longleftrightarrow>
        (\<exists>g \<in> set (groups db). gr_id g = gid \<and> gr_name g \<in> set names) \<or>
        (member_of db gid uid \<and> gid \<in> set keep)) \<and>
     (\<forall>gid other. other \<noteq> uid \<or> gid \<notin> set (group_ids db) \<longrightarrow>
        (member_of db' gid other \<longleftrightarrow> member_of db gid other))"
proof -
  define target where "target = map gr_id (filter (\<lambda>g. gr_name g \<in> set names) (groups db))"
  define existing where "existing = map gr_id (get_groups_by_member_id db uid)"
  define to_add where "to_add = filter (\<lambda>g. g \<notin> set existing) target"
  define to_remove where "to_remove = filter (\<lambda>g. g \<notin> set target \<and> g \<notin> set keep) existing"
  define removed where "removed = db\<lparr>members := filter (\<lambda>m. \<not> (mb_user m = uid \<and> mb_group m \<in> set to_remove))
      (members db), groups := touch (set to_remove) now (groups db)\<rparr>"
  define new where "new = with_index (\<lambda>i g. new_member us now g i uid) 0 to_add"
  define added where "added = removed\<lparr>members := members removed @ new,
      groups := touch (set to_add) now (groups removed)\<rparr>"
  have ex: "set existing = {gid \<in> set (group_ids db). member_of db gid uid}"
    using existing_ids by (simp add: existing_def)
  have tgt: "distinct target" "set target \<subseteq> set (group_ids db)"
    using ok by (auto simp: target_def group_ok_def group_ids_def)
  have rem_ok: "group_ok removed"
    using group_ok_shrink [OF ok] by (simp add: removed_def)
  have rem_members: "set (members removed) = {m \<in> set (members db). \<not> (mb_user m = uid \<and> mb_group m \<in> set to_remove)}"
    and rem_ids: "group_ids removed = group_ids db"
    by (auto simp: removed_def group_ids_def)
  have rem_fresh: "fresh_draws us removed"
    using fresh rem_members by (auto simp: fresh_draws_def)
  have new_keys: "member_key ` set new = (\<lambda>g. (g, uid)) ` set to_add"
  proof -
    have "map member_key new = map (\<lambda>g. (g, uid)) to_add"
      unfolding new_def by (rule map_with_index) (simp add: member_key_def)
    then show ?thesis by (metis set_map)
  qed
  have "group_ok added"
    unfolding added_def
  proof (rule group_ok_add_members [OF rem_ok rem_fresh new_def, where k = "\<lambda>g. (g, uid)"])
    fix g assume "g \<in> set to_add"
    then have "g \<in> set target" "\<not> member_of db g uid" using ex tgt(2) by (auto simp: to_add_def)
    then show "(g, uid) \<notin> member_key ` set (members removed) \<and> fst (g, uid) \<in> set (group_ids removed)"
      using tgt rem_members rem_ids by (auto simp: member_of_iff member_key_def)
  qed (use tgt in \<open>auto simp: member_key_def to_add_def inj_on_def\<close>)
  then have run: "sync_groups_by_group_names us now uid names keep db = (True, added)"
  proof -
    have "sync_groups_by_group_names us now uid names keep db =
        (case commit_groups added of Inl _ \<Rightarrow> (False, db) | Inr db' \<Rightarrow> (True, db'))"
      unfolding sync_groups_by_group_names_def Let_def added_def new_def to_add_def removed_def
        to_remove_def target_def existing_def by (rule refl)
    then show ?thesis using \<open>group_ok added\<close> by (simp add: commit_groups_def)
  qed
  have mem: "member_of added gid u \<longleftrightarrow>
      (member_of db gid u \<and> \<not> (u = uid \<and> gid \<in> set to_remove)) \<or> (u = uid \<and> gid \<in> set to_add)" for gid u
  proof -
    have "member_of added gid u \<longleftrightarrow>
        (gid, u) \<in> member_key ` set (members removed) \<or> (gid, u) \<in> member_key ` set new"
      by (simp add: added_def member_of_add)
    then show ?thesis
      unfolding new_keys rem_members by (auto simp: member_of_iff member_key_def)
  qed
  have own: "member_of added gid uid \<longleftrightarrow> gid \<in> set target \<or> (member_of db gid uid \<and> gid \<in> set keep)"
    if "gid \<in> set (group_ids db)" for gid
    using ex that by (auto simp: mem to_add_def to_remove_def)
  have "gid \<in> set target \<longleftrightarrow> (\<exists>g \<in> set (groups db). gr_id g = gid \<and> gr_name g \<in> set names)" for gid
    by (auto simp: target_def)
  with own have "\<forall>gid \<in> set (group_ids db). member_of added gid uid \<longleftrightarrow>
        (\<exists>g \<in> set (groups db). gr_id g = gid \<and> gr_name g \<in> set names) \<or>
        (member_of db gid uid \<and> gid \<in> set keep)" by blast
  moreover have "\<forall>gid other. other \<noteq> uid \<or> gid \<notin> set (group_ids db) \<longrightarrow>
      (member_of added gid other \<longleftrightarrow> member_of db gid other)"
    using mem ex tgt(2) by (auto simp: to_add_def to_remove_def)
  ultimately show ?thesis using run \<open>group_ok added\<close> by blast
qed

text \<open>A database with two groups for the witnesses.\<close>

definition mk_group :: "string \<Rightarrow> string \<Rightarrow> int \<Rightarrow> group" where
  "mk_group gid name t = \<lparr>gr_id = gid, gr_user_id = ''admin'', gr_name = name, gr_description = [],
     gr_data = None, gr_permissions = None, gr_created_at = 0, gr_updated_at = t\<rparr>"

definition mk_member :: "string \<Rightarrow> string \<Rightarrow> string \<Rightarrow> member" where
  "mk_member mid gid uid = \<lparr>mb_id = mid, mb_group = gid, mb_user = uid, mb_created_at = 0, mb_updated_at = 0\<rparr>"

definition example_groups :: group_db where
  "example_groups = \<lparr>groups = [mk_group ''g1'' ''staff'' 1, mk_group ''g2'' ''guests'' 2],
     members = [mk_member ''m1'' ''g2'' ''ann'', mk_member ''m2'' ''g2'' ''bob''], fk_on = True\<rparr>"

lemma example_groups_ok: "group_ok example_groups"
  by (simp add: example_groups_def group_ok_def group_ids_def mk_group_def mk_member_def member_key_def)

lemma example_groups_fresh: "fresh_draws draw example_groups"
  by (auto simp: fresh_draws_def inj_draw example_groups_def mk_member_def draw_not_other)

theorem sync_groups_exact_witness:
  "\<exists>db'. sync_groups_by_group_names draw 5 ''ann'' [''staff''] [] example_groups = (True, db') \<and>
     member_of db' ''g1'' ''ann'' \<and> \<not> member_of db' ''g2'' ''ann'' \<and> member_of db' ''g2'' ''bob''"
proof -
  obtain db' where res: "sync_groups_by_group_names draw 5 ''ann'' [''staff''] [] example_groups = (True, db') \<and>
      group_ok db' \<and>
     (\<forall>gid \<in> set (group_ids example_groups). member_of db' gid ''ann'' \<longleftrightarrow>
        (\<exists>g \<in> set (groups example_groups). gr_id g = gid \<and> gr_name g \<in> set [''staff'']) \<or>
        (member_of example_groups gid ''ann'' \<and> gid \<in> set [])) \<and>
     (\<forall>gid other. other \<noteq> ''ann'' \<or> gid \<notin> set (group_ids example_groups) \<longrightarrow>
        (member_of db' gid other \<longleftrightarrow> member_of example_groups gid other))"
    using sync_groups_exact [OF example_groups_ok example_groups_fresh, of 5 "''ann''" "[''staff'']" "[]"] by (elim exE)
  note run = res [THEN conjunct1]
    and own = res [THEN conjunct2, THEN conjunct2, THEN conjunct1, rule_format]
    and other = res [THEN conjunct2, THEN conjunct2, THEN conjunct2, rule_format]
  have "member_of db' ''g1'' ''ann''"
    by (subst own) (simp_all add: example_groups_def mk_group_def group_ids_def)
  moreover have "\<not> member_of db' ''g2'' ''ann''"
    by (subst own) (simp_all add: example_groups_def mk_group_def group_ids_def)
  moreover have "member_of db' ''g2'' ''bob''"
    by (subst other) (simp_all add: example_groups_def mk_member_def member_of_iff)
  ultimately show ?thesis using run by blast
qed

section \<open>Batch reads agree with single reads\<close>

lemma sort_key_map: "map f (sort_key (\<lambda>x. g (f x)) xs) = sort_key g (map f xs)"
proof -
  have ins: "map f (insort_key (\<lambda>x. g (f x)) x ys) = insort_key g (f x) (map f ys)" for x ys
    by (induction ys) auto
  have "map f (foldr (insort_key (\<lambda>x. g (f x))) xs []) = foldr (insort_key g) (map f xs) []"
    by (induction xs) (simp_all add: ins)
  then show ?thesis by (simp add: sort_key_def)
qed

lemma keys_append_at:
  "k \<in> fst ` set d \<Longrightarrow> map fst (append_at k x d) = map fst d"
  unfolding append_at_def by (induction d) auto

lemma map_of_append_at:
  "map_of (append_at k x d) k' =
   (if k' = k then Some ((case map_of d k of None \<Rightarrow> [] | Some xs \<Rightarrow> xs) @ [x]) else map_of d k')"
  by (simp add: append_at_def)

lemma foldl_append_at_keys:
  "(\<And>r. r \<in> set rows \<Longrightarrow> f r \<in> fst ` set d) \<Longrightarrow>
   map fst (foldl (\<lambda>d r. append_at (f r) (g r) d) d rows) = map fst d"
proof (induction rows arbitrary: d)
  case (Cons r rows)
  have keys: "map fst (append_at (f r) (g r) d) = map fst d"
    using Cons.prems by (simp add: keys_append_at)
  then have "fst ` set (append_at (f r) (g r) d) = fst ` set d" by (metis set_map)
  then show ?case using Cons.IH [of "append_at (f r) (g r) d"] Cons.prems keys by simp
qed simp

lemma foldl_append_at_val:
  "map_of d k = Some xs \<Longrightarrow>
   map_of (foldl (\<lambda>d r. append_at (f r) (g r) d) d rows) k = Some (xs @ map g (filter (\<lambda>r. f r = k) rows))"
proof (induction rows arbitrary: d xs)
  case (Cons r rows)
  have "map_of (append_at (f r) (g r) d) k = Some (if f r = k then xs @ [g r] else xs)"
    using Cons.prems by (auto simp: map_of_append_at)
  then show ?case using Cons.IH [of "append_at (f r) (g r) d"] by simp
qed simp

lemma alist_by_keys:
  assumes "distinct (map fst d)" and "\<And>k. k \<in> fst ` set d \<Longrightarrow> map_of d k = Some (h k)"
  shows "d = map (\<lambda>k. (k, h k)) (map fst d)"
proof -
  have "p = (fst p, h (fst p))" if "p \<in> set d" for p
  proof -
    have "map_of d (fst p) = Some (snd p)"
      using assms(1) that by (metis map_of_eq_Some_iff prod.collapse)
    moreover have "map_of d (fst p) = Some (h (fst p))" using assms(2) that by auto
    ultimately show ?thesis by (cases p) simp
  qed
  then have "map (\<lambda>p. (fst p, h (fst p))) d = d" by (intro map_idI) auto
  then show ?thesis by (simp add: comp_def)
qed

lemma batch_by_key:
  assumes "\<And>r. r \<in> set rows \<Longrightarrow> f r \<in> set ks"
  shows "foldl (\<lambda>d r. append_at (f r) (g r) d) (map (\<lambda>k. (k, [])) (from_keys ks)) rows
    = map (\<lambda>k. (k, map g (filter (\<lambda>r. f r = k) rows))) (from_keys ks)" (is "?l = _")
proof -
  let ?d = "map (\<lambda>k. (k, [])) (from_keys ks)"
  have dom: "\<And>r. r \<in> set rows \<Longrightarrow> f r \<in> fst ` set ?d" using assms by (simp add: image_image)
  have keys: "map fst ?l = from_keys ks"
    using foldl_append_at_keys [of rows f ?d g, OF dom] by (simp add: comp_def)
  have "?l = map (\<lambda>k. (k, map g (filter (\<lambda>r. f r = k) rows))) (map fst ?l)"
  proof (rule alist_by_keys)
    show "distinct (map fst ?l)" using keys by simp
    fix k assume "k \<in> fst ` set ?l"
    then have "k \<in> set (from_keys ks)" using keys by (metis set_map)
    then have "map_of ?d k = Some []" by (simp add: map_of_map_restrict)
    then show "map_of ?l k = Some (map g (filter (\<lambda>r. f r = k) rows))"
      using foldl_append_at_val [of ?d k "[]" f g rows] by simp
  qed
  then show ?thesis using keys by simp
qed

text \<open>
  The one-query reads for several users, and for several groups, return for each id exactly
  what the single read returns for it, in the same order.
\<close>

theorem batch_reads_agree:
  "get_groups_by_member_ids db uids = map (\<lambda>u. (u, get_groups_by_member_id db u)) (from_keys uids) \<and>
   get_group_user_ids_by_ids db gids = map (\<lambda>g. (g, get_group_user_ids_by_id db g)) (from_keys gids)"
proof
  define rows where "rows = concat (map (\<lambda>g. map (\<lambda>m. (mb_user m, g))
      (filter (\<lambda>m. mb_group m = gr_id g \<and> mb_user m \<in> set uids) (members db))) (groups db))"
  let ?key = "\<lambda>g. - gr_updated_at g"
  have one: "map snd (filter (\<lambda>(x, g). x = u) (sort_key (\<lambda>(x, g). ?key g) rows)) = get_groups_by_member_id db u"
    if "u \<in> set uids" for u
  proof -
    have "map snd (filter (\<lambda>(x, g). x = u) (sort_key (\<lambda>(x, g). ?key g) rows))
        = map snd (sort_key (\<lambda>r. ?key (snd r)) (filter (\<lambda>(x, g). x = u) rows))"
      by (simp add: filter_sort case_prod_unfold)
    also have "\<dots> = sort_key ?key (map snd (filter (\<lambda>(x, g). x = u) rows))"
      by (rule sort_key_map)
    also have "map snd (filter (\<lambda>(x, g). x = u) rows) = concat (map (\<lambda>g. map (\<lambda>_. g)
        (filter (\<lambda>m. mb_group m = gr_id g \<and> mb_user m = u) (members db))) (groups db))"
      unfolding rows_def using that
      by (auto simp: filter_concat map_concat comp_def filter_map intro!: arg_cong [of _ _ concat]
          map_cong filter_cong)
    finally show ?thesis by (simp add: get_groups_by_member_id_def by_updated_desc_def)
  qed
  have "get_groups_by_member_ids db uids
      = map (\<lambda>k. (k, map snd (filter (\<lambda>r. fst r = k) (sort_key (\<lambda>(u, g). ?key g) rows)))) (from_keys uids)"
    unfolding get_groups_by_member_ids_def Let_def rows_def [symmetric] case_prod_unfold
    by (rule batch_by_key) (auto simp: rows_def)
  then show "get_groups_by_member_ids db uids = map (\<lambda>u. (u, get_groups_by_member_id db u)) (from_keys uids)"
    using one by (simp add: case_prod_unfold)
next
  have "map mb_user (filter (\<lambda>m. mb_group m = g) (filter (\<lambda>m. mb_group m \<in> set gids) (members db)))
      = get_group_user_ids_by_id db g" if "g \<in> set gids" for g
    using that by (auto simp: get_group_user_ids_by_id_def intro!: arg_cong [of _ _ "map mb_user"] filter_cong)
  then show "get_group_user_ids_by_ids db gids = map (\<lambda>g. (g, get_group_user_ids_by_id db g)) (from_keys gids)"
    unfolding get_group_user_ids_by_ids_def by (subst batch_by_key) auto
qed

section \<open>Replacing and extending a group's members\<close>

interpretation member_replace: row_replace mb_group "delete_insert mb_group"
  by (rule delete_insert_row_replace)

lemma new_members_rows:
  "r \<in> set (with_index (new_member us now gid) n xs) \<Longrightarrow> mb_group r = gid"
  by (auto dest: with_index_memD)

lemma new_members_keys:
  "member_key ` set (with_index (new_member us now gid) n xs) = (\<lambda>u. (gid, u)) ` set xs"
proof -
  have "map member_key (with_index (new_member us now gid) n xs) = map (\<lambda>u. (gid, u)) xs"
    by (rule map_with_index) (simp add: member_key_def)
  then show ?thesis by (metis set_map)
qed

lemma member_of_new_members:
  "(\<exists>m \<in> set (with_index (new_member us now gid) n xs). mb_group m = g \<and> mb_user m = u) \<longleftrightarrow> g = gid \<and> u \<in> set xs"
proof -
  have "(\<exists>m \<in> set (with_index (new_member us now gid) n xs). mb_group m = g \<and> mb_user m = u)
      \<longleftrightarrow> (g, u) \<in> member_key ` set (with_index (new_member us now gid) n xs)"
    by (auto simp: member_key_def)
  then show ?thesis by (auto simp: new_members_keys)
qed

lemma get_group_by_id_Some:
  "get_group_by_id db gid \<noteq> None \<longleftrightarrow> gid \<in> set (group_ids db)"
  by (auto simp: get_group_by_id_def find_None_iff group_ids_def)

text \<open>
  Replacing a group's members succeeds for an existing group however often an id is
  repeated; afterwards its members are exactly the ids sent, each once, and every other group is
  as it was.
\<close>

theorem set_group_user_ids_exact:
  assumes ok: "group_ok db" and fresh: "fresh_draws us db" and gid: "gid \<in> set (group_ids db)"
  shows "\<exists>db'. set_group_user_ids_by_id us now gid uids db = Inr db' \<and> group_ok db' \<and>
     get_group_user_ids_by_id db' gid = from_keys uids \<and>
     (\<forall>g. g \<noteq> gid \<longrightarrow> get_group_user_ids_by_id db' g = get_group_user_ids_by_id db g)"
proof -
  define new where "new = with_index (new_member us now gid) 0 (from_keys uids)"
  define base where "base = db\<lparr>members := filter (\<lambda>m. mb_group m \<noteq> gid) (members db), groups := touch {} now (groups db)\<rparr>"
  define db' where "db' = db\<lparr>members := delete_insert mb_group gid new (members db)\<rparr>"
  have rows: "\<And>r. r \<in> set new \<Longrightarrow> mb_group r = gid"
    using new_members_rows by (simp add: new_def)
  have untouched: "touch {} now gs = gs" for gs by (simp add: touch_def)
  have "group_ok (base\<lparr>members := members base @ new, groups := touch {} now (groups base)\<rparr>)"
  proof (rule group_ok_add_members [where k = "\<lambda>u. (gid, u)", OF _ _ new_def])
    show "group_ok base" using group_ok_shrink [OF ok] by (simp add: base_def)
    show "fresh_draws us base" using fresh by (auto simp: fresh_draws_def base_def)
    show "\<And>x. x \<in> set (from_keys uids) \<Longrightarrow>
        (gid, x) \<notin> member_key ` set (members base) \<and> fst (gid, x) \<in> set (group_ids base)"
      using gid by (auto simp: base_def member_key_def group_ids_def)
  qed (auto simp: member_key_def inj_on_def)
  then have ok': "group_ok db'"
    by (simp add: db'_def base_def delete_insert_def untouched)
  have "get_group_user_ids_by_id db' gid = map mb_user new"
    using member_replace.replace_own [OF rows] by (simp add: get_group_user_ids_by_id_def db'_def)
  also have "\<dots> = from_keys uids"
    using map_with_index [of mb_user "new_member us now gid" "\<lambda>u. u" 0 "from_keys uids"]
    by (simp add: new_def)
  finally have own: "get_group_user_ids_by_id db' gid = from_keys uids" .
  have other: "get_group_user_ids_by_id db' g = get_group_user_ids_by_id db g" if "g \<noteq> gid" for g
    using member_replace.replace_other [OF rows that] by (simp add: get_group_user_ids_by_id_def db'_def)
  have "set_group_user_ids_by_id us now gid uids db = Inr db'"
    using ok' by (simp add: set_group_user_ids_by_id_def db'_def new_def commit_simps)
  with ok' own other show ?thesis by blast
qed

theorem set_group_user_ids_exact_witness:
  "\<exists>db'. set_group_user_ids_by_id draw 7 ''g2'' [''eve'', ''ann'', ''eve''] example_groups = Inr db' \<and>
     get_group_user_ids_by_id db' ''g2'' = [''eve'', ''ann'']"
proof -
  have "''g2'' \<in> set (group_ids example_groups)"
    by (simp add: example_groups_def group_ids_def mk_group_def)
  from set_group_user_ids_exact [OF example_groups_ok example_groups_fresh this]
  obtain db' where "set_group_user_ids_by_id draw 7 ''g2'' [''eve'', ''ann'', ''eve''] example_groups = Inr db'"
    and "get_group_user_ids_by_id db' ''g2'' = from_keys [''eve'', ''ann'', ''eve'']" by blast
  then show ?thesis by simp
qed

lemma add_users_attempt_result:
  assumes "add_users_attempt us now gid wanted others db = Inr db'"
  shows "group_ok db'" and "gid \<in> set (group_ids db')"
    and "member_of db' g u \<longleftrightarrow> member_of (others db) g u \<or> (g = gid \<and> u \<in> set wanted \<and> \<not> member_of db gid u)"
proof -
  define existing where "existing = map mb_user (filter (\<lambda>m. mb_group m = gid \<and> mb_user m \<in> set wanted) (members db))"
  define new where "new = with_index (new_member us now gid) 0 (filter (\<lambda>u. u \<notin> set existing) wanted)"
  define db1 where "db1 = others db"
  have db': "db' = db1\<lparr>members := members db1 @ new, groups := touch {gid} now (groups db1)\<rparr>"
    and ok: "group_ok db'" and gid: "gid \<in> set (group_ids db1)"
    using assms by (auto simp: add_users_attempt_def Let_def existing_def new_def db1_def commit_simps split: if_splits)
  show "group_ok db'" by (rule ok)
  show "gid \<in> set (group_ids db')" using gid by (simp add: db' group_ids_def)
  have "set existing = {u \<in> set wanted. member_of db gid u}"
    by (auto simp: existing_def member_of_iff)
  then show "member_of db' g u \<longleftrightarrow>
      member_of (others db) g u \<or> (g = gid \<and> u \<in> set wanted \<and> \<not> member_of db gid u)"
    unfolding db' member_of_iff db1_def [symmetric]
    using member_of_new_members [of us now gid 0 "filter (\<lambda>u. u \<notin> set existing) wanted" g u]
    by (auto simp: new_def member_of_iff)
qed

lemma add_users_cases:
  assumes "add_users_to_group us now gid uids others db = (Some g, db')"
  obtains (first) "add_users_attempt (us 0) now gid (from_keys uids) (others 0) db = Inr db'"
  | (second) "add_users_attempt (us 1) now gid (from_keys uids) (others 1) (others 0 db) = Inr db'"
  using assms
  by (auto simp: add_users_to_group_def Let_def split: option.splits sum.splits py_error.splits)

text \<open>
  When adding users to a group reports the group, every user sent is a member of it, even
  when other requests committed between its read and its commit and it had to retry, as long as
  they removed nobody from the group; and no membership that the others keep is lost.
\<close>

theorem add_users_interleaved:
  assumes run: "add_users_to_group us now gid uids others db = (Some grp, db')"
    and keep: "\<And>k d g u. member_of d g u \<Longrightarrow> member_of (others k d) g u"
  shows "(\<forall>u \<in> set uids. member_of db' gid u) \<and> (\<forall>g u. member_of db g u \<longrightarrow> member_of db' g u) \<and> group_ok db'"
  using run
proof (cases rule: add_users_cases)
  case first
  then show ?thesis
    using keep add_users_attempt_result [OF first] by auto
next
  case second
  then show ?thesis
    using keep add_users_attempt_result [OF second] by auto
qed

text \<open>
  The interleaving of the witness: another request adds \<open>eve\<close> before the first commit, which
  then fails on the unique constraint; the retry adds the rest.
\<close>

definition other_adds_eve :: "nat \<Rightarrow> group_db \<Rightarrow> group_db" where
  "other_adds_eve k db =
     (if k = 0 then db\<lparr>members := members db @ [mk_member ''m9'' ''g1'' ''eve'']\<rparr> else db)"

theorem add_users_interleaved_witness:
  "\<exists>grp db'. add_users_to_group (\<lambda>_. draw) 3 ''g1'' [''eve'', ''zoe''] other_adds_eve example_groups = (Some grp, db') \<and>
     member_of db' ''g1'' ''eve'' \<and> member_of db' ''g1'' ''zoe''"
proof -
  have draws: "draw 0 = []" "draw 1 = ''u''" by (simp_all add: draw_def)
  obtain grp db' where run: "add_users_to_group (\<lambda>_. draw) 3 ''g1'' [''eve'', ''zoe''] other_adds_eve example_groups = (Some grp, db')"
    by (simp add: add_users_to_group_def add_users_attempt_def Let_def other_adds_eve_def example_groups_def
        mk_group_def mk_member_def get_group_by_id_def group_ids_def commit_groups_def group_ok_def touch_def
        new_member_def draws member_key_def)
  have "member_of d g u \<Longrightarrow> member_of (other_adds_eve k d) g u" for k d g u
    by (auto simp: other_adds_eve_def member_of_iff)
  from add_users_interleaved [OF run this] show ?thesis using run by auto
qed

section \<open>Every reachable database is consistent\<close>

inductive group_step :: "group_db \<Rightarrow> group_db \<Rightarrow> bool" where
  step_insert: "insert_new_group share gid now u form db = Inr (r, db') \<Longrightarrow> group_step db db'"
| step_set_members: "set_group_user_ids_by_id us now gid uids db = Inr db' \<Longrightarrow> group_step db db'"
| step_update: "update_group_by_id now gid form db = (r, db') \<Longrightarrow> group_step db db'"
| step_delete: "delete_group_by_id gid db = (b, db') \<Longrightarrow> group_step db db'"
| step_delete_all: "delete_all_groups db = (b, db') \<Longrightarrow> group_step db db'"
| step_leave: "remove_user_from_all_groups now uid db = (b, db') \<Longrightarrow> group_step db db'"
| step_create: "create_groups_by_group_names share us now u names db = (gs, db') \<Longrightarrow> group_step db db'"
| step_sync: "sync_groups_by_group_names us now uid names keep db = (b, db') \<Longrightarrow> group_step db db'"
| step_add: "add_users_to_group uss now gid uids (\<lambda>_ d. d) db = (r, db') \<Longrightarrow> group_step db db'"
| step_remove: "remove_users_from_group now gid uids db = (r, db') \<Longrightarrow> group_step db db'"

inductive group_reachable :: "group_db \<Rightarrow> bool" where
  reach_empty: "group_reachable \<lparr>groups = [], members = [], fk_on = fk\<rparr>"
| reach_step: "group_reachable db \<Longrightarrow> group_step db db' \<Longrightarrow> group_reachable db'"

lemma leave_groups_ok: "group_ok db \<Longrightarrow> group_ok (leave_groups now uid gs db)"
proof (induction gs arbitrary: db)
  case (Cons g gs)
  show ?case using Cons.IH [OF group_ok_shrink [OF Cons.prems]] by simp
qed simp

lemma create_named_ok:
  "group_ok db \<Longrightarrow> create_named share us now u existing i names (acc, db) = (gs, db') \<Longrightarrow> group_ok db'"
proof (induction names arbitrary: i acc db)
  case (Cons n ns)
  then show ?case
    by (auto simp: Let_def commit_groups_def split: if_splits sum.splits)
qed simp

lemma update_group_ok: "group_ok db \<Longrightarrow> group_ok (snd (update_group_by_id now gid form db))"
  by (auto simp: update_group_by_id_def Let_def group_ok_def group_ids_def list_all_iff comp_def
      image_iff if_distrib [of gr_id] cong: if_cong)

lemma delete_group_ok: "group_ok db \<Longrightarrow> group_ok (snd (delete_group_by_id gid db))"
  by (auto simp: delete_group_by_id_def group_ok_def group_ids_def list_all_iff)

lemma sync_groups_ok:
  "group_ok db \<Longrightarrow> sync_groups_by_group_names us now uid names keep db = (b, db') \<Longrightarrow> group_ok db'"
  unfolding sync_groups_by_group_names_def Let_def
  by (cases b) (auto simp: commit_simps split: sum.splits)

lemma add_users_ok:
  "group_ok db \<Longrightarrow> add_users_to_group uss now gid uids (\<lambda>_ d. d) db = (r, db') \<Longrightarrow> group_ok db'"
  using add_users_attempt_result(1) [where others = "\<lambda>d. d"]
  by (auto simp: add_users_to_group_def Let_def split: option.splits sum.splits py_error.splits)

lemma remove_users_ok:
  "group_ok db \<Longrightarrow> remove_users_from_group now gid uids db = (r, db') \<Longrightarrow> group_ok db'"
  by (auto simp: remove_users_from_group_def Let_def intro: group_ok_shrink split: option.splits if_splits)

lemma group_step_ok: "group_step db db' \<Longrightarrow> group_ok db \<Longrightarrow> group_ok db'"
proof (induction rule: group_step.induct)
  case (step_insert share gid now u form db r db')
  then show ?case
    by (auto simp: insert_new_group_def Let_def commit_simps split: sum.splits)
next
  case (step_update now gid form db r db')
  then show ?case using update_group_ok [of db now gid form] by simp
next
  case (step_delete gid db b db')
  then show ?case using delete_group_ok [of db gid] by simp
next
  case (step_delete_all db b db')
  then show ?case by (auto simp: delete_all_groups_def group_ok_def group_ids_def)
next
  case (step_leave now uid db b db')
  then show ?case by (auto simp: remove_user_from_all_groups_def leave_groups_ok)
next
  case (step_create share us now u names db gs db')
  then show ?case by (auto simp: create_groups_by_group_names_def create_named_ok)
qed (auto simp: set_group_user_ids_by_id_def commit_simps
      intro: sync_groups_ok add_users_ok remove_users_ok)

text \<open>
  Whatever sequence of group operations runs, group ids, membership ids and (group, user)
  pairs stay unique and, where the engine enforces foreign keys, no membership outlives its group.
\<close>

theorem groups_always_consistent:
  assumes "group_reachable db"
  shows "group_ok db"
  using assms
proof (induction rule: group_reachable.induct)
  case reach_empty
  show ?case by (simp add: group_ok_def group_ids_def)
next
  case (reach_step db db')
  then show ?case by (blast intro: group_step_ok)
qed

theorem groups_always_consistent_witness:
  "\<exists>db. group_reachable db \<and> member_of db ''g'' ''ann'' \<and> group_ok db"
proof -
  let ?form = "\<lparr>gf_name = ''staff'', gf_description = [], gf_permissions = None, gf_data = None\<rparr>"
  let ?db0 = "\<lparr>groups = [], members = [], fk_on = True\<rparr>"
  obtain g where i: "insert_new_group (JBool True) ''g'' 1 ''admin'' ?form ?db0
      = Inr (Some g, \<lparr>groups = [g], members = [], fk_on = True\<rparr>)" and g: "gr_id g = ''g''"
    by (simp add: insert_new_group_def ensure_default_share_config_def Let_def dict_set_def has_key_def
        get_or_def commit_groups_def group_ok_def group_ids_def)
  let ?db2 = "\<lparr>groups = [g], members = [new_member draw 2 ''g'' 0 ''ann''], fk_on = True\<rparr>"
  have s: "set_group_user_ids_by_id draw 2 ''g'' [''ann''] \<lparr>groups = [g], members = [], fk_on = True\<rparr> = Inr ?db2"
    using g by (simp add: set_group_user_ids_by_id_def commit_groups_def group_ok_def group_ids_def delete_insert_def)
  have r2: "group_reachable ?db2"
    by (rule reach_step [OF reach_step [OF reach_empty]]) (rule step_insert [OF i] step_set_members [OF s])+
  have "member_of ?db2 ''g'' ''ann''" by (simp add: member_of_iff)
  then show ?thesis using r2 groups_always_consistent [OF r2] by blast
qed

end
