(* ===== verification/Grants.thy ===== *)
theory Grants
  imports GroupTable
begin

text \<open>
  Access grants (\<open>models/access_grants.py\<close>): the pure functions over grant payloads and the
  table \<open>access_grant\<close> with its queries. A payload is whatever JSON the client sent; a row of
  the table is a record. Pydantic grant objects reach the payload functions as the dict of
  their fields, which is how every one of them reads a field. Drawn uuids and clock readings
  are arguments; a commit checks the primary key and \<open>uq_access_grant_grant\<close>.
\<close>

section \<open>Rows and the commit check\<close>

definition PRINCIPAL_TYPE_ANYONE :: string where "PRINCIPAL_TYPE_ANYONE = ''anyone''"
definition PRINCIPAL_TYPE_GROUP :: string where "PRINCIPAL_TYPE_GROUP = ''group''"
definition PRINCIPAL_TYPE_USER :: string where "PRINCIPAL_TYPE_USER = ''user''"
definition WILDCARD_PRINCIPAL_ID :: string where "WILDCARD_PRINCIPAL_ID = ''*''"

lemmas principal_consts [access_simps] =
  PRINCIPAL_TYPE_ANYONE_def PRINCIPAL_TYPE_GROUP_def PRINCIPAL_TYPE_USER_def WILDCARD_PRINCIPAL_ID_def

record grant =
  gt_id :: string
  gt_rtype :: string
  gt_rid :: string
  gt_ptype :: string
  gt_pid :: string
  gt_perm :: string
  gt_created_at :: int

type_synonym grant_db = "grant list"

definition resource_of :: "grant \<Rightarrow> string \<times> string" where
  "resource_of g = (gt_rtype g, gt_rid g)"

definition principal_of :: "grant \<Rightarrow> string \<times> string \<times> string" where
  "principal_of g = (gt_ptype g, gt_pid g, gt_perm g)"

definition grants_ok :: "grant_db \<Rightarrow> bool" where
  "grants_ok db \<longleftrightarrow> distinct (map gt_id db) \<and> distinct (map (\<lambda>g. (resource_of g, principal_of g)) db)"

definition commit_grants :: "grant_db \<Rightarrow> py_error + grant_db" where
  "commit_grants db = (if grants_ok db then Inr db else Inl IntegrityError)"

section \<open>Legacy access_control dicts\<close>

text \<open>
  An \<open>access_control\<close> value: None, or a dict whose \<open>read\<close> and \<open>write\<close> entries may be missing
  (or empty, which the code treats alike) and hold a list of group ids and a list of user ids, a
  missing list being empty.
\<close>

record perm_data =
  group_ids_of :: "string list"
  user_ids_of :: "string list"

record access_control =
  ac_read :: "perm_data option"
  ac_write :: "perm_data option"

record grant_dict =
  gd_rtype :: string
  gd_rid :: string
  gd_ptype :: string
  gd_pid :: string
  gd_perm :: string

definition perm_grants :: "string \<Rightarrow> string \<Rightarrow> string \<Rightarrow> perm_data option \<Rightarrow> grant_dict list" where
  "perm_grants rt rid perm data =
     (case data of
        None \<Rightarrow> []
      | Some pd \<Rightarrow>
          map (\<lambda>g. \<lparr>gd_rtype = rt, gd_rid = rid, gd_ptype = ''group'', gd_pid = g, gd_perm = perm\<rparr>) (group_ids_of pd)
          @ map (\<lambda>u. \<lparr>gd_rtype = rt, gd_rid = rid, gd_ptype = ''user'', gd_pid = u, gd_perm = perm\<rparr>) (user_ids_of pd))"

definition access_control_to_grants :: "string \<Rightarrow> string \<Rightarrow> access_control option \<Rightarrow> grant_dict list" where
  "access_control_to_grants rt rid ac =
     (case ac of
        None \<Rightarrow>
          (if rt \<noteq> ''file''
           then [\<lparr>gd_rtype = rt, gd_rid = rid, gd_ptype = ''user'', gd_pid = ''*'', gd_perm = ''read''\<rparr>]
           else [])
      | Some a \<Rightarrow>
          (if ac_read a = None \<and> ac_write a = None then []
           else perm_grants rt rid ''read'' (ac_read a) @ perm_grants rt rid ''write'' (ac_write a)))"

section \<open>Grant payloads\<close>

record ngrant =
  ng_id :: string
  ng_ptype :: string
  ng_pid :: string
  ng_perm :: string

type_synonym grant_key = "string \<times> string \<times> string"

text \<open>A field of a grant payload, None (\<open>JNull\<close>) when the grant is no dict or lacks it.\<close>

definition grant_field :: "json \<Rightarrow> string \<Rightarrow> json" where
  "grant_field g name = get (as_dict g) name"

definition normalize_grant :: "string \<Rightarrow> json \<Rightarrow> (grant_key \<times> ngrant) option" where
  "normalize_grant u grant =
     (if \<not> is_dict grant then None
      else let ptype = grant_field grant ''principal_type'';
               pid = grant_field grant ''principal_id'';
               perm = grant_field grant ''permission'';
               gid = grant_field grant ''id''
      in if ptype \<notin> {JStr PRINCIPAL_TYPE_USER, JStr PRINCIPAL_TYPE_GROUP, JStr PRINCIPAL_TYPE_ANYONE} then None
      else if perm \<notin> {JStr ''read'', JStr ''write''} then None
      else if \<not> is_str pid \<or> \<not> truthy pid then None
      else if ptype = JStr PRINCIPAL_TYPE_ANYONE \<and> (pid \<noteq> JStr WILDCARD_PRINCIPAL_ID \<or> perm \<noteq> JStr ''read'') then None
      else Some ((as_str ptype, as_str pid, as_str perm),
             \<lparr>ng_id = (if is_str gid \<and> truthy gid then as_str gid else u),
              ng_ptype = as_str ptype, ng_pid = as_str pid, ng_perm = as_str perm\<rparr>))"

fun normalize_loop :: "(nat \<Rightarrow> string) \<Rightarrow> nat \<Rightarrow> json list \<Rightarrow> (grant_key \<times> ngrant) list \<Rightarrow> (grant_key \<times> ngrant) list" where
  "normalize_loop us i [] deduped = deduped"
| "normalize_loop us i (g # gs) deduped =
     normalize_loop us (Suc i) gs
       (case normalize_grant (us i) g of None \<Rightarrow> deduped | Some (k, n) \<Rightarrow> AList.update k n deduped)"

definition normalize_access_grants :: "(nat \<Rightarrow> string) \<Rightarrow> json list option \<Rightarrow> ngrant list" where
  "normalize_access_grants us gs =
     (case gs of None \<Rightarrow> [] | Some [] \<Rightarrow> [] | Some xs \<Rightarrow> map snd (normalize_loop us 0 xs []))"

text \<open>The checks below read no id, so the uuids their normalisation draws do not matter.\<close>

definition has_public_read_access_grant :: "json list option \<Rightarrow> bool" where
  "has_public_read_access_grant gs = list_ex (\<lambda>g. ng_ptype g = PRINCIPAL_TYPE_USER \<and>
     ng_pid g = WILDCARD_PRINCIPAL_ID \<and> ng_perm g = ''read'') (normalize_access_grants draw gs)"

definition has_public_write_access_grant :: "json list option \<Rightarrow> bool" where
  "has_public_write_access_grant gs = list_ex (\<lambda>g. ng_ptype g = PRINCIPAL_TYPE_USER \<and>
     ng_pid g = WILDCARD_PRINCIPAL_ID \<and> ng_perm g = ''write'') (normalize_access_grants draw gs)"

definition has_anyone_read_access_grant :: "json list option \<Rightarrow> bool" where
  "has_anyone_read_access_grant gs = list_ex (\<lambda>g. ng_ptype g = PRINCIPAL_TYPE_ANYONE \<and>
     ng_pid g = WILDCARD_PRINCIPAL_ID \<and> ng_perm g = ''read'') (normalize_access_grants draw gs)"

definition has_user_access_grant :: "json list option \<Rightarrow> bool" where
  "has_user_access_grant gs = list_ex (\<lambda>g. ng_ptype g = PRINCIPAL_TYPE_USER \<and>
     ng_pid g \<noteq> WILDCARD_PRINCIPAL_ID) (normalize_access_grants draw gs)"

definition strip_user_access_grants :: "json list option \<Rightarrow> json list" where
  "strip_user_access_grants gs =
     (case gs of None \<Rightarrow> []
      | Some xs \<Rightarrow> filter (\<lambda>g. \<not> (grant_field g ''principal_type'' = JStr PRINCIPAL_TYPE_USER \<and>
          grant_field g ''principal_id'' \<noteq> JStr WILDCARD_PRINCIPAL_ID)) xs)"

definition strip_anyone_access_grants :: "json list option \<Rightarrow> json list" where
  "strip_anyone_access_grants gs =
     (case gs of None \<Rightarrow> []
      | Some xs \<Rightarrow> filter (\<lambda>g. grant_field g ''principal_type'' \<noteq> JStr PRINCIPAL_TYPE_ANYONE) xs)"

definition add_once :: "string \<Rightarrow> string list \<Rightarrow> string list" where
  "add_once x xs = (if x \<in> set xs then xs else xs @ [x])"

text \<open>The loop of \<open>grants_to_access_control\<close>: whether the wildcard was seen, and the dict so far.\<close>

fun collect_grants :: "grant list \<Rightarrow> bool \<times> perm_data \<times> perm_data \<Rightarrow> bool \<times> perm_data \<times> perm_data" where
  "collect_grants [] acc = acc"
| "collect_grants (g # gs) (is_public, r, w) =
     collect_grants gs
       (if gt_ptype g = ''user'' \<and> gt_pid g = ''*'' \<and> gt_perm g = ''read'' then (True, r, w)
        else if gt_perm g \<notin> {''read'', ''write''} then (is_public, r, w)
        else let upd = (\<lambda>pd. if gt_ptype g = ''group'' then pd\<lparr>group_ids_of := add_once (gt_pid g) (group_ids_of pd)\<rparr>
                    else if gt_ptype g = ''user'' then pd\<lparr>user_ids_of := add_once (gt_pid g) (user_ids_of pd)\<rparr>
                    else pd)
             in if gt_perm g = ''read'' then (is_public, upd r, w) else (is_public, r, upd w))"

definition empty_perm :: perm_data where
  "empty_perm = \<lparr>group_ids_of = [], user_ids_of = []\<rparr>"

definition grants_to_access_control :: "grant list \<Rightarrow> access_control option" where
  "grants_to_access_control gs =
     (if gs = [] then Some \<lparr>ac_read = None, ac_write = None\<rparr>
      else case collect_grants gs (False, empty_perm, empty_perm) of
             (True, _, _) \<Rightarrow> None
           | (False, r, w) \<Rightarrow> Some \<lparr>ac_read = Some r, ac_write = Some w\<rparr>)"

section \<open>AccessGrantsTable: writes\<close>

definition grant_access ::
  "string \<Rightarrow> int \<Rightarrow> string \<Rightarrow> string \<Rightarrow> string \<Rightarrow> string \<Rightarrow> string \<Rightarrow> grant_db \<Rightarrow> py_error + (grant \<times> grant_db)" where
  "grant_access u now rt rid pt pid perm db =
     (case find (\<lambda>g. resource_of g = (rt, rid) \<and> principal_of g = (pt, pid, perm)) db of
        Some existing \<Rightarrow> Inr (existing, db)
      | None \<Rightarrow>
          (let g = \<lparr>gt_id = u, gt_rtype = rt, gt_rid = rid, gt_ptype = pt, gt_pid = pid, gt_perm = perm,
                    gt_created_at = now\<rparr>
           in case commit_grants (db @ [g]) of Inl e \<Rightarrow> Inl e | Inr db' \<Rightarrow> Inr (g, db')))"

definition revoke_access ::
  "string \<Rightarrow> string \<Rightarrow> string \<Rightarrow> string \<Rightarrow> string \<Rightarrow> grant_db \<Rightarrow> bool \<times> grant_db" where
  "revoke_access rt rid pt pid perm db =
     (let hit = (\<lambda>g. resource_of g = (rt, rid) \<and> principal_of g = (pt, pid, perm))
      in (0 < length (filter hit db), filter (\<lambda>g. \<not> hit g) db))"

definition revoke_all_access :: "string \<Rightarrow> string \<Rightarrow> grant_db \<Rightarrow> nat \<times> grant_db" where
  "revoke_all_access rt rid db =
     (length (filter (\<lambda>g. resource_of g = (rt, rid)) db), filter (\<lambda>g. resource_of g \<noteq> (rt, rid)) db)"

definition row_of_dict :: "(nat \<Rightarrow> string) \<Rightarrow> (nat \<Rightarrow> int) \<Rightarrow> nat \<Rightarrow> grant_dict \<Rightarrow> grant" where
  "row_of_dict us clk i d = \<lparr>gt_id = us i, gt_rtype = gd_rtype d, gt_rid = gd_rid d, gt_ptype = gd_ptype d,
     gt_pid = gd_pid d, gt_perm = gd_perm d, gt_created_at = clk i\<rparr>"

definition set_access_control ::
  "(nat \<Rightarrow> string) \<Rightarrow> (nat \<Rightarrow> int) \<Rightarrow> string \<Rightarrow> string \<Rightarrow> access_control option \<Rightarrow> grant_db \<Rightarrow>
     py_error + (grant list \<times> grant_db)" where
  "set_access_control us clk rt rid ac db =
     (let results = with_index (row_of_dict us clk) 0 (access_control_to_grants rt rid ac)
      in case commit_grants (delete_insert resource_of (rt, rid) results db) of
           Inl e \<Rightarrow> Inl e | Inr db' \<Rightarrow> Inr (results, db'))"

definition row_of_ngrant :: "(nat \<Rightarrow> string) \<Rightarrow> (nat \<Rightarrow> int) \<Rightarrow> string \<Rightarrow> string \<Rightarrow> nat \<Rightarrow> ngrant \<Rightarrow> grant" where
  "row_of_ngrant us clk rt rid i n = \<lparr>gt_id = us i, gt_rtype = rt, gt_rid = rid, gt_ptype = ng_ptype n,
     gt_pid = ng_pid n, gt_perm = ng_perm n, gt_created_at = clk i\<rparr>"

definition set_access_grants ::
  "(nat \<Rightarrow> string) \<Rightarrow> (nat \<Rightarrow> string) \<Rightarrow> (nat \<Rightarrow> int) \<Rightarrow> string \<Rightarrow> string \<Rightarrow> json list option \<Rightarrow> grant_db \<Rightarrow>
     py_error + (grant list \<times> grant_db)" where
  "set_access_grants ns us clk rt rid gs db =
     (let results = with_index (row_of_ngrant us clk rt rid) 0 (normalize_access_grants ns gs)
      in case commit_grants (delete_insert resource_of (rt, rid) results db) of
           Inl e \<Rightarrow> Inl e | Inr db' \<Rightarrow> Inr (results, db'))"

section \<open>AccessGrantsTable: queries\<close>

definition get_grants_by_resource :: "string \<Rightarrow> string \<Rightarrow> grant_db \<Rightarrow> grant list" where
  "get_grants_by_resource rt rid db = filter (\<lambda>g. resource_of g = (rt, rid)) db"

definition get_access_control :: "string \<Rightarrow> string \<Rightarrow> grant_db \<Rightarrow> access_control option" where
  "get_access_control rt rid db = grants_to_access_control (filter (\<lambda>g. resource_of g = (rt, rid)) db)"

definition get_grants_by_resources :: "string \<Rightarrow> string list \<Rightarrow> grant_db \<Rightarrow> (string \<times> grant list) list" where
  "get_grants_by_resources rt rids db =
     (if rids = [] then []
      else foldl (\<lambda>d g. append_at (gt_rid g) g d) (map (\<lambda>r. (r, [])) (from_keys rids))
        (filter (\<lambda>g. gt_rtype g = rt \<and> gt_rid g \<in> set rids) db))"

definition has_anyone_access :: "string \<Rightarrow> string \<Rightarrow> string \<Rightarrow> grant_db \<Rightarrow> bool" where
  "has_anyone_access rt rid perm db =
     list_ex (\<lambda>g. gt_rtype g = rt \<and> gt_rid g = rid \<and> gt_ptype g = PRINCIPAL_TYPE_ANYONE \<and>
       gt_pid g = WILDCARD_PRINCIPAL_ID \<and> gt_perm g = perm) db"

text \<open>\<open>or_(*conditions)\<close>: the wildcard, the user, and the groups when there are any.\<close>

definition principal_conditions :: "string \<Rightarrow> string list \<Rightarrow> (grant \<Rightarrow> bool) list" where
  "principal_conditions uid gids =
     [\<lambda>g. gt_ptype g = ''user'' \<and> gt_pid g = ''*'',
      \<lambda>g. gt_ptype g = ''user'' \<and> gt_pid g = uid]
     @ (if gids \<noteq> [] then [\<lambda>g. gt_ptype g = ''group'' \<and> gt_pid g \<in> set gids] else [])"

definition resolve_group_ids :: "group_db \<Rightarrow> string \<Rightarrow> string list option \<Rightarrow> string list" where
  "resolve_group_ids gdb uid gids =
     (case gids of Some xs \<Rightarrow> xs | None \<Rightarrow> map gr_id (get_groups_by_member_id gdb uid))"

definition has_access ::
  "group_db \<Rightarrow> string \<Rightarrow> string \<Rightarrow> string \<Rightarrow> string \<Rightarrow> string list option \<Rightarrow> grant_db \<Rightarrow> bool" where
  "has_access gdb uid rt rid perm gids db =
     (let conditions = principal_conditions uid (resolve_group_ids gdb uid gids)
      in list_ex (\<lambda>g. gt_rtype g = rt \<and> gt_rid g = rid \<and> gt_perm g = perm \<and> list_ex (\<lambda>c. c g) conditions) db)"

definition get_accessible_resource_ids ::
  "group_db \<Rightarrow> string \<Rightarrow> string \<Rightarrow> string list \<Rightarrow> string \<Rightarrow> string list option \<Rightarrow> grant_db \<Rightarrow> string set" where
  "get_accessible_resource_ids gdb uid rt rids perm gids db =
     (if rids = [] then {}
      else let conditions = principal_conditions uid (resolve_group_ids gdb uid gids)
           in set (map gt_rid (filter (\<lambda>g. gt_rtype g = rt \<and> gt_rid g \<in> set rids \<and> gt_perm g = perm \<and>
                list_ex (\<lambda>c. c g) conditions) db)))"

record user =
  us_id :: string
  us_role :: string

text \<open>\<open>Users.get_users\<close> with the role filter \<open>['!pending']\<close>, and \<open>get_users_by_user_ids\<close>.\<close>

definition users_excluding_role :: "string \<Rightarrow> user list \<Rightarrow> user list" where
  "users_excluding_role role us = filter (\<lambda>u. us_role u \<notin> {role}) us"

definition get_users_by_user_ids :: "string set \<Rightarrow> user list \<Rightarrow> user list" where
  "get_users_by_user_ids ids us = filter (\<lambda>u. us_id u \<in> ids) us"

fun granted_user_ids :: "group_db \<Rightarrow> grant list \<Rightarrow> string set" where
  "granted_user_ids gdb [] = {}"
| "granted_user_ids gdb (g # gs) =
     (if gt_ptype g = ''user'' then {gt_pid g}
      else if gt_ptype g = ''group'' then set (get_group_user_ids_by_id gdb (gt_pid g))
      else {}) \<union> granted_user_ids gdb gs"

definition get_users_with_access ::
  "group_db \<Rightarrow> user list \<Rightarrow> string \<Rightarrow> string \<Rightarrow> string \<Rightarrow> grant_db \<Rightarrow> user list" where
  "get_users_with_access gdb us rt rid perm db =
     (let gs = filter (\<lambda>g. resource_of g = (rt, rid) \<and> gt_perm g = perm) db
      in if list_ex (\<lambda>g. gt_ptype g = ''user'' \<and> gt_pid g = ''*'') gs
         then users_excluding_role ''pending'' us
         else let ids = granted_user_ids gdb gs
              in if ids = {} then [] else get_users_by_user_ids ids us)"

record document =
  doc_id :: string
  doc_user_id :: string

definition grant_exists ::
  "string option \<Rightarrow> string list \<Rightarrow> string \<Rightarrow> string \<Rightarrow> grant_db \<Rightarrow> document \<Rightarrow> bool" where
  "grant_exists uid gids rt perm db doc =
     list_ex (\<lambda>g. gt_rtype g = rt \<and> gt_rid g = doc_id doc \<and> gt_perm g = perm \<and>
       ((gt_ptype g = ''user'' \<and> gt_pid g = ''*'') \<or>
        (case uid of None \<Rightarrow> False | Some u \<Rightarrow> gt_ptype g = ''user'' \<and> gt_pid g = u) \<or>
        (gids \<noteq> [] \<and> gt_ptype g = ''group'' \<and> gt_pid g \<in> set gids))) db"

definition has_read_only_permission_filter ::
  "string option \<Rightarrow> string list \<Rightarrow> string \<Rightarrow> grant_db \<Rightarrow> document list \<Rightarrow> document list" where
  "has_read_only_permission_filter uid gids rt db docs =
     filter (\<lambda>d. grant_exists uid gids rt ''read'' db d \<and> \<not> grant_exists uid gids rt ''write'' db d \<and>
       (case uid of None \<Rightarrow> True | Some u \<Rightarrow> doc_user_id d \<noteq> u)) docs"

text \<open>The rows of the query that the added filter keeps; \<open>uid\<close> is None for a falsy user id.\<close>

definition has_permission_filter ::
  "string option \<Rightarrow> string list \<Rightarrow> string \<Rightarrow> string \<Rightarrow> grant_db \<Rightarrow> document list \<Rightarrow> document list" where
  "has_permission_filter uid gids rt perm db docs =
     (if perm = ''read_only'' then has_read_only_permission_filter uid gids rt db docs
      else if gids = [] \<and> uid = None then docs
      else filter (\<lambda>d. grant_exists uid gids rt perm db d \<or>
             (case uid of None \<Rightarrow> False | Some u \<Rightarrow> doc_user_id d = u)) docs)"

section \<open>What a payload grants\<close>

definition grant_key_of :: "json \<Rightarrow> grant_key option" where
  "grant_key_of g = map_option fst (normalize_grant [] g)"

definition payload_grants :: "json list \<Rightarrow> grant_key set" where
  "payload_grants gs = {k. \<exists>g \<in> set gs. grant_key_of g = Some k}"

definition ngrant_key :: "ngrant \<Rightarrow> grant_key" where
  "ngrant_key n = (ng_ptype n, ng_pid n, ng_perm n)"

lemma normalize_grant_key:
  "map_option fst (normalize_grant u g) = grant_key_of g"
  by (simp add: grant_key_of_def normalize_grant_def Let_def)

lemma normalize_grant_eq:
  "normalize_grant u g = map_option (\<lambda>k. (k,
     \<lparr>ng_id = (if is_str (grant_field g ''id'') \<and> truthy (grant_field g ''id'') then as_str (grant_field g ''id'') else u),
      ng_ptype = fst k, ng_pid = fst (snd k), ng_perm = snd (snd k)\<rparr>)) (grant_key_of g)"
  unfolding grant_key_of_def normalize_grant_def Let_def
  by (simp only: if_distrib [of "map_option _"] option.map fst_conv snd_conv)

lemma normalize_grant_Some:
  "normalize_grant u g = Some (k, n) \<Longrightarrow> k = ngrant_key n \<and> grant_key_of g = Some k"
  by (auto simp: normalize_grant_eq ngrant_key_def)

lemma normalize_grant_None: "normalize_grant u g = None \<longleftrightarrow> grant_key_of g = None"
  by (metis normalize_grant_key map_option_is_None)

definition keyed :: "(grant_key \<times> ngrant) list \<Rightarrow> bool" where
  "keyed al \<longleftrightarrow> distinct (map fst al) \<and> (\<forall>(k, n) \<in> set al. k = ngrant_key n)"

lemma keyed_update: "keyed al \<Longrightarrow> keyed (AList.update (ngrant_key n) n al)"
  using set_update_subset [of "ngrant_key n" n al] by (auto simp: keyed_def)

lemma normalize_loop_keyed: "keyed al \<Longrightarrow> keyed (normalize_loop us i gs al)"
proof (induction gs arbitrary: i al)
  case (Cons g gs)
  show ?case
  proof (cases "normalize_grant (us i) g")
    case (Some kn)
    obtain k n where kn: "kn = (k, n)" by (cases kn)
    with Some have "k = ngrant_key n" by (auto dest: normalize_grant_Some)
    then show ?thesis using Some kn Cons.IH [OF keyed_update [OF Cons.prems]] by simp
  qed (use Cons in simp)
qed simp

lemma normalize_loop_keys:
  "fst ` set (normalize_loop us i gs al) = fst ` set al \<union> payload_grants gs"
proof (induction gs arbitrary: i al)
  case (Cons g gs)
  show ?case
  proof (cases "normalize_grant (us i) g")
    case None
    then have "grant_key_of g = None" by (simp add: normalize_grant_None)
    then have "payload_grants (g # gs) = payload_grants gs" by (auto simp: payload_grants_def)
    then show ?thesis using None Cons.IH by simp
  next
    case (Some kn)
    obtain k n where kn: "kn = (k, n)" by (cases kn)
    with Some have "grant_key_of g = Some k" by (auto dest: normalize_grant_Some)
    then have "payload_grants (g # gs) = insert k (payload_grants gs)" by (auto simp: payload_grants_def)
    then show ?thesis using Some kn Cons.IH by auto
  qed
qed (simp add: payload_grants_def)

lemma normalize_eq_loop:
  "normalize_access_grants us (Some gs) = map snd (normalize_loop us 0 gs [])"
  by (cases gs) (simp_all add: normalize_access_grants_def)

lemma keyed_map_snd: "keyed al \<Longrightarrow> map ngrant_key (map snd al) = map fst al"
  by (auto simp: keyed_def)

lemma normalize_keys:
  shows "distinct (map ngrant_key (normalize_access_grants us (Some gs)))"
    and "ngrant_key ` set (normalize_access_grants us (Some gs)) = payload_grants gs"
proof -
  have k: "keyed (normalize_loop us 0 gs [])" by (rule normalize_loop_keyed) (simp add: keyed_def)
  show "distinct (map ngrant_key (normalize_access_grants us (Some gs)))"
    using k by (simp only: normalize_eq_loop keyed_map_snd [OF k]) (simp add: keyed_def)
  have "set (map ngrant_key (normalize_access_grants us (Some gs))) = payload_grants gs"
    by (simp only: normalize_eq_loop keyed_map_snd [OF k]) (simp add: normalize_loop_keys)
  then show "ngrant_key ` set (normalize_access_grants us (Some gs)) = payload_grants gs" by simp
qed

lemma list_ex_normalized:
  "list_ex (\<lambda>g. ng_ptype g = pt \<and> ng_pid g = pid \<and> ng_perm g = perm) (normalize_access_grants us (Some gs))
   \<longleftrightarrow> (pt, pid, perm) \<in> payload_grants gs"
  unfolding normalize_keys(2) [of us gs, symmetric]
  by (auto simp: list_ex_iff ngrant_key_def image_iff)

lemma has_grant_checks [access_simps]:
  "has_public_read_access_grant (Some gs) \<longleftrightarrow> (''user'', ''*'', ''read'') \<in> payload_grants gs"
  "has_public_write_access_grant (Some gs) \<longleftrightarrow> (''user'', ''*'', ''write'') \<in> payload_grants gs"
  "has_anyone_read_access_grant (Some gs) \<longleftrightarrow> (''anyone'', ''*'', ''read'') \<in> payload_grants gs"
  by (simp_all add: has_public_read_access_grant_def has_public_write_access_grant_def
      has_anyone_read_access_grant_def principal_consts list_ex_normalized)

lemma has_user_check [access_simps]:
  "has_user_access_grant (Some gs) \<longleftrightarrow> (\<exists>pid perm. (''user'', pid, perm) \<in> payload_grants gs \<and> pid \<noteq> ''*'')"
proof
  assume "has_user_access_grant (Some gs)"
  then obtain n where n: "n \<in> set (normalize_access_grants draw (Some gs))" "ng_ptype n = ''user''" "ng_pid n \<noteq> ''*''"
    unfolding has_user_access_grant_def principal_consts list_ex_iff by blast
  then have "(''user'', ng_pid n, ng_perm n) \<in> payload_grants gs"
    unfolding normalize_keys(2) [of draw gs, symmetric] by (intro image_eqI [of _ _ n]) (simp_all add: ngrant_key_def)
  with n(3) show "\<exists>pid perm. (''user'', pid, perm) \<in> payload_grants gs \<and> pid \<noteq> ''*''" by blast
next
  assume "\<exists>pid perm. (''user'', pid, perm) \<in> payload_grants gs \<and> pid \<noteq> ''*''"
  then obtain n where "n \<in> set (normalize_access_grants draw (Some gs))" "ng_ptype n = ''user''" "ng_pid n \<noteq> ''*''"
    unfolding normalize_keys(2) [of draw gs, symmetric] ngrant_key_def by auto
  then show "has_user_access_grant (Some gs)"
    unfolding has_user_access_grant_def principal_consts list_ex_iff by blast
qed

text \<open>Which grants a payload element can stand for, spelled out.\<close>

lemma is_str_as_str: "is_str v \<longleftrightarrow> v = JStr (as_str v)"
  by (cases v) auto

lemma grant_key_of_eq:
  "grant_key_of g =
     (if is_dict g \<and> grant_field g ''principal_type'' \<in> {JStr ''user'', JStr ''group'', JStr ''anyone''} \<and>
         grant_field g ''permission'' \<in> {JStr ''read'', JStr ''write''} \<and>
         is_str (grant_field g ''principal_id'') \<and> truthy (grant_field g ''principal_id'') \<and>
         (grant_field g ''principal_type'' = JStr ''anyone'' \<longrightarrow>
            grant_field g ''principal_id'' = JStr ''*'' \<and> grant_field g ''permission'' = JStr ''read'')
      then Some (as_str (grant_field g ''principal_type''), as_str (grant_field g ''principal_id''),
                 as_str (grant_field g ''permission''))
      else None)"
  unfolding grant_key_of_def normalize_grant_def Let_def principal_consts
  by (simp only: if_distrib [of "map_option _"] option.map fst_conv snd_conv split: if_split) blast

lemma grant_key_of_iff:
  "grant_key_of g = Some (pt, pid, perm) \<longleftrightarrow>
     is_dict g \<and> grant_field g ''principal_type'' = JStr pt \<and> grant_field g ''principal_id'' = JStr pid \<and>
     grant_field g ''permission'' = JStr perm \<and> pt \<in> {''user'', ''group'', ''anyone''} \<and>
     perm \<in> {''read'', ''write''} \<and> pid \<noteq> [] \<and> (pt = ''anyone'' \<longrightarrow> pid = ''*'' \<and> perm = ''read'')"
proof (cases "is_dict g \<and> is_str (grant_field g ''principal_type'') \<and>
    is_str (grant_field g ''principal_id'') \<and> is_str (grant_field g ''permission'')")
  case True
  then obtain p i q where f: "grant_field g ''principal_type'' = JStr p" "grant_field g ''principal_id'' = JStr i"
      "grant_field g ''permission'' = JStr q" "is_dict g"
    using is_str_as_str by blast
  show ?thesis
  proof (cases "p = pt \<and> i = pid \<and> q = perm")
    case True
    have *: "C = D \<Longrightarrow> (if C then Some x else None) = Some x \<longleftrightarrow> D" for C D and x :: grant_key by simp
    show ?thesis
      unfolding grant_key_of_eq f True [THEN conjunct1] True [THEN conjunct2, THEN conjunct1]
        True [THEN conjunct2, THEN conjunct2] as_str.simps
      by (rule *) (simp only: f(4) insert_iff empty_iff json.inject is_str.simps truthy.simps simp_thms)
  next
    case False
    have *: "x \<noteq> y \<Longrightarrow> (if C then Some x else None) \<noteq> Some y" for C and x y :: grant_key by simp
    have "grant_key_of g \<noteq> Some (pt, pid, perm)"
      unfolding grant_key_of_eq f as_str.simps by (rule *) (use False in blast)
    then show ?thesis using False unfolding f json.inject by blast
  qed
next
  case False
  have str: "v \<in> {JStr a, JStr b, JStr c} \<Longrightarrow> is_str v" "v \<in> {JStr a, JStr b} \<Longrightarrow> is_str v"
    "v = JStr a \<Longrightarrow> is_str v" for v a b c by auto
  have "grant_key_of g = None"
    unfolding grant_key_of_eq by (rule if_not_P) (use False str(1,2) in blast)
  moreover have "\<not> (is_dict g \<and> grant_field g ''principal_type'' = JStr pt \<and>
      grant_field g ''principal_id'' = JStr pid \<and> grant_field g ''permission'' = JStr perm)"
    using False str(3) by blast
  ultimately show ?thesis by (simp only: option.distinct simp_thms) blast
qed

section \<open>The table as a map from resources to what they grant\<close>

definition grants_at :: "grant_db \<Rightarrow> string \<times> string \<Rightarrow> grant_key set" where
  "grants_at db r = principal_of ` {g \<in> set db. resource_of g = r}"

text \<open>Whom a set of grants lets do what.\<close>

definition permits :: "grant_key set \<Rightarrow> string \<Rightarrow> string set \<Rightarrow> string \<Rightarrow> bool" where
  "permits gs uid gids perm \<longleftrightarrow>
     (''user'', ''*'', perm) \<in> gs \<or> (''user'', uid, perm) \<in> gs \<or> (\<exists>g \<in> gids. (''group'', g, perm) \<in> gs)"

lemma grants_at_iff:
  "(pt, pid, perm) \<in> grants_at db r \<longleftrightarrow>
   (\<exists>g \<in> set db. resource_of g = r \<and> gt_ptype g = pt \<and> gt_pid g = pid \<and> gt_perm g = perm)"
  by (auto simp: grants_at_def principal_of_def)

lemma list_ex_principal_conditions:
  "list_ex (\<lambda>c. c g) (principal_conditions uid gids) \<longleftrightarrow>
   gt_ptype g = ''user'' \<and> (gt_pid g = ''*'' \<or> gt_pid g = uid) \<or> gt_ptype g = ''group'' \<and> gt_pid g \<in> set gids"
  by (auto simp: principal_conditions_def)

lemma has_access_permits:
  "has_access gdb uid rt rid perm gids db \<longleftrightarrow>
   permits (grants_at db (rt, rid)) uid (set (resolve_group_ids gdb uid gids)) perm"
  unfolding has_access_def Let_def list_ex_principal_conditions permits_def grants_at_iff
  by (auto simp: list_ex_iff resource_of_def)

lemma permits_empty [simp]: "\<not> permits {} uid gids perm"
  by (simp add: permits_def)

lemma grants_at_delete_insert:
  assumes "\<And>r. r \<in> set new \<Longrightarrow> resource_of r = k"
  shows "grants_at (delete_insert resource_of k new db) = (grants_at db)(k := principal_of ` set new)"
  using assms by (auto simp: grants_at_def delete_insert_def fun_eq_iff)

interpretation grant_replace: row_replace resource_of "delete_insert resource_of"
  by (rule delete_insert_row_replace)

lemma commit_grants_Inr [commit_simps]:
  "commit_grants db = Inr db' \<longleftrightarrow> grants_ok db \<and> db' = db"
  by (auto simp: commit_grants_def)

lemma commit_grants_Inl [commit_simps]:
  "commit_grants db = Inl e \<longleftrightarrow> \<not> grants_ok db \<and> e = IntegrityError"
  by (auto simp: commit_grants_def)

definition fresh_ids :: "(nat \<Rightarrow> string) \<Rightarrow> grant_db \<Rightarrow> bool" where
  "fresh_ids us db \<longleftrightarrow> inj us \<and> (\<forall>i. us i \<notin> gt_id ` set db)"

lemma grants_ok_insert:
  assumes "grants_ok db" and "fresh_ids us db"
    and "\<And>i x. gt_id (f i x) = us i"
    and "\<And>x. x \<in> set (with_index f 0 xs) \<Longrightarrow> resource_of x = r"
    and "distinct (map (\<lambda>g. (resource_of g, principal_of g)) (with_index f 0 xs))"
  shows "grants_ok (delete_insert resource_of r (with_index f 0 xs) db)"
proof -
  let ?new = "with_index f 0 xs"
  have ids: "distinct (map gt_id ?new)"
    using assms(2,3) by (auto simp: fresh_ids_def intro: distinct_with_index_draws)
  have "\<exists>i. gt_id m = us i" if "m \<in> set ?new" for m
    using that assms(3) with_index_memD [of m f 0 xs] by auto
  then have "gt_id ` set ?new \<inter> gt_id ` set db = {}"
    using assms(2) unfolding fresh_ids_def by fastforce
  then show ?thesis
    using assms(1,4,5) ids by (auto simp: grants_ok_def delete_insert_def intro: distinct_map_filterI)
qed

lemma stored_payload:
  assumes "grants_ok db" and "fresh_ids us db"
  shows "\<exists>rows db'. set_access_grants ns us clk rt rid (Some gs) db = Inr (rows, db') \<and> grants_ok db' \<and>
     get_grants_by_resource rt rid db' = rows \<and> distinct (map principal_of rows) \<and>
     grants_at db' = (grants_at db)((rt, rid) := payload_grants gs)"
proof -
  let ?ns = "normalize_access_grants ns (Some gs)"
  define rows where "rows = with_index (row_of_ngrant us clk rt rid) 0 ?ns"
  define db' where "db' = delete_insert resource_of (rt, rid) rows db"
  have fields: "gt_id (row_of_ngrant us clk rt rid i n) = us i"
    "resource_of (row_of_ngrant us clk rt rid i n) = (rt, rid)"
    "principal_of (row_of_ngrant us clk rt rid i n) = ngrant_key n" for i n
    by (simp_all add: row_of_ngrant_def resource_of_def principal_of_def ngrant_key_def)
  have prin: "map principal_of rows = map ngrant_key ?ns"
    unfolding rows_def by (rule map_with_index) (simp add: fields)
  have res: "\<And>r. r \<in> set rows \<Longrightarrow> resource_of r = (rt, rid)"
    using fields by (auto simp: rows_def dest: with_index_memD)
  then have "map (\<lambda>g. (resource_of g, principal_of g)) rows = map (Pair (rt, rid)) (map ngrant_key ?ns)"
    by (simp flip: prin)
  then have ok: "grants_ok db'"
    using normalize_keys(1) [of ns gs] res assms fields unfolding db'_def rows_def
    by (intro grants_ok_insert) (simp_all add: distinct_map inj_on_def)
  have "principal_of ` set rows = payload_grants gs"
    using prin normalize_keys(2) [of ns gs] by (metis set_map)
  then have "grants_at db' = (grants_at db)((rt, rid) := payload_grants gs)"
    unfolding db'_def by (simp add: grants_at_delete_insert [OF res])
  moreover have "get_grants_by_resource rt rid db' = rows"
    using grant_replace.replace_own [OF res] by (simp add: get_grants_by_resource_def db'_def)
  moreover have "distinct (map principal_of rows)"
    using prin normalize_keys(1) [of ns gs] by simp
  moreover have "set_access_grants ns us clk rt rid (Some gs) db = Inr (rows, db')"
    using ok by (simp add: set_access_grants_def Let_def rows_def db'_def commit_grants_def)
  ultimately show ?thesis using ok by blast
qed

text \<open>
  C17. Storing a grant payload, whatever JSON it is, commits, and the resource's rows then grant
  exactly what the payload's valid elements say, each grant once; every other resource is
  untouched.
\<close>

theorem set_access_grants_exact:
  assumes "grants_ok db" and "fresh_ids us db"
  shows "\<exists>rows db'. set_access_grants ns us clk rt rid (Some gs) db = Inr (rows, db') \<and> grants_ok db' \<and>
     get_grants_by_resource rt rid db' = rows \<and> distinct (map principal_of rows) \<and>
     grants_at db' = (grants_at db)((rt, rid) := payload_grants gs)"
  using assms by (rule stored_payload)

text \<open>Grants of the payload shapes the witnesses use.\<close>

definition grant_json :: "string \<Rightarrow> string \<Rightarrow> string \<Rightarrow> json" where
  "grant_json pt pid perm = JObj [(''principal_type'', JStr pt), (''principal_id'', JStr pid), (''permission'', JStr perm)]"

lemma grant_key_of_json:
  assumes "pt \<in> {''user'', ''group''}" and "perm \<in> {''read'', ''write''}" and "pid \<noteq> []"
  shows "grant_key_of (grant_json pt pid perm) = Some (pt, pid, perm)"
  using assms unfolding grant_key_of_iff by (auto simp: grant_json_def grant_field_def get_or_def)

lemma payload_grants_simps [simp]:
  "payload_grants [] = {}"
  "payload_grants (g # gs) = (case grant_key_of g of None \<Rightarrow> {} | Some k \<Rightarrow> {k}) \<union> payload_grants gs"
  by (auto simp: payload_grants_def split: option.splits)

lemma grants_ok_Nil [simp]: "grants_ok []" "fresh_ids draw []"
  by (simp_all add: grants_ok_def fresh_ids_def inj_draw)

theorem set_access_grants_exact_witness:
  "\<exists>rows db'. set_access_grants draw draw int ''note'' ''n1''
       (Some [grant_json ''user'' ''ann'' ''read'', JInt 3, grant_json ''user'' ''ann'' ''read'']) [] = Inr (rows, db') \<and>
     grants_at db' (''note'', ''n1'') = {(''user'', ''ann'', ''read'')}"
proof -
  have "grant_key_of (JInt 3) = None" by (simp add: grant_key_of_def normalize_grant_def)
  then have "payload_grants [grant_json ''user'' ''ann'' ''read'', JInt 3, grant_json ''user'' ''ann'' ''read''] =
      {(''user'', ''ann'', ''read'')}" by (simp add: grant_key_of_json)
  then show ?thesis
    using set_access_grants_exact [of "[]" draw draw int "''note''" "''n1''"
        "[grant_json ''user'' ''ann'' ''read'', JInt 3, grant_json ''user'' ''ann'' ''read'']"] by fastforce
qed

section \<open>Interface: a store of grants\<close>

text \<open>
  What a client of the table relies on: the table holds a set of grants for each resource, and
  its operations add one, drop one, or drop all of a resource, and nothing else. A put draws an
  id, which a client gets fresh.
\<close>

locale grant_store =
  fixes view :: "'st \<Rightarrow> 'r \<Rightarrow> 'k set"
    and valid :: "'st \<Rightarrow> bool"
    and fresh :: "'u \<Rightarrow> 'st \<Rightarrow> bool"
    and put :: "'u \<Rightarrow> 'r \<Rightarrow> 'k \<Rightarrow> 'st \<Rightarrow> 'st option"
    and take_back :: "'r \<Rightarrow> 'k \<Rightarrow> 'st \<Rightarrow> 'st"
    and wipe :: "'r \<Rightarrow> 'st \<Rightarrow> 'st"
  assumes put_works: "valid s \<Longrightarrow> fresh u s \<Longrightarrow>
      \<exists>s'. put u r k s = Some s' \<and> valid s' \<and> view s' = (view s)(r := insert k (view s r))"
    and take_back_works: "valid s \<Longrightarrow>
      valid (take_back r k s) \<and> view (take_back r k s) = (view s)(r := view s r - {k})"
    and wipe_works: "valid s \<Longrightarrow> valid (wipe r s) \<and> view (wipe r s) = (view s)(r := {})"
begin

lemma put_then_take_back:
  assumes "valid s" and "fresh u s" and "k \<notin> view s r"
  shows "\<exists>s'. put u r k s = Some s' \<and> view (take_back r k s') = view s"
proof -
  obtain s' where s': "put u r k s = Some s'" "valid s'" "view s' = (view s)(r := insert k (view s r))"
    using put_works [OF assms(1,2)] by blast
  then have "view (take_back r k s') = (view s)(r := insert k (view s r) - {k})"
    using take_back_works [of s' r k] by simp
  also have "\<dots> = view s" using assms(3) by (simp add: fun_eq_iff)
  finally show ?thesis using s'(1) by blast
qed

lemma put_then_wipe:
  assumes "valid s" and "fresh u s"
  shows "\<exists>s'. put u r k s = Some s' \<and> view (wipe r s') = view (wipe r s)"
  using put_works [OF assms, of r k] wipe_works [OF assms(1), of r] wipe_works [of _ r] by fastforce

end

definition put_grant :: "string \<times> int \<Rightarrow> string \<times> string \<Rightarrow> grant_key \<Rightarrow> grant_db \<Rightarrow> grant_db option" where
  "put_grant = (\<lambda>(u, now) (rt, rid) (pt, pid, perm) db.
     case grant_access u now rt rid pt pid perm db of Inl _ \<Rightarrow> None | Inr (g, db') \<Rightarrow> Some db')"

lemma grants_at_filter:
  "grants_at (filter (\<lambda>g. \<not> (resource_of g = r \<and> principal_of g = k)) db) = (grants_at db)(r := grants_at db r - {k})"
  by (auto simp: grants_at_def fun_eq_iff)

lemma grants_at_append:
  "grants_at (db @ [g]) r = grants_at db r \<union> (if resource_of g = r then {principal_of g} else {})"
  by (auto simp: grants_at_def)

lemma grants_at_wipe: "grants_at (filter (\<lambda>g. resource_of g \<noteq> r) db) = (grants_at db)(r := {})"
  by (auto simp: grants_at_def fun_eq_iff)

lemma grants_ok_filter: "grants_ok db \<Longrightarrow> grants_ok (filter P db)"
  by (auto simp: grants_ok_def)

lemma grant_access_works:
  assumes ok: "grants_ok db" and fresh: "u \<notin> gt_id ` set db"
  shows "\<exists>g db'. grant_access u now rt rid pt pid perm db = Inr (g, db') \<and> grants_ok db' \<and> g \<in> set db' \<and>
     resource_of g = (rt, rid) \<and> principal_of g = (pt, pid, perm) \<and>
     grants_at db' = (grants_at db)((rt, rid) := insert (pt, pid, perm) (grants_at db (rt, rid)))"
proof (cases "find (\<lambda>g. resource_of g = (rt, rid) \<and> principal_of g = (pt, pid, perm)) db")
  case None
  define g where "g = \<lparr>gt_id = u, gt_rtype = rt, gt_rid = rid, gt_ptype = pt, gt_pid = pid, gt_perm = perm,
    gt_created_at = now\<rparr>"
  have key: "resource_of g = (rt, rid)" "principal_of g = (pt, pid, perm)" "gt_id g = u"
    by (simp_all add: g_def resource_of_def principal_of_def)
  have "\<forall>x \<in> set db. \<not> (resource_of x = (rt, rid) \<and> principal_of x = (pt, pid, perm))"
    using None by (simp add: find_None_mem)
  then have "grants_ok (db @ [g])"
    using ok fresh key by (auto simp: grants_ok_def)
  moreover have "grants_at (db @ [g]) = (grants_at db)((rt, rid) := insert (pt, pid, perm) (grants_at db (rt, rid)))"
    using key by (auto simp: grants_at_append fun_eq_iff)
  moreover have "grant_access u now rt rid pt pid perm db = Inr (g, db @ [g])"
    using None calculation(1) by (simp add: grant_access_def commit_grants_def g_def Let_def)
  ultimately show ?thesis using key by (metis in_set_conv_decomp)
next
  case (Some g)
  then have g: "g \<in> set db" "resource_of g = (rt, rid)" "principal_of g = (pt, pid, perm)"
    by (auto dest: find_Some_mem)
  then have "(pt, pid, perm) \<in> grants_at db (rt, rid)" by (auto simp: grants_at_def intro!: image_eqI [of _ _ g])
  then have "grants_at db = (grants_at db)((rt, rid) := insert (pt, pid, perm) (grants_at db (rt, rid)))"
    by (simp add: insert_absorb)
  then show ?thesis using Some g ok by (simp add: grant_access_def)
qed

interpretation grants: grant_store grants_at grants_ok "\<lambda>(u, now :: int) db. u \<notin> gt_id ` set db" put_grant
  "\<lambda>(rt, rid) (pt, pid, perm) db. snd (revoke_access rt rid pt pid perm db)"
  "\<lambda>(rt, rid) db. snd (revoke_all_access rt rid db)"
proof
  fix s u r k
  assume "grants_ok s" and "(\<lambda>(u, now :: int) db. u \<notin> gt_id ` set db) u s"
  then show "\<exists>s'. put_grant u r k s = Some s' \<and> grants_ok s' \<and>
      grants_at s' = (grants_at s)(r := insert k (grants_at s r))"
    using grant_access_works [of s "fst u" "snd u" "fst r" "snd r" "fst k" "fst (snd k)" "snd (snd k)"]
    by (fastforce simp: put_grant_def split_beta)
next
  fix s r k
  assume "grants_ok s"
  then show "grants_ok ((\<lambda>(rt, rid) (pt, pid, perm) db. snd (revoke_access rt rid pt pid perm db)) r k s) \<and>
      grants_at ((\<lambda>(rt, rid) (pt, pid, perm) db. snd (revoke_access rt rid pt pid perm db)) r k s) =
      (grants_at s)(r := grants_at s r - {k})"
    using grants_at_filter [of r k s] by (simp add: revoke_access_def split_beta Let_def grants_ok_filter)
next
  fix s r
  assume "grants_ok s"
  then show "grants_ok ((\<lambda>(rt, rid) db. snd (revoke_all_access rt rid db)) r s) \<and>
      grants_at ((\<lambda>(rt, rid) db. snd (revoke_all_access rt rid db)) r s) = (grants_at s)(r := {})"
    by (auto simp: revoke_all_access_def split_beta grants_at_wipe grants_ok_filter)
qed

lemma filter_card:
  assumes "distinct (map f xs)"
  shows "length (filter P xs) = card (f ` {x \<in> set xs. P x})"
proof -
  have "length (filter P xs) = length (map f (filter P xs))" by simp
  also have "\<dots> = card (set (map f (filter P xs)))"
    using distinct_card [OF distinct_map_filterI [OF assms, of P]] by simp
  finally show ?thesis by simp
qed

text \<open>
  C20. The table refines a map from resources to sets of grants: granting adds one grant and
  returns its row, revoking removes one and reports whether it was there, revoking all empties
  the resource and reports how many grants it had.
\<close>

theorem grant_table_refines:
  assumes ok: "grants_ok db" and fresh: "u \<notin> gt_id ` set db"
  shows "(\<exists>g db'. grant_access u now rt rid pt pid perm db = Inr (g, db') \<and> grants_ok db' \<and> g \<in> set db' \<and>
       resource_of g = (rt, rid) \<and> principal_of g = (pt, pid, perm) \<and>
       grants_at db' = (grants_at db)((rt, rid) := insert (pt, pid, perm) (grants_at db (rt, rid)))) \<and>
     (\<exists>db'. revoke_access rt rid pt pid perm db = ((pt, pid, perm) \<in> grants_at db (rt, rid), db') \<and> grants_ok db' \<and>
       grants_at db' = (grants_at db)((rt, rid) := grants_at db (rt, rid) - {(pt, pid, perm)})) \<and>
     (\<exists>db'. revoke_all_access rt rid db = (card (grants_at db (rt, rid)), db') \<and> grants_ok db' \<and>
       grants_at db' = (grants_at db)((rt, rid) := {}))"
proof (intro conjI)
  have "fst (revoke_access rt rid pt pid perm db) \<longleftrightarrow> (pt, pid, perm) \<in> grants_at db (rt, rid)"
    by (auto simp: revoke_access_def grants_at_def filter_empty_conv image_iff)
  then show "\<exists>db'. revoke_access rt rid pt pid perm db = ((pt, pid, perm) \<in> grants_at db (rt, rid), db') \<and>
      grants_ok db' \<and> grants_at db' = (grants_at db)((rt, rid) := grants_at db (rt, rid) - {(pt, pid, perm)})"
    using grants.take_back_works [OF ok, of "(rt, rid)" "(pt, pid, perm)"] by (simp add: prod_eq_iff)
  have key: "distinct (map (\<lambda>g. (resource_of g, principal_of g)) db)" using ok by (simp add: grants_ok_def)
  have "(\<lambda>g. (resource_of g, principal_of g)) ` {x \<in> set db. resource_of x = (rt, rid)}
      = Pair (rt, rid) ` grants_at db (rt, rid)"
    by (auto simp: grants_at_def image_iff)
  then have "length (filter (\<lambda>g. resource_of g = (rt, rid)) db) = card (Pair (rt, rid) ` grants_at db (rt, rid))"
    using filter_card [OF key] by simp
  also have "\<dots> = card (grants_at db (rt, rid))"
    by (rule card_image) (simp add: inj_on_def)
  finally have "fst (revoke_all_access rt rid db) = card (grants_at db (rt, rid))"
    by (simp add: revoke_all_access_def)
  then show "\<exists>db'. revoke_all_access rt rid db = (card (grants_at db (rt, rid)), db') \<and> grants_ok db' \<and>
       grants_at db' = (grants_at db)((rt, rid) := {})"
    using grants.wipe_works [OF ok, of "(rt, rid)"] by (simp add: prod_eq_iff)
qed (rule grant_access_works [OF ok fresh])

theorem grant_table_refines_witness:
  "\<exists>g db'. grant_access ''x'' 1 ''note'' ''n'' ''user'' ''ann'' ''read'' [] = Inr (g, db') \<and>
     grants_at db' (''note'', ''n'') = {(''user'', ''ann'', ''read'')}"
proof -
  have "\<exists>g db'. grant_access ''x'' 1 ''note'' ''n'' ''user'' ''ann'' ''read'' [] = Inr (g, db') \<and> grants_ok db' \<and>
      g \<in> set db' \<and> resource_of g = (''note'', ''n'') \<and> principal_of g = (''user'', ''ann'', ''read'') \<and>
      grants_at db' = (grants_at [])((''note'', ''n'') := insert (''user'', ''ann'', ''read'') (grants_at [] (''note'', ''n'')))"
    by (rule grant_table_refines [THEN conjunct1]) simp_all
  moreover have "grants_at [] (''note'', ''n'') = {}" by (simp add: grants_at_def)
  ultimately show ?thesis by (metis fun_upd_same)
qed

text \<open>
  Sharing with a principal it was not shared with, then taking the grant back, leaves every
  access decision as it was: whoever asks, for whatever resource and permission.
\<close>

theorem share_then_unshare:
  assumes "grants_ok db" and "u \<notin> gt_id ` set db" and "(pt, pid, perm) \<notin> grants_at db (rt, rid)"
  shows "\<exists>g db'. grant_access u now rt rid pt pid perm db = Inr (g, db') \<and>
     (\<forall>gdb uid t r p gids. has_access gdb uid t r p gids (snd (revoke_access rt rid pt pid perm db'))
        = has_access gdb uid t r p gids db)"
proof -
  obtain s' where s': "put_grant (u, now) (rt, rid) (pt, pid, perm) db = Some s'"
      "grants_at (snd (revoke_access rt rid pt pid perm s')) = grants_at db"
    using grants.put_then_take_back [of db "(u, now)" "(pt, pid, perm)" "(rt, rid)"] assms by auto
  then show ?thesis
    by (auto simp: put_grant_def has_access_permits split: sum.splits)
qed

theorem share_then_unshare_witness:
  "\<exists>g db'. grant_access ''x'' 1 ''note'' ''n'' ''user'' ''ann'' ''read'' [] = Inr (g, db') \<and>
     \<not> has_access example_groups ''ann'' ''note'' ''n'' ''read'' (Some [])
         (snd (revoke_access ''note'' ''n'' ''user'' ''ann'' ''read'' db'))"
proof -
  have n: "(''user'', ''ann'', ''read'') \<notin> grants_at [] (''note'', ''n'')" by (simp add: grants_at_def)
  have "\<not> has_access example_groups ''ann'' ''note'' ''n'' ''read'' (Some []) []"
    by (simp add: has_access_def)
  then show ?thesis
    using share_then_unshare [OF grants_ok_Nil(1) _ n, of "''x''" 1] by auto
qed

section \<open>Bulk and filtered access checks\<close>

lemma grant_exists_permits:
  "grant_exists (Some u) gids rt perm db d \<longleftrightarrow> permits (grants_at db (rt, doc_id d)) u (set gids) perm"
  unfolding permits_def grants_at_iff grant_exists_def
  by (auto simp: list_ex_iff resource_of_def)

text \<open>
  The set-based checks agree with the single one: the accessible ids are the asked ids whose
  check succeeds; the query filter keeps the documents the user owns or may use (with
  \<open>read_only\<close>, those of others the user may read and not write); the rows of several resources
  are each resource's rows.
\<close>

theorem bulk_access_agrees:
  "get_accessible_resource_ids gdb uid rt rids perm gids db
     = {r \<in> set rids. has_access gdb uid rt r perm gids db} \<and>
   has_permission_filter (Some uid) gs rt perm db docs
     = filter (\<lambda>d. if perm = ''read_only''
         then doc_user_id d \<noteq> uid \<and> has_access gdb uid rt (doc_id d) ''read'' (Some gs) db \<and>
              \<not> has_access gdb uid rt (doc_id d) ''write'' (Some gs) db
         else doc_user_id d = uid \<or> has_access gdb uid rt (doc_id d) perm (Some gs) db) docs \<and>
   get_grants_by_resources rt rids db = map (\<lambda>r. (r, get_grants_by_resource rt r db)) (from_keys rids)"
proof (intro conjI)
  show "get_accessible_resource_ids gdb uid rt rids perm gids db
     = {r \<in> set rids. has_access gdb uid rt r perm gids db}"
    by (auto simp: get_accessible_resource_ids_def has_access_def Let_def list_ex_iff)
  show "has_permission_filter (Some uid) gs rt perm db docs
     = filter (\<lambda>d. if perm = ''read_only''
         then doc_user_id d \<noteq> uid \<and> has_access gdb uid rt (doc_id d) ''read'' (Some gs) db \<and>
              \<not> has_access gdb uid rt (doc_id d) ''write'' (Some gs) db
         else doc_user_id d = uid \<or> has_access gdb uid rt (doc_id d) perm (Some gs) db) docs"
    unfolding has_permission_filter_def has_read_only_permission_filter_def grant_exists_permits
      has_access_permits resolve_group_ids_def option.case
    by (auto intro!: filter_cong)
  have own: "filter (\<lambda>g. gt_rid g = k) (filter (\<lambda>g. gt_rtype g = rt \<and> gt_rid g \<in> set rids) db)
      = get_grants_by_resource rt k db" if "k \<in> set rids" for k
    using that by (auto simp: get_grants_by_resource_def resource_of_def intro: filter_cong)
  have "get_grants_by_resources rt rids db = map (\<lambda>r. (r, map (\<lambda>g. g) (filter (\<lambda>g. gt_rid g = r)
      (filter (\<lambda>g. gt_rtype g = rt \<and> gt_rid g \<in> set rids) db)))) (from_keys rids)" if "rids \<noteq> []"
    unfolding get_grants_by_resources_def using that by (simp only: if_False) (rule batch_by_key, simp)
  then show "get_grants_by_resources rt rids db = map (\<lambda>r. (r, get_grants_by_resource rt r db)) (from_keys rids)"
    using own by (cases "rids = []") (simp_all add: get_grants_by_resources_def [of rt "[]"])
qed

section \<open>Who has access\<close>

lemma granted_user_ids_eq:
  "granted_user_ids gdb gs = {u. \<exists>g \<in> set gs. gt_ptype g = ''user'' \<and> gt_pid g = u \<or>
     gt_ptype g = ''group'' \<and> member_of gdb (gt_pid g) u}"
  by (induction gs) (auto simp: get_group_user_ids_by_id_def member_of_iff)

lemma mem_users_with_access:
  "u \<in> set (get_users_with_access gdb us rt rid perm db) \<longleftrightarrow>
   u \<in> set us \<and>
   (if (''user'', ''*'', perm) \<in> grants_at db (rt, rid) then us_role u \<noteq> ''pending''
    else (''user'', us_id u, perm) \<in> grants_at db (rt, rid) \<or>
      (\<exists>gid. (''group'', gid, perm) \<in> grants_at db (rt, rid) \<and> member_of gdb gid (us_id u)))"
proof -
  let ?gs = "filter (\<lambda>g. resource_of g = (rt, rid) \<and> gt_perm g = perm) db"
  have pub: "list_ex (\<lambda>g. gt_ptype g = ''user'' \<and> gt_pid g = ''*'') ?gs
      \<longleftrightarrow> (''user'', ''*'', perm) \<in> grants_at db (rt, rid)"
    by (auto simp: list_ex_iff grants_at_iff)
  have ids: "x \<in> granted_user_ids gdb ?gs \<longleftrightarrow> (''user'', x, perm) \<in> grants_at db (rt, rid) \<or>
      (\<exists>gid. (''group'', gid, perm) \<in> grants_at db (rt, rid) \<and> member_of gdb gid x)" for x
    by (auto simp: granted_user_ids_eq grants_at_iff)
  show ?thesis
    unfolding get_users_with_access_def Let_def pub ids [symmetric]
    by (auto simp: users_excluding_role_def get_users_by_user_ids_def)
qed

lemma has_access_by_membership:
  "has_access gdb uid rt rid perm None db \<longleftrightarrow>
     (''user'', ''*'', perm) \<in> grants_at db (rt, rid) \<or> (''user'', uid, perm) \<in> grants_at db (rt, rid) \<or>
     (\<exists>gid \<in> set (group_ids gdb). (''group'', gid, perm) \<in> grants_at db (rt, rid) \<and> member_of gdb gid uid)"
  unfolding has_access_permits permits_def resolve_group_ids_def option.case set_map existing_ids by blast

text \<open>
  Where foreign keys are enforced, the users listed as having access are exactly the users
  the access check admits, except that a public grant does not list pending users.
\<close>

theorem users_with_access_are_admitted:
  assumes "group_ok gdb" and "fk_on gdb"
  shows "u \<in> set (get_users_with_access gdb us rt rid perm db) \<longleftrightarrow>
     u \<in> set us \<and> has_access gdb (us_id u) rt rid perm None db \<and>
     \<not> (has_access gdb ''*'' rt rid perm (Some []) db \<and> us_role u = ''pending'')"
proof -
  have pub: "has_access gdb ''*'' rt rid perm (Some []) db \<longleftrightarrow> (''user'', ''*'', perm) \<in> grants_at db (rt, rid)"
    by (simp add: has_access_permits permits_def resolve_group_ids_def)
  show ?thesis
    unfolding mem_users_with_access has_access_by_membership pub
    using member_of_group_exists [OF assms] by auto
qed

theorem users_with_access_are_admitted_witness:
  "\<lparr>us_id = ''bob'', us_role = ''user''\<rparr> \<in>
     set (get_users_with_access example_groups [\<lparr>us_id = ''bob'', us_role = ''user''\<rparr>] ''note'' ''n'' ''read''
       [\<lparr>gt_id = ''x'', gt_rtype = ''note'', gt_rid = ''n'', gt_ptype = ''group'', gt_pid = ''g2'',
         gt_perm = ''read'', gt_created_at = 1\<rparr>])"
proof -
  have "fk_on example_groups" by (simp add: example_groups_def)
  note iff = users_with_access_are_admitted [OF example_groups_ok this]
  show ?thesis
    unfolding iff has_access_by_membership
    by (auto simp: grants_at_def resource_of_def principal_of_def example_groups_def mk_member_def
        mk_group_def group_ids_def member_of_iff has_access_def resolve_group_ids_def principal_conditions_def)
qed

text \<open>
  Without enforced foreign keys (the default engine) a deleted group's memberships stay behind,
  and a grant to the group then lists users whom the check refuses.
\<close>

theorem orphan_members_listed_not_admitted:
  "\<exists>gdb db u. group_ok gdb \<and> \<not> fk_on gdb \<and> get_group_by_id gdb ''g'' = None \<and>
     u \<in> set (get_users_with_access gdb [u] ''note'' ''n'' ''read'' db) \<and>
     \<not> has_access gdb (us_id u) ''note'' ''n'' ''read'' None db"
proof -
  let ?before = "\<lparr>groups = [mk_group ''g'' ''staff'' 1], members = [mk_member ''m'' ''g'' ''ann''], fk_on = False\<rparr>"
  let ?gdb = "snd (delete_group_by_id ''g'' ?before)"
  let ?u = "\<lparr>us_id = ''ann'', us_role = ''user''\<rparr>"
  let ?db = "[\<lparr>gt_id = ''x'', gt_rtype = ''note'', gt_rid = ''n'', gt_ptype = ''group'', gt_pid = ''g'',
         gt_perm = ''read'', gt_created_at = 1\<rparr>]"
  have "?gdb = \<lparr>groups = [], members = [mk_member ''m'' ''g'' ''ann''], fk_on = False\<rparr>"
    by (simp add: delete_group_by_id_def mk_group_def)
  moreover have "group_ok \<lparr>groups = [], members = [mk_member ''m'' ''g'' ''ann''], fk_on = False\<rparr>"
    by (simp add: group_ok_def group_ids_def)
  moreover have "?u \<in> set (get_users_with_access ?gdb [?u] ''note'' ''n'' ''read'' ?db)"
    unfolding mem_users_with_access calculation(1)
    by (auto simp: grants_at_def resource_of_def principal_of_def member_of_iff mk_member_def)
  moreover have "\<not> has_access ?gdb (us_id ?u) ''note'' ''n'' ''read'' None ?db"
    unfolding has_access_by_membership calculation(1)
    by (auto simp: grants_at_def resource_of_def principal_of_def group_ids_def)
  ultimately show ?thesis by (metis (no_types, lifting) find.simps(1) get_group_by_id_def
        group_db.select_convs(1,3))
qed

section \<open>The legacy access_control dict\<close>

definition collect_step :: "grant_key \<Rightarrow> bool \<times> perm_data \<times> perm_data \<Rightarrow> bool \<times> perm_data \<times> perm_data" where
  "collect_step = (\<lambda>(pt, pid, perm) (is_public, r, w).
     if pt = ''user'' \<and> pid = ''*'' \<and> perm = ''read'' then (True, r, w)
     else if perm \<notin> {''read'', ''write''} then (is_public, r, w)
     else let upd = (\<lambda>pd. if pt = ''group'' then pd\<lparr>group_ids_of := add_once pid (group_ids_of pd)\<rparr>
                 else if pt = ''user'' then pd\<lparr>user_ids_of := add_once pid (user_ids_of pd)\<rparr> else pd)
          in if perm = ''read'' then (is_public, upd r, w) else (is_public, r, upd w))"

lemma collect_grants_fold: "collect_grants gs acc = fold collect_step (map principal_of gs) acc"
  by (induction gs acc rule: collect_grants.induct) (simp_all add: collect_step_def principal_of_def)

lemma collect_group_ids:
  assumes "distinct (group_ids_of r @ gs)"
  shows "fold collect_step (map (\<lambda>g. (''group'', g, ''read'')) gs) (p, r, w) = (p, r\<lparr>group_ids_of := group_ids_of r @ gs\<rparr>, w)"
    and "fold collect_step (map (\<lambda>g. (''group'', g, ''write'')) gs) (p, w, r) = (p, w, r\<lparr>group_ids_of := group_ids_of r @ gs\<rparr>)"
  using assms by (induction gs arbitrary: r) (auto simp: collect_step_def add_once_def)

lemma collect_user_ids:
  assumes "distinct (user_ids_of r @ us)"
  shows "''*'' \<notin> set us \<Longrightarrow> fold collect_step (map (\<lambda>u. (''user'', u, ''read'')) us) (p, r, w) = (p, r\<lparr>user_ids_of := user_ids_of r @ us\<rparr>, w)"
    and "fold collect_step (map (\<lambda>u. (''user'', u, ''write'')) us) (p, w, r) = (p, w, r\<lparr>user_ids_of := user_ids_of r @ us\<rparr>)"
  using assms by (induction us arbitrary: r) (auto simp: collect_step_def add_once_def)

text \<open>Ids listed once, and no wildcard among the readers, which means public elsewhere.\<close>

definition perm_or_empty :: "perm_data option \<Rightarrow> perm_data" where
  "perm_or_empty pd = (case pd of None \<Rightarrow> empty_perm | Some x \<Rightarrow> x)"

definition ac_clean :: "access_control \<Rightarrow> bool" where
  "ac_clean a \<longleftrightarrow> (let r = perm_or_empty (ac_read a); w = perm_or_empty (ac_write a) in
     distinct (group_ids_of r) \<and> distinct (user_ids_of r) \<and> ''*'' \<notin> set (user_ids_of r) \<and>
     distinct (group_ids_of w) \<and> distinct (user_ids_of w))"

definition dict_principal :: "grant_dict \<Rightarrow> grant_key" where
  "dict_principal d = (gd_ptype d, gd_pid d, gd_perm d)"

definition ac_keys :: "access_control \<Rightarrow> grant_key list" where
  "ac_keys a = (let r = perm_or_empty (ac_read a); w = perm_or_empty (ac_write a) in
     map (\<lambda>g. (''group'', g, ''read'')) (group_ids_of r) @ map (\<lambda>u. (''user'', u, ''read'')) (user_ids_of r) @
     map (\<lambda>g. (''group'', g, ''write'')) (group_ids_of w) @ map (\<lambda>u. (''user'', u, ''write'')) (user_ids_of w))"

lemma perm_grants_keys:
  "map dict_principal (perm_grants rt rid perm pd) =
     map (\<lambda>g. (''group'', g, perm)) (group_ids_of (perm_or_empty pd)) @
     map (\<lambda>u. (''user'', u, perm)) (user_ids_of (perm_or_empty pd))"
  by (cases pd) (simp_all add: perm_grants_def dict_principal_def perm_or_empty_def empty_perm_def comp_def)

lemma access_control_keys:
  "map dict_principal (access_control_to_grants rt rid (Some a)) = ac_keys a"
  by (auto simp: access_control_to_grants_def perm_grants_keys ac_keys_def Let_def)
    (simp_all add: perm_or_empty_def empty_perm_def)

lemma access_control_resource:
  "d \<in> set (access_control_to_grants rt rid ac) \<Longrightarrow> gd_rtype d = rt \<and> gd_rid d = rid"
  by (auto simp: access_control_to_grants_def perm_grants_def split: option.splits if_splits)

lemma ac_keys_distinct: "ac_clean a \<Longrightarrow> distinct (ac_keys a)"
  by (auto simp: ac_clean_def ac_keys_def Let_def distinct_map inj_on_def)

lemma collect_ac_keys:
  assumes "ac_clean a"
  shows "fold collect_step (ac_keys a) (False, empty_perm, empty_perm) =
    (False, perm_or_empty (ac_read a), perm_or_empty (ac_write a))"
proof -
  obtain rg ru wg wu where pd: "perm_or_empty (ac_read a) = \<lparr>group_ids_of = rg, user_ids_of = ru\<rparr>"
      "perm_or_empty (ac_write a) = \<lparr>group_ids_of = wg, user_ids_of = wu\<rparr>"
    by (metis perm_data.cases)
  show ?thesis
    using assms
    by (simp add: ac_clean_def ac_keys_def Let_def pd empty_perm_def collect_group_ids collect_user_ids)
qed

lemma ac_keys_Nil: "ac_keys a = [] \<longleftrightarrow> perm_or_empty (ac_read a) = empty_perm \<and> perm_or_empty (ac_write a) = empty_perm"
  by (auto simp: ac_keys_def Let_def empty_perm_def)

text \<open>What reading an \<open>access_control\<close> back gives: a private one loses its empty entries.\<close>

definition read_back :: "string \<Rightarrow> access_control option \<Rightarrow> access_control option" where
  "read_back rt ac = (case ac of
     None \<Rightarrow> if rt = ''file'' then Some \<lparr>ac_read = None, ac_write = None\<rparr> else None
   | Some a \<Rightarrow> if ac_keys a = [] then Some \<lparr>ac_read = None, ac_write = None\<rparr>
       else Some \<lparr>ac_read = Some (perm_or_empty (ac_read a)), ac_write = Some (perm_or_empty (ac_write a))\<rparr>)"

lemma read_back_keys:
  assumes "case ac of None \<Rightarrow> True | Some a \<Rightarrow> ac_clean a"
    and "map principal_of gs = map dict_principal (access_control_to_grants rt rid ac)"
  shows "grants_to_access_control gs = read_back rt ac"
proof (cases ac)
  case None
  then show ?thesis using assms(2)
    by (cases "rt = ''file''") (auto simp: grants_to_access_control_def collect_grants_fold read_back_def
        access_control_to_grants_def dict_principal_def collect_step_def)
next
  case (Some a)
  then have keys: "map principal_of gs = ac_keys a" using assms(2) by (simp add: access_control_keys)
  then have "gs = [] \<longleftrightarrow> ac_keys a = []" by auto
  then show ?thesis using keys Some assms(1) collect_ac_keys [of a]
    by (simp add: grants_to_access_control_def collect_grants_fold read_back_def)
qed

text \<open>
  An \<open>access_control\<close> value whose id lists repeat nothing is stored, and reading the
  resource back gives it again (public stays public, except that files are private); a value
  that names an id twice violates the unique constraint: nothing is stored.
\<close>

theorem access_control_roundtrip:
  assumes ok: "grants_ok db" and fresh: "fresh_ids us db"
  shows "((case ac of None \<Rightarrow> True | Some a \<Rightarrow> ac_clean a) \<longrightarrow>
       (\<exists>rows db'. set_access_control us clk rt rid ac db = Inr (rows, db') \<and> grants_ok db' \<and>
         get_access_control rt rid db' = read_back rt ac)) \<and>
     (\<not> distinct (map dict_principal (access_control_to_grants rt rid ac)) \<longrightarrow>
       set_access_control us clk rt rid ac db = Inl IntegrityError)"
proof -
  let ?ds = "access_control_to_grants rt rid ac"
  define rows where "rows = with_index (row_of_dict us clk) 0 ?ds"
  define db' where "db' = delete_insert resource_of (rt, rid) rows db"
  have prin: "map principal_of rows = map dict_principal ?ds"
    unfolding rows_def by (rule map_with_index) (simp add: row_of_dict_def principal_of_def dict_principal_def)
  have res: "resource_of r = (rt, rid)" if "r \<in> set rows" for r
    using that access_control_resource [of _ rt rid ac]
    by (auto simp: rows_def row_of_dict_def resource_of_def dest!: with_index_memD)
  then have keys: "map (\<lambda>g. (resource_of g, principal_of g)) rows = map (Pair (rt, rid)) (map dict_principal ?ds)"
    by (simp flip: prin)
  have "grants_ok db' \<longleftrightarrow> distinct (map dict_principal ?ds)"
  proof
    assume "grants_ok db'"
    then have "distinct (map (\<lambda>g. (resource_of g, principal_of g)) rows)"
      by (simp add: grants_ok_def db'_def delete_insert_def)
    then show "distinct (map dict_principal ?ds)"
      unfolding keys by (rule distinct_map [THEN iffD1, THEN conjunct1])
  next
    assume "distinct (map dict_principal ?ds)"
    then have "distinct (map (\<lambda>g. (resource_of g, principal_of g)) rows)"
      unfolding keys by (simp add: distinct_map inj_on_def)
    then show "grants_ok db'"
      using ok fresh res unfolding db'_def rows_def by (intro grants_ok_insert) (auto simp: row_of_dict_def)
  qed
  moreover have "distinct (map dict_principal ?ds)" if "case ac of None \<Rightarrow> True | Some a \<Rightarrow> ac_clean a"
    using that by (cases ac) (simp_all add: access_control_keys ac_keys_distinct access_control_to_grants_def [of _ _ None])
  moreover have "filter (\<lambda>g. resource_of g = (rt, rid)) db' = rows"
    unfolding db'_def by (rule grant_replace.replace_own) (rule res)
  moreover have "grants_to_access_control rows = read_back rt ac" if "case ac of None \<Rightarrow> True | Some a \<Rightarrow> ac_clean a"
    using that prin by (rule read_back_keys)
  ultimately show ?thesis
    by (simp add: set_access_control_def Let_def commit_grants_def rows_def db'_def get_access_control_def)
qed

theorem access_control_roundtrip_witness:
  "(\<exists>rows db'. set_access_control draw int ''note'' ''n''
       (Some \<lparr>ac_read = Some \<lparr>group_ids_of = [''g''], user_ids_of = []\<rparr>, ac_write = None\<rparr>) [] = Inr (rows, db') \<and>
     get_access_control ''note'' ''n'' db' =
       Some \<lparr>ac_read = Some \<lparr>group_ids_of = [''g''], user_ids_of = []\<rparr>, ac_write = Some empty_perm\<rparr>) \<and>
   set_access_control draw int ''note'' ''n''
     (Some \<lparr>ac_read = Some \<lparr>group_ids_of = [''g'', ''g''], user_ids_of = []\<rparr>, ac_write = None\<rparr>) [] = Inl IntegrityError"
proof
  let ?a = "\<lparr>ac_read = Some \<lparr>group_ids_of = [''g''], user_ids_of = []\<rparr>, ac_write = None\<rparr>"
  have "ac_clean ?a" by (simp add: ac_clean_def perm_or_empty_def empty_perm_def Let_def)
  then have "\<exists>rows db'. set_access_control draw int ''note'' ''n'' (Some ?a) [] = Inr (rows, db') \<and> grants_ok db' \<and>
      get_access_control ''note'' ''n'' db' = read_back ''note'' (Some ?a)"
    using access_control_roundtrip [OF grants_ok_Nil, of "Some ?a" int "''note''" "''n''"] by simp
  moreover have "read_back ''note'' (Some ?a) =
      Some \<lparr>ac_read = Some \<lparr>group_ids_of = [''g''], user_ids_of = []\<rparr>, ac_write = Some empty_perm\<rparr>"
    by (simp add: read_back_def ac_keys_def perm_or_empty_def Let_def)
  ultimately show "\<exists>rows db'. set_access_control draw int ''note'' ''n'' (Some ?a) [] = Inr (rows, db') \<and>
     get_access_control ''note'' ''n'' db' =
       Some \<lparr>ac_read = Some \<lparr>group_ids_of = [''g''], user_ids_of = []\<rparr>, ac_write = Some empty_perm\<rparr>" by auto
next
  let ?b = "\<lparr>ac_read = Some \<lparr>group_ids_of = [''g'', ''g''], user_ids_of = []\<rparr>, ac_write = None\<rparr>"
  show "set_access_control draw int ''note'' ''n'' (Some ?b) [] = Inl IntegrityError"
    by (rule access_control_roundtrip [OF grants_ok_Nil, THEN conjunct2, rule_format])
      (simp add: access_control_keys ac_keys_def perm_or_empty_def Let_def)
qed

end
