(* ===== verification/FolderTable.thy ===== *)
theory FolderTable
  imports Chain Grants
begin

text \<open>
  The folder table (\<open>models/folders.py\<close>): its rows and every operation on them. A query reads
  the rows and validates each one as a \<open>FolderModel\<close>, which fails for a row without a name;
  whether the failure reaches the caller or is turned into None differs from operation to
  operation and is kept. Drawn ids and clock readings are arguments. The rows come in the order
  of the table, and in the order of \<open>updated_at\<close> where the query sorts; a set of ids that the
  code turns into a list is kept in the order of insertion. SQL's \<open>lower\<close> is an argument.
\<close>

section \<open>Rows\<close>

record folder =
  fo_id :: string
  fo_parent :: "string option"
  fo_user_id :: string
  fo_name :: "string option"
  fo_items :: json
  fo_meta :: json
  fo_data :: json
  fo_is_expanded :: bool
  fo_created_at :: int
  fo_updated_at :: int

type_synonym folder_db = "folder list"

definition dict_or_none :: "json \<Rightarrow> bool" where
  "dict_or_none v \<longleftrightarrow> v = JNull \<or> is_dict v"

definition folder_validates :: "folder \<Rightarrow> bool" where
  "folder_validates f \<longleftrightarrow> fo_name f \<noteq> None \<and> dict_or_none (fo_items f) \<and> dict_or_none (fo_meta f)
     \<and> dict_or_none (fo_data f)"

definition folder_model :: "folder \<Rightarrow> py_error + folder" where
  "folder_model f = (if folder_validates f then Inr f else Inl ValidationError)"

text \<open>\<open>except Exception: return None\<close> around a query of one row.\<close>

definition folder_or_none :: "folder option \<Rightarrow> folder option" where
  "folder_or_none r = (case r of Some f \<Rightarrow> if folder_validates f then Some f else None | None \<Rightarrow> None)"

section \<open>Queries\<close>

definition owned_folder :: "folder_db \<Rightarrow> string \<Rightarrow> string \<Rightarrow> folder option" where
  "owned_folder fs i uid = find (\<lambda>f. fo_id f = i \<and> fo_user_id f = uid) fs"

definition get_folder_by_id_and_user_id :: "folder_db \<Rightarrow> string \<Rightarrow> string \<Rightarrow> folder option" where
  "get_folder_by_id_and_user_id fs i uid = folder_or_none (owned_folder fs i uid)"

definition get_folder_by_id :: "folder_db \<Rightarrow> string \<Rightarrow> folder option" where
  "get_folder_by_id fs i = folder_or_none (find (\<lambda>f. fo_id f = i) fs)"

definition newest_first :: "folder list \<Rightarrow> folder list" where
  "newest_first = sort_key (\<lambda>f. - fo_updated_at f)"

definition get_folders_by_ids :: "folder_db \<Rightarrow> string list \<Rightarrow> py_error + folder list" where
  "get_folders_by_ids fs ids = traverse folder_model (newest_first (filter (\<lambda>f. fo_id f \<in> set ids) fs))"

text \<open>\<open>write\<close> wins over \<open>read\<close>; the dict keeps the first position of each folder.\<close>

definition highest_permission :: "(string \<times> string) list \<Rightarrow> grant \<Rightarrow> (string \<times> string) list" where
  "highest_permission perms g =
     (if map_of perms (gt_rid g) \<noteq> Some ''write'' then AList.update (gt_rid g) (gt_perm g) perms else perms)"

definition get_shared_folder_ids_for_user :: "string \<Rightarrow> string list \<Rightarrow> grant_db \<Rightarrow> (string \<times> string) list" where
  "get_shared_folder_ids_for_user uid gids db =
     foldl highest_permission []
       (filter (\<lambda>g. gt_rtype g = ''folder'' \<and> list_ex (\<lambda>c. c g) (principal_conditions uid gids)) db)"

definition get_folders_by_user_id :: "folder_db \<Rightarrow> string \<Rightarrow> py_error + folder list" where
  "get_folders_by_user_id fs uid = traverse folder_model (filter (\<lambda>f. fo_user_id f = uid) fs)"

definition get_folder_by_parent_id_and_user_id_and_name ::
  "(string \<Rightarrow> string) \<Rightarrow> folder_db \<Rightarrow> string option \<Rightarrow> string \<Rightarrow> string \<Rightarrow> folder option" where
  "get_folder_by_parent_id_and_user_id_and_name lower fs pid uid name =
     folder_or_none (find (\<lambda>f. fo_parent f = pid \<and> fo_user_id f = uid \<and>
        map_option lower (fo_name f) = Some (lower name)) fs)"

definition get_folders_by_parent_id_and_user_id ::
  "folder_db \<Rightarrow> string option \<Rightarrow> string \<Rightarrow> py_error + folder list" where
  "get_folders_by_parent_id_and_user_id fs pid uid =
     traverse folder_model (newest_first (filter (\<lambda>f. fo_parent f = pid \<and> fo_user_id f = uid) fs))"

section \<open>The subtree of a folder\<close>

text \<open>One level: the children not met before are remembered and put on the stack.\<close>

fun note_children :: "folder list \<Rightarrow> string list \<Rightarrow> folder list \<Rightarrow> string list \<times> folder list" where
  "note_children [] ids folders = (ids, folders)"
| "note_children (c # cs) ids folders =
     (if fo_id c \<in> set ids then note_children cs ids folders
      else note_children cs (ids @ [fo_id c]) (folders @ [c]))"

text \<open>What one level adds.\<close>

fun fresh :: "folder list \<Rightarrow> string list \<Rightarrow> folder list" where
  "fresh [] ids = []"
| "fresh (c # cs) ids = (if fo_id c \<in> set ids then fresh cs ids else c # fresh cs (ids @ [fo_id c]))"

lemma note_children_fresh:
  "note_children cs ids folders = (ids @ map fo_id (fresh cs ids), folders @ fresh cs ids)"
  by (induction cs ids folders rule: note_children.induct) auto

lemma ids_fresh: "fo_id ` set (fresh cs ids) = fo_id ` set cs - set ids"
  by (induction cs ids rule: fresh.induct) auto

lemma set_fresh: "set (fresh cs ids) \<subseteq> set cs"
  by (induction cs ids rule: fresh.induct) auto

lemma distinct_fresh: "distinct (map fo_id (fresh cs ids))"
proof (induction cs ids rule: fresh.induct)
  case (2 c cs ids)
  then show ?case using ids_fresh [of cs "ids @ [fo_id c]"] by auto
qed simp

lemma traverse_folder_model:
  "traverse folder_model fs = (if \<forall>f \<in> set fs. folder_validates f then Inr fs else Inl ValidationError)"
  by (induction fs) (auto simp: folder_model_def)

lemma children_Inr:
  "get_folders_by_parent_id_and_user_id fs pid uid = Inr cs \<Longrightarrow>
     set cs = {f \<in> set fs. fo_parent f = pid \<and> fo_user_id f = uid}"
  by (auto simp: get_folders_by_parent_id_and_user_id_def traverse_folder_model newest_first_def split: if_splits)

function collect_subtree :: "folder_db \<Rightarrow> string \<Rightarrow> folder list \<Rightarrow> string list \<Rightarrow> py_error + string list" where
  "collect_subtree fs uid folders ids =
     (if folders = [] then Inr ids
      else case get_folders_by_parent_id_and_user_id fs (Some (fo_id (last folders))) uid of
             Inl e \<Rightarrow> Inl e
           | Inr children \<Rightarrow>
               (case note_children children ids (butlast folders) of
                  (ids', folders') \<Rightarrow> collect_subtree fs uid folders' ids'))"
  by pat_completeness auto
termination
proof (relation "measure (\<lambda>(fs, uid, folders, ids). card (fo_id ` set fs - set ids) + length folders)", goal_cases)
  case (2 fs uid folders ids cs ids' folders')
  let ?new = "fresh cs ids"
  have x: "ids' = ids @ map fo_id ?new" "folders' = butlast folders @ ?new"
    using 2(3) by (simp_all add: note_children_fresh)
  have "fo_id ` set ?new \<subseteq> fo_id ` set fs - set ids"
    using ids_fresh [of cs ids] children_Inr [OF 2(2)] by auto
  then have "card (fo_id ` set fs - set ids - fo_id ` set ?new) + card (fo_id ` set ?new) = card (fo_id ` set fs - set ids)"
    by (metis List.finite_set card_Diff_subset card_mono finite_Diff finite_imageI finite_subset le_add_diff_inverse2)
  moreover have "card (fo_id ` set ?new) = length ?new"
    using distinct_card [OF distinct_fresh [of cs ids]] by simp
  moreover have "length (butlast folders) < length folders" using 2(1) by (cases folders) auto
  moreover have "fo_id ` set fs - set ids' = fo_id ` set fs - set ids - fo_id ` set ?new" by (auto simp: x)
  ultimately show ?case by (simp add: x)
qed simp

declare collect_subtree.simps [simp del]

definition get_folder_ids_by_id_and_user_id_in_subtree ::
  "folder_db \<Rightarrow> string \<Rightarrow> string \<Rightarrow> py_error + string list" where
  "get_folder_ids_by_id_and_user_id_in_subtree fs i uid =
     (case owned_folder fs i uid of
        None \<Rightarrow> Inr []
      | Some f \<Rightarrow> and_then (folder_model f) (\<lambda>m. collect_subtree fs uid [m] [fo_id m]))"

section \<open>Writes\<close>

record folder_form =
  ff_name :: string
  ff_data :: json
  ff_meta :: json
  ff_parent_id :: "string option"

text \<open>The insert: two clock readings, and None when the commit is refused.\<close>

definition insert_new_folder ::
  "string \<Rightarrow> int \<Rightarrow> int \<Rightarrow> string \<Rightarrow> folder_form \<Rightarrow> string option \<Rightarrow> folder_db \<Rightarrow> folder option \<times> folder_db" where
  "insert_new_folder u now now' uid form parent fs =
     (let f = \<lparr>fo_id = u, fo_parent = parent, fo_user_id = uid, fo_name = Some (ff_name form), fo_items = JNull,
               fo_meta = ff_meta form, fo_data = ff_data form, fo_is_expanded = False,
               fo_created_at = now, fo_updated_at = now'\<rparr>
      in if u \<in> fo_id ` set fs then (None, fs) else (Some f, fs @ [f]))"

text \<open>Every update commits the row found and returns it validated, None where that fails.\<close>

definition write_folder :: "folder_db \<Rightarrow> string \<Rightarrow> string \<Rightarrow> (folder \<Rightarrow> folder) \<Rightarrow> folder option \<times> folder_db" where
  "write_folder fs i uid change =
     (case owned_folder fs i uid of
        None \<Rightarrow> (None, fs)
      | Some f \<Rightarrow> (folder_or_none (Some (change f)),
          modify_first (\<lambda>f. fo_id f = i \<and> fo_user_id f = uid) change fs))"

definition update_folder_parent_id_by_id_and_user_id ::
  "int \<Rightarrow> folder_db \<Rightarrow> string \<Rightarrow> string \<Rightarrow> string option \<Rightarrow> folder option \<times> folder_db" where
  "update_folder_parent_id_by_id_and_user_id now fs i uid parent =
     write_folder fs i uid (\<lambda>f. f\<lparr>fo_parent := parent, fo_updated_at := now\<rparr>)"

definition update_folder_is_expanded_by_id_and_user_id ::
  "int \<Rightarrow> folder_db \<Rightarrow> string \<Rightarrow> string \<Rightarrow> bool \<Rightarrow> folder option \<times> folder_db" where
  "update_folder_is_expanded_by_id_and_user_id now fs i uid expanded =
     write_folder fs i uid (\<lambda>f. f\<lparr>fo_is_expanded := expanded, fo_updated_at := now\<rparr>)"

text \<open>
  \<open>form_data.model_dump(exclude_unset=True)\<close> is a dict of the keys the client sent: \<open>name\<close> with a
  string or None, \<open>data\<close> and \<open>meta\<close> with a dict or None. Merging None into a dict raises, and
  nothing is committed.
\<close>

definition merge_column :: "json \<Rightarrow> dict \<Rightarrow> string \<Rightarrow> json option" where
  "merge_column old form k =
     (case map_of form k of
        None \<Rightarrow> Some old
      | Some (JObj d) \<Rightarrow> Some (JObj (dict_update (as_dict old) d))
      | Some _ \<Rightarrow> None)"

definition name_value :: "json \<Rightarrow> string option" where
  "name_value v = (if is_str v then Some (as_str v) else None)"

definition rename_clash :: "folder_db \<Rightarrow> string option \<Rightarrow> string \<Rightarrow> dict \<Rightarrow> folder option" where
  "rename_clash fs parent uid form =
     find (\<lambda>g. fo_name g = name_value (get form ''name'') \<and> fo_parent g = parent \<and> fo_user_id g = uid) fs"

definition update_folder_by_id_and_user_id ::
  "int \<Rightarrow> folder_db \<Rightarrow> string \<Rightarrow> string \<Rightarrow> dict \<Rightarrow> folder option \<times> folder_db" where
  "update_folder_by_id_and_user_id now fs i uid form =
     (case owned_folder fs i uid of
        None \<Rightarrow> (None, fs)
      | Some f \<Rightarrow>
          (if (case rename_clash fs (fo_parent f) uid form of Some g \<Rightarrow> fo_id g \<noteq> i | None \<Rightarrow> False) then (None, fs)
           else let name = (if has_key form ''name'' then name_value (get form ''name'') else fo_name f)
                in case (merge_column (fo_data f) form ''data'', merge_column (fo_meta f) form ''meta'') of
                     (Some data, Some meta) \<Rightarrow>
                       write_folder fs i uid (\<lambda>f. f\<lparr>fo_name := name, fo_data := data, fo_meta := meta, fo_updated_at := now\<rparr>)
                   | _ \<Rightarrow> (None, fs)))"

definition delete_folder_by_id_and_user_id ::
  "folder_db \<Rightarrow> string \<Rightarrow> string \<Rightarrow> string list option \<Rightarrow> py_error + (string list \<times> folder_db)" where
  "delete_folder_by_id_and_user_id fs i uid folder_ids =
     and_then (case folder_ids of Some ids \<Rightarrow> Inr ids | None \<Rightarrow> get_folder_ids_by_id_and_user_id_in_subtree fs i uid)
       (\<lambda>ids. if ids = [] then Inr ([], fs)
              else Inr (ids, filter (\<lambda>f. \<not> (fo_user_id f = uid \<and> fo_id f \<in> set ids)) fs))"

section \<open>The subtree is what the parent links reach\<close>

text \<open>From a folder to the user's folders directly in it.\<close>

definition child_of :: "folder_db \<Rightarrow> string \<Rightarrow> (string \<times> string) set" where
  "child_of fs uid = {(p, c). \<exists>f \<in> set fs. fo_id f = c \<and> fo_parent f = Some p \<and> fo_user_id f = uid}"

lemma child_of_children:
  "get_folders_by_parent_id_and_user_id fs (Some p) uid = Inr cs \<Longrightarrow>
     fo_id ` set cs = {c. (p, c) \<in> child_of fs uid}"
  by (auto simp: children_Inr child_of_def)

text \<open>An invariant of the stack and of the ids met so far holds of the answer, with the stack empty.\<close>

lemma collect_subtree_invariant:
  assumes "collect_subtree fs uid folders ids = Inr r" and "I folders ids"
    and "\<And>folders ids cs. I folders ids \<Longrightarrow> folders \<noteq> [] \<Longrightarrow>
      get_folders_by_parent_id_and_user_id fs (Some (fo_id (last folders))) uid = Inr cs \<Longrightarrow>
      I (butlast folders @ fresh cs ids) (ids @ map fo_id (fresh cs ids))"
  shows "I [] r"
  using assms
proof (induction fs uid folders ids rule: collect_subtree.induct)
  case (1 fs uid folders ids)
  show ?case
  proof (cases "folders = []")
    case True
    then show ?thesis using "1.prems" by (simp add: collect_subtree.simps [of _ _ "[]"])
  next
    case False
    then obtain cs where cs: "get_folders_by_parent_id_and_user_id fs (Some (fo_id (last folders))) uid = Inr cs"
      using "1.prems"(1) by (subst (asm) collect_subtree.simps) (auto split: sum.splits)
    show ?thesis
    proof (rule "1.IH" [OF False cs note_children_fresh [symmetric]])
      show "collect_subtree fs uid (butlast folders @ fresh cs ids) (ids @ map fo_id (fresh cs ids)) = Inr r"
        using "1.prems"(1) False cs by (subst (asm) collect_subtree.simps) (simp add: note_children_fresh)
      show "I (butlast folders @ fresh cs ids) (ids @ map fo_id (fresh cs ids))"
        using "1.prems"(3) [OF "1.prems"(2) False cs] .
    qed (rule "1.prems"(3))
  qed
qed

lemma collect_subtree_distinct:
  assumes "collect_subtree fs uid folders ids = Inr r" and "distinct ids"
  shows "distinct r"
  using assms
  by (rule collect_subtree_invariant [where I = "\<lambda>_. distinct"]) (auto simp: distinct_fresh ids_fresh)

text \<open>Every id met is reached, and its children are met as well unless it still waits on the stack.\<close>

definition explored :: "(string \<times> string) set \<Rightarrow> string \<Rightarrow> folder list \<Rightarrow> string list \<Rightarrow> bool" where
  "explored R i folders ids \<longleftrightarrow> i \<in> set ids \<and> set ids \<subseteq> R\<^sup>* `` {i} \<and> fo_id ` set folders \<subseteq> set ids \<and>
     R `` (set ids - fo_id ` set folders) \<subseteq> set ids"

lemma explored_step:
  assumes "explored (child_of fs uid) i folders ids" and "folders \<noteq> []"
    and "get_folders_by_parent_id_and_user_id fs (Some (fo_id (last folders))) uid = Inr cs"
  shows "explored (child_of fs uid) i (butlast folders @ fresh cs ids) (ids @ map fo_id (fresh cs ids))"
proof -
  let ?R = "child_of fs uid" and ?x = "fo_id (last folders)" and ?D = "fo_id ` set (butlast folders)"
  have "set folders = insert (last folders) (set (butlast folders))"
    using assms(2) by (metis append_butlast_last_id list.set(2) set_append rotate1.simps(2) set_rotate1)
  then have folders: "fo_id ` set folders = insert ?x ?D" by simp
  have new: "fo_id ` set (fresh cs ids) = ?R `` {?x} - set ids"
    using child_of_children [OF assms(3)] ids_fresh [of cs ids] by auto
  have ex: "i \<in> set ids" "set ids \<subseteq> ?R\<^sup>* `` {i}" "insert ?x ?D \<subseteq> set ids" "?R `` (set ids - insert ?x ?D) \<subseteq> set ids"
    using assms(1) unfolding explored_def folders by simp_all
  have "?x \<in> ?R\<^sup>* `` {i}" using ex(2,3) by blast
  then have "?R `` {?x} \<subseteq> ?R\<^sup>* `` {i}" by (auto intro: rtrancl_into_rtrancl)
  moreover have "?R `` (set ids \<union> (?R `` {?x} - set ids) - (?D \<union> (?R `` {?x} - set ids))) \<subseteq> set ids \<union> (?R `` {?x} - set ids)"
    using ex(4) by blast
  ultimately show ?thesis
    using ex unfolding explored_def set_append image_Un set_map new by blast
qed

lemma collect_subtree_reaches:
  assumes "collect_subtree fs uid [f] [fo_id f] = Inr r"
  shows "set r = (child_of fs uid)\<^sup>* `` {fo_id f}"
proof -
  let ?R = "child_of fs uid"
  have "explored ?R (fo_id f) [] r"
    using assms by (rule collect_subtree_invariant) (simp_all add: explored_def [of _ _ "[f]"] explored_step)
  then have r: "fo_id f \<in> set r" "set r \<subseteq> ?R\<^sup>* `` {fo_id f}" "?R `` set r \<subseteq> set r"
    by (simp_all add: explored_def)
  have "?R\<^sup>* `` {fo_id f} \<subseteq> set r" using Image_closed_trancl [OF r(3)] r(1) by blast
  then show ?thesis using r(2) by blast
qed

lemma subtree_ids:
  assumes "get_folder_ids_by_id_and_user_id_in_subtree fs i uid = Inr ids" and "owned_folder fs i uid = Some f"
  shows "set ids = (child_of fs uid)\<^sup>* `` {i}"
proof -
  have "fo_id f = i" using assms(2) by (auto simp: owned_folder_def dest: find_Some_mem)
  then show ?thesis
    using assms collect_subtree_reaches [of fs uid f ids]
    by (auto simp: get_folder_ids_by_id_and_user_id_in_subtree_def and_then_Inr folder_model_def split: if_splits)
qed

text \<open>It only fails on a row that does not validate.\<close>

lemma collect_subtree_valid:
  assumes "\<forall>f \<in> set fs. fo_user_id f = uid \<longrightarrow> folder_validates f"
  shows "\<exists>r. collect_subtree fs uid folders ids = Inr r"
  using assms
proof (induction fs uid folders ids rule: collect_subtree.induct)
  case (1 fs uid folders ids)
  show ?case
  proof (cases "folders = []")
    case True
    then show ?thesis by (simp add: collect_subtree.simps [of _ _ "[]"])
  next
    case False
    obtain cs where cs: "get_folders_by_parent_id_and_user_id fs (Some (fo_id (last folders))) uid = Inr cs"
      using "1.prems"
      by (auto simp: get_folders_by_parent_id_and_user_id_def traverse_folder_model newest_first_def)
    show ?thesis
      using "1.IH" [OF False cs note_children_fresh [symmetric] "1.prems"] False cs
      by (subst collect_subtree.simps) (simp add: note_children_fresh)
  qed
qed

lemma subtree_exact:
  assumes "owned_folder fs i uid = Some f" and "\<forall>f \<in> set fs. fo_user_id f = uid \<longrightarrow> folder_validates f"
  obtains r where "get_folder_ids_by_id_and_user_id_in_subtree fs i uid = Inr r" and "distinct r"
    and "set r = (child_of fs uid)\<^sup>* `` {i}"
proof -
  have f: "f \<in> set fs" "fo_id f = i" "fo_user_id f = uid"
    using assms(1) by (auto simp: owned_folder_def dest: find_Some_mem)
  obtain r where r: "collect_subtree fs uid [f] [fo_id f] = Inr r" using collect_subtree_valid [OF assms(2)] by blast
  show thesis
  proof (rule that)
    show "get_folder_ids_by_id_and_user_id_in_subtree fs i uid = Inr r"
      using assms f r by (simp add: get_folder_ids_by_id_and_user_id_in_subtree_def folder_model_def)
    show "distinct r" using collect_subtree_distinct [OF r] by simp
    show "set r = (child_of fs uid)\<^sup>* `` {i}" using collect_subtree_reaches [OF r] f by simp
  qed
qed

section \<open>What a write changes\<close>

lemma set_modify_first: "set (modify_first P c xs) \<subseteq> set xs \<union> c ` {x \<in> set xs. P x}"
  by (induction xs) auto

lemma map_modify_first: "(\<And>x. P x \<Longrightarrow> g (c x) = g x) \<Longrightarrow> map g (modify_first P c xs) = map g xs"
  by (induction xs) auto

lemma owned_folder_iff:
  "distinct (map fo_id fs) \<Longrightarrow> owned_folder fs i uid = Some f \<longleftrightarrow> f \<in> set fs \<and> fo_id f = i \<and> fo_user_id f = uid"
  unfolding owned_folder_def by (induction fs) (auto simp: image_iff)

lemma write_folder_ids:
  assumes "\<And>f. fo_id (change f) = fo_id f"
  shows "map fo_id (snd (write_folder fs i uid change)) = map fo_id fs"
  using assms by (auto simp: write_folder_def map_modify_first split: option.splits)

text \<open>Every update keeps the ids, so the table's primary key.\<close>

lemma update_ids:
  "map fo_id (snd (update_folder_parent_id_by_id_and_user_id now fs i uid parent)) = map fo_id fs"
  "map fo_id (snd (update_folder_is_expanded_by_id_and_user_id now fs i uid expanded)) = map fo_id fs"
  "map fo_id (snd (update_folder_by_id_and_user_id now fs i uid form)) = map fo_id fs"
  by (simp_all add: update_folder_parent_id_by_id_and_user_id_def update_folder_is_expanded_by_id_and_user_id_def
      update_folder_by_id_and_user_id_def write_folder_ids Let_def split: option.splits)

lemma child_of_move:
  "child_of (snd (update_folder_parent_id_by_id_and_user_id now fs i uid parent)) uid'
     \<subseteq> child_of fs uid' \<union> (case parent of None \<Rightarrow> {} | Some p \<Rightarrow> if uid' = uid then {(p, i)} else {})"
  using set_modify_first [of "\<lambda>f. fo_id f = i \<and> fo_user_id f = uid" "\<lambda>f. f\<lparr>fo_parent := parent, fo_updated_at := now\<rparr>" fs]
  by (force simp: child_of_def update_folder_parent_id_by_id_and_user_id_def write_folder_def split: option.splits)

text \<open>A folder row for the examples.\<close>

definition folder_at :: "string \<Rightarrow> string option \<Rightarrow> string \<Rightarrow> folder" where
  "folder_at i parent uid =
     \<lparr>fo_id = i, fo_parent = parent, fo_user_id = uid, fo_name = Some i, fo_items = JNull, fo_meta = JNull,
      fo_data = JNull, fo_is_expanded = False, fo_created_at = 0, fo_updated_at = 0\<rparr>"

lemma folder_at_simps [simp]:
  "fo_id (folder_at i parent uid) = i" "fo_parent (folder_at i parent uid) = parent"
  "fo_user_id (folder_at i parent uid) = uid" "folder_validates (folder_at i parent uid)"
  "fo_updated_at (folder_at i parent uid) = 0" "fo_data (folder_at i parent uid) = JNull"
  by (simp_all add: folder_at_def folder_validates_def dict_or_none_def)

end
