(* ===== verification/AccessControl.thy ===== *)
theory AccessControl
  imports FolderTable
begin

text \<open>
  The access decisions on top of the tables (\<open>utils/access_control/__init__.py\<close> and
  \<open>folders.py\<close>): permission dicts combined over a user's groups, the check of one permission,
  the in-memory check of a grant list, the filter over the grants a user may hand out, and the
  walks along base models and parent folders. \<open>JSONCodec.loads(JSONCodec.dumps(x))\<close> is a deep
  copy, which a value is already. \<open>DEFAULT_USER_PERMISSIONS\<close> comes from the environment and is
  an argument.
\<close>

section \<open>Permission dicts\<close>

fun fill_missing_permissions :: "dict \<Rightarrow> dict \<Rightarrow> dict" where
  "fill_missing_permissions p [] = p"
| "fill_missing_permissions p ((k, v) # rest) =
     fill_missing_permissions
       (case map_of p k of
          None \<Rightarrow> dict_set k v p
        | Some w \<Rightarrow> (case (v, w) of
              (JObj dv, JObj dw) \<Rightarrow> dict_set k (JObj (fill_missing_permissions dw dv)) p
            | _ \<Rightarrow> p)) rest"

fun combine_permissions :: "json \<Rightarrow> dict \<Rightarrow> py_error + json" where
  "combine_permissions p [] = Inr p"
| "combine_permissions p ((k, v) # rest) =
     (case p of
        JObj d \<Rightarrow>
          (case v of
             JObj g \<Rightarrow> and_then (combine_permissions (get_or d k (JObj [])) g)
                         (\<lambda>w. combine_permissions (JObj (dict_set k w d)) rest)
           | _ \<Rightarrow> combine_permissions (JObj (dict_set k (if has_key d k then py_or (get d k) v else v) d)) rest)
      | _ \<Rightarrow> Inl TypeError)"

definition permissions_of :: "group \<Rightarrow> dict" where
  "permissions_of g = (case gr_permissions g of None \<Rightarrow> [] | Some d \<Rightarrow> d)"

fun combine_groups :: "json \<Rightarrow> group list \<Rightarrow> py_error + json" where
  "combine_groups p [] = Inr p"
| "combine_groups p (g # gs) = and_then (combine_permissions p (permissions_of g)) (\<lambda>p'. combine_groups p' gs)"

definition get_permissions :: "group_db \<Rightarrow> string \<Rightarrow> dict \<Rightarrow> py_error + dict" where
  "get_permissions gdb uid defaults =
     and_then (combine_groups (JObj defaults) (get_groups_by_member_id gdb uid))
       (\<lambda>p. Inr (fill_missing_permissions (as_dict p) defaults))"

fun get_permission :: "json \<Rightarrow> string list \<Rightarrow> py_error + bool" where
  "get_permission p [] = Inr (truthy p)"
| "get_permission p (key # keys) =
     (case py_in key p of
        None \<Rightarrow> Inl TypeError
      | Some False \<Rightarrow> Inr False
      | Some True \<Rightarrow> (case p of JObj d \<Rightarrow> get_permission (get d key) keys | _ \<Rightarrow> Inl TypeError))"

fun any_group_permits :: "group list \<Rightarrow> string list \<Rightarrow> py_error + bool" where
  "any_group_permits [] keys = Inr False"
| "any_group_permits (g # gs) keys =
     and_then (get_permission (JObj (permissions_of g)) keys)
       (\<lambda>b. if b then Inr True else any_group_permits gs keys)"

definition has_permission :: "dict \<Rightarrow> group_db \<Rightarrow> string \<Rightarrow> string \<Rightarrow> dict option \<Rightarrow> py_error + bool" where
  "has_permission builtin gdb uid key defaults =
     (let keys = split_on (CHR ''.'') key
      in and_then (any_group_permits (get_groups_by_member_id gdb uid) keys)
           (\<lambda>b. if b then Inr True
                else get_permission (JObj (fill_missing_permissions
                       (case defaults of None \<Rightarrow> [] | Some d \<Rightarrow> d) builtin)) keys))"

section \<open>Grant lists kept as configuration\<close>

text \<open>One grant of the list: whether it admits the user, or the lookup in the id set raises.\<close>

definition listed_grant_admits :: "string \<Rightarrow> string \<Rightarrow> string list \<Rightarrow> json \<Rightarrow> py_error + bool" where
  "listed_grant_admits uid perm gids grant =
     (case grant of
        JObj d \<Rightarrow>
          (if get d ''permission'' \<noteq> JStr perm then Inr False
           else let ptype = get d ''principal_type''; pid = get d ''principal_id''
                in if ptype = JStr ''user'' \<and> (pid = JStr ''*'' \<or> pid = JStr uid) then Inr True
                   else if ptype = JStr ''group'' \<and> gids \<noteq> []
                   then (if hashable pid then Inr (pid \<in> JStr ` set gids) else Inl TypeError)
                   else Inr False)
      | _ \<Rightarrow> Inr False)"

fun any_listed_grant_admits :: "string \<Rightarrow> string \<Rightarrow> string list \<Rightarrow> json list \<Rightarrow> py_error + bool" where
  "any_listed_grant_admits uid perm gids [] = Inr False"
| "any_listed_grant_admits uid perm gids (g # gs) =
     and_then (listed_grant_admits uid perm gids g)
       (\<lambda>b. if b then Inr True else any_listed_grant_admits uid perm gids gs)"

definition has_listed_access ::
  "group_db \<Rightarrow> string \<Rightarrow> string \<Rightarrow> json \<Rightarrow> string list option \<Rightarrow> py_error + bool" where
  "has_listed_access gdb uid perm grants gids =
     (if \<not> truthy grants then Inr False
      else and_then (py_iter grants) (any_listed_grant_admits uid perm (resolve_group_ids gdb uid gids)))"

definition has_connection_access ::
  "bool \<Rightarrow> group_db \<Rightarrow> user \<Rightarrow> dict \<Rightarrow> string list option \<Rightarrow> py_error + bool" where
  "has_connection_access bypass gdb u connection gids =
     (if us_role u = ''admin'' \<and> bypass then Inr True
      else and_then (get_attr (py_or (get connection ''config'') (JObj [])) ''access_grants'' (JArr []))
        (\<lambda>grants. if \<not> truthy grants then Inr (us_role u = ''admin'')
           else has_listed_access gdb (us_id u) ''read'' grants (Some (resolve_group_ids gdb (us_id u) gids))))"

definition migrated_grant :: "string \<Rightarrow> string \<Rightarrow> json \<Rightarrow> json" where
  "migrated_grant ptype perm pid =
     JObj [(''principal_type'', JStr ptype), (''principal_id'', pid), (''permission'', JStr perm)]"

definition migrate_perm :: "dict \<Rightarrow> string \<Rightarrow> py_error + json list" where
  "migrate_perm ac perm =
     (let data = get_or ac perm (JObj [])
      in if \<not> truthy data then Inr []
         else and_then (and_then (get_attr data ''group_ids'' (JArr [])) py_iter) (\<lambda>gs.
              and_then (and_then (get_attr data ''user_ids'' (JArr [])) py_iter) (\<lambda>us.
                Inr (map (migrated_grant ''group'' perm) gs @ map (migrated_grant ''user'' perm) us))))"

definition migrate_access_control :: "string \<Rightarrow> string \<Rightarrow> dict \<Rightarrow> py_error + dict" where
  "migrate_access_control ac_key grants_key data =
     (if has_key data grants_key then Inr data
      else let ac = get data ac_key
      in if ac = JNull \<and> \<not> has_key data ac_key then Inr data
      else and_then
         (case ac of
            JObj d \<Rightarrow> if d \<noteq> []
              then and_then (migrate_perm d ''read'') (\<lambda>r. and_then (migrate_perm d ''write'') (\<lambda>w. Inr (r @ w)))
              else Inr []
          | _ \<Rightarrow> Inr [])
         (\<lambda>grants. Inr (dict_pop ac_key (dict_set grants_key (JArr grants) data))))"

section \<open>Grants a user may hand out\<close>

text \<open>An optional string counts when it is truthy.\<close>

definition some_id :: "string option \<Rightarrow> string option" where
  "some_id i = (case i of None \<Rightarrow> None | Some x \<Rightarrow> if x = [] then None else Some x)"

definition is_named_principal_grant :: "json \<Rightarrow> bool" where
  "is_named_principal_grant grant \<longleftrightarrow>
     grant_field grant ''principal_type'' = JStr ''group'' \<or>
     (grant_field grant ''principal_type'' = JStr ''user'' \<and> grant_field grant ''principal_id'' \<noteq> JStr ''*'')"

definition sharing_key_for :: "string option \<Rightarrow> dict \<Rightarrow> py_error + string option" where
  "sharing_key_for key defaults =
     (case some_id key of
        None \<Rightarrow> Inr None
      | Some k \<Rightarrow>
          if \<not> prefix ''sharing.public_'' k then Inr None
          else let name = drop (length ''sharing.public_'') k
               in case py_in name (py_or (get defaults ''sharing'') (JObj [])) of
                    None \<Rightarrow> Inl TypeError
                  | Some found \<Rightarrow> Inr (if found then Some (''sharing.'' @ name) else None))"

text \<open>\<open>sharing_permission_key or _sharing_key_for(...)\<close>.\<close>

definition resolve_sharing_key :: "string option \<Rightarrow> string option \<Rightarrow> dict \<Rightarrow> py_error + string option" where
  "resolve_sharing_key sharing_key public_key defaults =
     (case some_id sharing_key of Some k \<Rightarrow> Inr (Some k) | None \<Rightarrow> sharing_key_for public_key defaults)"

text \<open>
  \<open>if needed and not await has_permission(key): grants = filter\<close>: the value of the check, or what
  it raises, counts only when the check is needed.
\<close>

definition unless_permitted ::
  "py_error + bool \<Rightarrow> (json list \<Rightarrow> bool) \<Rightarrow> (json list \<Rightarrow> json list) \<Rightarrow> json list \<Rightarrow> py_error + json list" where
  "unless_permitted check needed strip grants =
     (if needed grants then and_then check (\<lambda>ok. Inr (if ok then grants else strip grants))
      else Inr grants)"

text \<open>The check of the public permission; without a key, splitting it raises.\<close>

definition public_check :: "(string \<Rightarrow> py_error + bool) \<Rightarrow> string option \<Rightarrow> py_error + bool" where
  "public_check may public_key = (case public_key of None \<Rightarrow> Inl AttributeError | Some k \<Rightarrow> may k)"

definition filter_allowed_access_grants ::
  "dict \<Rightarrow> group_db \<Rightarrow> dict \<Rightarrow> string \<Rightarrow> string \<Rightarrow> json list \<Rightarrow> string option \<Rightarrow> string option \<Rightarrow> string option \<Rightarrow>
     py_error + json list" where
  "filter_allowed_access_grants builtin gdb defaults uid role grants public_key anyone_key sharing_key =
     (let may = (\<lambda>key. has_permission builtin gdb uid key (Some defaults))
      in if grants = [] then Inr []
      else and_then
        (if has_anyone_read_access_grant (Some grants)
         then (case anyone_key of
                 None \<Rightarrow> Inr (strip_anyone_access_grants (Some grants))
               | Some key \<Rightarrow>
                   if key = [] then Inr (strip_anyone_access_grants (Some grants))
                   else if role = ''admin'' then Inr grants
                   else and_then (may key) (\<lambda>ok. Inr (if ok then grants else strip_anyone_access_grants (Some grants))))
         else Inr grants)
        (\<lambda>g1. if role = ''admin'' then Inr g1
         else and_then (resolve_sharing_key sharing_key public_key defaults)
        (\<lambda>key. and_then
           (case key of None \<Rightarrow> Inr g1
            | Some k \<Rightarrow> unless_permitted (may k) (list_ex is_named_principal_grant)
                (filter (\<lambda>g. \<not> is_named_principal_grant g)) g1)
        (\<lambda>g2. and_then
           (unless_permitted (public_check may public_key)
              (\<lambda>gs. has_public_read_access_grant (Some gs) \<or> has_public_write_access_grant (Some gs))
              (filter (\<lambda>g. \<not> (grant_field g ''principal_type'' = JStr ''user'' \<and>
                              grant_field g ''principal_id'' = JStr ''*''))) g2)
        (\<lambda>g3. and_then
           (unless_permitted (may ''access_grants.allow_users'') (\<lambda>gs. has_user_access_grant (Some gs))
              (\<lambda>gs. strip_user_access_grants (Some gs)) g3)
        (\<lambda>g4. unless_permitted (may ''access_grants.allow_groups'')
              (list_ex (\<lambda>g. grant_field g ''principal_type'' = JStr ''group''))
              (filter (\<lambda>g. grant_field g ''principal_type'' \<noteq> JStr ''group'')) g4))))))"

section \<open>Chains of base models and of folders\<close>

record model_info =
  mi_id :: string
  mi_user_id :: string
  mi_base :: "string option"

definition get_model_by_id :: "model_info list \<Rightarrow> string \<Rightarrow> model_info option" where
  "get_model_by_id ms i = find (\<lambda>m. mi_id m = i) ms"

definition may_read_model ::
  "group_db \<Rightarrow> grant_db \<Rightarrow> string \<Rightarrow> string list option \<Rightarrow> model_info \<Rightarrow> bool" where
  "may_read_model gdb db uid gids m \<longleftrightarrow>
     uid = mi_user_id m \<or> has_access gdb uid ''model'' (mi_id m) ''read'' gids db"

function walk_base_models ::
  "(model_info \<Rightarrow> bool) \<Rightarrow> bool \<Rightarrow> model_info list \<Rightarrow> string option \<Rightarrow> string list \<Rightarrow> bool" where
  "walk_base_models readable admin ms base seen =
     (case some_id base of
        None \<Rightarrow> True
      | Some b \<Rightarrow>
          if b \<in> set seen then True
          else case get_model_by_id ms b of
                 None \<Rightarrow> admin
               | Some m \<Rightarrow> if \<not> readable m then False
                   else walk_base_models readable admin ms (mi_base m) (b # seen))"
  by pat_completeness auto
termination
proof (relation "measure (\<lambda>(readable, admin, ms, base, seen). card (mi_id ` set ms - set seen))", goal_cases)
  case (2 readable admin ms base seen b m)
  then have "b \<in> mi_id ` set ms" by (auto simp: get_model_by_id_def dest!: find_Some_mem)
  with 2 have "mi_id ` set ms - set (b # seen) \<subset> mi_id ` set ms - set seen" by auto
  then have "card (mi_id ` set ms - set (b # seen)) < card (mi_id ` set ms - set seen)"
    by (rule psubset_card_mono [rotated]) simp
  then show ?case by simp
qed simp

declare walk_base_models.simps [simp del]

definition has_base_model_access ::
  "group_db \<Rightarrow> grant_db \<Rightarrow> model_info list \<Rightarrow> string \<Rightarrow> model_info \<Rightarrow> string option \<Rightarrow> string list option \<Rightarrow> bool" where
  "has_base_model_access gdb db ms uid m role gids =
     walk_base_models (may_read_model gdb db uid gids) (role = Some ''admin'') ms (mi_base m) [mi_id m]"

text \<open>\<open>HTTPException(403)\<close> is the only way the check fails: False here.\<close>

definition check_model_access ::
  "group_db \<Rightarrow> grant_db \<Rightarrow> model_info list \<Rightarrow> user \<Rightarrow> model_info option \<Rightarrow> bool \<Rightarrow> bool" where
  "check_model_access gdb db ms u m bypass =
     (if bypass then True
      else case m of
        Some info \<Rightarrow>
          (if us_role u \<noteq> ''admin''
           then let gids = Some (resolve_group_ids gdb (us_id u) None)
                in if \<not> may_read_model gdb db (us_id u) gids info then False
                   else has_base_model_access gdb db ms (us_id u) info (Some (us_role u)) gids
           else True)
      | None \<Rightarrow> us_role u = ''admin'')"

definition folder_grants ::
  "group_db \<Rightarrow> grant_db \<Rightarrow> string \<Rightarrow> string \<Rightarrow> folder \<Rightarrow> bool" where
  "folder_grants gdb db uid perm f \<longleftrightarrow>
     fo_user_id f = uid \<or> has_access gdb uid ''folder'' (fo_id f) perm None db"

function walk_folders :: "(folder \<Rightarrow> bool) \<Rightarrow> folder list \<Rightarrow> folder option \<Rightarrow> string list \<Rightarrow> bool" where
  "walk_folders grants fs f seen =
     (case f of
        None \<Rightarrow> False
      | Some x \<Rightarrow>
          if fo_id x \<in> set seen then False
          else if grants x then True
          else walk_folders grants fs
                 (case some_id (fo_parent x) of None \<Rightarrow> None | Some i \<Rightarrow> get_folder_by_id fs i) (fo_id x # seen))"
  by pat_completeness auto
termination
proof (relation "measure (\<lambda>(grants, fs, f, seen). case f of None \<Rightarrow> 0
    | Some x \<Rightarrow> Suc (card (insert (fo_id x) (fo_id ` set fs) - set seen)))", goal_cases)
  case (2 grants fs f seen x)
  define g where "g = (case some_id (fo_parent x) of None \<Rightarrow> None | Some i \<Rightarrow> get_folder_by_id fs i)"
  show ?case
  proof (cases g)
    case None
    then show ?thesis using 2 by (simp add: g_def)
  next
    case (Some y)
    then have "fo_id y \<in> fo_id ` set fs"
      by (auto simp: g_def get_folder_by_id_def folder_or_none_def split: option.splits if_splits dest: find_Some_mem)
    then have "insert (fo_id y) (fo_id ` set fs) - set (fo_id x # seen) \<subset> insert (fo_id x) (fo_id ` set fs) - set seen"
      using 2 by auto
    then have "card (insert (fo_id y) (fo_id ` set fs) - set (fo_id x # seen))
        < card (insert (fo_id x) (fo_id ` set fs) - set seen)"
      by (rule psubset_card_mono [rotated]) simp
    then show ?thesis using 2 Some by (simp add: g_def)
  qed
qed simp

declare walk_folders.simps [simp del]

definition has_folder_access :: "group_db \<Rightarrow> grant_db \<Rightarrow> folder list \<Rightarrow> string \<Rightarrow> folder \<Rightarrow> string \<Rightarrow> bool" where
  "has_folder_access gdb db fs uid f perm = walk_folders (folder_grants gdb db uid perm) fs (Some f) []"

definition has_folder_write_access :: "group_db \<Rightarrow> grant_db \<Rightarrow> folder list \<Rightarrow> string \<Rightarrow> string \<Rightarrow> bool" where
  "has_folder_write_access gdb db fs uid i =
     (case get_folder_by_id fs i of None \<Rightarrow> False | Some f \<Rightarrow> has_folder_access gdb db fs uid f ''write'')"

section \<open>The walks decide reachability\<close>

lemma get_model_mem: "get_model_by_id ms i = None \<longleftrightarrow> i \<notin> set (map mi_id ms)"
  by (auto simp: get_model_by_id_def find_None_mem)

definition model_hop :: "model_info list \<Rightarrow> string \<Rightarrow> string option" where
  "model_hop ms i = (case get_model_by_id ms i of None \<Rightarrow> None | Some m \<Rightarrow> some_id (mi_base m))"

definition model_verdict :: "(model_info \<Rightarrow> bool) \<Rightarrow> model_info list \<Rightarrow> string \<Rightarrow> bool" where
  "model_verdict readable ms i = (case get_model_by_id ms i of None \<Rightarrow> False | Some m \<Rightarrow> \<not> readable m)"

text \<open>The walk, started at an id that counts.\<close>

definition model_walk ::
  "(model_info \<Rightarrow> bool) \<Rightarrow> bool \<Rightarrow> model_info list \<Rightarrow> string option \<Rightarrow> string list \<Rightarrow> bool" where
  "model_walk readable admin ms n seen =
     (case n of None \<Rightarrow> True
      | Some b \<Rightarrow> if b \<in> set seen then True
          else case get_model_by_id ms b of None \<Rightarrow> admin
             | Some m \<Rightarrow> if \<not> readable m then False else walk_base_models readable admin ms (mi_base m) (b # seen))"

lemma walk_base_models_eq:
  "walk_base_models readable admin ms base seen = model_walk readable admin ms (some_id base) seen"
  by (subst walk_base_models.simps) (simp add: model_walk_def)

interpretation base_chain: chain_walk "model_hop ms" "map mi_id ms" "model_verdict readable ms" True admin
  "model_walk readable admin ms" for ms readable admin
proof
  fix x seen
  show "model_walk readable admin ms (Some x) seen = (if x \<in> set seen then True else if x \<notin> set (map mi_id ms) then admin
       else if model_verdict readable ms x then \<not> True else model_walk readable admin ms (model_hop ms x) (x # seen))"
    using get_model_mem [of ms x]
    by (cases "get_model_by_id ms x")
      (auto simp: model_walk_def [of _ _ _ "Some x"] model_verdict_def model_hop_def walk_base_models_eq)
qed (simp add: model_walk_def)

text \<open>
  C18. A user who bypasses nothing may use a model exactly when it and every model its
  \<open>base_model_id\<close> links reach are registered and readable (an admin: always), also where the
  links loop.
\<close>

theorem model_access_is_chain_access:
  assumes "get_model_by_id ms (mi_id m) = Some m"
  shows "check_model_access gdb db ms u (Some m) False \<longleftrightarrow>
     us_role u = ''admin'' \<or>
     (\<forall>i. (mi_id m, i) \<in> (link (model_hop ms) (map mi_id ms))\<^sup>* \<longrightarrow>
        (\<exists>b. get_model_by_id ms i = Some b \<and> may_read_model gdb db (us_id u) None b))"
proof (cases "us_role u = ''admin''")
  case False
  let ?gids = "Some (resolve_group_ids gdb (us_id u) None)"
  let ?readable = "may_read_model gdb db (us_id u) ?gids"
  have same: "?readable = may_read_model gdb db (us_id u) None"
    by (simp add: fun_eq_iff may_read_model_def has_access_permits resolve_group_ids_def)
  have "check_model_access gdb db ms u (Some m) False \<longleftrightarrow> model_walk ?readable False ms (Some (mi_id m)) []"
    using False assms
    by (simp add: check_model_access_def has_base_model_access_def model_walk_def Let_def)
  also have "\<dots> \<longleftrightarrow> (\<forall>i. (mi_id m, i) \<in> (link (model_hop ms) (map mi_id ms))\<^sup>* \<longrightarrow>
        (if i \<in> set (map mi_id ms) then \<not> model_verdict ?readable ms i else False = True))"
    using base_chain.walk_decides [of ?readable False ms "mi_id m"] by simp
  also have "\<dots> \<longleftrightarrow> (\<forall>i. (mi_id m, i) \<in> (link (model_hop ms) (map mi_id ms))\<^sup>* \<longrightarrow>
        (\<exists>b. get_model_by_id ms i = Some b \<and> ?readable b))"
  proof -
    have "(if i \<in> set (map mi_id ms) then \<not> model_verdict ?readable ms i else False = True) \<longleftrightarrow>
        (\<exists>b. get_model_by_id ms i = Some b \<and> ?readable b)" for i
      using get_model_mem [of ms i] by (cases "get_model_by_id ms i") (auto simp: model_verdict_def)
    then show ?thesis by simp
  qed
  finally show ?thesis using False unfolding same by simp
qed (simp add: check_model_access_def)

theorem model_access_is_chain_access_witness:
  "\<not> check_model_access example_groups [] [\<lparr>mi_id = ''a'', mi_user_id = ''ann'', mi_base = Some ''b''\<rparr>]
     \<lparr>us_id = ''ann'', us_role = ''user''\<rparr> (Some \<lparr>mi_id = ''a'', mi_user_id = ''ann'', mi_base = Some ''b''\<rparr>) False"
proof -
  let ?a = "\<lparr>mi_id = ''a'', mi_user_id = ''ann'', mi_base = Some ''b''\<rparr>"
  have get: "get_model_by_id [?a] (mi_id ?a) = Some ?a" "get_model_by_id [?a] ''b'' = None"
    by (simp_all add: get_model_by_id_def)
  have "(''a'', ''b'') \<in> link (model_hop [?a]) (map mi_id [?a])"
    using get by (simp add: link_def model_hop_def some_id_def)
  then have "\<not> (\<forall>i. (mi_id ?a, i) \<in> (link (model_hop [?a]) (map mi_id [?a]))\<^sup>* \<longrightarrow>
      (\<exists>b. get_model_by_id [?a] i = Some b \<and> may_read_model example_groups [] ''ann'' None b))"
    using get(2) by (metis model_info.select_convs(1) option.distinct(1) r_into_rtrancl)
  then show ?thesis
    using model_access_is_chain_access [OF get(1), of example_groups "[]" "\<lparr>us_id = ''ann'', us_role = ''user''\<rparr>"] by simp
qed

text \<open>The ids under which a folder is found.\<close>

definition known_folders :: "folder list \<Rightarrow> string list" where
  "known_folders fs = filter (\<lambda>i. get_folder_by_id fs i \<noteq> None) (map fo_id fs)"

lemma get_folder_id: "get_folder_by_id fs i = Some f \<Longrightarrow> f \<in> set fs \<and> fo_id f = i"
  by (auto simp: get_folder_by_id_def folder_or_none_def split: option.splits if_splits dest: find_Some_mem)

lemma get_folder_mem: "get_folder_by_id fs i = None \<longleftrightarrow> i \<notin> set (known_folders fs)"
  using get_folder_id [of fs i] by (cases "get_folder_by_id fs i") (auto simp: known_folders_def)

definition folder_hop :: "folder list \<Rightarrow> string \<Rightarrow> string option" where
  "folder_hop fs i = (case get_folder_by_id fs i of None \<Rightarrow> None | Some f \<Rightarrow> some_id (fo_parent f))"

definition folder_verdict :: "(folder \<Rightarrow> bool) \<Rightarrow> folder list \<Rightarrow> string \<Rightarrow> bool" where
  "folder_verdict grants fs i = (case get_folder_by_id fs i of None \<Rightarrow> False | Some f \<Rightarrow> grants f)"

definition folder_walk :: "(folder \<Rightarrow> bool) \<Rightarrow> folder list \<Rightarrow> string option \<Rightarrow> string list \<Rightarrow> bool" where
  "folder_walk grants fs n seen =
     walk_folders grants fs (case n of None \<Rightarrow> None | Some i \<Rightarrow> get_folder_by_id fs i) seen"

lemma link_known: "link (folder_hop fs) (known_folders fs) = link (folder_hop fs) (map fo_id fs)"
  by (auto simp: link_def folder_hop_def known_folders_def split: option.splits)

interpretation folder_chain: chain_walk "folder_hop fs" "known_folders fs" "folder_verdict grants fs" False False
  "folder_walk grants fs" for fs grants
proof
  fix x seen
  show "folder_walk grants fs (Some x) seen = (if x \<in> set seen then False else if x \<notin> set (known_folders fs) then False
       else if folder_verdict grants fs x then \<not> False else folder_walk grants fs (folder_hop fs x) (x # seen))"
  proof (cases "get_folder_by_id fs x")
    case None
    then show ?thesis using get_folder_mem [of fs x] by (simp add: folder_walk_def walk_folders.simps [of _ _ None])
  next
    case (Some f)
    then show ?thesis
      using get_folder_mem [of fs x] get_folder_id [OF Some]
      by (auto simp: folder_walk_def walk_folders.simps [of _ _ "Some f"] folder_verdict_def folder_hop_def)
  qed
qed (simp add: folder_walk_def walk_folders.simps [of _ _ None])

text \<open>
  C19. A folder grants a permission exactly when it or a folder its parent links reach belongs
  to the user or carries the grant, also where a corrupt table has bent the links into a loop.
\<close>

theorem folder_access_is_inherited:
  assumes "get_folder_by_id fs (fo_id f) = Some f"
  shows "has_folder_access gdb db fs uid f perm \<longleftrightarrow>
     (\<exists>i a. (fo_id f, i) \<in> (link (folder_hop fs) (map fo_id fs))\<^sup>* \<and> get_folder_by_id fs i = Some a \<and>
        folder_grants gdb db uid perm a)"
proof -
  let ?g = "folder_grants gdb db uid perm"
  have "has_folder_access gdb db fs uid f perm = folder_walk ?g fs (Some (fo_id f)) []"
    using assms by (simp add: has_folder_access_def folder_walk_def)
  then have "\<not> has_folder_access gdb db fs uid f perm \<longleftrightarrow>
      (\<forall>i. (fo_id f, i) \<in> (link (folder_hop fs) (map fo_id fs))\<^sup>* \<longrightarrow> \<not> folder_verdict ?g fs i)"
  proof -
    have "(if i \<in> set (known_folders fs) then \<not> folder_verdict ?g fs i else False = False)
        \<longleftrightarrow> \<not> folder_verdict ?g fs i" for i
      using get_folder_mem [of fs i] by (cases "get_folder_by_id fs i") (auto simp: folder_verdict_def)
    then show ?thesis
      using folder_chain.walk_decides [of ?g fs "fo_id f"] link_known [of fs] \<open>has_folder_access gdb db fs uid f perm = _\<close> by simp
  qed
  then show ?thesis by (auto simp: folder_verdict_def split: option.splits)
qed

theorem folder_access_is_inherited_witness:
  "has_folder_access example_groups [] [folder_at ''c'' (Some ''p'') ''ann'',
      folder_at ''p'' (Some ''c'') ''bob''] ''bob''
      (folder_at ''c'' (Some ''p'') ''ann'') ''read''"
proof -
  let ?c = "folder_at ''c'' (Some ''p'') ''ann''"
  let ?p = "folder_at ''p'' (Some ''c'') ''bob''"
  have get: "get_folder_by_id [?c, ?p] (fo_id ?c) = Some ?c" "get_folder_by_id [?c, ?p] ''p'' = Some ?p"
    by (simp_all add: get_folder_by_id_def folder_or_none_def)
  have "(fo_id ?c, ''p'') \<in> (link (folder_hop [?c, ?p]) (map fo_id [?c, ?p]))\<^sup>*"
    using get by (intro r_into_rtrancl) (simp add: link_def folder_hop_def some_id_def)
  moreover have "folder_grants example_groups [] ''bob'' ''read'' ?p" by (simp add: folder_grants_def)
  ultimately show ?thesis
    using folder_access_is_inherited [OF get(1), of example_groups "[]" "''bob''" "''read''"] get(2) by blast
qed

end
