(* ===== verification/FileAccess.thy ===== *)
theory FileAccess
  imports AccessControl
begin

text \<open>
  Who may read or change a file, and which of a folder's entries its readers get
  (\<open>utils/access_control/files.py\<close>), with the queries it makes: of the files, the knowledge
  bases and their links, the channels, the shared chats and their snapshots, the models and the
  notes. The library is the state of those tables. A snapshot and a model's \<open>meta\<close> are JSON as
  stored, and reading a malformed one raises, as in the code. The text match by which a database
  preselects the models is an argument.
\<close>

section \<open>The tables\<close>

record file_row =
  fl_id :: string
  fl_user_id :: string
  fl_meta :: json

record knowledge =
  kb_id :: string
  kb_user_id :: string

record channel =
  cn_id :: string
  cn_user_id :: string
  cn_type :: "string option"
  cn_archived_at :: "int option"
  cn_deleted_at :: "int option"

record channel_member =
  cm_channel_id :: string
  cm_user_id :: string
  cm_is_active :: bool

record shared_chat =
  sc_id :: string
  sc_chat_id :: string
  sc_chat :: json
  sc_updated_at :: int

record chat_share =
  cs_id :: string
  cs_share_id :: "string option"

record model_row =
  md_id :: string
  md_user_id :: string
  md_base_model_id :: "string option"
  md_meta :: json

record note_row =
  nt_id :: string
  nt_user_id :: string

record library =
  lb_files :: "file_row list"
  lb_knowledge :: "knowledge list"
  lb_knowledge_files :: "(string \<times> string) list"
  lb_channels :: "channel list"
  lb_channel_files :: "(string \<times> string) list"
  lb_channel_members :: "channel_member list"
  lb_chats :: "chat_share list"
  lb_chat_files :: "(string \<times> string) list"
  lb_shared_chats :: "shared_chat list"
  lb_models :: "model_row list"
  lb_notes :: "note_row list"
  lb_users :: "user list"
  lb_groups :: group_db
  lb_grants :: grant_db

section \<open>Their queries\<close>

definition get_file_by_id :: "library \<Rightarrow> string \<Rightarrow> file_row option" where
  "get_file_by_id lb i = find (\<lambda>f. fl_id f = i) (lb_files lb)"

definition get_knowledge_by_id :: "library \<Rightarrow> string \<Rightarrow> knowledge option" where
  "get_knowledge_by_id lb i = find (\<lambda>k. kb_id k = i) (lb_knowledge lb)"

definition get_knowledges_by_file_id :: "library \<Rightarrow> string \<Rightarrow> knowledge list" where
  "get_knowledges_by_file_id lb i =
     filter (\<lambda>k. list_ex (\<lambda>(kid, fid). kid = kb_id k \<and> fid = i) (lb_knowledge_files lb)) (lb_knowledge lb)"

definition knowledge_access :: "library \<Rightarrow> string \<Rightarrow> string \<Rightarrow> string list option \<Rightarrow> knowledge \<Rightarrow> bool" where
  "knowledge_access lb uid perm gids k \<longleftrightarrow>
     kb_user_id k = uid \<or> has_access (lb_groups lb) uid ''knowledge'' (kb_id k) perm gids (lb_grants lb)"

definition check_access_by_user_id :: "library \<Rightarrow> string \<Rightarrow> string \<Rightarrow> string \<Rightarrow> string list option \<Rightarrow> bool" where
  "check_access_by_user_id lb i uid perm gids =
     (case get_knowledge_by_id lb i of None \<Rightarrow> False | Some k \<Rightarrow> knowledge_access lb uid perm gids k)"

text \<open>A group or direct channel wants an active membership, any other a grant.\<close>

definition channel_allows :: "library \<Rightarrow> string \<Rightarrow> string list \<Rightarrow> channel \<Rightarrow> bool" where
  "channel_allows lb uid gids c =
     (if cn_type c \<in> {Some ''group'', Some ''dm''}
      then list_ex (\<lambda>m. cm_channel_id m = cn_id c \<and> cm_user_id m = uid \<and> cm_is_active m) (lb_channel_members lb)
      else has_permission_filter (if uid = [] then None else Some uid) gids ''channel'' ''read'' (lb_grants lb)
             [\<lparr>doc_id = cn_id c, doc_user_id = cn_user_id c\<rparr>] \<noteq> [])"

definition get_channels_by_file_id_and_user_id :: "library \<Rightarrow> string \<Rightarrow> string \<Rightarrow> channel list" where
  "get_channels_by_file_id_and_user_id lb i uid =
     (let ids = map fst (filter (\<lambda>(cid, fid). fid = i) (lb_channel_files lb));
          gids = map gr_id (get_groups_by_member_id (lb_groups lb) uid)
      in filter (channel_allows lb uid gids)
           (filter (\<lambda>c. cn_id c \<in> set ids \<and> cn_deleted_at c = None \<and> cn_archived_at c = None) (lb_channels lb)))"

definition get_shared_chat_ids_by_file_id :: "library \<Rightarrow> string \<Rightarrow> string list" where
  "get_shared_chat_ids_by_file_id lb i =
     concat (map (\<lambda>(cid, fid). if fid = i
         then map cs_id (filter (\<lambda>c. cs_id c = cid \<and> cs_share_id c \<noteq> None) (lb_chats lb)) else [])
       (lb_chat_files lb))"

definition get_by_chat_id :: "library \<Rightarrow> string \<Rightarrow> shared_chat option" where
  "get_by_chat_id lb cid =
     (case sort_key (\<lambda>s. - sc_updated_at s) (filter (\<lambda>s. sc_chat_id s = cid) (lb_shared_chats lb)) of
        [] \<Rightarrow> None | s # _ \<Rightarrow> Some s)"

definition attaches_file :: "string \<Rightarrow> json \<Rightarrow> bool" where
  "attaches_file i item \<longleftrightarrow> is_dict item \<and> get (as_dict item) ''type'' = JStr ''file'' \<and> get (as_dict item) ''id'' = JStr i"

text \<open>\<open>meta.get('knowledge') or []\<close> is scanned up to the first hit.\<close>

definition model_attaches :: "string \<Rightarrow> model_row \<Rightarrow> py_error + bool" where
  "model_attaches i m =
     and_then (get_attr (md_meta m) ''knowledge'' JNull) (\<lambda>v.
     and_then (py_iter (py_or v (JArr []))) (\<lambda>items. Inr (list_ex (attaches_file i) items)))"

fun owners_attaching :: "string \<Rightarrow> model_row list \<Rightarrow> py_error + (string \<times> string) list" where
  "owners_attaching i [] = Inr []"
| "owners_attaching i (m # ms) =
     and_then (model_attaches i m) (\<lambda>b. and_then (owners_attaching i ms) (\<lambda>owners.
       Inr (if b then (md_id m, md_user_id m) # owners else owners)))"

definition get_model_owners_attaching_file ::
  "(json \<Rightarrow> string \<Rightarrow> bool) \<Rightarrow> library \<Rightarrow> string \<Rightarrow> py_error + (string \<times> string) list" where
  "get_model_owners_attaching_file text_match lb i =
     owners_attaching i (filter (\<lambda>m. md_base_model_id m \<noteq> None \<and> text_match (md_meta m) i) (lb_models lb))"

section \<open>The files of a snapshot\<close>

definition FILE_URL :: string where "FILE_URL = ''/api/v1/files/''"

definition is_id_char :: "char \<Rightarrow> bool" where
  "is_id_char c \<longleftrightarrow> (let n = of_char c :: nat
     in 65 \<le> n \<and> n \<le> 90 \<or> 97 \<le> n \<and> n \<le> 122 \<or> 48 \<le> n \<and> n \<le> 57 \<or> n = 95 \<or> n = 45)"

text \<open>\<open>_FILE_URL.findall\<close>: the matches from left to right, none overlapping another.\<close>

function file_urls :: "string \<Rightarrow> string list" where
  "file_urls s =
     (if s = [] then []
      else if \<not> prefix FILE_URL s then file_urls (tl s)
      else let rest = drop (length FILE_URL) s; i = takeWhile is_id_char rest
           in if i = [] then file_urls (tl s) else i # file_urls (drop (length i) rest))"
  by pat_completeness auto
termination by (relation "measure length") (auto simp: FILE_URL_def)

declare file_urls.simps [simp del]

definition string_urls :: "json \<Rightarrow> string list" where
  "string_urls v = (if is_str v then file_urls (as_str v) else [])"

definition nonempty_string :: "json \<Rightarrow> string list" where
  "nonempty_string v = (if is_str v \<and> truthy v then [as_str v] else [])"

definition item_file_ids :: "json \<Rightarrow> string list" where
  "item_file_ids item =
     (if \<not> is_dict item then []
      else let d = as_dict item
           in nonempty_string (get d ''id'')
              @ (if is_dict (get d ''file'') then nonempty_string (get (as_dict (get d ''file'')) ''id'') else [])
              @ string_urls (get d ''url''))"

definition message_file_ids :: "json \<Rightarrow> py_error + string list" where
  "message_file_ids m =
     (if \<not> is_dict m then Inr []
      else and_then (py_iter (py_or (get (as_dict m) ''files'') (JArr [])))
        (\<lambda>items. Inr (string_urls (get (as_dict m) ''content'') @ concat (map item_file_ids items))))"

text \<open>\<open>list(d.values())\<close>, an AttributeError on anything but a dict.\<close>

definition dict_values :: "json \<Rightarrow> py_error + json list" where
  "dict_values v = (if is_dict v then Inr (map snd (as_dict v)) else Inl AttributeError)"

definition snapshot_file_ids :: "json \<Rightarrow> py_error + string set" where
  "snapshot_file_ids chat =
     and_then (get_attr (py_or chat (JObj [])) ''history'' JNull) (\<lambda>history.
     and_then (get_attr (py_or history (JObj [])) ''messages'' JNull) (\<lambda>messages.
     and_then (dict_values (py_or messages (JObj []))) (\<lambda>ms.
     and_then (get_attr (py_or chat (JObj [])) ''messages'' JNull) (\<lambda>flat.
     and_then (py_iter (py_or flat (JArr []))) (\<lambda>ns.
     and_then (traverse message_file_ids (ms @ ns)) (\<lambda>idss. Inr (set (concat idss))))))))"

fun snapshots_holding :: "library \<Rightarrow> string \<Rightarrow> string list \<Rightarrow> py_error + string list" where
  "snapshots_holding lb i [] = Inr []"
| "snapshots_holding lb i (cid # cids) =
     and_then (case get_by_chat_id lb cid of
                 None \<Rightarrow> Inr False
               | Some s \<Rightarrow> and_then (snapshot_file_ids (sc_chat s)) (\<lambda>ids. Inr (i \<in> ids)))
       (\<lambda>b. and_then (snapshots_holding lb i cids) (\<lambda>held. Inr (if b then cid # held else held)))"

section \<open>Access to a file\<close>

text \<open>An object passes on more than reading only for files of its own owner.\<close>

definition confers :: "string \<Rightarrow> file_row \<Rightarrow> string \<Rightarrow> bool" where
  "confers access f owner \<longleftrightarrow> access = ''read'' \<or> owner = fl_user_id f"

definition collection_access ::
  "library \<Rightarrow> file_row \<Rightarrow> string \<Rightarrow> string \<Rightarrow> string list option \<Rightarrow> bool" where
  "collection_access lb f access uid gids =
     (let name = (if truthy (fl_meta f) then get (as_dict (fl_meta f)) ''collection_name'' else JNull)
      in truthy name \<and> is_str name \<and>
         (case get_knowledge_by_id lb (as_str name) of
            None \<Rightarrow> False
          | Some k \<Rightarrow> confers access f (kb_user_id k) \<and> knowledge_access lb uid access gids k))"

definition shared_chat_access :: "library \<Rightarrow> string \<Rightarrow> string \<Rightarrow> string list option \<Rightarrow> py_error + bool" where
  "shared_chat_access lb i uid gids =
     and_then (snapshots_holding lb i (get_shared_chat_ids_by_file_id lb i)) (\<lambda>ids.
       Inr (ids \<noteq> [] \<and>
         get_accessible_resource_ids (lb_groups lb) uid ''shared_chat'' ids ''read'' gids (lb_grants lb) \<noteq> {}))"

definition model_access ::
  "(json \<Rightarrow> string \<Rightarrow> bool) \<Rightarrow> library \<Rightarrow> file_row \<Rightarrow> string \<Rightarrow> string \<Rightarrow> string list option \<Rightarrow> py_error + bool" where
  "model_access text_match lb f access uid gids =
     and_then (get_model_owners_attaching_file text_match lb (fl_id f)) (\<lambda>owners.
       let owners = (if access \<noteq> ''read'' then filter (\<lambda>(m, owner). owner = fl_user_id f) owners else owners)
       in if uid \<in> snd ` set owners then Inr True
          else Inr (get_accessible_resource_ids (lb_groups lb) uid ''model'' (map fst owners) access gids (lb_grants lb) \<noteq> {}))"

definition has_access_to_file ::
  "(json \<Rightarrow> string \<Rightarrow> bool) \<Rightarrow> library \<Rightarrow> string \<Rightarrow> string \<Rightarrow> user \<Rightarrow> string list option \<Rightarrow> py_error + bool" where
  "has_access_to_file text_match lb i access u gids =
     (case get_file_by_id lb i of
        None \<Rightarrow> Inr False
      | Some f \<Rightarrow>
          (if fl_user_id f = us_id u then Inr True
           else let g = Some (resolve_group_ids (lb_groups lb) (us_id u) gids)
           in if list_ex (\<lambda>k. knowledge_access lb (us_id u) access g k \<and> confers access f (kb_user_id k))
                   (get_knowledges_by_file_id lb i) then Inr True
           else if collection_access lb f access (us_id u) g then Inr True
           else if access = ''read'' \<and> get_channels_by_file_id_and_user_id lb i (us_id u) \<noteq> [] then Inr True
           else and_then (if access = ''read'' then shared_chat_access lb i (us_id u) g else Inr False) (\<lambda>shared.
             if shared then Inr True else model_access text_match lb f access (us_id u) g)))"

section \<open>Entries of a folder\<close>

definition FOLDER_FILE_TYPES :: "json list" where
  "FOLDER_FILE_TYPES = [JStr ''file'', JStr ''collection'', JStr ''note'']"

text \<open>The entries that can be checked; the membership test raises on a list or a dict.\<close>

definition checkable_entry :: "json \<Rightarrow> py_error + bool" where
  "checkable_entry e =
     (if \<not> is_dict e then Inr False
      else if \<not> hashable (get (as_dict e) ''type'') then Inl TypeError
      else Inr (get (as_dict e) ''type'' \<in> set FOLDER_FILE_TYPES \<and> truthy (get (as_dict e) ''id'')))"

fun filter_raising :: "('a \<Rightarrow> 'e + bool) \<Rightarrow> 'a list \<Rightarrow> 'e + 'a list" where
  "filter_raising p [] = Inr []"
| "filter_raising p (x # xs) =
     and_then (p x) (\<lambda>b. and_then (filter_raising p xs) (\<lambda>ys. Inr (if b then x # ys else ys)))"

definition note_access :: "library \<Rightarrow> string \<Rightarrow> string \<Rightarrow> string list option \<Rightarrow> json \<Rightarrow> py_error + bool" where
  "note_access lb uid perm gids i =
     (if \<not> hashable i then Inl DBAPIError
      else if \<not> is_str i then Inr False
      else case find (\<lambda>n. nt_id n = as_str i) (lb_notes lb) of
             None \<Rightarrow> Inr False
           | Some n \<Rightarrow> Inr (nt_user_id n = uid \<or>
               has_access (lb_groups lb) uid ''note'' (as_str i) perm gids (lb_grants lb)))"

definition entry_access ::
  "(json \<Rightarrow> string \<Rightarrow> bool) \<Rightarrow> library \<Rightarrow> user \<Rightarrow> string list option \<Rightarrow> string \<Rightarrow> json \<Rightarrow> py_error + bool" where
  "entry_access text_match lb u gids note_permission e =
     (let t = get (as_dict e) ''type''; i = get (as_dict e) ''id''
      in if t = JStr ''file'' then
           (if is_str i then has_access_to_file text_match lb (as_str i) ''read'' u gids else Inr False)
         else if t = JStr ''collection'' then
           Inr (is_str i \<and> check_access_by_user_id lb (as_str i) (us_id u) ''read'' gids)
         else if t = JStr ''note'' then note_access lb (us_id u) note_permission gids i
         else Inr False)"

definition get_accessible_folder_files ::
  "(json \<Rightarrow> string \<Rightarrow> bool) \<Rightarrow> library \<Rightarrow> json \<Rightarrow> user \<Rightarrow> string list option \<Rightarrow> string \<Rightarrow> py_error + json list" where
  "get_accessible_folder_files text_match lb entries u gids note_permission =
     (if \<not> is_list entries then Inr []
      else and_then (filter_raising checkable_entry (as_list entries)) (\<lambda>es.
        if us_role u = ''admin'' then Inr es
        else filter_raising
               (entry_access text_match lb u (Some (resolve_group_ids (lb_groups lb) (us_id u) gids)) note_permission) es))"

definition can_read_all_folder_files ::
  "(json \<Rightarrow> string \<Rightarrow> bool) \<Rightarrow> library \<Rightarrow> json \<Rightarrow> user \<Rightarrow> string \<Rightarrow> py_error + bool" where
  "can_read_all_folder_files text_match lb entries u note_permission =
     (if entries = JNull then Inr True
      else if \<not> is_list entries then Inr False
      else if as_list entries = [] then Inr True
      else and_then (get_accessible_folder_files text_match lb entries u None note_permission)
             (\<lambda>es. Inr (length es = length (as_list entries))))"

definition get_user_by_id :: "library \<Rightarrow> string \<Rightarrow> user option" where
  "get_user_by_id lb i = find (\<lambda>u. us_id u = i) (lb_users lb)"

definition get_owner_accessible_folder_files ::
  "(json \<Rightarrow> string \<Rightarrow> bool) \<Rightarrow> library \<Rightarrow> folder \<Rightarrow> py_error + json list" where
  "get_owner_accessible_folder_files text_match lb f =
     (let files = get (as_dict (fo_data f)) ''files''
      in if \<not> truthy files then Inr []
         else case get_user_by_id lb (fo_user_id f) of
                None \<Rightarrow> Inr []
              | Some owner \<Rightarrow> get_accessible_folder_files text_match lb files owner None ''write'')"

section \<open>Changing another user's file\<close>

lemma filter_raising_Inr: "filter_raising p xs = Inr ys \<Longrightarrow> ys = filter (\<lambda>x. p x = Inr True) xs"
  by (induction xs arbitrary: ys) (auto simp: and_then_Inr)

lemma owners_attaching_Inr:
  "owners_attaching i ms = Inr owners \<Longrightarrow>
     owners = map (\<lambda>m. (md_id m, md_user_id m)) (filter (\<lambda>m. model_attaches i m = Inr True) ms)"
  by (induction ms arbitrary: owners) (auto simp: and_then_Inr)

definition user_group_ids :: "library \<Rightarrow> user \<Rightarrow> string set" where
  "user_group_ids lb u = set (resolve_group_ids (lb_groups lb) (us_id u) None)"

lemma resolve_known_groups [simp]: "resolve_group_ids gdb uid (Some gids) = gids"
  by (simp add: resolve_group_ids_def)

text \<open>A knowledge base holds a file linked to it, and the file whose \<open>meta\<close> names it.\<close>

definition knowledge_holds :: "library \<Rightarrow> file_row \<Rightarrow> knowledge \<Rightarrow> bool" where
  "knowledge_holds lb f k \<longleftrightarrow>
     (kb_id k, fl_id f) \<in> set (lb_knowledge_files lb) \<or>
     kb_id k \<noteq> [] \<and> get (as_dict (fl_meta f)) ''collection_name'' = JStr (kb_id k)"

definition model_holds :: "file_row \<Rightarrow> model_row \<Rightarrow> bool" where
  "model_holds f m \<longleftrightarrow> md_base_model_id m \<noteq> None \<and> model_attaches (fl_id f) m = Inr True"

lemma accessible_ids_nonempty:
  "get_accessible_resource_ids gdb uid rt rids perm gids db \<noteq> {} \<longleftrightarrow>
     (\<exists>r \<in> set rids. permits (grants_at db (rt, r)) uid (set (resolve_group_ids gdb uid gids)) perm)"
proof -
  have "r \<in> get_accessible_resource_ids gdb uid rt rids perm gids db \<longleftrightarrow>
      r \<in> set rids \<and> has_access gdb uid rt r perm gids db" for r
    by (auto simp: get_accessible_resource_ids_def has_access_def Let_def list_ex_iff)
  then show ?thesis by (auto simp: has_access_permits)
qed

lemma knowledge_conferring:
  assumes "distinct (map kb_id (lb_knowledge lb))" and "get_file_by_id lb i = Some f"
  shows "list_ex (\<lambda>k. knowledge_access lb uid access g k \<and> confers access f (kb_user_id k)) (get_knowledges_by_file_id lb i)
      \<or> collection_access lb f access uid g \<longleftrightarrow>
    (\<exists>k \<in> set (lb_knowledge lb). knowledge_holds lb f k \<and> knowledge_access lb uid access g k \<and> confers access f (kb_user_id k))"
proof -
  have f: "fl_id f = i" using assms(2) by (auto simp: get_file_by_id_def dest: find_Some_mem)
  have linked: "k \<in> set (get_knowledges_by_file_id lb i) \<longleftrightarrow>
      k \<in> set (lb_knowledge lb) \<and> (kb_id k, fl_id f) \<in> set (lb_knowledge_files lb)" for k
    by (force simp: get_knowledges_by_file_id_def list_ex_iff f)
  have "collection_access lb f access uid g \<longleftrightarrow> (\<exists>k \<in> set (lb_knowledge lb). kb_id k \<noteq> [] \<and>
      get (as_dict (fl_meta f)) ''collection_name'' = JStr (kb_id k) \<and>
      knowledge_access lb uid access g k \<and> confers access f (kb_user_id k))"
  proof (cases "get (as_dict (fl_meta f)) ''collection_name''")
    case (JStr n)
    then have "truthy (fl_meta f)" by (cases "fl_meta f") (auto simp: get_or_def)
    moreover have "(case get_knowledge_by_id lb n of None \<Rightarrow> False | Some k \<Rightarrow> P k) \<longleftrightarrow>
        (\<exists>k \<in> set (lb_knowledge lb). kb_id k = n \<and> P k)" for P
      unfolding get_knowledge_by_id_def by (rule find_keyed_case [OF assms(1)])
    ultimately show ?thesis using JStr by (auto simp: collection_access_def Let_def)
  qed (auto simp: collection_access_def Let_def)
  then show ?thesis unfolding list_ex_iff knowledge_holds_def by (auto simp: linked)
qed

lemma model_conferring:
  assumes "model_access text_match lb f access uid g = Inr b"
    and "\<And>m. m \<in> set (lb_models lb) \<Longrightarrow> model_holds f m \<Longrightarrow> text_match (md_meta m) (fl_id f)"
  shows "b \<longleftrightarrow> (\<exists>m \<in> set (lb_models lb). model_holds f m \<and> confers access f (md_user_id m) \<and>
     (md_user_id m = uid \<or> permits (grants_at (lb_grants lb) (''model'', md_id m)) uid
        (set (resolve_group_ids (lb_groups lb) uid g)) access))"
proof -
  obtain owners where owners: "get_model_owners_attaching_file text_match lb (fl_id f) = Inr owners"
    using assms(1) by (auto simp: model_access_def and_then_Inr)
  let ?hits = "{(md_id m, md_user_id m) | m. m \<in> set (lb_models lb) \<and> model_holds f m}"
  have hits: "set owners = ?hits"
    using owners_attaching_Inr [OF owners [unfolded get_model_owners_attaching_file_def]] assms(2)
    by (auto simp: model_holds_def)
  have "b \<longleftrightarrow> (\<exists>(m, owner) \<in> set owners. confers access f owner \<and>
      (owner = uid \<or> permits (grants_at (lb_grants lb) (''model'', m)) uid (set (resolve_group_ids (lb_groups lb) uid g)) access))"
    using assms(1) unfolding model_access_def owners and_then_simps Let_def accessible_ids_nonempty
    by (force simp: confers_def split: if_splits)
  then show ?thesis unfolding hits by fastforce
qed

text \<open>
  C7. Changing a file someone else owns: possible exactly through a knowledge base or a
  workspace model that holds the file, belongs to the file's own owner and grants the user
  that permission. An object of anyone else, the user's own included, gives nothing.
\<close>

theorem write_access_needs_owners_object:
  assumes "has_access_to_file text_match lb i access u None = Inr b" and "access \<noteq> ''read''"
    and "get_file_by_id lb i = Some f" and "distinct (map kb_id (lb_knowledge lb))"
    and "\<And>m. m \<in> set (lb_models lb) \<Longrightarrow> model_holds f m \<Longrightarrow> text_match (md_meta m) i"
  shows "b \<longleftrightarrow> fl_user_id f = us_id u \<or>
     (\<exists>k \<in> set (lb_knowledge lb). kb_user_id k = fl_user_id f \<and> knowledge_holds lb f k \<and>
        permits (grants_at (lb_grants lb) (''knowledge'', kb_id k)) (us_id u) (user_group_ids lb u) access) \<or>
     (\<exists>m \<in> set (lb_models lb). md_user_id m = fl_user_id f \<and> model_holds f m \<and>
        permits (grants_at (lb_grants lb) (''model'', md_id m)) (us_id u) (user_group_ids lb u) access)"
proof (cases "fl_user_id f = us_id u")
  case True
  then show ?thesis using assms(1,3) by (simp add: has_access_to_file_def)
next
  case False
  let ?g = "Some (resolve_group_ids (lb_groups lb) (us_id u) None)"
  have f: "fl_id f = i" using assms(3) by (auto simp: get_file_by_id_def dest: find_Some_mem)
  have c: "confers access f owner \<longleftrightarrow> owner = fl_user_id f" for owner using assms(2) by (simp add: confers_def)
  note knowledge = knowledge_conferring [OF assms(4,3), of "us_id u" access ?g]
  have "(\<exists>k \<in> set (lb_knowledge lb). knowledge_holds lb f k \<and> knowledge_access lb (us_id u) access ?g k \<and> confers access f (kb_user_id k))
      \<longleftrightarrow> (\<exists>k \<in> set (lb_knowledge lb). kb_user_id k = fl_user_id f \<and> knowledge_holds lb f k \<and>
        permits (grants_at (lb_grants lb) (''knowledge'', kb_id k)) (us_id u) (user_group_ids lb u) access)"
    using False by (auto simp: c knowledge_access_def has_access_permits user_group_ids_def)
  note k = knowledge [unfolded this]
  have m: "b' \<longleftrightarrow> (\<exists>m \<in> set (lb_models lb). md_user_id m = fl_user_id f \<and> model_holds f m \<and>
        permits (grants_at (lb_grants lb) (''model'', md_id m)) (us_id u) (user_group_ids lb u) access)"
    if "model_access text_match lb f access (us_id u) ?g = Inr b'" for b'
    using model_conferring [OF that assms(5) [folded f]] False by (auto simp: c user_group_ids_def)
  show ?thesis
    using assms(1,2,3) False k m [of b] unfolding has_access_to_file_def Let_def
    by (auto split: if_splits)
qed

text \<open>Ann has put Bob's file into a knowledge base of her own.\<close>

definition laundering_library :: library where
  "laundering_library =
     \<lparr>lb_files = [\<lparr>fl_id = ''f'', fl_user_id = ''bob'', fl_meta = JNull\<rparr>],
      lb_knowledge = [\<lparr>kb_id = ''k'', kb_user_id = ''ann''\<rparr>], lb_knowledge_files = [(''k'', ''f'')],
      lb_channels = [], lb_channel_files = [], lb_channel_members = [], lb_chats = [], lb_chat_files = [],
      lb_shared_chats = [], lb_models = [], lb_notes = [],
      lb_users = [\<lparr>us_id = ''ann'', us_role = ''user''\<rparr>, \<lparr>us_id = ''bob'', us_role = ''user''\<rparr>],
      lb_groups = example_groups, lb_grants = []\<rparr>"

theorem write_access_needs_owners_object_witness:
  "has_access_to_file (\<lambda>_ _. True) laundering_library ''f'' ''write'' \<lparr>us_id = ''ann'', us_role = ''user''\<rparr> None = Inr False"
proof -
  let ?u = "\<lparr>us_id = ''ann'', us_role = ''user''\<rparr>"
  have "\<exists>b. has_access_to_file (\<lambda>_ _. True) laundering_library ''f'' ''write'' ?u None = Inr b"
    by (auto simp: has_access_to_file_def laundering_library_def get_file_by_id_def collection_access_def
        model_access_def get_model_owners_attaching_file_def Let_def)
  then obtain b where b: "has_access_to_file (\<lambda>_ _. True) laundering_library ''f'' ''write'' ?u None = Inr b" ..
  moreover have "\<not> b"
    using write_access_needs_owners_object [OF b, of "\<lparr>fl_id = ''f'', fl_user_id = ''bob'', fl_meta = JNull\<rparr>"]
    by (simp add: laundering_library_def get_file_by_id_def)
  ultimately show ?thesis by simp
qed

section \<open>Listing entries\<close>

text \<open>An entry of the right shape that the user may read, a note with the asked permission.\<close>

definition may_list ::
  "(json \<Rightarrow> string \<Rightarrow> bool) \<Rightarrow> library \<Rightarrow> user \<Rightarrow> string \<Rightarrow> json \<Rightarrow> bool" where
  "may_list text_match lb u perm e \<longleftrightarrow> checkable_entry e = Inr True \<and>
     (us_role u = ''admin'' \<or>
      entry_access text_match lb u (Some (resolve_group_ids (lb_groups lb) (us_id u) None)) perm e = Inr True)"

lemma accessible_entries:
  assumes "get_accessible_folder_files text_match lb (JArr entries) u None perm = Inr es"
  shows "es = filter (may_list text_match lb u perm) entries"
proof -
  obtain xs where xs: "filter_raising checkable_entry entries = Inr xs"
    using assms by (auto simp: get_accessible_folder_files_def and_then_Inr)
  have "es = filter (\<lambda>e. us_role u = ''admin'' \<or>
      entry_access text_match lb u (Some (resolve_group_ids (lb_groups lb) (us_id u) None)) perm e = Inr True) xs"
    using assms xs filter_raising_Inr
    by (auto simp: get_accessible_folder_files_def resolve_group_ids_def split: if_splits)
  then show ?thesis
    unfolding filter_raising_Inr [OF xs] filter_filter by (auto simp: may_list_def intro: filter_cong)
qed

lemma all_readable:
  assumes "can_read_all_folder_files text_match lb entries u perm = Inr True"
  shows "entries = JNull \<or> (\<exists>es. entries = JArr es \<and> (\<forall>e \<in> set es. may_list text_match lb u perm e))"
proof (cases entries)
  case (JArr es)
  show ?thesis
  proof (cases "es = []")
    case False
    then obtain ys where ys: "get_accessible_folder_files text_match lb (JArr es) u None perm = Inr ys" "length ys = length es"
      using assms JArr by (auto simp: can_read_all_folder_files_def and_then_Inr)
    then have "\<forall>e \<in> set es. may_list text_match lb u perm e"
      using accessible_entries [OF ys(1)] by (metis filter_id_conv length_filter_less order_less_irrefl)
    then show ?thesis using JArr by simp
  qed (simp add: JArr)
qed (use assms in \<open>simp_all add: can_read_all_folder_files_def\<close>)

end
