(* ===== verification/Permissions.thy ===== *)
theory Permissions
  imports AccessControl
begin

text \<open>
  The permission dicts of \<open>utils/access_control/__init__.py\<close>: the check of one permission and the
  combined dict sent to the browser agree. \<open>fits S v\<close> says that \<open>v\<close> has the shape of the schema
  \<open>S\<close> (nested dicts over booleans, keys of the schema only), which is what the permission forms
  admit; \<open>keypath S\<close> that a dotted key does not run past a boolean of the schema.
\<close>

fun fits :: "json \<Rightarrow> json \<Rightarrow> bool" where
  "fits s (JBool b) = (case s of JBool _ \<Rightarrow> True | _ \<Rightarrow> False)"
| "fits s (JObj d) = (case s of
       JObj sd \<Rightarrow> distinct (map fst d) \<and>
         (\<forall>(k, v) \<in> set d. case map_of sd k of None \<Rightarrow> False | Some w \<Rightarrow> fits w v)
     | _ \<Rightarrow> False)"
| "fits s _ = False"

fun keypath :: "json \<Rightarrow> string list \<Rightarrow> bool" where
  "keypath s [] = True"
| "keypath (JObj d) (k # ks) = (case map_of d k of None \<Rightarrow> True | Some w \<Rightarrow> keypath w ks)"
| "keypath _ (k # ks) = False"

text \<open>\<open>covers p d\<close>: every key of \<open>d\<close>, at every depth, is in \<open>p\<close>.\<close>

fun covers :: "json \<Rightarrow> json \<Rightarrow> bool" where
  "covers p (JObj d) = (case p of
       JObj pd \<Rightarrow> (\<forall>(k, v) \<in> set d. case map_of pd k of None \<Rightarrow> False | Some w \<Rightarrow> covers w v)
     | _ \<Rightarrow> False)"
| "covers p _ = True"

lemma fits_objE:
  assumes "fits s (JObj d)"
  obtains sd where "s = JObj sd" "distinct (map fst d)"
    "\<And>k v. map_of d k = Some v \<Longrightarrow> \<exists>w. map_of sd k = Some w \<and> fits w v"
proof -
  obtain sd where s: "s = JObj sd" "distinct (map fst d)"
    and all: "\<forall>(k, v) \<in> set d. case map_of sd k of None \<Rightarrow> False | Some w \<Rightarrow> fits w v"
    using assms by (cases s) auto
  have "\<exists>w. map_of sd k = Some w \<and> fits w v" if "map_of d k = Some v" for k v
    using all map_of_SomeD [OF that] by (auto split: option.splits)
  then show ?thesis using s that by blast
qed

lemma fits_objI:
  assumes "distinct (map fst d)" and "\<And>k v. map_of d k = Some v \<Longrightarrow> \<exists>w. map_of sd k = Some w \<and> fits w v"
  shows "fits (JObj sd) (JObj d)"
  using assms by (fastforce split: option.splits)

lemma fits_get:
  "fits (JObj sd) (JObj d) \<Longrightarrow> map_of d k = Some v \<Longrightarrow> \<exists>w. map_of sd k = Some w \<and> fits w v"
  by (erule fits_objE) blast

lemma fits_distinct: "fits s (JObj d) \<Longrightarrow> distinct (map fst d)"
  by (erule fits_objE) blast

lemma fits_dict_set:
  assumes "fits (JObj sd) (JObj d)" and "map_of sd k = Some w" and "fits w v"
  shows "fits (JObj sd) (JObj (dict_set k v d))"
proof (rule fits_objE [OF assms(1)])
  fix sd' assume "JObj sd = JObj sd'" "distinct (map fst d)"
    "\<And>k v. map_of d k = Some v \<Longrightarrow> \<exists>w. map_of sd' k = Some w \<and> fits w v"
  then show ?thesis using assms(2,3) by (intro fits_objI) (auto split: if_splits)
qed

lemma fits_tail: "fits s (JObj (kv # d)) \<Longrightarrow> fits s (JObj d)"
  by (cases s) auto

lemma fits_schema: "fits s (JObj d) \<Longrightarrow> \<exists>sd. s = JObj sd"
  by (cases s) auto

lemma fits_value: "fits (JObj sd) p \<Longrightarrow> \<exists>d. p = JObj d"
  by (cases p) auto

lemma fits_Nil [simp]: "fits (JObj sd) (JObj [])"
  by simp

declare fits.simps(2) [simp del]

lemma get_permission_obj:
  "get_permission (JObj d) (k # ks) = (case map_of d k of None \<Rightarrow> Inr False | Some v \<Rightarrow> get_permission v ks)"
  by (simp add: has_key_def get_or_def split: option.split)

declare get_permission.simps(2) [simp del]

lemma get_permission_empty [simp]: "get_permission (JObj []) ks = Inr False"
  by (cases ks) (simp_all add: get_permission_obj)

text \<open>A value of the schema's shape answers every key the schema does not cut short.\<close>

lemma get_permission_total:
  "fits s v \<Longrightarrow> keypath s ks \<Longrightarrow> \<exists>b. get_permission v ks = Inr b"
proof (induction ks arbitrary: s v)
  case (Cons k ks)
  obtain sd where s: "s = JObj sd" using Cons.prems(2) by (cases s) auto
  then obtain d where v: "v = JObj d" using Cons.prems(1) fits_value by blast
  show ?case
  proof (cases "map_of d k")
    case (Some x)
    then obtain w where "map_of sd k = Some w" "fits w x"
      using Cons.prems(1) fits_get unfolding s v by blast
    then show ?thesis using Cons.IH [of w x] Cons.prems(2) Some unfolding s v by (simp add: get_permission_obj)
  qed (auto simp: v get_permission_obj)
qed simp

definition allows :: "json \<Rightarrow> string list \<Rightarrow> bool" where
  "allows p ks \<longleftrightarrow> get_permission p ks = Inr True"

lemma allows_obj:
  "allows (JObj d) (k # ks) \<longleftrightarrow> (case map_of d k of None \<Rightarrow> False | Some v \<Rightarrow> allows v ks)"
  by (simp add: allows_def get_permission_obj split: option.split)

lemma allows_top [simp]: "allows (JObj d) [] \<longleftrightarrow> d \<noteq> []" "allows (JBool b) [] \<longleftrightarrow> b" "\<not> allows (JObj []) ks"
  by (simp_all add: allows_def)

lemma allows_get_or_empty: "allows (get_or d k (JObj [])) ks \<longleftrightarrow> allows (JObj d) (k # ks)"
  by (simp add: get_or_def allows_obj split: option.split)

lemma covers_obj:
  "covers (JObj p) (JObj d) \<longleftrightarrow> (\<forall>k v. (k, v) \<in> set d \<longrightarrow> (\<exists>w. map_of p k = Some w \<and> covers w v))"
proof -
  have "(case map_of p k of None \<Rightarrow> False | Some w \<Rightarrow> covers w v) \<longleftrightarrow> (\<exists>w. map_of p k = Some w \<and> covers w v)" for k v
    by (cases "map_of p k") auto
  then show ?thesis by auto
qed

lemma covers_dict_set:
  assumes "\<And>x D. map_of d k = Some x \<Longrightarrow> covers x D \<Longrightarrow> covers w D" and "covers (JObj d) D"
  shows "covers (JObj (dict_set k w d)) D"
proof (cases D)
  case (JObj td)
  then show ?thesis
    using assms unfolding JObj covers_obj map_of_dict_set fun_upd_apply by metis
qed simp_all

text \<open>Combining two dicts of the schema's shape cannot raise; it allows what either allows.\<close>

lemma combine_allows:
  "fits s p \<Longrightarrow> fits s (JObj g) \<Longrightarrow>
   \<exists>r. combine_permissions p g = Inr r \<and> fits s r \<and> (\<forall>D. covers p D \<longrightarrow> covers r D) \<and>
     (\<forall>ks. keypath s ks \<longrightarrow> (allows r ks \<longleftrightarrow> allows p ks \<or> allows (JObj g) ks))"
proof (induction g arbitrary: p s rule: measure_induct_rule [where f = "\<lambda>g. size (JObj g)"])
  case (less g)
  show ?case
  proof (cases g)
    case Nil
    then show ?thesis using less.prems by simp
  next
    case (Cons kv rest)
    obtain k v where kv: "kv = (k, v)" by (cases kv)
    obtain sd where s: "s = JObj sd" using less.prems(2) fits_schema by blast
    then obtain d where p: "p = JObj d" using less.prems(1) fits_value by blast
    have g: "fits s (JObj ((k, v) # rest))" using less.prems(2) Cons kv by simp
    obtain sv where sv: "map_of sd k = Some sv" "fits sv v"
      using fits_get [of sd "(k, v) # rest" k v] g unfolding s by auto
    have rest: "fits s (JObj rest)" "map_of rest k = None"
      using fits_tail [OF g] fits_distinct [OF g] by (auto simp: map_of_eq_None_iff)
    have old: "fits sv w" if "map_of d k = Some w" for w
      using fits_get [OF less.prems(1) [unfolded s p] that] sv(1) by simp
    obtain w where w: "fits sv w"
        "combine_permissions p g = combine_permissions (JObj (dict_set k w d)) rest"
        "\<And>D x. map_of d k = Some x \<Longrightarrow> covers x D \<Longrightarrow> covers w D"
        "\<And>ks. keypath sv ks \<Longrightarrow> allows w ks \<longleftrightarrow> allows (JObj d) (k # ks) \<or> allows v ks"
    proof (cases v)
      case (JObj h)
      obtain sh where sh: "sv = JObj sh" using sv(2) JObj fits_schema by blast
      have "fits sv (get_or d k (JObj []))"
        using old sh by (auto simp: get_or_def split: option.split)
      then obtain w where w: "combine_permissions (get_or d k (JObj [])) h = Inr w" "fits sv w"
          "\<forall>D. covers (get_or d k (JObj [])) D \<longrightarrow> covers w D"
          "\<forall>ks. keypath sv ks \<longrightarrow> (allows w ks \<longleftrightarrow> allows (get_or d k (JObj [])) ks \<or> allows (JObj h) ks)"
        using less.IH [of h sv "get_or d k (JObj [])"] sv(2) JObj Cons kv by auto
      show ?thesis
      proof (rule that [of w])
        show "combine_permissions p g = combine_permissions (JObj (dict_set k w d)) rest"
          using w(1) JObj p Cons kv by simp
        show "allows w ks \<longleftrightarrow> allows (JObj d) (k # ks) \<or> allows v ks" if "keypath sv ks" for ks
          using w(4) that JObj by (simp add: allows_get_or_empty)
        show "covers w D" if "map_of d k = Some x" "covers x D" for D x
          using w(3) that by (simp add: get_or_def)
      qed (rule w(2))
    next
      case (JBool b)
      then obtain x where sb: "sv = JBool x" using sv(2) by (cases sv) auto
      have one: "ks = []" if "keypath sv ks" for ks using that sb by (cases ks) auto
      have oldb: "\<exists>y. w = JBool y" if "map_of d k = Some w" for w using old [OF that] sb by (cases w) (auto simp: fits.simps(2))
      let ?w = "if has_key d k then py_or (get d k) v else v"
      have w: "fits sv ?w \<and> (\<forall>D x. map_of d k = Some x \<longrightarrow> covers x D \<longrightarrow> covers ?w D) \<and>
          (allows ?w [] \<longleftrightarrow> allows (JObj d) [k] \<or> allows v [])"
      proof (cases "map_of d k")
        case None
        then show ?thesis using JBool sb by (simp add: has_key_def allows_obj)
      next
        case (Some w)
        then obtain y where "w = JBool y" using oldb by blast
        then show ?thesis
          using Some JBool sb by (auto simp: has_key_def get_or_def py_or_def allows_obj elim: covers.elims)
      qed
      show ?thesis
      proof (rule that [of ?w])
        show "combine_permissions p g = combine_permissions (JObj (dict_set k ?w d)) rest"
          using JBool p Cons kv by simp
        show "allows ?w ks \<longleftrightarrow> allows (JObj d) (k # ks) \<or> allows v ks" if "keypath sv ks" for ks
          using w one [OF that] by blast
      qed (use w in blast)+
    qed (use sv(2) in \<open>cases sv; simp\<close>)+
    have fit: "fits s (JObj (dict_set k w d))"
      using less.prems(1) sv(1) w(1) unfolding s p by (rule fits_dict_set)
    then obtain r where r: "combine_permissions (JObj (dict_set k w d)) rest = Inr r" "fits s r"
        "\<forall>D. covers (JObj (dict_set k w d)) D \<longrightarrow> covers r D"
        "\<forall>ks. keypath s ks \<longrightarrow> (allows r ks \<longleftrightarrow> allows (JObj (dict_set k w d)) ks \<or> allows (JObj rest) ks)"
      using less.IH [of rest s "JObj (dict_set k w d)"] rest(1) Cons kv by auto
    have "covers (JObj (dict_set k w d)) D" if "covers p D" for D
      using covers_dict_set [of d k w D] that w(3) p by blast
    moreover have "allows r ks \<longleftrightarrow> allows p ks \<or> allows (JObj g) ks" if "keypath s ks" for ks
    proof (cases ks)
      case Nil
      then show ?thesis using r(4) Cons by (simp add: p)
    next
      case ks: (Cons j js)
      have "j = k \<Longrightarrow> keypath sv js" using that sv(1) ks s by simp
      then show ?thesis
        using r(4) that rest(2) w(4) [of js] ks Cons kv p by (auto simp: allows_obj split: option.splits)
    qed
    ultimately show ?thesis using r w(2) by metis
  qed
qed

section \<open>Filling in what is missing\<close>

lemma fits_fill:
  "fits s (JObj p) \<Longrightarrow> fits s (JObj d) \<Longrightarrow> fits s (JObj (fill_missing_permissions p d))"
proof (induction d arbitrary: s p rule: measure_induct_rule [where f = "\<lambda>d. size (JObj d)"])
  case (less d)
  show ?case
  proof (cases d)
    case (Cons kv rest)
    obtain k v where kv: "kv = (k, v)" by (cases kv)
    obtain sd where s: "s = JObj sd" using less.prems(2) fits_schema by blast
    have g: "fits s (JObj ((k, v) # rest))" using less.prems(2) Cons kv by simp
    obtain sv where sv: "map_of sd k = Some sv" "fits sv v"
      using fits_get [of sd "(k, v) # rest" k v] g unfolding s by auto
    let ?p = "case map_of p k of None \<Rightarrow> dict_set k v p
        | Some w \<Rightarrow> (case (v, w) of (JObj dv, JObj dw) \<Rightarrow> dict_set k (JObj (fill_missing_permissions dw dv)) p | _ \<Rightarrow> p)"
    have "fits s (JObj ?p)"
    proof (cases "map_of p k")
      case None
      then show ?thesis using fits_dict_set [of sd p k sv v] sv less.prems(1) s by simp
    next
      case (Some w)
      then have "fits sv w" using fits_get [of sd p k w] less.prems(1) sv(1) s by simp
      then have "fits sv (JObj (fill_missing_permissions dw dv))" if "v = JObj dv" "w = JObj dw" for dv dw
        using less.IH [of dv sv dw] sv(2) that Cons kv by simp
      then have "fits (JObj sd) (JObj (dict_set k (JObj (fill_missing_permissions dw dv)) p))"
        if "v = JObj dv" "w = JObj dw" for dv dw
        using fits_dict_set [OF less.prems(1) [unfolded s] sv(1)] that by blast
      then show ?thesis
        using Some less.prems(1) s by (cases v; cases w) simp_all
    qed
    then show ?thesis using less.IH [of rest s ?p] fits_tail [OF g] Cons kv by simp
  qed (use less.prems in simp)
qed

lemma update_same: "map_of al k = Some v \<Longrightarrow> AList.update k v al = al"
  by (induction al) (auto split: if_splits)

lemma fill_covered: "covers (JObj p) (JObj d) \<Longrightarrow> fill_missing_permissions p d = p"
proof (induction p d rule: fill_missing_permissions.induct)
  case (2 p k v rest)
  have tail: "covers (JObj p) (JObj rest)" using "2.prems" by auto
  obtain w where w: "map_of p k = Some w" "covers w v" using "2.prems" by (auto split: option.splits)
  have "(case (v, w) of (JObj dv, JObj dw) \<Rightarrow> dict_set k (JObj (fill_missing_permissions dw dv)) p | _ \<Rightarrow> p) = p"
    using 2 w by (auto split: json.split simp: dict_set_def update_same)
  then show ?case using 2 w tail by simp
qed simp

lemma covers_refl: "fits s d \<Longrightarrow> covers d d"
proof (induction d arbitrary: s)
  case (JObj d)
  have "case map_of d k of None \<Rightarrow> False | Some w \<Rightarrow> covers w v" if "(k, v) \<in> set d" for k v
  proof -
    have "map_of d k = Some v" using that fits_distinct [OF JObj.prems] by simp
    moreover from this obtain x where "fits x v" using JObj.prems fits_schema fits_get by blast
    ultimately show ?thesis using JObj.IH that by force
  qed
  then show ?case by auto
qed simp_all

section \<open>The check and the combined dict agree\<close>

lemma combine_groups_allows:
  "fits s p \<Longrightarrow> list_all (\<lambda>g. fits s (JObj (permissions_of g))) gs \<Longrightarrow>
   \<exists>r. combine_groups p gs = Inr r \<and> fits s r \<and> (\<forall>D. covers p D \<longrightarrow> covers r D) \<and>
     (\<forall>ks. keypath s ks \<longrightarrow> (allows r ks \<longleftrightarrow> allows p ks \<or> list_ex (\<lambda>g. allows (JObj (permissions_of g)) ks) gs))"
proof (induction gs arbitrary: p)
  case (Cons g gs)
  have g: "fits s (JObj (permissions_of g))" using Cons.prems(2) by simp
  obtain q where q: "combine_permissions p (permissions_of g) = Inr q" "fits s q" "\<forall>D. covers p D \<longrightarrow> covers q D"
      "\<forall>ks. keypath s ks \<longrightarrow> (allows q ks \<longleftrightarrow> allows p ks \<or> allows (JObj (permissions_of g)) ks)"
    using combine_allows [OF Cons.prems(1) g] by blast
  obtain r where "combine_groups q gs = Inr r" "fits s r" "\<forall>D. covers q D \<longrightarrow> covers r D"
      "\<forall>ks. keypath s ks \<longrightarrow> (allows r ks \<longleftrightarrow> allows q ks \<or> list_ex (\<lambda>g. allows (JObj (permissions_of g)) ks) gs)"
    using Cons.IH [OF q(2)] Cons.prems(2) by auto
  then show ?case using q by auto
qed simp

lemma any_group_permits_eq:
  assumes "list_all (\<lambda>g. fits s (JObj (permissions_of g))) gs" and "keypath s ks"
  shows "any_group_permits gs ks = Inr (list_ex (\<lambda>g. allows (JObj (permissions_of g)) ks) gs)"
  using assms(1)
proof (induction gs)
  case (Cons g gs)
  then obtain b where "get_permission (JObj (permissions_of g)) ks = Inr b"
    using get_permission_total [OF _ assms(2)] by fastforce
  then show ?case using Cons by (auto simp: allows_def)
qed simp

text \<open>
  Where the stored permissions have the schema's shape, asking for one permission and
  reading it off the combined dict sent to the browser give the same answer, and neither raises.
\<close>

theorem permission_check_matches_combined:
  assumes "fits s (JObj defaults)" and "fits s (JObj builtin)"
    and "list_all (\<lambda>g. fits s (JObj (permissions_of g))) (get_groups_by_member_id gdb uid)"
    and "keypath s (split_on (CHR ''.'') key)"
  shows "\<exists>p b. get_permissions gdb uid (fill_missing_permissions defaults builtin) = Inr p \<and>
     get_permission (JObj p) (split_on (CHR ''.'') key) = Inr b \<and>
     has_permission builtin gdb uid key (Some defaults) = Inr b"
proof -
  let ?d = "fill_missing_permissions defaults builtin" and ?ks = "split_on (CHR ''.'') key"
    and ?gs = "get_groups_by_member_id gdb uid"
  have d: "fits s (JObj ?d)" using assms(1,2) by (rule fits_fill)
  from combine_groups_allows [OF d assms(3)] obtain r
    where r: "combine_groups (JObj ?d) ?gs = Inr r" "fits s r" "covers r (JObj ?d)"
      "allows r ?ks \<longleftrightarrow> allows (JObj ?d) ?ks \<or> list_ex (\<lambda>g. allows (JObj (permissions_of g)) ?ks) ?gs"
    using covers_refl [OF d] assms(4) by blast
  obtain p where p: "r = JObj p" using r(3) by (cases r) auto
  have "get_permissions gdb uid ?d = Inr p"
    using r p by (simp add: get_permissions_def fill_covered)
  moreover obtain b where b: "get_permission (JObj p) ?ks = Inr b"
    using get_permission_total [OF r(2) assms(4)] p by blast
  moreover obtain c where c: "get_permission (JObj ?d) ?ks = Inr c"
    using get_permission_total [OF d assms(4)] by blast
  moreover have "has_permission builtin gdb uid key (Some defaults) = Inr b"
    using r(4) b c p by (auto simp: has_permission_def Let_def any_group_permits_eq [OF assms(3,4)] allows_def)
  ultimately show ?thesis by blast
qed

theorem permission_check_matches_combined_witness:
  "\<exists>p. get_permissions example_groups ''ann'' (fill_missing_permissions [] [(''chat'', JObj [(''edit'', JBool True)])]) = Inr p \<and>
     get_permission (JObj p) [''chat'', ''edit''] =
       has_permission [(''chat'', JObj [(''edit'', JBool True)])] example_groups ''ann'' ''chat.edit'' (Some [])"
proof -
  let ?b = "[(''chat'', JObj [(''edit'', JBool True)])]"
  have "list_all (\<lambda>g. fits (JObj ?b) (JObj (permissions_of g))) (get_groups_by_member_id example_groups ''ann'')"
    by (auto simp: list_all_iff set_get_groups_by_member_id example_groups_def mk_group_def permissions_of_def)
  moreover have split: "split_on (CHR ''.'') ''chat.edit'' = [''chat'', ''edit'']" by simp
  ultimately show ?thesis
    using permission_check_matches_combined [of "JObj ?b" "[]" ?b example_groups "''ann''" "''chat.edit''"]
    by (fastforce simp: fits.simps(2))
qed

end
