(* ===== verification/Sharing.thy ===== *)
theory Sharing
  imports Permissions
begin

text \<open>
  What the access-grant filter (\<open>filter_allowed_access_grants\<close>) guarantees about the stored
  grants, and the agreement of the two access checks: over a grant list kept as configuration
  and over the rows of the table.
\<close>

section \<open>The filter and the stored grants\<close>

lemma payload_grants_mono: "set gs \<subseteq> set gs' \<Longrightarrow> payload_grants gs \<subseteq> payload_grants gs'"
  by (auto simp: payload_grants_def)

lemma unless_permitted_Inr:
  "unless_permitted check needed strip gs = Inr r \<Longrightarrow>
     r = gs \<and> (needed gs \<longrightarrow> check = Inr True) \<or> r = strip gs"
  by (auto simp: unless_permitted_def and_then_Inr split: if_splits)

lemma payload_grants_filter:
  "k \<in> payload_grants (filter P gs) \<longleftrightarrow> (\<exists>g \<in> set gs. P g \<and> grant_key_of g = Some k)"
  by (auto simp: payload_grants_def)

text \<open>What each stripping step leaves behind of the grants it strips.\<close>

lemma no_anyone_left: "(''anyone'', pid, perm) \<notin> payload_grants (strip_anyone_access_grants (Some gs))"
  by (auto simp: strip_anyone_access_grants_def payload_grants_filter grant_key_of_iff access_simps)

lemma no_named_left:
  "(''group'', pid, perm) \<notin> payload_grants (filter (\<lambda>g. \<not> is_named_principal_grant g) gs)"
  "pid \<noteq> ''*'' \<Longrightarrow> (''user'', pid, perm) \<notin> payload_grants (filter (\<lambda>g. \<not> is_named_principal_grant g) gs)"
  by (auto simp: payload_grants_filter grant_key_of_iff is_named_principal_grant_def)

lemma no_public_left:
  "(''user'', ''*'', perm) \<notin> payload_grants (filter (\<lambda>g. \<not> (grant_field g ''principal_type'' = JStr ''user'' \<and>
     grant_field g ''principal_id'' = JStr ''*'')) gs)"
  by (auto simp: payload_grants_filter grant_key_of_iff)

lemma no_user_left:
  "pid \<noteq> ''*'' \<Longrightarrow> (''user'', pid, perm) \<notin> payload_grants (strip_user_access_grants (Some gs))"
  by (auto simp: strip_user_access_grants_def payload_grants_filter grant_key_of_iff access_simps)

lemma no_group_left:
  "(''group'', pid, perm) \<notin> payload_grants (filter (\<lambda>g. grant_field g ''principal_type'' \<noteq> JStr ''group'') gs)"
  by (auto simp: payload_grants_filter grant_key_of_iff)

lemma strip_subset:
  "set (strip_anyone_access_grants (Some gs)) \<subseteq> set gs" "set (strip_user_access_grants (Some gs)) \<subseteq> set gs"
  by (auto simp: strip_anyone_access_grants_def strip_user_access_grants_def)

lemma payload_perm: "(pt, pid, perm) \<in> payload_grants gs \<Longrightarrow> perm = ''read'' \<or> perm = ''write''"
  by (auto simp: payload_grants_def grant_key_of_iff)

lemma named_in_list:
  "(''group'', pid, perm) \<in> payload_grants gs \<Longrightarrow> list_ex is_named_principal_grant gs"
  "(''user'', pid, perm) \<in> payload_grants gs \<Longrightarrow> pid \<noteq> ''*'' \<Longrightarrow> list_ex is_named_principal_grant gs"
  "(''group'', pid, perm) \<in> payload_grants gs \<Longrightarrow> list_ex (\<lambda>g. grant_field g ''principal_type'' = JStr ''group'') gs"
  by (auto simp: payload_grants_def grant_key_of_iff is_named_principal_grant_def list_ex_iff)

text \<open>What may survive: the kinds of grants and the permission each needs.\<close>

definition survivors_permitted ::
  "(string \<Rightarrow> bool) \<Rightarrow> string option \<Rightarrow> string option \<Rightarrow> grant_key set \<Rightarrow> bool" where
  "survivors_permitted may public_key sharing ks \<longleftrightarrow>
     (\<forall>perm. (''user'', ''*'', perm) \<in> ks \<longrightarrow> (\<exists>k. public_key = Some k \<and> may k)) \<and>
     (\<forall>pid perm. pid \<noteq> ''*'' \<longrightarrow> (''user'', pid, perm) \<in> ks \<longrightarrow>
        may ''access_grants.allow_users'' \<and> (case sharing of None \<Rightarrow> True | Some k \<Rightarrow> may k)) \<and>
     (\<forall>gid perm. (''group'', gid, perm) \<in> ks \<longrightarrow>
        may ''access_grants.allow_groups'' \<and> (case sharing of None \<Rightarrow> True | Some k \<Rightarrow> may k))"

lemma filter_allowed_payload:
  assumes run: "filter_allowed_access_grants builtin gdb defaults uid role gs public_key anyone_key sharing_key = Inr gs'"
  defines "may \<equiv> \<lambda>k. has_permission builtin gdb uid k (Some defaults) = Inr True"
  shows "set gs' \<subseteq> set gs \<and>
     ((''anyone'', ''*'', ''read'') \<in> payload_grants gs' \<longrightarrow>
        (\<exists>k. some_id anyone_key = Some k \<and> (role = ''admin'' \<or> may k))) \<and>
     (role \<noteq> ''admin'' \<longrightarrow> gs \<noteq> [] \<longrightarrow> (\<exists>sharing. resolve_sharing_key sharing_key public_key defaults = Inr sharing \<and>
        survivors_permitted may public_key sharing (payload_grants gs')))"
proof (cases "gs = []")
  case False
  let ?may = "\<lambda>k. has_permission builtin gdb uid k (Some defaults)"
  let ?s1 = "if has_anyone_read_access_grant (Some gs)
         then (case anyone_key of
                 None \<Rightarrow> Inr (strip_anyone_access_grants (Some gs))
               | Some key \<Rightarrow>
                   if key = [] then Inr (strip_anyone_access_grants (Some gs))
                   else if role = ''admin'' then Inr gs
                   else and_then (?may key) (\<lambda>ok. Inr (if ok then gs else strip_anyone_access_grants (Some gs))))
         else Inr gs"
  let ?tail = "\<lambda>g1. and_then (resolve_sharing_key sharing_key public_key defaults)
        (\<lambda>key. and_then
           (case key of None \<Rightarrow> Inr g1
            | Some k \<Rightarrow> unless_permitted (?may k) (list_ex is_named_principal_grant)
                (filter (\<lambda>g. \<not> is_named_principal_grant g)) g1)
        (\<lambda>g2. and_then
           (unless_permitted (public_check ?may public_key)
              (\<lambda>gs. has_public_read_access_grant (Some gs) \<or> has_public_write_access_grant (Some gs))
              (filter (\<lambda>g. \<not> (grant_field g ''principal_type'' = JStr ''user'' \<and>
                              grant_field g ''principal_id'' = JStr ''*''))) g2)
        (\<lambda>g3. and_then
           (unless_permitted (?may ''access_grants.allow_users'') (\<lambda>gs. has_user_access_grant (Some gs))
              (\<lambda>gs. strip_user_access_grants (Some gs)) g3)
        (\<lambda>g4. unless_permitted (?may ''access_grants.allow_groups'')
              (list_ex (\<lambda>g. grant_field g ''principal_type'' = JStr ''group''))
              (filter (\<lambda>g. grant_field g ''principal_type'' \<noteq> JStr ''group'')) g4))))"
  have "and_then ?s1 (\<lambda>g1. if role = ''admin'' then Inr g1 else ?tail g1) = Inr gs'"
    using run unfolding filter_allowed_access_grants_def Let_def if_not_P [OF False] .
  then obtain g1 where g1: "?s1 = Inr g1" and tail: "(if role = ''admin'' then Inr g1 else ?tail g1) = Inr gs'"
    unfolding and_then_Inr by (elim exE conjE)
  have rest: "role = ''admin'' \<Longrightarrow> gs' = g1" using tail by simp
  have more:
    "role \<noteq> ''admin'' \<Longrightarrow> \<exists>sharing g2 g3 g4. resolve_sharing_key sharing_key public_key defaults = Inr sharing \<and>
      (case sharing of None \<Rightarrow> Inr g1 | Some k \<Rightarrow> unless_permitted (?may k) (list_ex is_named_principal_grant)
         (filter (\<lambda>g. \<not> is_named_principal_grant g)) g1) = Inr g2 \<and>
      unless_permitted (public_check ?may public_key)
        (\<lambda>gs. has_public_read_access_grant (Some gs) \<or> has_public_write_access_grant (Some gs))
        (filter (\<lambda>g. \<not> (grant_field g ''principal_type'' = JStr ''user'' \<and>
                        grant_field g ''principal_id'' = JStr ''*''))) g2 = Inr g3 \<and>
      unless_permitted (?may ''access_grants.allow_users'') (\<lambda>gs. has_user_access_grant (Some gs))
        (\<lambda>gs. strip_user_access_grants (Some gs)) g3 = Inr g4 \<and>
      unless_permitted (?may ''access_grants.allow_groups'')
        (list_ex (\<lambda>g. grant_field g ''principal_type'' = JStr ''group''))
        (filter (\<lambda>g. grant_field g ''principal_type'' \<noteq> JStr ''group'')) g4 = Inr gs'"
  proof -
    assume "role \<noteq> ''admin''"
    then have "?tail g1 = Inr gs'" using tail by (simp only: if_False)
    then show ?thesis unfolding and_then_Inr by blast
  qed
  have s1: "set g1 \<subseteq> set gs" using g1 strip_subset(1) [of gs]
    by (auto simp: and_then_Inr split: if_splits option.splits)
  have any1: "\<exists>k. some_id anyone_key = Some k \<and> (role = ''admin'' \<or> may k)"
    if "(''anyone'', ''*'', ''read'') \<in> payload_grants g1"
    using that g1 no_anyone_left [of "''*''" "''read''" gs]
    by (auto simp: and_then_Inr has_grant_checks some_id_def may_def split: if_splits option.splits)
  show ?thesis
  proof (cases "role = ''admin''")
    case True
    then show ?thesis using rest s1 any1 by simp
  next
    case False
    then obtain sharing g2 g3 g4 where sh: "resolve_sharing_key sharing_key public_key defaults = Inr sharing"
      and e2: "(case sharing of None \<Rightarrow> Inr g1 | Some k \<Rightarrow> unless_permitted (?may k) (list_ex is_named_principal_grant)
         (filter (\<lambda>g. \<not> is_named_principal_grant g)) g1) = Inr g2"
      and e3: "unless_permitted (public_check ?may public_key)
        (\<lambda>gs. has_public_read_access_grant (Some gs) \<or> has_public_write_access_grant (Some gs))
        (filter (\<lambda>g. \<not> (grant_field g ''principal_type'' = JStr ''user'' \<and>
                        grant_field g ''principal_id'' = JStr ''*''))) g2 = Inr g3"
      and e4: "unless_permitted (?may ''access_grants.allow_users'') (\<lambda>gs. has_user_access_grant (Some gs))
        (\<lambda>gs. strip_user_access_grants (Some gs)) g3 = Inr g4"
      and e5: "unless_permitted (?may ''access_grants.allow_groups'')
        (list_ex (\<lambda>g. grant_field g ''principal_type'' = JStr ''group''))
        (filter (\<lambda>g. grant_field g ''principal_type'' \<noteq> JStr ''group'')) g4 = Inr gs'"
      using more by blast
    note u3 = unless_permitted_Inr [OF e3] and u4 = unless_permitted_Inr [OF e4] and u5 = unless_permitted_Inr [OF e5]
    have s2: "set g2 \<subseteq> set g1" using e2 by (auto split: option.splits dest!: unless_permitted_Inr)
    have s3: "set g3 \<subseteq> set g2" using u3 by auto
    have s4: "set g4 \<subseteq> set g3" using u4 strip_subset(2) [of g3] by auto
    have s5: "set gs' \<subseteq> set g4" using u5 by auto
    have m: "k \<in> payload_grants gs' \<Longrightarrow> k \<in> payload_grants g4" "k \<in> payload_grants g4 \<Longrightarrow> k \<in> payload_grants g3"
      "k \<in> payload_grants g3 \<Longrightarrow> k \<in> payload_grants g2" "k \<in> payload_grants g2 \<Longrightarrow> k \<in> payload_grants g1" for k
      using payload_grants_mono s2 s3 s4 s5 by blast+
    have m2: "k \<in> payload_grants gs' \<Longrightarrow> k \<in> payload_grants g2" for k using m by blast
    have public: "\<exists>k. public_key = Some k \<and> may k" if k: "(''user'', ''*'', perm) \<in> payload_grants gs'" for perm
    proof -
      have "(''user'', ''*'', perm) \<in> payload_grants g3" using k m by blast
      with u3 no_public_left [of perm g2] have "g3 = g2"
        and "has_public_read_access_grant (Some g2) \<or> has_public_write_access_grant (Some g2) \<longrightarrow>
          (\<exists>k. public_key = Some k \<and> may k)"
        by (auto simp: may_def public_check_def split: option.splits)
      then show ?thesis using \<open>_ \<in> payload_grants g3\<close> payload_perm [of _ _ perm g3] by (auto simp: has_grant_checks)
    qed
    have sharing_ok: "case sharing of None \<Rightarrow> True | Some k \<Rightarrow> may k"
      if "(''group'', x, perm) \<in> payload_grants g2 \<or> x \<noteq> ''*'' \<and> (''user'', x, perm) \<in> payload_grants g2" for x perm
      using that e2 no_named_left [where pid = x and perm = perm and gs = g1] named_in_list [of x perm g1] m(4)
      by (auto simp: may_def split: option.splits dest!: unless_permitted_Inr)
    have users: "may ''access_grants.allow_users''"
      if "pid \<noteq> ''*''" "(''user'', pid, perm) \<in> payload_grants gs'" for pid perm
    proof -
      have "(''user'', pid, perm) \<in> payload_grants g4" using that m by blast
      with u4 no_user_left [OF that(1), of perm g3] have "g4 = g3" "has_user_access_grant (Some g3) \<longrightarrow> may ''access_grants.allow_users''"
        by (auto simp: may_def)
      then show ?thesis using \<open>_ \<in> payload_grants g4\<close> that(1) by (auto simp: has_user_check)
    qed
    have groups: "may ''access_grants.allow_groups''" if "(''group'', gid, perm) \<in> payload_grants gs'" for gid perm
      using that u5 no_group_left [of gid perm g4] named_in_list(3) [of gid perm g4] by (auto simp: may_def)
    have "survivors_permitted may public_key sharing (payload_grants gs')"
      unfolding survivors_permitted_def
    proof (intro conjI allI impI)
      fix perm assume "(''user'', ''*'', perm) \<in> payload_grants gs'"
      then show "\<exists>k. public_key = Some k \<and> may k" by (rule public)
    next
      fix pid perm assume k: "pid \<noteq> ''*''" "(''user'', pid, perm) \<in> payload_grants gs'"
      then show "may ''access_grants.allow_users''" by (rule users)
      show "case sharing of None \<Rightarrow> True | Some k \<Rightarrow> may k"
        by (rule sharing_ok [of pid perm]) (simp add: k(1) m2 [OF k(2)])
    next
      fix gid perm assume k: "(''group'', gid, perm) \<in> payload_grants gs'"
      then show "may ''access_grants.allow_groups''" by (rule groups)
      show "case sharing of None \<Rightarrow> True | Some k \<Rightarrow> may k"
        by (rule sharing_ok [of gid perm]) (simp add: m2 [OF k])
    qed
    moreover have "set gs' \<subseteq> set gs" using s1 s2 s3 s4 s5 by blast
    moreover have "(''anyone'', ''*'', ''read'') \<in> payload_grants g1"
      if "(''anyone'', ''*'', ''read'') \<in> payload_grants gs'" using m(4) [OF m2 [OF that]] .
    ultimately show ?thesis using any1 sh by blast
  qed
qed (use run in \<open>simp add: filter_allowed_access_grants_def\<close>)

text \<open>
  C16. Whatever grants a user who is no admin submits, once they have passed the filter and are stored, every
  grant of the resource is one the user was permitted to hand out: a public one needs the
  public permission, one to a named user \<open>access_grants.allow_users\<close>, one to a group
  \<open>access_grants.allow_groups\<close>, both of these the resource's sharing permission as well; one to
  anyone needs the anyone permission of the kind of resource, which must have one.
\<close>

theorem stored_grants_are_permitted:
  assumes run: "filter_allowed_access_grants builtin gdb defaults uid role gs public_key anyone_key sharing_key = Inr gs'"
    and db: "grants_ok db" "fresh_ids us db" and user: "role \<noteq> ''admin''" "gs \<noteq> []"
  shows "\<exists>rows db' sharing. set_access_grants ns us clk rt rid (Some gs') db = Inr (rows, db') \<and>
     resolve_sharing_key sharing_key public_key defaults = Inr sharing \<and>
     grants_at db' (rt, rid) \<subseteq> payload_grants gs \<and>
     survivors_permitted (\<lambda>k. has_permission builtin gdb uid k (Some defaults) = Inr True)
       public_key sharing (grants_at db' (rt, rid)) \<and>
     ((''anyone'', ''*'', ''read'') \<in> grants_at db' (rt, rid) \<longrightarrow>
        (\<exists>k. some_id anyone_key = Some k \<and> has_permission builtin gdb uid k (Some defaults) = Inr True))"
proof -
  obtain rows db' where st: "set_access_grants ns us clk rt rid (Some gs') db = Inr (rows, db')"
      "grants_at db' (rt, rid) = payload_grants gs'"
    using stored_payload [OF db, of ns clk rt rid gs'] by auto
  note f = filter_allowed_payload [OF run]
  obtain sharing where "resolve_sharing_key sharing_key public_key defaults = Inr sharing"
      "survivors_permitted (\<lambda>k. has_permission builtin gdb uid k (Some defaults) = Inr True)
         public_key sharing (payload_grants gs')"
    using f user by blast
  moreover have "payload_grants gs' \<subseteq> payload_grants gs"
    using f by (intro payload_grants_mono) blast
  ultimately show ?thesis using st f user(1) by (intro exI [of _ rows] exI [of _ db'] exI [of _ sharing]) simp
qed

definition public_note :: json where
  "public_note = grant_json ''user'' ''*'' ''read''"

theorem stored_grants_are_permitted_witness:
  "\<exists>rows db'. set_access_grants draw draw int ''note'' ''n'' (Some []) [] = Inr (rows, db') \<and>
     (''user'', ''*'', ''read'') \<notin> grants_at db' (''note'', ''n'') \<and>
     filter_allowed_access_grants [] example_groups [] ''ann'' ''user'' [public_note] (Some ''sharing.public_notes'') None None = Inr []"
proof -
  let ?b = "[] :: dict"
  have key: "grant_key_of public_note = Some (''user'', ''*'', ''read'')"
    by (simp add: public_note_def grant_key_of_json)
  have no: "has_permission ?b example_groups ''ann'' ''sharing.public_notes'' (Some []) = Inr False"
    by (simp add: has_permission_def Let_def get_groups_by_member_id_def by_updated_desc_def example_groups_def
        mk_group_def mk_member_def permissions_of_def)
  have sh: "resolve_sharing_key None (Some ''sharing.public_notes'') [] = Inr None"
    by (simp add: resolve_sharing_key_def some_id_def sharing_key_for_def py_or_def has_key_def get_or_def)
  have run: "filter_allowed_access_grants ?b example_groups [] ''ann'' ''user'' [public_note] (Some ''sharing.public_notes'') None None = Inr []"
    unfolding filter_allowed_access_grants_def Let_def sh
    by (simp add: has_grant_checks has_user_check key unless_permitted_def public_check_def no)
      (simp add: public_note_def grant_json_def grant_field_def get_or_def)
  from stored_grants_are_permitted [OF run grants_ok_Nil, of draw int "''note''" "''n''"]
  obtain rows db' where "set_access_grants draw draw int ''note'' ''n'' (Some []) [] = Inr (rows, db')"
      "(''user'', ''*'', ''read'') \<in> grants_at db' (''note'', ''n'') \<longrightarrow>
         has_permission ?b example_groups ''ann'' ''sharing.public_notes'' (Some []) = Inr True"
    by (auto simp: survivors_permitted_def)
  then show ?thesis using no run by auto
qed

section \<open>The two access checks agree\<close>

lemma listed_grant_admits_iff:
  assumes "uid \<noteq> []" and "[] \<notin> set gids" and "perm \<in> {''read'', ''write''}"
    and "hashable (grant_field g ''principal_id'')"
  shows "listed_grant_admits uid perm gids g = Inr (grant_key_of g = Some (''user'', ''*'', perm) \<or>
     grant_key_of g = Some (''user'', uid, perm) \<or> (\<exists>x \<in> set gids. grant_key_of g = Some (''group'', x, perm)))"
proof (cases g)
  case (JObj d)
  have f: "get d k = grant_field g k" for k by (simp add: grant_field_def JObj)
  have wild: "grant_key_of g = Some (''user'', ''*'', perm) \<longleftrightarrow> grant_field g ''permission'' = JStr perm \<and>
      grant_field g ''principal_type'' = JStr ''user'' \<and> grant_field g ''principal_id'' = JStr ''*''"
    using assms(3) unfolding grant_key_of_iff by (auto simp: JObj)
  have own: "grant_key_of g = Some (''user'', uid, perm) \<longleftrightarrow> grant_field g ''permission'' = JStr perm \<and>
      grant_field g ''principal_type'' = JStr ''user'' \<and> grant_field g ''principal_id'' = JStr uid"
    using assms(1,3) unfolding grant_key_of_iff by (auto simp: JObj)
  have grp: "grant_key_of g = Some (''group'', x, perm) \<longleftrightarrow> grant_field g ''permission'' = JStr perm \<and>
      grant_field g ''principal_type'' = JStr ''group'' \<and> grant_field g ''principal_id'' = JStr x" if "x \<in> set gids" for x
    using assms(2,3) that unfolding grant_key_of_iff by (auto simp: JObj)
  have "(\<exists>x \<in> set gids. grant_key_of g = Some (''group'', x, perm)) \<longleftrightarrow> grant_field g ''permission'' = JStr perm \<and>
      grant_field g ''principal_type'' = JStr ''group'' \<and> grant_field g ''principal_id'' \<in> JStr ` set gids"
    using grp by auto
  moreover have "listed_grant_admits uid perm gids g =
     (if grant_field g ''permission'' \<noteq> JStr perm then Inr False
      else if grant_field g ''principal_type'' = JStr ''user'' \<and>
          (grant_field g ''principal_id'' = JStr ''*'' \<or> grant_field g ''principal_id'' = JStr uid) then Inr True
      else if grant_field g ''principal_type'' = JStr ''group'' \<and> gids \<noteq> []
      then Inr (grant_field g ''principal_id'' \<in> JStr ` set gids) else Inr False)"
    using assms(4) by (simp only: listed_grant_admits_def JObj json.case f [unfolded JObj] Let_def if_True)
  ultimately show ?thesis
    unfolding wild own by (simp split: if_split)
qed (auto simp: listed_grant_admits_def grant_key_of_iff)

lemma any_listed_eq:
  assumes "\<And>g. g \<in> set gs \<Longrightarrow> listed_grant_admits uid perm gids g = Inr (P g)"
  shows "any_listed_grant_admits uid perm gids gs = Inr (list_ex P gs)"
  using assms by (induction gs) auto

text \<open>
  A grant list kept as configuration admits exactly whom the same list admits once it is
  stored as rows: the in-memory check and the query agree on every list whose principals are
  no containers (those make the in-memory check raise).
\<close>

theorem listed_access_agrees:
  assumes ids: "uid \<noteq> []" "[] \<notin> set (resolve_group_ids gdb uid gids)" "perm \<in> {''read'', ''write''}"
    and plain: "list_all (\<lambda>g. hashable (grant_field g ''principal_id'')) gs"
    and db: "grants_ok db" "fresh_ids us db"
  shows "\<exists>rows db'. set_access_grants ns us clk rt rid (Some gs) db = Inr (rows, db') \<and>
     has_listed_access gdb uid perm (JArr gs) gids = Inr (has_access gdb uid rt rid perm gids db')"
proof -
  let ?gids = "resolve_group_ids gdb uid gids"
  obtain rows db' where st: "set_access_grants ns us clk rt rid (Some gs) db = Inr (rows, db')"
      "grants_at db' (rt, rid) = payload_grants gs"
    using stored_payload [OF db, of ns clk rt rid gs] by auto
  have "any_listed_grant_admits uid perm ?gids gs = Inr (list_ex (\<lambda>g. grant_key_of g = Some (''user'', ''*'', perm) \<or>
      grant_key_of g = Some (''user'', uid, perm) \<or> (\<exists>x \<in> set ?gids. grant_key_of g = Some (''group'', x, perm))) gs)"
    by (rule any_listed_eq, rule listed_grant_admits_iff [OF ids]) (use plain in \<open>simp add: list_all_iff\<close>)
  moreover have "list_ex (\<lambda>g. grant_key_of g = Some (''user'', ''*'', perm) \<or>
      grant_key_of g = Some (''user'', uid, perm) \<or> (\<exists>x \<in> set ?gids. grant_key_of g = Some (''group'', x, perm))) gs
      \<longleftrightarrow> permits (payload_grants gs) uid (set ?gids) perm"
    by (auto simp: permits_def payload_grants_def list_ex_iff)
  ultimately have "has_listed_access gdb uid perm (JArr gs) gids = Inr (permits (payload_grants gs) uid (set ?gids) perm)"
    by (cases "gs = []") (simp_all add: has_listed_access_def)
  then show ?thesis using st by (simp add: has_access_permits)
qed

theorem listed_access_agrees_witness:
  "\<exists>rows db'. set_access_grants draw draw int ''note'' ''n'' (Some [grant_json ''group'' ''g2'' ''read'', JNull]) [] = Inr (rows, db') \<and>
     has_listed_access example_groups ''ann'' ''read'' (JArr [grant_json ''group'' ''g2'' ''read'', JNull]) (Some [''g2'']) =
       Inr (has_access example_groups ''ann'' ''note'' ''n'' ''read'' (Some [''g2'']) db')"
  by (rule listed_access_agrees)
    (simp_all add: resolve_group_ids_def hashable_def grant_field_def grant_json_def get_or_def)

end
