(* ===== verification/FolderRoutes.thy ===== *)
theory FolderRoutes
  imports FileAccess Sharing
begin

text \<open>
  The requests that create, change, move and share a folder (\<open>routers/folders.py\<close>), over the
  folder table, the library and the grants. A request answers a folder or an error, and the
  table as it was left, which an error may have changed. Publishing the event of a request is
  taken to succeed. The clock, the drawn ids, SQL's \<open>lower\<close> and the text match are arguments.
\<close>

section \<open>Answers\<close>

datatype http_error =
    HTTPException nat
  | Unhandled py_error

type_synonym 'a answer = "(http_error + 'a) \<times> folder_db"

definition or_raise :: "py_error + 'a \<Rightarrow> http_error + 'a" where
  "or_raise r = (case r of Inl e \<Rightarrow> Inl (Unhandled e) | Inr x \<Rightarrow> Inr x)"

text \<open>Go on with the value of a check, or answer its error with the table untouched.\<close>

definition checked ::
  "http_error + 'a \<Rightarrow> 's \<Rightarrow> ('a \<Rightarrow> (http_error + 'b) \<times> 's) \<Rightarrow> (http_error + 'b) \<times> 's" where
  "checked r fs k = (case r of Inl e \<Rightarrow> (Inl e, fs) | Inr x \<Rightarrow> k x)"

lemma checked_Inr: "checked r fs k = (Inr y, fs') \<longleftrightarrow> (\<exists>x. r = Inr x \<and> k x = (Inr y, fs'))"
  by (cases r) (auto simp: checked_def)

lemma or_raise_Inr [simp]: "or_raise r = Inr x \<longleftrightarrow> r = Inr x"
  by (cases r) (auto simp: or_raise_def)

section \<open>Checks shared by the requests\<close>

record folder_config =
  fc_enable :: json
  fc_permissions :: "dict option"
  fc_builtin :: dict

definition check_folders_permission :: "folder_config \<Rightarrow> library \<Rightarrow> user \<Rightarrow> http_error + unit" where
  "check_folders_permission cfg lb u =
     (if fc_enable cfg = JBool False then Inl (HTTPException 403)
      else if us_role u = ''admin'' then Inr ()
      else and_then (or_raise (has_permission (fc_builtin cfg) (lb_groups lb) (us_id u) ''features.folders'' (fc_permissions cfg)))
             (\<lambda>ok. if ok then Inr () else Inl (HTTPException 403)))"

definition may_write_folder :: "library \<Rightarrow> folder_db \<Rightarrow> user \<Rightarrow> folder \<Rightarrow> bool" where
  "may_write_folder lb fs u f \<longleftrightarrow>
     us_role u = ''admin'' \<or> has_folder_access (lb_groups lb) (lb_grants lb) fs (us_id u) f ''write''"

text \<open>\<open>data and 'files' in data\<close>, and then \<open>data['files']\<close>.\<close>

definition files_of :: "json \<Rightarrow> json option" where
  "files_of data = (if truthy data then map_of (as_dict data) ''files'' else None)"

definition entry_key :: "json \<Rightarrow> py_error + (json \<times> json)" where
  "entry_key e =
     (let t = get (as_dict e) ''type''; i = get (as_dict e) ''id''
      in if hashable t \<and> hashable i then Inr (t, i) else Inl TypeError)"

definition not_held :: "(json \<times> json) list \<Rightarrow> json \<Rightarrow> py_error + bool" where
  "not_held held e = (if is_dict e then and_then (entry_key e) (\<lambda>k. Inr (k \<notin> set held)) else Inr True)"

definition added_folder_entries :: "json \<Rightarrow> json \<Rightarrow> py_error + json" where
  "added_folder_entries before after =
     (if \<not> is_list after then Inr after
      else and_then (traverse entry_key (filter is_dict (as_list before))) (\<lambda>held.
           and_then (filter_raising (not_held held) (as_list after)) (\<lambda>es. Inr (JArr es))))"

text \<open>Every entry is one the user can read with the given right to a note; 403 otherwise.\<close>

definition require_readable ::
  "(json \<Rightarrow> string \<Rightarrow> bool) \<Rightarrow> library \<Rightarrow> json \<Rightarrow> user \<Rightarrow> string \<Rightarrow> http_error + unit" where
  "require_readable text_match lb files u perm =
     and_then (or_raise (can_read_all_folder_files text_match lb files u perm))
       (\<lambda>ok. if ok then Inr () else Inl (HTTPException 403))"

lemma require_readable_Inr:
  assumes "require_readable text_match lb files u perm = Inr ()"
  shows "files = JNull \<or> (\<exists>es. files = JArr es \<and> (\<forall>e \<in> set es. may_list text_match lb u perm e))"
  using assms by (intro all_readable) (auto simp: require_readable_def and_then_Inr split: if_splits)

section \<open>Create\<close>

definition answer_folder :: "folder option \<times> folder_db \<Rightarrow> folder answer" where
  "answer_folder r = (case r of (None, fs) \<Rightarrow> (Inl (HTTPException 400), fs) | (Some f, fs) \<Rightarrow> (Inr f, fs))"

definition create_folder ::
  "(json \<Rightarrow> string \<Rightarrow> bool) \<Rightarrow> (string \<Rightarrow> string) \<Rightarrow> folder_config \<Rightarrow> string \<Rightarrow> int \<Rightarrow> int \<Rightarrow> library \<Rightarrow> user \<Rightarrow>
     folder_form \<Rightarrow> folder_db \<Rightarrow> folder answer" where
  "create_folder text_match lower cfg new_id now now' lb u form fs =
     checked (check_folders_permission cfg lb u) fs (\<lambda>_.
     if get_folder_by_parent_id_and_user_id_and_name lower fs (ff_parent_id form) (us_id u) (ff_name form) \<noteq> None
     then (Inl (HTTPException 400), fs)
     else
       let insert_for = (\<lambda>uid. answer_folder (insert_new_folder new_id now now' uid form (ff_parent_id form) fs));
           own = checked (case files_of (ff_data form) of
                            None \<Rightarrow> Inr () | Some files \<Rightarrow> require_readable text_match lb files u ''read'') fs
                   (\<lambda>_. insert_for (us_id u))
       in case some_id (ff_parent_id form) of
            None \<Rightarrow> own
          | Some pid \<Rightarrow>
              (case get_folder_by_id fs pid of
                 None \<Rightarrow> own
               | Some parent \<Rightarrow>
                   if fo_user_id parent = us_id u then own
                   else if \<not> may_write_folder lb fs u parent then (Inl (HTTPException 403), fs)
                   else checked (case files_of (ff_data form) of
                                   None \<Rightarrow> Inr ()
                                 | Some files \<Rightarrow>
                                     (case get_user_by_id lb (fo_user_id parent) of
                                        None \<Rightarrow> Inl (HTTPException 404)
                                      | Some owner \<Rightarrow> and_then (require_readable text_match lb files owner ''read'')
                                          (\<lambda>_. require_readable text_match lb files u ''write''))) fs
                          (\<lambda>_. insert_for (fo_user_id parent))))"

section \<open>Update\<close>

text \<open>The user's own folder, or one the user may write.\<close>

definition writable_folder :: "library \<Rightarrow> folder_db \<Rightarrow> user \<Rightarrow> string \<Rightarrow> http_error + folder" where
  "writable_folder lb fs u i =
     (case get_folder_by_id_and_user_id fs i (us_id u) of
        Some f \<Rightarrow> Inr f
      | None \<Rightarrow>
          (case get_folder_by_id fs i of
             None \<Rightarrow> Inl (HTTPException 404)
           | Some f \<Rightarrow> if may_write_folder lb fs u f then Inr f else Inl (HTTPException 404)))"

definition check_new_name :: "(string \<Rightarrow> string) \<Rightarrow> folder_db \<Rightarrow> string \<Rightarrow> folder \<Rightarrow> json \<Rightarrow> http_error + unit" where
  "check_new_name lower fs i f name =
     (case name_value name of
        None \<Rightarrow> Inr ()
      | Some n \<Rightarrow>
          (case get_folder_by_parent_id_and_user_id_and_name lower fs (fo_parent f) (fo_user_id f) n of
             None \<Rightarrow> Inr ()
           | Some g \<Rightarrow> if fo_id g \<noteq> i then Inl (HTTPException 400) else Inr ()))"

definition check_new_files ::
  "(json \<Rightarrow> string \<Rightarrow> bool) \<Rightarrow> library \<Rightarrow> user \<Rightarrow> folder \<Rightarrow> json \<Rightarrow> http_error + unit" where
  "check_new_files text_match lb u f data =
     (case files_of data of
        None \<Rightarrow> Inr ()
      | Some files \<Rightarrow>
          (case if fo_user_id f = us_id u then Some u else get_user_by_id lb (fo_user_id f) of
             None \<Rightarrow> Inl (HTTPException 404)
           | Some owner \<Rightarrow>
               and_then (require_readable text_match lb files owner ''read'') (\<lambda>_.
                 if us_id owner = us_id u then Inr ()
                 else and_then (or_raise (added_folder_entries (get (as_dict (fo_data f)) ''files'') files))
                        (\<lambda>added. require_readable text_match lb added u ''write''))))"

definition update_folder_name_by_id ::
  "(json \<Rightarrow> string \<Rightarrow> bool) \<Rightarrow> (string \<Rightarrow> string) \<Rightarrow> folder_config \<Rightarrow> int \<Rightarrow> library \<Rightarrow> user \<Rightarrow> string \<Rightarrow> dict \<Rightarrow>
     folder_db \<Rightarrow> folder answer" where
  "update_folder_name_by_id text_match lower cfg now lb u i form fs =
     checked (check_folders_permission cfg lb u) fs (\<lambda>_.
     checked (writable_folder lb fs u i) fs (\<lambda>f.
     checked (check_new_name lower fs i f (get form ''name'')) fs (\<lambda>_.
     checked (check_new_files text_match lb u f (get form ''data'')) fs (\<lambda>_.
     answer_folder (update_folder_by_id_and_user_id now fs i (fo_user_id f) form)))))"

section \<open>Move, fold, share\<close>

definition check_new_parent :: "library \<Rightarrow> folder_db \<Rightarrow> user \<Rightarrow> string \<Rightarrow> http_error + unit" where
  "check_new_parent lb fs u pid =
     (case get_folder_by_id fs pid of
        None \<Rightarrow> Inl (HTTPException 404)
      | Some p \<Rightarrow> if fo_user_id p \<noteq> us_id u \<and> \<not> may_write_folder lb fs u p then Inl (HTTPException 403) else Inr ())"

definition update_folder_parent_id_by_id ::
  "(string \<Rightarrow> string) \<Rightarrow> folder_config \<Rightarrow> int \<Rightarrow> library \<Rightarrow> user \<Rightarrow> string \<Rightarrow> string option \<Rightarrow> folder_db \<Rightarrow>
     folder answer" where
  "update_folder_parent_id_by_id lower cfg now lb u i parent fs =
     checked (check_folders_permission cfg lb u) fs (\<lambda>_.
     case get_folder_by_id_and_user_id fs i (us_id u) of
       None \<Rightarrow> (Inl (HTTPException 404), fs)
     | Some f \<Rightarrow>
         if get_folder_by_parent_id_and_user_id_and_name lower fs parent (us_id u) (the (fo_name f)) \<noteq> None
         then (Inl (HTTPException 400), fs)
         else checked (case some_id parent of None \<Rightarrow> Inr () | Some pid \<Rightarrow> check_new_parent lb fs u pid) fs (\<lambda>_.
              checked (case some_id parent of
                         None \<Rightarrow> Inr ()
                       | Some pid \<Rightarrow>
                           and_then (or_raise (get_folder_ids_by_id_and_user_id_in_subtree fs i (us_id u)))
                             (\<lambda>ids. if pid \<in> set ids then Inl (HTTPException 400) else Inr ())) fs (\<lambda>_.
              answer_folder (update_folder_parent_id_by_id_and_user_id now fs i (us_id u) parent))))"

definition update_folder_is_expanded_by_id ::
  "folder_config \<Rightarrow> int \<Rightarrow> library \<Rightarrow> user \<Rightarrow> string \<Rightarrow> bool \<Rightarrow> folder_db \<Rightarrow> folder option answer" where
  "update_folder_is_expanded_by_id cfg now lb u i expanded fs =
     checked (check_folders_permission cfg lb u) fs (\<lambda>_.
     case get_folder_by_id_and_user_id fs i (us_id u) of
       Some f \<Rightarrow> (case update_folder_is_expanded_by_id_and_user_id now fs i (us_id u) expanded of (r, fs') \<Rightarrow> (Inr r, fs'))
     | None \<Rightarrow>
         (case get_folder_by_id fs i of
            None \<Rightarrow> (Inl (HTTPException 404), fs)
          | Some f \<Rightarrow>
              if us_role u = ''admin'' \<or> has_folder_access (lb_groups lb) (lb_grants lb) fs (us_id u) f ''read''
              then (Inr (Some f), fs)
              else (case update_folder_is_expanded_by_id_and_user_id now fs i (us_id u) expanded of (r, fs') \<Rightarrow> (Inr r, fs'))))"

text \<open>The grants of the folder as they are after the request.\<close>

definition update_folder_access_by_id ::
  "folder_config \<Rightarrow> (nat \<Rightarrow> string) \<Rightarrow> (nat \<Rightarrow> string) \<Rightarrow> (nat \<Rightarrow> int) \<Rightarrow> library \<Rightarrow> folder_db \<Rightarrow> user \<Rightarrow> string \<Rightarrow>
     json list \<Rightarrow> http_error + grant_db" where
  "update_folder_access_by_id cfg ns us clk lb fs u i gs =
     and_then (check_folders_permission cfg lb u) (\<lambda>_.
     case get_folder_by_id fs i of
       None \<Rightarrow> Inl (HTTPException 404)
     | Some f \<Rightarrow>
         if us_role u \<noteq> ''admin'' \<and> us_id u \<noteq> fo_user_id f \<and>
            \<not> has_folder_access (lb_groups lb) (lb_grants lb) fs (us_id u) f ''write''
         then Inl (HTTPException 403)
         else and_then (or_raise (filter_allowed_access_grants (fc_builtin cfg) (lb_groups lb)
                  (case fc_permissions cfg of None \<Rightarrow> [] | Some d \<Rightarrow> d) (us_id u) (us_role u) gs None None (Some ''sharing.folders'')))
                (\<lambda>gs'. and_then (or_raise (set_access_grants ns us clk ''folder'' i (Some gs') (lb_grants lb)))
                         (\<lambda>(rows, db'). Inr db')))"

section \<open>A move makes no loop among the owner's folders\<close>

lemma answer_folder_cases:
  "fst r = None \<Longrightarrow> answer_folder r = (Inl (HTTPException 400), snd r)"
  "fst r = Some f \<Longrightarrow> answer_folder r = (Inr f, snd r)"
  by (auto simp: answer_folder_def split: prod.splits)

lemma answer_folder_table: "answer_folder r = (a, fs') \<Longrightarrow> fs' = snd r"
  by (auto simp: answer_folder_def split: prod.splits option.splits)

lemma get_owned: "get_folder_by_id_and_user_id fs i uid = Some f \<Longrightarrow> owned_folder fs i uid = Some f"
  by (auto simp: get_folder_by_id_and_user_id_def folder_or_none_def split: option.splits if_splits)

lemma moved_table:
  assumes "update_folder_parent_id_by_id lower cfg now lb u i parent fs = (r, fs')"
  shows "fs' = fs \<or> fs' = snd (update_folder_parent_id_by_id_and_user_id now fs i (us_id u) parent) \<and>
     (\<exists>f. owned_folder fs i (us_id u) = Some f) \<and>
     (\<forall>p. some_id parent = Some p \<longrightarrow> (\<exists>ids. get_folder_ids_by_id_and_user_id_in_subtree fs i (us_id u) = Inr ids \<and> p \<notin> set ids))"
proof (cases "get_folder_by_id_and_user_id fs i (us_id u)")
  case None
  then show ?thesis
    using assms by (auto simp: update_folder_parent_id_by_id_def checked_def split: sum.splits)
next
  case (Some f)
  let ?ids = "case some_id parent of None \<Rightarrow> Inr ()
    | Some pid \<Rightarrow> and_then (or_raise (get_folder_ids_by_id_and_user_id_in_subtree fs i (us_id u)))
        (\<lambda>ids. if pid \<in> set ids then Inl (HTTPException 400) else Inr ())"
  have "fs' = fs \<or> ?ids = Inr () \<and> fs' = snd (update_folder_parent_id_by_id_and_user_id now fs i (us_id u) parent)"
    using assms Some
    by (auto simp: update_folder_parent_id_by_id_def checked_def split: sum.splits if_splits dest: answer_folder_table)
  then show ?thesis
    using get_owned [OF Some] by (auto simp: and_then_Inr split: option.splits if_splits)
qed

text \<open>
  Moving a folder never closes a loop among the folders of one owner, whatever the request
  answers: a folder is not moved into itself or into one of the owner's folders under it.
\<close>

theorem moves_make_no_loop:
  assumes "update_folder_parent_id_by_id lower cfg now lb u i parent fs = (r, fs')"
    and "acyclic (child_of fs uid)" and "[] \<notin> fo_id ` set fs"
  shows "acyclic (child_of fs' uid)"
proof (cases "fs' = fs")
  case False
  with moved_table [OF assms(1)] obtain f where
      fs': "fs' = snd (update_folder_parent_id_by_id_and_user_id now fs i (us_id u) parent)"
    and f: "owned_folder fs i (us_id u) = Some f"
    and away: "\<And>p. some_id parent = Some p \<Longrightarrow> \<exists>ids. get_folder_ids_by_id_and_user_id_in_subtree fs i (us_id u) = Inr ids \<and> p \<notin> set ids"
    by blast
  have i: "i \<in> fo_id ` set fs" "fo_id f = i" using f by (auto simp: owned_folder_def dest!: find_Some_mem)
  show ?thesis
  proof (cases "parent = None \<or> uid \<noteq> us_id u")
    case True
    then have "child_of fs' uid \<subseteq> child_of fs uid"
      using child_of_move [of now fs i "us_id u" parent uid] by (auto simp: fs' split: option.splits if_splits)
    then show ?thesis using assms(2) by (rule acyclic_subset [rotated])
  next
    case False
    then obtain p where p: "parent = Some p" "uid = us_id u" by auto
    have "(i, p) \<notin> (child_of fs uid)\<^sup>*"
    proof (cases "p = []")
      case True
      moreover have "p = i \<or> (\<exists>q. (q, p) \<in> child_of fs uid)" if "(i, p) \<in> (child_of fs uid)\<^sup>*"
        using that by (blast elim: rtranclE)
      ultimately show ?thesis using i assms(3) by (force simp: child_of_def image_iff)
    next
      case False
      then obtain ids where ids: "get_folder_ids_by_id_and_user_id_in_subtree fs i uid = Inr ids" "p \<notin> set ids"
        using away [of p] p by (auto simp: some_id_def)
      then show ?thesis using subtree_ids [OF ids(1)] f p(2) by blast
    qed
    then have "acyclic (insert (p, i) (child_of fs uid))" using assms(2) by (simp add: acyclic_insert)
    moreover have "child_of fs' uid \<subseteq> insert (p, i) (child_of fs uid)"
      using child_of_move [of now fs i "us_id u" parent uid] p by (auto simp: fs')
    ultimately show ?thesis by (rule acyclic_subset)
  qed
qed (use assms(2) in simp)

text \<open>The move of a folder under itself, refused.\<close>

definition open_config :: folder_config where
  "open_config = \<lparr>fc_enable = JNull, fc_permissions = Some [(''features'', JObj [(''folders'', JBool True)])], fc_builtin = []\<rparr>"

definition shared_library :: library where
  "shared_library = laundering_library\<lparr>lb_grants :=
     [\<lparr>gt_id = ''1'', gt_rtype = ''folder'', gt_rid = ''F'', gt_ptype = ''user'', gt_pid = ''bob'', gt_perm = ''write'', gt_created_at = 0\<rparr>,
      \<lparr>gt_id = ''2'', gt_rtype = ''folder'', gt_rid = ''G'', gt_ptype = ''user'', gt_pid = ''ann'', gt_perm = ''write'', gt_created_at = 0\<rparr>]\<rparr>"

definition ann :: user where "ann = \<lparr>us_id = ''ann'', us_role = ''user''\<rparr>"
definition bob :: user where "bob = \<lparr>us_id = ''bob'', us_role = ''user''\<rparr>"

lemma ann_bob [simp]: "us_id ann = ''ann''" "us_role ann = ''user''" "us_id bob = ''bob''" "us_role bob = ''user''"
  by (simp_all add: ann_def bob_def)

lemma open_to_users:
  "check_folders_permission open_config shared_library ann = Inr ()"
  "check_folders_permission open_config shared_library bob = Inr ()"
  by (simp_all add: check_folders_permission_def open_config_def shared_library_def laundering_library_def
      has_permission_def Let_def get_groups_by_member_id_def by_updated_desc_def example_groups_def
      mk_group_def mk_member_def permissions_of_def has_key_def get_or_def or_raise_def)

theorem moves_make_no_loop_witness:
  "acyclic (child_of (snd (update_folder_parent_id_by_id id open_config 0 shared_library ann ''F'' (Some ''F'')
     [folder_at ''F'' None ''ann''])) ''ann'')"
proof -
  have "child_of [folder_at ''F'' None ''ann''] ''ann'' = {}" by (auto simp: child_of_def)
  then have none: "acyclic (child_of [folder_at ''F'' None ''ann''] ''ann'')" by (simp add: acyclic_def)
  obtain r fs' where move: "update_folder_parent_id_by_id id open_config 0 shared_library ann ''F'' (Some ''F'')
     [folder_at ''F'' None ''ann''] = (r, fs')" by (rule prod.exhaust)
  show ?thesis using moves_make_no_loop [OF move none] by (simp add: move)
qed

text \<open>
  Across two owners the check of a move does not see the loop: Bob, who may write Ann's
  folder, moves his own into it; then Ann, who may write Bob's, moves hers into his. Both moves
  are answered with the moved folder, and each folder is now inside the other.
\<close>

theorem two_owners_close_a_loop:
  fixes fs defines "fs \<equiv> [folder_at ''F'' None ''ann'', folder_at ''G'' None ''bob'']"
  shows "\<exists>g f fs1 fs2.
     update_folder_parent_id_by_id id open_config 1 shared_library bob ''G'' (Some ''F'') fs = (Inr g, fs1) \<and>
     update_folder_parent_id_by_id id open_config 2 shared_library ann ''F'' (Some ''G'') fs1 = (Inr f, fs2) \<and>
     (''F'', ''G'') \<in> link (folder_hop fs2) (map fo_id fs2) \<and> (''G'', ''F'') \<in> link (folder_hop fs2) (map fo_id fs2)"
proof -
  let ?fs1 = "[folder_at ''F'' None ''ann'', (folder_at ''G'' (Some ''F'') ''bob'')\<lparr>fo_updated_at := 1\<rparr>]"
  let ?fs2 = "[(folder_at ''F'' (Some ''G'') ''ann'')\<lparr>fo_updated_at := 2\<rparr>,
    (folder_at ''G'' (Some ''F'') ''bob'')\<lparr>fo_updated_at := 1\<rparr>]"
  have 1: "update_folder_parent_id_by_id id open_config 1 shared_library bob ''G'' (Some ''F'') fs
      = (Inr ((folder_at ''G'' (Some ''F'') ''bob'')\<lparr>fo_updated_at := 1\<rparr>), ?fs1)"
    unfolding fs_def by code_simp
  have 2: "update_folder_parent_id_by_id id open_config 2 shared_library ann ''F'' (Some ''G'') ?fs1
      = (Inr ((folder_at ''F'' (Some ''G'') ''ann'')\<lparr>fo_updated_at := 2\<rparr>), ?fs2)"
    by code_simp
  have "get_folder_by_id ?fs2 ''F'' = Some (hd ?fs2)" "get_folder_by_id ?fs2 ''G'' = Some (last ?fs2)"
    by (simp_all add: get_folder_by_id_def folder_or_none_def folder_validates_def dict_or_none_def folder_at_def)
  then show ?thesis
    using 1 2 by (intro exI [of _ ?fs2] exI conjI) (auto simp: link_def folder_hop_def some_id_def)
qed

section \<open>What an update may put into a folder\<close>

lemma traverse_entry_keys:
  "traverse entry_key es = Inr ks \<Longrightarrow>
     set ks = (\<lambda>e. (get (as_dict e) ''type'', get (as_dict e) ''id'')) ` set es"
  by (induction es arbitrary: ks) (auto simp: and_then_Inr entry_key_def Let_def split: if_splits)

text \<open>The folder has an entry of the same type and id.\<close>

definition holds_entry :: "folder \<Rightarrow> json \<Rightarrow> bool" where
  "holds_entry f e \<longleftrightarrow> (\<exists>e' \<in> set (as_list (get (as_dict (fo_data f)) ''files'')). is_dict e' \<and>
     get (as_dict e') ''type'' = get (as_dict e) ''type'' \<and> get (as_dict e') ''id'' = get (as_dict e) ''id'')"

lemma added_entries:
  assumes "added_folder_entries (get (as_dict (fo_data f)) ''files'') (JArr es) = Inr added" and "e \<in> set es"
  shows "holds_entry f e \<or> (\<exists>xs. added = JArr xs \<and> e \<in> set xs)"
proof -
  let ?before = "filter is_dict (as_list (get (as_dict (fo_data f)) ''files''))"
  obtain held xs where held: "traverse entry_key ?before = Inr held" and
      xs: "filter_raising (not_held held) es = Inr xs" "added = JArr xs"
    using assms(1) by (auto simp: added_folder_entries_def and_then_Inr)
  have mem: "e \<in> set xs \<longleftrightarrow> not_held held e = Inr True"
    using filter_raising_Inr [OF xs(1)] assms(2) by simp
  have "\<exists>b. not_held held e = Inr b"
    using xs(1) assms(2) by (induction es arbitrary: xs) (auto simp: and_then_Inr)
  then have "not_held held e = Inr True \<or> holds_entry f e"
    using traverse_entry_keys [OF held]
    by (auto simp: not_held_def and_then_Inr entry_key_def Let_def holds_entry_def split: if_splits)
  then show ?thesis using mem xs(2) by blast
qed

text \<open>Whoever the owner is, and what the editor adds to someone else's folder.\<close>

lemma checked_files:
  assumes "check_new_files text_match lb u f data = Inr ()" and "files_of data = Some files"
  shows "\<exists>owner. us_id owner = fo_user_id f \<and> (owner = u \<or> owner \<in> set (lb_users lb)) \<and>
     (files = JNull \<or> (\<exists>es. files = JArr es \<and> (\<forall>e \<in> set es. may_list text_match lb owner ''read'' e \<and>
        (fo_user_id f = us_id u \<or> holds_entry f e \<or> may_list text_match lb u ''write'' e))))"
proof -
  obtain owner where o: "(if fo_user_id f = us_id u then Some u else get_user_by_id lb (fo_user_id f)) = Some owner"
    using assms by (auto simp: check_new_files_def split: option.splits)
  have owner: "us_id owner = fo_user_id f" "owner = u \<or> owner \<in> set (lb_users lb)"
    using o by (auto simp: get_user_by_id_def split: if_splits dest: find_Some_mem)
  have r: "require_readable text_match lb files owner ''read'' = Inr ()"
    using assms o by (auto simp: check_new_files_def and_then_Inr)
  have a: "fo_user_id f \<noteq> us_id u \<Longrightarrow> \<exists>added. added_folder_entries (get (as_dict (fo_data f)) ''files'') files = Inr added \<and>
      require_readable text_match lb added u ''write'' = Inr ()"
    using assms o owner by (auto simp: check_new_files_def and_then_Inr)
  show ?thesis
  proof (cases "files = JNull")
    case False
    then obtain es where es: "files = JArr es" "\<forall>e \<in> set es. may_list text_match lb owner ''read'' e"
      using require_readable_Inr [OF r] by blast
    have "may_list text_match lb u ''write'' e"
      if e: "e \<in> set es" and other: "fo_user_id f \<noteq> us_id u" and new: "\<not> holds_entry f e" for e
    proof -
      obtain added where added: "added_folder_entries (get (as_dict (fo_data f)) ''files'') (JArr es) = Inr added"
          "require_readable text_match lb added u ''write'' = Inr ()"
        using a [OF other] es(1) by blast
      then show ?thesis
        using added_entries [OF added(1) e] new require_readable_Inr [OF added(2)] by auto
    qed
    then show ?thesis using owner es by blast
  qed (use owner in blast)
qed

text \<open>
  C11. When an update that carries files is answered with the folder, the user owns the folder
  or may write it, its owner can read every entry, and whoever is not the owner adds only
  entries they can read themselves, a note only if they may write it; entries of the folder may
  stay.
\<close>

theorem updated_entries_are_readable:
  assumes "update_folder_name_by_id text_match lower cfg now lb u i form fs = (Inr f', fs')"
    and "files_of (get form ''data'') = Some files"
  shows "\<exists>f owner. writable_folder lb fs u i = Inr f \<and> us_id owner = fo_user_id f \<and> (owner = u \<or> owner \<in> set (lb_users lb)) \<and>
     (files = JNull \<or> (\<exists>es. files = JArr es \<and> (\<forall>e \<in> set es. may_list text_match lb owner ''read'' e \<and>
        (fo_user_id f = us_id u \<or> holds_entry f e \<or> may_list text_match lb u ''write'' e))))"
proof -
  obtain f where f: "writable_folder lb fs u i = Inr f" "check_new_files text_match lb u f (get form ''data'') = Inr ()"
    using assms(1) by (auto simp: update_folder_name_by_id_def checked_Inr)
  then show ?thesis using checked_files [OF f(2) assms(2)] by blast
qed

text \<open>
  A user who is no admin can never share a folder with everyone: the request names no public
  permission, and looking it up raises before any grant is stored, instead of the public grant
  being left out.
\<close>

theorem public_folder_share_raises:
  assumes "check_folders_permission cfg lb u = Inr ()" and "us_role u \<noteq> ''admin''"
    and "get_folder_by_id fs i = Some f" and "fo_user_id f = us_id u"
    and "(''user'', ''*'', perm) \<in> payload_grants gs"
  shows "\<exists>e. update_folder_access_by_id cfg ns us clk lb fs u i gs = Inl (Unhandled e)"
proof -
  let ?may = "\<lambda>k. has_permission (fc_builtin cfg) (lb_groups lb) (us_id u) k
    (Some (case fc_permissions cfg of None \<Rightarrow> [] | Some d \<Rightarrow> d))"
  obtain g where g: "g \<in> set gs" "grant_key_of g = Some (''user'', ''*'', perm)"
    using assms(5) by (auto simp: payload_grants_def)
  let ?g1 = "if has_anyone_read_access_grant (Some gs) then strip_anyone_access_grants (Some gs) else gs"
  let ?public = "\<lambda>gs. has_public_read_access_grant (Some gs) \<or> has_public_write_access_grant (Some gs)"
  have g1: "g \<in> set ?g1" using g by (auto simp: strip_anyone_access_grants_def grant_key_of_iff access_simps)
  have public: "unless_permitted (public_check ?may None) ?public strip g2 = Inl AttributeError"
    if "unless_permitted (?may ''sharing.folders'') (list_ex is_named_principal_grant)
         (filter (\<lambda>g. \<not> is_named_principal_grant g)) ?g1 = Inr g2" for g2 strip
  proof -
    have "g \<in> set g2"
      using unless_permitted_Inr [OF that] g g1 by (auto simp: is_named_principal_grant_def grant_key_of_iff)
    then have "(''user'', ''*'', perm) \<in> payload_grants g2" using g(2) by (auto simp: payload_grants_def)
    then have "?public g2" using payload_perm [of "''user''" "''*''" perm g2] by (auto simp: has_grant_checks)
    then show ?thesis by (simp add: unless_permitted_def public_check_def)
  qed
  have "\<exists>e. filter_allowed_access_grants (fc_builtin cfg) (lb_groups lb) (case fc_permissions cfg of None \<Rightarrow> [] | Some d \<Rightarrow> d)
      (us_id u) (us_role u) gs None None (Some ''sharing.folders'') = Inl e"
  proof (cases "unless_permitted (?may ''sharing.folders'') (list_ex is_named_principal_grant)
         (filter (\<lambda>g. \<not> is_named_principal_grant g)) ?g1")
    case (Inl e)
    then show ?thesis using g assms(2)
      by (auto simp: filter_allowed_access_grants_def resolve_sharing_key_def some_id_def Let_def)
  next
    case (Inr g2)
    then show ?thesis using g assms(2) public [OF Inr]
      by (auto simp: filter_allowed_access_grants_def resolve_sharing_key_def some_id_def Let_def)
  qed
  then show ?thesis
    using assms(1,2,3,4) by (auto simp: update_folder_access_by_id_def or_raise_def)
qed

theorem public_folder_share_raises_witness:
  "\<exists>e. update_folder_access_by_id open_config draw draw int shared_library [folder_at ''F'' None ''ann''] ann ''F''
     [grant_json ''user'' ''*'' ''read''] = Inl (Unhandled e)"
  by (rule public_folder_share_raises [OF open_to_users(1), of _ _ "folder_at ''F'' None ''ann''" "''read''"])
    (simp_all add: get_folder_by_id_def folder_or_none_def payload_grants_def grant_key_of_json)

text \<open>Ann puts a file she may read into her folder.\<close>

definition file_entry :: json where
  "file_entry = JObj [(''type'', JStr ''file''), (''id'', JStr ''f'')]"

theorem updated_entries_are_readable_witness:
  "\<exists>owner. us_id owner = ''ann'' \<and> may_list (\<lambda>_ _. True) shared_library owner ''read'' file_entry"
proof -
  let ?form = "[(''data'', JObj [(''files'', JArr [file_entry])])]"
  let ?fs = "[folder_at ''F'' None ''ann'']"
  let ?f = "(folder_at ''F'' None ''ann'')\<lparr>fo_data := JObj [(''files'', JArr [file_entry])], fo_updated_at := 1\<rparr>"
  have "update_folder_name_by_id (\<lambda>_ _. True) id open_config 1 shared_library ann ''F'' ?form ?fs = (Inr ?f, [?f])"
    by code_simp
  moreover have "files_of (get ?form ''data'') = Some (JArr [file_entry])" by code_simp
  ultimately obtain f owner es where "writable_folder shared_library ?fs ann ''F'' = Inr f" "us_id owner = fo_user_id f"
      "JArr [file_entry] = JArr es" "\<forall>e \<in> set es. may_list (\<lambda>_ _. True) shared_library owner ''read'' e"
    using updated_entries_are_readable [of "\<lambda>_ _. True" id open_config 1 shared_library ann "''F''" ?form ?fs ?f "[?f]"] by blast
  moreover have "writable_folder shared_library ?fs ann ''F'' = Inr (folder_at ''F'' None ''ann'')" by code_simp
  ultimately show ?thesis by auto
qed

end
