(* ===== verification/FolderChats.thy ===== *)
theory FolderChats
  imports FolderRoutes
begin

text \<open>
  The chats of a folder as the folder requests see them (\<open>models/chats.py\<close>), and the automations
  that file their chats in one (\<open>models/automations.py\<close>). A chat row has the columns these
  queries read; whether it has an assistant message that is not done is kept with the row, and
  its messages and the automation runs that made it are rows of their own. The clean-up of tags
  that no chat carries any more runs after the commit and is not modelled.
\<close>

section \<open>Rows\<close>

record filed_chat =
  fh_id :: string
  fh_user_id :: string
  fh_folder_id :: "string option"
  fh_internal :: bool
  fh_archived :: bool
  fh_updated_at :: int
  fh_last_read_at :: "int option"
  fh_unfinished :: bool

record filed_automation =
  fa_id :: string
  fa_user_id :: string
  fa_folder_id :: "string option"
  fa_updated_at :: int

text \<open>An automation run with the chat it made, and the chat of a stored message.\<close>

record shelf =
  sh_folders :: folder_db
  sh_chats :: "filed_chat list"
  sh_messages :: "(string \<times> string) list"
  sh_runs :: "(string \<times> string option) list"
  sh_automations :: "filed_automation list"
  sh_grants :: grant_db

section \<open>Operations\<close>

definition in_folders :: "string list \<Rightarrow> filed_chat \<Rightarrow> bool" where
  "in_folders ids c \<longleftrightarrow> (case fh_folder_id c of None \<Rightarrow> False | Some i \<Rightarrow> i \<in> set ids)"

definition count_chats_by_folder_ids_and_user_id :: "filed_chat list \<Rightarrow> string list \<Rightarrow> string \<Rightarrow> nat" where
  "count_chats_by_folder_ids_and_user_id cs ids uid =
     (if ids = [] then 0 else length (filter (\<lambda>c. fh_user_id c = uid \<and> in_folders ids c \<and> \<not> fh_internal c) cs))"

definition move_other_users_chats_out_of_folders :: "string list \<Rightarrow> string \<Rightarrow> shelf \<Rightarrow> shelf" where
  "move_other_users_chats_out_of_folders ids owner s =
     s\<lparr>sh_chats := map (\<lambda>c. if in_folders ids c \<and> fh_user_id c \<noteq> owner then c\<lparr>fh_folder_id := None\<rparr> else c) (sh_chats s)\<rparr>"

definition chats_of_folder :: "shelf \<Rightarrow> string \<Rightarrow> string \<Rightarrow> string list" where
  "chats_of_folder s uid i = map fh_id (filter (\<lambda>c. fh_user_id c = uid \<and> fh_folder_id c = Some i) (sh_chats s))"

definition delete_chats_by_user_id_and_folder_id :: "string \<Rightarrow> string \<Rightarrow> shelf \<Rightarrow> shelf" where
  "delete_chats_by_user_id_and_folder_id uid i s =
     (let ids = chats_of_folder s uid i
      in s\<lparr>sh_runs := map (\<lambda>(r, c). (r, case c of Some x \<Rightarrow> if x \<in> set ids then None else c | None \<Rightarrow> c)) (sh_runs s),
           sh_messages := filter (\<lambda>(m, c). c \<notin> set ids) (sh_messages s),
           sh_chats := filter (\<lambda>c. \<not> (fh_user_id c = uid \<and> fh_folder_id c = Some i)) (sh_chats s)\<rparr>)"

definition move_chats_by_user_id_and_folder_id :: "string \<Rightarrow> string \<Rightarrow> string option \<Rightarrow> shelf \<Rightarrow> shelf" where
  "move_chats_by_user_id_and_folder_id uid i target s =
     s\<lparr>sh_chats := map (\<lambda>c. if fh_user_id c = uid \<and> fh_folder_id c = Some i then c\<lparr>fh_folder_id := target\<rparr> else c) (sh_chats s)\<rparr>"

definition clear_folder_ids :: "int \<Rightarrow> string \<Rightarrow> string list \<Rightarrow> shelf \<Rightarrow> shelf" where
  "clear_folder_ids now uid ids s =
     (if ids = [] then s
      else s\<lparr>sh_automations := map (\<lambda>a. if fa_user_id a = uid \<and>
                 (case fa_folder_id a of None \<Rightarrow> False | Some i \<Rightarrow> i \<in> set ids)
               then a\<lparr>fa_folder_id := None, fa_updated_at := now\<rparr> else a) (sh_automations s)\<rparr>)"

definition mark_chats_read_by_folder_ids :: "string \<Rightarrow> string list \<Rightarrow> filed_chat list \<Rightarrow> nat \<times> filed_chat list" where
  "mark_chats_read_by_folder_ids uid ids cs =
     (let hit = (\<lambda>c. fh_user_id c = uid \<and> in_folders ids c \<and> \<not> fh_archived c \<and> \<not> fh_internal c)
      in if ids = [] then (0, cs)
         else (length (filter hit cs), map (\<lambda>c. if hit c then c\<lparr>fh_last_read_at := Some (fh_updated_at c)\<rparr> else c) cs))"

definition is_unread :: "filed_chat \<Rightarrow> bool" where
  "is_unread c \<longleftrightarrow> \<not> fh_archived c \<and> fh_updated_at c > (case fh_last_read_at c of None \<Rightarrow> 0 | Some t \<Rightarrow> t) \<and> \<not> fh_unfinished c"

text \<open>\<open>GROUP BY folder_id\<close>: one row per folder with an unread chat; an empty id is left out.\<close>

definition count_unread_by_folder_ids :: "filed_chat list \<Rightarrow> string \<Rightarrow> string list \<Rightarrow> (string \<times> nat) list" where
  "count_unread_by_folder_ids cs uid ids =
     (let unread = filter (\<lambda>c. fh_user_id c = uid \<and> in_folders ids c \<and> is_unread c) cs
      in map (\<lambda>i. (i, length (filter (\<lambda>c. fh_folder_id c = Some i) unread)))
           (filter (\<lambda>i. i \<noteq> []) (from_keys (map (\<lambda>c. the (fh_folder_id c)) unread))))"

end
