(* ===== verification/FolderDelete.thy ===== *)
theory FolderDelete
  imports FolderChats
begin

text \<open>
  Deleting a folder (\<open>delete_folder_by_id\<close> of \<open>routers/folders.py\<close>): the folder, every folder of
  its owner under it, their grants and chats. The request commits one step after the other. A
  step may fail before or after its commit, which ends the request: what happens at each step is
  an argument.
\<close>

section \<open>Steps that may fail\<close>

datatype outcome = Done | Fails | Fails_committed

fun run_steps :: "(nat \<Rightarrow> outcome) \<Rightarrow> nat \<Rightarrow> ('s \<Rightarrow> 's) list \<Rightarrow> 's \<Rightarrow> bool \<times> 's" where
  "run_steps faults n [] s = (True, s)"
| "run_steps faults n (f # fs) s =
     (case faults n of
        Done \<Rightarrow> run_steps faults (Suc n) fs (f s)
      | Fails \<Rightarrow> (False, s)
      | Fails_committed \<Rightarrow> (False, f s))"

abbreviation do_all :: "('s \<Rightarrow> 's) list \<Rightarrow> 's \<Rightarrow> 's" where
  "do_all \<equiv> fold (\<lambda>f. f)"

lemma run_steps_prefix:
  "run_steps faults n fs s = (b, s') \<Longrightarrow> \<exists>k \<le> length fs. s' = do_all (take k fs) s \<and> (b \<longrightarrow> k = length fs)"
proof (induction fs arbitrary: n s)
  case (Cons f fs)
  show ?case
  proof (cases "faults n")
    case Done
    then obtain k where "k \<le> length fs" "s' = do_all (take k fs) (f s)" "b \<longrightarrow> k = length fs"
      using Cons.IH [of "Suc n" "f s"] Cons.prems by auto
    then show ?thesis by (intro exI [of _ "Suc k"]) simp
  next
    case Fails
    then show ?thesis using Cons.prems by (intro exI [of _ 0]) simp
  next
    case Fails_committed
    then show ?thesis using Cons.prems by (intro exI [of _ 1]) simp
  qed
qed simp

lemma run_steps_Done: "(\<And>n. faults n = Done) \<Longrightarrow> run_steps faults n fs s = (True, do_all fs s)"
  by (induction fs arbitrary: n s) auto

section \<open>The request\<close>

definition chats_step :: "bool \<Rightarrow> string \<Rightarrow> string \<Rightarrow> shelf \<Rightarrow> shelf" where
  "chats_step delete_contents owner i =
     (if delete_contents then delete_chats_by_user_id_and_folder_id owner i
      else move_chats_by_user_id_and_folder_id owner i None)"

definition revoke_step :: "string \<Rightarrow> shelf \<Rightarrow> shelf" where
  "revoke_step i s = s\<lparr>sh_grants := snd (revoke_all_access ''folder'' i (sh_grants s))\<rparr>"

definition delete_step :: "string \<Rightarrow> string \<Rightarrow> string list \<Rightarrow> shelf \<Rightarrow> shelf" where
  "delete_step i owner ids s =
     s\<lparr>sh_folders := (case delete_folder_by_id_and_user_id (sh_folders s) i owner (Some ids) of
        Inl e \<Rightarrow> sh_folders s | Inr (deleted, fs) \<Rightarrow> fs)\<rparr>"

definition delete_steps :: "bool \<Rightarrow> int \<Rightarrow> string \<Rightarrow> string \<Rightarrow> string list \<Rightarrow> (shelf \<Rightarrow> shelf) list" where
  "delete_steps delete_contents now i owner ids =
     move_other_users_chats_out_of_folders ids owner
     # concat (map (\<lambda>j. [chats_step delete_contents owner j, revoke_step j]) ids)
     @ [clear_folder_ids now owner ids, delete_step i owner ids]"

definition deletable_folder :: "folder_db \<Rightarrow> user \<Rightarrow> string \<Rightarrow> http_error + folder" where
  "deletable_folder fs u i =
     (case get_folder_by_id_and_user_id fs i (us_id u) of
        Some f \<Rightarrow> Inr f
      | None \<Rightarrow>
          (case get_folder_by_id fs i of
             None \<Rightarrow> Inl (HTTPException 404)
           | Some f \<Rightarrow> if us_role u \<noteq> ''admin'' then Inl (HTTPException 403) else Inr f))"

definition check_chat_deletion :: "folder_config \<Rightarrow> library \<Rightarrow> user \<Rightarrow> http_error + unit" where
  "check_chat_deletion cfg lb u =
     and_then (or_raise (has_permission (fc_builtin cfg) (lb_groups lb) (us_id u) ''chat.delete'' (fc_permissions cfg)))
       (\<lambda>ok. if us_role u \<noteq> ''admin'' \<and> \<not> ok then Inl (HTTPException 403) else Inr ())"

definition delete_folder_by_id ::
  "folder_config \<Rightarrow> (nat \<Rightarrow> outcome) \<Rightarrow> int \<Rightarrow> library \<Rightarrow> user \<Rightarrow> string \<Rightarrow> bool \<Rightarrow> shelf \<Rightarrow> (http_error + unit) \<times> shelf" where
  "delete_folder_by_id cfg faults now lb u i delete_contents s =
     (case and_then (check_folders_permission cfg lb u) (\<lambda>_.
           and_then (deletable_folder (sh_folders s) u i) (\<lambda>f.
           and_then (or_raise (get_folder_ids_by_id_and_user_id_in_subtree (sh_folders s) i (fo_user_id f))) (\<lambda>ids.
           and_then (if delete_contents \<and> count_chats_by_folder_ids_and_user_id (sh_chats s) ids (fo_user_id f) \<noteq> 0
                     then check_chat_deletion cfg lb u else Inr ()) (\<lambda>_. Inr (f, ids))))) of
        Inl e \<Rightarrow> (Inl e, s)
      | Inr (f, ids) \<Rightarrow>
          (case run_steps faults 0 (delete_steps delete_contents now (fo_id f) (fo_user_id f) ids) s of
             (True, s') \<Rightarrow> (Inr (), s')
           | (False, s') \<Rightarrow> (Inl (HTTPException 400), s')))"

section \<open>What the steps do\<close>

text \<open>The chat steps take chats away or out of their folder, and touch no folder.\<close>

definition thins :: "shelf \<Rightarrow> shelf \<Rightarrow> bool" where
  "thins s s' \<longleftrightarrow> sh_folders s' = sh_folders s \<and>
     (\<forall>c \<in> set (sh_chats s'). fh_folder_id c = None \<or> c \<in> set (sh_chats s))"

lemma thins_refl: "thins s s"
  by (simp add: thins_def)

lemma thins_trans: "thins s s' \<Longrightarrow> thins s' s'' \<Longrightarrow> thins s s''"
  by (auto simp: thins_def)

lemma steps_thin:
  "thins s (move_other_users_chats_out_of_folders ids owner s)"
  "thins s (chats_step delete_contents owner i s)" "thins s (revoke_step i s)" "thins s (clear_folder_ids now owner ids s)"
  by (auto simp: thins_def move_other_users_chats_out_of_folders_def chats_step_def revoke_step_def clear_folder_ids_def
      delete_chats_by_user_id_and_folder_id_def move_chats_by_user_id_and_folder_id_def Let_def)

lemma do_all_thins: "(\<And>f s. f \<in> set fs \<Longrightarrow> thins s (f s)) \<Longrightarrow> thins s (do_all fs s)"
  by (induction fs arbitrary: s) (auto intro: thins_refl thins_trans)

abbreviation chat_steps :: "bool \<Rightarrow> string \<Rightarrow> string list \<Rightarrow> (shelf \<Rightarrow> shelf) list" where
  "chat_steps delete_contents owner ids \<equiv> concat (map (\<lambda>j. [chats_step delete_contents owner j, revoke_step j]) ids)"

lemma chat_steps_thin: "thins s (do_all (chat_steps delete_contents owner ids) s)"
  by (rule do_all_thins) (auto intro: steps_thin)

text \<open>What the chat steps leave, chat by chat.\<close>

definition chats_after :: "bool \<Rightarrow> string \<Rightarrow> string list \<Rightarrow> filed_chat list \<Rightarrow> filed_chat list" where
  "chats_after delete_contents owner ids cs =
     (if delete_contents then filter (\<lambda>c. \<not> (fh_user_id c = owner \<and> in_folders ids c)) cs
      else map (\<lambda>c. if fh_user_id c = owner \<and> in_folders ids c then c\<lparr>fh_folder_id := None\<rparr> else c) cs)"

lemma chat_steps_chats:
  "sh_chats (do_all (chat_steps delete_contents owner ids) s) = chats_after delete_contents owner ids (sh_chats s)"
proof (induction ids arbitrary: s)
  case Nil
  show ?case by (simp add: chats_after_def in_folders_def map_idI split: option.splits)
next
  case (Cons j ids)
  have "sh_chats (revoke_step j (chats_step delete_contents owner j s)) = chats_after delete_contents owner [j] (sh_chats s)"
    by (auto simp: revoke_step_def chats_step_def chats_after_def in_folders_def Let_def
        delete_chats_by_user_id_and_folder_id_def move_chats_by_user_id_and_folder_id_def
        intro!: filter_cong split: option.splits)
  moreover have "chats_after delete_contents owner ids (chats_after delete_contents owner [j] cs)
      = chats_after delete_contents owner (j # ids) cs" for cs
    by (auto simp: chats_after_def in_folders_def intro!: filter_cong split: option.splits)
  ultimately show ?case by (simp add: Cons.IH)
qed

lemma chat_steps_grants:
  "sh_grants (do_all (chat_steps delete_contents owner ids) s) =
     filter (\<lambda>g. resource_of g \<notin> Pair ''folder'' ` set ids) (sh_grants s)"
proof (induction ids arbitrary: s)
  case (Cons j ids)
  have "sh_grants (revoke_step j (chats_step delete_contents owner j s)) = filter (\<lambda>g. resource_of g \<noteq> (''folder'', j)) (sh_grants s)"
    by (auto simp: revoke_step_def chats_step_def revoke_all_access_def Let_def
        delete_chats_by_user_id_and_folder_id_def move_chats_by_user_id_and_folder_id_def)
  then show ?case by (auto simp: Cons.IH intro: filter_cong)
qed simp

section \<open>What a deletion leaves\<close>

definition stranded :: "shelf \<Rightarrow> filed_chat set" where
  "stranded s = {c \<in> set (sh_chats s). \<exists>i. fh_folder_id c = Some i \<and> i \<notin> fo_id ` set (sh_folders s)}"

definition left_folders :: "string \<Rightarrow> string list \<Rightarrow> folder_db \<Rightarrow> folder_db" where
  "left_folders owner ids fs = filter (\<lambda>f. \<not> (fo_user_id f = owner \<and> fo_id f \<in> set ids)) fs"

lemma move_others_folders [simp]: "sh_folders (move_other_users_chats_out_of_folders ids owner s) = sh_folders s"
  by (simp add: move_other_users_chats_out_of_folders_def)

lemma delete_step_eq [simp]: "delete_step i owner ids s = s\<lparr>sh_folders := left_folders owner ids (sh_folders s)\<rparr>"
  by (auto simp: delete_step_def delete_folder_by_id_and_user_id_def left_folders_def)

definition moved_out :: "string \<Rightarrow> string list \<Rightarrow> filed_chat \<Rightarrow> filed_chat" where
  "moved_out owner ids c = (if in_folders ids c \<and> fh_user_id c \<noteq> owner then c\<lparr>fh_folder_id := None\<rparr> else c)"

lemma move_others_chats [simp]:
  "sh_chats (move_other_users_chats_out_of_folders ids owner s) = map (moved_out owner ids) (sh_chats s)"
  "sh_grants (move_other_users_chats_out_of_folders ids owner s) = sh_grants s"
  by (simp_all add: move_other_users_chats_out_of_folders_def moved_out_def)

lemma clear_folder_ids_rest [simp]:
  "sh_folders (clear_folder_ids now owner ids s) = sh_folders s"
  "sh_chats (clear_folder_ids now owner ids s) = sh_chats s"
  "sh_grants (clear_folder_ids now owner ids s) = sh_grants s"
  by (simp_all add: clear_folder_ids_def)

lemma all_steps:
  assumes "s' = do_all (delete_steps delete_contents now i owner ids) s"
  shows "sh_folders s' = left_folders owner ids (sh_folders s)"
    and "sh_chats s' = chats_after delete_contents owner ids (map (moved_out owner ids) (sh_chats s))"
    and "sh_grants s' = filter (\<lambda>g. resource_of g \<notin> Pair ''folder'' ` set ids) (sh_grants s)"
  using assms chat_steps_thin [of "move_other_users_chats_out_of_folders ids owner s" delete_contents owner ids]
  by (simp_all add: delete_steps_def thins_def chat_steps_chats chat_steps_grants)

lemma none_left_inside:
  assumes "c \<in> set (chats_after delete_contents owner ids (map (moved_out owner ids) cs))"
  shows "\<not> in_folders ids c \<and> (fh_folder_id c = None \<or> c \<in> set cs)"
  using assms by (auto simp: chats_after_def moved_out_def in_folders_def split: if_splits option.splits)

lemma prefix_strands_none:
  assumes "s' = do_all (take k (delete_steps delete_contents now i owner ids)) s"
  shows "stranded s' \<subseteq> stranded s"
proof (cases "k < length (delete_steps delete_contents now i owner ids)")
  case True
  define early where "early = move_other_users_chats_out_of_folders ids owner # chat_steps delete_contents owner ids @ [clear_folder_ids now owner ids]"
  have steps: "delete_steps delete_contents now i owner ids = early @ [delete_step i owner ids]"
    by (simp add: delete_steps_def early_def)
  have "take k (delete_steps delete_contents now i owner ids) = take k early" using True unfolding steps by simp
  moreover have "thins t (f t)" if "f \<in> set (take k early)" for f t
    using set_take_subset [of k early] that by (auto simp: early_def intro: steps_thin)
  ultimately have "thins s s'" unfolding assms by (intro do_all_thins) auto
  then show ?thesis by (auto simp: stranded_def thins_def)
next
  case False
  then have s': "s' = do_all (delete_steps delete_contents now i owner ids) s" using assms by simp
  show ?thesis
  proof
    fix c assume "c \<in> stranded s'"
    then obtain x where c: "c \<in> set (sh_chats s')" "fh_folder_id c = Some x" "x \<notin> fo_id ` set (left_folders owner ids (sh_folders s))"
      unfolding stranded_def all_steps(1) [OF s'] by blast
    then have "\<not> in_folders ids c" "c \<in> set (sh_chats s)"
      using none_left_inside [of c delete_contents owner ids "sh_chats s"] unfolding all_steps(2) [OF s'] by auto
    then show "c \<in> stranded s" using c(2,3) by (auto simp: stranded_def left_folders_def in_folders_def)
  qed
qed

lemma delete_request:
  assumes "delete_folder_by_id cfg faults now lb u i delete_contents s = (r, s')"
  obtains (refused) e where "r = Inl e" and "s' = s"
  | (run) f ids b where "deletable_folder (sh_folders s) u i = Inr f"
      and "get_folder_ids_by_id_and_user_id_in_subtree (sh_folders s) i (fo_user_id f) = Inr ids"
      and "run_steps faults 0 (delete_steps delete_contents now (fo_id f) (fo_user_id f) ids) s = (b, s')"
      and "r = (if b then Inr () else Inl (HTTPException 400))"
  using assms
  by (auto simp: delete_folder_by_id_def and_then_Inr split: sum.splits prod.splits bool.splits)

lemma deletable_found:
  assumes "deletable_folder fs u i = Inr f" and "distinct (map fo_id fs)"
  shows "get_folder_by_id fs i = Some f \<and> (us_id u = fo_user_id f \<or> us_role u = ''admin'') \<and>
     owned_folder fs i (fo_user_id f) = Some f"
proof -
  have f: "f \<in> set fs" "fo_id f = i" "folder_validates f" "us_id u = fo_user_id f \<or> us_role u = ''admin''"
    using assms(1)
    by (auto simp: deletable_folder_def get_folder_by_id_and_user_id_def get_folder_by_id_def owned_folder_def
        folder_or_none_def split: option.splits if_splits dest!: find_Some_mem)
  then show ?thesis
    using find_keyed [OF assms(2), of i f] owned_folder_iff [OF assms(2), of i "fo_user_id f" f]
    by (simp add: get_folder_by_id_def folder_or_none_def)
qed

lemma chat_kept:
  assumes "c \<in> set cs"
  shows "if \<exists>x \<in> set ids. fh_folder_id c = Some x
     then (delete_contents \<and> fh_user_id c = owner) \<or>
          c\<lparr>fh_folder_id := None\<rparr> \<in> set (chats_after delete_contents owner ids (map (moved_out owner ids) cs))
     else c \<in> set (chats_after delete_contents owner ids (map (moved_out owner ids) cs))"
proof -
  have m: "moved_out owner ids c \<in> set (map (moved_out owner ids) cs)" using assms by simp
  show ?thesis
  proof (cases "\<exists>x \<in> set ids. fh_folder_id c = Some x")
    case True
    then have "in_folders ids c" by (auto simp: in_folders_def)
    then have "c\<lparr>fh_folder_id := None\<rparr> \<in> set (chats_after delete_contents owner ids (map (moved_out owner ids) cs))"
      if "\<not> (delete_contents \<and> fh_user_id c = owner)"
      using that m by (cases "fh_user_id c = owner"; cases delete_contents)
        (force simp: chats_after_def moved_out_def in_folders_def)+
    then show ?thesis using True by auto
  next
    case False
    then have "\<not> in_folders ids c" by (auto simp: in_folders_def split: option.splits)
    then show ?thesis using False m by (force simp: chats_after_def moved_out_def image_iff)
  qed
qed

text \<open>
  C8. However a deletion ends, and at whatever step a failure ends it, no chat points at a folder
  that is gone, other than those that did before.
\<close>

theorem deletion_strands_no_chat:
  assumes "delete_folder_by_id cfg faults now lb u i delete_contents s = (r, s')"
  shows "stranded s' \<subseteq> stranded s"
  using assms
proof (cases rule: delete_request)
  case (run f ids b)
  then show ?thesis using run_steps_prefix [OF run(3)] prefix_strands_none by blast
qed simp

text \<open>
  C9. A deletion that succeeds was asked for by the owner or an admin. It deletes the folder and
  every folder of its owner below it, with their grants, and nothing else; the chats in them are
  deleted or taken out, except that other users' chats are always taken out, never deleted.
\<close>

theorem deletion_exact:
  assumes "delete_folder_by_id cfg faults now lb u i delete_contents s = (Inr (), s')"
    and "distinct (map fo_id (sh_folders s))"
  shows "\<exists>f. get_folder_by_id (sh_folders s) i = Some f \<and> (us_id u = fo_user_id f \<or> us_role u = ''admin'') \<and>
     (let below = (child_of (sh_folders s) (fo_user_id f))\<^sup>* `` {i}
      in sh_folders s' = filter (\<lambda>g. \<not> (fo_user_id g = fo_user_id f \<and> fo_id g \<in> below)) (sh_folders s) \<and>
         sh_grants s' = filter (\<lambda>g. \<not> (gt_rtype g = ''folder'' \<and> gt_rid g \<in> below)) (sh_grants s) \<and>
         (\<forall>c \<in> set (sh_chats s'). \<forall>x \<in> below. fh_folder_id c \<noteq> Some x) \<and>
         (\<forall>c \<in> set (sh_chats s). if (\<exists>x \<in> below. fh_folder_id c = Some x)
            then (delete_contents \<and> fh_user_id c = fo_user_id f) \<or> c\<lparr>fh_folder_id := None\<rparr> \<in> set (sh_chats s')
            else c \<in> set (sh_chats s')))"
  using assms(1)
proof (cases rule: delete_request)
  case (run f ids b)
  let ?fs = "sh_folders s" and ?below = "(child_of (sh_folders s) (fo_user_id f))\<^sup>* `` {i}"
  have b: "b" using run(4) by (auto split: if_splits)
  have s': "s' = do_all (delete_steps delete_contents now (fo_id f) (fo_user_id f) ids) s"
    using run_steps_prefix [OF run(3)] b by auto
  have f: "get_folder_by_id ?fs i = Some f" "us_id u = fo_user_id f \<or> us_role u = ''admin''" "owned_folder ?fs i (fo_user_id f) = Some f"
    using deletable_found [OF run(1) assms(2)] by auto
  have ids: "set ids = ?below" using subtree_ids [OF run(2) f(3)] .
  have "sh_folders s' = filter (\<lambda>g. \<not> (fo_user_id g = fo_user_id f \<and> fo_id g \<in> ?below)) ?fs"
    unfolding all_steps(1) [OF s'] left_folders_def ids ..
  moreover have "sh_grants s' = filter (\<lambda>g. \<not> (gt_rtype g = ''folder'' \<and> gt_rid g \<in> ?below)) (sh_grants s)"
    unfolding all_steps(3) [OF s'] ids by (auto simp: resource_of_def intro: filter_cong)
  moreover have "\<forall>c \<in> set (sh_chats s'). \<forall>x \<in> ?below. fh_folder_id c \<noteq> Some x"
    using none_left_inside unfolding all_steps(2) [OF s'] ids [symmetric] by (fastforce simp: in_folders_def)
  moreover have "if \<exists>x \<in> ?below. fh_folder_id c = Some x
      then (delete_contents \<and> fh_user_id c = fo_user_id f) \<or> c\<lparr>fh_folder_id := None\<rparr> \<in> set (sh_chats s')
      else c \<in> set (sh_chats s')" if "c \<in> set (sh_chats s)" for c
    unfolding all_steps(2) [OF s'] ids [symmetric] using chat_kept [OF that] by blast
  ultimately show ?thesis using f(1,2) by (auto simp: Let_def)
qed simp

text \<open>Ann deletes F with G in it; Bob has filed a chat of his own in F.\<close>

definition deleting_config :: folder_config where
  "deleting_config = open_config\<lparr>fc_permissions :=
     Some [(''features'', JObj [(''folders'', JBool True)]), (''chat'', JObj [(''delete'', JBool True)])]\<rparr>"

definition chat_in :: "string \<Rightarrow> string \<Rightarrow> string \<Rightarrow> filed_chat" where
  "chat_in i uid folder = \<lparr>fh_id = i, fh_user_id = uid, fh_folder_id = Some folder, fh_internal = False,
     fh_archived = False, fh_updated_at = 5, fh_last_read_at = None, fh_unfinished = False\<rparr>"

definition example_shelf :: shelf where
  "example_shelf = \<lparr>sh_folders = [folder_at ''F'' None ''ann'', folder_at ''G'' (Some ''F'') ''ann'', folder_at ''H'' None ''ann''],
     sh_chats = [chat_in ''1'' ''ann'' ''G'', chat_in ''2'' ''bob'' ''F'', chat_in ''3'' ''ann'' ''H''],
     sh_messages = [(''m'', ''1'')], sh_runs = [], sh_automations = [], sh_grants = []\<rparr>"

theorem deletion_strands_no_chat_witness:
  "stranded (snd (delete_folder_by_id deleting_config (\<lambda>n. if n = 3 then Fails_committed else Done) 7 shared_library ann ''F'' True
     example_shelf)) = {}"
proof -
  obtain r s' where run: "delete_folder_by_id deleting_config (\<lambda>n. if n = 3 then Fails_committed else Done) 7 shared_library
      ann ''F'' True example_shelf = (r, s')" by (rule prod.exhaust)
  have "stranded example_shelf = {}" by (auto simp: stranded_def example_shelf_def chat_in_def)
  then show ?thesis using deletion_strands_no_chat [OF run] by (simp add: run)
qed

theorem deletion_exact_witness:
  "\<exists>s'. delete_folder_by_id deleting_config (\<lambda>n. Done) 7 shared_library ann ''F'' True example_shelf = (Inr (), s') \<and>
     chat_in ''3'' ''ann'' ''H'' \<in> set (sh_chats s')"
proof -
  have "fst (delete_folder_by_id deleting_config (\<lambda>n. Done) 7 shared_library ann ''F'' True example_shelf) = Inr ()"
    by code_simp
  then obtain s' where run: "delete_folder_by_id deleting_config (\<lambda>n. Done) 7 shared_library ann ''F'' True example_shelf
      = (Inr (), s')" by (metis prod.collapse)
  have ids: "distinct (map fo_id (sh_folders example_shelf))" by (simp add: example_shelf_def)
  have H: "x = ''F'' \<or> x = ''G''" if "(''F'', x) \<in> (child_of (sh_folders example_shelf) uid)\<^sup>*" for x uid
    using that by (induction rule: rtrancl_induct) (auto simp: child_of_def example_shelf_def)
  have c: "chat_in ''3'' ''ann'' ''H'' \<in> set (sh_chats example_shelf)" by (simp add: example_shelf_def)
  obtain f :: folder where kept: "\<forall>c \<in> set (sh_chats example_shelf).
      if \<exists>x \<in> (child_of (sh_folders example_shelf) (fo_user_id f))\<^sup>* `` {''F''}. fh_folder_id c = Some x
      then True \<and> fh_user_id c = fo_user_id f \<or> c\<lparr>fh_folder_id := None\<rparr> \<in> set (sh_chats s')
      else c \<in> set (sh_chats s')"
    using deletion_exact [OF run ids] unfolding Let_def by (elim exE conjE) (rule that)
  have "\<not> (\<exists>x \<in> (child_of (sh_folders example_shelf) (fo_user_id f))\<^sup>* `` {''F''}.
      fh_folder_id (chat_in ''3'' ''ann'' ''H'') = Some x)"
    using H by (auto simp: chat_in_def)
  then have "chat_in ''3'' ''ann'' ''H'' \<in> set (sh_chats s')" using bspec [OF kept c] by (simp only: if_False)
  then show ?thesis using run by blast
qed

end
