(* ===== verification/FolderListing.thy ===== *)
theory FolderListing
  imports FolderChats
begin

text \<open>
  Listing a user's folders (\<open>get_folders\<close> of \<open>routers/folders.py\<close>): the listing repairs what it
  finds. A folder whose parent is missing or part of a loop goes back to the root, entries the
  user can no longer read are dropped, and every unread chat is counted at its folder and at the
  folders around it.
\<close>

section \<open>Parent links as a dict\<close>

type_synonym parents = "(string \<times> string option) list"

text \<open>\<open>parent_by_id.get(i)\<close>, followed while it is a non-empty id.\<close>

definition parent_link :: "parents \<Rightarrow> string \<Rightarrow> string option" where
  "parent_link ps i = (case map_of ps i of None \<Rightarrow> None | Some p \<Rightarrow> some_id p)"

text \<open>A walk up stops: each stop is new, and all but the first are parents in the dict.\<close>

definition chase_measure :: "parents \<Rightarrow> string option \<Rightarrow> string list \<Rightarrow> nat" where
  "chase_measure ps current seen =
     (case current of None \<Rightarrow> 0 | Some c \<Rightarrow> Suc (card (insert c (the ` snd ` set ps) - set seen)))"

lemma chase_decreases:
  assumes "c \<notin> set seen"
  shows "chase_measure ps (parent_link ps c) (c # seen) < chase_measure ps (Some c) seen"
proof (cases "parent_link ps c")
  case (Some d)
  then have "(c, Some d) \<in> set ps"
    by (auto simp: parent_link_def some_id_def split: option.splits if_splits dest: map_of_SomeD)
  then have "d \<in> the ` snd ` set ps" by (force simp: image_iff)
  then have "insert d (the ` snd ` set ps) - set (c # seen) \<subset> insert c (the ` snd ` set ps) - set seen"
    using assms by auto
  then have "card (insert d (the ` snd ` set ps) - set (c # seen)) < card (insert c (the ` snd ` set ps) - set seen)"
    by (rule psubset_card_mono [rotated]) simp
  then show ?thesis using Some by (simp add: chase_measure_def)
qed (simp add: chase_measure_def)

function chase :: "parents \<Rightarrow> string option \<Rightarrow> string list \<Rightarrow> string option" where
  "chase ps current seen =
     (case current of
        None \<Rightarrow> None
      | Some c \<Rightarrow> if c \<in> set seen then Some c else chase ps (parent_link ps c) (c # seen))"
  by pat_completeness auto
termination
  by (relation "measure (\<lambda>(ps, current, seen). chase_measure ps current seen)") (auto intro: chase_decreases)

declare chase.simps [simp del]

definition is_in_parent_cycle :: "parents \<Rightarrow> string \<Rightarrow> bool" where
  "is_in_parent_cycle ps i \<longleftrightarrow> chase ps (parent_link ps i) [i] = Some i"

section \<open>Unread counts\<close>

text \<open>Adding one folder's unread chats to it and to every folder around it.\<close>

function count_upwards :: "parents \<Rightarrow> nat \<Rightarrow> string option \<Rightarrow> string list \<Rightarrow> (string \<times> nat) list \<Rightarrow> (string \<times> nat) list" where
  "count_upwards ps n current seen counts =
     (case current of
        None \<Rightarrow> counts
      | Some c \<Rightarrow>
          if c \<in> set seen then counts
          else count_upwards ps n (parent_link ps c) (c # seen)
                 (case map_of counts c of None \<Rightarrow> counts | Some m \<Rightarrow> AList.update c (m + n) counts))"
  by pat_completeness auto
termination
  by (relation "measure (\<lambda>(ps, n, current, seen, counts). chase_measure ps current seen)") (auto intro: chase_decreases)

declare count_upwards.simps [simp del]

definition parents_of :: "folder list \<Rightarrow> parents" where
  "parents_of fs = map (\<lambda>f. (fo_id f, fo_parent f)) fs"

definition get_folder_unread_counts :: "folder_db \<Rightarrow> filed_chat list \<Rightarrow> string \<Rightarrow> py_error + (string \<times> nat) list" where
  "get_folder_unread_counts fs cs uid =
     and_then (get_folders_by_user_id fs uid) (\<lambda>folders.
       let ps = parents_of folders
       in Inr (foldl (\<lambda>counts (i, n). count_upwards ps n (Some i) [] counts) (map (\<lambda>(i, p). (i, 0)) ps)
                (count_unread_by_folder_ids cs uid (map fst ps))))"

section \<open>The listing\<close>

text \<open>\<open>len(v)\<close>.\<close>

fun py_len :: "json \<Rightarrow> py_error + nat" where
  "py_len (JArr xs) = Inr (length xs)"
| "py_len (JObj d) = Inr (length d)"
| "py_len (JStr s) = Inr (length s)"
| "py_len _ = Inl TypeError"

definition carries_files :: "folder \<Rightarrow> bool" where
  "carries_files f \<longleftrightarrow> files_of (fo_data f) \<noteq> None"

definition repair_parent :: "(string \<Rightarrow> int) \<Rightarrow> string \<Rightarrow> folder \<Rightarrow> parents \<Rightarrow> folder_db \<Rightarrow> (folder option \<times> parents) \<times> folder_db" where
  "repair_parent now uid f ps fs =
     (case some_id (fo_parent f) of
        None \<Rightarrow> ((Some f, ps), fs)
      | Some p \<Rightarrow>
          if p \<notin> set (map fst ps) \<or> is_in_parent_cycle ps (fo_id f)
          then (case update_folder_parent_id_by_id_and_user_id (now (fo_id f)) fs (fo_id f) uid None of
                  (r, fs') \<Rightarrow> ((r, AList.update (fo_id f) None ps), fs'))
          else ((Some f, ps), fs))"

definition drop_unreadable ::
  "(json \<Rightarrow> string \<Rightarrow> bool) \<Rightarrow> (string \<Rightarrow> int) \<Rightarrow> library \<Rightarrow> user \<Rightarrow> string list option \<Rightarrow> folder \<Rightarrow> folder_db \<Rightarrow>
     folder answer" where
  "drop_unreadable text_match now lb u gids f fs =
     (case files_of (fo_data f) of
        None \<Rightarrow> (Inr f, fs)
      | Some files \<Rightarrow>
          checked (or_raise (get_accessible_folder_files text_match lb files u gids ''read'')) fs (\<lambda>accessible.
          checked (or_raise (py_len files)) fs (\<lambda>n.
          if length accessible = n then (Inr f, fs)
          else let data = dict_set ''files'' (JArr accessible) (as_dict (fo_data f))
               in (Inr (f\<lparr>fo_data := JObj data\<rparr>),
                   snd (update_folder_by_id_and_user_id (now (fo_id f)) fs (fo_id f) (us_id u) [(''data'', JObj data)])))))"

fun list_folders ::
  "(json \<Rightarrow> string \<Rightarrow> bool) \<Rightarrow> (string \<Rightarrow> int) \<Rightarrow> library \<Rightarrow> user \<Rightarrow> string list option \<Rightarrow> folder list \<Rightarrow> parents \<Rightarrow>
     folder_db \<Rightarrow> folder list answer" where
  "list_folders text_match now lb u gids [] ps fs = (Inr [], fs)"
| "list_folders text_match now lb u gids (f # folders) ps fs =
     (case repair_parent now (us_id u) f ps fs of
        ((None, ps'), fs') \<Rightarrow> (Inl (Unhandled AttributeError), fs')
      | ((Some f', ps'), fs') \<Rightarrow>
          (case drop_unreadable text_match now lb u gids f' fs' of
             (Inl e, fs'') \<Rightarrow> (Inl e, fs'')
           | (Inr f'', fs'') \<Rightarrow>
               (case list_folders text_match now lb u gids folders ps' fs'' of
                  (Inl e, fs3) \<Rightarrow> (Inl e, fs3)
                | (Inr rest, fs3) \<Rightarrow> (Inr (f'' # rest), fs3))))"

definition get_folders ::
  "(json \<Rightarrow> string \<Rightarrow> bool) \<Rightarrow> folder_config \<Rightarrow> (string \<Rightarrow> int) \<Rightarrow> library \<Rightarrow> filed_chat list \<Rightarrow> user \<Rightarrow> folder_db \<Rightarrow>
     (folder \<times> nat) list answer" where
  "get_folders text_match cfg now lb cs u fs =
     checked (check_folders_permission cfg lb u) fs (\<lambda>_.
     checked (or_raise (get_folders_by_user_id fs (us_id u))) fs (\<lambda>folders.
       let gids = (if us_role u \<noteq> ''admin'' \<and> list_ex carries_files folders
                   then Some (resolve_group_ids (lb_groups lb) (us_id u) None) else None)
       in case list_folders text_match now lb u gids folders (parents_of folders) fs of
            (Inl e, fs') \<Rightarrow> (Inl e, fs')
          | (Inr listed, fs') \<Rightarrow>
              checked (or_raise (get_folder_unread_counts fs' cs (us_id u))) fs' (\<lambda>counts.
                (Inr (map (\<lambda>f. (f, case map_of counts (fo_id f) of None \<Rightarrow> 0 | Some n \<Rightarrow> n)) listed), fs'))))"

section \<open>Marking a folder's chats read\<close>

definition mark_folder_chats_read_by_id ::
  "folder_config \<Rightarrow> library \<Rightarrow> user \<Rightarrow> string \<Rightarrow> folder_db \<Rightarrow> filed_chat list \<Rightarrow>
     (http_error + (string list \<times> nat \<times> (string \<times> nat) list)) \<times> filed_chat list" where
  "mark_folder_chats_read_by_id cfg lb u i fs cs =
     (case and_then (check_folders_permission cfg lb u) (\<lambda>_.
           case get_folder_by_id fs i of
             None \<Rightarrow> Inl (HTTPException 404)
           | Some f \<Rightarrow>
               if us_id u = fo_user_id f \<or> us_role u = ''admin''
               then or_raise (get_folder_ids_by_id_and_user_id_in_subtree fs i (fo_user_id f))
               else if has_folder_access (lb_groups lb) (lb_grants lb) fs (us_id u) f ''read'' then Inr [i]
               else Inl (HTTPException 403)) of
        Inl e \<Rightarrow> (Inl e, cs)
      | Inr ids \<Rightarrow>
          (case mark_chats_read_by_folder_ids (us_id u) ids cs of
             (n, cs') \<Rightarrow> (and_then (or_raise (get_folder_unread_counts fs cs' (us_id u))) (\<lambda>counts. Inr (ids, n, counts)), cs')))"

section \<open>The walk finds the loops\<close>

definition edges :: "parents \<Rightarrow> (string \<times> string) set" where
  "edges ps = {(x, y). parent_link ps x = Some y}"

lemma chase_reached: "chase ps (Some c) seen = Some z \<Longrightarrow> (c, z) \<in> (edges ps)\<^sup>*"
proof (induction ps "Some c" seen arbitrary: c rule: chase.induct)
  case (1 ps seen c)
  show ?case
  proof (cases "c \<in> set seen")
    case False
    then have next_up: "chase ps (parent_link ps c) (c # seen) = Some z" using "1.prems" by (simp add: chase.simps)
    then obtain d where d: "parent_link ps c = Some d" by (cases "parent_link ps c") (auto simp: chase.simps)
    then have "(d, z) \<in> (edges ps)\<^sup>*" using "1.hyps" [OF refl False d] next_up by simp
    moreover have "(c, d) \<in> edges ps" using d by (simp add: edges_def)
    ultimately show ?thesis by (rule converse_rtrancl_into_rtrancl [rotated])
  qed (use "1.prems" in \<open>simp add: chase.simps\<close>)
qed

text \<open>The folders seen are a path, which only leads on to the one looked at.\<close>

lemma chase_returns:
  assumes "i \<in> set seen" and "edges ps `` set seen \<subseteq> insert c (set seen)"
    and "\<And>x. x \<in> set seen \<Longrightarrow> (x, i) \<in> edges ps \<Longrightarrow> c = i" and "(c, i) \<in> (edges ps)\<^sup>*"
  shows "chase ps (Some c) seen = Some i"
  using assms
proof (induction ps "Some c" seen arbitrary: c rule: chase.induct)
  case (1 ps seen c)
  show ?case
  proof (cases "c \<in> set seen")
    case True
    have "c = i"
    proof (rule ccontr)
      assume "c \<noteq> i"
      then obtain x where x: "(c, x) \<in> (edges ps)\<^sup>*" "(x, i) \<in> edges ps" using "1.prems"(4) by (blast elim: rtranclE)
      have "x \<in> set seen"
        using x(1) "1.prems"(2) True by (induction rule: rtrancl_induct) auto
      then show False using "1.prems"(3) x(2) \<open>c \<noteq> i\<close> by blast
    qed
    then show ?thesis using True by (simp add: chase.simps)
  next
    case False
    then have "c \<noteq> i" using "1.prems"(1) by auto
    then obtain d where d: "(c, d) \<in> edges ps" "(d, i) \<in> (edges ps)\<^sup>*" using "1.prems"(4) by (blast elim: converse_rtranclE)
    then have p: "parent_link ps c = Some d" by (simp add: edges_def)
    have "chase ps (Some d) (c # seen) = Some i"
    proof (rule "1.hyps" [OF refl False p])
      show "edges ps `` set (c # seen) \<subseteq> insert d (set (c # seen))"
        using "1.prems"(2) p by (auto simp: edges_def)
      show "d = i" if "x \<in> set (c # seen)" "(x, i) \<in> edges ps" for x
        using that "1.prems"(1,3) False p by (auto simp: edges_def)
    qed (use "1.prems"(1) d(2) in auto)
    then show ?thesis using False p by (simp add: chase.simps [of ps "Some c"])
  qed
qed

lemma cycle_iff: "is_in_parent_cycle ps i \<longleftrightarrow> (i, i) \<in> (edges ps)\<^sup>+"
proof
  assume "is_in_parent_cycle ps i"
  then obtain c where c: "parent_link ps i = Some c" "chase ps (Some c) [i] = Some i"
    by (cases "parent_link ps i") (auto simp: is_in_parent_cycle_def chase.simps)
  then have "(i, c) \<in> edges ps" by (simp add: edges_def)
  with chase_reached [OF c(2)] show "(i, i) \<in> (edges ps)\<^sup>+" by simp
next
  assume "(i, i) \<in> (edges ps)\<^sup>+"
  then obtain c where c: "(i, c) \<in> edges ps" "(c, i) \<in> (edges ps)\<^sup>*" by (blast dest: tranclD)
  then have "chase ps (Some c) [i] = Some i" by (intro chase_returns) (auto simp: edges_def)
  then show "is_in_parent_cycle ps i" using c(1) by (simp add: is_in_parent_cycle_def edges_def)
qed

section \<open>The listing leaves a tree\<close>

text \<open>What the repair of the tree reads of a row.\<close>

definition row_link :: "folder \<Rightarrow> string \<times> string \<times> string option" where
  "row_link f = (fo_id f, fo_user_id f, fo_parent f)"

definition tracks :: "parents \<Rightarrow> folder_db \<Rightarrow> string \<Rightarrow> bool" where
  "tracks ps fs uid \<longleftrightarrow> (\<forall>i p. map_of ps i = Some p \<longleftrightarrow> (i, uid, p) \<in> row_link ` set fs)"

definition settled :: "parents \<Rightarrow> string \<Rightarrow> bool" where
  "settled ps i \<longleftrightarrow> (i, i) \<notin> (edges ps)\<^sup>+ \<and> (\<forall>p. parent_link ps i = Some p \<longrightarrow> map_of ps p \<noteq> None)"

text \<open>Links are only ever taken away.\<close>

definition pruned :: "parents \<Rightarrow> parents \<Rightarrow> bool" where
  "pruned ps ps' \<longleftrightarrow> (\<forall>i. map_of ps' i = map_of ps i \<or> \<not> settled ps i \<and> map_of ps i \<noteq> None \<and> map_of ps' i = Some None)"

lemma pruned_edges:
  assumes "pruned ps ps'"
  shows "edges ps' \<subseteq> edges ps"
proof
  fix e assume "e \<in> edges ps'"
  then obtain x y where e: "e = (x, y)" "parent_link ps' x = Some y" by (auto simp: edges_def)
  then have "map_of ps' x \<noteq> Some None" by (auto simp: parent_link_def some_id_def)
  then have "map_of ps' x = map_of ps x" using assms by (auto simp: pruned_def)
  then show "e \<in> edges ps" using e by (simp add: edges_def parent_link_def)
qed

lemma pruned_known: "pruned ps ps' \<Longrightarrow> map_of ps' i = None \<longleftrightarrow> map_of ps i = None"
  by (metis option.distinct(1) pruned_def)

lemma settled_pruned: "pruned ps ps' \<Longrightarrow> settled ps i \<Longrightarrow> settled ps' i"
  using pruned_edges [of ps ps'] trancl_mono [of "(i, i)" "edges ps'" "edges ps"]
  by (auto simp: settled_def pruned_known edges_def)

lemma pruned_refl: "pruned ps ps"
  by (simp add: pruned_def)

lemma pruned_trans: "pruned ps ps' \<Longrightarrow> pruned ps' ps'' \<Longrightarrow> pruned ps ps''"
  using settled_pruned [of ps ps'] unfolding pruned_def by metis

lemma row_link_write:
  assumes "distinct (map fo_id fs)" and "\<And>f. fo_id (change f) = fo_id f \<and> fo_user_id (change f) = fo_user_id f"
  shows "row_link ` set (modify_first (\<lambda>f. fo_id f = i \<and> fo_user_id f = uid) change fs) =
    row_link ` (\<lambda>f. if fo_id f = i \<and> fo_user_id f = uid then change f else f) ` set fs"
proof -
  have "modify_first (\<lambda>f. fo_id f = i \<and> fo_user_id f = uid) change fs =
      map (\<lambda>f. if fo_id f = i \<and> fo_user_id f = uid then change f else f) fs"
    using assms by (induction fs) (auto simp: image_iff intro!: map_idI [symmetric])
  then show ?thesis by simp
qed

lemma write_keeps_links:
  assumes "\<And>f. row_link (change f) = row_link f"
  shows "map row_link (snd (write_folder fs i uid change)) = map row_link fs"
  using assms by (auto simp: write_folder_def map_modify_first split: option.splits)

lemma update_keeps_links:
  "map row_link (snd (update_folder_by_id_and_user_id now fs i uid form)) = map row_link fs"
  by (simp add: update_folder_by_id_and_user_id_def Let_def write_keeps_links row_link_def split: option.splits)

lemma drop_unreadable_links:
  "drop_unreadable text_match now lb u gids f fs = (r, fs') \<Longrightarrow> map row_link fs' = map row_link fs"
  by (auto simp: drop_unreadable_def checked_def Let_def update_keeps_links split: option.splits sum.splits if_splits)

lemma tracks_links: "map row_link fs = map row_link fs' \<Longrightarrow> tracks ps fs uid \<longleftrightarrow> tracks ps fs' uid"
  unfolding tracks_def by (metis list.set_map)

lemma ids_links: "map row_link fs = map row_link fs' \<Longrightarrow> map fo_id fs = map fo_id fs'"
proof -
  assume "map row_link fs = map row_link fs'"
  then have "map fst (map row_link fs) = map fst (map row_link fs')" by simp
  then show ?thesis by (simp add: row_link_def comp_def)
qed

lemma some_id_None [simp]: "some_id None = None"
  by (simp add: some_id_def)

text \<open>Taking a folder's link away leaves it settled.\<close>

lemma cut_settled: "settled (AList.update i None ps) i"
proof -
  have "parent_link (AList.update i None ps) i = None" by (simp add: parent_link_def)
  then have "(i, j) \<notin> edges (AList.update i None ps)" for j by (simp add: edges_def)
  then have "(i, i) \<notin> (edges (AList.update i None ps))\<^sup>+" by (blast dest: tranclD)
  then show ?thesis using \<open>parent_link (AList.update i None ps) i = None\<close> by (simp add: settled_def)
qed

definition cut_link :: "string \<Rightarrow> string \<Rightarrow> int \<Rightarrow> folder \<Rightarrow> folder" where
  "cut_link i uid now g =
     (if fo_id g = i \<and> fo_user_id g = uid then g\<lparr>fo_parent := None, fo_updated_at := now\<rparr> else g)"

lemma cut_links:
  assumes "g \<in> set fs" "fo_id g = i" "fo_user_id g = uid"
  shows "(j, v, p) \<in> row_link ` cut_link i uid now ` set fs
     \<longleftrightarrow> (if j = i \<and> v = uid then p = None else (j, v, p) \<in> row_link ` set fs)"
proof -
  have "(j, v, p) \<in> row_link ` cut_link i uid now ` set fs \<longleftrightarrow> (\<exists>h \<in> set fs. (j, v, p) = row_link (cut_link i uid now h))"
    by blast
  moreover have "(j, v, p) = row_link (cut_link i uid now h) \<longleftrightarrow>
      (if j = i \<and> v = uid then fo_id h = i \<and> fo_user_id h = uid \<and> p = None else (j, v, p) = row_link h)" for h
    by (auto simp: row_link_def cut_link_def)
  moreover have "(j, v, p) \<in> row_link ` set fs \<longleftrightarrow> (\<exists>h \<in> set fs. (j, v, p) = row_link h)" by blast
  ultimately show ?thesis using assms by (cases "j = i \<and> v = uid") auto
qed

lemma not_settled:
  assumes "\<not> settled ps i"
  shows "\<exists>q. parent_link ps i = Some q \<and> (map_of ps q = None \<or> (i, i) \<in> (edges ps)\<^sup>+)"
proof (cases "(i, i) \<in> (edges ps)\<^sup>+")
  case True
  then obtain q where "(i, q) \<in> edges ps" by (blast dest: tranclD)
  then show ?thesis using True by (auto simp: edges_def)
qed (use assms in \<open>auto simp: settled_def\<close>)

lemma repair_step:
  assumes "repair_parent now uid f ps fs = ((r, ps'), fs')" and "tracks ps fs uid" and "distinct (map fo_id fs)"
    and "map_of ps (fo_id f) = Some (fo_parent f)"
  shows "pruned ps ps' \<and> settled ps' (fo_id f) \<and> tracks ps' fs' uid \<and> map fo_id fs' = map fo_id fs \<and>
     (\<forall>f'. r = Some f' \<longrightarrow> fo_id f' = fo_id f)"
proof -
  have known: "map_of ps p = None \<longleftrightarrow> p \<notin> set (map fst ps)" for p by (simp add: map_of_eq_None_iff)
  have p: "parent_link ps (fo_id f) = some_id (fo_parent f)" using assms(4) by (simp add: parent_link_def)
  show ?thesis
  proof (cases "settled ps (fo_id f)")
    case True
    then have "r = Some f \<and> ps' = ps \<and> fs' = fs"
      using assms(1) p by (auto simp: repair_parent_def settled_def cycle_iff known split: option.splits)
    then show ?thesis using True assms(2) by (simp add: pruned_refl)
  next
    case False
    then obtain q where q: "some_id (fo_parent f) = Some q" "q \<notin> set (map fst ps) \<or> is_in_parent_cycle ps (fo_id f)"
      using not_settled [OF False] p by (auto simp: cycle_iff known)
    then have ps': "ps' = AList.update (fo_id f) None ps"
      and fs': "fs' = snd (update_folder_parent_id_by_id_and_user_id (now (fo_id f)) fs (fo_id f) uid None)"
      and r: "r = fst (update_folder_parent_id_by_id_and_user_id (now (fo_id f)) fs (fo_id f) uid None)"
      using assms(1) by (auto simp: repair_parent_def split: prod.splits)
    have "(fo_id f, uid, fo_parent f) \<in> row_link ` set fs" using assms(2,4) by (simp add: tracks_def)
    then obtain g where g: "g \<in> set fs" "fo_id g = fo_id f" "fo_user_id g = uid" by (auto simp: row_link_def)
    have own: "owned_folder fs (fo_id f) uid = Some g" using g owned_folder_iff [OF assms(3)] by simp
    then have links: "row_link ` set fs' = row_link ` cut_link (fo_id f) uid (now (fo_id f)) ` set fs"
      unfolding fs' update_folder_parent_id_by_id_and_user_id_def write_folder_def
      by (simp add: row_link_write [OF assms(3)] cut_link_def [abs_def])
    have mem: "(j, v, p) \<in> row_link ` set fs' \<longleftrightarrow>
        (if j = fo_id f \<and> v = uid then p = None else (j, v, p) \<in> row_link ` set fs)" for j v p
      unfolding links by (rule cut_links [OF g])
    have "pruned ps ps'" using False assms(4) by (auto simp: pruned_def ps')
    moreover have "settled ps' (fo_id f)" unfolding ps' by (rule cut_settled)
    moreover have "tracks ps' fs' uid"
      using assms(2) by (auto simp: tracks_def mem ps')
    moreover have "map fo_id fs' = map fo_id fs" unfolding fs' by (rule update_ids)
    moreover have "r = Some f' \<Longrightarrow> fo_id f' = fo_id f" for f'
      unfolding r using own g(2) by (auto simp: update_folder_parent_id_by_id_and_user_id_def write_folder_def folder_or_none_def split: if_splits)
    ultimately show ?thesis by blast
  qed
qed

text \<open>The rows of everyone else, whole.\<close>

definition others :: "folder_db \<Rightarrow> string \<Rightarrow> folder_db" where
  "others fs uid = filter (\<lambda>f. fo_user_id f \<noteq> uid) fs"

lemma others_modify:
  assumes "\<And>f. fo_user_id (change f) = fo_user_id f"
  shows "others (modify_first (\<lambda>f. fo_id f = i \<and> fo_user_id f = uid) change fs) uid = others fs uid"
  using assms by (induction fs) (auto simp: others_def)

lemma write_keeps_others:
  "(\<And>f. fo_user_id (change f) = fo_user_id f) \<Longrightarrow> others (snd (write_folder fs i uid change)) uid = others fs uid"
  by (auto simp: write_folder_def others_modify split: option.splits)

lemma update_keeps_others: "others (snd (update_folder_by_id_and_user_id now fs i uid form)) uid = others fs uid"
  by (simp add: update_folder_by_id_and_user_id_def Let_def write_keeps_others split: option.splits)

lemma repair_keeps_others: "others (snd (repair_parent now uid f ps fs)) uid = others fs uid"
  by (auto simp: repair_parent_def update_folder_parent_id_by_id_and_user_id_def write_keeps_others
      split: option.splits prod.splits dest!: arg_cong [where f = snd])

lemma drop_keeps_others: "others (snd (drop_unreadable text_match now lb u gids f fs)) (us_id u) = others fs (us_id u)"
  by (auto simp: drop_unreadable_def checked_def Let_def update_keeps_others split: option.splits sum.splits)

lemma list_folders_others:
  "others (snd (list_folders text_match now lb u gids folders ps fs)) (us_id u) = others fs (us_id u)"
proof (induction folders arbitrary: ps fs)
  case (Cons f folders)
  obtain r ps1 fs1 where one: "repair_parent now (us_id u) f ps fs = ((r, ps1), fs1)" by (cases "repair_parent now (us_id u) f ps fs") auto
  have o1: "others fs1 (us_id u) = others fs (us_id u)" using repair_keeps_others [of now "us_id u" f ps fs] one by simp
  show ?case
  proof (cases r)
    case None
    then show ?thesis using one o1 by simp
  next
    case (Some f1)
    obtain a fs2 where two: "drop_unreadable text_match now lb u gids f1 fs1 = (a, fs2)"
      by (cases "drop_unreadable text_match now lb u gids f1 fs1") auto
    have "others fs2 (us_id u) = others fs (us_id u)" using drop_keeps_others [of text_match now lb u gids f1 fs1] two o1 by simp
    then show ?thesis using one two Some Cons.IH [of ps1 fs2] by (auto split: sum.split prod.split)
  qed
qed simp

lemma drop_unreadable_id: "drop_unreadable text_match now lb u gids f fs = (Inr f', fs') \<Longrightarrow> fo_id f' = fo_id f"
  by (auto simp: drop_unreadable_def checked_def Let_def split: option.splits sum.splits if_splits)

text \<open>The loop over the folders, each of them looked at once.\<close>

lemma listing_loop:
  assumes "list_folders text_match now lb u gids folders ps fs = (Inr rows, fs')"
    and "tracks ps fs (us_id u)" and "distinct (map fo_id fs)" and "distinct (map fo_id folders)"
    and "\<And>f. f \<in> set folders \<Longrightarrow> map_of ps (fo_id f) = Some (fo_parent f)"
  shows "\<exists>ps'. pruned ps ps' \<and> tracks ps' fs' (us_id u) \<and> map fo_id fs' = map fo_id fs \<and>
     (\<forall>f \<in> set folders. settled ps' (fo_id f)) \<and>
     map fo_id rows = map fo_id folders"
  using assms
proof (induction folders arbitrary: ps fs rows)
  case Nil
  then show ?case by (auto intro: pruned_refl)
next
  case (Cons f folders)
  obtain f1 ps1 fs1 where repair: "repair_parent now (us_id u) f ps fs = ((Some f1, ps1), fs1)"
    using Cons.prems(1) by (auto split: prod.splits option.splits)
  obtain f2 fs2 where kept: "drop_unreadable text_match now lb u gids f1 fs1 = (Inr f2, fs2)"
    using Cons.prems(1) repair by (auto split: prod.splits sum.splits)
  obtain rest where rest: "list_folders text_match now lb u gids folders ps1 fs2 = (Inr rest, fs')" "rows = f2 # rest"
    using Cons.prems(1) repair kept by (auto split: prod.splits sum.splits)
  have "map_of ps (fo_id f) = Some (fo_parent f)" using Cons.prems(5) by simp
  note step = repair_step [OF repair Cons.prems(2,3) this]
  have links: "map row_link fs2 = map row_link fs1" using drop_unreadable_links [OF kept] .
  have ids: "map fo_id fs2 = map fo_id fs" using ids_links [OF links] step by simp
  have "map_of ps1 (fo_id h) = Some (fo_parent h)" if h: "h \<in> set folders" for h
  proof -
    have "fo_id h \<noteq> fo_id f" using Cons.prems(4) h by (auto simp: image_iff)
    moreover have "ps1 = ps \<or> ps1 = AList.update (fo_id f) None ps"
      using repair by (auto simp: repair_parent_def split: option.splits if_splits prod.splits)
    ultimately show ?thesis using Cons.prems(5) [of h] h by auto
  qed
  note parents = this
  have tracked: "tracks ps1 fs2 (us_id u)" using step unfolding tracks_links [OF links] by blast
  have distinct: "distinct (map fo_id fs2)" "distinct (map fo_id folders)"
    using Cons.prems(3,4) unfolding ids by simp_all
  obtain ps' where ps': "pruned ps1 ps'" "tracks ps' fs' (us_id u)" "map fo_id fs' = map fo_id fs2"
      "\<forall>f \<in> set folders. settled ps' (fo_id f)" "map fo_id rest = map fo_id folders"
    using Cons.IH [OF rest(1) tracked distinct parents] by blast
  have "settled ps' (fo_id f)" using settled_pruned [OF ps'(1)] step by blast
  moreover have "pruned ps ps'" using pruned_trans step ps'(1) by blast
  moreover have "fo_id f2 = fo_id f" using step drop_unreadable_id [OF kept] by simp
  ultimately show ?case using ps' ids rest(2) by (intro exI [of _ ps']) auto
qed

lemma parents_of_tracks:
  assumes "distinct (map fo_id fs)"
  shows "tracks (parents_of (filter (\<lambda>f. fo_user_id f = uid) fs)) fs uid"
proof -
  let ?own = "filter (\<lambda>f. fo_user_id f = uid) fs"
  have "distinct (map fst (parents_of ?own))" using assms by (auto simp: parents_of_def comp_def)
  then have "map_of (parents_of ?own) i = Some p \<longleftrightarrow> (i, p) \<in> set (parents_of ?own)" for i p
    by (rule map_of_eq_Some_iff)
  then show ?thesis by (auto simp: tracks_def parents_of_def row_link_def image_iff)
qed

lemma edges_child_of:
  assumes "tracks ps fs uid" and "(p, c) \<in> child_of fs uid" and "p \<noteq> []"
  shows "(c, p) \<in> edges ps"
proof -
  obtain f where f: "f \<in> set fs" "fo_id f = c" "fo_parent f = Some p" "fo_user_id f = uid"
    using assms(2) by (auto simp: child_of_def)
  then have "(c, uid, Some p) \<in> row_link ` set fs" by (force simp: row_link_def)
  then have "map_of ps c = Some (Some p)" using assms(1) by (simp add: tracks_def)
  then show ?thesis using assms(3) by (simp add: edges_def parent_link_def some_id_def)
qed

lemma settled_tree:
  assumes "tracks ps fs uid" and "\<And>i. map_of ps i \<noteq> None \<Longrightarrow> settled ps i" and "[] \<notin> fo_id ` set fs"
  shows "acyclic (child_of fs uid)"
proof -
  let ?R = "child_of fs uid"
  have named: "y \<noteq> []" if "(x, y) \<in> ?R" for x y using that assms(3) by (force simp: child_of_def)
  have up: "(y, x) \<in> (edges ps)\<^sup>+" if "(x, y) \<in> ?R\<^sup>+" and "x \<noteq> []" for x y
    using that(1)
  proof (induction rule: trancl_induct)
    case (base y)
    then show ?case using edges_child_of [OF assms(1)] that(2) by blast
  next
    case (step y z)
    have "y \<noteq> []" using step.hyps(1) named by (metis tranclE)
    then have "(z, y) \<in> edges ps" using edges_child_of [OF assms(1) step.hyps(2)] by blast
    then show ?case using step.IH by (rule trancl_into_trancl2)
  qed
  have "(x, x) \<notin> ?R\<^sup>+" for x
  proof
    assume x: "(x, x) \<in> ?R\<^sup>+"
    then have "x \<noteq> []" using named by (metis tranclE)
    then have loop: "(x, x) \<in> (edges ps)\<^sup>+" using up [OF x] by blast
    then obtain y where "(x, y) \<in> edges ps" by (blast dest: tranclD)
    then have "map_of ps x \<noteq> None" by (auto simp: edges_def parent_link_def split: option.splits)
    then show False using assms(2) [of x] loop by (simp add: settled_def)
  qed
  then show ?thesis by (simp add: acyclic_def)
qed

lemma edges_up:
  assumes "tracks ps fs uid"
  shows "edges ps \<subseteq> (child_of fs uid)\<inverse>"
proof
  fix e assume "e \<in> edges ps"
  then obtain c p where e: "e = (c, p)" "map_of ps c = Some (Some p)"
    by (auto simp: edges_def parent_link_def some_id_def split: option.splits if_splits)
  then have "(c, uid, Some p) \<in> row_link ` set fs" using assms by (simp add: tracks_def)
  then show "e \<in> (child_of fs uid)\<inverse>" using e(1) by (auto simp: row_link_def child_of_def)
qed

text \<open>A folder is in place when its parent, if any, is one of the owner's folders and it is in no loop.\<close>

definition in_place :: "folder_db \<Rightarrow> folder \<Rightarrow> bool" where
  "in_place fs f \<longleftrightarrow> (fo_id f, fo_id f) \<notin> (child_of fs (fo_user_id f))\<^sup>+ \<and>
     (case some_id (fo_parent f) of
        None \<Rightarrow> True | Some p \<Rightarrow> \<exists>g \<in> set fs. fo_id g = p \<and> fo_user_id g = fo_user_id f)"

lemma in_place_settled:
  assumes "tracks ps fs uid" and "f \<in> set fs" and "fo_user_id f = uid" and "in_place fs f"
  shows "settled ps (fo_id f)"
proof -
  have known: "map_of ps i \<noteq> None \<longleftrightarrow> (\<exists>g \<in> set fs. fo_id g = i \<and> fo_user_id g = uid)" for i
    using assms(1) unfolding tracks_def by (force simp: row_link_def)
  have "(fo_id f, uid, fo_parent f) \<in> row_link ` set fs" using assms(2,3) by (force simp: row_link_def)
  then have "map_of ps (fo_id f) = Some (fo_parent f)" using assms(1) by (simp add: tracks_def)
  then have "parent_link ps (fo_id f) = some_id (fo_parent f)" by (simp add: parent_link_def)
  moreover have "(fo_id f, fo_id f) \<notin> (edges ps)\<^sup>+"
    using assms(3,4) trancl_mono [OF _ edges_up [OF assms(1)]] by (auto simp: in_place_def trancl_converse)
  ultimately show ?thesis using assms(3,4) known by (auto simp: settled_def in_place_def)
qed

lemma settled_in_place:
  assumes "tracks ps fs uid" and "\<And>i. map_of ps i \<noteq> None \<Longrightarrow> settled ps i" and "[] \<notin> fo_id ` set fs"
    and "f \<in> set fs" and "fo_user_id f = uid"
  shows "in_place fs f"
proof -
  have known: "map_of ps i \<noteq> None \<longleftrightarrow> (\<exists>g \<in> set fs. fo_id g = i \<and> fo_user_id g = uid)" for i
    using assms(1) unfolding tracks_def by (force simp: row_link_def)
  have "(fo_id f, uid, fo_parent f) \<in> row_link ` set fs" using assms(4,5) by (force simp: row_link_def)
  then have "map_of ps (fo_id f) = Some (fo_parent f)" using assms(1) by (simp add: tracks_def)
  then have "settled ps (fo_id f)" "parent_link ps (fo_id f) = some_id (fo_parent f)"
    using assms(2) by (simp_all add: parent_link_def)
  then show ?thesis
    using settled_tree [OF assms(1,2,3)] known assms(5)
    by (auto simp: in_place_def settled_def acyclic_def split: option.splits)
qed

text \<open>
  C10. After a listing, the user's folders form a tree: each one is in place, so the sidebar shows
  it. The listing has a row for each of them, leaves a folder that was in place where it was, and
  leaves every row of the folders of anyone else as it is.
\<close>

theorem listing_repairs_tree:
  assumes "get_folders text_match cfg now lb cs u fs = (Inr rows, fs')"
    and "distinct (map fo_id fs)" and "[] \<notin> fo_id ` set fs"
  shows "(\<forall>f \<in> set fs'. fo_user_id f = us_id u \<longrightarrow> in_place fs' f) \<and>
     map (\<lambda>(f, unread). fo_id f) rows = map fo_id (filter (\<lambda>f. fo_user_id f = us_id u) fs) \<and>
     (\<forall>f \<in> set fs. fo_user_id f = us_id u \<longrightarrow> in_place fs f \<longrightarrow> row_link f \<in> row_link ` set fs') \<and>
     others fs' (us_id u) = others fs (us_id u)"
proof -
  let ?own = "filter (\<lambda>f. fo_user_id f = us_id u) fs" and ?ps = "parents_of (filter (\<lambda>f. fo_user_id f = us_id u) fs)"
  obtain gids listed counts where run: "list_folders text_match now lb u gids ?own ?ps fs = (Inr listed, fs')"
      "rows = map (\<lambda>f. (f, case map_of counts (fo_id f) of None \<Rightarrow> 0 | Some n \<Rightarrow> n)) listed"
    using assms(1)
    by (auto simp: get_folders_def checked_Inr get_folders_by_user_id_def traverse_folder_model Let_def
        split: if_splits prod.splits sum.splits)
  have own: "distinct (map fo_id ?own)" using assms(2) by auto
  have tracked: "tracks ?ps fs (us_id u)" by (rule parents_of_tracks [OF assms(2)])
  have "map_of ?ps (fo_id f) = Some (fo_parent f)" if "f \<in> set ?own" for f
    using tracked that unfolding tracks_def by (force simp: row_link_def)
  then obtain ps' where ps': "pruned ?ps ps'" "tracks ps' fs' (us_id u)" "map fo_id fs' = map fo_id fs"
      "\<forall>f \<in> set ?own. settled ps' (fo_id f)" "map fo_id listed = map fo_id ?own"
    using listing_loop [OF run(1) tracked assms(2) own] by blast
  have settled: "settled ps' i" if "map_of ps' i \<noteq> None" for i
  proof -
    have "map_of ?ps i \<noteq> None" using that pruned_known [OF ps'(1)] by simp
    then have "i \<in> fo_id ` set ?own" by (auto simp: map_of_eq_None_iff parents_of_def)
    then show ?thesis using ps'(4) by blast
  qed
  have "[] \<notin> fo_id ` set fs'" using assms(3) ps'(3) by (metis list.set_map)
  then have "\<forall>f \<in> set fs'. fo_user_id f = us_id u \<longrightarrow> in_place fs' f"
    using settled_in_place [OF ps'(2) settled] by blast
  moreover have "row_link f \<in> row_link ` set fs'" if f: "f \<in> set fs" "fo_user_id f = us_id u" "in_place fs f" for f
  proof -
    have "map_of ps' (fo_id f) = map_of ?ps (fo_id f)"
      using in_place_settled [OF tracked f] ps'(1) by (auto simp: pruned_def)
    moreover have "row_link f = (fo_id f, us_id u, fo_parent f)" using f(2) by (simp add: row_link_def)
    ultimately show ?thesis using tracked ps'(2) f(1) unfolding tracks_def by (metis imageI)
  qed
  moreover have "map (\<lambda>(f, unread). fo_id f) rows = map fo_id ?own"
    using ps'(5) by (simp add: run(2) comp_def)
  moreover have "others fs' (us_id u) = others fs (us_id u)"
    using list_folders_others [of text_match now lb u gids ?own ?ps fs] run(1) by simp
  ultimately show ?thesis by blast
qed

section \<open>Every unread chat counts once\<close>

text \<open>The walk up adds at exactly the folders a guarded walk visits.\<close>

lemma count_upwards_trail:
  "map_of (count_upwards ps n current seen counts) i =
     map_option (\<lambda>m. m + (if i \<in> set (trail (parent_link ps) (map fst ps) current seen) then n else 0)) (map_of counts i)"
proof (induction ps n current seen counts rule: count_upwards.induct)
  case (1 ps n current seen counts)
  show ?case
  proof (cases current)
    case None
    then show ?thesis by (cases "map_of counts i") (simp_all add: count_upwards.simps)
  next
    case (Some c)
    show ?thesis
    proof (cases "c \<in> set seen")
      case True
      then show ?thesis using Some by (cases "map_of counts i") (simp_all add: count_upwards.simps trail_Some)
    next
      case False
      let ?counts = "case map_of counts c of None \<Rightarrow> counts | Some m \<Rightarrow> AList.update c (m + n) counts"
      let ?rest = "trail (parent_link ps) (map fst ps) (parent_link ps c) (c # seen)"
      have c: "c \<notin> set ?rest" using distinct_trail [of "parent_link ps" "map fst ps" "parent_link ps c" "c # seen"] by auto
      have here: "set (trail (parent_link ps) (map fst ps) (Some c) seen) = insert c (set ?rest)"
      proof (cases "map_of ps c")
        case None
        then have "parent_link ps c = None" by (simp add: parent_link_def)
        moreover have "c \<notin> set (map fst ps)" using None by (simp add: map_of_eq_None_iff)
        ultimately show ?thesis using False by (simp add: trail_Some)
      next
        case (Some q)
        then have "c \<in> set (map fst ps)" by (force dest: map_of_SomeD)
        then show ?thesis using False by (simp add: trail_Some)
      qed
      have "map_of (count_upwards ps n (parent_link ps c) (c # seen) ?counts) i =
          map_option (\<lambda>m. m + (if i \<in> set ?rest then n else 0)) (map_of ?counts i)"
        by (rule "1.IH" [OF Some False])
      then show ?thesis
        using Some False c here
        by (cases "map_of counts c"; cases "map_of counts i"; cases "i = c") (simp_all add: count_upwards.simps [of ps n "Some c"])
    qed
  qed
qed

lemma count_all_upwards:
  "map_of (foldl (\<lambda>counts (g, n). count_upwards ps n (Some g) [] counts) counts direct) i =
     map_option (\<lambda>m. m + (\<Sum>(g, n) \<leftarrow> direct. if (g, i) \<in> (link (parent_link ps) (map fst ps))\<^sup>* then n else 0)) (map_of counts i)"
proof (induction direct arbitrary: counts)
  case Nil
  then show ?case by (cases "map_of counts i") simp_all
next
  case (Cons d direct)
  obtain g n where d: "d = (g, n)" by (cases d)
  show ?case
    by (cases "map_of counts i") (simp_all add: d Cons.IH count_upwards_trail set_trail)
qed

lemma sum_of_groups:
  assumes "distinct ks"
  shows "(\<Sum>k \<leftarrow> ks. if P k then length (filter (\<lambda>c. key c = k) xs) else 0) = length (filter (\<lambda>c. key c \<in> set ks \<and> P (key c)) xs)"
  using assms
proof (induction ks)
  case (Cons k ks)
  have "length (filter (\<lambda>c. key c \<in> set (k # ks) \<and> P (key c)) xs) =
      (if P k then length (filter (\<lambda>c. key c = k) xs) else 0) + length (filter (\<lambda>c. key c \<in> set ks \<and> P (key c)) xs)"
    using Cons.prems by (induction xs) auto
  then show ?case using Cons by simp
qed simp

lemma link_edges: "link (parent_link ps) (map fst ps) = edges ps"
proof -
  have "x \<in> set (map fst ps)" if "parent_link ps x = Some y" for x y
    using that by (force simp: parent_link_def split: option.splits dest: map_of_SomeD)
  then show ?thesis by (auto simp: link_def edges_def)
qed

lemma reach_down_up:
  assumes "tracks ps fs uid" and "[] \<notin> fo_id ` set fs" and "i \<noteq> []"
  shows "(g, i) \<in> (edges ps)\<^sup>* \<longleftrightarrow> (i, g) \<in> (child_of fs uid)\<^sup>*"
proof
  assume "(g, i) \<in> (edges ps)\<^sup>*"
  then have "(g, i) \<in> ((child_of fs uid)\<inverse>)\<^sup>*" using rtrancl_mono [OF edges_up [OF assms(1)]] by blast
  then show "(i, g) \<in> (child_of fs uid)\<^sup>*" by (simp add: rtrancl_converse)
next
  assume "(i, g) \<in> (child_of fs uid)\<^sup>*"
  then show "(g, i) \<in> (edges ps)\<^sup>*"
  proof (induction rule: rtrancl_induct)
    case (step y z)
    have "y = i \<or> (\<exists>x. (x, y) \<in> child_of fs uid)" using step.hyps(1) by (blast elim: rtranclE)
    then have "y \<noteq> []" using assms(2,3) by (force simp: child_of_def)
    then have "(z, y) \<in> edges ps" using edges_child_of [OF assms(1) step.hyps(2)] by blast
    then show ?case using step.IH by (rule converse_rtrancl_into_rtrancl)
  qed simp
qed

lemma map_of_constant: "map_of (map (\<lambda>x. (g x, z)) xs) k = (if k \<in> g ` set xs then Some z else None)"
  by (induction xs) auto

text \<open>
  The unread count of a folder is the number of the user's unread chats in it and in the
  user's folders below it, each chat once, also where the parent links loop.
\<close>

theorem unread_counts_exact:
  assumes "get_folder_unread_counts fs cs uid = Inr counts" and "distinct (map fo_id fs)" and "[] \<notin> fo_id ` set fs"
    and "f \<in> set fs" and "fo_user_id f = uid"
  shows "map_of counts (fo_id f) = Some (length (filter (\<lambda>c. fh_user_id c = uid \<and> is_unread c \<and>
     (\<exists>g \<in> set fs. fo_user_id g = uid \<and> fh_folder_id c = Some (fo_id g) \<and> (fo_id f, fo_id g) \<in> (child_of fs uid)\<^sup>*)) cs))"
proof -
  let ?own = "filter (\<lambda>f. fo_user_id f = uid) fs" and ?i = "fo_id f"
  let ?ps = "parents_of ?own"
  let ?ids = "map fst ?ps"
  let ?unread = "filter (\<lambda>c. fh_user_id c = uid \<and> in_folders ?ids c \<and> is_unread c) cs"
  let ?keys = "filter (\<lambda>i. i \<noteq> []) (from_keys (map (\<lambda>c. the (fh_folder_id c)) ?unread))"
  let ?within = "\<lambda>g. (?i, g) \<in> (child_of fs uid)\<^sup>*"
  have counts: "counts = foldl (\<lambda>counts (i, n). count_upwards ?ps n (Some i) [] counts) (map (\<lambda>(i, p). (i, 0)) ?ps)
      (count_unread_by_folder_ids cs uid ?ids)"
    using assms(1) by (auto simp: get_folder_unread_counts_def get_folders_by_user_id_def traverse_folder_model
        and_then_Inr Let_def split: if_splits)
  have ids: "set ?ids = fo_id ` set ?own" by (simp add: parents_of_def image_image)
  have start: "map_of (map (\<lambda>(i, p). (i, 0)) ?ps) ?i = Some (0::nat)"
    using assms(4,5) map_of_constant [of fo_id 0 ?own ?i] by (simp add: parents_of_def comp_def)
  have i: "?i \<noteq> []" using assms(3,4) by force
  have up: "(g, ?i) \<in> (link (parent_link ?ps) ?ids)\<^sup>* \<longleftrightarrow> ?within g" for g
    unfolding link_edges by (rule reach_down_up [OF parents_of_tracks [OF assms(2)] assms(3) i])
  have "map_of counts ?i = Some (\<Sum>(g, n) \<leftarrow> count_unread_by_folder_ids cs uid ?ids. if ?within g then n else 0)"
    unfolding counts count_all_upwards start up by simp
  also have "(\<Sum>(g, n) \<leftarrow> count_unread_by_folder_ids cs uid ?ids. if ?within g then n else 0) =
      (\<Sum>g \<leftarrow> ?keys. if ?within g then length (filter (\<lambda>c. the (fh_folder_id c) = g) ?unread) else 0)"
  proof -
    have same: "filter (\<lambda>c. fh_folder_id c = Some g) ?unread = filter (\<lambda>c. the (fh_folder_id c) = g) ?unread" for g
      by (rule filter_cong) (auto simp: in_folders_def split: option.splits)
    show ?thesis unfolding count_unread_by_folder_ids_def Let_def map_map comp_def case_prod_conv same ..
  qed
  also have "\<dots> = length (filter (\<lambda>c. the (fh_folder_id c) \<in> set ?keys \<and> ?within (the (fh_folder_id c))) ?unread)"
    by (rule sum_of_groups) simp
  also have "filter (\<lambda>c. the (fh_folder_id c) \<in> set ?keys \<and> ?within (the (fh_folder_id c))) ?unread =
      filter (\<lambda>c. fh_user_id c = uid \<and> is_unread c \<and>
        (\<exists>g \<in> set fs. fo_user_id g = uid \<and> fh_folder_id c = Some (fo_id g) \<and> ?within (fo_id g))) cs"
    unfolding filter_filter
  proof (rule filter_cong)
    fix c assume c: "c \<in> set cs"
    have mem: "the (fh_folder_id c) \<in> set ?keys" if "fh_user_id c = uid" "in_folders ?ids c" "is_unread c"
    proof -
      have "the (fh_folder_id c) \<in> fo_id ` set ?own" using that(2) ids by (auto simp: in_folders_def split: option.splits)
      then have "the (fh_folder_id c) \<noteq> []" using assms(3) by auto
      then show ?thesis using c that by auto
    qed
    have own: "in_folders ?ids c \<longleftrightarrow> (\<exists>g \<in> set fs. fo_user_id g = uid \<and> fh_folder_id c = Some (fo_id g))"
      unfolding in_folders_def ids by (auto split: option.splits)
    show "((fh_user_id c = uid \<and> in_folders ?ids c \<and> is_unread c) \<and> the (fh_folder_id c) \<in> set ?keys \<and> ?within (the (fh_folder_id c)))
      \<longleftrightarrow> (fh_user_id c = uid \<and> is_unread c \<and>
        (\<exists>g \<in> set fs. fo_user_id g = uid \<and> fh_folder_id c = Some (fo_id g) \<and> ?within (fo_id g)))"
    proof (cases "fh_user_id c = uid \<and> in_folders ?ids c \<and> is_unread c")
      case True
      then show ?thesis using mem own by auto
    next
      case False
      then show ?thesis using own by auto
    qed
  qed simp
  finally show ?thesis .
qed

section \<open>Updates that break the listing\<close>

lemma nameless_row_fails:
  assumes "g \<in> set fs" and "fo_user_id g = uid" and "fo_name g = None"
  shows "get_folders_by_user_id fs uid = Inl ValidationError"
  using assms by (auto simp: get_folders_by_user_id_def traverse_folder_model folder_validates_def)

lemma null_files_fail:
  assumes "list_folders text_match now lb u gids folders ps fs = (Inr rows, fs')"
    and "g \<in> set folders" and "some_id (fo_parent g) = None"
  shows "files_of (fo_data g) \<noteq> Some JNull"
  using assms(1,2)
proof (induction folders arbitrary: ps fs rows)
  case (Cons f folders)
  obtain f1 ps1 fs1 where repair: "repair_parent now (us_id u) f ps fs = ((Some f1, ps1), fs1)"
    using Cons.prems(1) by (auto split: prod.splits option.splits)
  obtain f2 fs2 where kept: "drop_unreadable text_match now lb u gids f1 fs1 = (Inr f2, fs2)"
    using Cons.prems(1) repair by (auto split: prod.splits sum.splits)
  obtain rest where rest: "list_folders text_match now lb u gids folders ps1 fs2 = (Inr rest, fs')"
    using Cons.prems(1) repair kept by (auto split: prod.splits sum.splits)
  show ?case
  proof (cases "g = f")
    case True
    then have "f1 = g" using repair assms(3) by (simp add: repair_parent_def)
    then show ?thesis using kept
      by (auto simp: drop_unreadable_def checked_Inr split: option.splits)
  next
    case False
    then show ?thesis using Cons.IH [OF rest] Cons.prems(2) by simp
  qed
qed simp

lemma found_to_write:
  assumes "writable_folder lb fs u i = Inr f" and "distinct (map fo_id fs)"
  shows "owned_folder fs i (fo_user_id f) = Some f"
proof -
  have "f \<in> set fs \<and> fo_id f = i"
    using assms(1)
    by (auto simp: writable_folder_def get_folder_by_id_and_user_id_def get_folder_by_id_def owned_folder_def
        folder_or_none_def split: option.splits if_splits dest!: find_Some_mem)
  then show ?thesis using owned_folder_iff [OF assms(2)] by blast
qed

lemma write_folder_row:
  assumes "owned_folder fs i uid = Some f"
  shows "change f \<in> set (snd (write_folder fs i uid change))"
proof -
  have "find P xs = Some f \<Longrightarrow> change f \<in> set (modify_first P change xs)" for P xs
    by (induction xs) (auto split: if_splits)
  then show ?thesis using assms by (simp add: write_folder_def owned_folder_def)
qed

lemma no_clash: "(\<And>g. g \<in> set fs \<Longrightarrow> fo_name g \<noteq> None) \<Longrightarrow> get form ''name'' = JNull \<Longrightarrow> rename_clash fs parent uid form = None"
  by (auto simp: rename_clash_def name_value_def find_None_mem)

lemma written_row:
  assumes "writable_folder lb fs u i = Inr f" and "distinct (map fo_id fs)" and "\<And>g. g \<in> set fs \<Longrightarrow> fo_name g \<noteq> None"
    and "get form ''name'' = JNull"
    and "merge_column (fo_data f) form ''data'' = Some data" and "merge_column (fo_meta f) form ''meta'' = Some meta"
    and f'_def: "f' = f\<lparr>fo_name := if has_key form ''name'' then None else fo_name f, fo_data := data, fo_meta := meta, fo_updated_at := now\<rparr>"
  shows "f' \<in> set (snd (update_folder_by_id_and_user_id now fs i (fo_user_id f) form))"
    and "fst (update_folder_by_id_and_user_id now fs i (fo_user_id f) form) = folder_or_none (Some f')"
proof -
  have own: "owned_folder fs i (fo_user_id f) = Some f" using found_to_write [OF assms(1,2)] .
  have "update_folder_by_id_and_user_id now fs i (fo_user_id f) form =
      write_folder fs i (fo_user_id f) (\<lambda>f. f\<lparr>fo_name := if has_key form ''name'' then None else fo_name f', fo_data := data,
        fo_meta := meta, fo_updated_at := now\<rparr>)"
    using own assms(4-6) no_clash [OF assms(3,4)]
    by (auto simp: update_folder_by_id_and_user_id_def Let_def f'_def name_value_def)
  then show "f' \<in> set (snd (update_folder_by_id_and_user_id now fs i (fo_user_id f) form))"
      "fst (update_folder_by_id_and_user_id now fs i (fo_user_id f) form) = folder_or_none (Some f')"
    using write_folder_row [OF own, of "\<lambda>f. f\<lparr>fo_name := if has_key form ''name'' then None else fo_name f', fo_data := data,
        fo_meta := meta, fo_updated_at := now\<rparr>"] own
    by (auto simp: f'_def write_folder_def)
qed

text \<open>
  Whoever may write a folder can end the listing of its owner for good: setting the name to
  null answers 400 but commits, and from then on every listing of the owner's folders raises.
\<close>

theorem null_name_breaks_listing:
  assumes "check_folders_permission cfg lb u = Inr ()" and "writable_folder lb fs u i = Inr f"
    and "distinct (map fo_id fs)" and "\<And>g. g \<in> set fs \<Longrightarrow> fo_name g \<noteq> None"
    and "us_id owner = fo_user_id f" and "check_folders_permission cfg lb owner = Inr ()"
  shows "\<exists>fs'. update_folder_name_by_id text_match lower cfg now lb u i [(''name'', JNull)] fs = (Inl (HTTPException 400), fs') \<and>
     get_folders text_match cfg clock lb cs owner fs' = (Inl (Unhandled ValidationError), fs')"
proof -
  let ?form = "[(''name'', JNull)]"
  let ?run = "update_folder_by_id_and_user_id now fs i (fo_user_id f) ?form"
  have columns: "get ?form ''name'' = JNull" "merge_column (fo_data f) ?form ''data'' = Some (fo_data f)"
      "merge_column (fo_meta f) ?form ''meta'' = Some (fo_meta f)"
    by (simp_all add: get_or_def merge_column_def)
  note row = written_row [OF assms(2,3,4) columns refl, of now]
  have "fst ?run = None" using row(2) by (simp add: has_key_def folder_or_none_def folder_validates_def)
  from answer_folder_cases(1) [OF this]
  have "update_folder_name_by_id text_match lower cfg now lb u i ?form fs = (Inl (HTTPException 400), snd ?run)"
    using assms(1,2) by (simp add: update_folder_name_by_id_def checked_def check_new_name_def check_new_files_def
        files_of_def get_or_def name_value_def)
  moreover have "get_folders_by_user_id (snd ?run) (us_id owner) = Inl ValidationError"
    using row(1) by (rule nameless_row_fails) (simp_all add: has_key_def assms(5))
  ultimately show ?thesis
    using assms(6) by (intro exI [of _ "snd ?run"]) (simp add: get_folders_def checked_def or_raise_def)
qed

text \<open>
  Setting the files of a root folder to null is accepted, and every listing of the owner's
  folders then raises.
\<close>

theorem null_files_break_listing:
  assumes "check_folders_permission cfg lb u = Inr ()" and "writable_folder lb fs u i = Inr f"
    and "distinct (map fo_id fs)" and "\<And>g. g \<in> set fs \<Longrightarrow> fo_name g \<noteq> None"
    and "get_user_by_id lb (fo_user_id f) = Some owner" and "some_id (fo_parent f) = None" and "folder_validates f"
  shows "\<exists>f' fs' e fs''. update_folder_name_by_id text_match lower cfg now lb u i [(''data'', JObj [(''files'', JNull)])] fs = (Inr f', fs') \<and>
     get_folders text_match cfg clock lb cs owner fs' = (Inl e, fs'')"
proof -
  let ?form = "[(''data'', JObj [(''files'', JNull)])]"
  let ?run = "update_folder_by_id_and_user_id now fs i (fo_user_id f) ?form"
  let ?data = "JObj (dict_update (as_dict (fo_data f)) [(''files'', JNull)])"
  have owner: "us_id owner = fo_user_id f" using assms(5) by (auto simp: get_user_by_id_def dest: find_Some_mem)
  have columns: "get ?form ''name'' = JNull" "merge_column (fo_data f) ?form ''data'' = Some ?data"
      "merge_column (fo_meta f) ?form ''meta'' = Some (fo_meta f)"
    by (simp_all add: get_or_def merge_column_def)
  let ?f = "f\<lparr>fo_name := if has_key ?form ''name'' then None else fo_name f, fo_data := ?data, fo_meta := fo_meta f, fo_updated_at := now\<rparr>"
  note row = written_row [OF assms(2,3,4) columns refl, of now]
  have committed: "fst ?run = Some ?f"
    using row(2) assms(7) by (simp add: has_key_def folder_or_none_def folder_validates_def dict_or_none_def)
  have "check_new_files text_match lb u f (get ?form ''data'') = Inr ()"
    using assms(5) by (simp add: check_new_files_def files_of_def get_or_def require_readable_def
        can_read_all_folder_files_def or_raise_def added_folder_entries_def)
  then have update: "update_folder_name_by_id text_match lower cfg now lb u i ?form fs = (Inr ?f, snd ?run)"
    using assms(1,2) by (simp add: update_folder_name_by_id_def checked_def check_new_name_def
        name_value_def columns(1) answer_folder_cases(2) [OF committed])
  have files: "files_of (fo_data ?f) = Some JNull"
    by (cases "as_dict (fo_data f)") (auto simp: files_of_def)
  have "fst (get_folders text_match cfg clock lb cs owner (snd ?run)) \<noteq> Inr rows" for rows
  proof
    assume "fst (get_folders text_match cfg clock lb cs owner (snd ?run)) = Inr rows"
    then obtain fs'' where listing: "get_folders text_match cfg clock lb cs owner (snd ?run) = (Inr rows, fs'')"
      by (metis prod.collapse)
    then obtain gids ps listed where "list_folders text_match clock lb owner gids
        (filter (\<lambda>f. fo_user_id f = us_id owner) (snd ?run)) ps (snd ?run) = (Inr listed, fs'')"
      by (auto simp: get_folders_def checked_Inr get_folders_by_user_id_def traverse_folder_model Let_def
          split: if_splits prod.splits sum.splits)
    then have "files_of (fo_data ?f) \<noteq> Some JNull"
      by (rule null_files_fail) (use row(1) owner assms(6) in auto)
    then show False using files by simp
  qed
  then obtain e fs'' where "get_folders text_match cfg clock lb cs owner (snd ?run) = (Inl e, fs'')"
    by (metis prod.collapse sum.exhaust)
  then show ?thesis using update by blast
qed

section \<open>Examples\<close>

text \<open>Two folders in each other, and one in a folder that is gone.\<close>

definition looping_folders :: folder_db where
  "looping_folders = [folder_at ''F'' (Some ''G'') ''ann'', folder_at ''G'' (Some ''F'') ''ann'', folder_at ''H'' (Some ''Z'') ''ann'']"

theorem listing_repairs_tree_witness:
  "\<exists>rows fs'. get_folders (\<lambda>_ _. True) open_config (\<lambda>i. 1) shared_library [] ann looping_folders = (Inr rows, fs') \<and>
     (\<forall>f \<in> set fs'. fo_user_id f = ''ann'' \<longrightarrow> in_place fs' f)"
proof -
  have "\<not> (case fst (get_folders (\<lambda>_ _. True) open_config (\<lambda>i. 1) shared_library [] ann looping_folders) of
      Inl e \<Rightarrow> True | Inr rows \<Rightarrow> False)"
    by code_simp
  then obtain rows fs' where run: "get_folders (\<lambda>_ _. True) open_config (\<lambda>i. 1) shared_library [] ann looping_folders = (Inr rows, fs')"
    by (metis prod.collapse sum.exhaust sum.simps(5))
  have "distinct (map fo_id looping_folders)" "[] \<notin> fo_id ` set looping_folders" by (simp_all add: looping_folders_def)
  from listing_repairs_tree [OF run this] show ?thesis using run by auto
qed

theorem unread_counts_exact_witness:
  "\<exists>counts. get_folder_unread_counts looping_folders [] ''ann'' = Inr counts \<and> map_of counts ''G'' = Some 0"
proof -
  have "\<exists>counts. get_folder_unread_counts looping_folders [] ''ann'' = Inr counts"
    by (simp add: get_folder_unread_counts_def get_folders_by_user_id_def looping_folders_def Let_def folder_model_def)
  then obtain counts where run: "get_folder_unread_counts looping_folders [] ''ann'' = Inr counts" ..
  have "distinct (map fo_id looping_folders)" "[] \<notin> fo_id ` set looping_folders"
      "folder_at ''G'' (Some ''F'') ''ann'' \<in> set looping_folders" by (simp_all add: looping_folders_def)
  from unread_counts_exact [OF run this] show ?thesis using run by simp
qed

lemma bob_may_write:
  "writable_folder shared_library [folder_at ''F'' None ''ann''] bob ''F'' = Inr (folder_at ''F'' None ''ann'')"
  by code_simp

lemma example_folder_named: "g \<in> set [folder_at ''F'' None ''ann''] \<Longrightarrow> fo_name g \<noteq> None"
  by (simp add: folder_at_def)

theorem null_name_breaks_listing_witness:
  "\<exists>fs'. update_folder_name_by_id (\<lambda>_ _. True) id open_config 1 shared_library bob ''F'' [(''name'', JNull)]
       [folder_at ''F'' None ''ann''] = (Inl (HTTPException 400), fs') \<and>
     get_folders (\<lambda>_ _. True) open_config (\<lambda>i. 1) shared_library [] ann fs' = (Inl (Unhandled ValidationError), fs')"
  by (rule null_name_breaks_listing [OF open_to_users(2) bob_may_write _ example_folder_named _ open_to_users(1)]) simp_all

theorem null_files_break_listing_witness:
  "\<exists>f' fs' e fs''. update_folder_name_by_id (\<lambda>_ _. True) id open_config 1 shared_library bob ''F''
       [(''data'', JObj [(''files'', JNull)])] [folder_at ''F'' None ''ann''] = (Inr f', fs') \<and>
     get_folders (\<lambda>_ _. True) open_config (\<lambda>i. 1) shared_library [] ann fs' = (Inl e, fs'')"
  by (rule null_files_break_listing [OF open_to_users(2) bob_may_write _ example_folder_named])
    (simp_all add: get_user_by_id_def shared_library_def laundering_library_def ann_def)

end
