(* ===== verification/Recurrence.thy ===== *)
theory Recurrence
  imports PyJson
begin

text \<open>
  The recurrence rules of automations (\<open>utils/automations.py\<close>): how the text of a rule is checked
  and read, from which moment its occurrences are walked, and the runs it gives. dateutil's parser
  is an argument: it takes the text and an optional start and answers the rules it found and the
  occurrences, ascending. A naive date-time is the number of microseconds since 2000-01-01 00:00,
  an instant the number of nanoseconds since the Unix epoch. The time zones and the wall clock are
  a record of functions; zone None is the server's own.
\<close>

section \<open>What dateutil parses\<close>

datatype freq = YEARLY | MONTHLY | WEEKLY | DAILY | HOURLY | MINUTELY | SECONDLY

record rrule =
  ru_freq :: freq
  ru_interval :: int
  ru_dtstart :: int
  ru_aware :: bool
  ru_byminute :: "int list option"
  ru_bysecond :: "int list option"
  ru_count :: "int option"
  ru_runs :: "int list"

record parsed =
  pa_rules :: "rrule list"
  pa_runs :: "int list"

type_synonym rrulestr = "string \<Rightarrow> int option \<Rightarrow> py_error + parsed"

text \<open>\<open>after(now)\<close>, \<open>xafter(now, count=n)\<close> and \<open>xafter(t, inc=True)\<close>.\<close>

definition after :: "parsed \<Rightarrow> int \<Rightarrow> int option" where
  "after p now = find (\<lambda>t. now < t) (pa_runs p)"

definition xafter :: "nat \<Rightarrow> parsed \<Rightarrow> int \<Rightarrow> int list" where
  "xafter n p now = take n (filter (\<lambda>t. now < t) (pa_runs p))"

definition xafter_inc :: "parsed \<Rightarrow> int \<Rightarrow> int list" where
  "xafter_inc p t0 = filter (\<lambda>t. t0 \<le> t) (pa_runs p)"

section \<open>The text of a rule\<close>

abbreviation upper_text :: "string \<Rightarrow> string" where
  "upper_text \<equiv> map upper_char"

definition is_dtstart_line :: "string \<Rightarrow> bool" where
  "is_dtstart_line line \<longleftrightarrow> prefix ''DTSTART'' (upper_text line)"

definition without_dtstart :: "string \<Rightarrow> string" where
  "without_dtstart s =
     (let t = join_lines (filter (\<lambda>l. \<not> is_dtstart_line l) (splitlines s)) in if t = [] then s else t)"

definition has_dtstart :: "string \<Rightarrow> bool" where
  "has_dtstart s \<longleftrightarrow> list_ex is_dtstart_line (splitlines s)"

text \<open>\<open>_with_count\<close>: the length of \<open>COUNT=[+-]?\d+\<close> at the front, and the substitution.\<close>

definition count_match :: "string \<Rightarrow> nat option" where
  "count_match s =
     (if upper_text (take 6 s) = ''COUNT='' then
        let t = drop 6 s; sgn = (if take 1 t \<in> {''+'', ''-''} then 1 else 0);
            ds = length (takeWhile is_digit (drop sgn t))
        in if ds = 0 then None else Some (6 + sgn + ds)
      else None)"

fun replace_counts :: "string \<Rightarrow> string \<Rightarrow> string \<times> nat" where
  "replace_counts new [] = ([], 0)"
| "replace_counts new (c # cs) =
     (case count_match (c # cs) of
        None \<Rightarrow> (case replace_counts new cs of (t, n) \<Rightarrow> (c # t, n))
      | Some k \<Rightarrow> (case replace_counts new (drop (k - 1) cs) of (t, n) \<Rightarrow> (new @ t, n + 1)))"

definition with_count :: "string \<Rightarrow> nat \<Rightarrow> string option" where
  "with_count rule count =
     (case replace_counts (''COUNT='' @ show_nat count) rule of (t, n) \<Rightarrow> if n = 1 then Some t else None)"

text \<open>\<open>re.search(r'\bBY', s, re.IGNORECASE)\<close>.\<close>

definition is_word_char :: "char \<Rightarrow> bool" where
  "is_word_char c \<longleftrightarrow> (let n = of_char c :: int in
     48 \<le> n \<and> n \<le> 57 \<or> 65 \<le> n \<and> n \<le> 90 \<or> n = 95 \<or> 97 \<le> n \<and> n \<le> 122
     \<or> n \<in> {170, 178, 179, 181, 185, 186, 188, 189, 190} \<or> 192 \<le> n \<and> n \<noteq> 215 \<and> n \<noteq> 247)"

fun by_after :: "bool \<Rightarrow> string \<Rightarrow> bool" where
  "by_after w [] = False"
| "by_after w (c # cs) \<longleftrightarrow> (\<not> w \<and> upper_text (take 2 (c # cs)) = ''BY'') \<or> by_after (is_word_char c) cs"

definition mentions_by :: "string \<Rightarrow> bool" where
  "mentions_by = by_after False"

section \<open>Reading a rule\<close>

abbreviation microday :: int where
  "microday \<equiv> 86400000000"

definition timedelta_ok :: "int \<Rightarrow> bool" where
  "timedelta_ok x \<longleftrightarrow> - 999999999 \<le> x div microday \<and> x div microday \<le> 999999999"

definition datetime_ok :: "int \<Rightarrow> bool" where
  "datetime_ok x \<longleftrightarrow> - 730119 * microday \<le> x \<and> x < 2921940 * microday"

definition step_of :: "rrule \<Rightarrow> int option" where
  "step_of r =
     (case ru_freq r of
        SECONDLY \<Rightarrow> Some (ru_interval r * 1000000)
      | MINUTELY \<Rightarrow> Some (ru_interval r * 60000000)
      | HOURLY \<Rightarrow> Some (ru_interval r * 3600000000)
      | _ \<Rightarrow> None)"

definition times_per_step :: "int list option \<Rightarrow> int" where
  "times_per_step bys = (case bys of None \<Rightarrow> 1 | Some xs \<Rightarrow> if xs = [] then 1 else int (length xs))"

definition steps_to :: "rrule \<Rightarrow> int \<Rightarrow> int \<Rightarrow> int" where
  "steps_to r step anchor = (if anchor > ru_dtstart r then (anchor - ru_dtstart r) div step else 0)"

definition emitted :: "rrule \<Rightarrow> int \<Rightarrow> int \<Rightarrow> int" where
  "emitted r step anchor = steps_to r step anchor * times_per_step (ru_byminute r) * times_per_step (ru_bysecond r)"

text \<open>A daily or longer rule, and one whose step is in seconds, minutes or hours.\<close>

definition parse_long :: "rrulestr \<Rightarrow> string \<Rightarrow> int \<Rightarrow> parsed \<Rightarrow> rrule \<Rightarrow> py_error + parsed" where
  "parse_long rs s anchor p r =
     (if \<not> has_dtstart s then rs (without_dtstart s) (Some (anchor - anchor mod 60000000))
      else if \<not> ru_aware r then Inr p
      else rs (without_dtstart s) (Some (ru_dtstart r)))"

definition recount :: "rrulestr \<Rightarrow> string \<Rightarrow> rrule \<Rightarrow> int \<Rightarrow> int \<Rightarrow> int \<Rightarrow> py_error + parsed" where
  "recount rs t r steps moved count =
     (let left = count - steps
      in case with_count t (if left > 0 then nat left else 1) of
           None \<Rightarrow> rs t (Some (ru_dtstart r))
         | Some t' \<Rightarrow> if mentions_by t then rs t (Some (ru_dtstart r))
             else rs t' (Some (if left > 0 then moved else ru_dtstart r)))"

definition move_start :: "rrulestr \<Rightarrow> string \<Rightarrow> int \<Rightarrow> rrule \<Rightarrow> int \<Rightarrow> py_error + parsed" where
  "move_start rs t anchor r step =
     (let moved = ru_dtstart r + steps_to r step anchor * step
      in case ru_count r of
           None \<Rightarrow> rs t (Some moved)
         | Some c \<Rightarrow> if c = 0 then rs t (Some moved) else recount rs t r (steps_to r step anchor) moved c)"

definition parse_sub_daily :: "rrulestr \<Rightarrow> string \<Rightarrow> int \<Rightarrow> parsed \<Rightarrow> rrule \<Rightarrow> int \<Rightarrow> py_error + parsed" where
  "parse_sub_daily rs s anchor p r step =
     (if ru_interval r < 1 then Inl ValueError
      else if has_dtstart s then
        (if emitted r step anchor \<le> 100000
         then if ru_aware r then rs (without_dtstart s) (Some (ru_dtstart r)) else Inr p
         else move_start rs (without_dtstart s) anchor r step)
      else let d = (anchor div step) * step
           in if datetime_ok d then rs (without_dtstart s) (Some d) else Inl OverflowError)"

definition parse_one :: "rrulestr \<Rightarrow> string \<Rightarrow> int \<Rightarrow> parsed \<Rightarrow> rrule \<Rightarrow> py_error + parsed" where
  "parse_one rs s anchor p r =
     (if \<not> timedelta_ok (ru_interval r * 3600000000) then Inl OverflowError
      else case step_of r of
             None \<Rightarrow> parse_long rs s anchor p r
           | Some step \<Rightarrow> parse_sub_daily rs s anchor p r step)"

definition parse_rule :: "rrulestr \<Rightarrow> string \<Rightarrow> int \<Rightarrow> py_error + parsed" where
  "parse_rule rs s anchor =
     (if sublist ''EXRULE'' (upper_text s) then Inl ValueError
      else and_then (rs s None) (\<lambda>p. case pa_rules p of
               [] \<Rightarrow> Inl IndexError
             | [r] \<Rightarrow> parse_one rs s anchor p r
             | _ \<Rightarrow> Inl ValueError))"

text \<open>\<open>_check_dtstart\<close>: \<open>[0-9]{8}(T[0-9]{6}Z?)?\<close> for every start that is stated.\<close>

definition whole_date :: "string \<Rightarrow> bool" where
  "whole_date v \<longleftrightarrow> 8 \<le> length v \<and> list_all is_digit (take 8 v) \<and>
     (drop 8 v = [] \<or> take 1 (drop 8 v) = ''T'' \<and> 15 \<le> length v \<and> list_all is_digit (take 6 (drop 9 v))
        \<and> drop 15 v \<in> {[], ''Z''})"

definition states_bad_start :: "string \<Rightarrow> bool" where
  "states_bad_start part =
     (let head = takeWhile (\<lambda>c. c \<noteq> CHR '':'') part; rest = dropWhile (\<lambda>c. c \<noteq> CHR '':'') part
      in prefix ''DTSTART'' head \<and> take 1 (drop 7 head) \<in> {[], '';''} \<and> \<not> (rest \<noteq> [] \<and> whole_date (drop 1 rest)))"

definition check_dtstart :: "string \<Rightarrow> py_error + unit" where
  "check_dtstart s = (if list_ex states_bad_start (split_words (upper_text s)) then Inl ValueError else Inr ())"

section \<open>Clocks\<close>

record clock =
  ck_known :: "string \<Rightarrow> bool"
  ck_now :: "string option \<Rightarrow> int"
  ck_local :: "string option \<Rightarrow> int \<Rightarrow> int"
  ck_stamp :: "string option \<Rightarrow> int \<Rightarrow> int"

definition resolve_tz :: "clock \<Rightarrow> string option \<Rightarrow> string option" where
  "resolve_tz ck tz = (case tz of None \<Rightarrow> None | Some z \<Rightarrow> if z = [] \<or> \<not> ck_known ck z then None else Some z)"

definition validate_rrule :: "rrulestr \<Rightarrow> clock \<Rightarrow> string \<Rightarrow> string option \<Rightarrow> py_error + unit" where
  "validate_rrule rs ck s tz =
     (if sublist ''COUNT='' (upper_text s) \<and> \<not> sublist ''DTSTART'' (upper_text s) then Inl ValueError
      else let now = ck_now ck (resolve_tz ck tz)
           in case and_then (check_dtstart s) (\<lambda>_. parse_rule rs s now) of
                Inl e \<Rightarrow> Inl ValueError
              | Inr rule \<Rightarrow> if after rule now = None then Inl ValueError else Inr ())"

text \<open>\<open>_FREQ.search\<close>.\<close>

definition freq_word :: "string \<Rightarrow> string option" where
  "freq_word s =
     (let w = takeWhile (\<lambda>c. let n = of_char c :: nat in 65 \<le> n \<and> n \<le> 90) (drop 5 s)
      in if prefix ''FREQ='' s \<and> w \<noteq> [] then Some w else None)"

fun freq_after_sep :: "string \<Rightarrow> string option" where
  "freq_after_sep [] = None"
| "freq_after_sep (c # cs) =
     (if (is_py_space c \<or> c \<in> {CHR '':'', CHR '';''}) \<and> freq_word cs \<noteq> None then freq_word cs else freq_after_sep cs)"

definition stated_freq :: "string \<Rightarrow> string option" where
  "stated_freq s = (case freq_word s of Some w \<Rightarrow> Some w | None \<Rightarrow> freq_after_sep s)"

definition sub_daily :: "rrulestr \<Rightarrow> string \<Rightarrow> py_error + bool" where
  "sub_daily rs s =
     and_then (rs s None) (\<lambda>_. Inr (stated_freq (upper_text s) \<in> {Some ''SECONDLY'', Some ''MINUTELY'', Some ''HOURLY''}))"

section \<open>The runs\<close>

definition next_run_ns :: "rrulestr \<Rightarrow> clock \<Rightarrow> string \<Rightarrow> string option \<Rightarrow> int option \<Rightarrow> py_error + int option" where
  "next_run_ns rs ck s tz anchor_ns =
     (let zi = resolve_tz ck tz; now = ck_now ck zi
      in and_then (case anchor_ns of
                     None \<Rightarrow> Inr now
                   | Some a \<Rightarrow> and_then (sub_daily rs s) (\<lambda>b. Inr (if b then now else ck_local ck zi a)))
           (\<lambda>anchor. and_then (parse_rule rs s anchor) (\<lambda>p. Inr (map_option (ck_stamp ck zi) (after p now)))))"

definition next_n_runs_ns :: "rrulestr \<Rightarrow> clock \<Rightarrow> nat \<Rightarrow> string \<Rightarrow> string option \<Rightarrow> py_error + int list" where
  "next_n_runs_ns rs ck n s tz =
     (let zi = resolve_tz ck tz; now = ck_now ck zi
      in and_then (parse_rule rs s now) (\<lambda>p. Inr (map (ck_stamp ck zi) (xafter n p now))))"

fun collect_runs :: "(int \<Rightarrow> int) \<Rightarrow> int \<Rightarrow> int \<Rightarrow> nat \<Rightarrow> int list \<Rightarrow> int list \<Rightarrow> int list" where
  "collect_runs stamp start stop limit runs [] = runs"
| "collect_runs stamp start stop limit runs (w # ws) =
     (if stamp w \<ge> stop \<or> length runs \<ge> limit then runs
      else if stamp w \<ge> start \<and> (runs = [] \<or> stamp w > last runs)
      then collect_runs stamp start stop limit (runs @ [stamp w]) ws
      else collect_runs stamp start stop limit runs ws)"

definition runs_between_ns ::
  "rrulestr \<Rightarrow> clock \<Rightarrow> nat \<Rightarrow> string \<Rightarrow> int \<Rightarrow> int \<Rightarrow> int \<Rightarrow> string option \<Rightarrow> py_error + int list" where
  "runs_between_ns rs ck limit s anchor start stop tz =
     (if start \<ge> stop then Inr []
      else let zi = resolve_tz ck tz
           in and_then (parse_rule rs s (ck_local ck zi anchor)) (\<lambda>p.
                Inr (collect_runs (ck_stamp ck zi) start stop limit []
                       (xafter_inc p (ck_local ck zi start - 3 * 3600000000)))))"

fun gaps :: "int list \<Rightarrow> int list" where
  "gaps (a # b # xs) = (b - a) # gaps (b # xs)"
| "gaps _ = []"

text \<open>Whole seconds; the gaps of ascending occurrences are not negative.\<close>

definition rrule_interval_seconds :: "rrulestr \<Rightarrow> string \<Rightarrow> py_error + int option" where
  "rrule_interval_seconds rs s =
     and_then (rs s None) (\<lambda>p. case pa_rules p of
         [] \<Rightarrow> Inr None
       | [r] \<Rightarrow> if ru_count r = Some 1 then Inr None
                else let occurrences = take 50 (ru_runs r)
                     in if length occurrences < 2 then Inr None
                        else Inr (Some (foldl min (hd (gaps occurrences)) (gaps occurrences) div 1000000))
       | _ \<Rightarrow> Inl ValueError)"

section \<open>Where the walk of a sub-daily rule starts\<close>

text \<open>\<open>d\<close> is the last point of the grid through \<open>base\<close> up to the anchor.\<close>

definition last_on_grid :: "int \<Rightarrow> int \<Rightarrow> int \<Rightarrow> int \<Rightarrow> bool" where
  "last_on_grid base step anchor d \<longleftrightarrow> (d - base) mod step = 0 \<and> d \<le> anchor \<and> anchor < d + step"

lemma last_on_grid_steps:
  assumes "0 < step"
  shows "last_on_grid base step anchor (base + ((anchor - base) div step) * step)"
proof -
  let ?x = "anchor - base"
  have "?x = (?x div step) * step + ?x mod step" by simp
  moreover have "0 \<le> ?x mod step" "?x mod step < step" using assms by simp_all
  ultimately show ?thesis unfolding last_on_grid_def by (auto; linarith)
qed

lemma step_pos: "step_of r = Some step \<Longrightarrow> 1 \<le> ru_interval r \<Longrightarrow> 0 < step"
  by (auto simp: step_of_def split: freq.splits)

lemma emitted_pos: "0 < emitted r step anchor \<Longrightarrow> ru_dtstart r < anchor"
  by (auto simp: emitted_def steps_to_def split: if_splits)

lemma parse_rule_one:
  assumes "parse_rule rs s anchor = Inr p" and "rs s None = Inr p0" and "pa_rules p0 = [r]"
  shows "parse_one rs s anchor p0 r = Inr p"
  using assms by (auto simp: parse_rule_def split: if_splits)

lemma move_start_cases:
  assumes "move_start rs t anchor r step = Inr p" and "0 < step" and "ru_dtstart r < anchor"
  obtains t' d where "rs t' (Some d) = Inr p"
    and "last_on_grid (ru_dtstart r) step anchor d \<or> d = ru_dtstart r \<and> ru_count r \<notin> {None, Some 0}"
proof -
  let ?moved = "ru_dtstart r + steps_to r step anchor * step"
  have moved: "last_on_grid (ru_dtstart r) step anchor ?moved"
    using last_on_grid_steps [OF assms(2), of "ru_dtstart r" anchor] assms(3) by (simp add: steps_to_def)
  have "\<exists>t' d. rs t' (Some d) = Inr p \<and> (d = ?moved \<or> d = ru_dtstart r \<and> ru_count r \<notin> {None, Some 0})"
    using assms(1)
    by (auto simp: move_start_def recount_def Let_def split: option.splits if_splits)
  then show ?thesis using moved that by blast
qed

text \<open>
  A rule of seconds, minutes or hours is walked from a point of its own grid: the text as it
  was parsed when the walk is short, else the last grid point up to the moment it is read from,
  or its stated start when its count has to be kept. The grid goes through the stated start, or
  through midnight when none is stated.
\<close>

theorem sub_daily_start:
  assumes "parse_rule rs s anchor = Inr p" and "rs s None = Inr p0" and "pa_rules p0 = [r]"
    and "step_of r = Some step"
  shows "0 < step \<and>
    (p = p0 \<and> has_dtstart s \<and> emitted r step anchor \<le> 100000 \<or>
     (\<exists>t d. rs t (Some d) = Inr p \<and>
       (last_on_grid (if has_dtstart s then ru_dtstart r else 0) step anchor d \<or>
        has_dtstart s \<and> d = ru_dtstart r \<and> (emitted r step anchor \<le> 100000 \<or> ru_count r \<notin> {None, Some 0}))))"
proof -
  from parse_rule_one [OF assms(1-3)] assms(4)
  have sub: "parse_sub_daily rs s anchor p0 r step = Inr p" by (auto simp: parse_one_def split: if_splits)
  then have pos: "0 < step" using step_pos [OF assms(4)] by (auto simp: parse_sub_daily_def split: if_splits)
  show ?thesis
  proof (cases "has_dtstart s \<and> 100000 < emitted r step anchor")
    case True
    then have "move_start rs (without_dtstart s) anchor r step = Inr p" "ru_dtstart r < anchor"
      using sub emitted_pos [of r step anchor] by (auto simp: parse_sub_daily_def split: if_splits)
    from move_start_cases [OF this(1) pos this(2)] show ?thesis using True pos by metis
  next
    case False
    then show ?thesis
      using sub pos last_on_grid_steps [OF pos, of 0 anchor]
      by (auto simp: parse_sub_daily_def Let_def split: if_splits)
  qed
qed

section \<open>A moved start keeps the count\<close>

text \<open>The occurrences of a rule with one run per step.\<close>

definition grid_runs :: "int \<Rightarrow> int \<Rightarrow> nat \<Rightarrow> int list" where
  "grid_runs start step n = map (\<lambda>k. start + int k * step) [0..<n]"

text \<open>dateutil counts the text with COUNT=n off from a start: one run per step, n of them.\<close>

definition counts_off :: "rrulestr \<Rightarrow> int \<Rightarrow> string \<Rightarrow> nat \<Rightarrow> int \<Rightarrow> bool" where
  "counts_off rs step t n d \<longleftrightarrow>
     (\<exists>t' p. with_count t n = Some t' \<and> rs t' (Some d) = Inr p \<and> pa_runs p = grid_runs d step n)"

lemma grid_runs_add:
  "grid_runs start step (m + n) = grid_runs start step m @ grid_runs (start + int m * step) step n"
proof -
  have "[0..<m + n] = [0..<m] @ map (\<lambda>k. k + m) [0..<n]"
    using upt_add_eq_append [of 0 m n] by (simp add: map_add_upt add.commute)
  then show ?thesis by (simp add: grid_runs_def algebra_simps)
qed

lemma grid_runs_before:
  assumes "t \<in> set (grid_runs start step n)" and "0 < step" and "start + (int n - 1) * step \<le> now"
  shows "t \<le> now"
proof -
  from assms(1) obtain k where k: "k < n" "t = start + int k * step" by (auto simp: grid_runs_def)
  then have "int k * step \<le> (int n - 1) * step" using assms(2) by (intro mult_right_mono) auto
  then show ?thesis using assms(3) k by linarith
qed

lemma find_append_skip: "(\<And>x. x \<in> set xs \<Longrightarrow> \<not> P x) \<Longrightarrow> find P (xs @ ys) = find P ys"
  by (induction xs) auto

lemma find_none_of: "(\<And>x. x \<in> set xs \<Longrightarrow> \<not> P x) \<Longrightarrow> find P xs = None"
  by (auto simp: find_None_mem)

lemma recount_after:
  assumes "recount rs t r steps (ru_dtstart r + steps * step) c = Inr p"
    and "\<not> mentions_by t" and "1 \<le> c" and "0 < steps" and "0 < step" and "ru_dtstart r + steps * step \<le> now"
    and offs: "counts_off rs step t (nat (c - steps)) (ru_dtstart r + steps * step)" "counts_off rs step t 1 (ru_dtstart r)"
  shows "after p now = find (\<lambda>x. now < x) (grid_runs (ru_dtstart r) step (nat c))"
proof (cases "steps < c")
  case True
  let ?moved = "ru_dtstart r + steps * step"
  have runs: "pa_runs p = grid_runs ?moved step (nat (c - steps))"
    using assms(1,2) offs(1) True by (auto simp: counts_off_def recount_def)
  have "ru_dtstart r + (steps - 1) * step \<le> now" using assms(5,6) by (simp add: algebra_simps)
  then have "\<not> now < x" if "x \<in> set (grid_runs (ru_dtstart r) step (nat steps))" for x
    using grid_runs_before [OF that assms(5), of now] assms(4) by simp
  moreover have "nat c = nat steps + nat (c - steps)" using True assms(4) by simp
  ultimately show ?thesis
    using grid_runs_add [of "ru_dtstart r" step "nat steps" "nat (c - steps)"] assms(4)
    by (simp add: after_def runs find_append_skip)
next
  case False
  have runs: "pa_runs p = grid_runs (ru_dtstart r) step 1"
    using assms(1,2) offs(2) False by (auto simp: counts_off_def recount_def)
  have "(c - 1) * step \<le> steps * step" using False assms(5) by (intro mult_right_mono) auto
  then have "ru_dtstart r + (int (nat c) - 1) * step \<le> now" using assms(3,6) by simp
  then have "find (\<lambda>x. now < x) (grid_runs (ru_dtstart r) step (nat c)) = None"
    using grid_runs_before [OF _ assms(5)] by (intro find_none_of) (metis not_less)
  moreover have "find (\<lambda>x. now < x) (grid_runs (ru_dtstart r) step 1) = None"
    using assms(6) mult_pos_pos [OF assms(4,5)] by (simp add: grid_runs_def)
  ultimately show ?thesis by (simp add: after_def runs)
qed

text \<open>
  C5. Moving the start of a counted rule forward, so that it need not be walked from its stated
  start, changes none of its future runs: from the moment the rule is read on, its next run is
  the one of the rule as stated, and a count that has run out stays run out.
\<close>

theorem count_survives_move:
  assumes "parse_rule rs s anchor = Inr p" and "rs s None = Inr p0" and "pa_rules p0 = [r]"
    and "step_of r = Some step" and "has_dtstart s" and "100000 < emitted r step anchor"
    and "ru_count r = Some c" and "1 \<le> c" and "pa_runs p0 = grid_runs (ru_dtstart r) step (nat c)"
    and "\<not> mentions_by (without_dtstart s)"
    and "counts_off rs step (without_dtstart s) (nat (c - steps_to r step anchor)) (ru_dtstart r + steps_to r step anchor * step)"
    and "counts_off rs step (without_dtstart s) 1 (ru_dtstart r)"
    and "anchor \<le> now"
  shows "after p now = after p0 now"
proof -
  from parse_rule_one [OF assms(1-3)] assms(4)
  have sub: "parse_sub_daily rs s anchor p0 r step = Inr p" by (auto simp: parse_one_def split: if_splits)
  then have pos: "0 < step" using step_pos [OF assms(4)] by (auto simp: parse_sub_daily_def split: if_splits)
  let ?n = "steps_to r step anchor"
  have before: "ru_dtstart r < anchor" using emitted_pos [of r step anchor] assms(6) by simp
  have steps: "0 \<le> ?n" "ru_dtstart r + ?n * step \<le> anchor"
    using last_on_grid_steps [OF pos, of "ru_dtstart r" anchor] before pos
    by (simp_all add: steps_to_def last_on_grid_def pos_imp_zdiv_nonneg_iff)
  have "?n \<noteq> 0" using assms(6) by (auto simp: emitted_def)
  moreover have "recount rs (without_dtstart s) r ?n (ru_dtstart r + ?n * step) c = Inr p"
    using sub assms(5-8) by (simp add: parse_sub_daily_def move_start_def Let_def split: if_splits)
  ultimately have "after p now = find (\<lambda>x. now < x) (grid_runs (ru_dtstart r) step (nat c))"
    using recount_after [of rs "without_dtstart s" r ?n step c p now] assms pos steps by simp
  then show ?thesis by (simp add: after_def assms(9))
qed

section \<open>Runs between two instants\<close>

text \<open>What the loop adds to the runs it has: stamps of the range, ascending, none lost while there is room.\<close>

lemma sorted_snoc:
  fixes runs :: "int list"
  assumes "sorted_wrt (<) runs" and "runs = [] \<or> last runs < x"
  shows "sorted_wrt (<) (runs @ [x])"
  using assms by (cases runs rule: rev_cases) (auto simp: sorted_wrt_append)

lemma collect_runs_safe:
  assumes "sorted_wrt (<) runs" and "\<forall>x \<in> set runs. start \<le> x \<and> x < stop" and "length runs \<le> limit"
  shows "sorted_wrt (<) (collect_runs stamp start stop limit runs ws)
     \<and> (\<forall>x \<in> set (collect_runs stamp start stop limit runs ws). start \<le> x \<and> x < stop)
     \<and> length (collect_runs stamp start stop limit runs ws) \<le> limit"
  using assms
proof (induction ws arbitrary: runs)
  case (Cons w ws)
  consider "stamp w \<ge> stop \<or> length runs \<ge> limit"
    | "stamp w < stop" "length runs < limit" "stamp w \<ge> start \<and> (runs = [] \<or> stamp w > last runs)"
    | "stamp w < stop" "length runs < limit" "\<not> (stamp w \<ge> start \<and> (runs = [] \<or> stamp w > last runs))"
    by linarith
  then show ?case
  proof cases
    case 1
    then have "collect_runs stamp start stop limit runs (w # ws) = runs" by auto
    then show ?thesis using Cons.prems by simp
  next
    case 2
    then have out: "collect_runs stamp start stop limit runs (w # ws) = collect_runs stamp start stop limit (runs @ [stamp w]) ws"
      by auto
    have "sorted_wrt (<) (runs @ [stamp w])" using 2 by (intro sorted_snoc Cons.prems) auto
    moreover have "\<forall>x \<in> set (runs @ [stamp w]). start \<le> x \<and> x < stop" using 2 Cons.prems(2) by auto
    moreover have "length (runs @ [stamp w]) \<le> limit" using 2 by simp
    ultimately show ?thesis unfolding out by (rule Cons.IH)
  next
    case 3
    then have "collect_runs stamp start stop limit runs (w # ws) = collect_runs stamp start stop limit runs ws" by auto
    then show ?thesis using Cons.IH [OF Cons.prems] by simp
  qed
qed simp

lemma collect_runs_from: "set (collect_runs stamp start stop limit runs ws) \<subseteq> set runs \<union> stamp ` set ws"
proof (induction ws arbitrary: runs)
  case (Cons w ws)
  show ?case using Cons.IH [of "runs @ [stamp w]"] Cons.IH [of runs] by auto
qed simp

lemma collect_runs_keeps: "set runs \<subseteq> set (collect_runs stamp start stop limit runs ws)"
proof (induction ws arbitrary: runs)
  case (Cons w ws)
  show ?case using Cons.IH [of "runs @ [stamp w]"] Cons.IH [of runs] by auto
qed simp

lemma collect_runs_complete:
  assumes "sorted (map stamp ws)" and "length (collect_runs stamp start stop limit runs ws) < limit"
    and "runs = [] \<or> (\<forall>x \<in> set ws. last runs \<le> stamp x)"
    and "w \<in> set ws" and "start \<le> stamp w" and "stamp w < stop"
  shows "stamp w \<in> set (collect_runs stamp start stop limit runs ws)"
  using assms
proof (induction ws arbitrary: runs)
  case (Cons v ws)
  have vw: "stamp v \<le> stamp x" if "x \<in> set (v # ws)" for x
    using that Cons.prems(1) by auto
  have go: "stamp v < stop" "length runs < limit"
    using Cons.prems(2,6) vw [OF Cons.prems(4)] by (auto split: if_splits)
  show ?case
  proof (cases "stamp v \<ge> start \<and> (runs = [] \<or> stamp v > last runs)")
    case True
    then have out: "collect_runs stamp start stop limit runs (v # ws) = collect_runs stamp start stop limit (runs @ [stamp v]) ws"
      using go by simp
    show ?thesis
    proof (cases "w = v")
      case True
      then show ?thesis using collect_runs_keeps [of "runs @ [stamp v]"] out by fastforce
    next
      case False
      then show ?thesis using Cons.IH [of "runs @ [stamp v]"] Cons.prems vw out by auto
    qed
  next
    case False
    then have out: "collect_runs stamp start stop limit runs (v # ws) = collect_runs stamp start stop limit runs ws"
      using go by auto
    show ?thesis
    proof (cases "w = v")
      case True
      then have "runs \<noteq> []" "stamp v = last runs" using False Cons.prems(3,5) by force+
      then show ?thesis using True collect_runs_keeps [of runs] out by force
    next
      case False
      then show ?thesis using Cons.IH [of runs] Cons.prems out by auto
    qed
  qed
qed simp

text \<open>
  C36. The runs between two instants are runs of the rule in that range, ascending and without
  repetition, at most the limit; and when the limit was not reached they are all of them, provided
  that the zone's clock keeps the order of the rule's runs (no run falls in an hour the clocks
  skip and lands after a later one) and a run from the range's start on is at most three hours
  earlier on the wall clock than that start, as it is where the clocks change by up to three hours.
\<close>

theorem runs_between_exact:
  assumes "runs_between_ns rs ck limit s anchor start stop tz = Inr out"
    and "parse_rule rs s (ck_local ck (resolve_tz ck tz) anchor) = Inr p" and "start < stop"
    and "sorted (map (ck_stamp ck (resolve_tz ck tz)) (pa_runs p))"
    and "\<And>w. w \<in> set (pa_runs p) \<Longrightarrow> start \<le> ck_stamp ck (resolve_tz ck tz) w \<Longrightarrow>
      ck_local ck (resolve_tz ck tz) start - 3 * 3600000000 \<le> w"
  shows "sorted_wrt (<) out \<and> length out \<le> limit \<and>
    set out \<subseteq> {t. start \<le> t \<and> t < stop \<and> t \<in> ck_stamp ck (resolve_tz ck tz) ` set (pa_runs p)} \<and>
    (length out < limit \<longrightarrow>
       set out = {t. start \<le> t \<and> t < stop \<and> t \<in> ck_stamp ck (resolve_tz ck tz) ` set (pa_runs p)})"
proof -
  let ?stamp = "ck_stamp ck (resolve_tz ck tz)"
  let ?ws = "xafter_inc p (ck_local ck (resolve_tz ck tz) start - 3 * 3600000000)"
  have out: "out = collect_runs ?stamp start stop limit [] ?ws"
    using assms(1-3) by (simp add: runs_between_ns_def Let_def)
  have sub: "set out \<subseteq> {t. start \<le> t \<and> t < stop \<and> t \<in> ?stamp ` set (pa_runs p)}"
    using collect_runs_safe [of "[]" start stop limit ?stamp ?ws] collect_runs_from [of ?stamp start stop limit "[]" ?ws]
    by (auto simp: out xafter_inc_def)
  have "?stamp w \<in> set out" if "length out < limit" "w \<in> set (pa_runs p)" "start \<le> ?stamp w" "?stamp w < stop" for w
    using collect_runs_complete [of ?stamp ?ws start stop limit "[]" w] that assms(5) sorted_filter [OF assms(4)]
    by (simp add: out xafter_inc_def)
  then have "length out < limit \<longrightarrow> {t. start \<le> t \<and> t < stop \<and> t \<in> ?stamp ` set (pa_runs p)} \<subseteq> set out" by blast
  moreover have "sorted_wrt (<) out" "length out \<le> limit"
    using collect_runs_safe [of "[]" start stop limit ?stamp ?ws] by (simp_all add: out)
  ultimately show ?thesis using sub by blast
qed

section \<open>A rule that passes has a next run\<close>

lemma validated_rule_runs:
  assumes "validate_rrule rs ck s tz = Inr ()"
  shows "\<exists>w. next_run_ns rs ck s tz None = Inr (Some (ck_stamp ck (resolve_tz ck tz) w))
    \<and> ck_now ck (resolve_tz ck tz) < w"
proof -
  let ?now = "ck_now ck (resolve_tz ck tz)"
  from assms obtain p where p: "parse_rule rs s ?now = Inr p" "after p ?now \<noteq> None"
    by (auto simp: validate_rrule_def Let_def and_then_Inr split: if_splits sum.splits)
  then obtain w where "after p ?now = Some w" by auto
  moreover from this have "?now < w" using find_Some_mem [of "\<lambda>t. ?now < t" "pa_runs p" w] by (simp add: after_def)
  ultimately show ?thesis using p by (auto simp: next_run_ns_def Let_def)
qed

lemma next_run_after_now:
  assumes "next_run_ns rs ck s tz a = Inr (Some t)"
  shows "\<exists>w > ck_now ck (resolve_tz ck tz). t = ck_stamp ck (resolve_tz ck tz) w"
  using assms find_Some_mem by (fastforce simp: next_run_ns_def Let_def and_then_Inr after_def)

text \<open>The interval that the limits are checked against looks at the rule alone, not at dates a set adds to it.\<close>

lemma interval_ignores_other_dates:
  assumes "rs s None = Inr p" and "rs' s None = Inr (p\<lparr>pa_runs := runs\<rparr>)"
  shows "rrule_interval_seconds rs' s = rrule_interval_seconds rs s"
  by (simp add: rrule_interval_seconds_def assms)

section \<open>Witnesses\<close>

text \<open>Every minute from 2000-01-01 00:00, 100003 times, and what is parsed when the start is moved.\<close>

definition minutely_text :: string where
  "minutely_text = ''DTSTART:20000101T000000'' @ [CHR 0x0A] @ ''RRULE:FREQ=MINUTELY;COUNT=100003''"

definition minutely_rule :: "int \<Rightarrow> nat \<Rightarrow> rrule" where
  "minutely_rule start n =
     \<lparr>ru_freq = MINUTELY, ru_interval = 1, ru_dtstart = start, ru_aware = False, ru_byminute = None,
      ru_bysecond = None, ru_count = Some (int n), ru_runs = grid_runs start 60000000 n\<rparr>"

definition minutely_parsed :: "int \<Rightarrow> nat \<Rightarrow> parsed" where
  "minutely_parsed start n = \<lparr>pa_rules = [minutely_rule start n], pa_runs = grid_runs start 60000000 n\<rparr>"

definition minutely_rrulestr :: rrulestr where
  "minutely_rrulestr t d =
     Inr (minutely_parsed (case d of None \<Rightarrow> 0 | Some x \<Rightarrow> x)
            (if t = ''RRULE:FREQ=MINUTELY;COUNT=2'' then 2 else if t = ''RRULE:FREQ=MINUTELY;COUNT=1'' then 1 else 100003))"

lemma minutely_texts:
  "has_dtstart minutely_text" "\<not> sublist ''EXRULE'' (upper_text minutely_text)"
  "without_dtstart minutely_text = ''RRULE:FREQ=MINUTELY;COUNT=100003''"
  "minutely_text \<noteq> ''RRULE:FREQ=MINUTELY;COUNT=2''" "minutely_text \<noteq> ''RRULE:FREQ=MINUTELY;COUNT=1''"
  by code_simp+

lemma minutely_counts:
  "\<not> mentions_by ''RRULE:FREQ=MINUTELY;COUNT=100003''"
  "with_count ''RRULE:FREQ=MINUTELY;COUNT=100003'' 2 = Some ''RRULE:FREQ=MINUTELY;COUNT=2''"
  "with_count ''RRULE:FREQ=MINUTELY;COUNT=100003'' 1 = Some ''RRULE:FREQ=MINUTELY;COUNT=1''"
  by code_simp+

abbreviation minutely_anchor :: int where
  "minutely_anchor \<equiv> 6000060000000"

lemma minutely_rule_is:
  "minutely_rrulestr minutely_text None = Inr (minutely_parsed 0 100003)"
  "pa_rules (minutely_parsed 0 100003) = [minutely_rule 0 100003]"
  "step_of (minutely_rule 0 100003) = Some 60000000"
  "steps_to (minutely_rule 0 100003) 60000000 minutely_anchor = 100001"
  "emitted (minutely_rule 0 100003) 60000000 minutely_anchor = 100001"
  "ru_count (minutely_rule 0 100003) = Some 100003" "ru_dtstart (minutely_rule 0 100003) = 0" "ru_interval (minutely_rule 0 100003) = 1"
  "ru_freq (minutely_rule 0 100003) = MINUTELY"
  by (simp_all add: minutely_rrulestr_def minutely_texts minutely_parsed_def minutely_rule_def step_of_def emitted_def steps_to_def
      times_per_step_def)

lemma minutely_parse:
  "parse_rule minutely_rrulestr minutely_text minutely_anchor = Inr (minutely_parsed (6000060000000) 2)"
proof -
  have "move_start minutely_rrulestr ''RRULE:FREQ=MINUTELY;COUNT=100003'' minutely_anchor (minutely_rule 0 100003) 60000000
      = Inr (minutely_parsed (6000060000000) 2)"
    by (simp add: move_start_def recount_def minutely_rule_is minutely_counts) (simp add: minutely_rrulestr_def)
  then show ?thesis
    by (simp add: parse_rule_def parse_one_def parse_sub_daily_def minutely_rule_is minutely_texts timedelta_ok_def)
qed

theorem sub_daily_start_witness:
  "\<exists>t d. minutely_rrulestr t (Some d) = Inr (minutely_parsed (6000060000000) 2) \<and> d = minutely_anchor"
  using sub_daily_start [OF minutely_parse minutely_rule_is(1,2,3)]
  by (auto simp: minutely_rrulestr_def intro!: exI [of _ "''RRULE:FREQ=MINUTELY;COUNT=2''"])

theorem count_survives_move_witness:
  "after (minutely_parsed (6000060000000) 2) minutely_anchor = after (minutely_parsed 0 100003) minutely_anchor"
proof (rule count_survives_move [OF minutely_parse minutely_rule_is(1,2,3)])
  show "counts_off minutely_rrulestr 60000000 (without_dtstart minutely_text)
      (nat (100003 - steps_to (minutely_rule 0 100003) 60000000 minutely_anchor))
      (ru_dtstart (minutely_rule 0 100003) + steps_to (minutely_rule 0 100003) 60000000 minutely_anchor * 60000000)"
    by (simp add: counts_off_def minutely_texts minutely_counts minutely_rule_is) (simp add: minutely_rrulestr_def minutely_parsed_def)
  show "counts_off minutely_rrulestr 60000000 (without_dtstart minutely_text) 1 (ru_dtstart (minutely_rule 0 100003))"
    by (simp add: counts_off_def minutely_texts minutely_counts minutely_rule_is del: One_nat_def)
       (simp add: minutely_rrulestr_def minutely_parsed_def)
qed (simp_all add: minutely_texts minutely_counts minutely_rule_is, simp add: minutely_parsed_def)

text \<open>Three daily runs on a clock that counts microseconds.\<close>

definition daily_rrulestr :: rrulestr where
  "daily_rrulestr t d =
     (let runs = [microday, 2 * microday, 3 * microday]
      in Inr \<lparr>pa_rules = [\<lparr>ru_freq = DAILY, ru_interval = 1, ru_dtstart = microday, ru_aware = False, ru_byminute = None,
                            ru_bysecond = None, ru_count = Some 3, ru_runs = runs\<rparr>], pa_runs = runs\<rparr>)"

definition plain_clock :: "int \<Rightarrow> clock" where
  "plain_clock now = \<lparr>ck_known = (\<lambda>_. False), ck_now = (\<lambda>_. now), ck_local = (\<lambda>_ t. t), ck_stamp = (\<lambda>_ t. t)\<rparr>"

text \<open>A zone whose clock skips an hour of the second day.\<close>

definition skipping_clock :: clock where
  "skipping_clock =
     (let hour = 3600000000
      in \<lparr>ck_known = (\<lambda>_. False), ck_now = (\<lambda>_. 0), ck_local = (\<lambda>_ t. if t < 2 * microday + 2 * hour then t else t + hour),
          ck_stamp = (\<lambda>_ t. if t < 2 * microday + 3 * hour then t else t - hour)\<rparr>)"

theorem runs_between_exact_witness:
  "set [microday, 2 * microday, 3 * microday - 3600000000]
   = {t. microday \<le> t \<and> t < 3 * microday \<and> t \<in> {microday, 2 * microday, 3 * microday - 3600000000}}"
proof -
  let ?p = "\<lparr>pa_rules = [\<lparr>ru_freq = DAILY, ru_interval = 1, ru_dtstart = microday, ru_aware = False, ru_byminute = None,
              ru_bysecond = None, ru_count = Some 3, ru_runs = [microday, 2 * microday, 3 * microday]\<rparr>],
            pa_runs = [microday, 2 * microday, 3 * microday]\<rparr>"
  have p: "parse_rule daily_rrulestr ''DTSTART:20000102'' (ck_local skipping_clock (resolve_tz skipping_clock None) 0) = Inr ?p"
    by code_simp
  have r: "runs_between_ns daily_rrulestr skipping_clock 5 ''DTSTART:20000102'' 0 microday (3 * microday) None
      = Inr [microday, 2 * microday, 3 * microday - 3600000000]"
    by code_simp
  show ?thesis using runs_between_exact [OF r p]
    by (auto simp: skipping_clock_def Let_def split: if_splits)
qed

end
