(* ===== verification/AutomationTable.thy ===== *)
theory AutomationTable
  imports Recurrence FolderChats
begin

text \<open>
  The automation table and the table of automation runs (\<open>models/automations.py\<close>), with the
  scheduler's poll that claims the due automations (\<open>utils/automations.py\<close>). A claim is one
  transaction. A commit raises when a time does not fit the 64 bits of its column. The drawn ids,
  the clock, SQL's case-insensitive match and the parser of recurrence rules are arguments; rows
  that a query does not order come in the order of the table.
\<close>

section \<open>Rows\<close>

record automation =
  au_id :: string
  au_user_id :: string
  au_folder_id :: "string option"
  au_name :: string
  au_data :: dict
  au_meta :: json
  au_is_active :: bool
  au_last_run_at :: "int option"
  au_next_run_at :: "int option"
  au_created_at :: int
  au_updated_at :: int

record automation_run =
  ar_id :: string
  ar_automation_id :: string
  ar_chat_id :: "string option"
  ar_status :: string
  ar_error :: "string option"
  ar_created_at :: int

type_synonym automation_db = "automation list"

type_synonym run_db = "automation_run list"

definition big_integer :: "int \<Rightarrow> bool" where
  "big_integer n \<longleftrightarrow> - (2 ^ 63) \<le> n \<and> n < 2 ^ 63"

definition next_run_fits :: "automation \<Rightarrow> bool" where
  "next_run_fits a \<longleftrightarrow> (case au_next_run_at a of None \<Rightarrow> True | Some t \<Rightarrow> big_integer t)"

section \<open>Forms\<close>

record automation_target =
  tg_type :: string
  tg_channel_id :: "string option"

record automation_form =
  af_name :: string
  af_folder_id :: "string option"
  af_prompt :: string
  af_model_id :: string
  af_rrule :: string
  af_terminal :: "(string \<times> string option) option"
  af_target :: "automation_target option"
  af_meta :: json
  af_is_active :: "bool option"

definition opt_str :: "string option \<Rightarrow> json" where
  "opt_str v = (case v of None \<Rightarrow> JNull | Some s \<Rightarrow> JStr s)"

text \<open>\<open>form.data.model_dump()\<close>.\<close>

definition form_data :: "automation_form \<Rightarrow> dict" where
  "form_data f =
     [(''prompt'', JStr (af_prompt f)), (''model_id'', JStr (af_model_id f)), (''rrule'', JStr (af_rrule f)),
      (''terminal'', case af_terminal f of None \<Rightarrow> JNull
         | Some (server, cwd) \<Rightarrow> JObj [(''server_id'', JStr server), (''cwd'', opt_str cwd)]),
      (''target'', case af_target f of None \<Rightarrow> JNull
         | Some t \<Rightarrow> JObj [(''type'', JStr (tg_type t)), (''channel_id'', opt_str (tg_channel_id t))])]"

section \<open>Operations on automations\<close>

text \<open>\<open>is_active\<close> None is left out of the insert, so the column's default applies.\<close>

definition insert_automation ::
  "string \<Rightarrow> int \<Rightarrow> string \<Rightarrow> automation_form \<Rightarrow> int option \<Rightarrow> automation_db \<Rightarrow> (py_error + automation) \<times> automation_db" where
  "insert_automation new_id now uid f next_run db =
     (let a = \<lparr>au_id = new_id, au_user_id = uid, au_folder_id = af_folder_id f, au_name = af_name f,
               au_data = form_data f, au_meta = af_meta f,
               au_is_active = (case af_is_active f of None \<Rightarrow> True | Some b \<Rightarrow> b), au_last_run_at = None,
               au_next_run_at = next_run, au_created_at = now, au_updated_at = now\<rparr>
      in if new_id \<in> au_id ` set db then (Inl IntegrityError, db)
         else if \<not> next_run_fits a then (Inl OverflowError, db)
         else (Inr a, db @ [a]))"

definition count_by_user :: "automation_db \<Rightarrow> string \<Rightarrow> nat" where
  "count_by_user db uid = length (filter (\<lambda>a. au_user_id a = uid) db)"

definition get_automation :: "automation_db \<Rightarrow> string \<Rightarrow> automation option" where
  "get_automation db i = find (\<lambda>a. au_id a = i) db"

definition newest_automations :: "automation_db \<Rightarrow> automation list" where
  "newest_automations = sort_key (\<lambda>a. - au_created_at a)"

definition get_active_by_user :: "automation_db \<Rightarrow> string \<Rightarrow> automation list" where
  "get_active_by_user db uid = newest_automations (filter (\<lambda>a. au_user_id a = uid \<and> au_is_active a) db)"

text \<open>\<open>ilike\<close> is the match of a column with \<open>%query%\<close>, \<open>variants\<close> the spellings of the query in stored JSON.\<close>

definition search_automations ::
  "(string \<Rightarrow> string \<Rightarrow> bool) \<Rightarrow> (dict \<Rightarrow> string) \<Rightarrow> (string \<Rightarrow> string list) \<Rightarrow> automation_db \<Rightarrow> string \<Rightarrow>
     string option \<Rightarrow> string option \<Rightarrow> string option \<Rightarrow> nat \<Rightarrow> nat \<Rightarrow> automation list \<times> nat" where
  "search_automations ilike data_text variants db uid query status folder skip limit =
     (let found = (\<lambda>a. au_user_id a = uid
            \<and> (case some_id folder of None \<Rightarrow> True | Some i \<Rightarrow> au_folder_id a = Some i)
            \<and> (case some_id query of None \<Rightarrow> True
               | Some q \<Rightarrow> ilike (au_name a) q \<or> list_ex (ilike (data_text (au_data a))) (variants q))
            \<and> (status = Some ''active'' \<longrightarrow> au_is_active a) \<and> (status = Some ''paused'' \<longrightarrow> \<not> au_is_active a));
          hits = newest_automations (filter found db);
          page = drop skip hits
      in (if limit = 0 then page else take limit page, length hits))"

definition put_automation :: "automation \<Rightarrow> automation_db \<Rightarrow> automation_db" where
  "put_automation a db = map (\<lambda>b. if au_id b = au_id a then a else b) db"

text \<open>Commit one changed row.\<close>

definition commit_automation :: "automation \<Rightarrow> automation_db \<Rightarrow> (py_error + automation option) \<times> automation_db" where
  "commit_automation a db = (if next_run_fits a then (Inr (Some a), put_automation a db) else (Inl OverflowError, db))"

definition update_automation ::
  "int \<Rightarrow> string \<Rightarrow> automation_form \<Rightarrow> int option \<Rightarrow> automation_db \<Rightarrow> (py_error + automation option) \<times> automation_db" where
  "update_automation now i f next_run db =
     (case get_automation db i of
        None \<Rightarrow> (Inr None, db)
      | Some a \<Rightarrow> commit_automation
          (a\<lparr>au_name := af_name f, au_folder_id := af_folder_id f, au_data := form_data f, au_meta := af_meta f,
             au_is_active := (case af_is_active f of None \<Rightarrow> au_is_active a | Some b \<Rightarrow> b),
             au_next_run_at := next_run, au_updated_at := now\<rparr>) db)"

definition clear_automation_folders :: "int \<Rightarrow> string \<Rightarrow> string list \<Rightarrow> automation_db \<Rightarrow> nat \<times> automation_db" where
  "clear_automation_folders now uid ids db =
     (let hit = (\<lambda>a. au_user_id a = uid \<and> (case au_folder_id a of None \<Rightarrow> False | Some i \<Rightarrow> i \<in> set ids))
      in if ids = [] then (0, db)
         else (length (filter hit db), map (\<lambda>a. if hit a then a\<lparr>au_folder_id := None, au_updated_at := now\<rparr> else a) db))"

definition toggle_automation ::
  "int \<Rightarrow> string \<Rightarrow> int option \<Rightarrow> automation_db \<Rightarrow> (py_error + automation option) \<times> automation_db" where
  "toggle_automation now i next_run db =
     (case get_automation db i of
        None \<Rightarrow> (Inr None, db)
      | Some a \<Rightarrow>
          let active = (\<not> au_is_active a \<and> next_run \<noteq> None)
          in commit_automation (a\<lparr>au_is_active := active, au_next_run_at := (if active then next_run else None),
                                  au_updated_at := now\<rparr>) db)"

definition delete_automation :: "string \<Rightarrow> automation_db \<Rightarrow> bool \<times> automation_db" where
  "delete_automation i db =
     (if get_automation db i = None then (False, db) else (True, filter (\<lambda>a. au_id a \<noteq> i) db))"

section \<open>Claiming\<close>

definition automation_due :: "int \<Rightarrow> automation \<Rightarrow> bool" where
  "automation_due now a \<longleftrightarrow> au_is_active a \<and> (case au_next_run_at a of None \<Rightarrow> False | Some t \<Rightarrow> t \<le> now)"

definition due_time :: "automation \<Rightarrow> int" where
  "due_time a = (case au_next_run_at a of None \<Rightarrow> 0 | Some t \<Rightarrow> t)"

definition due_batch :: "int \<Rightarrow> nat \<Rightarrow> automation_db \<Rightarrow> automation list" where
  "due_batch now limit db = take limit (sort_key due_time (filter (automation_due now) db))"

text \<open>The rule as stored; reading one that is no string raises.\<close>

definition stored_next_run ::
  "rrulestr \<Rightarrow> clock \<Rightarrow> json \<Rightarrow> string option \<Rightarrow> int option \<Rightarrow> py_error + int option" where
  "stored_next_run rs ck rule tz anchor =
     (case rule of JStr s \<Rightarrow> next_run_ns rs ck s tz anchor | _ \<Rightarrow> Inl AttributeError)"

text \<open>\<open>zones\<close> are the rows (id, timezone) of the user table.\<close>

definition reschedule ::
  "rrulestr \<Rightarrow> clock \<Rightarrow> (string \<times> string option) list \<Rightarrow> int \<Rightarrow> automation \<Rightarrow> py_error + automation" where
  "reschedule rs ck zones now a =
     and_then (stored_next_run rs ck (get_or (au_data a) ''rrule'' (JStr []))
                 (case map_of zones (au_user_id a) of None \<Rightarrow> None | Some tz \<Rightarrow> tz) (Some (due_time a)))
       (\<lambda>n. Inr (a\<lparr>au_last_run_at := Some now, au_next_run_at := n, au_is_active := (n \<noteq> None \<and> au_is_active a)\<rparr>))"

definition write_back :: "automation list \<Rightarrow> automation_db \<Rightarrow> automation_db" where
  "write_back rows db = map (\<lambda>a. case find (\<lambda>r. au_id r = au_id a) rows of None \<Rightarrow> a | Some r \<Rightarrow> r) db"

definition claim_due ::
  "rrulestr \<Rightarrow> clock \<Rightarrow> (string \<times> string option) list \<Rightarrow> int \<Rightarrow> nat \<Rightarrow> automation_db \<Rightarrow>
     (py_error + automation list) \<times> automation_db" where
  "claim_due rs ck zones now limit db =
     (case traverse (reschedule rs ck zones now) (due_batch now limit db) of
        Inl e \<Rightarrow> (Inl e, db)
      | Inr rows \<Rightarrow> if list_all next_run_fits rows then (Inr rows, write_back rows db) else (Inl OverflowError, db))"

text \<open>
  The automation part of one round of \<open>scheduler_worker_loop\<close>: what it starts, ten at most. An
  error is logged and starts nothing.
\<close>

definition scheduler_poll ::
  "rrulestr \<Rightarrow> clock \<Rightarrow> (string \<times> string option) list \<Rightarrow> json \<Rightarrow> int \<Rightarrow> automation_db \<Rightarrow> automation list \<times> automation_db" where
  "scheduler_poll rs ck zones enabled now db =
     (if truthy enabled then
        (case claim_due rs ck zones now 10 db of (Inl e, db') \<Rightarrow> ([], db') | (Inr batch, db') \<Rightarrow> (batch, db'))
      else ([], db))"

section \<open>Operations on runs\<close>

definition insert_run ::
  "string \<Rightarrow> int \<Rightarrow> string \<Rightarrow> string \<Rightarrow> string option \<Rightarrow> string option \<Rightarrow> run_db \<Rightarrow> automation_run \<times> run_db" where
  "insert_run new_id now aid status chat err db =
     (let r = \<lparr>ar_id = new_id, ar_automation_id = aid, ar_chat_id = chat, ar_status = status, ar_error = err,
               ar_created_at = now\<rparr>
      in (r, db @ [r]))"

definition runs_newest_first :: "run_db \<Rightarrow> string \<Rightarrow> automation_run list" where
  "runs_newest_first db aid = sort_key (\<lambda>r. - ar_created_at r) (filter (\<lambda>r. ar_automation_id r = aid) db)"

definition get_latest :: "run_db \<Rightarrow> string \<Rightarrow> automation_run option" where
  "get_latest db aid = (case runs_newest_first db aid of [] \<Rightarrow> None | r # _ \<Rightarrow> Some r)"

text \<open>The rows of the join; of two latest runs of one automation the dict keeps the last.\<close>

definition get_latest_batch :: "run_db \<Rightarrow> string list \<Rightarrow> (string \<times> automation_run) list" where
  "get_latest_batch db ids =
     (if ids = [] then []
      else foldl (\<lambda>d r. AList.update (ar_automation_id r) r d) []
        (filter (\<lambda>r. ar_automation_id r \<in> set ids \<and>
           list_all (\<lambda>q. ar_automation_id q = ar_automation_id r \<longrightarrow> ar_created_at q \<le> ar_created_at r) db) db))"

definition get_by_automation :: "run_db \<Rightarrow> string \<Rightarrow> nat \<Rightarrow> nat \<Rightarrow> automation_run list" where
  "get_by_automation db aid skip limit = take limit (drop skip (runs_newest_first db aid))"

definition delete_by_automation :: "string \<Rightarrow> run_db \<Rightarrow> nat \<times> run_db" where
  "delete_by_automation aid db =
     (length (filter (\<lambda>r. ar_automation_id r = aid) db), filter (\<lambda>r. ar_automation_id r \<noteq> aid) db)"

definition get_runs_by_user_range ::
  "run_db \<Rightarrow> automation_db \<Rightarrow> string \<Rightarrow> int \<Rightarrow> int \<Rightarrow> nat \<Rightarrow> (automation_run \<times> automation) list" where
  "get_runs_by_user_range runs db uid start stop limit =
     take limit (sort_key (\<lambda>(r, a). - ar_created_at r)
       (concat (map (\<lambda>r. map (\<lambda>a. (r, a)) (filter (\<lambda>a. au_id a = ar_automation_id r \<and> au_user_id a = uid
            \<and> start \<le> ar_created_at r \<and> ar_created_at r < stop) db)) runs)))"

section \<open>Rows and their ids\<close>

named_theorems row_simps "what an operation leaves of a row's id, owner and data"

lemma get_automation_Some: "get_automation db i = Some a \<Longrightarrow> a \<in> set db \<and> au_id a = i"
  by (auto simp: get_automation_def dest: find_Some_mem)

lemma put_automation_ids [row_simps]: "map au_id (put_automation a db) = map au_id db"
  by (induction db) (simp_all add: put_automation_def)

lemma write_back_ids [row_simps]: "map au_id (write_back rows db) = map au_id db"
proof -
  have "au_id (case find (\<lambda>r. au_id r = au_id a) rows of None \<Rightarrow> a | Some r \<Rightarrow> r) = au_id a" for a
    by (auto split: option.splits dest: find_Some_mem)
  then show ?thesis by (simp add: write_back_def)
qed

lemma reschedule_Inr:
  "reschedule rs ck zones now a = Inr r \<longleftrightarrow>
     (\<exists>n. stored_next_run rs ck (get_or (au_data a) ''rrule'' (JStr []))
            (case map_of zones (au_user_id a) of None \<Rightarrow> None | Some tz \<Rightarrow> tz) (Some (due_time a)) = Inr n
       \<and> r = a\<lparr>au_last_run_at := Some now, au_next_run_at := n, au_is_active := (n \<noteq> None \<and> au_is_active a)\<rparr>)"
  by (auto simp: reschedule_def and_then_Inr)

lemma reschedule_keeps:
  assumes "reschedule rs ck zones now a = Inr r"
  shows "au_id r = au_id a" "au_user_id r = au_user_id a" "au_data r = au_data a" "au_last_run_at r = Some now"
  using assms by (auto simp: reschedule_Inr)

lemma rescheduled_ids:
  "list_all2 (\<lambda>a r. reschedule rs ck zones now a = Inr r) as rows \<Longrightarrow> map au_id rows = map au_id as"
  by (induction rule: list_all2_induct) (auto dest: reschedule_keeps(1))

lemma due_batch_mem: "a \<in> set (due_batch now limit db) \<Longrightarrow> a \<in> set db \<and> automation_due now a"
  by (auto simp: due_batch_def dest: in_set_takeD)

lemma distinct_batch: "distinct (map au_id db) \<Longrightarrow> distinct (map au_id (due_batch now limit db))"
proof -
  assume "distinct (map au_id db)"
  then have "distinct (map au_id (sort_key due_time (filter (automation_due now) db)))"
    by (simp add: distinct_map distinct_filter inj_on_def)
  then show ?thesis by (simp add: due_batch_def take_map [symmetric])
qed

text \<open>A row after a claim: its rescheduled version when it was in the batch, itself otherwise.\<close>

lemma claim_due_Inr:
  assumes "claim_due rs ck zones now limit db = (Inr rows, db')" and "distinct (map au_id db)"
  shows "list_all2 (\<lambda>a r. reschedule rs ck zones now a = Inr r) (due_batch now limit db) rows"
    and "list_all next_run_fits rows" and "db' = write_back rows db"
    and "map au_id rows = map au_id (due_batch now limit db)"
  using assms traverse_Inr rescheduled_ids [OF traverse_Inr] by (auto simp: claim_due_def split: sum.splits if_splits)

lemma write_back_other:
  assumes "au_id a \<notin> au_id ` set rows"
  shows "(case find (\<lambda>r. au_id r = au_id a) rows of None \<Rightarrow> a | Some r \<Rightarrow> r) = a"
proof -
  have "find (\<lambda>r. au_id r = au_id a) rows = None" using assms by (auto simp: find_None_mem image_iff)
  then show ?thesis by simp
qed

lemma list_all2_partner: "list_all2 P xs ys \<Longrightarrow> x \<in> set xs \<Longrightarrow> \<exists>y \<in> set ys. P x y"
  by (induction rule: list_all2_induct) auto

lemma list_all2_partner': "list_all2 P xs ys \<Longrightarrow> y \<in> set ys \<Longrightarrow> \<exists>x \<in> set xs. P x y"
  by (induction rule: list_all2_induct) auto

lemma write_back_claimed:
  assumes "list_all2 (\<lambda>a r. reschedule rs ck zones now a = Inr r) batch rows"
    and "distinct (map au_id batch)" and "a \<in> set batch"
  obtains r where "r \<in> set rows" and "reschedule rs ck zones now a = Inr r"
    and "(case find (\<lambda>r. au_id r = au_id a) rows of None \<Rightarrow> a | Some r \<Rightarrow> r) = r"
proof -
  from assms(1,3) obtain r where r: "r \<in> set rows" "reschedule rs ck zones now a = Inr r"
    by (blast dest: list_all2_partner)
  have "distinct (map au_id rows)" using assms(2) rescheduled_ids [OF assms(1)] by simp
  then have "find (\<lambda>q. au_id q = au_id a) rows = Some r"
    using find_unique [of au_id rows r] r reschedule_keeps(1) [OF r(2)] by simp
  then show ?thesis using that r by simp
qed

end
