(* ===== verification/AutomationClaims.thy ===== *)
theory AutomationClaims
  imports AutomationTable
begin

text \<open>
  What the claims of the scheduler promise: a claim takes the earliest due automations and moves
  each to its next run, a backlog is worked off in the order of the due times, and one automation
  that cannot be moved on keeps the whole batch from starting.
\<close>

section \<open>Order of a batch\<close>

lemma sorted_split_at:
  fixes f :: "'a \<Rightarrow> int"
  assumes "sorted (map f xs)"
  shows "xs = filter (\<lambda>x. f x \<le> k) xs @ filter (\<lambda>x. \<not> f x \<le> k) xs"
  using assms
proof (induction xs)
  case (Cons x xs)
  show ?case
  proof (cases "f x \<le> k")
    case True
    then show ?thesis using Cons by simp
  next
    case False
    then have "filter (\<lambda>y. f y \<le> k) xs = []" using Cons.prems by (force simp: filter_empty_conv)
    then show ?thesis using False Cons by simp
  qed
qed simp

lemma automation_due_iff: "automation_due now a \<longleftrightarrow> au_is_active a \<and> au_next_run_at a \<noteq> None \<and> due_time a \<le> now"
  by (auto simp: automation_due_def due_time_def split: option.splits)

lemma automation_due_mono: "automation_due now0 a \<Longrightarrow> now0 \<le> now \<Longrightarrow> automation_due now a"
  by (auto simp: automation_due_iff)

text \<open>The batch takes what was due at an earlier moment first.\<close>

lemma batch_takes_oldest:
  assumes "now0 \<le> now"
  obtains F G where "sort_key due_time (filter (automation_due now) db) = F @ G"
    and "set F = {a \<in> set db. automation_due now0 a}" and "distinct (map au_id db) \<Longrightarrow> distinct F"
    and "due_batch now limit db = take limit F @ take (limit - length F) G"
proof -
  let ?S = "sort_key due_time (filter (automation_due now) db)"
  let ?F = "filter (\<lambda>a. due_time a \<le> now0) ?S" and ?G = "filter (\<lambda>a. \<not> due_time a \<le> now0) ?S"
  have S: "?S = ?F @ ?G" by (rule sorted_split_at) simp
  have "set ?F = {a \<in> set db. automation_due now0 a}" using assms by (auto simp: automation_due_iff)
  moreover have "distinct ?F" if "distinct (map au_id db)" using that by (simp add: distinct_map)
  moreover have "due_batch now limit db = take limit ?F @ take (limit - length ?F) ?G"
    unfolding due_batch_def by (subst S) simp
  ultimately show ?thesis using S that by blast
qed

section \<open>One claim\<close>

lemma in_write_back:
  assumes "claim_due rs ck zones now limit db = (Inr rows, db')" and "distinct (map au_id db)"
  shows "a \<in> set db \<Longrightarrow> a \<notin> set (due_batch now limit db) \<Longrightarrow> a \<in> set db'"
    and "r \<in> set db' \<Longrightarrow> r \<in> set rows \<or> r \<in> set db \<and> r \<notin> set (due_batch now limit db)"
    and "r \<in> set rows \<Longrightarrow> r \<in> set db'"
proof -
  note c = claim_due_Inr [OF assms]
  let ?g = "\<lambda>a. case find (\<lambda>r. au_id r = au_id a) rows of None \<Rightarrow> a | Some r \<Rightarrow> r"
  have ids: "au_id ` set rows = au_id ` set (due_batch now limit db)" using c(4) by (metis list.set_map)
  have other: "?g a = a" if "a \<in> set db" "a \<notin> set (due_batch now limit db)" for a
  proof (rule write_back_other)
    show "au_id a \<notin> au_id ` set rows"
      using that assms(2) due_batch_mem [of _ now limit db] unfolding ids by (auto simp: distinct_map inj_on_def)
  qed
  show "a \<in> set db'" if "a \<in> set db" "a \<notin> set (due_batch now limit db)"
    using other [OF that] that(1) by (force simp: c(3) write_back_def)
  show "r \<in> set rows \<or> r \<in> set db \<and> r \<notin> set (due_batch now limit db)" if "r \<in> set db'"
  proof -
    from that obtain a where a: "a \<in> set db" "r = ?g a" by (auto simp: c(3) write_back_def)
    show ?thesis
    proof (cases "a \<in> set (due_batch now limit db)")
      case True
      from write_back_claimed [OF c(1) distinct_batch [OF assms(2)] True] a(2) show ?thesis by metis
    next
      case False
      then show ?thesis using other a by simp
    qed
  qed
  show "r \<in> set db'" if r: "r \<in> set rows"
  proof -
    from r ids obtain a where a: "a \<in> set (due_batch now limit db)" "au_id a = au_id r" by (metis imageE image_eqI)
    have "distinct (map au_id rows)" using c(4) distinct_batch [OF assms(2)] by simp
    then have "?g a = r" using find_unique [of au_id rows r] r a(2) by simp
    then show ?thesis using a(1) due_batch_mem [of a now limit db] by (force simp: c(3) write_back_def)
  qed
qed

lemma claimed_row:
  assumes "claim_due rs ck zones now limit db = (Inr rows, db')" and "distinct (map au_id db)" and "r \<in> set rows"
  obtains a where "a \<in> set (due_batch now limit db)" and "reschedule rs ck zones now a = Inr r"
  using list_all2_partner' [OF claim_due_Inr(1) [OF assms(1,2)] assms(3)] by blast

lemma left_out_of_batch:
  assumes "a \<in> set db" and "automation_due now a" and "a \<notin> set (due_batch now limit db)"
  shows "length (due_batch now limit db) = limit" and "b \<in> set (due_batch now limit db) \<Longrightarrow> due_time b \<le> due_time a"
proof -
  let ?S = "sort_key due_time (filter (automation_due now) db)"
  have "a \<in> set ?S" using assms by simp
  moreover have S: "?S = due_batch now limit db @ drop limit ?S" by (simp add: due_batch_def)
  ultimately have rest: "a \<in> set (drop limit ?S)" using assms(3) by (metis Un_iff set_append)
  then show "length (due_batch now limit db) = limit" by (cases "limit \<le> length ?S") (simp_all add: due_batch_def)
  show "due_time b \<le> due_time a" if "b \<in> set (due_batch now limit db)"
  proof -
    have "sorted (map due_time (due_batch now limit db @ drop limit ?S))" by (subst S [symmetric]) simp
    then show ?thesis using that rest by (auto simp: sorted_append)
  qed
qed

text \<open>
  C6. A claim that succeeds takes exactly the earliest due automations up to its limit and leaves
  every other row as it was; each claimed row records the moment as its last run, and what stays
  due, when anything does, is no earlier than what was taken.
\<close>

theorem claims_exact:
  assumes "claim_due rs ck zones now limit db = (Inr rows, db')" and "distinct (map au_id db)"
  shows "map au_id db' = map au_id db \<and> length rows \<le> limit \<and>
    (\<forall>r. r \<in> set rows \<longleftrightarrow> r \<in> set db' \<and> au_id r \<in> au_id ` set (due_batch now limit db)) \<and>
    (\<forall>r \<in> set rows. au_last_run_at r = Some now \<and> (au_is_active r \<longleftrightarrow> au_next_run_at r \<noteq> None)) \<and>
    (\<forall>a \<in> set db. automation_due now a \<and> au_id a \<notin> au_id ` set rows \<longrightarrow> a \<in> set db' \<and> length rows = limit
       \<and> (\<forall>b \<in> set (due_batch now limit db). due_time b \<le> due_time a)) \<and>
    (\<forall>a \<in> set db. \<not> automation_due now a \<longrightarrow> a \<in> set db')"
proof (intro conjI ballI allI impI)
  note c = claim_due_Inr [OF assms] and w = in_write_back [OF assms]
  have ids: "au_id ` set rows = au_id ` set (due_batch now limit db)" using c(4) by (metis list.set_map)
  have batch: "a \<in> set (due_batch now limit db)" if "a \<in> set db" "au_id a \<in> au_id ` set (due_batch now limit db)" for a
    using that assms(2) due_batch_mem [of _ now limit db] by (auto simp: distinct_map inj_on_def)
  have len: "length rows = length (due_batch now limit db)" using c(4) by (metis length_map)
  show "map au_id db' = map au_id db" by (simp add: c(3) row_simps)
  show "length rows \<le> limit" by (simp add: len due_batch_def)
  show "r \<in> set rows \<longleftrightarrow> r \<in> set db' \<and> au_id r \<in> au_id ` set (due_batch now limit db)" for r
    using w(2,3) [of r] ids batch [of r] by blast
  fix r assume "r \<in> set rows"
  from claimed_row [OF assms this] obtain a where a: "a \<in> set (due_batch now limit db)" "reschedule rs ck zones now a = Inr r" .
  then show "au_last_run_at r = Some now" "au_is_active r \<longleftrightarrow> au_next_run_at r \<noteq> None"
    using due_batch_mem [OF a(1)] by (auto simp: reschedule_Inr automation_due_iff)
next
  note c = claim_due_Inr [OF assms] and w = in_write_back [OF assms]
  fix a assume a: "a \<in> set db"
  show "a \<in> set db'" if "\<not> automation_due now a" using w(1) [OF a] that due_batch_mem [of a] by blast
  assume due: "automation_due now a \<and> au_id a \<notin> au_id ` set rows"
  then have out: "a \<notin> set (due_batch now limit db)" using c(4) by (metis image_eqI list.set_map)
  show "a \<in> set db'" using w(1) [OF a out] .
  show "length rows = limit" using left_out_of_batch(1) [OF a _ out] due c(4) by (metis length_map)
  show "due_time b \<le> due_time a" if "b \<in> set (due_batch now limit db)" for b
    using left_out_of_batch(2) [OF a _ out that] due by blast
qed

section \<open>A backlog is worked off\<close>

text \<open>The scheduler's polls at successive moments, each with its parser, clock and time.\<close>

fun scheduler_rounds ::
  "(string \<times> string option) list \<Rightarrow> json \<Rightarrow> (rrulestr \<times> clock \<times> int) list \<Rightarrow> automation_db \<Rightarrow>
     automation list list \<times> automation_db" where
  "scheduler_rounds zones enabled [] db = ([], db)"
| "scheduler_rounds zones enabled ((rs, ck, now) # ms) db =
     (case scheduler_poll rs ck zones enabled now db of
        (batch, db') \<Rightarrow> (case scheduler_rounds zones enabled ms db' of (bs, db'') \<Rightarrow> (batch # bs, db'')))"

text \<open>Whatever its due time, the automation can be moved on: to no further run, or to a later one.\<close>

definition moves_on :: "(string \<times> string option) list \<Rightarrow> rrulestr \<times> clock \<times> int \<Rightarrow> automation \<Rightarrow> bool" where
  "moves_on zones m a \<longleftrightarrow> (case m of (rs, ck, now) \<Rightarrow>
     \<forall>due last active. \<exists>r. reschedule rs ck zones now
        (a\<lparr>au_next_run_at := due, au_last_run_at := last, au_is_active := active\<rparr>) = Inr r \<and> next_run_fits r \<and> \<not> automation_due now r)"

lemma moves_on_row: "moves_on zones (rs, ck, now) a \<Longrightarrow> \<exists>r. reschedule rs ck zones now a = Inr r \<and> next_run_fits r \<and> \<not> automation_due now r"
  unfolding moves_on_def
  by (drule case_prodD, drule case_prodD, drule spec [of _ "au_next_run_at a"], drule spec [of _ "au_last_run_at a"],
      drule spec [of _ "au_is_active a"]) simp

lemma moves_on_kept: "reschedule rs ck zones now a = Inr r \<Longrightarrow> moves_on zones m r \<longleftrightarrow> moves_on zones m a"
  by (auto simp: moves_on_def reschedule_Inr)

lemma traverse_total:
  "(\<And>x. x \<in> set xs \<Longrightarrow> \<exists>y. f x = Inr y \<and> P y) \<Longrightarrow> \<exists>ys. traverse f xs = Inr ys \<and> list_all P ys"
proof (induction xs)
  case (Cons x xs)
  then show ?case by (fastforce simp: and_then_Inr)
qed simp

lemma poll_claims:
  assumes "distinct (map au_id db)" and "truthy enabled" and "\<And>a. a \<in> set db \<Longrightarrow> moves_on zones (rs, ck, now) a"
  obtains rows where "claim_due rs ck zones now 10 db = (Inr rows, write_back rows db)"
    and "scheduler_poll rs ck zones enabled now db = (rows, write_back rows db)"
    and "\<And>r. r \<in> set rows \<Longrightarrow> \<not> automation_due now r"
proof -
  have "\<exists>rows. traverse (reschedule rs ck zones now) (due_batch now 10 db) = Inr rows
      \<and> list_all (\<lambda>r. next_run_fits r \<and> \<not> automation_due now r) rows"
    using assms(3) moves_on_row due_batch_mem by (intro traverse_total) blast
  then obtain rows where r: "traverse (reschedule rs ck zones now) (due_batch now 10 db) = Inr rows"
    "list_all (\<lambda>r. next_run_fits r \<and> \<not> automation_due now r) rows" by blast
  then have "list_all next_run_fits rows" by (simp add: list_all_iff)
  then have "claim_due rs ck zones now 10 db = (Inr rows, write_back rows db)" by (simp add: claim_due_def r(1))
  then show ?thesis using that r(2) assms(2) by (simp add: scheduler_poll_def list_all_iff)
qed

lemma backlog_shrinks:
  assumes "claim_due rs ck zones now limit db = (Inr rows, db')" and "distinct (map au_id db)"
    and "\<And>r. r \<in> set rows \<Longrightarrow> \<not> automation_due now r" and "now0 \<le> now"
  shows "{a \<in> set db'. automation_due now0 a} = {a \<in> set db. automation_due now0 a} - set (due_batch now limit db)"
    and "card {a \<in> set db'. automation_due now0 a} \<le> card {a \<in> set db. automation_due now0 a} - limit"
proof -
  note w = in_write_back [OF assms(1,2)]
  let ?D = "{a \<in> set db. automation_due now0 a}"
  show D: "{a \<in> set db'. automation_due now0 a} = ?D - set (due_batch now limit db)"
  proof (intro equalityI subsetI)
    fix a assume a: "a \<in> {a \<in> set db'. automation_due now0 a}"
    then have "a \<notin> set rows" using assms(3) automation_due_mono [OF _ assms(4)] by blast
    then show "a \<in> ?D - set (due_batch now limit db)" using w(2) [of a] a by blast
  qed (use w(1) in blast)
  from batch_takes_oldest [OF assms(4), of db limit] obtain F G where F: "set F = ?D"
    "distinct F" "due_batch now limit db = take limit F @ take (limit - length F) G" using assms(2) by metis
  have "?D - set (due_batch now limit db) \<subseteq> set (drop limit F)"
    using F(3) F(1) [symmetric] by (auto simp: set_take_disj_set_drop_if_distinct)
       (metis append_take_drop_id Un_iff set_append)
  then have "card (?D - set (due_batch now limit db)) \<le> length F - limit"
    by (metis (no_types, lifting) List.finite_set card_length card_mono le_trans length_drop)
  moreover have "card ?D = length F" using F(1,2) distinct_card by metis
  ultimately show "card {a \<in> set db'. automation_due now0 a} \<le> card ?D - limit" by (simp add: D)
qed

lemma rounds_start_backlog:
  assumes "distinct (map au_id db)" and "truthy enabled" and "\<forall>(rs, ck, now) \<in> set ms. now0 \<le> now"
    and "\<And>m a. m \<in> set ms \<Longrightarrow> a \<in> set db \<Longrightarrow> moves_on zones m a"
    and "card {a \<in> set db. automation_due now0 a} \<le> 10 * length ms"
    and "a \<in> set db" and "automation_due now0 a"
  shows "au_id a \<in> au_id ` set (concat (fst (scheduler_rounds zones enabled ms db)))"
  using assms(1) assms(3-)
proof (induction ms arbitrary: db)
  case Nil
  have "finite {b \<in> set db. automation_due now0 b}" by simp
  then have "{b \<in> set db. automation_due now0 b} = {}" using Nil.prems(4) by simp
  then show ?case using Nil.prems(5,6) by blast
next
  case (Cons m ms)
  obtain rs ck now where m: "m = (rs, ck, now)" by (cases m)
  have later: "now0 \<le> now" "\<forall>(rs, ck, now) \<in> set ms. now0 \<le> now" using Cons.prems(2) m by auto
  have on: "moves_on zones (rs, ck, now) b" if "b \<in> set db" for b using Cons.prems(3) [of m b] that m by simp
  from poll_claims [OF Cons.prems(1) assms(2) on] obtain rows
    where rows: "claim_due rs ck zones now 10 db = (Inr rows, write_back rows db)"
      "scheduler_poll rs ck zones enabled now db = (rows, write_back rows db)"
      "\<And>r. r \<in> set rows \<Longrightarrow> \<not> automation_due now r" by metis
  let ?db = "write_back rows db"
  have out: "fst (scheduler_rounds zones enabled (m # ms) db) = rows # fst (scheduler_rounds zones enabled ms ?db)"
    by (simp add: m rows(2) split: prod.split)
  show ?case
  proof (cases "a \<in> set (due_batch now 10 db)")
    case True
    then have "au_id a \<in> au_id ` set rows" using claim_due_Inr(4) [OF rows(1) Cons.prems(1)] by (metis image_eqI list.set_map)
    then show ?thesis by (auto simp: out)
  next
    case False
    note w = in_write_back [OF rows(1) Cons.prems(1)]
    have "moves_on zones n b" if n: "n \<in> set ms" and b: "b \<in> set ?db" for n b
    proof -
      from w(2) [OF b] consider "b \<in> set rows" | "b \<in> set db" by blast
      then show ?thesis
      proof cases
        case 1
        from claimed_row [OF rows(1) Cons.prems(1) this] obtain x
          where "x \<in> set (due_batch now 10 db)" "reschedule rs ck zones now x = Inr b" .
        then show ?thesis using moves_on_kept Cons.prems(3) [of n x] n due_batch_mem by (metis list.set_intros(2))
      qed (use Cons.prems(3) n in simp)
    qed
    moreover have "card {b \<in> set ?db. automation_due now0 b} \<le> 10 * length ms"
      using backlog_shrinks(2) [OF rows(1) Cons.prems(1) rows(3) later(1)] Cons.prems(4) by simp
    ultimately have "au_id a \<in> au_id ` set (concat (fst (scheduler_rounds zones enabled ms ?db)))"
      using Cons.IH [of ?db] Cons.prems(1,6) later(2) w(1) [OF Cons.prems(5) False] by (simp add: row_simps)
    then show ?thesis by (auto simp: out)
  qed
qed

text \<open>
  C2. Every automation that is due is started by the next polls: n polls start the 10 n that are
  due earliest, whatever falls due meanwhile, as long as every rule can be moved on.
\<close>

theorem due_automations_start:
  assumes "distinct (map au_id db)" and "truthy enabled" and "\<forall>(rs, ck, now) \<in> set ms. now0 \<le> now"
    and "\<And>m a. m \<in> set ms \<Longrightarrow> a \<in> set db \<Longrightarrow> moves_on zones m a"
    and "length (filter (automation_due now0) db) \<le> 10 * length ms"
    and "a \<in> set db" and "automation_due now0 a"
  shows "au_id a \<in> au_id ` set (concat (fst (scheduler_rounds zones enabled ms db)))"
proof (rule rounds_start_backlog [OF assms(1-4) _ assms(6,7)])
  have "card (set (filter (automation_due now0) db)) \<le> length (filter (automation_due now0) db)" by (rule card_length)
  then show "card {a \<in> set db. automation_due now0 a} \<le> 10 * length ms" using assms(5) by simp
qed

section \<open>One automation that cannot be moved on\<close>

definition stuck :: "(string \<times> string option) list \<Rightarrow> rrulestr \<times> clock \<times> int \<Rightarrow> automation \<Rightarrow> bool" where
  "stuck zones m a \<longleftrightarrow> (case m of (rs, ck, now) \<Rightarrow>
     (case reschedule rs ck zones now a of Inl e \<Rightarrow> True | Inr r \<Rightarrow> \<not> next_run_fits r))"

lemma traverse_Inl: "x \<in> set xs \<Longrightarrow> f x = Inl e \<Longrightarrow> \<exists>e'. traverse f xs = Inl e'"
  by (induction xs) (auto simp: and_then_def split: sum.splits)

lemma stuck_claim:
  assumes "a \<in> set (due_batch now limit db)" and "stuck zones (rs, ck, now) a"
  shows "\<exists>e. claim_due rs ck zones now limit db = (Inl e, db)"
proof (cases "traverse (reschedule rs ck zones now) (due_batch now limit db)")
  case (Inr rows)
  from list_all2_partner [OF traverse_Inr [OF Inr] assms(1)] obtain r
    where "r \<in> set rows" "reschedule rs ck zones now a = Inr r" by blast
  then have "\<not> list_all next_run_fits rows" using assms(2) by (auto simp: stuck_def list_all_iff)
  then show ?thesis by (simp add: claim_due_def Inr)
qed (simp add: claim_due_def)

text \<open>
  C1. As long as one automation of the batch cannot be moved on, because its rule no longer parses
  or its next run does not fit the column, no poll starts any automation of anyone, and nothing
  in the table changes.
\<close>

theorem one_stuck_rule_stops_all:
  assumes "\<forall>(rs, ck, now) \<in> set ms. \<exists>a \<in> set (due_batch now 10 db). stuck zones (rs, ck, now) a"
  shows "scheduler_rounds zones enabled ms db = (replicate (length ms) [], db)"
  using assms
proof (induction ms)
  case (Cons m ms)
  obtain rs ck now where m: "m = (rs, ck, now)" by (cases m)
  then obtain a where "a \<in> set (due_batch now 10 db)" "stuck zones (rs, ck, now) a" using Cons.prems by auto
  from stuck_claim [OF this] have "scheduler_poll rs ck zones enabled now db = ([], db)"
    by (auto simp: scheduler_poll_def)
  then show ?case using Cons by (simp add: m)
qed simp

section \<open>Witnesses\<close>

definition sample_automation :: "string \<Rightarrow> string \<Rightarrow> string \<Rightarrow> int \<Rightarrow> automation" where
  "sample_automation i uid rule due =
     \<lparr>au_id = i, au_user_id = uid, au_folder_id = None, au_name = ''report'', au_data = [(''rrule'', JStr rule)],
      au_meta = JNull, au_is_active = True, au_last_run_at = None, au_next_run_at = Some due, au_created_at = 0,
      au_updated_at = 0\<rparr>"

definition two_due :: automation_db where
  "two_due = [sample_automation ''b'' ''u'' ''DTSTART:20000102'' 4, sample_automation ''a'' ''v'' ''DTSTART:20000102'' 3]"

definition claimed_row_a :: automation where
  "claimed_row_a = (sample_automation ''a'' ''v'' ''DTSTART:20000102'' 3)
     \<lparr>au_last_run_at := Some 5, au_next_run_at := Some microday\<rparr>"

theorem claims_exact_witness:
  "map au_id [hd two_due, claimed_row_a] = map au_id two_due \<and> length [claimed_row_a] \<le> 1
   \<and> au_last_run_at claimed_row_a = Some 5 \<and> (au_is_active claimed_row_a \<longleftrightarrow> au_next_run_at claimed_row_a \<noteq> None)"
proof -
  have c: "claim_due daily_rrulestr (plain_clock 5) [] 5 1 two_due = (Inr [claimed_row_a], [hd two_due, claimed_row_a])"
    by code_simp
  have "distinct (map au_id two_due)" by code_simp
  from claims_exact [OF c this] show ?thesis by simp
qed

lemma daily_parse: "parse_rule daily_rrulestr ''DTSTART:20000102'' anchor = daily_rrulestr [] None"
proof -
  have "\<not> sublist ''EXRULE'' (upper_text ''DTSTART:20000102'')" "has_dtstart ''DTSTART:20000102''" by code_simp+
  then show ?thesis
    by (simp add: parse_rule_def daily_rrulestr_def parse_one_def parse_long_def step_of_def timedelta_ok_def Let_def)
qed

lemma daily_moves_on: "moves_on [] (daily_rrulestr, plain_clock 5, 5) (sample_automation i uid ''DTSTART:20000102'' t)"
proof -
  have "stated_freq (upper_text ''DTSTART:20000102'') = None" by code_simp
  then have "next_run_ns daily_rrulestr (plain_clock 5) ''DTSTART:20000102'' None (Some t) = Inr (Some microday)" for t
    by (simp add: next_run_ns_def sub_daily_def daily_parse)
       (simp add: daily_rrulestr_def plain_clock_def after_def resolve_tz_def Let_def)
  then show ?thesis
    by (simp add: moves_on_def reschedule_def sample_automation_def get_or_def stored_next_run_def next_run_fits_def
        big_integer_def automation_due_def)
qed

theorem due_automations_start_witness:
  "{''a'', ''b''} \<subseteq> au_id ` set (concat (fst (scheduler_rounds [] (JBool True) [(daily_rrulestr, plain_clock 5, 5)] two_due)))"
proof -
  have "distinct (map au_id two_due)" "length (filter (automation_due 5) two_due) \<le> 10 * length [(daily_rrulestr, plain_clock 5, 5)]"
    by code_simp+
  note start = due_automations_start [OF this(1) _ _ _ this(2), of "JBool True"]
  have "au_id a \<in> au_id ` set (concat (fst (scheduler_rounds [] (JBool True) [(daily_rrulestr, plain_clock 5, 5)] two_due)))"
    if "a \<in> set two_due" for a
  proof (rule start)
    show "automation_due 5 a" using that by (auto simp: two_due_def sample_automation_def automation_due_def)
    show "moves_on [] m b" if "m \<in> set [(daily_rrulestr, plain_clock 5, 5)]" "b \<in> set two_due" for m b
      using that daily_moves_on by (auto simp: two_due_def)
  qed (use that in simp_all)
  from this [of "hd two_due"] this [of "last two_due"] show ?thesis by (simp add: two_due_def sample_automation_def)
qed

text \<open>
  Every 300 years from 2030 on: accepted in 2029, and from its first claim on its next run, in
  2330, does not fit the column. The other user's automation is due at every poll as well.
\<close>

definition rare_text :: string where
  "rare_text = ''DTSTART:20300101T000000'' @ [CHR 0x0A] @ ''RRULE:FREQ=YEARLY;INTERVAL=300''"

definition rare_rrulestr :: rrulestr where
  "rare_rrulestr t d =
     (let runs = [10958 * microday, 120530 * microday]
      in if t = rare_text then
           Inr \<lparr>pa_rules = [\<lparr>ru_freq = YEARLY, ru_interval = 300, ru_dtstart = 10958 * microday, ru_aware = False,
                  ru_byminute = None, ru_bysecond = None, ru_count = None, ru_runs = runs\<rparr>], pa_runs = runs\<rparr>
         else daily_rrulestr t d)"

definition utc_clock :: "int \<Rightarrow> clock" where
  "utc_clock now = \<lparr>ck_known = (\<lambda>_. False), ck_now = (\<lambda>_. now), ck_local = (\<lambda>_ t. t div 1000 - 946684800000000),
     ck_stamp = (\<lambda>_ w. (w + 946684800000000) * 1000)\<rparr>"

definition utc_moment :: "rrulestr \<Rightarrow> int \<Rightarrow> rrulestr \<times> clock \<times> int" where
  "utc_moment rs w = (rs, utc_clock w, (w + 946684800000000) * 1000)"

lemma rare_rule_passes:
  "validate_rrule rare_rrulestr (utc_clock (10600 * microday)) rare_text None = Inr ()"
  "next_run_ns rare_rrulestr (utc_clock (10600 * microday)) rare_text None None = Inr (Some 1893456000000000000)"
  by code_simp+

definition with_rare :: automation_db where
  "with_rare = [sample_automation ''rare'' ''u'' rare_text 1893456000000000000,
                sample_automation ''other'' ''v'' ''DTSTART:20000102'' 1893456000000000000]"

theorem one_stuck_rule_stops_all_witness:
  "scheduler_rounds [] (JBool True) (map (\<lambda>s. utc_moment rare_rrulestr (10958 * microday + s)) [1000000, 11000000]) with_rare
     = ([[], []], with_rare)"
proof -
  have "\<forall>(rs, ck, now) \<in> set (map (\<lambda>s. utc_moment rare_rrulestr (10958 * microday + s)) [1000000, 11000000]).
      \<exists>a \<in> set (due_batch now 10 with_rare). stuck [] (rs, ck, now) a"
    by code_simp
  from one_stuck_rule_stops_all [OF this] show ?thesis by simp
qed

text \<open>
  In the second pass of a repeated hour the next wall-clock time is read as the one of the first
  pass: an automation of every five minutes is due again at once and starts at every poll.
\<close>

definition five_minutes :: rrulestr where
  "five_minutes t d =
     (let start = (case d of None \<Rightarrow> 0 | Some x \<Rightarrow> x); runs = map (\<lambda>k. start + int k * 300000000) [0..<5]
      in Inr \<lparr>pa_rules = [\<lparr>ru_freq = MINUTELY, ru_interval = 5, ru_dtstart = start, ru_aware = False, ru_byminute = None,
                ru_bysecond = None, ru_count = None, ru_runs = runs\<rparr>], pa_runs = runs\<rparr>)"

definition second_pass :: "int \<Rightarrow> rrulestr \<times> clock \<times> int" where
  "second_pass w = (five_minutes, utc_clock w, (w + 3600000000 + 946684800000000) * 1000)"

lemma repeated_hour_starts_at_every_poll:
  "map (map au_id) (fst (scheduler_rounds [] (JBool True) (map second_pass [60000000, 71000000, 82000000])
      [sample_automation ''a'' ''u'' ''RRULE:FREQ=MINUTELY;INTERVAL=5'' 0])) = [[''a''], [''a''], [''a'']]"
  by code_simp

end
