(* ===== verification/AutomationRoutes.thy ===== *)
theory AutomationRoutes
  imports AutomationClaims
begin

text \<open>
  The requests on automations (\<open>routers/automations.py\<close>): their permission, access and limit
  checks, and creating, changing, switching, deleting, listing and running an automation. A
  request answers a value or an error, and the two tables as it left them. Publishing the event of
  a request is taken to succeed; a run is started by handing the automation to
  \<open>execute_automation\<close>. The several readings of the clock in one request are separate arguments.
\<close>

section \<open>Configuration and state\<close>

record automation_config =
  ac_enable :: json
  ac_permissions :: "dict option"
  ac_builtin :: dict
  ac_max_count :: json
  ac_min_interval :: json
  ac_channels :: json

record automation_state =
  as_rows :: automation_db
  as_runs :: run_db

text \<open>The user of a request, with the time zone stored with the account.\<close>

record requester =
  rq_user :: user
  rq_timezone :: "string option"

record automation_response =
  re_automation :: automation
  re_last_run :: "automation_run option"
  re_next_runs :: "int list option"

type_synonym 'a automation_answer = "(http_error + 'a) \<times> automation_state"

section \<open>Checks\<close>

definition check_automations_permission :: "automation_config \<Rightarrow> library \<Rightarrow> user \<Rightarrow> http_error + unit" where
  "check_automations_permission cfg lb u =
     (if \<not> truthy (ac_enable cfg) then Inl (HTTPException 403)
      else if us_role u = ''admin'' then Inr ()
      else and_then (or_raise (has_permission (ac_builtin cfg) (lb_groups lb) (us_id u) ''features.automations'' (ac_permissions cfg)))
             (\<lambda>ok. if ok then Inr () else Inl (HTTPException 403)))"

definition check_automation_access :: "automation option \<Rightarrow> user \<Rightarrow> http_error + automation" where
  "check_automation_access a u =
     (case a of None \<Rightarrow> Inl (HTTPException 404)
      | Some x \<Rightarrow> if us_id u \<noteq> au_user_id x then Inl (HTTPException 404) else Inr x)"

definition check_max_count :: "automation_config \<Rightarrow> user \<Rightarrow> automation_db \<Rightarrow> http_error + unit" where
  "check_max_count cfg u db =
     (if \<not> truthy (ac_max_count cfg) then Inr ()
      else and_then (or_raise (to_int (ac_max_count cfg))) (\<lambda>n.
             if 0 < n \<and> int (count_by_user db (us_id u)) \<ge> n then Inl (HTTPException 403) else Inr ()))"

definition check_min_interval :: "rrulestr \<Rightarrow> automation_config \<Rightarrow> string \<Rightarrow> http_error + unit" where
  "check_min_interval rs cfg rule =
     (if \<not> truthy (ac_min_interval cfg) then Inr ()
      else and_then (or_raise (to_int (ac_min_interval cfg))) (\<lambda>n.
             if 0 < n then
               and_then (or_raise (rrule_interval_seconds rs rule)) (\<lambda>interval.
                 case interval of None \<Rightarrow> Inr () | Some i \<Rightarrow> if i < n then Inl (HTTPException 400) else Inr ())
             else Inr ()))"

definition check_automation_limits ::
  "rrulestr \<Rightarrow> automation_config \<Rightarrow> user \<Rightarrow> string \<Rightarrow> bool \<Rightarrow> automation_db \<Rightarrow> http_error + unit" where
  "check_automation_limits rs cfg u rule is_create db =
     (if us_role u = ''admin'' then Inr ()
      else and_then (if is_create then check_max_count cfg u db else Inr ()) (\<lambda>_. check_min_interval rs cfg rule))"

definition check_automation_folder_access :: "folder_db \<Rightarrow> string option \<Rightarrow> user \<Rightarrow> http_error + unit" where
  "check_automation_folder_access fs i u =
     (case i of None \<Rightarrow> Inr ()
      | Some j \<Rightarrow> if get_folder_by_id_and_user_id fs j (us_id u) = None then Inl (HTTPException 404) else Inr ())"

definition get_channel_by_id :: "library \<Rightarrow> string \<Rightarrow> channel option" where
  "get_channel_by_id lb i = find (\<lambda>c. cn_id c = i) (lb_channels lb)"

definition is_user_channel_member :: "library \<Rightarrow> string \<Rightarrow> string \<Rightarrow> bool" where
  "is_user_channel_member lb i uid =
     list_ex (\<lambda>m. cm_channel_id m = i \<and> cm_user_id m = uid \<and> cm_is_active m) (lb_channel_members lb)"

text \<open>A group or direct channel wants a membership, any other a grant to write, public or the user's.\<close>

definition may_post_in :: "library \<Rightarrow> user \<Rightarrow> channel \<Rightarrow> bool" where
  "may_post_in lb u c =
     (if cn_type c \<in> {Some ''group'', Some ''dm''} then is_user_channel_member lb (cn_id c) (us_id u)
      else list_ex (\<lambda>g. gt_rtype g = ''channel'' \<and> gt_rid g = cn_id c \<and> gt_ptype g = PRINCIPAL_TYPE_USER
                      \<and> gt_pid g = WILDCARD_PRINCIPAL_ID \<and> gt_perm g = ''write'') (lb_grants lb)
           \<or> has_access (lb_groups lb) (us_id u) ''channel'' (cn_id c) ''write'' None (lb_grants lb))"

definition check_automation_channel_access ::
  "automation_config \<Rightarrow> library \<Rightarrow> automation_form \<Rightarrow> user \<Rightarrow> http_error + unit" where
  "check_automation_channel_access cfg lb f u =
     (case af_target f of None \<Rightarrow> Inr ()
      | Some t \<Rightarrow>
          if tg_type t \<noteq> ''channel'' then Inr ()
          else case some_id (tg_channel_id t) of None \<Rightarrow> Inl (HTTPException 404)
          | Some i \<Rightarrow>
              if \<not> truthy (ac_channels cfg) then Inl (HTTPException 404)
              else case get_channel_by_id lb i of None \<Rightarrow> Inl (HTTPException 404)
              | Some c \<Rightarrow>
                  if us_role u = ''admin'' then Inr ()
                  else and_then (or_raise (has_permission (ac_builtin cfg) (lb_groups lb) (us_id u) ''features.channels'' (ac_permissions cfg)))
                         (\<lambda>ok. if ok \<and> may_post_in lb u c then Inr () else Inl (HTTPException 403)))"

definition check_rrule :: "rrulestr \<Rightarrow> clock \<Rightarrow> string \<Rightarrow> string option \<Rightarrow> http_error + unit" where
  "check_rrule rs ck rule tz =
     (case validate_rrule rs ck rule tz of
        Inr x \<Rightarrow> Inr x
      | Inl e \<Rightarrow> if e = ValueError then Inl (HTTPException 400) else Inl (Unhandled e))"

section \<open>Requests\<close>

definition enrich_automation ::
  "rrulestr \<Rightarrow> clock \<Rightarrow> run_db \<Rightarrow> automation \<Rightarrow> string option \<Rightarrow> http_error + automation_response" where
  "enrich_automation rs ck runs a tz =
     (case map_of (au_data a) ''rrule'' of
        None \<Rightarrow> Inl (Unhandled KeyError)
      | Some (JStr s) \<Rightarrow> and_then (or_raise (next_n_runs_ns rs ck 5 s tz)) (\<lambda>ns.
          Inr \<lparr>re_automation = a, re_last_run = get_latest runs (au_id a), re_next_runs = Some ns\<rparr>)
      | Some _ \<Rightarrow> Inl (Unhandled AttributeError))"

definition PAGE_ITEM_COUNT :: nat where
  "PAGE_ITEM_COUNT = 30"

definition get_automation_items ::
  "(string \<Rightarrow> string \<Rightarrow> bool) \<Rightarrow> (dict \<Rightarrow> string) \<Rightarrow> (string \<Rightarrow> string list) \<Rightarrow> automation_config \<Rightarrow> library \<Rightarrow> requester \<Rightarrow>
     string option \<Rightarrow> string option \<Rightarrow> string option \<Rightarrow> int \<Rightarrow> automation_state \<Rightarrow> http_error + automation_response list \<times> nat" where
  "get_automation_items ilike data_text variants cfg lb rq query status folder page s =
     and_then (check_automations_permission cfg lb (rq_user rq)) (\<lambda>_.
       let skip = nat (max 1 page - 1) * PAGE_ITEM_COUNT in
       case search_automations ilike data_text variants (as_rows s) (us_id (rq_user rq)) query status folder skip PAGE_ITEM_COUNT of
         (items, found) \<Rightarrow>
           (let latest = get_latest_batch (as_runs s) (map au_id items)
            in Inr (map (\<lambda>a. \<lparr>re_automation = a, re_last_run = map_of latest (au_id a), re_next_runs = None\<rparr>) items, found)))"

text \<open>\<open>ck\<close> is read by the check of the rule, \<open>ck'\<close> by its next run, \<open>ck''\<close> by the preview.\<close>

definition create_new_automation ::
  "rrulestr \<Rightarrow> clock \<Rightarrow> clock \<Rightarrow> clock \<Rightarrow> automation_config \<Rightarrow> library \<Rightarrow> folder_db \<Rightarrow> string \<Rightarrow> int \<Rightarrow> requester \<Rightarrow>
     automation_form \<Rightarrow> automation_state \<Rightarrow> automation_response automation_answer" where
  "create_new_automation rs ck ck' ck'' cfg lb fs new_id now rq f s =
     (let u = rq_user rq; tz = rq_timezone rq in
      checked (check_automations_permission cfg lb u) s (\<lambda>_.
      checked (check_automation_folder_access fs (af_folder_id f) u) s (\<lambda>_.
      checked (check_automation_channel_access cfg lb f u) s (\<lambda>_.
      checked (check_rrule rs ck (af_rrule f) tz) s (\<lambda>_.
      checked (check_automation_limits rs cfg u (af_rrule f) True (as_rows s)) s (\<lambda>_.
      checked (or_raise (next_run_ns rs ck' (af_rrule f) tz None)) s (\<lambda>next_run.
      case insert_automation new_id now (us_id u) f next_run (as_rows s) of
        (Inl e, rows) \<Rightarrow> (Inl (Unhandled e), s\<lparr>as_rows := rows\<rparr>)
      | (Inr a, rows) \<Rightarrow> (enrich_automation rs ck'' (as_runs s) a tz, s\<lparr>as_rows := rows\<rparr>))))))))"

definition own_automation :: "automation_config \<Rightarrow> library \<Rightarrow> requester \<Rightarrow> string \<Rightarrow> automation_state \<Rightarrow> http_error + automation" where
  "own_automation cfg lb rq i s =
     and_then (check_automations_permission cfg lb (rq_user rq)) (\<lambda>_.
       check_automation_access (get_automation (as_rows s) i) (rq_user rq))"

definition get_automation_by_id ::
  "rrulestr \<Rightarrow> clock \<Rightarrow> automation_config \<Rightarrow> library \<Rightarrow> requester \<Rightarrow> string \<Rightarrow> automation_state \<Rightarrow> http_error + automation_response" where
  "get_automation_by_id rs ck cfg lb rq i s =
     and_then (own_automation cfg lb rq i s) (\<lambda>a. enrich_automation rs ck (as_runs s) a (rq_timezone rq))"

text \<open>Answer with the row a write of the table answered; a row that is gone cannot be read.\<close>

definition answer_written ::
  "rrulestr \<Rightarrow> clock \<Rightarrow> string option \<Rightarrow> automation_state \<Rightarrow> (py_error + automation option) \<times> automation_db \<Rightarrow>
     automation_response automation_answer" where
  "answer_written rs ck tz s w =
     (case w of (r, rows) \<Rightarrow>
       (case r of
          Inl e \<Rightarrow> (Inl (Unhandled e), s\<lparr>as_rows := rows\<rparr>)
        | Inr None \<Rightarrow> (Inl (Unhandled AttributeError), s\<lparr>as_rows := rows\<rparr>)
        | Inr (Some a) \<Rightarrow> (enrich_automation rs ck (as_runs s) a tz, s\<lparr>as_rows := rows\<rparr>)))"

definition update_automation_by_id ::
  "rrulestr \<Rightarrow> clock \<Rightarrow> clock \<Rightarrow> clock \<Rightarrow> automation_config \<Rightarrow> library \<Rightarrow> folder_db \<Rightarrow> int \<Rightarrow> requester \<Rightarrow> string \<Rightarrow>
     automation_form \<Rightarrow> automation_state \<Rightarrow> automation_response automation_answer" where
  "update_automation_by_id rs ck ck' ck'' cfg lb fs now rq i f s =
     (let u = rq_user rq; tz = rq_timezone rq in
      checked (own_automation cfg lb rq i s) s (\<lambda>_.
      checked (check_automation_folder_access fs (af_folder_id f) u) s (\<lambda>_.
      checked (check_automation_channel_access cfg lb f u) s (\<lambda>_.
      checked (check_rrule rs ck (af_rrule f) tz) s (\<lambda>_.
      checked (check_automation_limits rs cfg u (af_rrule f) False (as_rows s)) s (\<lambda>_.
      checked (or_raise (next_run_ns rs ck' (af_rrule f) tz None)) s (\<lambda>next_run.
      answer_written rs ck'' tz s (update_automation now i f next_run (as_rows s)))))))))"

definition toggle_automation_by_id ::
  "rrulestr \<Rightarrow> clock \<Rightarrow> clock \<Rightarrow> automation_config \<Rightarrow> library \<Rightarrow> int \<Rightarrow> requester \<Rightarrow> string \<Rightarrow> automation_state \<Rightarrow>
     automation_response automation_answer" where
  "toggle_automation_by_id rs ck ck' cfg lb now rq i s =
     (let tz = rq_timezone rq in
      checked (own_automation cfg lb rq i s) s (\<lambda>a.
      checked (case map_of (au_data a) ''rrule'' of None \<Rightarrow> Inl (Unhandled KeyError)
               | Some rule \<Rightarrow> or_raise (stored_next_run rs ck rule tz None)) s (\<lambda>next_run.
      answer_written rs ck' tz s (toggle_automation now i next_run (as_rows s)))))"

text \<open>The automation that is started in the background, and the answer.\<close>

definition run_automation_by_id ::
  "rrulestr \<Rightarrow> clock \<Rightarrow> automation_config \<Rightarrow> library \<Rightarrow> requester \<Rightarrow> string \<Rightarrow> automation_state \<Rightarrow>
     automation option \<times> (http_error + automation_response)" where
  "run_automation_by_id rs ck cfg lb rq i s =
     (case own_automation cfg lb rq i s of
        Inl e \<Rightarrow> (None, Inl e)
      | Inr a \<Rightarrow> (Some a, enrich_automation rs ck (as_runs s) a (rq_timezone rq)))"

definition delete_automation_by_id ::
  "automation_config \<Rightarrow> library \<Rightarrow> requester \<Rightarrow> string \<Rightarrow> automation_state \<Rightarrow> bool automation_answer" where
  "delete_automation_by_id cfg lb rq i s =
     checked (own_automation cfg lb rq i s) s (\<lambda>_.
       let runs = snd (delete_by_automation i (as_runs s))
       in case delete_automation i (as_rows s) of (ok, rows) \<Rightarrow> (Inr ok, \<lparr>as_rows = rows, as_runs = runs\<rparr>))"

definition get_automation_runs ::
  "automation_config \<Rightarrow> library \<Rightarrow> requester \<Rightarrow> string \<Rightarrow> nat \<Rightarrow> nat \<Rightarrow> automation_state \<Rightarrow> http_error + automation_run list" where
  "get_automation_runs cfg lb rq i skip limit s =
     and_then (own_automation cfg lb rq i s) (\<lambda>_. Inr (get_by_automation (as_runs s) i skip limit))"

end
