(* ===== verification/AutomationLife.thy ===== *)
theory AutomationLife
  imports AutomationRoutes
begin

text \<open>
  The life of the automation rows over the requests, the scheduler's polls and the deletion of
  folders, as a step relation: ids stay distinct, an active automation has a next run that fits its
  column, unless the last run of its rule fell between two readings of the clock in the request that
  wrote it, and no request of the automations' router touches the automations of another user.
\<close>

section \<open>What one request writes\<close>

lemma own_automation_Inr:
  assumes "own_automation cfg lb rq i s = Inr a"
  shows "get_automation (as_rows s) i = Some a" "a \<in> set (as_rows s)" "au_id a = i" "au_user_id a = us_id (rq_user rq)"
  using assms get_automation_Some [of "as_rows s" i a]
  by (auto simp: own_automation_def and_then_Inr check_automation_access_def split: option.splits if_splits)

lemma checked_cases:
  assumes "checked r s k = (ans, s')"
  obtains e where "ans = Inl e" and "s' = s" | x where "r = Inr x" and "k x = (ans, s')"
  using assms by (cases r) (auto simp: checked_def)

lemma check_rrule_Inr [simp]: "check_rrule rs ck rule tz = Inr x \<longleftrightarrow> validate_rrule rs ck rule tz = Inr x"
  by (auto simp: check_rrule_def split: sum.splits)

lemma insert_cases:
  assumes "insert_automation new_id now uid f next_run db = (r, db')"
  obtains e where "r = Inl e" and "db' = db"
  | a where "r = Inr a" and "db' = db @ [a]" and "new_id \<notin> au_id ` set db" and "next_run_fits a" and "au_id a = new_id"
      and "au_user_id a = uid" and "au_next_run_at a = next_run" and "au_data a = form_data f"
  using assms by (auto simp: insert_automation_def Let_def split: if_splits)

lemma create_cases:
  assumes "create_new_automation rs ck ck' ck'' cfg lb fs new_id now rq f s = (r, s')"
  obtains e where "r = Inl e" and "s' = s"
  | a where "s' = s\<lparr>as_rows := as_rows s @ [a]\<rparr>" and "r = enrich_automation rs ck'' (as_runs s) a (rq_timezone rq)"
      and "new_id \<notin> au_id ` set (as_rows s)"
      and "next_run_fits a" and "au_id a = new_id" and "au_user_id a = us_id (rq_user rq)"
      and "validate_rrule rs ck (af_rrule f) (rq_timezone rq) = Inr ()"
      and "next_run_ns rs ck' (af_rrule f) (rq_timezone rq) None = Inr (au_next_run_at a)"
      and "check_automations_permission cfg lb (rq_user rq) = Inr ()"
      and "check_automation_folder_access fs (af_folder_id f) (rq_user rq) = Inr ()"
      and "check_automation_channel_access cfg lb f (rq_user rq) = Inr ()"
      and "check_automation_limits rs cfg (rq_user rq) (af_rrule f) True (as_rows s) = Inr ()"
proof -
  from assms show ?thesis
    unfolding create_new_automation_def Let_def
    by (elim checked_cases; (rule that(1); assumption)?)
       (auto split: prod.splits sum.splits intro: that elim!: insert_cases)
qed

text \<open>A write of one row of the requester: refused, or the row replaced by one with its id and owner.\<close>

lemma written_cases:
  assumes "answer_written rs ck tz s (commit_automation b (as_rows s)) = (r, s')"
  obtains "s' = s" | "s' = s\<lparr>as_rows := put_automation b (as_rows s)\<rparr>" and "next_run_fits b"
  using assms by (auto simp: answer_written_def commit_automation_def split: if_splits)

lemma update_cases:
  assumes "update_automation_by_id rs ck ck' ck'' cfg lb fs now rq i f s = (r, s')"
  obtains "s' = s"
  | a b where "s' = s\<lparr>as_rows := put_automation b (as_rows s)\<rparr>" and "own_automation cfg lb rq i s = Inr a"
      and "au_id b = au_id a" and "au_user_id b = au_user_id a" and "next_run_fits b"
      and "validate_rrule rs ck (af_rrule f) (rq_timezone rq) = Inr ()"
      and "next_run_ns rs ck' (af_rrule f) (rq_timezone rq) None = Inr (au_next_run_at b)"
proof (cases "s' = s")
  case False
  with assms obtain a n where w: "own_automation cfg lb rq i s = Inr a"
    "validate_rrule rs ck (af_rrule f) (rq_timezone rq) = Inr ()"
    "next_run_ns rs ck' (af_rrule f) (rq_timezone rq) None = Inr n"
    "answer_written rs ck'' (rq_timezone rq) s (update_automation now i f n (as_rows s)) = (r, s')"
    unfolding update_automation_by_id_def Let_def by (elim checked_cases; simp)
  from w(4) show ?thesis
    unfolding update_automation_def own_automation_Inr(1) [OF w(1)] option.case
    by (rule written_cases) (use False w in \<open>auto intro: that(2)\<close>)
qed (rule that(1))

lemma toggle_cases:
  assumes "toggle_automation_by_id rs ck ck' cfg lb now rq i s = (r, s')"
  obtains "s' = s"
  | a b where "s' = s\<lparr>as_rows := put_automation b (as_rows s)\<rparr>" and "own_automation cfg lb rq i s = Inr a"
      and "au_id b = au_id a" and "au_user_id b = au_user_id a" and "next_run_fits b"
      and "au_is_active b \<longleftrightarrow> au_next_run_at b \<noteq> None"
proof (cases "s' = s")
  case False
  with assms obtain a n where w: "own_automation cfg lb rq i s = Inr a"
    "answer_written rs ck' (rq_timezone rq) s (toggle_automation now i n (as_rows s)) = (r, s')"
    unfolding toggle_automation_by_id_def Let_def by (elim checked_cases; simp)
  let ?b = "a\<lparr>au_is_active := \<not> au_is_active a \<and> n \<noteq> None,
              au_next_run_at := (if \<not> au_is_active a \<and> n \<noteq> None then n else None), au_updated_at := now\<rparr>"
  have "answer_written rs ck' (rq_timezone rq) s (commit_automation ?b (as_rows s)) = (r, s')"
    using w(2) by (simp only: toggle_automation_def own_automation_Inr(1) [OF w(1)] option.case Let_def)
  then show ?thesis
  proof (rule written_cases)
    assume b: "s' = s\<lparr>as_rows := put_automation ?b (as_rows s)\<rparr>" "next_run_fits ?b"
    show ?thesis by (rule that(2) [OF b(1) w(1) _ _ b(2)]) simp_all
  qed (use False in simp)
qed (rule that(1))

lemma delete_cases:
  assumes "delete_automation_by_id cfg lb rq i s = (r, s')"
  obtains "s' = s"
  | a where "own_automation cfg lb rq i s = Inr a" and "as_rows s' = filter (\<lambda>b. au_id b \<noteq> i) (as_rows s)"
      and "as_runs s' = filter (\<lambda>q. ar_automation_id q \<noteq> i) (as_runs s)"
proof (cases "s' = s")
  case False
  with assms obtain a where "own_automation cfg lb rq i s = Inr a"
    unfolding delete_automation_by_id_def by (elim checked_cases) simp_all
  moreover from own_automation_Inr(1) [OF this] have "get_automation (as_rows s) i \<noteq> None" by simp
  ultimately show ?thesis
    using assms by (intro that(2)) (auto simp: delete_automation_by_id_def checked_def delete_automation_def delete_by_automation_def)
qed (rule that(1))

section \<open>Steps\<close>

text \<open>
  A request reads the clock twice, once to check the rule and once for the next run. The last run of
  the rule may fall between the two readings.
\<close>

definition fell_between :: "rrulestr \<Rightarrow> clock \<Rightarrow> clock \<Rightarrow> string \<Rightarrow> string option \<Rightarrow> bool" where
  "fell_between rs ck ck' s tz \<longleftrightarrow>
     (\<exists>t. next_run_ns rs ck s tz None = Inr (Some t)) \<and> next_run_ns rs ck' s tz None = Inr None"

text \<open>
  A step, with the ids it writes with such a rule. A folder deletion clears the folder of its
  owner's automations.
\<close>

inductive automation_step :: "automation_state \<Rightarrow> string set \<Rightarrow> automation_state \<Rightarrow> bool" where
  create: "create_new_automation rs ck ck' ck'' cfg lb fs new_id now rq f s = (r, s') \<Longrightarrow>
     automation_step s {i. i = new_id \<and> fell_between rs ck ck' (af_rrule f) (rq_timezone rq)} s'"
| update: "update_automation_by_id rs ck ck' ck'' cfg lb fs now rq i f s = (r, s') \<Longrightarrow>
     automation_step s {j. j = i \<and> fell_between rs ck ck' (af_rrule f) (rq_timezone rq)} s'"
| toggle: "toggle_automation_by_id rs ck ck' cfg lb now rq i s = (r, s') \<Longrightarrow> automation_step s {} s'"
| delete: "delete_automation_by_id cfg lb rq i s = (r, s') \<Longrightarrow> automation_step s {} s'"
| poll: "scheduler_poll rs ck zones enabled now (as_rows s) = (started, rows) \<Longrightarrow> automation_step s {} (s\<lparr>as_rows := rows\<rparr>)"
| clear: "automation_step s {} (s\<lparr>as_rows := snd (clear_automation_folders now uid ids (as_rows s))\<rparr>)"
| record_run: "automation_step s {} (s\<lparr>as_runs := snd (insert_run new_id now aid status chat err (as_runs s))\<rparr>)"

inductive automation_reach :: "string set \<Rightarrow> automation_state \<Rightarrow> bool" where
  init: "automation_reach {} \<lparr>as_rows = [], as_runs = []\<rparr>"
| step: "automation_reach late s \<Longrightarrow> automation_step s new s' \<Longrightarrow> automation_reach (late \<union> new) s'"

definition lively :: "string set \<Rightarrow> automation \<Rightarrow> bool" where
  "lively late a \<longleftrightarrow> next_run_fits a \<and> (au_is_active a \<longrightarrow> au_next_run_at a \<noteq> None \<or> au_id a \<in> late)"

definition rows_ok :: "string set \<Rightarrow> automation_db \<Rightarrow> bool" where
  "rows_ok late db \<longleftrightarrow> distinct (map au_id db) \<and> (\<forall>a \<in> set db. lively late a)"

lemma rows_ok_put:
  assumes "rows_ok late db" and "lively late b"
  shows "rows_ok late (put_automation b db)"
  using assms by (auto simp: rows_ok_def row_simps) (auto simp: put_automation_def)

lemma rows_ok_more: "rows_ok late db \<Longrightarrow> rows_ok (late \<union> new) db"
  by (auto simp: rows_ok_def lively_def)

lemma rows_ok_poll:
  assumes "rows_ok late db" and "scheduler_poll rs ck zones enabled now db = (started, rows)"
  shows "rows_ok late rows"
proof -
  have ids: "distinct (map au_id db)" using assms(1) by (simp add: rows_ok_def)
  consider "rows = db" | batch where "claim_due rs ck zones now 10 db = (Inr batch, rows)"
    using assms(2) by (auto simp: scheduler_poll_def claim_due_def split: if_splits sum.splits prod.splits)
  then show ?thesis
  proof cases
    case 2
    have "lively late r" if "r \<in> set batch" for r
    proof -
      from claimed_row [OF 2 ids that] obtain a where "reschedule rs ck zones now a = Inr r" by metis
      moreover have "next_run_fits r" using claim_due_Inr(2) [OF 2 ids] that by (simp add: list_all_iff)
      ultimately show ?thesis by (auto simp: lively_def reschedule_Inr)
    qed
    then have "\<forall>r \<in> set rows. lively late r" using in_write_back(2) [OF 2 ids] assms(1) by (auto simp: rows_ok_def)
    then show ?thesis using ids claim_due_Inr(3) [OF 2 ids] by (simp add: rows_ok_def row_simps)
  qed (use assms(1) in simp)
qed

lemma rows_ok_map:
  assumes "rows_ok late db" and "\<And>a. au_id (g a) = au_id a" and "\<And>a. lively late (g a) \<longleftrightarrow> lively late a"
  shows "rows_ok late (map g db)"
proof -
  have "au_id \<circ> g = au_id" using assms(2) by auto
  then show ?thesis using assms(1,3) by (simp add: rows_ok_def)
qed

lemma rows_ok_clear:
  assumes "rows_ok late db"
  shows "rows_ok late (snd (clear_automation_folders now uid ids db))"
  using assms by (auto intro!: rows_ok_map simp: clear_automation_folders_def Let_def lively_def next_run_fits_def split: if_splits)

lemma missed_between:
  assumes "validate_rrule rs ck s tz = Inr ()" and "next_run_ns rs ck' s tz None = Inr None"
  shows "fell_between rs ck ck' s tz"
  using assms validated_rule_runs [OF assms(1)] by (auto simp: fell_between_def)


section \<open>Other users' automations\<close>

lemma put_other: "au_id b \<noteq> au_id a \<Longrightarrow> a \<in> set db \<Longrightarrow> a \<in> set (put_automation b db)"
  by (force simp: put_automation_def)

lemma put_new: "r \<in> set (put_automation b db) \<Longrightarrow> r = b \<or> r \<in> set db"
  by (auto simp: put_automation_def split: if_splits)

lemma other_user_other_id:
  assumes "distinct (map au_id db)" and "a \<in> set db" and "c \<in> set db" and "au_user_id a \<noteq> au_user_id c"
  shows "au_id c \<noteq> au_id a"
  using assms by (auto simp: distinct_map inj_on_def)

inductive request_by :: "requester \<Rightarrow> automation_state \<Rightarrow> automation_state \<Rightarrow> bool" for rq where
  create: "create_new_automation rs ck ck' ck'' cfg lb fs new_id now rq f s = (r, s') \<Longrightarrow> request_by rq s s'"
| update: "update_automation_by_id rs ck ck' ck'' cfg lb fs now rq i f s = (r, s') \<Longrightarrow> request_by rq s s'"
| toggle: "toggle_automation_by_id rs ck ck' cfg lb now rq i s = (r, s') \<Longrightarrow> request_by rq s s'"
| delete: "delete_automation_by_id cfg lb rq i s = (r, s') \<Longrightarrow> request_by rq s s'"

text \<open>
  C4. Whatever a request of the automations' router creates, changes, switches or deletes, an
  administrator's included, the automations of other users stay as they were, none is added in another user's name, and the runs
  of other users' automations are kept.
\<close>

theorem requests_keep_others:
  assumes "request_by rq s s'" and "distinct (map au_id (as_rows s))"
  shows "{a \<in> set (as_rows s'). au_user_id a \<noteq> us_id (rq_user rq)} = {a \<in> set (as_rows s). au_user_id a \<noteq> us_id (rq_user rq)} \<and>
    (\<forall>a \<in> set (as_rows s). au_user_id a \<noteq> us_id (rq_user rq) \<longrightarrow>
       filter (\<lambda>q. ar_automation_id q = au_id a) (as_runs s') = filter (\<lambda>q. ar_automation_id q = au_id a) (as_runs s))"
proof -
  have put: ?thesis if p: "s' = s\<lparr>as_rows := put_automation b (as_rows s)\<rparr>" "own_automation cfg lb rq i s = Inr a"
    "au_id b = au_id a" "au_user_id b = au_user_id a" for a b i cfg lb
  proof -
    note own = own_automation_Inr [OF p(2)]
    have "au_id b \<noteq> au_id x" if "x \<in> set (as_rows s)" "au_user_id x \<noteq> us_id (rq_user rq)" for x
      using other_user_other_id [OF assms(2) that(1) own(2)] that(2) own p(3) by simp
    then show ?thesis using p own put_other put_new by (fastforce simp: p(1))
  qed
  from assms(1) show ?thesis
  proof cases
    case (create rs ck ck' ck'' cfg lb fs new_id now f r)
    from create show ?thesis by (rule create_cases) auto
  next
    case (update rs ck ck' ck'' cfg lb fs now i f r)
    from update show ?thesis by (rule update_cases) (simp, rule put)
  next
    case (toggle rs ck ck' cfg lb now i r)
    from toggle show ?thesis by (rule toggle_cases) (simp, rule put)
  next
    case (delete cfg lb i r)
    from delete show ?thesis
    proof (rule delete_cases)
      fix a assume a: "own_automation cfg lb rq i s = Inr a" "as_rows s' = filter (\<lambda>b. au_id b \<noteq> i) (as_rows s)"
        "as_runs s' = filter (\<lambda>q. ar_automation_id q \<noteq> i) (as_runs s)"
      note own = own_automation_Inr [OF a(1)]
      have "\<forall>x \<in> set (as_rows s). au_user_id x \<noteq> us_id (rq_user rq) \<longrightarrow> au_id x \<noteq> i"
        by (metis other_user_other_id [OF assms(2) _ own(2)] own(3,4))
      then show ?thesis using a by (auto intro!: filter_cong)
    qed simp
  qed
qed

text \<open>
  A created automation is the requester's, passes every check, holds a next run, is counted
  within the limit, and its answer shows it with no run yet.
\<close>

theorem creation_exact:
  assumes "create_new_automation rs ck ck' ck'' cfg lb fs new_id now rq f s = (Inr re, s')"
  shows "\<exists>a. s' = s\<lparr>as_rows := as_rows s @ [a]\<rparr> \<and> re_automation re = a \<and> au_user_id a = us_id (rq_user rq) \<and>
    next_run_ns rs ck' (af_rrule f) (rq_timezone rq) None = Inr (au_next_run_at a) \<and>
    truthy (ac_enable cfg) \<and>
    (us_role (rq_user rq) = ''admin'' \<or>
     has_permission (ac_builtin cfg) (lb_groups lb) (us_id (rq_user rq)) ''features.automations'' (ac_permissions cfg) = Inr True \<and>
     (\<forall>n. ac_max_count cfg = JInt n \<longrightarrow> 0 < n \<longrightarrow> int (count_by_user (as_rows s') (us_id (rq_user rq))) \<le> n) \<and>
     (\<forall>n i. ac_min_interval cfg = JInt n \<longrightarrow> 0 < n \<longrightarrow> rrule_interval_seconds rs (af_rrule f) = Inr (Some i) \<longrightarrow> n \<le> i))"
proof -
  from assms obtain a where a: "s' = s\<lparr>as_rows := as_rows s @ [a]\<rparr>"
    "enrich_automation rs ck'' (as_runs s) a (rq_timezone rq) = Inr re" "au_user_id a = us_id (rq_user rq)"
    "next_run_ns rs ck' (af_rrule f) (rq_timezone rq) None = Inr (au_next_run_at a)"
    "check_automations_permission cfg lb (rq_user rq) = Inr ()"
    "check_automation_limits rs cfg (rq_user rq) (af_rrule f) True (as_rows s) = Inr ()"
    by (rule create_cases) simp_all
  have re: "re_automation re = a"
    using a(2) by (auto simp: enrich_automation_def and_then_Inr split: option.splits json.splits)
  have perm: "truthy (ac_enable cfg)" "us_role (rq_user rq) = ''admin'' \<or>
      has_permission (ac_builtin cfg) (lb_groups lb) (us_id (rq_user rq)) ''features.automations'' (ac_permissions cfg) = Inr True"
    using a(5) by (auto simp: check_automations_permission_def and_then_Inr split: if_splits)
  have limits: "us_role (rq_user rq) = ''admin'' \<or> check_max_count cfg (rq_user rq) (as_rows s) = Inr () \<and>
      check_min_interval rs cfg (af_rrule f) = Inr ()"
    using a(6) by (auto simp: check_automation_limits_def and_then_Inr split: if_splits)
  have count: "count_by_user (as_rows s') (us_id (rq_user rq)) = count_by_user (as_rows s) (us_id (rq_user rq)) + 1"
    by (simp add: a(1,3) count_by_user_def)
  have "int (count_by_user (as_rows s') (us_id (rq_user rq))) \<le> n"
    if "check_max_count cfg (rq_user rq) (as_rows s) = Inr ()" "ac_max_count cfg = JInt n" "0 < n" for n
    using that by (simp add: check_max_count_def count or_raise_def split: if_splits)
  moreover have "n \<le> i"
    if "check_min_interval rs cfg (af_rrule f) = Inr ()" "ac_min_interval cfg = JInt n" "0 < n"
      "rrule_interval_seconds rs (af_rrule f) = Inr (Some i)" for n i
    using that by (simp add: check_min_interval_def or_raise_def split: if_splits)
  ultimately show ?thesis using a(1,3,4) re perm limits by blast
qed

section \<open>Witnesses\<close>

definition open_config :: automation_config where
  "open_config = \<lparr>ac_enable = JBool True, ac_permissions = Some [(''features'', JObj [(''automations'', JBool True)])],
     ac_builtin = [], ac_max_count = JInt 1, ac_min_interval = JInt 60, ac_channels = JBool False\<rparr>"

definition bare_library :: library where
  "bare_library = \<lparr>lb_files = [], lb_knowledge = [], lb_knowledge_files = [], lb_channels = [], lb_channel_files = [],
     lb_channel_members = [], lb_chats = [], lb_chat_files = [], lb_shared_chats = [], lb_models = [], lb_notes = [],
     lb_users = [], lb_groups = \<lparr>groups = [], members = [], fk_on = False\<rparr>, lb_grants = []\<rparr>"

definition requester_u :: requester where
  "requester_u = \<lparr>rq_user = \<lparr>us_id = ''u'', us_role = ''user''\<rparr>, rq_timezone = None\<rparr>"

definition daily_form :: automation_form where
  "daily_form = \<lparr>af_name = ''report'', af_folder_id = None, af_prompt = ''sum up'', af_model_id = ''m'',
     af_rrule = ''DTSTART:20000102'', af_terminal = None, af_target = None, af_meta = JNull, af_is_active = None\<rparr>"

definition others_only :: automation_state where
  "others_only = \<lparr>as_rows = [sample_automation ''o'' ''v'' ''DTSTART:20000102'' 3], as_runs = []\<rparr>"

definition create_daily :: "automation_state \<Rightarrow> automation_response automation_answer" where
  "create_daily = create_new_automation daily_rrulestr (plain_clock 5) (plain_clock 5) (plain_clock 5) open_config
     bare_library [] ''n'' 7 requester_u daily_form"

definition created_row :: automation where
  "created_row = \<lparr>au_id = ''n'', au_user_id = ''u'', au_folder_id = None, au_name = ''report'', au_data = form_data daily_form,
     au_meta = JNull, au_is_active = True, au_last_run_at = None, au_next_run_at = Some microday, au_created_at = 7,
     au_updated_at = 7\<rparr>"

definition created_response :: automation_response where
  "created_response = \<lparr>re_automation = created_row, re_last_run = None,
     re_next_runs = Some [microday, 2 * microday, 3 * microday]\<rparr>"

lemma daily_created:
  "create_daily others_only = (Inr created_response, others_only\<lparr>as_rows := as_rows others_only @ [created_row]\<rparr>)"
  "create_daily \<lparr>as_rows = [], as_runs = []\<rparr> = (Inr created_response, \<lparr>as_rows = [created_row], as_runs = []\<rparr>)"
  by code_simp+

theorem creation_exact_witness:
  "au_user_id (re_automation created_response) = ''u'' \<and>
   int (count_by_user (as_rows (others_only\<lparr>as_rows := as_rows others_only @ [created_row]\<rparr>)) ''u'') \<le> 1"
  using creation_exact [OF daily_created(1) [unfolded create_daily_def]]
  by (auto simp: requester_u_def open_config_def created_response_def)

theorem requests_keep_others_witness:
  "{a \<in> set (as_rows (others_only\<lparr>as_rows := as_rows others_only @ [created_row]\<rparr>)). au_user_id a \<noteq> ''u''} =
   {a \<in> set (as_rows others_only). au_user_id a \<noteq> ''u''}"
proof -
  have "distinct (map au_id (as_rows others_only))" by code_simp
  from requests_keep_others [OF request_by.create [OF daily_created(1) [unfolded create_daily_def]] this]
  show ?thesis by (simp add: requester_u_def)
qed


text \<open>The last run falls between the readings: the automation is active and will never run.\<close>

lemma created_without_run:
  "au_is_active (last (as_rows (snd (create_new_automation daily_rrulestr (plain_clock 5) (plain_clock (3 * microday)) (plain_clock (3 * microday))
     open_config bare_library [] ''n'' 7 requester_u daily_form others_only))))"
  "au_next_run_at (last (as_rows (snd (create_new_automation daily_rrulestr (plain_clock 5) (plain_clock (3 * microday)) (plain_clock (3 * microday))
     open_config bare_library [] ''n'' 7 requester_u daily_form others_only)))) = None"
  by code_simp+

end
