(* ===== verification/ChatVariables.thy ===== *)
theory ChatVariables
  imports PyJson
begin

text \<open>
  The variables of a system prompt (\<open>utils/chat_variables.py\<close>): finding their placeholders,
  reading the definition a placeholder may carry, checking the values a chat or a user has for
  them, and filling them in. JSON's \<open>dumps\<close> and \<open>loads\<close> (None for a decode error) and the text of a
  value that is no string are arguments.
\<close>

section \<open>Placeholders\<close>

definition MAX_VARIABLE_VALUE_LENGTH :: int where
  "MAX_VARIABLE_VALUE_LENGTH = 20000"

definition MAX_VARIABLES_JSON_LENGTH :: int where
  "MAX_VARIABLES_JSON_LENGTH = 100000"

definition is_key :: "string \<Rightarrow> bool" where
  "is_key k \<longleftrightarrow> (case k of [] \<Rightarrow> False
     | c # cs \<Rightarrow> (let lower = (\<lambda>c. let n = of_char c :: nat in 97 \<le> n \<and> n \<le> 122)
                in lower c \<and> list_all (\<lambda>x. lower x \<or> is_digit x \<or> x = CHR ''_'') cs))"

text \<open>\<open>$\<close> also matches before a newline at the end.\<close>

definition key_matches :: "string \<Rightarrow> bool" where
  "key_matches k \<longleftrightarrow> is_key k \<or> k \<noteq> [] \<and> last k = CHR 0x0A \<and> is_key (butlast k)"

text \<open>
  A match of the pattern with the given name at the front: the key, the definition if one follows
  a bar, and the rest. No two adjacent parts can match the same character, so nothing is retried.
\<close>

definition is_brace :: "char \<Rightarrow> bool" where
  "is_brace c \<longleftrightarrow> c = CHR 0x7B \<or> c = CHR 0x7D"

definition is_key_char :: "char \<Rightarrow> bool" where
  "is_key_char c \<longleftrightarrow> \<not> is_py_space c \<and> c \<noteq> CHR ''|'' \<and> \<not> is_brace c"

definition close_placeholder :: "string \<Rightarrow> string \<Rightarrow> (string \<times> string option \<times> string) option" where
  "close_placeholder key s =
     (if take 1 s = ''|'' then
        map_option (\<lambda>rest. (key, Some (takeWhile (\<lambda>c. \<not> is_brace c) (drop 1 s)), rest))
          (after_prefix [CHR 0x7D, CHR 0x7D] (dropWhile (\<lambda>c. \<not> is_brace c) (drop 1 s)))
      else map_option (\<lambda>rest. (key, None, rest)) (after_prefix [CHR 0x7D, CHR 0x7D] s))"

definition placeholder :: "string \<Rightarrow> string \<Rightarrow> (string \<times> string option \<times> string) option" where
  "placeholder name s =
     (case after_prefix [CHR 0x7B, CHR 0x7B] s of None \<Rightarrow> None
      | Some s1 \<Rightarrow> (case after_prefix name (lstrip s1) of None \<Rightarrow> None
        | Some s2 \<Rightarrow> let key = takeWhile is_key_char s2
            in if key = [] then None else close_placeholder key (lstrip (dropWhile is_key_char s2))))"

definition CHAT_VARIABLES :: string where
  "CHAT_VARIABLES = ''chat.variables.''"

definition USER_VARIABLES :: string where
  "USER_VARIABLES = ''user.variables.''"

datatype piece = Text char | Variable string "string option"

lemma after_prefix_length: "after_prefix p s = Some t \<Longrightarrow> length t \<le> length s"
  by (auto simp: after_prefix_def split: if_splits)

lemma close_placeholder_length: "close_placeholder key s = Some (k, d, t) \<Longrightarrow> length t \<le> length s"
  by (auto simp: close_placeholder_def split: if_splits
      dest!: after_prefix_length intro: order.trans [OF _ order.trans [OF length_dropWhile_le]])

lemma placeholder_length:
  assumes "placeholder name s = Some (k, d, t)"
  shows "length t < length s"
proof -
  from assms obtain s1 s2 where s: "after_prefix [CHR 0x7B, CHR 0x7B] s = Some s1" "after_prefix name (lstrip s1) = Some s2"
    and t: "close_placeholder k (lstrip (dropWhile is_key_char s2)) = Some (k, d, t)"
    by (auto simp: placeholder_def close_placeholder_def Let_def split: option.splits if_splits)
  have "length t \<le> length (dropWhile is_key_char s2)"
    using close_placeholder_length [OF t] by (simp add: lstrip_def) (meson length_dropWhile_le order.trans)
  also have "\<dots> \<le> length s1"
    using after_prefix_length [OF s(2)] by (simp add: lstrip_def) (meson length_dropWhile_le order.trans)
  also have "length s1 < length s"
    using s(1) by (auto simp: after_prefix_def prefix_def split: if_splits)
  finally show ?thesis .
qed

text \<open>\<open>finditer\<close> and \<open>sub\<close> see the text as these pieces.\<close>

function pieces :: "string \<Rightarrow> string \<Rightarrow> piece list" where
  "pieces name [] = []"
| "pieces name (c # cs) =
     (case placeholder name (c # cs) of
        None \<Rightarrow> Text c # pieces name cs
      | Some (key, d, rest) \<Rightarrow> Variable key d # pieces name rest)"
  by pat_completeness auto
termination
  by (relation "measure (\<lambda>(name, s). length s)") (auto dest: placeholder_length)

section \<open>Definitions of variables\<close>

text \<open>\<open>split_properties\<close>: the piece being read, the nesting, and whether a string or an escape is open.\<close>

fun split_loop :: "char \<Rightarrow> string \<Rightarrow> int \<Rightarrow> bool \<Rightarrow> bool \<Rightarrow> string \<Rightarrow> string list" where
  "split_loop delimiter cur depth in_string escaped [] =
     (if strip_text cur \<noteq> [] then [strip_text cur] else [])"
| "split_loop delimiter cur depth in_string escaped (c # cs) =
     (if escaped then split_loop delimiter (cur @ [c]) depth in_string False cs
      else if c = CHR 0x5C then split_loop delimiter (cur @ [c]) depth in_string True cs
      else if c = CHR 0x22 then split_loop delimiter (cur @ [c]) depth (\<not> in_string) False cs
      else let depth' = (if in_string then depth
                         else if c = CHR 0x7B \<or> c = CHR ''['' then depth + 1
                         else if c = CHR 0x7D \<or> c = CHR '']'' then depth - 1 else depth)
           in if \<not> in_string \<and> c = delimiter \<and> depth' = 0
              then strip_text cur # split_loop delimiter [] depth' in_string False cs
              else split_loop delimiter (cur @ [c]) depth' in_string False cs)"

definition split_properties :: "string \<Rightarrow> char \<Rightarrow> string list" where
  "split_properties value delimiter = split_loop delimiter [] 0 False False value"

definition parse_json_value :: "(string \<Rightarrow> json option) \<Rightarrow> string \<Rightarrow> json" where
  "parse_json_value loads value =
     (if value \<noteq> [] \<and> hd value = CHR 0x22 \<and> last value = CHR 0x22 then JStr (butlast (drop 1 value))
      else if value \<noteq> [] \<and> (hd value = CHR ''['' \<or> hd value = CHR 0x7B)
      then (case loads value of None \<Rightarrow> JStr value | Some v \<Rightarrow> v)
      else JStr value)"

text \<open>One property; a text that is not blank has at least one part.\<close>

definition add_property :: "(string \<Rightarrow> json option) \<Rightarrow> dict \<Rightarrow> string \<Rightarrow> dict" where
  "add_property loads properties part =
     (let trimmed = strip_text part
      in if trimmed = [] then properties
         else case split_properties trimmed (CHR ''='') of
                [] \<Rightarrow> properties
              | [name] \<Rightarrow> dict_set (strip_text name) (JBool True) properties
              | name # values \<Rightarrow>
                  dict_set (strip_text name) (parse_json_value loads (strip_text (join_with ''='' values))) properties)"

definition parse_variable_definition :: "(string \<Rightarrow> json option) \<Rightarrow> string \<Rightarrow> dict" where
  "parse_variable_definition loads definition =
     (case split_properties definition (CHR '':'') of
        [] \<Rightarrow> [(''type'', JStr ''text'')]
      | first # parts \<Rightarrow>
          let t = strip_text (if prefix ''type='' first then drop 5 first else first)
          in dict_update [(''type'', JStr (if t = [] then ''text'' else t))] (foldl (add_property loads) [] parts))"

definition allowed_keys :: "string list" where
  "allowed_keys = [''default'', ''label'', ''max'', ''maxlength'', ''min'', ''minlength'', ''options'', ''placeholder'',
     ''required'', ''step'', ''type'']"

definition safe_field :: "string \<Rightarrow> dict \<Rightarrow> dict" where
  "safe_field key d =
     (let f1 = foldl (\<lambda>f k. if has_key d k then dict_set k (get d k) f else f) [(''key'', JStr key)] allowed_keys;
          f2 = (if has_key f1 ''type'' then f1 else dict_set ''type'' (JStr ''text'') f1);
          f3 = (if get f2 ''type'' = JStr ''select'' \<and> \<not> is_list (get f2 ''options'') then dict_set ''options'' (JArr []) f2 else f2)
      in dict_set ''required'' (JBool (truthy (get_or f3 ''required'' (JBool False)))) f3)"

datatype variables_error =
    InvalidKey string | SelectNeedsOptions string | ConflictingDefinitions string | TooLarge
  | MissingValue json | InvalidValue json | TooLong json | NotAnObject | NotAString string

text \<open>
  Python's \<open>==\<close> on JSON values: the order of a dict's entries does not count, and a bool is the
  number 0 or 1.
\<close>

fun py_eq :: "json \<Rightarrow> json \<Rightarrow> bool" where
  "py_eq (JArr xs) (JArr ys) \<longleftrightarrow> list_all2 py_eq xs ys"
| "py_eq (JObj d) (JObj e) \<longleftrightarrow> length d = length e \<and>
     list_all (\<lambda>(k, v). case map_of e k of None \<Rightarrow> False | Some w \<Rightarrow> py_eq v w) d"
| "py_eq (JBool b) (JInt i) \<longleftrightarrow> i = of_bool b"
| "py_eq (JInt i) (JBool b) \<longleftrightarrow> i = of_bool b"
| "py_eq x y \<longleftrightarrow> x = y"

lemma py_eq_str [simp]: "py_eq x (JStr s) \<longleftrightarrow> x = JStr s" "py_eq (JStr s) y \<longleftrightarrow> y = JStr s"
  by (cases x; auto) (cases y; auto)

type_synonym fields_by_key = "(string \<times> dict) list"

text \<open>One placeholder: the fields so far, and those with a definition of their own.\<close>

definition collect_one ::
  "(string \<Rightarrow> json option) \<Rightarrow> fields_by_key \<Rightarrow> fields_by_key \<Rightarrow> string \<Rightarrow> string option \<Rightarrow>
     variables_error + fields_by_key \<times> fields_by_key" where
  "collect_one loads fields typed key d =
     (if \<not> key_matches key then Inl (InvalidKey key)
      else case d of
        None \<Rightarrow> Inr (if map_of fields key = None then fields @ [(key, safe_field key [(''type'', JStr ''text'')])] else fields, typed)
      | Some t \<Rightarrow>
          if strip_text t = []
          then Inr (if map_of fields key = None then fields @ [(key, safe_field key [(''type'', JStr ''text'')])] else fields, typed)
          else let field = safe_field key (parse_variable_definition loads (strip_text t))
               in if get field ''type'' = JStr ''select'' \<and> \<not> truthy (get field ''options'') then Inl (SelectNeedsOptions key)
                  else if case map_of typed key of None \<Rightarrow> False | Some previous \<Rightarrow> \<not> py_eq (JObj previous) (JObj field) then Inl (ConflictingDefinitions key)
                  else Inr (AList.update key field fields, AList.update key field typed))"

fun collect_pieces ::
  "(string \<Rightarrow> json option) \<Rightarrow> fields_by_key \<Rightarrow> fields_by_key \<Rightarrow> piece list \<Rightarrow> variables_error + fields_by_key" where
  "collect_pieces loads fields typed [] = Inr fields"
| "collect_pieces loads fields typed (Text c # ps) = collect_pieces loads fields typed ps"
| "collect_pieces loads fields typed (Variable key d # ps) =
     and_then (collect_one loads fields typed key d) (\<lambda>(f, t). collect_pieces loads f t ps)"

definition collect_chat_variable_fields :: "(string \<Rightarrow> json option) \<Rightarrow> string \<Rightarrow> variables_error + fields_by_key" where
  "collect_chat_variable_fields loads prompt = collect_pieces loads [] [] (pieces CHAT_VARIABLES prompt)"

definition get_chat_variables_schema :: "(string \<Rightarrow> json option) \<Rightarrow> string \<Rightarrow> dict list option" where
  "get_chat_variables_schema loads prompt =
     (case collect_chat_variable_fields loads prompt of
        Inl e \<Rightarrow> None
      | Inr fields \<Rightarrow> if fields = [] then None else Some (map snd fields))"

section \<open>Values\<close>

definition normalize_chat_variables :: "json \<Rightarrow> dict" where
  "normalize_chat_variables v = as_dict v"

definition normalize_user_variables :: "json \<Rightarrow> (string \<times> string) list" where
  "normalize_user_variables v = map (\<lambda>(k, x). (k, as_str x)) (filter (\<lambda>(k, x). is_str x) (as_dict v))"

text \<open>\<open>value.replace('\r\n', '\n')\<close>.\<close>

fun unix_newlines :: "string \<Rightarrow> string" where
  "unix_newlines (a # b # s) =
     (if a = CHR 0x0D \<and> b = CHR 0x0A then CHR 0x0A # unix_newlines s else a # unix_newlines (b # s))"
| "unix_newlines s = s"

fun validate_user_entries :: "(string \<times> json) list \<Rightarrow> variables_error + (string \<times> string) list" where
  "validate_user_entries [] = Inr []"
| "validate_user_entries ((k, v) # rest) =
     (if \<not> key_matches k then Inl (InvalidKey k)
      else if \<not> is_str v then Inl (NotAString k)
      else if int (length (unix_newlines (as_str v))) > MAX_VARIABLE_VALUE_LENGTH then Inl (TooLong (JStr k))
      else and_then (validate_user_entries rest) (\<lambda>r. Inr ((k, unix_newlines (as_str v)) # r)))"

definition validate_user_variables :: "(json \<Rightarrow> string) \<Rightarrow> json \<Rightarrow> variables_error + (string \<times> string) list" where
  "validate_user_variables dumps v =
     (if \<not> is_dict v then Inl NotAnObject
      else if int (length (dumps v)) > MAX_VARIABLES_JSON_LENGTH then Inl TooLarge
      else validate_user_entries (as_dict v))"

definition given :: "json \<Rightarrow> bool" where
  "given v \<longleftrightarrow> v \<notin> {JNull, JStr []}"

text \<open>\<open>_validated_value\<close>; the value and whether the variable has one.\<close>

definition chosen_value :: "string \<Rightarrow> dict \<Rightarrow> dict \<Rightarrow> bool \<Rightarrow> variables_error + json \<times> bool" where
  "chosen_value key field vars required =
     (if given (get vars key) then Inr (get vars key, True)
      else if given (get field ''default'') then Inr (get field ''default'', True)
      else if required \<and> truthy (get field ''required'') then Inl (MissingValue (py_or (get field ''label'') (JStr key)))
      else Inr (JStr [], False))"

definition validated_value :: "string \<Rightarrow> dict \<Rightarrow> dict \<Rightarrow> bool \<Rightarrow> variables_error + json" where
  "validated_value key field vars required =
     (let label = py_or (get field ''label'') (JStr key) in
      and_then (chosen_value key field vars required) (\<lambda>(value, has_value).
        if get field ''type'' = JStr ''select'' \<and> has_value \<and> \<not> list_ex (\<lambda>x. py_eq x value) (as_list (get field ''options''))
        then Inl (InvalidValue label)
        else case value of
          JStr s \<Rightarrow> if int (length (unix_newlines s)) > MAX_VARIABLE_VALUE_LENGTH then Inl (TooLong label)
                    else Inr (JStr (unix_newlines s))
        | _ \<Rightarrow> Inr value))"

definition validate_chat_variables ::
  "(json \<Rightarrow> string) \<Rightarrow> (string \<Rightarrow> json option) \<Rightarrow> string \<Rightarrow> json \<Rightarrow> bool \<Rightarrow> variables_error + dict" where
  "validate_chat_variables dumps loads prompt variables required =
     and_then (collect_chat_variable_fields loads prompt) (\<lambda>fields.
       let vars = normalize_chat_variables variables
       in if int (length (dumps (JObj vars))) > MAX_VARIABLES_JSON_LENGTH then Inl TooLarge
          else traverse (\<lambda>(k, f). and_then (validated_value k f vars required) (\<lambda>v. Inr (k, v))) fields)"

section \<open>Filling in\<close>

definition renderable_chat_variables ::
  "(json \<Rightarrow> string) \<Rightarrow> (string \<Rightarrow> json option) \<Rightarrow> string \<Rightarrow> json \<Rightarrow> bool \<Rightarrow> dict" where
  "renderable_chat_variables dumps loads prompt variables required =
     (case collect_chat_variable_fields loads prompt of
        Inl e \<Rightarrow> []
      | Inr fields \<Rightarrow>
          let vars = normalize_chat_variables variables
          in if int (length (dumps (JObj vars))) > MAX_VARIABLES_JSON_LENGTH then []
             else concat (map (\<lambda>(k, f). case validated_value k f vars required of
                                 Inl e \<Rightarrow> [] | Inr v \<Rightarrow> [(k, v)]) fields))"

fun fill :: "(string \<Rightarrow> string) \<Rightarrow> piece list \<Rightarrow> string" where
  "fill value [] = []"
| "fill value (Text c # ps) = c # fill value ps"
| "fill value (Variable key d # ps) = value key @ fill value ps"

definition render_chat_variables ::
  "(json \<Rightarrow> string) \<Rightarrow> (json \<Rightarrow> string) \<Rightarrow> (string \<Rightarrow> json option) \<Rightarrow> string \<Rightarrow> json \<Rightarrow> bool \<Rightarrow> string" where
  "render_chat_variables repr dumps loads prompt variables required =
     (let validated = renderable_chat_variables dumps loads prompt variables required
      in fill (\<lambda>key. let v = get_or validated key (JStr []) in if v = JNull then [] else py_str repr v)
           (pieces CHAT_VARIABLES prompt))"

definition render_user_variables :: "string \<Rightarrow> json \<Rightarrow> string" where
  "render_user_variables prompt variables =
     (let vars = normalize_user_variables variables
      in fill (\<lambda>key. if key_matches key then (case map_of vars key of None \<Rightarrow> [] | Some v \<Rightarrow> v) else [])
           (pieces USER_VARIABLES prompt))"

section \<open>What collecting finds\<close>

definition variables_of :: "piece list \<Rightarrow> string set" where
  "variables_of ps = {k. \<exists>d. Variable k d \<in> set ps}"

lemma variables_of_simps [simp]:
  "variables_of [] = {}" "variables_of (Text c # ps) = variables_of ps"
  "variables_of (Variable k d # ps) = insert k (variables_of ps)"
  by (auto simp: variables_of_def)

text \<open>A field knows its key, says whether it is required, and offers options when it is a select.\<close>

definition field_ok :: "string \<Rightarrow> dict \<Rightarrow> bool" where
  "field_ok key f \<longleftrightarrow> get f ''key'' = JStr key \<and> (\<exists>b. get f ''required'' = JBool b) \<and>
     (get f ''type'' = JStr ''select'' \<longrightarrow> is_list (get f ''options'') \<and> as_list (get f ''options'') \<noteq> [])"

definition fields_ok :: "fields_by_key \<Rightarrow> bool" where
  "fields_ok fields \<longleftrightarrow> distinct (map fst fields) \<and> (\<forall>(k, f) \<in> set fields. key_matches k \<and> field_ok k f)"

lemma copied_keys: "k \<notin> set ks \<Longrightarrow> map_of (foldl (\<lambda>f k. if has_key d k then dict_set k (get d k) f else f) f0 ks) k = map_of f0 k"
  by (induction ks arbitrary: f0) auto

lemma safe_field_key: "get (safe_field key d) ''key'' = JStr key"
proof -
  have "''key'' \<notin> set allowed_keys" by (simp add: allowed_keys_def)
  then have "get (foldl (\<lambda>f k. if has_key d k then dict_set k (get d k) f else f) [(''key'', JStr key)] allowed_keys) ''key''
      = JStr key"
    by (simp add: get_or_def copied_keys)
  then show ?thesis by (simp add: safe_field_def Let_def get_or_dict_set)
qed

lemma safe_field_required: "\<exists>b. get (safe_field key d) ''required'' = JBool b"
  by (simp add: safe_field_def Let_def get_or_dict_set)

lemma safe_field_select:
  "get (safe_field key d) ''type'' = JStr ''select'' \<Longrightarrow> is_list (get (safe_field key d) ''options'')"
  by (auto simp: safe_field_def Let_def get_or_dict_set split: if_splits)

lemma safe_field_text: "get (safe_field key [(''type'', JStr ''text'')]) ''type'' = JStr ''text''"
  by (simp add: safe_field_def allowed_keys_def has_key_def get_or_def dict_set_def)

lemma truthy_list: "is_list v \<Longrightarrow> truthy v \<longleftrightarrow> as_list v \<noteq> []"
  by (cases v) auto

lemma field_ok_text: "field_ok key (safe_field key [(''type'', JStr ''text'')])"
  by (simp add: field_ok_def safe_field_key safe_field_required safe_field_text)

lemma field_ok_typed:
  "\<not> (get (safe_field key d) ''type'' = JStr ''select'' \<and> \<not> truthy (get (safe_field key d) ''options'')) \<Longrightarrow>
     field_ok key (safe_field key d)"
  using safe_field_select [of key d] truthy_list by (auto simp: field_ok_def safe_field_key safe_field_required)

lemma collect_one_ok:
  assumes "collect_one loads fields typed key d = Inr (f, t)" and "fields_ok fields"
  shows "fields_ok f \<and> fst ` set f = insert key (fst ` set fields)"
proof -
  from assms(1) have km: "key_matches key" by (auto simp: collect_one_def split: if_splits)
  from assms(1) consider (kept) "f = fields" "map_of fields key \<noteq> None"
    | (plain) "f = fields @ [(key, safe_field key [(''type'', JStr ''text'')])]" "map_of fields key = None"
    | (defined) g where "f = AList.update key g fields" "field_ok key g"
    using field_ok_typed [of key] by (auto simp: collect_one_def Let_def split: option.splits if_splits)
  then show ?thesis
  proof cases
    case kept
    then show ?thesis using assms(2) by (auto simp: map_of_eq_None_iff)
  next
    case plain
    then show ?thesis using assms(2) km field_ok_text by (auto simp: fields_ok_def map_of_eq_None_iff)
  next
    case defined
    then show ?thesis using assms(2) km set_update_subset [of key g fields] by (auto simp: fields_ok_def)
  qed
qed

lemma collect_pieces_ok:
  "collect_pieces loads fields typed ps = Inr out \<Longrightarrow> fields_ok fields \<Longrightarrow>
     fields_ok out \<and> fst ` set out = fst ` set fields \<union> variables_of ps"
proof (induction loads fields typed ps rule: collect_pieces.induct)
  case (3 loads fields typed key d ps)
  from 3(2) obtain f t where one: "collect_one loads fields typed key d = Inr (f, t)"
    and rest: "collect_pieces loads f t ps = Inr out" by (auto simp: and_then_Inr)
  from collect_one_ok [OF one 3(3)] 3(1) [OF rest] show ?case by auto
qed auto

lemma collected:
  assumes "collect_chat_variable_fields loads prompt = Inr fields"
  shows "fields_ok fields" and "fst ` set fields = variables_of (pieces CHAT_VARIABLES prompt)"
  using collect_pieces_ok [OF assms [unfolded collect_chat_variable_fields_def]] by (simp_all add: fields_ok_def)

section \<open>What is filled in\<close>

text \<open>The text shown for one variable: its own value when it has a valid one, nothing otherwise.\<close>

definition shown_value :: "(json \<Rightarrow> string) \<Rightarrow> fields_by_key \<Rightarrow> dict \<Rightarrow> bool \<Rightarrow> string \<Rightarrow> string" where
  "shown_value repr fields vars required key =
     (case map_of fields key of None \<Rightarrow> []
      | Some f \<Rightarrow> (case validated_value key f vars required of Inl e \<Rightarrow> []
                   | Inr v \<Rightarrow> if v = JNull then [] else py_str repr v))"

lemma map_of_valid:
  "distinct (map fst fields) \<Longrightarrow>
   map_of (concat (map (\<lambda>(k, f). case V k f of Inl e \<Rightarrow> [] | Inr v \<Rightarrow> [(k, v)]) fields)) key =
     (case map_of fields key of None \<Rightarrow> None | Some f \<Rightarrow> (case V key f of Inl e \<Rightarrow> None | Inr v \<Rightarrow> Some v))"
proof (induction fields)
  case (Cons x fields)
  obtain k f where x: "x = (k, f)" by force
  have "map_of fields k = None" using Cons.prems by (simp add: x map_of_eq_None_iff)
  then show ?case using Cons by (auto simp: x map_add_def split: sum.splits option.splits)
qed simp

lemma fill_cong: "(\<And>k. k \<in> variables_of ps \<Longrightarrow> f k = g k) \<Longrightarrow> fill f ps = fill g ps"
  by (induction f ps rule: fill.induct) auto

text \<open>
  C39. What a prompt is filled with. When a definition is unreadable or a key invalid, or the
  values are over the size limit of 100000 characters as JSON, every placeholder is left blank.
  Otherwise the prompt is filled in piece by piece, and what stands for one variable depends on
  that variable's definition and value alone: an invalid value blanks its own variable and no
  other. Every placeholder has exactly one field, with a valid key, and a select field has options.
\<close>

theorem rendered_by_own_value:
  "render_chat_variables repr dumps loads prompt variables required =
     (case collect_chat_variable_fields loads prompt of
        Inl e \<Rightarrow> fill (\<lambda>_. []) (pieces CHAT_VARIABLES prompt)
      | Inr fields \<Rightarrow>
          if int (length (dumps (JObj (normalize_chat_variables variables)))) > MAX_VARIABLES_JSON_LENGTH
          then fill (\<lambda>_. []) (pieces CHAT_VARIABLES prompt)
          else fill (shown_value repr fields (normalize_chat_variables variables) required) (pieces CHAT_VARIABLES prompt))
   \<and> (case collect_chat_variable_fields loads prompt of
        Inl e \<Rightarrow> True
      | Inr fields \<Rightarrow> distinct (map fst fields) \<and> fst ` set fields = variables_of (pieces CHAT_VARIABLES prompt)
          \<and> list_all (\<lambda>(k, f). key_matches k \<and> field_ok k f) fields)"
proof (cases "collect_chat_variable_fields loads prompt")
  case (Inl e)
  then show ?thesis by (simp add: render_chat_variables_def renderable_chat_variables_def get_or_def)
next
  case (Inr fields)
  let ?vars = "normalize_chat_variables variables"
  let ?v = "renderable_chat_variables dumps loads prompt variables required"
  note ok = collected [OF Inr]
  have d: "distinct (map fst fields)" using ok(1) by (simp add: fields_ok_def)
  have facts: "fst ` set fields = variables_of (pieces CHAT_VARIABLES prompt) \<and> list_all (\<lambda>(k, f). key_matches k \<and> field_ok k f) fields"
    using ok by (auto simp: fields_ok_def list_all_iff)
  show ?thesis
  proof (cases "int (length (dumps (JObj ?vars))) > MAX_VARIABLES_JSON_LENGTH")
    case True
    then show ?thesis using d facts
      by (simp add: Inr render_chat_variables_def renderable_chat_variables_def get_or_def)
  next
    case False
    have v: "?v = concat (map (\<lambda>(k, f). case validated_value k f ?vars required of Inl e \<Rightarrow> [] | Inr v \<Rightarrow> [(k, v)]) fields)"
      using False by (simp add: Inr renderable_chat_variables_def Let_def)
    have "(let v = get_or ?v key (JStr []) in if v = JNull then [] else py_str repr v) = shown_value repr fields ?vars required key" for key
      unfolding v get_or_def map_of_valid [OF d] by (auto simp: shown_value_def Let_def split: option.splits sum.splits)
    then have "render_chat_variables repr dumps loads prompt variables required
        = fill (shown_value repr fields ?vars required) (pieces CHAT_VARIABLES prompt)"
      by (auto simp: render_chat_variables_def Let_def intro!: fill_cong)
    then show ?thesis using False d facts by (simp add: Inr)
  qed
qed

section \<open>What validation lets through\<close>

lemma validated_value_ok:
  assumes "validated_value key f vars required = Inr v"
  shows "(\<forall>s. v = JStr s \<longrightarrow> int (length s) \<le> MAX_VARIABLE_VALUE_LENGTH)"
    and "required \<Longrightarrow> truthy (get f ''required'') \<Longrightarrow> given (get vars key) \<or> given (get f ''default'')"
  using assms by (auto simp: validated_value_def chosen_value_def Let_def and_then_Inr split: if_splits json.splits)

lemma validated_select:
  assumes "validated_value key f vars required = Inr v" and "get f ''type'' = JStr ''select''"
  shows "v = JStr [] \<or> (\<exists>x \<in> set (as_list (get f ''options'')). py_eq x v \<or> (\<exists>s. x = JStr s \<and> v = JStr (unix_newlines s)))"
  using assms by (auto simp: validated_value_def chosen_value_def Let_def and_then_Inr list_ex_iff split: if_splits json.splits)

lemma traverse_keys:
  "traverse (\<lambda>(k, f). and_then (V k f) (\<lambda>v. Inr (k, v))) fields = Inr out \<Longrightarrow>
     map fst out = map fst fields \<and> (\<forall>(k, v) \<in> set out. \<exists>f. (k, f) \<in> set fields \<and> V k f = Inr v)"
proof (induction fields arbitrary: out)
  case (Cons x fields)
  then show ?case by (cases x) (fastforce simp: and_then_Inr)
qed simp

text \<open>
  The values that pass the check of a chat's variables are one for each placeholder of the
  prompt, no text longer than the limit; the value of a select is empty or one of its options, and
  a required variable has a value or a default.
\<close>

theorem validated_values_bounded:
  assumes "validate_chat_variables dumps loads prompt variables required = Inr out"
  shows "fst ` set out = variables_of (pieces CHAT_VARIABLES prompt) \<and>
    (\<exists>fields. collect_chat_variable_fields loads prompt = Inr fields \<and>
      (\<forall>(k, v) \<in> set out. \<exists>f. (k, f) \<in> set fields \<and> (\<forall>s. v = JStr s \<longrightarrow> int (length s) \<le> MAX_VARIABLE_VALUE_LENGTH) \<and>
        (get f ''type'' = JStr ''select'' \<longrightarrow> v = JStr [] \<or>
           (\<exists>x \<in> set (as_list (get f ''options'')). py_eq x v \<or> (\<exists>s. x = JStr s \<and> v = JStr (unix_newlines s)))) \<and>
        (required \<longrightarrow> truthy (get f ''required'') \<longrightarrow>
           given (get (normalize_chat_variables variables) k) \<or> given (get f ''default''))))"
proof -
  from assms obtain fields where f: "collect_chat_variable_fields loads prompt = Inr fields"
    and t: "traverse (\<lambda>(k, f). and_then (validated_value k f (normalize_chat_variables variables) required) (\<lambda>v. Inr (k, v))) fields = Inr out"
    by (auto simp: validate_chat_variables_def and_then_Inr Let_def split: if_splits)
  note tk = traverse_keys [OF t]
  have "fst ` set out = fst ` set fields" using tk by (metis list.set_map)
  moreover have "\<forall>(k, v) \<in> set out. \<exists>f. (k, f) \<in> set fields \<and> (\<forall>s. v = JStr s \<longrightarrow> int (length s) \<le> MAX_VARIABLE_VALUE_LENGTH) \<and>
        (get f ''type'' = JStr ''select'' \<longrightarrow> v = JStr [] \<or>
           (\<exists>x \<in> set (as_list (get f ''options'')). py_eq x v \<or> (\<exists>s. x = JStr s \<and> v = JStr (unix_newlines s)))) \<and>
        (required \<longrightarrow> truthy (get f ''required'') \<longrightarrow>
           given (get (normalize_chat_variables variables) k) \<or> given (get f ''default''))"
  proof (intro ballI, clarify)
    fix k v assume "(k, v) \<in> set out"
    with tk obtain f where f: "(k, f) \<in> set fields" "validated_value k f (normalize_chat_variables variables) required = Inr v"
      by fastforce
    note ok = validated_value_ok [OF f(2)] validated_select [OF f(2)]
    show "\<exists>f. (k, f) \<in> set fields \<and> (\<forall>s. v = JStr s \<longrightarrow> int (length s) \<le> MAX_VARIABLE_VALUE_LENGTH) \<and>
        (get f ''type'' = JStr ''select'' \<longrightarrow> v = JStr [] \<or>
           (\<exists>x \<in> set (as_list (get f ''options'')). py_eq x v \<or> (\<exists>s. x = JStr s \<and> v = JStr (unix_newlines s)))) \<and>
        (required \<longrightarrow> truthy (get f ''required'') \<longrightarrow>
           given (get (normalize_chat_variables variables) k) \<or> given (get f ''default''))"
      using ok by (intro exI [of _ f] conjI impI f(1)) assumption+
  qed
  ultimately show ?thesis using f collected(2) [OF f] by auto
qed

section \<open>Witnesses\<close>

definition sample_prompt :: string where
  "sample_prompt = ''Hi '' @ [CHR 0x7B, CHR 0x7B] @ ''chat.variables.tone | select:options=[dry]:default=dry'' @ [CHR 0x7D, CHR 0x7D]
     @ ''!'' @ [CHR 0x7B, CHR 0x7B] @ '' chat.variables.name '' @ [CHR 0x7D, CHR 0x7D]"

definition sample_loads :: "string \<Rightarrow> json option" where
  "sample_loads s = (if s = ''[dry]'' then Some (JArr [JStr ''dry'']) else None)"

definition sample_fields :: fields_by_key where
  "sample_fields = (case collect_chat_variable_fields sample_loads sample_prompt of Inl e \<Rightarrow> [] | Inr f \<Rightarrow> f)"

lemma sample_collected: "collect_chat_variable_fields sample_loads sample_prompt = Inr sample_fields"
  by code_simp

theorem rendered_by_own_value_witness:
  "render_chat_variables (\<lambda>_. []) (\<lambda>_. []) sample_loads sample_prompt
     (JObj [(''tone'', JStr ''loud''), (''name'', JStr ''Ada'')]) True = ''Hi !Ada''"
proof -
  have n: "normalize_chat_variables (JObj [(''tone'', JStr ''loud''), (''name'', JStr ''Ada'')])
      = [(''tone'', JStr ''loud''), (''name'', JStr ''Ada'')]" by code_simp
  have "fill (shown_value (\<lambda>_. []) sample_fields [(''tone'', JStr ''loud''), (''name'', JStr ''Ada'')] True)
      (pieces CHAT_VARIABLES sample_prompt) = ''Hi !Ada''" by code_simp
  then show ?thesis
    using rendered_by_own_value [of "\<lambda>_. []" "\<lambda>_. []" sample_loads sample_prompt
      "JObj [(''tone'', JStr ''loud''), (''name'', JStr ''Ada'')]" True]
    by (simp add: sample_collected n MAX_VARIABLES_JSON_LENGTH_def)
qed

text \<open>Definitions whose fields differ in the order of their entries only do not conflict.\<close>

lemma same_definition_twice:
  "map_option snd (case collect_one (\<lambda>_. None) [] [] ''a'' (Some (''text:required='' @ [CHR 0x22, CHR 0x22])) of
       Inl e \<Rightarrow> None
     | Inr (f, t) \<Rightarrow> (case collect_one (\<lambda>_. None) f t ''a'' (Some ''text'') of
         Inl e \<Rightarrow> None | Inr ft \<Rightarrow> Some ft)) \<noteq> None"
  by code_simp

theorem validated_values_bounded_witness:
  "fst ` set [(''tone'', JStr ''dry''), (''name'', JStr ''Ada'')] = variables_of (pieces CHAT_VARIABLES sample_prompt)"
proof -
  have "validate_chat_variables (\<lambda>_. []) sample_loads sample_prompt (JObj [(''name'', JStr ''Ada'')]) True
      = Inr [(''tone'', JStr ''dry''), (''name'', JStr ''Ada'')]"
  proof -
    have "traverse (\<lambda>(k, f). and_then (validated_value k f [(''name'', JStr ''Ada'')] True) (\<lambda>v. Inr (k, v))) sample_fields
        = Inr [(''tone'', JStr ''dry''), (''name'', JStr ''Ada'')]" by code_simp
    then show ?thesis
      by (simp add: validate_chat_variables_def sample_collected normalize_chat_variables_def MAX_VARIABLES_JSON_LENGTH_def)
  qed
  from validated_values_bounded [OF this] show ?thesis by blast
qed

end
