(* ===== verification/OutputMessages.thy ===== *)
theory OutputMessages
  imports PyJson
begin

text \<open>
  The stored output of a reply and the chat messages rebuilt from it (\<open>utils/misc.py\<close>, from
  \<open>get_content_from_message\<close> to \<open>convert_output_to_messages\<close>). Messages and output items are
  dicts, and so are the parts and tool calls inside them; text fields are strings. The \<open>repr\<close>
  of a value that is no string, \<open>JSONCodec.dumps\<close> and the new uuid are arguments.
\<close>

section \<open>Text of a message\<close>

definition parts_of :: "dict \<Rightarrow> string \<Rightarrow> dict list" where
  "parts_of item k = map as_dict (as_list (get item k))"

text \<open>\<open>get_output_text\<close>: the texts of the message items that are not blank, one per line.\<close>

definition item_output_text :: "(json \<Rightarrow> string) \<Rightarrow> json \<Rightarrow> string option" where
  "item_output_text repr item =
     (case item of
        JObj d \<Rightarrow>
          (if get d ''type'' \<noteq> JStr ''message'' \<or> truthy (get d ''content'') \<and> \<not> is_list (get d ''content'') then None
           else let text = concat (map (\<lambda>p. py_str repr (get (as_dict p) ''text''))
                     (filter (\<lambda>p. is_dict p \<and> get (as_dict p) ''text'' \<noteq> JNull) (as_list (get d ''content''))))
           in if text \<noteq> [] \<and> \<not> list_all is_py_space text then Some text else None)
      | _ \<Rightarrow> None)"

definition get_output_text :: "(json \<Rightarrow> string) \<Rightarrow> json \<Rightarrow> string" where
  "get_output_text repr output = join_lines (List.map_filter (item_output_text repr) (as_list output))"

definition get_content_from_message :: "(json \<Rightarrow> string) \<Rightarrow> dict \<Rightarrow> json" where
  "get_content_from_message repr m =
     (let content = get m ''content'';
          text = get_output_text repr (get m ''output'');
          otherwise = (if text \<noteq> [] then JStr text else if is_str content then content else JNull)
      in case content of
           JArr parts \<Rightarrow>
             (case find (\<lambda>p. is_dict p \<and> get (as_dict p) ''type'' = JStr ''text'') parts of
                Some p \<Rightarrow> get (as_dict p) ''text'' | None \<Rightarrow> otherwise)
         | _ \<Rightarrow> if truthy content then content else otherwise)"

section \<open>Replacing the text of an output\<close>

definition is_item :: "string list \<Rightarrow> json \<Rightarrow> bool" where
  "is_item types item \<longleftrightarrow> is_dict item \<and> get (as_dict item) ''type'' \<in> JStr ` set types"

definition text_item :: "string \<Rightarrow> json \<Rightarrow> string \<Rightarrow> json" where
  "text_item uuid old_id text =
     JObj [(''type'', JStr ''message''), (''id'', py_or old_id (JStr (''msg_'' @ uuid))), (''role'', JStr ''assistant''),
       (''status'', JStr ''completed''), (''content'', JArr [JObj [(''type'', JStr ''output_text''), (''text'', JStr text)]])]"

fun replace_items :: "nat option \<Rightarrow> json list \<Rightarrow> nat \<Rightarrow> json list \<Rightarrow> json list" where
  "replace_items last_at edited n [] = []"
| "replace_items last_at edited n (item # items) =
     (if last_at = Some n then edited else []) @ (if is_item [''message'', ''reasoning''] item then [] else [item])
       @ replace_items last_at edited (Suc n) items"

fun last_message_at :: "nat \<Rightarrow> json list \<Rightarrow> nat option" where
  "last_message_at n [] = None"
| "last_message_at n (item # items) =
     (case last_message_at (Suc n) items of
        Some i \<Rightarrow> Some i | None \<Rightarrow> if is_item [''message''] item then Some n else None)"

definition with_output_text :: "string \<Rightarrow> json list \<Rightarrow> string \<Rightarrow> json list" where
  "with_output_text uuid output new_text =
     (let text = strip_text new_text;
          last_at = last_message_at 0 output;
          old_id = (case last_at of None \<Rightarrow> JNull | Some i \<Rightarrow> get (as_dict (output ! i)) ''id'');
          edited = (if text \<noteq> [] then [text_item uuid old_id text] else []);
          kept = replace_items last_at edited 0 output
      in if last_at \<noteq> None then kept else kept @ edited)"

section \<open>Pairing tool calls and results\<close>

definition completed_tool_call_ids :: "dict list \<Rightarrow> json list" where
  "completed_tool_call_ids msgs =
     filter truthy (map (\<lambda>m. get m ''tool_call_id'') (filter (\<lambda>m. get m ''role'' = JStr ''tool'') msgs))"

definition call_id :: "json \<Rightarrow> json" where
  "call_id c = get (as_dict c) ''id''"

definition tool_calls_of :: "dict \<Rightarrow> json list" where
  "tool_calls_of m = as_list (get m ''tool_calls'')"

definition requested_tool_call_ids :: "dict list \<Rightarrow> json list" where
  "requested_tool_call_ids msgs =
     filter truthy (concat (map (\<lambda>m. map call_id (tool_calls_of m)) (filter (\<lambda>m. get m ''role'' = JStr ''assistant'') msgs)))"

definition has_meaningful_content :: "(json \<Rightarrow> string) \<Rightarrow> dict \<Rightarrow> bool" where
  "has_meaningful_content repr m =
     (case py_or (get_content_from_message repr m) (JStr []) of JStr s \<Rightarrow> strip_text s \<noteq> [] | v \<Rightarrow> truthy v)"

definition reconcile_message :: "(json \<Rightarrow> string) \<Rightarrow> json set \<Rightarrow> json set \<Rightarrow> dict \<Rightarrow> dict option" where
  "reconcile_message repr completed requested m =
     (if get m ''role'' = JStr ''tool'' \<and> get m ''tool_call_id'' \<notin> requested then None
      else if get m ''role'' \<noteq> JStr ''assistant'' \<or> \<not> truthy (get m ''tool_calls'') then Some m
      else let valid = filter (\<lambda>c. call_id c \<in> completed) (tool_calls_of m)
      in if valid \<noteq> [] then Some (dict_set ''tool_calls'' (JArr valid) m)
         else if has_meaningful_content repr m \<or> truthy (get m ''reasoning_content'') then Some (dict_pop ''tool_calls'' m)
         else None)"

definition reconcile_tool_pairs :: "(json \<Rightarrow> string) \<Rightarrow> dict list \<Rightarrow> dict list" where
  "reconcile_tool_pairs repr msgs =
     List.map_filter (reconcile_message repr (set (completed_tool_call_ids msgs)) (set (requested_tool_call_ids msgs))) msgs"

section \<open>Rebuilding messages from output items\<close>

record builder =
  ob_messages :: "dict list"
  ob_content :: "string list"
  ob_calls :: "json list"
  ob_reasoning :: "string list"
  ob_details :: "json list"
  ob_outputs :: "dict list"
  ob_images :: "json list"

record build_config =
  bc_raw :: bool
  bc_reasoning_format :: "string option"
  bc_flatten_tool_images :: bool
  bc_call_ids :: "json set"

definition new_builder :: builder where
  "new_builder = \<lparr>ob_messages = [], ob_content = [], ob_calls = [], ob_reasoning = [], ob_details = [], ob_outputs = [], ob_images = []\<rparr>"

definition ids_of_items :: "(dict \<Rightarrow> bool) \<Rightarrow> dict list \<Rightarrow> json set" where
  "ids_of_items P output = set (filter truthy (map (\<lambda>i. get i ''call_id'') (filter P output)))"

definition function_call_ids :: "dict list \<Rightarrow> json set" where
  "function_call_ids output =
     ids_of_items (\<lambda>i. get i ''type'' = JStr ''function_call'' \<and> get i ''status'' \<in> {JStr ''completed'', JStr ''failed'', JStr ''rejected''}) output
     \<inter> ids_of_items (\<lambda>i. get i ''type'' = JStr ''function_call_output'') output"

definition tool_output_text :: "(json \<Rightarrow> string) \<Rightarrow> dict \<Rightarrow> string" where
  "tool_output_text repr item = concat (map (\<lambda>p. py_str repr (get_or p ''text'' (JStr [])))
     (filter (\<lambda>p. get p ''type'' = JStr ''input_text'') (parts_of item ''output'')))"

definition tool_output_images :: "dict \<Rightarrow> json list" where
  "tool_output_images item = filter truthy (map (\<lambda>p. get_or p ''image_url'' (JStr []))
     (filter (\<lambda>p. get p ''type'' = JStr ''input_image'') (parts_of item ''output'')))"

definition replayable_reasoning_details :: "dict \<Rightarrow> bool \<Rightarrow> json list" where
  "replayable_reasoning_details item raw =
     (let details = (if raw then get item ''reasoning_details'' else JNull)
      in if \<not> truthy details then []
         else filter (\<lambda>d. is_dict d \<and> (get (as_dict d) ''format'' \<noteq> JStr ''anthropic-claude-v1'' \<or> truthy (get (as_dict d) ''signature'')))
                (if is_list details then as_list details else [details]))"

definition reasoning_item_text :: "dict \<Rightarrow> string" where
  "reasoning_item_text item =
     concat (map (\<lambda>p. as_str (get_or p ''text'' (JStr [])))
       (filter (\<lambda>p. get p ''type'' = JStr ''output_text'' \<or> has_key p ''text'')
         (if truthy (get item ''summary'') then parts_of item ''summary'' else parts_of item ''content'')))"

definition tagged :: "string \<Rightarrow> string \<Rightarrow> string" where
  "tagged tag s = ''<'' @ tag @ ''>'' @ [CHR 0x0A] @ s @ [CHR 0x0A] @ ''</'' @ tag @ ''>''"

definition code_interpreter_contents :: "(json \<Rightarrow> string) \<Rightarrow> dict \<Rightarrow> string list" where
  "code_interpreter_contents repr item =
     (let code = get_or item ''code'' (JStr []); out = get_or item ''output'' (JStr []);
          text = (case out of JObj d \<Rightarrow> py_or (get_or d ''stdout'' (JStr [])) (get_or d ''result'' (JStr [])) | _ \<Rightarrow> JStr (py_str repr out))
      in (if truthy code then [tagged ''code_interpreter'' (py_str repr code)] else [])
         @ (if truthy out \<and> truthy text then [tagged ''code_interpreter_output'' (py_str repr text)] else []))"

definition flush_pending :: "build_config \<Rightarrow> builder \<Rightarrow> builder" where
  "flush_pending cfg b =
     (if ob_content b = [] \<and> ob_calls b = [] \<and> ob_reasoning b = [] \<and> ob_details b = [] then b
      else let m0 = [(''role'', JStr ''assistant''), (''content'', JStr (join_lines (ob_content b)))]
                 @ (if ob_calls b \<noteq> [] then [(''tool_calls'', JArr (ob_calls b))] else []);
               m1 = (if ob_reasoning b = [] then m0
                 else dict_set (if bc_reasoning_format cfg = Some ''thinking'' then ''thinking'' else ''reasoning_content'')
                   (JStr (join_lines (ob_reasoning b))) m0);
               m2 = (if ob_details b = [] then m1 else dict_set ''reasoning_details'' (JArr (ob_details b)) m1)
      in b\<lparr>ob_messages := ob_messages b @ [m2], ob_content := [], ob_calls := [], ob_reasoning := [], ob_details := []\<rparr>)"

definition image_part :: "json \<Rightarrow> json" where
  "image_part url = JObj [(''type'', JStr ''image_url''), (''image_url'', JObj [(''url'', url)])]"

definition flush_tool_images :: "builder \<Rightarrow> builder" where
  "flush_tool_images b =
     (if ob_images b = [] then b
      else b\<lparr>ob_messages := ob_messages b @ [[(''role'', JStr ''user''), (''content'', JArr
               (JObj [(''type'', JStr ''text''),
                      (''text'', JStr ''Here are the images from the tool results above. Please analyze them.'')]
                # map image_part (ob_images b)))]], ob_images := []\<rparr>)"

definition tool_output_message :: "(json \<Rightarrow> string) \<Rightarrow> bool \<Rightarrow> dict \<Rightarrow> dict" where
  "tool_output_message repr flatten item =
     [(''role'', JStr ''tool''), (''tool_call_id'', get_or item ''call_id'' (JStr [])),
      (''content'', if \<not> flatten \<and> tool_output_images item \<noteq> []
         then JArr (JObj [(''type'', JStr ''input_text''), (''text'', JStr (tool_output_text repr item))]
           # map (\<lambda>url. JObj [(''type'', JStr ''input_image''), (''image_url'', url)]) (tool_output_images item))
         else JStr (tool_output_text repr item))]"

definition flush_tool_outputs :: "(json \<Rightarrow> string) \<Rightarrow> build_config \<Rightarrow> builder \<Rightarrow> builder" where
  "flush_tool_outputs repr cfg b =
     (if ob_outputs b = [] then b
      else let b1 = flush_pending cfg b
      in b1\<lparr>ob_messages := ob_messages b1 @ map (tool_output_message repr (bc_flatten_tool_images cfg)) (ob_outputs b),
             ob_images := ob_images b1 @ (if bc_flatten_tool_images cfg then concat (map tool_output_images (ob_outputs b)) else []),
             ob_outputs := []\<rparr>)"

definition add_function_call :: "(json \<Rightarrow> string) \<Rightarrow> build_config \<Rightarrow> dict \<Rightarrow> builder \<Rightarrow> builder" where
  "add_function_call dumps cfg item b =
     (if get item ''call_id'' \<notin> bc_call_ids cfg then b
      else let arguments = get_or item ''arguments'' (JStr ''{}'')
      in b\<lparr>ob_calls := ob_calls b @ [JObj [(''id'', get_or item ''call_id'' (JStr [])), (''type'', JStr ''function''),
             (''function'', JObj [(''name'', get_or item ''name'' (JStr [])),
                (''arguments'', if is_str arguments then arguments else JStr (dumps arguments))])]]\<rparr>)"

definition add_reasoning :: "(json \<Rightarrow> string) \<Rightarrow> build_config \<Rightarrow> dict \<Rightarrow> builder \<Rightarrow> builder" where
  "add_reasoning repr cfg item b =
     (let details = replayable_reasoning_details item (bc_raw cfg);
          text = reasoning_item_text item
      in if (bc_reasoning_format cfg = None \<or> bc_reasoning_format cfg = Some []) \<and> details = [] then b
         else let b1 = (if text = [] then b
                else if bc_reasoning_format cfg = Some ''think_tags''
                then b\<lparr>ob_content := ob_content b @ [py_str repr (get_or item ''start_tag'' (JStr ''<think>'')) @ text
                        @ py_str repr (get_or item ''end_tag'' (JStr ''</think>''))]\<rparr>
                else if bc_reasoning_format cfg \<in> {Some ''thinking'', Some ''reasoning_content''}
                then b\<lparr>ob_reasoning := ob_reasoning b @ [text]\<rparr> else b)
         in b1\<lparr>ob_details := ob_details b1 @ details\<rparr>)"

definition message_item_text :: "dict \<Rightarrow> string" where
  "message_item_text item =
     concat (map (\<lambda>p. as_str (get_or p ''text'' (JStr []))) (filter (\<lambda>p. get p ''type'' = JStr ''output_text'') (parts_of item ''content'')))"

definition add_item :: "(json \<Rightarrow> string) \<Rightarrow> (json \<Rightarrow> string) \<Rightarrow> build_config \<Rightarrow> dict \<Rightarrow> builder \<Rightarrow> builder" where
  "add_item repr dumps cfg item b =
     (let t = get_or item ''type'' (JStr []);
          b1 = (if t \<noteq> JStr ''function_call'' \<and> t \<noteq> JStr ''function_call_output''
                then flush_tool_images (flush_tool_outputs repr cfg b) else b)
      in if t = JStr ''message''
         then (if message_item_text item \<noteq> [] then b1\<lparr>ob_content := ob_content b1 @ [message_item_text item]\<rparr> else b1)
         else if t = JStr ''function_call'' then add_function_call dumps cfg item b1
         else if t = JStr ''function_call_output''
         then (if get item ''call_id'' \<in> bc_call_ids cfg then b1\<lparr>ob_outputs := ob_outputs b1 @ [item]\<rparr> else b1)
         else if t = JStr ''reasoning'' then add_reasoning repr cfg item b1
         else if t = JStr ''open_webui:code_interpreter''
         then b1\<lparr>ob_content := ob_content b1 @ code_interpreter_contents repr item\<rparr>
         else b1)"

definition finish :: "(json \<Rightarrow> string) \<Rightarrow> build_config \<Rightarrow> builder \<Rightarrow> dict list" where
  "finish repr cfg b = ob_messages (flush_pending cfg (flush_tool_images (flush_tool_outputs repr cfg b)))"

definition convert_output_to_messages ::
  "(json \<Rightarrow> string) \<Rightarrow> (json \<Rightarrow> string) \<Rightarrow> dict list \<Rightarrow> bool \<Rightarrow> string option \<Rightarrow> bool \<Rightarrow> dict list" where
  "convert_output_to_messages repr dumps output raw reasoning_format flatten =
     (if output = [] then []
      else let cfg = \<lparr>bc_raw = raw, bc_reasoning_format = reasoning_format, bc_flatten_tool_images = flatten,
                      bc_call_ids = function_call_ids output\<rparr>
      in reconcile_tool_pairs repr (finish repr cfg (fold (add_item repr dumps cfg) output new_builder)))"

section \<open>The pairing of tool calls and results\<close>

definition paired :: "dict list \<Rightarrow> bool" where
  "paired msgs \<longleftrightarrow> list_all (\<lambda>m.
     (get m ''role'' = JStr ''tool'' \<longrightarrow> get m ''tool_call_id'' \<in> set (requested_tool_call_ids msgs)) \<and>
     (get m ''role'' = JStr ''assistant'' \<and> truthy (get m ''tool_calls'') \<longrightarrow> is_list (get m ''tool_calls'') \<and>
        list_all (\<lambda>c. call_id c \<in> set (completed_tool_call_ids msgs)) (tool_calls_of m))) msgs"

lemma in_completed:
  "x \<in> set (completed_tool_call_ids msgs) \<longleftrightarrow>
     truthy x \<and> (\<exists>m \<in> set msgs. get m ''role'' = JStr ''tool'' \<and> get m ''tool_call_id'' = x)"
  by (auto simp: completed_tool_call_ids_def)

lemma in_requested:
  "x \<in> set (requested_tool_call_ids msgs) \<longleftrightarrow>
     truthy x \<and> (\<exists>m \<in> set msgs. get m ''role'' = JStr ''assistant'' \<and> (\<exists>c \<in> set (tool_calls_of m). call_id c = x))"
  by (auto simp: requested_tool_call_ids_def)

lemma in_map_filter: "y \<in> set (List.map_filter f xs) \<longleftrightarrow> (\<exists>x \<in> set xs. f x = Some y)"
  by (induction xs) (auto simp: List.map_filter_simps split: option.splits)

lemma tool_calls_truthy: "c \<in> set (tool_calls_of m) \<Longrightarrow> truthy (get m ''tool_calls'')"
  by (cases "get m ''tool_calls''") (auto simp: tool_calls_of_def)

lemma get_dict_pop: "get (dict_pop k d) k' = (if k' = k then JNull else get d k')"
proof -
  have "map_of (dict_pop k d) k' = (if k' = k then None else map_of d k')"
    by (induction d) (auto simp: dict_pop_def)
  then show ?thesis by (simp add: get_or_def)
qed

lemma dict_set_same: "map_of d k = Some v \<Longrightarrow> dict_set k v d = d"
  by (induction d) (auto simp: dict_set_def split: if_splits)

text \<open>What becomes of one message.\<close>

lemma reconcile_tool:
  "get m ''role'' = JStr ''tool'' \<Longrightarrow>
   reconcile_message repr C R m = (if get m ''tool_call_id'' \<in> R then Some m else None)"
  by (simp add: reconcile_message_def)

lemma reconcile_calls:
  assumes "get m ''role'' = JStr ''assistant''" "c \<in> set (tool_calls_of m)" "call_id c \<in> C"
  shows "reconcile_message repr C R m = Some (dict_set ''tool_calls'' (JArr (filter (\<lambda>c. call_id c \<in> C) (tool_calls_of m))) m)"
  using assms tool_calls_truthy [OF assms(2)] by (auto simp: reconcile_message_def Let_def filter_empty_conv)

lemma reconcile_role: "reconcile_message repr C R m = Some m' \<Longrightarrow> get m' ''role'' = get m ''role''"
  by (auto simp: reconcile_message_def Let_def get_or_dict_set get_dict_pop split: if_splits)

lemma reconcile_offers:
  assumes "reconcile_message repr C R m = Some m'" "get m' ''role'' = JStr ''assistant''"
  shows "tool_calls_of m' = filter (\<lambda>c. call_id c \<in> C) (tool_calls_of m) \<and>
    (truthy (get m' ''tool_calls'') \<longrightarrow> is_list (get m' ''tool_calls''))"
proof -
  have role: "get m ''role'' = JStr ''assistant''" using reconcile_role [OF assms(1)] assms(2) by simp
  show ?thesis
  proof (cases "truthy (get m ''tool_calls'')")
    case True
    then show ?thesis using assms(1) role
      by (auto simp: reconcile_message_def Let_def tool_calls_of_def get_or_dict_set get_dict_pop split: if_splits)
  next
    case False
    then have "m' = m" using assms(1) role by (simp add: reconcile_message_def)
    moreover have "tool_calls_of m = []" using False tool_calls_truthy [of "hd (tool_calls_of m)" m] by (cases "tool_calls_of m") simp_all
    ultimately show ?thesis using False by simp
  qed
qed

lemma reconciled_paired: "paired (reconcile_tool_pairs repr msgs)"
proof -
  define C where "C = set (completed_tool_call_ids msgs)"
  define R where "R = set (requested_tool_call_ids msgs)"
  define out where "out = reconcile_tool_pairs repr msgs"
  have mem: "m' \<in> set out \<longleftrightarrow> (\<exists>m \<in> set msgs. reconcile_message repr C R m = Some m')" for m'
    by (simp add: out_def reconcile_tool_pairs_def C_def R_def in_map_filter)
  have tool: "get m' ''tool_call_id'' \<in> set (requested_tool_call_ids out)" if m': "m' \<in> set out" "get m' ''role'' = JStr ''tool''" for m'
  proof -
    obtain m where m: "m \<in> set msgs" "reconcile_message repr C R m = Some m'" using m'(1) mem by blast
    have same: "m' = m" "get m ''tool_call_id'' \<in> R"
      using m reconcile_tool [of m repr C R] reconcile_role [OF m(2)] m'(2) by (auto split: if_splits)
    then obtain a c where a: "a \<in> set msgs" "get a ''role'' = JStr ''assistant''" "c \<in> set (tool_calls_of a)"
        "call_id c = get m ''tool_call_id''" and true: "truthy (get m ''tool_call_id'')"
      unfolding R_def in_requested by blast
    have "call_id c \<in> C" using a(4) true m(1) m'(2) same(1) unfolding C_def in_completed by auto
    define a' where "a' = dict_set ''tool_calls'' (JArr (filter (\<lambda>c. call_id c \<in> C) (tool_calls_of a))) a"
    have "a' \<in> set out" using reconcile_calls [OF a(2,3) \<open>call_id c \<in> C\<close>] a(1) unfolding mem a'_def by blast
    moreover have "get a' ''role'' = JStr ''assistant''" "c \<in> set (tool_calls_of a')"
      using a(2,3) \<open>call_id c \<in> C\<close> by (simp_all add: a'_def tool_calls_of_def get_or_dict_set)
    ultimately have "\<exists>a' \<in> set out. get a' ''role'' = JStr ''assistant'' \<and> (\<exists>c \<in> set (tool_calls_of a'). call_id c = get m ''tool_call_id'')"
      using a(4) by blast
    then show ?thesis using true unfolding in_requested same(1) by blast
  qed
  have calls: "call_id c \<in> set (completed_tool_call_ids out)"
    if m': "m' \<in> set out" "get m' ''role'' = JStr ''assistant''" "c \<in> set (tool_calls_of m')" for m' c
  proof -
    obtain m where m: "m \<in> set msgs" "reconcile_message repr C R m = Some m'" using m'(1) mem by blast
    have c: "c \<in> set (tool_calls_of m)" "call_id c \<in> C" using reconcile_offers [OF m(2) m'(2)] m'(3) by auto
    then obtain t where t: "t \<in> set msgs" "get t ''role'' = JStr ''tool''" "get t ''tool_call_id'' = call_id c" and true: "truthy (call_id c)"
      unfolding C_def in_completed by blast
    have "call_id c \<in> R"
      using true c(1) m(1) reconcile_role [OF m(2)] m'(2) unfolding R_def in_requested by auto
    then have "reconcile_message repr C R t = Some t" using reconcile_tool [OF t(2)] t(3) by simp
    then have "t \<in> set out" using t(1) unfolding mem by blast
    then show ?thesis using t(2,3) true unfolding in_completed by auto
  qed
  have "is_list (get m' ''tool_calls'')" if m': "m' \<in> set out" "get m' ''role'' = JStr ''assistant''" "truthy (get m' ''tool_calls'')" for m'
    using m' mem reconcile_offers by blast
  then show ?thesis
    unfolding paired_def out_def [symmetric] list_all_iff using tool calls by blast
qed

lemma paired_unchanged:
  assumes "paired msgs"
  shows "reconcile_tool_pairs repr msgs = msgs"
proof -
  define C where "C = set (completed_tool_call_ids msgs)"
  define R where "R = set (requested_tool_call_ids msgs)"
  have keep: "reconcile_message repr C R m = Some m" if "m \<in> set msgs" for m
  proof (cases "get m ''role'' = JStr ''assistant'' \<and> truthy (get m ''tool_calls'')")
    case True
    then have "is_list (get m ''tool_calls'') \<and> (\<forall>c \<in> set (tool_calls_of m). call_id c \<in> C)"
      using assms that unfolding paired_def list_all_iff C_def by blast
    then obtain cs where cs: "get m ''tool_calls'' = JArr cs" "cs \<noteq> []" "list_all (\<lambda>c. call_id c \<in> C) cs"
      using True by (cases "get m ''tool_calls''") (simp_all add: tool_calls_of_def list_all_iff)
    have "map_of m ''tool_calls'' = Some (JArr cs)" using cs(1) by (auto simp: get_or_def split: option.splits)
    moreover have "filter (\<lambda>c. call_id c \<in> C) cs = cs" using cs(3) by (simp add: filter_id_conv list_all_iff)
    ultimately show ?thesis using True cs by (simp add: reconcile_message_def tool_calls_of_def dict_set_same)
  next
    case False
    have "get m ''role'' = JStr ''tool'' \<Longrightarrow> get m ''tool_call_id'' \<in> R"
      using assms that unfolding paired_def list_all_iff R_def by blast
    then show ?thesis using False by (auto simp: reconcile_message_def)
  qed
  have "List.map_filter (reconcile_message repr C R) ms = ms" if "set ms \<subseteq> set msgs" for ms
    using that by (induction ms) (simp_all add: List.map_filter_simps keep)
  then show ?thesis by (simp add: reconcile_tool_pairs_def C_def R_def)
qed

text \<open>All the calls of a conversation, in order, and the messages that reconciliation has to keep.\<close>

definition calls_offered :: "dict list \<Rightarrow> json list" where
  "calls_offered msgs = concat (map tool_calls_of (filter (\<lambda>m. get m ''role'' = JStr ''assistant'') msgs))"

definition stays :: "(json \<Rightarrow> string) \<Rightarrow> dict list \<Rightarrow> dict \<Rightarrow> bool" where
  "stays repr msgs m \<longleftrightarrow>
     (get m ''role'' = JStr ''tool'' \<longrightarrow> get m ''tool_call_id'' \<in> set (map call_id (calls_offered msgs)) \<and> truthy (get m ''tool_call_id'')) \<and>
     (get m ''role'' = JStr ''assistant'' \<and> truthy (get m ''tool_calls'') \<longrightarrow>
        list_ex (\<lambda>c. call_id c \<in> set (completed_tool_call_ids msgs)) (tool_calls_of m) \<or>
        has_meaningful_content repr m \<or> truthy (get m ''reasoning_content''))"

lemma reconcile_kept:
  "reconcile_message repr C R m \<noteq> None \<longleftrightarrow>
     (get m ''role'' = JStr ''tool'' \<longrightarrow> get m ''tool_call_id'' \<in> R) \<and>
     (get m ''role'' = JStr ''assistant'' \<and> truthy (get m ''tool_calls'') \<longrightarrow>
        list_ex (\<lambda>c. call_id c \<in> C) (tool_calls_of m) \<or> has_meaningful_content repr m \<or> truthy (get m ''reasoning_content''))"
proof (cases "get m ''role'' = JStr ''assistant'' \<and> truthy (get m ''tool_calls'')")
  case True
  then show ?thesis by (simp add: reconcile_message_def Let_def list_ex_iff filter_empty_conv)
next
  case False
  then show ?thesis unfolding reconcile_message_def by (simp del: de_Morgan_conj) blast
qed

lemma stays_iff:
  "stays repr msgs m \<longleftrightarrow>
     reconcile_message repr (set (completed_tool_call_ids msgs)) (set (requested_tool_call_ids msgs)) m \<noteq> None"
proof -
  have "x \<in> set (requested_tool_call_ids msgs) \<longleftrightarrow> x \<in> set (map call_id (calls_offered msgs)) \<and> truthy x" for x
    by (auto simp: requested_tool_call_ids_def calls_offered_def)
  then show ?thesis unfolding stays_def reconcile_kept by simp
qed

lemma pop_set: "dict_pop k (dict_set k v d) = dict_pop k d"
  by (induction d) (auto simp: dict_pop_def dict_set_def split: if_splits)

lemma pop_pop: "dict_pop k (dict_pop k d) = dict_pop k d"
  by (simp add: dict_pop_def)

lemma reconcile_rest:
  "reconcile_message repr C R m = Some m' \<Longrightarrow> dict_pop ''tool_calls'' m' = dict_pop ''tool_calls'' m \<and>
     (get m ''role'' \<noteq> JStr ''assistant'' \<longrightarrow> m' = m)"
  by (auto simp: reconcile_message_def Let_def pop_set pop_pop split: if_splits)

lemma reconciled_stays:
  assumes "\<And>m. m \<in> set ms \<Longrightarrow> P m \<longleftrightarrow> reconcile_message repr C R m \<noteq> None"
  shows "map (dict_pop ''tool_calls'') (List.map_filter (reconcile_message repr C R) ms) = map (dict_pop ''tool_calls'') (filter P ms)
    \<and> filter (\<lambda>m. get m ''role'' \<noteq> JStr ''assistant'') (List.map_filter (reconcile_message repr C R) ms)
      = filter (\<lambda>m. get m ''role'' \<noteq> JStr ''assistant'' \<and> P m) ms"
  using assms
proof (induction ms)
  case (Cons m ms)
  show ?case
  proof (cases "reconcile_message repr C R m")
    case None
    then have "\<not> P m" using Cons.prems [of m] by simp
    then show ?thesis using None Cons by (simp add: List.map_filter_simps)
  next
    case (Some m')
    then have "P m" using Cons.prems [of m] by simp
    then show ?thesis using Some Cons reconcile_rest [OF Some] reconcile_role [OF Some]
      by (cases "get m ''role'' = JStr ''assistant''") (simp_all add: List.map_filter_simps)
  qed
qed (simp add: List.map_filter_simps)

lemma reconciled_calls:
  "calls_offered (List.map_filter (reconcile_message repr C R) ms) = filter (\<lambda>c. call_id c \<in> C) (calls_offered ms)"
proof (induction ms)
  case (Cons m ms)
  show ?case
  proof (cases "reconcile_message repr C R m")
    case None
    then have "get m ''role'' = JStr ''assistant'' \<Longrightarrow> filter (\<lambda>c. call_id c \<in> C) (tool_calls_of m) = []"
      using reconcile_calls [of m _ C repr R] by (auto simp: filter_empty_conv)
    then show ?thesis using None Cons by (simp add: calls_offered_def List.map_filter_simps)
  next
    case (Some m')
    then show ?thesis using Cons reconcile_role [OF Some] reconcile_offers [OF Some]
      by (simp add: calls_offered_def List.map_filter_simps)
  qed
qed (simp add: calls_offered_def List.map_filter_simps)

text \<open>
  C27. After reconciliation every tool result answers a call of some assistant message and
  every call has a result; and nothing that pairs is lost: the calls left are exactly the
  calls of the conversation that have a result, in order, the messages of other roles left
  are, unchanged and in order, all of them but the results that answer no call, and an
  assistant message stays, apart from its calls, unless it has calls, none of them has a
  result, and it has neither content nor reasoning. So a conversation that pairs is left as
  it is, and a second reconciliation changes nothing.
\<close>

theorem reconcile_pairs:
  "paired (reconcile_tool_pairs repr msgs) \<and> (paired msgs \<longrightarrow> reconcile_tool_pairs repr msgs = msgs) \<and>
   reconcile_tool_pairs repr (reconcile_tool_pairs repr msgs) = reconcile_tool_pairs repr msgs \<and>
   calls_offered (reconcile_tool_pairs repr msgs) = filter (\<lambda>c. call_id c \<in> set (completed_tool_call_ids msgs)) (calls_offered msgs) \<and>
   filter (\<lambda>m. get m ''role'' \<noteq> JStr ''assistant'') (reconcile_tool_pairs repr msgs)
     = filter (\<lambda>m. get m ''role'' \<noteq> JStr ''assistant'' \<and> stays repr msgs m) msgs \<and>
   map (dict_pop ''tool_calls'') (reconcile_tool_pairs repr msgs) = map (dict_pop ''tool_calls'') (filter (stays repr msgs) msgs)"
proof -
  note s = reconciled_stays [where P = "stays repr msgs" and ms = msgs, OF stays_iff, folded reconcile_tool_pairs_def]
  have "calls_offered (reconcile_tool_pairs repr msgs) = filter (\<lambda>c. call_id c \<in> set (completed_tool_call_ids msgs)) (calls_offered msgs)"
    unfolding reconcile_tool_pairs_def by (rule reconciled_calls)
  then show ?thesis using reconciled_paired paired_unchanged s by blast
qed

definition sample_exchange :: "dict list" where
  "sample_exchange = [[(''role'', JStr ''assistant''), (''tool_calls'', JArr [JObj [(''id'', JStr ''a'')]])],
     [(''role'', JStr ''tool''), (''tool_call_id'', JStr ''a'')], [(''role'', JStr ''tool''), (''tool_call_id'', JStr ''b'')]]"

theorem reconcile_pairs_witness:
  "reconcile_tool_pairs (\<lambda>v. []) (take 2 sample_exchange) = take 2 sample_exchange \<and>
   paired (reconcile_tool_pairs (\<lambda>v. []) sample_exchange) \<and>
   length (reconcile_tool_pairs (\<lambda>v. []) sample_exchange) = 2"
proof -
  have "paired (take 2 sample_exchange)" "length (reconcile_tool_pairs (\<lambda>v. []) sample_exchange) = 2"
    unfolding sample_exchange_def by code_simp+
  then show ?thesis using reconcile_pairs by blast
qed

section \<open>Results come after their calls\<close>

definition offers :: "dict \<Rightarrow> json set" where
  "offers m = (if get m ''role'' = JStr ''assistant'' then call_id ` set (tool_calls_of m) else {})"

fun in_order :: "json set \<Rightarrow> dict list \<Rightarrow> bool" where
  "in_order S [] = True"
| "in_order S (m # ms) =
     ((get m ''role'' = JStr ''tool'' \<longrightarrow> get m ''tool_call_id'' \<in> S) \<and> in_order (S \<union> offers m) ms)"

fun calls_first :: "json set \<Rightarrow> dict list \<Rightarrow> bool" where
  "calls_first S [] = True"
| "calls_first S (i # items) =
     ((get i ''type'' = JStr ''function_call_output'' \<longrightarrow> get i ''call_id'' \<in> S) \<and>
      calls_first (if get i ''type'' = JStr ''function_call'' then insert (get i ''call_id'') S else S) items)"

lemma in_order_append: "in_order S (xs @ ys) \<longleftrightarrow> in_order S xs \<and> in_order (S \<union> \<Union> (offers ` set xs)) ys"
  by (induction xs arbitrary: S) (auto simp: Un_assoc)

lemma in_order_reconciled:
  assumes "in_order S ms" "S \<inter> C \<subseteq> S'"
    and "\<And>m. m \<in> set ms \<Longrightarrow> get m ''role'' = JStr ''tool'' \<Longrightarrow> get m ''tool_call_id'' \<in> R \<Longrightarrow> get m ''tool_call_id'' \<in> C"
  shows "in_order S' (List.map_filter (reconcile_message repr C R) ms)"
  using assms
proof (induction ms arbitrary: S S')
  case (Cons m ms)
  have "in_order (S' \<union> X) (List.map_filter (reconcile_message repr C R) ms)" if "offers m \<inter> C \<subseteq> S' \<union> X" for X
    using Cons.prems that by (intro Cons.IH [of "S \<union> offers m"]) auto
  note IH = this
  show ?case
  proof (cases "reconcile_message repr C R m")
    case None
    have "get m ''role'' = JStr ''assistant'' \<Longrightarrow> call_id c \<notin> C" if "c \<in> set (tool_calls_of m)" for c
      using reconcile_calls [OF _ that] None by fastforce
    then have "offers m \<inter> C = {}" by (auto simp: offers_def)
    then show ?thesis using IH [of "{}"] None by (simp add: List.map_filter_simps)
  next
    case (Some m')
    have "get m' ''role'' = JStr ''tool'' \<Longrightarrow> get m' ''tool_call_id'' \<in> S'"
      using Some reconcile_tool [of m repr C R] reconcile_role [OF Some] Cons.prems by (auto split: if_splits)
    moreover have "offers m \<inter> C \<subseteq> S' \<union> offers m'"
      using reconcile_offers [OF Some] reconcile_role [OF Some] by (auto simp: offers_def)
    ultimately show ?thesis using IH Some by (simp add: List.map_filter_simps)
  qed
qed (simp add: List.map_filter_simps)

text \<open>The builder's invariant: what waits as an output answers a call that waits or was sent.\<close>

definition offered :: "builder \<Rightarrow> json set" where
  "offered b = \<Union> (offers ` set (ob_messages b)) \<union> call_id ` set (ob_calls b)"

definition build_ok :: "builder \<Rightarrow> bool" where
  "build_ok b \<longleftrightarrow> in_order {} (ob_messages b) \<and> (\<forall>o1 \<in> set (ob_outputs b). get_or o1 ''call_id'' (JStr []) \<in> offered b)"

lemma flush_pending_ok:
  assumes "in_order {} (ob_messages b)"
  shows "in_order {} (ob_messages (flush_pending cfg b))"
    and "\<Union> (offers ` set (ob_messages (flush_pending cfg b))) = offered b"
    and "ob_outputs (flush_pending cfg b) = ob_outputs b" and "ob_calls (flush_pending cfg b) = []"
proof -
  show "in_order {} (ob_messages (flush_pending cfg b))"
    using assms by (auto simp: flush_pending_def Let_def in_order_append get_or_dict_set get_or_def)
  show "\<Union> (offers ` set (ob_messages (flush_pending cfg b))) = offered b"
    by (auto simp: flush_pending_def Let_def offered_def offers_def tool_calls_of_def get_or_def)
qed (simp_all add: flush_pending_def Let_def)

lemma flush_images_ok: "build_ok b \<Longrightarrow> build_ok (flush_tool_images b) \<and> offered (flush_tool_images b) = offered b"
  by (simp add: build_ok_def offered_def flush_tool_images_def in_order_append offers_def get_or_def)

lemma flush_outputs_ok:
  assumes "build_ok b"
  shows "build_ok (flush_tool_outputs repr cfg b) \<and> offered (flush_tool_outputs repr cfg b) = offered b"
proof (cases "ob_outputs b = []")
  case False
  let ?b = "flush_pending cfg b"
  have ok: "in_order {} (ob_messages b)" using assms by (simp add: build_ok_def)
  note flushed = flush_pending_ok [OF ok]
  have tools: "in_order S (map (tool_output_message repr fl) os)"
    if "\<forall>o1 \<in> set os. get_or o1 ''call_id'' (JStr []) \<in> S" for S os fl
    using that by (induction os) (simp_all add: tool_output_message_def get_or_def offers_def)
  have none: "offers (tool_output_message repr fl o1) = {}" for fl o1
    by (simp add: tool_output_message_def offers_def get_or_def)
  have "in_order {} (ob_messages (flush_tool_outputs repr cfg b))"
    using False flushed assms tools by (simp add: flush_tool_outputs_def Let_def in_order_append build_ok_def)
  moreover have "offered (flush_tool_outputs repr cfg b) = offered b"
    using False flushed none by (simp add: flush_tool_outputs_def Let_def offered_def [of "_\<lparr>ob_messages := _, ob_images := _, ob_outputs := _\<rparr>"])
  moreover have "ob_outputs (flush_tool_outputs repr cfg b) = []" using False by (simp add: flush_tool_outputs_def Let_def)
  ultimately show ?thesis by (simp add: build_ok_def)
qed (use assms in \<open>simp add: flush_tool_outputs_def\<close>)

lemma build_ok_frame:
  "build_ok b \<Longrightarrow> ob_messages b' = ob_messages b \<Longrightarrow> ob_outputs b' = ob_outputs b \<Longrightarrow> ob_calls b' = ob_calls b \<Longrightarrow>
   build_ok b' \<and> offered b' = offered b"
  by (simp add: build_ok_def offered_def)

lemma add_item_ok:
  assumes ok: "build_ok b" and seen: "S \<inter> bc_call_ids cfg \<subseteq> offered b"
    and item: "get item ''type'' = JStr ''function_call_output'' \<Longrightarrow> get item ''call_id'' \<in> S"
    and true: "\<And>x. x \<in> bc_call_ids cfg \<Longrightarrow> truthy x"
  shows "build_ok (add_item repr dumps cfg item b) \<and>
    (if get item ''type'' = JStr ''function_call'' then insert (get item ''call_id'') S else S) \<inter> bc_call_ids cfg
      \<subseteq> offered (add_item repr dumps cfg item b)"
proof -
  have id: "get_or item ''call_id'' (JStr []) = get item ''call_id''" if "get item ''call_id'' \<in> bc_call_ids cfg"
    using true [OF that] by (auto simp: get_or_def split: option.splits)
  define t where "t = get_or item ''type'' (JStr [])"
  have t: "get item ''type'' = JStr x \<longleftrightarrow> t = JStr x" if "x \<noteq> []" for x
    using that by (auto simp: t_def get_or_def split: option.splits)
  show ?thesis
  proof (cases "t = JStr ''function_call'' \<or> t = JStr ''function_call_output''")
    case False
    define b1 where "b1 = flush_tool_images (flush_tool_outputs repr cfg b)"
    have b1: "build_ok b1" "offered b1 = offered b"
      using flush_images_ok flush_outputs_ok [OF ok, of repr cfg] unfolding b1_def by auto
    have "ob_messages (add_item repr dumps cfg item b) = ob_messages b1"
      "ob_outputs (add_item repr dumps cfg item b) = ob_outputs b1" "ob_calls (add_item repr dumps cfg item b) = ob_calls b1"
      using False by (auto simp: add_item_def t_def [symmetric] b1_def [symmetric] Let_def add_reasoning_def)
    then show ?thesis using build_ok_frame [OF b1(1)] b1(2) seen False t [of "''function_call''"] by simp
  next
    case True
    then show ?thesis
    proof
      assume call: "t = JStr ''function_call''"
      then have eq: "add_item repr dumps cfg item b = add_function_call dumps cfg item b"
        by (simp add: add_item_def t_def [symmetric] Let_def)
      have "get item ''type'' = JStr ''function_call''" using t call by simp
      then show ?thesis
        unfolding eq using ok seen id
        by (auto simp: add_function_call_def Let_def build_ok_def offered_def call_id_def get_or_def [of "[_, _, _]"] get_or_def [of "(_, _) # _"])
    next
      assume out: "t = JStr ''function_call_output''"
      then have eq: "add_item repr dumps cfg item b =
          (if get item ''call_id'' \<in> bc_call_ids cfg then b\<lparr>ob_outputs := ob_outputs b @ [item]\<rparr> else b)"
        by (simp add: add_item_def t_def [symmetric] Let_def)
      have "get item ''type'' = JStr ''function_call_output''" using t out by simp
      then show ?thesis unfolding eq using ok seen id item by (auto simp: build_ok_def offered_def)
    qed
  qed
qed

lemma fold_items_ok:
  assumes "\<And>x. x \<in> bc_call_ids cfg \<Longrightarrow> truthy x"
  shows "build_ok b \<Longrightarrow> S \<inter> bc_call_ids cfg \<subseteq> offered b \<Longrightarrow> calls_first S items \<Longrightarrow>
    build_ok (fold (add_item repr dumps cfg) items b)"
proof (induction items arbitrary: b S)
  case (Cons item items)
  note step = add_item_ok [OF Cons.prems(1,2) _ assms, of item repr dumps]
  show ?case
    using Cons.IH [of "add_item repr dumps cfg item b"
        "if get item ''type'' = JStr ''function_call'' then insert (get item ''call_id'') S else S"] step Cons.prems(3) by simp
qed simp

text \<open>
  The chat messages rebuilt from a stored output pair every tool call with a result; and
  when each stored result follows its call, each tool message follows the assistant message
  that made the call, as strict providers require.
\<close>

theorem rebuilt_messages_ordered:
  "paired (convert_output_to_messages repr dumps output raw fmt flatten) \<and>
   (calls_first {} output \<longrightarrow> in_order {} (convert_output_to_messages repr dumps output raw fmt flatten))"
proof (cases "output = []")
  case True
  then show ?thesis by (simp add: convert_output_to_messages_def paired_def)
next
  case False
  define cfg where "cfg = \<lparr>bc_raw = raw, bc_reasoning_format = fmt, bc_flatten_tool_images = flatten,
      bc_call_ids = function_call_ids output\<rparr>"
  define msgs where "msgs = finish repr cfg (fold (add_item repr dumps cfg) output new_builder)"
  have eq: "convert_output_to_messages repr dumps output raw fmt flatten = reconcile_tool_pairs repr msgs"
    using False by (simp add: convert_output_to_messages_def cfg_def msgs_def Let_def)
  have "in_order {} (reconcile_tool_pairs repr msgs)" if "calls_first {} output"
  proof -
    have "truthy x" if "x \<in> bc_call_ids cfg" for x
      using that by (auto simp: cfg_def function_call_ids_def ids_of_items_def)
    then have "build_ok (fold (add_item repr dumps cfg) output new_builder)"
      by (rule fold_items_ok [OF _ _ _ \<open>calls_first {} output\<close>]) (simp_all add: build_ok_def new_builder_def offered_def)
    then have "build_ok (flush_tool_images (flush_tool_outputs repr cfg (fold (add_item repr dumps cfg) output new_builder)))"
      using flush_outputs_ok flush_images_ok by blast
    then have "in_order {} msgs"
      unfolding msgs_def finish_def build_ok_def by (intro flush_pending_ok(1)) blast
    then show ?thesis
      unfolding reconcile_tool_pairs_def
      by (rule in_order_reconciled) (auto simp: in_completed in_requested)
  qed
  then show ?thesis unfolding eq using reconciled_paired by blast
qed

definition sample_output :: "dict list" where
  "sample_output =
     [[(''type'', JStr ''function_call''), (''call_id'', JStr ''a''), (''status'', JStr ''completed''), (''name'', JStr ''f'')],
      [(''type'', JStr ''function_call_output''), (''call_id'', JStr ''a''), (''output'', JArr [])],
      [(''type'', JStr ''message''), (''content'', JArr [JObj [(''type'', JStr ''output_text''), (''text'', JStr ''hi'')]])]]"

theorem rebuilt_messages_ordered_witness:
  "in_order {} (convert_output_to_messages (\<lambda>v. []) (\<lambda>v. []) sample_output False None False) \<and>
   map (\<lambda>m. get m ''role'') (convert_output_to_messages (\<lambda>v. []) (\<lambda>v. []) sample_output False None False)
     = [JStr ''assistant'', JStr ''tool'', JStr ''assistant'']"
proof -
  have "calls_first {} sample_output"
       "map (\<lambda>m. get m ''role'') (convert_output_to_messages (\<lambda>v. []) (\<lambda>v. []) sample_output False None False)
     = [JStr ''assistant'', JStr ''tool'', JStr ''assistant'']"
    unfolding sample_output_def by code_simp+
  then show ?thesis using rebuilt_messages_ordered by blast
qed

section \<open>An edited reply says exactly the edit\<close>

lemma last_message_at_bounds:
  "last_message_at n items = Some i \<Longrightarrow> n \<le> i \<and> i < n + length items"
proof (induction items arbitrary: n)
  case (Cons item items)
  then show ?case by (cases "last_message_at (Suc n) items") (fastforce split: if_splits)+
qed simp

lemma no_last_message: "last_message_at n items = None \<Longrightarrow> item \<in> set items \<Longrightarrow> \<not> is_item [''message''] item"
  by (induction items arbitrary: n) (auto split: option.splits if_splits)

lemma map_filter_append: "List.map_filter f (xs @ ys) = List.map_filter f xs @ List.map_filter f ys"
  by (simp add: List.map_filter_def)

lemma output_text_message: "\<not> is_item [''message''] item \<Longrightarrow> item_output_text repr item = None"
  by (cases item) (simp_all add: item_output_text_def is_item_def)

lemma replace_items_texts:
  "List.map_filter (item_output_text repr) (replace_items la edited n items) =
     (case la of None \<Rightarrow> [] | Some i \<Rightarrow> if n \<le> i \<and> i < n + length items then List.map_filter (item_output_text repr) edited else [])"
proof (induction items arbitrary: n)
  case Nil
  then show ?case by (auto simp: List.map_filter_simps split: option.split)
next
  case (Cons item items)
  have "\<not> is_item [''message'', ''reasoning''] item \<Longrightarrow> item_output_text repr item = None"
    by (rule output_text_message) (auto simp: is_item_def)
  then have "List.map_filter (item_output_text repr) (if is_item [''message'', ''reasoning''] item then [] else [item]) = []"
    by (simp add: List.map_filter_simps)
  then show ?case using Cons.IH [of "Suc n"]
    by (cases la) (auto simp: map_filter_append List.map_filter_simps)
qed

lemma replace_items_others:
  assumes "\<And>item. item \<in> set edited \<Longrightarrow> is_item [''message'', ''reasoning''] item"
  shows "filter (\<lambda>i. \<not> is_item [''message'', ''reasoning''] i) (replace_items la edited n items) =
    filter (\<lambda>i. \<not> is_item [''message'', ''reasoning''] i) items"
proof -
  have "filter (\<lambda>i. \<not> is_item [''message'', ''reasoning''] i) edited = []" using assms by (simp add: filter_empty_conv)
  then show ?thesis by (induction items arbitrary: n) simp_all
qed

lemma strip_text_not_space:
  assumes "strip_text s \<noteq> []"
  shows "\<not> list_all is_py_space (strip_text s)"
proof -
  have ne: "dropWhile is_py_space (rev (lstrip s)) \<noteq> []" using assms by (simp add: strip_text_def rstrip_def)
  then have "hd (dropWhile is_py_space (rev (lstrip s))) \<in> set (strip_text s)"
    by (simp add: strip_text_def rstrip_def)
  then show ?thesis using hd_dropWhile [OF ne] by (auto simp: list_all_iff)
qed

text \<open>
  After an edit replaces the text of a reply's output, the output's text is exactly the new
  text without its outer whitespace, and every item that is neither text nor reasoning (tool
  calls, their results, code runs) is still there, in order.
\<close>

theorem edited_output_says_edit:
  "get_output_text repr (JArr (with_output_text uuid output new_text)) = strip_text new_text \<and>
   filter (\<lambda>i. \<not> is_item [''message'', ''reasoning''] i) (with_output_text uuid output new_text) =
     filter (\<lambda>i. \<not> is_item [''message'', ''reasoning''] i) output"
proof
  define said where "said = strip_text new_text"
  define la where "la = last_message_at 0 output"
  define old_id where "old_id = (case la of None \<Rightarrow> JNull | Some i \<Rightarrow> get (as_dict (output ! i)) ''id'')"
  define edited where "edited = (if said \<noteq> [] then [text_item uuid old_id said] else [])"
  have eq: "with_output_text uuid output new_text =
      (if la \<noteq> None then replace_items la edited 0 output else replace_items la edited 0 output @ edited)"
    by (simp add: with_output_text_def Let_def said_def la_def old_id_def edited_def)
  have "\<not> list_all is_py_space said" if "said \<noteq> []" using that strip_text_not_space unfolding said_def by blast
  then have edited_text: "List.map_filter (item_output_text repr) edited = (if said \<noteq> [] then [said] else [])"
    by (simp add: edited_def text_item_def item_output_text_def get_or_def List.map_filter_simps)
  have "List.map_filter (item_output_text repr) (with_output_text uuid output new_text) = (if said \<noteq> [] then [said] else [])"
  proof (cases la)
    case None
    then show ?thesis unfolding eq by (simp add: map_filter_append replace_items_texts edited_text)
  next
    case (Some i)
    then show ?thesis using last_message_at_bounds [of 0 "output" i] unfolding eq la_def
      by (simp add: replace_items_texts edited_text)
  qed
  then show "get_output_text repr (JArr (with_output_text uuid output new_text)) = strip_text new_text"
    by (simp add: get_output_text_def said_def)
  have "is_item [''message'', ''reasoning''] item" if "item \<in> set edited" for item
    using that by (auto simp: edited_def text_item_def is_item_def get_or_def split: if_splits)
  then show "filter (\<lambda>i. \<not> is_item [''message'', ''reasoning''] i) (with_output_text uuid output new_text) =
     filter (\<lambda>i. \<not> is_item [''message'', ''reasoning''] i) output"
    using replace_items_others [of edited None 0 "output"] replace_items_others [of edited la 0 "output"]
    by (cases la) (simp_all add: eq filter_empty_conv)
qed

end
