(* ===== verification/MessageEdits.thy ===== *)
theory MessageEdits
  imports OutputMessages
begin

text \<open>
  Reading and editing a list of chat messages (\<open>utils/misc.py\<close>): the last user and assistant
  message, the system messages and their merging, adding a text to a message, dropping empty
  text blocks, and the merging of parameter dicts. Messages are dicts; a missing key that the
  code indexes is a KeyError, and a join of values that are no strings a TypeError.
\<close>

section \<open>Merging dicts\<close>

text \<open>
  \<open>deep_update(d, u)\<close>. Where a dict of \<open>u\<close> meets a value that is no dict, the first entry to store
  raises: an AttributeError when it is itself a dict (\<open>get\<close> on the value), else a TypeError.
\<close>

function deep_update :: "dict \<Rightarrow> dict \<Rightarrow> py_error + dict" where
  "deep_update d [] = Inr d"
| "deep_update d ((k, JObj v) # u) =
     and_then (case get_or d k (JObj []) of
         JObj d' \<Rightarrow> and_then (deep_update d' v) (\<lambda>m. Inr (JObj m))
       | x \<Rightarrow> (case v of [] \<Rightarrow> Inr x
           | (_, w) # _ \<Rightarrow> Inl (if is_dict w then AttributeError else TypeError)))
       (\<lambda>m. deep_update (dict_set k m d) u)"
| "deep_update d ((k, JNull) # u) = deep_update (dict_set k JNull d) u"
| "deep_update d ((k, JBool b) # u) = deep_update (dict_set k (JBool b) d) u"
| "deep_update d ((k, JInt i) # u) = deep_update (dict_set k (JInt i) d) u"
| "deep_update d ((k, JStr s) # u) = deep_update (dict_set k (JStr s) d) u"
| "deep_update d ((k, JArr xs) # u) = deep_update (dict_set k (JArr xs) d) u"
  by pat_completeness auto
termination
  by (relation "measure (\<lambda>(d, u). size_list (size_prod (\<lambda>_. 0) size) u)") auto

definition merge_model_params :: "dict \<Rightarrow> dict \<Rightarrow> dict" where
  "merge_model_params base override =
     (let params = dict_update base override;
          bc = get base ''custom_params''; oc = get override ''custom_params''
      in if is_dict bc \<and> (oc = JNull \<or> is_dict oc)
         then dict_set ''custom_params'' (JObj (dict_update (as_dict bc) (as_dict oc))) params else params)"

section \<open>Finding a message\<close>

definition has_role :: "string \<Rightarrow> dict \<Rightarrow> bool" where
  "has_role r m \<longleftrightarrow> get m ''role'' = JStr r"

text \<open>The loops that read \<open>message['role']\<close>: a message without a role is a KeyError.\<close>

fun first_with_role :: "string \<Rightarrow> dict list \<Rightarrow> py_error + dict option" where
  "first_with_role r [] = Inr None"
| "first_with_role r (m # msgs) =
     (if \<not> has_key m ''role'' then Inl KeyError
      else if has_role r m then Inr (Some m) else first_with_role r msgs)"

definition get_last_user_message_item :: "dict list \<Rightarrow> py_error + dict option" where
  "get_last_user_message_item msgs = first_with_role ''user'' (rev msgs)"

definition get_last_assistant_message_item :: "dict list \<Rightarrow> py_error + dict option" where
  "get_last_assistant_message_item msgs = first_with_role ''assistant'' (rev msgs)"

definition content_of_found :: "(json \<Rightarrow> string) \<Rightarrow> py_error + dict option \<Rightarrow> py_error + json" where
  "content_of_found repr found = and_then found
     (\<lambda>x. Inr (case x of None \<Rightarrow> JNull | Some m \<Rightarrow> get_content_from_message repr m))"

definition get_last_user_message :: "(json \<Rightarrow> string) \<Rightarrow> dict list \<Rightarrow> py_error + json" where
  "get_last_user_message repr msgs = content_of_found repr (get_last_user_message_item msgs)"

definition get_last_assistant_message :: "(json \<Rightarrow> string) \<Rightarrow> dict list \<Rightarrow> py_error + json" where
  "get_last_assistant_message repr msgs = content_of_found repr (first_with_role ''assistant'' (rev msgs))"

definition get_text_from_message :: "(json \<Rightarrow> string) \<Rightarrow> dict \<Rightarrow> py_error + json" where
  "get_text_from_message repr m =
     (case get m ''content'' of
        JArr parts \<Rightarrow>
          and_then (join_strs [CHR 0x0A] (filter truthy (map (\<lambda>p. get (as_dict p) ''text'')
              (filter (\<lambda>p. is_dict p \<and> get (as_dict p) ''type'' = JStr ''text'') parts))))
            (\<lambda>s. Inr (if s = [] then JNull else JStr s))
      | _ \<Rightarrow> Inr (get_content_from_message repr m))"

definition get_system_message :: "dict list \<Rightarrow> py_error + dict option" where
  "get_system_message msgs = first_with_role ''system'' msgs"

definition remove_system_message :: "dict list \<Rightarrow> py_error + dict list" where
  "remove_system_message msgs =
     (if list_all (\<lambda>m. has_key m ''role'') msgs then Inr (filter (\<lambda>m. \<not> has_role ''system'' m) msgs)
      else Inl KeyError)"

definition pop_system_message :: "dict list \<Rightarrow> py_error + dict option \<times> dict list" where
  "pop_system_message msgs = and_then (get_system_message msgs)
     (\<lambda>m. and_then (remove_system_message msgs) (\<lambda>rest. Inr (m, rest)))"

section \<open>Merging the system messages\<close>

definition is_text_part :: "json \<Rightarrow> bool" where
  "is_text_part p \<longleftrightarrow> is_dict p \<and> get (as_dict p) ''type'' = JStr ''text'' \<and> truthy (get (as_dict p) ''text'')"

definition system_parts :: "(json \<Rightarrow> string) \<Rightarrow> dict \<Rightarrow> json list" where
  "system_parts repr m =
     (case get m ''content'' of
        JArr parts \<Rightarrow> filter is_text_part parts
      | _ \<Rightarrow> (let content = get_content_from_message repr m
             in if truthy content then [JObj [(''type'', JStr ''text''), (''text'', content)]] else []))"

definition is_plain_part :: "json \<Rightarrow> bool" where
  "is_plain_part p \<longleftrightarrow> fst ` set (as_dict p) = {''type'', ''text''}"

definition merged_content :: "json list \<Rightarrow> py_error + json" where
  "merged_content parts =
     (if list_all is_plain_part parts
      then and_then (join_strs [CHR 0x0A] (map (\<lambda>p. get (as_dict p) ''text'') parts)) (\<lambda>s. Inr (JStr s))
      else Inr (JArr parts))"

definition merge_system_messages :: "(json \<Rightarrow> string) \<Rightarrow> dict list \<Rightarrow> py_error + dict list" where
  "merge_system_messages repr msgs =
     (let parts = concat (map (system_parts repr) (filter (has_role ''system'') msgs));
          others = filter (\<lambda>m. \<not> has_role ''system'' m) msgs
      in if parts = [] then Inr others
         else and_then (merged_content parts) (\<lambda>content. Inr ([(''role'', JStr ''system''), (''content'', content)] # others)))"

section \<open>Adding a text\<close>

definition is_text_item :: "json \<Rightarrow> bool" where
  "is_text_item p \<longleftrightarrow> get (as_dict p) ''type'' = JStr ''text''"

definition set_text :: "string \<Rightarrow> json \<Rightarrow> json" where
  "set_text s p = JObj (dict_set ''text'' (JStr s) (as_dict p))"

definition joined :: "bool \<Rightarrow> string \<Rightarrow> string \<Rightarrow> string" where
  "joined at_end content old = (if at_end then old @ [CHR 0x0A] @ content else content @ [CHR 0x0A] @ old)"

text \<open>The one text part that gets the text: the last one when it is appended, else the first.\<close>

definition update_text_parts :: "(json \<Rightarrow> string) \<Rightarrow> json list \<Rightarrow> string \<Rightarrow> bool \<Rightarrow> py_error + json list" where
  "update_text_parts repr parts content at_end =
     (let texts = filter is_text_item parts
      in if \<not> list_all is_dict parts then Inl AttributeError
         else if texts = [] then Inr (parts @ [JObj [(''type'', JStr ''text''), (''text'', JStr content)]])
         else case map_of (as_dict (if at_end then last texts else hd texts)) ''text'' of
             None \<Rightarrow> Inl KeyError
           | Some old \<Rightarrow> Inr ((if at_end then modify_last else modify_first) is_text_item
               (set_text (joined at_end content (py_str repr old))) parts))"

definition update_message_content :: "(json \<Rightarrow> string) \<Rightarrow> dict \<Rightarrow> string \<Rightarrow> bool \<Rightarrow> py_error + dict" where
  "update_message_content repr m content at_end =
     (case map_of m ''content'' of
        None \<Rightarrow> Inl KeyError
      | Some (JArr parts) \<Rightarrow>
          and_then (update_text_parts repr parts content at_end) (\<lambda>ps. Inr (dict_set ''content'' (JArr ps) m))
      | Some v \<Rightarrow> Inr (dict_set ''content'' (JStr (joined at_end content (py_str repr v))) m))"

definition new_text_message :: "string \<Rightarrow> string \<Rightarrow> dict" where
  "new_text_message role content = [(''role'', JStr role), (''content'', JStr content)]"

definition replace_system_message_content :: "string \<Rightarrow> dict list \<Rightarrow> py_error + dict list" where
  "replace_system_message_content content msgs = and_then (first_with_role ''system'' msgs)
     (\<lambda>_. Inr (modify_first (has_role ''system'') (dict_set ''content'' (JStr content)) msgs))"

definition add_or_update_system_message :: "(json \<Rightarrow> string) \<Rightarrow> string \<Rightarrow> dict list \<Rightarrow> bool \<Rightarrow> py_error + dict list" where
  "add_or_update_system_message repr content msgs at_end =
     (case msgs of
        m # rest \<Rightarrow> if has_role ''system'' m
          then and_then (update_message_content repr m content at_end) (\<lambda>m'. Inr (m' # rest))
          else Inr (new_text_message ''system'' content # msgs)
      | [] \<Rightarrow> Inr [new_text_message ''system'' content])"

definition add_or_update_user_message :: "(json \<Rightarrow> string) \<Rightarrow> string \<Rightarrow> dict list \<Rightarrow> bool \<Rightarrow> py_error + dict list" where
  "add_or_update_user_message repr content msgs at_end =
     (if msgs \<noteq> [] \<and> has_role ''user'' (last msgs)
      then and_then (update_message_content repr (last msgs) content at_end) (\<lambda>m. Inr (butlast msgs @ [m]))
      else Inr (msgs @ [new_text_message ''user'' content]))"

fun prepend_to_first_user_message_content :: "(json \<Rightarrow> string) \<Rightarrow> string \<Rightarrow> dict list \<Rightarrow> py_error + dict list" where
  "prepend_to_first_user_message_content repr content [] = Inr []"
| "prepend_to_first_user_message_content repr content (m # msgs) =
     (if \<not> has_key m ''role'' then Inl KeyError
      else if has_role ''user'' m
      then and_then (update_message_content repr m content False) (\<lambda>m'. Inr (m' # msgs))
      else and_then (prepend_to_first_user_message_content repr content msgs) (\<lambda>ms. Inr (m # ms)))"

definition append_or_update_assistant_message :: "(json \<Rightarrow> string) \<Rightarrow> string \<Rightarrow> dict list \<Rightarrow> py_error + dict list" where
  "append_or_update_assistant_message repr content msgs =
     (if msgs \<noteq> [] \<and> has_role ''assistant'' (last msgs)
      then case map_of (last msgs) ''content'' of
          None \<Rightarrow> Inl KeyError
        | Some v \<Rightarrow> Inr (butlast msgs @ [dict_set ''content'' (JStr (joined True content (py_str repr v))) (last msgs)])
      else Inr (msgs @ [new_text_message ''assistant'' content]))"

text \<open>The text items of a list content are dicts, up to the first text part.\<close>

fun set_first_text :: "string \<Rightarrow> json list \<Rightarrow> py_error + json list" where
  "set_first_text content [] = Inr []"
| "set_first_text content (p # ps) =
     (if \<not> is_dict p then Inl AttributeError
      else if is_text_item p then Inr (set_text content p # ps)
      else and_then (set_first_text content ps) (\<lambda>qs. Inr (p # qs)))"

definition set_user_content :: "string \<Rightarrow> dict \<Rightarrow> py_error + dict" where
  "set_user_content content m =
     (case get m ''content'' of
        JArr parts \<Rightarrow> and_then (set_first_text content parts) (\<lambda>ps. Inr (dict_set ''content'' (JArr ps) m))
      | _ \<Rightarrow> Inr (dict_set ''content'' (JStr content) m))"

fun set_first_user_content :: "string \<Rightarrow> dict list \<Rightarrow> py_error + dict list" where
  "set_first_user_content content [] = Inr []"
| "set_first_user_content content (m # msgs) =
     (if has_role ''user'' m then and_then (set_user_content content m) (\<lambda>m'. Inr (m' # msgs))
      else and_then (set_first_user_content content msgs) (\<lambda>ms. Inr (m # ms)))"

definition set_last_user_message_content :: "string \<Rightarrow> dict list \<Rightarrow> py_error + dict list" where
  "set_last_user_message_content content msgs =
     and_then (set_first_user_content content (rev msgs)) (\<lambda>ms. Inr (rev ms))"

section \<open>Dropping empty text blocks\<close>

text \<open>A text block whose text is no string has no \<open>strip\<close>: an AttributeError.\<close>

definition is_empty_text_block :: "json \<Rightarrow> py_error + bool" where
  "is_empty_text_block b =
     (if is_dict b \<and> get (as_dict b) ''type'' = JStr ''text''
      then (case get_or (as_dict b) ''text'' (JStr []) of
          JStr s \<Rightarrow> Inr (strip_text s = [])
        | _ \<Rightarrow> Inl AttributeError)
      else Inr False)"

fun cleaned_blocks :: "json list \<Rightarrow> py_error + json list" where
  "cleaned_blocks [] = Inr []"
| "cleaned_blocks (b # bs) = and_then (is_empty_text_block b)
     (\<lambda>e. and_then (cleaned_blocks bs) (\<lambda>cs. Inr (if e then cs else b # cs)))"

definition strip_message_blocks :: "dict \<Rightarrow> py_error + dict" where
  "strip_message_blocks m =
     (case get m ''content'' of
        JArr blocks \<Rightarrow> and_then (cleaned_blocks blocks)
          (\<lambda>cleaned. Inr (if cleaned \<noteq> [] then dict_set ''content'' (JArr cleaned) m else m))
      | _ \<Rightarrow> Inr m)"

definition strip_empty_content_blocks :: "dict list \<Rightarrow> py_error + dict list" where
  "strip_empty_content_blocks msgs = traverse strip_message_blocks msgs"

section \<open>One system message\<close>

definition system_texts :: "(json \<Rightarrow> string) \<Rightarrow> dict list \<Rightarrow> json list" where
  "system_texts repr msgs =
     map (\<lambda>p. get (as_dict p) ''text'') (concat (map (system_parts repr) (filter (has_role ''system'') msgs)))"

lemma system_parts_are_text: "p \<in> set (system_parts repr m) \<Longrightarrow> is_text_part p"
  by (auto simp: system_parts_def is_text_part_def get_or_def Let_def split: json.splits if_splits)

lemma join_strs_error: "join_strs sep vs = Inl e \<Longrightarrow> e = TypeError \<and> filter (\<lambda>v. \<not> is_str v) vs \<noteq> []"
  by (induction sep vs rule: join_strs.induct) (auto simp: and_then_def split: sum.splits)

lemma join_strs_not_Nil:
  assumes "join_strs sep vs = Inr s" and "vs \<noteq> []" and "list_all truthy vs"
  shows "s \<noteq> []"
  using assms by (induction sep vs arbitrary: s rule: join_strs.induct) (auto simp: and_then_Inr)

definition system_head :: "json \<Rightarrow> dict" where
  "system_head content = [(''role'', JStr ''system''), (''content'', content)]"

lemma has_role_system_head [simp]: "has_role ''system'' (system_head c)"
  by (simp add: has_role_def system_head_def get_or_def)

lemma system_parts_head_list:
  "list_all is_text_part parts \<Longrightarrow> system_parts repr (system_head (JArr parts)) = parts"
  by (simp add: system_parts_def system_head_def get_or_def filter_id_conv list_all_iff)

lemma system_parts_head_text:
  "s \<noteq> [] \<Longrightarrow> system_parts repr (system_head (JStr s)) = [JObj [(''type'', JStr ''text''), (''text'', JStr s)]]"
  by (simp add: system_parts_def system_head_def get_or_def get_content_from_message_def)

lemma merge_of_merged:
  assumes "parts \<noteq> []" and "list_all is_text_part parts" and "merged_content parts = Inr c"
    and "filter (has_role ''system'') others = []"
  shows "merge_system_messages repr (system_head c # others) = Inr (system_head c # others) \<and>
    join_strs [CHR 0x0A] (system_texts repr (system_head c # others)) =
      join_strs [CHR 0x0A] (map (\<lambda>p. get (as_dict p) ''text'') parts)"
proof -
  have others: "filter (\<lambda>m. \<not> has_role ''system'' m) others = others"
    using assms(4) by (simp add: filter_id_conv filter_empty_conv)
  show ?thesis
  proof (cases "list_all is_plain_part parts")
    case True
    then obtain s where c: "c = JStr s"
      and s: "join_strs [CHR 0x0A] (map (\<lambda>p. get (as_dict p) ''text'') parts) = Inr s"
      using assms(3) by (auto simp: merged_content_def and_then_Inr)
    have "s \<noteq> []"
      using assms(1,2) by (intro join_strs_not_Nil [OF s]) (auto simp: list_all_iff is_text_part_def)
    then show ?thesis
      using s others assms(4)
      by (auto simp: merge_system_messages_def system_texts_def c system_parts_head_text merged_content_def
          is_plain_part_def get_or_def Let_def system_head_def [symmetric])
  next
    case False
    then have c: "c = JArr parts" using assms(3) by (simp add: merged_content_def)
    show ?thesis
      using others assms False
      by (simp add: merge_system_messages_def system_texts_def c system_parts_head_list Let_def
          system_head_def [symmetric])
  qed
qed

lemma merge_system_messages_cases:
  assumes "merge_system_messages repr msgs = Inr out"
  obtains "out = filter (\<lambda>m. \<not> has_role ''system'' m) msgs" "system_texts repr msgs = []"
  | c parts where "out = system_head c # filter (\<lambda>m. \<not> has_role ''system'' m) msgs" "parts \<noteq> []"
      "list_all is_text_part parts" "merged_content parts = Inr c"
      "system_texts repr msgs = map (\<lambda>p. get (as_dict p) ''text'') parts"
proof -
  define parts where "parts = concat (map (system_parts repr) (filter (has_role ''system'') msgs))"
  have texts: "system_texts repr msgs = map (\<lambda>p. get (as_dict p) ''text'') parts"
    by (simp add: parts_def system_texts_def)
  have "list_all is_text_part parts"
    using system_parts_are_text by (fastforce simp: parts_def list_all_iff)
  then show thesis
    using assms that texts
    by (cases "parts = []")
       (auto simp: merge_system_messages_def parts_def [symmetric] Let_def and_then_Inr system_head_def)
qed

lemma filter_tl_Nil: "filter P xs = [] \<Longrightarrow> filter P (tl xs) = []"
  by (cases xs) (auto split: if_splits)

lemma merge_system_error:
  "merge_system_messages repr msgs = Inl e \<Longrightarrow> e = TypeError \<and> filter (\<lambda>v. \<not> is_str v) (system_texts repr msgs) \<noteq> []"
  unfolding merge_system_messages_def system_texts_def merged_content_def Let_def
  by (auto simp: and_then_def split: if_splits sum.splits dest: join_strs_error)

text \<open>
  Merging the system messages. Whatever the list, \<open>merge_system_messages\<close> either raises the
  TypeError of joining texts that are not all strings, or returns a list that has the other
  messages unchanged and in order, at most one system message, which is the first message, and
  the system texts of the given messages joined with line breaks; merging the result again
  changes nothing.
\<close>

theorem merge_system_messages_exact:
  "case merge_system_messages repr msgs of
     Inl e \<Rightarrow> e = TypeError \<and> filter (\<lambda>v. \<not> is_str v) (system_texts repr msgs) \<noteq> []
   | Inr out \<Rightarrow>
       filter (\<lambda>m. \<not> has_role ''system'' m) out = filter (\<lambda>m. \<not> has_role ''system'' m) msgs \<and>
       filter (has_role ''system'') (tl out) = [] \<and>
       join_strs [CHR 0x0A] (system_texts repr out) = join_strs [CHR 0x0A] (system_texts repr msgs) \<and>
       merge_system_messages repr out = Inr out"
proof (cases "merge_system_messages repr msgs")
  case (Inl e)
  then show ?thesis using merge_system_error by simp
next
  case (Inr out)
  let ?others = "filter (\<lambda>m. \<not> has_role ''system'' m) msgs"
  have others: "filter (has_role ''system'') ?others = []" by (simp add: filter_empty_conv)
  then have tl_others: "filter (has_role ''system'') (tl ?others) = []" by (rule filter_tl_Nil)
  from Inr show ?thesis
  proof (cases rule: merge_system_messages_cases)
    case 1
    have "merge_system_messages repr ?others = Inr ?others" "system_texts repr ?others = []"
      using others by (simp_all add: merge_system_messages_def system_texts_def)
    then show ?thesis using Inr 1 others tl_others by simp
  next
    case (2 c parts)
    then show ?thesis
      using Inr others merge_of_merged [OF 2(2,3,4) others] by simp
  qed
qed

section \<open>Replacing the last user text\<close>

lemma set_first_text_keeps:
  assumes "set_first_text content ps = Inr qs" and "list_ex is_text_item ps"
  shows "find (\<lambda>p. is_dict p \<and> get (as_dict p) ''type'' = JStr ''text'') qs \<noteq> None \<and>
    get (as_dict (the (find (\<lambda>p. is_dict p \<and> get (as_dict p) ''type'' = JStr ''text'') qs))) ''text'' = JStr content"
  using assms
  by (induction content ps arbitrary: qs rule: set_first_text.induct)
     (auto simp: and_then_Inr is_text_item_def set_text_def get_or_dict_set split: if_splits)

lemma set_first_user_length: "set_first_user_content content msgs = Inr ms \<Longrightarrow> length ms = length msgs"
  by (induction content msgs arbitrary: ms rule: set_first_user_content.induct) (auto simp: and_then_Inr split: if_splits)

lemma content_after_set:
  assumes "set_user_content content m = Inr m'" and "content \<noteq> []"
    and "is_list (get m ''content'') \<Longrightarrow> list_ex is_text_item (as_list (get m ''content''))"
  shows "get_content_from_message repr m' = JStr content"
proof (cases "get m ''content''")
  case (JArr parts)
  then obtain ps where "set_first_text content parts = Inr ps" "m' = dict_set ''content'' (JArr ps) m"
    using assms(1) by (auto simp: set_user_content_def and_then_Inr)
  then show ?thesis
    using set_first_text_keeps [of content parts ps] assms(3) JArr
    by (auto simp: get_content_from_message_def get_or_dict_set)
qed (use assms(1,2) in \<open>auto simp: set_user_content_def get_content_from_message_def get_or_dict_set\<close>)

lemma first_user_after_set:
  assumes "set_first_user_content content msgs = Inr msgs'" and "first_with_role ''user'' msgs = Inr (Some m)"
  shows "\<exists>m'. first_with_role ''user'' msgs' = Inr (Some m') \<and> set_user_content content m = Inr m'"
  using assms
proof (induction content msgs arbitrary: msgs' rule: set_first_user_content.induct)
  case (2 content x xs)
  then show ?case
    by (auto simp: and_then_Inr has_role_def has_key_def get_or_dict_set set_user_content_def
        split: if_splits json.splits)
qed simp

text \<open>
  What is set is what is read. Let the last user message of the list have a content that is
  no list, or a list with a text part. After \<open>set_last_user_message_content\<close> with a text that is
  not empty, \<open>get_last_user_message\<close> returns that text, and the list has the same length.
\<close>

theorem last_user_message_roundtrip:
  assumes "set_last_user_message_content content msgs = Inr msgs'" and "content \<noteq> []"
    and "get_last_user_message_item msgs = Inr (Some m)"
    and "is_list (get m ''content'') \<longrightarrow> list_ex is_text_item (as_list (get m ''content''))"
  shows "get_last_user_message repr msgs' = Inr (JStr content) \<and> length msgs' = length msgs"
proof -
  from assms(1) obtain ms where ms: "set_first_user_content content (rev msgs) = Inr ms" "msgs' = rev ms"
    by (auto simp: set_last_user_message_content_def and_then_Inr)
  then obtain m' where "first_with_role ''user'' ms = Inr (Some m')" "set_user_content content m = Inr m'"
    using first_user_after_set assms(3) by (metis get_last_user_message_item_def)
  moreover have "length ms = length msgs"
    using set_first_user_length [OF ms(1)] by simp
  ultimately show ?thesis
    using ms content_after_set [of content m m' repr] assms(2,4)
    by (simp add: get_last_user_message_def get_last_user_message_item_def content_of_found_def)
qed

theorem last_user_message_roundtrip_witness:
  "get_last_user_message (\<lambda>_. ''?'')
     (projr (set_last_user_message_content ''new'' [new_text_message ''user'' ''old'', new_text_message ''assistant'' ''hi'']))
   = Inr (JStr ''new'')"
  using last_user_message_roundtrip [of "''new''" "[new_text_message ''user'' ''old'', new_text_message ''assistant'' ''hi'']"
      "[new_text_message ''user'' ''new'', new_text_message ''assistant'' ''hi'']"
      "new_text_message ''user'' ''old''" "\<lambda>_. ''?''"]
  by (simp add: set_last_user_message_content_def set_user_content_def new_text_message_def get_or_def has_role_def
      get_last_user_message_item_def has_key_def dict_set_def)

end
