(* ===== verification/ProviderPayload.thy ===== *)
theory ProviderPayload
  imports ChatVariables MessageEdits
begin

text \<open>
  Building the body that goes to a model server (\<open>utils/payload.py\<close>): the system prompt, the
  parameters stored with a model or a chat, and the conversion of an OpenAI body for Ollama. JSON's
  \<open>dumps\<close> and \<open>loads\<close>, \<open>repr\<close>, Python's \<open>float\<close> and \<open>dict\<close> constructors, the decoding of one matched
  escape, and the template of date and user are arguments. Dicts that the code changes in place
  are returned changed.
\<close>

section \<open>The system prompt\<close>

text \<open>\<open>s.replace(old, new)\<close>.\<close>

fun replace_from :: "string \<Rightarrow> string \<Rightarrow> nat \<Rightarrow> string \<Rightarrow> string" where
  "replace_from old new skip [] = []"
| "replace_from old new (Suc n) (c # cs) = replace_from old new n cs"
| "replace_from old new 0 (c # cs) =
     (if prefix old (c # cs) then new @ replace_from old new (length old - 1) cs else c # replace_from old new 0 cs)"

definition replace_all :: "string \<Rightarrow> string \<Rightarrow> string \<Rightarrow> string" where
  "replace_all old new s =
     (if old = [] then concat (map (\<lambda>c. new @ [c]) s) @ new else replace_from old new 0 s)"

fun prompt_variables_template :: "string \<Rightarrow> dict \<Rightarrow> py_error + string" where
  "prompt_variables_template t [] = Inr t"
| "prompt_variables_template t ((k, JStr v) # vs) = prompt_variables_template (replace_all k v t) vs"
| "prompt_variables_template t ((k, v) # vs) = Inl TypeError"

record prompt_env =
  pe_dumps :: "json \<Rightarrow> string"
  pe_loads :: "string \<Rightarrow> json option"
  pe_repr :: "json \<Rightarrow> string"
  pe_template :: "string \<Rightarrow> string"

text \<open>\<open>user_vars\<close> are the variables of the user, an empty dict without one.\<close>

definition resolve_system_prompt :: "prompt_env \<Rightarrow> string \<Rightarrow> dict \<Rightarrow> json \<Rightarrow> py_error + string" where
  "resolve_system_prompt env system metadata user_vars =
     (if system = [] then Inr []
      else let s1 = (if metadata = [] then system
                     else render_chat_variables (pe_repr env) (pe_dumps env) (pe_loads env) system
                            (get_or metadata ''chat_variables'' (JObj [])) False);
               s2 = render_user_variables s1 user_vars;
               vars = get_or metadata ''variables'' (JObj [])
           in and_then (if metadata \<noteq> [] \<and> truthy vars
                        then (case vars of JObj d \<Rightarrow> prompt_variables_template s2 d | _ \<Rightarrow> Inl AttributeError)
                        else Inr s2)
                (\<lambda>s3. Inr (pe_template env s3)))"

definition apply_system_prompt_to_body ::
  "prompt_env \<Rightarrow> string \<Rightarrow> dict list \<Rightarrow> dict \<Rightarrow> json \<Rightarrow> bool \<Rightarrow> py_error + dict list" where
  "apply_system_prompt_to_body env system msgs metadata user_vars replacing =
     and_then (resolve_system_prompt env system metadata user_vars) (\<lambda>s.
       if s = [] then Inr msgs
       else if replacing then replace_system_message_content s msgs
       else add_or_update_system_message (pe_repr env) s msgs False)"

section \<open>Stop sequences\<close>

definition is_hex :: "char \<Rightarrow> bool" where
  "is_hex c \<longleftrightarrow> is_digit c \<or> (let n = of_char c :: nat in 65 \<le> n \<and> n \<le> 70 \<or> 97 \<le> n \<and> n \<le> 102)"

definition is_octal :: "char \<Rightarrow> bool" where
  "is_octal c \<longleftrightarrow> (let n = of_char c :: nat in 48 \<le> n \<and> n \<le> 55)"

definition is_name_char :: "char \<Rightarrow> bool" where
  "is_name_char c \<longleftrightarrow> is_digit c \<or> c = CHR '' '' \<or> c = CHR ''-''
     \<or> (let n = of_char c :: nat in 65 \<le> n \<and> n \<le> 90 \<or> 97 \<le> n \<and> n \<le> 122)"

definition hex_escape :: "char \<Rightarrow> nat \<Rightarrow> string \<Rightarrow> nat option" where
  "hex_escape c n s =
     (if take 1 s = [c] \<and> n \<le> length (drop 1 s) \<and> list_all is_hex (take n (drop 1 s)) then Some (n + 1) else None)"

definition named_escape :: "string \<Rightarrow> nat option" where
  "named_escape s =
     (let name = takeWhile is_name_char (drop 2 s)
      in if take 2 s = [CHR ''N'', CHR 0x7B] \<and> name \<noteq> [] \<and> take 1 (drop (2 + length name) s) = [CHR 0x7D]
         then Some (length name + 3) else None)"

text \<open>\<open>_ESCAPE_SEQUENCE\<close> after its backslash: how many characters it takes.\<close>

definition escape_length :: "string \<Rightarrow> nat option" where
  "escape_length s =
     (case s of [] \<Rightarrow> None
      | c # cs \<Rightarrow>
          if c \<in> {CHR 0x5C, CHR 0x27, CHR 0x22} \<union> set ''abfnrtv'' then Some 1
          else if is_octal c then Some (length (takeWhile is_octal (take 3 s)))
          else case hex_escape (CHR ''x'') 2 s of Some n \<Rightarrow> Some n
          | None \<Rightarrow> (case hex_escape (CHR ''u'') 4 s of Some n \<Rightarrow> Some n
          | None \<Rightarrow> (case hex_escape (CHR ''U'') 8 s of Some n \<Rightarrow> Some n
          | None \<Rightarrow> named_escape s)))"

fun decode_escapes :: "(string \<Rightarrow> string) \<Rightarrow> nat \<Rightarrow> string \<Rightarrow> string" where
  "decode_escapes decode skip [] = []"
| "decode_escapes decode (Suc n) (c # cs) = decode_escapes decode n cs"
| "decode_escapes decode 0 (c # cs) =
     (if c = CHR 0x5C then
        (case escape_length cs of None \<Rightarrow> c # decode_escapes decode 0 cs
         | Some n \<Rightarrow> decode (c # take n cs) @ decode_escapes decode n cs)
      else c # decode_escapes decode 0 cs)"

definition stop_sequences :: "(string \<Rightarrow> string) \<Rightarrow> json \<Rightarrow> py_error + json list" where
  "stop_sequences decode value =
     and_then (case value of JStr s \<Rightarrow> Inr [value] | _ \<Rightarrow> py_iter value) (\<lambda>stops.
       Inr (map (\<lambda>v. case v of JStr s \<Rightarrow> JStr (decode_escapes decode 0 s) | _ \<Rightarrow> v) stops))"

section \<open>Parameters of a model\<close>

record cast_env =
  ce_env :: prompt_env
  ce_decode :: "string \<Rightarrow> string"
  ce_float :: "json \<Rightarrow> py_error + json"
  ce_dict :: "json \<Rightarrow> py_error + json"

datatype cast_fun = ToFloat | ToInt | ToStr | ToBool | ToDict | ToStops | Keep

fun cast_value :: "cast_env \<Rightarrow> cast_fun \<Rightarrow> json \<Rightarrow> py_error + json" where
  "cast_value ce ToFloat v = ce_float ce v"
| "cast_value ce ToInt v = and_then (to_int v) (\<lambda>n. Inr (JInt n))"
| "cast_value ce ToStr v = Inr (JStr (py_str (pe_repr (ce_env ce)) v))"
| "cast_value ce ToBool v = Inr (JBool (truthy v))"
| "cast_value ce ToDict v = ce_dict ce v"
| "cast_value ce ToStops v = and_then (stop_sequences (ce_decode ce) v) (\<lambda>vs. Inr (JArr vs))"
| "cast_value ce Keep v = Inr v"

type_synonym mappings = "(string \<times> cast_fun) list"

fun apply_model_params_to_body :: "cast_env \<Rightarrow> mappings \<Rightarrow> dict \<Rightarrow> dict \<Rightarrow> py_error + dict" where
  "apply_model_params_to_body ce ms [] body = Inr body"
| "apply_model_params_to_body ce ms ((k, v) # params) body =
     (if v = JNull \<or> has_key body k then apply_model_params_to_body ce ms params body
      else and_then (case map_of ms k of None \<Rightarrow> Inr v | Some c \<Rightarrow> cast_value ce c v)
             (\<lambda>w. apply_model_params_to_body ce ms params (dict_set k w body)))"

definition local_llm_params :: "string list" where
  "local_llm_params = [''stream_response'', ''stream_delta_chunk_size'', ''function_calling'', ''reasoning_tags'',
     ''compact_token_threshold'', ''system'', ''note_id'', ''tool_approval_mode'']"

definition remove_local_llm_params :: "dict \<Rightarrow> dict" where
  "remove_local_llm_params params = filter (\<lambda>(k, v). k \<notin> set local_llm_params) params"

text \<open>A custom parameter that is the text of a JSON value is that value.\<close>

definition parse_custom :: "(string \<Rightarrow> json option) \<Rightarrow> json \<Rightarrow> json" where
  "parse_custom loads v = (case v of JStr s \<Rightarrow> (case loads s of None \<Rightarrow> v | Some w \<Rightarrow> w) | _ \<Rightarrow> v)"

definition with_custom_params :: "(string \<Rightarrow> json option) \<Rightarrow> dict \<Rightarrow> json \<Rightarrow> py_error + dict" where
  "with_custom_params loads params custom =
     (if \<not> truthy custom then Inr params
      else case custom of JObj d \<Rightarrow> deep_update params (map (\<lambda>(k, v). (k, parse_custom loads v)) d)
           | _ \<Rightarrow> Inl AttributeError)"

text \<open>\<open>convert_logit_bias_input_to_json\<close> (\<open>utils/misc.py\<close>), and the object its JSON stands for.\<close>

definition bias_pair :: "string \<Rightarrow> py_error + string \<times> json" where
  "bias_pair pair =
     (case split_on (CHR '':'') pair of
        [token, bias] \<Rightarrow> (case int_of_str (strip_text bias) of
            None \<Rightarrow> Inl ValueError
          | Some b \<Rightarrow> Inr (strip_text token, JInt (if b > 100 then 100 else if b < - 100 then - 100 else b)))
      | _ \<Rightarrow> Inl ValueError)"

definition convert_logit_bias_input_to_json :: "(json \<Rightarrow> string) \<Rightarrow> json \<Rightarrow> py_error + string option" where
  "convert_logit_bias_input_to_json dumps v =
     (if \<not> truthy v then Inr None
      else case v of
        JObj d \<Rightarrow> Inr (Some (dumps v))
      | JStr s \<Rightarrow> and_then (traverse bias_pair (split_on (CHR '','') s))
                    (\<lambda>pairs. Inr (Some (dumps (JObj (dict_update [] pairs)))))
      | _ \<Rightarrow> Inl AttributeError)"

text \<open>The last step of \<open>apply_params_to_form_data\<close> for a server that is not Ollama.\<close>

definition apply_logit_bias :: "cast_env \<Rightarrow> dict \<Rightarrow> dict \<Rightarrow> py_error + dict" where
  "apply_logit_bias ce params body =
     (let v = get params ''logit_bias''
      in if v = JNull \<or> has_key body ''logit_bias'' then Inr body
         else case convert_logit_bias_input_to_json (pe_dumps (ce_env ce)) v of
                Inl e \<Rightarrow> Inr (dict_set ''logit_bias'' v body)
              | Inr None \<Rightarrow> Inr body
              | Inr (Some t) \<Rightarrow> if t = [] then Inr body
                  else (case pe_loads (ce_env ce) t of None \<Rightarrow> Inl ValueError
                        | Some w \<Rightarrow> Inr (dict_set ''logit_bias'' w body)))"

text \<open>Stored values fill what the body does not state.\<close>

fun fill_missing :: "dict \<Rightarrow> dict \<Rightarrow> dict" where
  "fill_missing body [] = body"
| "fill_missing body ((k, v) # params) =
     fill_missing (if v \<noteq> JNull \<and> \<not> has_key body k \<and> k \<noteq> ''logit_bias'' then dict_set k v body else body) params"

definition params_or_payload :: "dict \<Rightarrow> dict option \<Rightarrow> py_error + dict" where
  "params_or_payload body params =
     (case params of Some d \<Rightarrow> Inr d
      | None \<Rightarrow> (let p = get_or body ''params'' (JObj [])
                 in if \<not> truthy p then Inr [] else case p of JObj d \<Rightarrow> Inr d | _ \<Rightarrow> Inl AttributeError))"

definition apply_params_to_form_data :: "cast_env \<Rightarrow> dict \<Rightarrow> dict \<Rightarrow> dict option \<Rightarrow> py_error + dict" where
  "apply_params_to_form_data ce form model params =
     and_then (params_or_payload form params) (\<lambda>p.
     and_then (with_custom_params (pe_loads (ce_env ce)) (remove_local_llm_params (dict_pop ''custom_params'' p))
                 (get_or p ''custom_params'' (JObj []))) (\<lambda>ps.
       let body = dict_pop ''params'' form
       in if get model ''owned_by'' = JStr ''ollama''
          then (let options = get body ''options''
                in if \<not> truthy options then Inr (dict_set ''options'' (JObj ps) body)
                   else case options of JObj d \<Rightarrow> Inr (dict_set ''options'' (JObj (dict_update ps d)) body)
                        | _ \<Rightarrow> Inl TypeError)
          else apply_logit_bias ce ps (fill_missing body ps)))"

definition openai_mappings :: mappings where
  "openai_mappings = [(''temperature'', ToFloat), (''top_p'', ToFloat), (''min_p'', ToFloat), (''max_tokens'', ToInt),
     (''frequency_penalty'', ToFloat), (''presence_penalty'', ToFloat), (''reasoning_effort'', ToStr), (''seed'', Keep),
     (''stop'', ToStops), (''logit_bias'', Keep), (''response_format'', ToDict)]"

definition apply_model_params_to_body_openai :: "cast_env \<Rightarrow> dict \<Rightarrow> dict \<Rightarrow> py_error + dict" where
  "apply_model_params_to_body_openai ce params body =
     (let p = remove_local_llm_params params
      in and_then (with_custom_params (pe_loads (ce_env ce)) (dict_pop ''custom_params'' p) (get_or p ''custom_params'' (JObj [])))
           (\<lambda>ps. apply_model_params_to_body ce openai_mappings ps body))"

definition ollama_mappings :: mappings where
  "ollama_mappings = [(''temperature'', ToFloat), (''top_p'', ToFloat), (''seed'', Keep), (''mirostat'', ToInt),
     (''mirostat_eta'', ToFloat), (''mirostat_tau'', ToFloat), (''num_ctx'', ToInt), (''num_batch'', ToInt), (''num_keep'', ToInt),
     (''num_predict'', ToInt), (''repeat_last_n'', ToInt), (''top_k'', ToInt), (''min_p'', ToFloat), (''repeat_penalty'', ToFloat),
     (''presence_penalty'', ToFloat), (''frequency_penalty'', ToFloat), (''stop'', ToStops), (''num_gpu'', ToInt),
     (''use_mmap'', ToBool), (''use_mlock'', ToBool), (''num_thread'', ToInt)]"

text \<open>\<open>format\<close> and \<open>keep_alive\<close> are read as JSON where that is possible, \<open>think\<close> is kept.\<close>

definition root_param :: "(string \<Rightarrow> json option) \<Rightarrow> string \<Rightarrow> json \<Rightarrow> json" where
  "root_param loads k v = (if k = ''think'' then v else parse_custom loads v)"

fun lift_root_params :: "(string \<Rightarrow> json option) \<Rightarrow> string list \<Rightarrow> dict \<Rightarrow> dict \<Rightarrow> dict \<times> dict" where
  "lift_root_params loads [] params body = (params, body)"
| "lift_root_params loads (k # ks) params body =
     (if get params k = JNull then lift_root_params loads ks params body
      else lift_root_params loads ks (dict_pop k params) (dict_set k (root_param loads k (get params k)) body))"

definition ollama_root_params :: "string list" where
  "ollama_root_params = [''format'', ''keep_alive'', ''think'']"

definition apply_model_params_to_body_ollama :: "cast_env \<Rightarrow> dict \<Rightarrow> dict \<Rightarrow> py_error + dict" where
  "apply_model_params_to_body_ollama ce params body =
     (let p = remove_local_llm_params params; loads = pe_loads (ce_env ce)
      in and_then (with_custom_params loads (dict_pop ''custom_params'' p) (get_or p ''custom_params'' (JObj [])))
           (\<lambda>ps. let renamed = (if get ps ''max_tokens'' = JNull then ps
                                else dict_pop ''max_tokens'' (dict_set ''num_predict'' (get ps ''max_tokens'') ps))
                 in case lift_root_params loads ollama_root_params renamed body of
                      (rest, body') \<Rightarrow>
                        (case py_or (get_or body' ''options'' (JObj [])) (JObj []) of
                           JObj options \<Rightarrow> and_then (apply_model_params_to_body ce ollama_mappings rest options)
                               (\<lambda>os. Inr (dict_set ''options'' (JObj os) body'))
                         | _ \<Rightarrow> Inl TypeError)))"

section \<open>An OpenAI body for Ollama\<close>

definition ollama_tool_call :: "(string \<Rightarrow> json option) \<Rightarrow> json \<Rightarrow> py_error + json" where
  "ollama_tool_call loads tc =
     and_then (get_attr tc ''index'' (JInt 0)) (\<lambda>index.
     and_then (get_attr tc ''id'' JNull) (\<lambda>i.
     and_then (get_attr tc ''function'' (JObj [])) (\<lambda>f.
     and_then (get_attr f ''name'' (JStr [])) (\<lambda>name.
     and_then (get_attr f ''arguments'' (JObj [])) (\<lambda>args.
     and_then (case args of JStr s \<Rightarrow> (case loads s of None \<Rightarrow> Inl ValueError | Some v \<Rightarrow> Inr v) | _ \<Rightarrow> Inl TypeError) (\<lambda>v.
       Inr (JObj [(''index'', index), (''id'', i), (''function'', JObj [(''name'', name), (''arguments'', v)])])))))))"

text \<open>The text and the images of a list content, gathered so far.\<close>

definition content_item :: "string \<Rightarrow> json list \<Rightarrow> json \<Rightarrow> py_error + string \<times> json list" where
  "content_item t images item =
     and_then (get_attr item ''type'' JNull) (\<lambda>ty.
       if ty = JStr ''text''
       then (case get_or (as_dict item) ''text'' (JStr []) of
               JStr s \<Rightarrow> Inr (t @ (if t = [] then [] else [CHR 0x0A]) @ s, images)
             | _ \<Rightarrow> Inl TypeError)
       else if ty = JStr ''image_url''
       then and_then (get_attr (get_or (as_dict item) ''image_url'' (JObj [])) ''url'' (JStr [])) (\<lambda>url.
              if \<not> truthy url then Inr (t, images)
              else case url of
                JStr u \<Rightarrow> Inr (t, images @ [JStr (if prefix ''data:'' u then last (split_on (CHR '','') u) else u)])
              | _ \<Rightarrow> Inl AttributeError)
       else Inr (t, images))"

fun content_items :: "string \<Rightarrow> json list \<Rightarrow> json list \<Rightarrow> py_error + string \<times> json list" where
  "content_items t images [] = Inr (t, images)"
| "content_items t images (item # items) = and_then (content_item t images item) (\<lambda>(t', is). content_items t' is items)"

definition with_thinking :: "dict \<Rightarrow> dict \<Rightarrow> dict" where
  "with_thinking m new =
     (let reasoning = py_or (get m ''reasoning_content'') (get m ''reasoning'')
      in if has_key m ''thinking'' then dict_set ''thinking'' (get m ''thinking'') new
         else if truthy reasoning then dict_set ''thinking'' reasoning new else new)"

definition convert_message_openai_to_ollama :: "(string \<Rightarrow> json option) \<Rightarrow> dict \<Rightarrow> py_error + json" where
  "convert_message_openai_to_ollama loads m =
     (case map_of m ''role'' of None \<Rightarrow> Inl KeyError
      | Some role \<Rightarrow>
          let new = with_thinking m [(''role'', role)];
              content = get_or m ''content'' (JArr []); calls = get m ''tool_calls''; i = get m ''tool_call_id''
          in if is_str content \<and> \<not> truthy calls
             then Inr (JObj (if truthy i then dict_set ''tool_call_id'' i (dict_set ''content'' content new)
                             else dict_set ''content'' content new))
             else if truthy calls
             then and_then (py_iter calls) (\<lambda>tcs. and_then (traverse (ollama_tool_call loads) tcs) (\<lambda>os.
                    Inr (JObj (dict_set ''content'' (JStr []) (dict_set ''tool_calls'' (JArr os) new)))))
             else and_then (py_iter content) (\<lambda>items. and_then (content_items [] [] items) (\<lambda>(t, images).
                    let n1 = (if t = [] then new else dict_set ''content'' (JStr (strip_text t)) new)
                    in Inr (JObj (if images = [] then n1 else dict_set ''images'' (JArr images) n1)))))"

definition convert_messages_openai_to_ollama :: "(string \<Rightarrow> json option) \<Rightarrow> dict list \<Rightarrow> py_error + json list" where
  "convert_messages_openai_to_ollama loads msgs = traverse (convert_message_openai_to_ollama loads) msgs"

definition rename_key :: "string \<Rightarrow> string \<Rightarrow> dict \<Rightarrow> dict" where
  "rename_key k k' d = (if has_key d k then dict_pop k (dict_set k' (get d k) d) else d)"

text \<open>The options, and what is taken out of them to the root of the body.\<close>

definition convert_options :: "(string \<Rightarrow> json option) \<Rightarrow> json \<Rightarrow> dict \<Rightarrow> py_error + dict" where
  "convert_options loads options out =
     (if \<not> truthy options then Inr out
      else case options of
        JObj d \<Rightarrow>
          (case lift_root_params loads ollama_root_params d (dict_set ''options'' options out) of
             (d1, out1) \<Rightarrow>
               (let d2 = rename_key ''max_tokens'' ''num_predict'' d1
                in if has_key d2 ''system''
                   then Inr (dict_set ''options'' (JObj (dict_pop ''system'' d2)) (dict_set ''system'' (get d2 ''system'') out1))
                   else Inr (dict_set ''options'' (JObj d2) out1)))
      | _ \<Rightarrow> Inl TypeError)"

definition convert_response_format :: "dict \<Rightarrow> dict \<Rightarrow> py_error + dict" where
  "convert_response_format body out =
     (if \<not> has_key body ''response_format'' then Inr out
      else case get body ''response_format'' of
        JObj rf \<Rightarrow>
          (let ty = get rf ''type'' in
           if \<not> hashable ty then Inl TypeError
           else let schema = (case ty of JStr t \<Rightarrow> get rf t | _ \<Rightarrow> JNull)
                in if truthy schema then and_then (get_attr schema ''schema'' JNull) (\<lambda>f. Inr (dict_set ''format'' f out))
                   else Inr out)
      | _ \<Rightarrow> Inl AttributeError)"

definition forward_key :: "string \<Rightarrow> dict \<Rightarrow> dict \<Rightarrow> dict" where
  "forward_key k body out = (if has_key body k then dict_set k (get body k) out else out)"

text \<open>The items of \<open>messages\<close> are dicts.\<close>

definition convert_payload_openai_to_ollama :: "cast_env \<Rightarrow> dict \<Rightarrow> py_error + dict" where
  "convert_payload_openai_to_ollama ce body =
     (let loads = pe_loads (ce_env ce); metadata = get body ''metadata'' in
      and_then (if metadata = JNull then Inr JNull else ce_dict ce metadata) (\<lambda>md.
      and_then (py_iter (get body ''messages'')) (\<lambda>msgs.
      and_then (convert_messages_openai_to_ollama loads (map as_dict msgs)) (\<lambda>messages.
        let o1 = forward_key ''tools'' body [(''model'', get body ''model''), (''messages'', JArr messages),
                   (''stream'', get_or body ''stream'' (JBool False))];
            o2 = (if has_key body ''max_tokens'' then dict_set ''num_predict'' (get body ''max_tokens'') o1 else o1)
        in and_then (convert_options loads (get body ''options'') o2) (\<lambda>o3.
           let o4 = (if has_key body ''stop''
                     then dict_set ''options'' (JObj (dict_set ''stop'' (get body ''stop'') (as_dict (get_or o3 ''options'' (JObj []))))) o3
                     else o3);
               o5 = (if metadata = JNull then o4 else dict_set ''metadata'' md o4)
           in convert_response_format body o5)))))"

section \<open>Embedding requests\<close>

definition convert_embedding_payload_openai_to_ollama :: "(json \<Rightarrow> string) \<Rightarrow> dict \<Rightarrow> dict" where
  "convert_embedding_payload_openai_to_ollama repr body =
     (let v = get body ''input'';
          out = (case v of
                   JArr xs \<Rightarrow> [(''model'', get body ''model''), (''input'', v), (''prompt'', JStr (join_lines (map (py_str repr) xs)))]
                 | _ \<Rightarrow> [(''model'', get body ''model''), (''input'', JArr [v]), (''prompt'', JStr (py_str repr v))])
      in forward_key ''keep_alive'' body (forward_key ''truncate'' body (forward_key ''options'' body out)))"

definition convert_embed_payload_openai_to_ollama :: "dict \<Rightarrow> dict" where
  "convert_embed_payload_openai_to_ollama body =
     forward_key ''keep_alive'' body (forward_key ''options'' body (forward_key ''truncate'' body
       [(''model'', get body ''model''), (''input'', get body ''input'')]))"

section \<open>What the stored parameters add\<close>

lemma map_of_kept_keys: "map_of (filter (\<lambda>(k, v). P k) d) k = (if P k then map_of d k else None)"
  by (induction d) auto

lemma has_key_dict_set: "has_key (dict_set k v d) j \<longleftrightarrow> j = k \<or> has_key d j"
  by (simp add: has_key_def)

lemma get_filter_key: "get_or (filter (\<lambda>(k, v). P k) d) k v = (if P k then get_or d k v else v)"
  by (simp add: get_or_def map_of_kept_keys)

lemma has_key_dict_pop: "has_key (dict_pop k d) j \<longleftrightarrow> j \<noteq> k \<and> has_key d j"
  by (auto simp: dict_pop_def has_key_def map_of_kept_keys)

lemma distinct_filter_keys: "distinct (map fst d) \<Longrightarrow> distinct (map fst (filter P d))"
  by (rule distinct_map_filterI)

text \<open>The body after stored values have filled it, key by key.\<close>

lemma fill_missing_get:
  assumes "distinct (map fst params)"
  shows "map_of (fill_missing body params) k =
    (if has_key body k \<or> k = ''logit_bias'' \<or> get params k = JNull then map_of body k else Some (get params k))"
  using assms
proof (induction body params rule: fill_missing.induct)
  case (2 body j v params)
  let ?body = "if v \<noteq> JNull \<and> \<not> has_key body j \<and> j \<noteq> ''logit_bias'' then dict_set j v body else body"
  have d: "distinct (map fst params)" "map_of params j = None"
    using "2.prems" by (auto simp: map_of_eq_None_iff)
  have "map_of (fill_missing body ((j, v) # params)) k = map_of (fill_missing ?body params) k" by simp
  also have "\<dots> = (if has_key ?body k \<or> k = ''logit_bias'' \<or> get params k = JNull then map_of ?body k else Some (get params k))"
    by (rule "2.IH" [OF d(1)])
  also have "\<dots> = (if has_key body k \<or> k = ''logit_bias'' \<or> get ((j, v) # params) k = JNull then map_of body k
      else Some (get ((j, v) # params) k))"
    using d(2) by (cases "k = j") (auto simp: has_key_def get_or_def)
  finally show ?case .
qed (simp add: get_or_def)

lemma apply_logit_bias_get:
  assumes "apply_logit_bias ce params body = Inr out" and "k \<noteq> ''logit_bias'' \<or> has_key body k \<or> get params ''logit_bias'' = JNull"
  shows "map_of out k = map_of body k"
  using assms by (auto simp: apply_logit_bias_def Let_def split: sum.splits option.splits if_splits)

text \<open>What merging custom parameters makes of one stored value; a stored dict is merged into.\<close>

definition merged_value :: "json option \<Rightarrow> json \<Rightarrow> json" where
  "merged_value stored w =
     (case w of
        JObj v \<Rightarrow> (case (case stored of None \<Rightarrow> JObj [] | Some x \<Rightarrow> x) of
           JObj d \<Rightarrow> (case deep_update d v of Inr m \<Rightarrow> JObj m | Inl e \<Rightarrow> JNull)
         | x \<Rightarrow> x)
      | _ \<Rightarrow> w)"

lemma merged_simps [simp]:
  "merged_value x JNull = JNull" "merged_value x (JBool b) = JBool b" "merged_value x (JInt i) = JInt i"
  "merged_value x (JStr s) = JStr s" "merged_value x (JArr xs) = JArr xs"
  by (simp_all add: merged_value_def)

lemma merged_step:
  assumes "j \<notin> fst ` set u" and "m = merged_value (map_of d j) w"
    and "map_of out k = (case map_of u k of None \<Rightarrow> map_of (dict_set j m d) k
      | Some x \<Rightarrow> Some (merged_value (map_of (dict_set j m d) k) x))"
  shows "map_of out k = (case map_of ((j, w) # u) k of None \<Rightarrow> map_of d k | Some x \<Rightarrow> Some (merged_value (map_of d k) x))"
proof -
  have "map_of u j = None" using assms(1) by (simp add: map_of_eq_None_iff)
  then show ?thesis using assms(2,3) by (cases "k = j"; cases "map_of u k") simp_all
qed

lemma deep_update_get:
  assumes "deep_update d u = Inr out" and "distinct (map fst u)"
  shows "map_of out k = (case map_of u k of None \<Rightarrow> map_of d k | Some w \<Rightarrow> Some (merged_value (map_of d k) w))"
    and "distinct (map fst d) \<Longrightarrow> distinct (map fst out)"
proof -
  have "map_of out k = (case map_of u k of None \<Rightarrow> map_of d k | Some w \<Rightarrow> Some (merged_value (map_of d k) w))
      \<and> (distinct (map fst d) \<longrightarrow> distinct (map fst out))"
    using assms
  proof (induction d u arbitrary: out rule: deep_update.induct)
    case (2 d j v u)
    from 2(3) obtain m where step: "(case get_or d j (JObj []) of
         JObj d' \<Rightarrow> and_then (deep_update d' v) (\<lambda>m. Inr (JObj m))
       | x \<Rightarrow> (case v of [] \<Rightarrow> Inr x
           | (_, w) # _ \<Rightarrow> Inl (if is_dict w then AttributeError else TypeError))) = Inr m"
      and rest: "deep_update (dict_set j m d) u = Inr out"
      unfolding deep_update.simps and_then_Inr by blast
    have m: "m = merged_value (map_of d j) (JObj v)"
      using step by (auto simp: merged_value_def get_or_def and_then_Inr split: json.splits list.splits option.splits)
    have u: "j \<notin> fst ` set u" "distinct (map fst u)" using 2(4) by auto
    note ih = 2(2) [OF rest u(2)]
    show ?case using merged_step [OF u(1) m conjunct1 [OF ih]] conjunct2 [OF ih] distinct_dict_set by blast
  next
    case (3 d j u)
    have u: "j \<notin> fst ` set u" "distinct (map fst u)" "JNull = merged_value (map_of d j) (JNull)" using 3(3) by auto
    have "deep_update (dict_set j (JNull) d) u = Inr out" using 3(2) by simp
    note ih = 3(1) [OF this u(2)]
    show ?case using merged_step [OF u(1,3) conjunct1 [OF ih]] conjunct2 [OF ih] distinct_dict_set by blast
  next
    case (4 d j b u)
    have u: "j \<notin> fst ` set u" "distinct (map fst u)" "JBool b = merged_value (map_of d j) (JBool b)" using 4(3) by auto
    have "deep_update (dict_set j (JBool b) d) u = Inr out" using 4(2) by simp
    note ih = 4(1) [OF this u(2)]
    show ?case using merged_step [OF u(1,3) conjunct1 [OF ih]] conjunct2 [OF ih] distinct_dict_set by blast
  next
    case (5 d j i u)
    have u: "j \<notin> fst ` set u" "distinct (map fst u)" "JInt i = merged_value (map_of d j) (JInt i)" using 5(3) by auto
    have "deep_update (dict_set j (JInt i) d) u = Inr out" using 5(2) by simp
    note ih = 5(1) [OF this u(2)]
    show ?case using merged_step [OF u(1,3) conjunct1 [OF ih]] conjunct2 [OF ih] distinct_dict_set by blast
  next
    case (6 d j t u)
    have u: "j \<notin> fst ` set u" "distinct (map fst u)" "JStr t = merged_value (map_of d j) (JStr t)" using 6(3) by auto
    have "deep_update (dict_set j (JStr t) d) u = Inr out" using 6(2) by simp
    note ih = 6(1) [OF this u(2)]
    show ?case using merged_step [OF u(1,3) conjunct1 [OF ih]] conjunct2 [OF ih] distinct_dict_set by blast
  next
    case (7 d j xs u)
    have u: "j \<notin> fst ` set u" "distinct (map fst u)" "JArr xs = merged_value (map_of d j) (JArr xs)" using 7(3) by auto
    have "deep_update (dict_set j (JArr xs) d) u = Inr out" using 7(2) by simp
    note ih = 7(1) [OF this u(2)]
    show ?case using merged_step [OF u(1,3) conjunct1 [OF ih]] conjunct2 [OF ih] distinct_dict_set by blast
  qed simp
  then show "map_of out k = (case map_of u k of None \<Rightarrow> map_of d k | Some w \<Rightarrow> Some (merged_value (map_of d k) w))"
    "distinct (map fst d) \<Longrightarrow> distinct (map fst out)" by simp_all
qed

text \<open>
  What the stored parameters say under a key: a custom parameter, merged into the stored value of
  that key, else the stored value, unless only the application reads it.
\<close>

definition stored_value :: "(string \<Rightarrow> json option) \<Rightarrow> dict \<Rightarrow> string \<Rightarrow> json" where
  "stored_value loads p k =
     (let kept = (if k \<in> insert ''custom_params'' (set local_llm_params) then None else map_of p k)
      in case map_of (as_dict (get p ''custom_params'')) k of
           Some w \<Rightarrow> merged_value kept (parse_custom loads w)
         | None \<Rightarrow> (case kept of None \<Rightarrow> JNull | Some v \<Rightarrow> v))"

lemma with_custom_get:
  assumes "with_custom_params loads d c = Inr ps" and "distinct (map fst d)" and "distinct (map fst (as_dict c))"
  shows "map_of ps k = (case map_of (as_dict c) k of
      Some w \<Rightarrow> Some (merged_value (map_of d k) (parse_custom loads w)) | None \<Rightarrow> map_of d k)"
    and "distinct (map fst ps)"
proof -
  have m: "map_of (map (\<lambda>(k, v). (k, parse_custom loads v)) e) k = map_option (parse_custom loads) (map_of e k)" for e
    by (simp add: map_of_map)
  have f: "map fst (map (\<lambda>(k, v). (k, parse_custom loads v)) e) = map fst e" for e
    by (induction e) auto
  have "map_of ps k = (case map_of (as_dict c) k of
      Some w \<Rightarrow> Some (merged_value (map_of d k) (parse_custom loads w)) | None \<Rightarrow> map_of d k) \<and> distinct (map fst ps)"
  proof (cases "truthy c")
    case False
    then show ?thesis using assms(1,2) by (cases c) (simp_all add: with_custom_params_def)
  next
    case True
    then obtain e where e: "c = JObj e" "deep_update d (map (\<lambda>(k, v). (k, parse_custom loads v)) e) = Inr ps"
      using assms(1) by (cases c) (simp_all add: with_custom_params_def)
    have "distinct (map fst (map (\<lambda>(k, v). (k, parse_custom loads v)) e))" unfolding f using assms(3) e(1) by simp
    note g = deep_update_get [OF e(2) this]
    show ?thesis using g(1) [of k] g(2) [OF assms(2)] unfolding m e(1) as_dict.simps
      by (cases "map_of e k") simp_all
  qed
  then show "map_of ps k = (case map_of (as_dict c) k of
      Some w \<Rightarrow> Some (merged_value (map_of d k) (parse_custom loads w)) | None \<Rightarrow> map_of d k)" "distinct (map fst ps)"
    by simp_all
qed

text \<open>
  C38. The parameters stored with a model fill a request and never replace what it states. For a
  server that is not Ollama, and apart from the logit bias, the body has its own value under every
  key it has; under every other key the model's custom parameter, merged into the stored value of
  that key; without one, the stored value, unless only the application reads it (the system
  prompt, the approval mode and the like); and nothing else.
\<close>

theorem stored_params_fill:
  assumes "apply_params_to_form_data ce form model params = Inr body"
    and "params_or_payload form params = Inr p" and "distinct (map fst p)"
    and "distinct (map fst (as_dict (get p ''custom_params'')))"
    and "get model ''owned_by'' \<noteq> JStr ''ollama''" and "k \<notin> {''params'', ''logit_bias''}"
  shows "map_of body k =
    (if has_key form k then map_of form k
     else if stored_value (pe_loads (ce_env ce)) p k = JNull then None
     else Some (stored_value (pe_loads (ce_env ce)) p k))"
proof -
  let ?loads = "pe_loads (ce_env ce)" and ?kept = "remove_local_llm_params (dict_pop ''custom_params'' p)"
  have c: "as_dict (get_or p ''custom_params'' (JObj [])) = as_dict (get p ''custom_params'')"
    by (simp add: get_or_def split: option.split)
  have kept: "map_of ?kept k = (if k \<in> insert ''custom_params'' (set local_llm_params) then None else map_of p k)"
    unfolding remove_local_llm_params_def dict_pop_def map_of_kept_keys by simp
  have "distinct (map fst ?kept)"
    using assms(3) by (simp add: remove_local_llm_params_def dict_pop_def distinct_filter_keys)
  moreover obtain ps where ps: "with_custom_params ?loads ?kept (get_or p ''custom_params'' (JObj [])) = Inr ps"
      "apply_logit_bias ce ps (fill_missing (dict_pop ''params'' form) ps) = Inr body"
    using assms(1,2,5) by (auto simp: apply_params_to_form_data_def Let_def and_then_Inr)
  ultimately have g: "map_of ps k = (case map_of (as_dict (get p ''custom_params'')) k of
      Some w \<Rightarrow> Some (merged_value (map_of ?kept k) (parse_custom ?loads w)) | None \<Rightarrow> map_of ?kept k)"
    and d: "distinct (map fst ps)"
    using with_custom_get(1) [OF ps(1), of k] with_custom_get(2) [OF ps(1)] assms(4) unfolding c by blast+
  have st: "get ps k = stored_value ?loads p k"
    unfolding get_or_def [of ps] g kept stored_value_def Let_def
    by (cases "map_of (as_dict (get p ''custom_params'')) k") (simp_all split: option.split)
  have fill: "map_of (fill_missing (dict_pop ''params'' form) ps) k =
      (if has_key form k \<or> get ps k = JNull then map_of (dict_pop ''params'' form) k else Some (get ps k))"
    using assms(6) d by (simp add: fill_missing_get has_key_dict_pop)
  have "map_of body k = map_of (fill_missing (dict_pop ''params'' form) ps) k"
    using apply_logit_bias_get [OF ps(2), of k] assms(6) by blast
  moreover have "map_of (dict_pop ''params'' form) k = map_of form k"
    using assms(6) by (simp add: dict_pop_def map_of_kept_keys)
  moreover have "\<not> has_key form k \<Longrightarrow> map_of form k = None" by (simp add: has_key_def)
  ultimately show ?thesis unfolding fill st by (auto split: if_splits)
qed

text \<open>
  A body with a temperature of its own; the model stores another, a seed, a system prompt and a
  custom parameter, which is sent although only the application reads it.
\<close>

lemma stored_params_fill_witness:
  "(let ce = \<lparr>ce_env = \<lparr>pe_dumps = (\<lambda>v. []), pe_loads = (\<lambda>s. None), pe_repr = (\<lambda>v. []), pe_template = (\<lambda>s. s)\<rparr>,
              ce_decode = (\<lambda>s. s), ce_float = Inr, ce_dict = Inr\<rparr>;
        form = [(''model'', JStr ''m''), (''temperature'', JInt 1)];
        stored = [(''temperature'', JInt 0), (''seed'', JInt 7), (''system'', JStr ''Be brief''),
                  (''custom_params'', JObj [(''stream_response'', JBool True)])]
    in \<exists>body. apply_params_to_form_data ce form [] (Some stored) = Inr body
         \<and> get body ''temperature'' = JInt 1 \<and> get body ''seed'' = JInt 7 \<and> \<not> has_key body ''system''
         \<and> get body ''stream_response'' = JBool True)"
proof -
  let ?ce = "\<lparr>ce_env = \<lparr>pe_dumps = (\<lambda>v. []), pe_loads = (\<lambda>s. None), pe_repr = (\<lambda>v. []), pe_template = (\<lambda>s. s)\<rparr>,
     ce_decode = (\<lambda>s. s), ce_float = Inr, ce_dict = Inr\<rparr>"
  let ?form = "[(''model'', JStr ''m''), (''temperature'', JInt 1)]"
  let ?stored = "[(''temperature'', JInt 0), (''seed'', JInt 7), (''system'', JStr ''Be brief''),
     (''custom_params'', JObj [(''stream_response'', JBool True)])]"
  have "\<exists>body. apply_params_to_form_data ?ce ?form [] (Some ?stored) = Inr body"
    by (simp add: apply_params_to_form_data_def params_or_payload_def with_custom_params_def get_or_def Let_def
        remove_local_llm_params_def local_llm_params_def dict_pop_def apply_logit_bias_def parse_custom_def)
  then obtain body where body: "apply_params_to_form_data ?ce ?form [] (Some ?stored) = Inr body" ..
  have p: "params_or_payload ?form (Some ?stored) = Inr ?stored" by (simp add: params_or_payload_def)
  have "map_of body k = (if has_key ?form k then map_of ?form k
      else if stored_value (pe_loads (ce_env ?ce)) ?stored k = JNull then None
      else Some (stored_value (pe_loads (ce_env ?ce)) ?stored k))"
    if "k \<notin> {''params'', ''logit_bias''}" for k
    by (rule stored_params_fill [OF body p _ _ _ that]) (simp_all add: get_or_def)
  from this [of "''temperature''"] this [of "''seed''"] this [of "''system''"] this [of "''stream_response''"] show ?thesis
    using body by (simp add: Let_def get_or_def has_key_def local_llm_params_def stored_value_def parse_custom_def)
qed

end
