(* ===== verification/ChatHistory.thy ===== *)
theory ChatHistory
  imports Chain PyJson
begin

text \<open>
  The message tree of a chat: the static methods of \<open>ChatTable\<close> (\<open>models/chats.py\<close>) that change a
  stored history, and the walk that reads a branch of it (\<open>get_message_list\<close> in
  \<open>utils/misc.py\<close>). A history is as the app writes it: each message is a dict whose parentId is
  a string or None and whose childrenIds is a list of strings; what else a message holds is
  any JSON. The clock is an argument.
\<close>

section \<open>Messages and their links\<close>

type_synonym messages = "(string \<times> dict) list"

record history =
  hi_messages :: messages
  hi_current :: "string option"
  hi_rest :: dict

fun opt_str :: "json \<Rightarrow> string option" where
  "opt_str (JStr s) = Some s"
| "opt_str _ = None"

fun of_opt :: "string option \<Rightarrow> json" where
  "of_opt None = JNull"
| "of_opt (Some s) = JStr s"

definition parent_of :: "dict \<Rightarrow> string option" where
  "parent_of m = opt_str (get m ''parentId'')"

definition children_of :: "dict \<Rightarrow> string list" where
  "children_of m = List.map_filter opt_str (as_list (get m ''childrenIds''))"

definition set_children :: "string list \<Rightarrow> dict \<Rightarrow> dict" where
  "set_children ids m = dict_set ''childrenIds'' (JArr (map JStr ids)) m"

definition set_parent :: "string option \<Rightarrow> dict \<Rightarrow> dict" where
  "set_parent p m = dict_set ''parentId'' (of_opt p) m"

text \<open>\<open>messages[id] = f(messages[id])\<close> for an id that is there.\<close>

definition update_at :: "string \<Rightarrow> (dict \<Rightarrow> dict) \<Rightarrow> messages \<Rightarrow> messages" where
  "update_at i f ms = map (\<lambda>(k, m). (k, if k = i then f m else m)) ms"

definition message_at :: "messages \<Rightarrow> string option \<Rightarrow> dict option" where
  "message_at ms i = Option.bind i (map_of ms)"

definition children_at :: "messages \<Rightarrow> string \<Rightarrow> string list" where
  "children_at ms i = (case map_of ms i of None \<Rightarrow> [] | Some m \<Rightarrow> children_of m)"

definition parent_at :: "messages \<Rightarrow> string \<Rightarrow> string option" where
  "parent_at ms i = Option.bind (map_of ms i) parent_of"

section \<open>Adding a child link\<close>

definition add_child_id_to_parent :: "messages \<Rightarrow> string option \<Rightarrow> string \<Rightarrow> messages \<times> bool" where
  "add_child_id_to_parent ms parent child =
     (case parent of
        None \<Rightarrow> (ms, False)
      | Some p \<Rightarrow>
          if p = [] then (ms, False)
          else case map_of ms p of
            None \<Rightarrow> (ms, False)
          | Some m \<Rightarrow> if child \<in> set (children_of m) then (ms, False)
              else (update_at p (set_children (children_of m @ [child])) ms, True))"

section \<open>Repairing the links and the current message\<close>

fun add_all_children :: "messages \<Rightarrow> messages \<Rightarrow> messages \<times> bool" where
  "add_all_children ms [] = (ms, False)"
| "add_all_children ms ((i, m) # rest) =
     (case add_child_id_to_parent ms (parent_of m) i of
        (ms1, c1) \<Rightarrow> (case add_all_children ms1 rest of (ms2, c2) \<Rightarrow> (ms2, c1 \<or> c2)))"

text \<open>The last descendant: at each step the last listed child that exists.\<close>

definition last_child :: "messages \<Rightarrow> string \<Rightarrow> string option" where
  "last_child ms i =
     (case filter (\<lambda>c. map_of ms c \<noteq> None) (rev (children_at ms i)) of
        [] \<Rightarrow> None | c # cs \<Rightarrow> if c = [] then None else Some c)"

function last_descendant_id :: "messages \<Rightarrow> string \<Rightarrow> string list \<Rightarrow> string" where
  "last_descendant_id ms i seen =
     (if map_of ms i = None \<or> i \<in> set seen then i
      else case last_child ms i of None \<Rightarrow> i | Some c \<Rightarrow> last_descendant_id ms c (i # seen))"
  by pat_completeness auto
termination
proof (relation "measure (\<lambda>(ms, i, seen). card (set (map fst ms) - set seen))", goal_cases)
  case (2 ms i seen c)
  then have "i \<in> set (map fst ms)" "i \<notin> set seen" by (auto simp: map_of_eq_None_iff)
  then have "set (map fst ms) - set (i # seen) \<subset> set (map fst ms) - set seen" by auto
  then have "card (set (map fst ms) - set (i # seen)) < card (set (map fst ms) - set seen)"
    by (rule psubset_card_mono [rotated]) simp
  then show ?case by simp
qed simp

definition output_role :: "dict \<Rightarrow> json" where
  "output_role m =
     (case find (\<lambda>item. is_dict item \<and> truthy (get (as_dict item) ''role'')) (as_list (get m ''output'')) of
        None \<Rightarrow> JNull | Some item \<Rightarrow> get (as_dict item) ''role'')"

definition is_bad_leaf :: "messages \<Rightarrow> dict \<Rightarrow> bool" where
  "is_bad_leaf ms m \<longleftrightarrow> output_role m = JStr ''assistant'' \<and> get m ''parentId'' = JNull \<and>
     \<not> truthy (get m ''timestamp'') \<and> 1 < length ms"

fun timestamp_of :: "json \<Rightarrow> int" where
  "timestamp_of (JInt t) = t"
| "timestamp_of _ = 0"

fun latest_leaf :: "messages \<Rightarrow> string option \<Rightarrow> int \<Rightarrow> string option" where
  "latest_leaf [] best at = best"
| "latest_leaf ((i, m) # ms) best at =
     (let t = timestamp_of (get m ''timestamp'')
      in if truthy (get m ''role'') \<and> children_of m = [] \<and> at < t then latest_leaf ms (Some i) t
         else latest_leaf ms best at)"

definition repair_chat_current_id :: "history \<Rightarrow> history \<times> bool" where
  "repair_chat_current_id h =
     (case add_all_children (hi_messages h) (hi_messages h) of
        (ms, changed) \<Rightarrow>
          (let h1 = h\<lparr>hi_messages := ms\<rparr>;
               leaf = latest_leaf ms None (- 1);
               to_leaf = (if leaf = None \<or> leaf = Some [] \<or> leaf = hi_current h then (h1, changed)
                          else (h1\<lparr>hi_current := leaf\<rparr>, True))
           in case hi_current h of
                None \<Rightarrow> to_leaf
              | Some i \<Rightarrow>
                  (case map_of ms i of
                     None \<Rightarrow> to_leaf
                   | Some m \<Rightarrow>
                       if truthy (get m ''id'') \<and> truthy (get m ''role'') \<and> \<not> is_bad_leaf ms m
                       then if (truthy (get m ''contextSummary'') \<or> truthy (get m ''context_summary''))
                               \<and> last_descendant_id ms i [] \<noteq> i
                            then (h1\<lparr>hi_current := Some (last_descendant_id ms i [])\<rparr>, True)
                            else (h1, changed)
                       else to_leaf)))"

section \<open>Merging two histories\<close>

text \<open>Every message keeps its content and loses its list of children, which the parents then rebuild.\<close>

fun link_children :: "messages \<Rightarrow> (string \<times> dict) list \<Rightarrow> messages" where
  "link_children ms [] = ms"
| "link_children ms ((i, m) # rest) =
     (case parent_of m of
        None \<Rightarrow> link_children ms rest
      | Some p \<Rightarrow> link_children (update_at p (\<lambda>m. set_children (children_of m @ [i]) m) ms) rest)"

definition merge_history :: "history \<Rightarrow> history \<Rightarrow> history" where
  "merge_history existing incoming =
     (let bare = map (\<lambda>(i, m). (i, set_children [] m)) (dict_update (hi_messages existing) (hi_messages incoming));
          known = (\<lambda>c. message_at bare c \<noteq> None)
      in \<lparr>hi_messages = link_children bare bare,
          hi_current = (if known (hi_current incoming) then hi_current incoming
                        else if known (hi_current existing) then hi_current existing else None),
          hi_rest = dict_update (hi_rest existing) (hi_rest incoming)\<rparr>)"

section \<open>Deleting a message\<close>

text \<open>
  The message goes together with its direct children (the replies to it), and its
  grandchildren move up to its parent. The current message becomes the end of the branch that
  follows the last child at each step: \<open>trail\<close> is what that guarded walk visits.
\<close>

definition newest_child :: "messages \<Rightarrow> string \<Rightarrow> string option" where
  "newest_child ms i = (case children_at ms i of [] \<Rightarrow> None | cs \<Rightarrow> Some (last cs))"

definition roots :: "messages \<Rightarrow> string list" where
  "roots ms = map fst (filter (\<lambda>(i, m). get m ''parentId'' = JNull) ms)"

definition branch_end :: "messages \<Rightarrow> string option \<Rightarrow> string option" where
  "branch_end ms start =
     (let first = (case start of
            None \<Rightarrow> (case roots ms of [] \<Rightarrow> None | rs \<Rightarrow> Some (last rs))
          | Some p \<Rightarrow> newest_child ms p)
      in case trail (newest_child ms) (map fst ms) first [] of [] \<Rightarrow> start | vs \<Rightarrow> Some (last vs))"

definition delete_message_from_history :: "history \<Rightarrow> string \<Rightarrow> history \<times> string set" where
  "delete_message_from_history h i =
     (let ms = hi_messages h
      in case map_of ms i of
           None \<Rightarrow> (h, {})
         | Some m \<Rightarrow>
             (let known = (\<lambda>c. map_of ms c \<noteq> None);
                  parent = parent_of m;
                  kids = filter known (children_of m);
                  grandkids = concat (map (\<lambda>c. filter known (children_at ms c)) kids);
                  ms1 = (case parent of
                     None \<Rightarrow> ms
                   | Some p \<Rightarrow> update_at p (\<lambda>pm. set_children (filter (\<lambda>c. c \<noteq> i) (children_of pm) @ grandkids) pm) ms);
                  ms2 = map (\<lambda>(k, gm). (k, if k \<in> set grandkids then set_parent parent gm else gm)) ms1;
                  deleted = insert i (set kids);
                  ms3 = filter (\<lambda>(k, m). k \<notin> deleted) ms2;
                  current = branch_end ms3 parent
              in (h\<lparr>hi_messages := ms3, hi_current := (if message_at ms3 current \<noteq> None then current else None)\<rparr>, deleted)))"

section \<open>Adding or changing a message\<close>

definition new_role :: "dict \<Rightarrow> dict option \<Rightarrow> json" where
  "new_role patch parent =
     (let own = py_or (get patch ''role'') (output_role patch)
      in if truthy own then own
         else case parent of
           None \<Rightarrow> JStr ''assistant''
         | Some pm \<Rightarrow> if get pm ''role'' = JStr ''user'' then JStr ''assistant''
             else if get pm ''role'' = JStr ''assistant'' then JStr ''user'' else JStr ''assistant'')"

definition adopting_parent :: "messages \<Rightarrow> string \<Rightarrow> string option" where
  "adopting_parent ms i = map_option fst (find (\<lambda>(k, m). i \<in> set (children_of m)) ms)"

definition new_message :: "int \<Rightarrow> messages \<Rightarrow> string \<Rightarrow> dict \<Rightarrow> dict" where
  "new_message now ms i patch =
     (let p = (if parent_of patch \<noteq> None then parent_of patch else adopting_parent ms i);
          parent = (if p = Some [] then None else message_at ms p)
      in dict_update patch
          [(''id'', py_or (get patch ''id'') (JStr i)), (''parentId'', of_opt p),
           (''childrenIds'', if is_list (get patch ''childrenIds'') then get patch ''childrenIds'' else JArr []),
           (''role'', new_role patch parent),
           (''timestamp'', py_or (get patch ''timestamp'') (JInt now))])"

definition upsert_message_to_history :: "int \<Rightarrow> history \<Rightarrow> string \<Rightarrow> dict \<Rightarrow> history" where
  "upsert_message_to_history now h i patch =
     (let ms = hi_messages h;
          saved = (case map_of ms i of Some m \<Rightarrow> dict_update m patch | None \<Rightarrow> new_message now ms i patch);
          ms1 = AList.update i saved ms
      in \<lparr>hi_messages = fst (add_child_id_to_parent ms1 (parent_of saved) i),
          hi_current = (if map_of ms i = None then Some i else hi_current h),
          hi_rest = hi_rest h\<rparr>)"

section \<open>Reading a branch\<close>

text \<open>\<open>get_message_list\<close>: the messages from the root down to the given one; an empty message ends the walk.\<close>

definition known_messages :: "messages \<Rightarrow> messages" where
  "known_messages ms = filter (\<lambda>(i, m). m \<noteq> []) ms"

definition step_up :: "messages \<Rightarrow> string \<Rightarrow> string option" where
  "step_up ms i = (case parent_at ms i of None \<Rightarrow> None | Some p \<Rightarrow> if p = [] then None else Some p)"

definition get_message_list :: "messages \<Rightarrow> string option \<Rightarrow> dict list" where
  "get_message_list ms i =
     rev (List.map_filter (map_of (known_messages ms)) (trail (step_up ms) (map fst (known_messages ms)) i []))"

section \<open>Reading and writing links\<close>

lemma opt_str_of_opt [simp]: "opt_str (of_opt p) = p"
  by (cases p) simp_all

lemma children_of_set_children [simp]: "children_of (set_children ids m) = ids"
proof -
  have "List.map_filter opt_str (map JStr ids) = ids" by (induction ids) (simp_all add: List.map_filter_simps)
  then show ?thesis by (simp add: children_of_def set_children_def get_or_dict_set)
qed

lemma parent_of_set_children [simp]: "parent_of (set_children ids m) = parent_of m"
  by (simp add: parent_of_def set_children_def get_or_dict_set)

lemma parent_of_set_parent [simp]: "parent_of (set_parent p m) = p"
  by (simp add: parent_of_def set_parent_def get_or_dict_set)

lemma children_of_set_parent [simp]: "children_of (set_parent p m) = children_of m"
  by (simp add: children_of_def set_parent_def get_or_dict_set)

lemma set_children_twice [simp]: "set_children ids (set_children ids' m) = set_children ids m"
  by (simp add: set_children_def dict_set_def)

lemma get_set_children: "k \<noteq> ''childrenIds'' \<Longrightarrow> get (set_children ids m) k = get m k"
  by (simp add: set_children_def get_or_dict_set)

lemma get_set_parent: "get (set_parent p m) ''parentId'' = of_opt p"
  by (simp add: set_parent_def get_or_dict_set)

lemma map_of_map_values: "map_of (map (\<lambda>(k, m). (k, f k m)) ms) i = map_option (f i) (map_of ms i)"
  by (induction ms) auto

lemma keys_map_values [simp]: "map fst (map (\<lambda>(k, m). (k, f k m)) ms) = map fst ms"
  by (simp add: comp_def case_prod_unfold)

lemma map_of_update_at: "map_of (update_at p f ms) i = (if i = p then map_option f (map_of ms i) else map_of ms i)"
  by (auto simp: update_at_def map_of_map_values option.map_ident)

lemma keys_update_at [simp]: "map fst (update_at p f ms) = map fst ms"
  unfolding update_at_def by (rule keys_map_values)

lemma known_iff: "map_of ms i \<noteq> None \<longleftrightarrow> i \<in> set (map fst ms)"
  by (simp add: map_of_eq_None_iff)

lemma known_Some: "i \<in> set (map fst ms) \<Longrightarrow> \<exists>m. map_of ms i = Some m"
  using known_iff [of ms i] by (cases "map_of ms i") simp_all

lemma map_of_filter_keys:
  "map_of (filter (\<lambda>(k, m). k \<notin> D) ms) i = (if i \<in> D then None else map_of ms i)"
  by (induction ms) auto

section \<open>Merging keeps every message and rebuilds the links\<close>

definition replies :: "messages \<Rightarrow> string \<Rightarrow> string list" where
  "replies ms p = map fst (filter (\<lambda>(i, m). parent_of m = Some p) ms)"

lemma update_at_map:
  "update_at p (\<lambda>m. set_children (children_of m @ [i]) m) (map (\<lambda>(k, m). (k, set_children (f k) m)) ms)
     = map (\<lambda>(k, m). (k, set_children ((f(p := f p @ [i])) k) m)) ms"
  by (simp add: update_at_def comp_def case_prod_unfold)

lemma link_children_map:
  "link_children (map (\<lambda>(k, m). (k, set_children (f k) m)) ms) rest
     = map (\<lambda>(k, m). (k, set_children (f k @ replies rest k) m)) ms"
proof (induction rest arbitrary: f)
  case Nil
  then show ?case by (simp add: replies_def)
next
  case (Cons a rest)
  obtain i m where a: "a = (i, m)" by (cases a)
  show ?case
  proof (cases "parent_of m")
    case None
    then show ?thesis using Cons.IH [of f] by (simp add: a replies_def)
  next
    case (Some p)
    have "link_children (map (\<lambda>(k, m). (k, set_children (f k) m)) ms) (a # rest) =
        map (\<lambda>(k, m). (k, set_children ((f(p := f p @ [i])) k @ replies rest k) m)) ms"
      using Cons.IH [of "f(p := f p @ [i])"] by (simp only: a link_children.simps Some option.case update_at_map)
    also have "\<dots> = map (\<lambda>(k, m). (k, set_children (f k @ replies (a # rest) k) m)) ms"
      by (rule map_cong) (auto simp: a Some replies_def)
    finally show ?thesis .
  qed
qed

lemma replies_set_children: "replies (map (\<lambda>(k, m). (k, set_children (f k) m)) ms) p = replies ms p"
  by (induction ms) (auto simp: replies_def)

lemma merged_messages:
  "hi_messages (merge_history e h) =
     (let all = dict_update (hi_messages e) (hi_messages h)
      in map (\<lambda>(k, m). (k, set_children (replies all k) m)) all)"
  using link_children_map [of "\<lambda>k. []" "dict_update (hi_messages e) (hi_messages h)"]
  by (simp add: merge_history_def Let_def replies_set_children)

lemma map_of_in: "distinct (map fst ms) \<Longrightarrow> (k, m) \<in> set ms \<Longrightarrow> map_of ms k = Some m"
  by simp

lemma replies_parent_at:
  assumes "distinct (map fst ms)"
  shows "replies ms p = filter (\<lambda>c. parent_at ms c = Some p) (map fst ms)"
proof -
  have "filter (\<lambda>c. parent_at ms c = Some p) (map fst ms) = map fst (filter (\<lambda>x. parent_at ms (fst x) = Some p) ms)"
    by (simp add: filter_map comp_def)
  also have "filter (\<lambda>x. parent_at ms (fst x) = Some p) ms = filter (\<lambda>(i, m). parent_of m = Some p) ms"
    by (rule filter_cong [OF refl]) (use assms in \<open>auto simp: parent_at_def\<close>)
  finally show ?thesis by (simp add: replies_def)
qed

lemma parent_at_set_children:
  "parent_at (map (\<lambda>(k, m). (k, set_children (f k) m)) ms) c = parent_at ms c"
  by (cases "map_of ms c") (simp_all add: parent_at_def map_of_map_values)

text \<open>
  Merging an incoming history into a stored one loses no message and takes the incoming
  version of a message both have; afterwards a message's children are exactly the messages
  whose parentId it is, in stored order, and the current message exists.
\<close>

theorem merge_history_exact:
  assumes "distinct (map fst (hi_messages e))" and "distinct (map fst (hi_messages h))"
    and "ms = hi_messages (merge_history e h)"
  shows "map_of ms k = map_option (set_children (filter (\<lambda>c. parent_at ms c = Some k) (map fst ms)))
           (case map_of (hi_messages h) k of None \<Rightarrow> map_of (hi_messages e) k | Some m \<Rightarrow> Some m) \<and>
         (case hi_current (merge_history e h) of None \<Rightarrow> True | Some c \<Rightarrow> c \<in> set (map fst ms))"
proof
  define all where "all = dict_update (hi_messages e) (hi_messages h)"
  have ms: "ms = map (\<lambda>(k, m). (k, set_children (replies all k) m)) all"
    by (simp add: assms(3) all_def merged_messages Let_def)
  have dist: "distinct (map fst all)" unfolding all_def by (rule distinct_dict_update [OF assms(1)])
  have keys: "map fst ms = map fst all" unfolding ms by (rule keys_map_values)
  have parents: "parent_at ms c = parent_at all c" for c unfolding ms by (rule parent_at_set_children)
  have "map_of all k = (if k \<in> fst ` set (hi_messages h) then map_of (hi_messages h) k else map_of (hi_messages e) k)"
    unfolding all_def by (rule map_of_dict_update) (use assms(2) in simp)
  also have "\<dots> = (case map_of (hi_messages h) k of None \<Rightarrow> map_of (hi_messages e) k | Some m \<Rightarrow> Some m)"
    using known_iff [of "hi_messages h" k] by (auto split: option.split)
  finally have "map_of ms k = map_option (set_children (replies all k))
      (case map_of (hi_messages h) k of None \<Rightarrow> map_of (hi_messages e) k | Some m \<Rightarrow> Some m)"
    unfolding ms by (simp add: map_of_map_values)
  then show "map_of ms k = map_option (set_children (filter (\<lambda>c. parent_at ms c = Some k) (map fst ms)))
      (case map_of (hi_messages h) k of None \<Rightarrow> map_of (hi_messages e) k | Some m \<Rightarrow> Some m)"
    unfolding replies_parent_at [OF dist] parents keys .
  have "message_at (map (\<lambda>(i, m). (i, set_children [] m)) all) c \<noteq> None \<Longrightarrow> c = Some i \<Longrightarrow> i \<in> set (map fst ms)" for c i
    unfolding keys by (auto simp: message_at_def map_of_map_values) (metis known_iff option.distinct(1) list.set_map)
  then show "case hi_current (merge_history e h) of None \<Rightarrow> True | Some c \<Rightarrow> c \<in> set (map fst ms)"
    by (auto simp: merge_history_def Let_def all_def split: option.split if_splits)
qed

section \<open>Trees of messages\<close>

text \<open>
  A well-formed history: ids once and not empty, parent and child links that agree and lead to
  messages, and no message its own ancestor.
\<close>

definition child_links :: "messages \<Rightarrow> (string \<times> string) set" where
  "child_links ms = {(p, c). parent_at ms c = Some p}"

definition forest :: "messages \<Rightarrow> bool" where
  "forest ms \<longleftrightarrow> distinct (map fst ms) \<and> [] \<notin> set (map fst ms) \<and>
     (\<forall>(i, m) \<in> set ms. get m ''parentId'' = of_opt (parent_of m)) \<and>
     (\<forall>c p. parent_at ms c = Some p \<longrightarrow> p \<in> set (map fst ms) \<and> c \<in> set (children_at ms p)) \<and>
     (\<forall>p c. c \<in> set (children_at ms p) \<longrightarrow> parent_at ms c = Some p) \<and>
     (\<forall>p. distinct (children_at ms p)) \<and> acyclic (child_links ms)"

lemma forestD:
  assumes "forest ms"
  shows "distinct (map fst ms)" and "[] \<notin> set (map fst ms)"
    and "\<And>i m. map_of ms i = Some m \<Longrightarrow> get m ''parentId'' = of_opt (parent_of m)"
    and "\<And>c p. parent_at ms c = Some p \<Longrightarrow> p \<in> set (map fst ms)"
    and "\<And>c p. c \<in> set (children_at ms p) \<longleftrightarrow> parent_at ms c = Some p"
    and "\<And>p. distinct (children_at ms p)" and "acyclic (child_links ms)"
proof -
  show "get m ''parentId'' = of_opt (parent_of m)" if "map_of ms i = Some m" for i m
    using assms map_of_SomeD [OF that] unfolding forest_def by fast
  show "c \<in> set (children_at ms p) \<longleftrightarrow> parent_at ms c = Some p" for c p
    using assms unfolding forest_def by blast
qed (use assms in \<open>unfold forest_def, blast+\<close>)

lemma forestI:
  assumes "distinct (map fst ms)" and "[] \<notin> set (map fst ms)"
    and "\<And>i m. map_of ms i = Some m \<Longrightarrow> get m ''parentId'' = of_opt (parent_of m)"
    and "\<And>c p. parent_at ms c = Some p \<Longrightarrow> p \<in> set (map fst ms)"
    and "\<And>c p. c \<in> set (children_at ms p) \<longleftrightarrow> parent_at ms c = Some p"
    and "\<And>p. distinct (children_at ms p)" and "acyclic (child_links ms)"
  shows "forest ms"
  unfolding forest_def using assms(1,2,7)
  by (intro conjI) (use assms(3-6) in \<open>(fastforce intro: map_of_is_SomeI)+\<close>)

lemma known_parent_at: "parent_at ms c = Some p \<Longrightarrow> c \<in> set (map fst ms)"
  by (metis bind_eq_None_conv known_iff option.distinct(1) parent_at_def)

lemma no_self_ancestor:
  assumes "forest ms" "(a, b) \<in> (child_links ms)\<^sup>+"
  shows "(b, a) \<notin> (child_links ms)\<^sup>*" and "a \<noteq> b"
proof -
  have ac: "acyclic (child_links ms)" by (rule forestD(7) [OF assms(1)])
  show "(b, a) \<notin> (child_links ms)\<^sup>*"
    using ac rtrancl_trancl_trancl [OF _ assms(2)] unfolding acyclic_def by blast
  show "a \<noteq> b" using ac assms(2) unfolding acyclic_def by blast
qed

lemma child_linkI: "parent_at ms c = Some p \<Longrightarrow> (p, c) \<in> child_links ms"
  by (simp add: child_links_def)

lemma newest_child_link: "forest ms \<Longrightarrow> newest_child ms p = Some c \<Longrightarrow> (p, c) \<in> child_links ms"
  using forestD(5) [of ms c p] last_in_set [of "children_at ms p"]
  by (auto simp: newest_child_def child_links_def split: list.splits)

text \<open>Following the newest child ends at a message without replies.\<close>

lemma newest_branch_end:
  assumes "forest ms" "x \<in> set (map fst ms)"
  defines "y \<equiv> last (trail (newest_child ms) (map fst ms) (Some x) [])"
  shows "y \<in> set (map fst ms)" and "children_at ms y = []"
proof -
  have sub: "link (newest_child ms) (map fst ms) \<subseteq> child_links ms"
    using newest_child_link [OF assms(1)] by (auto simp: link_def)
  have y: "y \<in> set (trail (newest_child ms) (map fst ms) (Some x) [])"
    unfolding y_def by (intro last_in_set trail_not_Nil) simp
  have "(x, y) \<in> (link (newest_child ms) (map fst ms))\<^sup>*" by (rule trail_reachable [OF y])
  then show known: "y \<in> set (map fst ms)"
  proof (cases rule: rtranclE)
    case (step z)
    then have "parent_at ms y = Some z" using sub by (auto simp: child_links_def)
    then show ?thesis by (rule known_parent_at)
  qed (use assms(2) in simp)
  have "acyclic (link (newest_child ms) (map fst ms))"
    using forestD(7) [OF assms(1)] sub by (rule acyclic_subset)
  then have "newest_child ms y = None" using acyclic_trail_end [OF _ y_def [THEN meta_eq_to_obj_eq]] known by simp
  then show "children_at ms y = []" by (simp add: newest_child_def split: list.splits)
qed

section \<open>Deleting a message keeps the tree\<close>

definition grandchildren_at :: "messages \<Rightarrow> string \<Rightarrow> string list" where
  "grandchildren_at ms i = concat (map (children_at ms) (children_at ms i))"

definition without_message :: "messages \<Rightarrow> string \<Rightarrow> string option \<Rightarrow> messages" where
  "without_message ms i parent =
     filter (\<lambda>(k, m). k \<notin> insert i (set (children_at ms i)))
       (map (\<lambda>(k, m). (k, if k \<in> set (grandchildren_at ms i) then set_parent parent m else m))
         (case parent of
            None \<Rightarrow> ms
          | Some p \<Rightarrow> update_at p (\<lambda>pm. set_children (filter (\<lambda>c. c \<noteq> i) (children_of pm) @ grandchildren_at ms i) pm) ms))"

lemma children_known:
  assumes "forest ms"
  shows "filter (\<lambda>c. map_of ms c \<noteq> None) (children_at ms p) = children_at ms p"
proof (rule filter_True, rule ballI)
  fix c assume "c \<in> set (children_at ms p)"
  then have "parent_at ms c = Some p" using forestD(5) [OF assms] by simp
  then show "map_of ms c \<noteq> None" using known_parent_at known_iff by metis
qed

lemma delete_in_forest:
  assumes "forest (hi_messages h)" "map_of (hi_messages h) i = Some m"
  defines "ms' \<equiv> without_message (hi_messages h) i (parent_of m)"
  shows "delete_message_from_history h i =
    (h\<lparr>hi_messages := ms', hi_current := (if message_at ms' (branch_end ms' (parent_of m)) \<noteq> None
        then branch_end ms' (parent_of m) else None)\<rparr>,
     insert i (set (children_at (hi_messages h) i)))"
proof -
  have "children_of m = children_at (hi_messages h) i" using assms(2) by (simp add: children_at_def)
  then show ?thesis
    unfolding delete_message_from_history_def Let_def ms'_def without_message_def grandchildren_at_def
    by (simp only: assms(2) option.case children_known [OF assms(1)])
qed

lemma distinct_grandchildren:
  assumes "forest ms"
  shows "distinct (grandchildren_at ms i)"
proof -
  have "distinct (concat (map (children_at ms) ks))" if "distinct ks" for ks
    using that
  proof (induction ks)
    case (Cons k ks)
    have "c \<notin> set (children_at ms k')" if "k' \<in> set ks" "c \<in> set (children_at ms k)" for c k'
      using that Cons.prems forestD(5) [OF assms, of c] by auto
    then show ?case using Cons forestD(6) [OF assms] by auto
  qed simp
  then show ?thesis unfolding grandchildren_at_def using forestD(6) [OF assms] .
qed

lemma delete_keeps_forest_aux:
  assumes f: "forest ms" and m: "map_of ms i = Some m"
  defines "ms' \<equiv> without_message ms i (parent_of m)"
  shows "forest ms'" and "set (map fst ms') = set (map fst ms) - insert i (set (children_at ms i))"
    and "\<And>k. k \<in> set (map fst ms') \<Longrightarrow> parent_at ms' k = (if k \<in> set (grandchildren_at ms i) then parent_of m else parent_at ms k)"
proof -
  define D where "D = insert i (set (children_at ms i))"
  define G where "G = grandchildren_at ms i"
  have parent_i: "parent_at ms i = parent_of m" using m by (simp add: parent_at_def)
  have at: "map_of ms' k = (if k \<in> D then None else map_option
      (\<lambda>x. if k \<in> set G then set_parent (parent_of m) (if parent_of m = Some k then set_children (filter (\<lambda>c. c \<noteq> i) (children_of x) @ G) x else x)
           else if parent_of m = Some k then set_children (filter (\<lambda>c. c \<noteq> i) (children_of x) @ G) x else x) (map_of ms k))" for k
    unfolding ms'_def without_message_def D_def [symmetric] G_def [symmetric] map_of_filter_keys map_of_map_values
    by (cases "parent_of m"; cases "map_of ms k") (auto simp: map_of_update_at)
  have keys: "k \<in> set (map fst ms') \<longleftrightarrow> k \<in> set (map fst ms) \<and> k \<notin> D" for k
    unfolding known_iff [symmetric] at by (cases "map_of ms k") auto
  then show "set (map fst ms') = set (map fst ms) - insert i (set (children_at ms i))" unfolding D_def by blast
  have parent: "parent_at ms' k = (if k \<in> D then None else if k \<in> set G \<and> map_of ms k \<noteq> None then parent_of m else parent_at ms k)" for k
    using at [of k] by (cases "map_of ms k") (auto simp: parent_at_def)
  then show "parent_at ms' k = (if k \<in> set (grandchildren_at ms i) then parent_of m else parent_at ms k)"
    if "k \<in> set (map fst ms')" for k
    using that keys [of k] known_iff [of ms k] G_def by auto
  have kids: "children_at ms' k = (if k \<in> D then [] else if parent_of m = Some k \<and> map_of ms k \<noteq> None
      then filter (\<lambda>c. c \<noteq> i) (children_at ms k) @ G else children_at ms k)" for k
    using at [of k] by (cases "map_of ms k") (auto simp: children_at_def)
  have G: "c \<in> set G \<longleftrightarrow> (\<exists>b. parent_at ms c = Some b \<and> parent_at ms b = Some i)" for c
    unfolding G_def grandchildren_at_def using forestD(5) [OF f] by auto
  have K: "c \<in> set (children_at ms i) \<longleftrightarrow> parent_at ms c = Some i" for c by (rule forestD(5) [OF f])
  note no_loop = no_self_ancestor(2) [OF f]
  have up1: "parent_at ms b = Some a \<Longrightarrow> (a, b) \<in> (child_links ms)\<^sup>+" for a b
    using child_linkI by blast
  have up2: "parent_at ms b = Some a \<Longrightarrow> parent_at ms c = Some b \<Longrightarrow> (a, c) \<in> (child_links ms)\<^sup>+" for a b c
    using child_linkI by (meson r_into_trancl' trancl_trans)
  have up3: "parent_at ms b = Some a \<Longrightarrow> parent_at ms c = Some b \<Longrightarrow> parent_at ms d = Some c \<Longrightarrow> (a, d) \<in> (child_links ms)\<^sup>+" for a b c d
    using child_linkI by (meson r_into_trancl' trancl_trans)
  have parent_kept: "p \<notin> D" if "parent_of m = Some p" for p
    using that parent_i up1 up2 no_loop K unfolding D_def by (metis insert_iff)
  have G_kept: "c \<notin> D" if "c \<in> set G" for c
    using that G K up1 up2 no_loop unfolding D_def by (metis insert_iff option.inject)
  have links: "parent_at ms' c = Some p \<longleftrightarrow> c \<notin> D \<and> p \<notin> D \<and>
      (if c \<in> set G then parent_of m = Some p else parent_at ms c = Some p)" for c p
  proof (cases "c \<in> set G")
    case True
    then have "map_of ms c \<noteq> None" using G known_parent_at known_iff by metis
    then show ?thesis using parent [of c] True parent_kept by auto
  next
    case False
    have "p \<notin> D" if "parent_at ms c = Some p" "c \<notin> D"
      using that False G K unfolding D_def by auto
    then show ?thesis using parent [of c] False by auto
  qed
  show "forest ms'"
  proof (rule forestI)
    show "distinct (map fst ms')"
      unfolding ms'_def without_message_def using forestD(1) [OF f]
      by (intro distinct_map_filterI, unfold keys_map_values) (simp split: option.split)
    show "[] \<notin> set (map fst ms')" using keys forestD(2) [OF f] by blast
    show "get x ''parentId'' = of_opt (parent_of x)" if x: "map_of ms' k = Some x" for k x
    proof -
      obtain y where y: "map_of ms k = Some y" using x at [of k] by (cases "map_of ms k") (auto split: if_splits)
      show ?thesis
        using x at [of k] y forestD(3) [OF f y] by (auto simp: get_set_children get_set_parent split: if_splits)
    qed
    show "p \<in> set (map fst ms')" if "parent_at ms' c = Some p" for c p
      using that links keys forestD(4) [OF f] parent_i by (metis (full_types))
    show "c \<in> set (children_at ms' p) \<longleftrightarrow> parent_at ms' c = Some p" for c p
    proof (cases "parent_of m = Some p")
      case True
      then have "map_of ms p \<noteq> None" using parent_i forestD(4) [OF f] known_iff by metis
      then show ?thesis
        using kids [of p] links [of c p] True parent_kept G_kept forestD(5) [OF f, of c p] K unfolding D_def by auto
    next
      case False
      have "c \<notin> D" if "parent_at ms c = Some p" "p \<notin> D"
        using that False parent_i K [of c] unfolding D_def by auto
      moreover have "c \<notin> set G" if "parent_at ms c = Some p" "p \<notin> D"
        using that G [of c] K [of p] unfolding D_def by auto
      moreover have "children_at ms' p = (if p \<in> D then [] else children_at ms p)" using kids [of p] False by simp
      ultimately show ?thesis
        using links [of c p] forestD(5) [OF f, of c p] False by (cases "p \<in> D") auto
    qed
    have "distinct (filter (\<lambda>c. c \<noteq> i) (children_at ms p) @ G)" if "parent_of m = Some p" for p
    proof -
      have "c \<notin> set G" if "c \<in> set (children_at ms p)" for c
        using that \<open>parent_of m = Some p\<close> parent_i forestD(5) [OF f, of c p] G up1 up2 no_loop by (metis option.inject)
      then show ?thesis using forestD(6) [OF f] distinct_grandchildren [OF f] unfolding G_def by auto
    qed
    then show "distinct (children_at ms' p)" for p
      using kids [of p] forestD(6) [OF f] by simp
    show "acyclic (child_links ms')"
    proof (rule acyclic_subset)
      show "acyclic ((child_links ms)\<^sup>+)" using forestD(7) [OF f] by (simp add: acyclic_def)
      show "child_links ms' \<subseteq> (child_links ms)\<^sup>+"
        using links G parent_i up1 up3 by (fastforce simp: child_links_def [of ms'] split: if_splits)
    qed
  qed
qed

lemma forest_root:
  assumes "forest ms" "ms \<noteq> []"
  shows "roots ms \<noteq> []"
proof -
  have sub: "child_links ms \<subseteq> set (map fst ms) \<times> set (map fst ms)"
    using forestD(4) [OF assms(1)] known_parent_at by (auto simp: child_links_def)
  have "wf (child_links ms)"
    using finite_subset [OF sub] forestD(7) [OF assms(1)] by (intro finite_acyclic_wf) simp_all
  note wf = this
  obtain x where x: "x \<in> set (map fst ms)" using assms(2) by (cases ms) auto
  obtain z where z: "z \<in> set (map fst ms)" "\<And>y. (y, z) \<in> child_links ms \<Longrightarrow> y \<notin> set (map fst ms)"
    by (rule wfE_min [OF wf x]) (rule that)
  then have "parent_at ms z = None"
    using forestD(4) [OF assms(1)] by (cases "parent_at ms z") (auto simp: child_links_def)
  moreover obtain m where m: "map_of ms z = Some m" using known_Some [OF z(1)] by blast
  ultimately have "get m ''parentId'' = JNull"
    using forestD(3) [OF assms(1) m] by (simp add: parent_at_def)
  then have "z \<in> set (roots ms)" using map_of_SomeD [OF m] by (force simp: roots_def)
  then show ?thesis by auto
qed

lemma branch_end_leaf:
  assumes f: "forest ms" and start: "case start of None \<Rightarrow> True | Some p \<Rightarrow> p \<in> set (map fst ms)"
  shows "case branch_end ms start of None \<Rightarrow> ms = [] | Some c \<Rightarrow> c \<in> set (map fst ms) \<and> children_at ms c = []"
proof -
  have walk: "case (case trail (newest_child ms) (map fst ms) (Some c) [] of [] \<Rightarrow> start | vs \<Rightarrow> Some (last vs)) of
      None \<Rightarrow> ms = [] | Some c \<Rightarrow> c \<in> set (map fst ms) \<and> children_at ms c = []" if "c \<in> set (map fst ms)" for c
    using newest_branch_end [OF f that] trail_not_Nil [of c "[]" "newest_child ms" "map fst ms"]
    by (cases "trail (newest_child ms) (map fst ms) (Some c) []") auto
  show ?thesis
  proof (cases start)
    case None
    show ?thesis
    proof (cases "roots ms")
      case Nil
      then show ?thesis using forest_root [OF f] None by (auto simp: branch_end_def)
    next
      case (Cons r rs)
      then have "last (roots ms) \<in> set (roots ms)" by (intro last_in_set) simp
      moreover have "set (roots ms) \<subseteq> set (map fst ms)" by (auto simp: roots_def)
      ultimately have "last (roots ms) \<in> set (map fst ms)" by blast
      moreover have "branch_end ms start =
          (case trail (newest_child ms) (map fst ms) (Some (last (roots ms))) [] of [] \<Rightarrow> start | vs \<Rightarrow> Some (last vs))"
        unfolding \<open>start = None\<close> branch_end_def using Cons by simp
      ultimately show ?thesis using walk by simp
    qed
  next
    case (Some p)
    show ?thesis
    proof (cases "newest_child ms p")
      case None
      then have "children_at ms p = []" by (simp add: newest_child_def split: list.splits)
      then show ?thesis using Some None start by (simp add: branch_end_def)
    next
      case (Some c)
      then have "c \<in> set (map fst ms)" using newest_child_link [OF f Some] known_parent_at by (auto simp: child_links_def)
      then show ?thesis using walk [of c] unfolding branch_end_def \<open>start = Some p\<close> by (simp add: Some)
    qed
  qed
qed

text \<open>
  C21. Deleting a message of a well-formed history removes it and the replies to it and nothing
  else; the replies' own replies move up to its parent, the history stays well-formed, and
  the current message is one without replies (none is left only when no message is).
\<close>

theorem delete_message_exact:
  assumes "forest (hi_messages h)" and "i \<in> set (map fst (hi_messages h))"
    and "delete_message_from_history h i = (h', deleted)"
  shows "deleted = insert i (set (children_at (hi_messages h) i)) \<and> forest (hi_messages h') \<and>
    set (map fst (hi_messages h')) = set (map fst (hi_messages h)) - deleted \<and>
    (\<forall>k \<in> set (map fst (hi_messages h')). parent_at (hi_messages h') k =
       (if k \<in> set (grandchildren_at (hi_messages h) i) then parent_at (hi_messages h) i else parent_at (hi_messages h) k)) \<and>
    (case hi_current h' of None \<Rightarrow> hi_messages h' = []
     | Some c \<Rightarrow> c \<in> set (map fst (hi_messages h')) \<and> children_at (hi_messages h') c = [])"
proof -
  obtain m where m: "map_of (hi_messages h) i = Some m" using known_Some [OF assms(2)] by blast
  define ms' where "ms' = without_message (hi_messages h) i (parent_of m)"
  note aux = delete_keeps_forest_aux [OF assms(1) m, folded ms'_def]
  have parent_i: "parent_at (hi_messages h) i = parent_of m" using m by (simp add: parent_at_def)
  have result: "hi_messages h' = ms'" "deleted = insert i (set (children_at (hi_messages h) i))"
    and current: "hi_current h' = (if message_at ms' (branch_end ms' (parent_of m)) \<noteq> None then branch_end ms' (parent_of m) else None)"
    using delete_in_forest [OF assms(1) m] assms(3) by (simp_all add: ms'_def prod_eq_iff)
  have "p \<in> set (map fst ms')" if p: "parent_of m = Some p" for p
  proof -
    have "p \<in> set (map fst (hi_messages h))" using forestD(4) [OF assms(1)] parent_i p by metis
    moreover have link: "(p, i) \<in> (child_links (hi_messages h))\<^sup>+" using child_linkI parent_i p by (metis r_into_trancl')
    then have "p \<noteq> i" by (rule no_self_ancestor(2) [OF assms(1)])
    moreover have "p \<notin> set (children_at (hi_messages h) i)"
    proof
      assume "p \<in> set (children_at (hi_messages h) i)"
      then have "(i, p) \<in> child_links (hi_messages h)" using forestD(5) [OF assms(1)] by (simp add: child_links_def)
      then show False using no_self_ancestor(1) [OF assms(1) link] by blast
    qed
    ultimately show ?thesis unfolding aux(2) by blast
  qed
  then have "case parent_of m of None \<Rightarrow> True | Some p \<Rightarrow> p \<in> set (map fst ms')" by (cases "parent_of m") simp_all
  from branch_end_leaf [OF aux(1) this]
  have leaf: "case hi_current h' of None \<Rightarrow> ms' = [] | Some c \<Rightarrow> c \<in> set (map fst ms') \<and> children_at ms' c = []"
  proof (cases "branch_end ms' (parent_of m)")
    case (Some c)
    then have "c \<in> set (map fst ms')" "children_at ms' c = []"
      using branch_end_leaf [OF aux(1) \<open>case parent_of m of None \<Rightarrow> True | Some p \<Rightarrow> p \<in> set (map fst ms')\<close>] by simp_all
    moreover have "message_at ms' (Some c) \<noteq> None" using known_iff [of ms' c] calculation(1) by (simp only: message_at_def bind.bind_lunit)
    ultimately show ?thesis unfolding current Some by (simp only: if_True option.case simp_thms)
  qed (simp add: current)
  have parents: "\<forall>k \<in> set (map fst ms'). parent_at ms' k =
      (if k \<in> set (grandchildren_at (hi_messages h) i) then parent_at (hi_messages h) i else parent_at (hi_messages h) k)"
    unfolding parent_i using aux(3) by blast
  show ?thesis unfolding result(1) using result(2) aux(1,2) parents leaf by blast
qed

section \<open>Adding a message keeps the tree\<close>

lemma get_update: "get (AList.update k v d) k' = (if k' = k then v else get d k')"
  by (simp add: get_or_def)

lemma new_not_child: "forest ms \<Longrightarrow> i \<notin> set (map fst ms) \<Longrightarrow> i \<notin> set (children_at ms p)"
  using forestD(5) [of ms i p] known_parent_at [of ms i p] by blast

lemma new_message_links:
  assumes "i \<notin> set (map fst ms)" "forest ms" "get patch ''parentId'' = of_opt (parent_of patch)"
  shows "get (new_message now ms i patch) ''parentId'' = of_opt (parent_of patch)"
    and "parent_of (new_message now ms i patch) = parent_of patch"
    and "children_of (new_message now ms i patch) = children_of patch"
proof -
  have "adopting_parent ms i = None"
  proof -
    have "i \<notin> set (children_of m)" if "(p, m) \<in> set ms" for p m
    proof
      assume "i \<in> set (children_of m)"
      then have "i \<in> set (children_at ms p)"
        using map_of_in [OF forestD(1) [OF assms(2)] that] by (simp add: children_at_def)
      then show False using new_not_child [OF assms(2,1)] by blast
    qed
    then have "find (\<lambda>(k, m). i \<in> set (children_of m)) ms = None" by (auto simp: find_None_iff)
    then show ?thesis by (simp add: adopting_parent_def)
  qed
  then have p: "(if parent_of patch \<noteq> None then parent_of patch else adopting_parent ms i) = parent_of patch" by simp
  show parent: "get (new_message now ms i patch) ''parentId'' = of_opt (parent_of patch)"
    unfolding new_message_def Let_def p by (simp add: get_update)
  then show "parent_of (new_message now ms i patch) = parent_of patch" by (simp add: parent_of_def)
  have "get (new_message now ms i patch) ''childrenIds'' =
      (if is_list (get patch ''childrenIds'') then get patch ''childrenIds'' else JArr [])"
    unfolding new_message_def Let_def p by (simp add: get_update)
  then show "children_of (new_message now ms i patch) = children_of patch"
    by (cases "get patch ''childrenIds''") (simp_all add: children_of_def)
qed

text \<open>What an upsert of a new message without children writes.\<close>

lemma upsert_new:
  fixes now :: int
  assumes f: "forest (hi_messages h)" and i: "i \<notin> set (map fst (hi_messages h))" "i \<noteq> []"
    and patch: "get patch ''parentId'' = of_opt (parent_of patch)" "children_of patch = []"
      "case parent_of patch of None \<Rightarrow> True | Some p \<Rightarrow> p \<in> set (map fst (hi_messages h))"
  defines "ms' \<equiv> hi_messages (upsert_message_to_history now h i patch)"
  shows "map_of ms' k = (if k = i then Some (new_message now (hi_messages h) i patch)
      else if parent_of patch = Some k then map_option (\<lambda>m. set_children (children_of m @ [i]) m) (map_of (hi_messages h) k)
      else map_of (hi_messages h) k)"
    and "map fst ms' = map fst (hi_messages h) @ [i]"
proof -
  define ms where "ms = hi_messages h"
  define m where "m = new_message now ms i patch"
  have none: "map_of ms i = None" using i(1) by (simp add: ms_def map_of_eq_None_iff)
  have m: "parent_of m = parent_of patch" unfolding m_def ms_def by (rule new_message_links(2) [OF i(1) f patch(1)])
  define ms1 where "ms1 = AList.update i m ms"
  have keys1: "map fst ms1 = map fst ms @ [i]"
    unfolding ms1_def using i(1) by (simp add: update_keys ms_def)
  have at1: "map_of ms1 k = (if k = i then Some m else map_of ms k)" for k by (simp add: ms1_def)
  have eq: "ms' = fst (add_child_id_to_parent ms1 (parent_of patch) i)"
    unfolding ms'_def upsert_message_to_history_def Let_def ms_def [symmetric]
    using m by (simp add: none m_def ms1_def)
  have "map_of ms' k = (if k = i then Some m
      else if parent_of patch = Some k then map_option (\<lambda>m. set_children (children_of m @ [i]) m) (map_of ms k)
      else map_of ms k) \<and> map fst ms' = map fst ms @ [i]"
  proof (cases "parent_of patch")
    case None
    then show ?thesis using eq at1 keys1 by (simp add: add_child_id_to_parent_def)
  next
    case (Some p)
    then have p: "p \<in> set (map fst ms)" using patch(3) by (simp add: ms_def)
    from known_Some [OF this] obtain pm where pm: "map_of ms p = Some pm" by blast
    have "p \<noteq> i" "p \<noteq> []" using p i(1) forestD(2) [OF f] unfolding ms_def by blast+
    moreover have "i \<notin> set (children_of pm)"
    proof
      assume "i \<in> set (children_of pm)"
      then have "i \<in> set (children_at ms p)" by (simp add: children_at_def pm)
      then show False using new_not_child [OF f i(1)] unfolding ms_def by blast
    qed
    ultimately have "ms' = update_at p (set_children (children_of pm @ [i])) ms1"
      using eq at1 [of p] Some pm by (simp add: add_child_id_to_parent_def)
    then show ?thesis using at1 [of k] keys1 Some pm \<open>p \<noteq> i\<close> by (auto simp: map_of_update_at)
  qed
  then show "map_of ms' k = (if k = i then Some (new_message now (hi_messages h) i patch)
      else if parent_of patch = Some k then map_option (\<lambda>m. set_children (children_of m @ [i]) m) (map_of (hi_messages h) k)
      else map_of (hi_messages h) k)" and "map fst ms' = map fst (hi_messages h) @ [i]"
    by (simp_all add: ms_def m_def)
qed

lemma upsert_forest:
  fixes now :: int
  assumes "forest (hi_messages h)" and "i \<notin> set (map fst (hi_messages h))" and "i \<noteq> []"
    and "get patch ''parentId'' = of_opt (parent_of patch)" and "children_of patch = []"
    and "case parent_of patch of None \<Rightarrow> True | Some p \<Rightarrow> p \<in> set (map fst (hi_messages h))"
    and "h' = upsert_message_to_history now h i patch"
  shows "forest (hi_messages h') \<and> map fst (hi_messages h') = map fst (hi_messages h) @ [i] \<and> hi_current h' = Some i \<and>
    (\<forall>k. parent_at (hi_messages h') k = (if k = i then parent_of patch else parent_at (hi_messages h) k) \<and>
         children_at (hi_messages h') k = children_at (hi_messages h) k @ (if parent_of patch = Some k then [i] else []))"
proof -
  note f = assms(1)
  define ms where "ms = hi_messages h"
  define ms' where "ms' = hi_messages h'"
  note links = new_message_links [OF assms(2) f assms(4)]
  note at = upsert_new(1) [where now = now, OF assms(1-6), folded assms(7), folded ms_def ms'_def]
  note keys = upsert_new(2) [where now = now, OF assms(1-6), folded assms(7), folded ms_def ms'_def]
  have i: "i \<notin> set (map fst ms)" using assms(2) by (simp add: ms_def)
  then have none: "map_of ms i = None" by (simp add: map_of_eq_None_iff)
  have not_parent: "parent_of patch \<noteq> Some i" using assms(6) i by (auto simp: ms_def)
  have not_child: "c \<noteq> i" if "c \<in> set (children_at ms k)" for c k
    using that new_not_child [OF f assms(2)] unfolding ms_def by blast
  have parent: "parent_at ms' k = (if k = i then parent_of patch else parent_at ms k)" for k
    unfolding parent_at_def at using links(2) by (cases "map_of ms k") (auto simp: ms_def)
  have stored: "map_of ms p \<noteq> None" if "parent_of patch = Some p" for p
    using assms(6) that known_iff [of ms p] by (simp add: ms_def)
  have kids: "children_at ms' k = children_at ms k @ (if parent_of patch = Some k then [i] else [])" for k
    unfolding children_at_def at using links(3) assms(5) none not_parent stored [of k]
    by (cases "map_of ms k") (auto simp: ms_def)
  have child_links: "child_links ms' = child_links ms \<union> (case parent_of patch of None \<Rightarrow> {} | Some p \<Rightarrow> {(p, i)})"
    using parent none by (auto simp: child_links_def parent_at_def split: option.split)
  have current: "hi_current h' = Some i"
    unfolding assms(7) upsert_message_to_history_def using none by (simp add: Let_def ms_def)
  have "forest ms'"
  proof (rule forestI)
    show "distinct (map fst ms')" "[] \<notin> set (map fst ms')"
      using keys forestD(1,2) [OF f] i assms(3) by (auto simp: ms_def)
    show "get m ''parentId'' = of_opt (parent_of m)" if m: "map_of ms' k = Some m" for k m
      using m forestD(3) [OF f] links(1,2) unfolding at
      by (auto simp: get_set_children ms_def split: if_splits)
    show "p \<in> set (map fst ms')" if "parent_at ms' c = Some p" for c p
      using that parent keys forestD(4) [OF f, of c p] assms(6) by (cases "c = i") (auto simp: ms_def)
    show "c \<in> set (children_at ms' p) \<longleftrightarrow> parent_at ms' c = Some p" for c p
      using forestD(5) [OF f, of c p, folded ms_def] not_child [of c p] parent [of c] kids [of p] none
      by (cases "c = i") (auto simp: parent_at_def [of ms])
    show "distinct (children_at ms' p)" for p
      using forestD(6) [OF f, of p, folded ms_def] kids [of p] not_child [of i p] by auto
    have "(i, p) \<notin> (child_links ms)\<^sup>*" if "parent_of patch = Some p" for p
    proof
      assume "(i, p) \<in> (child_links ms)\<^sup>*"
      then show False
      proof (cases rule: converse_rtranclE)
        case base
        then show ?thesis using that not_parent by simp
      next
        case (step c)
        then show ?thesis using forestD(4) [OF f, of c i] i by (simp add: child_links_def ms_def)
      qed
    qed
    then show "acyclic (child_links ms')"
      using forestD(7) [OF f, folded ms_def] unfolding child_links by (cases "parent_of patch") (simp_all add: acyclic_insert)
  qed
  then show ?thesis using keys current parent kids unfolding ms_def ms'_def by blast
qed

text \<open>
  Saving a new message (a fresh id, no children, its parent stored or none) keeps a
  well-formed history well-formed: the message becomes the current one and the last child of
  its parent, and no other message or link changes.
\<close>

theorem upsert_new_message:
  fixes now :: int
  assumes "forest (hi_messages h)" and "i \<notin> set (map fst (hi_messages h))" and "i \<noteq> []"
    and "get patch ''parentId'' = of_opt (parent_of patch)" and "children_of patch = []"
    and "case parent_of patch of None \<Rightarrow> True | Some p \<Rightarrow> p \<in> set (map fst (hi_messages h))"
    and "h' = upsert_message_to_history now h i patch"
  shows "forest (hi_messages h') \<and> map fst (hi_messages h') = map fst (hi_messages h) @ [i] \<and> hi_current h' = Some i \<and>
    (\<forall>k. parent_at (hi_messages h') k = (if k = i then parent_of patch else parent_at (hi_messages h) k) \<and>
         children_at (hi_messages h') k = children_at (hi_messages h) k @ (if parent_of patch = Some k then [i] else []))"
  using assms by (rule upsert_forest)

text \<open>A history of three messages, saved one after the other, for the witnesses.\<close>

definition no_history :: history where
  "no_history = \<lparr>hi_messages = [], hi_current = None, hi_rest = []\<rparr>"

definition one_message :: history where
  "one_message = upsert_message_to_history 1 no_history ''a'' [(''role'', JStr ''user'')]"

definition two_messages :: history where
  "two_messages = upsert_message_to_history 2 one_message ''b'' [(''parentId'', JStr ''a'')]"

definition three_messages :: history where
  "three_messages = upsert_message_to_history 3 two_messages ''c'' [(''parentId'', JStr ''b'')]"

lemma sample_keys:
  "map fst (hi_messages one_message) = [''a'']" "map fst (hi_messages two_messages) = [''a'', ''b'']"
  "map fst (hi_messages three_messages) = [''a'', ''b'', ''c'']"
  unfolding three_messages_def two_messages_def one_message_def no_history_def by code_simp+

lemma forest_none: "forest (hi_messages no_history)"
  by (simp add: forest_def no_history_def parent_at_def children_at_def child_links_def acyclic_def)

lemma forest_samples:
  "forest (hi_messages one_message)" "forest (hi_messages two_messages)" "forest (hi_messages three_messages)"
proof -
  have 1: "forest (hi_messages (upsert_message_to_history 1 no_history ''a'' [(''role'', JStr ''user'')]))"
    by (rule upsert_forest [OF forest_none _ _ _ _ _ refl, THEN conjunct1])
      (simp_all add: no_history_def parent_of_def children_of_def get_or_def)
  then show one: "forest (hi_messages one_message)" by (simp only: one_message_def)
  have "forest (hi_messages (upsert_message_to_history 2 one_message ''b'' [(''parentId'', JStr ''a'')]))"
    by (rule upsert_forest [OF one _ _ _ _ _ refl, THEN conjunct1], unfold sample_keys)
      (simp_all add: parent_of_def children_of_def get_or_def)
  then show two: "forest (hi_messages two_messages)" by (simp only: two_messages_def)
  have "forest (hi_messages (upsert_message_to_history 3 two_messages ''c'' [(''parentId'', JStr ''b'')]))"
    by (rule upsert_forest [OF two _ _ _ _ _ refl, THEN conjunct1], unfold sample_keys)
      (simp_all add: parent_of_def children_of_def get_or_def)
  then show "forest (hi_messages three_messages)" by (simp only: three_messages_def)
qed

theorem upsert_new_message_witness:
  "forest (hi_messages (upsert_message_to_history 3 two_messages ''c'' [(''parentId'', JStr ''b'')])) \<and>
   hi_current (upsert_message_to_history 3 two_messages ''c'' [(''parentId'', JStr ''b'')]) = Some ''c''"
proof -
  have "''c'' \<notin> set (map fst (hi_messages two_messages))" unfolding sample_keys by simp
  moreover have "case parent_of [(''parentId'', JStr ''b'')] of None \<Rightarrow> True | Some p \<Rightarrow> p \<in> set (map fst (hi_messages two_messages))"
    unfolding sample_keys by (simp add: parent_of_def get_or_def)
  ultimately show ?thesis
    using upsert_new_message [OF forest_samples(2) _ _ _ _ _ refl, of "''c''" "[(''parentId'', JStr ''b'')]" 3]
    by (simp add: parent_of_def children_of_def get_or_def)
qed

theorem delete_message_exact_witness:
  "forest (hi_messages (fst (delete_message_from_history three_messages ''a''))) \<and>
   set (map fst (hi_messages (fst (delete_message_from_history three_messages ''a'')))) = {''c''} \<and>
   hi_current (fst (delete_message_from_history three_messages ''a'')) = Some ''c''"
proof -
  have "''a'' \<in> set (map fst (hi_messages three_messages))" unfolding sample_keys by simp
  note del = delete_message_exact [OF forest_samples(3) this prod.collapse [symmetric]]
  have "hi_current (fst (delete_message_from_history three_messages ''a'')) = Some ''c''"
      "map fst (hi_messages (fst (delete_message_from_history three_messages ''a''))) = [''c'']"
    unfolding three_messages_def two_messages_def one_message_def no_history_def by code_simp+
  then show ?thesis using del by simp
qed

theorem merge_history_exact_witness:
  "map_of (hi_messages (merge_history one_message two_messages)) ''a'' =
     map_option (set_children [''b'']) (map_of (hi_messages two_messages) ''a'')"
proof -
  have "map fst (hi_messages (merge_history one_message two_messages)) = [''a'', ''b'']"
      "filter (\<lambda>c. parent_at (hi_messages (merge_history one_message two_messages)) c = Some ''a'') [''a'', ''b''] = [''b'']"
      "map_of (hi_messages two_messages) ''a'' \<noteq> None"
    unfolding two_messages_def one_message_def no_history_def by code_simp+
  then show ?thesis
    using merge_history_exact [OF forestD(1) [OF forest_samples(1)] forestD(1) [OF forest_samples(2)] refl, of "''a''"] by auto
qed

section \<open>Reading a branch from its root\<close>

text \<open>
  In a well-formed history \<open>get_message_list\<close> returns the branch of a message: the stored
  messages from a root down to it, each the parent of the next.
\<close>

theorem message_list_is_branch:
  assumes "forest ms" and "i \<in> set (map fst ms)" and "\<forall>(k, m) \<in> set ms. m \<noteq> []"
  shows "\<exists>ids. get_message_list ms (Some i) = map (\<lambda>k. the (map_of ms k)) ids \<and> set ids \<subseteq> set (map fst ms) \<and>
    ids \<noteq> [] \<and> last ids = i \<and> parent_at ms (hd ids) = None \<and> successively (\<lambda>p c. parent_at ms c = Some p) ids"
proof -
  have known: "known_messages ms = ms"
    using assms(3) by (auto simp: known_messages_def filter_id_conv)
  have up: "step_up ms = parent_at ms"
  proof (rule ext)
    fix k show "step_up ms k = parent_at ms k"
      using forestD(2) [OF assms(1)] forestD(4) [OF assms(1), of k] by (auto simp: step_up_def split: option.split)
  qed
  define walk where "walk = trail (parent_at ms) (map fst ms) (Some i) []"
  have walk_known: "k \<in> set (map fst ms)" if "k \<in> set walk" for k
  proof -
    have "(i, k) \<in> (link (parent_at ms) (map fst ms))\<^sup>*" using that unfolding walk_def by (rule trail_reachable)
    then show ?thesis
    proof (cases rule: rtranclE)
      case (step j)
      then show ?thesis using forestD(4) [OF assms(1), of j k] by (simp add: link_def)
    qed (use assms(2) in simp)
  qed
  have not_empty: "walk \<noteq> []" unfolding walk_def by (rule trail_not_Nil) simp
  have first: "hd walk = i" using not_empty trail_Cons unfolding walk_def by (metis list.exhaust_sel)
  have "(link (parent_at ms) (map fst ms)) \<subseteq> (child_links ms)\<inverse>" by (auto simp: link_def child_links_def)
  then have "acyclic (link (parent_at ms) (map fst ms))"
    using forestD(7) [OF assms(1)] by (meson acyclic_converse acyclic_subset)
  from acyclic_trail_end [OF this refl, of i]
  have top: "parent_at ms (last walk) = None"
    using walk_known last_in_set [OF not_empty] unfolding walk_def by blast
  have steps: "successively (\<lambda>x y. parent_at ms x = Some y) walk" unfolding walk_def by (rule trail_successive)
  have "List.map_filter (map_of ms) ks = map (\<lambda>k. the (map_of ms k)) ks" if "\<forall>k \<in> set ks. map_of ms k \<noteq> None" for ks
    using that by (induction ks) (auto simp: List.map_filter_simps)
  then have "List.map_filter (map_of ms) walk = map (\<lambda>k. the (map_of ms k)) walk"
    using walk_known known_iff by metis
  then have "get_message_list ms (Some i) = map (\<lambda>k. the (map_of ms k)) (rev walk)"
    unfolding get_message_list_def known up walk_def [symmetric] by (simp add: rev_map)
  moreover have "successively (\<lambda>p c. parent_at ms c = Some p) (rev walk)" using steps by (simp add: successively_rev)
  ultimately show ?thesis
    using not_empty first top walk_known by (intro exI [of _ "rev walk"]) (auto simp: last_rev hd_rev)
qed

theorem message_list_is_branch_witness:
  "\<exists>ids. get_message_list (hi_messages three_messages) (Some ''c'') = map (\<lambda>k. the (map_of (hi_messages three_messages) k)) ids \<and>
     last ids = ''c'' \<and> parent_at (hi_messages three_messages) (hd ids) = None \<and>
     map (\<lambda>m. get m ''id'') (get_message_list (hi_messages three_messages) (Some ''c'')) = [JStr ''a'', JStr ''b'', JStr ''c'']"
proof -
  have known: "''c'' \<in> set (map fst (hi_messages three_messages))" unfolding sample_keys by simp
  have all: "list_all (\<lambda>(k, m). m \<noteq> []) (hi_messages three_messages)"
    and ids: "map (\<lambda>m. get m ''id'') (get_message_list (hi_messages three_messages) (Some ''c'')) = [JStr ''a'', JStr ''b'', JStr ''c'']"
    unfolding three_messages_def two_messages_def one_message_def no_history_def by code_simp+
  from message_list_is_branch [OF forest_samples(3) known all [unfolded list_all_iff]]
  obtain js where js: "get_message_list (hi_messages three_messages) (Some ''c'') = map (\<lambda>k. the (map_of (hi_messages three_messages) k)) js"
    "last js = ''c''" "parent_at (hi_messages three_messages) (hd js) = None"
    by (elim exE conjE)
  show ?thesis by (intro exI [of _ js] conjI js ids)
qed

end
