(* ===== verification/Timers.thy ===== *)
theory Timers
  imports ChatHistory
begin

text \<open>
  One-shot timers (\<open>utils/timers.py\<close>): a timer is a row of the chat table whose meta dict holds
  its state (pending, running, completed, cancelled, error) and whose timer_at column is the due
  time while it waits. Here are the operations on the table: creating, claiming, cancelling and
  recovering timers, and the two transactions of a run (the checks before it, and the commit that
  posts its messages). The clock, the drawn uuids, the parser and printer of absolute times, the
  users, the active tasks and the chat_message table are arguments.
\<close>

section \<open>Rows of the chat table\<close>

record chat_row =
  cr_id :: string
  cr_user :: string
  cr_history :: history
  cr_rest :: dict
  cr_meta :: dict
  cr_timer_at :: "int option"
  cr_updated_at :: int

definition has_status :: "string \<Rightarrow> chat_row \<Rightarrow> bool" where
  "has_status s r \<longleftrightarrow> get (cr_meta r) ''status'' = JStr s"

definition update_row :: "string \<Rightarrow> (chat_row \<Rightarrow> chat_row) \<Rightarrow> chat_row list \<Rightarrow> chat_row list" where
  "update_row i f db = map (\<lambda>r. if cr_id r = i then f r else r) db"

definition find_row :: "string \<Rightarrow> chat_row list \<Rightarrow> chat_row option" where
  "find_row i db = find (\<lambda>r. cr_id r = i) db"

text \<open>\<open>{**meta, ...}\<close> on a row, with its time of change.\<close>

definition set_meta :: "int \<Rightarrow> dict \<Rightarrow> chat_row \<Rightarrow> chat_row" where
  "set_meta secs kvs r = r\<lparr>cr_meta := dict_update (cr_meta r) kvs, cr_updated_at := secs\<rparr>"

section \<open>Times\<close>

text \<open>The unit words of \<open>_RELATIVE_TIME\<close>, by the letter their nanoseconds are looked up with.\<close>

definition unit_ns :: "string \<Rightarrow> int option" where
  "unit_ns u =
     (if u \<in> {''s'', ''sec'', ''second'', ''seconds''} then Some 1000000000
      else if u \<in> {''m'', ''min'', ''minute'', ''minutes''} then Some (60 * 1000000000)
      else if u \<in> {''h'', ''hour'', ''hours''} then Some (60 * 60 * 1000000000)
      else if u \<in> {''d'', ''day'', ''days''} then Some (24 * 60 * 60 * 1000000000)
      else None)"

text \<open>The optional prefix: a plus sign, or the word in and at least one space.\<close>

definition drop_prefix :: "string \<Rightarrow> string" where
  "drop_prefix s =
     (case s of
        c # rest \<Rightarrow> if c = CHR ''+'' then rest
          else if take 2 s = ''in'' \<and> lstrip (drop 2 s) \<noteq> drop 2 s then lstrip (drop 2 s) else s
      | [] \<Rightarrow> s)"

text \<open>\<open>_RELATIVE_TIME.fullmatch\<close>: the count and the nanoseconds of the unit.\<close>

definition relative_time :: "string \<Rightarrow> (int \<times> int) option" where
  "relative_time s =
     (let body = drop_prefix s; digits = takeWhile is_digit body
      in if digits = [] then None
         else map_option (\<lambda>ns. (int_of_digits digits, ns)) (unit_ns (lstrip (dropWhile is_digit body))))"

datatype time_error = InThePast | BadTime

definition parse_timer_at :: "(string \<Rightarrow> int option) \<Rightarrow> int \<Rightarrow> string \<Rightarrow> time_error + int" where
  "parse_timer_at absolute now value =
     (let raw = strip_text value
      in case relative_time (map lower_char raw) of
           Some (n, ns) \<Rightarrow> if n \<le> 0 then Inl InThePast else Inr (now + n * ns)
         | None \<Rightarrow> (case absolute raw of
             None \<Rightarrow> Inl BadTime
           | Some due \<Rightarrow> if due \<le> now then Inl InThePast else Inr due))"

section \<open>Creating a timer\<close>

datatype timer_error =
    EmptyPrompt
  | NoContext
  | BadAt time_error
  | BadEvent
  | NoModel
  | DirectConnection

definition timer_run :: "json \<Rightarrow> dict \<Rightarrow> dict" where
  "timer_run model metadata =
     [(''model_id'', model), (''session_id'', get metadata ''session_id''),
      (''tool_ids'', py_or (get metadata ''tool_ids'') (JArr [])), (''skill_ids'', py_or (get metadata ''skill_ids'') (JArr [])),
      (''system_prompt'', get metadata ''system_prompt''), (''filter_ids'', py_or (get metadata ''filter_ids'') (JArr [])),
      (''terminal_id'', get metadata ''terminal_id''), (''features'', py_or (get metadata ''features'') (JObj [])),
      (''files'', py_or (get metadata ''files'') (JArr [])), (''variables'', py_or (get metadata ''variables'') (JObj []))]"

definition timer_history :: "int \<Rightarrow> string \<Rightarrow> string \<Rightarrow> json \<Rightarrow> history" where
  "timer_history secs message_id prompt model =
     \<lparr>hi_messages = [(message_id,
        [(''id'', JStr message_id), (''parentId'', JNull), (''childrenIds'', JArr []), (''role'', JStr ''user''),
         (''content'', JStr prompt), (''timestamp'', JInt secs), (''models'', JArr [model])])],
      hi_current = Some message_id, hi_rest = []\<rparr>"

definition timer_meta :: "string \<Rightarrow> json \<Rightarrow> int \<Rightarrow> json \<Rightarrow> string \<Rightarrow> string list \<Rightarrow> dict \<Rightarrow> dict" where
  "timer_meta parent parent_message due model message_id events run =
     [(''internal'', JBool True), (''type'', JStr ''timer''), (''parent_chat_id'', JStr parent),
      (''parent_message_id'', parent_message), (''timer_at'', JInt due), (''status'', JStr ''pending''),
      (''timer_model_id'', model), (''timer_task_message_id'', JStr message_id),
      (''cancel_on'', JArr (map JStr events)), (''run'', JObj run)]"

definition new_timer_row ::
  "int \<Rightarrow> string \<Rightarrow> string \<Rightarrow> string \<Rightarrow> string \<Rightarrow> json \<Rightarrow> string \<Rightarrow> json \<Rightarrow> int \<Rightarrow> string list \<Rightarrow> dict \<Rightarrow> chat_row" where
  "new_timer_row secs chat_id message_id user parent parent_message prompt model due events metadata =
     \<lparr>cr_id = chat_id, cr_user = user, cr_history = timer_history secs message_id prompt model,
      cr_rest = [(''id'', JStr chat_id), (''title'', JStr (''Timer: '' @ take 60 prompt)), (''models'', JArr [model]),
        (''messages'', JArr [JObj [(''role'', JStr ''user''), (''content'', JStr prompt)]])],
      cr_meta = timer_meta parent parent_message due model message_id events (timer_run model metadata),
      cr_timer_at = Some due, cr_updated_at = secs\<rparr>"

definition timer_model :: "dict \<Rightarrow> json" where
  "timer_model metadata = py_or (get metadata ''model_id'') (get (as_dict (get metadata ''model'')) ''id'')"

text \<open>\<open>create_timer\<close>: the row it inserts with the reply's fields, or the error it replies with.\<close>

definition create_timer ::
  "(string \<Rightarrow> int option) \<Rightarrow> (int \<Rightarrow> string) \<Rightarrow> int \<Rightarrow> int \<Rightarrow> string \<Rightarrow> string \<Rightarrow> string \<Rightarrow> string \<Rightarrow> string list option \<Rightarrow>
   string \<Rightarrow> dict \<Rightarrow> string \<Rightarrow> json \<Rightarrow> timer_error + chat_row \<times> dict" where
  "create_timer absolute isoformat now secs chat_id message_id prompt at_text cancel_on user metadata parent parent_message =
     (let p = strip_text prompt; events = (case cancel_on of None \<Rightarrow> [] | Some es \<Rightarrow> es); model = timer_model metadata
      in if p = [] then Inl EmptyPrompt
         else if parent = [] \<or> user = [] then Inl NoContext
         else case parse_timer_at absolute now at_text of
             Inl e \<Rightarrow> Inl (BadAt e)
           | Inr due \<Rightarrow>
               if \<not> list_all (\<lambda>e. e \<in> {''chat.read'', ''chat.user_message''}) events then Inl BadEvent
               else if \<not> truthy model then Inl NoModel
               else if truthy (get metadata ''direct'') then Inl DirectConnection
               else Inr (new_timer_row secs chat_id message_id user parent parent_message p model due (from_keys events) metadata,
                 [(''status'', JStr ''set''), (''at'', JStr (isoformat due)), (''cancel_on'', JArr (map JStr (from_keys events)))]))"

section \<open>Claiming, cancelling, recovering\<close>

definition is_due :: "int \<Rightarrow> chat_row \<Rightarrow> bool" where
  "is_due now r \<longleftrightarrow> (case cr_timer_at r of None \<Rightarrow> False | Some t \<Rightarrow> t \<le> now) \<and> has_status ''pending'' r"

definition due_rows :: "int \<Rightarrow> chat_row list \<Rightarrow> chat_row list" where
  "due_rows now db = sort_key (\<lambda>r. the (cr_timer_at r)) (filter (is_due now) db)"

definition claim_row :: "int \<Rightarrow> int \<Rightarrow> string \<Rightarrow> chat_row \<Rightarrow> chat_row" where
  "claim_row now secs claim r =
     (set_meta secs [(''status'', JStr ''running''), (''timer_started_at'', JInt now), (''timer_claim_id'', JStr claim)] r)
       \<lparr>cr_timer_at := None\<rparr>"

text \<open>\<open>claim_due_timers\<close>: at most as many as the claim ids drawn (the limit), the earliest due first.\<close>

definition claim_due_timers :: "int \<Rightarrow> int \<Rightarrow> string list \<Rightarrow> chat_row list \<Rightarrow> chat_row list \<times> (string \<times> string) list" where
  "claim_due_timers now secs claim_ids db =
     (let claimed = zip (map cr_id (due_rows now db)) claim_ids
      in (map (\<lambda>r. case map_of claimed (cr_id r) of None \<Rightarrow> r | Some c \<Rightarrow> claim_row now secs c r) db, claimed))"

definition cancel_hits :: "string \<Rightarrow> string \<Rightarrow> string \<Rightarrow> chat_row \<Rightarrow> bool" where
  "cancel_hits parent event user r \<longleftrightarrow> cr_timer_at r \<noteq> None \<and> cr_user r = user \<and>
     get (cr_meta r) ''parent_chat_id'' = JStr parent \<and> has_status ''pending'' r \<and>
     JStr event \<in> set (as_list (get (cr_meta r) ''cancel_on''))"

definition cancel_timers_for_chat :: "int \<Rightarrow> int \<Rightarrow> string \<Rightarrow> string \<Rightarrow> string \<Rightarrow> chat_row list \<Rightarrow> chat_row list" where
  "cancel_timers_for_chat now secs parent event user db =
     map (\<lambda>r. if cancel_hits parent event user r
       then (set_meta secs [(''status'', JStr ''cancelled''), (''timer_cancelled_at'', JInt now), (''timer_cancelled_by'', JStr event)] r)
              \<lparr>cr_timer_at := None\<rparr>
       else r) db"

definition stale_running_ns :: int where
  "stale_running_ns = 10 * 60 * 1000000000"

definition is_stale :: "int \<Rightarrow> chat_row \<Rightarrow> bool" where
  "is_stale now r \<longleftrightarrow> get (cr_meta r) ''type'' = JStr ''timer'' \<and> get (cr_meta r) ''internal'' = JBool True \<and>
     has_status ''running'' r \<and>
     (case get (cr_meta r) ''timer_started_at'' of JInt started \<Rightarrow> stale_running_ns \<le> now - started | _ \<Rightarrow> True)"

definition pending_fields :: dict where
  "pending_fields = [(''status'', JStr ''pending''), (''timer_claim_id'', JNull), (''timer_started_at'', JNull)]"

definition due_of :: "int \<Rightarrow> json \<Rightarrow> int" where
  "due_of now v = (case v of JInt due \<Rightarrow> due | _ \<Rightarrow> now)"

definition recover_row :: "int \<Rightarrow> int \<Rightarrow> chat_row \<Rightarrow> chat_row" where
  "recover_row now secs r =
     (set_meta secs pending_fields r)\<lparr>cr_timer_at := Some (due_of now (get (cr_meta r) ''timer_at''))\<rparr>"

definition recover_stale_timers :: "int \<Rightarrow> int \<Rightarrow> chat_row list \<Rightarrow> chat_row list \<times> string list" where
  "recover_stale_timers now secs db =
     (map (\<lambda>r. if is_stale now r then recover_row now secs r else r) db, map cr_id (filter (is_stale now) db))"

section \<open>Recording how a run ended\<close>

definition set_timer_state :: "int \<Rightarrow> string \<Rightarrow> dict \<Rightarrow> chat_row list \<Rightarrow> chat_row list" where
  "set_timer_state secs timer_id kvs db = update_row timer_id (set_meta secs kvs) db"

definition error_fields :: "string \<Rightarrow> dict" where
  "error_fields e = [(''status'', JStr ''error''), (''timer_error'', JStr e)]"

definition record_timer_error :: "int \<Rightarrow> string \<Rightarrow> string option \<Rightarrow> string \<Rightarrow> chat_row list \<Rightarrow> chat_row list" where
  "record_timer_error secs timer_id claim e db =
     (case find_row timer_id db of
        None \<Rightarrow> db
      | Some r \<Rightarrow> if claim \<noteq> None \<and> get (cr_meta r) ''timer_claim_id'' \<notin> {JStr (the claim), JNull} then db
          else set_timer_state secs timer_id (error_fields e) db)"

section \<open>The checks before a run\<close>

record timer_env =
  te_user_exists :: "string \<Rightarrow> bool"
  te_stored :: "string \<Rightarrow> messages"
  te_active :: "string \<Rightarrow> bool"

record timer_job =
  tj_parent :: string
  tj_user :: string
  tj_parent_message :: json
  tj_model :: json
  tj_prompt :: json
  tj_run :: dict

text \<open>\<open>get_chat_by_id\<close> and \<open>get_chat_by_id_and_user_id\<close> repair the history they read, and store it
  (of a chat stored without null bytes; \<open>sanitize_row\<close> of \<open>MessageRows\<close> is the cleaning of one with some).\<close>

definition repair_row :: "chat_row \<Rightarrow> chat_row" where
  "repair_row r = r\<lparr>cr_history := fst (repair_chat_current_id (cr_history r))\<rparr>"

definition get_chat :: "(chat_row \<Rightarrow> bool) \<Rightarrow> string \<Rightarrow> chat_row list \<Rightarrow> chat_row list \<times> chat_row option" where
  "get_chat P i db =
     (case find_row i db of
        None \<Rightarrow> (db, None)
      | Some r \<Rightarrow> if P r then (update_row i repair_row db, Some (repair_row r)) else (db, None))"

text \<open>\<open>get_message_by_id_and_message_id\<close>: the chat_message table first, then the chat's own history.\<close>

definition stored_message :: "timer_env \<Rightarrow> chat_row \<Rightarrow> json \<Rightarrow> dict" where
  "stored_message env r i =
     (case opt_str i of
        None \<Rightarrow> []
      | Some k \<Rightarrow> (case map_of (te_stored env (cr_id r)) k of
          Some m \<Rightarrow> m
        | None \<Rightarrow> (case map_of (hi_messages (cr_history r)) k of Some m \<Rightarrow> m | None \<Rightarrow> [])))"

definition prompt_text :: "(json \<Rightarrow> string) \<Rightarrow> json \<Rightarrow> json" where
  "prompt_text repr content =
     (case py_or content (JStr []) of
        JArr parts \<Rightarrow> JStr (concat (map (\<lambda>p. py_str repr (get_or (as_dict p) ''text'' (JStr [])))
          (filter (\<lambda>p. is_dict p \<and> get (as_dict p) ''type'' = JStr ''text'') parts)))
      | v \<Rightarrow> v)"

text \<open>
  The first part of \<open>_execute_due_timer\<close>: None when the run ends here (the timer is not running
  under this claim, or something it needs is gone, which is recorded).
\<close>

definition job_of :: "(json \<Rightarrow> string) \<Rightarrow> timer_env \<Rightarrow> chat_row \<Rightarrow> string \<Rightarrow> string + timer_job" where
  "job_of repr env timer parent =
     (let meta = cr_meta timer; run = as_dict (get meta ''run'');
          prompt = stored_message env timer (get meta ''timer_task_message_id'');
          model = py_or (get run ''model_id'') (get meta ''timer_model_id'')
      in if prompt = [] then Inl ''timer task message is missing''
         else if \<not> te_user_exists env (cr_user timer) then Inl ''timer user no longer exists''
         else if \<not> truthy model then Inl ''model context is missing''
         else Inr \<lparr>tj_parent = parent, tj_user = cr_user timer, tj_parent_message = get meta ''parent_message_id'',
           tj_model = model, tj_prompt = prompt_text repr (get prompt ''content''), tj_run = run\<rparr>)"

definition begin_timer ::
  "(json \<Rightarrow> string) \<Rightarrow> timer_env \<Rightarrow> int \<Rightarrow> string \<Rightarrow> string option \<Rightarrow> chat_row list \<Rightarrow> chat_row list \<times> timer_job option" where
  "begin_timer repr env secs timer_id claim db =
     (case get_chat (\<lambda>_. True) timer_id db of
        (db1, None) \<Rightarrow> (db1, None)
      | (db1, Some timer) \<Rightarrow>
          if \<not> has_status ''running'' timer then (db1, None)
          else if claim \<noteq> None \<and> get (cr_meta timer) ''timer_claim_id'' \<noteq> JStr (the claim) then (db1, None)
          else let parent = as_str (get (cr_meta timer) ''parent_chat_id'')
          in case get_chat (\<lambda>r. cr_user r = cr_user timer) parent db1 of
               (db2, None) \<Rightarrow> (set_timer_state secs timer_id (error_fields ''parent chat no longer exists'') db2, None)
             | (db2, Some _) \<Rightarrow>
                 (case job_of repr env timer parent of
                    Inl e \<Rightarrow> (set_timer_state secs timer_id (error_fields e) db2, None)
                  | Inr job \<Rightarrow> (db2, Some job)))"

section \<open>The commit that posts the messages\<close>

text \<open>\<open>max(done_assistants, key=timestamp)\<close>: the first of the latest.\<close>

fun latest_message :: "dict list \<Rightarrow> dict option" where
  "latest_message [] = None"
| "latest_message (m # ms) =
     (case latest_message ms of
        None \<Rightarrow> Some m
      | Some n \<Rightarrow> if timestamp_of (get m ''timestamp'') < timestamp_of (get n ''timestamp'') then Some n else Some m)"

definition post_parent :: "messages \<Rightarrow> timer_job \<Rightarrow> string option" where
  "post_parent ms job = opt_str
     (case latest_message (filter (\<lambda>m. get m ''role'' = JStr ''assistant'' \<and> get m ''done'' \<noteq> JBool False) (map snd ms)) of
        Some m \<Rightarrow> get m ''id''
      | None \<Rightarrow> tj_parent_message job)"

definition timer_user_message :: "int \<Rightarrow> string \<Rightarrow> string \<Rightarrow> string \<Rightarrow> string option \<Rightarrow> timer_job \<Rightarrow> dict" where
  "timer_user_message secs timer_id user_id assistant_id parent job =
     [(''id'', JStr user_id), (''parentId'', of_opt parent), (''childrenIds'', JArr [JStr assistant_id]), (''role'', JStr ''user''),
      (''content'', tj_prompt job), (''model'', tj_model job),
      (''meta'', JObj [(''internal'', JBool True), (''type'', JStr ''timer''), (''timer_id'', JStr timer_id)]),
      (''timestamp'', JInt secs)]"

definition timer_assistant_message :: "int \<Rightarrow> string \<Rightarrow> string \<Rightarrow> timer_job \<Rightarrow> dict" where
  "timer_assistant_message secs user_id assistant_id job =
     [(''id'', JStr assistant_id), (''parentId'', JStr user_id), (''childrenIds'', JArr []), (''role'', JStr ''assistant''),
      (''content'', JStr []), (''done'', JBool False), (''model'', tj_model job), (''timestamp'', JInt secs)]"

definition post_messages :: "int \<Rightarrow> string \<Rightarrow> string \<Rightarrow> string \<Rightarrow> timer_job \<Rightarrow> history \<Rightarrow> history" where
  "post_messages secs timer_id user_id assistant_id job h =
     (let ms = hi_messages h; parent = post_parent ms job;
          ms1 = AList.update user_id (timer_user_message secs timer_id user_id assistant_id parent job) ms;
          ms2 = AList.update assistant_id (timer_assistant_message secs user_id assistant_id job) ms1
      in h\<lparr>hi_messages := fst (add_child_id_to_parent ms2 parent user_id), hi_current := Some assistant_id\<rparr>)"

definition completed_fields :: "int \<Rightarrow> dict" where
  "completed_fields now = [(''status'', JStr ''completed''), (''timer_completed_at'', JInt now)]"

text \<open>The request handed to the chat completion handler.\<close>

definition timer_request :: "string \<Rightarrow> string \<Rightarrow> timer_job \<Rightarrow> dict list \<Rightarrow> dict \<Rightarrow> dict" where
  "timer_request user_id assistant_id job branch user_message =
     (let run = tj_run job
      in [(''model'', tj_model job),
          (''messages'', JArr ((if truthy (get run ''system_prompt'')
               then [JObj [(''role'', JStr ''system''), (''content'', get run ''system_prompt'')]] else [])
             @ map JObj branch @ [JObj [(''role'', JStr ''user''), (''content'', tj_prompt job)]])),
          (''stream'', JBool True), (''chat_id'', JStr (tj_parent job)), (''id'', JStr assistant_id),
          (''parent_id'', get user_message ''parentId''), (''user_message'', JObj user_message),
          (''session_id'', py_or (get run ''session_id'') (JStr (''timer:'' @ tj_parent job))), (''background_tasks'', JObj []),
          (''tool_ids'', py_or (get run ''tool_ids'') (JArr [])), (''skill_ids'', py_or (get run ''skill_ids'') (JArr [])),
          (''filter_ids'', py_or (get run ''filter_ids'') (JArr [])), (''features'', py_or (get run ''features'') (JObj [])),
          (''files'', py_or (get run ''files'') (JArr [])), (''variables'', py_or (get run ''variables'') (JObj []))]
         @ (if truthy (get run ''terminal_id'') then [(''terminal_id'', get run ''terminal_id'')] else []))"

text \<open>
  The transaction under the parent's lock. A chat with active tasks puts the timer back to
  pending; otherwise the messages and the completed state are one commit, and the request for
  the reply is the result.
\<close>

definition requeue_row :: "int \<Rightarrow> chat_row \<Rightarrow> chat_row" where
  "requeue_row secs r =
     (set_meta secs pending_fields r)
       \<lparr>cr_timer_at := (case get (cr_meta r) ''timer_at'' of JInt due \<Rightarrow> Some due | _ \<Rightarrow> None)\<rparr>"

definition post_timer ::
  "timer_env \<Rightarrow> int \<Rightarrow> int \<Rightarrow> string \<Rightarrow> string \<Rightarrow> string \<Rightarrow> timer_job \<Rightarrow> chat_row list \<Rightarrow> chat_row list \<times> dict option" where
  "post_timer env now secs user_id assistant_id timer_id job db =
     (case find (\<lambda>r. cr_id r = tj_parent job \<and> cr_user r = tj_user job) db of
        None \<Rightarrow> (set_timer_state secs timer_id (error_fields ''parent chat no longer exists'') db, None)
      | Some parent \<Rightarrow>
          if te_active env (tj_parent job) then (update_row timer_id (requeue_row secs) db, None)
          else let ms = hi_messages (cr_history parent); at_message = post_parent ms job;
                   db1 = update_row (tj_parent job)
                     (\<lambda>r. r\<lparr>cr_history := post_messages secs timer_id user_id assistant_id job (cr_history r), cr_updated_at := secs\<rparr>) db
               in (update_row timer_id (set_meta secs (completed_fields now)) db1,
                   Some (timer_request user_id assistant_id job (get_message_list ms at_message)
                     (timer_user_message secs timer_id user_id assistant_id at_message job))))"

section \<open>Laws of the row operations\<close>

named_theorems row_simps "what a row operation reads and writes"

lemma get_set_meta [row_simps]:
  "get (cr_meta (set_meta secs kvs r)) k = (case map_of (rev kvs) k of None \<Rightarrow> get (cr_meta r) k | Some v \<Rightarrow> v)"
proof -
  have "map_of (dict_update d kvs) k = (case map_of (rev kvs) k of None \<Rightarrow> map_of d k | Some v \<Rightarrow> Some v)" for d
    by (induction d kvs rule: dict_update.induct) (auto simp: map_add_def split: option.split)
  then show ?thesis by (auto simp: set_meta_def get_or_def split: option.split)
qed

lemma set_meta_fields [row_simps]:
  "cr_id (set_meta secs kvs r) = cr_id r" "cr_user (set_meta secs kvs r) = cr_user r"
  "cr_history (set_meta secs kvs r) = cr_history r" "cr_timer_at (set_meta secs kvs r) = cr_timer_at r"
  by (simp_all add: set_meta_def)

lemma claim_row_reads [row_simps]:
  "cr_id (claim_row now secs c r) = cr_id r" "cr_user (claim_row now secs c r) = cr_user r"
  "cr_timer_at (claim_row now secs c r) = None"
  "get (cr_meta (claim_row now secs c r)) ''timer_claim_id'' = JStr c"
  "has_status s (claim_row now secs c r) \<longleftrightarrow> s = ''running''"
  by (auto simp: claim_row_def row_simps has_status_def)

lemma recover_row_reads [row_simps]:
  "cr_id (recover_row now secs r) = cr_id r" "cr_timer_at (recover_row now secs r) = Some (due_of now (get (cr_meta r) ''timer_at''))"
  "has_status s (recover_row now secs r) \<longleftrightarrow> s = ''pending''"
  by (auto simp: recover_row_def row_simps has_status_def pending_fields_def)

lemma requeue_row_reads [row_simps]:
  "cr_id (requeue_row secs r) = cr_id r" "has_status s (requeue_row secs r) \<longleftrightarrow> s = ''pending''"
  by (auto simp: requeue_row_def row_simps has_status_def pending_fields_def)

lemma map_ids_update_row [simp]:
  "(\<And>r. cr_id (f r) = cr_id r) \<Longrightarrow> map cr_id (update_row i f db) = map cr_id db"
  by (auto simp: update_row_def)

lemma in_update_row:
  "r \<in> set (update_row i f db) \<longleftrightarrow> (\<exists>r0 \<in> set db. r = (if cr_id r0 = i then f r0 else r0))"
  by (simp only: update_row_def set_map image_iff)

lemma find_row_iff:
  "distinct (map cr_id db) \<Longrightarrow> find_row i db = Some r \<longleftrightarrow> r \<in> set db \<and> cr_id r = i"
  by (simp add: find_row_def find_keyed)

section \<open>A poll claims the earliest due timers\<close>

lemma due_rows_set [simp]: "set (due_rows now db) = {r \<in> set db. is_due now r}"
  by (auto simp: due_rows_def)

lemma distinct_due_rows: "distinct (map cr_id db) \<Longrightarrow> distinct (map cr_id (due_rows now db))"
proof -
  assume d: "distinct (map cr_id db)"
  then have "distinct (due_rows now db)" by (simp add: due_rows_def distinct_map)
  then show ?thesis using d by (auto simp: distinct_map inj_on_def)
qed

lemma length_due_rows: "length (due_rows now db) = length (filter (is_due now) db)"
  by (simp add: due_rows_def)

lemma claimed_in_due:
  assumes "distinct (map cr_id db)" "r \<in> set db"
  shows "map_of (zip (map cr_id (due_rows now db)) cs) (cr_id r) \<noteq> None \<longleftrightarrow> r \<in> set (take (length cs) (due_rows now db))"
proof -
  have "fst ` set (zip (map cr_id (due_rows now db)) cs) = set (take (length cs) (map cr_id (due_rows now db)))"
    by (metis list.set_map map_fst_zip_take take_all_iff min.cobounded2 min_def nle_le)
  then have "map_of (zip (map cr_id (due_rows now db)) cs) (cr_id r) \<noteq> None \<longleftrightarrow>
      cr_id r \<in> cr_id ` set (take (length cs) (due_rows now db))"
    by (simp add: map_of_eq_None_iff take_map)
  moreover have "inj_on cr_id (set db)" using assms(1) by (simp add: distinct_map)
  moreover have "set (take (length cs) (due_rows now db)) \<subseteq> set db"
    using set_take_subset [of "length cs" "due_rows now db"] by auto
  ultimately show ?thesis using assms(2) by (auto simp: inj_on_def)
qed

lemma claim_keeps_ids: "map cr_id (fst (claim_due_timers now secs cs db)) = map cr_id db"
  by (auto simp: claim_due_timers_def Let_def row_simps split: option.split)

lemma due_after_claim:
  assumes "distinct (map cr_id db)"
  shows "filter (is_due now) (fst (claim_due_timers now secs cs db)) =
    filter (\<lambda>r. is_due now r \<and> r \<notin> set (take (length cs) (due_rows now db))) db"
proof -
  define claimed where "claimed = zip (map cr_id (due_rows now db)) cs"
  have not_due: "\<not> is_due now (claim_row now secs c r)" for c r by (simp add: is_due_def row_simps)
  have "filter (is_due now) (map (\<lambda>r. case map_of claimed (cr_id r) of None \<Rightarrow> r | Some c \<Rightarrow> claim_row now secs c r) rs) =
      filter (\<lambda>r. is_due now r \<and> r \<notin> set (take (length cs) (due_rows now db))) rs" if "set rs \<subseteq> set db" for rs
    using that
  proof (induction rs)
    case (Cons r rs)
    then have "map_of claimed (cr_id r) \<noteq> None \<longleftrightarrow> r \<in> set (take (length cs) (due_rows now db))"
      using claimed_in_due [OF assms, of r] by (simp add: claimed_def)
    then show ?case using Cons not_due by (cases "map_of claimed (cr_id r)") auto
  qed simp
  from this [OF subset_refl] show ?thesis by (simp add: claim_due_timers_def Let_def claimed_def)
qed

lemma count_after_claim:
  assumes "distinct (map cr_id db)"
  shows "length (filter (is_due now) (fst (claim_due_timers now secs cs db))) = length (filter (is_due now) db) - length cs"
proof -
  let ?due = "due_rows now db"
  have d: "distinct ?due" "distinct (filter (is_due now) db)"
    using distinct_due_rows [OF assms, of now] assms by (auto simp: distinct_map)
  have "distinct (filter (\<lambda>r. is_due now r \<and> r \<notin> set (take (length cs) ?due)) db)"
    using assms by (simp add: distinct_map)
  then have "length (filter (\<lambda>r. is_due now r \<and> r \<notin> set (take (length cs) ?due)) db) =
      card (set ?due - set (take (length cs) ?due))"
    by (auto simp: distinct_card [symmetric] intro: arg_cong [where f = card])
  also have "\<dots> = length ?due - length (take (length cs) ?due)"
    using d(1) distinct_card [OF d(1)] by (subst card_Diff_subset) (auto simp: distinct_card dest: in_set_takeD)
  finally show ?thesis by (simp add: due_after_claim [OF assms] length_due_rows)
qed

text \<open>
  One poll. With every row's id its own, \<open>claim_due_timers\<close> claims the earliest due pending
  timers, as many as its limit (the number of drawn claim ids): no timer twice, each under a
  claim id of its own, no due timer left behind that is due before a claimed one. A claimed row
  is running under that claim id and has no due time left; every other row is unchanged.
\<close>

theorem claim_due_exact:
  assumes "distinct (map cr_id db)" and "distinct claim_ids"
    and "claim_due_timers now secs claim_ids db = (db', claimed)"
  shows "map fst claimed = map cr_id (take (length claim_ids) (due_rows now db)) \<and>
    distinct (map fst claimed) \<and> distinct (map snd claimed) \<and> set (map snd claimed) \<subseteq> set claim_ids \<and>
    sorted (map (\<lambda>r. the (cr_timer_at r)) (due_rows now db)) \<and>
    set (due_rows now db) = {r \<in> set db. is_due now r} \<and>
    (\<forall>r \<in> set db. find_row (cr_id r) db' =
       Some (case map_of claimed (cr_id r) of None \<Rightarrow> r | Some c \<Rightarrow> claim_row now secs c r)) \<and>
    length (filter (is_due now) db') = length (filter (is_due now) db) - length claim_ids"
proof -
  have claimed: "claimed = zip (map cr_id (due_rows now db)) claim_ids"
    and db': "db' = map (\<lambda>r. case map_of claimed (cr_id r) of None \<Rightarrow> r | Some c \<Rightarrow> claim_row now secs c r) db"
    using assms(3) by (auto simp: claim_due_timers_def Let_def)
  have ids: "map cr_id db' = map cr_id db" using claim_keeps_ids [of now secs claim_ids db] assms(3) by simp
  have fsts: "map fst claimed = map cr_id (take (length claim_ids) (due_rows now db))"
    unfolding claimed by (simp add: map_fst_zip_take take_map min_def)
  have "map snd claimed = take (length (due_rows now db)) claim_ids"
    unfolding claimed by (simp add: map_snd_zip_take min_def)
  then have snds: "distinct (map snd claimed)" "set (map snd claimed) \<subseteq> set claim_ids"
    using assms(2) by (auto dest: in_set_takeD)
  have "distinct (map fst claimed)"
    using distinct_due_rows [OF assms(1), of now] unfolding fsts by (simp flip: take_map)
  moreover have "find_row (cr_id r) db' =
       Some (case map_of claimed (cr_id r) of None \<Rightarrow> r | Some c \<Rightarrow> claim_row now secs c r)" if "r \<in> set db" for r
  proof -
    have "distinct (map cr_id db')" using assms(1) by (simp only: ids)
    from find_row_iff [OF this] that show ?thesis by (auto simp: db' row_simps split: option.split)
  qed
  moreover have "length (filter (is_due now) db') = length (filter (is_due now) db) - length claim_ids"
    using count_after_claim [OF assms(1), of now secs claim_ids] assms(3) by simp
  ultimately show ?thesis using fsts snds by (simp add: due_rows_def)
qed

text \<open>Two timers of one chat, due at 5 and 3, for the witnesses.\<close>

definition sample_timer :: "string \<Rightarrow> int \<Rightarrow> chat_row" where
  "sample_timer i due =
     new_timer_row 0 i (i @ ''-m'') ''ann'' ''chat'' JNull ''wake up'' (JStr ''llama'') due [''chat.read''] []"

definition sample_chat :: chat_row where
  "sample_chat = \<lparr>cr_id = ''chat'', cr_user = ''ann'', cr_history = no_history, cr_rest = [], cr_meta = [],
     cr_timer_at = None, cr_updated_at = 0\<rparr>"

definition sample_env :: timer_env where
  "sample_env = \<lparr>te_user_exists = (\<lambda>_. True), te_stored = (\<lambda>_. []), te_active = (\<lambda>_. False)\<rparr>"

definition sample_job :: timer_job where
  "sample_job = \<lparr>tj_parent = ''chat'', tj_user = ''ann'', tj_parent_message = JNull, tj_model = JStr ''llama'',
     tj_prompt = JStr ''wake up'', tj_run = []\<rparr>"

definition sample_chats :: "chat_row list" where
  "sample_chats = [sample_chat, sample_timer ''t'' 5, sample_timer ''u'' 3]"

theorem claim_due_exact_witness:
  "map fst (snd (claim_due_timers 9 0 [''c1''] sample_chats)) = [''u''] \<and>
   length (filter (is_due 9) (fst (claim_due_timers 9 0 [''c1''] sample_chats))) = 1"
proof -
  have d: "distinct (map cr_id sample_chats)" "distinct [''c1'']"
    and due: "map cr_id (due_rows 9 sample_chats) = [''u'', ''t'']" "length (filter (is_due 9) sample_chats) = 2"
    by code_simp+
  from claim_due_exact [OF d prod.collapse [symmetric], of 9 0] due show ?thesis
    by (simp add: take_map [symmetric])
qed

section \<open>Polling claims every due timer\<close>

definition polls :: "int \<Rightarrow> int \<Rightarrow> string list list \<Rightarrow> chat_row list \<Rightarrow> chat_row list" where
  "polls now secs batches db = fold (\<lambda>cs db. fst (claim_due_timers now secs cs db)) batches db"

lemma polls_count:
  "distinct (map cr_id db) \<Longrightarrow>
   length (filter (is_due now) (polls now secs batches db)) = length (filter (is_due now) db) - sum_list (map length batches)"
proof (induction batches arbitrary: db)
  case (Cons cs batches)
  then show ?case
    using count_after_claim [OF Cons.prems, of now secs cs] claim_keeps_ids [of now secs cs db]
    by (simp add: polls_def)
qed (simp add: polls_def)

lemma claim_keeps_row:
  assumes "distinct (map cr_id db)" and "r \<in> set db"
  obtains "find_row (cr_id r) (fst (claim_due_timers now secs cs db)) = Some r"
  | c where "is_due now r" "c \<in> set cs" "find_row (cr_id r) (fst (claim_due_timers now secs cs db)) = Some (claim_row now secs c r)"
proof -
  define claimed where "claimed = zip (map cr_id (due_rows now db)) cs"
  define r' where "r' = (case map_of claimed (cr_id r) of None \<Rightarrow> r | Some c \<Rightarrow> claim_row now secs c r)"
  have "r' \<in> set (fst (claim_due_timers now secs cs db))" "cr_id r' = cr_id r"
    using assms(2) by (auto simp: claim_due_timers_def Let_def claimed_def r'_def row_simps split: option.split)
  moreover have "distinct (map cr_id (fst (claim_due_timers now secs cs db)))"
    using assms(1) by (simp only: claim_keeps_ids)
  ultimately have found: "find_row (cr_id r) (fst (claim_due_timers now secs cs db)) = Some r'"
    by (simp add: find_row_iff)
  show thesis
  proof (cases "map_of claimed (cr_id r)")
    case None
    then show thesis using found that(1) by (simp add: r'_def)
  next
    case (Some c)
    then have "r \<in> set (take (length cs) (due_rows now db))"
      using claimed_in_due [OF assms, of now cs] by (simp add: claimed_def)
    then have "is_due now r" using in_set_takeD by force
    moreover have "c \<in> set cs" using map_of_SomeD [OF Some] by (auto simp: claimed_def dest: set_zip_rightD)
    ultimately show thesis using found that(2) Some by (simp add: r'_def)
  qed
qed

lemma polls_keep_row:
  assumes "distinct (map cr_id db)" and "r \<in> set db"
  shows "find_row (cr_id r) (polls now secs batches db) = Some r \<or>
    is_due now r \<and> (\<exists>c \<in> set (concat batches). find_row (cr_id r) (polls now secs batches db) = Some (claim_row now secs c r))"
  using assms
proof (induction batches arbitrary: db r)
  case Nil
  then show ?case by (simp add: polls_def find_row_iff)
next
  case (Cons cs batches)
  let ?db1 = "fst (claim_due_timers now secs cs db)"
  have d: "distinct (map cr_id ?db1)" using Cons.prems(1) by (simp only: claim_keeps_ids)
  have step: "polls now secs (cs # batches) db = polls now secs batches ?db1" by (simp add: polls_def)
  from Cons.prems show ?case
  proof (cases rule: claim_keeps_row [of db r now secs cs])
    case 1
    then have "r \<in> set ?db1" using find_row_iff [OF d] by simp
    then show ?thesis using Cons.IH [OF d, of r] unfolding step by auto
  next
    case (2 c)
    have "claim_row now secs c r \<in> set ?db1" "cr_id (claim_row now secs c r) = cr_id r"
      using 2(3) find_row_iff [OF d] by auto
    moreover have "\<not> is_due now (claim_row now secs c r)" by (simp add: is_due_def row_simps)
    ultimately have "find_row (cr_id r) (polls now secs batches ?db1) = Some (claim_row now secs c r)"
      using Cons.IH [OF d, of "claim_row now secs c r"] by simp
    then show ?thesis using 2(1,2) unfolding step by auto
  qed
qed

lemma recover_keeps_ids: "map cr_id (fst (recover_stale_timers now secs db)) = map cr_id db"
  by (auto simp: recover_stale_timers_def row_simps)

text \<open>
  No timer is lost. A due pending timer is claimed, and so is a timer left running for ten
  minutes or more (by a crash, or an error that could not be recorded) whose own time has come:
  after a recovery at a time \<open>now\<close>, polls at that time that may claim as many timers as are due
  between them leave no due timer, and the timer is running again under one of their claim ids.
\<close>

theorem due_timers_get_claimed:
  assumes "distinct (map cr_id db)" and "r \<in> set db"
    and "is_due now r \<or> is_stale now r \<and> due_of now (get (cr_meta r) ''timer_at'') \<le> now"
    and "length (filter (is_due now) (fst (recover_stale_timers now secs db))) \<le> sum_list (map length batches)"
  shows "\<exists>r'. find_row (cr_id r) (polls now secs batches (fst (recover_stale_timers now secs db))) = Some r' \<and>
    has_status ''running'' r' \<and> (\<exists>c \<in> set (concat batches). get (cr_meta r') ''timer_claim_id'' = JStr c) \<and>
    filter (is_due now) (polls now secs batches (fst (recover_stale_timers now secs db))) = []"
proof -
  let ?db1 = "fst (recover_stale_timers now secs db)"
  let ?final = "polls now secs batches ?db1"
  define r1 where "r1 = (if is_stale now r then recover_row now secs r else r)"
  have d: "distinct (map cr_id ?db1)" using assms(1) by (simp only: recover_keeps_ids)
  have r1: "r1 \<in> set ?db1" "cr_id r1 = cr_id r"
    using assms(2) by (auto simp: recover_stale_timers_def r1_def row_simps)
  have "is_stale now r \<Longrightarrow> \<not> is_due now r" by (auto simp: is_stale_def is_due_def has_status_def)
  then have due: "is_due now r1" using assms(3)
    by (cases "is_stale now r") (simp_all add: r1_def is_due_def [of now "recover_row now secs r"] row_simps)
  have none: "filter (is_due now) ?final = []" using polls_count [OF d, of now secs batches] assms(4) by simp
  have "find_row (cr_id r) ?final \<noteq> Some r1"
  proof
    assume "find_row (cr_id r) ?final = Some r1"
    then have "r1 \<in> set ?final" unfolding find_row_def by (blast dest: find_Some_mem)
    then show False using none due by (simp add: filter_empty_conv)
  qed
  then obtain c where "c \<in> set (concat batches)" "find_row (cr_id r) ?final = Some (claim_row now secs c r1)"
    using polls_keep_row [OF d r1(1), of now secs batches] by (auto simp: r1(2))
  then show ?thesis using none by (intro exI [of _ "claim_row now secs c r1"]) (auto simp: row_simps)
qed

theorem due_timers_get_claimed_witness:
  "\<exists>r'. find_row ''t'' (polls 9 0 [[''c1''], [''c2'']] (fst (recover_stale_timers 9 0 sample_chats))) = Some r' \<and>
     has_status ''running'' r'"
proof -
  have d: "distinct (map cr_id sample_chats)" by code_simp
  have m: "sample_timer ''t'' 5 \<in> set sample_chats" by (simp add: sample_chats_def)
  have due: "is_due 9 (sample_timer ''t'' 5) \<or>
      is_stale 9 (sample_timer ''t'' 5) \<and> due_of 9 (get (cr_meta (sample_timer ''t'' 5)) ''timer_at'') \<le> 9"
    by code_simp
  have enough: "length (filter (is_due 9) (fst (recover_stale_timers 9 0 sample_chats))) \<le> sum_list (map length [[''c1''], [''c2'']])"
    by code_simp
  have i: "cr_id (sample_timer ''t'' 5) = ''t''" by (simp add: sample_timer_def new_timer_row_def)
  show ?thesis using due_timers_get_claimed [OF d m due enough] unfolding i by blast
qed

section \<open>The posted messages extend the tree\<close>

text \<open>What the two new messages change in the links.\<close>

definition posted_links :: "messages \<Rightarrow> messages \<Rightarrow> string option \<Rightarrow> string \<Rightarrow> string \<Rightarrow> bool" where
  "posted_links ms ms' parent u a \<longleftrightarrow>
     map fst ms' = map fst ms @ [u, a] \<and>
     (\<forall>k. parent_at ms' k = (if k = a then Some u else if k = u then parent else parent_at ms k)) \<and>
     (\<forall>k. children_at ms' k = (if k = a then [] else if k = u then [a]
        else children_at ms k @ (if parent = Some k then [u] else [])))"

lemma posted_at:
  fixes secs :: int and t :: string and job :: timer_job
  assumes "forest ms" and "u \<notin> set (map fst ms)" and "a \<notin> set (map fst ms)" and "u \<noteq> a"
    and "case parent of None \<Rightarrow> True | Some p \<Rightarrow> p \<in> set (map fst ms)"
  defines "um \<equiv> timer_user_message secs t u a parent job"
  defines "am \<equiv> timer_assistant_message secs u a job"
  defines "ms' \<equiv> fst (add_child_id_to_parent (AList.update a am (AList.update u um ms)) parent u)"
  shows "map fst ms' = map fst ms @ [u, a]"
    and "map_of ms' k = (if k = a then Some am else if k = u then Some um
      else if parent = Some k then map_option (\<lambda>m. set_children (children_of m @ [u]) m) (map_of ms k) else map_of ms k)"
proof -
  define ms2 where "ms2 = AList.update a am (AList.update u um ms)"
  have keys2: "map fst ms2 = map fst ms @ [u, a]"
    using assms(2-4) by (simp add: ms2_def update_keys)
  have at2: "map_of ms2 k = (if k = a then Some am else if k = u then Some um else map_of ms k)" for k
    by (simp add: ms2_def)
  have "map fst ms' = map fst ms @ [u, a] \<and> map_of ms' k = (if k = a then Some am else if k = u then Some um
      else if parent = Some k then map_option (\<lambda>m. set_children (children_of m @ [u]) m) (map_of ms k) else map_of ms k)"
  proof (cases parent)
    case None
    then show ?thesis using keys2 at2 by (simp add: ms'_def ms2_def [symmetric] add_child_id_to_parent_def)
  next
    case (Some p)
    then have p: "p \<in> set (map fst ms)" using assms(5) by simp
    from known_Some [OF this] obtain pm where pm: "map_of ms p = Some pm" by blast
    have ne: "p \<noteq> u" "p \<noteq> a" "p \<noteq> []" using p assms(2,3) forestD(2) [OF assms(1)] by blast+
    moreover have "u \<notin> set (children_of pm)"
      using new_not_child [OF assms(1,2), of p] by (simp add: children_at_def pm)
    ultimately have "ms' = update_at p (set_children (children_of pm @ [u])) ms2"
      using at2 [of p] pm Some by (simp add: ms'_def ms2_def [symmetric] add_child_id_to_parent_def)
    then show ?thesis using at2 [of k] keys2 Some pm ne by (auto simp: map_of_update_at)
  qed
  then show "map fst ms' = map fst ms @ [u, a]"
    and "map_of ms' k = (if k = a then Some am else if k = u then Some um
      else if parent = Some k then map_option (\<lambda>m. set_children (children_of m @ [u]) m) (map_of ms k) else map_of ms k)"
    by auto
qed

lemma posted_message_links:
  fixes secs :: int
  shows "parent_of (timer_user_message secs t u a parent job) = parent"
    and "children_of (timer_user_message secs t u a parent job) = [a]"
    and "get (timer_user_message secs t u a parent job) ''parentId'' = of_opt parent"
    and "parent_of (timer_assistant_message secs u a job) = Some u"
    and "children_of (timer_assistant_message secs u a job) = []"
    and "get (timer_assistant_message secs u a job) ''parentId'' = JStr u"
  by (simp_all add: timer_user_message_def timer_assistant_message_def parent_of_def children_of_def get_or_def
      List.map_filter_simps)

lemma posted_forest:
  assumes f: "forest ms" and fresh: "u \<notin> set (map fst ms)" "a \<notin> set (map fst ms)" "u \<noteq> a" "u \<noteq> []" "a \<noteq> []"
    and stored: "case parent of None \<Rightarrow> True | Some p \<Rightarrow> p \<in> set (map fst ms)"
    and links: "posted_links ms ms' parent u a"
    and ids: "\<And>k m. map_of ms' k = Some m \<Longrightarrow> get m ''parentId'' = of_opt (parent_of m)"
  shows "forest ms'"
proof (rule forestI)
  have keys: "map fst ms' = map fst ms @ [u, a]"
    and parent: "\<And>k. parent_at ms' k = (if k = a then Some u else if k = u then parent else parent_at ms k)"
    and kids: "\<And>k. children_at ms' k = (if k = a then [] else if k = u then [a]
        else children_at ms k @ (if parent = Some k then [u] else []))"
    using links by (simp_all add: posted_links_def)
  have none: "map_of ms u = None" "map_of ms a = None" using fresh by (simp_all add: map_of_eq_None_iff)
  have not_parent: "parent \<noteq> Some u" "parent \<noteq> Some a" using stored fresh by auto
  have not_child: "c \<noteq> u" "c \<noteq> a" if "c \<in> set (children_at ms k)" for c k
    using that new_not_child [OF f fresh(1)] new_not_child [OF f fresh(2)] by blast+
  have old_parent: "p \<noteq> u" "p \<noteq> a" if "parent_at ms c = Some p" for c p
    using forestD(4) [OF f that] fresh by blast+
  show "distinct (map fst ms')" "[] \<notin> set (map fst ms')"
    using forestD(1,2) [OF f] fresh unfolding keys by auto
  show "get m ''parentId'' = of_opt (parent_of m)" if "map_of ms' k = Some m" for k m using that by (rule ids)
  show "p \<in> set (map fst ms')" if "parent_at ms' c = Some p" for c p
    using that forestD(4) [OF f, of c p] stored unfolding keys by (auto simp: parent split: if_splits)
  show "c \<in> set (children_at ms' p) \<longleftrightarrow> parent_at ms' c = Some p" for c p
    using forestD(5) [OF f, of c p] not_child [of c p] old_parent [of c p] not_parent fresh(3) none
    by (auto simp: parent kids parent_at_def [of ms])
  show "distinct (children_at ms' p)" for p
    using forestD(6) [OF f, of p] not_child [of u p] by (auto simp: kids)
  have no_way: "(x, y) \<notin> (child_links ms)\<^sup>*" if "x \<notin> set (map fst ms)" "x \<noteq> y" for x y
  proof
    assume "(x, y) \<in> (child_links ms)\<^sup>*"
    then show False
    proof (cases rule: converse_rtranclE)
      case (step c)
      then show ?thesis using forestD(4) [OF f, of c x] that by (simp add: child_links_def)
    qed (use that in simp)
  qed
  have no_link: "(y, x) \<notin> child_links ms" if "x \<notin> set (map fst ms)" for x y
    using known_parent_at [of ms x y] that by (auto simp: child_links_def)
  have up: "acyclic (child_links ms \<union> (case parent of None \<Rightarrow> {} | Some p \<Rightarrow> {(p, u)}))"
    using forestD(7) [OF f] no_way [OF fresh(1)] not_parent by (cases parent) (auto simp: acyclic_insert)
  have "(a, u) \<notin> (child_links ms \<union> (case parent of None \<Rightarrow> {} | Some p \<Rightarrow> {(p, u)}))\<^sup>*"
  proof
    assume "(a, u) \<in> (child_links ms \<union> (case parent of None \<Rightarrow> {} | Some p \<Rightarrow> {(p, u)}))\<^sup>*"
    then show False
    proof (cases rule: converse_rtranclE)
      case (step c)
      then show ?thesis using forestD(4) [OF f, of c a] fresh not_parent
        by (cases parent) (auto simp: child_links_def)
    qed (use fresh in simp)
  qed
  with up have "acyclic (insert (u, a) (child_links ms \<union> (case parent of None \<Rightarrow> {} | Some p \<Rightarrow> {(p, u)})))"
    by (simp add: acyclic_insert)
  moreover have "child_links ms' = insert (u, a) (child_links ms \<union> (case parent of None \<Rightarrow> {} | Some p \<Rightarrow> {(p, u)}))"
    using none fresh(3) by (auto simp: child_links_def parent parent_at_def [of ms] split: option.split if_splits)
  ultimately show "acyclic (child_links ms')" by simp
qed

lemma post_messages_tree:
  fixes secs :: int and t :: string and job :: timer_job
  assumes f: "forest (hi_messages h)" and fresh: "u \<notin> set (map fst (hi_messages h))" "a \<notin> set (map fst (hi_messages h))"
      "u \<noteq> a" "u \<noteq> []" "a \<noteq> []"
    and stored: "case post_parent (hi_messages h) job of None \<Rightarrow> True | Some p \<Rightarrow> p \<in> set (map fst (hi_messages h))"
  defines "h' \<equiv> post_messages secs t u a job h"
  shows "forest (hi_messages h') \<and> hi_current h' = Some a \<and>
    posted_links (hi_messages h) (hi_messages h') (post_parent (hi_messages h) job) u a"
proof -
  let ?ms = "hi_messages h" and ?p = "post_parent (hi_messages h) job"
  have ms': "hi_messages h' = fst (add_child_id_to_parent (AList.update a (timer_assistant_message secs u a job)
      (AList.update u (timer_user_message secs t u a ?p job) ?ms)) ?p u)" and current: "hi_current h' = Some a"
    by (simp_all add: h'_def post_messages_def Let_def)
  note keys = posted_at(1) [where secs = secs and t = t and job = job, OF f fresh(1,2,3) stored, folded ms']
  note at = posted_at(2) [where secs = secs and t = t and job = job, OF f fresh(1,2,3) stored, folded ms']
  have none: "map_of ?ms u = None" "map_of ?ms a = None" using fresh by (simp_all add: map_of_eq_None_iff)
  have not_parent: "?p \<noteq> Some u" "?p \<noteq> Some a" using stored fresh by auto
  have known: "map_of ?ms k \<noteq> None" if "?p = Some k" for k using stored that known_iff [of ?ms k] by simp
  have links: "posted_links ?ms (hi_messages h') ?p u a"
    unfolding posted_links_def
  proof (intro conjI allI)
    show "map fst (hi_messages h') = map fst ?ms @ [u, a]" by (rule keys)
    show "parent_at (hi_messages h') k = (if k = a then Some u else if k = u then ?p else parent_at ?ms k)" for k
      using fresh(3) by (cases "map_of ?ms k") (simp_all add: parent_at_def at posted_message_links)
    show "children_at (hi_messages h') k = (if k = a then [] else if k = u then [a]
        else children_at ?ms k @ (if ?p = Some k then [u] else []))" for k
      using fresh(3) known [of k] by (cases "map_of ?ms k") (auto simp: children_at_def at posted_message_links)
  qed
  moreover have "get m ''parentId'' = of_opt (parent_of m)" if "map_of (hi_messages h') k = Some m" for k m
    using that forestD(3) [OF f] unfolding at by (auto simp: posted_message_links get_set_children split: if_splits)
  ultimately show ?thesis using posted_forest [OF f fresh stored links] current by blast
qed

lemma find_owned:
  assumes "distinct (map cr_id db)" and "find (\<lambda>r. cr_id r = i \<and> P r) db = Some r"
  shows "r \<in> set db \<and> cr_id r = i \<and> P r \<and> find_row i db = Some r"
  using find_Some_mem [OF assms(2)] find_row_iff [OF assms(1)] by simp

lemma find_update_row:
  assumes "distinct (map cr_id db)" and "\<And>r. cr_id (f r) = cr_id r"
  shows "find_row i (update_row j f db) = (if i = j then map_option f (find_row i db) else find_row i db)"
  using assms by (induction db) (auto simp: find_row_def update_row_def)

lemma filter_update_row:
  assumes "\<And>r. cr_id (f r) = cr_id r" and "\<not> P i"
  shows "filter (\<lambda>r. P (cr_id r)) (update_row i f db) = filter (\<lambda>r. P (cr_id r)) db"
  using assms by (induction db) (auto simp: update_row_def)

text \<open>
  C24. The commit of a run. When \<open>post_timer\<close> posts into the parent chat (an own row, whose history
  is well-formed, with fresh message ids and a stored message to answer, or none), the parent's
  history stays well-formed: it gains exactly the user message under that message and the
  empty assistant message under it, which becomes the current one. In the same commit the
  timer becomes completed, and no other row changes.
\<close>

theorem post_timer_exact:
  fixes secs :: int and t :: string and job :: timer_job
  assumes "distinct (map cr_id db)" and "t \<noteq> tj_parent job"
    and "find (\<lambda>r. cr_id r = tj_parent job \<and> cr_user r = tj_user job) db = Some p"
    and "post_timer env now secs u a t job db = (db', Some req)"
    and "forest (hi_messages (cr_history p))"
    and "u \<notin> set (map fst (hi_messages (cr_history p)))" "a \<notin> set (map fst (hi_messages (cr_history p)))" "u \<noteq> a" "u \<noteq> []" "a \<noteq> []"
    and "case post_parent (hi_messages (cr_history p)) job of None \<Rightarrow> True | Some k \<Rightarrow> k \<in> set (map fst (hi_messages (cr_history p)))"
  shows "(\<exists>h. map_option cr_history (find_row (tj_parent job) db') = Some h \<and> forest (hi_messages h) \<and> hi_current h = Some a \<and>
        posted_links (hi_messages (cr_history p)) (hi_messages h) (post_parent (hi_messages (cr_history p)) job) u a) \<and>
    map_option (has_status ''completed'') (find_row t db') = map_option (\<lambda>_. True) (find_row t db) \<and>
    filter (\<lambda>r. cr_id r \<notin> {t, tj_parent job}) db' = filter (\<lambda>r. cr_id r \<notin> {t, tj_parent job}) db"
proof -
  let ?f = "\<lambda>r. r\<lparr>cr_history := post_messages secs t u a job (cr_history r), cr_updated_at := secs\<rparr>"
  let ?g = "set_meta secs (completed_fields now)"
  have db': "db' = update_row t ?g (update_row (tj_parent job) ?f db)"
    using assms(4) by (auto simp: post_timer_def assms(3) Let_def split: if_splits)
  have p: "find_row (tj_parent job) db = Some p" using find_owned [OF assms(1,3)] by simp
  have d: "distinct (map cr_id (update_row (tj_parent job) ?f db))" using assms(1) by (subst map_ids_update_row) simp_all
  have g: "\<And>r. cr_id (?g r) = cr_id r" by (simp add: set_meta_fields)
  have "find_row (tj_parent job) db' = Some (?f p)"
    using assms(2) unfolding db' by (subst find_update_row [OF d g]) (simp add: find_update_row [OF assms(1)] p)
  then have tree: "\<exists>h. map_option cr_history (find_row (tj_parent job) db') = Some h \<and> forest (hi_messages h) \<and> hi_current h = Some a \<and>
      posted_links (hi_messages (cr_history p)) (hi_messages h) (post_parent (hi_messages (cr_history p)) job) u a"
    using post_messages_tree [OF assms(5-11)] by (intro exI [of _ "post_messages secs t u a job (cr_history p)"]) simp
  have "find_row t db' = map_option ?g (find_row t db)"
    using assms(2) unfolding db' by (subst find_update_row [OF d g]) (simp add: find_update_row [OF assms(1)])
  then have "map_option (has_status ''completed'') (find_row t db') = map_option (\<lambda>_. True) (find_row t db)"
    by (cases "find_row t db") (simp_all add: has_status_def get_set_meta completed_fields_def)
  moreover have "filter (\<lambda>r. cr_id r \<notin> {t, tj_parent job}) db' = filter (\<lambda>r. cr_id r \<notin> {t, tj_parent job}) db"
    unfolding db' using filter_update_row [of ?g "\<lambda>i. i \<notin> {t, tj_parent job}" t] filter_update_row [of ?f "\<lambda>i. i \<notin> {t, tj_parent job}" "tj_parent job"] g
    by simp
  ultimately show ?thesis using tree by blast
qed

theorem post_timer_exact_witness:
  "map_option (has_status ''completed'')
     (find_row ''t'' (fst (post_timer sample_env 9 0 ''m1'' ''m2'' ''t'' sample_job sample_chats))) = Some True"
proof -
  have d: "distinct (map cr_id sample_chats)" and t: "''t'' \<noteq> tj_parent sample_job"
    and owned: "find (\<lambda>r. cr_id r = tj_parent sample_job \<and> cr_user r = tj_user sample_job) sample_chats = Some sample_chat"
    and posted: "snd (post_timer sample_env 9 0 ''m1'' ''m2'' ''t'' sample_job sample_chats) \<noteq> None"
    and here: "map_option (\<lambda>_. True) (find_row ''t'' sample_chats) = Some True"
    by code_simp+
  from posted obtain req where req: "post_timer sample_env 9 0 ''m1'' ''m2'' ''t'' sample_job sample_chats =
      (fst (post_timer sample_env 9 0 ''m1'' ''m2'' ''t'' sample_job sample_chats), Some req)"
    by (metis not_None_eq prod.collapse)
  have h: "cr_history sample_chat = no_history" by (simp add: sample_chat_def)
  have "post_parent (hi_messages no_history) sample_job = None" by code_simp
  then show ?thesis
    using post_timer_exact [OF d t owned req] forest_none here unfolding h by (simp add: no_history_def)
qed

end
