(* ===== verification/MessageRows.thy ===== *)
theory MessageRows
  imports Timers OutputMessages
begin

text \<open>
  The \<open>chat_message\<close> table (\<open>models/chat_messages.py\<close>), which holds each message of a chat a
  second time beside the chat's own JSON: writing rows, reading them back as a message map, and
  the operations of \<open>ChatTable\<close> (\<open>models/chats.py\<close>) that write both copies and read the map,
  filling its gaps from the JSON. A column is the JSON value bound to it; the rows are in the
  order of insertion, in which SQLite reads them. The clock is an argument.
\<close>

section \<open>Numbers and sums of any values\<close>

fun as_number :: "json \<Rightarrow> int option" where
  "as_number (JInt n) = Some n"
| "as_number (JBool b) = Some (if b then 1 else 0)"
| "as_number _ = None"

text \<open>\<open>x + y\<close>.\<close>

definition py_add :: "json \<Rightarrow> json \<Rightarrow> py_error + json" where
  "py_add x y =
     (case (as_number x, as_number y) of
        (Some n, Some m) \<Rightarrow> Inr (JInt (n + m))
      | _ \<Rightarrow> (case (x, y) of
           (JStr s, JStr t) \<Rightarrow> Inr (JStr (s @ t))
         | (JArr s, JArr t) \<Rightarrow> Inr (JArr (s @ t))
         | _ \<Rightarrow> Inl TypeError))"

section \<open>Usage\<close>

definition normalize_usage :: "json \<Rightarrow> py_error + dict" where
  "normalize_usage usage =
     (if \<not> truthy usage then Inr []
      else case usage of
        JObj d \<Rightarrow>
          (let given = py_or (py_or (get d ''input_tokens'') (get d ''prompt_tokens'')) (get d ''prompt_eval_count'');
               output = py_or (py_or (py_or (py_or (get d ''output_tokens'') (get d ''completion_tokens''))
                 (get d ''eval_count'')) (get d ''predicted_n'')) (JInt 0)
           in and_then
                (if given = JNull
                 then and_then (to_int (py_or (get d ''prompt_n'') (JInt 0))) (\<lambda>n.
                      and_then (to_int (py_or (get d ''cache_n'') (JInt 0))) (\<lambda>m. Inr (JInt (n + m))))
                 else Inr given) (\<lambda>input.
              and_then (if truthy (get d ''total_tokens'') then Inr (get d ''total_tokens'') else py_add input output) (\<lambda>total.
              and_then (to_int input) (\<lambda>i. and_then (to_int output) (\<lambda>ou. and_then (to_int total) (\<lambda>t.
                Inr (dict_update d [(''input_tokens'', JInt i), (''output_tokens'', JInt ou), (''total_tokens'', JInt t)])))))))
      | _ \<Rightarrow> Inl AttributeError)"

definition stated_usage :: "dict \<Rightarrow> py_error + json" where
  "stated_usage m =
     (if truthy (get m ''usage'') then Inr (get m ''usage'')
      else get_attr (py_or (get m ''info'') (JObj [])) ''usage'' JNull)"

definition get_usage :: "dict \<Rightarrow> py_error + json" where
  "get_usage data =
     and_then (stated_usage data) (\<lambda>usage.
       if truthy usage then and_then (normalize_usage usage) (\<lambda>d. Inr (JObj d)) else Inr JNull)"

section \<open>Rows\<close>

record message_row =
  mr_id :: string
  mr_chat :: string
  mr_user :: string
  mr_role :: json
  mr_parent :: json
  mr_content :: json
  mr_output :: json
  mr_model :: json
  mr_files :: json
  mr_sources :: json
  mr_embeds :: json
  mr_meta :: json
  mr_done :: json
  mr_status_history :: json
  mr_error :: json
  mr_usage :: json
  mr_context_summary :: json
  mr_created_at :: json
  mr_updated_at :: int

text \<open>\<open>f'{chat_id}-{message_id}'\<close>, the primary key.\<close>

definition composite_id :: "string \<Rightarrow> string \<Rightarrow> string" where
  "composite_id chat i = chat @ ''-'' @ i"

text \<open>The value of the first spelling, or of the second, when the payload has one of them.\<close>

definition either_key :: "dict \<Rightarrow> string \<Rightarrow> string \<Rightarrow> json \<Rightarrow> json" where
  "either_key d k k' old = (if has_key d k \<or> has_key d k' then py_or (get d k) (get d k') else old)"

definition apply_message_data :: "int \<Rightarrow> dict \<Rightarrow> message_row \<Rightarrow> py_error + message_row" where
  "apply_message_data now d r =
     (let r1 = r\<lparr>
        mr_role := get_or d ''role'' (mr_role r),
        mr_parent := either_key d ''parent_id'' ''parentId'' (mr_parent r),
        mr_content := get_or d ''content'' (mr_content r),
        mr_output := get_or d ''output'' (mr_output r),
        mr_model := either_key d ''model_id'' ''model'' (mr_model r),
        mr_files := get_or d ''files'' (mr_files r),
        mr_sources := get_or d ''sources'' (mr_sources r),
        mr_embeds := get_or d ''embeds'' (mr_embeds r),
        mr_meta := get_or d ''meta'' (mr_meta r),
        mr_done := get_or d ''done'' (mr_done r),
        mr_status_history := either_key d ''status_history'' ''statusHistory'' (mr_status_history r),
        mr_error := get_or d ''error'' (mr_error r),
        mr_context_summary := either_key d ''context_summary'' ''contextSummary'' (mr_context_summary r)\<rparr>
      in and_then (get_usage d) (\<lambda>usage.
           Inr (r1\<lparr>mr_usage := (if truthy usage then usage else mr_usage r), mr_updated_at := now\<rparr>)))"

definition build_message :: "string \<Rightarrow> string \<Rightarrow> string \<Rightarrow> dict \<Rightarrow> int \<Rightarrow> py_error + message_row" where
  "build_message cid chat user d now =
     and_then (get_usage d) (\<lambda>usage. Inr \<lparr>
       mr_id = cid, mr_chat = chat, mr_user = user,
       mr_role = get_or d ''role'' (JStr ''user''),
       mr_parent = py_or (get d ''parent_id'') (get d ''parentId''),
       mr_content = get d ''content'',
       mr_output = get d ''output'',
       mr_model = py_or (get d ''model_id'') (get d ''model''),
       mr_files = get d ''files'',
       mr_sources = get d ''sources'',
       mr_embeds = get d ''embeds'',
       mr_meta = get d ''meta'',
       mr_done = get_or d ''done'' (JBool True),
       mr_status_history = py_or (get d ''status_history'') (get d ''statusHistory''),
       mr_error = get d ''error'',
       mr_usage = usage,
       mr_context_summary = py_or (get d ''context_summary'') (get d ''contextSummary''),
       mr_created_at = get_or d ''timestamp'' (JInt now),
       mr_updated_at = now\<rparr>)"

text \<open>
  What the columns can hold: text, a boolean and whole numbers; a role is required. A value of
  another type makes the statement fail.
\<close>

fun text_or_null :: "json \<Rightarrow> bool" where
  "text_or_null JNull = True"
| "text_or_null (JStr s) = True"
| "text_or_null _ = False"

definition storable :: "message_row \<Rightarrow> bool" where
  "storable r \<longleftrightarrow> is_str (mr_role r) \<and> text_or_null (mr_parent r) \<and> text_or_null (mr_model r) \<and>
     text_or_null (mr_context_summary r) \<and> mr_done r \<in> {JNull, JBool True, JBool False} \<and>
     (mr_created_at r = JNull \<or> as_number (mr_created_at r) \<noteq> None)"

section \<open>Writing rows\<close>

definition find_message_row :: "string \<Rightarrow> message_row list \<Rightarrow> message_row option" where
  "find_message_row cid rows = find (\<lambda>r. mr_id r = cid) rows"

definition put_message_row :: "message_row \<Rightarrow> message_row list \<Rightarrow> message_row list" where
  "put_message_row r rows =
     (if find_message_row (mr_id r) rows = None then rows @ [r]
      else map (\<lambda>q. if mr_id q = mr_id r then r else q) rows)"

text \<open>The row a message is written as; None of the table changes before the commit.\<close>

definition written_row :: "int \<Rightarrow> string \<Rightarrow> string \<Rightarrow> message_row list \<Rightarrow> string \<Rightarrow> dict \<Rightarrow> py_error + message_row" where
  "written_row now chat user rows i d =
     and_then
       (case find_message_row (composite_id chat i) rows of
          Some r \<Rightarrow> apply_message_data now d r
        | None \<Rightarrow> build_message (composite_id chat i) chat user d now)
       (\<lambda>r. if storable r then Inr r else Inl DBAPIError)"

definition upsert_message ::
  "int \<Rightarrow> string \<Rightarrow> string \<Rightarrow> string \<Rightarrow> dict \<Rightarrow> message_row list \<Rightarrow> py_error + message_row list" where
  "upsert_message now i chat user d rows =
     and_then (written_row now chat user rows i d) (\<lambda>r. Inr (put_message_row r rows))"

text \<open>Several messages in one commit: all are written, or none.\<close>

definition upsert_messages ::
  "int \<Rightarrow> string \<Rightarrow> string \<Rightarrow> messages \<Rightarrow> message_row list \<Rightarrow> py_error + message_row list" where
  "upsert_messages now chat user ms rows =
     and_then (traverse (\<lambda>(i, d). written_row now chat user rows i d) ms)
       (\<lambda>new. Inr (fold put_message_row new rows))"

section \<open>Reading the message map\<close>

definition present :: "string \<Rightarrow> json \<Rightarrow> dict" where
  "present k v = (if v = JNull then [] else [(k, v)])"

definition row_fields :: "string \<Rightarrow> message_row \<Rightarrow> dict" where
  "row_fields i r =
     [(''id'', JStr i)] @ present ''role'' (mr_role r) @ present ''parentId'' (mr_parent r)
       @ present ''content'' (mr_content r) @ present ''output'' (mr_output r) @ present ''model'' (mr_model r)
       @ present ''files'' (mr_files r) @ present ''sources'' (mr_sources r) @ present ''embeds'' (mr_embeds r)
       @ present ''meta'' (mr_meta r) @ present ''done'' (mr_done r)
       @ present ''statusHistory'' (mr_status_history r) @ present ''error'' (mr_error r)
       @ present ''usage'' (mr_usage r) @ present ''contextSummary'' (mr_context_summary r)
       @ present ''timestamp'' (mr_created_at r)"

definition row_message :: "string \<Rightarrow> message_row \<Rightarrow> dict" where
  "row_message i r =
     (let fields = row_fields i r;
          filled = (if has_key fields ''content'' then fields else fields @ [(''content'', JStr [])])
      in if has_key filled ''usage'' then filled @ [(''info'', JObj [(''usage'', get filled ''usage'')])] else filled)"

definition message_id_of :: "string \<Rightarrow> message_row \<Rightarrow> string" where
  "message_id_of chat r =
     (let p = chat @ ''-'' in if prefix p (mr_id r) then drop (length p) (mr_id r) else mr_id r)"

definition row_messages :: "string \<Rightarrow> message_row list \<Rightarrow> messages" where
  "row_messages chat rows =
     dict_update [] (map (\<lambda>r. (message_id_of chat r, row_message (message_id_of chat r) r))
       (filter (\<lambda>r. mr_chat r = chat) rows))"

definition with_children :: "messages \<Rightarrow> messages" where
  "with_children ms =
     map (\<lambda>(i, m). (i, if has_key m ''childrenIds'' then m else set_children [] m)) (fst (add_all_children ms ms))"

definition rows_messages_map :: "string \<Rightarrow> message_row list \<Rightarrow> messages option" where
  "rows_messages_map chat rows =
     (if filter (\<lambda>r. mr_chat r = chat) rows = [] then None else Some (with_children (row_messages chat rows)))"

section \<open>Both copies\<close>

record chat_db =
  cd_chats :: "chat_row list"
  cd_rows :: "message_row list"

fun strip_null_bytes :: "json \<Rightarrow> json" where
  "strip_null_bytes (JStr s) = JStr (filter (\<lambda>c. c \<noteq> CHR 0x00) s)"
| "strip_null_bytes (JArr xs) = JArr (map strip_null_bytes xs)"
| "strip_null_bytes (JObj d) =
     JObj (dict_update [] (map (\<lambda>(k, v). (filter (\<lambda>c. c \<noteq> CHR 0x00) k, strip_null_bytes v)) d))"
| "strip_null_bytes v = v"

text \<open>\<open>backfill_messages_by_chat_id\<close> logs an error and goes on.\<close>

definition backfill_messages :: "int \<Rightarrow> string \<Rightarrow> string \<Rightarrow> messages \<Rightarrow> message_row list \<Rightarrow> message_row list" where
  "backfill_messages now chat user ms rows =
     (case upsert_messages now chat user (filter (\<lambda>(i, m). truthy (get m ''role'')) ms) rows of
        Inl e \<Rightarrow> rows | Inr rows' \<Rightarrow> rows')"

definition unresolved_parent_ids :: "messages \<Rightarrow> string list" where
  "unresolved_parent_ids ms =
     filter (\<lambda>p. p \<noteq> [] \<and> map_of ms p = None) (List.map_filter (\<lambda>(i, m). parent_of m) ms)"

text \<open>
  \<open>ChatTable.get_messages_map_by_chat_id\<close>. Reading the chat repairs and stores its history
  (\<open>get_chat\<close>).
\<close>

definition get_messages_map :: "int \<Rightarrow> string \<Rightarrow> chat_db \<Rightarrow> chat_db \<times> messages option" where
  "get_messages_map now chat db =
     (case rows_messages_map chat (cd_rows db) of
        Some ms \<Rightarrow>
          (let gaps = unresolved_parent_ids ms
           in if gaps = [] then (db, Some ms)
              else case get_chat (\<lambda>_. True) chat (cd_chats db) of
                (chats, None) \<Rightarrow> (db\<lparr>cd_chats := chats\<rparr>, Some ms)
              | (chats, Some c) \<Rightarrow>
                  (let missing = filter (\<lambda>(i, m). i \<in> set gaps) (hi_messages (cr_history c))
                   in (\<lparr>cd_chats = chats, cd_rows = backfill_messages now chat (cr_user c) missing (cd_rows db)\<rparr>,
                       Some (dict_update ms missing))))
      | None \<Rightarrow>
          (case get_chat (\<lambda>_. True) chat (cd_chats db) of
             (chats, None) \<Rightarrow> (db\<lparr>cd_chats := chats\<rparr>, None)
           | (chats, Some c) \<Rightarrow>
               (\<lparr>cd_chats = chats,
                 cd_rows = backfill_messages now chat (cr_user c) (hi_messages (cr_history c)) (cd_rows db)\<rparr>,
                Some (hi_messages (cr_history c)))))"

text \<open>
  \<open>upsert_message_to_chat_by_id_and_message_id\<close>: the chat's JSON is committed first, then the
  row is written from the saved message; a failure of the second write is logged.
\<close>

definition with_output_content :: "(json \<Rightarrow> string) \<Rightarrow> dict \<Rightarrow> dict" where
  "with_output_content repr m =
     (let t = get_output_text repr (get m ''output'')
      in if truthy (get m ''content'') \<or> t = [] then m else dict_set ''content'' (JStr t) m)"

text \<open>\<open>_sanitize_chat_row\<close>: the chat's JSON without null bytes.\<close>

definition clean_text :: "string \<Rightarrow> string" where
  "clean_text s = filter (\<lambda>c. c \<noteq> CHR 0x00) s"

definition clean_dict :: "dict \<Rightarrow> dict" where
  "clean_dict d = as_dict (strip_null_bytes (JObj d))"

definition clean_messages :: "messages \<Rightarrow> messages" where
  "clean_messages ms = dict_update [] (map (\<lambda>(k, m). (clean_text k, clean_dict m)) ms)"

definition sanitize_row :: "chat_row \<Rightarrow> chat_row" where
  "sanitize_row c = c\<lparr>cr_history := \<lparr>hi_messages = clean_messages (hi_messages (cr_history c)),
       hi_current = map_option clean_text (hi_current (cr_history c)), hi_rest = clean_dict (hi_rest (cr_history c))\<rparr>,
     cr_rest := clean_dict (cr_rest c)\<rparr>"

text \<open>The chat is stored without null bytes, as every write of a message leaves it.\<close>

definition clean_stored :: "string \<Rightarrow> chat_db \<Rightarrow> bool" where
  "clean_stored chat db \<longleftrightarrow> (case find_row chat (cd_chats db) of None \<Rightarrow> True | Some c \<Rightarrow> sanitize_row c = c)"

definition save_to_chat :: "int \<Rightarrow> bool \<Rightarrow> string \<Rightarrow> dict \<Rightarrow> chat_row \<Rightarrow> chat_row" where
  "save_to_chat now touch i m c =
     (let c1 = repair_row (sanitize_row c)
      in c1\<lparr>cr_history := upsert_message_to_history now (cr_history c1) i m,
           cr_updated_at := (if touch then now else cr_updated_at c1)\<rparr>)"

definition upsert_message_to_chat ::
  "(json \<Rightarrow> string) \<Rightarrow> int \<Rightarrow> bool \<Rightarrow> string \<Rightarrow> string \<Rightarrow> dict \<Rightarrow> chat_db \<Rightarrow> chat_db" where
  "upsert_message_to_chat repr now touch chat i m db =
     (let m1 = as_dict (strip_null_bytes (JObj (with_output_content repr m)));
          i1 = filter (\<lambda>c. c \<noteq> CHR 0x00) i
      in case find_row chat (cd_chats db) of
           None \<Rightarrow> db
         | Some c \<Rightarrow>
             (let c1 = save_to_chat now touch i1 m1 c;
                  saved = (case map_of (hi_messages (cr_history c1)) i1 of Some s \<Rightarrow> s | None \<Rightarrow> [])
              in \<lparr>cd_chats = update_row chat (\<lambda>_. c1) (cd_chats db),
                  cd_rows = (case upsert_message now i1 chat (cr_user c1) saved (cd_rows db) of
                     Inl e \<Rightarrow> cd_rows db | Inr rows \<Rightarrow> rows)\<rparr>))"

section \<open>The links of the map read\<close>

text \<open>A message whose list of children is \<open>cs\<close> and that is otherwise the given one.\<close>

definition linked :: "string list \<Rightarrow> dict \<Rightarrow> dict \<Rightarrow> bool" where
  "linked cs m m' \<longleftrightarrow> children_of m' = cs \<and> (\<forall>k. k \<noteq> ''childrenIds'' \<longrightarrow> map_of m' k = map_of m k)"

lemma linked_refl: "linked (children_of m) m m"
  by (simp add: linked_def)

lemma linked_trans: "linked cs m m1 \<Longrightarrow> linked ds m1 m2 \<Longrightarrow> linked ds m m2"
  by (simp add: linked_def)

lemma linked_set_children: "linked cs m (set_children cs m)"
proof -
  have "map_of (set_children cs m) k = map_of m k" if "k \<noteq> ''childrenIds''" for k
    using that by (simp add: set_children_def)
  then show ?thesis by (simp add: linked_def)
qed

lemma linked_get: "linked cs m m' \<Longrightarrow> k \<noteq> ''childrenIds'' \<Longrightarrow> get_or m' k v = get_or m k v"
  by (simp add: linked_def get_or_def)

lemma linked_parent: "linked cs m m' \<Longrightarrow> parent_of m' = parent_of m"
  by (simp add: parent_of_def linked_get)

definition new_children :: "messages \<Rightarrow> string \<Rightarrow> string list" where
  "new_children rest k = (if k = [] then [] else replies rest k)"

lemma add_child_linked:
  assumes "map_of ms k = Some m" and "i \<notin> set (children_of m)"
  shows "\<exists>m'. map_of (fst (add_child_id_to_parent ms (parent_of n) i)) k = Some m' \<and>
    linked (children_of m @ new_children [(i, n)] k) m m'"
proof (cases "parent_of n")
  case None
  then show ?thesis using assms(1) linked_refl by (simp add: add_child_id_to_parent_def new_children_def replies_def)
next
  case (Some p)
  show ?thesis
  proof (cases "p = k \<and> k \<noteq> []")
    case True
    then show ?thesis
      using assms Some linked_set_children
      by (simp add: add_child_id_to_parent_def new_children_def replies_def map_of_update_at)
  next
    case False
    then show ?thesis
      using assms Some linked_refl
      by (auto simp: add_child_id_to_parent_def new_children_def replies_def map_of_update_at split: option.splits)
  qed
qed

lemma replies_Cons: "replies (x # rest) k = replies [x] k @ replies rest k"
  by (simp add: replies_def)

lemma add_all_linked:
  assumes "map_of ms k = Some m" and "distinct (map fst rest)" and "set (children_of m) \<inter> set (map fst rest) = {}"
  shows "\<exists>m'. map_of (fst (add_all_children ms rest)) k = Some m' \<and> linked (children_of m @ new_children rest k) m m'"
  using assms
proof (induction rest arbitrary: ms m)
  case Nil
  then show ?case using linked_refl by (simp add: new_children_def replies_def)
next
  case (Cons a rest)
  obtain i n where a: "a = (i, n)" by (cases a)
  obtain ms1 c1 where step: "add_child_id_to_parent ms (parent_of n) i = (ms1, c1)" by fastforce
  have "i \<notin> set (children_of m)" using Cons.prems(3) by (auto simp: a)
  from add_child_linked [OF Cons.prems(1) this, of n] obtain m1
    where m1: "map_of ms1 k = Some m1" "linked (children_of m @ new_children [(i, n)] k) m m1" unfolding step by auto
  then have "set (children_of m1) \<subseteq> insert i (set (children_of m))"
    by (auto simp: linked_def new_children_def replies_def split: if_splits)
  then have "set (children_of m1) \<inter> set (map fst rest) = {}" using Cons.prems(2,3) by (auto simp: a)
  from Cons.IH [OF m1(1) _ this] obtain m2
    where m2: "map_of (fst (add_all_children ms1 rest)) k = Some m2" "linked (children_of m1 @ new_children rest k) m1 m2"
    using Cons.prems(2) by auto
  have "linked (children_of m @ new_children (a # rest) k) m m2"
    using linked_trans [OF m1(2) m2(2)] m1(2) replies_Cons [of a rest k]
    by (auto simp: linked_def new_children_def a split: if_splits)
  then show ?case using m2(1) by (auto simp: a step split: prod.split)
qed

lemma keys_add_child [simp]: "map fst (fst (add_child_id_to_parent ms p i)) = map fst ms"
  by (auto simp: add_child_id_to_parent_def split: option.split)

lemma keys_add_all [simp]: "map fst (fst (add_all_children ms rest)) = map fst ms"
proof (induction ms rest rule: add_all_children.induct)
  case (2 ms i m rest)
  obtain ms1 c1 where step: "add_child_id_to_parent ms (parent_of m) i = (ms1, c1)" by fastforce
  have "map fst ms1 = map fst ms" using keys_add_child [of ms "parent_of m" i] by (simp add: step)
  then show ?case using "2.IH" [OF step [symmetric]]
    by (cases "add_all_children ms1 rest") (simp add: step)
qed simp

lemma keys_with_children [simp]: "map fst (with_children ms) = map fst ms"
proof -
  have "map fst (with_children ms) = map fst (fst (add_all_children ms ms))"
    by (simp add: with_children_def comp_def case_prod_unfold)
  also have "\<dots> = map fst ms" by (rule keys_add_all)
  finally show ?thesis .
qed

lemma map_of_map_snd: "map_of (map (\<lambda>(i, m). (i, f m)) ms) k = map_option f (map_of ms k)"
  by (induction ms) auto

lemma with_children_linked:
  assumes "map_of ms k = Some m" and "distinct (map fst ms)" and "get m ''childrenIds'' = JNull"
  shows "\<exists>m'. map_of (with_children ms) k = Some m' \<and> linked (new_children ms k) m m' \<and> has_key m' ''childrenIds''"
proof -
  have c: "children_of m = []" using assms(3) by (simp add: children_of_def)
  from add_all_linked [OF assms(1,2)] obtain m1
    where m1: "map_of (fst (add_all_children ms ms)) k = Some m1" "linked (new_children ms k) m m1" by (auto simp: c)
  have "linked (new_children ms k) m (if has_key m1 ''childrenIds'' then m1 else set_children [] m1)"
  proof (cases "has_key m1 ''childrenIds''")
    case False
    then have "children_of m1 = []" by (auto simp: has_key_def children_of_def get_or_def)
    then have "new_children ms k = []" using m1(2) by (simp add: linked_def)
    then show ?thesis using False linked_trans [OF m1(2) linked_set_children, of "[]"] by simp
  qed (use m1(2) in simp)
  then show ?thesis
    using m1(1) by (auto simp: with_children_def map_of_map_snd has_key_def set_children_def dict_set_def)
qed


lemma dict_update_fresh:
  "distinct (map fst kvs) \<Longrightarrow> fst ` set d \<inter> fst ` set kvs = {} \<Longrightarrow> dict_update d kvs = d @ kvs"
proof (induction d kvs rule: dict_update.induct)
  case (2 d k v kvs)
  have "AList.update k v d = d @ [(k, v)]" if "k \<notin> fst ` set d" for d :: "(string \<times> 'a) list"
    using that by (induction d) auto
  moreover have "k \<notin> fst ` set d" "fst ` set (d @ [(k, v)]) \<inter> fst ` set kvs = {}" "distinct (map fst kvs)"
    using "2.prems" by auto
  ultimately show ?case using "2.IH" by simp
qed simp

lemma dict_update_Nil: "distinct (map fst kvs) \<Longrightarrow> dict_update [] kvs = kvs"
  by (simp add: dict_update_fresh)

text \<open>Rows as the two write operations leave them: one per key, each under its chat's prefix.\<close>

definition chat_rows :: "string \<Rightarrow> message_row list \<Rightarrow> message_row list" where
  "chat_rows chat rows = filter (\<lambda>r. mr_chat r = chat) rows"

definition keyed_rows :: "string \<Rightarrow> message_row list \<Rightarrow> bool" where
  "keyed_rows chat rows \<longleftrightarrow> distinct (map mr_id rows) \<and>
     (\<forall>r \<in> set rows. mr_chat r = chat \<longleftrightarrow> prefix (composite_id chat []) (mr_id r))"

lemma composite_id_inject [simp]: "composite_id chat i = composite_id chat j \<longleftrightarrow> i = j"
  by (simp add: composite_id_def)

lemma message_id_of_composite: "mr_id r = composite_id chat i \<Longrightarrow> message_id_of chat r = i"
  by (simp add: message_id_of_def composite_id_def)

lemma keyed_row_id:
  "keyed_rows chat rows \<Longrightarrow> r \<in> set (chat_rows chat rows) \<Longrightarrow> mr_id r = composite_id chat (message_id_of chat r)"
  by (auto simp: keyed_rows_def chat_rows_def message_id_of_def composite_id_def elim!: prefixE)

lemma keyed_message_ids:
  assumes "keyed_rows chat rows"
  shows "distinct (map (message_id_of chat) (chat_rows chat rows))"
proof -
  have "inj_on (message_id_of chat) (set (chat_rows chat rows))"
  proof (rule inj_onI)
    fix q r assume q: "q \<in> set (chat_rows chat rows)" and r: "r \<in> set (chat_rows chat rows)"
      and eq: "message_id_of chat q = message_id_of chat r"
    have "mr_id q = mr_id r" using keyed_row_id [OF assms q] keyed_row_id [OF assms r] eq by simp
    moreover have "inj_on mr_id (set rows)" using assms by (simp add: keyed_rows_def distinct_map)
    ultimately show "q = r" using q r by (auto simp: chat_rows_def dest: inj_onD)
  qed
  moreover have "distinct (chat_rows chat rows)"
    using assms by (auto simp: keyed_rows_def chat_rows_def distinct_map)
  ultimately show ?thesis by (simp add: distinct_map)
qed

lemma row_messages_keyed:
  assumes "keyed_rows chat rows"
  shows "row_messages chat rows
    = map (\<lambda>r. (message_id_of chat r, row_message (message_id_of chat r) r)) (chat_rows chat rows)"
  unfolding row_messages_def chat_rows_def [symmetric]
  by (rule dict_update_Nil) (use keyed_message_ids [OF assms] in \<open>simp add: comp_def\<close>)

lemma get_present [simp]:
  "get (present k v @ d) k' = (if k' = k \<and> v \<noteq> JNull then v else get d k')"
  "get (present k v) k' = (if k' = k then v else JNull)"
  by (simp_all add: present_def get_or_def)

lemma has_key_append [simp]: "has_key (d @ d') k \<longleftrightarrow> has_key d k \<or> has_key d' k"
  by (auto simp: has_key_def map_add_def split: option.splits)

lemma has_key_present [simp]: "has_key (present k v) k' \<longleftrightarrow> k' = k \<and> v \<noteq> JNull"
  by (auto simp: present_def has_key_def)

lemma has_key_Nil [simp]: "\<not> has_key [] k"
  by (simp add: has_key_def)

lemma has_key_Cons [simp]: "has_key ((k, v) # d) k' \<longleftrightarrow> k' = k \<or> has_key d k'"
  by (auto simp: has_key_def)

text \<open>What a row says of its message.\<close>

definition row_field :: "message_row \<Rightarrow> string \<Rightarrow> json" where
  "row_field r k =
     (if k = ''role'' then mr_role r else if k = ''parentId'' then mr_parent r
      else if k = ''content'' then (if mr_content r = JNull then JStr [] else mr_content r)
      else if k = ''output'' then mr_output r else if k = ''model'' then mr_model r
      else if k = ''files'' then mr_files r else if k = ''sources'' then mr_sources r
      else if k = ''embeds'' then mr_embeds r else if k = ''meta'' then mr_meta r
      else if k = ''done'' then mr_done r else if k = ''statusHistory'' then mr_status_history r
      else if k = ''error'' then mr_error r else if k = ''usage'' then mr_usage r
      else if k = ''contextSummary'' then mr_context_summary r else if k = ''timestamp'' then mr_created_at r
      else if k = ''info'' \<and> mr_usage r \<noteq> JNull then JObj [(''usage'', mr_usage r)] else JNull)"

lemma get_append: "get (d @ d') k = (if has_key d k then get d k else get d' k)"
  by (induction d) (auto simp: get_or_def has_key_def)

lemma get_single: "get [(k, v)] k' = (if k' = k then v else JNull)"
  by (simp add: get_or_def)


lemma get_Cons: "get ((k, v) # d) k' = (if k' = k then v else get d k')"
  by (simp add: get_or_def)

lemma get_Nil [simp]: "get [] k = JNull"
  by (simp add: get_or_def)

definition row_keys :: "string list" where
  "row_keys = [''role'', ''parentId'', ''content'', ''output'', ''model'', ''files'', ''sources'', ''embeds'', ''meta'',
     ''done'', ''statusHistory'', ''error'', ''usage'', ''contextSummary'', ''timestamp'']"

lemma row_keysE:
  assumes "k \<in> set row_keys"
  shows "k = ''role'' \<or> k = ''parentId'' \<or> k = ''content'' \<or> k = ''output'' \<or> k = ''model'' \<or> k = ''files'' \<or>
    k = ''sources'' \<or> k = ''embeds'' \<or> k = ''meta'' \<or> k = ''done'' \<or> k = ''statusHistory'' \<or> k = ''error'' \<or>
    k = ''usage'' \<or> k = ''contextSummary'' \<or> k = ''timestamp''"
  using assms by (simp add: row_keys_def)

lemma get_row_fields:
  "get (row_fields i r) k =
     (if k = ''id'' then JStr i else if k = ''content'' then mr_content r else if k = ''info'' then JNull else row_field r k)"
proof (cases "k \<in> set row_keys")
  case True
  from row_keysE [OF this] show ?thesis
    by (elim disjE) (simp_all add: row_fields_def row_field_def get_Cons)
next
  case False
  then show ?thesis by (simp add: row_keys_def row_fields_def row_field_def get_Cons)
qed

lemma has_row_fields: "has_key (row_fields i r) ''content'' \<longleftrightarrow> mr_content r \<noteq> JNull"
  "has_key (row_fields i r) ''usage'' \<longleftrightarrow> mr_usage r \<noteq> JNull"
  by (simp_all add: row_fields_def)

lemma get_no_key: "\<not> has_key d k \<Longrightarrow> get d k = JNull"
  by (auto simp: has_key_def get_or_def)

lemma get_snoc: "\<not> has_key d k' \<Longrightarrow> get (d @ [(k', v)]) k = (if k = k' then v else get d k)"
  by (auto simp: get_append get_Cons get_no_key)

lemma get_row_message: "get (row_message i r) k = (if k = ''id'' then JStr i else row_field r k)"
proof -
  define filled where
    "filled = (if has_key (row_fields i r) ''content'' then row_fields i r else row_fields i r @ [(''content'', JStr [])])"
  have f: "get filled k = (if k = ''id'' then JStr i else if k = ''info'' then JNull else row_field r k)" for k
    by (auto simp: filled_def get_snoc get_row_fields has_row_fields row_field_def)
  have u: "has_key filled ''usage'' \<longleftrightarrow> mr_usage r \<noteq> JNull" by (simp add: filled_def has_row_fields)
  have "\<not> has_key filled ''info''" by (simp add: filled_def row_fields_def)
  then show ?thesis
    using f u by (auto simp: row_message_def Let_def filled_def [symmetric] get_snoc row_field_def)
qed

text \<open>
  The message map read from the rows has one message per row of the chat, in row order, with
  the row's fields; a message's children are exactly the messages whose parent it is.
\<close>

lemma message_map_of_rows:
  assumes "keyed_rows chat rows" and "rows_messages_map chat rows = Some ms"
  shows "map fst ms = map (message_id_of chat) (chat_rows chat rows) \<and>
    (\<forall>i m. map_of ms i = Some m \<longrightarrow>
       (\<exists>r \<in> set (chat_rows chat rows). mr_id r = composite_id chat i \<and>
          (\<forall>k. k \<noteq> ''childrenIds'' \<longrightarrow> get m k = (if k = ''id'' then JStr i else row_field r k))) \<and>
       children_of m = (if i = [] then [] else filter (\<lambda>c. parent_at ms c = Some i) (map fst ms)))"
proof -
  define bare where "bare = row_messages chat rows"
  have ms: "ms = with_children bare"
    using assms(2) by (simp add: rows_messages_map_def bare_def split: if_splits)
  have bare: "bare = map (\<lambda>r. (message_id_of chat r, row_message (message_id_of chat r) r)) (chat_rows chat rows)"
    unfolding bare_def by (rule row_messages_keyed [OF assms(1)])
  have keys: "map fst bare = map (message_id_of chat) (chat_rows chat rows)" by (simp add: bare comp_def)
  have dist: "distinct (map fst bare)" unfolding keys by (rule keyed_message_ids [OF assms(1)])
  have found: "\<exists>r \<in> set (chat_rows chat rows). i = message_id_of chat r \<and> m = row_message i r" if "map_of bare i = Some m" for i m
    using map_of_SomeD [OF that] by (auto simp: bare)
  have bare_get: "get m ''childrenIds'' = JNull" if "map_of bare i = Some m" for i m
    using found [OF that] by (auto simp: get_row_message row_field_def)
  note linked = with_children_linked [OF _ dist bare_get, folded ms]
  have parents: "parent_at ms c = parent_at bare c" for c
  proof (cases "map_of bare c")
    case None
    then have "map_of ms c = None" by (simp add: map_of_eq_None_iff ms flip: set_map)
    then show ?thesis using None by (simp add: parent_at_def)
  next
    case (Some n)
    from linked [OF this this] show ?thesis by (auto simp: parent_at_def Some linked_parent)
  qed
  show ?thesis
  proof (intro conjI allI impI)
    show "map fst ms = map (message_id_of chat) (chat_rows chat rows)" by (simp add: ms keys)
  next
    fix i m assume m: "map_of ms i = Some m"
    then have "map_of bare i \<noteq> None" using known_iff [of ms i] known_iff [of bare i] by (simp add: ms)
    then obtain n where n: "map_of bare i = Some n" by blast
    from linked [OF n n] m have l: "linked (new_children bare i) n m" by simp
    from found [OF n] obtain r where r: "r \<in> set (chat_rows chat rows)" "i = message_id_of chat r" "n = row_message i r" by blast
    then show "\<exists>r \<in> set (chat_rows chat rows). mr_id r = composite_id chat i \<and>
        (\<forall>k. k \<noteq> ''childrenIds'' \<longrightarrow> get m k = (if k = ''id'' then JStr i else row_field r k))"
      using keyed_row_id [OF assms(1) r(1)] linked_get [OF l] get_row_message by auto
    show "children_of m = (if i = [] then [] else filter (\<lambda>c. parent_at ms c = Some i) (map fst ms))"
      using l unfolding linked_def new_children_def replies_parent_at [OF dist] parents by (simp add: ms)
  qed
qed


section \<open>The two copies agree\<close>

text \<open>Writing the message again would leave its row as it is, but for the time.\<close>

definition mirrors :: "dict \<Rightarrow> message_row \<Rightarrow> bool" where
  "mirrors m r \<longleftrightarrow> apply_message_data (mr_updated_at r) m r = Inr r"

text \<open>The message as the chat's JSON holds it.\<close>

definition json_message :: "string \<Rightarrow> string \<Rightarrow> chat_db \<Rightarrow> dict option" where
  "json_message chat i db =
     (case find_row chat (cd_chats db) of None \<Rightarrow> None | Some c \<Rightarrow> map_of (hi_messages (cr_history c)) i)"

definition row_of :: "string \<Rightarrow> string \<Rightarrow> chat_db \<Rightarrow> message_row option" where
  "row_of chat i db = find_message_row (composite_id chat i) (cd_rows db)"

definition copies_agree :: "string \<Rightarrow> chat_db \<Rightarrow> bool" where
  "copies_agree chat db \<longleftrightarrow> keyed_rows chat (cd_rows db) \<and> list_all storable (chat_rows chat (cd_rows db)) \<and>
     (case find_row chat (cd_chats db) of None \<Rightarrow> True
      | Some c \<Rightarrow> list_all (\<lambda>i. case map_of (hi_messages (cr_history c)) i of None \<Rightarrow> True
          | Some m \<Rightarrow> (case row_of chat i db of None \<Rightarrow> False | Some r \<Rightarrow> mirrors m r))
          (map fst (hi_messages (cr_history c))))"

text \<open>The values of a message a row can hold.\<close>

definition fits :: "dict \<Rightarrow> bool" where
  "fits d \<longleftrightarrow> (case get_usage d of Inl e \<Rightarrow> False | Inr u \<Rightarrow> True) \<and> is_str (get_or d ''role'' (JStr ''user'')) \<and>
     text_or_null (py_or (get d ''parent_id'') (get d ''parentId'')) \<and>
     text_or_null (py_or (get d ''model_id'') (get d ''model'')) \<and>
     text_or_null (py_or (get d ''context_summary'') (get d ''contextSummary'')) \<and>
     get_or d ''done'' (JBool True) \<in> {JNull, JBool True, JBool False} \<and>
     (get d ''timestamp'' = JNull \<or> as_number (get d ''timestamp'') \<noteq> None)"

lemma mirrors_now: "mirrors m r \<Longrightarrow> apply_message_data now m r = Inr (r\<lparr>mr_updated_at := now\<rparr>)"
  by (cases "get_usage m"; cases r) (auto simp: mirrors_def apply_message_data_def Let_def)

lemma get_or_again [simp]: "get_or d k (get_or d k v) = get_or d k v"
  by (simp add: get_or_def split: option.split)

lemma either_key_again [simp]:
  "either_key d k k' (either_key d k k' v) = either_key d k k' v"
  "either_key d k k' (py_or (get d k) (get d k')) = py_or (get d k) (get d k')"
  by (simp_all add: either_key_def)

lemma apply_twice: "apply_message_data now d r = Inr q \<Longrightarrow> mirrors d q"
  by (cases "get_usage d") (auto simp: mirrors_def apply_message_data_def Let_def)

lemma build_mirrors: "build_message cid chat user d now = Inr q \<Longrightarrow> mirrors d q"
  by (cases "get_usage d") (auto simp: mirrors_def apply_message_data_def build_message_def Let_def)

lemma either_key_text:
  "text_or_null (py_or (get d k) (get d k')) \<Longrightarrow> text_or_null v \<Longrightarrow> text_or_null (either_key d k k' v)"
  by (simp add: either_key_def)

lemma get_or_either: "P (get_or d k v) \<Longrightarrow> P w \<Longrightarrow> P (get_or d k w)"
  by (simp add: get_or_def split: option.splits)

lemma get_or_number:
  "get d k = JNull \<or> as_number (get d k) \<noteq> None \<Longrightarrow> as_number w \<noteq> None \<Longrightarrow>
     get_or d k w = JNull \<or> as_number (get_or d k w) \<noteq> None"
  by (simp add: get_or_def split: option.splits)

lemma fits_storable:
  assumes fits: "fits d" and old: "storable r" and q: "apply_message_data now d r = Inr q"
  shows "storable q"
proof -
  have q: "mr_role q = get_or d ''role'' (mr_role r)" "mr_parent q = either_key d ''parent_id'' ''parentId'' (mr_parent r)"
    "mr_model q = either_key d ''model_id'' ''model'' (mr_model r)" "mr_done q = get_or d ''done'' (mr_done r)"
    "mr_context_summary q = either_key d ''context_summary'' ''contextSummary'' (mr_context_summary r)"
    "mr_created_at q = mr_created_at r"
    using q by (cases "get_usage d"; simp add: apply_message_data_def Let_def; fastforce)+
  have "is_str (get_or d ''role'' (mr_role r))"
    by (rule get_or_either [of is_str d _ "JStr ''user''"]) (use fits old in \<open>simp_all add: fits_def storable_def\<close>)
  moreover have "get_or d ''done'' (mr_done r) \<in> {JNull, JBool True, JBool False}"
    by (rule get_or_either [of "\<lambda>v. v \<in> {JNull, JBool True, JBool False}" d _ "JBool True"])
      (use fits old in \<open>simp_all add: fits_def storable_def\<close>)
  ultimately show ?thesis
    using fits old unfolding storable_def fits_def q by (intro conjI either_key_text) simp_all
qed

lemma build_storable:
  assumes fits: "fits d" and q: "build_message cid chat user d now = Inr q"
  shows "storable q"
proof -
  have q: "mr_role q = get_or d ''role'' (JStr ''user'')" "mr_parent q = py_or (get d ''parent_id'') (get d ''parentId'')"
    "mr_model q = py_or (get d ''model_id'') (get d ''model'')" "mr_done q = get_or d ''done'' (JBool True)"
    "mr_context_summary q = py_or (get d ''context_summary'') (get d ''contextSummary'')"
    "mr_created_at q = get_or d ''timestamp'' (JInt now)"
    using q by (cases "get_usage d"; simp add: build_message_def; fastforce)+
  show ?thesis
    using fits get_or_number [of d "''timestamp''" "JInt now"] unfolding storable_def fits_def q by simp
qed

lemma apply_key: "apply_message_data now d r = Inr q \<Longrightarrow> mr_id q = mr_id r \<and> mr_chat q = mr_chat r"
  by (cases "get_usage d") (auto simp: apply_message_data_def Let_def)

lemma build_key: "build_message cid chat user d now = Inr q \<Longrightarrow> mr_id q = cid \<and> mr_chat q = chat"
  by (cases "get_usage d") (auto simp: build_message_def)

lemma find_row_mem: "find_message_row cid rows = Some r \<Longrightarrow> r \<in> set rows \<and> mr_id r = cid"
  unfolding find_message_row_def by (drule find_Some_mem) simp

lemma prefix_composite [simp]: "prefix (composite_id chat []) (composite_id chat i)"
  by (simp add: composite_id_def)

lemma written_row_fits:
  assumes "keyed_rows chat rows" and "list_all storable (chat_rows chat rows)" and "fits d"
  shows "\<exists>r. written_row now chat user rows i d = Inr r \<and> mirrors d r \<and> storable r \<and>
    mr_id r = composite_id chat i \<and> mr_chat r = chat"
proof -
  obtain u where u: "get_usage d = Inr u" using assms(3) by (auto simp: fits_def split: sum.splits)
  show ?thesis
  proof (cases "find_message_row (composite_id chat i) rows")
    case None
    obtain q where q: "build_message (composite_id chat i) chat user d now = Inr q" by (simp add: build_message_def u)
    show ?thesis
      using None q build_mirrors [OF q] build_storable [OF assms(3) q] build_key [OF q] by (simp add: written_row_def)
  next
    case (Some r)
    obtain q where q: "apply_message_data now d r = Inr q" by (simp add: apply_message_data_def Let_def u)
    have r: "r \<in> set rows" "mr_id r = composite_id chat i" using find_row_mem [OF Some] by auto
    then have chat: "mr_chat r = chat" using assms(1) by (auto simp: keyed_rows_def)
    then have "storable r" using assms(2) r(1) by (simp add: list_all_iff chat_rows_def)
    then show ?thesis
      using Some q apply_twice [OF q] fits_storable [OF assms(3) _ q] apply_key [OF q] r chat by (simp add: written_row_def)
  qed
qed

lemma find_put:
  "find_message_row cid (put_message_row r rows) = (if cid = mr_id r then Some r else find_message_row cid rows)"
proof -
  have snoc: "find P (rows @ [r]) = (case find P rows of None \<Rightarrow> (if P r then Some r else None) | Some q \<Rightarrow> Some q)" for P
    by (induction rows) auto
  have replace: "find (\<lambda>q. mr_id q = cid) (map (\<lambda>q. if mr_id q = mr_id r then r else q) rows)
      = (if cid = mr_id r then (if find (\<lambda>q. mr_id q = cid) rows = None then None else Some r) else find (\<lambda>q. mr_id q = cid) rows)" for cid
    by (induction rows) auto
  show ?thesis
    by (auto simp: find_message_row_def put_message_row_def snoc replace split: option.split)
qed

lemma set_put: "set (put_message_row r rows) \<subseteq> insert r (set rows)"
  by (auto simp: put_message_row_def)

lemma keyed_put:
  assumes "keyed_rows chat rows" and "mr_id r = composite_id chat i" and "mr_chat r = chat"
  shows "keyed_rows chat (put_message_row r rows)"
proof -
  have "distinct (map mr_id (put_message_row r rows))"
  proof (cases "find_message_row (mr_id r) rows")
    case None
    then show ?thesis
      using assms(1) by (auto simp: put_message_row_def keyed_rows_def find_message_row_def find_None_mem)
  next
    case (Some q)
    have "map mr_id (map (\<lambda>q. if mr_id q = mr_id r then r else q) rows) = map mr_id rows" by simp
    then show ?thesis using Some assms(1) by (simp only: put_message_row_def keyed_rows_def option.distinct if_False)
  qed
  then show ?thesis using assms set_put [of r rows] unfolding keyed_rows_def by (auto simp del: set_map)
qed

lemma storable_put:
  "list_all storable (chat_rows chat rows) \<Longrightarrow> storable r \<Longrightarrow> list_all storable (chat_rows chat (put_message_row r rows))"
  using set_put [of r rows] by (auto simp: list_all_iff chat_rows_def)

lemma mirrors_linked:
  assumes "linked cs m m'" and "mirrors m r"
  shows "mirrors m' r"
proof -
  have k: "has_key m' k \<longleftrightarrow> has_key m k" if "k \<noteq> ''childrenIds''" for k
    using assms(1) that by (simp add: linked_def has_key_def)
  have "apply_message_data now m' r = apply_message_data now m r" for now
    using linked_get [OF assms(1)] k
    by (simp add: apply_message_data_def either_key_def get_usage_def stated_usage_def)
  then show ?thesis using assms(2) by (simp add: mirrors_def)
qed

lemma add_child_keeps:
  assumes "map_of ms k = Some m"
  shows "\<exists>cs m'. map_of (fst (add_child_id_to_parent ms p i)) k = Some m' \<and> linked cs m m'"
  using assms
  by (fastforce simp: add_child_id_to_parent_def map_of_update_at split: option.splits intro: linked_refl linked_set_children)

lemma add_all_keeps:
  "map_of ms k = Some m \<Longrightarrow> \<exists>cs m'. map_of (fst (add_all_children ms rest)) k = Some m' \<and> linked cs m m'"
proof (induction ms rest arbitrary: m rule: add_all_children.induct)
  case (2 ms i n rest)
  obtain ms1 c1 where step: "add_child_id_to_parent ms (parent_of n) i = (ms1, c1)" by fastforce
  from add_child_keeps [OF "2.prems", of "parent_of n" i] obtain cs m1
    where m1: "map_of ms1 k = Some m1" "linked cs m m1" by (auto simp: step)
  from "2.IH" [OF step [symmetric] m1(1)] obtain ds m2
    where "map_of (fst (add_all_children ms1 rest)) k = Some m2" "linked ds m1 m2" by blast
  then show ?case using linked_trans [OF m1(2)] by (cases "add_all_children ms1 rest") (auto simp: step)
qed (use linked_refl in auto)

lemma repair_messages: "hi_messages (fst (repair_chat_current_id h)) = fst (add_all_children (hi_messages h) (hi_messages h))"
  by (auto simp: repair_chat_current_id_def Let_def split: prod.split option.split)

lemma repair_row_messages:
  "hi_messages (cr_history (repair_row c)) = fst (add_all_children (hi_messages (cr_history c)) (hi_messages (cr_history c)))"
  by (simp add: repair_row_def repair_messages)

lemma saved_messages:
  assumes "ms = hi_messages (cr_history c)" and "ms' = hi_messages (cr_history (save_to_chat now touch i p c))"
    and "sanitize_row c = c"
  shows "set (map fst ms') = insert i (set (map fst ms))"
    and "k \<noteq> i \<Longrightarrow> map_of ms k = Some m \<Longrightarrow> \<exists>cs m'. map_of ms' k = Some m' \<and> linked cs m m'"
    and "map_of ms i = Some m \<Longrightarrow> \<exists>cs ds m1 m'. linked cs m m1 \<and> map_of ms' i = Some m' \<and> linked ds (dict_update m1 p) m'"
proof -
  define ms1 where "ms1 = fst (add_all_children ms ms)"
  define saved where
    "saved = (case map_of ms1 i of Some m \<Rightarrow> dict_update m p | None \<Rightarrow> new_message now ms1 i p)"
  have repair: "hi_messages (cr_history (repair_row c)) = ms1" by (simp add: repair_row_messages ms1_def assms(1))
  have ms': "ms' = fst (add_child_id_to_parent (AList.update i saved ms1) (parent_of saved) i)"
    unfolding assms(2,3) save_to_chat_def upsert_message_to_history_def Let_def saved_def
    by (simp add: repair cong: option.case_cong)
  have "set (map fst ms') = set (map fst (AList.update i saved ms1))" by (simp only: ms' keys_add_child)
  also have "\<dots> = insert i (set (map fst ms1))" by simp
  finally show "set (map fst ms') = insert i (set (map fst ms))" by (simp only: ms1_def keys_add_all)
  show "\<exists>cs m'. map_of ms' k = Some m' \<and> linked cs m m'" if k: "k \<noteq> i" "map_of ms k = Some m" for k m
  proof -
    from add_all_keeps [OF k(2)] obtain cs m1 where m1: "map_of ms1 k = Some m1" "linked cs m m1" unfolding ms1_def by blast
    then have "map_of (AList.update i saved ms1) k = Some m1" using k(1) by simp
    from add_child_keeps [OF this, of "parent_of saved" i] show ?thesis using linked_trans [OF m1(2)] unfolding ms' by blast
  qed
  show "\<exists>cs ds m1 m'. linked cs m m1 \<and> map_of ms' i = Some m' \<and> linked ds (dict_update m1 p) m'" if i: "map_of ms i = Some m"
  proof -
    from add_all_keeps [OF i] obtain cs m1 where m1: "map_of ms1 i = Some m1" "linked cs m m1" unfolding ms1_def by blast
    then have "saved = dict_update m1 p" by (simp add: saved_def)
    moreover from add_child_keeps [of "AList.update i saved ms1" i saved "parent_of saved" i]
    obtain ds m' where "map_of ms' i = Some m'" "linked ds saved m'" unfolding ms' by auto
    ultimately show ?thesis using m1(2) by blast
  qed
qed

lemma find_updated_row:
  assumes "find_row chat db = Some c" and "cr_id c' = chat"
  shows "find_row chat (update_row chat (\<lambda>_. c') db) = Some c'"
  using assms by (induction db) (auto simp: find_row_def update_row_def split: if_splits)

lemma save_id [simp]: "cr_id (save_to_chat now touch i m c) = cr_id c"
  by (simp add: save_to_chat_def repair_row_def sanitize_row_def Let_def)

lemma find_row_id: "find_row chat db = Some c \<Longrightarrow> cr_id c = chat"
  unfolding find_row_def by (drule find_Some_mem) simp

lemma copies_agree_iff:
  "copies_agree chat db \<longleftrightarrow> keyed_rows chat (cd_rows db) \<and> list_all storable (chat_rows chat (cd_rows db)) \<and>
     (\<forall>i m. json_message chat i db = Some m \<longrightarrow> (\<exists>r. row_of chat i db = Some r \<and> mirrors m r))"
proof (cases "find_row chat (cd_chats db)")
  case (Some c)
  have "list_all (\<lambda>i. case map_of (hi_messages (cr_history c)) i of None \<Rightarrow> True
        | Some m \<Rightarrow> (case row_of chat i db of None \<Rightarrow> False | Some r \<Rightarrow> mirrors m r)) (map fst (hi_messages (cr_history c)))
      \<longleftrightarrow> (\<forall>i m. map_of (hi_messages (cr_history c)) i = Some m \<longrightarrow> (\<exists>r. row_of chat i db = Some r \<and> mirrors m r))"
    (is "?all \<longleftrightarrow> ?each")
  proof
    assume ?all
    show ?each
    proof (intro allI impI)
      fix i m assume m: "map_of (hi_messages (cr_history c)) i = Some m"
      then have "i \<in> set (map fst (hi_messages (cr_history c)))" using known_iff [of "hi_messages (cr_history c)" i] by simp
      with \<open>?all\<close> m show "\<exists>r. row_of chat i db = Some r \<and> mirrors m r"
        unfolding list_all_iff by (fastforce split: option.splits)
    qed
  next
    assume ?each
    then show ?all by (force simp: list_all_iff split: option.splits)
  qed
  then show ?thesis by (simp add: copies_agree_def json_message_def Some)
qed (simp add: copies_agree_def json_message_def)

text \<open>
  Saving a message keeps the two copies of a chat in agreement whenever its row can hold the
  saved message: every message of the chat's JSON, whichever was saved, has a row that writing it
  again would not change.
\<close>

theorem saving_keeps_copies:
  assumes "copies_agree chat db" and "db' = upsert_message_to_chat repr now touch chat i p db"
    and "i1 = filter (\<lambda>c. c \<noteq> CHR 0x00) i"
    and "case json_message chat i1 db' of None \<Rightarrow> True | Some m \<Rightarrow> fits m" and "clean_stored chat db"
  shows "copies_agree chat db'"
proof (cases "find_row chat (cd_chats db)")
  case None
  then show ?thesis using assms(1) by (simp add: assms(2) upsert_message_to_chat_def Let_def)
next
  case (Some c)
  define p1 where "p1 = as_dict (strip_null_bytes (JObj (with_output_content repr p)))"
  define c1 where "c1 = save_to_chat now touch i1 p1 c"
  define saved where "saved = (case map_of (hi_messages (cr_history c1)) i1 of Some s \<Rightarrow> s | None \<Rightarrow> [])"
  have "sanitize_row c = c" using assms(5) by (simp add: clean_stored_def Some)
  note keep = saved_messages [OF refl refl this, where now = now and touch = touch and i = i1 and p = p1, folded c1_def]
  have keyed: "keyed_rows chat (cd_rows db)" and ok: "list_all storable (chat_rows chat (cd_rows db))"
    using assms(1) by (auto simp: copies_agree_iff)
  have found: "find_row chat (update_row chat (\<lambda>_. c1) (cd_chats db)) = Some c1"
    using find_updated_row [OF Some] find_row_id [OF Some] by (simp add: c1_def)
  have chats: "cd_chats db' = update_row chat (\<lambda>_. c1) (cd_chats db)"
    by (simp add: assms(2,3) upsert_message_to_chat_def Some Let_def c1_def p1_def)
  have json: "json_message chat k db' = map_of (hi_messages (cr_history c1)) k" for k
    by (simp add: json_message_def chats found)
  have "i1 \<in> set (map fst (hi_messages (cr_history c1)))" using keep(1) by simp
  then have saved: "map_of (hi_messages (cr_history c1)) i1 = Some saved"
    using known_iff [of "hi_messages (cr_history c1)" i1] by (auto simp: saved_def)
  then have "fits saved" using assms(4) by (simp add: json)
  from written_row_fits [OF keyed ok this, of now "cr_user c1" i1] obtain r
    where r: "written_row now chat (cr_user c1) (cd_rows db) i1 saved = Inr r" "mirrors saved r" "storable r"
      "mr_id r = composite_id chat i1" "mr_chat r = chat" by blast
  have rows: "cd_rows db' = put_message_row r (cd_rows db)"
    using r(1) by (simp add: assms(2,3) upsert_message_to_chat_def Some Let_def upsert_message_def saved_def c1_def p1_def)
  have "\<exists>q. row_of chat k db' = Some q \<and> mirrors m q" if m: "json_message chat k db' = Some m" for k m
  proof (cases "k = i1")
    case True
    then show ?thesis using m saved r(2,4) by (simp add: json row_of_def rows find_put)
  next
    case False
    have "k \<in> set (map fst (hi_messages (cr_history c)))"
      using m known_iff [of "hi_messages (cr_history c1)" k] keep(1) False by (auto simp: json)
    then obtain n where n: "map_of (hi_messages (cr_history c)) k = Some n"
      using known_iff [of "hi_messages (cr_history c)" k] by blast
    from keep(2) [OF False n] m obtain cs where l: "linked cs n m" by (auto simp: json)
    from assms(1) n obtain q where "row_of chat k db = Some q" "mirrors n q"
      by (auto simp: copies_agree_iff json_message_def Some)
    then show ?thesis
      using mirrors_linked [OF l] False r(4) by (auto simp: row_of_def rows find_put)
  qed
  then show ?thesis
    unfolding copies_agree_iff rows using keyed_put [OF keyed r(4,5)] storable_put [OF ok r(3)] by blast
qed

end
