(* ===== verification/ProviderResponse.thy ===== *)
theory ProviderResponse
  imports ProviderPayload MessageRows
begin

text \<open>
  Reading what a model server answers (\<open>utils/response.py\<close>, and the message templates of
  \<open>utils/misc.py\<close>): usage counts and their accumulation over several calls, and the conversion of
  Ollama's replies, streams and embeddings to OpenAI's format. JSON's \<open>dumps\<close>, drawn ids, clock
  readings and the rate \<open>round(count / (duration / 10000000) * 100, 2)\<close> are arguments; numbers with
  a fraction do not occur as token counts.
\<close>

section \<open>Adding up usage\<close>

definition USAGE_TOKEN_KEYS :: "string list" where
  "USAGE_TOKEN_KEYS = [''input_tokens'', ''output_tokens'', ''total_tokens'']"

definition USAGE_COST_KEYS :: "string list" where
  "USAGE_COST_KEYS = [''cost'', ''total_cost'', ''input_cost'', ''output_cost'', ''prompt_cost'', ''completion_cost'']"

definition USAGE_DETAIL_KEYS :: "string list" where
  "USAGE_DETAIL_KEYS = [''prompt_tokens_details'', ''completion_tokens_details'', ''input_tokens_details'',
     ''output_tokens_details'']"

fun usage_number :: "json \<Rightarrow> int option" where
  "usage_number (JInt n) = Some n"
| "usage_number _ = None"

definition number_or_0 :: "json \<Rightarrow> int" where
  "number_or_0 v = (case usage_number v of None \<Rightarrow> 0 | Some n \<Rightarrow> n)"

text \<open>The sum when one of the two is a number, else the value that stands.\<close>

definition summed :: "json \<Rightarrow> json \<Rightarrow> json \<Rightarrow> json" where
  "summed cv iv v = (if usage_number cv \<noteq> None \<or> usage_number iv \<noteq> None then JInt (number_or_0 cv + number_or_0 iv) else v)"

lemma size_as_dict: "size (JObj (as_dict (get_or d k (JInt 0)))) \<le> size (JObj d)"
  by (cases "map_of d k"; cases "the (map_of d k)") (auto simp: get_or_def dest: size_map_of)

lemma size_as_dict_less: "is_dict (get_or d k (JInt 0)) \<Longrightarrow> size (JObj (as_dict (get_or d k (JInt 0)))) < size (JObj d)"
  by (cases "map_of d k"; cases "the (map_of d k)") (auto simp: get_or_def dest: size_map_of)

function merge_numeric_usage_map :: "dict \<Rightarrow> dict \<Rightarrow> dict" where
  "merge_numeric_usage_map current incoming =
     map (\<lambda>(k, v). (k,
         if is_dict (get_or current k (JInt 0)) \<or> is_dict (get_or incoming k (JInt 0))
         then JObj (merge_numeric_usage_map (as_dict (get_or current k (JInt 0))) (as_dict (get_or incoming k (JInt 0))))
         else summed (get_or current k (JInt 0)) (get_or incoming k (JInt 0)) v))
       (dict_update current incoming)"
  by pat_completeness auto
termination
proof (relation "measure (\<lambda>(c, i). size (JObj c) + size (JObj i))", goal_cases)
  case (2 current incoming x k v)
  then show ?case
    using size_as_dict [of current k] size_as_dict [of incoming k]
      size_as_dict_less [of current k] size_as_dict_less [of incoming k] by auto
qed simp

declare merge_numeric_usage_map.simps [simp del]

definition usage_or_empty :: "json \<Rightarrow> py_error + dict" where
  "usage_or_empty u = (if truthy u then normalize_usage u else Inr [])"

definition sum_key :: "dict \<Rightarrow> dict \<Rightarrow> dict \<Rightarrow> string \<Rightarrow> dict" where
  "sum_key cu iu r k =
     (if has_key cu k \<or> has_key iu k
      then dict_set k (summed (get_or cu k (JInt 0)) (get_or iu k (JInt 0)) (get r k)) r else r)"

definition merge_detail :: "dict \<Rightarrow> dict \<Rightarrow> dict \<Rightarrow> string \<Rightarrow> dict" where
  "merge_detail cu iu r k =
     (if is_dict (get cu k) \<or> is_dict (get iu k)
      then dict_set k (JObj (merge_numeric_usage_map (as_dict (get cu k)) (as_dict (get iu k)))) r else r)"

definition merge_normalized :: "dict \<Rightarrow> dict \<Rightarrow> dict" where
  "merge_normalized cu iu =
     (let r1 = foldl (sum_key cu iu) (dict_update cu iu) (USAGE_TOKEN_KEYS @ USAGE_COST_KEYS);
          r2 = foldl (merge_detail cu iu) r1 USAGE_DETAIL_KEYS;
          r3 = dict_set ''prompt_tokens''
                 (py_or (py_or (get iu ''prompt_tokens'') (get iu ''input_tokens'')) (get_or cu ''prompt_tokens'' (JInt 0))) r2
      in dict_set ''completion_tokens''
           (py_or (py_or (get iu ''completion_tokens'') (get iu ''output_tokens'')) (get_or cu ''completion_tokens'' (JInt 0))) r3)"

definition merge_usage :: "json \<Rightarrow> json \<Rightarrow> py_error + dict" where
  "merge_usage current incoming =
     and_then (usage_or_empty current) (\<lambda>cu. and_then (usage_or_empty incoming) (\<lambda>iu.
       Inr (if iu = [] then cu else if cu = [] then iu else merge_normalized cu iu)))"

section \<open>Templates\<close>

definition openai_chat_message_template :: "int \<Rightarrow> json \<Rightarrow> string \<Rightarrow> dict \<Rightarrow> dict" where
  "openai_chat_message_template now model i choice =
     [(''id'', JStr i), (''created'', JInt now), (''model'', model), (''choices'', JArr [JObj choice])]"

text \<open>The choice of a chunk: \<open>finish_reason\<close> is stop when there is nothing in it.\<close>

definition when_truthy :: "string \<Rightarrow> json \<Rightarrow> dict" where
  "when_truthy k v = (if truthy v then [(k, v)] else [])"

definition chunk_choice :: "json \<Rightarrow> json \<Rightarrow> json \<Rightarrow> dict" where
  "chunk_choice content reasoning calls =
     [(''index'', JInt 0), (''logprobs'', JNull),
      (''finish_reason'', if truthy content \<or> truthy reasoning \<or> truthy calls then JNull else JStr ''stop''),
      (''delta'', JObj (when_truthy ''content'' content @ when_truthy ''reasoning_content'' reasoning @ when_truthy ''tool_calls'' calls))]"

definition openai_chat_chunk_message_template :: "int \<Rightarrow> json \<Rightarrow> string \<Rightarrow> json \<Rightarrow> json \<Rightarrow> json \<Rightarrow> dict \<Rightarrow> dict" where
  "openai_chat_chunk_message_template now model i content reasoning calls usage =
     dict_set ''object'' (JStr ''chat.completion.chunk'')
       (openai_chat_message_template now model i (chunk_choice content reasoning calls))
     @ (if usage = [] then [] else [(''usage'', JObj usage)])"

definition completion_choice :: "json \<Rightarrow> json \<Rightarrow> json \<Rightarrow> dict" where
  "completion_choice message reasoning calls =
     [(''index'', JInt 0), (''logprobs'', JNull), (''finish_reason'', JStr (if truthy calls then ''tool_calls'' else ''stop''))]
     @ (if message = JNull then []
        else [(''message'', JObj ([(''role'', JStr ''assistant''), (''content'', message)]
                @ when_truthy ''reasoning_content'' reasoning @ when_truthy ''tool_calls'' calls))])"

definition openai_chat_completion_message_template :: "int \<Rightarrow> json \<Rightarrow> string \<Rightarrow> json \<Rightarrow> json \<Rightarrow> json \<Rightarrow> dict \<Rightarrow> dict" where
  "openai_chat_completion_message_template now model i message reasoning calls usage =
     dict_set ''object'' (JStr ''chat.completion'')
       (openai_chat_message_template now model i (completion_choice message reasoning calls))
     @ (if usage = [] then [] else [(''usage'', JObj usage)])"

section \<open>Ollama's replies\<close>

definition tool_call_to_openai :: "(json \<Rightarrow> string) \<Rightarrow> string \<Rightarrow> json \<Rightarrow> py_error + json" where
  "tool_call_to_openai dumps new_id tc =
     and_then (get_attr tc ''function'' (JObj [])) (\<lambda>f.
     and_then (get_attr f ''index'' (JInt 0)) (\<lambda>fi.
       Inr (JObj [(''index'', get_or (as_dict tc) ''index'' fi),
                  (''id'', get_or (as_dict tc) ''id'' (JStr (''call_'' @ new_id))),
                  (''type'', JStr ''function''),
                  (''function'', JObj [(''name'', get_or (as_dict f) ''name'' (JStr [])),
                                       (''arguments'', JStr (dumps (get_or (as_dict f) ''arguments'' (JObj []))))])])))"

definition convert_ollama_tool_call_to_openai :: "(json \<Rightarrow> string) \<Rightarrow> (nat \<Rightarrow> string) \<Rightarrow> json list \<Rightarrow> py_error + json list" where
  "convert_ollama_tool_call_to_openai dumps ids tcs =
     traverse (\<lambda>(n, tc). tool_call_to_openai dumps (ids n) tc) (enumerate 0 tcs)"

definition at_least :: "(int \<Rightarrow> bool) \<Rightarrow> json \<Rightarrow> py_error + bool" where
  "at_least p v = (case as_number v of None \<Rightarrow> Inl TypeError | Some n \<Rightarrow> Inr (p n))"

definition show_int :: "int \<Rightarrow> string" where
  "show_int n = (if n < 0 then CHR ''-'' # show_nat (nat (- n)) else show_nat (nat n))"

definition approximate_total :: "json \<Rightarrow> py_error + json" where
  "approximate_total v =
     (case as_number (py_or v (JInt 0)) of None \<Rightarrow> Inl TypeError
      | Some n \<Rightarrow> (let s = n div 1000000000
                  in Inr (JStr (show_int (s div 3600) @ ''h'' @ show_int ((s mod 3600) div 60) @ ''m'' @ show_int (s mod 60) @ ''s''))))"

definition token_rate :: "(json \<Rightarrow> json \<Rightarrow> py_error + json) \<Rightarrow> json \<Rightarrow> json \<Rightarrow> py_error + json" where
  "token_rate rate count duration =
     and_then (at_least (\<lambda>n. 0 < n) duration) (\<lambda>b. if b then rate count duration else Inr (JStr ''N/A''))"

definition convert_ollama_usage_to_openai :: "(json \<Rightarrow> json \<Rightarrow> py_error + json) \<Rightarrow> dict \<Rightarrow> py_error + dict" where
  "convert_ollama_usage_to_openai rate d =
     (let z = (\<lambda>k. get_or d k (JInt 0)) in
      and_then (to_int (z ''prompt_eval_count'')) (\<lambda>i. and_then (to_int (z ''eval_count'')) (\<lambda>ou.
      and_then (token_rate rate (z ''eval_count'') (z ''eval_duration'')) (\<lambda>r1.
      and_then (token_rate rate (z ''prompt_eval_count'') (z ''prompt_eval_duration'')) (\<lambda>r2.
      and_then (approximate_total (z ''total_duration'')) (\<lambda>total.
        Inr [(''input_tokens'', JInt i), (''output_tokens'', JInt ou), (''total_tokens'', JInt (i + ou)),
             (''prompt_tokens'', JInt i), (''completion_tokens'', JInt ou),
             (''response_token/s'', r1), (''prompt_token/s'', r2),
             (''total_duration'', z ''total_duration''), (''load_duration'', z ''load_duration''),
             (''prompt_eval_count'', z ''prompt_eval_count''), (''prompt_eval_duration'', z ''prompt_eval_duration''),
             (''eval_count'', z ''eval_count''), (''eval_duration'', z ''eval_duration''),
             (''approximate_total'', total),
             (''completion_tokens_details'', JObj [(''reasoning_tokens'', JInt 0),
                (''accepted_prediction_tokens'', JInt 0), (''rejected_prediction_tokens'', JInt 0)])]))))))"

record reply_env =
  re_dumps :: "json \<Rightarrow> string"
  re_rate :: "json \<Rightarrow> json \<Rightarrow> py_error + json"
  re_now :: "nat \<Rightarrow> int"
  re_call_id :: "nat \<Rightarrow> nat \<Rightarrow> string"

text \<open>The converted tool calls of a reply, None without any; \<open>n\<close> numbers the chunks of a stream.\<close>

definition reply_calls :: "reply_env \<Rightarrow> nat \<Rightarrow> json \<Rightarrow> py_error + json" where
  "reply_calls ev n calls =
     (if \<not> truthy calls then Inr JNull
      else and_then (py_iter calls) (\<lambda>tcs.
           and_then (convert_ollama_tool_call_to_openai (re_dumps ev) (re_call_id ev n) tcs) (\<lambda>os. Inr (JArr os))))"

text \<open>\<open>f'{model}-{uuid}'\<close> is drawn by the template.\<close>

definition convert_response_ollama_to_openai :: "reply_env \<Rightarrow> string \<Rightarrow> dict \<Rightarrow> py_error + dict" where
  "convert_response_ollama_to_openai ev i d =
     and_then (get_attr (get_or d ''message'' (JObj [])) ''content'' (JStr [])) (\<lambda>content.
       let m = as_dict (get_or d ''message'' (JObj [])) in
       and_then (reply_calls ev 0 (get m ''tool_calls'')) (\<lambda>calls.
       and_then (convert_ollama_usage_to_openai (re_rate ev) d) (\<lambda>usage.
         Inr (openai_chat_completion_message_template (re_now ev 0) (get_or d ''model'' (JStr ''ollama'')) i
                content (get m ''thinking'') calls usage))))"

section \<open>Ollama's streams\<close>

text \<open>One chunk of a stream: its number, whether tool calls have been seen, and the chunk converted.\<close>

definition set_choice :: "(dict \<Rightarrow> dict) \<Rightarrow> dict \<Rightarrow> dict" where
  "set_choice f chunk =
     dict_set ''choices'' (JArr (case as_list (get chunk ''choices'') of [] \<Rightarrow> [] | c # cs \<Rightarrow> JObj (f (as_dict c)) # cs)) chunk"

definition with_role :: "dict \<Rightarrow> dict" where
  "with_role choice = dict_set ''delta'' (JObj (dict_set ''role'' (JStr ''assistant'') (as_dict (get choice ''delta'')))) choice"

definition convert_chunk :: "reply_env \<Rightarrow> string \<Rightarrow> nat \<Rightarrow> bool \<Rightarrow> dict \<Rightarrow> py_error + bool \<times> dict" where
  "convert_chunk ev i n seen d =
     (case py_or (get d ''message'') (JObj []) of
        JObj m \<Rightarrow>
          and_then (reply_calls ev n (get m ''tool_calls'')) (\<lambda>calls.
            let seen' = (seen \<or> truthy (get m ''tool_calls''));
                finished = truthy (get_or d ''done'' (JBool False))
            in and_then (if finished then convert_ollama_usage_to_openai (re_rate ev) d else Inr []) (\<lambda>usage.
               let c0 = openai_chat_chunk_message_template (re_now ev n) (get_or d ''model'' (JStr ''ollama'')) i
                          (get m ''content'') (get m ''thinking'') calls usage;
                   c1 = (if n = 0 then set_choice with_role c0 else c0);
                   c2 = (if finished \<and> seen' then set_choice (dict_set ''finish_reason'' (JStr ''tool_calls'')) c1 else c1)
               in Inr (seen', c2)))
      | _ \<Rightarrow> Inl AttributeError)"

fun convert_chunks :: "reply_env \<Rightarrow> string \<Rightarrow> nat \<Rightarrow> bool \<Rightarrow> dict list \<Rightarrow> dict list \<times> py_error option" where
  "convert_chunks ev i n seen [] = ([], None)"
| "convert_chunks ev i n seen (d # ds) =
     (case convert_chunk ev i n seen d of
        Inl e \<Rightarrow> ([], Some e)
      | Inr (seen', c) \<Rightarrow> (case convert_chunks ev i (Suc n) seen' ds of (cs, r) \<Rightarrow> (c # cs, r)))"

text \<open>The lines the generator yields before it ends or raises; the body's items are dicts.\<close>

definition event_line :: "string \<Rightarrow> string" where
  "event_line s = ''data: '' @ s @ [CHR 0x0A, CHR 0x0A]"

definition convert_streaming_response_ollama_to_openai ::
  "reply_env \<Rightarrow> string \<Rightarrow> dict list \<Rightarrow> string list \<times> py_error option" where
  "convert_streaming_response_ollama_to_openai ev uuid ds =
     (case convert_chunks ev (''chatcmpl-'' @ uuid) 0 False ds of
        (cs, r) \<Rightarrow> (map (\<lambda>c. event_line (re_dumps ev (JObj c))) cs @ (if r = None then [event_line ''[DONE]''] else []), r))"

section \<open>Embeddings\<close>

definition embedding_item :: "json \<Rightarrow> json \<Rightarrow> json" where
  "embedding_item e index = JObj [(''object'', JStr ''embedding''), (''embedding'', e), (''index'', index)]"

definition embedding_items :: "json list \<Rightarrow> json list" where
  "embedding_items es =
     concat (map (\<lambda>(n, e). case e of
         JArr xs \<Rightarrow> [embedding_item e (JInt (int n))]
       | JObj d \<Rightarrow> [embedding_item (get d ''embedding'') (get_or d ''index'' (JInt (int n)))]
       | _ \<Rightarrow> []) (enumerate 0 es))"

definition convert_embedding_response_ollama_to_openai :: "json \<Rightarrow> py_error + json" where
  "convert_embedding_response_ollama_to_openai r =
     (let d = as_dict r in
      if has_key d ''embeddings''
      then and_then (py_iter (get d ''embeddings'')) (\<lambda>es.
             Inr (JObj [(''object'', JStr ''list''), (''data'', JArr (embedding_items es)), (''model'', get d ''model'')]))
      else if has_key d ''embedding''
      then Inr (JObj [(''object'', JStr ''list''), (''data'', JArr [embedding_item (get d ''embedding'') (JInt 0)]),
                      (''model'', get d ''model'')])
      else Inr r)"

section \<open>What a converted stream says\<close>

definition choice_of :: "dict \<Rightarrow> dict" where
  "choice_of chunk = as_dict (hd (as_list (get chunk ''choices'')))"

definition delta_of :: "dict \<Rightarrow> dict" where
  "delta_of chunk = as_dict (get (choice_of chunk) ''delta'')"

definition message_of :: "dict \<Rightarrow> dict" where
  "message_of d = as_dict (py_or (get d ''message'') (JObj []))"

definition calls_tools :: "dict \<Rightarrow> bool" where
  "calls_tools d \<longleftrightarrow> truthy (get (message_of d) ''tool_calls'')"

definition is_done :: "dict \<Rightarrow> bool" where
  "is_done d \<longleftrightarrow> truthy (get_or d ''done'' (JBool False))"

definition says_nothing :: "dict \<Rightarrow> bool" where
  "says_nothing d \<longleftrightarrow> \<not> truthy (get (message_of d) ''content'') \<and> \<not> truthy (get (message_of d) ''thinking'') \<and> \<not> calls_tools d"

text \<open>What the chunk number \<open>n\<close> is expected to say, \<open>seen\<close> telling whether tools were called before.\<close>

definition chunk_ok :: "string \<Rightarrow> nat \<Rightarrow> bool \<Rightarrow> dict \<Rightarrow> dict \<Rightarrow> bool" where
  "chunk_ok i n seen d c \<longleftrightarrow>
     get c ''id'' = JStr i
     \<and> get (delta_of c) ''content'' = (if truthy (get (message_of d) ''content'') then get (message_of d) ''content'' else JNull)
     \<and> get (delta_of c) ''reasoning_content'' = (if truthy (get (message_of d) ''thinking'') then get (message_of d) ''thinking'' else JNull)
     \<and> (has_key (delta_of c) ''role'' \<longleftrightarrow> n = 0)
     \<and> get (choice_of c) ''finish_reason'' =
         (if is_done d \<and> (seen \<or> calls_tools d) then JStr ''tool_calls'' else if says_nothing d then JStr ''stop'' else JNull)
     \<and> (has_key c ''usage'' \<longleftrightarrow> is_done d)"

lemma get_set_choice: "k \<noteq> ''choices'' \<Longrightarrow> get (set_choice f chunk) k = get chunk k"
  by (simp add: set_choice_def get_or_dict_set)

lemma has_key_set_choice: "k \<noteq> ''choices'' \<Longrightarrow> has_key (set_choice f chunk) k = has_key chunk k"
  by (simp add: set_choice_def has_key_def)

lemma set_choice_again: "get chunk ''choices'' = JArr [JObj ch] \<Longrightarrow> get (set_choice f chunk) ''choices'' = JArr [JObj (f ch)]"
  by (simp add: set_choice_def get_or_dict_set)

lemma usage_not_empty: "convert_ollama_usage_to_openai rate d = Inr u \<Longrightarrow> u \<noteq> []"
  by (auto simp: convert_ollama_usage_to_openai_def Let_def and_then_Inr)

lemma template_parts:
  "get (openai_chat_chunk_message_template now model i content reasoning calls usage) ''choices'' = JArr [JObj (chunk_choice content reasoning calls)]"
  "get (openai_chat_chunk_message_template now model i content reasoning calls usage) ''id'' = JStr i"
  "has_key (openai_chat_chunk_message_template now model i content reasoning calls usage) ''usage'' \<longleftrightarrow> usage \<noteq> []"
  by (auto simp: openai_chat_chunk_message_template_def openai_chat_message_template_def dict_set_def get_or_def has_key_def)

lemma delta_parts:
  "get (when_truthy ''content'' a @ when_truthy ''reasoning_content'' b @ when_truthy ''tool_calls'' c) ''content'' = (if truthy a then a else JNull)"
  "get (when_truthy ''content'' a @ when_truthy ''reasoning_content'' b @ when_truthy ''tool_calls'' c) ''reasoning_content'' = (if truthy b then b else JNull)"
  "\<not> has_key (when_truthy ''content'' a @ when_truthy ''reasoning_content'' b @ when_truthy ''tool_calls'' c) ''role''"
  by (auto simp: when_truthy_def get_or_def has_key_def)

lemma reply_calls_truthy: "reply_calls ev n v = Inr w \<Longrightarrow> \<not> truthy v \<Longrightarrow> \<not> truthy w"
  by (simp add: reply_calls_def)

lemma traverse_length: "traverse f xs = Inr ys \<Longrightarrow> length ys = length xs"
  using list_all2_lengthD [OF traverse_Inr] by fastforce

lemma reply_calls_kept: "reply_calls ev n v = Inr w \<Longrightarrow> truthy v \<Longrightarrow> truthy w"
  by (cases v) (auto simp: reply_calls_def and_then_Inr convert_ollama_tool_call_to_openai_def dest!: traverse_length)

lemma convert_chunk_Inr:
  assumes "convert_chunk ev i n seen d = Inr (s', c)"
  obtains calls usage where "reply_calls ev n (get (message_of d) ''tool_calls'') = Inr calls"
    and "usage \<noteq> [] \<longleftrightarrow> is_done d" and "s' \<longleftrightarrow> seen \<or> calls_tools d"
    and "c = (let c0 = openai_chat_chunk_message_template (re_now ev n) (get_or d ''model'' (JStr ''ollama'')) i
                     (get (message_of d) ''content'') (get (message_of d) ''thinking'') calls usage;
                  c1 = (if n = 0 then set_choice with_role c0 else c0)
              in if is_done d \<and> s' then set_choice (dict_set ''finish_reason'' (JStr ''tool_calls'')) c1 else c1)"
proof -
  from assms obtain m where m: "py_or (get d ''message'') (JObj []) = JObj m" "message_of d = m"
    by (auto simp: convert_chunk_def message_of_def split: json.splits)
  from assms obtain calls usage where
    r: "reply_calls ev n (get m ''tool_calls'') = Inr calls"
      "(if is_done d then convert_ollama_usage_to_openai (re_rate ev) d else Inr []) = Inr usage"
    and c: "s' \<longleftrightarrow> seen \<or> truthy (get m ''tool_calls'')"
      "c = (let c0 = openai_chat_chunk_message_template (re_now ev n) (get_or d ''model'' (JStr ''ollama'')) i
                     (get m ''content'') (get m ''thinking'') calls usage;
                  c1 = (if n = 0 then set_choice with_role c0 else c0)
              in if is_done d \<and> s' then set_choice (dict_set ''finish_reason'' (JStr ''tool_calls'')) c1 else c1)"
    by (auto simp: convert_chunk_def m(1) and_then_Inr Let_def is_done_def)
  have "usage \<noteq> [] \<longleftrightarrow> is_done d" using r(2) usage_not_empty by (auto split: if_splits)
  then show ?thesis using that [of calls usage] r(1) c by (simp add: m(2) calls_tools_def)
qed

lemma convert_chunk_ok:
  assumes "convert_chunk ev i n seen d = Inr (s', c)"
  shows "chunk_ok i n seen d c" and "s' \<longleftrightarrow> seen \<or> calls_tools d"
proof -
  from convert_chunk_Inr [OF assms] obtain calls usage
    where r: "reply_calls ev n (get (message_of d) ''tool_calls'') = Inr calls" "usage \<noteq> [] \<longleftrightarrow> is_done d"
    and s': "s' \<longleftrightarrow> seen \<or> calls_tools d"
    and c: "c = (let c0 = openai_chat_chunk_message_template (re_now ev n) (get_or d ''model'' (JStr ''ollama'')) i
                     (get (message_of d) ''content'') (get (message_of d) ''thinking'') calls usage;
                  c1 = (if n = 0 then set_choice with_role c0 else c0)
              in if is_done d \<and> s' then set_choice (dict_set ''finish_reason'' (JStr ''tool_calls'')) c1 else c1)" .
  show "s' \<longleftrightarrow> seen \<or> calls_tools d" by (fact s')
  let ?m = "message_of d"
  let ?ch = "chunk_choice (get ?m ''content'') (get ?m ''thinking'') calls"
  let ?ch1 = "if n = 0 then with_role ?ch else ?ch"
  let ?ch2 = "if is_done d \<and> s' then dict_set ''finish_reason'' (JStr ''tool_calls'') ?ch1 else ?ch1"
  let ?c0 = "openai_chat_chunk_message_template (re_now ev n) (get_or d ''model'' (JStr ''ollama'')) i
       (get ?m ''content'') (get ?m ''thinking'') calls usage"
  let ?c1 = "if n = 0 then set_choice with_role ?c0 else ?c0"
  have c2: "c = (if is_done d \<and> s' then set_choice (dict_set ''finish_reason'' (JStr ''tool_calls'')) ?c1 else ?c1)"
    using c by (simp only: Let_def)
  have "get ?c1 ''choices'' = JArr [JObj ?ch1]" by (simp add: template_parts set_choice_again [OF template_parts(1)])
  then have "get c ''choices'' = JArr [JObj ?ch2]" unfolding c2 by (simp add: set_choice_again del: if_split)
  then have choice: "choice_of c = ?ch2" by (simp add: choice_of_def)
  have rest: "get c ''id'' = JStr i" "has_key c ''usage'' \<longleftrightarrow> is_done d"
    unfolding c Let_def by (simp_all add: get_set_choice has_key_set_choice template_parts r(2))
  have tools: "truthy calls \<longleftrightarrow> calls_tools d"
    using reply_calls_truthy [OF r(1)] reply_calls_kept [OF r(1)] by (auto simp: calls_tools_def)
  have ch: "get ?ch ''finish_reason'' = (if says_nothing d then JStr ''stop'' else JNull)"
    "get ?ch ''delta'' = JObj (when_truthy ''content'' (get ?m ''content'') @ when_truthy ''reasoning_content'' (get ?m ''thinking'')
       @ when_truthy ''tool_calls'' calls)"
    by (simp_all add: chunk_choice_def get_or_def says_nothing_def tools)
  have ch1: "get ?ch1 ''finish_reason'' = get ?ch ''finish_reason''"
    "get ?ch1 ''delta'' = (if n = 0 then JObj (dict_set ''role'' (JStr ''assistant'') (as_dict (get ?ch ''delta''))) else get ?ch ''delta'')"
    by (simp_all add: with_role_def get_or_dict_set)
  have delta: "get ?ch2 ''delta'' = get ?ch1 ''delta''" by (simp add: get_or_dict_set)
  have fin: "get ?ch2 ''finish_reason'' = (if is_done d \<and> s' then JStr ''tool_calls'' else get ?ch1 ''finish_reason'')"
    by (simp add: get_or_dict_set)
  have "has_key (dict_set ''role'' v x) ''role''" for v x by (simp add: has_key_def)
  then show "chunk_ok i n seen d c"
    unfolding chunk_ok_def delta_of_def choice delta fin ch1 ch rest
    using s' delta_parts by (simp add: get_or_dict_set split: if_splits)
qed

lemma convert_chunks_ok:
  assumes "convert_chunks ev i n seen ds = (cs, None)"
  shows "length cs = length ds"
    and "k < length ds \<Longrightarrow> chunk_ok i (n + k) (seen \<or> (\<exists>j < k. calls_tools (ds ! j))) (ds ! k) (cs ! k)"
  using assms
proof (induction ds arbitrary: n seen cs k)
  case (Cons d ds)
  {
    case 1
    then show ?case using Cons.IH(1) by (auto split: sum.splits prod.splits)
  next
    case 2
    then obtain s' c cs' where one: "convert_chunk ev i n seen d = Inr (s', c)"
      and rest: "convert_chunks ev i (Suc n) s' ds = (cs', None)" and cs: "cs = c # cs'"
      by (auto split: sum.splits prod.splits)
    show ?case
    proof (cases k)
      case 0
      then show ?thesis using convert_chunk_ok(1) [OF one] by (simp add: cs)
    next
      case (Suc l)
      have "(s' \<or> (\<exists>j < l. calls_tools (ds ! j))) \<longleftrightarrow> (seen \<or> (\<exists>j < k. calls_tools ((d # ds) ! j)))"
        using convert_chunk_ok(2) [OF one] by (auto simp: Suc less_Suc_eq_0_disj)
      then show ?thesis using Cons.IH(2) [OF _ rest, of l] 2(1) by (simp add: Suc cs)
    qed
  }
qed auto

text \<open>
  C37. A converted Ollama stream has one chunk for each of the server's, all under one id, with the
  text and the reasoning as they came and the role in the first; the finish reason is tool_calls
  when the reply is done and any chunk called a tool, stop when a chunk says nothing, and absent
  otherwise; usage comes with the chunk that is done; and a marker ends the stream.
\<close>

theorem stream_conversion_exact:
  assumes "convert_streaming_response_ollama_to_openai ev uuid ds = (out, None)"
  shows "\<exists>cs. out = map (\<lambda>c. event_line (re_dumps ev (JObj c))) cs @ [event_line ''[DONE]''] \<and> length cs = length ds \<and>
    (\<forall>k < length ds. chunk_ok (''chatcmpl-'' @ uuid) k (\<exists>j < k. calls_tools (ds ! j)) (ds ! k) (cs ! k))"
proof -
  from assms obtain cs where cs: "convert_chunks ev (''chatcmpl-'' @ uuid) 0 False ds = (cs, None)"
    and out: "out = map (\<lambda>c. event_line (re_dumps ev (JObj c))) cs @ [event_line ''[DONE]'']"
    by (auto simp: convert_streaming_response_ollama_to_openai_def split: prod.splits if_splits)
  show ?thesis
    using out convert_chunks_ok(1) [OF cs] convert_chunks_ok(2) [OF cs] by (intro exI [of _ cs]) simp
qed

text \<open>Two chunks of a reply, the second done.\<close>

lemma stream_conversion_exact_witness:
  "(let ev = \<lparr>re_dumps = (\<lambda>v. ''c''), re_rate = (\<lambda>x y. Inr (JInt 1)), re_now = int, re_call_id = (\<lambda>n m. ''t'')\<rparr>;
        d1 = [(''model'', JStr ''m''), (''message'', JObj [(''content'', JStr ''Hi'')])];
        d2 = [(''model'', JStr ''m''), (''message'', JObj [(''content'', JStr [])]), (''done'', JBool True), (''eval_count'', JInt 2)]
    in \<exists>c1 c2. convert_streaming_response_ollama_to_openai ev ''u'' [d1, d2]
         = ([event_line ''c'', event_line ''c'', event_line ''[DONE]''], None)
       \<and> chunk_ok ''chatcmpl-u'' 0 False d1 c1 \<and> chunk_ok ''chatcmpl-u'' 1 False d2 c2)"
proof -
  let ?ev = "\<lparr>re_dumps = (\<lambda>v. ''c''), re_rate = (\<lambda>x y. Inr (JInt 1)), re_now = int, re_call_id = (\<lambda>n m. ''t'')\<rparr>"
  let ?d1 = "[(''model'', JStr ''m''), (''message'', JObj [(''content'', JStr ''Hi'')])]"
  let ?d2 = "[(''model'', JStr ''m''), (''message'', JObj [(''content'', JStr [])]), (''done'', JBool True), (''eval_count'', JInt 2)]"
  have run: "convert_streaming_response_ollama_to_openai ?ev ''u'' [?d1, ?d2]
      = ([event_line ''c'', event_line ''c'', event_line ''[DONE]''], None)"
    by code_simp
  have no: "\<not> calls_tools ?d1" by code_simp
  from stream_conversion_exact [OF run] obtain cs where
    "\<forall>k < length [?d1, ?d2]. chunk_ok (''chatcmpl-'' @ ''u'') k (\<exists>j < k. calls_tools ([?d1, ?d2] ! j)) ([?d1, ?d2] ! k) (cs ! k)"
    by blast
  from spec [OF this, of 0] spec [OF this, of 1] show ?thesis
    using run no unfolding Let_def by (auto simp: less_Suc_eq)
qed

text \<open>A chunk that says nothing, such as an empty one in the middle of a reply, finishes it.\<close>

lemma empty_chunk_finishes:
  assumes "convert_chunk ev i n seen d = Inr (s', c)" and "says_nothing d" and "\<not> is_done d"
  shows "get (choice_of c) ''finish_reason'' = JStr ''stop''"
  using convert_chunk_ok(1) [OF assms(1)] assms(2,3) by (simp add: chunk_ok_def)

section \<open>A tool call there and back\<close>

text \<open>
  A tool call of an Ollama reply, converted to OpenAI's format and sent back with the next
  request, reaches Ollama as it was: its name, its arguments and its id are kept.
\<close>

theorem tool_call_roundtrip:
  assumes "tool_call_to_openai dumps new_id (JObj [(''id'', i), (''function'', JObj [(''name'', name), (''arguments'', args)])]) = Inr o1"
    and "loads (dumps args) = Some args"
  shows "ollama_tool_call loads o1 = Inr (JObj [(''index'', JInt 0), (''id'', i),
     (''function'', JObj [(''name'', name), (''arguments'', args)])])"
  using assms by (auto simp: tool_call_to_openai_def ollama_tool_call_def get_or_def)

lemma tool_call_roundtrip_witness:
  "(let dumps = (\<lambda>v. if v = JObj [] then ''{}'' else ''null''); loads = (\<lambda>s. if s = ''{}'' then Some (JObj []) else None);
        call = JObj [(''id'', JStr ''c1''), (''function'', JObj [(''name'', JStr ''now''), (''arguments'', JObj [])])]
    in \<exists>o1. tool_call_to_openai dumps ''x'' call = Inr o1
         \<and> ollama_tool_call loads o1 = Inr (JObj [(''index'', JInt 0), (''id'', JStr ''c1''),
             (''function'', JObj [(''name'', JStr ''now''), (''arguments'', JObj [])])]))"
proof -
  let ?dumps = "\<lambda>v. if v = JObj [] then ''{}'' else ''null''"
  let ?loads = "\<lambda>s. if s = ''{}'' then Some (JObj []) else None"
  let ?call = "JObj [(''id'', JStr ''c1''), (''function'', JObj [(''name'', JStr ''now''), (''arguments'', JObj [])])]"
  have "\<exists>o1. tool_call_to_openai ?dumps ''x'' ?call = Inr o1"
    by (simp add: tool_call_to_openai_def get_or_def)
  then obtain o1 where o1: "tool_call_to_openai ?dumps ''x'' ?call = Inr o1" ..
  show ?thesis using o1 tool_call_roundtrip [OF o1, of ?loads] by (simp add: Let_def)
qed

section \<open>Usage adds up\<close>

text \<open>The counts a usage may state, each left out or a number that is not negative.\<close>

definition counted :: "json \<Rightarrow> bool" where
  "counted v \<longleftrightarrow> v = JNull \<or> (\<exists>n \<ge> 0. v = JInt n)"

definition usage_counts :: "string list" where
  "usage_counts = [''input_tokens'', ''prompt_tokens'', ''prompt_eval_count'', ''prompt_n'', ''cache_n'',
     ''output_tokens'', ''completion_tokens'', ''eval_count'', ''predicted_n'', ''total_tokens'']"

definition plain_usage :: "dict \<Rightarrow> bool" where
  "plain_usage d \<longleftrightarrow> list_all (\<lambda>k. counted (get d k)) usage_counts"

text \<open>The first count that is stated and not zero.\<close>

definition nonzero_or :: "int \<Rightarrow> int \<Rightarrow> int" where
  "nonzero_or a b = (if a \<noteq> 0 then a else b)"

definition first_count :: "dict \<Rightarrow> string list \<Rightarrow> int" where
  "first_count d ks = foldr (\<lambda>k. nonzero_or (number_or_0 (get d k))) ks 0"

definition stated_inputs :: "dict \<Rightarrow> int" where
  "stated_inputs d = first_count d [''input_tokens'', ''prompt_tokens'', ''prompt_eval_count'']"

text \<open>llama.cpp's counts stand in where no other states the input, not even as zero.\<close>

definition inputs :: "dict \<Rightarrow> int" where
  "inputs d = (if stated_inputs d = 0 \<and> get d ''prompt_eval_count'' = JNull
     then number_or_0 (get d ''prompt_n'') + number_or_0 (get d ''cache_n'') else stated_inputs d)"

definition outputs :: "dict \<Rightarrow> int" where
  "outputs d = first_count d [''output_tokens'', ''completion_tokens'', ''eval_count'', ''predicted_n'']"

definition totals :: "dict \<Rightarrow> int" where
  "totals d = nonzero_or (number_or_0 (get d ''total_tokens'')) (inputs d + outputs d)"

lemma number_or_0_simps [simp]: "number_or_0 JNull = 0" "number_or_0 (JInt n) = n"
  by (simp_all add: number_or_0_def)

lemma nonzero_or_simps [simp]: "nonzero_or (nonzero_or a b) c = nonzero_or a (nonzero_or b c)" "nonzero_or a 0 = a" "nonzero_or 0 b = b"
  by (simp_all add: nonzero_or_def)

lemma counted_zero [simp]: "counted (JInt 0)"
  by (simp add: counted_def)

lemma counted_truthy: "counted v \<Longrightarrow> truthy v \<longleftrightarrow> number_or_0 v \<noteq> 0"
  by (auto simp: counted_def)

lemma counted_or: "counted v \<Longrightarrow> counted w \<Longrightarrow> counted (py_or v w)"
  by (simp add: py_or_def)

lemma number_or: "counted v \<Longrightarrow> number_or_0 (py_or v w) = nonzero_or (number_or_0 v) (number_or_0 w)"
  by (simp add: py_or_def counted_truthy nonzero_or_def)

lemma or_null: "counted v \<Longrightarrow> py_or v w = JNull \<longleftrightarrow> number_or_0 v = 0 \<and> w = JNull"
  by (auto simp: py_or_def counted_def)

lemma to_int_counted: "counted v \<Longrightarrow> v \<noteq> JNull \<Longrightarrow> to_int v = Inr (number_or_0 v)"
  by (auto simp: counted_def)

lemma py_add_counted: "counted v \<Longrightarrow> counted w \<Longrightarrow> v \<noteq> JNull \<Longrightarrow> w \<noteq> JNull \<Longrightarrow>
    py_add v w = Inr (JInt (number_or_0 v + number_or_0 w))"
  by (auto simp: counted_def py_add_def)

lemma or_zero: "counted v \<Longrightarrow> to_int (py_or v (JInt 0)) = Inr (number_or_0 v)"
  by (auto simp: counted_def py_or_def)

lemma counted_number: "counted v \<Longrightarrow> 0 \<le> number_or_0 v"
  by (auto simp: counted_def)

text \<open>The normal form over the ten counts, apart from the keys they are read from.\<close>

lemma normal_counts:
  assumes "counted a" "counted b" "counted c" "counted p" "counted q"
    and "counted e" "counted f" "counted g" "counted h" "counted t"
  defines "x \<equiv> py_or (py_or a b) c"
    and "y \<equiv> py_or (py_or (py_or (py_or e f) g) h) (JInt 0)"
    and "ins \<equiv> (if nonzero_or (number_or_0 a) (nonzero_or (number_or_0 b) (number_or_0 c)) = 0 \<and> c = JNull
           then number_or_0 p + number_or_0 q else nonzero_or (number_or_0 a) (nonzero_or (number_or_0 b) (number_or_0 c)))"
    and "outs \<equiv> nonzero_or (number_or_0 e) (nonzero_or (number_or_0 f) (nonzero_or (number_or_0 g) (number_or_0 h)))"
  shows "\<exists>input. (if x = JNull then and_then (to_int (py_or p (JInt 0))) (\<lambda>n. and_then (to_int (py_or q (JInt 0)))
             (\<lambda>m. Inr (JInt (n + m)))) else Inr x) = Inr input
       \<and> to_int input = Inr ins \<and> to_int y = Inr outs
       \<and> (\<exists>total. (if truthy t then Inr t else py_add input y) = Inr total
            \<and> to_int total = Inr (nonzero_or (number_or_0 t) (ins + outs)))"
proof -
  have x: "counted x" "number_or_0 x = nonzero_or (number_or_0 a) (nonzero_or (number_or_0 b) (number_or_0 c))"
    by (simp_all add: x_def counted_or number_or assms(1-10))
  have null: "x = JNull \<longleftrightarrow> number_or_0 x = 0 \<and> c = JNull"
    by (auto simp: x_def or_null counted_or number_or assms(1-10))
  have y: "counted y" "y \<noteq> JNull" "number_or_0 y = outs"
    by (simp_all add: y_def outs_def counted_or number_or or_null assms(1-10))
  let ?i = "if x = JNull then JInt (number_or_0 p + number_or_0 q) else x"
  have i: "counted ?i" "?i \<noteq> JNull" "number_or_0 ?i = ins"
    using x null counted_number [OF assms(4)] counted_number [OF assms(5)] by (auto simp: ins_def counted_def)
  have one: "(if x = JNull then and_then (to_int (py_or p (JInt 0))) (\<lambda>n. and_then (to_int (py_or q (JInt 0)))
             (\<lambda>m. Inr (JInt (n + m)))) else Inr x) = Inr ?i"
    by (simp add: or_zero assms(1-10))
  have t: "(if truthy t then Inr t else py_add ?i y) = Inr (if truthy t then t else JInt (ins + outs))"
    using py_add_counted [OF i(1) y(1) i(2) y(2)] i(3) y(3) by simp
  have t': "to_int (if truthy t then t else JInt (ins + outs)) = Inr (nonzero_or (number_or_0 t) (ins + outs))"
    using counted_truthy [OF assms(10)] to_int_counted [OF assms(10)] by (cases "t = JNull") (auto simp: nonzero_or_def)
  show ?thesis
    using one to_int_counted [OF i(1,2)] i(3) to_int_counted [OF y(1,2)] y(3) t t' by (intro exI conjI) auto
qed

lemma normalize_plain:
  assumes "plain_usage d" and "d \<noteq> []"
  shows "normalize_usage (JObj d) = Inr (dict_update d [(''input_tokens'', JInt (inputs d)), (''output_tokens'', JInt (outputs d)),
     (''total_tokens'', JInt (totals d))])"
proof -
  from assms(1) have c: "counted (get d ''input_tokens'')" "counted (get d ''prompt_tokens'')" "counted (get d ''prompt_eval_count'')"
    "counted (get d ''prompt_n'')" "counted (get d ''cache_n'')" "counted (get d ''output_tokens'')"
    "counted (get d ''completion_tokens'')" "counted (get d ''eval_count'')" "counted (get d ''predicted_n'')"
    "counted (get d ''total_tokens'')"
    by (simp_all add: plain_usage_def usage_counts_def)
  have "truthy (JObj d)" using assms(2) by simp
  then show ?thesis
    using normal_counts [OF c] unfolding normalize_usage_def Let_def inputs_def stated_inputs_def outputs_def totals_def first_count_def
    by auto
qed

lemma normal_gets:
  assumes "plain_usage d" and "d \<noteq> []"
  obtains n where "normalize_usage (JObj d) = Inr n" and "n \<noteq> []" and "get n ''input_tokens'' = JInt (inputs d)"
    and "get n ''output_tokens'' = JInt (outputs d)" and "get n ''total_tokens'' = JInt (totals d)"
    and "\<And>k. k \<notin> set USAGE_TOKEN_KEYS \<Longrightarrow> get n k = get d k"
proof
  show "normalize_usage (JObj d) = Inr (dict_update d [(''input_tokens'', JInt (inputs d)), (''output_tokens'', JInt (outputs d)),
     (''total_tokens'', JInt (totals d))])" (is "_ = Inr ?n")
    by (rule normalize_plain [OF assms])
  have "fst ` set ?n \<noteq> {}" by (simp add: keys_dict_update)
  then show "?n \<noteq> []" by auto
  show "get ?n ''input_tokens'' = JInt (inputs d)" "get ?n ''output_tokens'' = JInt (outputs d)"
    "get ?n ''total_tokens'' = JInt (totals d)"
    by (simp_all add: get_or_def)
  show "get ?n k = get d k" if "k \<notin> set USAGE_TOKEN_KEYS" for k
    using that by (simp add: get_or_def USAGE_TOKEN_KEYS_def)
qed

lemma get_sum_key: "get (sum_key cu iu r k) j = (if j = k \<and> (has_key cu k \<or> has_key iu k)
    then summed (get_or cu k (JInt 0)) (get_or iu k (JInt 0)) (get r k) else get r j)"
  by (simp add: sum_key_def get_or_dict_set)

lemma get_merge_detail: "j \<noteq> k \<Longrightarrow> get (merge_detail cu iu r k) j = get r j"
  by (simp add: merge_detail_def get_or_dict_set)

lemma get_fold_detail: "j \<notin> set ks \<Longrightarrow> get (foldl (merge_detail cu iu) r ks) j = get r j"
  by (induction ks arbitrary: r) (simp_all add: get_merge_detail)

lemma get_fold_sum:
  assumes "j \<in> set ks" and "distinct ks" and "get cu j = JInt m" and "get iu j = JInt n"
  shows "get (foldl (sum_key cu iu) r ks) j = JInt (m + n)"
  using assms
proof (induction ks arbitrary: r)
  case (Cons k ks)
  have other: "j \<notin> set l \<Longrightarrow> get (foldl (sum_key cu iu) r l) j = get r j" for l r
    by (induction l arbitrary: r) (auto simp: get_sum_key)
  have key: "has_key cu j" using Cons.prems(3) by (auto simp: has_key_def get_or_def split: option.splits)
  have or0: "get_or cu j (JInt 0) = JInt m" "get_or iu j (JInt 0) = JInt n"
    using Cons.prems(3,4) by (auto simp: get_or_def split: option.splits)
  show ?case
  proof (cases "j = k")
    case True
    then have "get (foldl (sum_key cu iu) r (k # ks)) j = get (sum_key cu iu r k) k" using Cons.prems(2) other [of ks] by simp
    then show ?thesis using True key or0 by (simp add: get_sum_key summed_def number_or_0_def)
  next
    case False
    then show ?thesis using Cons.IH Cons.prems by simp
  qed
qed simp

lemma merged_sums:
  assumes "k \<in> set USAGE_TOKEN_KEYS" and "get cu k = JInt m" and "get iu k = JInt n"
  shows "get (merge_normalized cu iu) k = JInt (m + n)"
proof -
  have "k \<noteq> ''prompt_tokens''" "k \<noteq> ''completion_tokens''" "k \<notin> set USAGE_DETAIL_KEYS"
    and ks: "k \<in> set (USAGE_TOKEN_KEYS @ USAGE_COST_KEYS)"
    using assms(1) by (auto simp: USAGE_TOKEN_KEYS_def USAGE_DETAIL_KEYS_def)
  moreover have "distinct (USAGE_TOKEN_KEYS @ USAGE_COST_KEYS)"
    by (simp add: USAGE_TOKEN_KEYS_def USAGE_COST_KEYS_def)
  ultimately show ?thesis
    using get_fold_sum [OF ks _ assms(2,3)] unfolding merge_normalized_def Let_def
    by (simp add: get_or_dict_set get_fold_detail del: foldl_append)
qed

text \<open>
  The usage of a reply answered in several calls adds up: whatever names the servers give the
  counts (OpenAI's, Ollama's or llama.cpp's), the merged usage states the sum of the inputs, of the
  outputs and of the totals of the two, and merging never fails.
\<close>

theorem usage_adds_up:
  assumes "plain_usage a" and "plain_usage b" and "a \<noteq> []" and "b \<noteq> []"
  shows "\<exists>m. merge_usage (JObj a) (JObj b) = Inr m \<and> get m ''input_tokens'' = JInt (inputs a + inputs b)
    \<and> get m ''output_tokens'' = JInt (outputs a + outputs b) \<and> get m ''total_tokens'' = JInt (totals a + totals b)"
proof -
  obtain na where a: "normalize_usage (JObj a) = Inr na" "na \<noteq> []" "get na ''input_tokens'' = JInt (inputs a)"
    "get na ''output_tokens'' = JInt (outputs a)" "get na ''total_tokens'' = JInt (totals a)"
    by (rule normal_gets [OF assms(1,3)])
  obtain nb where b: "normalize_usage (JObj b) = Inr nb" "nb \<noteq> []" "get nb ''input_tokens'' = JInt (inputs b)"
    "get nb ''output_tokens'' = JInt (outputs b)" "get nb ''total_tokens'' = JInt (totals b)"
    by (rule normal_gets [OF assms(2,4)])
  have t: "truthy (JObj a)" "truthy (JObj b)" using assms(3,4) by simp_all
  have "merge_usage (JObj a) (JObj b) = Inr (merge_normalized na nb)"
    by (simp only: merge_usage_def usage_or_empty_def t if_True a(1) b(1) and_then_simps) (simp add: a(2) b(2))
  moreover have "''input_tokens'' \<in> set USAGE_TOKEN_KEYS" "''output_tokens'' \<in> set USAGE_TOKEN_KEYS" "''total_tokens'' \<in> set USAGE_TOKEN_KEYS"
    by (simp_all add: USAGE_TOKEN_KEYS_def)
  ultimately show ?thesis
    using merged_sums a(3-5) b(3-5) by blast
qed

text \<open>A reply of OpenAI's server followed by one of llama.cpp's.\<close>

lemma usage_adds_up_witness:
  "\<exists>m. merge_usage (JObj [(''prompt_tokens'', JInt 12), (''completion_tokens'', JInt 3), (''total_tokens'', JInt 15)])
          (JObj [(''prompt_n'', JInt 5), (''cache_n'', JInt 30), (''predicted_n'', JInt 7)]) = Inr m
     \<and> get m ''input_tokens'' = JInt 47 \<and> get m ''output_tokens'' = JInt 10 \<and> get m ''total_tokens'' = JInt 57"
proof -
  let ?a = "[(''prompt_tokens'', JInt 12), (''completion_tokens'', JInt 3), (''total_tokens'', JInt 15)]"
  let ?b = "[(''prompt_n'', JInt 5), (''cache_n'', JInt 30), (''predicted_n'', JInt 7)]"
  have p: "plain_usage ?a" "plain_usage ?b"
    by (simp_all add: plain_usage_def usage_counts_def counted_def get_or_def)
  have "inputs ?a = 12" "outputs ?a = 3" "totals ?a = 15" "inputs ?b = 35" "outputs ?b = 7" "totals ?b = 42"
    by code_simp+
  then show ?thesis using usage_adds_up [OF p] by simp
qed

end
