(* ===== verification/TagScanner.thy ===== *)
theory TagScanner
  imports OutputMessages
begin

text \<open>
  Finding special tags in streamed text (\<open>_TagScanner\<close> of \<open>utils/middleware.py\<close>): the text of the last
  message is searched for a start tag, which opens a block with what follows it; an open block is
  searched for its end tag, which closes it and starts a new message with the rest. The scanner
  remembers, by item and kind of tag, how much it has searched. Output items are dicts whose content
  is a list of parts with a text; drawn ids, clock readings and the seconds between two of them are
  arguments.
\<close>

section \<open>Tags in a text\<close>

definition is_angle_tag :: "string \<Rightarrow> bool" where
  "is_angle_tag tag \<longleftrightarrow> take 1 tag = ''<'' \<and> tag \<noteq> [] \<and> last tag = CHR ''>''"

text \<open>\<open>.*?>\<close>: up to the first \<open>>\<close>, on one line.\<close>

fun to_angle :: "string \<Rightarrow> (string \<times> string) option" where
  "to_angle [] = None"
| "to_angle (c # cs) =
     (if c = CHR ''>'' then Some ([], cs) else if c = CHR 0x0A then None
      else map_option (\<lambda>(a, r). (c # a, r)) (to_angle cs))"

text \<open>
  \<open>_start_tag_pattern\<close> at the front of a text: the attributes and the rest. The name of a tag in
  angle brackets is followed by white space and attributes, or by the bracket.
\<close>

definition match_start_tag :: "string \<Rightarrow> string \<Rightarrow> (string \<times> string) option" where
  "match_start_tag tag s =
     (if is_angle_tag tag then
        (case after_prefix (butlast tag) s of None \<Rightarrow> None
         | Some [] \<Rightarrow> None
         | Some (c # cs) \<Rightarrow>
             if is_py_space c then map_option (\<lambda>(a, r). (c # a, r)) (to_angle cs)
             else if c = CHR ''>'' then Some ([], cs) else None)
      else map_option (\<lambda>r. ([], r)) (after_prefix tag s))"

text \<open>\<open>search\<close>: the leftmost match, as the text before it, its attributes and the text after it.\<close>

fun search_tag :: "string \<Rightarrow> string \<Rightarrow> (string \<times> string \<times> string) option" where
  "search_tag tag [] = map_option (\<lambda>(a, r). ([], a, r)) (match_start_tag tag [])"
| "search_tag tag (c # cs) =
     (case match_start_tag tag (c # cs) of
        Some (a, r) \<Rightarrow> Some ([], a, r)
      | None \<Rightarrow> map_option (\<lambda>(b, a, r). (c # b, a, r)) (search_tag tag cs))"

definition search_tag_from :: "nat \<Rightarrow> string \<Rightarrow> string \<Rightarrow> (string \<times> string \<times> string) option" where
  "search_tag_from n tag s = map_option (\<lambda>(b, a, r). (take n s @ b, a, r)) (search_tag tag (drop n s))"

text \<open>\<open>re.sub(pattern, '', s)\<close>.\<close>

function remove_tags :: "string \<Rightarrow> string \<Rightarrow> string" where
  "remove_tags tag s =
     (case s of [] \<Rightarrow> []
      | c # cs \<Rightarrow> (case match_start_tag tag s of
            Some (a, r) \<Rightarrow> if length r < length s then remove_tags tag r else c # remove_tags tag cs
          | None \<Rightarrow> c # remove_tags tag cs))"
  by pat_completeness auto
termination
  by (relation "measure (\<lambda>(tag, s). length s)") auto

declare remove_tags.simps [simp del]

text \<open>\<open>split(maxsplit=1)\<close> at a literal: what is before and after its first occurrence.\<close>

fun split_at_first :: "string \<Rightarrow> string \<Rightarrow> (string \<times> string) option" where
  "split_at_first p [] = (if p = [] then Some ([], []) else None)"
| "split_at_first p (c # cs) =
     (case after_prefix p (c # cs) of
        Some r \<Rightarrow> Some ([], r)
      | None \<Rightarrow> map_option (\<lambda>(b, r). (c # b, r)) (split_at_first p cs))"

text \<open>The last index, from \<open>n\<close> on, of a character that satisfies the predicate; -1 without one.\<close>

fun last_index :: "(char \<Rightarrow> bool) \<Rightarrow> nat \<Rightarrow> string \<Rightarrow> int" where
  "last_index P n [] = - 1"
| "last_index P n (c # cs) =
     (if last_index P (Suc n) cs \<noteq> - 1 then last_index P (Suc n) cs else if P c then int n else - 1)"

definition rfind_between :: "(char \<Rightarrow> bool) \<Rightarrow> string \<Rightarrow> nat \<Rightarrow> nat \<Rightarrow> int" where
  "rfind_between P s a b = last_index P a (drop a (take b s))"

section \<open>Attributes\<close>

definition in_word :: "char \<Rightarrow> bool" where
  "in_word c \<longleftrightarrow> (let n = of_char c :: nat in
     48 \<le> n \<and> n \<le> 57 \<or> 65 \<le> n \<and> n \<le> 90 \<or> n = 95 \<or> 97 \<le> n \<and> n \<le> 122
     \<or> n \<in> {170, 178, 179, 181, 185, 186, 188, 189, 190} \<or> 192 \<le> n \<and> n \<noteq> 215 \<and> n \<noteq> 247)"

text \<open>\<open>(\w+)\s*=\s*"([^"]+)"\<close> at the front: the name, the value and the rest.\<close>

definition match_attribute :: "string \<Rightarrow> (string \<times> string \<times> string) option" where
  "match_attribute s =
     (let name = takeWhile in_word s in
      if name = [] then None
      else case after_prefix ''='' (lstrip (dropWhile in_word s)) of None \<Rightarrow> None
      | Some s1 \<Rightarrow> (case after_prefix [CHR 0x22] (lstrip s1) of None \<Rightarrow> None
        | Some s2 \<Rightarrow> let v = takeWhile (\<lambda>c. c \<noteq> CHR 0x22) s2; r = dropWhile (\<lambda>c. c \<noteq> CHR 0x22) s2
            in if v = [] \<or> r = [] then None else Some (name, v, tl r)))"

lemma length_lstrip: "length (lstrip s) \<le> length s"
  by (simp add: lstrip_def length_dropWhile_le)

lemma after_prefix_whole: "after_prefix p s = Some r \<Longrightarrow> length s = length p + length r"
  by (auto simp: after_prefix_def prefix_def split: if_splits)

lemma match_attribute_shorter:
  assumes "match_attribute s = Some (k, v, r)"
  shows "length r < length s"
proof -
  from assms obtain s1 s2 where s: "after_prefix ''='' (lstrip (dropWhile in_word s)) = Some s1"
      "after_prefix [CHR 0x22] (lstrip s1) = Some s2" "r = tl (dropWhile (\<lambda>c. c \<noteq> CHR 0x22) s2)"
    by (auto simp: match_attribute_def Let_def split: if_splits option.splits)
  have "length r \<le> length s2"
    unfolding s(3) using length_dropWhile_le [of "\<lambda>c. c \<noteq> CHR 0x22" s2] by (simp only: length_tl)
  then show ?thesis
    using after_prefix_whole [OF s(1)] after_prefix_whole [OF s(2)] length_lstrip [of s1]
      length_lstrip [of "dropWhile in_word s"] length_dropWhile_le [of in_word s] by simp
qed

function find_attributes :: "string \<Rightarrow> (string \<times> string) list" where
  "find_attributes s =
     (case match_attribute s of
        Some (k, v, r) \<Rightarrow> (k, v) # find_attributes r
      | None \<Rightarrow> if s = [] then [] else find_attributes (tl s))"
  by pat_completeness auto
termination
  by (relation "measure length") (auto dest: match_attribute_shorter)

declare find_attributes.simps [simp del]

definition tag_attributes :: "string \<Rightarrow> dict" where
  "tag_attributes s = foldl (\<lambda>d (k, v). dict_set k (JStr v) d) [] (find_attributes s)"

section \<open>Output items\<close>

definition output_text_part :: "string \<Rightarrow> json" where
  "output_text_part t = JObj [(''type'', JStr ''output_text''), (''text'', JStr t)]"

definition message_output_item :: "string \<Rightarrow> string \<Rightarrow> dict" where
  "message_output_item i t =
     [(''type'', JStr ''message''), (''id'', JStr i), (''status'', JStr ''in_progress''), (''role'', JStr ''assistant''),
      (''content'', JArr [output_text_part t])]"

text \<open>The text of the last part of a content, when it is an \<open>output_text\<close>.\<close>

definition ends_in_text :: "dict \<Rightarrow> bool" where
  "ends_in_text item \<longleftrightarrow> as_list (get item ''content'') \<noteq> []
     \<and> get (as_dict (last (as_list (get item ''content'')))) ''type'' = JStr ''output_text''"

definition last_part_text :: "dict \<Rightarrow> string" where
  "last_part_text item =
     (if ends_in_text item then as_str (get_or (as_dict (last (as_list (get item ''content'')))) ''text'' (JStr [])) else [])"

definition put_last_part_text :: "string \<Rightarrow> dict \<Rightarrow> dict" where
  "put_last_part_text t item =
     (let parts = as_list (get item ''content'') in
      dict_set ''content'' (JArr (butlast parts @ [JObj (dict_set ''text'' (JStr t) (as_dict (last parts)))])) item)"

definition has_type :: "string \<Rightarrow> dict \<Rightarrow> bool" where
  "has_type ty item \<longleftrightarrow> get item ''type'' = JStr ty"

definition last_output_text :: "dict list \<Rightarrow> string" where
  "last_output_text output =
     (if output \<noteq> [] \<and> has_type ''message'' (last output) then last_part_text (last output) else [])"

definition set_last_output_text :: "dict list \<Rightarrow> string \<Rightarrow> dict list" where
  "set_last_output_text output t =
     (if output \<noteq> [] \<and> has_type ''message'' (last output) \<and> ends_in_text (last output)
      then butlast output @ [put_last_part_text t (last output)] else output)"

text \<open>Ids, the clock and the seconds since a start time, as one call of the scanner finds them.\<close>

record scan_env =
  se_block :: string
  se_message :: string
  se_now :: json
  se_since :: "json \<Rightarrow> json"

definition CODE_INTERPRETER :: string where
  "CODE_INTERPRETER = ''open_webui:code_interpreter''"

definition tag_output_type :: "string \<Rightarrow> string" where
  "tag_output_type ty =
     (if ty = ''reasoning'' then ''reasoning'' else if ty = ''solution'' then ''message''
      else if ty = ''code_interpreter'' then CODE_INTERPRETER else ty)"

definition block_head :: "string \<Rightarrow> string \<Rightarrow> string \<Rightarrow> string \<Rightarrow> dict \<Rightarrow> dict" where
  "block_head ty i start fin attrs =
     [(''type'', JStr ty), (''id'', JStr i), (''status'', JStr ''in_progress''), (''start_tag'', JStr start),
      (''end_tag'', JStr fin), (''attributes'', JObj attrs)]"

definition tag_block_item :: "scan_env \<Rightarrow> string \<Rightarrow> string \<Rightarrow> string \<Rightarrow> dict \<Rightarrow> dict" where
  "tag_block_item env ty start fin attrs =
     (if tag_output_type ty = ''reasoning''
      then block_head ''reasoning'' (se_block env) start fin attrs
           @ [(''content'', JArr []), (''summary'', JNull), (''started_at'', se_now env)]
      else if tag_output_type ty = CODE_INTERPRETER
      then block_head CODE_INTERPRETER (se_block env) start fin attrs
           @ [(''lang'', get_or attrs ''lang'' (JStr ''python'')), (''code'', JStr []), (''output'', JNull), (''started_at'', se_now env)]
      else message_output_item (se_block env) []
           @ [(''_tag_type'', JStr ty), (''start_tag'', JStr start), (''end_tag'', JStr fin), (''attributes'', JObj attrs),
              (''started_at'', se_now env)])"

section \<open>The scanner's memory\<close>

text \<open>By item id and kind of tag: how much was searched; how much the last bracket and boundary cover.\<close>

record scanner =
  scan_positions :: "json \<times> string \<Rightarrow> nat option"
  boundary_positions :: "json \<times> string \<Rightarrow> (nat \<times> int \<times> int) option"

definition new_scanner :: scanner where
  "new_scanner = \<lparr>scan_positions = (\<lambda>_. None), boundary_positions = (\<lambda>_. None)\<rparr>"

definition scan_key :: "dict \<Rightarrow> string \<Rightarrow> json \<times> string" where
  "scan_key item ty = (get item ''id'', ty)"

definition scanned_length :: "scanner \<Rightarrow> dict \<Rightarrow> string \<Rightarrow> string \<Rightarrow> nat" where
  "scanned_length sc item ty t =
     (if \<not> truthy (get item ''id'') then 0
      else case scan_positions sc (scan_key item ty) of None \<Rightarrow> 0 | Some n \<Rightarrow> if n \<le> length t then n else 0)"

definition save_scanned_length :: "dict \<Rightarrow> string \<Rightarrow> string \<Rightarrow> scanner \<Rightarrow> scanner" where
  "save_scanned_length item ty t sc =
     (if truthy (get item ''id'') then sc\<lparr>scan_positions := (scan_positions sc)(scan_key item ty \<mapsto> length t)\<rparr> else sc)"

definition clear_scanned_length :: "dict \<Rightarrow> string \<Rightarrow> scanner \<Rightarrow> scanner" where
  "clear_scanned_length item ty sc =
     (if truthy (get item ''id'')
      then \<lparr>scan_positions = (scan_positions sc)(scan_key item ty := None),
            boundary_positions = (boundary_positions sc)(scan_key item ty := None)\<rparr> else sc)"

definition is_open :: "char \<Rightarrow> bool" where
  "is_open c \<longleftrightarrow> c = CHR ''<''"

definition is_boundary :: "char \<Rightarrow> bool" where
  "is_boundary c \<longleftrightarrow> c = CHR ''>'' \<or> c = CHR 0x0A"

definition moved :: "int \<Rightarrow> int \<Rightarrow> int" where
  "moved new old = (if new \<noteq> - 1 then new else old)"

definition tag_boundaries :: "scanner \<Rightarrow> dict \<Rightarrow> string \<Rightarrow> string \<Rightarrow> nat \<Rightarrow> scanner \<times> int \<times> int" where
  "tag_boundaries sc item ty t n =
     (let key = scan_key item ty;
          cached = (case boundary_positions sc key of None \<Rightarrow> (0, - 1, - 1) | Some c \<Rightarrow> c);
          (m, last_open, last_boundary) = (if fst cached > n then (0, - 1, - 1) else cached)
      in if m < n
         then (let opened = moved (rfind_between is_open t m n) last_open;
                   closed = moved (rfind_between is_boundary t m n) last_boundary
               in (sc\<lparr>boundary_positions := (boundary_positions sc)(key \<mapsto> (n, opened, closed))\<rparr>, opened, closed))
         else (sc, last_open, last_boundary))"

section \<open>Closing a block\<close>

definition block_text :: "dict \<Rightarrow> string" where
  "block_text item =
     (if has_type CODE_INTERPRETER item then as_str (get_or item ''code'' (JStr [])) else last_part_text item)"

text \<open>What stands before the end tag and what stands after it, without start tags and stripped.\<close>

definition block_parts :: "string \<Rightarrow> string \<Rightarrow> string \<Rightarrow> string \<times> string" where
  "block_parts start fin t =
     (let t1 = strip_text (remove_tags start t)
      in case split_at_first fin t1 of
           None \<Rightarrow> (strip_text t1, [])
         | Some (b, r) \<Rightarrow> (strip_text b, strip_text r))"

definition finished_block :: "scan_env \<Rightarrow> string \<Rightarrow> dict \<Rightarrow> dict" where
  "finished_block env t item =
     (let ended = (\<lambda>d. dict_set ''ended_at'' (se_now env) d);
          timed = (\<lambda>d. dict_set ''duration'' (se_since env (get item ''started_at'')) (ended d))
      in if has_type ''reasoning'' item
         then dict_set ''status'' (JStr ''completed'') (timed (dict_set ''content'' (JArr [output_text_part t]) item))
         else if has_type CODE_INTERPRETER item then timed (dict_set ''code'' (JStr t) item)
         else ended (if ends_in_text item then put_last_part_text t item else item))"

definition close_block :: "scan_env \<Rightarrow> scanner \<Rightarrow> string \<Rightarrow> dict list \<Rightarrow> scanner \<times> dict list \<times> bool" where
  "close_block env sc ty output =
     (let item = last output; fin = as_str (get_or item ''end_tag'' (JStr [])); start = as_str (get_or item ''start_tag'' (JStr []));
          t = block_text item; from = scanned_length sc item ty t + 1 - max (length fin) 1
      in if split_at_first fin (drop from t) = None then (save_scanned_length item ty t sc, output, False)
         else case block_parts start fin t of
           (b, r) \<Rightarrow> (clear_scanned_length item ty sc,
                      butlast output @ (if b = [] then [] else [finished_block env b item])
                        @ [message_output_item (se_message env) r], True))"

section \<open>Opening a block\<close>

definition longest_start :: "(string \<times> string) list \<Rightarrow> nat" where
  "longest_start tags = (if tags = [] then 1 else Max (set (map (\<lambda>(s, e). length s) tags)))"

definition with_text_after :: "string \<Rightarrow> dict \<Rightarrow> dict" where
  "with_text_after t item =
     (if has_type ''reasoning'' item then dict_set ''content'' (JArr [output_text_part t]) item
      else if has_type CODE_INTERPRETER item then dict_set ''code'' (JStr t) item
      else put_last_part_text t item)"

text \<open>The block just opened is of the kind that is scanned for, so its text is searched for its end.\<close>

definition split_at_start_tag ::
  "scan_env \<Rightarrow> scanner \<Rightarrow> string \<Rightarrow> dict list \<Rightarrow> string \<times> string \<Rightarrow> string \<times> string \<times> string \<Rightarrow> scanner \<times> dict list \<times> bool" where
  "split_at_start_tag env sc ty output tag m =
     (case (tag, m) of ((start, fin), (before, attrs, after)) \<Rightarrow>
        let kept = set_last_output_text output before;
            out = (if strip_text before = [] then butlast kept else kept);
            block = tag_block_item env ty start fin (tag_attributes attrs);
            sc' = clear_scanned_length (last output) ty sc
        in if after = [] then (sc', out @ [block], False)
           else close_block env sc' ty (out @ [with_text_after after block]))"

fun first_tag :: "nat \<Rightarrow> string \<Rightarrow> (string \<times> string) list \<Rightarrow> ((string \<times> string) \<times> string \<times> string \<times> string) option" where
  "first_tag n t [] = None"
| "first_tag n t (tag # tags) =
     (case search_tag_from n (fst tag) t of Some m \<Rightarrow> Some (tag, m) | None \<Rightarrow> first_tag n t tags)"

definition search_start :: "scanner \<Rightarrow> dict \<Rightarrow> string \<Rightarrow> (string \<times> string) list \<Rightarrow> string \<Rightarrow> scanner \<times> nat" where
  "search_start sc item ty tags t =
     (let n = scanned_length sc item ty t; from = n + 1 - longest_start tags
      in if 0 < n \<and> list_ex (\<lambda>(s, e). is_angle_tag s) tags
         then (case tag_boundaries sc item ty t n of
                 (sc', opened, closed) \<Rightarrow> (sc', if opened > closed then min from (nat opened) else from))
         else (sc, from))"

definition open_block ::
  "scan_env \<Rightarrow> scanner \<Rightarrow> string \<Rightarrow> (string \<times> string) list \<Rightarrow> dict list \<Rightarrow> scanner \<times> dict list \<times> bool" where
  "open_block env sc ty tags output =
     (let item = last output; t = last_output_text output
      in case search_start sc item ty tags t of
           (sc', n) \<Rightarrow> (case first_tag n t tags of
               Some (tag, m) \<Rightarrow> split_at_start_tag env sc' ty output tag m
             | None \<Rightarrow> (save_scanned_length item ty t sc', output, False)))"

definition is_open_block :: "string \<Rightarrow> dict \<Rightarrow> bool" where
  "is_open_block ty item \<longleftrightarrow>
     has_type ''reasoning'' item \<and> ty = ''reasoning''
     \<or> has_type CODE_INTERPRETER item \<and> ty = ''code_interpreter''
     \<or> has_type ''message'' item \<and> get item ''_tag_type'' = JStr ty"

definition scan ::
  "scan_env \<Rightarrow> scanner \<Rightarrow> string \<Rightarrow> (string \<times> string) list \<Rightarrow> dict list \<Rightarrow> scanner \<times> dict list \<times> bool" where
  "scan env sc ty tags output =
     (if output \<noteq> [] \<and> is_open_block ty (last output) then close_block env sc ty output
      else if output \<noteq> [] \<and> has_type ''message'' (last output) then open_block env sc ty tags output
      else (sc, output, False))"

section \<open>What a match looks like\<close>

text \<open>A tag, with no bracket and no newline in its name if it is an angle tag.\<close>

definition plain_tag :: "string \<Rightarrow> bool" where
  "plain_tag tag \<longleftrightarrow> tag \<noteq> [] \<and> (is_angle_tag tag \<longrightarrow> list_all (\<lambda>c. \<not> is_open c \<and> \<not> is_boundary c) (tl (butlast tag)))"

text \<open>Where a tag stands in the text, its attributes have no bracket of their own and no newline.\<close>

definition plain_attributes :: "string \<Rightarrow> string \<Rightarrow> bool" where
  "plain_attributes tag t \<longleftrightarrow>
     (\<forall>n a r. match_start_tag tag (drop n t) = Some (a, r) \<longrightarrow> list_all (\<lambda>c. \<not> is_open c \<and> \<not> is_boundary c) a)"

lemma after_prefix_Some: "after_prefix p s = Some r \<longleftrightarrow> s = p @ r"
  by (auto simp: after_prefix_def prefix_def)

lemma to_angle_Some: "to_angle s = Some (a, r) \<Longrightarrow> s = a @ CHR ''>'' # r"
  by (induction s arbitrary: a) (auto split: if_splits)

lemma to_angle_append: "to_angle s = Some (a, r) \<Longrightarrow> to_angle (s @ u) = Some (a, r @ u)"
  by (induction s arbitrary: a) (auto split: if_splits)

lemma to_angle_prefix: "to_angle (a @ CHR ''>'' # r) = Some (a, r) \<Longrightarrow> to_angle (a @ [CHR ''>'']) = Some (a, [])"
  by (induction a) (auto split: if_splits)

lemma angle_tag_parts:
  assumes "is_angle_tag tag"
  obtains name where "tag = CHR ''<'' # name @ [CHR ''>'']" and "butlast tag = CHR ''<'' # name"
proof -
  from assms obtain xs where xs: "tag = CHR ''<'' # xs" "last tag = CHR ''>''" by (cases tag) (auto simp: is_angle_tag_def)
  then have "xs \<noteq> []" by auto
  then show ?thesis using that [of "butlast xs"] xs by (cases xs rule: rev_cases) auto
qed

text \<open>The text a match takes: the tag itself, or the tag opened up by attributes.\<close>

lemma match_start_tag_text:
  assumes "match_start_tag tag s = Some (a, r)"
  shows "s = tag @ r \<or> is_angle_tag tag \<and> s = butlast tag @ a @ CHR ''>'' # r"
proof (cases "is_angle_tag tag")
  case False
  then show ?thesis using assms by (auto simp: match_start_tag_def after_prefix_Some)
next
  case True
  then obtain name where n: "tag = CHR ''<'' # name @ [CHR ''>'']" "butlast tag = CHR ''<'' # name" by (rule angle_tag_parts)
  from assms True obtain c cs where s: "s = butlast tag @ c # cs"
    by (auto simp: match_start_tag_def after_prefix_Some split: option.splits list.splits)
  from assms True have "(if is_py_space c then map_option (\<lambda>(a, r). (c # a, r)) (to_angle cs)
      else if c = CHR ''>'' then Some ([], cs) else None) = Some (a, r)"
    by (simp add: match_start_tag_def s after_prefix_def)
  then show ?thesis
    using True s n by (auto dest!: to_angle_Some split: if_splits)
qed

text \<open>A match is found again in every text that begins with what it takes.\<close>

lemma match_start_tag_prefix:
  assumes "match_start_tag tag s = Some (a, r)" and "s = p @ r"
  shows "match_start_tag tag (p @ u) = Some (a, u)"
proof (cases "is_angle_tag tag")
  case False
  then show ?thesis using assms by (auto simp: match_start_tag_def after_prefix_Some)
next
  case True
  from assms(1) True obtain c cs where s: "s = butlast tag @ c # cs"
    by (auto simp: match_start_tag_def after_prefix_Some split: option.splits list.splits)
  from assms(1) True have m: "(if is_py_space c then map_option (\<lambda>(a, r). (c # a, r)) (to_angle cs)
      else if c = CHR ''>'' then Some ([], cs) else None) = Some (a, r)"
    by (simp add: match_start_tag_def s after_prefix_def)
  obtain q where p: "p = butlast tag @ c # q" and q: "cs = q @ r"
  proof (cases "is_py_space c")
    case True
    then obtain a' where "to_angle cs = Some (a', r)" using m by auto
    then have "cs = (a' @ [CHR ''>'']) @ r" using to_angle_Some by fastforce
    then show thesis using that [of "a' @ [CHR ''>'']"] assms(2) s by auto
  next
    case False
    then show thesis using that [of "[]"] m assms(2) s by (auto split: if_splits)
  qed
  have "(if is_py_space c then map_option (\<lambda>(a, r). (c # a, r)) (to_angle (q @ u))
      else if c = CHR ''>'' then Some ([], q @ u) else None) = Some (a, u)"
  proof (cases "is_py_space c")
    case True
    then obtain a' where a': "to_angle cs = Some (a', r)" "a = c # a'" using m by auto
    then have "q = a' @ [CHR ''>'']" using to_angle_Some q by fastforce
    then have "to_angle q = Some (a', [])" using to_angle_prefix a'(1) q by simp
    then show ?thesis using True a'(2) to_angle_append [of q a' "[]" u] by simp
  next
    case False
    then show ?thesis using m q by (auto split: if_splits)
  qed
  then show ?thesis using True by (simp add: match_start_tag_def p after_prefix_def)
qed

section \<open>Searching from a later place\<close>

lemma search_tag_None: "search_tag tag s = None \<longleftrightarrow> (\<forall>n \<le> length s. match_start_tag tag (drop n s) = None)"
proof (induction s)
  case (Cons c cs)
  have "(\<forall>n \<le> length (c # cs). match_start_tag tag (drop n (c # cs)) = None) \<longleftrightarrow>
      match_start_tag tag (c # cs) = None \<and> (\<forall>n \<le> length cs. match_start_tag tag (drop n cs) = None)"
    (is "?all \<longleftrightarrow> ?now \<and> ?later")
  proof
    assume a: ?all
    have "match_start_tag tag (drop n cs) = None" if "n \<le> length cs" for n
      using a [rule_format, of "Suc n"] that by simp
    then show "?now \<and> ?later" using a [rule_format, of 0] by simp
  next
    assume a: "?now \<and> ?later"
    show ?all using a by (auto split: nat.split simp: drop_Cons)
  qed
  then show ?case using Cons by (auto split: option.splits)
qed auto

lemma search_tag_from_0 [simp]: "search_tag_from 0 tag s = search_tag tag s"
  by (cases "search_tag tag s") (auto simp: search_tag_from_def)

lemma search_tag_skip:
  assumes "\<And>j. j < k \<Longrightarrow> j \<le> length s \<Longrightarrow> match_start_tag tag (drop j s) = None"
  shows "search_tag_from k tag s = search_tag tag s"
  using assms
proof (induction s arbitrary: k)
  case Nil
  then show ?case by (cases k) (auto simp: search_tag_from_def option.map_comp comp_def)
next
  case (Cons c cs)
  show ?case
  proof (cases k)
    case 0
    then show ?thesis by simp
  next
    case (Suc l)
    have "match_start_tag tag (c # cs) = None" using Cons.prems [of 0] Suc by simp
    moreover have "search_tag_from l tag cs = search_tag tag cs"
    proof (rule Cons.IH)
      show "match_start_tag tag (drop j cs) = None" if "j < l" "j \<le> length cs" for j
        using Cons.prems [of "Suc j"] that Suc by simp
    qed
    moreover have "search_tag_from k tag (c # cs) = map_option (\<lambda>(b, a, r). (c # b, a, r)) (search_tag_from l tag cs)"
      by (cases "search_tag tag (drop l cs)") (auto simp: Suc search_tag_from_def)
    ultimately show ?thesis by simp
  qed
qed

section \<open>The last bracket and the last boundary\<close>

lemma last_index_ge: "last_index P n s = - 1 \<or> int n \<le> last_index P n s \<and> last_index P n s < int (n + length s)"
proof (induction s arbitrary: n)
  case (Cons c cs)
  then show ?case using Cons.IH [of "Suc n"] by auto
qed simp

lemma last_index_None: "list_all (\<lambda>c. \<not> P c) s \<Longrightarrow> last_index P n s = - 1"
  by (induction s arbitrary: n) auto

lemma last_index_append: "last_index P n (xs @ ys) = moved (last_index P (n + length xs) ys) (last_index P n xs)"
proof (induction xs arbitrary: n)
  case Nil
  then show ?case by (simp add: moved_def)
next
  case (Cons c xs)
  show ?case using Cons.IH [of "Suc n"] by (auto simp: moved_def)
qed

lemma last_index_here: "P c \<Longrightarrow> list_all (\<lambda>c. \<not> P c) ys \<Longrightarrow> last_index P n (xs @ c # ys) = int (n + length xs)"
  by (simp add: last_index_append moved_def last_index_None)

lemma rfind_moved:
  assumes "m \<le> n" and "n \<le> length t"
  shows "moved (rfind_between P t m n) (last_index P 0 (take m t)) = last_index P 0 (take n t)"
proof -
  have "take n t = take m t @ drop m (take n t)"
    using assms by (metis append_take_drop_id min.absorb1 take_take)
  then show ?thesis
    using last_index_append [of P 0 "take m t" "drop m (take n t)"] assms by (simp add: rfind_between_def)
qed

text \<open>A tag that is open at the end of the text read so far is its last bracket.\<close>

lemma open_tag_is_last:
  assumes "plain_tag tag" and "is_angle_tag tag" and "plain_attributes tag t"
    and "match_start_tag tag (drop j t) = Some (a, r)" and "j < n" and "n < length t - length r"
  shows "last_index is_open 0 (take n t) = int j" and "last_index is_boundary 0 (take n t) < int j"
proof -
  obtain name where name: "tag = CHR ''<'' # name @ [CHR ''>'']" "butlast tag = CHR ''<'' # name"
    by (rule angle_tag_parts [OF assms(2)])
  have a: "list_all (\<lambda>c. \<not> is_open c \<and> \<not> is_boundary c) a"
    using assms(3,4) unfolding plain_attributes_def by blast
  have nm: "list_all (\<lambda>c. \<not> is_open c \<and> \<not> is_boundary c) name"
    using assms(1,2) unfolding plain_tag_def name(2) by simp
  define b where "b = (if drop j t = tag @ r then name else name @ a)"
  have b: "list_all (\<lambda>c. \<not> is_open c \<and> \<not> is_boundary c) b" using a nm by (simp add: b_def)
  have t: "drop j t = CHR ''<'' # b @ CHR ''>'' # r"
    using match_start_tag_text [OF assms(4)] name by (auto simp: b_def)
  have len: "length t - j = length b + 2 + length r" using arg_cong [OF t, of length] by simp
  have "take n t = take j t @ take (n - j) (drop j t)"
    using assms(5) by (metis le_add_diff_inverse less_imp_le take_add)
  also have "take (n - j) (drop j t) = CHR ''<'' # take (n - j - 1) b"
    using assms(5,6) len by (simp add: t take_Cons' )
  finally have n: "take n t = take j t @ CHR ''<'' # take (n - j - 1) b" .
  have q: "list_all (\<lambda>c. \<not> is_open c \<and> \<not> is_boundary c) (take (n - j - 1) b)"
    using b by (auto simp: list_all_iff dest: in_set_takeD)
  have j: "length (take j t) = j" using assms(5,6) by simp
  have no: "list_all (\<lambda>c. \<not> is_open c) (take (n - j - 1) b)" "list_all (\<lambda>c. \<not> is_boundary c) (CHR ''<'' # take (n - j - 1) b)"
    using q by (auto simp: list_all_iff is_boundary_def)
  show "last_index is_open 0 (take n t) = int j"
    unfolding n using last_index_here [of is_open "CHR ''<''" _ 0 "take j t", OF _ no(1)] j by (simp add: is_open_def)
  show "last_index is_boundary 0 (take n t) < int j"
    unfolding n last_index_append last_index_None [OF no(2)] using last_index_ge [of is_boundary 0 "take j t"] j
    by (auto simp: moved_def)
qed

section \<open>The memory never changes what is found\<close>

text \<open>The memory of a key fits a text: what it has searched holds no tag, and its positions are right.\<close>

definition nothing_in :: "(string \<times> string) list \<Rightarrow> string \<Rightarrow> bool" where
  "nothing_in tags t \<longleftrightarrow> list_all (\<lambda>tag. search_tag (fst tag) t = None) tags"

definition bounds_fit :: "nat \<Rightarrow> nat \<times> int \<times> int \<Rightarrow> string \<Rightarrow> bool" where
  "bounds_fit n c t \<longleftrightarrow> fst c \<le> n \<and> snd c = (last_index is_open 0 (take (fst c) t), last_index is_boundary 0 (take (fst c) t))"

definition searched :: "string \<Rightarrow> (string \<times> string) list \<Rightarrow> dict \<Rightarrow> string \<Rightarrow> bool" where
  "searched ty tags item t \<longleftrightarrow>
     (if is_open_block ty item then split_at_first (as_str (get_or item ''end_tag'' (JStr []))) t = None else nothing_in tags t)"

definition memory_fits :: "scanner \<Rightarrow> string \<Rightarrow> (string \<times> string) list \<Rightarrow> dict \<Rightarrow> bool" where
  "memory_fits sc ty tags item \<longleftrightarrow>
     (case scan_positions sc (scan_key item ty) of
        None \<Rightarrow> boundary_positions sc (scan_key item ty) = None
      | Some n \<Rightarrow> n \<le> length (block_text item) \<and> searched ty tags item (take n (block_text item))
          \<and> (case boundary_positions sc (scan_key item ty) of None \<Rightarrow> True | Some c \<Rightarrow> bounds_fit n c (block_text item)))"

lemma longest_start_ge: "tag \<in> set tags \<Longrightarrow> length (fst tag) \<le> longest_start tags"
  by (cases tag) (auto simp: longest_start_def intro!: Max_ge rev_image_eqI)

text \<open>Nothing starts before the place where the search resumes.\<close>

lemma nothing_before:
  assumes "tag \<in> set tags" and "plain_tag (fst tag)" and "plain_attributes (fst tag) t"
    and "nothing_in tags (take n t)" and "n \<le> length t"
    and "k = n + 1 - longest_start tags \<or> k = min (n + 1 - longest_start tags) (nat (last_index is_open 0 (take n t)))"
    and "is_angle_tag (fst tag) \<Longrightarrow> last_index is_boundary 0 (take n t) < last_index is_open 0 (take n t) \<Longrightarrow>
       int k \<le> last_index is_open 0 (take n t)"
    and "j < k"
  shows "match_start_tag (fst tag) (drop j t) = None"
proof (rule ccontr)
  let ?tag = "fst tag"
  assume "match_start_tag ?tag (drop j t) \<noteq> None"
  then obtain a r where m: "match_start_tag ?tag (drop j t) = Some (a, r)" by auto
  then obtain p where p: "drop j t = p @ r" using match_start_tag_text by (metis append.assoc append_Cons append_Nil)
  have k: "k \<le> n + 1 - longest_start tags" using assms(6) by auto
  have j: "j \<le> n" using k assms(8) by linarith
  then have jt: "j \<le> length t" using assms(5) by simp
  have len: "length p + length r + j = length t" using arg_cong [OF p, of length] jt by simp
  show False
  proof (cases "length p + j \<le> n")
    case True
    have "drop j (take n t) = take (n - j) (drop j t)" by (simp add: drop_take)
    also have "\<dots> = p @ take (n - j - length p) r" using True by (simp add: p)
    finally have "match_start_tag ?tag (drop j (take n t)) = Some (a, take (n - j - length p) r)"
      using match_start_tag_prefix [OF m p] by simp
    moreover have "search_tag ?tag (take n t) = None" using assms(1,4) by (simp add: nothing_in_def list_all_iff)
    ultimately show False using j assms(5) unfolding search_tag_None by (metis length_take min.absorb2 option.distinct(1))
  next
    case False
    show False
    proof (cases "length p \<le> longest_start tags")
      case True
      then show False using False k assms(8) by linarith
    next
      case long: False
      have angle: "is_angle_tag ?tag"
        using match_start_tag_text [OF m] long longest_start_ge [OF assms(1)] p by auto
      have "j < n"
        using k assms(8) longest_start_ge [OF assms(1)] angle by (cases "fst tag") (auto simp: is_angle_tag_def)
      moreover have "n < length t - length r" using False len by simp
      ultimately have "last_index is_open 0 (take n t) = int j" "last_index is_boundary 0 (take n t) < int j"
        using open_tag_is_last [OF assms(2) angle assms(3) m] by simp_all
      then show False using assms(7) [OF angle] assms(8) by simp
    qed
  qed
qed

definition plain_in :: "(string \<times> string) list \<Rightarrow> string \<Rightarrow> bool" where
  "plain_in tags t \<longleftrightarrow> list_all (\<lambda>tag. plain_tag (fst tag) \<and> plain_attributes (fst tag) t) tags"

lemma first_tag_0: "first_tag 0 t tags = None \<longleftrightarrow> nothing_in tags t"
  by (induction tags) (auto simp: nothing_in_def split: option.splits)

lemma first_tag_skip:
  assumes "\<And>tag. tag \<in> set tags \<Longrightarrow> search_tag_from n (fst tag) t = search_tag (fst tag) t"
  shows "first_tag n t tags = first_tag 0 t tags"
  using assms
proof (induction tags)
  case (Cons tag tags)
  have "first_tag n t tags = first_tag 0 t tags" using Cons.prems by (intro Cons.IH) simp
  then show ?case using Cons.prems [of tag] by (simp split: option.split)
qed simp

lemma tag_boundaries_fit:
  assumes "\<And>c. boundary_positions sc (scan_key item ty) = Some c \<Longrightarrow> bounds_fit n c t" and "n \<le> length t"
  obtains sc' where "tag_boundaries sc item ty t n = (sc', last_index is_open 0 (take n t), last_index is_boundary 0 (take n t))"
    and "scan_positions sc' = scan_positions sc" and "\<And>c. boundary_positions sc' (scan_key item ty) = Some c \<Longrightarrow> bounds_fit n c t"
    and "\<And>key. key \<noteq> scan_key item ty \<Longrightarrow> boundary_positions sc' key = boundary_positions sc key"
proof -
  define c where "c = (case boundary_positions sc (scan_key item ty) of None \<Rightarrow> (0, - 1, - 1) | Some c \<Rightarrow> c)"
  have c: "bounds_fit n c t"
    using assms(1) by (cases "boundary_positions sc (scan_key item ty)") (simp_all add: c_def bounds_fit_def)
  obtain m opened closed where m: "c = (m, opened, closed)" by (cases c)
  have fit: "m \<le> n" "opened = last_index is_open 0 (take m t)" "closed = last_index is_boundary 0 (take m t)"
    using c by (auto simp: bounds_fit_def m)
  have moves: "moved (rfind_between P t m n) (last_index P 0 (take m t)) = last_index P 0 (take n t)" for P
    using rfind_moved fit(1) assms(2) by blast
  show ?thesis
  proof (cases "m < n")
    case True
    let ?sc = "sc\<lparr>boundary_positions := (boundary_positions sc)(scan_key item ty \<mapsto>
       (n, last_index is_open 0 (take n t), last_index is_boundary 0 (take n t)))\<rparr>"
    show ?thesis
    proof (rule that [of ?sc])
      show "tag_boundaries sc item ty t n = (?sc, last_index is_open 0 (take n t), last_index is_boundary 0 (take n t))"
        using True fit moves by (simp add: tag_boundaries_def Let_def m flip: c_def)
    qed (auto simp: bounds_fit_def)
  next
    case False
    show ?thesis
    proof (rule that [of sc])
      show "tag_boundaries sc item ty t n = (sc, last_index is_open 0 (take n t), last_index is_boundary 0 (take n t))"
        using False fit by (simp add: tag_boundaries_def Let_def m flip: c_def)
      show "bounds_fit n c' t" if "boundary_positions sc (scan_key item ty) = Some c'" for c'
        using that c by (simp add: c_def)
    qed auto
  qed
qed

text \<open>A resumed search for start tags finds what a search of the whole text finds.\<close>

lemma search_start_exact:
  assumes "memory_fits sc ty tags item" and "\<not> is_open_block ty item" and "plain_in tags (block_text item)"
  obtains sc' n where "search_start sc item ty tags (block_text item) = (sc', n)"
    and "first_tag n (block_text item) tags = first_tag 0 (block_text item) tags"
    and "scan_positions sc' = scan_positions sc"
    and "\<And>c. boundary_positions sc' (scan_key item ty) = Some c \<Longrightarrow> bounds_fit (length (block_text item)) c (block_text item)"
    and "\<And>key. key \<noteq> scan_key item ty \<Longrightarrow> boundary_positions sc' key = boundary_positions sc key"
    and "truthy (get item ''id'') \<or> sc' = sc"
proof -
  let ?t = "block_text item"
  let ?n = "scanned_length sc item ty ?t"
  let ?from = "?n + 1 - longest_start tags"
  have long: "1 \<le> longest_start tags"
  proof (cases "tags = []")
    case False
    then obtain tag where tag: "tag \<in> set tags" by (cases tags) auto
    then have "fst tag \<noteq> []" using assms(3) by (auto simp: plain_in_def list_all_iff plain_tag_def)
    then show ?thesis using longest_start_ge [OF tag] by (cases "fst tag") auto
  qed (simp add: longest_start_def)
  have bounds: "bounds_fit (length ?t) c ?t" if "boundary_positions sc (scan_key item ty) = Some c" for c
    using assms(1) that by (auto simp: memory_fits_def bounds_fit_def split: option.splits)
  show ?thesis
  proof (cases "?n = 0")
    case True
    then show ?thesis using that [of sc 0] long bounds by (simp add: search_start_def Let_def)
  next
    case False
    then have n: "scan_positions sc (scan_key item ty) = Some ?n" "?n \<le> length ?t"
      by (auto simp: scanned_length_def split: if_splits option.splits)
    then have fits: "nothing_in tags (take ?n ?t)"
      "\<And>c. boundary_positions sc (scan_key item ty) = Some c \<Longrightarrow> bounds_fit ?n c ?t"
      using assms(1,2) by (auto simp: memory_fits_def searched_def)
    let ?open = "last_index is_open 0 (take ?n ?t)"
    let ?closed = "last_index is_boundary 0 (take ?n ?t)"
    have skip: "first_tag k ?t tags = first_tag 0 ?t tags"
      if "k = ?from \<or> k = min ?from (nat ?open)" and "list_ex (\<lambda>(s, e). is_angle_tag s) tags \<Longrightarrow> ?closed < ?open \<Longrightarrow> int k \<le> ?open" for k
    proof (rule first_tag_skip)
      fix tag
      assume tag: "tag \<in> set tags"
      have angle: "is_angle_tag (fst tag) \<Longrightarrow> list_ex (\<lambda>(s, e). is_angle_tag s) tags"
        unfolding list_ex_iff using tag by (intro bexI [of _ tag]) (auto split: prod.split)
      have p: "plain_tag (fst tag)" "plain_attributes (fst tag) ?t" using assms(3) tag by (auto simp: plain_in_def list_all_iff)
      show "search_tag_from k (fst tag) ?t = search_tag (fst tag) ?t"
        using nothing_before [OF tag p fits(1) n(2) that(1)] that(2) angle by (intro search_tag_skip) blast
    qed
    show ?thesis
    proof (cases "list_ex (\<lambda>(s, e). is_angle_tag s) tags")
      case True
      obtain sc' where sc': "tag_boundaries sc item ty ?t ?n = (sc', ?open, ?closed)"
        "scan_positions sc' = scan_positions sc" "\<And>c. boundary_positions sc' (scan_key item ty) = Some c \<Longrightarrow> bounds_fit ?n c ?t"
        "\<And>key. key \<noteq> scan_key item ty \<Longrightarrow> boundary_positions sc' key = boundary_positions sc key"
        using tag_boundaries_fit [of sc item ty ?n ?t] fits(2) n(2) by metis
      let ?k = "if ?open > ?closed then min ?from (nat ?open) else ?from"
      have "?open > ?closed \<Longrightarrow> 0 \<le> ?open" using last_index_ge [of is_boundary 0 "take ?n ?t"] by linarith
      then have "first_tag ?k ?t tags = first_tag 0 ?t tags" by (intro skip) auto
      moreover have "search_start sc item ty tags ?t = (sc', ?k)"
        using False True sc'(1) by (simp add: search_start_def Let_def)
      moreover have "bounds_fit (length ?t) c ?t" if "boundary_positions sc' (scan_key item ty) = Some c" for c
        using sc'(3) [OF that] n(2) by (auto simp: bounds_fit_def)
      moreover have "truthy (get item ''id'')" using False by (auto simp: scanned_length_def split: if_splits)
      ultimately show ?thesis using that [of sc' ?k] sc'(2,4) by blast
    next
      case no: False
      have "first_tag ?from ?t tags = first_tag 0 ?t tags" using no by (intro skip) auto
      moreover have "search_start sc item ty tags ?t = (sc, ?from)" using no by (auto simp: search_start_def Let_def)
      ultimately show ?thesis using that [of sc ?from] bounds by blast
    qed
  qed
qed

lemma split_at_first_None: "split_at_first p s = None \<longleftrightarrow> (\<forall>n \<le> length s. after_prefix p (drop n s) = None)"
proof (induction s)
  case (Cons c cs)
  have "(\<forall>n \<le> length (c # cs). after_prefix p (drop n (c # cs)) = None) \<longleftrightarrow>
      after_prefix p (c # cs) = None \<and> (\<forall>n \<le> length cs. after_prefix p (drop n cs) = None)"
    (is "?all \<longleftrightarrow> ?now \<and> ?later")
  proof
    assume a: ?all
    have "after_prefix p (drop n cs) = None" if "n \<le> length cs" for n
      using a [rule_format, of "Suc n"] that by simp
    then show "?now \<and> ?later" using a [rule_format, of 0] by simp
  next
    assume a: "?now \<and> ?later"
    show ?all using a by (auto split: nat.split simp: drop_Cons)
  qed
  then show ?case using Cons by (auto split: option.splits)
qed (auto simp: after_prefix_def)

lemma after_prefix_take: "after_prefix p s = Some r \<Longrightarrow> length p \<le> n \<Longrightarrow> after_prefix p (take n s) \<noteq> None"
  unfolding after_prefix_Some by (simp add: after_prefix_def)

text \<open>A resumed search for an end tag finds what a search of the whole text finds.\<close>

lemma end_search_exact:
  assumes "split_at_first p (take n t) = None" and "n \<le> length t"
  shows "split_at_first p (drop (n + 1 - max (length p) 1) t) = None \<longleftrightarrow> split_at_first p t = None"
proof
  let ?from = "n + 1 - max (length p) 1"
  assume late: "split_at_first p (drop ?from t) = None"
  have p: "p \<noteq> []" using assms(1) by (cases "take n t") (auto simp: after_prefix_def)
  have "after_prefix p (drop j t) = None" if j: "j \<le> length t" for j
  proof (cases "j < ?from")
    case True
    then have le: "j + length p \<le> n" by auto
    have "drop j (take n t) = take (n - j) (drop j t)" by (simp add: drop_take)
    moreover have "after_prefix p (drop j (take n t)) = None"
      using assms(1) le assms(2) unfolding split_at_first_None by simp
    ultimately show ?thesis using after_prefix_take [of p "drop j t" _ "n - j"] le by (metis add_le_imp_le_diff add.commute option.exhaust)
  next
    case False
    then have "drop j t = drop (j - ?from) (drop ?from t)" by simp
    moreover have "j - ?from \<le> length (drop ?from t)" using j by simp
    ultimately show ?thesis using late unfolding split_at_first_None by metis
  qed
  then show "split_at_first p t = None" unfolding split_at_first_None by blast
next
  let ?from = "n + 1 - max (length p) 1"
  assume all: "split_at_first p t = None"
  have "?from \<le> length t" using assms(2) by simp
  then have "after_prefix p (drop j (drop ?from t)) = None" if "j \<le> length (drop ?from t)" for j
    using all that unfolding split_at_first_None by (simp add: add.commute)
  then show "split_at_first p (drop ?from t) = None" unfolding split_at_first_None by blast
qed

section \<open>Scanning with and without memory\<close>

definition unknown :: "scanner \<Rightarrow> json \<Rightarrow> bool" where
  "unknown sc i \<longleftrightarrow> (\<forall>ty. scan_positions sc (i, ty) = None \<and> boundary_positions sc (i, ty) = None)"

text \<open>The ids drawn are new to the scanner and differ from each other and from the item's.\<close>

definition fresh_ids :: "scan_env \<Rightarrow> scanner \<Rightarrow> dict \<Rightarrow> bool" where
  "fresh_ids env sc item \<longleftrightarrow> unknown sc (JStr (se_block env)) \<and> unknown sc (JStr (se_message env))
     \<and> se_block env \<noteq> se_message env \<and> get item ''id'' \<notin> {JStr (se_block env), JStr (se_message env)}"

text \<open>Only the scanned item's memory of the kind of tag changes, or that of the block just opened.\<close>

definition memory_frame :: "scanner \<Rightarrow> scanner \<Rightarrow> json set \<Rightarrow> string \<Rightarrow> bool" where
  "memory_frame sc sc' ids ty \<longleftrightarrow>
     (\<forall>key. fst key \<notin> ids \<or> snd key \<noteq> ty \<longrightarrow>
        scan_positions sc' key = scan_positions sc key \<and> boundary_positions sc' key = boundary_positions sc key)"

lemma memory_frame_refl [simp]: "memory_frame sc sc ids ty"
  by (simp add: memory_frame_def)

lemma memory_frame_trans:
  "memory_frame sc sc' ids ty \<Longrightarrow> memory_frame sc' sc'' ids ty \<Longrightarrow> memory_frame sc sc'' ids ty"
  by (simp add: memory_frame_def)

lemma memory_frame_save: "get item ''id'' \<in> ids \<Longrightarrow> memory_frame sc (save_scanned_length item ty t sc) ids ty"
  by (auto simp: memory_frame_def save_scanned_length_def scan_key_def)

lemma memory_frame_clear: "get item ''id'' \<in> ids \<Longrightarrow> memory_frame sc (clear_scanned_length item ty sc) ids ty"
  by (auto simp: memory_frame_def clear_scanned_length_def scan_key_def)

lemma unknown_fits: "unknown sc (get item ''id'') \<Longrightarrow> memory_fits sc ty tags item"
  by (simp add: memory_fits_def unknown_def scan_key_def)

lemma unknown_new [simp]: "unknown new_scanner i"
  by (simp add: unknown_def new_scanner_def)

lemma unknown_frame: "memory_frame sc sc' ids ty \<Longrightarrow> i \<notin> ids \<Longrightarrow> unknown sc' i = unknown sc i"
  by (auto simp: memory_frame_def unknown_def)

lemma close_block_memoryless:
  assumes "memory_fits sc ty tags (last output)" and "is_open_block ty (last output)"
  shows "snd (close_block env sc ty output) =
      (if split_at_first (as_str (get_or (last output) ''end_tag'' (JStr []))) (block_text (last output)) = None then (output, False)
       else (case block_parts (as_str (get_or (last output) ''start_tag'' (JStr []))) (as_str (get_or (last output) ''end_tag'' (JStr [])))
               (block_text (last output)) of (b, r) \<Rightarrow>
          (butlast output @ (if b = [] then [] else [finished_block env b (last output)]) @ [message_output_item (se_message env) r], True)))"
    and "memory_frame sc (fst (close_block env sc ty output)) {get (last output) ''id''} ty"
proof -
  let ?item = "last output"
  let ?t = "block_text ?item"
  let ?fin = "as_str (get_or ?item ''end_tag'' (JStr []))"
  let ?n = "scanned_length sc ?item ty ?t"
  have n: "?n = 0 \<or> ?n \<le> length ?t \<and> split_at_first ?fin (take ?n ?t) = None"
    using assms by (auto simp: scanned_length_def memory_fits_def searched_def split: if_splits option.splits)
  have "split_at_first ?fin (drop (?n + 1 - max (length ?fin) 1) ?t) = None \<longleftrightarrow> split_at_first ?fin ?t = None"
    using n end_search_exact [of ?fin ?n ?t] by (cases "?n = 0") auto
  then show "snd (close_block env sc ty output) =
      (if split_at_first ?fin ?t = None then (output, False)
       else (case block_parts (as_str (get_or ?item ''start_tag'' (JStr []))) ?fin ?t of (b, r) \<Rightarrow>
          (butlast output @ (if b = [] then [] else [finished_block env b ?item]) @ [message_output_item (se_message env) r], True)))"
    by (simp add: close_block_def Let_def split: prod.split)
  show "memory_frame sc (fst (close_block env sc ty output)) {get ?item ''id''} ty"
    by (auto simp: close_block_def Let_def memory_frame_save memory_frame_clear split: prod.split)
qed

definition tag_kinds :: "string set" where
  "tag_kinds = {''reasoning'', ''solution'', ''code_interpreter''}"

lemma block_item_facts:
  "get (tag_block_item env ty start fin attrs) ''id'' = JStr (se_block env)"
  "ty \<in> tag_kinds \<Longrightarrow> is_open_block ty (tag_block_item env ty start fin attrs)"
  by (auto simp: tag_block_item_def block_head_def message_output_item_def get_or_def is_open_block_def has_type_def
      tag_output_type_def tag_kinds_def CODE_INTERPRETER_def)

lemma with_text_after_keeps: "k \<noteq> ''content'' \<Longrightarrow> k \<noteq> ''code'' \<Longrightarrow> get_or (with_text_after t item) k v = get_or item k v"
  by (simp add: with_text_after_def put_last_part_text_def Let_def get_or_dict_set)

lemma opened_block_facts:
  "get (with_text_after t (tag_block_item env ty start fin attrs)) ''id'' = JStr (se_block env)"
  "ty \<in> tag_kinds \<Longrightarrow> is_open_block ty (with_text_after t (tag_block_item env ty start fin attrs))"
  using block_item_facts [where env = env and ty = ty and start = start and fin = fin and attrs = attrs]
  by (simp_all add: with_text_after_keeps is_open_block_def has_type_def)

lemma message_output_item_id: "get (message_output_item i t) ''id'' = JStr i"
  by (simp add: message_output_item_def get_or_def)

lemma fits_frame:
  "memory_frame sc sc' ids ty \<Longrightarrow> ty' \<noteq> ty \<Longrightarrow> memory_fits sc' ty' tags item = memory_fits sc ty' tags item"
  by (auto simp: memory_frame_def memory_fits_def scan_key_def split: option.splits)

lemma fits_save:
  assumes "memory_fits sc ty tags item" and "searched ty tags item (block_text item)"
    and "scan_positions sc' = scan_positions sc"
    and "\<And>c. boundary_positions sc' (scan_key item ty) = Some c \<Longrightarrow> bounds_fit (length (block_text item)) c (block_text item)"
    and "truthy (get item ''id'') \<or> sc' = sc"
  shows "memory_fits (save_scanned_length item ty (block_text item) sc') ty tags item"
  using assms by (auto simp: memory_fits_def save_scanned_length_def split: option.splits)

text \<open>One call for an open block: what it leaves as the last item, and what it remembers of it.\<close>

lemma close_block_step:
  assumes "memory_fits sc ty tags (last output)" and "is_open_block ty (last output)"
    and "unknown sc (JStr (se_message env))" and "get (last output) ''id'' \<noteq> JStr (se_message env)"
  shows "snd (close_block env sc ty output) = snd (close_block env new_scanner ty output)"
    and "memory_frame sc (fst (close_block env sc ty output)) {get (last output) ''id''} ty"
    and "memory_fits (fst (close_block env sc ty output)) ty tags (last (fst (snd (close_block env sc ty output))))"
    and "last (fst (snd (close_block env sc ty output))) = last output
      \<or> get (last (fst (snd (close_block env sc ty output)))) ''id'' = JStr (se_message env)"
proof -
  let ?item = "last output"
  let ?fin = "as_str (get_or ?item ''end_tag'' (JStr []))"
  let ?r = "close_block env sc ty output"
  have new: "memory_fits new_scanner ty tags ?item" by (rule unknown_fits) simp
  show "snd ?r = snd (close_block env new_scanner ty output)"
    by (simp only: close_block_memoryless(1) [OF assms(1,2)] close_block_memoryless(1) [OF new assms(2)])
  show frame: "memory_frame sc (fst ?r) {get ?item ''id''} ty" by (rule close_block_memoryless(2) [OF assms(1,2)])
  have "memory_fits (fst ?r) ty tags (last (fst (snd ?r))) \<and>
      (last (fst (snd ?r)) = ?item \<or> get (last (fst (snd ?r))) ''id'' = JStr (se_message env))"
  proof (cases "split_at_first ?fin (block_text ?item) = None")
    case True
    then have r: "snd ?r = (output, False)" using close_block_memoryless(1) [OF assms(1,2), of env] by simp
    have "fst ?r = save_scanned_length ?item ty (block_text ?item) sc"
      using r by (auto simp: close_block_def Let_def split: if_splits prod.splits)
    moreover have "searched ty tags ?item (block_text ?item)" using True assms(2) by (simp add: searched_def)
    moreover have "bounds_fit (length (block_text ?item)) c (block_text ?item)" if "boundary_positions sc (scan_key ?item ty) = Some c" for c
      using assms(1) that by (auto simp: memory_fits_def bounds_fit_def split: option.splits)
    ultimately show ?thesis using r fits_save [OF assms(1)] by simp
  next
    case False
    then obtain bs t where r: "fst (snd ?r) = bs @ [message_output_item (se_message env) t]"
      using close_block_memoryless(1) [OF assms(1,2), of env] by (auto split: prod.splits)
    have "unknown (fst ?r) (JStr (se_message env))" using unknown_frame [OF frame] assms(3,4) by auto
    then show ?thesis unfolding r by (simp add: unknown_fits message_output_item_id)
  qed
  then show "memory_fits (fst ?r) ty tags (last (fst (snd ?r)))"
    and "last (fst (snd ?r)) = ?item \<or> get (last (fst (snd ?r))) ''id'' = JStr (se_message env)" by blast+
qed

text \<open>Opening a block: the items drawn are new, so only they and the message are remembered.\<close>

lemma split_step:
  assumes "unknown sc (JStr (se_block env))" and "unknown sc (JStr (se_message env))" and "se_block env \<noteq> se_message env"
    and "get (last output) ''id'' \<notin> {JStr (se_block env), JStr (se_message env)}" and "ty \<in> tag_kinds"
  defines "ids \<equiv> {get (last output) ''id'', JStr (se_block env)}"
  shows "snd (split_at_start_tag env sc ty output tag m) = snd (split_at_start_tag env new_scanner ty output tag m)"
    and "memory_frame sc (fst (split_at_start_tag env sc ty output tag m)) ids ty"
    and "memory_fits (fst (split_at_start_tag env sc ty output tag m)) ty tags
      (last (fst (snd (split_at_start_tag env sc ty output tag m))))"
    and "get (last (fst (snd (split_at_start_tag env sc ty output tag m)))) ''id'' \<in> {JStr (se_block env), JStr (se_message env)}"
proof -
  obtain start fin before attrs after where tm: "tag = (start, fin)" "m = (before, attrs, after)" by (cases tag; cases m) auto
  define out where "out = (if strip_text before = [] then butlast (set_last_output_text output before) else set_last_output_text output before)"
  define block where "block = tag_block_item env ty start fin (tag_attributes attrs)"
  define c where "c = clear_scanned_length (last output) ty sc"
  define c0 where "c0 = clear_scanned_length (last output) ty new_scanner"
  have split: "split_at_start_tag env sc ty output tag m =
      (if after = [] then (c, out @ [block], False) else close_block env c ty (out @ [with_text_after after block]))"
    "split_at_start_tag env new_scanner ty output tag m =
      (if after = [] then (c0, out @ [block], False) else close_block env c0 ty (out @ [with_text_after after block]))"
    by (simp_all add: split_at_start_tag_def tm Let_def out_def block_def c_def c0_def)
  have frame: "memory_frame sc c ids ty" by (simp add: c_def ids_def memory_frame_clear)
  have u: "unknown c (JStr (se_block env))" "unknown c (JStr (se_message env))" "unknown c0 (JStr (se_block env))"
    using assms(1,2) by (auto simp: unknown_def c_def c0_def clear_scanned_length_def new_scanner_def)
  let ?o = "out @ [with_text_after after block]"
  have b: "get block ''id'' = JStr (se_block env)" "get (last ?o) ''id'' = JStr (se_block env)" "is_open_block ty (last ?o)"
    using opened_block_facts assms(5) by (simp_all add: block_def block_item_facts(1))
  have fit: "memory_fits c ty tags (last ?o)" "memory_fits c0 ty tags (last ?o)" "memory_fits c ty tags block"
    using b(1,2) u by (auto intro!: unknown_fits)
  have other: "get (last ?o) ''id'' \<noteq> JStr (se_message env)" using assms(3) b by simp
  note close = close_block_step [OF fit(1) b(3) u(2) other]
  show "snd (split_at_start_tag env sc ty output tag m) = snd (split_at_start_tag env new_scanner ty output tag m)"
    using close_block_memoryless(1) [OF fit(1) b(3)] close_block_memoryless(1) [OF fit(2) b(3)] by (simp add: split)
  have "memory_frame c (fst (close_block env c ty ?o)) ids ty"
    using close(2) b(2) by (auto simp: memory_frame_def ids_def)
  then show "memory_frame sc (fst (split_at_start_tag env sc ty output tag m)) ids ty"
    using frame memory_frame_trans by (auto simp: split)
  show "memory_fits (fst (split_at_start_tag env sc ty output tag m)) ty tags
      (last (fst (snd (split_at_start_tag env sc ty output tag m))))"
    using close(3) fit(3) by (simp add: split)
  show "get (last (fst (snd (split_at_start_tag env sc ty output tag m)))) ''id'' \<in> {JStr (se_block env), JStr (se_message env)}"
    using close(4) b by (auto simp: split)
qed

lemma scan_step:
  assumes "output \<noteq> []" and "memory_fits sc ty tags (last output)" and "plain_in tags (block_text (last output))"
    and "fresh_ids env sc (last output)" and "ty \<in> tag_kinds"
  defines "ids \<equiv> {get (last output) ''id'', JStr (se_block env)}"
  shows "snd (scan env sc ty tags output) = snd (scan env new_scanner ty tags output)"
    and "memory_frame sc (fst (scan env sc ty tags output)) ids ty"
    and "last (fst (snd (scan env sc ty tags output))) = last output \<Longrightarrow>
      memory_frame sc (fst (scan env sc ty tags output)) {get (last output) ''id''} ty"
    and "memory_fits (fst (scan env sc ty tags output)) ty tags (last (fst (snd (scan env sc ty tags output))))"
    and "last (fst (snd (scan env sc ty tags output))) = last output
      \<or> get (last (fst (snd (scan env sc ty tags output)))) ''id'' \<in> {JStr (se_block env), JStr (se_message env)}"
proof -
  let ?item = "last output"
  let ?t = "block_text ?item"
  let ?r = "scan env sc ty tags output"
  from assms(4) have fresh: "unknown sc (JStr (se_block env))" "unknown sc (JStr (se_message env))" "se_block env \<noteq> se_message env"
    "get ?item ''id'' \<notin> {JStr (se_block env), JStr (se_message env)}"
    by (simp_all add: fresh_ids_def)
  have new: "memory_fits new_scanner ty tags ?item" by (rule unknown_fits) simp
  have "snd ?r = snd (scan env new_scanner ty tags output) \<and> memory_frame sc (fst ?r) ids ty
    \<and> (last (fst (snd ?r)) = ?item \<longrightarrow> memory_frame sc (fst ?r) {get ?item ''id''} ty)
    \<and> memory_fits (fst ?r) ty tags (last (fst (snd ?r)))
    \<and> (last (fst (snd ?r)) = ?item \<or> get (last (fst (snd ?r))) ''id'' \<in> {JStr (se_block env), JStr (se_message env)})"
  proof (cases "is_open_block ty ?item")
    case True
    then have r: "?r = close_block env sc ty output" "scan env new_scanner ty tags output = close_block env new_scanner ty output"
      using assms(1) by (simp_all add: scan_def)
    have "get ?item ''id'' \<noteq> JStr (se_message env)" using fresh(4) by simp
    note close = close_block_step [OF assms(2) True fresh(2) this]
    show ?thesis using close unfolding r by (auto simp: memory_frame_def ids_def)
  next
    case False
    show ?thesis
    proof (cases "has_type ''message'' ?item")
      case True
      then have t: "last_output_text output = ?t" using assms(1) by (simp add: last_output_text_def block_text_def has_type_def CODE_INTERPRETER_def)
      have r: "scan env sc' ty tags output = open_block env sc' ty tags output" for sc'
        using assms(1) True False by (simp add: scan_def)
      obtain sc' n where s: "search_start sc ?item ty tags ?t = (sc', n)" "first_tag n ?t tags = first_tag 0 ?t tags"
        "scan_positions sc' = scan_positions sc"
        "\<And>c. boundary_positions sc' (scan_key ?item ty) = Some c \<Longrightarrow> bounds_fit (length ?t) c ?t"
        "\<And>key. key \<noteq> scan_key ?item ty \<Longrightarrow> boundary_positions sc' key = boundary_positions sc key"
        "truthy (get ?item ''id'') \<or> sc' = sc"
        by (rule search_start_exact [OF assms(2) False assms(3)]) blast
      obtain sc0 n0 where s0: "search_start new_scanner ?item ty tags ?t = (sc0, n0)" "first_tag n0 ?t tags = first_tag 0 ?t tags"
        "scan_positions sc0 = scan_positions new_scanner"
        "\<And>key. key \<noteq> scan_key ?item ty \<Longrightarrow> boundary_positions sc0 key = boundary_positions new_scanner key"
        by (rule search_start_exact [OF new False assms(3)]) blast
      have key: "scan_key ?item ty = key \<Longrightarrow> fst key = get ?item ''id''" for key by (auto simp: scan_key_def)
      have frame: "memory_frame sc sc' ids ty" "memory_frame sc sc' {get ?item ''id''} ty"
        using s(3,5) by (auto simp: memory_frame_def ids_def scan_key_def)
      have u: "unknown sc' (JStr (se_block env))" "unknown sc' (JStr (se_message env))" "unknown sc0 (JStr (se_block env))"
        "unknown sc0 (JStr (se_message env))"
        using fresh s(3,5) s0(3,4) by (auto simp: unknown_def scan_key_def new_scanner_def)
      show ?thesis
      proof (cases "first_tag 0 ?t tags")
        case None
        have "nothing_in tags ?t" using None first_tag_0 by blast
        then have "searched ty tags ?item ?t" using False by (simp add: searched_def)
        moreover have "?r = (save_scanned_length ?item ty ?t sc', output, False)"
          "snd (scan env new_scanner ty tags output) = (output, False)"
          using None s(1,2) s0(1,2) by (simp_all add: r open_block_def Let_def t)
        ultimately show ?thesis
          using fits_save [OF assms(2) _ s(3,4,6)] memory_frame_trans [OF frame(1) memory_frame_save]
            memory_frame_trans [OF frame(2) memory_frame_save] by (simp add: ids_def)
      next
        case (Some tm)
        obtain tag m where tm: "tm = (tag, m)" by (cases tm)
        have e: "?r = split_at_start_tag env sc' ty output tag m"
          "scan env new_scanner ty tags output = split_at_start_tag env sc0 ty output tag m"
          using Some tm s(1,2) s0(1,2) by (simp_all add: r open_block_def Let_def t)
        note sp = split_step [OF u(1,2) fresh(3,4) assms(5), where tag = tag and m = m]
        let ?s = "split_at_start_tag env sc' ty output tag m"
        have anew: "snd (split_at_start_tag env sc0 ty output tag m) = snd (split_at_start_tag env new_scanner ty output tag m)"
          by (rule split_step(1) [OF u(3,4) fresh(3,4) assms(5)])
        have "last (fst (snd ?s)) \<noteq> ?item" using sp(4) fresh(4) by auto
        moreover have "memory_frame sc (fst ?s) ids ty" using memory_frame_trans [OF frame(1)] sp(2) by (simp add: ids_def)
        moreover have "snd ?s = snd (split_at_start_tag env sc0 ty output tag m)" by (simp only: anew sp(1))
        ultimately show ?thesis unfolding e using sp(3,4) by blast
      qed
    next
      case no: False
      then have "scan env sc' ty tags output = (sc', output, False)" for sc'
        using False by (simp add: scan_def)
      then show ?thesis using assms(2) by simp
    qed
  qed
  then show "snd ?r = snd (scan env new_scanner ty tags output)" "memory_frame sc (fst ?r) ids ty"
    "last (fst (snd ?r)) = ?item \<Longrightarrow> memory_frame sc (fst ?r) {get ?item ''id''} ty"
    "memory_fits (fst ?r) ty tags (last (fst (snd ?r)))"
    "last (fst (snd ?r)) = ?item \<or> get (last (fst (snd ?r))) ''id'' \<in> {JStr (se_block env), JStr (se_message env)}"
    by blast+
qed

lemma close_not_Nil: "output \<noteq> [] \<Longrightarrow> fst (snd (close_block env sc ty output)) \<noteq> []"
  by (simp add: close_block_def Let_def split: prod.split)

lemma split_start_not_Nil: "fst (snd (split_at_start_tag env sc ty output tag m)) \<noteq> []"
  by (simp add: split_at_start_tag_def Let_def close_not_Nil split: prod.split)

lemma scan_not_Nil: "output \<noteq> [] \<Longrightarrow> fst (snd (scan env sc ty tags output)) \<noteq> []"
  by (simp add: scan_def close_not_Nil open_block_def Let_def split_start_not_Nil split: prod.split option.split)

section \<open>Streaming into one item\<close>

text \<open>Text that arrives for the last item (\<open>_append_text\<close>).\<close>

definition add_text :: "string \<Rightarrow> dict \<Rightarrow> dict" where
  "add_text t item =
     (if ends_in_text item then put_last_part_text (last_part_text item @ t) item
      else dict_set ''content'' (JArr [output_text_part t]) item)"

definition extended :: "string \<Rightarrow> dict \<Rightarrow> dict" where
  "extended t item =
     (if has_type CODE_INTERPRETER item then dict_set ''code'' (JStr (as_str (get_or item ''code'' (JStr [])) @ t)) item
      else add_text t item)"

text \<open>Chunks of text, each followed by a scan, until a block is opened or closed.\<close>

fun scan_stream ::
  "scan_env \<Rightarrow> bool \<Rightarrow> scanner \<Rightarrow> string \<Rightarrow> (string \<times> string) list \<Rightarrow> dict list \<Rightarrow> string list \<Rightarrow> dict list \<times> string list" where
  "scan_stream env keep sc ty tags output [] = (output, [])"
| "scan_stream env keep sc ty tags output (t # ts) =
     (case scan env (if keep then sc else new_scanner) ty tags (butlast output @ [extended t (last output)]) of
        (sc', out, closed) \<Rightarrow>
          if get (last out) ''id'' \<noteq> get (last output) ''id'' then (out, ts) else scan_stream env keep sc' ty tags out ts)"

lemma put_text_facts:
  "k \<noteq> ''content'' \<Longrightarrow> get_or (put_last_part_text t item) k v = get_or item k v"
  "last_part_text (put_last_part_text t item) = (if ends_in_text item then t else last_part_text (put_last_part_text t item))"
  "ends_in_text item \<Longrightarrow> ends_in_text (put_last_part_text t item)"
  by (simp_all add: put_last_part_text_def last_part_text_def ends_in_text_def Let_def get_or_dict_set)

lemma add_text_facts:
  "k \<noteq> ''content'' \<Longrightarrow> get_or (add_text t item) k v = get_or item k v"
  "last_part_text (add_text t item) = last_part_text item @ t"
  "ends_in_text (add_text t item)"
  using put_text_facts
  by (auto simp: add_text_def get_or_dict_set last_part_text_def ends_in_text_def output_text_part_def put_last_part_text_def Let_def)
    (simp_all add: get_or_def)

lemma extended_facts:
  "k \<noteq> ''content'' \<Longrightarrow> k \<noteq> ''code'' \<Longrightarrow> get_or (extended t item) k v = get_or item k v"
  "block_text (extended t item) = block_text item @ t"
  by (simp_all add: extended_def add_text_facts block_text_def has_type_def get_or_dict_set)

lemma extended_open [simp]: "is_open_block ty (extended t item) = is_open_block ty item"
  by (simp add: is_open_block_def has_type_def extended_facts)

lemma fits_extended:
  assumes "memory_fits sc ty tags item"
  shows "memory_fits sc ty tags (extended t item)"
proof -
  have key: "scan_key (extended t item) ty = scan_key item ty" by (simp add: scan_key_def extended_facts)
  have s: "searched ty tags (extended t item) u = searched ty tags item u" for u
    by (simp add: searched_def extended_facts)
  have b: "bounds_fit n c (block_text item @ t)" if "bounds_fit n c (block_text item)" "n \<le> length (block_text item)" for n c
    using that by (simp add: bounds_fit_def)
  show ?thesis
    using assms b unfolding memory_fits_def key s extended_facts(2) by (auto split: option.splits)
qed

lemma match_extended:
  "match_start_tag tag s = Some (a, r) \<Longrightarrow> match_start_tag tag (s @ u) = Some (a, r @ u)"
  using match_start_tag_text [of tag s a r] match_start_tag_prefix [of tag s a r _ "r @ u"]
  by (metis append.assoc append_Cons append_Nil)

lemma plain_attributes_prefix:
  assumes "plain_attributes tag (t @ u)"
  shows "plain_attributes tag t"
  unfolding plain_attributes_def
proof (intro allI impI)
  fix n a r
  assume m: "match_start_tag tag (drop n t) = Some (a, r)"
  show "list_all (\<lambda>c. \<not> is_open c \<and> \<not> is_boundary c) a"
  proof (cases "n \<le> length t")
    case True
    then have "match_start_tag tag (drop n (t @ u)) = Some (a, r @ u)" using match_extended [OF m, of u] by simp
    then show ?thesis using assms unfolding plain_attributes_def by blast
  next
    case False
    then have "match_start_tag tag [] = Some (a, r)" using m by simp
    then have "a = []"
      using match_start_tag_text [of tag "[]" a r] by (auto simp: match_start_tag_def is_angle_tag_def split: if_splits)
    then show ?thesis by simp
  qed
qed

lemma plain_prefix: "plain_in tags (t @ u) \<Longrightarrow> plain_in tags t"
  unfolding plain_in_def list_all_iff using plain_attributes_prefix by blast

text \<open>
  C31. What the scanner remembers never changes what it finds: as text streams into an item in
  whatever pieces, the block is opened or closed at the same piece and with the same result as if
  every scan searched the item's whole text, provided the tags' names and attributes are on one line
  and have no angle bracket of their own.
\<close>

theorem memory_hides_no_tag:
  assumes "output \<noteq> []" and "fresh_ids env sc (last output)" and "unknown sc (get (last output) ''id'')"
    and "plain_in tags (block_text (last output) @ concat ts)" and "ty \<in> tag_kinds"
  shows "scan_stream env True sc ty tags output ts = scan_stream env False sc ty tags output ts"
proof -
  have "memory_fits sc ty tags (last output)" by (rule unknown_fits) (rule assms(3))
  with assms(1,2,4) have "scan_stream env True sc ty tags output ts = scan_stream env False sc0 ty tags output ts" for sc0
  proof (induction ts arbitrary: sc sc0 "output")
    case (Cons t ts)
    let ?item = "extended t (last output)"
    let ?out = "butlast output @ [?item]"
    have id: "get ?item ''id'' = get (last output) ''id''" by (simp add: extended_facts)
    have fits: "memory_fits sc ty tags (last ?out)" using fits_extended [OF Cons.prems(4)] by simp
    have plain: "plain_in tags (block_text (last ?out))"
      using plain_prefix [of tags "block_text (last output) @ t" "concat ts"] Cons.prems(3) by (simp add: extended_facts)
    have fresh: "fresh_ids env sc (last ?out)" using Cons.prems(2) by (simp add: fresh_ids_def id)
    have "?out \<noteq> []" by simp
    note st = scan_step [OF this fits plain fresh assms(5)]
    obtain sc' out closed where r: "scan env sc ty tags ?out = (sc', out, closed)" by (cases "scan env sc ty tags ?out") auto
    obtain sc1 where r0: "scan env new_scanner ty tags ?out = (sc1, out, closed)"
      using st(1) r by (cases "scan env new_scanner ty tags ?out") auto
    show ?case
    proof (cases "get (last out) ''id'' = get (last output) ''id''")
      case False
      then show ?thesis by (simp add: r r0)
    next
      case True
      then have "get (last out) ''id'' \<notin> {JStr (se_block env), JStr (se_message env)}"
        using Cons.prems(2) by (simp add: fresh_ids_def)
      then have same: "last out = ?item" using st(5) by (simp add: r)
      have frame: "memory_frame sc sc' {get (last output) ''id''} ty" using st(3) same by (simp add: r id)
      have "fresh_ids env sc' (last out)"
        using Cons.prems(2) unknown_frame [OF frame] by (auto simp: fresh_ids_def same id)
      moreover have "plain_in tags (block_text (last out) @ concat ts)"
        using Cons.prems(3) by (simp add: same extended_facts)
      moreover have "memory_fits sc' ty tags (last out)" using st(4) by (simp add: r)
      moreover have "out \<noteq> []" using scan_not_Nil [of ?out env sc ty tags] by (simp add: r)
      ultimately show ?thesis using Cons.IH [of out sc' sc1] by (simp add: r r0 True)
    qed
  qed simp
  then show ?thesis .
qed

lemma plain_attributes_iff:
  "plain_attributes tag t \<longleftrightarrow>
     list_all (\<lambda>n. case match_start_tag tag (drop n t) of None \<Rightarrow> True
        | Some (a, r) \<Rightarrow> list_all (\<lambda>c. \<not> is_open c \<and> \<not> is_boundary c) a) [0..<Suc (length t)]"
proof -
  have late: "drop n t = drop (min n (length t)) t" for n by (simp add: min_def)
  have "min n (length t) < Suc (length t)" for n by simp
  then show ?thesis
    unfolding plain_attributes_def list_all_iff set_upt
    by (auto split: option.splits) (metis atLeastLessThan_iff late le0 list_all_iff)+
qed

definition think_tags :: "(string \<times> string) list" where
  "think_tags = [(''<think>'', ''</think>'')]"

definition sample_env :: scan_env where
  "sample_env = \<lparr>se_block = ''r1'', se_message = ''m2'', se_now = JInt 5, se_since = (\<lambda>t. JInt 0)\<rparr>"

text \<open>A tag cut in two, after some text.\<close>

lemma memory_hides_no_tag_witness:
  "scan_stream sample_env True new_scanner ''reasoning'' think_tags [message_output_item ''m1'' []] [''Hi <th'', ''ink>So'', '' on'']
     = ([message_output_item ''m1'' ''Hi '',
         with_text_after ''So'' (tag_block_item sample_env ''reasoning'' ''<think>'' ''</think>'' [])], ['' on''])"
proof -
  have "plain_in think_tags (block_text (last [message_output_item ''m1'' []]) @ concat [''Hi <th'', ''ink>So'', '' on''])"
    unfolding plain_in_def think_tags_def plain_attributes_iff by code_simp
  moreover have "fresh_ids sample_env new_scanner (last [message_output_item ''m1'' []])"
    by (simp add: fresh_ids_def sample_env_def message_output_item_id)
  ultimately have "scan_stream sample_env True new_scanner ''reasoning'' think_tags [message_output_item ''m1'' []] [''Hi <th'', ''ink>So'', '' on'']
      = scan_stream sample_env False new_scanner ''reasoning'' think_tags [message_output_item ''m1'' []] [''Hi <th'', ''ink>So'', '' on'']"
    by (intro memory_hides_no_tag) (simp_all add: tag_kinds_def)
  also have "\<dots> = ([message_output_item ''m1'' ''Hi '',
         with_text_after ''So'' (tag_block_item sample_env ''reasoning'' ''<think>'' ''</think>'' [])], ['' on''])"
    by code_simp
  finally show ?thesis .
qed

text \<open>With a newline after its name, a tag that comes in two pieces is missed; in one piece it is found.\<close>

definition newline_tag :: "string list" where
  "newline_tag = [''<think'' @ [CHR 0x0A] @ ''x'', ''>So'']"

lemma newline_hides_tag:
  "scan_stream sample_env True new_scanner ''reasoning'' think_tags [message_output_item ''m1'' []] newline_tag
     = ([message_output_item ''m1'' (concat newline_tag)], [])"
  "scan_stream sample_env False new_scanner ''reasoning'' think_tags [message_output_item ''m1'' []] newline_tag
     = ([with_text_after ''So'' (tag_block_item sample_env ''reasoning'' ''<think>'' ''</think>'' [])], [])"
  by code_simp+

end
