(* ===== verification/DeltaBuffer.thy ===== *)
theory DeltaBuffer
  imports PyJson
begin

text \<open>
  Events of a streamed reply on their way to the client (\<open>_DeltaBuffer\<close> and \<open>emit_response_event\<close> of
  \<open>utils/middleware.py\<close>): consecutive deltas of one field are join_deltas to one event and sent in portions,
  any other event goes out at once, after what is pending. The snapshot saved at each portion is
  left out.
\<close>

section \<open>The buffer\<close>

definition response_delta_key :: "dict \<Rightarrow> (string \<times> json list) option" where
  "response_delta_key d =
     (case get_or d ''type'' (JStr []) of
        JStr ty \<Rightarrow> if prefix ''response.'' ty \<and> suffix ''.delta'' ty
                  then Some (ty, map (get d) [''item_id'', ''output_index'', ''content_index'', ''summary_index'']) else None
      | _ \<Rightarrow> None)"

record delta_buffer =
  db_count :: nat
  db_data :: dict
  db_type :: string
  db_key :: "(string \<times> json list) option"

text \<open>No data is an empty dict here: the code tests for truth.\<close>

definition empty_buffer :: delta_buffer where
  "empty_buffer = \<lparr>db_count = 0, db_data = [], db_type = [], db_key = None\<rparr>"

definition flush_buffer :: "nat \<Rightarrow> delta_buffer \<Rightarrow> delta_buffer \<times> dict list" where
  "flush_buffer threshold b =
     (if threshold \<le> db_count b \<and> db_data b \<noteq> [] then (empty_buffer, [db_data b]) else (b, []))"

definition join_deltas :: "dict \<Rightarrow> dict \<Rightarrow> dict" where
  "join_deltas d e = dict_set ''delta'' (JStr (as_str (get d ''delta'') @ as_str (get e ''delta''))) d"

text \<open>The two carry text for the same field, so the second continues the first.\<close>

definition continues :: "delta_buffer \<Rightarrow> dict \<Rightarrow> bool" where
  "continues b d \<longleftrightarrow> db_data b \<noteq> [] \<and> db_key b = response_delta_key d
     \<and> is_str (get (db_data b) ''delta'') \<and> is_str (get d ''delta'')"

definition queue_delta :: "nat \<Rightarrow> dict \<Rightarrow> string \<Rightarrow> delta_buffer \<Rightarrow> delta_buffer \<times> dict list" where
  "queue_delta chunk d ty b =
     (case (if continues b d then (b\<lparr>db_data := join_deltas (db_data b) d, db_count := db_count b + 1\<rparr>, [])
            else let (b1, out) = (if db_data b \<noteq> [] \<and> (db_type b \<noteq> ty \<or> db_key b \<noteq> response_delta_key d)
                                  then flush_buffer 0 b else (b, []))
                 in (\<lparr>db_count = db_count b1 + 1, db_data = d, db_type = ty, db_key = response_delta_key d\<rparr>, out))
      of (b2, out) \<Rightarrow> if chunk \<le> db_count b2 then (case flush_buffer chunk b2 of (b3, rest) \<Rightarrow> (b3, out @ rest)) else (b2, out))"

section \<open>Events\<close>

text \<open>\<open>_with_full_output_index\<close>: indices count from the reply's first item.\<close>

definition with_full_output_index :: "nat \<Rightarrow> dict \<Rightarrow> dict" where
  "with_full_output_index prior d =
     (case get d ''output_index'' of
        JInt i \<Rightarrow> if prior = 0 then d else dict_set ''output_index'' (JInt (i + int prior)) d
      | JBool b \<Rightarrow> if prior = 0 then d else dict_set ''output_index'' (JInt ((if b then 1 else 0) + int prior)) d
      | _ \<Rightarrow> d)"

definition RESPONSE_COMPLETION_RESPONSE_FIELDS :: "string list" where
  "RESPONSE_COMPLETION_RESPONSE_FIELDS = [''error'', ''id'', ''output'', ''usage'']"

definition get_response_completion_event_data :: "dict \<Rightarrow> dict" where
  "get_response_completion_event_data event =
     (case get event ''response'' of
        JObj r \<Rightarrow> dict_set ''response''
                    (JObj (map (\<lambda>k. (k, get r k)) (filter (has_key r) RESPONSE_COMPLETION_RESPONSE_FIELDS))) event
      | _ \<Rightarrow> event)"

definition is_delta :: "dict \<Rightarrow> bool" where
  "is_delta d \<longleftrightarrow> suffix ''.delta'' (as_str (get_or d ''type'' (JStr [])))"

text \<open>The type is a text, as for every event the server builds.\<close>

definition emit_response_event :: "nat \<Rightarrow> nat \<Rightarrow> dict \<Rightarrow> delta_buffer \<Rightarrow> delta_buffer \<times> dict list" where
  "emit_response_event chunk prior d b =
     (if is_delta d then queue_delta chunk (with_full_output_index prior d) (as_str (get_or d ''type'' (JStr ''response.delta''))) b
      else case flush_buffer 0 b of
        (b1, out) \<Rightarrow> (b1, out @ [get_response_completion_event_data (with_full_output_index prior d)]))"

fun emit_all :: "nat \<Rightarrow> nat \<Rightarrow> dict list \<Rightarrow> delta_buffer \<Rightarrow> delta_buffer \<times> dict list" where
  "emit_all chunk prior [] b = (b, [])"
| "emit_all chunk prior (d # ds) b =
     (case emit_response_event chunk prior d b of
        (b1, out) \<Rightarrow> (case emit_all chunk prior ds b1 of (b2, rest) \<Rightarrow> (b2, out @ rest)))"

text \<open>A whole stream: the events, and what is pending at its end.\<close>

definition sent :: "nat \<Rightarrow> nat \<Rightarrow> dict list \<Rightarrow> dict list" where
  "sent chunk prior ds =
     (case emit_all chunk prior ds empty_buffer of (b, out) \<Rightarrow> out @ snd (flush_buffer 0 b))"

section \<open>Nothing is lost\<close>

text \<open>Deltas of a field with text, as the server makes them.\<close>

definition text_delta :: "dict \<Rightarrow> bool" where
  "text_delta d \<longleftrightarrow> is_delta d \<and> is_str (get d ''delta'') \<and> response_delta_key d \<noteq> None"

definition same_field :: "dict \<Rightarrow> dict \<Rightarrow> bool" where
  "same_field d e \<longleftrightarrow> text_delta d \<and> text_delta e \<and> response_delta_key d = response_delta_key e"

text \<open>The events with all neighbouring deltas of one field join_deltas.\<close>

fun coalesce :: "dict list \<Rightarrow> dict list" where
  "coalesce (d # e # ds) = (if same_field d e then coalesce (join_deltas d e # ds) else d # coalesce (e # ds))"
| "coalesce ds = ds"

lemma joined_get: "k \<noteq> ''delta'' \<Longrightarrow> get_or (join_deltas d e) k v = get_or d k v"
  by (simp add: join_deltas_def get_or_dict_set)

lemma joined_delta: "get (join_deltas d e) ''delta'' = JStr (as_str (get d ''delta'') @ as_str (get e ''delta''))"
  by (simp add: join_deltas_def get_or_dict_set)

lemma joined_key [simp]: "response_delta_key (join_deltas d e) = response_delta_key d"
  by (simp add: response_delta_key_def joined_get split: json.split)

lemma joined_text [simp]: "text_delta d \<Longrightarrow> text_delta (join_deltas d e)"
  by (simp add: text_delta_def is_delta_def joined_get joined_delta)

lemma joined_assoc: "join_deltas (join_deltas d e) f = join_deltas d (join_deltas e f)"
  unfolding join_deltas_def [of "join_deltas d e"] join_deltas_def [of d] joined_delta by (simp add: join_deltas_def dict_set_def get_or_def)

lemma same_field_joined:
  "same_field d e \<Longrightarrow> same_field (join_deltas d e) f = same_field d f"
  "same_field d e \<Longrightarrow> same_field f (join_deltas d e) = same_field f d"
  by (auto simp: same_field_def)

text \<open>Joining two neighbours anywhere leaves the join_deltas stream as it is.\<close>

lemma coalesce_join:
  "same_field d e \<Longrightarrow> coalesce (us @ d # e # ds) = coalesce (us @ join_deltas d e # ds)"
proof (induction us rule: coalesce.induct, goal_cases)
  case (1 u v us)
  show ?case
  proof (cases "same_field u v")
    case True
    then show ?thesis using 1(1) [OF True 1(3)] by simp
  next
    case False
    then show ?thesis using 1(2) [OF False 1(3)] by simp
  qed
next
  case (3 u)
  show ?case
  proof (cases "same_field u d")
    case True
    have "same_field (join_deltas u d) e" using True 3 by (auto simp: same_field_def)
    then show ?thesis using True 3 by (simp add: same_field_joined joined_assoc)
  next
    case False
    then show ?thesis using 3 by (simp add: same_field_joined)
  qed
qed simp

text \<open>The form in which an event is sent.\<close>

definition as_sent :: "nat \<Rightarrow> dict \<Rightarrow> dict" where
  "as_sent prior d =
     (if is_delta d then with_full_output_index prior d else get_response_completion_event_data (with_full_output_index prior d))"

definition pending :: "delta_buffer \<Rightarrow> dict list" where
  "pending b = (if db_data b = [] then [] else [db_data b])"

definition buffer_ok :: "delta_buffer \<Rightarrow> bool" where
  "buffer_ok b \<longleftrightarrow> (db_data b \<noteq> [] \<longrightarrow> text_delta (db_data b) \<and> db_key b = response_delta_key (db_data b)
     \<and> JStr (db_type b) = get (db_data b) ''type'')"

lemma flush_all: "flush_buffer 0 b = (if db_data b = [] then b else empty_buffer, pending b)"
  by (simp add: flush_buffer_def pending_def)

lemma flush_keeps: "flush_buffer n b = (b', out) \<Longrightarrow> out @ pending b' = pending b \<and> (buffer_ok b \<longrightarrow> buffer_ok b')"
  by (auto simp: flush_buffer_def pending_def empty_buffer_def buffer_ok_def split: if_splits)

lemma full_index_get: "k \<noteq> ''output_index'' \<Longrightarrow> get_or (with_full_output_index prior d) k v = get_or d k v"
  by (simp add: with_full_output_index_def get_or_dict_set split: json.splits)

lemma full_index_text: "text_delta d \<Longrightarrow> text_delta (with_full_output_index prior d)"
  by (auto simp: text_delta_def is_delta_def full_index_get response_delta_key_def split: json.splits if_splits)

lemma text_delta_type:
  assumes "text_delta d"
  obtains t where "get d ''type'' = JStr t" and "get_or d ''type'' v = JStr t" and "d \<noteq> []"
proof -
  from assms have "get_or d ''type'' (JStr []) \<noteq> JStr []" and s: "is_str (get_or d ''type'' (JStr []))"
    by (auto simp: text_delta_def response_delta_key_def prefix_def split: json.splits if_splits)
  then obtain t where "map_of d ''type'' = Some (JStr t)"
    by (cases "get_or d ''type'' (JStr [])") (auto simp: get_or_def split: option.splits)
  then show ?thesis using that by (cases d) (auto simp: get_or_def)
qed

lemma text_delta_type_or: "text_delta d \<Longrightarrow> get_or d ''type'' v = get d ''type''"
  by (rule text_delta_type [of d v]) auto

lemma queue_keeps:
  assumes "text_delta d" and "buffer_ok b" and "get d ''type'' = JStr ty" and "queue_delta chunk d ty b = (b', out)"
  shows "coalesce (us @ pending b @ [d] @ ws) = coalesce (us @ out @ pending b' @ ws)" and "buffer_ok b'"
proof -
  have d: "d \<noteq> []" using assms(1) by (rule text_delta_type)
  define r where "r = (if continues b d then (b\<lparr>db_data := join_deltas (db_data b) d, db_count := db_count b + 1\<rparr>, [])
            else let (b1, out) = (if db_data b \<noteq> [] \<and> (db_type b \<noteq> ty \<or> db_key b \<noteq> response_delta_key d)
                                  then flush_buffer 0 b else (b, []))
                 in (\<lparr>db_count = db_count b1 + 1, db_data = d, db_type = ty, db_key = response_delta_key d\<rparr>, out))"
  obtain b2 out1 where r2: "r = (b2, out1)" by (cases r)
  obtain b3 rest where f: "(if chunk \<le> db_count b2 then flush_buffer chunk b2 else (b2, [])) = (b3, rest)"
    by (cases "if chunk \<le> db_count b2 then flush_buffer chunk b2 else (b2, [])")
  have out: "b' = b3" "out = out1 @ rest"
    using assms(4) f unfolding queue_delta_def r_def [symmetric] r2 by (auto split: if_splits prod.splits)
  have first: "coalesce (us @ pending b @ [d] @ ws) = coalesce (us @ out1 @ pending b2 @ ws) \<and> buffer_ok b2"
  proof (cases "continues b d")
    case True
    have same: "same_field (db_data b) d"
      using True assms(1,2) by (auto simp: continues_def buffer_ok_def same_field_def)
    have "b2 = b\<lparr>db_data := join_deltas (db_data b) d, db_count := db_count b + 1\<rparr>" "out1 = []"
      using r2 True by (auto simp: r_def)
    then show ?thesis
      using True same assms(2) coalesce_join [OF same, of us ws]
      by (auto simp: pending_def continues_def buffer_ok_def same_field_def joined_get) (simp_all add: join_deltas_def)
  next
    case False
    have split: "db_data b \<noteq> [] \<Longrightarrow> db_type b \<noteq> ty \<or> db_key b \<noteq> response_delta_key d"
      using False assms(1,2) by (auto simp: continues_def buffer_ok_def text_delta_def)
    have "out1 = pending b" "db_data b2 = d" "db_type b2 = ty" "db_key b2 = response_delta_key d"
      using r2 False split by (auto simp: r_def flush_all pending_def split: if_splits)
    then show ?thesis using d assms(1,3) by (simp add: pending_def buffer_ok_def)
  qed
  have "rest @ pending b3 = pending b2 \<and> (buffer_ok b2 \<longrightarrow> buffer_ok b3)"
    using f flush_keeps by (auto split: if_splits)
  then show "coalesce (us @ pending b @ [d] @ ws) = coalesce (us @ out @ pending b' @ ws)" "buffer_ok b'"
    using first unfolding out by (metis append.assoc, blast)
qed

lemma emit_keeps:
  assumes "is_delta d \<longrightarrow> text_delta d" and "buffer_ok b" and "emit_response_event chunk prior d b = (b', out)"
  shows "coalesce (us @ pending b @ [as_sent prior d] @ ws) = coalesce (us @ out @ pending b' @ ws)" and "buffer_ok b'"
proof -
  have "coalesce (us @ pending b @ [as_sent prior d] @ ws) = coalesce (us @ out @ pending b' @ ws) \<and> buffer_ok b'"
  proof (cases "is_delta d")
    case True
    then have d: "text_delta (with_full_output_index prior d)" using assms(1) full_index_text by blast
    obtain t where t: "get (with_full_output_index prior d) ''type'' = JStr t"
      by (rule text_delta_type [OF d, of JNull]) blast
    have "get_or d ''type'' (JStr ''response.delta'') = JStr t"
      using t text_delta_type_or [of d "JStr ''response.delta''"] assms(1) True by (simp add: full_index_get)
    then have "queue_delta chunk (with_full_output_index prior d) t b = (b', out)"
      using assms(3) True by (simp add: emit_response_event_def)
    then show ?thesis using queue_keeps [OF d assms(2) t] True by (simp add: as_sent_def)
  next
    case False
    then have "b' = (if db_data b = [] then b else empty_buffer)" "out = pending b @ [as_sent prior d]"
      using assms(3) by (auto simp: emit_response_event_def flush_all as_sent_def)
    then show ?thesis using assms(2) by (auto simp: pending_def empty_buffer_def buffer_ok_def)
  qed
  then show "coalesce (us @ pending b @ [as_sent prior d] @ ws) = coalesce (us @ out @ pending b' @ ws)" "buffer_ok b'" by blast+
qed

lemma emit_all_keeps:
  assumes "list_all (\<lambda>d. is_delta d \<longrightarrow> text_delta d) ds" and "buffer_ok b" and "emit_all chunk prior ds b = (b', out)"
  shows "coalesce (us @ pending b @ map (as_sent prior) ds @ ws) = coalesce (us @ out @ pending b' @ ws)"
  using assms
proof (induction ds arbitrary: b us out b')
  case (Cons d ds)
  obtain b1 out1 where e: "emit_response_event chunk prior d b = (b1, out1)" by (cases "emit_response_event chunk prior d b")
  obtain b2 rest where r: "emit_all chunk prior ds b1 = (b2, rest)" by (cases "emit_all chunk prior ds b1")
  have out: "b' = b2" "out = out1 @ rest" using Cons.prems(3) by (auto simp: e r)
  have d: "is_delta d \<longrightarrow> text_delta d" "list_all (\<lambda>d. is_delta d \<longrightarrow> text_delta d) ds" using Cons.prems(1) by simp_all
  have "coalesce (us @ pending b @ map (as_sent prior) (d # ds) @ ws)
      = coalesce ((us @ out1) @ pending b1 @ map (as_sent prior) ds @ ws)"
    using emit_keeps(1) [OF d(1) Cons.prems(2) e, of us "map (as_sent prior) ds @ ws"] by simp
  also have "\<dots> = coalesce ((us @ out1) @ rest @ pending b2 @ ws)"
    by (rule Cons.IH [OF d(2) emit_keeps(2) [OF d(1) Cons.prems(2) e] r])
  finally show ?case by (simp add: out)
qed simp

text \<open>
  C32. Buffering loses no text of a reply: for events that go through \<open>emit_response_event\<close> and whose
  deltas carry text (not for a chunk passed on as it came, see \<open>chunk_overwritten\<close>), whatever the
  size of a portion, the events sent and the events made are the same sequence once the
  neighbouring deltas of one field are joined in each, so every field's text arrives whole and in
  order, and no other event overtakes a delta or is dropped.
\<close>

theorem deltas_reach_client:
  assumes "list_all (\<lambda>d. is_delta d \<longrightarrow> text_delta d) ds"
  shows "coalesce (sent chunk prior ds) = coalesce (map (as_sent prior) ds)"
proof -
  obtain b out where e: "emit_all chunk prior ds empty_buffer = (b, out)" by (cases "emit_all chunk prior ds empty_buffer")
  have "buffer_ok empty_buffer" by (simp add: buffer_ok_def empty_buffer_def)
  from emit_all_keeps [OF assms this e, of "[]" "[]"] have "coalesce (map (as_sent prior) ds) = coalesce (out @ pending b)"
    by (simp add: pending_def empty_buffer_def)
  then show ?thesis by (simp add: sent_def e flush_all)
qed

definition sample_delta :: "string \<Rightarrow> dict" where
  "sample_delta t = [(''type'', JStr ''response.output_text.delta''), (''item_id'', JStr ''m''), (''output_index'', JInt 0),
     (''content_index'', JInt 0), (''delta'', JStr t)]"

lemma deltas_reach_client_witness:
  "coalesce (sent 2 0 [sample_delta ''a'', sample_delta ''b'', sample_delta ''c'', [(''type'', JStr ''response.completed'')]])
     = [sample_delta ''abc'', [(''type'', JStr ''response.completed'')]]"
proof -
  have "list_all (\<lambda>d. is_delta d \<longrightarrow> text_delta d)
      [sample_delta ''a'', sample_delta ''b'', sample_delta ''c'', [(''type'', JStr ''response.completed'')]]"
    by code_simp
  from deltas_reach_client [OF this, of 2 0] show ?thesis by (simp only:) code_simp
qed

text \<open>Of deltas that carry no text, such as whole chunks that are passed on, a pending one is overwritten.\<close>

lemma chunk_overwritten:
  "(let d1 = [(''choices'', JInt 1)]; d2 = [(''choices'', JInt 2)]; (b, out) = queue_delta 3 d1 ''content'' empty_buffer
    in queue_delta 3 d2 ''content'' b) = (\<lparr>db_count = 2, db_data = [(''choices'', JInt 2)], db_type = ''content'', db_key = None\<rparr>, [])"
  by code_simp

end
