(* ===== verification/StreamedReply.thy ===== *)
theory StreamedReply
  imports TagScanner DeltaBuffer
begin

text \<open>
  The output of a streamed reply (\<open>_StreamingReply\<close> of \<open>utils/middleware.py\<close>): text, reasoning and tool
  calls of a Chat Completions stream become output items, and the calls are queued at its end. Ids
  and clock readings are numbered draws; \<open>repr\<close>, JSON's \<open>dumps\<close>, the decoder of one JSON value and the
  conversion of inline images are arguments. Items, deltas and functions are dicts, texts strings,
  as the providers document them.
\<close>

section \<open>State\<close>

record stream_env =
  st_id :: "nat \<Rightarrow> string"
  st_now :: "nat \<Rightarrow> json"
  st_since :: "nat \<Rightarrow> json \<Rightarrow> json"
  st_dumps :: "json \<Rightarrow> string"
  st_repr :: "json \<Rightarrow> string"
  st_images :: "string \<Rightarrow> string"
  st_reasoning_tags :: "(string \<times> string) list option"
  st_code :: bool

text \<open>\<open>rp_draws\<close> counts the ids and readings drawn so far.\<close>

record reply =
  rp_output :: "dict list"
  rp_calls :: "dict list"
  rp_scanner :: scanner
  rp_parts :: "string list"
  rp_draws :: nat

definition new_reply :: reply where
  "new_reply = \<lparr>rp_output = [], rp_calls = [], rp_scanner = new_scanner, rp_parts = [], rp_draws = 0\<rparr>"

definition scan_env_at :: "stream_env \<Rightarrow> nat \<Rightarrow> scan_env" where
  "scan_env_at env n = \<lparr>se_block = st_id env n, se_message = st_id env (Suc n), se_now = st_now env n, se_since = st_since env n\<rparr>"

definition DEFAULT_SOLUTION_TAGS :: "(string \<times> string) list" where
  "DEFAULT_SOLUTION_TAGS = [(''<|begin_of_solution|>'', ''<|end_of_solution|>'')]"

definition DEFAULT_CODE_INTERPRETER_TAGS :: "(string \<times> string) list" where
  "DEFAULT_CODE_INTERPRETER_TAGS = [(''<code_interpreter>'', ''</code_interpreter>'')]"

section \<open>Text\<close>

definition from_provider :: "dict \<Rightarrow> bool" where
  "from_provider item \<longleftrightarrow> get (as_dict (get item ''attributes'')) ''type'' = JStr ''reasoning_content''"

definition ended_reasoning :: "stream_env \<Rightarrow> nat \<Rightarrow> dict \<Rightarrow> dict" where
  "ended_reasoning env n item =
     dict_set ''status'' (JStr ''completed'') (dict_set ''duration'' (st_since env n (get item ''started_at''))
       (dict_set ''ended_at'' (st_now env n) item))"

definition close_streamed_reasoning :: "stream_env \<Rightarrow> reply \<Rightarrow> reply" where
  "close_streamed_reasoning env rp =
     (let output = rp_output rp; n = rp_draws rp in
      if output \<noteq> [] \<and> has_type ''reasoning'' (last output) \<and> from_provider (last output)
      then rp\<lparr>rp_output := butlast output @ [ended_reasoning env n (last output), message_output_item (st_id env n) []],
              rp_draws := Suc n\<rparr>
      else rp)"

definition inside_tag_block :: "dict \<Rightarrow> bool" where
  "inside_tag_block item \<longleftrightarrow> get item ''status'' = JStr ''in_progress'' \<and> \<not> from_provider item
     \<and> (has_type ''reasoning'' item \<or> has_type CODE_INTERPRETER item \<or> has_type ''message'' item \<and> get item ''_tag_type'' \<noteq> JNull)"

definition append_text :: "stream_env \<Rightarrow> string \<Rightarrow> reply \<Rightarrow> reply" where
  "append_text env t rp =
     (let output = rp_output rp; n = rp_draws rp; item = last output;
          inside = (output \<noteq> [] \<and> inside_tag_block item)
      in if inside \<and> has_type CODE_INTERPRETER item
         then rp\<lparr>rp_output := butlast output @ [dict_set ''code'' (JStr (as_str (get_or item ''code'' (JStr [])) @ t)) item]\<rparr>
         else if \<not> inside \<and> (output = [] \<or> \<not> has_type ''message'' item)
         then rp\<lparr>rp_output := output @ [add_text t (message_output_item (st_id env n) [])], rp_draws := Suc n\<rparr>
         else rp\<lparr>rp_output := butlast output @ [add_text t item]\<rparr>)"

text \<open>One call of the scanner, with the two ids it may draw; whether it closed a block.\<close>

definition scan_reply :: "stream_env \<Rightarrow> string \<Rightarrow> (string \<times> string) list \<Rightarrow> reply \<Rightarrow> reply \<times> bool" where
  "scan_reply env ty tags rp =
     (case scan (scan_env_at env (rp_draws rp)) (rp_scanner rp) ty tags (rp_output rp) of
        (sc, output, b) \<Rightarrow> (rp\<lparr>rp_scanner := sc, rp_output := output, rp_draws := rp_draws rp + 2\<rparr>, b))"

definition scan_text :: "stream_env \<Rightarrow> reply \<Rightarrow> reply \<times> bool" where
  "scan_text env rp =
     (let rp1 = (case st_reasoning_tags env of None \<Rightarrow> rp
                 | Some tags \<Rightarrow> fst (scan_reply env ''solution'' DEFAULT_SOLUTION_TAGS (fst (scan_reply env ''reasoning'' tags rp))))
      in if st_code env then scan_reply env ''code_interpreter'' DEFAULT_CODE_INTERPRETER_TAGS rp1 else (rp1, False))"

definition content_event :: "dict list \<Rightarrow> string \<Rightarrow> dict" where
  "content_event output t =
     (let item = (if output = [] then [] else last output);
          ty = (if has_type ''reasoning'' item then ''response.reasoning_text.delta'' else ''response.output_text.delta'')
      in [(''type'', JStr ty), (''item_id'', get item ''id''), (''output_index'', JInt (int (length output) - 1)),
          (''content_index'', JInt (max (int (length (as_list (get item ''content''))) - 1) 0)), (''delta'', JStr t)])"

text \<open>None: a code block closed and the stream stops.\<close>

definition handle_content :: "stream_env \<Rightarrow> string \<Rightarrow> reply \<Rightarrow> reply \<times> dict option" where
  "handle_content env value rp =
     (let t = st_images env value; rp1 = close_streamed_reasoning env rp;
          rp2 = append_text env t (rp1\<lparr>rp_parts := rp_parts rp1 @ [t]\<rparr>)
      in case scan_text env rp2 of (rp3, stop) \<Rightarrow> (rp3, if stop then None else Some (content_event (rp_output rp3) t)))"

section \<open>Reasoning the provider marks\<close>

fun last_at :: "('a \<Rightarrow> bool) \<Rightarrow> 'a list \<Rightarrow> nat option" where
  "last_at P [] = None"
| "last_at P (x # xs) = (case last_at P xs of Some n \<Rightarrow> Some (Suc n) | None \<Rightarrow> if P x then Some 0 else None)"

definition is_integer :: "json \<Rightarrow> bool" where
  "is_integer v \<longleftrightarrow> (case v of JInt i \<Rightarrow> True | JBool b \<Rightarrow> True | _ \<Rightarrow> False)"

definition merge_detail_item :: "dict \<Rightarrow> dict \<Rightarrow> dict" where
  "merge_detail_item item existing =
     foldl (\<lambda>d (k, v). if k \<in> {''text'', ''summary''} \<and> is_str v \<and> is_str (get d k)
                       then dict_set k (JStr (as_str (get d k) @ as_str v)) d else dict_set k v d) existing item"

definition merge_streamed_detail :: "dict list \<Rightarrow> dict \<Rightarrow> dict list" where
  "merge_streamed_detail target item =
     (case (if is_integer (get item ''index'') then first_at (\<lambda>d. get d ''index'' = get item ''index'') target else None) of
        None \<Rightarrow> target @ [item]
      | Some n \<Rightarrow> target[n := merge_detail_item item (target ! n)])"

definition merge_streamed_reasoning_details :: "dict list \<Rightarrow> dict list \<Rightarrow> dict list" where
  "merge_streamed_reasoning_details target details = foldl merge_streamed_detail target details"

definition get_reasoning_details :: "dict \<Rightarrow> json" where
  "get_reasoning_details payload =
     (let fields = py_or (get payload ''provider_specific_fields'') (JObj [])
      in py_or (get payload ''reasoning_details'')
           (case fields of JObj d \<Rightarrow> get d ''reasoning_details'' | _ \<Rightarrow> JNull))"

definition reasoning_detail_items :: "dict \<Rightarrow> dict list" where
  "reasoning_detail_items delta =
     (case get_reasoning_details delta of
        JArr xs \<Rightarrow> map as_dict (filter is_dict xs)
      | JObj d \<Rightarrow> [d]
      | _ \<Rightarrow> [])"

text \<open>A value of another type than text is formatted.\<close>

definition delta_text :: "stream_env \<Rightarrow> json \<Rightarrow> string" where
  "delta_text env v = (if truthy v then py_str (st_repr env) v else [])"

definition reasoning_text :: "stream_env \<Rightarrow> dict \<Rightarrow> string" where
  "reasoning_text env delta =
     delta_text env (py_or (py_or (get delta ''reasoning_content'') (get delta ''reasoning'')) (get delta ''thinking''))"

definition open_reasoning_item :: "stream_env \<Rightarrow> nat option \<Rightarrow> reply \<Rightarrow> reply \<times> nat" where
  "open_reasoning_item env message_index rp =
     (let output = rp_output rp; n = rp_draws rp;
          item = block_head ''reasoning'' (st_id env n) ''<think>'' ''</think>'' [(''type'', JStr ''reasoning_content'')]
                 @ [(''content'', JArr []), (''summary'', JNull), (''started_at'', st_now env n)];
          past = dict_set ''status'' (JStr ''completed'') (dict_set ''duration'' (JInt 0) (dict_set ''ended_at'' (st_now env n) item))
      in if output \<noteq> [] \<and> has_type ''reasoning'' (last output) then (rp, length output - 1)
         else case message_index of
           Some i \<Rightarrow> (rp\<lparr>rp_output := take i output @ [past] @ drop i output, rp_draws := Suc n\<rparr>, i)
         | None \<Rightarrow> (rp\<lparr>rp_output := output @ [item], rp_draws := Suc n\<rparr>, length output))"

definition with_details :: "dict list \<Rightarrow> dict \<Rightarrow> dict" where
  "with_details details item =
     dict_set ''reasoning_details''
       (JArr (map JObj (merge_streamed_reasoning_details (map as_dict (as_list (get item ''reasoning_details''))) details))) item"

text \<open>The chunk's event as it would be sent, or the one of the reasoning instead.\<close>

definition handle_reasoning_delta :: "stream_env \<Rightarrow> dict \<Rightarrow> dict option \<Rightarrow> reply \<Rightarrow> reply \<times> dict option" where
  "handle_reasoning_delta env delta event rp =
     (let t = reasoning_text env delta; details = reasoning_detail_items delta; output = rp_output rp;
          existing = last_at (has_type ''reasoning'') output; message = first_at (has_type ''message'') output;
          telling = (\<lambda>d. truthy (get d ''text'') \<or> truthy (get d ''summary'') \<or> truthy (get d ''data''))
      in if \<not> (t \<noteq> [] \<or> details \<noteq> [] \<and> (existing \<noteq> None \<or> list_ex telling details)) then (rp, event)
         else
           let chosen = (if details \<noteq> [] \<and> t = [] \<or> message \<noteq> None then existing else None);
               (rp1, i) = (case chosen of Some i \<Rightarrow> (rp, i) | None \<Rightarrow> open_reasoning_item env message rp);
               item1 = (if t = [] then rp_output rp1 ! i else add_text t (rp_output rp1 ! i));
               item2 = (if details = [] then item1 else with_details details item1);
               shown = [(''type'', JStr ''response.reasoning_text.delta''), (''item_id'', get item1 ''id''),
                 (''output_index'', JInt (int (the (first_at (\<lambda>x. x = item1) ((rp_output rp1)[i := item1]))))),
                 (''content_index'', JInt (max (int (length (as_list (get item1 ''content''))) - 1) 0)), (''delta'', JStr t)]
           in (rp1\<lparr>rp_output := (rp_output rp1)[i := item2]\<rparr>,
               if t \<noteq> [] then Some shown else None))"

section \<open>Tool calls\<close>

definition function_of :: "dict \<Rightarrow> dict" where
  "function_of tc = as_dict (get_or tc ''function'' (JObj []))"

definition set_function :: "string \<Rightarrow> json \<Rightarrow> dict \<Rightarrow> dict" where
  "set_function k v tc = dict_set ''function'' (JObj (dict_set k v (function_of tc))) tc"

text \<open>Arguments as text: None is empty, a value that is no text is printed.\<close>

definition arguments_text :: "stream_env \<Rightarrow> json \<Rightarrow> string" where
  "arguments_text env v = (case v of JStr s \<Rightarrow> s | JNull \<Rightarrow> [] | _ \<Rightarrow> st_dumps env v)"

definition merge_tool_call_delta :: "stream_env \<Rightarrow> dict \<Rightarrow> dict \<Rightarrow> dict" where
  "merge_tool_call_delta env current delta =
     (let name = get (function_of delta) ''name''; args = get (function_of delta) ''arguments'';
          c1 = (if truthy name then set_function ''name'' name current else current)
      in if args = JNull then c1
         else set_function ''arguments'' (JStr (as_str (get (function_of c1) ''arguments'') @ arguments_text env args)) c1)"

text \<open>The first delta of a call: it gets a name, an id when it has none, and arguments that are text.\<close>

definition started_call :: "stream_env \<Rightarrow> nat \<Rightarrow> dict \<Rightarrow> dict" where
  "started_call env n delta =
     (let f = function_of delta;
          f1 = (if has_key f ''name'' then f else dict_set ''name'' (JStr []) f);
          f2 = dict_set ''arguments'' (JStr (arguments_text env (get f1 ''arguments''))) f1
      in dict_set ''id'' (py_or (get delta ''id'') (JStr (st_id env n))) (dict_set ''function'' (JObj f2) delta))"

definition at_index :: "json \<Rightarrow> dict \<Rightarrow> bool" where
  "at_index v tc \<longleftrightarrow> get tc ''index'' = v"

definition track_delta :: "stream_env \<Rightarrow> reply \<Rightarrow> dict \<Rightarrow> reply" where
  "track_delta env rp delta =
     (let index = get delta ''index'' in
      if index = JNull then rp
      else case first_at (at_index index) (rp_calls rp) of
        None \<Rightarrow> rp\<lparr>rp_calls := rp_calls rp @ [started_call env (rp_draws rp) delta], rp_draws := Suc (rp_draws rp)\<rparr>
      | Some i \<Rightarrow> rp\<lparr>rp_calls := (rp_calls rp)[i := merge_tool_call_delta env (rp_calls rp ! i) delta]\<rparr>)"

definition call_item_of :: "json \<Rightarrow> dict \<Rightarrow> bool" where
  "call_item_of i item \<longleftrightarrow> has_type ''function_call'' item \<and> get item ''call_id'' = i"

text \<open>One pending call shown: its item is updated, or added with an event.\<close>

definition show_call :: "dict list \<times> dict list \<Rightarrow> dict \<Rightarrow> dict list \<times> dict list" where
  "show_call acc tc =
     (case acc of (output, events) \<Rightarrow>
        let i = get tc ''id''; f = function_of tc in
        case last_at (call_item_of i) output of
          Some n \<Rightarrow>
            (output[n := dict_set ''status'' (JStr ''in_progress'')
                (dict_set ''arguments'' (get_or f ''arguments'' (get_or (output ! n) ''arguments'' (JStr [])))
                  (dict_set ''name'' (get_or f ''name'' (get_or (output ! n) ''name'' (JStr []))) (output ! n)))], events)
        | None \<Rightarrow>
            let item = [(''type'', JStr ''function_call''), (''id'', i), (''call_id'', i), (''name'', get_or f ''name'' (JStr [])),
                        (''arguments'', JStr []), (''status'', JStr ''in_progress'')]
            in (output @ [dict_set ''arguments'' (get_or f ''arguments'' (JStr [])) item],
                events @ [[(''type'', JStr ''response.output_item.added''), (''output_index'', JInt (int (length output))),
                           (''item'', JObj item)]]))"

text \<open>
  The events of the deltas' arguments. A delta that started its call is the call from then on, so its
  arguments are those of the call when the events are made; \<open>known\<close> are the indices that were there
  before.
\<close>

definition argument_event :: "stream_env \<Rightarrow> reply \<Rightarrow> dict \<Rightarrow> json \<Rightarrow> dict list" where
  "argument_event env rp tc args =
     (if args = JNull then []
      else [[(''type'', JStr ''response.function_call_arguments.delta''), (''item_id'', get tc ''id''),
             (''output_index'', JInt (case last_at (call_item_of (get tc ''id'')) (rp_output rp) of
                 Some n \<Rightarrow> int n | None \<Rightarrow> int (length (rp_output rp)) - 1)),
             (''delta'', JStr (arguments_text env args))]])"

fun argument_events :: "stream_env \<Rightarrow> json list \<Rightarrow> reply \<Rightarrow> dict list \<Rightarrow> dict list" where
  "argument_events env known rp [] = []"
| "argument_events env known rp (d # ds) =
     (case find (at_index (get d ''index'')) (rp_calls rp) of None \<Rightarrow> []
      | Some tc \<Rightarrow> argument_event env rp tc
          (get (function_of (if get d ''index'' \<in> set known then d else tc)) ''arguments''))
     @ argument_events env (get d ''index'' # known) rp ds"

text \<open>True once any call is pending; the events in the order they are made.\<close>

definition track_tool_call_deltas :: "stream_env \<Rightarrow> dict list \<Rightarrow> reply \<Rightarrow> reply \<times> dict list \<times> bool" where
  "track_tool_call_deltas env deltas rp =
     (let rp1 = foldl (track_delta env) rp deltas in
      if rp_calls rp1 = [] then (rp1, [], False)
      else case foldl show_call (rp_output rp1, []) (rp_calls rp1) of
        (output, added) \<Rightarrow>
          let rp2 = rp1\<lparr>rp_output := output\<rparr> in (rp2, added @ argument_events env (map (\<lambda>tc. get tc ''index'') (rp_calls rp)) rp2 deltas, True))"

section \<open>One chunk\<close>

record chunk_result =
  cr_events :: "dict list"
  cr_event :: "dict option"
  cr_stop :: bool

text \<open>The delta of a chunk, without its citations and images; \<open>chunk\<close> is what is sent when nothing else is.\<close>

definition handle_chat_delta :: "stream_env \<Rightarrow> dict \<Rightarrow> dict \<Rightarrow> reply \<Rightarrow> reply \<times> chunk_result" where
  "handle_chat_delta env chunk delta rp =
     (let calls = map as_dict (as_list (get delta ''tool_calls'')) in
      case (if calls \<noteq> [] then track_tool_call_deltas env calls rp else (rp, [], False)) of
        (rp1, events, shown) \<Rightarrow>
          (case handle_reasoning_delta env delta (if shown then None else Some chunk) rp1 of
             (rp2, event) \<Rightarrow>
               let t = delta_text env (get delta ''content'') in
               if t = [] then (rp2, \<lparr>cr_events = events, cr_event = event, cr_stop = False\<rparr>)
               else case handle_content env t rp2 of
                 (rp3, ev) \<Rightarrow> (rp3, \<lparr>cr_events = events, cr_event = ev, cr_stop = (ev = None)\<rparr>)))"

fun handle_deltas :: "stream_env \<Rightarrow> dict list \<Rightarrow> reply \<Rightarrow> reply" where
  "handle_deltas env [] rp = rp"
| "handle_deltas env (d # ds) rp =
     (case handle_chat_delta env [(''choices'', JArr [JObj [(''delta'', JObj d)]])] d rp of
        (rp1, r) \<Rightarrow> if cr_stop r then rp1 else handle_deltas env ds rp1)"

section \<open>The end of a stream\<close>

definition finish_last_message :: "stream_env \<Rightarrow> reply \<Rightarrow> reply" where
  "finish_last_message env rp =
     (let output = rp_output rp; item = last output; t = strip_text (last_part_text item); n = rp_draws rp in
      if has_type ''message'' item \<and> ends_in_text item
      then if t = []
           then (if butlast output = [] then rp\<lparr>rp_output := [message_output_item (st_id env n) []], rp_draws := Suc n\<rparr>
                 else rp\<lparr>rp_output := butlast output\<rparr>)
           else rp\<lparr>rp_output := butlast output @ [put_last_part_text t item]\<rparr>
      else rp)"

definition finish_last_reasoning :: "stream_env \<Rightarrow> reply \<Rightarrow> reply" where
  "finish_last_reasoning env rp =
     (let item = last (rp_output rp); n = rp_draws rp;
          i1 = dict_set ''ended_at'' (st_now env n) item;
          i2 = (if get i1 ''started_at'' \<noteq> JNull then dict_set ''duration'' (st_since env n (get i1 ''started_at'')) i1 else i1)
      in if has_type ''reasoning'' item \<and> get item ''ended_at'' = JNull
         then rp\<lparr>rp_output := butlast (rp_output rp) @ [dict_set ''status'' (JStr ''completed'') i2], rp_draws := Suc n\<rparr> else rp)"

definition finish_stream_output :: "stream_env \<Rightarrow> reply \<Rightarrow> reply" where
  "finish_stream_output env rp =
     (if rp_output rp = [] then rp else finish_last_reasoning env (finish_last_message env rp))"

section \<open>Queueing the calls\<close>

text \<open>
  Back-to-back JSON values of one arguments text. The decoder tells how many characters the value at
  the front takes, at least one; a text that does not decode stays whole.
\<close>

function decoded_parts :: "(string \<Rightarrow> nat option) \<Rightarrow> string \<Rightarrow> string list option" where
  "decoded_parts dec s =
     (let t = lstrip s in
      if t = [] then Some []
      else case dec t of None \<Rightarrow> None
      | Some n \<Rightarrow> map_option (\<lambda>ps. strip_text (take (max 1 n) t) # ps) (decoded_parts dec (drop (max 1 n) t)))"
  by pat_completeness auto
termination
proof (relation "measure (\<lambda>(dec, s). length s)", goal_cases)
  case (2 dec s t n)
  then have "0 < length (lstrip s)" by simp
  then have "length (lstrip s) - max 1 n < length (lstrip s)" by (intro diff_less) simp_all
  then have "length (drop (max 1 n) (lstrip s)) < length s" using length_lstrip [of s] unfolding length_drop by linarith
  then show ?case using 2 by (simp del: length_drop)
qed simp

declare decoded_parts.simps [simp del]

definition split_json_objects :: "(string \<Rightarrow> nat option) \<Rightarrow> string \<Rightarrow> string list" where
  "split_json_objects dec raw =
     (case decoded_parts dec raw of None \<Rightarrow> [raw] | Some ps \<Rightarrow> if ps = [] then [raw] else ps)"

text \<open>A call with several argument objects becomes as many calls, each with an id of its own.\<close>

definition split_tool_call :: "stream_env \<Rightarrow> (string \<Rightarrow> nat option) \<Rightarrow> (nat \<Rightarrow> string) \<Rightarrow> dict \<Rightarrow> dict list" where
  "split_tool_call env dec new_id tc =
     (let args = arguments_text env (get (function_of tc) ''arguments'');
          tc1 = set_function ''arguments'' (JStr args) tc;
          parts = split_json_objects dec args
      in if length parts \<le> 1 then [tc1]
         else map (\<lambda>(k, a). dict_set ''id'' (JStr (new_id k)) (set_function ''arguments'' (JStr a) tc1)) (enumerate 0 parts))"

definition split_tool_calls :: "stream_env \<Rightarrow> (string \<Rightarrow> nat option) \<Rightarrow> (nat \<Rightarrow> nat \<Rightarrow> string) \<Rightarrow> dict list \<Rightarrow> dict list" where
  "split_tool_calls env dec new_id tcs =
     concat (map (\<lambda>(n, tc). split_tool_call env dec (new_id n) tc) (enumerate 0 tcs))"

definition finish_call_item :: "dict \<Rightarrow> dict \<Rightarrow> dict" where
  "finish_call_item tc item =
     dict_set ''status'' (JStr ''completed'')
       (dict_set ''arguments'' (get_or (function_of tc) ''arguments'' (JStr ''{}'')) item)"

definition finish_call :: "dict list \<Rightarrow> dict \<Rightarrow> dict list" where
  "finish_call output tc =
     (case first_at (call_item_of (get_or tc ''id'' (JStr []))) output of
        None \<Rightarrow> output
      | Some n \<Rightarrow> output[n := finish_call_item tc (output ! n)])"

definition answered_ids :: "dict list \<Rightarrow> json set" where
  "answered_ids output = (\<lambda>item. get item ''call_id'') ` set (filter (has_type ''function_call_output'') output)"

definition fail_open_call :: "json set \<Rightarrow> dict \<Rightarrow> dict" where
  "fail_open_call answered item =
     (if has_type ''function_call'' item \<and> get item ''call_id'' \<notin> answered
         \<and> get item ''status'' \<in> {JNull, JStr ''in_progress''}
      then dict_set ''status'' (JStr ''failed'') item else item)"

definition own_call_id :: "stream_env \<Rightarrow> nat \<Rightarrow> dict \<Rightarrow> json" where
  "own_call_id env n item = py_or (py_or (get item ''call_id'') (get item ''id'')) (JStr (st_id env n))"

text \<open>The calls of a Responses API reply that have no result yet.\<close>

definition responses_calls :: "stream_env \<Rightarrow> json set \<Rightarrow> nat \<Rightarrow> dict list \<Rightarrow> dict list" where
  "responses_calls env handled n output =
     map (\<lambda>(k, i, item). [(''id'', i), (''index'', JInt (int k)),
         (''function'', JObj [(''name'', get_or item ''name'' (JStr [])),
            (''arguments'', case get_or item ''arguments'' (JStr ''{}'') of JStr s \<Rightarrow> JStr s | v \<Rightarrow> JStr (st_dumps env v))])])
       (enumerate 0 (filter (\<lambda>(i, item). has_type ''function_call'' item \<and> i \<notin> handled)
          (map (\<lambda>(k, item). (own_call_id env (n + k) item, item)) (enumerate 0 output))))"

text \<open>The reply and the calls queued; \<open>prior\<close> is the output from before the stream.\<close>

definition queue_tool_calls ::
  "stream_env \<Rightarrow> (string \<Rightarrow> nat option) \<Rightarrow> (nat \<Rightarrow> nat \<Rightarrow> string) \<Rightarrow> bool \<Rightarrow> dict list \<Rightarrow> reply \<Rightarrow> reply \<times> dict list option" where
  "queue_tool_calls env dec new_id errored prior rp =
     (let output = rp_output rp in
      if errored then (rp\<lparr>rp_output := map (fail_open_call (answered_ids output)) output\<rparr>, None)
      else if rp_calls rp \<noteq> []
      then (rp\<lparr>rp_output := foldl finish_call output (rp_calls rp)\<rparr>, Some (split_tool_calls env dec new_id (rp_calls rp)))
      else let calls = responses_calls env (answered_ids (prior @ output)) (rp_draws rp) output
           in (rp\<lparr>rp_draws := rp_draws rp + length output\<rparr>,
               if calls = [] then None else Some (split_tool_calls env dec new_id calls)))"

section \<open>The calls arrive whole\<close>

definition delta_calls :: "dict \<Rightarrow> dict list" where
  "delta_calls delta = filter (\<lambda>tc. get tc ''index'' \<noteq> JNull) (map as_dict (as_list (get delta ''tool_calls'')))"

text \<open>What the deltas of one call say together: the last name given, and all the arguments.\<close>

definition whole_name :: "dict list \<Rightarrow> json" where
  "whole_name deltas =
     foldl (\<lambda>v d. if truthy (get (function_of d) ''name'') then get (function_of d) ''name'' else v)
       (get_or (function_of (hd deltas)) ''name'' (JStr [])) (tl deltas)"

definition whole_arguments :: "stream_env \<Rightarrow> dict list \<Rightarrow> string" where
  "whole_arguments env deltas = concat (map (\<lambda>d. arguments_text env (get (function_of d) ''arguments'')) deltas)"

definition call_whole :: "stream_env \<Rightarrow> dict list \<Rightarrow> dict \<Rightarrow> bool" where
  "call_whole env deltas tc \<longleftrightarrow>
     get (function_of tc) ''name'' = whole_name deltas \<and> get (function_of tc) ''arguments'' = JStr (whole_arguments env deltas)
     \<and> (truthy (get (hd deltas) ''id'') \<longrightarrow> get tc ''id'' = get (hd deltas) ''id'')"

definition calls_whole :: "stream_env \<Rightarrow> dict list \<Rightarrow> dict list \<Rightarrow> bool" where
  "calls_whole env deltas calls \<longleftrightarrow>
     map (\<lambda>tc. get tc ''index'') calls = from_keys (map (\<lambda>d. get d ''index'') deltas)
     \<and> list_all (\<lambda>tc. call_whole env (filter (at_index (get tc ''index'')) deltas) tc) calls"

lemma from_keys_snoc: "from_keys (xs @ [x]) = (if x \<in> set xs then from_keys xs else from_keys xs @ [x])"
  by (induction xs) auto

lemma function_of_set [simp]: "function_of (set_function k v tc) = dict_set k v (function_of tc)"
  by (simp add: function_of_def set_function_def get_or_dict_set)

lemma get_set_function: "k' \<noteq> ''function'' \<Longrightarrow> get_or (set_function k v tc) k' x = get_or tc k' x"
  by (simp add: set_function_def get_or_dict_set)

lemma whole_name_snoc:
  "ds \<noteq> [] \<Longrightarrow> whole_name (ds @ [d]) =
     (if truthy (get (function_of d) ''name'') then get (function_of d) ''name'' else whole_name ds)"
  by (simp add: whole_name_def)

lemma started_call_whole: "call_whole env [d] (started_call env n d)" "get (started_call env n d) ''index'' = get d ''index''"
  by (auto simp: call_whole_def started_call_def Let_def function_of_def get_or_dict_set whole_name_def whole_arguments_def
      py_or_def has_key_def) (auto simp: get_or_def)

lemma merged_call_whole:
  assumes "call_whole env ds tc" and "ds \<noteq> []"
  shows "call_whole env (ds @ [d]) (merge_tool_call_delta env tc d)"
    and "get (merge_tool_call_delta env tc d) ''index'' = get tc ''index''"
proof -
  let ?c1 = "if truthy (get (function_of d) ''name'') then set_function ''name'' (get (function_of d) ''name'') tc else tc"
  have c1: "get (function_of ?c1) ''name'' = whole_name (ds @ [d])" "get (function_of ?c1) ''arguments'' = JStr (whole_arguments env ds)"
    "get ?c1 ''id'' = get tc ''id''" "get ?c1 ''index'' = get tc ''index''"
    using assms by (auto simp: call_whole_def whole_name_snoc get_or_dict_set get_set_function)
  have m: "merge_tool_call_delta env tc d = (if get (function_of d) ''arguments'' = JNull then ?c1
      else set_function ''arguments'' (JStr (whole_arguments env ds @ arguments_text env (get (function_of d) ''arguments''))) ?c1)"
    unfolding merge_tool_call_delta_def Let_def c1(2) as_str.simps by (rule refl)
  have w: "whole_arguments env (ds @ [d]) = whole_arguments env ds @ arguments_text env (get (function_of d) ''arguments'')"
    by (simp add: whole_arguments_def)
  have "arguments_text env JNull = []" by (simp add: arguments_text_def)
  then show "call_whole env (ds @ [d]) (merge_tool_call_delta env tc d)"
    using assms c1 unfolding m by (simp add: call_whole_def w get_or_dict_set get_set_function)
  show "get (merge_tool_call_delta env tc d) ''index'' = get tc ''index''"
    using c1(4) unfolding m by (simp add: get_set_function)
qed

lemma track_delta_whole:
  assumes "calls_whole env ds (rp_calls rp)" and "get d ''index'' \<noteq> JNull"
  shows "calls_whole env (ds @ [d]) (rp_calls (track_delta env rp d))"
proof -
  let ?i = "get d ''index''"
  let ?calls = "rp_calls rp"
  have idx: "map (\<lambda>tc. get tc ''index'') ?calls = from_keys (map (\<lambda>d. get d ''index'') ds)"
    and whole: "\<And>tc. tc \<in> set ?calls \<Longrightarrow> call_whole env (filter (at_index (get tc ''index'')) ds) tc"
    using assms(1) by (auto simp: calls_whole_def list_all_iff)
  have dist: "distinct (map (\<lambda>tc. get tc ''index'') ?calls)" by (simp add: idx)
  have keys: "(\<lambda>tc. get tc ''index'') ` set ?calls = (\<lambda>d. get d ''index'') ` set ds"
    using arg_cong [OF idx, of set] by simp
  have other: "filter (at_index j) (ds @ [d]) = filter (at_index j) ds" if "j \<noteq> ?i" for j
    using that by (simp add: at_index_def)
  show ?thesis
  proof (cases "first_at (at_index ?i) ?calls")
    case None
    then have "?i \<notin> (\<lambda>tc. get tc ''index'') ` set ?calls" by (auto simp: first_at_None list_all_iff at_index_def)
    then have new: "?i \<notin> (\<lambda>d. get d ''index'') ` set ds" by (simp add: keys)
    then have "\<And>x. x \<in> set ds \<Longrightarrow> get x ''index'' \<noteq> ?i" by (metis imageI)
    then have "filter (at_index ?i) ds = []" by (simp add: filter_empty_conv at_index_def)
    then have "call_whole env (filter (at_index ?i) (ds @ [d])) (started_call env (rp_draws rp) d)"
      using started_call_whole(1) by (simp add: at_index_def)
    moreover have "call_whole env (filter (at_index (get tc ''index'')) (ds @ [d])) tc" if "tc \<in> set ?calls" for tc
    proof -
      have "get tc ''index'' \<in> (\<lambda>d. get d ''index'') ` set ds" unfolding keys [symmetric] using that by (rule imageI)
      then have "get tc ''index'' \<noteq> ?i" using new by auto
      then show ?thesis using whole [OF that] other by simp
    qed
    ultimately show ?thesis
      using None assms(2) new idx
      by (simp add: track_delta_def Let_def calls_whole_def list_all_iff started_call_whole(2) from_keys_snoc del: filter_append)
  next
    case (Some n)
    then have n: "n < length ?calls" "get (?calls ! n) ''index'' = ?i"
      using first_at_Some [OF Some] by (auto simp: at_index_def)
    then have old: "?i \<in> (\<lambda>d. get d ''index'') ` set ds" unfolding keys [symmetric] by (intro image_eqI [of _ _ "?calls ! n"]) simp_all
    then have "filter (at_index ?i) ds \<noteq> []" by (auto simp: filter_empty_conv at_index_def)
    moreover have "call_whole env (filter (at_index ?i) ds) (?calls ! n)" using whole [of "?calls ! n"] n by simp
    ultimately have m: "call_whole env (filter (at_index ?i) (ds @ [d])) (merge_tool_call_delta env (?calls ! n) d)"
      "get (merge_tool_call_delta env (?calls ! n) d) ''index'' = ?i"
      using merged_call_whole n(2) by (simp_all add: at_index_def)
    have "call_whole env (filter (at_index (get tc ''index'')) (ds @ [d])) tc"
      if "tc \<in> set (?calls[n := merge_tool_call_delta env (?calls ! n) d])" for tc
    proof -
      from that obtain j where j: "j < length ?calls" "tc = ?calls[n := merge_tool_call_delta env (?calls ! n) d] ! j"
        by (auto simp: in_set_conv_nth)
      show ?thesis
      proof (cases "j = n")
        case True
        then show ?thesis using j m by simp
      next
        case False
        then have tc: "tc = ?calls ! j" using j by simp
        then have "get tc ''index'' \<noteq> ?i"
          using nth_eq_iff_index_eq [OF dist, of j n] False j(1) n by simp
        then show ?thesis using whole [of tc] other tc j(1) by simp
      qed
    qed
    moreover have "map (\<lambda>tc. get tc ''index'') (?calls[n := merge_tool_call_delta env (?calls ! n) d]) = map (\<lambda>tc. get tc ''index'') ?calls"
      using n m(2) by (simp add: map_update list_update_same_conv)
    ultimately show ?thesis
      using Some assms(2) old idx by (simp add: track_delta_def Let_def calls_whole_def list_all_iff from_keys_snoc del: filter_append)
  qed
qed

lemma track_deltas_whole:
  "calls_whole env ds (rp_calls rp) \<Longrightarrow>
     calls_whole env (ds @ filter (\<lambda>tc. get tc ''index'' \<noteq> JNull) deltas) (rp_calls (foldl (track_delta env) rp deltas))"
proof (induction deltas arbitrary: ds rp)
  case (Cons d deltas)
  show ?case
  proof (cases "get d ''index'' = JNull")
    case True
    then have "track_delta env rp d = rp" by (simp add: track_delta_def)
    then show ?thesis using Cons True by simp
  next
    case False
    then show ?thesis using Cons.IH [OF track_delta_whole [OF Cons.prems False]] by simp
  qed
qed simp

text \<open>The text handlers leave the calls alone.\<close>

lemma text_steps_calls [simp]:
  "rp_calls (close_streamed_reasoning env rp) = rp_calls rp"
  "rp_calls (append_text env t rp) = rp_calls rp"
  "rp_calls (fst (scan_reply env ty tags rp)) = rp_calls rp"
  by (simp_all add: close_streamed_reasoning_def append_text_def scan_reply_def Let_def split: prod.split)

lemma scan_text_calls [simp]: "rp_calls (fst (scan_text env rp)) = rp_calls rp"
  by (simp add: scan_text_def Let_def split: option.split)

lemma handle_content_calls [simp]: "rp_calls (fst (handle_content env t rp)) = rp_calls rp"
proof -
  have "fst (handle_content env t rp) = fst (scan_text env (append_text env (st_images env t)
      (close_streamed_reasoning env rp\<lparr>rp_parts := rp_parts (close_streamed_reasoning env rp) @ [st_images env t]\<rparr>)))"
    by (simp add: handle_content_def Let_def split: prod.split)
  then show ?thesis by simp
qed

lemma handle_reasoning_calls [simp]: "rp_calls (fst (handle_reasoning_delta env d ev rp)) = rp_calls rp"
  by (simp add: handle_reasoning_delta_def open_reasoning_item_def Let_def split: prod.split option.split)

lemma track_tool_calls_whole:
  assumes "calls_whole env ds (rp_calls rp)"
  shows "calls_whole env (ds @ filter (\<lambda>tc. get tc ''index'' \<noteq> JNull) deltas) (rp_calls (fst (track_tool_call_deltas env deltas rp)))"
  using track_deltas_whole [OF assms, of deltas] by (auto simp: track_tool_call_deltas_def Let_def split: prod.split)

lemma handle_chat_delta_calls:
  assumes "calls_whole env ds (rp_calls rp)"
  shows "calls_whole env (ds @ delta_calls d) (rp_calls (fst (handle_chat_delta env chunk d rp)))"
proof -
  let ?calls = "map as_dict (as_list (get d ''tool_calls''))"
  obtain rp1 events shown where t: "(if ?calls \<noteq> [] then track_tool_call_deltas env ?calls rp else (rp, [], False)) = (rp1, events, shown)"
    by (cases "if ?calls \<noteq> [] then track_tool_call_deltas env ?calls rp else (rp, [], False)") auto
  have w: "calls_whole env (ds @ delta_calls d) (rp_calls rp1)"
    using track_tool_calls_whole [OF assms, of ?calls] assms t unfolding delta_calls_def
    by (cases "?calls = []") auto
  obtain rp2 event where r: "handle_reasoning_delta env d (if shown then None else Some chunk) rp1 = (rp2, event)"
    by (cases "handle_reasoning_delta env d (if shown then None else Some chunk) rp1") auto
  have rp2: "rp_calls rp2 = rp_calls rp1" using handle_reasoning_calls [of env d "if shown then None else Some chunk" rp1] r by simp
  obtain rp3 ev where c: "handle_content env (delta_text env (get d ''content'')) rp2 = (rp3, ev)"
    by (cases "handle_content env (delta_text env (get d ''content'')) rp2") auto
  have rp3: "rp_calls rp3 = rp_calls rp2" using handle_content_calls [of env "delta_text env (get d ''content'')" rp2] c by simp
  show ?thesis
    using w rp2 rp3 unfolding handle_chat_delta_def Let_def t by (simp add: r c)
qed

lemma never_stops:
  assumes "\<not> st_code env"
  shows "\<not> cr_stop (snd (handle_chat_delta env chunk d rp))"
  using assms unfolding handle_chat_delta_def handle_content_def Let_def scan_text_def by (simp split: prod.split option.split)

text \<open>
  C34. However the deltas of a reply's tool calls come, interleaved with each other and with text and
  reasoning, the calls pending at its end are those the deltas name, in the order of their first
  deltas, and each has all its arguments in the order they came, the last name given, and the id of
  its first delta when that has one.
\<close>

theorem calls_arrive_whole:
  assumes "\<not> st_code env"
  shows "calls_whole env (concat (map delta_calls ds)) (rp_calls (handle_deltas env ds new_reply))"
proof -
  have "calls_whole env (old @ concat (map delta_calls ds)) (rp_calls (handle_deltas env ds rp))"
    if "calls_whole env old (rp_calls rp)" for old rp
    using that
  proof (induction ds arbitrary: old rp)
    case (Cons d ds)
    let ?chunk = "[(''choices'', JArr [JObj [(''delta'', JObj d)]])]"
    obtain rp1 r where one: "handle_chat_delta env ?chunk d rp = (rp1, r)" by (cases "handle_chat_delta env ?chunk d rp")
    have "calls_whole env (old @ delta_calls d) (rp_calls rp1)"
      using handle_chat_delta_calls [OF Cons.prems, of d ?chunk] one by simp
    moreover have "\<not> cr_stop r" using never_stops [OF assms, of ?chunk d rp] one by simp
    ultimately show ?case using Cons.IH [of "old @ delta_calls d" rp1] one by simp
  qed simp
  from this [of "[]" new_reply] show ?thesis by (simp add: new_reply_def calls_whole_def)
qed

definition sample_stream_env :: stream_env where
  "sample_stream_env = \<lparr>st_id = (\<lambda>n. ''i'' @ show_nat n), st_now = (\<lambda>n. JInt (int n)), st_since = (\<lambda>n v. JInt 0),
     st_dumps = (\<lambda>v. ''{}''), st_repr = (\<lambda>v. []), st_images = (\<lambda>s. s), st_reasoning_tags = Some think_tags, st_code = False\<rparr>"

definition call_delta :: "int \<Rightarrow> dict \<Rightarrow> string \<Rightarrow> dict" where
  "call_delta i rest args =
     [(''tool_calls'', JArr [JObj ((''index'', JInt i) # (''function'', JObj [(''arguments'', JStr args)]) # rest)])]"

text \<open>Two calls whose arguments come in turns.\<close>

lemma calls_arrive_whole_witness:
  "calls_whole sample_stream_env
     [as_dict (hd (as_list (get (call_delta 0 [(''id'', JStr ''a'')] ''x'') ''tool_calls''))),
      as_dict (hd (as_list (get (call_delta 1 [(''id'', JStr ''b'')] ''y'') ''tool_calls''))),
      as_dict (hd (as_list (get (call_delta 0 [] ''z'') ''tool_calls'')))]
     (rp_calls (handle_deltas sample_stream_env
        [call_delta 0 [(''id'', JStr ''a'')] ''x'', [(''content'', JStr ''Hi'')], call_delta 1 [(''id'', JStr ''b'')] ''y'', call_delta 0 [] ''z''] new_reply))"
proof -
  have "\<not> st_code sample_stream_env" by (simp add: sample_stream_env_def)
  from calls_arrive_whole [OF this, of "[call_delta 0 [(''id'', JStr ''a'')] ''x'', [(''content'', JStr ''Hi'')],
      call_delta 1 [(''id'', JStr ''b'')] ''y'', call_delta 0 [] ''z'']"]
  show ?thesis by (simp add: delta_calls_def call_delta_def get_or_def)
qed

text \<open>Two deltas of one new call in one chunk: the client gets the second one's arguments twice.\<close>

definition two_in_one_chunk :: "dict list" where
  "two_in_one_chunk = [[(''index'', JInt 0), (''id'', JStr ''a''), (''function'', JObj [(''arguments'', JStr ''x'')])],
     [(''index'', JInt 0), (''function'', JObj [(''arguments'', JStr ''y'')])]]"

lemma arguments_sent_twice:
  "map (\<lambda>e. get e ''delta'') (tl (fst (snd (track_tool_call_deltas sample_stream_env two_in_one_chunk new_reply)))) = [JStr ''xy'', JStr ''y'']"
  "map (\<lambda>tc. get (function_of tc) ''arguments'') (rp_calls (fst (track_tool_call_deltas sample_stream_env two_in_one_chunk new_reply)))
     = [JStr ''xy'']"
  by code_simp+

end
