(* ===== verification/ReplyText.thy ===== *)
theory ReplyText
  imports StreamedReply
begin

text \<open>
  The text of a streamed reply that holds no tags (\<open>_StreamingReply\<close> of \<open>utils/middleware.py\<close>): its
  messages say all the content of the stream and its reasoning all the reasoning, in order.
\<close>

section \<open>What a reply says\<close>

text \<open>The texts of an item's parts, and those of all items of a type.\<close>

definition item_text :: "dict \<Rightarrow> string" where
  "item_text item = concat (map (\<lambda>p. as_str (get (as_dict p) ''text'')) (as_list (get item ''content'')))"

definition texts_of :: "string \<Rightarrow> dict list \<Rightarrow> string" where
  "texts_of ty output = concat (map item_text (filter (has_type ty) output))"

text \<open>A content of one text part, or of none.\<close>

definition text_only_part :: "json \<Rightarrow> bool" where
  "text_only_part p \<longleftrightarrow> get (as_dict p) ''type'' = JStr ''output_text'' \<and> is_str (get (as_dict p) ''text'')"

definition only_text :: "dict \<Rightarrow> bool" where
  "only_text item \<longleftrightarrow> is_list (get item ''content'') \<and> list_all text_only_part (as_list (get item ''content'')) \<and>
     length (as_list (get item ''content'')) \<le> 1"

text \<open>The items of a reply whose text has no tags: messages, marked reasoning and tool calls.\<close>

definition untagged_item :: "dict \<Rightarrow> bool" where
  "untagged_item item \<longleftrightarrow>
     has_type ''message'' item \<and> only_text item \<and> get item ''_tag_type'' = JNull
     \<or> has_type ''reasoning'' item \<and> only_text item \<and> from_provider item
     \<or> has_type ''function_call'' item"

definition all_tags :: "stream_env \<Rightarrow> (string \<times> string) list" where
  "all_tags env = (case st_reasoning_tags env of None \<Rightarrow> [] | Some tags \<Rightarrow> tags @ DEFAULT_SOLUTION_TAGS)
     @ (if st_code env then DEFAULT_CODE_INTERPRETER_TAGS else [])"

lemma output_text_part_facts [simp]: "text_only_part (output_text_part t)" "as_str (get (as_dict (output_text_part t)) ''text'') = t"
  by (simp_all add: text_only_part_def output_text_part_def get_or_def)

lemma add_text_only:
  assumes "only_text item"
  shows "only_text (add_text t item)" and "item_text (add_text t item) = item_text item @ t"
proof -
  have "only_text (add_text t item) \<and> item_text (add_text t item) = item_text item @ t"
  proof (cases "as_list (get item ''content'') = []")
    case True
    then have "add_text t item = dict_set ''content'' (JArr [output_text_part t]) item" by (simp add: add_text_def ends_in_text_def)
    then show ?thesis using True by (simp add: only_text_def item_text_def get_or_dict_set)
  next
    case False
    then obtain ps p where ps: "as_list (get item ''content'') = ps @ [p]" by (cases "as_list (get item ''content'')" rule: rev_cases) auto
    then have p: "text_only_part p" "ps = []" using assms by (simp_all add: only_text_def)
    then have pt: "get_or (as_dict p) ''text'' (JStr []) = get (as_dict p) ''text''"
      by (cases "map_of (as_dict p) ''text''") (auto simp: text_only_part_def get_or_def)
    have "add_text t item = dict_set ''content''
        (JArr (ps @ [JObj (dict_set ''text'' (JStr (as_str (get (as_dict p) ''text'') @ t)) (as_dict p))])) item"
      using p(1) by (simp add: add_text_def ends_in_text_def ps last_part_text_def put_last_part_text_def Let_def text_only_part_def pt)
    then show ?thesis using p ps by (simp add: only_text_def item_text_def get_or_dict_set text_only_part_def)
  qed
  then show "only_text (add_text t item)" "item_text (add_text t item) = item_text item @ t" by blast+
qed

lemma has_type_add_text [simp]: "has_type ty (add_text t item) = has_type ty item"
  by (simp add: has_type_def add_text_facts)

lemma untagged_add_text: "untagged_item item \<Longrightarrow> \<not> has_type ''function_call'' item \<Longrightarrow> untagged_item (add_text t item)"
  by (auto simp: untagged_item_def from_provider_def add_text_facts add_text_only)

lemma texts_of_append [simp]: "texts_of ty (xs @ ys) = texts_of ty xs @ texts_of ty ys"
  by (simp add: texts_of_def)

lemma texts_of_simps [simp]: "texts_of ty [] = []" "texts_of ty (x # xs) = (if has_type ty x then item_text x else []) @ texts_of ty xs"
  by (simp_all add: texts_of_def)

lemma output_snoc: "output \<noteq> [] \<Longrightarrow> output = butlast output @ [last output]"
  by simp

lemma has_type_unique: "has_type ty item \<Longrightarrow> has_type ty' item \<longleftrightarrow> ty' = ty"
  by (auto simp: has_type_def)

definition untagged :: "dict list \<Rightarrow> bool" where
  "untagged output \<longleftrightarrow> list_all untagged_item output"

lemma message_output_item_facts [simp]:
  "has_type ''message'' (message_output_item i t)" "untagged_item (message_output_item i t)" "item_text (message_output_item i t) = t"
  "only_text (message_output_item i t)" "\<not> inside_tag_block (message_output_item i t)"
  by (auto simp: has_type_def message_output_item_def get_or_def untagged_item_def only_text_def item_text_def inside_tag_block_def
      from_provider_def CODE_INTERPRETER_def output_text_part_def text_only_part_def)

section \<open>Text without tags is left alone\<close>

lemma search_tag_part:
  assumes "search_tag tag (xs @ ys @ zs) = None"
  shows "search_tag tag ys = None"
  unfolding search_tag_None
proof (intro allI impI, rule ccontr)
  fix n
  assume n: "n \<le> length ys" and m: "match_start_tag tag (drop n ys) \<noteq> None"
  then obtain a r where m: "match_start_tag tag (drop n ys) = Some (a, r)" by auto
  then obtain p where p: "drop n ys = p @ r" using match_start_tag_text by (metis append.assoc append_Cons append_Nil)
  then have "drop (length xs + n) (xs @ ys @ zs) = p @ r @ zs" using n by simp
  moreover have "match_start_tag tag (p @ r @ zs) = Some (a, r @ zs)" by (rule match_start_tag_prefix [OF m p])
  moreover have "length xs + n \<le> length (xs @ ys @ zs)" using n by simp
  ultimately show False using assms unfolding search_tag_None by (metis option.distinct(1))
qed

lemma nothing_in_part: "nothing_in tags (xs @ ys @ zs) \<Longrightarrow> nothing_in tags ys"
  unfolding nothing_in_def list_all_iff using search_tag_part by blast

lemma nothing_in_subset: "nothing_in xs t \<Longrightarrow> set ys \<subseteq> set xs \<Longrightarrow> nothing_in ys t"
  by (auto simp: nothing_in_def list_all_iff)

lemma first_tag_none: "nothing_in tags t \<Longrightarrow> first_tag n t tags = None"
proof (induction tags)
  case (Cons tag tags)
  have "search_tag (fst tag) (drop n t) = None"
    using Cons.prems search_tag_part [of "fst tag" "take n t" "drop n t" "[]"] by (simp add: nothing_in_def)
  then show ?case using Cons by (simp add: nothing_in_def search_tag_from_def)
qed simp

lemma scan_leaves:
  assumes "output \<noteq> []" and "has_type ''message'' (last output)" and "get (last output) ''_tag_type'' = JNull"
    and "nothing_in tags (last_part_text (last output))"
  shows "\<exists>sc'. scan env sc ty tags output = (sc', output, False)"
  using assms first_tag_none [OF assms(4)]
  by (auto simp: scan_def is_open_block_def has_type_def CODE_INTERPRETER_def open_block_def last_output_text_def Let_def split: prod.split)

text \<open>The last item is a message whose last text has no tags.\<close>

definition ends_untagged :: "stream_env \<Rightarrow> dict list \<Rightarrow> bool" where
  "ends_untagged env output \<longleftrightarrow> output \<noteq> [] \<and> has_type ''message'' (last output) \<and> get (last output) ''_tag_type'' = JNull
     \<and> nothing_in (all_tags env) (last_part_text (last output))"

lemma scan_reply_leaves:
  assumes "ends_untagged env (rp_output rp)" and "set tags \<subseteq> set (all_tags env)"
  shows "rp_output (fst (scan_reply env ty tags rp)) = rp_output rp" and "\<not> snd (scan_reply env ty tags rp)"
proof -
  have "nothing_in tags (last_part_text (last (rp_output rp)))"
    using assms nothing_in_subset unfolding ends_untagged_def by blast
  then obtain sc where "scan (scan_env_at env (rp_draws rp)) (rp_scanner rp) ty tags (rp_output rp) = (sc, rp_output rp, False)"
    using scan_leaves [of "rp_output rp" tags "scan_env_at env (rp_draws rp)" "rp_scanner rp" ty] assms by (auto simp: ends_untagged_def)
  then show "rp_output (fst (scan_reply env ty tags rp)) = rp_output rp" "\<not> snd (scan_reply env ty tags rp)"
    by (simp_all add: scan_reply_def)
qed

lemma all_tags_has:
  "st_reasoning_tags env = Some tags \<Longrightarrow> set tags \<subseteq> set (all_tags env)"
  "st_reasoning_tags env = Some tags \<Longrightarrow> set DEFAULT_SOLUTION_TAGS \<subseteq> set (all_tags env)"
  "st_code env \<Longrightarrow> set DEFAULT_CODE_INTERPRETER_TAGS \<subseteq> set (all_tags env)"
  by (auto simp: all_tags_def)

lemma scan_text_leaves:
  assumes "ends_untagged env (rp_output rp)"
  shows "rp_output (fst (scan_text env rp)) = rp_output rp \<and> \<not> snd (scan_text env rp)"
  using assms
  by (cases "st_reasoning_tags env"; cases "st_code env") (simp_all add: scan_text_def Let_def scan_reply_leaves all_tags_has)

section \<open>One step keeps the texts\<close>

definition says :: "string \<Rightarrow> string \<Rightarrow> dict list \<Rightarrow> bool" where
  "says content reasoning output \<longleftrightarrow>
     untagged output \<and> texts_of ''message'' output = content \<and> texts_of ''reasoning'' output = reasoning"

lemma untagged_simps [simp]:
  "untagged []" "untagged (x # xs) \<longleftrightarrow> untagged_item x \<and> untagged xs" "untagged (xs @ ys) \<longleftrightarrow> untagged xs \<and> untagged ys"
  by (simp_all add: untagged_def)

lemma last_part_ends:
  assumes "only_text item"
  shows "\<exists>before. item_text item = before @ last_part_text item"
proof (cases "as_list (get item ''content'')" rule: rev_cases)
  case Nil
  then show ?thesis by (simp add: last_part_text_def ends_in_text_def)
next
  case (snoc ps p)
  then have p: "text_only_part p" using assms by (simp add: only_text_def)
  then have "get_or (as_dict p) ''text'' (JStr []) = get (as_dict p) ''text''"
    by (cases "map_of (as_dict p) ''text''") (auto simp: text_only_part_def get_or_def)
  then show ?thesis using snoc p by (simp add: last_part_text_def ends_in_text_def item_text_def text_only_part_def)
qed

lemma not_inside: "untagged_item item \<Longrightarrow> \<not> inside_tag_block item"
  by (auto simp: untagged_item_def inside_tag_block_def has_type_def CODE_INTERPRETER_def)

lemma close_reasoning_says:
  assumes "says c r (rp_output rp)"
  shows "says c r (rp_output (close_streamed_reasoning env rp))"
proof (cases "rp_output rp" rule: rev_cases)
  case (snoc xs x)
  have "has_type ty (ended_reasoning env n x) = has_type ty x" "item_text (ended_reasoning env n x) = item_text x"
      "from_provider (ended_reasoning env n x) = from_provider x" "only_text (ended_reasoning env n x) = only_text x" for ty n
    by (simp_all add: ended_reasoning_def has_type_def item_text_def from_provider_def only_text_def get_or_dict_set)
  then show ?thesis
    using assms snoc has_type_unique [of "''reasoning''" x]
    by (simp add: close_streamed_reasoning_def Let_def says_def untagged_item_def)
      (auto simp: has_type_def message_output_item_def get_or_def)
qed (use assms in \<open>simp add: close_streamed_reasoning_def\<close>)

lemma append_text_says:
  assumes "says c r (rp_output rp)"
  shows "says (c @ t) r (rp_output (append_text env t rp))"
    and "rp_output (append_text env t rp) \<noteq> []"
    and "has_type ''message'' (last (rp_output (append_text env t rp)))"
    and "get (last (rp_output (append_text env t rp))) ''_tag_type'' = JNull"
proof -
  let ?out = "rp_output (append_text env t rp)"
  have m: "has_type ''reasoning'' x \<longleftrightarrow> False" if "has_type ''message'' x" for x using that by (simp add: has_type_def)
  have m0: "get (add_text t (message_output_item i [])) ''_tag_type'' = JNull" for i
    by (simp add: add_text_facts) (simp add: message_output_item_def get_or_def)
  have m1: "untagged_item (add_text t (message_output_item i []))" "item_text (add_text t (message_output_item i [])) = t" for i
    using untagged_add_text [of "message_output_item i []" t] add_text_only [of "message_output_item i []" t]
    by (simp_all add: has_type_unique [of "''message''"])
  have "says (c @ t) r ?out \<and> ?out \<noteq> [] \<and> has_type ''message'' (last ?out) \<and> get (last ?out) ''_tag_type'' = JNull"
  proof (cases "rp_output rp \<noteq> [] \<and> has_type ''message'' (last (rp_output rp))")
    case False
    then have "?out = rp_output rp @ [add_text t (message_output_item (st_id env (rp_draws rp)) [])]"
      using assms not_inside by (cases "rp_output rp" rule: rev_cases) (auto simp: append_text_def Let_def says_def)
    then show ?thesis using assms by (simp add: says_def m m0 m1)
  next
    case True
    then obtain xs x where x: "rp_output rp = xs @ [x]" "has_type ''message'' x" by (metis append_butlast_last_id)
    then have u: "untagged_item x" using assms by (simp add: says_def)
    then have o: "only_text x" "get x ''_tag_type'' = JNull" using x(2) by (auto simp: untagged_item_def has_type_def)
    have "?out = xs @ [add_text t x]" using x not_inside [OF u] by (simp add: append_text_def Let_def)
    moreover have "untagged_item (add_text t x)" using untagged_add_text [OF u] x(2) by (simp add: has_type_unique [of "''message''"])
    ultimately show ?thesis
      using assms x o by (auto simp: says_def m add_text_only add_text_facts)
  qed
  then show "says (c @ t) r ?out" "?out \<noteq> []" "has_type ''message'' (last ?out)" "get (last ?out) ''_tag_type'' = JNull" by blast+
qed

lemma handle_content_says:
  assumes "says c r (rp_output rp)" and "nothing_in (all_tags env) (c @ st_images env t @ rest)"
  shows "says (c @ st_images env t) r (rp_output (fst (handle_content env t rp)))" and "snd (handle_content env t rp) \<noteq> None"
proof -
  let ?t = "st_images env t"
  define rp2 where "rp2 = append_text env ?t (close_streamed_reasoning env rp\<lparr>rp_parts := rp_parts (close_streamed_reasoning env rp) @ [?t]\<rparr>)"
  have "says c r (rp_output (close_streamed_reasoning env rp\<lparr>rp_parts := rp_parts (close_streamed_reasoning env rp) @ [?t]\<rparr>))"
    using close_reasoning_says [OF assms(1)] by simp
  note s = append_text_says [OF this, where t = ?t and env = env, folded rp2_def]
  define x where "x = last (rp_output rp2)"
  have x: "rp_output rp2 = butlast (rp_output rp2) @ [x]" using s(2) by (simp add: x_def)
  have u: "untagged_item x" using s(1) x unfolding says_def by (metis untagged_simps(2,3))
  then obtain b where b: "item_text x = b @ last_part_text x"
    using last_part_ends s(3) by (fastforce simp: untagged_item_def has_type_def x_def)
  have "texts_of ''message'' (rp_output rp2) = c @ ?t" using s(1) by (simp add: says_def)
  then have "c @ ?t = (texts_of ''message'' (butlast (rp_output rp2)) @ b) @ last_part_text x"
    using s(3) b by (subst (asm) x) (simp add: x_def)
  then have "nothing_in (all_tags env) (last_part_text x)"
    using assms(2) nothing_in_part by (metis append.assoc)
  then have "ends_untagged env (rp_output rp2)" using s by (simp add: ends_untagged_def x_def)
  note l = scan_text_leaves [OF this]
  have h: "fst (handle_content env t rp) = fst (scan_text env rp2)" "snd (handle_content env t rp) = None \<longleftrightarrow> snd (scan_text env rp2)"
    by (simp_all add: handle_content_def Let_def rp2_def split: prod.split)
  show "says (c @ ?t) r (rp_output (fst (handle_content env t rp)))" "snd (handle_content env t rp) \<noteq> None"
    using l s(1) by (simp_all add: h)
qed

text \<open>The last element with a property, and the first one.\<close>

lemma last_at_split:
  "last_at P xs = Some n \<Longrightarrow> \<exists>ys x zs. xs = ys @ x # zs \<and> length ys = n \<and> P x \<and> list_all (\<lambda>z. \<not> P z) zs"
proof (induction xs arbitrary: n)
  case (Cons a xs)
  show ?case
  proof (cases "last_at P xs")
    case None
    then have "list_all (\<lambda>z. \<not> P z) xs" by (induction xs) (auto split: option.splits if_splits)
    then show ?thesis using Cons.prems None by (intro exI [of _ "[]"] exI [of _ a] exI [of _ xs]) (simp split: if_splits)
  next
    case (Some m)
    then obtain ys x zs where "xs = ys @ x # zs" "length ys = m" "P x" "list_all (\<lambda>z. \<not> P z) zs" using Cons.IH by blast
    then show ?thesis using Cons.prems Some by (intro exI [of _ "a # ys"] exI [of _ x] exI [of _ zs]) simp
  qed
qed simp

lemma last_at_None: "last_at P xs = None \<longleftrightarrow> list_all (\<lambda>x. \<not> P x) xs"
  by (induction xs) (auto split: option.splits)

lemma texts_of_none: "list_all (\<lambda>x. \<not> has_type ty x) xs \<Longrightarrow> texts_of ty xs = []"
  by (induction xs) simp_all

text \<open>The reasoning item a delta goes to is the last one.\<close>

definition reasoning_at :: "nat \<Rightarrow> dict list \<Rightarrow> bool" where
  "reasoning_at i output \<longleftrightarrow> (\<exists>ys x zs. output = ys @ x # zs \<and> length ys = i \<and> has_type ''reasoning'' x
     \<and> list_all (\<lambda>z. \<not> has_type ''reasoning'' z) zs)"

lemma reasoning_atI:
  "length ys = i \<Longrightarrow> has_type ''reasoning'' x \<Longrightarrow> list_all (\<lambda>z. \<not> has_type ''reasoning'' z) zs \<Longrightarrow> reasoning_at i (ys @ x # zs)"
  unfolding reasoning_at_def by blast

lemma open_reasoning_says:
  assumes "says c r (rp_output rp)" and "open_reasoning_item env message rp = (rp1, i)"
    and "message = first_at (has_type ''message'') (rp_output rp)"
    and "message \<noteq> None \<Longrightarrow> last_at (has_type ''reasoning'') (rp_output rp) = None"
  shows "says c r (rp_output rp1) \<and> reasoning_at i (rp_output rp1)"
proof (cases "rp_output rp \<noteq> [] \<and> has_type ''reasoning'' (last (rp_output rp))")
  case True
  then obtain xs x where "rp_output rp = xs @ [x]" "has_type ''reasoning'' x" by (metis append_butlast_last_id)
  moreover from this have "rp1 = rp" "i = length xs" using assms(2) by (simp_all add: open_reasoning_item_def Let_def)
  ultimately show ?thesis using assms(1) reasoning_atI [of xs i x "[]"] by simp
next
  case False
  define new where "new = block_head ''reasoning'' (st_id env (rp_draws rp)) ''<think>'' ''</think>'' [(''type'', JStr ''reasoning_content'')]
                 @ [(''content'', JArr []), (''summary'', JNull), (''started_at'', st_now env (rp_draws rp))]"
  define past where "past = dict_set ''status'' (JStr ''completed'') (dict_set ''duration'' (JInt 0) (dict_set ''ended_at'' (st_now env (rp_draws rp)) new))"
  have n: "has_type ''reasoning'' new" "untagged_item new" "item_text new = []"
    by (simp_all add: new_def block_head_def has_type_def untagged_item_def only_text_def item_text_def from_provider_def get_or_def)
  have p: "has_type ''reasoning'' past" "untagged_item past" "item_text past = []"
    using n unfolding past_def
    by (simp_all add: has_type_def untagged_item_def only_text_def item_text_def from_provider_def get_or_dict_set)
  have m: "has_type ''message'' x \<longleftrightarrow> False" if "has_type ''reasoning'' x" for x using that by (simp add: has_type_def)
  show ?thesis
  proof (cases message)
    case None
    then have o: "rp_output rp1 = rp_output rp @ [new]" "i = length (rp_output rp)"
      using assms(2) False by (auto simp: open_reasoning_item_def Let_def new_def)
    then show ?thesis using assms(1) n reasoning_atI [of "rp_output rp" i new "[]"] by (simp add: says_def m)
  next
    case (Some k)
    then have o: "rp_output rp1 = take k (rp_output rp) @ past # drop k (rp_output rp)" "i = k"
      using assms(2) False by (auto simp: open_reasoning_item_def Let_def new_def past_def)
    have k: "length (take k (rp_output rp)) = k" using first_at_Some assms(3) Some by fastforce
    have "list_all (\<lambda>x. \<not> has_type ''reasoning'' x) (drop k (rp_output rp))"
      using assms(4) Some unfolding last_at_None list_all_iff by (blast dest: in_set_dropD)
    then have "reasoning_at i (rp_output rp1)" using o k p(1) by (simp add: reasoning_atI)
    moreover have "says c r (rp_output rp1)"
      using assms(1) p o by (subst (asm) append_take_drop_id [symmetric, of _ k]) (simp add: says_def m del: append_take_drop_id)
    ultimately show ?thesis by simp
  qed
qed

lemma with_details_facts:
  "has_type ty (with_details ds x) = has_type ty x" "item_text (with_details ds x) = item_text x"
  "untagged_item (with_details ds x) = untagged_item x"
  by (simp_all add: with_details_def has_type_def item_text_def untagged_item_def from_provider_def only_text_def get_or_dict_set)

lemma reasoning_update:
  assumes "says c r output" and "reasoning_at i output"
  shows "says c (r @ t) (output[i := (if ds = [] then (if t = [] then output ! i else add_text t (output ! i))
      else with_details ds (if t = [] then output ! i else add_text t (output ! i)))])"
proof -
  from assms(2) obtain ys x zs where o: "output = ys @ x # zs" "length ys = i" "has_type ''reasoning'' x"
      "list_all (\<lambda>z. \<not> has_type ''reasoning'' z) zs" unfolding reasoning_at_def by blast
  have u: "untagged_item x" using assms(1) o(1) by (simp add: says_def)
  define item1 where "item1 = (if t = [] then x else add_text t x)"
  define item2 where "item2 = (if ds = [] then item1 else with_details ds item1)"
  have only: "only_text x" using u o(3) by (auto simp: untagged_item_def has_type_def)
  have fc: "\<not> has_type ''function_call'' x" "\<not> has_type ''message'' x" using o(3) by (simp_all add: has_type_def)
  have i1: "untagged_item item1" "has_type ''reasoning'' item1" "item_text item1 = item_text x @ t" "\<not> has_type ''message'' item1"
    using untagged_add_text [OF u fc(1)] add_text_only [OF only] u o(3) fc by (simp_all add: item1_def)
  have i2: "untagged_item item2" "has_type ''reasoning'' item2" "item_text item2 = item_text x @ t" "\<not> has_type ''message'' item2"
    using i1 by (simp_all add: item2_def with_details_facts)
  have "says c (r @ t) (ys @ item2 # zs)"
    using assms(1) o i2 fc texts_of_none [OF o(4)] by (auto simp: says_def)
  moreover have "output ! i = x" and "output[i := item2] = ys @ item2 # zs" using o(1,2) by auto
  ultimately show ?thesis by (simp only: item1_def item2_def)
qed

lemma handle_reasoning_says:
  assumes "says c r (rp_output rp)"
  shows "says c (r @ reasoning_text env d) (rp_output (fst (handle_reasoning_delta env d ev rp)))"
proof -
  let ?t = "reasoning_text env d" and ?ds = "reasoning_detail_items d" and ?out = "rp_output rp"
  define existing where "existing = last_at (has_type ''reasoning'') ?out"
  define message where "message = first_at (has_type ''message'') ?out"
  define chosen where "chosen = (if ?ds \<noteq> [] \<and> ?t = [] \<or> message \<noteq> None then existing else None)"
  obtain rp1 i where p: "(case chosen of Some i \<Rightarrow> (rp, i) | None \<Rightarrow> open_reasoning_item env message rp) = (rp1, i)"
    by (cases "case chosen of Some i \<Rightarrow> (rp, i) | None \<Rightarrow> open_reasoning_item env message rp") auto
  show ?thesis
  proof (cases "?t \<noteq> [] \<or> ?ds \<noteq> [] \<and> (existing \<noteq> None
      \<or> list_ex (\<lambda>d. truthy (get d ''text'') \<or> truthy (get d ''summary'') \<or> truthy (get d ''data'')) ?ds)")
    case False
    then have "?t = []" "handle_reasoning_delta env d ev rp = (rp, ev)"
      by (auto simp: handle_reasoning_delta_def Let_def existing_def)
    then show ?thesis using assms by simp
  next
    case True
    have "says c r (rp_output rp1) \<and> reasoning_at i (rp_output rp1)"
    proof (cases chosen)
      case None
      then show ?thesis
        using open_reasoning_says [OF assms, of env message rp1 i] p
        by (auto simp: chosen_def existing_def message_def split: if_splits)
    next
      case (Some k)
      then have "existing = Some k" "rp1 = rp" "i = k" using p by (auto simp: chosen_def split: if_splits)
      then show ?thesis using assms last_at_split unfolding existing_def reasoning_at_def by blast
    qed
    then have "says c (r @ ?t) ((rp_output rp1)[i := (if ?ds = [] then (if ?t = [] then rp_output rp1 ! i else add_text ?t (rp_output rp1 ! i))
      else with_details ?ds (if ?t = [] then rp_output rp1 ! i else add_text ?t (rp_output rp1 ! i)))])"
      using reasoning_update by blast
    then show ?thesis
      using True p unfolding handle_reasoning_delta_def Let_def existing_def [symmetric] message_def [symmetric] chosen_def [symmetric]
      by simp
  qed
qed

lemma show_call_says:
  assumes "says c r (fst acc)"
  shows "says c r (fst (show_call acc tc))"
proof -
  obtain out events where acc: "acc = (out, events)" by (cases acc)
  define new where "new = (let f = function_of tc; i = get tc ''id'' in dict_set ''arguments'' (get_or f ''arguments'' (JStr []))
      [(''type'', JStr ''function_call''), (''id'', i), (''call_id'', i), (''name'', get_or f ''name'' (JStr [])),
       (''arguments'', JStr []), (''status'', JStr ''in_progress'')])"
  have new: "has_type ''function_call'' new" by (simp add: new_def Let_def has_type_def get_or_dict_set) (simp add: get_or_def)
  have f: "untagged_item x" "has_type ''message'' x \<longleftrightarrow> False" "has_type ''reasoning'' x \<longleftrightarrow> False" if "has_type ''function_call'' x" for x
    using that by (simp_all add: untagged_item_def has_type_def)
  show ?thesis
  proof (cases "last_at (call_item_of (get tc ''id'')) out")
    case None
    then have "fst (show_call acc tc) = out @ [new]" by (simp add: show_call_def acc Let_def new_def)
    then show ?thesis using assms f new by (simp add: acc says_def)
  next
    case (Some n)
    then obtain ys x zs where o: "out = ys @ x # zs" "length ys = n" "call_item_of (get tc ''id'') x" using last_at_split by blast
    define x1 where "x1 = dict_set ''status'' (JStr ''in_progress'')
                (dict_set ''arguments'' (get_or (function_of tc) ''arguments'' (get_or x ''arguments'' (JStr [])))
                  (dict_set ''name'' (get_or (function_of tc) ''name'' (get_or x ''name'' (JStr []))) x))"
    have t: "has_type ''function_call'' x" "has_type ''function_call'' x1"
      using o(3) by (simp_all add: call_item_of_def x1_def has_type_def get_or_dict_set)
    have "out ! n = x" and "\<And>y. out[n := y] = ys @ y # zs" using o(1,2) by auto
    then have "fst (show_call acc tc) = ys @ x1 # zs" using Some by (simp add: show_call_def acc Let_def x1_def)
    then show ?thesis using assms f t by (simp add: acc o(1) says_def)
  qed
qed

lemma track_calls_says:
  assumes "says c r (rp_output rp)"
  shows "says c r (rp_output (fst (track_tool_call_deltas env ds rp)))"
proof -
  have "rp_output (foldl (track_delta env) rp ds) = rp_output rp" for rp
    by (induction ds arbitrary: rp) (simp_all add: track_delta_def Let_def split: option.split)
  moreover have "says c r (fst (foldl show_call acc tcs))" if "says c r (fst acc)" for acc tcs
    using that by (induction tcs arbitrary: acc) (simp_all add: show_call_says)
  ultimately show ?thesis using assms by (simp add: track_tool_call_deltas_def Let_def split: prod.split) (metis fst_conv)
qed

section \<open>The whole stream\<close>

text \<open>What a delta says, its inline images converted.\<close>

definition content_said :: "stream_env \<Rightarrow> dict \<Rightarrow> string" where
  "content_said env d = (let t = delta_text env (get d ''content'') in if t = [] then [] else st_images env t)"

lemma handle_chat_delta_says:
  assumes "says c r (rp_output rp)" and "nothing_in (all_tags env) (c @ content_said env d @ rest)"
  shows "says (c @ content_said env d) (r @ reasoning_text env d) (rp_output (fst (handle_chat_delta env chunk d rp)))
     \<and> \<not> cr_stop (snd (handle_chat_delta env chunk d rp))"
proof -
  let ?calls = "map as_dict (as_list (get d ''tool_calls''))" and ?t = "delta_text env (get d ''content'')"
  obtain rp1 events shown where t: "(if ?calls \<noteq> [] then track_tool_call_deltas env ?calls rp else (rp, [], False)) = (rp1, events, shown)"
    by (cases "if ?calls \<noteq> [] then track_tool_call_deltas env ?calls rp else (rp, [], False)") auto
  have s1: "says c r (rp_output rp1)"
    using track_calls_says [OF assms(1), of env ?calls] assms(1) t by (cases "?calls = []") auto
  obtain rp2 event where h: "handle_reasoning_delta env d (if shown then None else Some chunk) rp1 = (rp2, event)"
    by (cases "handle_reasoning_delta env d (if shown then None else Some chunk) rp1") auto
  have s2: "says c (r @ reasoning_text env d) (rp_output rp2)"
    using handle_reasoning_says [OF s1, of env d "if shown then None else Some chunk"] h by simp
  show ?thesis
  proof (cases "?t = []")
    case True
    then show ?thesis using s2 unfolding handle_chat_delta_def Let_def t by (simp add: h content_said_def)
  next
    case False
    then have "nothing_in (all_tags env) (c @ st_images env ?t @ rest)" using assms(2) by (simp add: content_said_def)
    note s3 = handle_content_says [OF s2 this]
    obtain rp3 ev where e: "handle_content env ?t rp2 = (rp3, ev)" by (cases "handle_content env ?t rp2") auto
    show ?thesis using s3 False unfolding handle_chat_delta_def Let_def t by (simp add: h e content_said_def)
  qed
qed

section \<open>The end of the reply\<close>

lemma strip_text_Nil_text: "strip_text [] = []"
  by (simp add: strip_text_Nil)

text \<open>What the text of the last message is, when the reply ends in a message.\<close>

lemma last_text:
  assumes "untagged output" and "output \<noteq> []" and "has_type ''message'' (last output)"
  shows "item_text (last output) = last_part_text (last output)"
    and "texts_of ''message'' output = texts_of ''message'' (butlast output) @ last_part_text (last output)"
    and "texts_of ''reasoning'' output = texts_of ''reasoning'' (butlast output)"
proof -
  have split: "output = butlast output @ [last output]" using assms(2) by (rule output_snoc)
  then have "untagged_item (last output)" using assms(1) by (metis untagged_simps(2,3))
  then have "only_text (last output)" using assms(3) by (auto simp: untagged_item_def has_type_unique)
  then show tx: "item_text (last output) = last_part_text (last output)"
    by (cases "as_list (get (last output) ''content'')")
       (auto simp: only_text_def last_part_text_def ends_in_text_def item_text_def text_only_part_def get_or_def split: option.splits)
  show "texts_of ''message'' output = texts_of ''message'' (butlast output) @ last_part_text (last output)"
    "texts_of ''reasoning'' output = texts_of ''reasoning'' (butlast output)"
    using assms(3) tx by (subst split, simp add: has_type_unique [OF assms(3)])+
qed

lemma put_last_text:
  assumes "only_text item" and "ends_in_text item"
  shows "item_text (put_last_part_text t item) = t" and "has_type ty (put_last_part_text t item) = has_type ty item"
proof -
  obtain p where p: "as_list (get item ''content'') = [p]"
    using assms by (cases "as_list (get item ''content'')") (auto simp: only_text_def ends_in_text_def)
  then show "item_text (put_last_part_text t item) = t"
    by (simp add: put_last_part_text_def Let_def item_text_def get_or_dict_set)
  show "has_type ty (put_last_part_text t item) = has_type ty item"
    by (simp add: put_last_part_text_def Let_def has_type_def get_or_dict_set)
qed

lemma finish_message_texts:
  assumes "untagged (rp_output rp)" and "rp_output rp \<noteq> []"
  shows "rp_output (finish_last_message env rp) \<noteq> [] \<and>
    (\<exists>c. texts_of ''message'' (rp_output rp) = c @ last_output_text (rp_output rp) \<and>
      texts_of ''message'' (rp_output (finish_last_message env rp)) = c @ strip_text (last_output_text (rp_output rp))) \<and>
    texts_of ''reasoning'' (rp_output (finish_last_message env rp)) = texts_of ''reasoning'' (rp_output rp)"
proof (cases "has_type ''message'' (last (rp_output rp))")
  case True
  let ?item = "last (rp_output rp)"
  note l = last_text [OF assms True]
  have "untagged_item ?item" using assms by (metis output_snoc untagged_simps(2,3))
  then have only: "only_text ?item" using True by (auto simp: untagged_item_def has_type_unique)
  note p = put_last_text [OF only]
  have e: "last_part_text ?item = []" if "\<not> ends_in_text ?item" using that by (simp add: last_part_text_def)
  show ?thesis
    using assms(2) l True p e
    by (auto simp: finish_last_message_def last_output_text_def Let_def strip_text_Nil_text has_type_unique [OF True])
next
  case False
  then show ?thesis using assms(2) by (simp add: finish_last_message_def last_output_text_def Let_def strip_text_Nil_text)
qed

lemma texts_of_last:
  assumes "xs \<noteq> []" and "item_text x = item_text (last xs)" and "has_type ty x = has_type ty (last xs)"
  shows "texts_of ty (butlast xs @ [x]) = texts_of ty xs"
proof -
  have "texts_of ty (butlast xs @ [x]) = texts_of ty (butlast xs @ [last xs])"
    unfolding texts_of_append using assms(2,3) by simp
  then show ?thesis using assms(1) by simp
qed

lemma finish_reasoning_texts:
  "rp_output rp \<noteq> [] \<Longrightarrow> texts_of ty (rp_output (finish_last_reasoning env rp)) = texts_of ty (rp_output rp)"
  unfolding finish_last_reasoning_def Let_def
  by (simp add: texts_of_last has_type_def item_text_def get_or_dict_set del: texts_of_append)

text \<open>
  C33. However a reply's content and reasoning are cut into deltas, and wherever tool calls stand
  between them, the messages of its output say together all the content, and its reasoning items all
  the reasoning the provider marked, in order, when no tag the scanner looks for occurs in the content.
  The end of the stream takes the blanks around the text of the last message away, when the reply ends
  in a message, and nothing else.
\<close>

theorem reply_says_it_all:
  assumes "nothing_in (all_tags env) (concat (map (content_said env) ds))"
    and "streamed = handle_deltas env ds new_reply" and "finished = finish_stream_output env streamed"
  shows "texts_of ''message'' (rp_output streamed) = concat (map (content_said env) ds)
     \<and> texts_of ''reasoning'' (rp_output streamed) = concat (map (reasoning_text env) ds)
     \<and> (\<exists>before. concat (map (content_said env) ds) = before @ last_output_text (rp_output streamed)
          \<and> texts_of ''message'' (rp_output finished) = before @ strip_text (last_output_text (rp_output streamed)))
     \<and> texts_of ''reasoning'' (rp_output finished) = concat (map (reasoning_text env) ds)"
proof -
  have "says (c @ concat (map (content_said env) ds)) (r @ concat (map (reasoning_text env) ds)) (rp_output (handle_deltas env ds rp))"
    if "says c r (rp_output rp)" "nothing_in (all_tags env) (c @ concat (map (content_said env) ds))" for c r rp
    using that
  proof (induction ds arbitrary: c r rp)
    case (Cons d ds)
    let ?chunk = "[(''choices'', JArr [JObj [(''delta'', JObj d)]])]"
    obtain rp1 res where one: "handle_chat_delta env ?chunk d rp = (rp1, res)" by (cases "handle_chat_delta env ?chunk d rp")
    have s: "says (c @ content_said env d) (r @ reasoning_text env d) (rp_output rp1)" "\<not> cr_stop res"
      using handle_chat_delta_says [of c r rp env d "concat (map (content_said env) ds)" ?chunk] Cons.prems one by simp_all
    then show ?case using Cons.IH [of "c @ content_said env d" "r @ reasoning_text env d" rp1] Cons.prems(2) one by simp
  qed simp
  from this [of "[]" "[]" new_reply] assms(1,2)
  have s: "says (concat (map (content_said env) ds)) (concat (map (reasoning_text env) ds)) (rp_output streamed)"
    by (simp add: says_def new_reply_def)
  show ?thesis
  proof (cases "rp_output streamed = []")
    case True
    then show ?thesis using s assms(3) by (auto simp: says_def finish_stream_output_def last_output_text_def strip_text_Nil_text)
  next
    case False
    then show ?thesis using s finish_message_texts [of streamed env] assms(3)
      by (auto simp: says_def finish_stream_output_def finish_reasoning_texts)
  qed
qed

text \<open>Reasoning, text, a call and more text.\<close>

definition sample_deltas :: "dict list" where
  "sample_deltas = [[(''reasoning_content'', JStr ''a <think> b'')], [(''content'', JStr ''Hi'')], call_delta 0 [(''id'', JStr ''a'')] ''x'',
     [(''content'', JStr '' you'')], [(''reasoning'', JStr ''c'')]]"

lemma reply_says_it_all_witness:
  "case handle_deltas sample_stream_env (butlast sample_deltas) new_reply of streamed \<Rightarrow>
     texts_of ''message'' (rp_output streamed) = ''Hi you'' \<and> last_output_text (rp_output streamed) = '' you'' \<and>
     texts_of ''message'' (rp_output (finish_stream_output sample_stream_env streamed)) = ''Hiyou''
     \<and> texts_of ''reasoning'' (rp_output (finish_stream_output sample_stream_env streamed)) = ''a <think> b''"
proof -
  let ?streamed = "handle_deltas sample_stream_env (butlast sample_deltas) new_reply"
  have c: "concat (map (content_said sample_stream_env) (butlast sample_deltas)) = ''Hi you''"
    and r: "concat (map (reasoning_text sample_stream_env) (butlast sample_deltas)) = ''a <think> b''"
    and l: "last_output_text (rp_output ?streamed) = '' you''" and t: "strip_text '' you'' = ''you''" by code_simp+
  have "nothing_in (all_tags sample_stream_env) ''Hi you''" by code_simp
  then have "nothing_in (all_tags sample_stream_env) (concat (map (content_said sample_stream_env) (butlast sample_deltas)))" unfolding c .
  from reply_says_it_all [OF this refl refl] show ?thesis unfolding c r l t by (auto simp: append_eq_Cons_conv Cons_eq_append_conv)
qed

end
