(* ===== verification/ResponsesEvents.thy ===== *)
theory ResponsesEvents
  imports PyJson
begin

text \<open>
  The events of a Responses API stream (\<open>handle_responses_streaming_event\<close> of
  \<open>utils/middleware.py\<close>): each takes the output items read so far to the new ones and metadata. Items,
  an event's item and its response are dicts and its type is text, as the API documents them; indices, parts and values
  are whatever the provider sends. \<open>repr\<close> is an argument.
\<close>

section \<open>Merging\<close>

fun deep_merge :: "json \<Rightarrow> json \<Rightarrow> json" and merge_entries :: "dict \<Rightarrow> dict \<Rightarrow> dict" where
  "deep_merge (JObj target) (JObj source) = JObj (merge_entries target source)"
| "deep_merge (JStr target) (JStr source) = JStr (target @ source)"
| "deep_merge target source = source"
| "merge_entries target [] = target"
| "merge_entries target ((k, v) # source) =
     merge_entries (dict_set k (case map_of target k of Some x \<Rightarrow> deep_merge x v | None \<Rightarrow> v) target) source"

section \<open>Events\<close>

text \<open>A value compared with a number and used as an index.\<close>

fun as_index :: "json \<Rightarrow> py_error + int" where
  "as_index (JInt i) = Inr i"
| "as_index (JBool b) = Inr (if b then 1 else 0)"
| "as_index _ = Inl TypeError"

definition output_index :: "dict \<Rightarrow> dict list \<Rightarrow> json" where
  "output_index data output = get_or data ''output_index'' (JInt (int (length output) - 1))"

definition in_range :: "int \<Rightarrow> 'a list \<Rightarrow> bool" where
  "in_range i xs \<longleftrightarrow> 0 \<le> i \<and> i < int (length xs)"

text \<open>The items, and the metadata: None means there is nothing to tell.\<close>

type_synonym outcome = "py_error + dict list \<times> dict option"

text \<open>Change the item at the event's index, when there is one.\<close>

definition change_item :: "dict \<Rightarrow> dict list \<Rightarrow> (dict \<Rightarrow> py_error + dict \<times> dict option) \<Rightarrow> outcome" where
  "change_item data output f =
     (if output = [] then Inr (output, None)
      else and_then (as_index (output_index data output)) (\<lambda>i.
        if in_range i output
        then and_then (f (output ! nat i)) (\<lambda>(item, meta). Inr (output[nat i := item], meta))
        else Inr (output, None)))"

definition copied_parts :: "dict \<Rightarrow> string \<Rightarrow> py_error + json list" where
  "copied_parts item key = (if has_key item key then py_iter (get item key) else Inr [])"

text \<open>An index from the end counts as Python counts it.\<close>

definition py_at :: "int \<Rightarrow> 'a list \<Rightarrow> py_error + nat" where
  "py_at i xs =
     (if in_range i xs then Inr (nat i)
      else if in_range (i + int (length xs)) xs then Inr (nat (i + int (length xs))) else Inl IndexError)"

text \<open>The parts padded up to the index, the place and the part there, which is used as a dict.\<close>

definition copied_part :: "json list \<Rightarrow> json \<Rightarrow> dict \<Rightarrow> py_error + json list \<times> nat \<times> dict" where
  "copied_part parts index empty_part =
     and_then (as_index index) (\<lambda>i.
       let padded = parts @ replicate (nat (i + 1) - length parts) (JObj empty_part) in
       and_then (py_at i padded) (\<lambda>n. case padded ! n of
           JObj part \<Rightarrow> Inr (padded, n, part)
         | _ \<Rightarrow> Inl AttributeError))"

definition same_item :: "dict \<Rightarrow> dict \<Rightarrow> bool" where
  "same_item item existing \<longleftrightarrow>
     truthy (get item ''id'') \<and> get existing ''id'' = get item ''id''
     \<or> truthy (get item ''call_id'') \<and> get existing ''call_id'' = get item ''call_id''"

definition item_added :: "dict \<Rightarrow> dict list \<Rightarrow> outcome" where
  "item_added data output =
     (let item = as_dict (get_or data ''item'' (JObj [])) in
      if item = [] then Inr (output, None)
      else case first_at (same_item item) output of
        Some n \<Rightarrow> Inr (output[n := item], None)
      | None \<Rightarrow> and_then (as_index (get_or data ''output_index'' (JInt (int (length output))))) (\<lambda>i.
          if in_range i output then Inr (take (nat i) output @ [item] @ drop (nat i) output, None)
          else Inr (output @ [item], None)))"

definition part_added :: "string \<Rightarrow> dict \<Rightarrow> dict list \<Rightarrow> outcome" where
  "part_added key data output =
     change_item data output (\<lambda>item. and_then (copied_parts item key) (\<lambda>parts.
       Inr (dict_set key (JArr (if \<not> (key = ''content'' \<and> get item ''type'' = JStr ''reasoning'')
                                then parts @ [get_or data ''part'' (JObj [])] else parts)) item, None)))"

section \<open>Deltas\<close>

definition empty_value :: "json \<Rightarrow> json" where
  "empty_value delta = (if is_dict delta then JObj [] else JStr [])"

definition or_empty :: "json \<Rightarrow> json \<Rightarrow> json" where
  "or_empty current delta = (if current = JNull then empty_value delta else current)"

definition delta_key :: "string \<Rightarrow> string" where
  "delta_key ty = (if ty \<in> {''text'', ''output_text''} then ''text'' else ty)"

definition apply_message_delta :: "string \<Rightarrow> json \<Rightarrow> dict \<Rightarrow> dict \<Rightarrow> py_error + dict" where
  "apply_message_delta ty delta data item =
     (if ty \<in> {''reasoning_text'', ''reasoning_summary_text''} then Inr item
      else and_then (copied_parts item ''content'') (\<lambda>parts.
        and_then (copied_part parts (get_or data ''content_index'' (JInt 0)) [(''type'', JStr ''text''), (''text'', JStr [])])
          (\<lambda>(padded, n, part).
            let key = delta_key ty;
                part' = dict_set key (deep_merge (or_empty (get part key) delta) delta) part
            in Inr (dict_set ''content'' (JArr (padded[n := JObj part'])) item))))"

definition apply_reasoning_delta :: "string \<Rightarrow> json \<Rightarrow> dict \<Rightarrow> dict \<Rightarrow> py_error + dict" where
  "apply_reasoning_delta ty delta data item =
     (let add = (\<lambda>key index empty_part. and_then (copied_parts item key) (\<lambda>parts.
            and_then (copied_part parts (get_or data index (JInt 0)) [(''type'', JStr empty_part), (''text'', JStr [])])
              (\<lambda>(padded, n, part).
                let part' = dict_set ''text'' (deep_merge (get_or part ''text'' (JStr [])) delta) part
                in Inr (dict_set key (JArr (padded[n := JObj part'])) item))))
      in if ty = ''reasoning_summary_text'' then add ''summary'' ''summary_index'' ''summary_text''
         else if ty = ''reasoning_text'' then add ''content'' ''content_index'' ''text''
         else Inr item)"

definition apply_other_delta :: "string \<Rightarrow> json \<Rightarrow> dict \<Rightarrow> dict" where
  "apply_other_delta ty delta item =
     (let key = delta_key ty in dict_set key (deep_merge (or_empty (get item key) delta) delta) item)"

definition apply_arguments_delta :: "(json \<Rightarrow> string) \<Rightarrow> json \<Rightarrow> dict \<Rightarrow> py_error + dict" where
  "apply_arguments_delta repr delta item =
     (if get_or item ''type'' (JStr []) = JStr ''function_call''
      then (case get_or item ''arguments'' (JStr []) of
              JStr s \<Rightarrow> Inr (dict_set ''arguments'' (JStr (s @ py_str repr delta)) item)
            | _ \<Rightarrow> Inl TypeError)
      else Inr item)"

text \<open>What a delta does to its item.\<close>

definition apply_delta :: "(json \<Rightarrow> string) \<Rightarrow> string \<Rightarrow> json \<Rightarrow> dict \<Rightarrow> dict \<Rightarrow> py_error + dict" where
  "apply_delta repr ty delta data item =
     (let kind = get_or item ''type'' (JStr []) in
      if ty = ''function_call_arguments'' then apply_arguments_delta repr delta item
      else if kind = JStr ''message'' then apply_message_delta ty delta data item
      else if kind = JStr ''reasoning'' then apply_reasoning_delta ty delta data item
      else Inr (apply_other_delta ty delta item))"

definition delta_event :: "(json \<Rightarrow> string) \<Rightarrow> dict \<Rightarrow> dict list \<Rightarrow> outcome" where
  "delta_event repr data output =
     (let parts = split_on (CHR ''.'') (as_str (get_or data ''type'' (JStr []))); ty = parts ! 1; delta = get_or data ''delta'' (JStr [])
      in if length parts < 3 then Inr (output, None)
         else change_item data output (\<lambda>item. and_then (apply_delta repr ty delta data item) (\<lambda>item'. Inr (item', None))))"

section \<open>Finished parts, fields and items\<close>

definition item_done :: "dict \<Rightarrow> dict list \<Rightarrow> outcome" where
  "item_done data output =
     (let item = as_dict (get data ''item'') in
      if item = [] then Inr (output, Some [])
      else and_then (as_index (output_index data output)) (\<lambda>i.
        Inr (if in_range i output then output[nat i := item] else output @ [item], Some [])))"

definition part_done :: "string \<Rightarrow> string \<Rightarrow> dict \<Rightarrow> dict list \<Rightarrow> outcome" where
  "part_done key index_key data output =
     (let part = get data ''part'' in
      if \<not> truthy part then Inr (output, None)
      else change_item data output (\<lambda>item.
        if \<not> has_key item key then Inr (item, None)
        else and_then (py_iter (get item key)) (\<lambda>parts.
          and_then (as_index (get_or data index_key (JInt (int (length parts) - 1)))) (\<lambda>i.
            Inr (if in_range i parts then (dict_set key (JArr (parts[nat i := part])) item, Some []) else (item, None))))))"

definition done_key :: "string \<Rightarrow> string" where
  "done_key ty =
     (if ty = ''function_call_arguments'' then ''arguments''
      else if ty \<in> {''text'', ''output_text'', ''reasoning_text'', ''reasoning_summary_text''} then ''text'' else ty)"

text \<open>The part at an index, which must be a dict to take a key.\<close>

definition set_in_part :: "string \<Rightarrow> json \<Rightarrow> int \<Rightarrow> json list \<Rightarrow> py_error + json list" where
  "set_in_part key v i parts =
     and_then (py_at i parts) (\<lambda>n. case parts ! n of
         JObj part \<Rightarrow> Inr (parts[n := JObj (dict_set key v part)])
       | JArr _ \<Rightarrow> Inl TypeError
       | _ \<Rightarrow> Inl AttributeError)"

definition finish_message_field :: "string \<Rightarrow> json \<Rightarrow> dict \<Rightarrow> dict \<Rightarrow> py_error + dict" where
  "finish_message_field key v data item =
     (if \<not> has_key item ''content'' then Inr item
      else and_then (py_iter (get item ''content'')) (\<lambda>parts.
        and_then (as_index (get_or data ''content_index'' (JInt 0))) (\<lambda>i.
          if i < int (length parts)
          then and_then (set_in_part key v i parts) (\<lambda>parts'. Inr (dict_set ''content'' (JArr parts') item))
          else Inr (dict_set ''content'' (JArr parts) item))))"

definition field_done :: "string \<Rightarrow> dict \<Rightarrow> dict list \<Rightarrow> outcome" where
  "field_done ty data output =
     (let key = done_key ty; v = get data key in
      if ty \<in> {''completed'', ''failed''} then Inr (output, None)
      else change_item data output (\<lambda>item.
        let kind = get_or item ''type'' (JStr []) in
        if \<not> has_key data key then Inr (item, None)
        else and_then
          (if ty = ''function_call_arguments''
           then Inr (if kind = JStr ''function_call'' then dict_set ''arguments'' v item else item)
           else if kind = JStr ''message'' then finish_message_field key v data item
           else if kind = JStr ''reasoning'' then Inr (dict_set ''status'' (JStr ''completed'') item)
           else Inr (dict_set key v item))
          (\<lambda>item'. Inr (item', Some []))))"

definition done_event :: "dict \<Rightarrow> dict list \<Rightarrow> outcome" where
  "done_event data output =
     (let parts = split_on (CHR ''.'') (as_str (get_or data ''type'' (JStr []))); ty = parts ! 1
      in if length parts < 3 then Inr (output, None)
         else if ty = ''content_part'' then part_done ''content'' ''content_index'' data output
         else if ty = ''reasoning_summary_part'' then part_done ''summary'' ''summary_index'' data output
         else field_done ty data output)"

section \<open>The end of a response\<close>

definition response_of :: "dict \<Rightarrow> dict" where
  "response_of data = as_dict (py_or (get data ''response'') (JObj []))"

definition completed_item :: "dict \<Rightarrow> dict" where
  "completed_item item =
     (if get item ''type'' = JStr ''reasoning'' \<and> get item ''status'' \<noteq> JStr ''completed''
      then dict_set ''status'' (JStr ''completed'') item else item)"

definition completed :: "dict \<Rightarrow> dict list \<Rightarrow> outcome" where
  "completed data output =
     (let response = response_of data; sent = map as_dict (as_list (get response ''output''))
      in Inr (map completed_item (if sent = [] then output else sent),
              Some [(''usage'', get response ''usage''), (''done'', JBool True), (''response_id'', get response ''id'')]))"

definition failed :: "dict \<Rightarrow> dict list \<Rightarrow> outcome" where
  "failed data output = Inr (output, Some [(''error'', get_or (response_of data) ''error'' (JObj []))])"

definition handle_responses_streaming_event :: "(json \<Rightarrow> string) \<Rightarrow> dict \<Rightarrow> dict list \<Rightarrow> outcome" where
  "handle_responses_streaming_event repr data output =
     (let ty = as_str (get_or data ''type'' (JStr [])) in
      if ty = ''response.output_item.added'' then item_added data output
      else if ty = ''response.content_part.added'' then part_added ''content'' data output
      else if ty = ''response.reasoning_summary_part.added'' then part_added ''summary'' data output
      else if ty = ''response.output_item.done'' then item_done data output
      else if ty = ''response.completed'' then completed data output
      else if ty = ''response.failed'' then failed data output
      else if prefix ''response.'' ty \<and> suffix ''.delta'' ty then delta_event repr data output
      else if prefix ''response.'' ty \<and> suffix ''.done'' ty then done_event data output
      else Inr (output, None))"

text \<open>A stream of events; the first one that raises ends it.\<close>

fun handle_events :: "(json \<Rightarrow> string) \<Rightarrow> dict list \<Rightarrow> dict list \<Rightarrow> py_error + dict list" where
  "handle_events repr [] output = Inr output"
| "handle_events repr (e # es) output =
     and_then (handle_responses_streaming_event repr e output) (\<lambda>(output', meta). handle_events repr es output')"

section \<open>Text deltas add up\<close>

text \<open>The text a kind of delta goes to, in the part at an index.\<close>

definition parts_key :: "string \<Rightarrow> string" where
  "parts_key kind = (if kind = ''reasoning_summary_text'' then ''summary'' else ''content'')"

definition part_text :: "nat \<Rightarrow> json list \<Rightarrow> string" where
  "part_text j parts = (if j < length parts then as_str (get (as_dict (parts ! j)) ''text'') else [])"

definition text_at :: "string \<Rightarrow> nat \<Rightarrow> dict \<Rightarrow> string" where
  "text_at kind j item =
     (if kind = ''function_call_arguments'' then as_str (get item ''arguments'')
      else part_text j (as_list (get item (parts_key kind))))"

definition plain_part :: "json \<Rightarrow> bool" where
  "plain_part p \<longleftrightarrow> is_dict p \<and> (get (as_dict p) ''text'' = JNull \<or> is_str (get (as_dict p) ''text''))"

definition parts_fit :: "string \<Rightarrow> dict \<Rightarrow> bool" where
  "parts_fit key item \<longleftrightarrow>
     \<not> has_key item key \<or> is_list (get item key) \<and> list_all plain_part (as_list (get item key))"

text \<open>The kinds of text delta the API has, and the items each is meant for.\<close>

definition delta_kinds :: "string list" where
  "delta_kinds = [''output_text'', ''reasoning_text'', ''reasoning_summary_text'', ''function_call_arguments'']"

definition takes :: "string \<Rightarrow> dict \<Rightarrow> bool" where
  "takes kind item \<longleftrightarrow>
     kind = ''function_call_arguments'' \<and> get item ''type'' = JStr ''function_call'' \<and> (has_key item ''arguments'' \<longrightarrow> is_str (get item ''arguments''))
     \<or> kind = ''output_text'' \<and> get item ''type'' = JStr ''message'' \<and> parts_fit ''content'' item
     \<or> kind = ''reasoning_text'' \<and> get item ''type'' = JStr ''reasoning'' \<and> parts_fit ''content'' item
     \<or> kind = ''reasoning_summary_text'' \<and> get item ''type'' = JStr ''reasoning'' \<and> parts_fit ''summary'' item"

text \<open>A delta: the item's index, the kind, the part's index and the text.\<close>

type_synonym text_delta = "nat \<times> string \<times> nat \<times> string"

fun event_of :: "text_delta \<Rightarrow> dict" where
  "event_of (i, kind, j, t) =
     [(''type'', JStr (''response.'' @ kind @ ''.delta'')), (''output_index'', JInt (int i)),
      (if kind = ''reasoning_summary_text'' then ''summary_index'' else ''content_index'', JInt (int j)), (''delta'', JStr t)]"

definition aimed_at :: "nat \<Rightarrow> string \<Rightarrow> nat \<Rightarrow> text_delta \<Rightarrow> bool" where
  "aimed_at i kind j d \<longleftrightarrow> (case d of (i', kind', j', t) \<Rightarrow>
     i' = i \<and> kind' = kind \<and> (j' = j \<or> kind = ''function_call_arguments''))"

definition sent_to :: "nat \<Rightarrow> string \<Rightarrow> nat \<Rightarrow> text_delta list \<Rightarrow> string" where
  "sent_to i kind j ds = concat (map (\<lambda>(i, kind, j, t). t) (filter (aimed_at i kind j) ds))"

lemma padded_part:
  assumes "parts_fit key item" and "get_or empty_part ''text'' (JStr []) = JStr []" and "has_key empty_part ''text''"
  obtains parts padded part where
    "copied_parts item key = Inr parts" and "copied_part parts (JInt (int j)) empty_part = Inr (padded, j, part)"
    and "j < length padded" and "list_all plain_part padded" and "padded ! j = JObj part"
    and "\<And>k. part_text k padded = part_text k (as_list (get item key))"
proof -
  let ?parts = "as_list (get item key)"
  let ?padded = "?parts @ replicate (Suc j - length ?parts) (JObj empty_part)"
  have e: "get empty_part ''text'' = JStr []" using assms(2,3) by (auto simp: get_or_def has_key_def split: option.splits)
  have p: "copied_parts item key = Inr ?parts"
    using assms(1) by (cases "get item key") (auto simp: copied_parts_def parts_fit_def has_key_def get_or_def split: option.splits)
  have ok: "list_all plain_part ?parts"
    using assms(1) by (auto simp: parts_fit_def has_key_def get_or_def split: option.splits)
  then have all: "list_all plain_part ?padded" using e by (auto simp: plain_part_def list_all_iff)
  have j: "j < length ?padded" by simp
  then have "plain_part (?padded ! j)" using all unfolding list_all_length by blast
  then obtain part where part: "?padded ! j = JObj part" by (cases "?padded ! j") (auto simp: plain_part_def)
  have "copied_part ?parts (JInt (int j)) empty_part = Inr (?padded, j, part)"
    using part by (simp add: copied_part_def Let_def py_at_def in_range_def nat_add_distrib)
  moreover have "part_text k ?padded = part_text k ?parts" for k
    using e by (auto simp: part_text_def nth_append)
  ultimately show ?thesis using that [OF p] all j part by blast
qed

text \<open>A text put into the part at an index.\<close>

lemma put_text:
  assumes "j < length padded" and "list_all plain_part padded" and "padded ! j = JObj part"
    and "part' = dict_set ''text'' (JStr (as_str (get part ''text'') @ t)) part"
  shows "list_all plain_part (padded[j := JObj part'])"
    and "part_text k (padded[j := JObj part']) = part_text k padded @ (if k = j then t else [])"
proof -
  have "plain_part (JObj part')" by (simp add: assms(4) plain_part_def get_or_dict_set)
  then show "list_all plain_part (padded[j := JObj part'])"
    using assms(2) set_update_subset_insert [of padded j] by (fastforce simp: list_all_iff)
  show "part_text k (padded[j := JObj part']) = part_text k padded @ (if k = j then t else [])"
    using assms by (auto simp: part_text_def nth_list_update get_or_dict_set)
qed

lemma merged_text:
  assumes "get part ''text'' = JNull \<or> is_str (get part ''text'')"
  shows "deep_merge (or_empty (get part ''text'') (JStr t)) (JStr t) = JStr (as_str (get part ''text'') @ t)"
    and "deep_merge (get_or part ''text'' (JStr [])) (JStr t) = JStr (as_str (get part ''text'') @ t)"
proof -
  show "deep_merge (or_empty (get part ''text'') (JStr t)) (JStr t) = JStr (as_str (get part ''text'') @ t)"
    using assms by (cases "get part ''text''") (auto simp: or_empty_def empty_value_def)
  show "deep_merge (get_or part ''text'' (JStr [])) (JStr t) = JStr (as_str (get part ''text'') @ t)"
  proof (cases "map_of part ''text''")
    case (Some v)
    then show ?thesis using assms by (cases v) (simp_all add: get_or_def)
  qed (simp add: get_or_def)
qed

lemma takesE:
  assumes "takes kind item"
  obtains (arguments) "kind = ''function_call_arguments''" "get item ''type'' = JStr ''function_call''"
      "has_key item ''arguments'' \<longrightarrow> is_str (get item ''arguments'')"
    | (message) "kind = ''output_text''" "get item ''type'' = JStr ''message''" "parts_fit ''content'' item"
    | (reasoning) "kind = ''reasoning_text''" "get item ''type'' = JStr ''reasoning''" "parts_fit ''content'' item"
    | (summary) "kind = ''reasoning_summary_text''" "get item ''type'' = JStr ''reasoning''" "parts_fit ''summary'' item"
  using assms unfolding takes_def
  by (elim disjE conjE) (erule (2) arguments, erule (2) message, erule (2) reasoning, erule (2) summary)

lemma takes_kind: "takes kind item \<Longrightarrow> kind \<in> set delta_kinds"
  by (elim takesE) (simp_all add: delta_kinds_def)

lemma handle_text_delta:
  assumes "kind \<in> set delta_kinds" and "i < length output"
  shows "handle_responses_streaming_event repr (event_of (i, kind, j, t)) output =
     and_then (apply_delta repr kind (JStr t) (event_of (i, kind, j, t)) (output ! i)) (\<lambda>item. Inr (output[i := item], None))"
proof -
  let ?e = "event_of (i, kind, j, t)"
  define ty where "ty = ''response.'' @ kind @ ''.delta''"
  have out: "output \<noteq> []" using assms(2) by auto
  have ev: "as_str (get_or ?e ''type'' (JStr [])) = ty" "output_index ?e output = JInt (int i)" "get_or ?e ''delta'' (JStr []) = JStr t"
    by (simp_all add: get_or_def output_index_def ty_def)
  have pre: "prefix ''response.'' ty" "suffix ''.delta'' ty"
    unfolding ty_def by (rule prefixI, rule refl) (simp add: suffix_def)
  have kinds: "kind = ''output_text'' \<or> kind = ''reasoning_text'' \<or> kind = ''reasoning_summary_text'' \<or> kind = ''function_call_arguments''"
    using assms(1) by (simp add: delta_kinds_def)
  then have split: "split_on (CHR ''.'') ty = [''response'', kind, ''delta'']"
    unfolding ty_def by (elim disjE) simp_all
  have ends: "last ty = CHR ''a''" by (simp add: ty_def)
  have ne: "ty \<noteq> ''response.output_item.added''" "ty \<noteq> ''response.content_part.added''"
      "ty \<noteq> ''response.reasoning_summary_part.added''" "ty \<noteq> ''response.output_item.done''"
      "ty \<noteq> ''response.completed''" "ty \<noteq> ''response.failed''"
    using ends by auto
  have "handle_responses_streaming_event repr ?e output = delta_event repr ?e output"
    using ne pre by (simp only: handle_responses_streaming_event_def Let_def ev simp_thms if_False if_True)
  also have "\<dots> = and_then (apply_delta repr kind (JStr t) ?e (output ! i)) (\<lambda>item. Inr (output[i := item], None))"
    using out assms(2)
    by (simp add: delta_event_def ev split change_item_def in_range_def apply_delta_def Let_def and_then_def del: event_of.simps split: sum.split)
  finally show ?thesis .
qed

lemma takes_set:
  "k \<noteq> ''type'' \<Longrightarrow> get_or (dict_set k v item) ''type'' x = get_or item ''type'' x"
  "has_key (dict_set k v item) k' \<longleftrightarrow> k' = k \<or> has_key item k'"
  by (auto simp: get_or_dict_set has_key_def)

text \<open>An item with new parts takes what it took, and its texts are those of the parts.\<close>

lemma new_parts:
  assumes "key \<in> {''content'', ''summary''}" and "list_all plain_part parts"
  shows "takes kind item \<Longrightarrow> takes kind (dict_set key (JArr parts) item)"
    and "kind \<in> set delta_kinds \<Longrightarrow> text_at kind j (dict_set key (JArr parts) item) =
      (if kind \<noteq> ''function_call_arguments'' \<and> parts_key kind = key then part_text j parts else text_at kind j item)"
proof -
  have f: "parts_fit k (dict_set key (JArr parts) item)" if "parts_fit k item" for k
    using assms(2) that by (simp add: parts_fit_def takes_set get_or_dict_set)
  show "takes kind item \<Longrightarrow> takes kind (dict_set key (JArr parts) item)"
    using assms(1) f by (elim takesE insertE emptyE) (simp_all add: takes_def takes_set get_or_dict_set)
  show "kind \<in> set delta_kinds \<Longrightarrow> text_at kind j (dict_set key (JArr parts) item) =
      (if kind \<noteq> ''function_call_arguments'' \<and> parts_key kind = key then part_text j parts else text_at kind j item)"
    using assms(1) by (elim insertE emptyE) (simp_all add: text_at_def get_or_dict_set parts_key_def)
qed

definition grows :: "string \<Rightarrow> nat \<Rightarrow> string \<Rightarrow> dict \<Rightarrow> dict \<Rightarrow> bool" where
  "grows kind j t item item' \<longleftrightarrow> (\<forall>kind'. takes kind' item \<longrightarrow> takes kind' item'
     \<and> (\<forall>j'. text_at kind' j' item' = text_at kind' j' item @
         (if kind' = kind \<and> (j = j' \<or> kind = ''function_call_arguments'') then t else [])))"

text \<open>Two kinds one item takes go to different places.\<close>

lemma takes_apart:
  "takes kind item \<Longrightarrow> takes kind' item \<Longrightarrow> kind \<noteq> ''function_call_arguments'' \<Longrightarrow>
     kind' \<noteq> ''function_call_arguments'' \<and> (parts_key kind' = parts_key kind \<longleftrightarrow> kind' = kind)"
  by (elim takesE) (simp_all add: parts_key_def)

lemma parts_grow:
  assumes "takes kind item" and "kind \<noteq> ''function_call_arguments''"
    and "list_all plain_part parts'" and "\<And>k. part_text k parts' = part_text k (as_list (get item (parts_key kind))) @ (if k = j then t else [])"
  shows "grows kind j t item (dict_set (parts_key kind) (JArr parts') item)"
proof -
  have key: "parts_key kind \<in> {''content'', ''summary''}" by (simp add: parts_key_def)
  show ?thesis
    unfolding grows_def
  proof (intro allI impI conjI)
    fix kind' j' assume t: "takes kind' item"
    then show "takes kind' (dict_set (parts_key kind) (JArr parts') item)" by (rule new_parts(1) [OF key assms(3)])
    show "text_at kind' j' (dict_set (parts_key kind) (JArr parts') item) = text_at kind' j' item @
         (if kind' = kind \<and> (j = j' \<or> kind = ''function_call_arguments'') then t else [])"
      using takes_apart [OF assms(1) t assms(2)] assms(2,4) new_parts(2) [OF key assms(3) takes_kind [OF t]]
      by (auto simp: text_at_def)
  qed
qed

text \<open>The part a text delta goes to, and the item once the text is put there.\<close>

lemma put_text_grows:
  assumes "takes kind item" and "kind \<noteq> ''function_call_arguments''" and "parts_fit (parts_key kind) item"
  obtains parts padded part where
    "copied_parts item (parts_key kind) = Inr parts"
    and "copied_part parts (JInt (int j)) [(''type'', JStr ty), (''text'', JStr [])] = Inr (padded, j, part)"
    and "get part ''text'' = JNull \<or> is_str (get part ''text'')"
    and "grows kind j t item (dict_set (parts_key kind)
      (JArr (padded[j := JObj (dict_set ''text'' (JStr (as_str (get part ''text'') @ t)) part)])) item)"
proof -
  obtain parts padded part where p: "copied_parts item (parts_key kind) = Inr parts"
      "copied_part parts (JInt (int j)) [(''type'', JStr ty), (''text'', JStr [])] = Inr (padded, j, part)"
    and j: "j < length padded" "list_all plain_part padded" "padded ! j = JObj part"
    and same: "\<And>k. part_text k padded = part_text k (as_list (get item (parts_key kind)))"
    by (rule padded_part [OF assms(3), where j = j and empty_part = "[(''type'', JStr ty), (''text'', JStr [])]"])
      (simp_all add: get_or_def has_key_def)
  have "plain_part (padded ! j)" using j(1,2) unfolding list_all_length by blast
  then have "get part ''text'' = JNull \<or> is_str (get part ''text'')" by (simp add: j(3) plain_part_def)
  moreover have "grows kind j t item (dict_set (parts_key kind)
      (JArr (padded[j := JObj (dict_set ''text'' (JStr (as_str (get part ''text'') @ t)) part)])) item)"
    by (rule parts_grow [OF assms(1,2)]) (simp_all only: put_text [OF j refl] same)
  ultimately show ?thesis using that [OF p] by blast
qed

lemma apply_grows:
  assumes "takes kind item"
  shows "\<exists>item'. apply_delta repr kind (JStr t) (event_of (i, kind, j, t)) item = Inr item' \<and> grows kind j t item item'"
  using assms
proof (cases rule: takesE)
  case arguments
  let ?item' = "dict_set ''arguments'' (JStr (as_str (get item ''arguments'') @ t)) item"
  have "get_or item ''arguments'' (JStr []) = JStr (as_str (get item ''arguments''))"
    using arguments(3) by (cases "map_of item ''arguments''"; cases "get item ''arguments''") (auto simp: has_key_def get_or_def)
  moreover have "get_or item ''type'' (JStr []) = get item ''type''"
    using arguments(2) by (cases "map_of item ''type''") (simp_all add: get_or_def)
  ultimately have "apply_delta repr kind (JStr t) (event_of (i, kind, j, t)) item = Inr ?item'"
    using arguments(1,2) by (simp add: apply_delta_def apply_arguments_delta_def)
  moreover have "grows kind j t item ?item'"
    unfolding grows_def
  proof (intro allI impI)
    fix kind' assume "takes kind' item"
    then have "kind' = ''function_call_arguments''" using arguments(2) by (elim takesE) simp_all
    then show "takes kind' ?item' \<and> (\<forall>j'. text_at kind' j' ?item' = text_at kind' j' item @
         (if kind' = kind \<and> (j = j' \<or> kind = ''function_call_arguments'') then t else []))"
      using arguments(1,2) by (simp add: takes_def takes_set get_or_dict_set text_at_def)
  qed
  ultimately show ?thesis by blast
next
  case message
  then have k: "kind \<noteq> ''function_call_arguments''" "parts_key kind = ''content''" by (simp_all add: parts_key_def)
  obtain parts padded part where p: "copied_parts item ''content'' = Inr parts"
      "copied_part parts (JInt (int j)) [(''type'', JStr ''text''), (''text'', JStr [])] = Inr (padded, j, part)"
      "get part ''text'' = JNull \<or> is_str (get part ''text'')"
      "grows kind j t item (dict_set ''content''
      (JArr (padded[j := JObj (dict_set ''text'' (JStr (as_str (get part ''text'') @ t)) part)])) item)"
    using put_text_grows [OF assms k(1), of j "''text''" t] message(3) unfolding k(2) by blast
  have "get_or item ''type'' (JStr []) = get item ''type''"
    using message(2) by (cases "map_of item ''type''") (simp_all add: get_or_def)
  moreover have "get_or (event_of (i, kind, j, t)) ''content_index'' (JInt 0) = JInt (int j)"
    using message(1) by (simp add: get_or_def)
  ultimately show ?thesis
    using p merged_text(1) [OF p(3)] message(1,2)
    by (simp add: apply_delta_def apply_message_delta_def Let_def delta_key_def del: event_of.simps)
next
  case reasoning
  then have k: "kind \<noteq> ''function_call_arguments''" "parts_key kind = ''content''" by (simp_all add: parts_key_def)
  obtain parts padded part where p: "copied_parts item ''content'' = Inr parts"
      "copied_part parts (JInt (int j)) [(''type'', JStr ''text''), (''text'', JStr [])] = Inr (padded, j, part)"
      "get part ''text'' = JNull \<or> is_str (get part ''text'')"
      "grows kind j t item (dict_set ''content''
      (JArr (padded[j := JObj (dict_set ''text'' (JStr (as_str (get part ''text'') @ t)) part)])) item)"
    using put_text_grows [OF assms k(1), of j "''text''" t] reasoning(3) unfolding k(2) by blast
  have "get_or item ''type'' (JStr []) = get item ''type''"
    using reasoning(2) by (cases "map_of item ''type''") (simp_all add: get_or_def)
  moreover have "get_or (event_of (i, kind, j, t)) ''content_index'' (JInt 0) = JInt (int j)"
    using reasoning(1) by (simp add: get_or_def)
  ultimately show ?thesis
    using p merged_text(2) [OF p(3)] reasoning(1,2)
    by (simp add: apply_delta_def apply_reasoning_delta_def Let_def del: event_of.simps)
next
  case summary
  then have k: "kind \<noteq> ''function_call_arguments''" "parts_key kind = ''summary''" by (simp_all add: parts_key_def)
  obtain parts padded part where p: "copied_parts item ''summary'' = Inr parts"
      "copied_part parts (JInt (int j)) [(''type'', JStr ''summary_text''), (''text'', JStr [])] = Inr (padded, j, part)"
      "get part ''text'' = JNull \<or> is_str (get part ''text'')"
      "grows kind j t item (dict_set ''summary''
      (JArr (padded[j := JObj (dict_set ''text'' (JStr (as_str (get part ''text'') @ t)) part)])) item)"
    using put_text_grows [OF assms k(1), of j "''summary_text''" t] summary(3) unfolding k(2) by blast
  have "get_or item ''type'' (JStr []) = get item ''type''"
    using summary(2) by (cases "map_of item ''type''") (simp_all add: get_or_def)
  moreover have "get_or (event_of (i, kind, j, t)) ''summary_index'' (JInt 0) = JInt (int j)"
    using summary(1) by (simp add: get_or_def)
  ultimately show ?thesis
    using p merged_text(2) [OF p(3)] summary(1,2)
    by (simp add: apply_delta_def apply_reasoning_delta_def Let_def del: event_of.simps)
qed

lemma sent_to_Cons:
  "sent_to i kind j (d # ds) = (if aimed_at i kind j d then snd (snd (snd d)) else []) @ sent_to i kind j ds"
  by (cases d) (simp add: sent_to_def)

text \<open>
  C35. However the deltas of a response's messages, reasoning, reasoning summaries and tool-call
  arguments come, interleaved with each other and for parts that are not there yet, no event fails,
  no item is added or lost, and every text is what it was followed by its deltas in order.
\<close>

theorem deltas_add_up:
  assumes "\<forall>(i, kind, j, t) \<in> set ds. i < length output \<and> takes kind (output ! i)"
  shows "\<exists>out. handle_events repr (map event_of ds) output = Inr out \<and> length out = length output
     \<and> (\<forall>i kind j. i < length output \<and> takes kind (output ! i) \<longrightarrow>
          text_at kind j (out ! i) = text_at kind j (output ! i) @ sent_to i kind j ds)"
  using assms
proof (induction ds arbitrary: "output")
  case Nil
  then show ?case by (simp add: sent_to_def)
next
  case (Cons d ds)
  obtain i kind j t where d: "d = (i, kind, j, t)" by (cases d)
  then have i: "i < length output" "takes kind (output ! i)" using Cons.prems by simp_all
  obtain item' where a: "apply_delta repr kind (JStr t) (event_of (i, kind, j, t)) (output ! i) = Inr item'"
    and g: "grows kind j t (output ! i) item'" using apply_grows [OF i(2)] by blast
  let ?out = "output[i := item']"
  have step: "handle_responses_streaming_event repr (event_of d) output = Inr (?out, None)"
    using handle_text_delta [OF takes_kind [OF i(2)] i(1)] a unfolding d by simp
  have keeps: "takes k (?out ! n)" if "takes k (output ! n)" for k n
    using g that i(1) by (cases "n = i") (auto simp: grows_def)
  have texts: "text_at k m (?out ! n) = text_at k m (output ! n) @ (if aimed_at n k m d then t else [])"
    if "takes k (output ! n)" for k m n
    using g that i(1) by (cases "n = i") (auto simp: grows_def aimed_at_def d)
  have "\<forall>(i, kind, j, t) \<in> set ds. i < length ?out \<and> takes kind (?out ! i)"
    using Cons.prems keeps by auto
  from Cons.IH [OF this] obtain out where out: "handle_events repr (map event_of ds) ?out = Inr out" "length out = length output"
    "\<And>n k m. n < length output \<Longrightarrow> takes k (?out ! n) \<Longrightarrow> text_at k m (out ! n) = text_at k m (?out ! n) @ sent_to n k m ds"
    by (simp del: event_of.simps) blast
  then show ?case
    using step keeps texts by (intro exI [of _ out]) (simp add: sent_to_Cons d del: event_of.simps)
qed

text \<open>A message, a reasoning item without parts and a call, all three growing at once.\<close>

definition sample_output :: "dict list" where
  "sample_output =
     [[(''type'', JStr ''message''), (''content'', JArr [JObj [(''type'', JStr ''output_text''), (''text'', JStr ''Hel'')]])],
      [(''type'', JStr ''reasoning'')],
      [(''type'', JStr ''function_call''), (''arguments'', JStr ''{'')]]"

definition sample_text_deltas :: "text_delta list" where
  "sample_text_deltas =
     [(0, ''output_text'', 0, ''lo''), (1, ''reasoning_summary_text'', 1, ''so''), (2, ''function_call_arguments'', 0, ''a''),
      (0, ''output_text'', 0, ''!''), (2, ''function_call_arguments'', 0, ''}''), (1, ''reasoning_text'', 0, ''x'')]"

lemma deltas_add_up_witness:
  "\<exists>out. handle_events (\<lambda>_. []) (map event_of sample_text_deltas) sample_output = Inr out
     \<and> text_at ''output_text'' 0 (out ! 0) = ''Hello!'' \<and> text_at ''reasoning_summary_text'' 1 (out ! 1) = ''so''
     \<and> text_at ''reasoning_summary_text'' 0 (out ! 1) = [] \<and> text_at ''reasoning_text'' 0 (out ! 1) = ''x''
     \<and> text_at ''function_call_arguments'' 0 (out ! 2) = ''{a}''"
proof -
  have "\<forall>(i, kind, j, t) \<in> set sample_text_deltas. i < length sample_output \<and> takes kind (sample_output ! i)"
    by code_simp
  from deltas_add_up [OF this, of "\<lambda>_. []"] obtain out where
    out: "handle_events (\<lambda>_. []) (map event_of sample_text_deltas) sample_output = Inr out"
    and t: "\<forall>i kind j. i < length sample_output \<and> takes kind (sample_output ! i) \<longrightarrow>
          text_at kind j (out ! i) = text_at kind j (sample_output ! i) @ sent_to i kind j sample_text_deltas" by blast
  have "0 < length sample_output \<and> takes ''output_text'' (sample_output ! 0)"
    "1 < length sample_output \<and> takes ''reasoning_summary_text'' (sample_output ! 1)"
    "1 < length sample_output \<and> takes ''reasoning_text'' (sample_output ! 1)"
    "2 < length sample_output \<and> takes ''function_call_arguments'' (sample_output ! 2)" by code_simp+
  note f = this [THEN t [rule_format]]
  have "text_at ''output_text'' 0 (sample_output ! 0) @ sent_to 0 ''output_text'' 0 sample_text_deltas = ''Hello!''"
    "text_at ''reasoning_summary_text'' 1 (sample_output ! 1) @ sent_to 1 ''reasoning_summary_text'' 1 sample_text_deltas = ''so''"
    "text_at ''reasoning_summary_text'' 0 (sample_output ! 1) @ sent_to 1 ''reasoning_summary_text'' 0 sample_text_deltas = []"
    "text_at ''reasoning_text'' 0 (sample_output ! 1) @ sent_to 1 ''reasoning_text'' 0 sample_text_deltas = ''x''"
    "text_at ''function_call_arguments'' 0 (sample_output ! 2) @ sent_to 2 ''function_call_arguments'' 0 sample_text_deltas = ''{a}''"
    by code_simp+
  then show ?thesis by (intro exI [of _ out] conjI out) (simp_all only: f)
qed

text \<open>A summary that is null makes the first part of a summary raise.\<close>

lemma null_summary_raises:
  "handle_responses_streaming_event repr
     [(''type'', JStr ''response.reasoning_summary_part.added''), (''part'', JObj []), (''output_index'', JInt 0)]
     [[(''type'', JStr ''reasoning''), (''summary'', JNull)]] = Inl TypeError"
  by (simp add: handle_responses_streaming_event_def get_or_def part_added_def change_item_def output_index_def in_range_def
      copied_parts_def has_key_def)

end
