(* ===== verification/RateLimit.thy ===== *)
theory RateLimit
  imports PyJson
begin

text \<open>
  The rate limiter (\<open>utils/rate_limit.py\<close>). Its in-memory store maps a key to the counts of its
  buckets. The clock reading is an argument, the whole seconds \<open>int(time.time())\<close>. Redis is a
  service: its three commands are fields of a record of functions over an abstract server
  state, None when the command fails. \<open>math.ceil(a / b)\<close> is the exact quotient, which it is for
  every window below 2^53 seconds.
\<close>

section \<open>The limiter\<close>

type_synonym buckets = "(int \<times> int) list"

record limiter =
  rl_limit :: int
  rl_window :: int
  rl_bucket_size :: int
  rl_num_buckets :: int
  rl_enabled :: bool
  rl_store :: "(string \<times> buckets) list"
  rl_last_sweep :: int

definition new_limiter :: "int \<Rightarrow> int \<Rightarrow> int \<Rightarrow> bool \<Rightarrow> limiter" where
  "new_limiter limit window bucket_size enabled =
     (let w = max 1 window; b = max 1 (min bucket_size w)
      in \<lparr>rl_limit = limit, rl_window = w, rl_bucket_size = b, rl_num_buckets = - ((- w) div b),
          rl_enabled = enabled, rl_store = [], rl_last_sweep = 0\<rparr>)"

definition current_bucket :: "limiter \<Rightarrow> int \<Rightarrow> int" where
  "current_bucket l now = now div rl_bucket_size l"

definition bucket_indexes :: "limiter \<Rightarrow> int \<Rightarrow> int list" where
  "bucket_indexes l now_bucket = map (\<lambda>i. now_bucket - int i) [0..<nat (rl_num_buckets l)]"

definition prune :: "limiter \<Rightarrow> int \<Rightarrow> buckets \<Rightarrow> buckets" where
  "prune l now_bucket s = (let oldest = now_bucket - rl_num_buckets l + 1 in filter (\<lambda>(b, c). \<not> b < oldest) s)"

definition sweep :: "int \<Rightarrow> limiter \<Rightarrow> limiter" where
  "sweep now_bucket l =
     (if now_bucket = rl_last_sweep l then l
      else l\<lparr>rl_last_sweep := now_bucket,
             rl_store := filter (\<lambda>(k, s). s \<noteq> []) (map (\<lambda>(k, s). (k, prune l now_bucket s)) (rl_store l))\<rparr>)"

definition bucket_count :: "buckets \<Rightarrow> int \<Rightarrow> int" where
  "bucket_count s b = (case map_of s b of None \<Rightarrow> 0 | Some c \<Rightarrow> c)"

definition stored :: "limiter \<Rightarrow> string \<Rightarrow> buckets" where
  "stored l k = (case map_of (rl_store l) k of None \<Rightarrow> [] | Some s \<Rightarrow> s)"

definition is_limited_memory :: "int \<Rightarrow> string \<Rightarrow> limiter \<Rightarrow> bool \<times> limiter" where
  "is_limited_memory now key l =
     (let now_bucket = current_bucket l now;
          l1 = sweep now_bucket l;
          s = stored l1 key;
          s1 = prune l1 now_bucket (AList.update now_bucket (bucket_count s now_bucket + 1) s)
      in (sum_list (map snd s1) > rl_limit l1, l1\<lparr>rl_store := AList.update key s1 (rl_store l1)\<rparr>))"

definition get_count_memory :: "int \<Rightarrow> string \<Rightarrow> limiter \<Rightarrow> int \<times> limiter" where
  "get_count_memory now key l =
     (let now_bucket = current_bucket l now
      in case map_of (rl_store l) key of
           None \<Rightarrow> (0, l)
         | Some s \<Rightarrow>
             (if s = [] then (0, l)
              else let s1 = prune l now_bucket s
              in if s1 = [] then (0, l\<lparr>rl_store := filter (\<lambda>(k, s). k \<noteq> key) (rl_store l)\<rparr>)
                 else (sum_list (map snd s1), l\<lparr>rl_store := AList.update key s1 (rl_store l)\<rparr>)))"

section \<open>Redis and the fallback\<close>

record 'r redis =
  rd_incr :: "string \<Rightarrow> 'r \<Rightarrow> (int \<times> 'r) option"
  rd_expire :: "string \<Rightarrow> int \<Rightarrow> 'r \<Rightarrow> 'r option"
  rd_mget :: "string list \<Rightarrow> 'r \<Rightarrow> (int option list) option"

text \<open>\<open>key_of\<close> is \<open>_bucket_key\<close>, which formats the prefix, the lower-cased key and the index.\<close>

definition sum_counts :: "int option list \<Rightarrow> int" where
  "sum_counts cs = sum_list (map (\<lambda>c. case c of None \<Rightarrow> 0 | Some n \<Rightarrow> n) cs)"

definition is_limited_redis ::
  "(string \<Rightarrow> int \<Rightarrow> string) \<Rightarrow> 'r redis \<Rightarrow> limiter \<Rightarrow> int \<Rightarrow> string \<Rightarrow> 'r \<Rightarrow> (bool \<times> 'r) option \<times> 'r" where
  "is_limited_redis key_of rd l now key r =
     (let now_bucket = current_bucket l now; bk = key_of key now_bucket
      in case rd_incr rd bk r of
           None \<Rightarrow> (None, r)
         | Some (attempts, r1) \<Rightarrow>
             (case (if attempts = 1 then rd_expire rd bk (rl_window l + rl_bucket_size l) r1 else Some r1) of
                None \<Rightarrow> (None, r1)
              | Some r2 \<Rightarrow>
                  (case rd_mget rd (map (key_of key) (bucket_indexes l now_bucket)) r2 of
                     None \<Rightarrow> (None, r2)
                   | Some counts \<Rightarrow> (Some (sum_counts counts > rl_limit l, r2), r2))))"

definition get_count_redis ::
  "(string \<Rightarrow> int \<Rightarrow> string) \<Rightarrow> 'r redis \<Rightarrow> limiter \<Rightarrow> int \<Rightarrow> string \<Rightarrow> 'r \<Rightarrow> int option" where
  "get_count_redis key_of rd l now key r =
     map_option sum_counts (rd_mget rd (map (key_of key) (bucket_indexes l (current_bucket l now))) r)"

text \<open>The main check; \<open>client\<close> is None without Redis.\<close>

definition is_limited ::
  "(string \<Rightarrow> int \<Rightarrow> string) \<Rightarrow> 'r redis option \<Rightarrow> int \<Rightarrow> string \<Rightarrow> limiter \<times> 'r \<Rightarrow> bool \<times> limiter \<times> 'r" where
  "is_limited key_of client now key = (\<lambda>(l, r).
     if \<not> rl_enabled l then (False, l, r)
     else case client of
       None \<Rightarrow> (let (b, l') = is_limited_memory now key l in (b, l', r))
     | Some rd \<Rightarrow> (case is_limited_redis key_of rd l now key r of
           (Some (b, r'), _) \<Rightarrow> (b, l, r')
         | (None, r') \<Rightarrow> (let (b, l') = is_limited_memory now key l in (b, l', r'))))"

definition get_count ::
  "(string \<Rightarrow> int \<Rightarrow> string) \<Rightarrow> 'r redis option \<Rightarrow> int \<Rightarrow> string \<Rightarrow> limiter \<times> 'r \<Rightarrow> int \<times> limiter" where
  "get_count key_of client now key = (\<lambda>(l, r).
     if \<not> rl_enabled l then (0, l)
     else case client of
       None \<Rightarrow> get_count_memory now key l
     | Some rd \<Rightarrow> (case get_count_redis key_of rd l now key r of
           Some n \<Rightarrow> (n, l)
         | None \<Rightarrow> get_count_memory now key l))"

definition remaining ::
  "(string \<Rightarrow> int \<Rightarrow> string) \<Rightarrow> 'r redis option \<Rightarrow> int \<Rightarrow> string \<Rightarrow> limiter \<times> 'r \<Rightarrow> int \<times> limiter" where
  "remaining key_of client now key st =
     (let (used, l') = get_count key_of client now key st in (max 0 (rl_limit (fst st) - used), l'))"

section \<open>The counts are the events of the window\<close>

text \<open>An event is a key and the bucket it fell into; \<open>events_in\<close> counts a key's events of the window.\<close>

definition in_window :: "limiter \<Rightarrow> int \<Rightarrow> int \<Rightarrow> bool" where
  "in_window l now_bucket b \<longleftrightarrow> now_bucket - rl_num_buckets l < b \<and> b \<le> now_bucket"

definition events_in :: "limiter \<Rightarrow> int \<Rightarrow> string \<Rightarrow> (string \<times> int) list \<Rightarrow> int" where
  "events_in l now_bucket key es = int (length (filter (\<lambda>(k, b). k = key \<and> in_window l now_bucket b) es))"

definition count_event :: "(string \<times> int) list \<Rightarrow> string \<Rightarrow> int \<Rightarrow> int" where
  "count_event es k b = int (length (filter (\<lambda>e. e = (k, b)) es))"

text \<open>The store agrees with the events at \<open>now_bucket\<close>, the bucket of the last event or later.\<close>

definition tracks :: "limiter \<Rightarrow> int \<Rightarrow> (string \<times> int) list \<Rightarrow> bool" where
  "tracks l now_bucket es \<longleftrightarrow>
     distinct (map fst (rl_store l)) \<and>
     (\<forall>k. distinct (map fst (stored l k)) \<and> (\<forall>b \<in> fst ` set (stored l k). b \<le> now_bucket) \<and>
        (\<forall>b. in_window l now_bucket b \<longrightarrow> bucket_count (stored l k) b = count_event es k b)) \<and>
     (\<forall>e \<in> set es. snd e \<le> now_bucket)"

lemma map_of_filter_key: "distinct (map fst s) \<Longrightarrow>
   map_of (filter (\<lambda>(k, v). P k v) s) x = (case map_of s x of None \<Rightarrow> None | Some v \<Rightarrow> if P x v then Some v else None)"
proof (induction s)
  case (Cons kv s)
  obtain k v where kv: "kv = (k, v)" by (cases kv)
  show ?case
  proof (cases "x = k")
    case True
    have "map_of s k = None" using Cons.prems kv by (simp add: map_of_eq_None_iff)
    then show ?thesis using Cons kv True by simp
  qed (use Cons kv in auto)
qed simp

lemma bucket_count_prune:
  "distinct (map fst s) \<Longrightarrow>
   bucket_count (prune l nb s) b = (if nb - rl_num_buckets l < b then bucket_count s b else 0)"
  by (auto simp: bucket_count_def prune_def Let_def map_of_filter_key split: option.split)

lemma prune_keys: "fst ` set (prune l nb s) = {b \<in> fst ` set s. nb - rl_num_buckets l < b}"
  by (force simp: prune_def Let_def)

lemma distinct_prune: "distinct (map fst s) \<Longrightarrow> distinct (map fst (prune l nb s))"
  unfolding prune_def Let_def by (rule distinct_map_filterI)

lemma stored_sweep:
  assumes "distinct (map fst (rl_store l))"
  shows "stored (sweep nb l) k = (if nb = rl_last_sweep l then stored l k else prune l nb (stored l k))"
proof -
  have "map_of (filter (\<lambda>(k, s). s \<noteq> []) (map (\<lambda>(k, s). (k, prune l nb s)) (rl_store l))) k =
      (case map_of (map (\<lambda>(k, s). (k, prune l nb s)) (rl_store l)) k of None \<Rightarrow> None
       | Some s \<Rightarrow> if s \<noteq> [] then Some s else None)"
    using assms by (intro map_of_filter_key) (simp add: comp_def case_prod_unfold)
  also have "map_of (map (\<lambda>(k, s). (k, prune l nb s)) (rl_store l)) k = map_option (prune l nb) (map_of (rl_store l) k)"
    by (simp add: map_of_map)
  finally show ?thesis
    by (cases "map_of (rl_store l) k") (auto simp: sweep_def stored_def prune_def)
qed

lemma sweep_fields [simp]:
  "rl_limit (sweep nb l) = rl_limit l" "rl_bucket_size (sweep nb l) = rl_bucket_size l"
  "rl_num_buckets (sweep nb l) = rl_num_buckets l" "rl_last_sweep (sweep nb l) = nb"
  "rl_enabled (sweep nb l) = rl_enabled l" "rl_window (sweep nb l) = rl_window l"
  by (simp_all add: sweep_def)

lemma distinct_sweep: "distinct (map fst (rl_store l)) \<Longrightarrow> distinct (map fst (rl_store (sweep nb l)))"
  by (auto simp: sweep_def comp_def case_prod_unfold intro!: distinct_map_filterI)

lemma in_window_cong: "rl_num_buckets l = rl_num_buckets l' \<Longrightarrow> in_window l = in_window l'"
  by (simp add: fun_eq_iff in_window_def)

text \<open>Time passing: the window only moves on.\<close>

lemma tracks_later:
  assumes "tracks l nb es" and "nb \<le> nb'"
  shows "tracks l nb' es"
  unfolding tracks_def
proof (intro conjI allI ballI impI)
  fix k b assume w: "in_window l nb' b"
  show "bucket_count (stored l k) b = count_event es k b"
  proof (cases "b \<le> nb")
    case True
    then show ?thesis using assms w by (auto simp: tracks_def in_window_def)
  next
    case False
    then have "map_of (stored l k) b = None" using assms(1) by (auto simp: tracks_def map_of_eq_None_iff)
    moreover have "filter (\<lambda>e. e = (k, b)) es = []" using assms(1) False by (force simp: tracks_def filter_empty_conv)
    ultimately show ?thesis by (simp add: bucket_count_def count_event_def)
  qed
qed (use assms in \<open>force simp: tracks_def\<close>)+

lemma tracks_sweep:
  assumes "tracks l nb es"
  shows "tracks (sweep nb l) nb es"
proof -
  have d: "distinct (map fst (rl_store l))" using assms by (simp add: tracks_def)
  have keys: "b \<le> nb" if "b \<in> fst ` set (prune l nb (stored l k))" for b k
    using that assms by (auto simp only: prune_keys tracks_def)
  show ?thesis
  proof (cases "nb = rl_last_sweep l")
    case True
    then show ?thesis using assms by (simp add: sweep_def)
  next
    case False
    have w: "in_window (sweep nb l) = in_window l" by (rule in_window_cong) simp
    show ?thesis
      using assms keys unfolding tracks_def stored_sweep [OF d] w
      by (simp add: False distinct_sweep distinct_prune bucket_count_prune) (simp add: in_window_def)
  qed
qed

lemma sum_by_bucket:
  assumes "distinct (map fst s)" and "fst ` set s \<subseteq> W" and "finite W"
  shows "sum_list (map snd s) = (\<Sum>b\<in>W. bucket_count s b)"
proof -
  have "sum_list (map snd s) = (\<Sum>b \<in> fst ` set s. bucket_count s b)"
    using assms(1)
  proof (induction s)
    case (Cons bc s)
    obtain b c where bc: "bc = (b, c)" by (cases bc)
    have "(\<Sum>x \<in> fst ` set s. bucket_count (bc # s) x) = (\<Sum>x \<in> fst ` set s. bucket_count s x)"
      using Cons.prems bc by (intro sum.cong) (auto simp: bucket_count_def)
    moreover have "bucket_count (bc # s) b = c" using bc by (simp add: bucket_count_def)
    ultimately show ?case using Cons bc by simp
  qed simp
  also have "\<dots> = (\<Sum>b\<in>W. bucket_count s b)"
  proof (rule sum.mono_neutral_left)
    show "\<forall>i \<in> W - fst ` set s. bucket_count s i = 0"
      by (auto simp: bucket_count_def split: option.split dest: map_of_SomeD intro: rev_image_eqI)
  qed (use assms(2,3) in auto)
  finally show ?thesis .
qed

lemma events_by_bucket:
  assumes "finite {b. in_window l nb b}"
  shows "events_in l nb k es = (\<Sum>b \<in> {b. in_window l nb b}. count_event es k b)"
proof (induction es)
  case (Cons e es)
  obtain k' b' where e: "e = (k', b')" by (cases e)
  have "(\<Sum>b \<in> {b. in_window l nb b}. count_event (e # es) k b) =
      (\<Sum>b \<in> {b. in_window l nb b}. count_event es k b + (if k' = k \<and> b = b' then 1 else 0))"
    by (rule sum.cong) (auto simp: count_event_def e)
  also have "\<dots> = events_in l nb k es + (\<Sum>b \<in> {b. in_window l nb b}. if k' = k \<and> b = b' then 1 else 0)"
    by (simp add: sum.distrib Cons.IH)
  also have "(\<Sum>b \<in> {b. in_window l nb b}. if k' = k \<and> b = b' then 1 else (0::int)) = (if k' = k \<and> in_window l nb b' then 1 else 0)"
    using assms by (cases "k' = k") (simp_all add: sum.delta)
  finally show ?case by (simp add: events_in_def e)
qed (simp add: events_in_def count_event_def)

lemma window_finite: "finite {b. in_window l nb b}"
  by (rule finite_subset [of _ "{nb - rl_num_buckets l .. nb}"]) (auto simp: in_window_def)

lemma limiter_step:
  assumes track: "tracks l nb es" and nb: "nb \<le> current_bucket l now" and pos: "0 < rl_num_buckets l"
  defines "b \<equiv> current_bucket l now"
  shows "fst (is_limited_memory now key l) \<longleftrightarrow> events_in l b key (es @ [(key, b)]) > rl_limit l"
    and "tracks (snd (is_limited_memory now key l)) b (es @ [(key, b)])"
proof -
  let ?es = "es @ [(key, b)]" and ?l1 = "sweep b l"
  define s where "s = stored ?l1 key"
  define s1 where "s1 = prune ?l1 b (AList.update b (bucket_count s b + 1) s)"
  define l' where "l' = ?l1\<lparr>rl_store := AList.update key s1 (rl_store ?l1)\<rparr>"
  have run: "is_limited_memory now key l = (sum_list (map snd s1) > rl_limit l, l')"
    by (simp add: is_limited_memory_def Let_def b_def s_def s1_def l'_def)
  have t1: "tracks ?l1 b es"
    by (rule tracks_sweep, rule tracks_later [OF track]) (use nb in \<open>simp add: b_def\<close>)
  have ds: "distinct (map fst s)" "\<And>x. x \<in> fst ` set s \<Longrightarrow> x \<le> b"
    "\<And>x. in_window l b x \<Longrightarrow> bucket_count s x = count_event es key x"
    using t1 in_window_cong [of ?l1 l] by (auto simp: tracks_def s_def)
  have d1: "distinct (map fst s1)"
    unfolding s1_def by (rule distinct_prune) (simp add: ds(1))
  have keys1: "x \<in> fst ` set s1 \<Longrightarrow> in_window l b x" for x
    using ds(2) pos unfolding s1_def by (auto simp only: prune_keys set_keys_update in_window_def sweep_fields)
  have count1: "bucket_count s1 x = count_event ?es key x" if "in_window l b x" for x
    using that ds(1) ds(3) [OF that] unfolding s1_def
    by (subst bucket_count_prune) (auto simp: in_window_def bucket_count_def [of "AList.update _ _ _"] count_event_def bucket_count_def)
  have "sum_list (map snd s1) = (\<Sum>x \<in> {x. in_window l b x}. bucket_count s1 x)"
    using d1 keys1 by (intro sum_by_bucket window_finite) auto
  also have "\<dots> = events_in l b key ?es"
    unfolding events_by_bucket [OF window_finite] by (rule sum.cong) (simp_all add: count1)
  finally show "fst (is_limited_memory now key l) \<longleftrightarrow> events_in l b key ?es > rl_limit l"
    by (simp add: run)
  have st: "stored l' k = (if k = key then s1 else stored ?l1 k)" for k
    by (simp add: l'_def stored_def)
  have w: "in_window l' = in_window l" by (rule in_window_cong) (simp add: l'_def)
  show "tracks (snd (is_limited_memory now key l)) b ?es"
    unfolding run snd_conv tracks_def w
  proof (intro conjI allI ballI impI)
    show "distinct (map fst (rl_store l'))" using t1 by (simp add: l'_def tracks_def)
    show "distinct (map fst (stored l' k))" for k using t1 d1 by (simp add: st tracks_def)
    show "x \<le> b" if "x \<in> fst ` set (stored l' k)" for k x
      using that t1 keys1 by (auto simp: st tracks_def in_window_def split: if_splits)
    show "snd e \<le> b" if "e \<in> set ?es" for e using that t1 by (auto simp: tracks_def)
    show "bucket_count (stored l' k) x = count_event ?es k x" if "in_window l b x" for k x
    proof (cases "k = key")
      case True
      then show ?thesis using count1 [OF that] by (simp add: st)
    next
      case False
      moreover have "in_window ?l1 b x" using that in_window_cong [of ?l1 l] by simp
      ultimately show ?thesis using t1 by (simp add: st tracks_def count_event_def)
    qed
  qed
qed

lemma limiter_step_fields:
  "rl_limit (snd (is_limited_memory now key l)) = rl_limit l"
  "rl_bucket_size (snd (is_limited_memory now key l)) = rl_bucket_size l"
  "rl_num_buckets (snd (is_limited_memory now key l)) = rl_num_buckets l"
  "rl_enabled (snd (is_limited_memory now key l)) = rl_enabled l"
  by (simp_all add: is_limited_memory_def Let_def)

text \<open>A run of checks without Redis, and what its answers should be.\<close>

fun run_checks :: "limiter \<Rightarrow> (int \<times> string) list \<Rightarrow> bool list" where
  "run_checks l [] = []"
| "run_checks l ((now, key) # calls) =
     (let (b, l', r) = is_limited (\<lambda>k i. k) (None :: unit redis option) now key (l, ())
      in b # run_checks l' calls)"

fun window_answers :: "limiter \<Rightarrow> (string \<times> int) list \<Rightarrow> (int \<times> string) list \<Rightarrow> bool list" where
  "window_answers l es [] = []"
| "window_answers l es ((now, key) # calls) =
     (let b = current_bucket l now; es' = es @ [(key, b)]
      in (events_in l b key es' > rl_limit l) # window_answers l es' calls)"

lemma window_answers_cong:
  "rl_limit l = rl_limit l' \<Longrightarrow> rl_bucket_size l = rl_bucket_size l' \<Longrightarrow> rl_num_buckets l = rl_num_buckets l' \<Longrightarrow>
   window_answers l es calls = window_answers l' es calls"
proof (induction calls arbitrary: es)
  case (Cons c calls)
  have "events_in l = events_in l'"
    using in_window_cong [OF Cons.prems(3)] by (simp add: fun_eq_iff events_in_def)
  then show ?case using Cons by (cases c) (simp add: current_bucket_def Let_def)
qed simp

lemma run_checks_track:
  "tracks l nb es \<Longrightarrow> rl_enabled l \<Longrightarrow> 0 < rl_num_buckets l \<Longrightarrow>
   sorted (map fst calls) \<Longrightarrow> (\<forall>c \<in> set calls. nb \<le> current_bucket l (fst c)) \<Longrightarrow> 0 < rl_bucket_size l \<Longrightarrow>
   run_checks l calls = window_answers l es calls"
proof (induction calls arbitrary: l nb es)
  case (Cons c calls)
  obtain now key where c: "c = (now, key)" by (cases c)
  let ?b = "current_bucket l now" and ?l = "snd (is_limited_memory now key l)"
  have nb: "nb \<le> ?b" using Cons.prems(5) c by simp
  note step = limiter_step [OF Cons.prems(1) nb Cons.prems(3), of key]
  have later: "\<forall>d \<in> set calls. ?b \<le> current_bucket ?l (fst d)"
  proof
    fix d assume "d \<in> set calls"
    then have "now \<le> fst d" using Cons.prems(4) c by auto
    then show "?b \<le> current_bucket ?l (fst d)"
      using Cons.prems(6) by (simp add: current_bucket_def limiter_step_fields zdiv_mono1)
  qed
  have "run_checks ?l calls = window_answers ?l (es @ [(key, ?b)]) calls"
    by (rule Cons.IH [OF step(2)]) (use Cons.prems c later in \<open>simp_all add: limiter_step_fields\<close>)
  also have "\<dots> = window_answers l (es @ [(key, ?b)]) calls"
    by (rule window_answers_cong) (simp_all add: limiter_step_fields)
  finally show ?case
    using step(1) Cons.prems(2) c by (simp add: is_limited_def Let_def case_prod_beta)
qed simp

lemma new_limiter_buckets:
  "0 < rl_bucket_size (new_limiter limit window bs e)" "0 < rl_num_buckets (new_limiter limit window bs e)"
  "rl_num_buckets (new_limiter limit window bs e) * rl_bucket_size (new_limiter limit window bs e)
     < rl_window (new_limiter limit window bs e) + rl_bucket_size (new_limiter limit window bs e)"
  "rl_window (new_limiter limit window bs e)
     \<le> rl_num_buckets (new_limiter limit window bs e) * rl_bucket_size (new_limiter limit window bs e)"
proof -
  define w where "w = max 1 window"
  define b where "b = max 1 (min bs w)"
  have fields: "rl_window (new_limiter limit window bs e) = w" "rl_bucket_size (new_limiter limit window bs e) = b"
    "rl_num_buckets (new_limiter limit window bs e) = - ((- w) div b)"
    by (simp_all only: new_limiter_def Let_def limiter.select_convs w_def b_def)
  have pos: "0 < w" "0 < b" by (simp_all add: w_def b_def)
  have m: "(- w) div b * b + (- w) mod b = - w" by (rule div_mult_mod_eq)
  have r: "0 \<le> (- w) mod b" "(- w) mod b < b" using pos by simp_all
  have "- ((- w) div b) * b = - ((- w) div b * b)" by simp
  then have bounds: "w \<le> - ((- w) div b) * b" "- ((- w) div b) * b < w + b" using m r by linarith+
  then have "0 < - ((- w) div b) * b" using pos by linarith
  then have "0 < - ((- w) div b)" by (rule zero_less_mult_pos2) (rule pos(2))
  then show "0 < rl_bucket_size (new_limiter limit window bs e)" "0 < rl_num_buckets (new_limiter limit window bs e)"
    "rl_num_buckets (new_limiter limit window bs e) * rl_bucket_size (new_limiter limit window bs e)
      < rl_window (new_limiter limit window bs e) + rl_bucket_size (new_limiter limit window bs e)"
    "rl_window (new_limiter limit window bs e)
      \<le> rl_num_buckets (new_limiter limit window bs e) * rl_bucket_size (new_limiter limit window bs e)"
    unfolding fields using pos bounds by (simp_all only:)
qed

text \<open>
  C40. A limiter without Redis answers every check, of whatever keys at whatever non-decreasing
  times, by counting exactly the events of the key in the window of buckets, the one being
  checked included; sweeping and pruning never lose one of them.
\<close>

theorem limiter_counts_window:
  assumes "sorted (map fst calls)"
  shows "run_checks (new_limiter limit window bs True) calls =
     window_answers (new_limiter limit window bs True) [] calls"
proof (cases calls)
  case (Cons c cs)
  let ?l = "new_limiter limit window bs True"
  have "tracks ?l (current_bucket ?l (fst c)) []"
    by (simp add: tracks_def new_limiter_def Let_def stored_def bucket_count_def count_event_def)
  then show ?thesis
  proof (rule run_checks_track)
    show "\<forall>d \<in> set calls. current_bucket ?l (fst c) \<le> current_bucket ?l (fst d)"
      using assms Cons new_limiter_buckets(1) [of limit window bs True] by (auto simp: current_bucket_def zdiv_mono1)
    show "rl_enabled ?l" by (simp add: new_limiter_def Let_def)
    show "0 < rl_num_buckets ?l" "0 < rl_bucket_size ?l" by (rule new_limiter_buckets)+
  qed (rule assms)
qed simp

theorem limiter_counts_window_witness:
  "run_checks (new_limiter 1 60 60 True) [(0, ''a''), (5, ''a''), (61, ''a'')] =
     window_answers (new_limiter 1 60 60 True) [] [(0, ''a''), (5, ''a''), (61, ''a'')]"
  by (rule limiter_counts_window) simp

text \<open>
  What the window means in seconds: an event no older than the window less one bucket is
  always counted, one older than the window plus one bucket never.
\<close>

theorem window_in_seconds:
  fixes limit window bs t now :: int
  defines "l \<equiv> new_limiter limit window bs True"
  assumes "t \<le> now"
  shows "(now - t \<le> rl_window l - rl_bucket_size l \<longrightarrow> in_window l (current_bucket l now) (current_bucket l t)) \<and>
     (in_window l (current_bucket l now) (current_bucket l t) \<longrightarrow> now - t < rl_window l + rl_bucket_size l)"
proof -
  let ?B = "rl_bucket_size l" and ?N = "rl_num_buckets l" and ?W = "rl_window l"
  have b: "0 < ?B" "?N * ?B < ?W + ?B" "?W \<le> ?N * ?B"
    using new_limiter_buckets [of limit window bs True] by (simp_all add: l_def)
  have mono: "t div ?B \<le> now div ?B" using assms(2) b(1) by (simp add: zdiv_mono1)
  have n: "now div ?B * ?B + now mod ?B = now" "0 \<le> now mod ?B" "now mod ?B < ?B"
    and m: "t div ?B * ?B + t mod ?B = t" "0 \<le> t mod ?B" "t mod ?B < ?B" using b(1) by simp_all
  have diff: "(now div ?B - t div ?B) * ?B = now - t - now mod ?B + t mod ?B" using n m by (simp add: algebra_simps)
  show ?thesis
  proof (intro conjI impI)
    assume "now - t \<le> ?W - ?B"
    then have "(now div ?B - t div ?B) * ?B < ?N * ?B" using diff n m b by linarith
    then have "now div ?B - t div ?B < ?N" using b(1) by (simp add: mult_less_cancel_right)
    then show "in_window l (current_bucket l now) (current_bucket l t)"
      using mono by (simp add: in_window_def current_bucket_def)
  next
    assume "in_window l (current_bucket l now) (current_bucket l t)"
    then have "now div ?B - t div ?B \<le> ?N - 1" by (simp add: in_window_def current_bucket_def)
    then have "(now div ?B - t div ?B) * ?B \<le> (?N - 1) * ?B" using b(1) by (intro mult_right_mono) simp_all
    moreover have "(?N - 1) * ?B = ?N * ?B - ?B" by (simp add: algebra_simps)
    ultimately show "now - t < ?W + ?B" using diff n(2,3) m(2,3) b by linarith
  qed
qed

theorem window_in_seconds_witness:
  "in_window (new_limiter 5 180 60 True) (current_bucket (new_limiter 5 180 60 True) 130)
     (current_bucket (new_limiter 5 180 60 True) 10)"
  using window_in_seconds [of 10 130 5 180 60] by (simp add: new_limiter_def Let_def)

section \<open>The store stays bounded\<close>

text \<open>Every stored key has a bucket in the window of the last sweep, and every bucket an event.\<close>

definition live :: "limiter \<Rightarrow> (string \<times> int) list \<Rightarrow> bool" where
  "live l es \<longleftrightarrow> distinct (map fst (rl_store l)) \<and>
     (\<forall>(k, s) \<in> set (rl_store l). (\<exists>b \<in> fst ` set s. rl_last_sweep l - rl_num_buckets l < b) \<and>
        (\<forall>b \<in> fst ` set s. (k, b) \<in> set es))"

lemma live_sweep:
  assumes "live l es"
  shows "live (sweep nb l) es"
proof (cases "nb = rl_last_sweep l")
  case True
  then show ?thesis using assms by (simp add: sweep_def)
next
  case False
  have "(\<exists>b \<in> fst ` set s. nb - rl_num_buckets l < b) \<and> (\<forall>b \<in> fst ` set s. (k, b) \<in> set es)"
    if ks: "(k, s) \<in> set (rl_store (sweep nb l))" for k s
  proof -
    obtain s0 where s0: "(k, s0) \<in> set (rl_store l)" "s = prune l nb s0" "s \<noteq> []"
      using ks False by (auto simp: sweep_def)
    then have "fst ` set s \<noteq> {}" by simp
    then show ?thesis
      using s0 assms unfolding s0(2) prune_keys by (fastforce simp: live_def)
  qed
  then show ?thesis using assms distinct_sweep [of l nb] by (auto simp: live_def)
qed

lemma live_step:
  fixes now :: int
  assumes "live l es" and "0 < rl_num_buckets l"
  defines "b \<equiv> current_bucket l now"
  shows "live (snd (is_limited_memory now key l)) (es @ [(key, b)]) \<and>
     rl_last_sweep (snd (is_limited_memory now key l)) = b"
proof -
  let ?l1 = "sweep b l"
  define s where "s = stored ?l1 key"
  define s1 where "s1 = prune ?l1 b (AList.update b (bucket_count s b + 1) s)"
  have run: "snd (is_limited_memory now key l) = ?l1\<lparr>rl_store := AList.update key s1 (rl_store ?l1)\<rparr>"
    by (simp add: is_limited_memory_def Let_def b_def s_def s1_def)
  have l1: "live ?l1 es" by (rule live_sweep [OF assms(1)])
  have keys: "fst ` set s1 = {x \<in> insert b (fst ` set s). b - rl_num_buckets l < x}"
    unfolding s1_def prune_keys by simp
  have old: "(key, x) \<in> set es" if "x \<in> fst ` set s" for x
    using l1 that by (force simp: live_def s_def stored_def split: option.splits dest: map_of_SomeD)
  have new: "(\<exists>x \<in> fst ` set s1. b - rl_num_buckets l < x) \<and> (\<forall>x \<in> fst ` set s1. (key, x) \<in> set (es @ [(key, b)]))"
    unfolding keys using assms(2) old by auto
  have "(\<exists>x \<in> fst ` set t. b - rl_num_buckets l < x) \<and> (\<forall>x \<in> fst ` set t. (k, x) \<in> set (es @ [(key, b)]))"
    if "(k, t) \<in> set (AList.update key s1 (rl_store ?l1))" for k t
  proof -
    have "(k, t) = (key, s1) \<or> (k, t) \<in> set (rl_store ?l1)"
      using that set_update_subset [of key s1 "rl_store ?l1"] by blast
    then show ?thesis
    proof
      assume "(k, t) \<in> set (rl_store ?l1)"
      then have "(\<exists>x \<in> fst ` set t. b - rl_num_buckets l < x) \<and> (\<forall>x \<in> fst ` set t. (k, x) \<in> set es)"
        using l1 by (auto simp: live_def)
      then show ?thesis by auto
    qed (use new in simp)
  qed
  then show ?thesis using l1 unfolding run by (auto simp: live_def)
qed

fun after_checks :: "limiter \<Rightarrow> (int \<times> string) list \<Rightarrow> limiter" where
  "after_checks l [] = l"
| "after_checks l ((now, key) # calls) =
     after_checks (fst (snd (is_limited (\<lambda>k i. k) (None :: unit redis option) now key (l, ())))) calls"

lemma live_run:
  "live l es \<Longrightarrow> 0 < rl_num_buckets l \<Longrightarrow> rl_enabled l \<Longrightarrow>
   live (after_checks l calls) (es @ map (\<lambda>(now, key). (key, current_bucket l now)) calls) \<and>
   rl_num_buckets (after_checks l calls) = rl_num_buckets l \<and>
   (calls \<noteq> [] \<longrightarrow> rl_last_sweep (after_checks l calls) = current_bucket l (fst (last calls)))"
proof (induction calls arbitrary: l es)
  case (Cons c calls)
  obtain now key where c: "c = (now, key)" by (cases c)
  let ?l = "snd (is_limited_memory now key l)"
  have s: "live ?l (es @ [(key, current_bucket l now)])" "rl_last_sweep ?l = current_bucket l now"
    using live_step [OF Cons.prems(1,2), of now key] by simp_all
  have run: "after_checks l (c # calls) = after_checks ?l calls"
    using c Cons.prems(3) by (simp add: is_limited_def case_prod_beta)
  have b: "current_bucket ?l = current_bucket l"
    by (simp add: fun_eq_iff current_bucket_def limiter_step_fields)
  show ?case
    using Cons.IH [OF s(1)] Cons.prems s(2) c unfolding run
    by (cases calls) (simp_all add: limiter_step_fields b)
qed simp

text \<open>
  The in-memory store cannot grow without bound: after any run of checks every key it still
  holds was used in the window that ends with the last check.
\<close>

theorem limiter_store_bounded:
  fixes limit window bs :: int
  defines "l \<equiv> new_limiter limit window bs True"
  assumes "calls \<noteq> []" and "sorted (map fst calls)"
  shows "distinct (map fst (rl_store (after_checks l calls))) \<and>
     fst ` set (rl_store (after_checks l calls)) \<subseteq>
       {key. \<exists>now. (now, key) \<in> set calls \<and> in_window l (current_bucket l (fst (last calls))) (current_bucket l now)}"
proof -
  have pos: "0 < rl_num_buckets l" "0 < rl_bucket_size l" using new_limiter_buckets by (simp_all add: l_def)
  have e: "rl_enabled l" by (simp only: l_def new_limiter_def Let_def limiter.select_convs)
  have "live l []" by (simp add: live_def l_def new_limiter_def Let_def)
  from live_run [OF this pos(1) e, of calls] assms(2)
  have run: "live (after_checks l calls) (map (\<lambda>(now, key). (key, current_bucket l now)) calls)"
    "rl_num_buckets (after_checks l calls) = rl_num_buckets l"
    "rl_last_sweep (after_checks l calls) = current_bucket l (fst (last calls))" by simp_all
  have last: "current_bucket l now \<le> current_bucket l (fst (last calls))" if "(now, key) \<in> set calls" for now key
  proof -
    have "now \<le> fst (last calls)"
      using that assms(2,3) by (induction calls) (auto split: if_splits intro: order_trans)
    then show ?thesis using pos(2) by (simp add: current_bucket_def zdiv_mono1)
  qed
  have "\<exists>now. (now, k) \<in> set calls \<and> in_window l (current_bucket l (fst (last calls))) (current_bucket l now)"
    if ks: "(k, s) \<in> set (rl_store (after_checks l calls))" for k s
  proof -
    obtain b where b: "b \<in> fst ` set s" "current_bucket l (fst (last calls)) - rl_num_buckets l < b"
      using run ks by (force simp: live_def)
    then have "(k, b) \<in> set (map (\<lambda>(now, key). (key, current_bucket l now)) calls)"
      using run(1) ks by (force simp: live_def)
    then obtain now where "(now, k) \<in> set calls" "b = current_bucket l now" by auto
    then show ?thesis using b(2) last by (auto simp: in_window_def)
  qed
  then show ?thesis using run(1) by (auto simp: live_def)
qed

theorem limiter_store_bounded_witness:
  "''a'' \<notin> fst ` set (rl_store (after_checks (new_limiter 5 60 60 True) [(0, ''a''), (120, ''b'')]))"
proof
  assume "''a'' \<in> fst ` set (rl_store (after_checks (new_limiter 5 60 60 True) [(0, ''a''), (120, ''b'')]))"
  moreover have "fst ` set (rl_store (after_checks (new_limiter 5 60 60 True) [(0, ''a''), (120, ''b'')])) \<subseteq>
      {key. \<exists>now. (now, key) \<in> set [(0, ''a''), (120, ''b'')] \<and> in_window (new_limiter 5 60 60 True)
        (current_bucket (new_limiter 5 60 60 True) (fst (last [(0, ''a''), (120, ''b'')])))
        (current_bucket (new_limiter 5 60 60 True) now)}"
    using limiter_store_bounded [of "[(0, ''a''), (120, ''b'')]" 5 60 60] by simp
  ultimately show False by (auto simp: in_window_def current_bucket_def new_limiter_def Let_def)
qed

end
