(* ===== verification/TuneSchedule.thy ===== *)
theory TuneSchedule
  imports Complex_Main PyJson
begin

text \<open>
  The tuning sweep's budget and its rounds (\<open>benchmarks/tuning/tune_schedule.py\<close>). Clock readings
  are arguments. \<open>math.ceil(math.log(c, eta))\<close> and \<open>math.ceil(a / eta)\<close> are their exact values:
  the number of divisions by \<open>eta\<close> that bring \<open>c\<close> to one, and the rounded-up quotient; the float
  computation gives these for the candidate counts of a sweep and \<open>eta = 2\<close>, the only value its
  callers pass by default.
\<close>

section \<open>Budgets\<close>

datatype tune_error =
    TooFewCandidates
  | BadRoundSize
  | TierTooSmall
  | NotAnOverride string
  | NoKnobValues string
  | NoKnobs
  | NoComparison string

record budget =
  bu_mode :: string
  bu_seconds :: "real option"
  bu_visits :: "int option"
  bu_candidates :: int
  bu_round_items :: int

definition budget_spent :: "budget \<Rightarrow> real \<Rightarrow> real \<Rightarrow> int \<Rightarrow> string option" where
  "budget_spent b now started visits =
     (if (case bu_seconds b of None \<Rightarrow> False | Some s \<Rightarrow> now - started \<ge> s) then Some ''budget''
      else if (case bu_visits b of None \<Rightarrow> False | Some v \<Rightarrow> visits \<ge> v) then Some ''visits''
      else None)"

definition budget_remaining :: "budget \<Rightarrow> real \<Rightarrow> real \<Rightarrow> real option" where
  "budget_remaining b now started =
     (case bu_seconds b of None \<Rightarrow> None | Some s \<Rightarrow> Some (max 0 (s - (now - started))))"

definition mode :: "string \<Rightarrow> real option \<Rightarrow> int option \<Rightarrow> int \<Rightarrow> int \<Rightarrow> budget" where
  "mode m s v c k = \<lparr>bu_mode = m, bu_seconds = s, bu_visits = v, bu_candidates = c, bu_round_items = k\<rparr>"

definition MODES :: "budget list" where
  "MODES = [mode ''interactive'' (Some (2 * 3600)) None 6 6, mode ''overnight'' (Some (8 * 3600)) None 16 8,
     mode ''multiday'' None None 32 8, mode ''trials'' None (Some 24) 4 6]"

section \<open>The schedule\<close>

record schedule =
  sc_candidates :: int
  sc_round_items :: int
  sc_eta :: int
  sc_rounds :: nat
  sc_slices :: "(int \<times> int) list"
  sc_survivors :: "int list"

definition winner_items :: "schedule \<Rightarrow> int" where
  "winner_items s = (if sc_slices s = [] then 0 else snd (last (sc_slices s)))"

definition item_visits :: "schedule \<Rightarrow> int" where
  "item_visits s = sum_list (map (\<lambda>(n, (lo, hi)). n * (hi - lo)) (zip (sc_survivors s) (sc_slices s)))"

definition ceil_div :: "int \<Rightarrow> int \<Rightarrow> int" where
  "ceil_div a b = - ((- a) div b)"

lemma ceil_div_le_iff: "0 < b \<Longrightarrow> ceil_div a b \<le> x \<longleftrightarrow> a \<le> x * b"
proof -
  assume b: "0 < b"
  have "- x \<le> (- a) div b \<longleftrightarrow> - x * b \<le> - a"
  proof
    assume "- x \<le> (- a) div b"
    then have "- x * b \<le> (- a) div b * b" using b by (intro mult_right_mono) auto
    also have "\<dots> \<le> - a" using div_mult_mod_eq [of "- a" b] pos_mod_sign [OF b, of "- a"] by linarith
    finally show "- x * b \<le> - a" .
  next
    assume "- x * b \<le> - a"
    then have "(- x * b) div b \<le> (- a) div b" using b by (rule zdiv_mono1)
    moreover have "(- x * b) div b = - x" using b by (intro nonzero_mult_div_cancel_right) simp
    ultimately show "- x \<le> (- a) div b" by simp
  qed
  then show ?thesis by (auto simp: ceil_div_def)
qed

function ceil_log :: "int \<Rightarrow> int \<Rightarrow> nat" where
  "ceil_log eta c = (if c \<le> 1 \<or> eta < 2 then 0 else Suc (ceil_log eta (ceil_div c eta)))"
  by auto
termination
proof (relation "measure (\<lambda>(eta, c). nat c)", goal_cases)
  case (2 eta c)
  then have "ceil_div c eta \<le> c - 1"
  proof -
    have "c * 1 \<le> (c - 1) * 2" using 2 by simp
    also have "\<dots> \<le> (c - 1) * eta" using 2 by (intro mult_left_mono) auto
    finally have "c \<le> (c - 1) * eta" by simp
    moreover have "0 < eta" using 2 by simp
    ultimately show ?thesis by (simp only: ceil_div_le_iff)
  qed
  then show ?case using 2 by simp
qed simp

declare ceil_log.simps [simp del]

fun lay_rounds :: "int \<Rightarrow> int \<Rightarrow> nat \<Rightarrow> nat \<Rightarrow> int \<Rightarrow> int \<Rightarrow> (int \<times> int) list \<times> int list \<times> int" where
  "lay_rounds k eta 0 r lo alive = ([], [], lo)"
| "lay_rounds k eta (Suc n) r lo alive =
     (let width = k * eta ^ r;
          (slices, survivors, end_lo) = lay_rounds k eta n (Suc r) (lo + width) (max 2 (ceil_div alive eta))
      in ((lo, lo + width) # slices, alive # survivors, end_lo))"

definition plan_schedule :: "int \<Rightarrow> int \<Rightarrow> int \<Rightarrow> int \<Rightarrow> tune_error + schedule" where
  "plan_schedule tier_size candidates round_items eta =
     (if candidates < 2 then Inl TooFewCandidates
      else if round_items < 1 \<or> eta < 2 then Inl BadRoundSize
      else let rounds = max 1 (ceil_log eta candidates);
               (slices, survivors, lo) = lay_rounds round_items eta rounds 0 0 candidates
      in if lo > tier_size then Inl TierTooSmall
         else Inr \<lparr>sc_candidates = candidates, sc_round_items = round_items, sc_eta = eta,
                   sc_rounds = rounds, sc_slices = slices, sc_survivors = survivors\<rparr>)"

section \<open>What a schedule looks like\<close>

lemma ceil_div_comp: "0 < a \<Longrightarrow> 0 < b \<Longrightarrow> ceil_div (ceil_div c a) b = ceil_div c (a * b)"
proof -
  assume "0 < a" "0 < b"
  then have "ceil_div (ceil_div c a) b \<le> x \<longleftrightarrow> ceil_div c (a * b) \<le> x" for x
    by (simp add: ceil_div_le_iff ac_simps)
  then show ?thesis by (metis order_antisym order_refl)
qed

lemma ceil_div_1 [simp]: "ceil_div c 1 = c"
  by (simp add: ceil_div_def)

lemma ceil_log_le_iff: "2 \<le> eta \<Longrightarrow> ceil_log eta c \<le> n \<longleftrightarrow> c \<le> eta ^ n"
proof (induction eta c arbitrary: n rule: ceil_log.induct)
  case (1 eta c)
  show ?case
  proof (cases "c \<le> 1")
    case True
    moreover have "1 \<le> eta ^ n" using "1.prems" by simp
    ultimately show ?thesis by (subst ceil_log.simps) simp
  next
    case False
    show ?thesis
    proof (cases n)
      case 0
      then show ?thesis using False "1.prems" by (subst ceil_log.simps) simp
    next
      case (Suc m)
      have "ceil_log eta c \<le> n \<longleftrightarrow> ceil_log eta (ceil_div c eta) \<le> m"
        using False "1.prems" Suc by (subst ceil_log.simps) simp
      also have "\<dots> \<longleftrightarrow> ceil_div c eta \<le> eta ^ m" using "1.IH" "1.prems" False by simp
      also have "\<dots> \<longleftrightarrow> c \<le> eta ^ n" using "1.prems" Suc by (simp add: ceil_div_le_iff ac_simps)
      finally show ?thesis .
    qed
  qed
qed

lemma max_ceil_div: "2 \<le> eta \<Longrightarrow> max 2 (ceil_div (max 2 x) eta) = max 2 (ceil_div x eta)"
proof (cases "x \<le> 2")
  case True
  assume "2 \<le> eta"
  then have "ceil_div (max 2 x) eta \<le> 2" "ceil_div x eta \<le> 2" using True by (simp_all add: ceil_div_le_iff)
  then show ?thesis by simp
qed (simp add: max_def)

text \<open>Round \<open>i\<close> of the layout, in closed form.\<close>

definition items_before :: "int \<Rightarrow> int \<Rightarrow> nat \<Rightarrow> int" where
  "items_before k eta i = k * (\<Sum>j<i. eta ^ j)"

definition alive_in :: "int \<Rightarrow> int \<Rightarrow> nat \<Rightarrow> int" where
  "alive_in c eta i = max 2 (ceil_div c (eta ^ i))"

lemma lay_rounds_closed:
  assumes "2 \<le> eta"
  shows "lay_rounds k eta n r (items_before k eta r) (alive_in c eta r) =
     (map (\<lambda>i. (items_before k eta i, items_before k eta (Suc i))) [r..<r + n],
      map (alive_in c eta) [r..<r + n], items_before k eta (r + n))"
proof (induction n arbitrary: r)
  case (Suc n)
  have "ceil_div (ceil_div c (eta ^ r)) eta = ceil_div c (eta ^ Suc r)"
    using assms by (simp add: ceil_div_comp ac_simps)
  then have "max 2 (ceil_div (alive_in c eta r) eta) = alive_in c eta (Suc r)"
    using assms by (simp add: alive_in_def max_ceil_div)
  moreover have "items_before k eta r + k * eta ^ r = items_before k eta (Suc r)"
    by (simp add: items_before_def distrib_left)
  moreover have "[r..<r + Suc n] = r # [Suc r..<Suc r + n]"
    using upt_conv_Cons [of r "r + Suc n"] by simp
  ultimately show ?case using Suc.IH [of "Suc r"] by simp
qed simp

lemma alive_in_0: "2 \<le> c \<Longrightarrow> alive_in c eta 0 = c"
  by (simp add: alive_in_def)

lemma alive_decreasing:
  assumes "2 \<le> eta"
  shows "alive_in c eta (Suc i) \<le> alive_in c eta i"
proof -
  have "c \<le> alive_in c eta i * eta ^ i" using assms by (simp add: alive_in_def flip: ceil_div_le_iff)
  also have "\<dots> \<le> alive_in c eta i * eta ^ Suc i"
    using assms by (intro mult_left_mono power_increasing) (auto simp: alive_in_def)
  finally show ?thesis using assms by (simp add: alive_in_def ceil_div_le_iff)
qed

text \<open>
  A schedule is refused exactly when the tier has fewer items than its rounds need, and is
  otherwise what the module promises: slices that lie one after the other from item 0, each
  \<open>eta\<close> times the one before; every round starts with the candidates the round before kept, at
  least two; the last one decides among at most \<open>eta\<close>; and the winner has been measured on
  \<open>k * (1 + eta + ... + eta^(R-1))\<close> items.
\<close>

theorem plan_schedule_exact:
  fixes tier c k eta :: int
  assumes "2 \<le> c" and "1 \<le> k" and "2 \<le> eta"
  defines "R \<equiv> max 1 (ceil_log eta c)"
  shows "(tier < k * (\<Sum>j<R. eta ^ j) \<longrightarrow> plan_schedule tier c k eta = Inl TierTooSmall) \<and>
     (k * (\<Sum>j<R. eta ^ j) \<le> tier \<longrightarrow> (\<exists>s. plan_schedule tier c k eta = Inr s \<and>
        sc_rounds s = R \<and> length (sc_slices s) = R \<and> length (sc_survivors s) = R \<and>
        winner_items s = k * (\<Sum>j<R. eta ^ j) \<and>
        (\<forall>i<R. sc_slices s ! i = (k * (\<Sum>j<i. eta ^ j), k * (\<Sum>j<i. eta ^ j) + k * eta ^ i) \<and>
           sc_survivors s ! i = max 2 (ceil_div c (eta ^ i))) \<and>
        sc_survivors s ! 0 = c \<and> sorted (rev (sc_survivors s)) \<and>
        2 \<le> last (sc_survivors s) \<and> last (sc_survivors s) \<le> eta))"
proof -
  let ?sl = "map (\<lambda>i. (items_before k eta i, items_before k eta (Suc i))) [0..<R]"
  let ?sv = "map (alive_in c eta) [0..<R]"
  have R: "1 \<le> R" by (simp add: R_def)
  have lay: "lay_rounds k eta R 0 0 c = (?sl, ?sv, items_before k eta R)"
    using lay_rounds_closed [OF assms(3), of k R 0 c] assms(1) by (simp add: alive_in_0 items_before_def)
  have last: "last ?sv = alive_in c eta (R - 1)" "snd (last ?sl) = items_before k eta R"
    using R by (simp_all add: last_map)
  have "c \<le> eta ^ R" using ceil_log_le_iff [OF assms(3), of c R] by (simp add: R_def)
  also have "\<dots> = eta * eta ^ (R - 1)" using R by (cases R) simp_all
  finally have small: "alive_in c eta (R - 1) \<le> eta" using assms(3) by (simp add: alive_in_def ceil_div_le_iff)
  have "alive_in c eta j \<le> alive_in c eta i" if "i \<le> j" for i j
    using that by (induction j rule: dec_induct) (auto intro: order_trans alive_decreasing [OF assms(3)])
  then have sorted: "sorted (rev ?sv)" by (auto simp: sorted_iff_nth_mono rev_nth)
  have plan: "plan_schedule tier c k eta = (if items_before k eta R > tier then Inl TierTooSmall
      else Inr \<lparr>sc_candidates = c, sc_round_items = k, sc_eta = eta, sc_rounds = R, sc_slices = ?sl, sc_survivors = ?sv\<rparr>)"
    using assms(1-3) lay unfolding plan_schedule_def R_def [symmetric] by (simp add: Let_def)
  have step: "items_before k eta (Suc i) = k * (\<Sum>j<i. eta ^ j) + k * eta ^ i" for i
    by (simp add: items_before_def distrib_left)
  show ?thesis
    unfolding plan using R last small sorted alive_in_0 [OF assms(1), of eta]
    by (auto simp: winner_items_def items_before_def [of k eta R] step items_before_def [of k eta] alive_in_def [of c eta] Suc_le_eq distrib_left)
qed

theorem plan_schedule_exact_witness:
  "\<exists>s. plan_schedule 100 6 6 2 = Inr s \<and> last (sc_survivors s) = 2"
proof -
  have "ceil_log 2 6 = 3" by (simp add: ceil_log.simps ceil_div_def)
  then have sum: "6 * (\<Sum>j<max 1 (ceil_log 2 6). 2 ^ j) \<le> (100 :: int)" by (simp add: lessThan_nat_numeral lessThan_Suc)
  note plan = plan_schedule_exact [of 6 6 2 100, THEN conjunct2, rule_format, OF _ _ _ sum]
  then show ?thesis by force
qed

end
