(* ===== verification/TuneGrid.thy ===== *)
theory TuneGrid
  imports TuneSchedule "HOL-Library.List_Lexorder" "HOL-Library.Char_ord"
begin

text \<open>
  The tuning sweep's search space (\<open>benchmarks/tuning/tune_schedule.py\<close>): grids, their
  constraints, candidates and the two ways of drawing them. A TOML or profile value is an
  integer, a boolean, a text or None. A number read out of text is a sign, digits and a decimal
  point, with its exact value. The random generator is a stream of numbers reduced to an index
  by each \<open>choice\<close>; \<open>sha\<close> (the truncated SHA-1 of a candidate's JSON) and \<open>cfg\<close>
  (\<open>config_id_of\<close>, which resolves the profile in the database) are arguments.
\<close>

section \<open>Values and numbers\<close>

datatype scalar = SNone | SInt int | SBool bool | SText string

fun py_str :: "scalar \<Rightarrow> string" where
  "py_str SNone = ''None''"
| "py_str (SInt i) = (if i < 0 then CHR ''-'' # show_nat (nat (- i)) else show_nat (nat i))"
| "py_str (SBool b) = (if b then ''True'' else ''False'')"
| "py_str (SText s) = s"

definition digit :: "char \<Rightarrow> int option" where
  "digit c = (let n = of_char c in if 48 \<le> n \<and> n \<le> 57 then Some (n - 48) else None)"

fun digits_from :: "int \<Rightarrow> string \<Rightarrow> int option" where
  "digits_from acc [] = Some acc"
| "digits_from acc (c # cs) = (case digit c of None \<Rightarrow> None | Some d \<Rightarrow> digits_from (10 * acc + d) cs)"

definition unsigned_number :: "string \<Rightarrow> rat option" where
  "unsigned_number s = (case split_on (CHR ''.'') s of
       [a] \<Rightarrow> if a = [] then None else map_option of_int (digits_from 0 a)
     | [a, b] \<Rightarrow> if a = [] \<and> b = [] then None
         else (case (digits_from 0 a, digits_from 0 b) of
                 (Some x, Some y) \<Rightarrow> Some (of_int x + of_int y / 10 ^ length b)
               | _ \<Rightarrow> None)
     | _ \<Rightarrow> None)"

definition number_of_text :: "string \<Rightarrow> rat option" where
  "number_of_text s = (case s of
       [] \<Rightarrow> None
     | c # cs \<Rightarrow> if c = CHR ''-'' then map_option uminus (unsigned_number cs)
         else if c = CHR ''+'' then unsigned_number cs else unsigned_number s)"

definition is_space :: "char \<Rightarrow> bool" where
  "is_space c \<longleftrightarrow> c = CHR '' '' \<or> (let n = of_char c :: int in 9 \<le> n \<and> n \<le> 13)"

definition strip :: "string \<Rightarrow> string" where
  "strip s = rev (dropWhile is_space (rev (dropWhile is_space s)))"

datatype numeric = Num rat | Text string

definition numeric_of :: "scalar \<Rightarrow> numeric" where
  "numeric_of v = (case v of
       SInt i \<Rightarrow> Num (of_int i)
     | SBool b \<Rightarrow> Num (if b then 1 else 0)
     | _ \<Rightarrow> (let text = strip (py_str v) in case number_of_text text of Some q \<Rightarrow> Num q | None \<Rightarrow> Text text))"

text \<open>An order between a number and a text raises a TypeError: None.\<close>

fun compare_with :: "(rat \<Rightarrow> rat \<Rightarrow> bool) \<Rightarrow> (string \<Rightarrow> string \<Rightarrow> bool) \<Rightarrow> bool option \<Rightarrow> numeric \<Rightarrow> numeric \<Rightarrow> bool option" where
  "compare_with f g mixed (Num a) (Num b) = Some (f a b)"
| "compare_with f g mixed (Text a) (Text b) = Some (g a b)"
| "compare_with f g mixed _ _ = mixed"

definition COMPARISONS :: "(string \<times> (numeric \<Rightarrow> numeric \<Rightarrow> bool option)) list" where
  "COMPARISONS = [(''<='', compare_with (\<le>) (\<le>) None), (''>='', compare_with (\<ge>) (\<ge>) None),
     (''=='', compare_with (=) (=) (Some False)), (''!='', compare_with (\<noteq>) (\<noteq>) (Some True)),
     (''<'', compare_with (<) (<) None), (''>'', compare_with (>) (>) None)]"

definition lower :: "string \<Rightarrow> string" where
  "lower = map (\<lambda>c. let n = of_char c :: nat in if 65 \<le> n \<and> n \<le> 90 then char_of (n + 32) else c)"

definition profile_key :: "string \<Rightarrow> string" where
  "profile_key var = (if prefix ''LLAMA_'' var then lower (drop (length ''LLAMA_'') var) else lower var)"

section \<open>Grids\<close>

text \<open>A knob's table in the file: its values (None when they are no list) and whether it is ordered.\<close>

record knob_spec =
  ks_values :: "scalar list option"
  ks_ordered :: "bool option"

record grid_data =
  dt_id :: "string option"
  dt_profile :: "string option"
  dt_knobs :: "(string \<times> knob_spec) list"
  dt_constraints :: "string option list"
  dt_scalars :: "(string \<times> scalar) list"

record grid =
  gr_name :: string
  gr_profile :: string
  gr_knobs :: "(string \<times> scalar list) list"
  gr_ordered :: "(string \<times> bool) list"
  gr_constraints :: "string list"
  gr_scalars :: "(string \<times> scalar) list"

definition text_or :: "string option \<Rightarrow> string \<Rightarrow> string" where
  "text_or t d = (case t of None \<Rightarrow> d | Some x \<Rightarrow> if x = [] then d else x)"

fun read_knobs :: "(string \<times> knob_spec) list \<Rightarrow> tune_error + (string \<times> scalar list) list" where
  "read_knobs [] = Inr []"
| "read_knobs ((var, spec) # rest) =
     (if \<not> prefix ''LLAMA_'' var then Inl (NotAnOverride var)
      else case ks_values spec of
        None \<Rightarrow> Inl (NoKnobValues var)
      | Some values \<Rightarrow> if values = [] then Inl (NoKnobValues var)
          else and_then (read_knobs rest) (\<lambda>ks. Inr ((var, values) # ks)))"

definition make_grid :: "string \<Rightarrow> grid_data \<Rightarrow> tune_error + grid" where
  "make_grid stem data =
     and_then (read_knobs (dt_knobs data)) (\<lambda>knobs.
       if knobs = [] then Inl NoKnobs
       else let name = text_or (dt_id data) stem
       in Inr \<lparr>gr_name = name, gr_profile = text_or (dt_profile data) name, gr_knobs = knobs,
            gr_ordered = map (\<lambda>(var, spec). (var, case ks_ordered spec of None \<Rightarrow> True | Some b \<Rightarrow> b)) (dt_knobs data),
            gr_constraints = concat (map (\<lambda>e. case e of None \<Rightarrow> [] | Some x \<Rightarrow> if x = [] then [] else [x]) (dt_constraints data)),
            gr_scalars = dt_scalars data\<rparr>)"

type_synonym overrides = "(string \<times> string) list"

definition resolve_token :: "grid \<Rightarrow> string \<Rightarrow> overrides \<Rightarrow> (string \<times> scalar) list \<Rightarrow> numeric" where
  "resolve_token g token overrides profile_json =
     (let t = strip token
      in case map_of overrides t of
           Some v \<Rightarrow> numeric_of (SText v)
         | None \<Rightarrow> (case map_of (gr_scalars g) t of
             Some v \<Rightarrow> numeric_of v
           | None \<Rightarrow> (case (if prefix ''LLAMA_'' t then map_of profile_json (profile_key t) else None) of
               Some v \<Rightarrow> numeric_of v
             | None \<Rightarrow> numeric_of (SText t))))"

text \<open>\<open>expr.split(symbol, 1)\<close>, None when the symbol does not occur.\<close>

fun split_first :: "string \<Rightarrow> string \<Rightarrow> (string \<times> string) option" where
  "split_first symbol [] = (if symbol = [] then Some ([], []) else None)"
| "split_first symbol (c # cs) =
     (if prefix symbol (c # cs) then Some ([], drop (length symbol) (c # cs))
      else map_option (\<lambda>(l, r). (c # l, r)) (split_first symbol cs))"

fun first_comparison ::
  "string \<Rightarrow> (string \<times> (numeric \<Rightarrow> numeric \<Rightarrow> bool option)) list \<Rightarrow>
     ((numeric \<Rightarrow> numeric \<Rightarrow> bool option) \<times> string \<times> string) option" where
  "first_comparison expr [] = None"
| "first_comparison expr ((symbol, test) # rest) =
     (case split_first symbol expr of
        None \<Rightarrow> first_comparison expr rest
      | Some (l, r) \<Rightarrow> Some (test, l, r))"

fun violated_from :: "grid \<Rightarrow> overrides \<Rightarrow> (string \<times> scalar) list \<Rightarrow> string list \<Rightarrow> tune_error + string option" where
  "violated_from g overrides profile_json [] = Inr None"
| "violated_from g overrides profile_json (expr # rest) =
     (case first_comparison expr COMPARISONS of
        None \<Rightarrow> Inl (NoComparison expr)
      | Some (test, l, r) \<Rightarrow>
          (if test (resolve_token g l overrides profile_json) (resolve_token g r overrides profile_json) = Some False
           then Inr (Some expr) else violated_from g overrides profile_json rest))"

definition violated :: "grid \<Rightarrow> overrides \<Rightarrow> (string \<times> scalar) list \<Rightarrow> tune_error + string option" where
  "violated g overrides profile_json = violated_from g overrides profile_json (gr_constraints g)"

section \<open>Candidates\<close>

record candidate =
  cd_profile :: string
  cd_overrides :: overrides
  cd_stage :: string
  cd_baseline :: bool
  cd_predicted :: "string option"
  cd_config_id :: "string option"
  cd_sha :: string

definition new_candidate ::
  "(string \<Rightarrow> overrides \<Rightarrow> string) \<Rightarrow> string \<Rightarrow> (string \<times> scalar) list \<Rightarrow> string \<Rightarrow> bool \<Rightarrow> candidate" where
  "new_candidate sha profile overrides stage baseline =
     (let ov = map (\<lambda>(k, v). (k, py_str v)) (sort_key fst overrides)
      in \<lparr>cd_profile = profile, cd_overrides = ov, cd_stage = stage, cd_baseline = baseline,
          cd_predicted = None, cd_config_id = None, cd_sha = sha profile ov\<rparr>)"

datatype rejection =
    DenseMoe
  | ParallelInSpec
  | Constraint string
  | DuplicateOf string

definition infeasible_reason :: "candidate \<Rightarrow> grid \<Rightarrow> (string \<times> scalar) list \<Rightarrow> tune_error + rejection option" where
  "infeasible_reason cand g profile_json =
     (if map_of profile_json ''arch'' = Some (SText ''dense'') \<and>
         (case map_of (cd_overrides cand) ''LLAMA_MOE'' of None \<Rightarrow> False | Some m \<Rightarrow> m \<noteq> []) then Inr (Some DenseMoe)
      else if sublist ''--parallel'' (case map_of (cd_overrides cand) ''LLAMA_SPEC'' of None \<Rightarrow> [] | Some s \<Rightarrow> s)
      then Inr (Some ParallelInSpec)
      else and_then (violated g (cd_overrides cand) profile_json)
        (\<lambda>broken. Inr (case broken of None \<Rightarrow> None | Some e \<Rightarrow> if e = [] then None else Some (Constraint e))))"

text \<open>The state of a draw: the candidates kept, those rejected and why, the ids and hashes seen.\<close>

record draw_state =
  dr_chosen :: "candidate list"
  dr_rejected :: "(candidate \<times> rejection) list"
  dr_seen_config :: "string list"
  dr_seen_sha :: "string list"

text \<open>What both draws do with a candidate they come up with.\<close>

definition consider_candidate ::
  "(candidate \<Rightarrow> tune_error + string) \<Rightarrow> grid \<Rightarrow> (string \<times> scalar) list \<Rightarrow> candidate \<Rightarrow> draw_state \<Rightarrow>
     tune_error + draw_state" where
  "consider_candidate cfg g profile_json cand st =
     (if cd_sha cand \<in> set (dr_seen_sha st) then Inr st
      else let st1 = st\<lparr>dr_seen_sha := cd_sha cand # dr_seen_sha st\<rparr>
      in and_then (infeasible_reason cand g profile_json) (\<lambda>why.
        case why of
          Some r \<Rightarrow> Inr (st1\<lparr>dr_rejected := dr_rejected st1 @ [(cand, r)]\<rparr>)
        | None \<Rightarrow> and_then (cfg cand) (\<lambda>i.
            let cand1 = cand\<lparr>cd_predicted := Some i\<rparr>
            in if i \<in> set (dr_seen_config st1)
               then Inr (st1\<lparr>dr_rejected := dr_rejected st1 @ [(cand1, DuplicateOf i)]\<rparr>)
               else Inr (st1\<lparr>dr_seen_config := i # dr_seen_config st1, dr_chosen := dr_chosen st1 @ [cand1]\<rparr>))))"

definition sorted_knobs :: "grid \<Rightarrow> (string \<times> scalar list) list" where
  "sorted_knobs g = sort_key fst (gr_knobs g)"

definition pick :: "nat \<Rightarrow> 'a list \<Rightarrow> 'a" where
  "pick n xs = xs ! (n mod length xs)"

text \<open>Attempt \<open>i\<close> draws one number per knob, in the knobs' order.\<close>

definition drawn_overrides :: "grid \<Rightarrow> (nat \<Rightarrow> nat) \<Rightarrow> nat \<Rightarrow> (string \<times> scalar) list" where
  "drawn_overrides g rng i =
     with_index (\<lambda>j (k, values). (k, pick (rng (i * length (sorted_knobs g) + j)) values)) 0 (sorted_knobs g)"

fun sample_loop ::
  "(candidate \<Rightarrow> tune_error + string) \<Rightarrow> (string \<Rightarrow> overrides \<Rightarrow> string) \<Rightarrow> grid \<Rightarrow> (string \<times> scalar) list \<Rightarrow>
     nat \<Rightarrow> (nat \<Rightarrow> nat) \<Rightarrow> nat \<Rightarrow> nat \<Rightarrow> draw_state \<Rightarrow> tune_error + draw_state" where
  "sample_loop cfg sha g profile_json want rng i 0 st = Inr st"
| "sample_loop cfg sha g profile_json want rng i (Suc n) st =
     (if want \<le> length (dr_chosen st) then Inr st
      else and_then (consider_candidate cfg g profile_json
             (new_candidate sha (gr_profile g) (drawn_overrides g rng i) ''explore'' False) st)
        (sample_loop cfg sha g profile_json want rng (Suc i) n))"

definition sample_candidates ::
  "(candidate \<Rightarrow> tune_error + string) \<Rightarrow> (string \<Rightarrow> overrides \<Rightarrow> string) \<Rightarrow> grid \<Rightarrow> (string \<times> scalar) list \<Rightarrow>
     nat \<Rightarrow> (nat \<Rightarrow> nat) \<Rightarrow> tune_error + candidate list \<times> (candidate \<times> rejection) list" where
  "sample_candidates cfg sha g profile_json want rng =
     (let baseline = new_candidate sha (gr_profile g) [] ''explore'' True
      in and_then (cfg baseline) (\<lambda>i.
        let baseline1 = baseline\<lparr>cd_predicted := Some i\<rparr>
        in and_then (sample_loop cfg sha g profile_json want rng 0 (want * 200)
             \<lparr>dr_chosen = [baseline1], dr_rejected = [], dr_seen_config = [i], dr_seen_sha = [cd_sha baseline1]\<rparr>)
          (\<lambda>st. Inr (dr_chosen st, dr_rejected st))))"

text \<open>\<open>next((i for i, v in enumerate(values) if str(v) == str(current)), None)\<close>.\<close>

fun index_of :: "string \<Rightarrow> scalar list \<Rightarrow> nat option" where
  "index_of s [] = None"
| "index_of s (v # vs) = (if py_str v = s then Some 0 else map_option Suc (index_of s vs))"

definition neighbours :: "grid \<Rightarrow> string \<Rightarrow> scalar list \<Rightarrow> string \<Rightarrow> scalar list" where
  "neighbours g var values current =
     (if (case map_of (gr_ordered g) var of None \<Rightarrow> True | Some b \<Rightarrow> b)
      then (case index_of current values of
              None \<Rightarrow> values
            | Some i \<Rightarrow> (if 0 < i then [values ! (i - 1)] else []) @
                (if i + 1 < length values then [values ! (i + 1)] else []))
      else filter (\<lambda>v. py_str v \<noteq> current) values)"

text \<open>The value in force: the winner's override, else what the profile reports.\<close>

definition current_value :: "overrides \<Rightarrow> (string \<times> scalar) list \<Rightarrow> string \<Rightarrow> string" where
  "current_value base profile_json var = (case map_of base var of
       Some v \<Rightarrow> v
     | None \<Rightarrow> (case map_of profile_json (profile_key var) of Some v \<Rightarrow> py_str v | None \<Rightarrow> ''None''))"

definition neighbour_overrides ::
  "grid \<Rightarrow> (string \<times> scalar) list \<Rightarrow> overrides \<Rightarrow> (string \<times> scalar list) \<Rightarrow> (string \<times> scalar) list list" where
  "neighbour_overrides g profile_json base = (\<lambda>(var, values).
     map (\<lambda>v. AList.update var v (map (\<lambda>(k, s). (k, SText s)) base))
       (neighbours g var values (current_value base profile_json var)))"

fun consider_all ::
  "(candidate \<Rightarrow> tune_error + string) \<Rightarrow> grid \<Rightarrow> (string \<times> scalar) list \<Rightarrow> candidate list \<Rightarrow> draw_state \<Rightarrow>
     tune_error + draw_state" where
  "consider_all cfg g profile_json [] st = Inr st"
| "consider_all cfg g profile_json (c # cs) st =
     and_then (consider_candidate cfg g profile_json c st) (consider_all cfg g profile_json cs)"

definition kept_config :: "candidate \<Rightarrow> string list" where
  "kept_config c = (case (cd_config_id c, cd_predicted c) of
       (Some i, p) \<Rightarrow> if i \<noteq> [] then [i] else (case p of Some j \<Rightarrow> if j \<noteq> [] then [j] else [] | None \<Rightarrow> [])
     | (None, Some j) \<Rightarrow> if j \<noteq> [] then [j] else []
     | (None, None) \<Rightarrow> [])"

definition refine_candidates ::
  "(candidate \<Rightarrow> tune_error + string) \<Rightarrow> (string \<Rightarrow> overrides \<Rightarrow> string) \<Rightarrow> grid \<Rightarrow> (string \<times> scalar) list \<Rightarrow>
     candidate \<Rightarrow> candidate list \<Rightarrow> tune_error + candidate list \<times> (candidate \<times> rejection) list" where
  "refine_candidates cfg sha g profile_json winner keep =
     and_then (consider_all cfg g profile_json
       (map (\<lambda>ov. new_candidate sha (gr_profile g) ov ''refine'' False)
         (concat (map (neighbour_overrides g profile_json (cd_overrides winner)) (sorted_knobs g))))
       \<lparr>dr_chosen = keep, dr_rejected = [], dr_seen_config = concat (map kept_config keep),
        dr_seen_sha = map cd_sha keep\<rparr>)
     (\<lambda>st. Inr (dr_chosen st, dr_rejected st))"

section \<open>What a draw keeps\<close>

lemma infeasible_ignores_prediction [simp]:
  "infeasible_reason (c\<lparr>cd_predicted := p\<rparr>) g profile_json = infeasible_reason c g profile_json"
  by (simp add: infeasible_reason_def)

lemma consider_cases:
  assumes "consider_candidate cfg g profile_json cand st = Inr st'"
  obtains (seen) "cd_sha cand \<in> set (dr_seen_sha st)" "st' = st"
  | (rejected) "cd_sha cand \<notin> set (dr_seen_sha st)" "dr_chosen st' = dr_chosen st"
      "dr_seen_config st' = dr_seen_config st" "dr_seen_sha st' = cd_sha cand # dr_seen_sha st"
  | (kept) i where "cd_sha cand \<notin> set (dr_seen_sha st)" "infeasible_reason cand g profile_json = Inr None"
      "cfg cand = Inr i" "i \<notin> set (dr_seen_config st)" "dr_chosen st' = dr_chosen st @ [cand\<lparr>cd_predicted := Some i\<rparr>]"
      "dr_seen_config st' = i # dr_seen_config st" "dr_seen_sha st' = cd_sha cand # dr_seen_sha st"
proof (cases "cd_sha cand \<in> set (dr_seen_sha st)")
  case True
  then have "st' = st" using assms by (simp add: consider_candidate_def)
  with True show ?thesis by (rule that(1))
next
  case False
  obtain why where why: "infeasible_reason cand g profile_json = Inr why"
    using assms False by (cases "infeasible_reason cand g profile_json") (auto simp: consider_candidate_def Let_def)
  show ?thesis
  proof (cases why)
    case (Some r)
    then show ?thesis using assms False why that(2) by (auto simp: consider_candidate_def Let_def)
  next
    case None
    obtain i where i: "cfg cand = Inr i"
      using assms False why None by (cases "cfg cand") (auto simp: consider_candidate_def Let_def)
    show ?thesis
    proof (cases "i \<in> set (dr_seen_config st)")
      case True
      then show ?thesis using assms False why None i that(2) by (auto simp: consider_candidate_def Let_def)
    next
      case unseen: False
      then show ?thesis using assms False why None i that(3) [of i] by (auto simp: consider_candidate_def Let_def)
    qed
  qed
qed

text \<open>
  What a kept candidate is: of the draw's kind, feasible, its predicted id the one it would be
  served under.
\<close>

definition kept_ok ::
  "(candidate \<Rightarrow> tune_error + string) \<Rightarrow> grid \<Rightarrow> (string \<times> scalar) list \<Rightarrow> (candidate \<Rightarrow> bool) \<Rightarrow> candidate \<Rightarrow> bool" where
  "kept_ok cfg g profile_json P c \<longleftrightarrow>
     P (c\<lparr>cd_predicted := None\<rparr>) \<and> infeasible_reason c g profile_json = Inr None \<and>
     (\<exists>i. cd_predicted c = Some i \<and> cfg (c\<lparr>cd_predicted := None\<rparr>) = Inr i)"

definition draw_ok ::
  "(candidate \<Rightarrow> tune_error + string) \<Rightarrow> grid \<Rightarrow> (string \<times> scalar) list \<Rightarrow> (candidate \<Rightarrow> bool) \<Rightarrow>
     draw_state \<Rightarrow> draw_state \<Rightarrow> bool" where
  "draw_ok cfg g profile_json P st0 st \<longleftrightarrow>
     (\<exists>new. dr_chosen st = dr_chosen st0 @ new \<and> list_all (kept_ok cfg g profile_json P) new \<and>
        distinct (map cd_predicted new) \<and> distinct (map cd_sha new) \<and>
        cd_predicted ` set new \<subseteq> Some ` (set (dr_seen_config st) - set (dr_seen_config st0)) \<and>
        cd_sha ` set new \<subseteq> set (dr_seen_sha st) - set (dr_seen_sha st0)) \<and>
     set (dr_seen_config st0) \<subseteq> set (dr_seen_config st) \<and> set (dr_seen_sha st0) \<subseteq> set (dr_seen_sha st)"

lemma draw_ok_refl: "draw_ok cfg g profile_json P st st"
  by (simp add: draw_ok_def)

lemma draw_ok_consider:
  assumes "draw_ok cfg g profile_json P st0 st" and "P cand" and "cd_predicted cand = None"
    and run: "consider_candidate cfg g profile_json cand st = Inr st'"
  shows "draw_ok cfg g profile_json P st0 st'"
proof -
  obtain new where new: "dr_chosen st = dr_chosen st0 @ new" "list_all (kept_ok cfg g profile_json P) new"
      "distinct (map cd_predicted new)" "distinct (map cd_sha new)"
      "cd_predicted ` set new \<subseteq> Some ` (set (dr_seen_config st) - set (dr_seen_config st0))"
      "cd_sha ` set new \<subseteq> set (dr_seen_sha st) - set (dr_seen_sha st0)"
    and seen: "set (dr_seen_config st0) \<subseteq> set (dr_seen_config st)" "set (dr_seen_sha st0) \<subseteq> set (dr_seen_sha st)"
    using assms(1) by (auto simp: draw_ok_def)
  from run show ?thesis
  proof (cases rule: consider_cases)
    case seen
    then show ?thesis using assms(1) by simp
  next
    case rejected
    then show ?thesis unfolding draw_ok_def using new seen by (intro conjI exI [of _ new]) auto
  next
    case (kept i)
    let ?c = "cand\<lparr>cd_predicted := Some i\<rparr>"
    have "cand\<lparr>cd_predicted := None\<rparr> = cand" using assms(3) by simp
    then have ok: "kept_ok cfg g profile_json P ?c" using kept assms(2) by (simp add: kept_ok_def)
    have fresh: "Some i \<notin> cd_predicted ` set new" "cd_sha cand \<notin> cd_sha ` set new"
      using new(5,6) kept(1,4) by auto
    show ?thesis
      unfolding draw_ok_def
    proof (intro conjI exI [of _ "new @ [?c]"])
      show "list_all (kept_ok cfg g profile_json P) (new @ [?c])" using new(2) ok by simp
      show "distinct (map cd_predicted (new @ [?c]))" "distinct (map cd_sha (new @ [?c]))"
        using new(3,4) fresh by simp_all
    qed (use new seen kept in auto)
  qed
qed

lemma draw_ok_consider_all:
  "draw_ok cfg g profile_json P st0 st \<Longrightarrow> list_all (\<lambda>c. P c \<and> cd_predicted c = None) cs \<Longrightarrow>
   consider_all cfg g profile_json cs st = Inr st' \<Longrightarrow> draw_ok cfg g profile_json P st0 st'"
proof (induction cs arbitrary: st)
  case (Cons c cs)
  then obtain st1 where "consider_candidate cfg g profile_json c st = Inr st1" "consider_all cfg g profile_json cs st1 = Inr st'"
    by (auto simp: and_then_Inr)
  then show ?case using Cons.IH [of st1] Cons.prems draw_ok_consider [of cfg g profile_json P st0 st c] by simp
qed simp

lemma new_candidate_fields [simp]:
  "cd_predicted (new_candidate sha p ov s b) = None" "cd_stage (new_candidate sha p ov s b) = s"
  "cd_profile (new_candidate sha p ov s b) = p" "cd_baseline (new_candidate sha p ov s b) = b"
  by (simp_all add: new_candidate_def Let_def)

text \<open>A point of the grid: every knob, in order, with one of its values.\<close>

definition grid_point :: "grid \<Rightarrow> (string \<times> scalar) list \<Rightarrow> bool" where
  "grid_point g ov \<longleftrightarrow> map fst ov = map fst (sorted_knobs g) \<and>
     list_all2 (\<lambda>(k, v) (k', values). v \<in> set values) ov (sorted_knobs g)"

definition grid_ok :: "grid \<Rightarrow> bool" where
  "grid_ok g \<longleftrightarrow> list_all (\<lambda>(k, values). values \<noteq> []) (gr_knobs g)"

lemma with_index_point:
  assumes "list_all (\<lambda>(k, values). values \<noteq> []) ks"
  shows "map fst (with_index (\<lambda>j (k, values). (k, pick (f j) values)) n ks) = map fst ks \<and>
     list_all2 (\<lambda>(k, v) (k', values). v \<in> set values) (with_index (\<lambda>j (k, values). (k, pick (f j) values)) n ks) ks"
  using assms
proof (induction ks arbitrary: n)
  case (Cons kv ks)
  then show ?case by (cases kv) (simp add: pick_def nth_mem)
qed simp

lemma drawn_is_point: "grid_ok g \<Longrightarrow> grid_point g (drawn_overrides g rng i)"
  unfolding grid_point_def drawn_overrides_def
  by (rule with_index_point) (simp add: grid_ok_def sorted_knobs_def list_all_iff)

lemma sample_loop_ok:
  "grid_ok g \<Longrightarrow> draw_ok cfg g profile_json P st0 st \<Longrightarrow>
   (\<And>i. P (new_candidate sha (gr_profile g) (drawn_overrides g rng i) ''explore'' False)) \<Longrightarrow>
   sample_loop cfg sha g profile_json want rng i n st = Inr st' \<Longrightarrow>
   draw_ok cfg g profile_json P st0 st' \<and> length (dr_chosen st') \<le> max want (length (dr_chosen st))"
proof (induction n arbitrary: i st)
  case (Suc n)
  show ?case
  proof (cases "want \<le> length (dr_chosen st)")
    case True
    then show ?thesis using Suc.prems by simp
  next
    case False
    let ?c = "new_candidate sha (gr_profile g) (drawn_overrides g rng i) ''explore'' False"
    obtain st1 where st1: "consider_candidate cfg g profile_json ?c st = Inr st1"
        "sample_loop cfg sha g profile_json want rng (Suc i) n st1 = Inr st'"
      using Suc.prems(4) False by (auto simp: and_then_Inr)
    have "draw_ok cfg g profile_json P st0 st1"
      by (rule draw_ok_consider [OF Suc.prems(2) Suc.prems(3) _ st1(1)]) simp
    moreover have "length (dr_chosen st1) \<le> Suc (length (dr_chosen st))"
      using st1(1) by (cases rule: consider_cases) auto
    ultimately show ?thesis using Suc.IH [OF Suc.prems(1) _ Suc.prems(3) st1(2)] False by auto
  qed
qed simp

text \<open>
  The explore draw starts with the baseline, never returns more candidates than asked for
  (the baseline apart), and every other one is a feasible point of the whole grid; no two would
  be served under the same configuration and no two have the same hash.
\<close>

theorem sample_candidates_sound:
  assumes "grid_ok g" and "sample_candidates cfg sha g profile_json want rng = Inr (chosen, rejected)"
  shows "length chosen \<le> max want 1 \<and> distinct (map cd_predicted chosen) \<and> distinct (map cd_sha chosen) \<and>
     (\<exists>i rest. chosen = (new_candidate sha (gr_profile g) [] ''explore'' True)\<lparr>cd_predicted := Some i\<rparr> # rest \<and>
        cfg (new_candidate sha (gr_profile g) [] ''explore'' True) = Inr i \<and>
        list_all (kept_ok cfg g profile_json (\<lambda>c. \<exists>ov. grid_point g ov \<and>
           c = new_candidate sha (gr_profile g) ov ''explore'' False)) rest)"
proof -
  let ?b = "new_candidate sha (gr_profile g) [] ''explore'' True"
  let ?P = "\<lambda>c. \<exists>ov. grid_point g ov \<and> c = new_candidate sha (gr_profile g) ov ''explore'' False"
  obtain i st where i: "cfg ?b = Inr i"
    and st: "sample_loop cfg sha g profile_json want rng 0 (want * 200)
        \<lparr>dr_chosen = [?b\<lparr>cd_predicted := Some i\<rparr>], dr_rejected = [], dr_seen_config = [i], dr_seen_sha = [cd_sha ?b]\<rparr> = Inr st"
      "chosen = dr_chosen st"
    using assms(2) by (auto simp: sample_candidates_def Let_def and_then_Inr)
  have "draw_ok cfg g profile_json ?P \<lparr>dr_chosen = [?b\<lparr>cd_predicted := Some i\<rparr>], dr_rejected = [], dr_seen_config = [i],
       dr_seen_sha = [cd_sha ?b]\<rparr> st \<and> length (dr_chosen st) \<le> max want 1"
    using sample_loop_ok [OF assms(1) draw_ok_refl _ st(1), of ?P] drawn_is_point [OF assms(1)] by auto
  then obtain rest where "dr_chosen st = ?b\<lparr>cd_predicted := Some i\<rparr> # rest" "length (dr_chosen st) \<le> max want 1"
      "list_all (kept_ok cfg g profile_json ?P) rest" "distinct (map cd_predicted rest)" "distinct (map cd_sha rest)"
      "cd_predicted ` set rest \<subseteq> Some ` (set (dr_seen_config st) - {i})"
      "cd_sha ` set rest \<subseteq> set (dr_seen_sha st) - {cd_sha ?b}"
    by (auto simp: draw_ok_def)
  then show ?thesis using i st(2) by auto
qed

definition tiny_grid :: grid where
  "tiny_grid = \<lparr>gr_name = ''t'', gr_profile = ''t'', gr_knobs = [(''LLAMA_THREADS'', [SInt 4, SInt 8])],
     gr_ordered = [], gr_constraints = [], gr_scalars = []\<rparr>"

definition tiny_cfg :: "candidate \<Rightarrow> tune_error + string" where
  "tiny_cfg c = Inr (cd_sha c)"

definition tiny_sha :: "string \<Rightarrow> overrides \<Rightarrow> string" where
  "tiny_sha p ov = concat (map snd ov)"

theorem sample_candidates_sound_witness:
  "\<exists>chosen rejected. sample_candidates tiny_cfg tiny_sha tiny_grid [] 1 (\<lambda>_. 0) = Inr (chosen, rejected) \<and>
     length chosen \<le> 1 \<and> distinct (map cd_sha chosen)"
proof -
  have ok: "grid_ok tiny_grid" by (simp add: grid_ok_def tiny_grid_def)
  obtain ch rj where run: "sample_candidates tiny_cfg tiny_sha tiny_grid [] 1 (\<lambda>_. 0) = Inr (ch, rj)"
    by (simp add: sample_candidates_def Let_def tiny_cfg_def numeral_eq_Suc)
  then show ?thesis using sample_candidates_sound [OF ok run] by auto
qed

section \<open>Refinement\<close>

lemma index_of_Some: "index_of s vs = Some i \<Longrightarrow> i < length vs \<and> py_str (vs ! i) = s"
  by (induction vs arbitrary: i) (auto split: if_splits)

text \<open>
  A value of a knob next to the one in force: the one before or after it in the declared order,
  any other value of an unordered knob, any value at all when the one in force is not declared.
\<close>

definition adjacent :: "grid \<Rightarrow> string \<Rightarrow> scalar list \<Rightarrow> string \<Rightarrow> scalar \<Rightarrow> bool" where
  "adjacent g var values current v \<longleftrightarrow> v \<in> set values \<and>
     (if map_of (gr_ordered g) var = Some False then py_str v \<noteq> current
      else case index_of current values of None \<Rightarrow> True
         | Some i \<Rightarrow> \<exists>j. j < length values \<and> v = values ! j \<and> (Suc j = i \<or> j = Suc i))"

lemma neighbours_adjacent: "v \<in> set (neighbours g var values current) \<longleftrightarrow> adjacent g var values current v"
proof (cases "map_of (gr_ordered g) var = Some False")
  case True
  then show ?thesis by (auto simp: neighbours_def adjacent_def)
next
  case False
  then have ordered: "(case map_of (gr_ordered g) var of None \<Rightarrow> True | Some b \<Rightarrow> b)"
    by (cases "map_of (gr_ordered g) var") auto
  show ?thesis
  proof (cases "index_of current values")
    case None
    then show ?thesis using False ordered by (simp add: neighbours_def adjacent_def)
  next
    case (Some i)
    then have i: "i < length values" using index_of_Some by blast
    have "v \<in> set (neighbours g var values current) \<longleftrightarrow>
        (0 < i \<and> v = values ! (i - 1)) \<or> (i + 1 < length values \<and> v = values ! (i + 1))"
      using Some ordered by (auto simp: neighbours_def)
    also have "\<dots> \<longleftrightarrow> (\<exists>j. j < length values \<and> v = values ! j \<and> (Suc j = i \<or> j = Suc i))"
    proof
      assume "(0 < i \<and> v = values ! (i - 1)) \<or> (i + 1 < length values \<and> v = values ! (i + 1))"
      then show "\<exists>j. j < length values \<and> v = values ! j \<and> (Suc j = i \<or> j = Suc i)"
      proof
        assume "0 < i \<and> v = values ! (i - 1)"
        then show ?thesis using i by (intro exI [of _ "i - 1"]) simp
      qed (auto intro: exI [of _ "Suc i"])
    qed (use i in auto)
    finally show ?thesis using Some False by (auto simp: adjacent_def)
  qed
qed

text \<open>One step away from the winner: its overrides with one knob moved to an adjacent value.\<close>

definition one_step ::
  "(string \<Rightarrow> overrides \<Rightarrow> string) \<Rightarrow> grid \<Rightarrow> (string \<times> scalar) list \<Rightarrow> candidate \<Rightarrow> candidate \<Rightarrow> bool" where
  "one_step sha g profile_json winner c \<longleftrightarrow>
     (\<exists>var values v. (var, values) \<in> set (gr_knobs g) \<and>
        adjacent g var values (current_value (cd_overrides winner) profile_json var) v \<and>
        c = new_candidate sha (gr_profile g)
              (AList.update var v (map (\<lambda>(k, s). (k, SText s)) (cd_overrides winner))) ''refine'' False)"

text \<open>
  The refine draw keeps the given candidates, and everything it adds is feasible, one step
  away from the winner along one knob, and would be served under a configuration no kept or
  other added candidate has.
\<close>

theorem refine_candidates_sound:
  assumes "refine_candidates cfg sha g profile_json winner keep = Inr (out, rejected)"
  shows "\<exists>new. out = keep @ new \<and> list_all (kept_ok cfg g profile_json (one_step sha g profile_json winner)) new \<and>
     distinct (map cd_predicted new) \<and> distinct (map cd_sha new) \<and>
     cd_predicted ` set new \<inter> Some ` set (concat (map kept_config keep)) = {} \<and>
     cd_sha ` set new \<inter> cd_sha ` set keep = {}"
proof -
  let ?st0 = "\<lparr>dr_chosen = keep, dr_rejected = [], dr_seen_config = concat (map kept_config keep), dr_seen_sha = map cd_sha keep\<rparr>"
  let ?cs = "map (\<lambda>ov. new_candidate sha (gr_profile g) ov ''refine'' False)
      (concat (map (neighbour_overrides g profile_json (cd_overrides winner)) (sorted_knobs g)))"
  obtain st where st: "consider_all cfg g profile_json ?cs ?st0 = Inr st" "out = dr_chosen st"
    using assms by (auto simp: refine_candidates_def and_then_Inr)
  have "one_step sha g profile_json winner c" if mem: "c \<in> set ?cs" for c
  proof -
    obtain var vs v where "(var, vs) \<in> set (gr_knobs g)"
        "adjacent g var vs (current_value (cd_overrides winner) profile_json var) v"
        "c = new_candidate sha (gr_profile g)
           (AList.update var v (map (\<lambda>(k, s). (k, SText s)) (cd_overrides winner))) ''refine'' False"
      using mem by (auto simp: neighbour_overrides_def neighbours_adjacent sorted_knobs_def)
    then show ?thesis unfolding one_step_def by blast
  qed
  moreover have "cd_predicted c = None" if "c \<in> set ?cs" for c using that by auto
  ultimately have "list_all (\<lambda>c. one_step sha g profile_json winner c \<and> cd_predicted c = None) ?cs"
    unfolding list_all_iff by blast
  from draw_ok_consider_all [OF draw_ok_refl this st(1)]
  obtain new where "dr_chosen st = keep @ new" "list_all (kept_ok cfg g profile_json (one_step sha g profile_json winner)) new"
      "distinct (map cd_predicted new)" "distinct (map cd_sha new)"
      "cd_predicted ` set new \<subseteq> Some ` (set (dr_seen_config st) - set (concat (map kept_config keep)))"
      "cd_sha ` set new \<subseteq> set (dr_seen_sha st) - set (map cd_sha keep)"
    unfolding draw_ok_def by auto
  then show ?thesis using st(2) by (intro exI [of _ new]) auto
qed

theorem refine_candidates_sound_witness:
  "\<exists>out rejected. refine_candidates tiny_cfg tiny_sha tiny_grid [] (new_candidate tiny_sha ''t'' [(''LLAMA_THREADS'', SInt 4)] ''explore'' False)
     [new_candidate tiny_sha ''t'' [] ''explore'' True] = Inr (out, rejected) \<and>
     (\<exists>new. out = new_candidate tiny_sha ''t'' [] ''explore'' True # new \<and> distinct (map cd_sha new))"
proof -
  let ?w = "new_candidate tiny_sha ''t'' [(''LLAMA_THREADS'', SInt 4)] ''explore'' False"
  let ?keep = "[new_candidate tiny_sha ''t'' [] ''explore'' True]"
  have total: "\<exists>st'. consider_candidate tiny_cfg tiny_grid [] c st = Inr st'" for c st
    by (simp add: consider_candidate_def Let_def tiny_cfg_def infeasible_reason_def violated_def tiny_grid_def
        split: option.split)
  have all: "\<exists>st'. consider_all tiny_cfg tiny_grid [] cs st = Inr st'" for cs st
  proof (induction cs arbitrary: st)
    case (Cons c cs)
    obtain st1 where "consider_candidate tiny_cfg tiny_grid [] c st = Inr st1" using total by blast
    then show ?case using Cons.IH [of st1] by simp
  qed simp
  obtain out rj where run: "refine_candidates tiny_cfg tiny_sha tiny_grid [] ?w ?keep = Inr (out, rj)"
  proof -
    obtain st where "consider_all tiny_cfg tiny_grid []
       (map (\<lambda>ov. new_candidate tiny_sha (gr_profile tiny_grid) ov ''refine'' False)
         (concat (map (neighbour_overrides tiny_grid [] (cd_overrides ?w)) (sorted_knobs tiny_grid))))
       \<lparr>dr_chosen = ?keep, dr_rejected = [], dr_seen_config = concat (map kept_config ?keep),
        dr_seen_sha = map cd_sha ?keep\<rparr> = Inr st" using all by blast
    then have "refine_candidates tiny_cfg tiny_sha tiny_grid [] ?w ?keep = Inr (dr_chosen st, dr_rejected st)"
      by (simp only: refine_candidates_def and_then_simps)
    then show ?thesis using that by blast
  qed
  then show ?thesis using refine_candidates_sound [OF run] by auto
qed

end
