(* ===== verification/TuneStats.thy ===== *)
theory TuneStats
  imports Complex_Main Prelude
begin

text \<open>
  The statistics behind the sweep's elimination rule
  (\<open>benchmarks/tuning/tune_schedule.py\<close>): the median, the paired log ratios and the sign test.
  A float is the real number it stands for; \<open>math.log\<close> is the natural logarithm.
\<close>

section \<open>Definitions\<close>

definition median :: "real list \<Rightarrow> real option" where
  "median vals =
     (if vals = [] then None
      else let ordered = sort vals; mid = length ordered div 2
      in if length ordered mod 2 \<noteq> 0 then Some (ordered ! mid)
         else Some ((ordered ! (mid - 1) + ordered ! mid) / 2))"

text \<open>The generation speed a visit recorded for a served item, None when the run reported none.\<close>

type_synonym matrix = "(string \<times> string) \<times> string \<Rightarrow> real option option"

definition log_ratio :: "matrix \<Rightarrow> string \<times> string \<Rightarrow> string \<Rightarrow> string \<Rightarrow> real option" where
  "log_ratio matrix key candidate baseline =
     (case (matrix (key, candidate), matrix (key, baseline)) of
        (Some (Some ta), Some (Some tb)) \<Rightarrow> if ta > 0 \<and> tb > 0 then Some (ln (ta / tb)) else None
      | _ \<Rightarrow> None)"

definition log_ratios :: "matrix \<Rightarrow> string \<Rightarrow> string \<Rightarrow> (string \<times> string) list \<Rightarrow> real list" where
  "log_ratios matrix candidate baseline items =
     concat (map (\<lambda>key. case log_ratio matrix key candidate baseline of None \<Rightarrow> [] | Some r \<Rightarrow> [r]) items)"

definition paired_log_ratio_differences ::
  "matrix \<Rightarrow> string \<Rightarrow> string \<Rightarrow> string \<Rightarrow> (string \<times> string) list \<Rightarrow> real list" where
  "paired_log_ratio_differences matrix first second baseline items =
     concat (map (\<lambda>key. case (log_ratio matrix key first baseline, log_ratio matrix key second baseline) of
         (Some a, Some b) \<Rightarrow> [a - b]
       | _ \<Rightarrow> []) items)"

definition sign_test :: "real list \<Rightarrow> real \<times> nat" where
  "sign_test vals =
     (let nonzero = filter (\<lambda>v. v \<noteq> 0) vals; n = length nonzero
      in if n = 0 then (1, 0)
         else let k0 = length (filter (\<lambda>v. v > 0) nonzero);
                  k = min k0 (n - k0);
                  tail = (\<Sum>i\<le>k. n choose i)
         in (min 1 (2 * real tail / 2 ^ n), n))"

section \<open>The median\<close>

lemma count_below_sorted:
  assumes "sorted xs" and "i < length xs"
  shows "length (filter (\<lambda>x. x < xs ! i) xs) \<le> i" and "length (filter (\<lambda>x. xs ! i < x) xs) \<le> length xs - Suc i"
proof -
  have split: "xs = take i xs @ xs ! i # drop (Suc i) xs" using assms(2) by (rule id_take_nth_drop)
  have ge: "xs ! i \<le> x" if "x \<in> set (drop (Suc i) xs)" for x
    using that assms by (auto simp: in_set_conv_nth sorted_iff_nth_mono)
  have le: "x \<le> xs ! i" if "x \<in> set (take i xs)" for x
    using that assms by (auto simp: in_set_conv_nth sorted_iff_nth_mono)
  have "filter (\<lambda>x. x < xs ! i) (drop (Suc i) xs) = []" using ge by (auto simp: filter_empty_conv not_less)
  then have "length (filter (\<lambda>x. x < xs ! i) xs) = length (filter (\<lambda>x. x < xs ! i) (take i xs))"
    by (subst split) simp
  also have "\<dots> \<le> i" using length_filter_le [of "\<lambda>x. x < xs ! i" "take i xs"] by simp
  finally show "length (filter (\<lambda>x. x < xs ! i) xs) \<le> i" .
  have "filter (\<lambda>x. xs ! i < x) (take i xs) = []" using le by (auto simp: filter_empty_conv not_less)
  then have "length (filter (\<lambda>x. xs ! i < x) xs) = length (filter (\<lambda>x. xs ! i < x) (drop (Suc i) xs))"
    by (subst split) simp
  also have "\<dots> \<le> length xs - Suc i" using length_filter_le [of "\<lambda>x. xs ! i < x" "drop (Suc i) xs"] by simp
  finally show "length (filter (\<lambda>x. xs ! i < x) xs) \<le> length xs - Suc i" .
qed

lemma length_filter_sort: "length (filter P (sort xs)) = length (filter P (xs :: real list))"
  by (metis filter_sort length_sort)

lemma length_filter_mono: "(\<And>x. P x \<Longrightarrow> Q x) \<Longrightarrow> length (filter P xs) \<le> length (filter Q xs)"
  by (induction xs) auto

text \<open>
  The median of a nonempty list is defined, at most half of the values lie strictly below it
  and at most half strictly above: fewer than half of the items, however extreme, cannot move
  it past the rest.
\<close>

theorem median_splits:
  assumes "vals \<noteq> []"
  shows "\<exists>m. median vals = Some m \<and> 2 * length (filter (\<lambda>v. v < m) vals) \<le> length vals \<and>
     2 * length (filter (\<lambda>v. m < v) vals) \<le> length vals \<and> Min (set vals) \<le> m \<and> m \<le> Max (set vals)"
proof -
  define xs where "xs = sort vals"
  define n where "n = length vals"
  have n: "n = length xs" "0 < n" "sorted xs" "set xs = set vals" using assms by (simp_all add: xs_def n_def)
  have bound: "Min (set vals) \<le> xs ! i" "xs ! i \<le> Max (set vals)" if "i < n" for i
    using that n(1,4) by (auto intro: Min_le Max_ge simp: nth_mem simp flip: n(4))
  have filt: "length (filter P vals) = length (filter P xs)" for P by (simp add: xs_def length_filter_sort)
  show ?thesis
  proof (cases "odd n")
    case True
    let ?i = "n div 2"
    have i: "?i < n" "2 * ?i \<le> n" "2 * (n - Suc ?i) \<le> n" using n(2) True by auto
    have "median vals = Some (xs ! ?i)"
      using assms True by (simp add: median_def Let_def xs_def n_def odd_iff_mod_2_eq_one)
    moreover have "2 * length (filter (\<lambda>v. v < xs ! ?i) xs) \<le> n" "2 * length (filter (\<lambda>v. xs ! ?i < v) xs) \<le> n"
      using count_below_sorted [OF n(3), of ?i] i n(1) by linarith+
    ultimately show ?thesis
      using bound [OF i(1)] unfolding filt n_def [symmetric] by blast
  next
    case False
    let ?a = "xs ! (n div 2 - 1)" and ?b = "xs ! (n div 2)"
    have i: "0 < n div 2" "n div 2 < n" "2 * (n div 2) = n" using n(2) False by (auto elim: evenE)
    have ab: "?a \<le> ?b" using n(1,3) i by (auto simp: sorted_iff_nth_mono)
    have med: "median vals = Some ((?a + ?b) / 2)"
      using assms False by (simp add: median_def Let_def xs_def n_def even_iff_mod_2_eq_zero)
    have "length (filter (\<lambda>v. v < (?a + ?b) / 2) xs) \<le> length (filter (\<lambda>v. v < ?b) xs)"
      using ab by (intro length_filter_mono) auto
    also have "\<dots> \<le> n div 2" using count_below_sorted(1) [OF n(3), of "n div 2"] i n(1) by simp
    finally have lo: "2 * length (filter (\<lambda>v. v < (?a + ?b) / 2) xs) \<le> n" using i(3) by simp
    have "length (filter (\<lambda>v. (?a + ?b) / 2 < v) xs) \<le> length (filter (\<lambda>v. ?a < v) xs)"
      using ab by (intro length_filter_mono) auto
    also have "\<dots> \<le> n - Suc (n div 2 - 1)" using count_below_sorted(2) [OF n(3), of "n div 2 - 1"] i n(1) by simp
    finally have hi: "2 * length (filter (\<lambda>v. (?a + ?b) / 2 < v) xs) \<le> n" using i by linarith
    have "Min (set vals) \<le> (?a + ?b) / 2" "(?a + ?b) / 2 \<le> Max (set vals)"
    proof -
      have "n div 2 - 1 < n" using i by linarith
      then show "Min (set vals) \<le> (?a + ?b) / 2" "(?a + ?b) / 2 \<le> Max (set vals)"
        using bound [of "n div 2 - 1"] bound [of "n div 2"] i(2) by auto
    qed
    then show ?thesis using med lo hi unfolding filt n_def [symmetric] by blast
  qed
qed

theorem median_splits_witness:
  "\<exists>m. median [3, 1, 1000] = Some m \<and> 2 * length (filter (\<lambda>v. m < v) [3, 1, 1000 :: real]) \<le> 3"
proof -
  have "length [3, 1, 1000 :: real] = 3" by simp
  then show ?thesis using median_splits [of "[3, 1, 1000]"] by (metis list.distinct(1))
qed

section \<open>Paired log ratios\<close>

text \<open>
  Each paired difference compares the two candidates directly: on every item all three
  served, in order, it is the log of the first's speed over the second's, whatever the
  baseline's speed was; a slowdown that hits all arms of an item by the same factor changes
  nothing.
\<close>

theorem paired_differences_compare_directly:
  assumes "\<And>key. key \<in> set items \<Longrightarrow> c key > 0"
    and "\<And>key x. key \<in> set items \<Longrightarrow> slowed (key, x) = map_option (map_option (\<lambda>t. c key * t)) (matrix (key, x))"
  shows "paired_log_ratio_differences slowed first second baseline items
       = paired_log_ratio_differences matrix first second baseline items \<and>
     paired_log_ratio_differences matrix first second baseline items =
       concat (map (\<lambda>key. case (matrix (key, first), matrix (key, second), matrix (key, baseline)) of
           (Some (Some tf), Some (Some ts), Some (Some tb)) \<Rightarrow>
             if tf > 0 \<and> ts > 0 \<and> tb > 0 then [ln (tf / ts)] else []
         | _ \<Rightarrow> []) items)"
proof
  have same: "log_ratio slowed key x baseline = log_ratio matrix key x baseline" if "key \<in> set items" for key x
  proof -
    have c: "c key > 0" using assms(1) that by blast
    have "c key * a / (c key * b) = a / b" for a b using c by simp
    moreover have "c key * a > 0 \<longleftrightarrow> a > 0" for a using c by (simp add: zero_less_mult_iff)
    ultimately show ?thesis
      unfolding log_ratio_def assms(2) [OF that] by (auto split: option.split)
  qed
  show "paired_log_ratio_differences slowed first second baseline items
      = paired_log_ratio_differences matrix first second baseline items"
    unfolding paired_log_ratio_differences_def using same by (intro arg_cong [of _ _ concat] map_cong) simp_all
  have one: "(case (log_ratio matrix key first baseline, log_ratio matrix key second baseline) of
         (Some a, Some b) \<Rightarrow> [a - b] | _ \<Rightarrow> []) =
      (case (matrix (key, first), matrix (key, second), matrix (key, baseline)) of
           (Some (Some tf), Some (Some ts), Some (Some tb)) \<Rightarrow>
             if tf > 0 \<and> ts > 0 \<and> tb > 0 then [ln (tf / ts)] else []
         | _ \<Rightarrow> [])" for key
    by (auto simp: log_ratio_def ln_div split: option.split)
  show "paired_log_ratio_differences matrix first second baseline items =
       concat (map (\<lambda>key. case (matrix (key, first), matrix (key, second), matrix (key, baseline)) of
           (Some (Some tf), Some (Some ts), Some (Some tb)) \<Rightarrow>
             if tf > 0 \<and> ts > 0 \<and> tb > 0 then [ln (tf / ts)] else []
         | _ \<Rightarrow> []) items)"
    unfolding paired_log_ratio_differences_def one ..
qed

theorem paired_differences_compare_directly_witness:
  "paired_log_ratio_differences (\<lambda>_. Some (Some (2 * 5))) ''a'' ''b'' ''base'' [(''d'', ''1'')]
     = paired_log_ratio_differences (\<lambda>_. Some (Some 5)) ''a'' ''b'' ''base'' [(''d'', ''1'')]"
  by (rule paired_differences_compare_directly [of _ "\<lambda>_. 2", THEN conjunct1]) simp_all

section \<open>The sign test is exact\<close>

text \<open>How many of the \<open>2 ^ n\<close> ways of signing \<open>n\<close> differences are as lopsided as the observed one.\<close>

definition signings :: "nat \<Rightarrow> bool list set" where
  "signings n = {bs. length bs = n}"

definition positives :: "bool list \<Rightarrow> nat" where
  "positives bs = length (filter (\<lambda>b. b) bs)"

lemma signings_Suc: "signings (Suc n) = (#) True ` signings n \<union> (#) False ` signings n"
proof (intro equalityI subsetI)
  fix bs assume "bs \<in> signings (Suc n)"
  then obtain b cs where "bs = b # cs" "length cs = n" by (auto simp: signings_def length_Suc_conv)
  then show "bs \<in> (#) True ` signings n \<union> (#) False ` signings n" by (cases b) (auto simp: signings_def)
qed (auto simp: signings_def)

lemma finite_signings: "finite (signings n)"
  unfolding signings_def using finite_lists_length_eq [of "UNIV :: bool set" n] by simp

lemma card_positives: "card {bs \<in> signings n. positives bs = i} = n choose i"
proof (induction n arbitrary: i)
  case 0
  have "{bs \<in> signings 0. positives bs = i} = (if i = 0 then {[]} else {})"
    by (auto simp: signings_def positives_def)
  then show ?case by simp
next
  case (Suc n)
  have split: "{bs \<in> signings (Suc n). positives bs = i} =
      (#) True ` {bs \<in> signings n. Suc (positives bs) = i} \<union> (#) False ` {bs \<in> signings n. positives bs = i}"
    by (auto simp: signings_Suc positives_def)
  have "card {bs \<in> signings (Suc n). positives bs = i} =
      card {bs \<in> signings n. Suc (positives bs) = i} + card {bs \<in> signings n. positives bs = i}"
    unfolding split using finite_signings [of n]
    by (subst card_Un_disjoint) (auto simp: card_image inj_on_def)
  also have "\<dots> = Suc n choose i"
    using Suc.IH by (cases i) simp_all
  finally show ?case .
qed

lemma card_at_most: "card {bs \<in> signings n. positives bs \<le> k} = (\<Sum>i\<le>k. n choose i)"
proof -
  have "{bs \<in> signings n. positives bs \<le> k} = (\<Union>i\<in>{..k}. {bs \<in> signings n. positives bs = i})" by auto
  moreover have "card (\<Union>i\<in>{..k}. {bs \<in> signings n. positives bs = i}) =
      (\<Sum>i\<le>k. card {bs \<in> signings n. positives bs = i})"
    using finite_signings [of n] by (intro card_UN_disjoint) auto
  ultimately show ?thesis by (simp only: card_positives)
qed

lemma positives_le: "positives bs \<le> length bs"
  by (simp add: positives_def)

lemma positives_flip: "positives (map Not bs) = length bs - positives bs"
  by (induction bs) (auto simp: positives_def Suc_diff_le)

lemma card_at_least:
  assumes "k \<le> n"
  shows "card {bs \<in> signings n. n - positives bs \<le> k} = (\<Sum>i\<le>k. n choose i)"
proof -
  have "bij_betw (map Not) {bs \<in> signings n. positives bs \<le> k} {bs \<in> signings n. n - positives bs \<le> k}"
  proof (rule bij_betw_byWitness [where f' = "map Not"])
    show "map Not ` {bs \<in> signings n. positives bs \<le> k} \<subseteq> {bs \<in> signings n. n - positives bs \<le> k}"
    proof clarify
      fix bs assume "bs \<in> signings n" "positives bs \<le> k"
      then show "map Not bs \<in> signings n \<and> n - positives (map Not bs) \<le> k"
        using positives_le [of bs] by (simp add: signings_def positives_flip)
    qed
    show "map Not ` {bs \<in> signings n. n - positives bs \<le> k} \<subseteq> {bs \<in> signings n. positives bs \<le> k}"
    proof clarify
      fix bs assume "bs \<in> signings n" "n - positives bs \<le> k"
      then show "map Not bs \<in> signings n \<and> positives (map Not bs) \<le> k"
        by (simp add: signings_def positives_flip)
    qed
  qed (simp_all add: comp_def)
  from bij_betw_same_card [OF this] show ?thesis by (simp only: card_at_most)
qed

lemma card_signings: "card (signings n) = 2 ^ n"
  by (simp add: signings_def card_lists_length_eq [of "UNIV :: bool set", simplified])

text \<open>
  The returned p is the exact two-sided one: with \<open>n\<close> nonzero differences of which the rarer
  sign has \<open>k\<close>, it is the share of all \<open>2 ^ n\<close> signings whose rarer sign is no more frequent
  than that; and it does not depend on which candidate was called first.
\<close>

theorem sign_test_exact:
  fixes vals :: "real list"
  defines "nz \<equiv> filter (\<lambda>v. v \<noteq> 0) vals"
  defines "k \<equiv> min (length (filter (\<lambda>v. v > 0) nz)) (length nz - length (filter (\<lambda>v. v > 0) nz))"
  shows "sign_test vals =
      (real (card {bs \<in> signings (length nz). min (positives bs) (length nz - positives bs) \<le> k}) / 2 ^ length nz, length nz) \<and>
     sign_test (map uminus vals) = sign_test vals"
proof
  let ?n = "length nz"
  let ?lo = "{bs \<in> signings ?n. positives bs \<le> k}" and ?hi = "{bs \<in> signings ?n. ?n - positives bs \<le> k}"
  have n: "?n = length (filter (\<lambda>v. v \<noteq> 0) vals)" by (simp add: nz_def)
  have k: "2 * k \<le> ?n" by (auto simp: k_def)
  have un: "{bs \<in> signings ?n. min (positives bs) (?n - positives bs) \<le> k} = ?lo \<union> ?hi" by auto
  have fin: "finite ?lo" "finite ?hi" using finite_signings by auto
  have le: "positives bs \<le> ?n" if "bs \<in> signings ?n" for bs
    using that positives_le [of bs] by (simp add: signings_def)
  show "sign_test vals = (real (card {bs \<in> signings ?n. min (positives bs) (?n - positives bs) \<le> k}) / 2 ^ ?n, ?n)"
  proof (cases "?n = 0")
    case True
    then have "{bs \<in> signings ?n. min (positives bs) (?n - positives bs) \<le> k} = {[]}"
      by (auto simp: signings_def positives_def)
    then show ?thesis using True by (simp add: sign_test_def nz_def Let_def)
  next
    case False
    have st: "sign_test vals = (min 1 (2 * real (\<Sum>i\<le>k. ?n choose i) / 2 ^ ?n), ?n)"
      using False by (simp add: sign_test_def Let_def nz_def [symmetric] k_def)
    show ?thesis
    proof (cases "2 * k < ?n")
      case True
      have "?lo \<inter> ?hi = {}" using True by auto
      then have "card (?lo \<union> ?hi) = 2 * (\<Sum>i\<le>k. ?n choose i)"
        using fin k by (simp add: card_Un_disjoint card_at_most card_at_least)
      moreover have "card (?lo \<union> ?hi) \<le> 2 ^ ?n"
        unfolding card_signings [symmetric] by (rule card_mono [OF finite_signings]) auto
      ultimately have "real (2 * (\<Sum>i\<le>k. ?n choose i)) \<le> real (2 ^ ?n)"
          "real (card (?lo \<union> ?hi)) = real (2 * (\<Sum>i\<le>k. ?n choose i))"
        by (simp_all only: of_nat_le_iff)
      then have "2 * real (\<Sum>i\<le>k. ?n choose i) \<le> 2 ^ ?n" "real (card (?lo \<union> ?hi)) = 2 * real (\<Sum>i\<le>k. ?n choose i)"
        by (simp_all only: of_nat_mult of_nat_numeral of_nat_power)
      then show ?thesis unfolding st un by simp
    next
      case False
      then have eq: "2 * k = ?n" using k by simp
      have "?lo \<union> ?hi = signings ?n" using eq by auto
      then have "card (?lo \<union> ?hi) = 2 ^ ?n" by (simp add: card_signings)
      moreover have "card (?lo \<union> ?hi) \<le> card ?lo + card ?hi" by (rule card_Un_le)
      ultimately have "2 ^ ?n \<le> 2 * (\<Sum>i\<le>k. ?n choose i)" using k by (simp add: card_at_most card_at_least)
      then have "real (2 ^ ?n) \<le> real (2 * (\<Sum>i\<le>k. ?n choose i))" by (simp only: of_nat_le_iff)
      then have "(2 :: real) ^ ?n \<le> 2 * real (\<Sum>i\<le>k. ?n choose i)"
        by (simp only: of_nat_mult of_nat_numeral of_nat_power)
      then show ?thesis unfolding st un using \<open>card (?lo \<union> ?hi) = 2 ^ ?n\<close> by simp
    qed
  qed
  have nz': "filter (\<lambda>v. v \<noteq> 0) (map uminus vals) = map uminus nz"
    by (simp add: nz_def filter_map comp_def)
  have "length (filter (\<lambda>v. v > 0) (map uminus nz)) = ?n - length (filter (\<lambda>v. v > 0) nz)"
  proof -
    have "\<forall>v \<in> set nz. v < 0 \<longleftrightarrow> \<not> v > 0" by (auto simp: nz_def)
    then have "filter (\<lambda>v. v < 0) nz = filter (\<lambda>v. \<not> v > 0) nz" by (intro filter_cong) auto
    then show ?thesis using sum_length_filter_compl [of "\<lambda>v. v > 0" nz] by (simp add: filter_map comp_def)
  qed
  moreover have "length (filter (\<lambda>v. v > 0) nz) \<le> ?n" by simp
  ultimately show "sign_test (map uminus vals) = sign_test vals"
    unfolding sign_test_def Let_def nz' nz_def [symmetric] by (simp add: min.commute)
qed

end
