(* ===== verification/AnthropicStream.thy ===== *)
theory AnthropicStream
  imports PyJson
begin

text \<open>
  The conversion of an OpenAI chat stream into an Anthropic message stream
  (\<open>utils/anthropic.py\<close>, from \<open>_STREAM_STOP_REASONS\<close> on). An event is a value of a datatype, not
  yet serialised to its SSE frame. A generator method is an action: it takes the converter,
  and gives the events it yielded, the converter it left, and its result or the exception that
  ended it, so a chunk that fails part-way keeps what it yielded and changed before. The JSON
  parser (\<open>JSONCodec.loads\<close>) and the source of uuids are arguments. A chunk is its decoded text.
\<close>

section \<open>Events and the converter\<close>

datatype block = ThinkingBlock | TextBlock | ToolUseBlock json json

datatype delta = ThinkingDelta json | TextDelta json | InputJsonDelta string

datatype event =
    MessageStart string string json
  | BlockStart int block
  | BlockDelta int delta
  | BlockStop int
  | MessageDelta string dict
  | MessageStop

record tool =
  tl_id :: json
  tl_name :: json
  tl_arguments :: string
  tl_block :: int
  tl_started :: bool
  tl_stopped :: bool

record converter =
  cv_message_id :: string
  cv_model :: string
  cv_input_tokens :: json
  cv_output_tokens :: json
  cv_cache_creation :: json
  cv_cache_read :: json
  cv_output_details :: json
  cv_server_tool_use :: json
  cv_service_tier :: json
  cv_stop_reason :: string
  cv_index :: int
  cv_thinking :: bool
  cv_text :: bool
  cv_tools :: "(json \<times> tool) list"
  cv_index_to_id :: "(json \<times> json) list"
  cv_has_tools :: bool
  cv_uuids :: nat

definition new_converter :: "string \<Rightarrow> string \<Rightarrow> json \<Rightarrow> converter" where
  "new_converter mid model input_tokens =
     \<lparr>cv_message_id = mid, cv_model = model, cv_input_tokens = input_tokens, cv_output_tokens = JInt 0,
      cv_cache_creation = JNull, cv_cache_read = JNull, cv_output_details = JNull, cv_server_tool_use = JNull,
      cv_service_tier = JNull, cv_stop_reason = ''end_turn'', cv_index = 0, cv_thinking = False, cv_text = False,
      cv_tools = [], cv_index_to_id = [], cv_has_tools = False, cv_uuids = 0\<rparr>"

definition message_start :: "converter \<Rightarrow> event" where
  "message_start c = MessageStart (cv_message_id c) (cv_model c) (py_or (cv_input_tokens c) (JInt 0))"

text \<open>\<open>_STREAM_STOP_REASONS.get(finish_reason, 'end_turn')\<close>; a list or dict key raises.\<close>

definition stream_stop_reason :: "json \<Rightarrow> py_error + string" where
  "stream_stop_reason r =
     (if \<not> hashable r then Inl TypeError
      else Inr (if r = JStr ''length'' then ''max_tokens'' else if r = JStr ''tool_calls'' then ''tool_use'' else ''end_turn''))"

section \<open>Actions\<close>

type_synonym 'a act = "converter \<Rightarrow> event list \<times> converter \<times> (py_error + 'a)"

definition done_with :: "'a \<Rightarrow> 'a act" where
  "done_with x c = ([], c, Inr x)"

definition attempt :: "py_error + 'a \<Rightarrow> 'a act" where
  "attempt r c = ([], c, r)"

definition followed_by :: "'a act \<Rightarrow> ('a \<Rightarrow> 'b act) \<Rightarrow> 'b act" where
  "followed_by m f c =
     (case m c of
        (es, c1, Inl e) \<Rightarrow> (es, c1, Inl e)
      | (es, c1, Inr x) \<Rightarrow> (case f x c1 of (es', c2, r) \<Rightarrow> (es @ es', c2, r)))"

fun for_each :: "('a \<Rightarrow> unit act) \<Rightarrow> 'a list \<Rightarrow> unit act" where
  "for_each f [] = done_with ()"
| "for_each f (x # xs) = followed_by (f x) (\<lambda>_. for_each f xs)"

section \<open>Reading a chunk\<close>

datatype chunk = TextChunk string | OtherChunk

text \<open>The lines of a chunk that parse, in order.\<close>

definition parse_line :: "(string \<Rightarrow> json option) \<Rightarrow> string \<Rightarrow> json list" where
  "parse_line loads raw =
     (let line = strip_text raw
      in if line = [] \<or> \<not> prefix ''data:'' line then []
         else let body = strip_text (drop 5 line)
         in if body \<in> {''[DONE]'', ''{}''} then []
            else case loads body of None \<Rightarrow> [] | Some v \<Rightarrow> [v])"

definition parse_openai_sse_chunk :: "(string \<Rightarrow> json option) \<Rightarrow> chunk \<Rightarrow> json list" where
  "parse_openai_sse_chunk loads ch =
     (case ch of
        OtherChunk \<Rightarrow> []
      | TextChunk s \<Rightarrow> concat (map (parse_line loads) (split_on (CHR 0x0A) (strip_text s))))"

text \<open>\<open>a.get(k1) or a.get(k2) or ...\<close>: the first truthy value, else the last one.\<close>

fun first_truthy :: "dict \<Rightarrow> string list \<Rightarrow> json" where
  "first_truthy d [] = JNull"
| "first_truthy d [k] = get d k"
| "first_truthy d (k # ks) = py_or (get d k) (first_truthy d ks)"

fun reasoning_in_blocks :: "json \<Rightarrow> json list \<Rightarrow> json" where
  "reasoning_in_blocks r [] = r"
| "reasoning_in_blocks r (b # bs) =
     (if is_dict b
      then let r' = first_truthy (as_dict b) [''thinking'', ''content'', ''text'']
           in if truthy r' then r' else reasoning_in_blocks r' bs
      else reasoning_in_blocks r bs)"

definition stream_reasoning_text :: "json \<Rightarrow> json \<Rightarrow> py_error + json" where
  "stream_reasoning_text delta message =
     (if \<not> is_dict delta then Inl AttributeError
      else let own = first_truthy (as_dict delta) [''reasoning_content'', ''reasoning'', ''thinking'']
      in if truthy own then Inr own
      else if \<not> is_dict message then Inl AttributeError
      else let r = first_truthy (as_dict message) [''reasoning_content'', ''reasoning'']
      in if truthy r then Inr r
      else and_then (py_iter (py_or (get (as_dict delta) ''thinking_blocks'')
               (py_or (get (as_dict message) ''thinking_blocks'') (JArr []))))
             (\<lambda>bs. Inr (reasoning_in_blocks r bs)))"

section \<open>The converter's methods\<close>

fun as_number :: "json \<Rightarrow> py_error + int" where
  "as_number (JInt i) = Inr i"
| "as_number (JBool b) = Inr (if b then 1 else 0)"
| "as_number _ = Inl TypeError"

text \<open>\<open>max(prompt_tokens - (cache_creation or 0) - (cache_read or 0), 0)\<close>.\<close>

definition uncached_tokens :: "json \<Rightarrow> json \<Rightarrow> json \<Rightarrow> py_error + json" where
  "uncached_tokens prompt creation read =
     and_then (as_number prompt) (\<lambda>p. and_then (as_number (py_or creation (JInt 0))) (\<lambda>a.
       and_then (as_number (py_or read (JInt 0))) (\<lambda>b. Inr (JInt (max (p - a - b) 0)))))"

definition if_given :: "json \<Rightarrow> json \<Rightarrow> json" where
  "if_given new old = (if new = JNull then old else new)"

definition if_dict :: "json \<Rightarrow> json \<Rightarrow> json" where
  "if_dict new old = (if is_dict new then new else old)"

definition cache_read_of :: "dict \<Rightarrow> json" where
  "cache_read_of u =
     (let r = get u ''cache_read_input_tokens''; details = get u ''prompt_tokens_details''
      in if r = JNull \<and> is_dict details then get (as_dict details) ''cached_tokens'' else r)"

definition usage_input_of :: "dict \<Rightarrow> py_error + json" where
  "usage_input_of u =
     (if get u ''input_tokens'' \<noteq> JNull then Inr (get u ''input_tokens'')
      else if get u ''prompt_tokens'' \<noteq> JNull
      then uncached_tokens (get u ''prompt_tokens'') (get u ''cache_creation_input_tokens'') (cache_read_of u)
      else Inr JNull)"

definition usage_output_of :: "dict \<Rightarrow> json" where
  "usage_output_of u = (if get u ''output_tokens'' \<noteq> JNull then get u ''output_tokens'' else get u ''completion_tokens'')"

definition update_usage :: "json \<Rightarrow> unit act" where
  "update_usage usage c =
     (case usage of
        JObj u \<Rightarrow> (case usage_input_of u of
            Inl e \<Rightarrow> ([], c, Inl e)
          | Inr input \<Rightarrow> ([], c\<lparr>cv_input_tokens := if_given input (cv_input_tokens c),
              cv_output_tokens := if_given (usage_output_of u) (cv_output_tokens c),
              cv_cache_creation := if_given (get u ''cache_creation_input_tokens'') (cv_cache_creation c),
              cv_cache_read := if_given (cache_read_of u) (cv_cache_read c),
              cv_output_details := if_dict (get u ''output_tokens_details'') (cv_output_details c),
              cv_server_tool_use := if_dict (get u ''server_tool_use'') (cv_server_tool_use c),
              cv_service_tier := if_given (get u ''service_tier'') (cv_service_tier c)\<rparr>, Inr ()))
      | _ \<Rightarrow> ([], c, Inr ()))"

definition emit_reasoning :: "json \<Rightarrow> unit act" where
  "emit_reasoning content c =
     (if \<not> truthy content \<or> cv_text c \<or> cv_has_tools c then ([], c, Inr ())
      else ((if cv_thinking c then [] else [BlockStart (cv_index c) ThinkingBlock])
              @ [BlockDelta (cv_index c) (ThinkingDelta content)], c\<lparr>cv_thinking := True\<rparr>, Inr ()))"

definition close_thinking :: "unit act" where
  "close_thinking c =
     (if cv_thinking c then ([BlockStop (cv_index c)], c\<lparr>cv_thinking := False, cv_index := cv_index c + 1\<rparr>, Inr ())
      else ([], c, Inr ()))"

definition close_text :: "unit act" where
  "close_text c =
     (if cv_text c then ([BlockStop (cv_index c)], c\<lparr>cv_text := False, cv_index := cv_index c + 1\<rparr>, Inr ())
      else ([], c, Inr ()))"

definition open_text :: "json \<Rightarrow> unit act" where
  "open_text content c =
     ((if cv_text c then [] else [BlockStart (cv_index c) TextBlock]) @ [BlockDelta (cv_index c) (TextDelta content)],
      c\<lparr>cv_text := True\<rparr>, Inr ())"

definition emit_text :: "json \<Rightarrow> unit act" where
  "emit_text content c =
     (if \<not> truthy content \<or> cv_has_tools c then ([], c, Inr ())
      else followed_by close_thinking (\<lambda>_. open_text content) c)"

text \<open>A dict key: \<open>True\<close> and \<open>1\<close> are the same key, as are \<open>False\<close> and \<open>0\<close>.\<close>

fun dict_key :: "json \<Rightarrow> json" where
  "dict_key (JBool b) = JInt (if b then 1 else 0)"
| "dict_key v = v"

definition new_tool :: "json \<Rightarrow> json \<Rightarrow> tool" where
  "new_tool tid name = \<lparr>tl_id = tid, tl_name = name, tl_arguments = [], tl_block = - 1, tl_started = False, tl_stopped = False\<rparr>"

text \<open>\<open>_tracked_tool\<close>: the key of the tracked call this delta belongs to.\<close>

definition track_id :: "json \<Rightarrow> json \<Rightarrow> json \<Rightarrow> json act" where
  "track_id index name tool_id c =
     (if \<not> hashable tool_id then ([], c, Inl TypeError)
      else let key = dict_key tool_id;
               c1 = (if map_of (cv_tools c) key = None
                     then c\<lparr>cv_tools := AList.update key (new_tool tool_id name) (cv_tools c)\<rparr> else c)
      in if \<not> hashable index then ([], c1, Inl TypeError)
         else ([], c1\<lparr>cv_index_to_id := AList.update (dict_key index) key (cv_index_to_id c1)\<rparr>, Inr key))"

definition tracked_tool :: "(nat \<Rightarrow> string) \<Rightarrow> json \<Rightarrow> json \<Rightarrow> json \<Rightarrow> json act" where
  "tracked_tool uuid index tid name c =
     (if truthy tid then track_id index name tid c
      else if \<not> hashable index then ([], c, Inl TypeError)
      else case map_of (cv_index_to_id c) (dict_key index) of
        Some key \<Rightarrow> ([], c, Inr key)
      | None \<Rightarrow> track_id index name (JStr (''toolu_'' @ uuid (cv_uuids c))) (c\<lparr>cv_uuids := Suc (cv_uuids c)\<rparr>))"

text \<open>An operation on the tracked call itself, which every method after the look-up works on.\<close>

definition with_tool :: "json \<Rightarrow> (tool \<Rightarrow> event list \<times> tool) \<Rightarrow> unit act" where
  "with_tool key f c =
     (case map_of (cv_tools c) key of
        None \<Rightarrow> ([], c, Inl KeyError)
      | Some t \<Rightarrow> (case f t of (es, t') \<Rightarrow> (es, c\<lparr>cv_tools := AList.update key t' (cv_tools c)\<rparr>, Inr ())))"

definition name_tool :: "json \<Rightarrow> tool \<Rightarrow> event list \<times> tool" where
  "name_tool name t = ([], if truthy name \<and> \<not> truthy (tl_name t) then t\<lparr>tl_name := name\<rparr> else t)"

definition arguments_complete :: "(string \<Rightarrow> json option) \<Rightarrow> string \<Rightarrow> bool" where
  "arguments_complete loads a \<longleftrightarrow>
     \<not> ((rstrip a = [] \<or> last (rstrip a) \<noteq> CHR ''}'') \<and> (lstrip a \<noteq> [] \<and> hd (lstrip a) = CHR ''{'')) \<and> loads a \<noteq> None"

definition close_tool_if_complete :: "(string \<Rightarrow> json option) \<Rightarrow> tool \<Rightarrow> event list \<times> tool" where
  "close_tool_if_complete loads t =
     (if \<not> tl_started t \<or> tl_stopped t then ([], t)
      else if \<not> arguments_complete loads (tl_arguments t) then ([], t)
      else ([BlockStop (tl_block t)], t\<lparr>tl_stopped := True\<rparr>))"

definition start_tool :: "json \<Rightarrow> unit act" where
  "start_tool key c =
     (case map_of (cv_tools c) key of
        None \<Rightarrow> ([], c, Inl KeyError)
      | Some t \<Rightarrow>
          ([BlockStart (cv_index c) (ToolUseBlock (tl_id t) (tl_name t))],
           c\<lparr>cv_tools := AList.update key (t\<lparr>tl_block := cv_index c, tl_started := True\<rparr>) (cv_tools c),
             cv_has_tools := True, cv_index := cv_index c + 1\<rparr>, Inr ()))"

definition send_buffered :: "(string \<Rightarrow> json option) \<Rightarrow> tool \<Rightarrow> event list \<times> tool" where
  "send_buffered loads t =
     (if tl_arguments t = [] then ([], t)
      else case close_tool_if_complete loads t of
        (es, t') \<Rightarrow> (BlockDelta (tl_block t) (InputJsonDelta (tl_arguments t)) # es, t'))"

definition add_arguments :: "(string \<Rightarrow> json option) \<Rightarrow> string \<Rightarrow> tool \<Rightarrow> event list \<times> tool" where
  "add_arguments loads piece t =
     (let t1 = t\<lparr>tl_arguments := tl_arguments t @ piece\<rparr>;
          sent = (if tl_started t1 \<and> \<not> tl_stopped t1 then [BlockDelta (tl_block t1) (InputJsonDelta piece)] else [])
      in case close_tool_if_complete loads t1 of (es, t2) \<Rightarrow> (sent @ es, t2))"

definition needs_start :: "converter \<Rightarrow> json \<Rightarrow> bool" where
  "needs_start c key \<longleftrightarrow> (case map_of (cv_tools c) key of None \<Rightarrow> False | Some t \<Rightarrow> \<not> tl_started t \<and> truthy (tl_name t))"

definition tool_body :: "(string \<Rightarrow> json option) \<Rightarrow> json \<Rightarrow> json \<Rightarrow> json \<Rightarrow> unit act" where
  "tool_body loads name arguments key =
     followed_by (with_tool key (name_tool name)) (\<lambda>_.
     followed_by (\<lambda>c. if needs_start c key
        then followed_by (start_tool key) (\<lambda>_. with_tool key (send_buffered loads)) c else done_with () c) (\<lambda>_.
     if \<not> truthy arguments then done_with ()
     else case arguments of
         JStr piece \<Rightarrow> with_tool key (add_arguments loads piece)
       | _ \<Rightarrow> attempt (Inl TypeError)))"

definition tool_call :: "(nat \<Rightarrow> string) \<Rightarrow> (string \<Rightarrow> json option) \<Rightarrow> json \<Rightarrow> unit act" where
  "tool_call uuid loads tc =
     followed_by (attempt (get_attr tc ''function'' JNull)) (\<lambda>fn0.
     let fn = py_or fn0 (JObj [])
     in followed_by (attempt (get_attr fn ''name'' (JStr []))) (\<lambda>name.
     followed_by (attempt (get_attr fn ''arguments'' (JStr []))) (\<lambda>arguments.
     followed_by (tracked_tool uuid (get_or (as_dict tc) ''index'' (JInt 0)) (get_or (as_dict tc) ''id'' (JStr [])) name)
       (tool_body loads name arguments))))"

text \<open>\<open>choices[0]\<close>.\<close>

fun first_item :: "json \<Rightarrow> py_error + json" where
  "first_item (JArr (x # xs)) = Inr x"
| "first_item (JStr (c # cs)) = Inr (JStr [c])"
| "first_item (JObj d) = Inl KeyError"
| "first_item _ = Inl TypeError"

definition set_stop_reason :: "json \<Rightarrow> unit act" where
  "set_stop_reason r c =
     (if r = JNull then ([], c, Inr ())
      else case stream_stop_reason r of
        Inl e \<Rightarrow> ([], c, Inl e)
      | Inr s \<Rightarrow> ([], c\<lparr>cv_stop_reason := s\<rparr>, Inr ()))"

definition handle_tools :: "(nat \<Rightarrow> string) \<Rightarrow> (string \<Rightarrow> json option) \<Rightarrow> json \<Rightarrow> json \<Rightarrow> unit act" where
  "handle_tools uuid loads delta message =
     followed_by (attempt (get_attr delta ''tool_calls'' JNull)) (\<lambda>t0.
     followed_by (if truthy t0 then done_with t0
                  else followed_by (attempt (get_attr message ''tool_calls'' JNull))
                         (\<lambda>t1. done_with (if truthy t1 then t1 else JArr []))) (\<lambda>calls.
     if \<not> truthy calls then done_with ()
     else followed_by close_thinking (\<lambda>_. followed_by close_text (\<lambda>_.
          followed_by (attempt (py_iter calls)) (for_each (tool_call uuid loads))))))"

definition handle_choice :: "(nat \<Rightarrow> string) \<Rightarrow> (string \<Rightarrow> json option) \<Rightarrow> json \<Rightarrow> unit act" where
  "handle_choice uuid loads choice =
     followed_by (attempt (get_attr choice ''delta'' (JObj []))) (\<lambda>delta.
     let finish_reason = get (as_dict choice) ''finish_reason'';
         message = py_or (get (as_dict choice) ''message'') (JObj [])
     in followed_by (attempt (stream_reasoning_text delta message)) (\<lambda>r.
     followed_by (emit_reasoning r) (\<lambda>_.
     followed_by (attempt (get_attr delta ''content'' JNull)) (\<lambda>content.
     followed_by (emit_text content) (\<lambda>_.
     followed_by (handle_tools uuid loads delta message) (\<lambda>_. set_stop_reason finish_reason))))))"

definition handle :: "(nat \<Rightarrow> string) \<Rightarrow> (string \<Rightarrow> json option) \<Rightarrow> json \<Rightarrow> unit act" where
  "handle uuid loads data =
     followed_by (attempt (get_attr data ''usage'' JNull)) (\<lambda>usage.
     followed_by (update_usage usage) (\<lambda>_.
     let choices = get_or (as_dict data) ''choices'' (JArr [])
     in if \<not> truthy choices then done_with ()
        else followed_by (attempt (first_item choices)) (handle_choice uuid loads)))"

text \<open>The end of the message: what is open is closed.\<close>

definition final_usage :: "converter \<Rightarrow> dict" where
  "final_usage c = (''output_tokens'', cv_output_tokens c) # filter (\<lambda>(k, v). v \<noteq> JNull)
     [(''input_tokens'', cv_input_tokens c), (''cache_creation_input_tokens'', cv_cache_creation c),
      (''cache_read_input_tokens'', cv_cache_read c), (''output_tokens_details'', cv_output_details c),
      (''server_tool_use'', cv_server_tool_use c), (''service_tier'', cv_service_tier c)]"

definition open_tool_stops :: "converter \<Rightarrow> event list" where
  "open_tool_stops c =
     map (\<lambda>(k, t). BlockStop (tl_block t)) (filter (\<lambda>(k, t). tl_started t \<and> \<not> tl_stopped t) (cv_tools c))"

definition close_message :: "converter \<Rightarrow> event list" where
  "close_message c =
     (let i = (if cv_thinking c then cv_index c + 1 else cv_index c)
      in (if cv_thinking c then [BlockStop (cv_index c)] else []) @ (if cv_text c then [BlockStop i] else [])
         @ open_tool_stops c @ [MessageDelta (cv_stop_reason c) (final_usage c), MessageStop])"

text \<open>
  The conversion of a source stream: the chunks it delivers before it ends or fails, which
  make no difference here. A chunk that raises keeps its events and its changes.
\<close>

fun handle_all :: "(nat \<Rightarrow> string) \<Rightarrow> (string \<Rightarrow> json option) \<Rightarrow> json list \<Rightarrow> converter \<Rightarrow> event list \<times> converter" where
  "handle_all uuid loads [] c = ([], c)"
| "handle_all uuid loads (d # ds) c =
     (case handle uuid loads d c of
        (es, c1, r) \<Rightarrow> (case handle_all uuid loads ds c1 of (es', c2) \<Rightarrow> (es @ es', c2)))"

definition openai_stream_to_anthropic_stream ::
  "(nat \<Rightarrow> string) \<Rightarrow> (string \<Rightarrow> json option) \<Rightarrow> string \<Rightarrow> string \<Rightarrow> json \<Rightarrow> chunk list \<Rightarrow> event list" where
  "openai_stream_to_anthropic_stream uuid loads mid model input_tokens chunks =
     (let c0 = new_converter mid model input_tokens
      in case handle_all uuid loads (concat (map (parse_openai_sse_chunk loads) chunks)) c0 of
           (es, c) \<Rightarrow> message_start c0 # es @ close_message c)"

section \<open>Well-formed message streams\<close>

text \<open>
  What a client checks: block indices count up from 0, a delta goes to an open block of its
  kind, a stop to an open block. The checker also adds up the argument pieces of each block.
\<close>

datatype kind = ThinkingKind | TextKind | ToolKind

fun block_kind :: "block \<Rightarrow> kind" where
  "block_kind ThinkingBlock = ThinkingKind"
| "block_kind TextBlock = TextKind"
| "block_kind (ToolUseBlock i n) = ToolKind"

fun delta_kind :: "delta \<Rightarrow> kind" where
  "delta_kind (ThinkingDelta v) = ThinkingKind"
| "delta_kind (TextDelta v) = TextKind"
| "delta_kind (InputJsonDelta s) = ToolKind"

fun piece_of :: "delta \<Rightarrow> string" where
  "piece_of (InputJsonDelta s) = s"
| "piece_of _ = []"

record client =
  cl_next :: int
  cl_open :: "int \<Rightarrow> kind option"
  cl_sent :: "int \<Rightarrow> string"

definition new_client :: client where
  "new_client = \<lparr>cl_next = 0, cl_open = (\<lambda>_. None), cl_sent = (\<lambda>_. [])\<rparr>"

fun receive :: "client \<Rightarrow> event \<Rightarrow> client option" where
  "receive k (BlockStart i b) =
     (if i = cl_next k then Some (k\<lparr>cl_next := i + 1, cl_open := (cl_open k)(i \<mapsto> block_kind b)\<rparr>) else None)"
| "receive k (BlockDelta i d) =
     (if cl_open k i = Some (delta_kind d) then Some (k\<lparr>cl_sent := (cl_sent k)(i := cl_sent k i @ piece_of d)\<rparr>) else None)"
| "receive k (BlockStop i) =
     (if cl_open k i \<noteq> None then Some (k\<lparr>cl_open := (cl_open k)(i := None)\<rparr>) else None)"
| "receive k _ = None"

fun receive_all :: "client \<Rightarrow> event list \<Rightarrow> client option" where
  "receive_all k [] = Some k"
| "receive_all k (e # es) = (case receive k e of None \<Rightarrow> None | Some k' \<Rightarrow> receive_all k' es)"

lemma receive_all_append:
  "receive_all k (es @ es') = (case receive_all k es of None \<Rightarrow> None | Some k' \<Rightarrow> receive_all k' es')"
  by (induction es arbitrary: k) (auto split: option.split)

text \<open>A whole stream: the start, a body that leaves no block open, the two closing events.\<close>

definition well_formed_stream :: "event list \<Rightarrow> bool" where
  "well_formed_stream es \<longleftrightarrow> (\<exists>mid model n body reason usage k.
     es = MessageStart mid model n # body @ [MessageDelta reason usage, MessageStop] \<and>
     receive_all new_client body = Some k \<and> (\<forall>i. cl_open k i = None))"

text \<open>What the client knows of a converter: the invariant of every method.\<close>

definition tool_open :: "converter \<Rightarrow> int \<Rightarrow> bool" where
  "tool_open c i \<longleftrightarrow> (\<exists>key t. map_of (cv_tools c) key = Some t \<and> tl_started t \<and> \<not> tl_stopped t \<and> tl_block t = i)"

definition open_at :: "converter \<Rightarrow> int \<Rightarrow> kind option" where
  "open_at c i =
     (if cv_thinking c \<and> i = cv_index c then Some ThinkingKind
      else if cv_text c \<and> i = cv_index c then Some TextKind
      else if tool_open c i then Some ToolKind else None)"

definition tool_in_step :: "(string \<Rightarrow> json option) \<Rightarrow> client \<Rightarrow> tool \<Rightarrow> bool" where
  "tool_in_step loads k t \<longleftrightarrow>
     (if tl_stopped t then tl_started t \<and> prefix (cl_sent k (tl_block t)) (tl_arguments t) \<and>
        arguments_complete loads (cl_sent k (tl_block t))
      else tl_started t \<longrightarrow> cl_sent k (tl_block t) = tl_arguments t)"

definition in_step :: "(string \<Rightarrow> json option) \<Rightarrow> converter \<Rightarrow> client \<Rightarrow> bool" where
  "in_step loads c k \<longleftrightarrow>
     cl_next k = (if cv_thinking c \<or> cv_text c then cv_index c + 1 else cv_index c) \<and>
     cl_open k = open_at c \<and> \<not> (cv_thinking c \<and> cv_text c) \<and>
     distinct (map fst (cv_tools c)) \<and>
     (\<forall>key t. map_of (cv_tools c) key = Some t \<longrightarrow> (tl_started t \<longrightarrow> tl_block t < cv_index c) \<and> tool_in_step loads k t) \<and>
     (\<forall>key t key' t'. map_of (cv_tools c) key = Some t \<longrightarrow> map_of (cv_tools c) key' = Some t' \<longrightarrow>
        tl_started t \<longrightarrow> tl_started t' \<longrightarrow> tl_block t = tl_block t' \<longrightarrow> key = key') \<and>
     (\<forall>i \<ge> cl_next k. cl_sent k i = [])"

text \<open>A method run under a precondition keeps the client in step and, unless it raises, ensures more.\<close>

definition keeps ::
  "(string \<Rightarrow> json option) \<Rightarrow> (converter \<Rightarrow> bool) \<Rightarrow> 'a act \<Rightarrow> ('a \<Rightarrow> converter \<Rightarrow> bool) \<Rightarrow> bool" where
  "keeps loads P m Q \<longleftrightarrow> (\<forall>c k. in_step loads c k \<longrightarrow> P c \<longrightarrow>
     (case m c of (es, c', r) \<Rightarrow> (\<exists>k'. receive_all k es = Some k' \<and> in_step loads c' k') \<and>
        (case r of Inl e \<Rightarrow> True | Inr x \<Rightarrow> Q x c')))"

lemma keepsD:
  assumes "keeps loads P m Q" "in_step loads c k" "P c" "m c = (es, c', r)"
  shows "\<exists>k'. receive_all k es = Some k' \<and> in_step loads c' k' \<and> (\<forall>x. r = Inr x \<longrightarrow> Q x c')"
proof -
  have "(\<exists>k'. receive_all k es = Some k' \<and> in_step loads c' k') \<and> (case r of Inl e \<Rightarrow> True | Inr x \<Rightarrow> Q x c')"
    using assms(1) [unfolded keeps_def, rule_format, OF assms(2,3)] assms(4) by simp
  then show ?thesis by (cases r) auto
qed

lemma keeps_intro:
  assumes "\<And>c k es c' r. in_step loads c k \<Longrightarrow> P c \<Longrightarrow> m c = (es, c', r) \<Longrightarrow>
      (\<exists>k'. receive_all k es = Some k' \<and> in_step loads c' k') \<and> (\<forall>x. r = Inr x \<longrightarrow> Q x c')"
  shows "keeps loads P m Q"
  unfolding keeps_def
proof (intro allI impI)
  fix c k assume ck: "in_step loads c k" "P c"
  obtain es c' r where m: "m c = (es, c', r)" by (cases "m c")
  show "case m c of (es, c', r) \<Rightarrow> (\<exists>k'. receive_all k es = Some k' \<and> in_step loads c' k') \<and>
        (case r of Inl e \<Rightarrow> True | Inr x \<Rightarrow> Q x c')"
    using assms [OF ck m] m by (cases r) auto
qed

lemma keeps_weaken:
  assumes "keeps loads P m Q" "\<And>c. P' c \<Longrightarrow> P c" "\<And>x c. Q x c \<Longrightarrow> Q' x c"
  shows "keeps loads P' m Q'"
proof (rule keeps_intro)
  fix c k es c' r assume *: "in_step loads c k" "P' c" "m c = (es, c', r)"
  show "(\<exists>k'. receive_all k es = Some k' \<and> in_step loads c' k') \<and> (\<forall>x. r = Inr x \<longrightarrow> Q' x c')"
    using keepsD [OF assms(1) *(1) assms(2) [OF *(2)] *(3)] assms(3) by blast
qed

lemma keeps_done: "(\<And>c. P c \<Longrightarrow> Q x c) \<Longrightarrow> keeps loads P (done_with x) Q"
  by (rule keeps_intro) (auto simp: done_with_def)

lemma keeps_attempt: "(\<And>x c. P c \<Longrightarrow> r = Inr x \<Longrightarrow> Q x c) \<Longrightarrow> keeps loads P (attempt r) Q"
  by (rule keeps_intro) (auto simp: attempt_def)

lemma keeps_followed:
  assumes "keeps loads P m Q" and "\<And>x. keeps loads (Q x) (f x) R"
  shows "keeps loads P (followed_by m f) R"
proof (rule keeps_intro)
  fix c k es c' r assume ck: "in_step loads c k" "P c" and eq: "followed_by m f c = (es, c', r)"
  obtain es1 c1 r1 where m: "m c = (es1, c1, r1)" by (cases "m c")
  obtain k1 where k1: "receive_all k es1 = Some k1" "in_step loads c1 k1" "\<forall>x. r1 = Inr x \<longrightarrow> Q x c1"
    using keepsD [OF assms(1) ck m] by blast
  show "(\<exists>k'. receive_all k es = Some k' \<and> in_step loads c' k') \<and> (\<forall>x. r = Inr x \<longrightarrow> R x c')"
  proof (cases r1)
    case (Inl e)
    then show ?thesis using m k1 eq by (auto simp: followed_by_def)
  next
    case (Inr x)
    obtain es2 c2 r2 where f: "f x c1 = (es2, c2, r2)" by (cases "f x c1")
    obtain k2 where k2: "receive_all k1 es2 = Some k2" "in_step loads c2 k2" "\<forall>y. r2 = Inr y \<longrightarrow> R y c2"
      using keepsD [OF assms(2) k1(2) k1(3) [rule_format, OF Inr] f] by blast
    have "es = es1 @ es2" "c' = c2" "r = r2" using eq m f Inr by (simp_all add: followed_by_def)
    then show ?thesis using k1(1) k2 by (simp add: receive_all_append)
  qed
qed

lemma keeps_for_each:
  assumes "\<And>x. keeps loads P (f x) (\<lambda>_. P)"
  shows "keeps loads P (for_each f xs) (\<lambda>_. P)"
proof (induction xs)
  case (Cons x xs)
  show ?case using keeps_followed [OF assms Cons.IH] by simp
qed (simp add: keeps_done)

section \<open>Every method keeps the client in step\<close>

lemma in_stepD:
  assumes "in_step loads c k"
  shows "cl_next k = (if cv_thinking c \<or> cv_text c then cv_index c + 1 else cv_index c)"
    and "cl_open k = open_at c" and "\<not> (cv_thinking c \<and> cv_text c)" and "distinct (map fst (cv_tools c))"
    and "\<And>key t. map_of (cv_tools c) key = Some t \<Longrightarrow> tl_started t \<Longrightarrow> tl_block t < cv_index c"
    and "\<And>key t. map_of (cv_tools c) key = Some t \<Longrightarrow> tool_in_step loads k t"
    and "\<And>key t key' t'. map_of (cv_tools c) key = Some t \<Longrightarrow> map_of (cv_tools c) key' = Some t' \<Longrightarrow>
        tl_started t \<Longrightarrow> tl_started t' \<Longrightarrow> tl_block t = tl_block t' \<Longrightarrow> key = key'"
    and "\<And>i. cl_next k \<le> i \<Longrightarrow> cl_sent k i = []"
  using assms unfolding in_step_def by blast+

lemma in_stepI:
  assumes "cl_next k = (if cv_thinking c \<or> cv_text c then cv_index c + 1 else cv_index c)"
    and "cl_open k = open_at c" and "\<not> (cv_thinking c \<and> cv_text c)" and "distinct (map fst (cv_tools c))"
    and "\<And>key t. map_of (cv_tools c) key = Some t \<Longrightarrow> tl_started t \<Longrightarrow> tl_block t < cv_index c"
    and "\<And>key t. map_of (cv_tools c) key = Some t \<Longrightarrow> tool_in_step loads k t"
    and "\<And>key t key' t'. map_of (cv_tools c) key = Some t \<Longrightarrow> map_of (cv_tools c) key' = Some t' \<Longrightarrow>
        tl_started t \<Longrightarrow> tl_started t' \<Longrightarrow> tl_block t = tl_block t' \<Longrightarrow> key = key'"
    and "\<And>i. cl_next k \<le> i \<Longrightarrow> cl_sent k i = []"
  shows "in_step loads c k"
  unfolding in_step_def using assms(1-4) by (intro conjI allI impI) (blast intro: assms(5-8))+

lemma tool_open_below: "in_step loads c k \<Longrightarrow> tool_open c i \<Longrightarrow> i < cv_index c"
  unfolding tool_open_def using in_stepD(5) by blast

lemma not_tool_open_next: "in_step loads c k \<Longrightarrow> \<not> tool_open c (cv_index c)"
  using tool_open_below by blast

lemma tool_open_cong: "cv_tools c' = cv_tools c \<Longrightarrow> tool_open c' = tool_open c"
  by (rule ext) (simp add: tool_open_def)

lemma tool_open_frame [simp]:
  "tool_open (c\<lparr>cv_thinking := th\<rparr>) = tool_open c" "tool_open (c\<lparr>cv_text := tx\<rparr>) = tool_open c"
  "tool_open (c\<lparr>cv_index := i\<rparr>) = tool_open c"
  by (rule tool_open_cong, simp)+

text \<open>A change that touches neither the blocks nor the tracked calls.\<close>

lemma in_step_same:
  assumes "in_step loads c k" "cv_thinking c' = cv_thinking c" "cv_text c' = cv_text c" "cv_index c' = cv_index c"
    "cv_tools c' = cv_tools c"
  shows "in_step loads c' k"
proof -
  have "open_at c' = open_at c" by (rule ext) (simp add: open_at_def tool_open_cong [OF assms(5)] assms(2-4))
  then show ?thesis using assms(1) by (simp add: in_step_def assms(2-5))
qed

text \<open>Opening and closing the thinking or text block at the current index.\<close>

lemma in_step_open:
  assumes "in_step loads c k" "\<not> cv_thinking c" "\<not> cv_text c" "th \<noteq> tx"
  shows "in_step loads (c\<lparr>cv_thinking := th, cv_text := tx\<rparr>)
      (k\<lparr>cl_next := cv_index c + 1, cl_open := (cl_open k)(cv_index c \<mapsto> if th then ThinkingKind else TextKind)\<rparr>)"
    (is "in_step loads ?c ?k")
proof -
  have "cl_open ?k = open_at ?c"
    using in_stepD(2) [OF assms(1)] assms(2-4) by (auto simp: open_at_def fun_eq_iff)
  moreover have "tool_in_step loads ?k t" if "map_of (cv_tools c) key = Some t" for key t
    using in_stepD(6) [OF assms(1) that] by (simp add: tool_in_step_def)
  moreover have "cl_next k = cv_index c" using in_stepD(1) [OF assms(1)] assms(2,3) by simp
  ultimately show ?thesis
    using in_stepD(4,5,7,8) [OF assms(1)] assms(4) unfolding in_step_def by simp
qed

lemma in_step_close:
  assumes "in_step loads c k" "cv_thinking c \<or> cv_text c"
  shows "in_step loads (c\<lparr>cv_thinking := False, cv_text := False, cv_index := cv_index c + 1\<rparr>)
      (k\<lparr>cl_open := (cl_open k)(cv_index c := None)\<rparr>)" (is "in_step loads ?c ?k")
proof -
  have "cl_open ?k = open_at ?c"
    using in_stepD(2) [OF assms(1)] not_tool_open_next [OF assms(1)]
    by (auto simp: open_at_def fun_eq_iff)
  moreover have "tool_in_step loads ?k t" if "map_of (cv_tools c) key = Some t" for key t
    using in_stepD(6) [OF assms(1) that] by (simp add: tool_in_step_def)
  moreover have "tl_block t < cv_index c + 1" if "map_of (cv_tools c) key = Some t" "tl_started t" for key t
    using in_stepD(5) [OF assms(1) that] by simp
  moreover have "cl_next k = cv_index c + 1" using in_stepD(1) [OF assms(1)] assms(2) by simp
  ultimately show ?thesis
    using in_stepD(4,7,8) [OF assms(1)] unfolding in_step_def by simp
qed

lemma open_now:
  assumes "in_step loads c k"
  shows "cv_thinking c \<Longrightarrow> cl_open k (cv_index c) = Some ThinkingKind"
    and "cv_text c \<Longrightarrow> cl_open k (cv_index c) = Some TextKind"
  using in_stepD(2,3) [OF assms] by (auto simp: open_at_def)

text \<open>A delta without argument text changes nothing the client keeps.\<close>

lemma receive_plain_delta:
  "cl_open k i = Some (delta_kind d) \<Longrightarrow> piece_of d = [] \<Longrightarrow> receive k (BlockDelta i d) = Some k"
  by simp

lemma keeps_reasoning: "keeps loads P (emit_reasoning r) (\<lambda>_ _. True)"
proof (rule keeps_intro)
  fix c k es c' x assume ck: "in_step loads c k" and eq: "emit_reasoning r c = (es, c', x)"
  have "\<exists>k'. receive_all k es = Some k' \<and> in_step loads c' k'"
  proof (cases "\<not> truthy r \<or> cv_text c \<or> cv_has_tools c")
    case True
    then show ?thesis using ck eq by (auto simp: emit_reasoning_def)
  next
    case off: False
    show ?thesis
    proof (cases "cv_thinking c")
      case True
      then have "c' = c" "es = [BlockDelta (cv_index c) (ThinkingDelta r)]" using eq off by (auto simp: emit_reasoning_def)
      then show ?thesis using open_now(1) [OF ck True] ck by simp
    next
      case False
      have next_index: "cl_next k = cv_index c" using in_stepD(1) [OF ck] False off by simp
      have "c' = c\<lparr>cv_thinking := True, cv_text := False\<rparr>"
          "es = [BlockStart (cv_index c) ThinkingBlock, BlockDelta (cv_index c) (ThinkingDelta r)]"
        using eq off False by (auto simp: emit_reasoning_def)
      then show ?thesis using in_step_open [OF ck False, of True False] off next_index by simp
    qed
  qed
  then show "(\<exists>k'. receive_all k es = Some k' \<and> in_step loads c' k') \<and> (\<forall>y. x = Inr y \<longrightarrow> True)" by simp
qed

abbreviation no_block :: "converter \<Rightarrow> bool" where
  "no_block c \<equiv> \<not> cv_thinking c \<and> \<not> cv_text c"

lemma keeps_close_thinking:
  "keeps loads P close_thinking (\<lambda>_ c. \<not> cv_thinking c)"
proof (rule keeps_intro)
  fix c k es c' x assume ck: "in_step loads c k" and eq: "close_thinking c = (es, c', x)"
  show "(\<exists>k'. receive_all k es = Some k' \<and> in_step loads c' k') \<and> (\<forall>y. x = Inr y \<longrightarrow> \<not> cv_thinking c')"
  proof (cases "cv_thinking c")
    case True
    then have "c' = c\<lparr>cv_thinking := False, cv_text := False, cv_index := cv_index c + 1\<rparr>" "es = [BlockStop (cv_index c)]"
      using eq in_stepD(3) [OF ck] by (auto simp: close_thinking_def)
    then show ?thesis using in_step_close [OF ck] True open_now(1) [OF ck True] by simp
  qed (use ck eq in \<open>auto simp: close_thinking_def\<close>)
qed

lemma keeps_close_text:
  "keeps loads (\<lambda>c. \<not> cv_thinking c) close_text (\<lambda>_. no_block)"
proof (rule keeps_intro)
  fix c k es c' x assume ck: "in_step loads c k" and th: "\<not> cv_thinking c" and eq: "close_text c = (es, c', x)"
  show "(\<exists>k'. receive_all k es = Some k' \<and> in_step loads c' k') \<and> (\<forall>y. x = Inr y \<longrightarrow> no_block c')"
  proof (cases "cv_text c")
    case True
    then have "c' = c\<lparr>cv_thinking := False, cv_text := False, cv_index := cv_index c + 1\<rparr>" "es = [BlockStop (cv_index c)]"
      using eq th by (auto simp: close_text_def)
    then show ?thesis using in_step_close [OF ck] True open_now(2) [OF ck True] by simp
  qed (use ck th eq in \<open>auto simp: close_text_def\<close>)
qed

lemma keeps_open_text: "keeps loads (\<lambda>c. \<not> cv_thinking c) (open_text v) (\<lambda>_ _. True)"
proof (rule keeps_intro)
  fix c k es c' x assume ck: "in_step loads c k" and th: "\<not> cv_thinking c" and eq: "open_text v c = (es, c', x)"
  have "\<exists>k'. receive_all k es = Some k' \<and> in_step loads c' k'"
  proof (cases "cv_text c")
    case True
    then have "c' = c" "es = [BlockDelta (cv_index c) (TextDelta v)]" using eq by (auto simp: open_text_def)
    then show ?thesis using open_now(2) [OF ck True] ck by simp
  next
    case False
    have next_index: "cl_next k = cv_index c" using in_stepD(1) [OF ck] False th by simp
    have "c' = c\<lparr>cv_thinking := False, cv_text := True\<rparr>"
        "es = [BlockStart (cv_index c) TextBlock, BlockDelta (cv_index c) (TextDelta v)]"
      using eq th False by (auto simp: open_text_def)
    then show ?thesis using in_step_open [OF ck th False, of False True] next_index by simp
  qed
  then show "(\<exists>k'. receive_all k es = Some k' \<and> in_step loads c' k') \<and> (\<forall>y. x = Inr y \<longrightarrow> True)" by simp
qed

lemma keeps_case:
  assumes "\<And>c. m c = (if b c then f c else g c)" "keeps loads (\<lambda>c. P c \<and> b c) f Q" "keeps loads (\<lambda>c. P c \<and> \<not> b c) g Q"
  shows "keeps loads P m Q"
proof (rule keeps_intro)
  fix c k es c' x assume ck: "in_step loads c k" "P c" and eq: "m c = (es, c', x)"
  show "(\<exists>k'. receive_all k es = Some k' \<and> in_step loads c' k') \<and> (\<forall>y. x = Inr y \<longrightarrow> Q y c')"
  proof (cases "b c")
    case True
    then show ?thesis using keepsD [OF assms(2) ck(1), of es c' x] ck(2) eq assms(1) [of c] by auto
  next
    case False
    then show ?thesis using keepsD [OF assms(3) ck(1), of es c' x] ck(2) eq assms(1) [of c] by auto
  qed
qed

lemma keeps_text: "keeps loads P (emit_text v) (\<lambda>_ _. True)"
proof (rule keeps_case)
  show "emit_text v c = (if \<not> truthy v \<or> cv_has_tools c then done_with () c
      else followed_by close_thinking (\<lambda>_. open_text v) c)" for c
    by (simp add: emit_text_def done_with_def)
  show "keeps loads (\<lambda>c. P c \<and> \<not> (\<not> truthy v \<or> cv_has_tools c)) (followed_by close_thinking (\<lambda>_. open_text v)) (\<lambda>_ _. True)"
    by (rule keeps_followed [OF keeps_close_thinking keeps_open_text])
qed (rule keeps_done, simp)

lemma keeps_quiet:
  assumes "\<And>c. fst (m c) = []"
    and "\<And>c. cv_thinking (fst (snd (m c))) = cv_thinking c" "\<And>c. cv_text (fst (snd (m c))) = cv_text c"
    and "\<And>c. cv_index (fst (snd (m c))) = cv_index c" "\<And>c. cv_tools (fst (snd (m c))) = cv_tools c"
  shows "keeps loads P m (\<lambda>_ _. True)"
proof (rule keeps_intro)
  fix c k es c' x assume ck: "in_step loads c k" and eq: "m c = (es, c', x)"
  have "es = []" using assms(1) [of c] eq by simp
  moreover have "in_step loads c' k" using in_step_same [OF ck] assms(2-5) [of c] eq by simp
  ultimately show "(\<exists>k'. receive_all k es = Some k' \<and> in_step loads c' k') \<and> (\<forall>y. x = Inr y \<longrightarrow> True)" by simp
qed

lemma keeps_usage: "keeps loads P (update_usage u) (\<lambda>_ _. True)"
  by (rule keeps_quiet) (simp_all add: update_usage_def split: json.split sum.split)

lemma keeps_stop_reason: "keeps loads P (set_stop_reason r) (\<lambda>_ _. True)"
  by (rule keeps_quiet) (simp_all add: set_stop_reason_def split: sum.split)

subsection \<open>The tracked calls\<close>

lemma tool_open_iff:
  "tool_open c i \<longleftrightarrow> (\<exists>key t. map_of (cv_tools c) key = Some t \<and> tl_started t \<and> \<not> tl_stopped t \<and> tl_block t = i)"
  by (simp add: tool_open_def)

text \<open>A tracked call changes without an event: its block is as before.\<close>

lemma in_step_quiet:
  assumes ck: "in_step loads c k" and t': "tool_in_step loads k t'"
    and started: "tl_started t' \<Longrightarrow> \<exists>t. map_of (cv_tools c) key = Some t \<and> tl_started t \<and> tl_stopped t = tl_stopped t' \<and> tl_block t = tl_block t'"
    and still: "\<And>t. map_of (cv_tools c) key = Some t \<Longrightarrow> tl_started t \<Longrightarrow> tl_started t'"
    and tools: "map_of (cv_tools c') = (map_of (cv_tools c))(key \<mapsto> t')" "distinct (map fst (cv_tools c'))"
    and same: "cv_thinking c' = cv_thinking c" "cv_text c' = cv_text c" "cv_index c' = cv_index c"
  shows "in_step loads c' k"
proof -
  have "tool_open c' i = tool_open c i" for i
  proof
    assume "tool_open c' i"
    then obtain key2 t2 where 2: "map_of (cv_tools c') key2 = Some t2" "tl_started t2" "\<not> tl_stopped t2" "tl_block t2 = i"
      unfolding tool_open_def by blast
    show "tool_open c i"
    proof (cases "key2 = key")
      case True
      then show ?thesis using 2 started tools(1) unfolding tool_open_def by fastforce
    next
      case False
      then show ?thesis using 2 tools(1) unfolding tool_open_def by auto
    qed
  next
    assume "tool_open c i"
    then obtain key2 t2 where 2: "map_of (cv_tools c) key2 = Some t2" "tl_started t2" "\<not> tl_stopped t2" "tl_block t2 = i"
      unfolding tool_open_def by blast
    show "tool_open c' i"
    proof (cases "key2 = key")
      case True
      then have "map_of (cv_tools c') key = Some t'" "tl_started t'" "\<not> tl_stopped t'" "tl_block t' = i"
        using 2 still started tools(1) by auto
      then show ?thesis unfolding tool_open_def by blast
    next
      case False
      then show ?thesis using 2 tools(1) unfolding tool_open_def by auto
    qed
  qed
  then have open_same: "open_at c' = open_at c" by (simp add: fun_eq_iff open_at_def same)
  have old: "\<exists>t. map_of (cv_tools c) key3 = Some t \<and> tl_started t \<and> tl_block t = tl_block t3"
    if "map_of (cv_tools c') key3 = Some t3" "tl_started t3" for key3 t3
    using that started tools(1) by (cases "key3 = key") auto
  show ?thesis
  proof (rule in_stepI)
    show "cl_next k = (if cv_thinking c' \<or> cv_text c' then cv_index c' + 1 else cv_index c')"
      using in_stepD(1) [OF ck] same by simp
    show "cl_open k = open_at c'" using in_stepD(2) [OF ck] open_same by simp
    show "\<not> (cv_thinking c' \<and> cv_text c')" using in_stepD(3) [OF ck] same by simp
    show "tl_block t2 < cv_index c'" if "map_of (cv_tools c') key2 = Some t2" "tl_started t2" for key2 t2
      using old [OF that] in_stepD(5) [OF ck] same(3) by force
    show "tool_in_step loads k t2" if "map_of (cv_tools c') key2 = Some t2" for key2 t2
      using that in_stepD(6) [OF ck] t' tools(1) by (cases "key2 = key") auto
    show "key1 = key2" if m: "map_of (cv_tools c') key1 = Some t1" "map_of (cv_tools c') key2 = Some t2"
        "tl_started t1" "tl_started t2" "tl_block t1 = tl_block t2" for key1 t1 key2 t2
      using old [OF m(1,3)] old [OF m(2,4)] in_stepD(7) [OF ck] m(5) by metis
    show "cl_sent k i = []" if "cl_next k \<le> i" for i using in_stepD(8) [OF ck that] .
  qed (rule tools(2))
qed

lemma live_tool_open:
  assumes "in_step loads c k" "map_of (cv_tools c) key = Some t" "tl_started t" "\<not> tl_stopped t"
  shows "cl_open k (tl_block t) = Some ToolKind"
  using in_stepD(2) [OF assms(1)] in_stepD(5) [OF assms(1-3)] assms by (auto simp: open_at_def tool_open_def)

text \<open>A live call is sent a piece, and its block is closed when it is complete.\<close>

definition sent_to :: "client \<Rightarrow> int \<Rightarrow> string \<Rightarrow> bool \<Rightarrow> client" where
  "sent_to k i p stop = k\<lparr>cl_sent := (cl_sent k)(i := cl_sent k i @ p),
     cl_open := (if stop then (cl_open k)(i := None) else cl_open k)\<rparr>"

lemma receive_sent:
  "cl_open k i = Some ToolKind \<Longrightarrow>
   receive_all k (BlockDelta i (InputJsonDelta p) # (if stop then [BlockStop i] else [])) = Some (sent_to k i p stop)"
  by (simp add: sent_to_def)

lemma in_step_live:
  assumes ck: "in_step loads c k" and t: "map_of (cv_tools c) key = Some t" "tl_started t" "\<not> tl_stopped t"
    and t': "tl_started t'" "tl_block t' = tl_block t" "tl_arguments t' = tl_arguments t @ p"
      "tl_stopped t' \<Longrightarrow> arguments_complete loads (tl_arguments t')"
  shows "in_step loads (c\<lparr>cv_tools := AList.update key t' (cv_tools c)\<rparr>) (sent_to k (tl_block t) p (tl_stopped t'))"
    (is "in_step loads ?c ?k")
proof -
  have below: "tl_block t < cv_index c" using in_stepD(5) [OF ck t(1,2)] .
  have other: "key2 = key" if "map_of (cv_tools c) key2 = Some t2" "tl_started t2" "tl_block t2 = tl_block t" for key2 t2
    using in_stepD(7) [OF ck that(1) t(1) that(2) t(2) that(3)] .
  have others: "tool_open ?c i = tool_open c i" if i: "i \<noteq> tl_block t" for i
  proof
    assume "tool_open ?c i"
    then obtain key2 t2 where 2: "map_of (cv_tools ?c) key2 = Some t2" "tl_started t2" "\<not> tl_stopped t2" "tl_block t2 = i"
      unfolding tool_open_def by blast
    then have "map_of (cv_tools c) key2 = Some t2" using i t'(2) by (cases "key2 = key") auto
    then show "tool_open c i" using 2 unfolding tool_open_def by blast
  next
    assume "tool_open c i"
    then obtain key2 t2 where 2: "map_of (cv_tools c) key2 = Some t2" "tl_started t2" "\<not> tl_stopped t2" "tl_block t2 = i"
      unfolding tool_open_def by blast
    then have "map_of (cv_tools ?c) key2 = Some t2" using i t(1) by (cases "key2 = key") auto
    then show "tool_open ?c i" using 2 unfolding tool_open_def by blast
  qed
  have own: "tool_open ?c (tl_block t) \<longleftrightarrow> \<not> tl_stopped t'"
  proof
    assume "tool_open ?c (tl_block t)"
    then obtain key2 t2 where 2: "map_of (cv_tools ?c) key2 = Some t2" "tl_started t2" "\<not> tl_stopped t2" "tl_block t2 = tl_block t"
      unfolding tool_open_def by blast
    then show "\<not> tl_stopped t'" using other by (cases "key2 = key") auto
  next
    assume "\<not> tl_stopped t'"
    moreover have "map_of (cv_tools ?c) key = Some t'" by simp
    ultimately show "tool_open ?c (tl_block t)" using t'(1,2) unfolding tool_open_def by blast
  qed
  have old: "\<exists>t. map_of (cv_tools c) key3 = Some t \<and> tl_started t \<and> tl_block t = tl_block t3"
    if "map_of (cv_tools ?c) key3 = Some t3" "tl_started t3" for key3 t3
    using that t t'(2) by (cases "key3 = key") auto
  have next_above: "tl_block t < cl_next k" using in_stepD(1) [OF ck] below by auto
  show ?thesis
  proof (rule in_stepI)
    show "cl_open ?k = open_at ?c"
    proof (rule ext)
      fix i
      show "cl_open ?k i = open_at ?c i"
        using in_stepD(2) [OF ck] below live_tool_open [OF ck t] own others [of i]
        by (cases "i = tl_block t") (simp_all add: open_at_def sent_to_def)
    qed
    show "tool_in_step loads ?k t2" if 2: "map_of (cv_tools ?c) key2 = Some t2" for key2 t2
    proof (cases "key2 = key")
      case True
      have "cl_sent k (tl_block t) = tl_arguments t" using in_stepD(6) [OF ck t(1)] t(2,3) by (simp add: tool_in_step_def)
      then show ?thesis using True 2 t' by (auto simp: tool_in_step_def sent_to_def)
    next
      case False
      then have m: "map_of (cv_tools c) key2 = Some t2" using 2 by simp
      have "tl_started t2 \<Longrightarrow> tl_block t2 \<noteq> tl_block t" using other [OF m] False by blast
      then show ?thesis using in_stepD(6) [OF ck m] by (auto simp: tool_in_step_def sent_to_def)
    qed
    show "tl_block t2 < cv_index ?c" if "map_of (cv_tools ?c) key2 = Some t2" "tl_started t2" for key2 t2
      using that in_stepD(5) [OF ck, of key2] t' below by (cases "key2 = key") auto
    show "key1 = key2" if m: "map_of (cv_tools ?c) key1 = Some t1" "map_of (cv_tools ?c) key2 = Some t2"
        "tl_started t1" "tl_started t2" "tl_block t1 = tl_block t2" for key1 t1 key2 t2
      using old [OF m(1,3)] old [OF m(2,4)] in_stepD(7) [OF ck] m(5) by metis
    show "cl_sent ?k i = []" if "cl_next ?k \<le> i" for i
      using that next_above in_stepD(8) [OF ck, of i] by (simp add: sent_to_def)
  qed (use in_stepD(1,3,4) [OF ck] in \<open>simp_all add: sent_to_def\<close>)
qed

text \<open>A call starts its block, and what was buffered is sent at once.\<close>

definition started_at :: "client \<Rightarrow> int \<Rightarrow> string \<Rightarrow> bool \<Rightarrow> client" where
  "started_at k i p stop = sent_to (k\<lparr>cl_next := i + 1, cl_open := (cl_open k)(i \<mapsto> ToolKind)\<rparr>) i p stop"

lemma in_step_start:
  assumes ck: "in_step loads c k" and off: "no_block c" and t: "map_of (cv_tools c) key = Some t" "\<not> tl_started t"
    and t': "tl_started t'" "tl_block t' = cv_index c" "tl_stopped t' \<Longrightarrow> arguments_complete loads (tl_arguments t')"
    and c': "map_of (cv_tools c') = (map_of (cv_tools c))(key \<mapsto> t')" "distinct (map fst (cv_tools c'))"
      "no_block c'" "cv_index c' = cv_index c + 1"
  shows "in_step loads c' (started_at k (cv_index c) (tl_arguments t') (tl_stopped t'))" (is "in_step loads c' ?k")
proof -
  have next_index: "cl_next k = cv_index c" using in_stepD(1) [OF ck] off by simp
  have unsent: "cl_sent k (cv_index c) = []" using in_stepD(8) [OF ck] next_index by simp
  have below: "tl_block t2 < cv_index c" "key2 \<noteq> key" "map_of (cv_tools c) key2 = Some t2"
    if "map_of (cv_tools c') key2 = Some t2" "tl_started t2" "t2 \<noteq> t'" for key2 t2
  proof -
    show "key2 \<noteq> key" using that c'(1) by auto
    then show m: "map_of (cv_tools c) key2 = Some t2" using that c'(1) by simp
    show "tl_block t2 < cv_index c" using in_stepD(5) [OF ck m that(2)] .
  qed
  have others: "tool_open c' i = tool_open c i" if i: "i \<noteq> cv_index c" for i
  proof
    assume "tool_open c' i"
    then obtain key2 t2 where 2: "map_of (cv_tools c') key2 = Some t2" "tl_started t2" "\<not> tl_stopped t2" "tl_block t2 = i"
      unfolding tool_open_def by blast
    then have "map_of (cv_tools c) key2 = Some t2" using i t'(2) below(3) by blast
    then show "tool_open c i" using 2 unfolding tool_open_def by blast
  next
    assume "tool_open c i"
    then obtain key2 t2 where 2: "map_of (cv_tools c) key2 = Some t2" "tl_started t2" "\<not> tl_stopped t2" "tl_block t2 = i"
      unfolding tool_open_def by blast
    then have "map_of (cv_tools c') key2 = Some t2" using t c'(1) by (cases "key2 = key") auto
    then show "tool_open c' i" using 2 unfolding tool_open_def by blast
  qed
  have own: "tool_open c' (cv_index c) \<longleftrightarrow> \<not> tl_stopped t'"
  proof
    assume "tool_open c' (cv_index c)"
    then obtain key2 t2 where 2: "map_of (cv_tools c') key2 = Some t2" "tl_started t2" "\<not> tl_stopped t2" "tl_block t2 = cv_index c"
      unfolding tool_open_def by blast
    then show "\<not> tl_stopped t'" using below(1) by force
  next
    assume "\<not> tl_stopped t'"
    moreover have "map_of (cv_tools c') key = Some t'" using c'(1) by simp
    ultimately show "tool_open c' (cv_index c)" using t'(1,2) unfolding tool_open_def by blast
  qed
  show ?thesis
  proof (rule in_stepI)
    show "cl_open ?k = open_at c'"
    proof (rule ext)
      fix i
      show "cl_open ?k i = open_at c' i"
        using in_stepD(2) [OF ck] own others [of i] off c'(3)
        by (cases "i = cv_index c") (simp_all add: open_at_def started_at_def sent_to_def)
    qed
    show "tool_in_step loads ?k t2" if 2: "map_of (cv_tools c') key2 = Some t2" for key2 t2
    proof (cases "key2 = key")
      case True
      then have e: "t2 = t'" using 2 c'(1) by simp
      show ?thesis unfolding e using t' by (auto simp: tool_in_step_def started_at_def sent_to_def unsent)
    next
      case False
      then have m: "map_of (cv_tools c) key2 = Some t2" using 2 c'(1) by simp
      have "tl_started t2 \<Longrightarrow> tl_block t2 \<noteq> cv_index c" using in_stepD(5) [OF ck m] by auto
      then show ?thesis using in_stepD(6) [OF ck m] by (auto simp: tool_in_step_def started_at_def sent_to_def)
    qed
    show "tl_block t2 < cv_index c'" if "map_of (cv_tools c') key2 = Some t2" "tl_started t2" for key2 t2
      using below(1) [OF that] t'(2) c'(4) by (cases "t2 = t'") auto
    show "key1 = key2" if m: "map_of (cv_tools c') key1 = Some t1" "map_of (cv_tools c') key2 = Some t2"
        "tl_started t1" "tl_started t2" "tl_block t1 = tl_block t2" for key1 t1 key2 t2
    proof (cases "key1 = key \<or> key2 = key")
      case True
      then show ?thesis using m c'(1) t'(2) in_stepD(5) [OF ck, of key1 t1] in_stepD(5) [OF ck, of key2 t2]
        by (cases "key1 = key"; cases "key2 = key") auto
    next
      case False
      then show ?thesis using m c'(1) in_stepD(7) [OF ck, of key1 t1 key2 t2] by auto
    qed
    show "cl_sent ?k i = []" if "cl_next ?k \<le> i" for i
      using that in_stepD(8) [OF ck, of i] next_index by (simp add: started_at_def sent_to_def)
  qed (use c' in \<open>simp_all add: started_at_def sent_to_def\<close>)
qed

lemma keeps_with_tool:
  assumes "\<And>c k t es t'. in_step loads c k \<Longrightarrow> map_of (cv_tools c) key = Some t \<Longrightarrow> f t = (es, t') \<Longrightarrow>
      \<exists>k'. receive_all k es = Some k' \<and> in_step loads (c\<lparr>cv_tools := AList.update key t' (cv_tools c)\<rparr>) k'"
  shows "keeps loads no_block (with_tool key f) (\<lambda>_. no_block)"
proof (rule keeps_intro)
  fix c k es c' x assume ck: "in_step loads c k" "no_block c" and eq: "with_tool key f c = (es, c', x)"
  show "(\<exists>k'. receive_all k es = Some k' \<and> in_step loads c' k') \<and> (\<forall>y. x = Inr y \<longrightarrow> no_block c')"
  proof (cases "map_of (cv_tools c) key")
    case None
    then show ?thesis using ck eq by (auto simp: with_tool_def)
  next
    case (Some t)
    obtain es' t' where f: "f t = (es', t')" by (cases "f t")
    show ?thesis using assms [OF ck(1) Some f] ck(2) eq Some f by (auto simp: with_tool_def)
  qed
qed

lemma keeps_name_tool: "keeps loads no_block (with_tool key (name_tool name)) (\<lambda>_. no_block)"
proof (rule keeps_with_tool)
  fix c k t es t' assume ck: "in_step loads c k" and t: "map_of (cv_tools c) key = Some t" and eq: "name_tool name t = (es, t')"
  have same: "tl_started t' = tl_started t" "tl_stopped t' = tl_stopped t" "tl_block t' = tl_block t" "tl_arguments t' = tl_arguments t"
    and es: "es = []" using eq by (auto simp: name_tool_def split: if_splits)
  have "tool_in_step loads k t'" using in_stepD(6) [OF ck t] by (simp add: tool_in_step_def same)
  then have "in_step loads (c\<lparr>cv_tools := AList.update key t' (cv_tools c)\<rparr>) k"
    by (rule in_step_quiet [OF ck]) (use t same in_stepD(4) [OF ck] in auto)
  then show "\<exists>k'. receive_all k es = Some k' \<and> in_step loads (c\<lparr>cv_tools := AList.update key t' (cv_tools c)\<rparr>) k'"
    using es by simp
qed

lemma keeps_add_arguments: "keeps loads no_block (with_tool key (add_arguments loads p)) (\<lambda>_. no_block)"
proof (rule keeps_with_tool)
  fix c k t es t' assume ck: "in_step loads c k" and t: "map_of (cv_tools c) key = Some t"
    and eq: "add_arguments loads p t = (es, t')"
  show "\<exists>k'. receive_all k es = Some k' \<and> in_step loads (c\<lparr>cv_tools := AList.update key t' (cv_tools c)\<rparr>) k'"
  proof (cases "tl_started t \<and> \<not> tl_stopped t")
    case True
    have t': "tl_started t'" "tl_block t' = tl_block t" "tl_arguments t' = tl_arguments t @ p"
        "tl_stopped t' \<Longrightarrow> arguments_complete loads (tl_arguments t')"
      and es: "es = BlockDelta (tl_block t) (InputJsonDelta p) # (if tl_stopped t' then [BlockStop (tl_block t)] else [])"
      using eq True by (auto simp: add_arguments_def close_tool_if_complete_def Let_def split: if_splits)
    show ?thesis
      unfolding es using receive_sent [OF live_tool_open [OF ck t]] in_step_live [OF ck t _ _ t'] True by blast
  next
    case False
    then have t': "t' = t\<lparr>tl_arguments := tl_arguments t @ p\<rparr>" and es: "es = []"
      using eq by (auto simp: add_arguments_def close_tool_if_complete_def Let_def)
    have "tool_in_step loads k t'" using in_stepD(6) [OF ck t] False by (auto simp: tool_in_step_def t')
    then have "in_step loads (c\<lparr>cv_tools := AList.update key t' (cv_tools c)\<rparr>) k"
      by (rule in_step_quiet [OF ck]) (use t t' in_stepD(4) [OF ck] in auto)
    then show ?thesis using es by simp
  qed
qed

text \<open>The start of a call's block together with the buffered arguments.\<close>

lemma start_and_send:
  assumes "map_of (cv_tools c) key = Some t"
  defines "s \<equiv> t\<lparr>tl_block := cv_index c, tl_started := True\<rparr>"
  shows "followed_by (start_tool key) (\<lambda>_. with_tool key (send_buffered loads)) c =
     (BlockStart (cv_index c) (ToolUseBlock (tl_id t) (tl_name t)) # fst (send_buffered loads s),
      c\<lparr>cv_tools := AList.update key (snd (send_buffered loads s)) (AList.update key s (cv_tools c)),
        cv_has_tools := True, cv_index := cv_index c + 1\<rparr>, Inr ())"
  using assms(1) by (simp add: followed_by_def start_tool_def with_tool_def s_def split: prod.split)

lemma keeps_start:
  "keeps loads (\<lambda>c. no_block c \<and> needs_start c key)
     (followed_by (start_tool key) (\<lambda>_. with_tool key (send_buffered loads))) (\<lambda>_. no_block)"
proof (rule keeps_intro)
  fix c k es c' x assume ck: "in_step loads c k" and P: "no_block c \<and> needs_start c key"
    and eq: "followed_by (start_tool key) (\<lambda>_. with_tool key (send_buffered loads)) c = (es, c', x)"
  obtain t where t: "map_of (cv_tools c) key = Some t" "\<not> tl_started t"
    using P by (auto simp: needs_start_def split: option.splits)
  have quiet: "\<not> tl_stopped t" using in_stepD(6) [OF ck t(1)] t(2) by (auto simp: tool_in_step_def)
  define s where "s = t\<lparr>tl_block := cv_index c, tl_started := True\<rparr>"
  define t' where "t' = snd (send_buffered loads s)"
  have es: "es = BlockStart (cv_index c) (ToolUseBlock (tl_id t) (tl_name t)) # fst (send_buffered loads s)"
    and c': "c' = c\<lparr>cv_tools := AList.update key t' (AList.update key s (cv_tools c)), cv_has_tools := True, cv_index := cv_index c + 1\<rparr>"
    using eq start_and_send [OF t(1), of loads] by (auto simp: s_def t'_def)
  have t': "tl_started t'" "tl_block t' = cv_index c" "tl_stopped t' \<Longrightarrow> arguments_complete loads (tl_arguments t')"
    using quiet unfolding t'_def s_def send_buffered_def close_tool_if_complete_def
    by (cases "tl_arguments t = []"; cases "arguments_complete loads (tl_arguments t)"; simp)+
  have step: "in_step loads c' (started_at k (cv_index c) (tl_arguments t') (tl_stopped t'))"
    by (rule in_step_start [OF ck _ t t']) (use P in_stepD(4) [OF ck] in \<open>simp_all add: c'\<close>)
  have "cl_next k = cv_index c" using in_stepD(1) [OF ck] P by simp
  then have "receive_all k es = Some (started_at k (cv_index c) (tl_arguments t') (tl_stopped t'))"
    using quiet unfolding es t'_def s_def send_buffered_def close_tool_if_complete_def started_at_def sent_to_def
    by (cases "tl_arguments t = []"; cases "arguments_complete loads (tl_arguments t)") simp_all
  then show "(\<exists>k'. receive_all k es = Some k' \<and> in_step loads c' k') \<and> (\<forall>y. x = Inr y \<longrightarrow> no_block c')"
    using step P c' by simp
qed

section \<open>The whole conversion\<close>

text \<open>Looking the call up may add one that has not started.\<close>

lemma keeps_track_id: "keeps loads no_block (track_id index name tool_id) (\<lambda>_. no_block)"
proof (rule keeps_intro)
  fix c k es c' x assume ck: "in_step loads c k" "no_block c" and eq: "track_id index name tool_id c = (es, c', x)"
  have same: "es = []" "cv_thinking c' = cv_thinking c" "cv_text c' = cv_text c" "cv_index c' = cv_index c"
    using eq by (auto simp: track_id_def Let_def split: if_splits)
  have "cv_tools c' = cv_tools c \<or> map_of (cv_tools c) (dict_key tool_id) = None \<and>
      cv_tools c' = AList.update (dict_key tool_id) (new_tool tool_id name) (cv_tools c)"
    using eq by (auto simp: track_id_def Let_def split: if_splits)
  then have "in_step loads c' k"
  proof (elim disjE conjE)
    assume "cv_tools c' = cv_tools c"
    then show ?thesis using in_step_same [OF ck(1)] same by simp
  next
    assume new: "map_of (cv_tools c) (dict_key tool_id) = None"
      "cv_tools c' = AList.update (dict_key tool_id) (new_tool tool_id name) (cv_tools c)"
    have "tool_in_step loads k (new_tool tool_id name)" by (simp add: tool_in_step_def new_tool_def)
    then show ?thesis
      by (rule in_step_quiet [OF ck(1), where key = "dict_key tool_id"])
        (use new same in_stepD(4) [OF ck(1)] in \<open>simp_all add: new_tool_def\<close>)
  qed
  then show "(\<exists>k'. receive_all k es = Some k' \<and> in_step loads c' k') \<and> (\<forall>y. x = Inr y \<longrightarrow> no_block c')"
    using same ck(2) by simp
qed

lemma keeps_tracked_tool: "keeps loads no_block (tracked_tool uuid index tid name) (\<lambda>_. no_block)"
proof (rule keeps_intro)
  fix c k es c' x assume ck: "in_step loads c k" "no_block c" and eq: "tracked_tool uuid index tid name c = (es, c', x)"
  let ?goal = "(\<exists>k'. receive_all k es = Some k' \<and> in_step loads c' k') \<and> (\<forall>y. x = Inr y \<longrightarrow> no_block c')"
  have drawn: "in_step loads (c\<lparr>cv_uuids := Suc (cv_uuids c)\<rparr>) k" using in_step_same [OF ck(1)] by simp
  consider (id) "track_id index name tid c = (es, c', x)" | (quiet) "es = []" "c' = c"
    | (new) tool_id where "track_id index name tool_id (c\<lparr>cv_uuids := Suc (cv_uuids c)\<rparr>) = (es, c', x)"
    using eq unfolding tracked_tool_def by (auto split: if_splits option.splits)
  then show ?goal
  proof cases
    case id
    then show ?thesis using keepsD [OF keeps_track_id ck] by blast
  next
    case quiet
    then show ?thesis using ck by simp
  next
    case (new tool_id)
    then show ?thesis using keepsD [OF keeps_track_id drawn _ new] ck(2) by auto
  qed
qed

lemma keeps_tool_body: "keeps loads no_block (tool_body loads name arguments key) (\<lambda>_. no_block)"
  unfolding tool_body_def
proof (rule keeps_followed [OF keeps_name_tool], rule keeps_followed)
  show "keeps loads no_block (\<lambda>c. if needs_start c key
      then followed_by (start_tool key) (\<lambda>_. with_tool key (send_buffered loads)) c else done_with () c) (\<lambda>_. no_block)"
    by (rule keeps_case [OF refl keeps_start]) (rule keeps_done, simp)
  show "keeps loads no_block (if \<not> truthy arguments then done_with ()
      else case arguments of JStr piece \<Rightarrow> with_tool key (add_arguments loads piece) | _ \<Rightarrow> attempt (Inl TypeError)) (\<lambda>_. no_block)"
    for y by (cases arguments) (simp_all add: keeps_done keeps_attempt keeps_add_arguments)
qed

lemma keeps_tool_call: "keeps loads no_block (tool_call uuid loads tc) (\<lambda>_. no_block)"
  unfolding tool_call_def Let_def
  by (intro keeps_followed [where Q = "\<lambda>_. no_block"] keeps_attempt keeps_tracked_tool keeps_tool_body)

lemma keeps_tools: "keeps loads P (handle_tools uuid loads delta message) (\<lambda>_ _. True)"
proof -
  have each: "keeps loads no_block (followed_by (attempt (py_iter v)) (for_each (tool_call uuid loads))) (\<lambda>_ _. True)" for v
    by (rule keeps_followed [where Q = "\<lambda>_. no_block"])
      (rule keeps_attempt, simp, rule keeps_weaken [OF keeps_for_each [OF keeps_tool_call]], simp_all)
  have closing: "keeps loads (\<lambda>_. True) (followed_by close_thinking (\<lambda>_. followed_by close_text (\<lambda>_.
      followed_by (attempt (py_iter v)) (for_each (tool_call uuid loads))))) (\<lambda>_ _. True)" for v
    by (rule keeps_followed [OF keeps_close_thinking], rule keeps_followed [OF keeps_close_text each])
  have calls: "keeps loads (\<lambda>_. True) (if truthy t0 then done_with t0
      else followed_by (attempt (get_attr message ''tool_calls'' JNull))
             (\<lambda>t1. done_with (if truthy t1 then t1 else JArr []))) (\<lambda>_ _. True)" for t0
    by (cases "truthy t0")
      (simp_all add: keeps_done keeps_followed [where Q = "\<lambda>_ _. True", OF keeps_attempt keeps_done])
  show ?thesis
    unfolding handle_tools_def
    by (rule keeps_followed [where Q = "\<lambda>_ _. True"], rule keeps_attempt, simp, rule keeps_followed [OF calls])
      (simp add: keeps_done closing)
qed

lemma keeps_choice: "keeps loads P (handle_choice uuid loads choice) (\<lambda>_ _. True)"
  unfolding handle_choice_def Let_def
  by (intro keeps_followed [where Q = "\<lambda>_ _. True"] keeps_attempt keeps_reasoning keeps_text keeps_tools keeps_stop_reason) simp_all

lemma keeps_handle: "keeps loads P (handle uuid loads data) (\<lambda>_ _. True)"
proof -
  have "keeps loads (\<lambda>_. True) (if \<not> truthy v then done_with () else followed_by (attempt (first_item v)) (handle_choice uuid loads))
      (\<lambda>_ _. True)" for v
    by (simp add: keeps_done keeps_followed [where Q = "\<lambda>_ _. True", OF keeps_attempt keeps_choice])
  then show ?thesis
    unfolding handle_def Let_def
    by (intro keeps_followed [where Q = "\<lambda>_ _. True"] keeps_attempt keeps_usage) simp_all
qed

lemma keeps_handle_all:
  assumes "in_step loads c k" and "handle_all uuid loads ds c = (es, c')"
  shows "\<exists>k'. receive_all k es = Some k' \<and> in_step loads c' k'"
  using assms
proof (induction ds arbitrary: c k es)
  case (Cons d ds)
  obtain es1 c1 r where h: "handle uuid loads d c = (es1, c1, r)" by (cases "handle uuid loads d c")
  obtain es2 c2 where a: "handle_all uuid loads ds c1 = (es2, c2)" by (cases "handle_all uuid loads ds c1")
  have eq: "es = es1 @ es2" "c' = c2" using Cons.prems(2) h a by simp_all
  obtain k1 where k1: "receive_all k es1 = Some k1" "in_step loads c1 k1"
    using keepsD [OF keeps_handle Cons.prems(1) TrueI h] by blast
  then show ?case using Cons.IH [OF k1(2)] a eq by (auto simp: receive_all_append)
qed auto

lemma in_step_new: "in_step loads (new_converter mid model n) new_client"
  by (simp add: in_step_def new_converter_def new_client_def open_at_def tool_open_def fun_eq_iff)

lemma receive_stops:
  "distinct bs \<Longrightarrow> (\<And>b. b \<in> set bs \<Longrightarrow> cl_open k b \<noteq> None) \<Longrightarrow>
   \<exists>k'. receive_all k (map BlockStop bs) = Some k' \<and> (\<forall>i. cl_open k' i = (if i \<in> set bs then None else cl_open k i))"
proof (induction bs arbitrary: k)
  case (Cons b bs)
  let ?k = "k\<lparr>cl_open := (cl_open k)(b := None)\<rparr>"
  have "\<exists>k'. receive_all ?k (map BlockStop bs) = Some k' \<and> (\<forall>i. cl_open k' i = (if i \<in> set bs then None else cl_open ?k i))"
    using Cons.prems by (intro Cons.IH) auto
  moreover have "cl_open k b \<noteq> None" using Cons.prems(2) by simp
  ultimately show ?case by auto
qed simp

definition open_blocks :: "converter \<Rightarrow> int list" where
  "open_blocks c = map (\<lambda>(k, t). tl_block t) (filter (\<lambda>(k, t). tl_started t \<and> \<not> tl_stopped t) (cv_tools c))"

lemma open_tool_stops_blocks: "open_tool_stops c = map BlockStop (open_blocks c)"
  by (simp add: open_tool_stops_def open_blocks_def comp_def case_prod_unfold)

lemma set_open_blocks: "distinct (map fst (cv_tools c)) \<Longrightarrow> i \<in> set (open_blocks c) \<longleftrightarrow> tool_open c i"
  by (force simp: open_blocks_def tool_open_def)

lemma distinct_blocks:
  assumes "distinct (map fst al)"
    and "\<And>key t key' t'. (key, t) \<in> set al \<Longrightarrow> (key', t') \<in> set al \<Longrightarrow> P t \<Longrightarrow> P t' \<Longrightarrow> f t = f t' \<Longrightarrow> key = key'"
  shows "distinct (map (\<lambda>(k, t). f t) (filter (\<lambda>(k, t). P t) al))"
  using assms
proof (induction al)
  case (Cons a al)
  obtain key t where a: "a = (key, t)" by (cases a)
  have IH: "distinct (map (\<lambda>(k, t). f t) (filter (\<lambda>(k, t). P t) al))"
  proof (rule Cons.IH)
    show "distinct (map fst al)" using Cons.prems(1) by simp
    show "key1 = key2" if "(key1, t1) \<in> set al" "(key2, t2) \<in> set al" "P t1" "P t2" "f t1 = f t2" for key1 t1 key2 t2
      using Cons.prems(2) [of key1 t1 key2 t2] that by simp
  qed
  have "f t \<noteq> f t'" if "P t" "(key', t') \<in> set al" "P t'" for key' t'
  proof
    assume "f t = f t'"
    then have "key = key'" using Cons.prems(2) [of key t key' t'] that a by simp
    then show False using Cons.prems(1) that(2) a by force
  qed
  then show ?case using IH a by auto
qed simp

lemma distinct_open_blocks:
  assumes ck: "in_step loads c k"
  shows "distinct (open_blocks c)"
  unfolding open_blocks_def
proof (rule distinct_blocks [OF in_stepD(4) [OF ck]])
  fix key t key' t'
  assume "(key, t) \<in> set (cv_tools c)" "(key', t') \<in> set (cv_tools c)"
    and *: "tl_started t \<and> \<not> tl_stopped t" "tl_started t' \<and> \<not> tl_stopped t'" "tl_block t = tl_block t'"
  then have "map_of (cv_tools c) key = Some t" "map_of (cv_tools c) key' = Some t'"
    using in_stepD(4) [OF ck] by simp_all
  then show "key = key'" using in_stepD(7) [OF ck] * by blast
qed

text \<open>The closing events leave nothing open.\<close>

lemma close_message_closes:
  assumes ck: "in_step loads c k"
  shows "\<exists>body k'. close_message c = body @ [MessageDelta (cv_stop_reason c) (final_usage c), MessageStop] \<and>
    receive_all k body = Some k' \<and> (\<forall>i. cl_open k' i = None)"
proof -
  define b where "b = (if cv_thinking c \<or> cv_text c then [BlockStop (cv_index c)] else [])"
  have eq: "close_message c = (b @ open_tool_stops c) @ [MessageDelta (cv_stop_reason c) (final_usage c), MessageStop]"
    using in_stepD(3) [OF ck] by (auto simp: close_message_def b_def Let_def)
  define k1 where "k1 = (if cv_thinking c \<or> cv_text c then k\<lparr>cl_open := (cl_open k)(cv_index c := None)\<rparr> else k)"
  have first: "receive_all k b = Some k1" using open_now [OF ck] by (auto simp: b_def k1_def)
  have tools: "cl_open k1 i = (if tool_open c i then Some ToolKind else None)" for i
    using in_stepD(2) [OF ck] not_tool_open_next [OF ck] by (auto simp: k1_def open_at_def)
  have members: "i \<in> set (open_blocks c) \<longleftrightarrow> tool_open c i" for i by (rule set_open_blocks [OF in_stepD(4) [OF ck]])
  obtain k2 where "receive_all k1 (map BlockStop (open_blocks c)) = Some k2"
      "\<forall>i. cl_open k2 i = (if i \<in> set (open_blocks c) then None else cl_open k1 i)"
    using receive_stops [OF distinct_open_blocks [OF ck], of k1] tools members by auto
  then have "receive_all k (b @ open_tool_stops c) = Some k2" "\<forall>i. cl_open k2 i = None"
    using first tools members by (simp_all add: receive_all_append open_tool_stops_blocks)
  then show ?thesis using eq by blast
qed

text \<open>
  C28. Whatever an OpenAI stream carries (malformed chunks, calls without a name, text after
  tools, chunks that fail half-way), the converted stream is a well-formed Anthropic message:
  a start, blocks with consecutive indices whose deltas are of the block's kind and fall
  between its start and its stop, no block left open, then the two closing events.
\<close>

theorem anthropic_stream_well_formed:
  "well_formed_stream (openai_stream_to_anthropic_stream uuid loads mid model n chunks)"
proof -
  define ds where "ds = concat (map (parse_openai_sse_chunk loads) chunks)"
  define c0 where "c0 = new_converter mid model n"
  obtain es c where h: "handle_all uuid loads ds c0 = (es, c)" by (cases "handle_all uuid loads ds c0")
  obtain k where k: "receive_all new_client es = Some k" "in_step loads c k"
    using keeps_handle_all [OF in_step_new h [unfolded c0_def]] by blast
  obtain body k' where b: "close_message c = body @ [MessageDelta (cv_stop_reason c) (final_usage c), MessageStop]"
      "receive_all k body = Some k'" "\<forall>i. cl_open k' i = None"
    using close_message_closes [OF k(2)] by blast
  have "openai_stream_to_anthropic_stream uuid loads mid model n chunks
      = message_start c0 # (es @ body) @ [MessageDelta (cv_stop_reason c) (final_usage c), MessageStop]"
    using h b(1) by (simp add: openai_stream_to_anthropic_stream_def ds_def c0_def)
  moreover have "receive_all new_client (es @ body) = Some k'" using k(1) b(2) by (simp add: receive_all_append)
  ultimately show ?thesis
    unfolding well_formed_stream_def message_start_def using b(3) by blast
qed

text \<open>
  The argument pieces of every tool call that has started its block add up, in the order
  sent, to the arguments received for it; once its block was closed, to a first part of them
  that is complete JSON.
\<close>

theorem tool_arguments_add_up:
  "\<exists>es c k. handle_all uuid loads ds (new_converter mid model n) = (es, c) \<and> receive_all new_client es = Some k \<and>
     (\<forall>(key, t) \<in> set (cv_tools c). if \<not> tl_started t then \<not> tl_stopped t
        else if tl_stopped t then prefix (cl_sent k (tl_block t)) (tl_arguments t) \<and>
          arguments_complete loads (cl_sent k (tl_block t))
        else cl_sent k (tl_block t) = tl_arguments t)"
proof -
  obtain es c where h: "handle_all uuid loads ds (new_converter mid model n) = (es, c)"
    by (cases "handle_all uuid loads ds (new_converter mid model n)")
  obtain k where k: "receive_all new_client es = Some k" "in_step loads c k"
    using keeps_handle_all [OF in_step_new h] by blast
  have "tool_in_step loads k t" if "(key, t) \<in> set (cv_tools c)" for key t
    using in_stepD(6) [OF k(2)] in_stepD(4) [OF k(2)] that by simp
  then have "\<forall>(key, t) \<in> set (cv_tools c). if \<not> tl_started t then \<not> tl_stopped t
      else if tl_stopped t then prefix (cl_sent k (tl_block t)) (tl_arguments t) \<and>
        arguments_complete loads (cl_sent k (tl_block t))
      else cl_sent k (tl_block t) = tl_arguments t"
    by (fastforce simp: tool_in_step_def split: if_splits)
  then show ?thesis using h k(1) by blast
qed

definition sample_call :: "json list" where
  "sample_call = [JObj [(''choices'', JArr [JObj [(''delta'', JObj [(''tool_calls'', JArr [JObj
     [(''id'', JStr ''a''), (''function'', JObj [(''name'', JStr ''f''), (''arguments'', JStr ''{1'')])]])])]])]]"

theorem tool_arguments_add_up_witness:
  "(\<exists>es c k. handle_all draw (\<lambda>s. None) sample_call (new_converter [] [] JNull) = (es, c) \<and>
     receive_all new_client es = Some k \<and>
     (\<forall>(key, t) \<in> set (cv_tools c). if \<not> tl_started t then \<not> tl_stopped t
        else if tl_stopped t then prefix (cl_sent k (tl_block t)) (tl_arguments t) \<and>
          arguments_complete (\<lambda>s. None) (cl_sent k (tl_block t))
        else cl_sent k (tl_block t) = tl_arguments t)) \<and>
   fst (handle_all draw (\<lambda>s. None) sample_call (new_converter [] [] JNull)) =
     [BlockStart 0 (ToolUseBlock (JStr ''a'') (JStr ''f'')), BlockDelta 0 (InputJsonDelta ''{1'')]"
proof
  show "fst (handle_all draw (\<lambda>s. None) sample_call (new_converter [] [] JNull)) =
     [BlockStart 0 (ToolUseBlock (JStr ''a'') (JStr ''f'')), BlockDelta 0 (InputJsonDelta ''{1'')]"
    unfolding sample_call_def by code_simp
qed (rule tool_arguments_add_up)

end
