(* ===== verification/AnthropicMessages.thy ===== *)
theory AnthropicMessages
  imports AnthropicStream
begin

text \<open>
  The conversions of whole messages in \<open>utils/anthropic.py\<close>: an Anthropic request to an OpenAI
  one, and an OpenAI response to an Anthropic one. The JSON codec (\<open>dumps\<close>, \<open>loads\<close>), the
  \<open>repr\<close> of a value that is no string, the iteration order of a set and the uuids are arguments.
\<close>

section \<open>Content parts\<close>

definition copy_cache_control :: "json \<Rightarrow> dict \<Rightarrow> dict" where
  "copy_cache_control source target =
     (if is_dict source \<and> has_key (as_dict source) ''cache_control''
      then dict_set ''cache_control'' (get (as_dict source) ''cache_control'') target else target)"

definition has_cache_control :: "json list \<Rightarrow> bool" where
  "has_cache_control blocks \<longleftrightarrow> list_ex (\<lambda>b. is_dict b \<and> has_key (as_dict b) ''cache_control'') blocks"

definition type_of :: "json \<Rightarrow> json" where
  "type_of b = get (as_dict b) ''type''"

text \<open>The blocks are parts this conversion built, so they are dicts.\<close>

definition finalize_openai_content :: "json list \<Rightarrow> json" where
  "finalize_openai_content blocks =
     (case blocks of
        [] \<Rightarrow> JStr []
      | [b] \<Rightarrow> if type_of b = JStr ''text'' \<and> \<not> has_cache_control blocks
               then get_or (as_dict b) ''text'' (JStr []) else JArr blocks
      | _ \<Rightarrow> JArr blocks)"

definition text_part :: "dict \<Rightarrow> json" where
  "text_part block = JObj (copy_cache_control (JObj block)
     [(''type'', JStr ''text''), (''text'', get_or block ''text'' (JStr []))])"

definition image_url :: "(json \<Rightarrow> string) \<Rightarrow> dict \<Rightarrow> json option" where
  "image_url repr source =
     (if get source ''type'' = JStr ''base64''
      then Some (JStr (''data:'' @ py_str repr (get_or source ''media_type'' (JStr ''image/png'')) @ '';base64,''
             @ py_str repr (get_or source ''data'' (JStr []))))
      else if get source ''type'' = JStr ''url'' then Some (get_or source ''url'' (JStr [])) else None)"

definition image_url_part :: "(json \<Rightarrow> string) \<Rightarrow> dict \<Rightarrow> py_error + json option" where
  "image_url_part repr block =
     (case get_or block ''source'' (JObj []) of
        JObj source \<Rightarrow> Inr (map_option (\<lambda>url. JObj (copy_cache_control (JObj block)
            [(''type'', JStr ''image_url''), (''image_url'', JObj [(''url'', url)])])) (image_url repr source))
      | _ \<Rightarrow> Inl AttributeError)"

definition system_part :: "json \<Rightarrow> json option" where
  "system_part b =
     (case b of
        JObj d \<Rightarrow> if get d ''type'' = JStr ''text'' then Some (text_part d) else None
      | JStr s \<Rightarrow> Some (JObj [(''type'', JStr ''text''), (''text'', JStr s)])
      | _ \<Rightarrow> None)"

definition system_message :: "json \<Rightarrow> json option" where
  "system_message system =
     (if \<not> truthy system then None
      else case system of
        JStr s \<Rightarrow> Some (JObj [(''role'', JStr ''system''), (''content'', JStr s)])
      | JArr blocks \<Rightarrow> Some (JObj [(''role'', JStr ''system''),
          (''content'', finalize_openai_content (List.map_filter system_part blocks))])
      | _ \<Rightarrow> None)"

section \<open>Tool results\<close>

definition newline :: string where
  "newline = [CHR 0x0A]"

definition document_text :: "(json \<Rightarrow> string) \<Rightarrow> dict \<Rightarrow> py_error + string" where
  "document_text repr block =
     (case get_or block ''source'' (JObj []) of
        JObj source \<Rightarrow> Inr (''[Document: '' @ py_str repr (get_or block ''title'' (JStr ''Document'')) @ '']''
          @ (let c = get_or block ''context'' (JStr []) in if truthy c then newline @ py_str repr c else [])
          @ (let d = get source ''data'' in if get source ''type'' = JStr ''text'' \<and> truthy d then newline @ py_str repr d else []))
      | _ \<Rightarrow> Inl AttributeError)"

definition search_result_text :: "(json \<Rightarrow> string) \<Rightarrow> dict \<Rightarrow> py_error + string" where
  "search_result_text repr block =
     and_then (py_iter (get_or block ''content'' (JArr []))) (\<lambda>parts.
     and_then (join_strs newline (map (\<lambda>p. get_or (as_dict p) ''text'' (JStr []))
         (filter (\<lambda>p. is_dict p \<and> type_of p = JStr ''text'') parts))) (\<lambda>body.
     Inr (''[Search Result: '' @ py_str repr (get_or block ''title'' (JStr [])) @ '']''
       @ (let s = get_or block ''source'' (JStr []) in if truthy s then newline @ ''Source: '' @ py_str repr s else [])
       @ (if body \<noteq> [] then newline @ body else []))))"

definition plain_text :: "string \<Rightarrow> json" where
  "plain_text s = JObj [(''type'', JStr ''text''), (''text'', JStr s)]"

definition tool_result_part :: "(json \<Rightarrow> string) \<Rightarrow> json \<Rightarrow> py_error + json option" where
  "tool_result_part repr block =
     (case block of
        JObj d \<Rightarrow>
          (let t = get_or d ''type'' (JStr ''text'')
           in if t = JStr ''text'' then Inr (Some (text_part d))
              else if t = JStr ''image'' then image_url_part repr d
              else if t = JStr ''document'' then and_then (document_text repr d) (\<lambda>s. Inr (Some (plain_text s)))
              else if t = JStr ''search_result'' then and_then (search_result_text repr d) (\<lambda>s. Inr (Some (plain_text s)))
              else Inr None)
      | _ \<Rightarrow> Inr None)"

definition tool_result_content :: "(json \<Rightarrow> string) \<Rightarrow> json \<Rightarrow> py_error + json" where
  "tool_result_content repr content =
     (case content of
        JStr s \<Rightarrow> Inr (JStr s)
      | JArr blocks \<Rightarrow>
          and_then (traverse (tool_result_part repr) blocks) (\<lambda>found.
          let parts = List.map_filter id found
          in if list_all (\<lambda>p. type_of p = JStr ''text'') parts \<and> \<not> has_cache_control parts
             then and_then (join_strs newline (map (\<lambda>p. get_or (as_dict p) ''text'' (JStr [])) parts)) (\<lambda>s. Inr (JStr s))
             else Inr (JArr parts))
      | _ \<Rightarrow> Inr (JStr []))"

definition mark_error :: "json \<Rightarrow> json" where
  "mark_error content =
     (case content of
        JStr s \<Rightarrow> JStr (''Error: '' @ s)
      | JArr parts \<Rightarrow> JArr (plain_text ''Error: '' # parts)
      | v \<Rightarrow> v)"

definition tool_message :: "(json \<Rightarrow> string) \<Rightarrow> dict \<Rightarrow> py_error + json" where
  "tool_message repr block =
     and_then (tool_result_content repr (get_or block ''content'' (JStr []))) (\<lambda>content.
     Inr (JObj [(''role'', JStr ''tool''), (''tool_call_id'', get_or block ''tool_use_id'' (JStr [])),
       (''content'', if truthy (get block ''is_error'') then mark_error content else content)]))"

definition openai_tool_call :: "(json \<Rightarrow> string) \<Rightarrow> (json \<Rightarrow> string) \<Rightarrow> dict \<Rightarrow> json" where
  "openai_tool_call repr dumps block =
     JObj [(''id'', get_or block ''id'' (JStr [])), (''type'', JStr ''function''),
       (''function'', JObj [(''name'', get_or block ''name'' (JStr [])),
          (''arguments'', JStr (if is_dict (get block ''input'') then dumps (get block ''input'')
             else py_str repr (get_or block ''input'' (JStr ''{}''))))])]"

section \<open>A message\<close>

record gathered =
  ga_messages :: "json list"
  ga_parts :: "json list"
  ga_tool_calls :: "json list"

definition gather_block ::
  "(json \<Rightarrow> string) \<Rightarrow> (json \<Rightarrow> string) \<Rightarrow> dict \<Rightarrow> gathered \<Rightarrow> py_error + gathered" where
  "gather_block repr dumps block g =
     (let t = get_or block ''type'' (JStr ''text'')
      in if t = JStr ''text'' then Inr (g\<lparr>ga_parts := ga_parts g @ [text_part block]\<rparr>)
         else if t = JStr ''thinking'' \<or> t = JStr ''redacted_thinking''
         then Inr (g\<lparr>ga_parts := ga_parts g @ [JObj (copy_cache_control (JObj block) block)]\<rparr>)
         else if t = JStr ''image''
         then and_then (image_url_part repr block) (\<lambda>image. Inr (case image of
              None \<Rightarrow> g | Some p \<Rightarrow> g\<lparr>ga_parts := ga_parts g @ [p]\<rparr>))
         else if t = JStr ''tool_use''
         then Inr (g\<lparr>ga_tool_calls := ga_tool_calls g @ [openai_tool_call repr dumps block]\<rparr>)
         else if t = JStr ''tool_result''
         then and_then (tool_message repr block) (\<lambda>m. Inr (g\<lparr>ga_messages := ga_messages g @ [m]\<rparr>))
         else Inr g)"

fun gather :: "(json \<Rightarrow> string) \<Rightarrow> (json \<Rightarrow> string) \<Rightarrow> json list \<Rightarrow> gathered \<Rightarrow> py_error + gathered" where
  "gather repr dumps [] g = Inr g"
| "gather repr dumps (JObj b # bs) g = and_then (gather_block repr dumps b g) (gather repr dumps bs)"
| "gather repr dumps (b # bs) g = Inl AttributeError"

definition gathered_messages :: "json \<Rightarrow> gathered \<Rightarrow> json list" where
  "gathered_messages role g =
     ga_messages g @
     (if ga_tool_calls g \<noteq> []
      then [JObj [(''role'', role), (''content'', if ga_parts g \<noteq> [] then finalize_openai_content (ga_parts g) else JStr []),
              (''tool_calls'', JArr (ga_tool_calls g))]]
      else if ga_parts g \<noteq> [] then [JObj [(''role'', role), (''content'', finalize_openai_content (ga_parts g))]]
      else [])"

definition convert_message :: "(json \<Rightarrow> string) \<Rightarrow> (json \<Rightarrow> string) \<Rightarrow> json \<Rightarrow> py_error + json list" where
  "convert_message repr dumps msg =
     (case msg of
        JObj m \<Rightarrow>
          (let role = get_or m ''role'' (JStr ''user''); content = get m ''content''
           in case content of
                JStr s \<Rightarrow> Inr [JObj [(''role'', role), (''content'', content)]]
              | JArr blocks \<Rightarrow> and_then (gather repr dumps blocks \<lparr>ga_messages = [], ga_parts = [], ga_tool_calls = []\<rparr>)
                   (\<lambda>g. Inr (gathered_messages role g))
              | _ \<Rightarrow> Inr [JObj [(''role'', role), (''content'', JStr (if truthy content then py_str repr content else []))]])
      | _ \<Rightarrow> Inl AttributeError)"

section \<open>A request\<close>

definition converted_request_params :: "string list" where
  "converted_request_params =
     [''model'', ''messages'', ''system'', ''max_tokens'', ''temperature'', ''top_p'', ''top_k'', ''stop_sequences'',
      ''stream'', ''metadata'', ''service_tier'', ''tools'', ''tool_choice'', ''reasoning_effort'']"

text \<open>The names a caller asks to forward; \<open>set_order\<close> is the iteration order of the set of them.\<close>

definition passthrough_names :: "(json \<Rightarrow> string) \<Rightarrow> json \<Rightarrow> string list" where
  "passthrough_names repr params =
     filter (\<lambda>n. n \<noteq> []) (map strip_text (case params of
        JStr s \<Rightarrow> split_on (CHR '','') s
      | JArr items \<Rightarrow> map (py_str repr) items
      | _ \<Rightarrow> []))"

definition passthrough ::
  "(json \<Rightarrow> string) \<Rightarrow> (string list \<Rightarrow> string list) \<Rightarrow> dict \<Rightarrow> json \<Rightarrow> dict" where
  "passthrough repr set_order payload params =
     (let captured = filter (\<lambda>(k, v). k \<notin> set converted_request_params) payload;
          names = passthrough_names repr params
      in if ''*'' \<in> set names then captured
         else map (\<lambda>n. (n, get captured n)) (filter (has_key captured) (set_order (from_keys names))))"

definition copy_key :: "dict \<Rightarrow> string \<Rightarrow> string \<Rightarrow> dict \<Rightarrow> dict" where
  "copy_key source k k' target = (if has_key source k then dict_set k' (get source k) target else target)"

definition response_format :: "dict \<Rightarrow> json option" where
  "response_format fmt =
     (if get fmt ''type'' = JStr ''json_schema''
      then Some (JObj [(''type'', JStr ''json_schema''), (''json_schema'', JObj
        (copy_key fmt ''strict'' ''strict'' (copy_key fmt ''description'' ''description''
          [(''name'', get_or fmt ''name'' (JStr ''response_schema'')), (''schema'', get_or fmt ''schema'' (JObj []))])))])
      else if get fmt ''type'' = JStr ''json_object'' then Some (JObj [(''type'', JStr ''json_object'')]) else None)"

definition set_if :: "string \<Rightarrow> json option \<Rightarrow> dict \<Rightarrow> dict" where
  "set_if k v d = (case v of None \<Rightarrow> d | Some x \<Rightarrow> dict_set k x d)"

definition apply_output_config :: "dict \<Rightarrow> dict \<Rightarrow> dict" where
  "apply_output_config payload target =
     (case get payload ''output_config'' of
        JObj config \<Rightarrow>
          (let t1 = (if has_key config ''effort'' \<and> \<not> has_key payload ''reasoning_effort''
                     then dict_set ''reasoning_effort'' (get config ''effort'') target else target)
           in case get config ''format'' of
                JObj fmt \<Rightarrow> set_if ''response_format'' (response_format fmt) t1
              | _ \<Rightarrow> t1)
      | _ \<Rightarrow> target)"

definition openai_tool :: "json \<Rightarrow> py_error + json" where
  "openai_tool tool =
     (case tool of
        JObj t \<Rightarrow> Inr (JObj (copy_cache_control tool [(''type'', JStr ''function''), (''function'', JObj
          [(''name'', get_or t ''name'' (JStr [])), (''description'', get_or t ''description'' (JStr [])),
           (''parameters'', get_or t ''input_schema'' (JObj []))])]))
      | _ \<Rightarrow> Inl AttributeError)"

definition openai_tool_choice :: "json \<Rightarrow> json option" where
  "openai_tool_choice choice =
     (case choice of
        JObj c \<Rightarrow>
          (let t = get_or c ''type'' (JStr ''auto'')
           in if t = JStr ''auto'' then Some (JStr ''auto'')
              else if t = JStr ''any'' then Some (JStr ''required'')
              else if t = JStr ''tool''
              then Some (JObj [(''type'', JStr ''function''), (''function'', JObj [(''name'', get_or c ''name'' (JStr []))])])
              else None)
      | _ \<Rightarrow> None)"

definition copied_params :: "(string \<times> string) list" where
  "copied_params = [(''temperature'', ''temperature''), (''top_p'', ''top_p''), (''top_k'', ''top_k''), (''stop_sequences'', ''stop''),
     (''stream'', ''stream''), (''metadata'', ''metadata''), (''service_tier'', ''service_tier'')]"

definition request_messages :: "(json \<Rightarrow> string) \<Rightarrow> (json \<Rightarrow> string) \<Rightarrow> dict \<Rightarrow> py_error + json list" where
  "request_messages repr dumps payload =
     and_then (py_iter (get_or payload ''messages'' (JArr []))) (\<lambda>msgs.
     and_then (traverse (convert_message repr dumps) msgs) (\<lambda>converted.
     Inr ((case system_message (get payload ''system'') of None \<Rightarrow> [] | Some m \<Rightarrow> [m]) @ concat converted)))"

definition request_tools :: "dict \<Rightarrow> dict \<Rightarrow> py_error + dict" where
  "request_tools payload target =
     (if \<not> has_key payload ''tools'' then Inr target
      else and_then (py_iter (get payload ''tools'')) (\<lambda>tools.
           and_then (traverse openai_tool tools) (\<lambda>ts. Inr (dict_set ''tools'' (JArr ts) target))))"

definition convert_anthropic_to_openai_payload ::
  "(json \<Rightarrow> string) \<Rightarrow> (json \<Rightarrow> string) \<Rightarrow> (string list \<Rightarrow> string list) \<Rightarrow> dict \<Rightarrow> json \<Rightarrow> py_error + dict" where
  "convert_anthropic_to_openai_payload repr dumps set_order payload params =
     and_then (request_messages repr dumps payload) (\<lambda>messages.
     let p0 = [(''model'', get_or payload ''model'' (JStr [])), (''messages'', JArr messages)];
         p1 = copy_key payload ''max_tokens'' ''max_tokens'' p0;
         p2 = dict_update p1 (passthrough repr set_order payload params);
         p3 = apply_output_config payload p2;
         p4 = copy_key payload ''reasoning_effort'' ''reasoning_effort'' p3;
         p5 = fold (\<lambda>(k, k'). copy_key payload k k') copied_params p4
     in and_then (request_tools payload p5) (\<lambda>p6.
        Inr (if has_key payload ''tool_choice''
             then set_if ''tool_choice'' (openai_tool_choice (get payload ''tool_choice'')) p6 else p6)))"

section \<open>A response\<close>

definition response_stop_reason :: "json \<Rightarrow> py_error + string" where
  "response_stop_reason r =
     (if \<not> hashable r then Inl TypeError
      else Inr (if r = JStr ''length'' then ''max_tokens'' else if r = JStr ''tool_calls'' then ''tool_use'' else ''end_turn''))"

definition thinking_block :: "json \<Rightarrow> json option" where
  "thinking_block block =
     (case block of
        JObj b \<Rightarrow>
          (if get b ''type'' = JStr ''redacted_thinking''
           then Some (JObj (filter (\<lambda>(k, v). k = ''type'' \<or> k = ''data'') b))
           else let thinking = first_truthy b [''thinking'', ''content'', ''text'']
           in if \<not> truthy thinking then None
              else Some (JObj ([(''type'', JStr ''thinking''), (''thinking'', thinking)]
                @ (if truthy (get b ''signature'') then [(''signature'', get b ''signature'')] else []))))
      | _ \<Rightarrow> None)"

definition thinking_source :: "dict \<Rightarrow> json" where
  "thinking_source message =
     (let own = py_or (get message ''thinking_blocks'') (JArr []); t = get message ''thinking''
      in if \<not> truthy own \<and> is_dict t then py_or (get (as_dict t) ''blocks'') (JArr []) else own)"

definition reasoning_source :: "dict \<Rightarrow> json" where
  "reasoning_source message =
     (let own = first_truthy message [''reasoning_content'', ''reasoning'']; t = get message ''thinking''
      in if \<not> truthy own \<and> is_str t then t else own)"

definition thinking_content :: "dict \<Rightarrow> py_error + json list" where
  "thinking_content message =
     and_then (py_iter (thinking_source message)) (\<lambda>blocks.
     let found = List.map_filter thinking_block blocks; r = reasoning_source message
     in Inr (if found = [] \<and> truthy r then [JObj [(''type'', JStr ''thinking''), (''thinking'', r)]] else found))"

definition text_content :: "dict \<Rightarrow> json list" where
  "text_content message =
     (if truthy (get message ''content'') then [JObj [(''type'', JStr ''text''), (''text'', get message ''content'')]] else [])"

text \<open>\<open>loads\<close> fails on a string that is no JSON; on a value that is no string it raises a TypeError. Both give {}.\<close>

definition tool_input :: "(string \<Rightarrow> json option) \<Rightarrow> json \<Rightarrow> json" where
  "tool_input loads a = (case a of
      JStr s \<Rightarrow> (case loads s of None \<Rightarrow> JObj [] | Some v \<Rightarrow> v)
    | _ \<Rightarrow> JObj [])"

text \<open>The nth call draws the nth uuid, whether it has an id or not.\<close>

definition tool_use_block :: "(string \<Rightarrow> json option) \<Rightarrow> string \<Rightarrow> json \<Rightarrow> py_error + json" where
  "tool_use_block loads uuid call =
     and_then (get_attr call ''function'' (JObj [])) (\<lambda>fn.
     and_then (get_attr fn ''arguments'' (JStr ''{}'')) (\<lambda>arguments.
     Inr (JObj [(''type'', JStr ''tool_use''), (''id'', get_or (as_dict call) ''id'' (JStr (''toolu_'' @ uuid))),
       (''name'', get_or (as_dict fn) ''name'' (JStr [])), (''input'', tool_input loads arguments)])))"

definition response_usage :: "dict \<Rightarrow> json \<Rightarrow> py_error + dict" where
  "response_usage u input_tokens =
     and_then (usage_input_of u) (\<lambda>input.
     Inr ([(''input_tokens'', if_given input (if_given input_tokens (JInt 0))), (''output_tokens'', if_given (usage_output_of u) (JInt 0))]
       @ filter (\<lambda>(k, v). v \<noteq> JNull)
           [(''cache_creation_input_tokens'', get u ''cache_creation_input_tokens''), (''cache_read_input_tokens'', cache_read_of u),
            (''output_tokens_details'', if_dict (get u ''output_tokens_details'') JNull),
            (''server_tool_use'', if_dict (get u ''server_tool_use'') JNull), (''service_tier'', get u ''service_tier'')]))"

definition response_content :: "(nat \<Rightarrow> string) \<Rightarrow> (string \<Rightarrow> json option) \<Rightarrow> dict \<Rightarrow> py_error + json list \<times> nat" where
  "response_content uuid loads message =
     and_then (thinking_content message) (\<lambda>thinking.
     and_then (py_iter (py_or (get message ''tool_calls'') (JArr []))) (\<lambda>calls.
     and_then (traverse (\<lambda>(i, call). tool_use_block loads (uuid i) call) (List.enumerate 0 calls)) (\<lambda>tools.
     Inr (thinking @ text_content message @ tools, length calls))))"

definition convert_openai_to_anthropic_response ::
  "(nat \<Rightarrow> string) \<Rightarrow> (string \<Rightarrow> json option) \<Rightarrow> json \<Rightarrow> string \<Rightarrow> json \<Rightarrow> py_error + dict" where
  "convert_openai_to_anthropic_response uuid loads response model input_tokens =
     and_then (get_attr response ''choices'' JNull) (\<lambda>choices.
     and_then (if truthy choices then first_item choices else Inr (JObj [])) (\<lambda>choice.
     and_then (get_attr choice ''message'' (JObj [])) (\<lambda>message0.
     and_then (response_stop_reason (get_or (as_dict choice) ''finish_reason'' (JStr ''stop''))) (\<lambda>stop_reason.
     case message0 of
       JObj message \<Rightarrow>
         and_then (response_content uuid loads message) (\<lambda>(content, drawn).
         case py_or (get (as_dict response) ''usage'') (JObj []) of
           JObj u \<Rightarrow>
             and_then (response_usage u input_tokens) (\<lambda>usage.
             Inr [(''id'', get_or (as_dict response) ''id'' (JStr (''msg_'' @ uuid drawn))), (''type'', JStr ''message''),
               (''role'', JStr ''assistant''), (''content'', JArr content),
               (''model'', if model \<noteq> [] then JStr model else get_or (as_dict response) ''model'' (JStr [])),
               (''stop_reason'', JStr stop_reason), (''stop_sequence'', JNull), (''usage'', JObj usage)])
         | _ \<Rightarrow> Inl AttributeError)
     | _ \<Rightarrow> Inl AttributeError))))"

section \<open>Which parameters a converted request carries\<close>

definition first_some :: "'a option \<Rightarrow> 'a option \<Rightarrow> 'a option" where
  "first_some a b = (case a of None \<Rightarrow> b | Some v \<Rightarrow> Some v)"

lemma first_some_simps [simp]: "first_some None b = b" "first_some (Some v) b = Some v" "first_some a None = a"
  by (simp_all add: first_some_def split: option.split)

lemma map_of_copy_key:
  "map_of (copy_key source k k' d) x = (if x = k' then first_some (map_of source k) (map_of d x) else map_of d x)"
  by (auto simp: copy_key_def has_key_def get_or_def)

lemma map_of_set_if: "map_of (set_if k v d) x = (if x = k then first_some v (map_of d x) else map_of d x)"
  by (auto simp: set_if_def split: option.split)

text \<open>The forwarded parameters: those the conversion does not handle, all of them or the named ones.\<close>

definition forwarded :: "(json \<Rightarrow> string) \<Rightarrow> dict \<Rightarrow> json \<Rightarrow> string \<Rightarrow> json option" where
  "forwarded repr payload params k =
     (let names = set (passthrough_names repr params)
      in if k \<notin> set converted_request_params \<and> (''*'' \<in> names \<or> k \<in> names) then map_of payload k else None)"

lemma map_of_captured:
  "map_of (filter (\<lambda>(k, v). k \<notin> S) payload) k = (if k \<in> S then None else map_of payload k)"
  by (induction payload) auto

lemma map_of_passthrough:
  assumes order: "\<And>xs. set (set_order xs) = set xs" and keys: "distinct (map fst payload)"
  shows "map_of (dict_update d (passthrough repr set_order payload params)) k =
    first_some (forwarded repr payload params k) (map_of d k)"
proof -
  define captured where "captured = filter (\<lambda>(k, v). k \<notin> set converted_request_params) payload"
  have cap: "map_of captured k = (if k \<in> set converted_request_params then None else map_of payload k)" for k
    unfolding captured_def by (rule map_of_captured)
  have dist: "distinct (map fst captured)" unfolding captured_def using keys by (rule distinct_map_filterI)
  define names where "names = passthrough_names repr params"
  have pass: "passthrough repr set_order payload params = (if ''*'' \<in> set names then captured
      else map (\<lambda>n. (n, get captured n)) (filter (has_key captured) (set_order (from_keys names))))"
    unfolding passthrough_def captured_def names_def Let_def by (rule refl)
  have fwd: "forwarded repr payload params k = (if ''*'' \<in> set names \<or> k \<in> set names then map_of captured k else None)"
    unfolding forwarded_def Let_def cap names_def by (cases "k \<in> set converted_request_params") simp_all
  have has: "has_key captured n \<Longrightarrow> map_of captured n = Some (get captured n)" for n
    by (auto simp: has_key_def get_or_def)
  show ?thesis
  proof (cases "''*'' \<in> set names")
    case True
    have "map_of (dict_update d captured) k = (if k \<in> fst ` set captured then map_of captured k else map_of d k)"
      by (rule map_of_dict_update) (use dist in simp)
    moreover have "k \<in> fst ` set captured \<longleftrightarrow> map_of captured k \<noteq> None" by (simp add: map_of_eq_None_iff)
    ultimately show ?thesis unfolding pass fwd using True by (auto simp: first_some_def split: option.split)
  next
    case False
    let ?kvs = "map (\<lambda>n. (n, get captured n)) (filter (has_key captured) (set_order (from_keys names)))"
    have "map_of (dict_update d ?kvs) k = (if k \<in> fst ` set ?kvs then map_of captured k else map_of d k)"
      by (rule map_of_dict_update) (auto simp: has)
    moreover have "k \<in> fst ` set ?kvs \<longleftrightarrow> has_key captured k \<and> k \<in> set names"
      by (auto simp add: order image_image)
    ultimately show ?thesis unfolding pass fwd using False by (auto simp: has_key_def first_some_def split: option.split)
  qed
qed

definition config_of :: "dict \<Rightarrow> dict" where
  "config_of payload = as_dict (get payload ''output_config'')"

definition effort_param :: "dict \<Rightarrow> json option" where
  "effort_param payload =
     (if has_key payload ''reasoning_effort'' then map_of payload ''reasoning_effort'' else map_of (config_of payload) ''effort'')"

definition format_param :: "dict \<Rightarrow> json option" where
  "format_param payload =
     (if is_dict (get (config_of payload) ''format'') then response_format (as_dict (get (config_of payload) ''format'')) else None)"

lemma map_of_output_config:
  "map_of (apply_output_config payload d) k =
     (if k = ''reasoning_effort''
      then first_some (if has_key payload ''reasoning_effort'' then None else map_of (config_of payload) ''effort'') (map_of d k)
      else if k = ''response_format'' then first_some (format_param payload) (map_of d k)
      else map_of d k)"
proof (cases "get payload ''output_config''")
  case (JObj config)
  define t1 where "t1 = (if has_key config ''effort'' \<and> \<not> has_key payload ''reasoning_effort''
      then dict_set ''reasoning_effort'' (get config ''effort'') d else d)"
  have config: "config_of payload = config" using JObj by (simp add: config_of_def)
  have eq: "apply_output_config payload d = set_if ''response_format'' (format_param payload) t1"
    unfolding apply_output_config_def format_param_def t1_def config
    using JObj by (cases "get config ''format''") (simp_all add: set_if_def Let_def)
  have "map_of t1 k = (if k = ''reasoning_effort''
      then first_some (if has_key payload ''reasoning_effort'' then None else map_of config ''effort'') (map_of d k) else map_of d k)"
    by (cases "map_of config ''effort''") (simp_all add: t1_def has_key_def get_or_def)
  then show ?thesis unfolding eq map_of_set_if config by (simp only: split: if_split) simp
qed (simp_all add: apply_output_config_def config_of_def format_param_def get_or_def)

text \<open>What the converted request carries under each name.\<close>

definition request_param :: "(json \<Rightarrow> string) \<Rightarrow> (json \<Rightarrow> string) \<Rightarrow> dict \<Rightarrow> json \<Rightarrow> string \<Rightarrow> json option" where
  "request_param repr dumps payload params k =
     (if k = ''model'' then Some (get_or payload ''model'' (JStr []))
      else if k = ''messages''
      then (case request_messages repr dumps payload of Inl e \<Rightarrow> None | Inr ms \<Rightarrow> Some (JArr ms))
      else if k = ''tools'' then (case request_tools payload [] of Inl e \<Rightarrow> None | Inr d \<Rightarrow> map_of d ''tools'')
      else if k = ''tool_choice'' then Option.bind (map_of payload ''tool_choice'') openai_tool_choice
      else if k = ''reasoning_effort'' then effort_param payload
      else if k = ''response_format''
      then first_some (format_param payload) (forwarded repr payload params k)
      else if k = ''stop''
      then first_some (map_of payload ''stop_sequences'') (forwarded repr payload params k)
      else if k \<in> {''max_tokens'', ''temperature'', ''top_p'', ''top_k'', ''stream'', ''metadata'', ''service_tier''}
      then map_of payload k
      else forwarded repr payload params k)"

lemma forwarded_converted: "k \<in> set converted_request_params \<Longrightarrow> forwarded repr payload params k = None"
  by (simp add: forwarded_def Let_def)

lemma map_of_request_tools:
  assumes "request_tools payload d = Inr d'"
  shows "map_of d' k = (if k = ''tools'' \<and> has_key payload ''tools''
    then (case request_tools payload [] of Inl e \<Rightarrow> None | Inr d \<Rightarrow> map_of d ''tools'') else map_of d k)"
  using assms by (auto simp: request_tools_def and_then_Inr split: if_splits)

lemma map_of_copied_params:
  "map_of (fold (\<lambda>(k, k'). copy_key payload k k') copied_params d) k =
     (if k = ''stop'' then first_some (map_of payload ''stop_sequences'') (map_of d k)
      else if k \<in> {''temperature'', ''top_p'', ''top_k'', ''stream'', ''metadata'', ''service_tier''} 
      then first_some (map_of payload k) (map_of d k) else map_of d k)"
  by (simp add: copied_params_def map_of_copy_key)

lemma request_param_of_result:
  assumes order: "\<And>xs. set (set_order xs) = set xs" and keys: "distinct (map fst payload)"
    and ok: "convert_anthropic_to_openai_payload repr dumps set_order payload params = Inr r"
  shows "map_of r k = request_param repr dumps payload params k"
proof -
  obtain ms where ms: "request_messages repr dumps payload = Inr ms"
    using ok by (auto simp: convert_anthropic_to_openai_payload_def and_then_Inr)
  define p1 where "p1 = copy_key payload ''max_tokens'' ''max_tokens''
      [(''model'', get_or payload ''model'' (JStr [])), (''messages'', JArr ms)]"
  define p2 where "p2 = dict_update p1 (passthrough repr set_order payload params)"
  define p3 where "p3 = apply_output_config payload p2"
  define p4 where "p4 = copy_key payload ''reasoning_effort'' ''reasoning_effort'' p3"
  define p5 where "p5 = fold (\<lambda>(k, k'). copy_key payload k k') copied_params p4"
  obtain p6 where p6: "request_tools payload p5 = Inr p6"
    and r: "r = (if has_key payload ''tool_choice''
             then set_if ''tool_choice'' (openai_tool_choice (get payload ''tool_choice'')) p6 else p6)"
    using ok ms by (auto simp: convert_anthropic_to_openai_payload_def and_then_Inr Let_def p1_def p2_def p3_def p4_def p5_def)
  have s1: "map_of p1 k = (if k = ''model'' then Some (get_or payload ''model'' (JStr []))
      else if k = ''messages'' then Some (JArr ms) else if k = ''max_tokens'' then map_of payload k else None)"
    by (simp add: p1_def map_of_copy_key)
  have s2: "map_of p2 k = first_some (forwarded repr payload params k) (map_of p1 k)"
    unfolding p2_def by (rule map_of_passthrough [OF order keys])
  have s3: "map_of p3 k = (if k = ''reasoning_effort''
      then first_some (if has_key payload ''reasoning_effort'' then None else map_of (config_of payload) ''effort'') (map_of p2 k)
      else if k = ''response_format'' then first_some (format_param payload) (map_of p2 k) else map_of p2 k)"
    unfolding p3_def by (rule map_of_output_config)
  have s4: "map_of p4 k = (if k = ''reasoning_effort'' then first_some (map_of payload k) (map_of p3 k) else map_of p3 k)"
    by (simp add: p4_def map_of_copy_key)
  note s5 = map_of_copied_params [of payload p4 k, folded p5_def]
  note s6 = map_of_request_tools [OF p6, of k]
  have s7: "map_of r k = (if k = ''tool_choice'' then first_some (Option.bind (map_of payload k) openai_tool_choice) (map_of p6 k) else map_of p6 k)"
    unfolding r by (auto simp: map_of_set_if has_key_def get_or_def)
  note steps = s7 s6 s5 s4 s3 s2 s1
  show ?thesis
  proof (cases "k \<in> set converted_request_params")
    case True
    then have fwd: "forwarded repr payload params k = None" by (rule forwarded_converted)
    have effort: "first_some (map_of payload ''reasoning_effort'')
        (if has_key payload ''reasoning_effort'' then None else map_of (config_of payload) ''effort'') = effort_param payload"
      by (cases "map_of payload ''reasoning_effort''") (simp_all add: effort_param_def has_key_def)
    have no_tools: "\<not> has_key payload ''tools'' \<Longrightarrow> request_tools payload [] = Inr []"
      by (simp add: request_tools_def)
    from True show ?thesis
      unfolding steps request_param_def fwd unfolding converted_request_params_def list.set
      by (elim insertE emptyE) (simp_all add: effort no_tools ms)
  next
    case False
    then show ?thesis unfolding steps request_param_def
      by (cases "k = ''stop''"; cases "k = ''response_format''") (simp_all add: converted_request_params_def)
  qed
qed

text \<open>
  C29. The converted request, name by name: parameters the conversion handles come only from
  their own source and no forwarded parameter can replace model, messages, tools or the
  sampling settings; a forwarded raw stop or response_format gives way to stop_sequences and
  to output_config; everything else the caller named is forwarded as it was, and nothing more.
\<close>

theorem converted_request_exact:
  assumes "\<And>xs. set (set_order xs) = set xs" and "distinct (map fst payload)"
    and "convert_anthropic_to_openai_payload repr dumps set_order payload params = Inr r"
  shows "map_of r k = request_param repr dumps payload params k"
  using assms by (rule request_param_of_result)

definition sample_request :: dict where
  "sample_request = [(''model'', JStr ''m''), (''stop'', JStr ''x''), (''seed'', JInt 7), (''stop_sequences'', JStr ''y'')]"

theorem converted_request_exact_witness:
  "\<exists>r. convert_anthropic_to_openai_payload (\<lambda>v. []) (\<lambda>v. []) id sample_request (JStr ''stop, seed'') = Inr r \<and>
     (\<forall>k. map_of r k = request_param (\<lambda>v. []) (\<lambda>v. []) sample_request (JStr ''stop, seed'') k) \<and>
     map_of r ''stop'' = Some (JStr ''y'') \<and> map_of r ''seed'' = Some (JInt 7)"
proof -
  let ?r = "[(''model'', JStr ''m''), (''messages'', JArr []), (''stop'', JStr ''y''), (''seed'', JInt 7)]"
  have ok: "convert_anthropic_to_openai_payload (\<lambda>v. []) (\<lambda>v. []) id sample_request (JStr ''stop, seed'') = Inr ?r"
    unfolding sample_request_def by code_simp
  have "distinct (map fst sample_request)" unfolding sample_request_def by code_simp
  then have "map_of ?r k = request_param (\<lambda>v. []) (\<lambda>v. []) sample_request (JStr ''stop, seed'') k" for k
    by (rule converted_request_exact [OF _ _ ok, rotated]) simp
  then show ?thesis using ok by (intro exI [of _ ?r]) simp
qed

section \<open>The two conversions of usage\<close>

text \<open>
  The usage a client is told at the end of a stream is the usage the non-streamed response
  reports for the same upstream usage (and both fail together), except that a stream leaves out
  input tokens nobody reported, where the response says 0.
\<close>

theorem stream_usage_matches_response:
  "case update_usage (JObj u) (new_converter mid model n) of (es, c, res) \<Rightarrow>
     (case response_usage u n of
        Inl e \<Rightarrow> res = Inl e
      | Inr r \<Rightarrow> res = Inr () \<and> (\<forall>k. map_of (final_usage c) k =
          (if k = ''input_tokens'' \<and> cv_input_tokens c = JNull then None else map_of r k)))"
proof (cases "usage_input_of u")
  case (Inl e)
  then show ?thesis by (simp add: update_usage_def response_usage_def)
next
  case (Inr input)
  define rest where "rest = filter (\<lambda>(k, v). v \<noteq> JNull)
     [(''cache_creation_input_tokens'', get u ''cache_creation_input_tokens''), (''cache_read_input_tokens'', cache_read_of u),
      (''output_tokens_details'', if_dict (get u ''output_tokens_details'') JNull),
      (''server_tool_use'', if_dict (get u ''server_tool_use'') JNull), (''service_tier'', get u ''service_tier'')]"
  obtain c where c: "update_usage (JObj u) (new_converter mid model n) = ([], c, Inr ())"
    and input: "cv_input_tokens c = if_given input n"
    and final: "final_usage c = (''output_tokens'', if_given (usage_output_of u) (JInt 0)) #
        filter (\<lambda>(k, v). v \<noteq> JNull) [(''input_tokens'', if_given input n)] @ rest"
    using Inr by (simp add: update_usage_def new_converter_def final_usage_def rest_def if_given_def)
  have "\<not> list_ex (\<lambda>(k, v). k = ''input_tokens'' \<or> k = ''output_tokens'') rest"
    unfolding rest_def by simp
  then have other: "map_of rest ''input_tokens'' = None" "map_of rest ''output_tokens'' = None"
    by (auto simp: map_of_eq_None_iff list_ex_iff)
  have resp: "response_usage u n = Inr ([(''input_tokens'', if_given input (if_given n (JInt 0))),
      (''output_tokens'', if_given (usage_output_of u) (JInt 0))] @ rest)"
    using Inr by (simp add: response_usage_def rest_def)
  show ?thesis
    unfolding c resp using other by (auto simp: final input if_given_def)
qed

section \<open>A reply and the next request\<close>

text \<open>An OpenAI tool call by its id, name and arguments, and an assistant message.\<close>

definition openai_call :: "string \<times> string \<times> string \<Rightarrow> json" where
  "openai_call = (\<lambda>(i, n, a). JObj [(''id'', JStr i), (''type'', JStr ''function''),
     (''function'', JObj [(''name'', JStr n), (''arguments'', JStr a)])])"

definition assistant_message :: "string \<Rightarrow> (string \<times> string \<times> string) list \<Rightarrow> json" where
  "assistant_message s calls = JObj ([(''role'', JStr ''assistant''), (''content'', JStr s)] @
     (if calls = [] then [] else [(''tool_calls'', JArr (map openai_call calls))]))"

definition call_block :: "(string \<Rightarrow> json option) \<Rightarrow> string \<times> string \<times> string \<Rightarrow> dict" where
  "call_block loads = (\<lambda>(i, n, a). [(''type'', JStr ''tool_use''), (''id'', JStr i), (''name'', JStr n),
     (''input'', tool_input loads (JStr a))])"

lemma tool_use_block_call: "tool_use_block loads u (openai_call call) = Inr (JObj (call_block loads call))"
  by (cases call) (simp add: tool_use_block_def openai_call_def call_block_def get_or_def)

lemma traverse_calls:
  "traverse (\<lambda>(i, c). tool_use_block loads (uuid i) c) (List.enumerate k (map openai_call calls))
     = Inr (map (\<lambda>call. JObj (call_block loads call)) calls)"
  by (induction calls arbitrary: k) (simp_all add: tool_use_block_call)

lemma gather_calls:
  assumes "\<forall>(i, n, a) \<in> set calls. \<exists>d. loads a = Some (JObj d)"
  shows "gather repr dumps (map (\<lambda>call. JObj (call_block loads call)) calls) g =
    Inr (g\<lparr>ga_tool_calls := ga_tool_calls g @ map (\<lambda>(i, n, a). openai_call (i, n, dumps (the (loads a)))) calls\<rparr>)"
  using assms
proof (induction calls arbitrary: g)
  case (Cons call calls)
  obtain i n a where call: "call = (i, n, a)" by (cases call)
  obtain d where d: "loads a = Some (JObj d)" using Cons.prems call by auto
  have "gather_block repr dumps (call_block loads call) g =
      Inr (g\<lparr>ga_tool_calls := ga_tool_calls g @ [openai_call (i, n, dumps (JObj d))]\<rparr>)"
    by (simp add: gather_block_def call_block_def call tool_input_def d get_or_def openai_tool_call_def openai_call_def)
  then show ?case using Cons.IH Cons.prems by (simp add: call d)
qed simp

lemma response_content_reply:
  assumes "assistant_message s calls = JObj m"
  shows "response_content uuid loads m =
    Inr ((if s = [] then [] else [plain_text s]) @ map (\<lambda>call. JObj (call_block loads call)) calls, length calls)"
proof -
  have m: "m = [(''role'', JStr ''assistant''), (''content'', JStr s)] @
      (if calls = [] then [] else [(''tool_calls'', JArr (map openai_call calls))])"
    using assms by (simp add: assistant_message_def)
  have keys: "get m ''thinking_blocks'' = JNull" "get m ''thinking'' = JNull" "get m ''reasoning_content'' = JNull"
      "get m ''reasoning'' = JNull" "get m ''content'' = JStr s"
      "get m ''tool_calls'' = (if calls = [] then JNull else JArr (map openai_call calls))"
    by (simp_all add: m get_or_def)
  have "thinking_content m = Inr []"
    by (simp add: thinking_content_def thinking_source_def reasoning_source_def keys py_or_def)
  moreover have "py_iter (py_or (get m ''tool_calls'') (JArr [])) = Inr (map openai_call calls)"
    by (simp add: keys py_or_def)
  moreover have "text_content m = (if s = [] then [] else [plain_text s])"
    by (simp add: text_content_def keys plain_text_def)
  ultimately show ?thesis by (simp add: response_content_def traverse_calls)
qed

text \<open>
  C30. A reply without reasoning survives the round trip: an OpenAI reply whose content is a text
  (maybe empty, when it calls tools) and whose calls' arguments parse to objects, converted for
  an Anthropic client, sent back by the client as the assistant turn of its next request and
  converted again, has the text, the call ids, the names and the order it had, and as arguments
  those it had, parsed and printed again.
\<close>

theorem reply_roundtrip:
  assumes "s \<noteq> [] \<or> calls \<noteq> []"
    and "\<forall>(i, n, a) \<in> set calls. \<exists>d. loads a = Some (JObj d)"
  shows "and_then (convert_openai_to_anthropic_response uuid loads
        (JObj [(''choices'', JArr [JObj [(''message'', assistant_message s calls)]])]) model tokens)
      (\<lambda>r. convert_message repr dumps (JObj [(''role'', get r ''role''), (''content'', get r ''content'')])) =
    Inr [assistant_message s (map (\<lambda>(i, n, a). (i, n, dumps (the (loads a)))) calls)]"
proof -
  obtain m where m: "assistant_message s calls = JObj m" by (simp add: assistant_message_def)
  define blocks where "blocks = (if s = [] then [] else [plain_text s]) @ map (\<lambda>call. JObj (call_block loads call)) calls"
  obtain r where r: "convert_openai_to_anthropic_response uuid loads
      (JObj [(''choices'', JArr [JObj [(''message'', assistant_message s calls)]])]) model tokens = Inr r"
    and role: "get r ''role'' = JStr ''assistant''" and content: "get r ''content'' = JArr blocks"
    using response_content_reply [OF m, of uuid loads]
    by (simp add: convert_openai_to_anthropic_response_def m get_or_def response_stop_reason_def hashable_def
        py_or_def response_usage_def usage_input_of_def blocks_def)
  define g0 where "g0 = \<lparr>ga_messages = [], ga_parts = (if s = [] then [] else [plain_text s]), ga_tool_calls = []\<rparr>"
  have "gather repr dumps blocks \<lparr>ga_messages = [], ga_parts = [], ga_tool_calls = []\<rparr>
      = gather repr dumps (map (\<lambda>call. JObj (call_block loads call)) calls) g0"
    by (simp add: blocks_def g0_def plain_text_def gather_block_def get_or_def text_part_def copy_cache_control_def has_key_def)
  also have "\<dots> = Inr (g0\<lparr>ga_tool_calls := map (\<lambda>(i, n, a). openai_call (i, n, dumps (the (loads a)))) calls\<rparr>)"
    using gather_calls [OF assms(2), of repr dumps g0] by (simp add: g0_def)
  finally have gathered: "gather repr dumps blocks \<lparr>ga_messages = [], ga_parts = [], ga_tool_calls = []\<rparr> =
      Inr (g0\<lparr>ga_tool_calls := map (\<lambda>(i, n, a). openai_call (i, n, dumps (the (loads a)))) calls\<rparr>)" .
  have "finalize_openai_content [plain_text s] = JStr s"
    by (simp add: finalize_openai_content_def plain_text_def type_of_def has_cache_control_def has_key_def get_or_def)
  then have "convert_message repr dumps (JObj [(''role'', JStr ''assistant''), (''content'', JArr blocks)]) =
      Inr [assistant_message s (map (\<lambda>(i, n, a). (i, n, dumps (the (loads a)))) calls)]"
    using assms(1) gathered
    by (auto simp: convert_message_def get_or_def gathered_messages_def g0_def assistant_message_def comp_def case_prod_unfold)
  then show ?thesis using r role content by simp
qed

theorem reply_roundtrip_witness:
  "\<exists>loads dumps. and_then (convert_openai_to_anthropic_response draw loads
        (JObj [(''choices'', JArr [JObj [(''message'', assistant_message ''hi'' [(''a'', ''f'', ''{ }'')])]])]) [] JNull)
      (\<lambda>r. convert_message (\<lambda>v. []) dumps (JObj [(''role'', get r ''role''), (''content'', get r ''content'')])) =
    Inr [assistant_message ''hi'' [(''a'', ''f'', ''{}'')]]"
  using reply_roundtrip [of "''hi''" "[(''a'', ''f'', ''{ }'')]" "\<lambda>s. Some (JObj [])" draw "[]" JNull "\<lambda>v. []" "\<lambda>v. ''{}''"]
  by (intro exI [of _ "\<lambda>s. Some (JObj [])"] exI [of _ "\<lambda>v. ''{}''"]) simp

end
