(* ===== verification/ChatFork.thy ===== *)
theory ChatFork
  imports ChatHistory
begin

text \<open>
  Forking a chat at a message (\<open>utils/chat_fork.py\<close>): the branch of the message is copied, with
  its links rebuilt, into the history of a new chat. The messages are as in \<open>ChatHistory\<close>.
\<close>

datatype fork_error = NoMessages | BranchCycle | MessageNotFound

function fork_branch :: "messages \<Rightarrow> string option \<Rightarrow> string list \<Rightarrow> fork_error + messages" where
  "fork_branch ms i seen =
     (case i of
        None \<Rightarrow> Inr []
      | Some k \<Rightarrow>
          if k = [] then Inr []
          else if k \<in> set seen then Inl BranchCycle
          else case map_of ms k of
            None \<Rightarrow> Inl MessageNotFound
          | Some m \<Rightarrow> and_then (fork_branch ms (parent_of m) (k # seen)) (\<lambda>rest. Inr ((k, m) # rest)))"
  by pat_completeness auto
termination
proof (relation "measure (\<lambda>(ms, i, seen). card (set (map fst ms) - set seen))", goal_cases)
  case (2 ms i seen k m)
  then have "k \<in> set (map fst ms)" "k \<notin> set seen" using known_iff [of ms k] by simp_all
  then have "set (map fst ms) - set (k # seen) \<subset> set (map fst ms) - set seen" by auto
  then have "card (set (map fst ms) - set (k # seen)) < card (set (map fst ms) - set seen)"
    by (rule psubset_card_mono [rotated]) simp
  then show ?case by simp
qed simp

declare fork_branch.simps [simp del]

definition copied_message :: "string \<Rightarrow> string option \<Rightarrow> dict \<Rightarrow> dict" where
  "copied_message i p m = set_children [] (set_parent p (dict_set ''id'' (JStr i) m))"

fun fork_copy :: "messages \<Rightarrow> string option \<Rightarrow> messages \<Rightarrow> messages" where
  "fork_copy done_so_far p [] = done_so_far"
| "fork_copy done_so_far p ((i, m) # rest) =
     fork_copy
       (AList.update i (copied_message i p m)
         (case p of None \<Rightarrow> done_so_far | Some q \<Rightarrow> update_at q (set_children [i]) done_so_far))
       (Some i) rest"

text \<open>The history of the fork, and its messages in order: the same dicts, with their final links.\<close>

definition build_fork_history :: "messages \<Rightarrow> string \<Rightarrow> fork_error + history \<times> dict list" where
  "build_fork_history ms source =
     (if ms = [] then Inl NoMessages
      else and_then (fork_branch ms (Some source) []) (\<lambda>branch.
        let copies = fork_copy [] None (rev branch)
        in Inr (\<lparr>hi_messages = copies, hi_current = Some source, hi_rest = []\<rparr>, map snd copies)))"

section \<open>What the walk finds\<close>

lemma fork_branch_None [simp]: "fork_branch ms None seen = Inr []"
  by (subst fork_branch.simps) simp

lemma fork_branch_Some:
  "fork_branch ms (Some k) seen =
     (if k = [] then Inr [] else if k \<in> set seen then Inl BranchCycle
      else case map_of ms k of None \<Rightarrow> Inl MessageNotFound
        | Some m \<Rightarrow> and_then (fork_branch ms (parent_of m) (k # seen)) (\<lambda>rest. Inr ((k, m) # rest)))"
  by (subst fork_branch.simps) simp

lemma step_up_known: "map_of ms k = Some m \<Longrightarrow> step_up ms k = (if parent_of m = Some [] then None else parent_of m)"
  by (auto simp: step_up_def parent_at_def split: option.split)

text \<open>On success the branch is the walk of \<open>Chain\<close>, every message of it known, up to a root.\<close>

lemma fork_branch_trail:
  assumes "fork_branch ms n seen = Inr br"
  shows "map fst br = trail (step_up ms) (map fst ms) (if n = Some [] then None else n) seen \<and>
    (\<forall>(k, m) \<in> set br. map_of ms k = Some m \<and> k \<noteq> []) \<and> (br \<noteq> [] \<longrightarrow> step_up ms (fst (last br)) = None)"
  using assms
proof (induction ms n seen arbitrary: br rule: fork_branch.induct)
  case (1 ms n seen)
  show ?case
  proof (cases "n = None \<or> n = Some []")
    case True
    then show ?thesis using "1.prems" by (auto simp: fork_branch_Some)
  next
    case False
    then obtain k where k: "n = Some k" "k \<noteq> []" by auto
    from "1.prems" k obtain m where m: "k \<notin> set seen" "map_of ms k = Some m"
      by (auto simp: fork_branch_Some split: if_splits option.splits)
    from "1.prems" k m obtain rest where rest: "fork_branch ms (parent_of m) (k # seen) = Inr rest" "br = (k, m) # rest"
      by (auto simp: fork_branch_Some and_then_Inr)
    note IH = "1.IH" [OF k(1,2) m rest(1)]
    have known: "k \<in> set (map fst ms)" using m(2) known_iff [of ms k] by simp
    have up: "(if parent_of m = Some [] then None else parent_of m) = step_up ms k" by (simp add: step_up_known [OF m(2)])
    have "map fst br = trail (step_up ms) (map fst ms) (Some k) seen"
      using IH known m(1) unfolding up by (simp add: rest(2) trail_Some)
    moreover have "step_up ms k = None" if "rest = []"
    proof (rule ccontr)
      assume "step_up ms k \<noteq> None"
      then obtain p where p: "step_up ms k = Some p" by blast
      then have "parent_of m = Some p" "p \<noteq> []" using up by (auto split: if_splits)
      then show False using rest(1) that by (auto simp: fork_branch_Some and_then_Inr split: if_splits option.splits)
    qed
    ultimately show ?thesis using IH k m(2) by (auto simp: rest(2))
  qed
qed

text \<open>On an error the chain leads to an unknown id, or back to a message already passed.\<close>

lemma fork_branch_error:
  assumes "fork_branch ms (Some k) seen = Inl e" and "k \<notin> set seen"
  shows "(e = MessageNotFound \<and> (\<exists>j. (k, j) \<in> (link (step_up ms) (map fst ms))\<^sup>* \<and> map_of ms j = None)) \<or>
    (e = BranchCycle \<and> (\<exists>j l. (k, j) \<in> (link (step_up ms) (map fst ms))\<^sup>* \<and> (j, l) \<in> link (step_up ms) (map fst ms) \<and>
       (l \<in> set seen \<or> (l, j) \<in> (link (step_up ms) (map fst ms))\<^sup>*)))"
  using assms
proof (induction ms "Some k" seen arbitrary: k rule: fork_branch.induct)
  case (1 ms seen k)
  let ?L = "link (step_up ms) (map fst ms)"
  have k: "k \<noteq> []" using "1.prems" by (auto simp: fork_branch_Some)
  show ?case
  proof (cases "map_of ms k")
    case None
    then show ?thesis using "1.prems" k by (auto simp: fork_branch_Some)
  next
    case (Some m)
    have "fork_branch ms (parent_of m) (k # seen) = Inl e"
      using "1.prems" k Some by (cases "fork_branch ms (parent_of m) (k # seen)") (simp_all add: fork_branch_Some)
    moreover from this obtain p where p: "parent_of m = Some p" by (cases "parent_of m") auto
    ultimately have p: "parent_of m = Some p" "fork_branch ms (Some p) (k # seen) = Inl e" "p \<noteq> []"
      by (auto simp: fork_branch_Some [of ms "[]"])
    have "k \<in> set (map fst ms)" using Some known_iff [of ms k] by simp
    then have kp: "(k, p) \<in> ?L" using p(1,3) Some by (simp add: link_def step_up_known)
    show ?thesis
    proof (cases "p \<in> set (k # seen)")
      case True
      then have "e = BranchCycle" using p(2,3) by (simp add: fork_branch_Some split: if_splits)
      moreover have "p \<in> set seen \<or> (p, k) \<in> ?L\<^sup>*" using True by auto
      ultimately show ?thesis using kp by blast
    next
      case False
      from "1.hyps" [OF refl k "1.prems"(2) Some p(1) p(2) False] consider
          (gone) j where "e = MessageNotFound" "(p, j) \<in> ?L\<^sup>*" "map_of ms j = None"
        | (loop) j l where "e = BranchCycle" "(p, j) \<in> ?L\<^sup>*" "(j, l) \<in> ?L" "l \<in> set (k # seen) \<or> (l, j) \<in> ?L\<^sup>*" by blast
      then show ?thesis
      proof cases
        case gone
        then show ?thesis using converse_rtrancl_into_rtrancl [OF kp] by blast
      next
        case loop
        have kj: "(k, j) \<in> ?L\<^sup>*" using converse_rtrancl_into_rtrancl [OF kp loop(2)] .
        then have "l \<in> set seen \<or> (l, j) \<in> ?L\<^sup>*" using loop(4) by auto
        then show ?thesis using loop(1,3) kj by blast
      qed
    qed
  qed
qed

section \<open>The copy, message by message\<close>

text \<open>The copy of message \<open>n\<close> of a branch of which \<open>k\<close> messages are copied so far.\<close>

definition copy_at :: "messages \<Rightarrow> nat \<Rightarrow> nat \<Rightarrow> string \<times> dict" where
  "copy_at br k n =
     (fst (br ! n), set_children (if Suc n < k then [fst (br ! Suc n)] else [])
        (copied_message (fst (br ! n)) (if n = 0 then None else Some (fst (br ! (n - 1)))) (snd (br ! n))))"

lemma fork_copy_from:
  assumes "distinct (map fst br)" and "k \<le> length br"
  shows "fork_copy (map (copy_at br k) [0..<k]) (if k = 0 then None else Some (fst (br ! (k - 1)))) (drop k br)
    = map (copy_at br (length br)) [0..<length br]"
  using assms(2)
proof (induction "length br - k" arbitrary: k)
  case 0
  then show ?case by simp
next
  case (Suc d)
  then have k: "k < length br" by simp
  obtain i m where im: "br ! k = (i, m)" by (cases "br ! k")
  have i: "i = fst (br ! k)" by (simp add: im)
  have differ: "fst (br ! n) \<noteq> fst (br ! n')" if "n < length br" "n' < length br" "n \<noteq> n'" for n n'
    using nth_eq_iff_index_eq [OF assms(1), of n n'] that by simp
  define new where "new = copied_message i (if k = 0 then None else Some (fst (br ! (k - 1)))) m"
  have new: "(i, new) = copy_at br (Suc k) k"
    by (simp add: copy_at_def new_def im copied_message_def)
  have relink: "(case (if k = 0 then None else Some (fst (br ! (k - 1)))) of None \<Rightarrow> map (copy_at br k) [0..<k]
      | Some q \<Rightarrow> update_at q (set_children [i]) (map (copy_at br k) [0..<k])) = map (copy_at br (Suc k)) [0..<k]"
  proof (cases "k = 0")
    case False
    have "(\<lambda>(x, m). (x, if x = fst (br ! (k - 1)) then set_children [i] m else m)) (copy_at br k n) = copy_at br (Suc k) n" if "n < k" for n
    proof (cases "n = k - 1")
      case True
      then show ?thesis using False k by (simp add: copy_at_def i)
    next
      case n: False
      then show ?thesis using differ [of n "k - 1"] that k by (auto simp: copy_at_def)
    qed
    then show ?thesis using False by (simp add: update_at_def)
  qed simp
  have "AList.update i new xs = xs @ [(i, new)]" if "i \<notin> fst ` set xs" for xs
    using that by (induction xs) auto
  moreover have "i \<notin> fst ` set (map (copy_at br (Suc k)) [0..<k])"
  proof
    assume "i \<in> fst ` set (map (copy_at br (Suc k)) [0..<k])"
    then obtain n where "n < k" "i = fst (copy_at br (Suc k) n)" by auto
    then show False using differ [of n k] k by (simp add: copy_at_def i)
  qed
  ultimately have grown: "AList.update i new (map (copy_at br (Suc k)) [0..<k]) = map (copy_at br (Suc k)) [0..<Suc k]"
    by (simp add: new)
  have rest: "drop k br = (i, m) # drop (Suc k) br" using k im by (metis Cons_nth_drop_Suc)
  have IH: "fork_copy (map (copy_at br (Suc k)) [0..<Suc k]) (Some i) (drop (Suc k) br) = map (copy_at br (length br)) [0..<length br]"
    using Suc.hyps(1) [of "Suc k"] Suc.hyps(2) k by (simp add: i)
  show ?case unfolding rest fork_copy.simps new_def [symmetric] relink grown by (rule IH)
qed

lemma fork_copies: "distinct (map fst br) \<Longrightarrow> fork_copy [] None br = map (copy_at br (length br)) [0..<length br]"
  using fork_copy_from [of br 0] by simp

lemma map_of_nth: "distinct (map fst xs) \<Longrightarrow> n < length xs \<Longrightarrow> map_of xs (fst (xs ! n)) = Some (snd (xs ! n))"
  by (metis map_of_eq_Some_iff nth_mem prod.collapse)

text \<open>The copies form a single branch.\<close>

lemma copies_forest:
  assumes dist: "distinct (map fst br)" and ids: "[] \<notin> set (map fst br)"
    and copies: "copies = map (copy_at br (length br)) [0..<length br]"
  shows "map fst copies = map fst br" and "forest copies"
    and "n < length br \<Longrightarrow> parent_at copies (fst (br ! n)) = (if n = 0 then None else Some (fst (br ! (n - 1))))"
proof -
  show keys: "map fst copies = map fst br" unfolding copies by (rule nth_equalityI) (simp_all add: copy_at_def)
  have len: "length copies = length br" by (simp add: copies)
  have at: "copies ! n = copy_at br (length br) n" if "n < length br" for n using that by (simp add: copies)
  have found: "map_of copies (fst (br ! n)) = Some (snd (copy_at br (length br) n))" if "n < length br" for n
    using map_of_nth [of copies n] that at [OF that] dist [folded keys] by (simp add: len copy_at_def)
  have inside: "\<exists>n < length br. i = fst (br ! n)" if "map_of copies i = Some m" for i m
  proof -
    have "i \<in> set (map fst br)" using that known_iff [of copies i] by (simp add: keys)
    then show ?thesis unfolding in_set_conv_nth by (auto simp: nth_map)
  qed
  have parent: "parent_at copies (fst (br ! n)) = (if n = 0 then None else Some (fst (br ! (n - 1))))" if "n < length br" for n
    using that by (simp add: parent_at_def found copy_at_def copied_message_def)
  then show "n < length br \<Longrightarrow> parent_at copies (fst (br ! n)) = (if n = 0 then None else Some (fst (br ! (n - 1))))" .
  have children: "children_at copies (fst (br ! n)) = (if Suc n < length br then [fst (br ! Suc n)] else [])" if "n < length br" for n
    using that by (simp add: children_at_def found copy_at_def)
  have same: "n = n'" if "fst (br ! n) = fst (br ! n')" "n < length br" "n' < length br" for n n'
    using nth_eq_iff_index_eq [OF dist, of n n'] that by simp
  have known: "(\<exists>n < length br. i = fst (br ! n)) \<longleftrightarrow> map_of copies i \<noteq> None" for i using inside found by auto
  show "forest copies"
  proof (rule forestI)
    show "distinct (map fst copies)" "[] \<notin> set (map fst copies)" using dist ids by (simp_all add: keys)
    show "get m ''parentId'' = of_opt (parent_of m)" if "map_of copies i = Some m" for i m
      using inside [OF that] found that by (auto simp: copy_at_def copied_message_def get_set_children get_set_parent)
    show "p \<in> set (map fst copies)" if c: "parent_at copies c = Some p" for c p
    proof -
      obtain n where "n < length br" "c = fst (br ! n)" using c inside by (cases "map_of copies c") (auto simp: parent_at_def)
      then show ?thesis using c parent [of n] nth_mem [of "n - 1" "map fst br"] by (auto simp: keys split: if_splits)
    qed
    show "distinct (children_at copies p)" for p
    proof (cases "map_of copies p")
      case (Some m)
      then show ?thesis using inside [OF Some] children by auto
    qed (simp add: children_at_def)
    show "c \<in> set (children_at copies p) \<longleftrightarrow> parent_at copies c = Some p" for c p
    proof
      assume c: "c \<in> set (children_at copies p)"
      then obtain n where "n < length br" "p = fst (br ! n)" using inside by (cases "map_of copies p") (auto simp: children_at_def)
      then show "parent_at copies c = Some p" using c children [of n] parent [of "Suc n"] by (auto split: if_splits)
    next
      assume c: "parent_at copies c = Some p"
      then obtain n where "n < length br" "c = fst (br ! n)" using inside by (cases "map_of copies c") (auto simp: parent_at_def)
      then show "c \<in> set (children_at copies p)" using c parent [of n] children [of "n - 1"] by (auto split: if_splits)
    qed
    define place where "place i = length (takeWhile (\<lambda>j. j \<noteq> i) (map fst br))" for i
    have place: "place (fst (br ! n)) = n" if "n < length br" for n
    proof -
      have "takeWhile (\<lambda>j. j \<noteq> fst (br ! n)) (map fst br) = take n (map fst br)"
        by (rule takeWhile_eq_take_P_nth) (use that in \<open>auto dest!: same\<close>)
      then show ?thesis using that by (simp add: place_def)
    qed
    have "child_links copies \<subseteq> measure place"
    proof clarify
      fix p c assume "(p, c) \<in> child_links copies"
      then have c: "parent_at copies c = Some p" by (simp add: child_links_def)
      then obtain n where "n < length br" "c = fst (br ! n)" using inside by (cases "map_of copies c") (auto simp: parent_at_def)
      then show "(p, c) \<in> measure place" using c parent [of n] place [of n] place [of "n - 1"] by (auto split: if_splits)
    qed
    then show "acyclic (child_links copies)" by (rule wf_acyclic [OF wf_subset [OF wf_measure]])
  qed
qed

text \<open>
  C15. A fork returns for every history, loops included. On success its history is a well-formed
  tree of one branch: the ids from a root of the old history down to the source message, each the
  parent of the next, every message as it was but for its id and links, the source current. It
  refuses exactly a branch with a missing message or a loop, and says which.
\<close>

theorem fork_exact:
  assumes "ms \<noteq> []" and "source \<noteq> []"
  shows "case build_fork_history ms source of
      Inr (h, ordered) \<Rightarrow>
        (\<exists>ids. ids \<noteq> [] \<and> last ids = source \<and> step_up ms (hd ids) = None \<and> successively (\<lambda>p c. step_up ms c = Some p) ids \<and>
           map fst (hi_messages h) = ids \<and> forest (hi_messages h) \<and> hi_current h = Some source \<and>
           ordered = map snd (hi_messages h) \<and>
           (\<forall>(i, m) \<in> set (hi_messages h). \<exists>old. map_of ms i = Some old \<and> get m ''id'' = JStr i \<and>
              (\<forall>k. k \<notin> {''id'', ''parentId'', ''childrenIds''} \<longrightarrow> get m k = get old k)))
    | Inl e \<Rightarrow>
        (\<exists>j. (source, j) \<in> (link (step_up ms) (map fst ms))\<^sup>* \<and>
           (if e = MessageNotFound then map_of ms j = None
            else e = BranchCycle \<and> (j, j) \<in> (link (step_up ms) (map fst ms))\<^sup>+))"
proof (cases "fork_branch ms (Some source) []")
  case (Inl e)
  have "build_fork_history ms source = Inl e" by (simp add: build_fork_history_def assms(1) Inl)
  then show ?thesis using fork_branch_error [OF Inl] by (auto intro: rtrancl_into_trancl2)
next
  case (Inr branch)
  define br where "br = rev branch"
  define copies where "copies = map (copy_at br (length br)) [0..<length br]"
  note trail = fork_branch_trail [OF Inr]
  have ids: "map fst branch = trail (step_up ms) (map fst ms) (Some source) []" using trail assms(2) by simp
  have "distinct (map fst branch)" unfolding ids using distinct_trail by blast
  then have dist: "distinct (map fst br)" unfolding br_def rev_map [symmetric] distinct_rev .
  have "[] \<notin> set (map fst br)" using trail by (auto simp: br_def)
  note forest = copies_forest [OF dist this copies_def]
  have built: "build_fork_history ms source
      = Inr (\<lparr>hi_messages = copies, hi_current = Some source, hi_rest = []\<rparr>, map snd copies)"
    by (simp add: build_fork_history_def assms(1) Inr Let_def fork_copies [OF dist] copies_def flip: br_def)
  have some: "branch \<noteq> []" using ids trail_not_Nil [of source "[]" "step_up ms" "map fst ms"] by auto
  have first: "fst (hd branch) = source"
  proof (cases branch)
    case (Cons x xs)
    then have "trail (step_up ms) (map fst ms) (Some source) [] = fst x # map fst xs" using ids by simp
    then show ?thesis using trail_Cons Cons by fastforce
  qed (use some in simp)
  have "map fst copies \<noteq> []" "last (map fst copies) = source" "step_up ms (hd (map fst copies)) = None"
    using some first trail unfolding forest(1) by (simp_all add: br_def last_map last_rev hd_map hd_rev)
  moreover have "successively (\<lambda>p c. step_up ms c = Some p) (map fst copies)"
    using trail_successive [of "step_up ms" "map fst ms" "Some source" "[]"]
    unfolding forest(1) by (simp add: br_def rev_map [symmetric] ids [symmetric] del: rev_map)
  moreover have "\<exists>old. map_of ms i = Some old \<and> get m ''id'' = JStr i \<and>
      (\<forall>k. k \<notin> {''id'', ''parentId'', ''childrenIds''} \<longrightarrow> get m k = get old k)" if im: "(i, m) \<in> set copies" for i m
  proof -
    obtain n where n: "n < length br" "(i, m) = copy_at br (length br) n" using im by (auto simp: copies_def)
    then have "br ! n \<in> set branch" using nth_mem [OF n(1)] by (simp add: br_def)
    then have "map_of ms (fst (br ! n)) = Some (snd (br ! n))" using trail by auto
    then show ?thesis
      using n(2) by (auto simp: copy_at_def copied_message_def get_or_def set_children_def set_parent_def)
  qed
  ultimately show ?thesis using forest(2) by (auto simp: built)
qed

definition looping_history :: messages where
  "looping_history =
     [(''a'', [(''parentId'', JStr ''b''), (''role'', JStr ''user'')]), (''b'', [(''parentId'', JStr ''a''), (''role'', JStr ''user'')]),
      (''c'', [(''parentId'', JStr ''gone''), (''role'', JStr ''user'')])]"

theorem fork_exact_witness:
  "(case build_fork_history (hi_messages three_messages) ''b'' of
      Inr (h, ordered) \<Rightarrow> (\<exists>ids. last ids = ''b'' \<and> map fst (hi_messages h) = ids) | Inl e \<Rightarrow> False) \<and>
    build_fork_history looping_history ''a'' = Inl BranchCycle \<and>
    (\<exists>j. (''a'', j) \<in> (link (step_up looping_history) (map fst looping_history))\<^sup>* \<and>
       (j, j) \<in> (link (step_up looping_history) (map fst looping_history))\<^sup>+) \<and>
    build_fork_history looping_history ''c'' = Inl MessageNotFound"
proof -
  have runs: "case build_fork_history (hi_messages three_messages) ''b'' of Inr x \<Rightarrow> True | Inl e \<Rightarrow> False"
    "build_fork_history looping_history ''a'' = Inl BranchCycle"
    "build_fork_history looping_history ''c'' = Inl MessageNotFound"
    unfolding three_messages_def two_messages_def one_message_def no_history_def by code_simp+
  have some: "hi_messages three_messages \<noteq> []" "looping_history \<noteq> []"
    using sample_keys by (auto simp: looping_history_def)
  have good: "case build_fork_history (hi_messages three_messages) ''b'' of
      Inr (h, ordered) \<Rightarrow> (\<exists>ids. last ids = ''b'' \<and> map fst (hi_messages h) = ids) | Inl e \<Rightarrow> False"
    using fork_exact [OF some(1), of "''b''"] runs(1) by (auto split: sum.splits)
  have "\<exists>j. (''a'', j) \<in> (link (step_up looping_history) (map fst looping_history))\<^sup>* \<and>
      (j, j) \<in> (link (step_up looping_history) (map fst looping_history))\<^sup>+"
    using fork_exact [OF some(2), of "''a''"] runs(2) by simp
  with good runs(2,3) show ?thesis by blast
qed

end
