(* ===== verification/ContextBudget.thy ===== *)
theory ContextBudget
  imports MessageRows
begin

text \<open>
  When a chat's history is compacted, and where it is cut (\<open>utils/context_compaction.py\<close>): the
  settings and their limits, the token count of the messages, the latest summary checkpoint and
  the boundary between what is summarised and what is kept. The JSON printer (\<open>JSONCodec.dumps\<close>)
  is an argument.
\<close>

section \<open>Settings\<close>

record compaction_config =
  cc_enable :: bool
  cc_token_threshold :: int
  cc_token_cap :: int
  cc_retention_percentage :: int
  cc_prompt_template :: json

definition parse_positive_int :: "json \<Rightarrow> int option" where
  "parse_positive_int v = (case to_int v of Inl e \<Rightarrow> None | Inr n \<Rightarrow> if 0 < n then Some n else None)"

definition clamp_retention_percentage :: "json \<Rightarrow> int" where
  "clamp_retention_percentage v = min 50 (max 10 (case to_int v of Inl e \<Rightarrow> 40 | Inr n \<Rightarrow> n))"

definition load_config :: "dict \<Rightarrow> compaction_config" where
  "load_config values =
     (let or_else = (\<lambda>n d. case n of None \<Rightarrow> d | Some m \<Rightarrow> m);
          threshold = or_else (parse_positive_int (get values ''chat.context_compaction.token_threshold'')) 80000
      in \<lparr>cc_enable = truthy (get_or values ''chat.context_compaction.enable'' (JBool False)),
          cc_token_threshold = threshold,
          cc_token_cap = or_else (parse_positive_int (get values ''chat.context_compaction.token_cap'')) threshold,
          cc_retention_percentage = clamp_retention_percentage (get values ''chat.context_compaction.retention_percentage''),
          cc_prompt_template = py_or (get_or values ''chat.context_compaction.prompt_template'' (JStr [])) (JStr [])\<rparr>)"

definition resolve_token_threshold :: "int \<Rightarrow> int \<Rightarrow> dict \<Rightarrow> py_error + int" where
  "resolve_token_threshold global_threshold cap metadata =
     and_then (get_attr (py_or (get metadata ''params'') (JObj [])) ''compact_token_threshold'' JNull) (\<lambda>v.
       Inr (min (case parse_positive_int v of None \<Rightarrow> global_threshold | Some n \<Rightarrow> n) cap))"

section \<open>Counting tokens\<close>

definition usage_token_count :: "dict \<Rightarrow> py_error + int" where
  "usage_token_count u =
     (let zero = JInt 0 in
      and_then (to_int (py_or (py_or (get u ''prompt_tokens'') (get u ''prompt_eval_count'')) zero)) (\<lambda>prompt.
      and_then
        (if prompt = 0 \<and> (get u ''prompt_n'' \<noteq> JNull \<or> get u ''cache_n'' \<noteq> JNull)
         then and_then (to_int (py_or (get u ''prompt_n'') zero)) (\<lambda>n.
              and_then (to_int (py_or (get u ''cache_n'') zero)) (\<lambda>m. Inr (n + m)))
         else Inr prompt) (\<lambda>prompt1.
      and_then (if prompt1 = 0 then to_int (py_or (get u ''input_tokens'') zero) else Inr prompt1) (\<lambda>prompt2.
      and_then (to_int (py_or (py_or (py_or (py_or (get u ''completion_tokens'') (get u ''output_tokens''))
          (get u ''eval_count'')) (get u ''predicted_n'')) zero)) (\<lambda>completion.
        Inr (prompt2 + completion))))))"

definition estimate_text :: "string \<Rightarrow> int" where
  "estimate_text s = (if s = [] then 0 else max 1 (int (length s) div 4))"

fun estimate_tokens :: "(json \<Rightarrow> string) \<Rightarrow> json \<Rightarrow> int" where
  "estimate_tokens dumps JNull = 0"
| "estimate_tokens dumps (JStr s) = estimate_text s"
| "estimate_tokens dumps v = estimate_text (dumps v)"

definition estimate_part :: "(json \<Rightarrow> string) \<Rightarrow> json \<Rightarrow> py_error + int" where
  "estimate_part dumps item =
     (case item of
        JObj d \<Rightarrow>
          if \<not> hashable (get d ''type'') then Inl TypeError
          else if get d ''type'' \<in> {JStr ''image'', JStr ''image_url''} then Inr 1000
          else Inr (estimate_tokens dumps (py_or (py_or (get d ''text'') (get d ''content'')) item))
      | _ \<Rightarrow> Inr (estimate_tokens dumps item))"

definition estimate_content :: "(json \<Rightarrow> string) \<Rightarrow> json \<Rightarrow> py_error + int" where
  "estimate_content dumps content =
     (case content of
        JArr items \<Rightarrow> and_then (traverse (estimate_part dumps) items) (\<lambda>ns. Inr (sum_list ns))
      | _ \<Rightarrow> Inr (estimate_tokens dumps content))"

definition estimate_message :: "(json \<Rightarrow> string) \<Rightarrow> dict \<Rightarrow> py_error + int" where
  "estimate_message dumps m =
     and_then (estimate_content dumps (get m ''content'')) (\<lambda>n.
       Inr (4 + n + estimate_tokens dumps (get m ''output'') + estimate_tokens dumps (get m ''tool_calls'')
          + estimate_tokens dumps (get m ''files'')))"

definition estimate_messages_tokens :: "(json \<Rightarrow> string) \<Rightarrow> dict list \<Rightarrow> py_error + int" where
  "estimate_messages_tokens dumps msgs = and_then (traverse (estimate_message dumps) msgs) (\<lambda>ns. Inr (sum_list ns))"

text \<open>
  The latest message that states a usage other than zero: its count, and the messages after it.
  The messages are given latest first, with those already passed.
\<close>

fun latest_usage :: "dict list \<Rightarrow> dict list \<Rightarrow> py_error + (int \<times> dict list) option" where
  "latest_usage [] after = Inr None"
| "latest_usage (m # earlier) after =
     and_then (stated_usage m) (\<lambda>usage.
       case usage of
         JObj u \<Rightarrow> and_then (usage_token_count u) (\<lambda>tokens.
           if tokens = 0 then latest_usage earlier (m # after) else Inr (Some (tokens, after)))
       | _ \<Rightarrow> latest_usage earlier (m # after))"

definition context_tokens :: "(json \<Rightarrow> string) \<Rightarrow> dict list \<Rightarrow> json list \<Rightarrow> py_error + int" where
  "context_tokens dumps msgs prompts =
     and_then (latest_usage (rev msgs) []) (\<lambda>found.
       case found of
         Some (tokens, after) \<Rightarrow> and_then (estimate_messages_tokens dumps after) (\<lambda>n. Inr (tokens + n))
       | None \<Rightarrow> and_then (estimate_messages_tokens dumps msgs) (\<lambda>n.
           Inr (sum_list (map (estimate_tokens dumps) prompts) + n)))"

definition summary_json :: "string option \<Rightarrow> json" where
  "summary_json s = (case s of None \<Rightarrow> JStr [] | Some t \<Rightarrow> JStr t)"

definition exceeds_token_threshold ::
  "(json \<Rightarrow> string) \<Rightarrow> dict list \<Rightarrow> json \<Rightarrow> string option \<Rightarrow> int \<Rightarrow> py_error + bool" where
  "exceeds_token_threshold dumps msgs system_prompt summary threshold =
     (if threshold \<le> 0 then Inr False
      else and_then (context_tokens dumps msgs [system_prompt, summary_json summary]) (\<lambda>n. Inr (threshold < n)))"

section \<open>The latest checkpoint\<close>

definition stated_summary :: "dict \<Rightarrow> string option" where
  "stated_summary m =
     (case py_or (get m ''contextSummary'') (get m ''context_summary'') of
        JStr s \<Rightarrow> if strip_text s = [] then None else Some s
      | _ \<Rightarrow> None)"

fun latest_checkpoint :: "dict list \<Rightarrow> (dict list \<times> string) option" where
  "latest_checkpoint [] = None"
| "latest_checkpoint (m # msgs) =
     (case latest_checkpoint msgs of
        Some found \<Rightarrow> Some found
      | None \<Rightarrow> (case stated_summary m of None \<Rightarrow> None | Some s \<Rightarrow> Some (m # msgs, s)))"

definition apply_latest_summary_checkpoint :: "dict list \<Rightarrow> dict list \<times> string option" where
  "apply_latest_summary_checkpoint msgs =
     (case latest_checkpoint msgs of None \<Rightarrow> (msgs, None) | Some (rest, s) \<Rightarrow> (rest, Some s))"

section \<open>Where the history is cut\<close>

definition user_positions :: "dict list \<Rightarrow> nat list" where
  "user_positions msgs = filter (\<lambda>i. get (msgs ! i) ''role'' = JStr ''user'') [0..<length msgs]"

definition find_compaction_boundary :: "dict list \<Rightarrow> json \<Rightarrow> nat" where
  "find_compaction_boundary msgs retention =
     (let n = int (length msgs);
          keep = max 2 (n * clamp_retention_percentage retention div 100);
          target = max 1 (n - keep)
      in case find (\<lambda>i. int i \<le> target) (rev (drop 1 (user_positions msgs))) of None \<Rightarrow> 0 | Some i \<Rightarrow> i)"

section \<open>The limits hold\<close>

lemma parse_positive: "parse_positive_int v = Some n \<Longrightarrow> 0 < n"
  by (auto simp: parse_positive_int_def split: sum.splits if_splits)

text \<open>
  Whatever JSON the settings and the chat's own limit hold, a request's threshold is at least one token and
  at most the cap, and between a tenth and a half of the messages is retained.
\<close>

theorem compaction_limits:
  assumes "cfg = load_config values"
    and "resolve_token_threshold (cc_token_threshold cfg) (cc_token_cap cfg) metadata = Inr t"
  shows "1 \<le> t \<and> t \<le> cc_token_cap cfg \<and> 1 \<le> cc_token_threshold cfg \<and>
    10 \<le> cc_retention_percentage cfg \<and> cc_retention_percentage cfg \<le> 50"
proof -
  have pos: "0 < (case parse_positive_int v of None \<Rightarrow> d | Some m \<Rightarrow> m)" if "0 < d" for v d
    using that parse_positive by (auto split: option.split)
  have th: "0 < cc_token_threshold cfg" by (simp add: assms(1) load_config_def Let_def pos)
  then have cap: "0 < cc_token_cap cfg" by (simp add: assms(1) load_config_def Let_def pos)
  obtain v where t: "t = min (case parse_positive_int v of None \<Rightarrow> cc_token_threshold cfg | Some n \<Rightarrow> n) (cc_token_cap cfg)"
    using assms(2) by (auto simp: resolve_token_threshold_def and_then_Inr)
  have "0 < t" unfolding t using pos [OF th] cap by simp
  moreover have "10 \<le> cc_retention_percentage cfg" "cc_retention_percentage cfg \<le> 50"
    by (auto simp: assms(1) load_config_def Let_def clamp_retention_percentage_def)
  ultimately show ?thesis using th by (simp add: t)
qed

theorem compaction_limits_witness:
  "resolve_token_threshold (cc_token_threshold (load_config [(''chat.context_compaction.token_cap'', JStr '' 5_000 '')]))
     (cc_token_cap (load_config [(''chat.context_compaction.token_cap'', JStr '' 5_000 '')]))
     [(''params'', JObj [(''compact_token_threshold'', JInt 9000)])] = Inr 5000 \<and> (1::int) \<le> 5000"
proof -
  have r: "resolve_token_threshold (cc_token_threshold (load_config [(''chat.context_compaction.token_cap'', JStr '' 5_000 '')]))
     (cc_token_cap (load_config [(''chat.context_compaction.token_cap'', JStr '' 5_000 '')]))
     [(''params'', JObj [(''compact_token_threshold'', JInt 9000)])] = Inr 5000"
    by code_simp
  show ?thesis using r compaction_limits [OF refl r] by blast
qed

lemma find_last:
  assumes "sorted_wrt (<) (xs :: nat list)"
  shows "find P (rev xs) = None \<Longrightarrow> x \<in> set xs \<Longrightarrow> \<not> P x"
    and "find P (rev xs) = Some x \<Longrightarrow> x \<in> set xs \<and> P x \<and> (\<forall>y \<in> set xs. x < y \<longrightarrow> \<not> P y)"
proof -
  show "\<not> P x" if "find P (rev xs) = None" "x \<in> set xs" using that by (simp add: find_None_mem)
  show "x \<in> set xs \<and> P x \<and> (\<forall>y \<in> set xs. x < y \<longrightarrow> \<not> P y)" if "find P (rev xs) = Some x"
    using assms that
  proof (induction xs rule: rev_induct)
    case (snoc z zs)
    then show ?case by (cases "P z") (auto simp: sorted_wrt_append)
  qed simp
qed

definition is_user_at :: "dict list \<Rightarrow> nat \<Rightarrow> bool" where
  "is_user_at msgs i \<longleftrightarrow> i < length msgs \<and> get (msgs ! i) ''role'' = JStr ''user''"

lemma later_users:
  "i \<in> set (drop 1 (user_positions msgs)) \<longleftrightarrow> is_user_at msgs i \<and> (\<exists>j < i. is_user_at msgs j)"
proof -
  have set: "i \<in> set (user_positions msgs) \<longleftrightarrow> is_user_at msgs i" for i by (auto simp: user_positions_def is_user_at_def)
  have sorted: "sorted_wrt (<) (user_positions msgs)"
    unfolding user_positions_def by (rule sorted_wrt_filter) simp
  show ?thesis
  proof (cases "user_positions msgs")
    case Nil
    then show ?thesis using set by auto
  next
    case (Cons u us)
    then have "\<forall>i \<in> set us. u < i" using sorted by simp
    moreover have "is_user_at msgs i \<longleftrightarrow> i = u \<or> i \<in> set us" for i using set [of i] Cons by simp
    ultimately show ?thesis using Cons by auto
  qed
qed

text \<open>
  The history is cut before a user message that is not the first one, as late as possible
  while the retained share of the messages (two of them at least) stays; it is not cut when
  there is no such message.
\<close>

lemma compaction_boundary_exact:
  assumes "3 \<le> length msgs" and "b = find_compaction_boundary msgs retention"
    and "keep = max 2 (length msgs * nat (clamp_retention_percentage retention) div 100)"
  shows "(b = 0 \<longrightarrow> (\<forall>i. is_user_at msgs i \<and> (\<exists>j < i. is_user_at msgs j) \<longrightarrow> length msgs < i + keep)) \<and>
    (0 < b \<longrightarrow> is_user_at msgs b \<and> (\<exists>j < b. is_user_at msgs j) \<and> b + keep \<le> length msgs \<and>
       (\<forall>i. b < i \<and> is_user_at msgs i \<longrightarrow> length msgs < i + keep))"
proof -
  define r where "r = clamp_retention_percentage retention"
  have r: "10 \<le> r" "r \<le> 50" by (auto simp: r_def clamp_retention_percentage_def)
  have "int keep = max 2 (int (length msgs) * r div 100)"
    unfolding assms(3) r_def [symmetric] using r by (simp add: of_nat_max zdiv_int)
  moreover have "length msgs * nat r div 100 \<le> length msgs * 50 div 100"
    by (intro div_le_mono mult_le_mono) (use r in auto)
  then have small: "keep < length msgs" using assms(1) unfolding assms(3) r_def [symmetric] by auto
  ultimately have target: "max 1 (int (length msgs) - max 2 (int (length msgs) * r div 100)) = int (length msgs - keep)"
    by simp
  have sorted: "sorted_wrt (<) (drop 1 (user_positions msgs))"
    unfolding user_positions_def by (intro sorted_wrt_drop sorted_wrt_filter) simp
  define found where "found = find (\<lambda>i. int i \<le> int (length msgs - keep)) (rev (drop 1 (user_positions msgs)))"
  have b: "b = (case found of None \<Rightarrow> 0 | Some i \<Rightarrow> i)"
    by (simp add: assms(2) find_compaction_boundary_def Let_def target found_def flip: r_def)
  show ?thesis
  proof (cases found)
    case None
    from find_last(1) [OF sorted None [unfolded found_def]]
    have "length msgs < i + keep" if "is_user_at msgs i" "\<exists>j < i. is_user_at msgs j" for i
      using that later_users [of i msgs] by fastforce
    then show ?thesis by (auto simp: b None)
  next
    case (Some i)
    note last = find_last(2) [OF sorted Some [unfolded found_def]]
    then have i: "is_user_at msgs i" "\<exists>j < i. is_user_at msgs j" "i + keep \<le> length msgs"
      using later_users [of i msgs] small by auto
    have "length msgs < k + keep" if "i < k" "is_user_at msgs k" for k
    proof -
      have "k \<in> set (drop 1 (user_positions msgs))" using that i(1) later_users [of k msgs] by auto
      then show ?thesis using last that(1) by fastforce
    qed
    then show ?thesis using i by (auto simp: b Some)
  qed
qed

end
