(* ===== verification/ContextCompaction.thy ===== *)
theory ContextCompaction
  imports ContextBudget MessageEdits
begin

text \<open>
  Compacting the history of a chat (\<open>utils/context_compaction.py\<close>, and its use by
  \<open>utils/middleware.py\<close>): older messages are replaced by a summary a model writes, and the
  summary is stored as a checkpoint on the first message kept. The completion request itself
  (its prompt, the provider) is an argument that answers, or raises, for a model and the messages.
\<close>

section \<open>The summary\<close>

text \<open>A completion is a parsed JSON response body (none when it does not parse) or a value.\<close>

datatype completion = ResponseBody "json option" | Value json

definition unwrapped :: "completion \<Rightarrow> json option" where
  "unwrapped r = (case r of ResponseBody b \<Rightarrow> b | Value (JArr [v]) \<Rightarrow> Some v | Value v \<Rightarrow> Some v)"

text \<open>\<open>choices[0]\<close>.\<close>

fun first_choice :: "json \<Rightarrow> py_error + json" where
  "first_choice (JArr (x # xs)) = Inr x"
| "first_choice (JStr (c # cs)) = Inr (JStr [c])"
| "first_choice (JObj d) = Inl KeyError"
| "first_choice _ = Inl TypeError"

definition output_parts :: "json \<Rightarrow> py_error + json list" where
  "output_parts item =
     and_then (get_attr item ''content'' JNull) (\<lambda>content.
     and_then (py_iter (py_or content (JArr []))) (\<lambda>parts.
       Inr (map (\<lambda>p. py_or (py_or (get (as_dict p) ''text'') (get (as_dict p) ''content'')) (JStr [])) (filter is_dict parts))))"

definition response_text :: "completion \<Rightarrow> py_error + json" where
  "response_text r =
     (case unwrapped r of
        Some (JObj d) \<Rightarrow>
          (if truthy (get d ''choices'')
           then and_then (first_choice (get d ''choices'')) (\<lambda>c.
                and_then (get_attr c ''message'' JNull) (\<lambda>m.
                and_then (get_attr (py_or m (JObj [])) ''content'' JNull) (\<lambda>content.
                and_then (get_attr (py_or m (JObj [])) ''reasoning_content'' JNull) (\<lambda>reasoning.
                  Inr (py_or (py_or content reasoning) (JStr []))))))
           else and_then (py_iter (py_or (get d ''output'') (JArr []))) (\<lambda>items.
                and_then (traverse output_parts items) (\<lambda>parts.
                and_then (join_strs [CHR 0x0A] (filter truthy (concat parts))) (\<lambda>s. Inr (JStr s)))))
      | _ \<Rightarrow> Inr (JStr []))"

text \<open>\<open>f'{content[:500]}'\<close>.\<close>

fun first_500 :: "(json \<Rightarrow> string) \<Rightarrow> json \<Rightarrow> py_error + string" where
  "first_500 repr (JStr s) = Inr (take 500 s)"
| "first_500 repr (JArr xs) = Inr (repr (JArr (take 500 xs)))"
| "first_500 repr (JObj d) = Inl KeyError"
| "first_500 repr _ = Inl TypeError"

definition fallback_line :: "(json \<Rightarrow> string) \<Rightarrow> dict \<Rightarrow> py_error + string option" where
  "fallback_line repr m =
     (let content = get_content_from_message repr m
      in if truthy content
         then and_then (first_500 repr content) (\<lambda>t.
                Inr (Some (''- '' @ py_str repr (get_or m ''role'' (JStr ''unknown'')) @ '': '' @ t)))
         else Inr None)"

definition fallback_summary :: "(json \<Rightarrow> string) \<Rightarrow> string option \<Rightarrow> dict list \<Rightarrow> py_error + string" where
  "fallback_summary repr previous compacted =
     and_then (traverse (fallback_line repr) compacted) (\<lambda>lines.
       Inr (take 4000 (join_lines ((case previous of None \<Rightarrow> [] | Some s \<Rightarrow> if s = [] then [] else [s])
         @ List.map_filter (\<lambda>x. x) lines))))"

text \<open>
  What a compaction needs from outside: the known models, the model set for compaction, and the
  completion for a model, the messages to summarise, those kept, the previous summary and the
  prompt template.
\<close>

record compaction_env =
  ce_models :: "json list"
  ce_compaction_model :: json
  ce_complete :: "json \<Rightarrow> dict list \<Rightarrow> dict list \<Rightarrow> string option \<Rightarrow> json \<Rightarrow> py_error + completion"

definition task_model :: "compaction_env \<Rightarrow> json \<Rightarrow> py_error + json" where
  "task_model env model =
     (if \<not> hashable (ce_compaction_model env) then Inl TypeError
      else let m = (if ce_compaction_model env \<in> set (ce_models env) then ce_compaction_model env else model)
      in if \<not> hashable m then Inl TypeError else if m \<in> set (ce_models env) then Inr m else Inl ValueError)"

definition generate_summary ::
  "(json \<Rightarrow> string) \<Rightarrow> compaction_env \<Rightarrow> json \<Rightarrow> dict list \<Rightarrow> dict list \<Rightarrow> string option \<Rightarrow> json \<Rightarrow> py_error + string" where
  "generate_summary repr env model compacted recent previous template =
     and_then (task_model env model) (\<lambda>m.
     and_then (ce_complete env m compacted recent previous template) (\<lambda>r.
     and_then (response_text r) (\<lambda>v.
       case v of
         JStr s \<Rightarrow> if strip_text s \<noteq> [] then Inr (strip_text s) else fallback_summary repr previous compacted
       | _ \<Rightarrow> Inl AttributeError)))"

section \<open>Compacting a request\<close>

datatype compaction_event = Compacting | CompactionFailed | ContextCompacted

text \<open>
  \<open>is_saved_chat_id\<close>: temporary chats and channels are not stored.
\<close>

definition is_saved_chat_id :: "json \<Rightarrow> bool" where
  "is_saved_chat_id v = (case v of
     JStr s \<Rightarrow> s \<noteq> [] \<and> \<not> prefix ''temporary:'' s \<and> \<not> prefix ''local:'' s \<and> \<not> prefix ''channel:'' s | _ \<Rightarrow> False)"

definition split_system :: "dict list \<Rightarrow> dict list \<times> dict list" where
  "split_system msgs =
     (case msgs of m # rest \<Rightarrow> if get m ''role'' = JStr ''system'' then ([m], rest) else ([], msgs) | [] \<Rightarrow> ([], []))"

text \<open>The part of a request that is summarised and the part kept, when it is to be compacted.\<close>

definition compaction_plan ::
  "(json \<Rightarrow> string) \<Rightarrow> compaction_config \<Rightarrow> dict \<Rightarrow> json \<Rightarrow> dict list \<Rightarrow> string option
    \<Rightarrow> py_error + (dict list \<times> dict list) option" where
  "compaction_plan dumps cfg metadata system_prompt msgs previous =
     and_then (resolve_token_threshold (cc_token_threshold cfg) (cc_token_cap cfg) metadata) (\<lambda>threshold.
     and_then (exceeds_token_threshold dumps msgs system_prompt previous threshold) (\<lambda>exceeds.
       if \<not> exceeds \<or> length msgs \<le> 3 then Inr None
       else let b = find_compaction_boundary msgs (JInt (cc_retention_percentage cfg))
       in if take b msgs = [] \<or> drop b msgs = [] then Inr None else Inr (Some (take b msgs, drop b msgs))))"

definition checkpoint_id :: "dict \<Rightarrow> dict list \<Rightarrow> json" where
  "checkpoint_id metadata recent =
     py_or (py_or (get (hd recent) ''id'') (get metadata ''user_message_id'')) (get metadata ''message_id'')"

definition store_summary :: "(json \<Rightarrow> string) \<Rightarrow> int \<Rightarrow> json \<Rightarrow> json \<Rightarrow> string \<Rightarrow> chat_db \<Rightarrow> chat_db" where
  "store_summary repr now chat i summary db =
     (case (chat, i) of
        (JStr c, JStr k) \<Rightarrow> upsert_message_to_chat repr now False c k [(''contextSummary'', JStr summary)] db
      | _ \<Rightarrow> db)"

text \<open>
  \<open>compact_messages_for_request\<close>: the database, the events sent, and the messages to send with
  the summary they start from and whether a compaction took place.
\<close>

definition compact_messages_for_request ::
  "(json \<Rightarrow> string) \<Rightarrow> (json \<Rightarrow> string) \<Rightarrow> compaction_env \<Rightarrow> int \<Rightarrow> compaction_config \<Rightarrow> dict \<Rightarrow> json \<Rightarrow> json
    \<Rightarrow> dict list \<Rightarrow> chat_db
    \<Rightarrow> chat_db \<times> compaction_event list \<times> (py_error + dict list \<times> string option \<times> bool)" where
  "compact_messages_for_request dumps repr env now cfg metadata model system_prompt messages db =
     (if \<not> cc_enable cfg then (db, [], Inr (messages, None, False))
      else case split_system messages of
        (system, rest) \<Rightarrow> (case apply_latest_summary_checkpoint rest of
          (msgs, previous) \<Rightarrow> (case compaction_plan dumps cfg metadata system_prompt msgs previous of
            Inl e \<Rightarrow> (db, [], Inl e)
          | Inr None \<Rightarrow> (db, [], Inr (system @ msgs, previous, False))
          | Inr (Some (compacted, recent)) \<Rightarrow>
              (let emits = truthy (get metadata ''chat_id'') \<and> truthy (get metadata ''message_id'');
                   sent = (\<lambda>es. if emits then es else [])
               in case generate_summary repr env model compacted recent previous (cc_prompt_template cfg) of
                    Inl e \<Rightarrow> (db, sent [Compacting, CompactionFailed], Inl e)
                  | Inr summary \<Rightarrow>
                      (let i = checkpoint_id metadata recent; chat = get metadata ''chat_id'';
                           db' = (if is_saved_chat_id chat \<and> truthy i then store_summary repr now chat i summary db else db)
                       in (db', sent [Compacting, ContextCompacted], Inr (system @ recent, Some summary, True)))))))"

text \<open>
  \<open>_compact_history\<close>: the summary joins the system message; after an exception the messages are
  as they were, or, when only adding the summary failed, as the compaction left them.
\<close>

definition compact_history ::
  "(json \<Rightarrow> string) \<Rightarrow> (json \<Rightarrow> string) \<Rightarrow> compaction_env \<Rightarrow> int \<Rightarrow> compaction_config \<Rightarrow> dict \<Rightarrow> json
    \<Rightarrow> dict list \<Rightarrow> chat_db \<Rightarrow> py_error + chat_db \<times> dict list" where
  "compact_history dumps repr env now cfg metadata model messages db =
     and_then (get_system_message messages) (\<lambda>system.
       let prompt = (case system of None \<Rightarrow> JStr [] | Some m \<Rightarrow> get_content_from_message repr m)
       in case compact_messages_for_request dumps repr env now cfg metadata model prompt messages db of
            (db', es, Inl e) \<Rightarrow> Inr (db', messages)
          | (db', es, Inr (msgs, summary, compacted)) \<Rightarrow>
              (case summary of
                 None \<Rightarrow> Inr (db', msgs)
               | Some s \<Rightarrow> if s = [] then Inr (db', msgs)
                   else case add_or_update_system_message repr (''[CONVERSATION SUMMARY]'' @ [CHR 0x0A] @ s) msgs True of
                          Inl e \<Rightarrow> Inr (db', msgs) | Inr msgs' \<Rightarrow> Inr (db', msgs')))"

section \<open>The messages of a request, from the database\<close>

definition message_replay_keys :: "string list" where
  "message_replay_keys = [''id'', ''role'', ''content'', ''output'', ''files'', ''contextSummary'', ''usage'', ''model'']"

definition replayed :: "dict \<Rightarrow> dict" where
  "replayed m = filter (\<lambda>(k, v). k \<in> set message_replay_keys) m"

definition load_messages_from_db :: "int \<Rightarrow> string \<Rightarrow> string \<Rightarrow> chat_db \<Rightarrow> chat_db \<times> dict list option" where
  "load_messages_from_db now chat i db =
     (case get_messages_map now chat db of
        (db', None) \<Rightarrow> (db', None)
      | (db', Some ms) \<Rightarrow>
          (if get_message_list ms (Some i) = [] then (db', None) else (db', Some (map replayed (get_message_list ms (Some i))))))"

section \<open>Compacting a branch on request\<close>

datatype branch_outcome = Disabled | EmptyChat | TooShort | BranchCompacted nat nat nat

text \<open>
  \<open>get_current_message_id\<close>, whose result the row's column \<open>current_message_id\<close> holds: the current
  message of the history, or the older fields of the chat's JSON.
\<close>

definition get_current_message_id :: "chat_row \<Rightarrow> json" where
  "get_current_message_id c =
     (let stated = py_or (py_or (of_opt (hi_current (cr_history c))) (get (cr_rest c) ''currentId''))
            (get (cr_rest c) ''branchPointMessageId'')
      in if truthy stated then stated
         else case find (\<lambda>m. is_dict m \<and> truthy (get (as_dict m) ''id'')) (rev (as_list (get (cr_rest c) ''messages''))) of
           None \<Rightarrow> JNull | Some m \<Rightarrow> get (as_dict m) ''id'')"

definition compact_chat_branch ::
  "(json \<Rightarrow> string) \<Rightarrow> compaction_env \<Rightarrow> int \<Rightarrow> compaction_config \<Rightarrow> json \<Rightarrow> chat_row \<Rightarrow> chat_db
    \<Rightarrow> chat_db \<times> (py_error + branch_outcome)" where
  "compact_chat_branch repr env now cfg model c db =
     (if \<not> cc_enable cfg then (db, Inr Disabled)
      else case opt_str (get_current_message_id c) of
        None \<Rightarrow> (db, Inr EmptyChat)
      | Some [] \<Rightarrow> (db, Inr EmptyChat)
      | Some i \<Rightarrow>
          (case get_messages_map now (cr_id c) db of
             (db1, found) \<Rightarrow>
               (let ms = (case found of None \<Rightarrow> hi_messages (cr_history c) | Some ms \<Rightarrow> if ms = [] then hi_messages (cr_history c) else ms)
                in case apply_latest_summary_checkpoint (get_message_list ms (Some i)) of
                     (msgs, previous) \<Rightarrow>
                       (if length msgs \<le> 1 then (db1, Inr TooShort)
                        else case generate_summary repr env model (butlast msgs) [last msgs] previous (cc_prompt_template cfg) of
                               Inl e \<Rightarrow> (db1, Inl e)
                             | Inr summary \<Rightarrow>
                                 (upsert_message_to_chat repr now False (cr_id c) i [(''contextSummary'', JStr summary)] db1,
                                  Inr (BranchCompacted (length msgs - 1) 1 (length summary)))))))"

section \<open>How full the context is\<close>

text \<open>\<open>get_chat_context_usage\<close>: the tokens and the threshold; the percentage is computed from them.\<close>

definition chat_context_usage ::
  "(json \<Rightarrow> string) \<Rightarrow> int \<Rightarrow> compaction_config \<Rightarrow> chat_row \<Rightarrow> chat_db \<Rightarrow> chat_db \<times> (py_error + (int \<times> int) option)" where
  "chat_context_usage dumps now cfg c db =
     (case opt_str (get_current_message_id c) of
        None \<Rightarrow> (db, Inr None)
      | Some [] \<Rightarrow> (db, Inr None)
      | Some i \<Rightarrow>
          (case get_messages_map now (cr_id c) db of
             (db1, found) \<Rightarrow>
               (let ms = (case found of None \<Rightarrow> hi_messages (cr_history c) | Some ms \<Rightarrow> if ms = [] then hi_messages (cr_history c) else ms);
                    msgs = get_message_list ms (Some i)
                in if msgs = [] \<or> \<not> cc_enable cfg then (db1, Inr None)
                   else (db1, case apply_latest_summary_checkpoint msgs of (kept, previous) \<Rightarrow>
                     and_then (resolve_token_threshold (cc_token_threshold cfg) (cc_token_cap cfg) (cr_rest c)) (\<lambda>threshold.
                     and_then (context_tokens dumps kept [summary_json previous]) (\<lambda>tokens. Inr (Some (tokens, threshold))))))))"

section \<open>A compaction cuts the conversation in two\<close>

lemma split_system_append: "split_system msgs = (system, rest) \<Longrightarrow> msgs = system @ rest"
  by (auto simp: split_system_def split: list.splits if_splits)

lemma latest_checkpoint_suffix: "latest_checkpoint msgs = Some (rest, s) \<Longrightarrow> \<exists>dropped m ms. msgs = dropped @ rest \<and> rest = m # ms \<and>
    stated_summary m = Some s \<and> list_all (\<lambda>n. stated_summary n = None) ms"
proof (induction msgs)
  case (Cons m msgs)
  show ?case
  proof (cases "latest_checkpoint msgs")
    case None
    have "list_all (\<lambda>n. stated_summary n = None) msgs" using None
      by (induction msgs) (auto split: option.splits prod.splits)
    then show ?thesis using Cons.prems None by (auto split: option.splits)
  next
    case (Some found)
    then have "latest_checkpoint msgs = Some (rest, s)" using Cons.prems by simp
    from Cons.IH [OF this] show ?thesis by (metis append_Cons)
  qed
qed simp

lemma plan_splits:
  assumes "compaction_plan dumps cfg metadata prompt msgs previous = Inr (Some (compacted, recent))"
  shows "msgs = compacted @ recent" and "3 < length msgs"
    and "length compacted = find_compaction_boundary msgs (JInt (cc_retention_percentage cfg))" and "recent \<noteq> []" "compacted \<noteq> []"
  using assms by (auto simp: compaction_plan_def and_then_Inr Let_def split: if_splits)

lemma clamp_clamped: "10 \<le> r \<Longrightarrow> r \<le> 50 \<Longrightarrow> clamp_retention_percentage (JInt r) = r"
  by (simp add: clamp_retention_percentage_def)

text \<open>
  C14. A compaction loses no message: those since the latest checkpoint are the ones summarised,
  followed by the ones kept. The summary is made from all of them, the kept ones start at a user message and are the
  configured share at least; otherwise the messages since the checkpoint are sent and nothing is stored.
\<close>

theorem compaction_cuts_in_two:
  assumes "compact_messages_for_request dumps repr env now cfg metadata model prompt messages db = (db', es, Inr (sent, summary, done_now))"
    and "cc_enable cfg" and "split_system messages = (system, rest)"
    and "apply_latest_summary_checkpoint rest = (msgs, previous)"
    and "10 \<le> cc_retention_percentage cfg" and "cc_retention_percentage cfg \<le> 50"
  shows "(\<exists>dropped. rest = dropped @ msgs) \<and>
    (if done_now
     then \<exists>compacted recent s. msgs = compacted @ recent \<and> sent = system @ recent \<and> summary = Some s \<and>
       generate_summary repr env model compacted recent previous (cc_prompt_template cfg) = Inr s \<and>
       compacted \<noteq> [] \<and> get (hd recent) ''role'' = JStr ''user'' \<and>
       max 2 (length msgs * nat (cc_retention_percentage cfg) div 100) \<le> length recent
     else sent = system @ msgs \<and> summary = previous \<and> db' = db)"
proof
  show "\<exists>dropped. rest = dropped @ msgs"
    using assms(4) latest_checkpoint_suffix [of rest]
    by (auto simp: apply_latest_summary_checkpoint_def split: option.splits)
  show "if done_now
     then \<exists>compacted recent s. msgs = compacted @ recent \<and> sent = system @ recent \<and> summary = Some s \<and>
       generate_summary repr env model compacted recent previous (cc_prompt_template cfg) = Inr s \<and>
       compacted \<noteq> [] \<and> get (hd recent) ''role'' = JStr ''user'' \<and>
       max 2 (length msgs * nat (cc_retention_percentage cfg) div 100) \<le> length recent
     else sent = system @ msgs \<and> summary = previous \<and> db' = db"
  proof (cases "compaction_plan dumps cfg metadata prompt msgs previous")
    case (Inl e)
    then show ?thesis using assms(1-4) by (simp add: compact_messages_for_request_def)
  next
    case (Inr plan)
    show ?thesis
    proof (cases plan)
      case None
      then show ?thesis using assms(1-4) Inr by (simp add: compact_messages_for_request_def)
    next
      case (Some parts)
      obtain compacted recent where parts: "parts = (compacted, recent)" by (cases parts)
      note plan = plan_splits [OF Inr [unfolded Some parts]]
      have long: "3 \<le> length msgs" and cut: "0 < length compacted" using plan(2,5) by simp_all
      from compaction_boundary_exact [OF long plan(3) refl] cut
      have "is_user_at msgs (length compacted) \<and>
          length compacted + max 2 (length msgs * nat (cc_retention_percentage cfg) div 100) \<le> length msgs"
        unfolding clamp_clamped [OF assms(5,6)] by blast
      then have "get (hd recent) ''role'' = JStr ''user''"
        "max 2 (length msgs * nat (cc_retention_percentage cfg) div 100) \<le> length recent"
        using plan(1,4) by (auto simp: is_user_at_def nth_append hd_conv_nth)
      then show ?thesis
        using assms(1-4) Inr Some parts plan(1,5)
        by (auto simp: compact_messages_for_request_def Let_def split: sum.splits)
    qed
  qed
qed

end
