(* ===== verification/MessageCopies.thy ===== *)
theory MessageCopies
  imports MessageRows
begin

text \<open>
  The other writes to both copies of a chat's messages (\<open>models/chats.py\<close>): deleting a message,
  and adding a status or files to one. The row of a changed message is written after the chat's
  JSON is committed, and a failure of that write is only logged.
\<close>

section \<open>Deleting\<close>

definition delete_messages_by_chat_id :: "string \<Rightarrow> message_row list \<Rightarrow> message_row list" where
  "delete_messages_by_chat_id chat rows = filter (\<lambda>r. mr_chat r \<noteq> chat) rows"

definition delete_message_ids_by_chat_id :: "string \<Rightarrow> string set \<Rightarrow> message_row list \<Rightarrow> message_row list" where
  "delete_message_ids_by_chat_id chat ids rows =
     filter (\<lambda>r. \<not> (mr_chat r = chat \<and> mr_id r \<in> composite_id chat ` ids)) rows"

definition delete_message_from_chat :: "int \<Rightarrow> string \<Rightarrow> string \<Rightarrow> chat_db \<Rightarrow> chat_db" where
  "delete_message_from_chat now chat i db =
     (case find_row chat (cd_chats db) of
        None \<Rightarrow> db
      | Some c \<Rightarrow>
          (let c1 = repair_row (sanitize_row c)
           in case delete_message_from_history (cr_history c1) i of
                (h, gone) \<Rightarrow>
                  (if gone = {} then db\<lparr>cd_chats := update_row chat (\<lambda>_. c1\<lparr>cr_history := h\<rparr>) (cd_chats db)\<rparr>
                   else \<lparr>cd_chats = update_row chat (\<lambda>_. c1\<lparr>cr_history := h, cr_updated_at := now\<rparr>) (cd_chats db),
                     cd_rows = delete_message_ids_by_chat_id chat gone
                       (backfill_messages now chat (cr_user c1) (hi_messages h) (cd_rows db))\<rparr>)))"

section \<open>Adding a status or files\<close>

text \<open>What \<open>ChatMessageModel\<close> accepts of a row: reading a row it refuses raises.\<close>

definition valid_model :: "message_row \<Rightarrow> bool" where
  "valid_model r \<longleftrightarrow> storable r \<and> mr_done r \<noteq> JNull \<and> mr_created_at r \<noteq> JNull \<and>
     list_all (\<lambda>v. v = JNull \<or> is_list v)
       [mr_output r, mr_files r, mr_sources r, mr_embeds r, mr_status_history r] \<and>
     list_all (\<lambda>v. v = JNull \<or> is_dict v) [mr_meta r, mr_usage r] \<and>
     (mr_error r = JNull \<or> is_dict (mr_error r) \<or> is_str (mr_error r))"

definition mirror_message_row ::
  "int \<Rightarrow> string \<Rightarrow> string \<Rightarrow> string \<Rightarrow> dict \<Rightarrow> dict \<Rightarrow> message_row list \<Rightarrow> message_row list" where
  "mirror_message_row now chat i user m patch rows =
     (let written = (\<lambda>d. case upsert_message now i chat user d rows of Inl e \<Rightarrow> rows | Inr rows' \<Rightarrow> rows')
      in case find_message_row (composite_id chat i) rows of
           None \<Rightarrow> written m
         | Some r \<Rightarrow> if valid_model r then written patch else rows)"

text \<open>A message whose field \<open>k\<close> gets the value \<open>v\<close>, in the JSON and in its row.\<close>

definition set_message_field ::
  "int \<Rightarrow> string \<Rightarrow> string \<Rightarrow> json \<Rightarrow> dict \<Rightarrow> chat_row \<Rightarrow> chat_db \<Rightarrow> chat_db" where
  "set_message_field now i k v m c db =
     \<lparr>cd_chats = update_row (cr_id c)
        (\<lambda>_. c\<lparr>cr_history := (cr_history c)\<lparr>hi_messages := update_at i (dict_set k v) (hi_messages (cr_history c))\<rparr>\<rparr>) (cd_chats db),
      cd_rows = mirror_message_row now (cr_id c) i (cr_user c) (dict_set k v m) [(k, v)] (cd_rows db)\<rparr>"

definition add_message_status :: "int \<Rightarrow> string \<Rightarrow> string \<Rightarrow> json \<Rightarrow> chat_db \<Rightarrow> chat_db" where
  "add_message_status now chat i status db =
     (case find_row chat (cd_chats db) of
        None \<Rightarrow> db
      | Some c \<Rightarrow>
          (let c1 = repair_row (sanitize_row c)
           in case map_of (hi_messages (cr_history c1)) i of
                None \<Rightarrow> db\<lparr>cd_chats := update_row chat (\<lambda>_. c1) (cd_chats db)\<rparr>
              | Some m \<Rightarrow> (case get_or m ''statusHistory'' (JArr []) of
                  JArr xs \<Rightarrow> set_message_field now i ''statusHistory'' (JArr (xs @ [strip_null_bytes status])) m c1 db
                | _ \<Rightarrow> db)))"

text \<open>
  The chat's time of change is set, its JSON cleaned once the files are in it, and the row written from the
  cleaned message; the files of the message are returned as they are.
\<close>

definition add_message_files ::
  "int \<Rightarrow> string \<Rightarrow> string \<Rightarrow> json list \<Rightarrow> chat_db \<Rightarrow> py_error + chat_db \<times> json list option" where
  "add_message_files now chat i files db =
     (case find_row chat (cd_chats db) of
        None \<Rightarrow> Inr (db, None)
      | Some c \<Rightarrow>
          (let save = (\<lambda>c'. update_row chat (\<lambda>_. (sanitize_row c')\<lparr>cr_updated_at := now\<rparr>) (cd_chats db))
           in case map_of (hi_messages (cr_history c)) i of
                None \<Rightarrow> Inr (db\<lparr>cd_chats := save c\<rparr>, Some [])
              | Some m \<Rightarrow> (case get_or m ''files'' (JArr []) of
                  JArr xs \<Rightarrow>
                    (let v = JArr (xs @ files);
                         c1 = c\<lparr>cr_history := (cr_history c)\<lparr>hi_messages := update_at i (dict_set ''files'' v) (hi_messages (cr_history c))\<rparr>\<rparr>
                     in Inr (\<lparr>cd_chats = save c1,
                              cd_rows = mirror_message_row now chat i (cr_user c) (clean_dict (dict_set ''files'' v m))
                                [(''files'', strip_null_bytes v)] (cd_rows db)\<rparr>, Some (xs @ files)))
                | _ \<Rightarrow> Inl TypeError)))"

section \<open>Cleaning what is clean\<close>

lemma dict_update_length:
  "length (dict_update d xs) \<le> length d + length xs"
  "length (dict_update d xs) = length d + length xs \<Longrightarrow> dict_update d xs = d @ xs \<and> distinct (map fst xs)"
proof -
  have one: "length (AList.update k v d) = (if k \<in> fst ` set d then length d else Suc (length d))"
    "k \<notin> fst ` set d \<Longrightarrow> AList.update k v d = d @ [(k, v)]" for k v and d :: "(string \<times> 'a) list"
    by (induction d) auto
  have both: "length (dict_update d xs) \<le> length d + length xs \<and>
      (length (dict_update d xs) = length d + length xs \<longrightarrow>
         dict_update d xs = d @ xs \<and> distinct (map fst xs) \<and> fst ` set d \<inter> fst ` set xs = {})"
  proof (induction d xs rule: dict_update.induct)
    case (2 d k v xs)
    then show ?case by (auto simp: one split: if_splits)
  qed simp
  show "length (dict_update d xs) \<le> length d + length xs"
    "length (dict_update d xs) = length d + length xs \<Longrightarrow> dict_update d xs = d @ xs \<and> distinct (map fst xs)"
    using both by auto
qed

lemma dict_update_fixed:
  assumes "dict_update [] (map f xs) = xs"
  shows "map f xs = xs" and "distinct (map fst xs)"
proof -
  have "length (dict_update [] (map f xs)) = length [] + length (map f xs)" using assms by simp
  from dict_update_length(2) [OF this] have both: "xs = map f xs \<and> distinct (map fst (map f xs))"
    by (metis assms append_Nil)
  then show "map f xs = xs" "distinct (map fst xs)" by metis+
qed

lemma strip_twice [simp]: "clean_text (clean_text s) = clean_text s"
  by (simp add: clean_text_def)

lemma clean_dict_alt: "clean_dict d = dict_update [] (map (\<lambda>(k, v). (clean_text k, strip_null_bytes v)) d)"
  by (simp add: clean_dict_def clean_text_def)

lemma map_update_fixed:
  assumes "map (\<lambda>(k, v). (f k, g v)) d = d" and "f k = k"
  shows "map (\<lambda>(k, v). (f k, g v)) (AList.update k v d) = AList.update k (g v) d"
  using assms by (induction d) auto

lemma clean_dict_set:
  assumes "clean_dict m = m" and "clean_text k = k"
  shows "clean_dict (dict_set k v m) = dict_set k (strip_null_bytes v) m"
proof -
  note m = dict_update_fixed [OF assms(1) [unfolded clean_dict_alt]]
  show ?thesis
    unfolding clean_dict_alt dict_set_def map_update_fixed [OF m(1) assms(2)]
    using m(2) by (intro dict_update_Nil distinct_update)
qed

lemma sanitized_files:
  assumes "sanitize_row c = c" and "clean_text k = k"
  shows "sanitize_row (c\<lparr>cr_history := (cr_history c)\<lparr>hi_messages := update_at i (dict_set k v) (hi_messages (cr_history c))\<rparr>\<rparr>)
    = c\<lparr>cr_history := (cr_history c)\<lparr>hi_messages := update_at i (dict_set k (strip_null_bytes v)) (hi_messages (cr_history c))\<rparr>\<rparr>"
    and "map_of (hi_messages (cr_history c)) i = Some m \<Longrightarrow> clean_dict m = m"
proof -
  let ?ms = "hi_messages (cr_history c)" and ?f = "\<lambda>(k, m). (clean_text k, clean_dict m)"
  have "clean_messages ?ms = ?ms" and rest: "map_option clean_text (hi_current (cr_history c)) = hi_current (cr_history c)"
    "clean_dict (hi_rest (cr_history c)) = hi_rest (cr_history c)" "clean_dict (cr_rest c) = cr_rest c"
    using arg_cong [OF assms(1), of "\<lambda>c. hi_messages (cr_history c)"] arg_cong [OF assms(1), of "\<lambda>c. hi_current (cr_history c)"]
      arg_cong [OF assms(1), of "\<lambda>c. hi_rest (cr_history c)"] arg_cong [OF assms(1), of cr_rest]
    by (simp_all add: sanitize_row_def)
  then have ms: "map ?f ?ms = ?ms" "distinct (map fst ?ms)"
    using dict_update_fixed unfolding clean_messages_def by blast+
  have each: "clean_text j = j \<and> clean_dict n = n" if "(j, n) \<in> set ?ms" for j n
  proof -
    have "map ?f ?ms = map (\<lambda>x. x) ?ms" using ms(1) by simp
    then have "?f (j, n) = (j, n)" using that unfolding map_eq_conv by blast
    then show ?thesis by simp
  qed
  show "map_of ?ms i = Some m \<Longrightarrow> clean_dict m = m" using each map_of_SomeD by fastforce
  have "map ?f (update_at i (dict_set k v) ?ms) = update_at i (dict_set k (strip_null_bytes v)) ?ms"
    using each clean_dict_set [OF _ assms(2)] by (auto simp: update_at_def)
  moreover have "distinct (map fst (update_at i (dict_set k (strip_null_bytes v)) ?ms))"
    using ms(2) by (simp add: update_at_def comp_def case_prod_unfold)
  ultimately have "clean_messages (update_at i (dict_set k v) ?ms) = update_at i (dict_set k (strip_null_bytes v)) ?ms"
    unfolding clean_messages_def by (simp only: dict_update_Nil)
  then show "sanitize_row (c\<lparr>cr_history := (cr_history c)\<lparr>hi_messages := update_at i (dict_set k v) ?ms\<rparr>\<rparr>)
    = c\<lparr>cr_history := (cr_history c)\<lparr>hi_messages := update_at i (dict_set k (strip_null_bytes v)) ?ms\<rparr>\<rparr>"
    using rest by (simp add: sanitize_row_def)
qed

section \<open>Writing several rows at once\<close>

lemma find_row_Cons:
  "find_message_row cid (r # rows) = (if mr_id r = cid then Some r else find_message_row cid rows)"
  by (simp add: find_message_row_def)

lemma find_fold_put:
  "distinct (map mr_id new) \<Longrightarrow>
     find_message_row cid (fold put_message_row new rows)
       = (case find_message_row cid new of None \<Rightarrow> find_message_row cid rows | Some r \<Rightarrow> Some r)"
proof (induction new arbitrary: rows)
  case (Cons r new)
  have "find_message_row (mr_id r) new = None" using Cons.prems by (auto simp: find_message_row_def find_None_mem intro: rev_image_eqI)
  then show ?case using Cons by (auto simp: find_put find_row_Cons split: option.split)
qed (simp add: find_message_row_def)

lemma fold_put_keeps:
  assumes "keyed_rows chat rows" and "list_all storable (chat_rows chat rows)"
    and "\<forall>r \<in> set new. mr_chat r = chat \<and> storable r \<and> (\<exists>i. mr_id r = composite_id chat i)"
  shows "keyed_rows chat (fold put_message_row new rows) \<and> list_all storable (chat_rows chat (fold put_message_row new rows))"
  using assms
proof (induction new arbitrary: rows)
  case (Cons r new)
  then obtain i where "mr_id r = composite_id chat i" "mr_chat r = chat" "storable r" by auto
  then show ?case
    using Cons.IH [OF keyed_put [OF Cons.prems(1)] storable_put [OF Cons.prems(2)]] Cons.prems(3) by simp
qed simp

lemma upsert_messages_fits:
  assumes keyed: "keyed_rows chat rows" and ok: "list_all storable (chat_rows chat rows)"
    and dist: "distinct (map fst ms)" and fits: "\<forall>(i, m) \<in> set ms. fits m"
  shows "\<exists>rows'. upsert_messages now chat user ms rows = Inr rows' \<and>
    keyed_rows chat rows' \<and> list_all storable (chat_rows chat rows') \<and>
    (\<forall>(i, m) \<in> set ms. \<exists>r. find_message_row (composite_id chat i) rows' = Some r \<and> mirrors m r) \<and>
    (\<forall>cid. cid \<notin> composite_id chat ` fst ` set ms \<longrightarrow> find_message_row cid rows' = find_message_row cid rows)"
proof -
  have new: "\<exists>new. traverse (\<lambda>(i, d). written_row now chat user rows i d) ms = Inr new \<and>
      list_all2 (\<lambda>(i, m) r. mirrors m r \<and> storable r \<and> mr_id r = composite_id chat i \<and> mr_chat r = chat) ms new"
    using fits
  proof (induction ms)
    case (Cons x ms)
    obtain i m where x: "x = (i, m)" by (cases x)
    have "fits m" using Cons.prems by (simp add: x)
    from written_row_fits [OF keyed ok this, of now user i] Cons.IH Cons.prems show ?case by (auto simp: x)
  qed simp
  then obtain new where t: "traverse (\<lambda>(i, d). written_row now chat user rows i d) ms = Inr new"
    and all: "list_all2 (\<lambda>(i, m) r. mirrors m r \<and> storable r \<and> mr_id r = composite_id chat i \<and> mr_chat r = chat) ms new" by blast
  have ids: "map mr_id new = map (composite_id chat) (map fst ms)"
    using all by (induction rule: list_all2_induct) auto
  have "distinct (map mr_id new)" unfolding ids using dist by (simp add: distinct_map inj_on_def)
  note found = find_fold_put [OF this, of _ rows]
  have each: "\<forall>r \<in> set new. mr_chat r = chat \<and> storable r \<and> (\<exists>i. mr_id r = composite_id chat i)"
    using all by (induction rule: list_all2_induct) auto
  have mirror: "\<exists>r. find_message_row (composite_id chat i) new = Some r \<and> mirrors m r" if "(i, m) \<in> set ms" for i m
    using all dist that
  proof (induction rule: list_all2_induct)
    case (Cons x xs r rs)
    obtain j n where x: "x = (j, n)" by (cases x)
    show ?case
    proof (cases "i = j")
      case True
      then show ?thesis using Cons.hyps(1) Cons.prems by (auto simp: x find_message_row_def rev_image_eqI)
    next
      case False
      then show ?thesis using Cons by (auto simp: x find_message_row_def)
    qed
  qed simp
  have other: "find_message_row cid new = None" if "cid \<notin> composite_id chat ` fst ` set ms" for cid
  proof -
    have "cid \<notin> set (map mr_id new)" unfolding ids using that by (simp add: image_image)
    then show ?thesis by (auto simp: find_message_row_def find_None_mem)
  qed
  show ?thesis
    using fold_put_keeps [OF keyed ok each] mirror other by (fastforce simp: upsert_messages_def t found)
qed

section \<open>The copies still agree\<close>

lemma json_updated:
  assumes "find_row chat (cd_chats db) = Some c" and "cd_chats db' = update_row chat (\<lambda>_. c') (cd_chats db)" and "cr_id c' = chat"
  shows "json_message chat k db' = map_of (hi_messages (cr_history c')) k"
  by (simp add: json_message_def assms(2) find_updated_row [OF assms(1,3)])

lemma repaired_agree:
  assumes "copies_agree chat db" and c: "find_row chat (cd_chats db) = Some c" and "cr_id c' = chat"
    and h: "hi_messages (cr_history c') = hi_messages (cr_history (repair_row c))"
  shows "copies_agree chat (db\<lparr>cd_chats := update_row chat (\<lambda>_. c') (cd_chats db)\<rparr>)"
  unfolding copies_agree_iff
proof (intro conjI allI impI)
  let ?db = "db\<lparr>cd_chats := update_row chat (\<lambda>_. c') (cd_chats db)\<rparr>"
  fix k m assume "json_message chat k ?db = Some m"
  then have m: "map_of (fst (add_all_children (hi_messages (cr_history c)) (hi_messages (cr_history c)))) k = Some m"
    using json_updated [OF c, of ?db c' k] assms(3) h by (simp add: repair_row_messages)
  then have "k \<in> set (map fst (hi_messages (cr_history c)))" by (metis keys_add_all known_iff option.distinct(1))
  then obtain n where n: "map_of (hi_messages (cr_history c)) k = Some n" using known_iff [of "hi_messages (cr_history c)" k] by blast
  from add_all_keeps [OF n, of "hi_messages (cr_history c)"] m obtain cs where "linked cs n m" by auto
  moreover have "\<exists>r. row_of chat k db = Some r \<and> mirrors n r" using assms(1) n by (simp add: copies_agree_iff json_message_def c)
  ultimately show "\<exists>r. row_of chat k ?db = Some r \<and> mirrors m r" using mirrors_linked by (auto simp: row_of_def)
qed (use assms(1) in \<open>simp_all add: copies_agree_iff\<close>)

lemma find_own_row: "keyed_rows chat rows \<Longrightarrow> r \<in> set rows \<Longrightarrow> find_message_row (mr_id r) rows = Some r"
proof (induction rows)
  case (Cons q rows)
  then show ?case by (auto simp: find_row_Cons keyed_rows_def rev_image_eqI)
qed simp

text \<open>No row is left over: each one of the chat has its message in the JSON.\<close>

definition copies_exact :: "string \<Rightarrow> chat_db \<Rightarrow> bool" where
  "copies_exact chat db \<longleftrightarrow> copies_agree chat db \<and>
     list_all (\<lambda>r. json_message chat (message_id_of chat r) db \<noteq> None) (chat_rows chat (cd_rows db))"

lemma exactI:
  assumes "copies_agree chat db'" and "keyed_rows chat (cd_rows db)"
    and "list_all (\<lambda>r. json_message chat (message_id_of chat r) db \<noteq> None) (chat_rows chat (cd_rows db))"
    and "mr_id ` set (cd_rows db') \<subseteq> mr_id ` set (cd_rows db)"
    and "\<And>k. json_message chat k db \<noteq> None \<Longrightarrow> json_message chat k db' \<noteq> None"
  shows "copies_exact chat db'"
proof -
  have "json_message chat (message_id_of chat r) db' \<noteq> None" if r: "r \<in> set (chat_rows chat (cd_rows db'))" for r
  proof -
    from r assms(4) obtain q where q: "q \<in> set (cd_rows db)" "mr_id q = mr_id r" by (auto simp: chat_rows_def)
    have "keyed_rows chat (cd_rows db')" using assms(1) by (simp add: copies_agree_iff)
    then have "prefix (composite_id chat []) (mr_id r)" using r by (auto simp: keyed_rows_def chat_rows_def)
    then have "q \<in> set (chat_rows chat (cd_rows db))" using assms(2) q by (auto simp: keyed_rows_def chat_rows_def)
    then have "json_message chat (message_id_of chat q) db \<noteq> None" using assms(3) by (simp add: list_all_iff)
    moreover have "message_id_of chat q = message_id_of chat r" by (simp only: message_id_of_def q(2))
    ultimately show ?thesis using assms(5) by simp
  qed
  then show ?thesis using assms(1) by (simp add: copies_exact_def list_all_iff)
qed

lemma repaired_exact:
  assumes "copies_agree chat db" and "list_all (\<lambda>r. json_message chat (message_id_of chat r) db \<noteq> None) (chat_rows chat (cd_rows db))"
    and c: "find_row chat (cd_chats db) = Some c" and "cr_id c' = chat"
    and h: "hi_messages (cr_history c') = hi_messages (cr_history (repair_row c))"
  shows "copies_exact chat (db\<lparr>cd_chats := update_row chat (\<lambda>_. c') (cd_chats db)\<rparr>)"
proof (rule exactI [OF repaired_agree [OF assms(1) c assms(4) h] _ assms(2)])
  fix k assume "json_message chat k db \<noteq> None"
  then have "k \<in> set (map fst (hi_messages (cr_history c')))"
    unfolding h repair_row_messages keys_add_all using known_iff [of "hi_messages (cr_history c)" k] by (simp add: json_message_def c)
  then show "json_message chat k (db\<lparr>cd_chats := update_row chat (\<lambda>_. c') (cd_chats db)\<rparr>) \<noteq> None"
    using json_updated [OF c, of "db\<lparr>cd_chats := update_row chat (\<lambda>_. c') (cd_chats db)\<rparr>" c' k] assms(4)
      known_iff [of "hi_messages (cr_history c')" k] by simp
qed (use assms(1) in \<open>simp_all add: copies_agree_iff\<close>)

lemma repair_row_id [simp]: "cr_id (repair_row c) = cr_id c"
  by (simp add: repair_row_def)

lemma deleted_keys:
  assumes "delete_message_from_history h i = (h', gone)"
  shows "map fst (hi_messages h') = filter (\<lambda>k. k \<notin> gone) (map fst (hi_messages h))" and "gone = {} \<Longrightarrow> h' = h"
proof -
  have keys: "map fst (filter (\<lambda>(k, m). P k) ms) = filter P (map fst ms)" for P and ms :: messages
    by (simp add: filter_map comp_def case_prod_unfold)
  have both: "map fst (hi_messages h') = filter (\<lambda>k. k \<notin> gone) (map fst (hi_messages h)) \<and> (gone = {} \<longrightarrow> h' = h)"
  proof (cases "map_of (hi_messages h) i")
    case None
    then have "h' = h" "gone = {}" using assms by (simp_all add: delete_message_from_history_def)
    then show ?thesis by simp
  next
    case (Some m)
    note del = assms [unfolded delete_message_from_history_def Let_def Some option.case prod.inject]
    note parts = conjunct1 [OF del, symmetric] conjunct2 [OF del, symmetric]
    have ids: "map fst (map (\<lambda>(k, gm). (k, F k gm)) xs) = map fst xs" for F :: "string \<Rightarrow> dict \<Rightarrow> dict" and xs
      by (simp add: comp_def case_prod_unfold)
    have up: "map fst (case parent_of m of None \<Rightarrow> hi_messages h | Some p \<Rightarrow> update_at p (F p) (hi_messages h)) = map fst (hi_messages h)" for F
      by (simp split: option.split)
    show ?thesis
      unfolding parts(1) by (simp add: keys ids up parts(2) del: map_map set_map)
  qed
  then show "map fst (hi_messages h') = filter (\<lambda>k. k \<notin> gone) (map fst (hi_messages h))" "gone = {} \<Longrightarrow> h' = h"
    by blast+
qed

lemma find_deleted:
  assumes "keyed_rows chat rows"
  shows "find_message_row (composite_id chat k) (delete_message_ids_by_chat_id chat gone rows)
    = (if k \<in> gone then None else find_message_row (composite_id chat k) rows)"
proof -
  have "\<forall>r \<in> set rows. mr_id r = composite_id chat k \<longrightarrow> mr_chat r = chat"
    using assms by (simp add: keyed_rows_def)
  then have "find_message_row (composite_id chat k) (filter (\<lambda>r. \<not> (mr_chat r = chat \<and> mr_id r \<in> composite_id chat ` gone)) rows)
      = (if k \<in> gone then None else find_message_row (composite_id chat k) rows)"
    by (induction rows) (auto simp: find_row_Cons find_message_row_def [of _ "[]"])
  then show ?thesis by (simp add: delete_message_ids_by_chat_id_def)
qed

lemma deletion_keeps_copies:
  assumes agree: "copies_agree chat db" and c: "find_row chat (cd_chats db) = Some c"
    and dist: "distinct (map fst (hi_messages (cr_history c)))" and clean: "sanitize_row c = c"
    and del: "delete_message_from_history (cr_history (repair_row c)) i = (h, gone)"
    and fits: "\<forall>(k, m) \<in> set (hi_messages h). fits m \<and> truthy (get m ''role'')"
    and rows_known: "list_all (\<lambda>r. json_message chat (message_id_of chat r) db \<noteq> None) (chat_rows chat (cd_rows db))"
  shows "copies_exact chat (delete_message_from_chat now chat i db)"
proof (cases "gone = {}")
  case True
  have "h = cr_history (repair_row c)" using deleted_keys(2) [OF del True] .
  then show ?thesis
    using repaired_exact [OF agree rows_known c, of "repair_row c\<lparr>cr_history := h\<rparr>"] find_row_id [OF c]
    by (simp add: delete_message_from_chat_def c clean del [unfolded True] Let_def)
next
  case False
  let ?c = "repair_row c\<lparr>cr_history := h, cr_updated_at := now\<rparr>"
  let ?db = "delete_message_from_chat now chat i db"
  have keyed: "keyed_rows chat (cd_rows db)" and ok: "list_all storable (chat_rows chat (cd_rows db))"
    using agree by (auto simp: copies_agree_iff)
  have keys: "map fst (hi_messages h) = filter (\<lambda>k. k \<notin> gone) (map fst (hi_messages (cr_history c)))"
    using deleted_keys(1) [OF del] by (simp only: repair_row_messages keys_add_all)
  have "distinct (map fst (hi_messages h))" unfolding keys using dist by simp
  from upsert_messages_fits [OF keyed ok this, of now "cr_user (repair_row c)"] fits obtain rows
    where rows: "upsert_messages now chat (cr_user (repair_row c)) (hi_messages h) (cd_rows db) = Inr rows"
      "keyed_rows chat rows" "list_all storable (chat_rows chat rows)"
      "\<forall>(k, m) \<in> set (hi_messages h). \<exists>r. find_message_row (composite_id chat k) rows = Some r \<and> mirrors m r"
      "\<And>cid. cid \<notin> composite_id chat ` fst ` set (hi_messages h) \<Longrightarrow> find_message_row cid rows = find_message_row cid (cd_rows db)" by blast
  have "filter (\<lambda>(i, m). truthy (get m ''role'')) (hi_messages h) = hi_messages h"
    by (rule filter_True) (use fits in auto)
  then have cd_rows: "cd_rows ?db = delete_message_ids_by_chat_id chat gone rows"
    and cd_chats: "cd_chats ?db = update_row chat (\<lambda>_. ?c) (cd_chats db)"
    using False by (simp_all add: delete_message_from_chat_def c clean del Let_def backfill_messages_def rows(1))
  have sub: "set (cd_rows ?db) \<subseteq> set rows" unfolding cd_rows by (auto simp: delete_message_ids_by_chat_id_def)
  have "distinct (map mr_id (cd_rows ?db))"
    unfolding cd_rows delete_message_ids_by_chat_id_def using rows(2) by (simp add: keyed_rows_def distinct_map_filter)
  then have "keyed_rows chat (cd_rows ?db)" using rows(2) sub unfolding keyed_rows_def by blast
  moreover have "list_all storable (chat_rows chat (cd_rows ?db))"
    using rows(3) sub by (auto simp: list_all_iff chat_rows_def)
  moreover have "\<exists>r. row_of chat k ?db = Some r \<and> mirrors m r" if "json_message chat k ?db = Some m" for k m
  proof -
    have m: "map_of (hi_messages h) k = Some m"
      using that json_updated [OF c cd_chats, of k] find_row_id [OF c] by simp
    then have "k \<notin> gone" using known_iff [of "hi_messages h" k] by (simp add: keys del: set_map)
    moreover from rows(4) map_of_SomeD [OF m] have "\<exists>r. find_message_row (composite_id chat k) rows = Some r \<and> mirrors m r" by auto
    ultimately show ?thesis by (simp add: row_of_def cd_rows find_deleted [OF rows(2)])
  qed
  moreover have "json_message chat (message_id_of chat r) ?db \<noteq> None" if r: "r \<in> set (chat_rows chat (cd_rows ?db))" for r
  proof -
    define k where "k = message_id_of chat r"
    have mem: "r \<in> set rows" "mr_chat r = chat" using r sub by (auto simp: chat_rows_def)
    then have id: "mr_id r = composite_id chat k"
      using keyed_row_id [OF rows(2), of r] by (simp add: k_def chat_rows_def)
    then have "k \<notin> gone" using r by (auto simp: cd_rows delete_message_ids_by_chat_id_def chat_rows_def)
    moreover have "k \<in> set (map fst (hi_messages h)) \<or> k \<in> set (map fst (hi_messages (cr_history c)))"
    proof (cases "k \<in> set (map fst (hi_messages h))")
      case False
      then have "composite_id chat k \<notin> composite_id chat ` fst ` set (hi_messages h)" by (auto simp: image_iff)
      from rows(5) [OF this] find_own_row [OF rows(2) mem(1)] id
      have "find_message_row (composite_id chat k) (cd_rows db) = Some r" by simp
      then have "r \<in> set (chat_rows chat (cd_rows db))" using find_row_mem mem(2) by (auto simp: chat_rows_def)
      then have "json_message chat k db \<noteq> None" using rows_known unfolding k_def list_all_iff by blast
      then show ?thesis using known_iff [of "hi_messages (cr_history c)" k] by (simp add: json_message_def c del: set_map)
    qed simp
    ultimately have "k \<in> set (map fst (hi_messages h))" unfolding keys by auto
    then have "map_of (hi_messages h) k \<noteq> None" using known_iff [of "hi_messages h" k] by simp
    then show ?thesis using json_updated [OF c cd_chats, of k] find_row_id [OF c] by (simp add: k_def)
  qed
  ultimately show ?thesis by (simp add: copies_exact_def copies_agree_iff list_all_iff)
qed

text \<open>The row of a message whose status list or files change.\<close>

definition field_row :: "int \<Rightarrow> string \<Rightarrow> json \<Rightarrow> message_row \<Rightarrow> message_row" where
  "field_row now k v r =
     (if k = ''files'' then r\<lparr>mr_files := v, mr_updated_at := now\<rparr> else r\<lparr>mr_status_history := v, mr_updated_at := now\<rparr>)"

lemma field_row_keys [simp]: "mr_id (field_row now k v r) = mr_id r" "mr_chat (field_row now k v r) = mr_chat r"
  by (simp_all add: field_row_def)

lemma get_or_single: "get_or [(k, v)] k' w = (if k' = k then v else w)"
  by (simp add: get_or_def)

lemma patch_applied:
  assumes "k \<in> {''files'', ''statusHistory''}"
  shows "apply_message_data now [(k, v)] r = Inr (field_row now k v r)"
proof -
  have usage: "get_usage [(''files'', v)] = Inr JNull" "get_usage [(''statusHistory'', v)] = Inr JNull"
    by (simp_all add: get_usage_def stated_usage_def get_or_single py_or_def get_or_def)
  from assms consider "k = ''files''" | "k = ''statusHistory''" by blast
  then show ?thesis
    by cases (simp_all add: apply_message_data_def Let_def usage either_key_def get_or_single field_row_def py_or_def)
qed

lemma field_mirrored:
  assumes "mirrors m r" and "k \<in> {''files'', ''statusHistory''}" and "\<not> truthy (get m ''status_history'')"
  shows "mirrors (dict_set k v m) (field_row now k v r)"
proof -
  have g: "get_or (dict_set k v m) k' w = (if k' = k then v else get_or m k' w)"
    and h: "has_key (dict_set k v m) k' \<longleftrightarrow> k' = k \<or> has_key m k'" for k' w
    by (simp_all add: get_or_def has_key_def)
  have same: "either_key (dict_set k v m) a b w = either_key m a b w" if "a \<noteq> k" "b \<noteq> k" for a b w
    using that by (simp add: either_key_def g h)
  have status: "either_key (dict_set ''statusHistory'' v m) ''status_history'' ''statusHistory'' w = v" for w
    using assms(3) by (simp add: either_key_def get_or_def has_key_def py_or_def)
  have usage: "get_usage (dict_set k v m) = get_usage m" using assms(2) by (auto simp: get_usage_def stated_usage_def g)
  obtain u where u: "get_usage m = Inr u" using assms(1) by (cases "get_usage m") (auto simp: mirrors_def apply_message_data_def Let_def)
  from assms(2) consider "k = ''files''" | "k = ''statusHistory''" by blast
  then show ?thesis
  proof cases
    case 1
    then show ?thesis
      using assms(1) unfolding mirrors_def apply_message_data_def Let_def usage u
      by (cases r) (simp add: g [unfolded 1] same [unfolded 1] field_row_def)
  next
    case 2
    then show ?thesis
      using assms(1) unfolding mirrors_def apply_message_data_def Let_def usage u
      by (cases r) (simp add: g [unfolded 2] same [unfolded 2] status field_row_def)
  qed
qed

lemma set_field_keeps_copies:
  assumes agree: "copies_agree chat (db\<lparr>cd_chats := update_row chat (\<lambda>_. c) (cd_chats db)\<rparr>)"
    and c: "find_row chat (cd_chats db) = Some c0" "cr_id c = chat" and m: "map_of (hi_messages (cr_history c)) i = Some m"
    and k: "k \<in> {''files'', ''statusHistory''}" "\<not> truthy (get m ''status_history'')"
    and valid: "list_all valid_model (chat_rows chat (cd_rows db))"
    and rows_known: "list_all (\<lambda>r. json_message chat (message_id_of chat r) db \<noteq> None) (chat_rows chat (cd_rows db))"
    and kept: "set (map fst (hi_messages (cr_history c))) = set (map fst (hi_messages (cr_history c0)))"
  shows "copies_exact chat (set_message_field now i k v m c db)"
proof -
  let ?old = "db\<lparr>cd_chats := update_row chat (\<lambda>_. c) (cd_chats db)\<rparr>" and ?new = "set_message_field now i k v m c db"
  have keyed: "keyed_rows chat (cd_rows db)" and ok: "list_all storable (chat_rows chat (cd_rows db))"
    using agree by (auto simp: copies_agree_iff)
  have old: "json_message chat j ?old = map_of (hi_messages (cr_history c)) j" for j
    using json_updated [OF c(1), of ?old c j] c(2) by simp
  from agree m obtain r where r: "row_of chat i db = Some r" "mirrors m r"
    by (auto simp: copies_agree_iff old row_of_def)
  have mem: "r \<in> set (cd_rows db)" "mr_id r = composite_id chat i" using find_row_mem r(1) by (auto simp: row_of_def)
  then have mine: "r \<in> set (chat_rows chat (cd_rows db))" and chat: "mr_chat r = chat"
    using keyed by (auto simp: chat_rows_def keyed_rows_def)
  then have "valid_model r" "storable r" using valid ok by (auto simp: list_all_iff)
  moreover from this have st: "storable (field_row now k v r)" by (simp add: storable_def field_row_def)
  ultimately have rows: "cd_rows ?new = put_message_row (field_row now k v r) (cd_rows db)"
    using r(1) c(2)
    by (simp add: set_message_field_def mirror_message_row_def upsert_message_def written_row_def row_of_def patch_applied [OF k(1)])
  have chats: "cd_chats ?new = update_row chat
      (\<lambda>_. c\<lparr>cr_history := (cr_history c)\<lparr>hi_messages := update_at i (dict_set k v) (hi_messages (cr_history c))\<rparr>\<rparr>) (cd_chats db)"
    using c(2) by (simp add: set_message_field_def)
  have new: "json_message chat j ?new = (if j = i then Some (dict_set k v m) else map_of (hi_messages (cr_history c)) j)" for j
    using json_updated [OF c(1) chats, of j] c(2) m by (simp add: map_of_update_at)
  have "\<exists>q. row_of chat j ?new = Some q \<and> mirrors n q" if n: "json_message chat j ?new = Some n" for j n
  proof (cases "j = i")
    case True
    then show ?thesis using n new [of j] field_mirrored [OF r(2) k] mem(2) by (simp add: row_of_def rows find_put)
  next
    case False
    then have "json_message chat j ?old = Some n" using n new [of j] by (simp add: old)
    then show ?thesis using agree False mem(2) by (auto simp: copies_agree_iff row_of_def rows find_put)
  qed
  moreover have "keyed_rows chat (cd_rows ?new)"
    unfolding rows by (rule keyed_put [OF keyed]) (simp_all add: mem(2) chat)
  moreover have "list_all storable (chat_rows chat (cd_rows ?new))" unfolding rows by (rule storable_put [OF ok st])
  ultimately have agree': "copies_agree chat ?new" by (simp add: copies_agree_iff)
  show ?thesis
  proof (rule exactI [OF agree' keyed rows_known])
    show "mr_id ` set (cd_rows ?new) \<subseteq> mr_id ` set (cd_rows db)"
      unfolding rows using set_put [of "field_row now k v r" "cd_rows db"] mem(1) by fastforce
    show "json_message chat j ?new \<noteq> None" if "json_message chat j db \<noteq> None" for j
    proof -
      have "j \<in> set (map fst (hi_messages (cr_history c)))"
        using that known_iff [of "hi_messages (cr_history c0)" j] unfolding kept by (simp add: json_message_def c(1))
      then show ?thesis using known_iff [of "hi_messages (cr_history c)" j] by (simp add: new)
    qed
  qed
qed

text \<open>A message of the JSON keeps its summary and status fields through a repair.\<close>

lemma repaired_message:
  assumes "map_of (hi_messages (cr_history (repair_row c))) i = Some m"
  shows "\<exists>n. map_of (hi_messages (cr_history c)) i = Some n \<and> get m ''status_history'' = get n ''status_history''"
proof -
  have "i \<in> set (map fst (hi_messages (cr_history c)))"
    using assms unfolding repair_row_messages by (metis keys_add_all known_iff option.distinct(1))
  then obtain n where n: "map_of (hi_messages (cr_history c)) i = Some n" using known_iff [of "hi_messages (cr_history c)" i] by blast
  from add_all_keeps [OF n, of "hi_messages (cr_history c)"] assms obtain cs where "linked cs n m"
    unfolding repair_row_messages by auto
  then show ?thesis using n by (auto simp: linked_get)
qed

lemma clean_distinct:
  assumes "sanitize_row c = c"
  shows "distinct (map fst (hi_messages (cr_history c)))"
  using arg_cong [OF assms, of "\<lambda>c. hi_messages (cr_history c)"]
  by (intro dict_update_fixed(2)) (simp add: sanitize_row_def clean_messages_def)

lemma status_keeps_copies:
  assumes exact: "copies_exact chat db" and c: "find_row chat (cd_chats db) = Some c" and clean: "sanitize_row c = c"
    and valid: "list_all valid_model (chat_rows chat (cd_rows db))"
    and plain: "\<forall>(k, m) \<in> set (hi_messages (cr_history c)). \<not> truthy (get m ''status_history'')"
  shows "copies_exact chat (add_message_status now chat i status db)"
proof -
  have agree: "copies_agree chat db"
    and known: "list_all (\<lambda>r. json_message chat (message_id_of chat r) db \<noteq> None) (chat_rows chat (cd_rows db))"
    using exact by (simp_all add: copies_exact_def)
  have id: "cr_id c = chat" by (rule find_row_id [OF c])
  have repaired: "copies_exact chat (db\<lparr>cd_chats := update_row chat (\<lambda>_. repair_row c) (cd_chats db)\<rparr>)"
    by (rule repaired_exact [OF agree known c]) (simp_all add: id)
  show ?thesis
  proof (cases "map_of (hi_messages (cr_history (repair_row c))) i")
    case None
    then show ?thesis using repaired by (simp add: add_message_status_def c clean Let_def)
  next
    case (Some m)
    from repaired_message [OF this] plain have "\<not> truthy (get m ''status_history'')" by (fastforce dest: map_of_SomeD)
    moreover have "set (map fst (hi_messages (cr_history (repair_row c)))) = set (map fst (hi_messages (cr_history c)))"
      by (simp only: repair_row_messages keys_add_all)
    ultimately show ?thesis
      using set_field_keeps_copies [OF _ c _ Some _ _ valid known] repaired exact
      by (cases "get_or m ''statusHistory'' (JArr [])") (simp_all add: add_message_status_def c clean Let_def Some id copies_exact_def del: set_map)
  qed
qed

lemma files_keep_copies:
  assumes exact: "copies_exact chat db" and c: "find_row chat (cd_chats db) = Some c" and clean: "sanitize_row c = c"
    and valid: "list_all valid_model (chat_rows chat (cd_rows db))"
    and plain: "\<forall>(k, m) \<in> set (hi_messages (cr_history c)). \<not> truthy (get m ''status_history'')"
  shows "case add_message_files now chat i files db of Inl e \<Rightarrow> True | Inr (db', fs) \<Rightarrow> copies_exact chat db'"
proof -
  have known: "list_all (\<lambda>r. json_message chat (message_id_of chat r) db \<noteq> None) (chat_rows chat (cd_rows db))"
    using exact by (simp add: copies_exact_def)
  have id: "cr_id c = chat" by (rule find_row_id [OF c])
  have timed: "copies_exact chat (db\<lparr>cd_chats := update_row chat (\<lambda>_. c\<lparr>cr_updated_at := now\<rparr>) (cd_chats db)\<rparr>)"
  proof -
    have "json_message chat k (db\<lparr>cd_chats := update_row chat (\<lambda>_. c\<lparr>cr_updated_at := now\<rparr>) (cd_chats db)\<rparr>) = json_message chat k db" for k
      using json_updated [OF c, of "db\<lparr>cd_chats := update_row chat (\<lambda>_. c\<lparr>cr_updated_at := now\<rparr>) (cd_chats db)\<rparr>" "c\<lparr>cr_updated_at := now\<rparr>" k]
      by (simp add: id json_message_def c)
    then show ?thesis using exact by (simp add: copies_exact_def copies_agree_iff row_of_def)
  qed
  show ?thesis
  proof (cases "map_of (hi_messages (cr_history c)) i")
    case None
    then show ?thesis using timed by (simp add: add_message_files_def c clean Let_def)
  next
    case (Some m)
    then have "\<not> truthy (get m ''status_history'')" using plain by (fastforce dest: map_of_SomeD)
    note set = set_field_keeps_copies [OF _ c _ _ _ this valid known, of "c\<lparr>cr_updated_at := now\<rparr>" i "''files''" now]
    have files: "clean_text ''files'' = ''files''" by (simp add: clean_text_def)
    have order: "c\<lparr>cr_updated_at := now, cr_history := h\<rparr> = c\<lparr>cr_history := h, cr_updated_at := now\<rparr>" for h by (cases c) simp
    note clean_row = sanitized_files(1) [OF clean files] and clean_message = clean_dict_set [OF sanitized_files(2) [OF clean files Some] files]
    show ?thesis
    proof (cases "get_or m ''files'' (JArr [])")
      case (JArr xs)
      let ?v = "JArr (xs @ files)"
      have "add_message_files now chat i files db =
          Inr (set_message_field now i ''files'' (strip_null_bytes ?v) m (c\<lparr>cr_updated_at := now\<rparr>) db, Some (xs @ files))"
        using Some JArr id
        by (simp add: add_message_files_def c Let_def clean_row clean_message set_message_field_def order del: strip_null_bytes.simps)
      moreover have "copies_exact chat (set_message_field now i ''files'' (strip_null_bytes ?v) m (c\<lparr>cr_updated_at := now\<rparr>) db)"
        by (rule set) (use timed Some id in \<open>simp_all add: copies_exact_def del: strip_null_bytes.simps\<close>)
      ultimately show ?thesis by simp
    qed (use Some in \<open>simp_all add: add_message_files_def c\<close>)
  qed
qed

text \<open>
  C13. Deleting a message, and adding a status or files to one, keeps the two copies of a chat in
  exact agreement: each message of the chat's JSON has a row that says what it says, and no row is
  left without its message; provided that the chat is stored clean (without null bytes), its rows
  are ones the model of a row accepts, the status of a message is kept under \<open>statusHistory\<close> alone,
  and the messages left fit the columns and have a role.
\<close>

theorem edits_keep_copies:
  assumes exact: "copies_exact chat db" and c: "find_row chat (cd_chats db) = Some c" and stored: "clean_stored chat db"
    and valid: "list_all valid_model (chat_rows chat (cd_rows db))"
    and plain: "\<forall>(k, m) \<in> set (hi_messages (cr_history c)). \<not> truthy (get m ''status_history'')"
    and fits: "\<forall>(k, m) \<in> set (hi_messages (fst (delete_message_from_history (cr_history (repair_row c)) i))). fits m \<and> truthy (get m ''role'')"
  shows "copies_exact chat (delete_message_from_chat now chat i db) \<and>
    copies_exact chat (add_message_status now chat i status db) \<and>
    (case add_message_files now chat i files db of Inl e \<Rightarrow> True | Inr (db', fs) \<Rightarrow> copies_exact chat db')"
proof (intro conjI)
  have clean: "sanitize_row c = c" using stored by (simp add: clean_stored_def c)
  have agree: "copies_agree chat db"
    and known: "list_all (\<lambda>r. json_message chat (message_id_of chat r) db \<noteq> None) (chat_rows chat (cd_rows db))"
    using exact by (simp_all add: copies_exact_def)
  show "copies_exact chat (delete_message_from_chat now chat i db)"
    by (cases "delete_message_from_history (cr_history (repair_row c)) i")
      (rule deletion_keeps_copies [OF agree c clean_distinct [OF clean] clean _ _ known], use fits in auto)
  show "copies_exact chat (add_message_status now chat i status db)"
    by (rule status_keeps_copies [OF exact c clean valid plain])
  show "case add_message_files now chat i files db of Inl e \<Rightarrow> True | Inr (db', fs) \<Rightarrow> copies_exact chat db'"
    by (rule files_keep_copies [OF exact c clean valid plain])
qed

end
