(* ===== verification/CompactionResume.thy ===== *)
theory CompactionResume
  imports ContextCompaction MessageCopies
begin

text \<open>
  What a stored summary does to the next requests: the checkpoint written by a compaction
  changes one row of the chat, and the messages then loaded from the database are cut at it.
\<close>

section \<open>Storing a summary changes one row\<close>

definition no_null_bytes :: "string \<Rightarrow> bool" where
  "no_null_bytes s \<longleftrightarrow> list_all (\<lambda>c. c \<noteq> CHR 0x00) s"

lemma no_null_filter: "no_null_bytes s \<Longrightarrow> filter (\<lambda>c. c \<noteq> CHR 0x00) s = s"
  by (simp add: no_null_bytes_def list_all_iff filter_id_conv)

definition checkpoint_row :: "int \<Rightarrow> string \<Rightarrow> message_row \<Rightarrow> message_row" where
  "checkpoint_row now s r = r\<lparr>mr_context_summary := JStr s, mr_updated_at := now\<rparr>"

lemma checkpoint_keys [simp]:
  "mr_id (checkpoint_row now s r) = mr_id r" "mr_chat (checkpoint_row now s r) = mr_chat r"
  "message_id_of chat (checkpoint_row now s r) = message_id_of chat r"
  by (simp_all add: checkpoint_row_def message_id_of_def Let_def)

lemma summary_applied:
  assumes "mirrors m r" and "s \<noteq> []" and "\<not> truthy (get m ''context_summary'')"
    and "\<And>k. k \<noteq> ''childrenIds'' \<Longrightarrow> map_of m' k = (if k = ''contextSummary'' then Some (JStr s) else map_of m k)"
  shows "apply_message_data now m' r = Inr (checkpoint_row now s r)"
proof -
  have g: "get_or m' k v = get_or m k v" and h: "has_key m' k = has_key m k"
    if "k \<noteq> ''childrenIds''" "k \<noteq> ''contextSummary''" for k v
    using assms(4) [OF that(1)] that(2) by (simp_all add: get_or_def has_key_def)
  have new: "get m' ''contextSummary'' = JStr s" "has_key m' ''contextSummary''"
    using assms(4) [of "''contextSummary''"] by (simp_all add: get_or_def has_key_def)
  have summary: "either_key m' ''context_summary'' ''contextSummary'' v = JStr s" for v
    using assms(2,3) new by (simp add: either_key_def g py_or_def)
  have same: "either_key m' a b v = either_key m a b v"
    if "a \<notin> {''childrenIds'', ''contextSummary''}" "b \<notin> {''childrenIds'', ''contextSummary''}" for a b v
    using that by (simp add: either_key_def g h)
  have usage: "get_usage m' = get_usage m" by (simp add: get_usage_def stated_usage_def g)
  obtain u where u: "get_usage m = Inr u" using assms(1) by (cases "get_usage m") (auto simp: mirrors_def apply_message_data_def Let_def)
  show ?thesis
    using assms(1) unfolding mirrors_def apply_message_data_def Let_def usage u checkpoint_row_def
    by (cases r) (simp add: g same summary)
qed

lemma summary_rows:
  assumes "copies_agree chat db" and "json_message chat i db = Some m" and "\<not> truthy (get m ''context_summary'')"
    and "no_null_bytes i" and "no_null_bytes s" and "s \<noteq> []" and "clean_stored chat db"
  shows "cd_rows (store_summary repr now (JStr chat) (JStr i) s db)
    = map (\<lambda>q. if mr_id q = composite_id chat i then checkpoint_row now s q else q) (cd_rows db)"
proof -
  obtain c where c: "find_row chat (cd_chats db) = Some c" "map_of (hi_messages (cr_history c)) i = Some m"
    using assms(2) by (auto simp: json_message_def split: option.splits)
  define p where "p = [(''contextSummary'', JStr s)]"
  have p: "as_dict (strip_null_bytes (JObj (with_output_content repr p))) = p"
    using no_null_filter [OF assms(5)]
    by (simp add: p_def with_output_content_def get_Cons get_output_text_def)
  define c1 where "c1 = save_to_chat now False i p c"
  have "sanitize_row c = c" using assms(7) by (simp add: clean_stored_def c(1))
  from saved_messages(3) [OF refl refl this c(2), where now = now and touch = False and p = p]
  obtain cs ds m1 m' where m1: "linked cs m m1" and m': "map_of (hi_messages (cr_history c1)) i = Some m'"
    and l: "linked ds (dict_update m1 p) m'" unfolding c1_def by blast
  have fields: "map_of m' k = (if k = ''contextSummary'' then Some (JStr s) else map_of m k)" if "k \<noteq> ''childrenIds''" for k
    using that m1 l by (simp add: linked_def p_def)
  obtain r where r: "row_of chat i db = Some r" "mirrors m r" using assms(1,2) by (auto simp: copies_agree_iff)
  have keyed: "keyed_rows chat (cd_rows db)" and ok: "list_all storable (chat_rows chat (cd_rows db))"
    using assms(1) by (auto simp: copies_agree_iff)
  have mem: "r \<in> set (cd_rows db)" "mr_id r = composite_id chat i" using find_row_mem r(1) by (auto simp: row_of_def)
  then have "storable r" using keyed ok by (auto simp: keyed_rows_def list_all_iff chat_rows_def)
  then have "storable (checkpoint_row now s r)" by (simp add: storable_def checkpoint_row_def)
  then have "upsert_message now i chat (cr_user c1) m' (cd_rows db) = Inr (put_message_row (checkpoint_row now s r) (cd_rows db))"
    using r(1) summary_applied [OF r(2) assms(6,3) fields] by (simp add: upsert_message_def written_row_def row_of_def)
  then have "cd_rows (store_summary repr now (JStr chat) (JStr i) s db) = put_message_row (checkpoint_row now s r) (cd_rows db)"
    using m' no_null_filter [OF assms(4)]
    by (simp add: store_summary_def upsert_message_to_chat_def c(1) p [simplified] c1_def Let_def flip: p_def)
  also have "\<dots> = map (\<lambda>q. if mr_id q = composite_id chat i then checkpoint_row now s q else q) (cd_rows db)"
  proof -
    have "inj_on mr_id (set (cd_rows db))" using keyed by (simp add: keyed_rows_def distinct_map)
    then have "q = r" if "q \<in> set (cd_rows db)" "mr_id q = composite_id chat i" for q
      using inj_onD [of mr_id "set (cd_rows db)" q r] that mem by simp
    then show ?thesis
      using r(1) mem(2) by (auto simp: put_message_row_def row_of_def checkpoint_row_def)
  qed
  finally show ?thesis .
qed

section \<open>The messages loaded afterwards\<close>

text \<open>The same message but for the summary of message \<open>i\<close>.\<close>

definition summarised :: "string \<Rightarrow> string \<Rightarrow> dict \<Rightarrow> dict \<Rightarrow> bool" where
  "summarised i s m m' \<longleftrightarrow>
     (\<forall>k. get m' k = (if get m ''id'' = JStr i \<and> k = ''contextSummary'' then JStr s else get m k))"

lemma keyed_checkpoint:
  "keyed_rows chat (map (\<lambda>q. if mr_id q = cid then checkpoint_row now s q else q) rows) = keyed_rows chat rows"
proof -
  have "map mr_id (map (\<lambda>q. if mr_id q = cid then checkpoint_row now s q else q) rows) = map mr_id rows"
    by simp
  moreover have "mr_chat (if mr_id q = cid then checkpoint_row now s q else q) = mr_chat q"
    "mr_id (if mr_id q = cid then checkpoint_row now s q else q) = mr_id q" for q by simp_all
  ultimately show ?thesis unfolding keyed_rows_def by (simp only: ball_simps set_map)
qed

lemma row_field_checkpoint:
  "row_field (checkpoint_row now s r) k = (if k = ''contextSummary'' then JStr s else row_field r k)"
  by (simp add: row_field_def checkpoint_row_def)

lemma map_after_checkpoint:
  assumes "keyed_rows chat rows" and "rows_messages_map chat rows = Some ms"
    and rows': "rows' = map (\<lambda>q. if mr_id q = composite_id chat i then checkpoint_row now s q else q) rows"
  shows "\<exists>ms'. rows_messages_map chat rows' = Some ms' \<and> map fst ms' = map fst ms \<and>
    (\<forall>j m. map_of ms j = Some m \<longrightarrow> (\<exists>m'. map_of ms' j = Some m' \<and>
       (\<forall>k. k \<noteq> ''childrenIds'' \<longrightarrow> get m' k = (if j = i \<and> k = ''contextSummary'' then JStr s else get m k))))"
proof -
  have keyed: "keyed_rows chat rows'" unfolding rows' using assms(1) by (simp add: keyed_checkpoint)
  have chat_rows: "chat_rows chat rows' =
      map (\<lambda>q. if mr_id q = composite_id chat i then checkpoint_row now s q else q) (chat_rows chat rows)"
    unfolding rows' by (induction rows) (auto simp: chat_rows_def)
  have ids: "map (message_id_of chat) (chat_rows chat rows') = map (message_id_of chat) (chat_rows chat rows)"
    unfolding chat_rows by simp
  have "chat_rows chat rows \<noteq> []" using assms(2) by (auto simp: rows_messages_map_def chat_rows_def split: if_splits)
  then have "chat_rows chat rows' \<noteq> []" unfolding chat_rows by simp
  then obtain ms' where ms': "rows_messages_map chat rows' = Some ms'" by (simp add: rows_messages_map_def chat_rows_def)
  note before = message_map_of_rows [OF assms(1,2)] and after = message_map_of_rows [OF keyed ms']
  have keys: "map fst ms' = map fst ms" using before after ids by simp
  have "\<exists>m'. map_of ms' j = Some m' \<and>
      (\<forall>k. k \<noteq> ''childrenIds'' \<longrightarrow> get m' k = (if j = i \<and> k = ''contextSummary'' then JStr s else get m k))"
    if m: "map_of ms j = Some m" for j m
  proof -
    have "j \<in> set (map fst ms')" using m known_iff [of ms j] by (simp add: keys)
    then obtain m' where m': "map_of ms' j = Some m'" using known_iff [of ms' j] by blast
    from before m obtain r where r: "r \<in> set (chat_rows chat rows)" "mr_id r = composite_id chat j"
      "\<And>k. k \<noteq> ''childrenIds'' \<Longrightarrow> get m k = (if k = ''id'' then JStr j else row_field r k)" by blast
    from after m' obtain r' where r': "r' \<in> set (chat_rows chat rows')" "mr_id r' = composite_id chat j"
      "\<And>k. k \<noteq> ''childrenIds'' \<Longrightarrow> get m' k = (if k = ''id'' then JStr j else row_field r' k)" by blast
    from r'(1) obtain q where q: "q \<in> set (chat_rows chat rows)"
      "r' = (if mr_id q = composite_id chat i then checkpoint_row now s q else q)" unfolding chat_rows by auto
    then have "mr_id q = mr_id r" using r'(2) r(2) by (auto split: if_splits)
    moreover have "inj_on mr_id (set rows)" using assms(1) by (simp add: keyed_rows_def distinct_map)
    ultimately have "q = r" using inj_onD [of mr_id "set rows" q r] q(1) r(1) by (simp add: chat_rows_def)
    then have "get m' k = (if j = i \<and> k = ''contextSummary'' then JStr s else get m k)" if "k \<noteq> ''childrenIds''" for k
      using r(3) [OF that] r'(3) [OF that] q(2) r(2) by (auto simp: row_field_checkpoint)
    then show ?thesis using m' by blast
  qed
  then show ?thesis using ms' keys by blast
qed

text \<open>The ids of a branch, from the root down.\<close>

definition branch_ids :: "messages \<Rightarrow> string \<Rightarrow> string list" where
  "branch_ids ms i =
     rev (filter (\<lambda>k. k \<in> set (map fst ms)) (trail (step_up ms) (map fst ms) (Some i) []))"

lemma distinct_branch_ids: "distinct (branch_ids ms i)"
  using distinct_trail [of "step_up ms" "map fst ms" "Some i" "[]"] by (simp add: branch_ids_def)

lemma map_filter_known:
  "List.map_filter (map_of ms) ks = map (\<lambda>k. the (map_of ms k)) (filter (\<lambda>k. k \<in> set (map fst ms)) ks)"
proof (induction ks)
  case (Cons k ks)
  then show ?case using known_iff [of ms k] by (auto simp: List.map_filter_simps split: option.split)
qed (simp add: List.map_filter_simps)

lemma message_list_ids:
  assumes "\<And>k m. map_of ms k = Some m \<Longrightarrow> m \<noteq> []" and "distinct (map fst ms)"
  shows "get_message_list ms (Some i) = map (\<lambda>k. the (map_of ms k)) (branch_ids ms i)"
proof -
  have "known_messages ms = ms"
    using assms by (auto simp: known_messages_def filter_id_conv)
  then show ?thesis by (simp only: get_message_list_def map_filter_known branch_ids_def rev_map)
qed

lemma parent_of_get: "get m ''parentId'' = get m' ''parentId'' \<Longrightarrow> parent_of m = parent_of m'"
  by (simp add: parent_of_def)

lemma same_branch_ids:
  assumes "map fst ms' = map fst ms" and "\<And>k. parent_at ms' k = parent_at ms k"
  shows "branch_ids ms' i = branch_ids ms i"
proof -
  have "step_up ms' = step_up ms" by (rule ext) (simp add: step_up_def assms(2))
  then show ?thesis by (simp add: branch_ids_def assms(1) del: set_map)
qed

lemma get_replayed: "get (replayed m) k = (if k \<in> set message_replay_keys then get m k else JNull)"
  by (induction m) (auto simp: replayed_def get_Cons split: if_splits)

lemma list_all2_branch:
  assumes "\<And>k. k \<in> set ks \<Longrightarrow> P (f k) (g k)"
  shows "list_all2 P (map f ks) (map g ks)"
  using assms by (induction ks) auto

text \<open>
  The messages a request loads before and after a summary is stored: the same ones, in the same
  order, each as it was but for the summary.
\<close>

lemma messages_after_checkpoint:
  assumes "keyed_rows chat rows" and "rows_messages_map chat rows = Some ms"
    and rows': "rows' = map (\<lambda>q. if mr_id q = composite_id chat i then checkpoint_row now s q else q) rows"
  shows "\<exists>ms'. rows_messages_map chat rows' = Some ms' \<and> unresolved_parent_ids ms' = unresolved_parent_ids ms \<and>
    (\<forall>v. list_all2 (summarised i s) (map replayed (get_message_list ms (Some v))) (map replayed (get_message_list ms' (Some v))) \<and>
       (\<exists>ids. distinct ids \<and> set ids \<subseteq> set (map fst ms) \<and> map (\<lambda>m. get m ''id'') (map replayed (get_message_list ms (Some v))) = map JStr ids))"
proof -
  from map_after_checkpoint [OF assms] obtain ms' where ms': "rows_messages_map chat rows' = Some ms'"
    and keys: "map fst ms' = map fst ms"
    and change: "\<And>j m. map_of ms j = Some m \<Longrightarrow> \<exists>m'. map_of ms' j = Some m' \<and>
       (\<forall>k. k \<noteq> ''childrenIds'' \<longrightarrow> get m' k = (if j = i \<and> k = ''contextSummary'' then JStr s else get m k))" by blast
  have ident: "get m ''id'' = JStr j" if "map_of ms j = Some m" for j m
    using message_map_of_rows [OF assms(1,2)] that by fastforce
  have some: "m \<noteq> []" if "map_of ms j = Some m" for j m using ident [OF that] by (auto simp: get_or_def)
  have dist: "distinct (map fst ms)" using message_map_of_rows [OF assms(1,2)] keyed_message_ids [OF assms(1)] by simp
  have none: "map_of ms' j = None" if "map_of ms j = None" for j
    using that known_iff [of ms j] known_iff [of ms' j] by (simp add: keys del: set_map)
  have parents: "parent_at ms' j = parent_at ms j" for j
  proof (cases "map_of ms j")
    case None
    then show ?thesis by (simp add: parent_at_def none)
  next
    case (Some m)
    from change [OF Some] obtain m' where m': "map_of ms' j = Some m'"
      "\<forall>k. k \<noteq> ''childrenIds'' \<longrightarrow> get m' k = (if j = i \<and> k = ''contextSummary'' then JStr s else get m k)" by blast
    then have "parent_of m' = parent_of m" by (intro parent_of_get) simp
    then show ?thesis by (simp add: parent_at_def Some m'(1))
  qed
  have some': "m' \<noteq> []" if found: "map_of ms' j = Some m'" for j m'
  proof -
    obtain m where m: "map_of ms j = Some m" using found none [of j] by (cases "map_of ms j") auto
    from change [OF m] ident [OF m] found have "get m' ''id'' = JStr j" by auto
    then show ?thesis by (auto simp: get_or_def)
  qed
  have listed: "get_message_list ms (Some w) = map (\<lambda>k. the (map_of ms k)) (branch_ids ms w)" for w
    by (rule message_list_ids [OF _ dist]) (rule some)
  have listed': "get_message_list ms' (Some w) = map (\<lambda>k. the (map_of ms' k)) (branch_ids ms' w)" for w
    by (rule message_list_ids) (use some' dist keys in simp_all)
  have unresolved: "unresolved_parent_ids xs = filter (\<lambda>p. p \<noteq> [] \<and> p \<notin> set (map fst xs)) (List.map_filter (parent_at xs) (map fst xs))"
    if "distinct (map fst xs)" for xs :: messages
  proof -
    have "List.map_filter (\<lambda>(i, m). parent_of m) xs = List.map_filter (parent_at xs) (map fst xs)"
      using that by (auto simp: List.map_filter_def parent_at_def filter_map comp_def intro!: map_cong filter_cong)
    then show ?thesis unfolding unresolved_parent_ids_def
      by (intro filter_cong) (simp_all add: map_of_eq_None_iff)
  qed
  have "parent_at ms' = parent_at ms" by (rule ext) (rule parents)
  then have "unresolved_parent_ids ms' = unresolved_parent_ids ms"
    using unresolved [of ms] unresolved [of ms'] dist by (simp add: keys del: set_map)
  moreover have "list_all2 (summarised i s) (map replayed (get_message_list ms (Some v))) (map replayed (get_message_list ms' (Some v)))" for v
  proof -
    have "summarised i s (replayed (the (map_of ms k))) (replayed (the (map_of ms' k)))" if k: "k \<in> set (branch_ids ms v)" for k
    proof -
      have "k \<in> set (map fst ms)" using k by (auto simp: branch_ids_def)
      then obtain m where m: "map_of ms k = Some m" using known_iff [of ms k] by blast
      from change [OF m] obtain m' where m': "map_of ms' k = Some m'"
        "\<forall>key. key \<noteq> ''childrenIds'' \<longrightarrow> get m' key = (if k = i \<and> key = ''contextSummary'' then JStr s else get m key)" by blast
      show ?thesis
        using m'(2) ident [OF m] by (auto simp: summarised_def m m'(1) get_replayed message_replay_keys_def)
    qed
    then show ?thesis
      unfolding listed listed' same_branch_ids [OF keys parents] map_map
      by (intro list_all2_branch) simp
  qed
  moreover have "\<exists>ids. distinct ids \<and> set ids \<subseteq> set (map fst ms) \<and> map (\<lambda>m. get m ''id'') (map replayed (get_message_list ms (Some v))) = map JStr ids" for v
  proof -
    have "get (replayed (the (map_of ms k))) ''id'' = JStr k" if "k \<in> set (branch_ids ms v)" for k
    proof -
      have "k \<in> set (map fst ms)" using that by (auto simp: branch_ids_def)
      then obtain m where "map_of ms k = Some m" using known_iff [of ms k] by blast
      then show ?thesis using ident by (simp add: get_replayed message_replay_keys_def)
    qed
    then have "map (\<lambda>m. get m ''id'') (map replayed (get_message_list ms (Some v))) = map JStr (branch_ids ms v)"
      unfolding listed by simp
    moreover have "set (branch_ids ms v) \<subseteq> set (map fst ms)" by (auto simp: branch_ids_def)
    ultimately show ?thesis using distinct_branch_ids by blast
  qed
  ultimately show ?thesis using ms' by blast
qed

section \<open>The next request starts at the checkpoint\<close>

lemma latest_checkpoint_None: "latest_checkpoint msgs = None \<longleftrightarrow> list_all (\<lambda>m. stated_summary m = None) msgs"
  by (induction msgs) (auto split: option.splits prod.splits)

lemma latest_checkpoint_at:
  assumes "stated_summary h = Some s" and "list_all (\<lambda>m. stated_summary m = None) later"
  shows "latest_checkpoint (earlier @ h # later) = Some (h # later, s)"
  using assms latest_checkpoint_None [of later] by (induction earlier) (auto split: option.split)

lemma checkpoint_tail:
  assumes "apply_latest_summary_checkpoint rest = (compacted @ recent, previous)" and "compacted \<noteq> []"
  shows "list_all (\<lambda>m. stated_summary m = None) recent \<and> (\<exists>dropped. rest = dropped @ compacted @ recent)"
proof (cases "latest_checkpoint rest")
  case None
  then show ?thesis
    using assms latest_checkpoint_None [of rest] by (auto simp: apply_latest_summary_checkpoint_def)
next
  case (Some found)
  obtain cut s where found: "found = (cut, s)" by (cases found)
  have cut: "cut = compacted @ recent" using assms(1) Some by (simp add: apply_latest_summary_checkpoint_def found)
  from latest_checkpoint_suffix [OF Some [unfolded found]] obtain dropped m ms
    where "rest = dropped @ cut" "cut = m # ms" "list_all (\<lambda>n. stated_summary n = None) ms" by blast
  then show ?thesis using assms(2) by (cases compacted) (auto simp: cut)
qed

text \<open>A chat whose copies agree and whose rows each have a message of the JSON to write the summary to.\<close>

definition checkpointable :: "string \<Rightarrow> chat_db \<Rightarrow> bool" where
  "checkpointable chat db \<longleftrightarrow> copies_agree chat db \<and> clean_stored chat db \<and>
     list_all (\<lambda>r. let i = message_id_of chat r in i \<noteq> [] \<and> no_null_bytes i \<and>
       (case json_message chat i db of None \<Rightarrow> False | Some m \<Rightarrow> \<not> truthy (get m ''context_summary'')))
       (chat_rows chat (cd_rows db))"

definition same_message :: "dict \<Rightarrow> dict \<Rightarrow> bool" where
  "same_message m m' \<longleftrightarrow> (\<forall>k. k \<noteq> ''contextSummary'' \<longrightarrow> get m' k = get m k)"

lemma summarised_same: "summarised i s m m' \<Longrightarrow> same_message m m'"
  by (simp add: summarised_def same_message_def)

lemma summarised_stated:
  assumes "summarised i s m m'"
  shows "get m ''id'' \<noteq> JStr i \<Longrightarrow> stated_summary m' = stated_summary m"
    and "get m ''id'' = JStr i \<Longrightarrow> s \<noteq> [] \<Longrightarrow> strip_text s \<noteq> [] \<Longrightarrow> stated_summary m' = Some s"
proof -
  have k: "get m' k = (if get m ''id'' = JStr i \<and> k = ''contextSummary'' then JStr s else get m k)" for k
    using assms by (simp add: summarised_def)
  show "stated_summary m' = stated_summary m" if "get m ''id'' \<noteq> JStr i"
    using that k [of "''contextSummary''"] k [of "''context_summary''"] by (simp add: stated_summary_def)
  show "stated_summary m' = Some s" if "get m ''id'' = JStr i" "s \<noteq> []" "strip_text s \<noteq> []"
    using that k [of "''contextSummary''"] by (simp add: stated_summary_def py_or_def)
qed

lemma distinct_after: "distinct (map f (xs @ h # ys)) \<Longrightarrow> \<forall>y \<in> set ys. f y \<noteq> f h"
  by (auto intro: rev_image_eqI)

lemma stated_none_after:
  "list_all2 (summarised i s) ms ms' \<Longrightarrow> \<forall>m \<in> set ms. get m ''id'' \<noteq> JStr i \<Longrightarrow>
     list_all (\<lambda>m. stated_summary m = None) ms \<Longrightarrow> list_all (\<lambda>m. stated_summary m = None) ms'"
proof (induction ms ms' rule: list_all2_induct)
  case (Cons m ms m' ms')
  have "stated_summary m' = stated_summary m" using summarised_stated(1) [OF Cons.hyps(1)] Cons.prems(1) by simp
  then show ?case using Cons.IH Cons.prems by simp
qed simp

text \<open>What a compaction leaves of the branch: the first message kept carries the summary, alone after it.\<close>

lemma compacted_branch:
  assumes chat: "checkpointable chat db" "is_saved_chat_id (JStr chat)" "get metadata ''chat_id'' = JStr chat"
    and map: "rows_messages_map chat (cd_rows db) = Some ms" "unresolved_parent_ids ms = []"
    and request: "split_system messages = (system, map replayed (get_message_list ms (Some u)))"
    and compacted: "compact_messages_for_request dumps repr env now cfg metadata model prompt messages db
          = (db', es, Inr (system @ recent, Some s, True))"
    and summary: "no_null_bytes s" "strip_text s \<noteq> []"
    and after: "rows_messages_map chat (cd_rows db') = Some ms'"
  obtains A h h' rest T i where "recent = h # rest" "map replayed (get_message_list ms' (Some u)) = A @ h' # T"
    "summarised i s h h'" "get h ''id'' = JStr i" "list_all2 (summarised i s) rest T" "list_all (\<lambda>m. stated_summary m = None) T"
proof -
  define old where "old = map replayed (get_message_list ms (Some u))"
  obtain msgs previous where cut: "apply_latest_summary_checkpoint old = (msgs, previous)" by fastforce
  have en: "cc_enable cfg" using compacted by (cases "cc_enable cfg") (simp_all add: compact_messages_for_request_def)
  obtain parts where "compaction_plan dumps cfg metadata prompt msgs previous = Inr (Some parts)"
    using compacted en request cut
    by (auto simp: compact_messages_for_request_def old_def Let_def split: sum.splits option.splits prod.splits)
  then obtain gone where plan: "compaction_plan dumps cfg metadata prompt msgs previous = Inr (Some (gone, recent))"
    and db': "db' = (if is_saved_chat_id (get metadata ''chat_id'') \<and> truthy (checkpoint_id metadata recent)
       then store_summary repr now (get metadata ''chat_id'') (checkpoint_id metadata recent) s db else db)"
    using compacted en request cut
    by (cases parts) (auto simp: compact_messages_for_request_def old_def Let_def split: sum.splits)
  note split = plan_splits [OF plan]
  from checkpoint_tail [OF cut [unfolded split(1)] split(5)] obtain dropped
    where none: "list_all (\<lambda>m. stated_summary m = None) recent" and old: "old = dropped @ gone @ recent" by blast
  obtain h rest where recent: "recent = h # rest" using split(4) by (cases recent) auto
  have keyed: "keyed_rows chat (cd_rows db)" using chat(1) by (simp add: checkpointable_def copies_agree_def)
  note reload = messages_after_checkpoint [OF keyed map(1) refl]
  define before where "before = (dropped @ gone) @ h # rest"
  have before: "map replayed (get_message_list ms (Some u)) = before"
    using old by (simp add: before_def recent old_def)
  from reload obtain ids where ids: "distinct ids" "set ids \<subseteq> set (map fst ms)" "map (\<lambda>m. get m ''id'') before = map JStr ids"
    unfolding before [symmetric] by blast
  have "get h ''id'' \<in> set (map (\<lambda>m. get m ''id'') before)" by (simp add: before_def)
  then obtain i where i: "get h ''id'' = JStr i" "i \<in> set (map fst ms)" unfolding ids(3) using subsetD [OF ids(2)] by auto
  then obtain r where r: "r \<in> set (chat_rows chat (cd_rows db))" "message_id_of chat r = i"
    using message_map_of_rows [OF keyed map(1)] by auto
  from chat(1) r(1) have "i \<noteq> [] \<and> no_null_bytes i \<and>
      (case json_message chat i db of None \<Rightarrow> False | Some m \<Rightarrow> \<not> truthy (get m ''context_summary''))"
    unfolding r(2) [symmetric] checkpointable_def list_all_iff Let_def by blast
  then obtain m where m: "i \<noteq> []" "no_null_bytes i" "json_message chat i db = Some m" "\<not> truthy (get m ''context_summary'')"
    by (auto split: option.splits)
  have "s \<noteq> []" using summary(2) by (auto simp: strip_text_Nil)
  have "checkpoint_id metadata recent = JStr i" using i(1) m(1) by (simp add: checkpoint_id_def recent py_or_def)
  then have stored: "db' = store_summary repr now (JStr chat) (JStr i) s db" using db' chat(2,3) m(1) by simp
  have agree: "copies_agree chat db" and clean: "clean_stored chat db" using chat(1) by (simp_all add: checkpointable_def)
  note rows = summary_rows [OF agree m(3,4,2) summary(1) \<open>s \<noteq> []\<close> clean, of repr now, folded stored]
  from messages_after_checkpoint [OF keyed map(1) rows] after
  have "list_all2 (summarised i s) before (map replayed (get_message_list ms' (Some u)))"
    unfolding map(2) before [symmetric] by auto
  then obtain A h' T where kept: "map replayed (get_message_list ms' (Some u)) = A @ h' # T" and h': "summarised i s h h'"
    and T: "list_all2 (summarised i s) rest T"
    unfolding before_def list_all2_append1 list_all2_Cons1 by blast
  have "distinct (map (\<lambda>m. get m ''id'') before)" using ids by (simp add: distinct_map inj_on_def)
  note others = distinct_after [OF this [unfolded before_def], unfolded i(1)]
  have "list_all (\<lambda>m. stated_summary m = None) rest" using none by (simp add: recent)
  then have "list_all (\<lambda>m. stated_summary m = None) T" using stated_none_after [OF T others] by simp
  then show thesis using that [OF recent kept h' i(1) T] by blast
qed


section \<open>A small chat\<close>

definition turn_message :: "string \<Rightarrow> string \<Rightarrow> string option \<Rightarrow> string list \<Rightarrow> string \<times> dict" where
  "turn_message i role parent kids =
     (i, [(''id'', JStr i), (''parentId'', of_opt parent), (''childrenIds'', JArr (map JStr kids)), (''role'', JStr role),
       (''content'', JStr (''text of '' @ i)), (''timestamp'', JInt 7)])"

definition small_history :: messages where
  "small_history =
     [turn_message ''u1'' ''user'' None [''a1''], turn_message ''a1'' ''assistant'' (Some ''u1'') [''u2''],
      turn_message ''u2'' ''user'' (Some ''a1'') [''a2''], turn_message ''a2'' ''assistant'' (Some ''u2'') [''u3''],
      turn_message ''u3'' ''user'' (Some ''a2'') [''a3''], turn_message ''a3'' ''assistant'' (Some ''u3'') []]"

definition small_chat :: chat_row where
  "small_chat = \<lparr>cr_id = ''c'', cr_user = ''ann'',
     cr_history = \<lparr>hi_messages = small_history, hi_current = Some ''a3'', hi_rest = []\<rparr>,
     cr_rest = [], cr_meta = [], cr_timer_at = None, cr_updated_at = 0\<rparr>"

definition small_db :: chat_db where
  "small_db = \<lparr>cd_chats = [small_chat], cd_rows = backfill_messages 0 ''c'' ''ann'' small_history []\<rparr>"

definition small_map :: messages where
  "small_map = the (rows_messages_map ''c'' (cd_rows small_db))"

definition small_env :: compaction_env where
  "small_env = \<lparr>ce_models = [JStr ''m''], ce_compaction_model = JNull,
     ce_complete = \<lambda>m compacted recent previous template.
       Inr (Value (JObj [(''choices'', JArr [JObj [(''message'', JObj [(''content'', JStr '' so far '')])]])]))\<rparr>"

definition small_config :: compaction_config where
  "small_config = load_config [(''chat.context_compaction.enable'', JBool True), (''chat.context_compaction.token_threshold'', JInt 8)]"

definition small_metadata :: dict where
  "small_metadata = [(''chat_id'', JStr ''c''), (''message_id'', JStr ''a3'')]"

definition small_request :: "dict list" where
  "small_request = map replayed (get_message_list small_map (Some ''u3''))"

definition small_compaction :: "chat_db \<times> compaction_event list \<times> (py_error + dict list \<times> string option \<times> bool)" where
  "small_compaction = compact_messages_for_request (\<lambda>v. ''json'') (\<lambda>v. ''repr'') small_env 9 small_config small_metadata
     (JStr ''m'') (JStr []) small_request small_db"

lemma small_facts:
  "checkpointable ''c'' small_db" "rows_messages_map ''c'' (cd_rows small_db) \<noteq> None"
  "unresolved_parent_ids small_map = []"
  "split_system small_request = ([], small_request)"
  "length small_request = 5"
  "snd small_compaction = ([Compacting, ContextCompacted], Inr (drop 2 small_request, Some ''so far'', True))"
  "no_null_bytes ''so far''" "strip_text ''so far'' \<noteq> []"
  "is_saved_chat_id (JStr ''c'')"
  by code_simp+

text \<open>The chat after the compaction, when the user has asked once more.\<close>

definition asked_again :: chat_db where
  "asked_again = upsert_message_to_chat (\<lambda>v. ''repr'') 10 True ''c'' ''u4''
     [(''role'', JStr ''user''), (''parentId'', JStr ''a3''), (''content'', JStr ''more'')] (fst small_compaction)"

definition compacted_map :: messages where
  "compacted_map = the (rows_messages_map ''c'' (cd_rows (fst small_compaction)))"

definition asked_map :: messages where
  "asked_map = the (rows_messages_map ''c'' (cd_rows asked_again))"

definition asked_newer :: "dict list" where
  "asked_newer = drop 5 (map replayed (get_message_list asked_map (Some ''u4'')))"

lemma small_later_all:
  "case (rows_messages_map ''c'' (cd_rows (fst small_compaction)), rows_messages_map ''c'' (cd_rows asked_again)) of
     (Some ms, Some ns) \<Rightarrow>
       let kept = map replayed (get_message_list ms (Some ''u3'')); loaded = map replayed (get_message_list ns (Some ''u4'')) in
       unresolved_parent_ids ns = [] \<and> loaded = kept @ drop 5 loaded \<and> list_all (\<lambda>m. stated_summary m = None) (drop 5 loaded)
   | _ \<Rightarrow> False"
  by code_simp

lemma small_later:
  "rows_messages_map ''c'' (cd_rows (fst small_compaction)) = Some compacted_map"
  "rows_messages_map ''c'' (cd_rows asked_again) = Some asked_map"
  "unresolved_parent_ids asked_map = []"
  "map replayed (get_message_list asked_map (Some ''u4'')) =
     map replayed (get_message_list compacted_map (Some ''u3'')) @ asked_newer"
  "list_all (\<lambda>m. stated_summary m = None) asked_newer"
  using small_later_all
  by (auto simp: compacted_map_def asked_map_def asked_newer_def Let_def split: option.splits)


theorem compaction_cuts_in_two_witness:
  "(\<exists>dropped. small_request = dropped @ small_request) \<and>
    (\<exists>compacted recent s. small_request = compacted @ recent \<and> drop 2 small_request = [] @ recent \<and> Some ''so far'' = Some s \<and>
       generate_summary (\<lambda>v. ''repr'') small_env (JStr ''m'') compacted recent None (cc_prompt_template small_config) = Inr s \<and>
       compacted \<noteq> [] \<and> get (hd recent) ''role'' = JStr ''user'' \<and>
       max 2 (length small_request * nat (cc_retention_percentage small_config) div 100) \<le> length recent)"
proof -
  have facts: "cc_enable small_config" "10 \<le> cc_retention_percentage small_config" "cc_retention_percentage small_config \<le> 50"
    "apply_latest_summary_checkpoint small_request = (small_request, None)" by code_simp+
  have run: "compact_messages_for_request (\<lambda>v. ''json'') (\<lambda>v. ''repr'') small_env 9 small_config small_metadata
      (JStr ''m'') (JStr []) small_request small_db
    = (fst small_compaction, [Compacting, ContextCompacted], Inr (drop 2 small_request, Some ''so far'', True))"
    using small_facts(6) unfolding small_compaction_def by (metis prod.collapse)
  from compaction_cuts_in_two [OF run facts(1) small_facts(4) facts(4) facts(2,3)] show ?thesis
    unfolding append_Nil if_True .
qed

theorem saving_keeps_copies_witness:
  "copies_agree ''c'' (upsert_message_to_chat (\<lambda>v. ''repr'') 9 True ''c'' ''u4''
     [(''role'', JStr ''user''), (''parentId'', JStr ''a3''), (''content'', JStr ''more'')] small_db)"
  by (rule saving_keeps_copies [OF _ refl refl]) code_simp+

lemma small_edits:
  "copies_exact ''c'' small_db" "find_row ''c'' (cd_chats small_db) = Some small_chat" "clean_stored ''c'' small_db"
  "list_all valid_model (chat_rows ''c'' (cd_rows small_db))"
  "list_all (\<lambda>(k, m). \<not> truthy (get m ''status_history'')) (hi_messages (cr_history small_chat))"
  "list_all (\<lambda>(k, m). fits m \<and> truthy (get m ''role''))
     (hi_messages (fst (delete_message_from_history (cr_history (repair_row small_chat)) ''a1'')))"
  by code_simp+

theorem edits_keep_copies_witness:
  "copies_exact ''c'' (delete_message_from_chat 9 ''c'' ''a1'' small_db) \<and>
    copies_exact ''c'' (add_message_status 9 ''c'' ''a1'' (JStr ''done'') small_db) \<and>
    row_of ''c'' ''u2'' (delete_message_from_chat 9 ''c'' ''a1'' small_db) = None"
proof -
  have gone: "row_of ''c'' ''u2'' (delete_message_from_chat 9 ''c'' ''a1'' small_db) = None" by code_simp
  from edits_keep_copies [OF small_edits(1-4) small_edits(5) [unfolded list_all_iff] small_edits(6) [unfolded list_all_iff]] gone
  show ?thesis by blast
qed

section \<open>A gap in the rows\<close>

text \<open>
  Where only the last message of the chat has a row, each read of the map fetches one more
  generation from the JSON: the first two requests are answered without the older messages.
\<close>

definition gap_db :: chat_db where
  "gap_db = small_db\<lparr>cd_rows := backfill_messages 0 ''c'' ''ann'' (drop 5 small_history) []\<rparr>"

definition loaded_ids :: "chat_db \<Rightarrow> chat_db \<times> json list option" where
  "loaded_ids db = map_prod id (map_option (map (\<lambda>m. get m ''id''))) (load_messages_from_db 9 ''c'' ''a3'' db)"

lemma gaps_heal_one_generation_per_read:
  "snd (loaded_ids gap_db) = Some [JStr ''u3'', JStr ''a3''] \<and>
    snd (loaded_ids (fst (loaded_ids gap_db))) = Some [JStr ''a2'', JStr ''u3'', JStr ''a3'']"
proof
  show "snd (loaded_ids gap_db) = Some [JStr ''u3'', JStr ''a3'']" by code_simp
  show "snd (loaded_ids (fst (loaded_ids gap_db))) = Some [JStr ''a2'', JStr ''u3'', JStr ''a3'']" by code_simp
qed

end
