(* ===== verification/ContextUsage.thy ===== *)
theory ContextUsage
  imports CompactionResume
begin

text \<open>
  The context usage a chat reports (\<open>get_chat_context_usage\<close>) before and after its branch is
  compacted on request (\<open>compact_chat_branch\<close>).
\<close>

section \<open>The usage of the last message decides\<close>

lemma latest_usage_last:
  assumes "get m ''usage'' = JObj u" and "usage_token_count u = Inr t" and "t \<noteq> 0"
  shows "context_tokens dumps (ms @ [m]) prompts = Inr t"
proof -
  have "truthy (JObj u)"
  proof (rule ccontr)
    assume "\<not> truthy (JObj u)"
    then have "u = []" by simp
    then show False using assms(2,3) by (simp add: usage_token_count_def Let_def py_or_def)
  qed
  then have "stated_usage m = Inr (JObj u)" using assms(1) by (simp add: stated_usage_def)
  then have "latest_usage (rev (ms @ [m])) [] = Inr (Some (t, []))" using assms(2,3) by simp
  then show ?thesis by (simp add: context_tokens_def estimate_messages_tokens_def)
qed

lemma checkpoint_keeps_last:
  assumes "apply_latest_summary_checkpoint msgs = (kept, previous)" and "msgs \<noteq> []"
  shows "kept \<noteq> [] \<and> last kept = last msgs"
proof (cases "latest_checkpoint msgs")
  case None
  then show ?thesis using assms by (simp add: apply_latest_summary_checkpoint_def)
next
  case (Some found)
  obtain cut s where found: "found = (cut, s)" by (cases found)
  from latest_checkpoint_suffix [OF Some [unfolded found]] show ?thesis
    using assms(1) Some by (auto simp: apply_latest_summary_checkpoint_def found)
qed

lemma usage_of_last:
  assumes "rows_messages_map (cr_id c) (cd_rows db) = Some ms" and "unresolved_parent_ids ms = []"
    and "get_current_message_id c = JStr i" and "i \<noteq> []" and "cc_enable cfg"
    and "get_message_list ms (Some i) \<noteq> []" and "get (last (get_message_list ms (Some i))) ''usage'' = JObj u"
    and "usage_token_count u = Inr t" and "t \<noteq> 0"
    and "resolve_token_threshold (cc_token_threshold cfg) (cc_token_cap cfg) (cr_rest c) = Inr th"
  shows "chat_context_usage dumps now cfg c db = (db, Inr (Some (t, th)))"
proof -
  obtain kept previous where cut: "apply_latest_summary_checkpoint (get_message_list ms (Some i)) = (kept, previous)" by fastforce
  note last = checkpoint_keeps_last [OF cut assms(6)]
  have "context_tokens dumps (butlast kept @ [last kept]) prompts = Inr t" for prompts
    by (rule latest_usage_last [OF _ assms(8,9)]) (use last assms(7) in simp)
  then have "context_tokens dumps kept prompts = Inr t" for prompts using last by (metis append_butlast_last_id)
  moreover have "ms \<noteq> []" using assms(6) by (auto simp: get_message_list_def known_messages_def List.map_filter_def)
  moreover have "get_messages_map now (cr_id c) db = (db, Some ms)" by (simp add: get_messages_map_def assms(1,2))
  ultimately show ?thesis
    using assms(3-6,10) cut by (cases i) (simp_all add: chat_context_usage_def Let_def)
qed

lemma trail_first: "x \<in> set U \<Longrightarrow> \<exists>xs. trail hop U (Some x) [] = x # xs"
  by (simp add: trail_Some)

lemma last_branch_id: "i \<in> set (map fst ms) \<Longrightarrow> branch_ids ms i \<noteq> [] \<and> last (branch_ids ms i) = i"
  using trail_first [of i "map fst ms" "step_up ms"] by (auto simp: branch_ids_def simp del: set_map)

lemma last_loaded:
  assumes "keyed_rows chat rows" and "rows_messages_map chat rows = Some ms" and "map_of ms i = Some m"
  shows "get_message_list ms (Some i) \<noteq> [] \<and> last (get_message_list ms (Some i)) = m"
proof -
  have "n \<noteq> []" if "map_of ms k = Some n" for k n
  proof -
    have "get n ''id'' = JStr k" using message_map_of_rows [OF assms(1,2)] that by fastforce
    then show ?thesis by (auto simp: get_or_def)
  qed
  moreover have "distinct (map fst ms)"
    using message_map_of_rows [OF assms(1,2)] keyed_message_ids [OF assms(1)] by simp
  ultimately have "get_message_list ms (Some i) = map (\<lambda>k. the (map_of ms k)) (branch_ids ms i)"
    by (intro message_list_ids) auto
  moreover have "i \<in> set (map fst ms)" using assms(3) known_iff [of ms i] by simp
  ultimately show ?thesis using last_branch_id [of i ms] assms(3) by (auto simp: last_map)
qed

text \<open>
  Compacting a branch on request leaves the context usage the chat reports where it was: the
  message kept is the one whose stated usage is reported, and it still counts the messages that are gone.
\<close>

theorem branch_compaction_keeps_usage:
  assumes chat: "checkpointable (cr_id c) db" "rows_messages_map (cr_id c) (cd_rows db) = Some ms" "unresolved_parent_ids ms = []"
    and shown: "get_current_message_id c = JStr i" "map_of ms i = Some m" "get m ''usage'' = JObj u"
      "usage_token_count u = Inr t" "t \<noteq> 0"
    and cfg: "cc_enable cfg" "resolve_token_threshold (cc_token_threshold cfg) (cc_token_cap cfg) (cr_rest c) = Inr th"
    and run: "compact_chat_branch repr env now cfg model c db = (db', Inr (BranchCompacted dropped kept chars))"
    and summaries: "\<And>xs ys p s. generate_summary repr env model xs ys p (cc_prompt_template cfg) = Inr s \<Longrightarrow> s \<noteq> [] \<and> no_null_bytes s"
  shows "0 < dropped \<and> chat_context_usage dumps now' cfg c db = (db, Inr (Some (t, th))) \<and>
    chat_context_usage dumps now' cfg c db' = (db', Inr (Some (t, th)))"
proof -
  have keyed: "keyed_rows (cr_id c) (cd_rows db)" using chat(1) by (simp add: checkpointable_def copies_agree_def)
  from message_map_of_rows [OF keyed chat(2)] shown(2) have "i \<in> set (map (message_id_of (cr_id c)) (chat_rows (cr_id c) (cd_rows db)))"
    using known_iff [of ms i] by simp
  then obtain r where r: "r \<in> set (chat_rows (cr_id c) (cd_rows db))" "message_id_of (cr_id c) r = i" by auto
  from chat(1) r(1) have "i \<noteq> [] \<and> no_null_bytes i \<and>
      (case json_message (cr_id c) i db of None \<Rightarrow> False | Some n \<Rightarrow> \<not> truthy (get n ''context_summary''))"
    unfolding r(2) [symmetric] checkpointable_def list_all_iff Let_def by blast
  then obtain n where n: "i \<noteq> []" "no_null_bytes i" "json_message (cr_id c) i db = Some n" "\<not> truthy (get n ''context_summary'')"
    by (auto split: option.splits)
  obtain cut previous where cut: "apply_latest_summary_checkpoint (get_message_list ms (Some i)) = (cut, previous)" by fastforce
  have "ms \<noteq> []" using shown(2) by auto
  then have eq: "compact_chat_branch repr env now cfg model c db =
      (if length cut \<le> 1 then (db, Inr TooShort)
       else case generate_summary repr env model (butlast cut) [last cut] previous (cc_prompt_template cfg) of
              Inl e \<Rightarrow> (db, Inl e)
            | Inr s \<Rightarrow> (store_summary repr now (JStr (cr_id c)) (JStr i) s db, Inr (BranchCompacted (length cut - 1) 1 (length s))))"
    using cut n(1) cfg(1)
    by (cases i) (simp_all add: compact_chat_branch_def shown(1) get_messages_map_def chat(2,3) store_summary_def Let_def cong: sum.case_cong)
  obtain s where s: "generate_summary repr env model (butlast cut) [last cut] previous (cc_prompt_template cfg) = Inr s"
    and db': "db' = store_summary repr now (JStr (cr_id c)) (JStr i) s db" and d: "dropped = length cut - 1" "1 < length cut"
  proof (cases "generate_summary repr env model (butlast cut) [last cut] previous (cc_prompt_template cfg)")
    case (Inl e)
    then show ?thesis using run unfolding eq by (simp split: if_split_asm)
  next
    case (Inr s)
    have long: "1 < length cut" using run unfolding eq by (cases "length cut \<le> 1") simp_all
    then have "db' = store_summary repr now (JStr (cr_id c)) (JStr i) s db \<and> dropped = length cut - 1"
      using run Inr unfolding eq by auto
    then show ?thesis using that Inr long by blast
  qed
  have agree: "copies_agree (cr_id c) db" and clean: "clean_stored (cr_id c) db" using chat(1) by (simp_all add: checkpointable_def)
  note ok = summaries [OF s]
  note rows = summary_rows [OF agree n(3,4,2) conjunct2 [OF ok] conjunct1 [OF ok] clean, of repr now, folded db']
  from messages_after_checkpoint [OF keyed chat(2) rows] obtain ms'
    where ms': "rows_messages_map (cr_id c) (cd_rows db') = Some ms'" "unresolved_parent_ids ms' = []"
    unfolding chat(3) by blast
  from map_after_checkpoint [OF keyed chat(2) rows] shown(2) obtain m'
    where m': "map_of ms' i = Some m'" "\<And>k. k \<noteq> ''childrenIds'' \<Longrightarrow>
      get m' k = (if i = i \<and> k = ''contextSummary'' then JStr s else get m k)"
    unfolding ms'(1) option.inject by blast
  have keyed': "keyed_rows (cr_id c) (cd_rows db')" unfolding rows keyed_checkpoint by (rule keyed)
  have "chat_context_usage dumps now' cfg c db = (db, Inr (Some (t, th)))"
    using last_loaded [OF keyed chat(2) shown(2)] shown(3)
    by (intro usage_of_last [OF chat(2,3) shown(1) n(1) cfg(1) _ _ shown(4,5) cfg(2)]) simp_all
  moreover have "chat_context_usage dumps now' cfg c db' = (db', Inr (Some (t, th)))"
    using last_loaded [OF keyed' ms'(1) m'(1)] shown(3) m'(2) [of "''usage''"]
    by (intro usage_of_last [OF ms' shown(1) n(1) cfg(1) _ _ shown(4,5) cfg(2)]) simp_all
  ultimately show ?thesis using d by simp
qed

section \<open>A chat whose reply states its usage\<close>

definition usage_history :: messages where
  "usage_history =
     [turn_message ''u1'' ''user'' None [''a1''],
      (''a1'', snd (turn_message ''a1'' ''assistant'' (Some ''u1'') []) @ [(''usage'', JObj [(''prompt_tokens'', JInt 90), (''completion_tokens'', JInt 10)])])]"

definition usage_chat :: chat_row where
  "usage_chat = small_chat\<lparr>cr_history := \<lparr>hi_messages = usage_history, hi_current = Some ''a1'', hi_rest = []\<rparr>\<rparr>"

definition usage_db :: chat_db where
  "usage_db = \<lparr>cd_chats = [usage_chat], cd_rows = backfill_messages 0 ''c'' ''ann'' usage_history []\<rparr>"

definition usage_map :: messages where
  "usage_map = the (rows_messages_map ''c'' (cd_rows usage_db))"

definition usage_branch :: "chat_db \<times> (py_error + branch_outcome)" where
  "usage_branch = compact_chat_branch (\<lambda>v. ''repr'') small_env 9 small_config (JStr ''m'') usage_chat usage_db"

lemma usage_facts:
  "checkpointable ''c'' usage_db" "rows_messages_map ''c'' (cd_rows usage_db) \<noteq> None" "unresolved_parent_ids usage_map = []"
  "cr_id usage_chat = ''c''" "get_current_message_id usage_chat = JStr ''a1''" "map_of usage_map ''a1'' \<noteq> None"
  "get (the (map_of usage_map ''a1'')) ''usage'' = JObj [(''prompt_tokens'', JInt 90), (''completion_tokens'', JInt 10),
     (''input_tokens'', JInt 90), (''output_tokens'', JInt 10), (''total_tokens'', JInt 100)]"
  "usage_token_count [(''prompt_tokens'', JInt 90), (''completion_tokens'', JInt 10),
     (''input_tokens'', JInt 90), (''output_tokens'', JInt 10), (''total_tokens'', JInt 100)] = Inr 100"
  "cc_enable small_config"
  "resolve_token_threshold (cc_token_threshold small_config) (cc_token_cap small_config) (cr_rest usage_chat) = Inr 8"
  "snd usage_branch = Inr (BranchCompacted 1 1 6)"
  by code_simp+

lemma small_summary:
  "generate_summary repr small_env model xs ys p template = Inr s \<Longrightarrow> s \<noteq> [] \<and> no_null_bytes s"
proof -
  have "response_text (Value (JObj [(''choices'', JArr [JObj [(''message'', JObj [(''content'', JStr '' so far '')])]])])) = Inr (JStr '' so far '')"
    by code_simp
  moreover have "strip_text '' so far '' = ''so far''" "no_null_bytes ''so far''" by code_simp+
  moreover assume "generate_summary repr small_env model xs ys p template = Inr s"
  ultimately show ?thesis by (auto simp: generate_summary_def and_then_Inr small_env_def)
qed

theorem branch_compaction_keeps_usage_witness:
  "chat_context_usage (\<lambda>v. ''json'') 10 small_config usage_chat usage_db = (usage_db, Inr (Some (100, 8))) \<and>
    chat_context_usage (\<lambda>v. ''json'') 10 small_config usage_chat (fst usage_branch) = (fst usage_branch, Inr (Some (100, 8)))"
proof -
  have map: "rows_messages_map ''c'' (cd_rows usage_db) = Some usage_map"
    using usage_facts(2) unfolding usage_map_def by (metis option.collapse)
  have m: "map_of usage_map ''a1'' = Some (the (map_of usage_map ''a1''))"
    using usage_facts(6) by (metis option.collapse)
  have run: "compact_chat_branch (\<lambda>v. ''repr'') small_env 9 small_config (JStr ''m'') usage_chat usage_db
      = (fst usage_branch, Inr (BranchCompacted 1 1 6))"
    using usage_facts(11) unfolding usage_branch_def by (metis prod.collapse)
  show ?thesis
    using branch_compaction_keeps_usage [where c = usage_chat and dumps = "\<lambda>v. ''json''" and now' = 10, unfolded usage_facts(4),
        OF usage_facts(1) map usage_facts(3,5) m usage_facts(7,8) _ usage_facts(9,10) run] small_summary
    by simp
qed

end
