(* ===== verification/Runs.thy ===== *)
theory Runs
  imports Prelude
begin

text \<open>
  Systems that run in steps: several requests, tasks or workers act on shared stored state, and
  each event either cannot happen or gives the step_of state. A condition on the events says what
  is assumed of their order (one worker, one resolve at a time); a run is any sequence of events
  it allows.
\<close>

inductive reach :: "('s \<Rightarrow> 'e \<Rightarrow> 's option) \<Rightarrow> ('s \<Rightarrow> 'e \<Rightarrow> bool) \<Rightarrow> 's \<Rightarrow> 's \<Rightarrow> bool" for step_of allowed s0 where
  reach_start: "reach step_of allowed s0 s0"
| reach_next: "reach step_of allowed s0 s \<Longrightarrow> allowed s e \<Longrightarrow> step_of s e = Some s' \<Longrightarrow> reach step_of allowed s0 s'"

text \<open>A given sequence of events, for concrete runs: None when one is not allowed or cannot happen.\<close>

fun exec :: "('s \<Rightarrow> 'e \<Rightarrow> 's option) \<Rightarrow> ('s \<Rightarrow> 'e \<Rightarrow> bool) \<Rightarrow> 's \<Rightarrow> 'e list \<Rightarrow> 's option" where
  "exec step_of allowed s [] = Some s"
| "exec step_of allowed s (e # es) =
     (if \<not> allowed s e then None
      else case step_of s e of None \<Rightarrow> None | Some s' \<Rightarrow> exec step_of allowed s' es)"

lemma exec_reach_from:
  "reach step_of allowed s0 s \<Longrightarrow> exec step_of allowed s es = Some s' \<Longrightarrow> reach step_of allowed s0 s'"
  by (induction es arbitrary: s) (auto split: option.splits if_splits intro: reach_next)

lemma exec_reach: "exec step_of allowed s0 es = Some s \<Longrightarrow> reach step_of allowed s0 s"
  using exec_reach_from [OF reach_start] .

lemma exec_reach_view:
  assumes "map_option view (exec step_of allowed s0 es) = Some v"
  obtains s where "reach step_of allowed s0 s" and "view s = v"
  using assms exec_reach by fastforce

section \<open>Interface: an invariant of the allowed steps\<close>

locale step_invariant =
  fixes step_of :: "'s \<Rightarrow> 'e \<Rightarrow> 's option"
    and allowed :: "'s \<Rightarrow> 'e \<Rightarrow> bool"
    and invariant :: "'s \<Rightarrow> bool"
  assumes keeps: "invariant s \<Longrightarrow> allowed s e \<Longrightarrow> step_of s e = Some s' \<Longrightarrow> invariant s'"
begin

lemma holds_in_runs: "reach step_of allowed s0 s \<Longrightarrow> invariant s0 \<Longrightarrow> invariant s"
  by (induction rule: reach.induct) (blast intro: keeps)+

end

end
