(* ===== verification/TimerRuns.thy ===== *)
theory TimerRuns
  imports Timers Runs
begin

text \<open>
  The runs of timers over time: the instances of the app (workers) share the chat table, and each
  has its own asyncio locks. A step is one transaction or one event of the app: a timer is
  created, a poll claims due timers and starts their runs, a run does its checks under its
  worker's lock of the timer, commits its messages, fails or ends with the reply, a read or a
  message of the user cancels timers, the scheduler recovers stale ones, a worker restarts, a
  history is edited, a chat deleted. Any interleaving of them is a run of the system. Whether a
  timer's messages can be posted twice depends on the recovery.
\<close>

section \<open>Steps\<close>

datatype phase = Waiting | Checked timer_job | Posted

record run =
  rn_worker :: nat
  rn_timer :: string
  rn_claim :: string
  rn_phase :: phase

text \<open>
  \<open>sy_posts\<close> logs each post with its assistant message, and \<open>sy_used\<close> every uuid drawn so far.
\<close>

record sys =
  sy_chats :: "chat_row list"
  sy_runs :: "run list"
  sy_posts :: "(string \<times> string) list"
  sy_used :: "string list"

datatype timer_event =
    Created chat_row
  | Claimed nat int int "string list"
  | Cancelled int int string string string
  | Recovered int int
  | Begun string timer_env int
  | Committed string timer_env int int string string
  | Failed string int string
  | Replied string
  | ReplyFailed string int string
  | Restarted nat
  | Edited string history
  | Deleted string

definition run_of :: "sys \<Rightarrow> string \<Rightarrow> run option" where
  "run_of s c = find (\<lambda>r. rn_claim r = c) (sy_runs s)"

definition end_run :: "string \<Rightarrow> sys \<Rightarrow> sys" where
  "end_run c s = s\<lparr>sy_runs := filter (\<lambda>r. rn_claim r \<noteq> c) (sy_runs s)\<rparr>"

definition set_phase :: "string \<Rightarrow> phase \<Rightarrow> sys \<Rightarrow> sys" where
  "set_phase c ph s = s\<lparr>sy_runs := map (\<lambda>r. if rn_claim r = c then r\<lparr>rn_phase := ph\<rparr> else r) (sy_runs s)\<rparr>"

text \<open>The timer's lock of a worker is held from the checks of a run to its end.\<close>

definition lock_held :: "sys \<Rightarrow> nat \<Rightarrow> string \<Rightarrow> bool" where
  "lock_held s w t \<longleftrightarrow> list_ex (\<lambda>r. rn_worker r = w \<and> rn_timer r = t \<and> rn_phase r \<noteq> Waiting) (sy_runs s)"

definition fresh :: "sys \<Rightarrow> string list \<Rightarrow> bool" where
  "fresh s ids \<longleftrightarrow> distinct ids \<and> list_all (\<lambda>i. i \<notin> set (sy_used s)) ids"

text \<open>
  A row that can be added: a timer chat has its own due time, the time it waits for when it is
  pending, and the time it started when it is running; any other chat can carry any meta.
\<close>

fun is_int :: "json \<Rightarrow> bool" where
  "is_int (JInt _) = True"
| "is_int _ = False"

lemma is_intD: "is_int v \<Longrightarrow> \<exists>n. v = JInt n"
  by (cases v) simp_all

definition is_timer :: "chat_row \<Rightarrow> bool" where
  "is_timer r \<longleftrightarrow> get (cr_meta r) ''type'' = JStr ''timer'' \<and> get (cr_meta r) ''internal'' = JBool True"

definition row_ok :: "chat_row \<Rightarrow> bool" where
  "row_ok r \<longleftrightarrow> \<not> is_timer r \<or> is_int (get (cr_meta r) ''timer_at'') \<and>
     (has_status ''pending'' r \<longrightarrow> cr_timer_at r \<noteq> None) \<and>
     (has_status ''running'' r \<longrightarrow> is_int (get (cr_meta r) ''timer_started_at''))"

definition begin_run :: "(json \<Rightarrow> string) \<Rightarrow> timer_env \<Rightarrow> int \<Rightarrow> run \<Rightarrow> sys \<Rightarrow> sys" where
  "begin_run repr env secs r s =
     (case begin_timer repr env secs (rn_timer r) (Some (rn_claim r)) (sy_chats s) of
        (db, None) \<Rightarrow> end_run (rn_claim r) (s\<lparr>sy_chats := db\<rparr>)
      | (db, Some job) \<Rightarrow> set_phase (rn_claim r) (Checked job) (s\<lparr>sy_chats := db\<rparr>))"

definition commit_run :: "timer_env \<Rightarrow> int \<Rightarrow> int \<Rightarrow> string \<Rightarrow> string \<Rightarrow> run \<Rightarrow> timer_job \<Rightarrow> sys \<Rightarrow> sys" where
  "commit_run env now secs u a r job s =
     (case post_timer env now secs u a (rn_timer r) job (sy_chats s) of
        (db, None) \<Rightarrow> end_run (rn_claim r) (s\<lparr>sy_chats := db\<rparr>)
      | (db, Some req) \<Rightarrow> set_phase (rn_claim r) Posted
          (s\<lparr>sy_chats := db, sy_posts := sy_posts s @ [(rn_timer r, a)], sy_used := [u, a] @ sy_used s\<rparr>))"

definition claim_step :: "nat \<Rightarrow> int \<Rightarrow> int \<Rightarrow> string list \<Rightarrow> sys \<Rightarrow> sys" where
  "claim_step w now secs cs s =
     (case claim_due_timers now secs cs (sy_chats s) of
        (db, claimed) \<Rightarrow> s\<lparr>sy_chats := db, sy_used := cs @ sy_used s,
          sy_runs := sy_runs s @ map (\<lambda>(t, c). \<lparr>rn_worker = w, rn_timer = t, rn_claim = c, rn_phase = Waiting\<rparr>) claimed\<rparr>)"

text \<open>One step: None when the event cannot happen.\<close>

fun step :: "(json \<Rightarrow> string) \<Rightarrow> sys \<Rightarrow> timer_event \<Rightarrow> sys option" where
  "step repr s (Created r) =
     (if fresh s [cr_id r] \<and> row_ok r then Some (s\<lparr>sy_chats := sy_chats s @ [r], sy_used := cr_id r # sy_used s\<rparr>) else None)"
| "step repr s (Claimed w now secs cs) = (if fresh s cs then Some (claim_step w now secs cs s) else None)"
| "step repr s (Cancelled now secs parent event user) =
     Some (s\<lparr>sy_chats := cancel_timers_for_chat now secs parent event user (sy_chats s)\<rparr>)"
| "step repr s (Recovered now secs) = Some (s\<lparr>sy_chats := fst (recover_stale_timers now secs (sy_chats s))\<rparr>)"
| "step repr s (Begun c env secs) =
     (case run_of s c of
        None \<Rightarrow> None
      | Some r \<Rightarrow> if rn_phase r \<noteq> Waiting \<or> lock_held s (rn_worker r) (rn_timer r) then None
          else Some (begin_run repr env secs r s))"
| "step repr s (Committed c env now secs u a) =
     (case run_of s c of
        None \<Rightarrow> None
      | Some r \<Rightarrow> (case rn_phase r of
            Checked job \<Rightarrow> if fresh s [u, a] then Some (commit_run env now secs u a r job s) else None
          | _ \<Rightarrow> None))"
| "step repr s (Failed c secs e) =
     (case run_of s c of
        None \<Rightarrow> None
      | Some r \<Rightarrow> Some (end_run c (s\<lparr>sy_chats := record_timer_error secs (rn_timer r) (Some c) e (sy_chats s)\<rparr>)))"
| "step repr s (Replied c) =
     (case run_of s c of
        None \<Rightarrow> None | Some r \<Rightarrow> if rn_phase r = Posted then Some (end_run c s) else None)"
| "step repr s (ReplyFailed c secs e) =
     (case run_of s c of
        None \<Rightarrow> None
      | Some r \<Rightarrow> if rn_phase r = Posted
          then Some (end_run c (s\<lparr>sy_chats := set_timer_state secs (rn_timer r) (error_fields e) (sy_chats s)\<rparr>)) else None)"
| "step repr s (Restarted w) = Some (s\<lparr>sy_runs := filter (\<lambda>r. rn_worker r \<noteq> w) (sy_runs s)\<rparr>)"
| "step repr s (Edited i h) = Some (s\<lparr>sy_chats := update_row i (\<lambda>r. r\<lparr>cr_history := h\<rparr>) (sy_chats s)\<rparr>)"
| "step repr s (Deleted i) = Some (s\<lparr>sy_chats := filter (\<lambda>r. cr_id r \<noteq> i) (sy_chats s)\<rparr>)"

definition started :: "chat_row list \<Rightarrow> sys" where
  "started db = \<lparr>sy_chats = db, sy_runs = [], sy_posts = [], sy_used = map cr_id db\<rparr>"

text \<open>One worker; and runs that are done with their checks and commit before a recovery finds them.\<close>

definition one_worker :: "nat \<Rightarrow> sys \<Rightarrow> timer_event \<Rightarrow> bool" where
  "one_worker w s e \<longleftrightarrow> (case e of Claimed v _ _ _ \<Rightarrow> v = w | _ \<Rightarrow> True)"

definition is_checked :: "run \<Rightarrow> bool" where
  "is_checked r \<longleftrightarrow> (case rn_phase r of Checked _ \<Rightarrow> True | _ \<Rightarrow> False)"

definition prompt_runs :: "sys \<Rightarrow> timer_event \<Rightarrow> bool" where
  "prompt_runs s e \<longleftrightarrow> (case e of
     Recovered now _ \<Rightarrow> list_all (\<lambda>r. \<not> is_checked r \<or> rn_timer r \<notin> set (snd (recover_stale_timers now 0 (sy_chats s)))) (sy_runs s)
   | _ \<Rightarrow> True)"

section \<open>Changes of a row that start nothing\<close>

text \<open>
  Most steps change a row calmly: its timer fields stay, and its state stays with its due time or
  becomes a final one.
\<close>

definition active :: "chat_row \<Rightarrow> bool" where
  "active r \<longleftrightarrow> has_status ''pending'' r \<or> has_status ''running'' r"

definition calm :: "chat_row \<Rightarrow> chat_row \<Rightarrow> bool" where
  "calm r r' \<longleftrightarrow> cr_id r' = cr_id r \<and>
     (\<forall>k \<in> {''type'', ''internal'', ''timer_at'', ''timer_claim_id'', ''timer_started_at''}. get (cr_meta r') k = get (cr_meta r) k) \<and>
     (get (cr_meta r') ''status'' = get (cr_meta r) ''status'' \<and> cr_timer_at r' = cr_timer_at r \<or> \<not> active r')"

definition calm_step :: "chat_row list \<Rightarrow> chat_row list \<Rightarrow> bool" where
  "calm_step db db' \<longleftrightarrow> (\<forall>r' \<in> set db'. \<exists>r \<in> set db. calm r r') \<and> (distinct (map cr_id db) \<longrightarrow> distinct (map cr_id db'))"

lemma calm_refl [simp]: "calm r r"
  by (simp add: calm_def)

lemma calm_trans: "calm r r1 \<Longrightarrow> calm r1 r2 \<Longrightarrow> calm r r2"
  by (auto simp: calm_def active_def has_status_def)

lemma calm_active: "calm r r' \<Longrightarrow> active r' \<Longrightarrow> active r"
  by (auto simp: calm_def active_def has_status_def)

lemma calm_row_ok: "calm r r' \<Longrightarrow> row_ok r \<Longrightarrow> row_ok r'"
  by (auto simp: calm_def row_ok_def is_timer_def active_def has_status_def)

lemma calm_step_refl [simp]: "calm_step db db"
  by (auto simp: calm_step_def intro: calm_refl)

lemma calm_step_trans: "calm_step db db1 \<Longrightarrow> calm_step db1 db2 \<Longrightarrow> calm_step db db2"
  unfolding calm_step_def by (meson calm_trans)

lemma calm_stepD: "calm_step db db' \<Longrightarrow> r' \<in> set db' \<Longrightarrow> \<exists>r \<in> set db. calm r r'"
  by (simp add: calm_step_def)

lemma calm_step_ids: "calm_step db db' \<Longrightarrow> cr_id ` set db' \<subseteq> cr_id ` set db"
  by (fastforce simp: calm_step_def calm_def)

lemma calm_step_map:
  assumes "\<And>r. calm r (f r)"
  shows "calm_step db (map f db)"
proof -
  have "map cr_id (map f db) = map cr_id db" using assms by (auto simp: calm_def)
  then show ?thesis using assms unfolding calm_step_def by (metis (no_types, lifting) image_iff set_map)
qed

lemma calm_update_row:
  assumes "\<And>r. calm r (f r)"
  shows "calm_step db (update_row i f db)"
  unfolding update_row_def by (rule calm_step_map) (simp add: assms)

lemma calm_filter: "calm_step db (filter P db)"
  by (auto simp: calm_step_def intro: calm_refl)

lemma calm_history [simp]: "calm r (r\<lparr>cr_history := h\<rparr>)" "calm r (r\<lparr>cr_history := h, cr_updated_at := n\<rparr>)"
  by (simp_all add: calm_def)

lemma calm_error [simp]: "calm r (set_meta secs (error_fields e) r)"
  by (simp add: calm_def row_simps error_fields_def active_def has_status_def)

lemma not_active_completed: "\<not> active (set_meta secs (completed_fields now) r)"
  by (simp add: row_simps completed_fields_def active_def has_status_def)

lemma calm_completed [simp]: "calm r (set_meta secs (completed_fields now) r)"
  by (simp add: calm_def row_simps completed_fields_def active_def has_status_def)

lemma calm_set_error: "calm_step db (set_timer_state secs t (error_fields e) db)"
  unfolding set_timer_state_def by (rule calm_update_row) simp

lemma calm_record_error: "calm_step db (record_timer_error secs t c e db)"
  by (auto simp: record_timer_error_def calm_set_error split: option.split)

lemma calm_cancel: "calm_step db (cancel_timers_for_chat now secs parent event user db)"
  unfolding cancel_timers_for_chat_def
  by (rule calm_step_map) (auto simp: calm_def row_simps active_def has_status_def)

lemma calm_get_chat: "get_chat P i db = (db', x) \<Longrightarrow> calm_step db db'"
  by (auto simp: get_chat_def repair_row_def split: option.splits if_splits intro!: calm_update_row)

lemma get_chat_Some: "get_chat P i db = (db', Some r) \<Longrightarrow> \<exists>r0 \<in> set db. cr_id r0 = i \<and> cr_meta r0 = cr_meta r"
  by (auto simp: get_chat_def find_row_def repair_row_def split: option.splits if_splits dest: find_Some_mem)

lemma calm_begin:
  assumes "begin_timer repr env secs t c db = (db', x)"
  shows "calm_step db db'"
proof -
  obtain db1 timer where 1: "get_chat (\<lambda>_. True) t db = (db1, timer)" by fastforce
  note calm1 = calm_get_chat [OF 1]
  show ?thesis
  proof (cases timer)
    case (Some r)
    obtain db2 parent where 2: "get_chat (\<lambda>r'. cr_user r' = cr_user r) (as_str (get (cr_meta r) ''parent_chat_id'')) db1 = (db2, parent)"
      by fastforce
    have calm2: "calm_step db db2" using calm_step_trans [OF calm1 calm_get_chat [OF 2]] .
    then have "calm_step db (set_timer_state secs t (error_fields e) db2)" for e
      using calm_step_trans calm_set_error by blast
    then show ?thesis using assms 1 2 calm1 calm2 Some
      by (auto simp: begin_timer_def Let_def split: if_splits option.splits sum.splits)
  qed (use assms 1 calm1 in \<open>simp add: begin_timer_def\<close>)
qed

text \<open>A run that passes its checks found its timer running under its claim.\<close>

lemma begin_running:
  assumes "begin_timer repr env secs t (Some c) db = (db', Some job)"
  shows "\<exists>r \<in> set db. cr_id r = t \<and> has_status ''running'' r \<and> get (cr_meta r) ''timer_claim_id'' = JStr c"
proof -
  obtain db1 timer where 1: "get_chat (\<lambda>_. True) t db = (db1, timer)" by fastforce
  then obtain r where r: "timer = Some r" "has_status ''running'' r" "get (cr_meta r) ''timer_claim_id'' = JStr c"
    using assms by (cases timer) (auto simp: begin_timer_def split: if_splits)
  from get_chat_Some [OF 1 [unfolded r(1)]] show ?thesis using r(2,3) by (auto simp: has_status_def)
qed

lemma post_effect:
  assumes "post_timer env now secs u a t job db = (db', x)"
  obtains "calm_step db db'" "x \<noteq> None \<Longrightarrow> \<forall>r \<in> set db'. cr_id r = t \<longrightarrow> \<not> active r"
  | "x = None" "db' = update_row t (requeue_row secs) db"
proof (cases "find (\<lambda>r. cr_id r = tj_parent job \<and> cr_user r = tj_user job) db")
  case None
  then show thesis using assms that(1) calm_set_error by (auto simp: post_timer_def)
next
  case (Some p)
  show thesis
  proof (cases "te_active env (tj_parent job)")
    case True
    then show thesis using assms Some that(2) by (simp add: post_timer_def)
  next
    case False
    then have db': "db' = update_row t (set_meta secs (completed_fields now)) (update_row (tj_parent job)
        (\<lambda>r. r\<lparr>cr_history := post_messages secs t u a job (cr_history r), cr_updated_at := secs\<rparr>) db)"
      using assms Some by (auto simp: post_timer_def Let_def)
    have "calm_step db db'"
      unfolding db' by (rule calm_step_trans; rule calm_update_row) simp_all
    moreover have "\<not> active r" if r: "r \<in> set db'" "cr_id r = t" for r
    proof -
      obtain r1 where "r = (if cr_id r1 = t then set_meta secs (completed_fields now) r1 else r1)"
        using r(1) unfolding db' in_update_row by blast
      then have "r = set_meta secs (completed_fields now) r1" using r(2) by (auto split: if_splits)
      then show ?thesis using not_active_completed by simp
    qed
    ultimately show thesis using that(1) by blast
  qed
qed

section \<open>A timer posts once\<close>

text \<open>
  What every reachable state keeps: ids are drawn once, no timer has posted twice, and a timer
  that has posted is not waiting, not running, and no other run of it is past its checks.
\<close>

definition posted :: "sys \<Rightarrow> string \<Rightarrow> bool" where
  "posted s t \<longleftrightarrow> t \<in> fst ` set (sy_posts s)"

definition ids_fresh :: "sys \<Rightarrow> bool" where
  "ids_fresh s \<longleftrightarrow> distinct (map cr_id (sy_chats s)) \<and> distinct (map rn_claim (sy_runs s)) \<and> distinct (map fst (sy_posts s)) \<and>
     cr_id ` set (sy_chats s) \<subseteq> set (sy_used s) \<and> rn_claim ` set (sy_runs s) \<subseteq> set (sy_used s) \<and>
     fst ` set (sy_posts s) \<subseteq> set (sy_used s) \<and> rn_timer ` set (sy_runs s) \<subseteq> set (sy_used s)"

definition settled :: "sys \<Rightarrow> bool" where
  "settled s \<longleftrightarrow> (\<forall>r \<in> set (sy_chats s). posted s (cr_id r) \<longrightarrow> \<not> active r) \<and>
     (\<forall>q \<in> set (sy_runs s). posted s (rn_timer q) \<longrightarrow> \<not> is_checked q)"

definition exclusive :: "sys \<Rightarrow> bool" where
  "exclusive s \<longleftrightarrow> (\<forall>q \<in> set (sy_runs s). \<forall>q' \<in> set (sy_runs s).
     is_checked q \<longrightarrow> is_checked q' \<longrightarrow> rn_timer q = rn_timer q' \<longrightarrow> q = q')"

definition core :: "sys \<Rightarrow> bool" where
  "core s \<longleftrightarrow> ids_fresh s \<and> settled s \<and> exclusive s"

lemma coreI:
  assumes "distinct (map cr_id (sy_chats s))" "distinct (map rn_claim (sy_runs s))" "distinct (map fst (sy_posts s))"
    and "cr_id ` set (sy_chats s) \<subseteq> set (sy_used s)" "rn_claim ` set (sy_runs s) \<subseteq> set (sy_used s)"
      "fst ` set (sy_posts s) \<subseteq> set (sy_used s)" "rn_timer ` set (sy_runs s) \<subseteq> set (sy_used s)"
    and "\<And>r. r \<in> set (sy_chats s) \<Longrightarrow> posted s (cr_id r) \<Longrightarrow> \<not> active r"
    and "\<And>q. q \<in> set (sy_runs s) \<Longrightarrow> posted s (rn_timer q) \<Longrightarrow> \<not> is_checked q"
    and "\<And>q q'. q \<in> set (sy_runs s) \<Longrightarrow> q' \<in> set (sy_runs s) \<Longrightarrow> is_checked q \<Longrightarrow> is_checked q' \<Longrightarrow> rn_timer q = rn_timer q' \<Longrightarrow> q = q'"
  shows "core s"
  unfolding core_def ids_fresh_def settled_def exclusive_def by (intro conjI ballI impI assms)

lemma coreD:
  assumes "core s"
  shows "distinct (map cr_id (sy_chats s))" and "distinct (map rn_claim (sy_runs s))" and "distinct (map fst (sy_posts s))"
    and "cr_id ` set (sy_chats s) \<subseteq> set (sy_used s)" and "rn_claim ` set (sy_runs s) \<subseteq> set (sy_used s)"
    and "fst ` set (sy_posts s) \<subseteq> set (sy_used s)" and "rn_timer ` set (sy_runs s) \<subseteq> set (sy_used s)"
    and "\<And>r. r \<in> set (sy_chats s) \<Longrightarrow> posted s (cr_id r) \<Longrightarrow> \<not> active r"
    and "\<And>q. q \<in> set (sy_runs s) \<Longrightarrow> posted s (rn_timer q) \<Longrightarrow> \<not> is_checked q"
    and "\<And>q q'. q \<in> set (sy_runs s) \<Longrightarrow> q' \<in> set (sy_runs s) \<Longrightarrow> is_checked q \<Longrightarrow> is_checked q' \<Longrightarrow> rn_timer q = rn_timer q' \<Longrightarrow> q = q'"
proof -
  have i: "ids_fresh s" and st: "settled s" and ex: "exclusive s" using assms by (simp_all only: core_def)
  show "distinct (map cr_id (sy_chats s))" "distinct (map rn_claim (sy_runs s))" "distinct (map fst (sy_posts s))"
    "cr_id ` set (sy_chats s) \<subseteq> set (sy_used s)" "rn_claim ` set (sy_runs s) \<subseteq> set (sy_used s)"
    "fst ` set (sy_posts s) \<subseteq> set (sy_used s)" "rn_timer ` set (sy_runs s) \<subseteq> set (sy_used s)"
    using i by (simp_all only: ids_fresh_def)
  show "\<not> active r" if "r \<in> set (sy_chats s)" "posted s (cr_id r)" for r using st that unfolding settled_def by blast
  show "\<not> is_checked q" if "q \<in> set (sy_runs s)" "posted s (rn_timer q)" for q using st that unfolding settled_def by blast
  show "q = q'" if "q \<in> set (sy_runs s)" "q' \<in> set (sy_runs s)" "is_checked q" "is_checked q'" "rn_timer q = rn_timer q'" for q q'
    using ex that unfolding exclusive_def by blast
qed

lemma core_chats:
  assumes "core s" and "distinct (map cr_id db)" and "cr_id ` set db \<subseteq> set (sy_used s)"
    and "\<And>r. r \<in> set db \<Longrightarrow> posted s (cr_id r) \<Longrightarrow> \<not> active r"
  shows "core (s\<lparr>sy_chats := db\<rparr>)"
  by (rule coreI) (use coreD [OF assms(1)] assms(2-4) in \<open>simp_all add: posted_def\<close>)

lemma core_calm:
  assumes "core s" and "calm_step (sy_chats s) db"
  shows "core (s\<lparr>sy_chats := db\<rparr>)"
proof (rule core_chats [OF assms(1)])
  show "distinct (map cr_id db)" using assms(2) coreD(1) [OF assms(1)] by (simp add: calm_step_def)
  show "cr_id ` set db \<subseteq> set (sy_used s)" using calm_step_ids [OF assms(2)] coreD(4) [OF assms(1)] by blast
  fix r' assume "r' \<in> set db" and p: "posted s (cr_id r')"
  then obtain r where r: "r \<in> set (sy_chats s)" "calm r r'" using calm_stepD [OF assms(2)] by blast
  then have "\<not> active r" using coreD(8) [OF assms(1) r(1)] p by (simp add: calm_def)
  then show "\<not> active r'" using calm_active [OF r(2)] by blast
qed

lemma core_filter_runs:
  assumes "core s"
  shows "core (s\<lparr>sy_runs := filter P (sy_runs s)\<rparr>)"
proof (rule coreI)
  show "distinct (map rn_claim (sy_runs (s\<lparr>sy_runs := filter P (sy_runs s)\<rparr>)))"
    using coreD(2) [OF assms] by (auto simp: distinct_map intro: inj_on_subset)
qed (use coreD [OF assms] in \<open>auto simp: posted_def\<close>)

lemma core_end_run: "core s \<Longrightarrow> core (end_run c s)"
  unfolding end_run_def by (rule core_filter_runs)

lemma run_ofD: "run_of s c = Some q \<Longrightarrow> q \<in> set (sy_runs s) \<and> rn_claim q = c"
  unfolding run_of_def by (rule find_Some_mem)

lemma claim_unique:
  assumes "core s" "q \<in> set (sy_runs s)" "q' \<in> set (sy_runs s)" "rn_claim q = rn_claim q'"
  shows "q = q'"
  using coreD(2) [OF assms(1)] assms(2-4) by (simp add: distinct_map inj_on_def)

lemma in_set_phase:
  "q \<in> set (sy_runs (set_phase c ph s)) \<longleftrightarrow>
     (\<exists>q0 \<in> set (sy_runs s). q = (if rn_claim q0 = c then q0\<lparr>rn_phase := ph\<rparr> else q0))"
proof -
  have "sy_runs (set_phase c ph s) = map (\<lambda>q. if rn_claim q = c then q\<lparr>rn_phase := ph\<rparr> else q) (sy_runs s)"
    by (simp add: set_phase_def)
  then show ?thesis by (simp only: set_map image_iff)
qed

lemma set_phase_frame [simp]:
  "sy_chats (set_phase c ph s) = sy_chats s" "sy_posts (set_phase c ph s) = sy_posts s" "sy_used (set_phase c ph s) = sy_used s"
  "map rn_claim (sy_runs (set_phase c ph s)) = map rn_claim (sy_runs s)"
  "map rn_timer (sy_runs (set_phase c ph s)) = map rn_timer (sy_runs s)"
  by (auto simp: set_phase_def)

lemma core_set_phase:
  assumes "core s" and "run_of s c = Some q0"
    and "case ph of Checked _ \<Rightarrow> \<not> posted s (rn_timer q0) \<and>
        (\<forall>q \<in> set (sy_runs s). is_checked q \<longrightarrow> rn_timer q \<noteq> rn_timer q0)
      | _ \<Rightarrow> True"
  shows "core (set_phase c ph s)"
proof -
  have q0: "q0 \<in> set (sy_runs s)" "rn_claim q0 = c" using run_ofD [OF assms(2)] by simp_all
  have runs: "q = q0\<lparr>rn_phase := ph\<rparr> \<or> q \<in> set (sy_runs s) \<and> q \<noteq> q0" if "q \<in> set (sy_runs (set_phase c ph s))" for q
  proof -
    obtain q1 where q1: "q1 \<in> set (sy_runs s)" "q = (if rn_claim q1 = c then q1\<lparr>rn_phase := ph\<rparr> else q1)"
      using \<open>q \<in> _\<close> unfolding in_set_phase by blast
    show ?thesis
    proof (cases "rn_claim q1 = c")
      case True
      then have "q1 = q0" using claim_unique [OF assms(1) q1(1) q0(1)] q0(2) by simp
      then show ?thesis using q1(2) True by simp
    next
      case False
      then show ?thesis using q1 q0(2) by auto
    qed
  qed
  have old: "is_checked q \<Longrightarrow> q = q0\<lparr>rn_phase := ph\<rparr> \<Longrightarrow> \<exists>job. ph = Checked job" for q
    by (auto simp: is_checked_def split: phase.splits)
  show ?thesis
  proof (rule coreI)
    show "distinct (map rn_claim (sy_runs (set_phase c ph s)))"
      using coreD(2) [OF assms(1)] by simp
    show "rn_claim ` set (sy_runs (set_phase c ph s)) \<subseteq> set (sy_used (set_phase c ph s))"
      using coreD(5) [OF assms(1)] by (simp flip: set_map)
    show "rn_timer ` set (sy_runs (set_phase c ph s)) \<subseteq> set (sy_used (set_phase c ph s))"
      using coreD(7) [OF assms(1)] by (simp flip: set_map)
    show "\<not> is_checked q" if "q \<in> set (sy_runs (set_phase c ph s))" "posted (set_phase c ph s) (rn_timer q)" for q
      using runs [OF that(1)]
    proof
      assume q: "q = q0\<lparr>rn_phase := ph\<rparr>"
      then have "posted s (rn_timer q0)" using that(2) by (simp add: posted_def)
      then show ?thesis using old [of q] assms(3) q by auto
    qed (use coreD(9) [OF assms(1)] that(2) in \<open>simp add: posted_def\<close>)
    show "q = q'" if q: "q \<in> set (sy_runs (set_phase c ph s))" "q' \<in> set (sy_runs (set_phase c ph s))"
      "is_checked q" "is_checked q'" "rn_timer q = rn_timer q'" for q q'
    proof -
      have alone: "rn_timer x \<noteq> rn_timer q0" if "x \<in> set (sy_runs s)" "is_checked x" "is_checked y" "y = q0\<lparr>rn_phase := ph\<rparr>" for x y
        using old [OF that(3,4)] assms(3) that(1,2) by auto
      from runs [OF q(1)] runs [OF q(2)] show ?thesis
      proof (elim disjE conjE)
        assume "q = q0\<lparr>rn_phase := ph\<rparr>" "q' \<in> set (sy_runs s)"
        then show ?thesis using alone [of q' q] q(3-5) by simp
      next
        assume "q' = q0\<lparr>rn_phase := ph\<rparr>" "q \<in> set (sy_runs s)"
        then show ?thesis using alone [of q q'] q(3-5) by simp
      next
        assume "q \<in> set (sy_runs s)" "q' \<in> set (sy_runs s)"
        then show ?thesis using coreD(10) [OF assms(1)] q(3-5) by blast
      qed simp
    qed
  qed (use coreD [OF assms(1)] in \<open>simp_all add: posted_def\<close>)
qed

lemma run_timer_used: "core s \<Longrightarrow> run_of s c = Some q \<Longrightarrow> rn_timer q \<in> set (sy_used s) \<and> rn_claim q = c \<and> q \<in> set (sy_runs s)"
  using coreD(7) [of s] run_ofD [of s c q] by blast

text \<open>A table change that wakes only timers that have not posted.\<close>

lemma core_map:
  assumes "core s" and "\<And>r. cr_id (f r) = cr_id r"
    and "\<And>r. r \<in> set (sy_chats s) \<Longrightarrow> posted s (cr_id r) \<Longrightarrow> active (f r) \<Longrightarrow> active r"
  shows "core (s\<lparr>sy_chats := map f (sy_chats s)\<rparr>)"
proof (rule core_chats [OF assms(1)])
  have ids: "map cr_id (map f (sy_chats s)) = map cr_id (sy_chats s)" using assms(2) by simp
  show "distinct (map cr_id (map f (sy_chats s)))" unfolding ids by (rule coreD(1) [OF assms(1)])
  have "cr_id ` set (map f (sy_chats s)) = cr_id ` set (sy_chats s)" using ids by (metis list.set_map)
  then show "cr_id ` set (map f (sy_chats s)) \<subseteq> set (sy_used s)" using coreD(4) [OF assms(1)] by simp
  show "\<not> active r'" if "r' \<in> set (map f (sy_chats s))" "posted s (cr_id r')" for r'
    using that assms(2,3) coreD(8) [OF assms(1)] by auto
qed

lemma is_due_active: "is_due now r \<Longrightarrow> active r"
  by (simp add: is_due_def active_def)

lemma core_claim:
  assumes "core s" and "fresh s cs"
  shows "core (claim_step w now secs cs s)"
proof -
  obtain db claimed where c: "claim_due_timers now secs cs (sy_chats s) = (db, claimed)" by fastforce
  then have claimed: "claimed = zip (map cr_id (due_rows now (sy_chats s))) cs"
    and db: "db = map (\<lambda>r. case map_of claimed (cr_id r) of None \<Rightarrow> r | Some c \<Rightarrow> claim_row now secs c r) (sy_chats s)"
    by (auto simp: claim_due_timers_def Let_def)
  define new where "new = map (\<lambda>(t, c). \<lparr>rn_worker = w, rn_timer = t, rn_claim = c, rn_phase = Waiting\<rparr>) claimed"
  have s': "claim_step w now secs cs s = (s\<lparr>sy_chats := db\<rparr>)\<lparr>sy_used := cs @ sy_used s, sy_runs := sy_runs s @ new\<rparr>"
    by (simp add: claim_step_def c new_def)
  have rows: "core (s\<lparr>sy_chats := db\<rparr>)"
    unfolding db
  proof (rule core_map [OF assms(1)])
    show "cr_id (case map_of claimed (cr_id r) of None \<Rightarrow> r | Some c \<Rightarrow> claim_row now secs c r) = cr_id r" for r
      by (simp add: row_simps split: option.split)
    fix r assume r: "r \<in> set (sy_chats s)" "active (case map_of claimed (cr_id r) of None \<Rightarrow> r | Some c \<Rightarrow> claim_row now secs c r)"
    show "active r"
    proof (cases "map_of claimed (cr_id r)")
      case (Some c)
      then have "r \<in> set (take (length cs) (due_rows now (sy_chats s)))"
        using claimed_in_due [OF coreD(1) [OF assms(1)] r(1), of now cs] by (simp add: claimed)
      then have "is_due now r" using in_set_takeD by force
      then show ?thesis by (rule is_due_active)
    qed (use r(2) in simp)
  qed
  have "map rn_claim new = map snd claimed" by (auto simp: new_def)
  also have "\<dots> = take (length (due_rows now (sy_chats s))) cs" unfolding claimed by (simp add: map_snd_zip_take min_def)
  finally have claims: "map rn_claim new = take (length (due_rows now (sy_chats s))) cs" .
  have cs: "distinct cs" "set cs \<inter> set (sy_used s) = {}" using assms(2) by (auto simp: fresh_def list_all_iff)
  have new_claims: "distinct (map rn_claim new)" "rn_claim ` set new \<subseteq> set cs"
    using cs(1) claims by (simp, metis claims list.set_map set_take_subset)
  have "rn_timer ` set new \<subseteq> cr_id ` set (due_rows now (sy_chats s))"
    unfolding new_def claimed by (auto dest: set_zip_leftD)
  then have timers: "rn_timer ` set new \<subseteq> set (sy_used s)" using coreD(4) [OF assms(1)] by auto
  have waiting: "\<not> is_checked q" if "q \<in> set new" for q
    using that by (auto simp: new_def is_checked_def)
  note d = coreD [OF rows]
  show ?thesis
    unfolding s'
  proof (rule coreI)
    show "distinct (map rn_claim (sy_runs (s\<lparr>sy_chats := db, sy_used := cs @ sy_used s, sy_runs := sy_runs s @ new\<rparr>)))"
      using d(2,5) new_claims cs(2) by auto
    show "\<not> is_checked q"
      if "q \<in> set (sy_runs (s\<lparr>sy_chats := db, sy_used := cs @ sy_used s, sy_runs := sy_runs s @ new\<rparr>))"
        "posted (s\<lparr>sy_chats := db, sy_used := cs @ sy_used s, sy_runs := sy_runs s @ new\<rparr>) (rn_timer q)" for q
      using that waiting coreD(9) [OF assms(1), of q] by (auto simp: posted_def)
    show "q = q'"
      if "q \<in> set (sy_runs (s\<lparr>sy_chats := db, sy_used := cs @ sy_used s, sy_runs := sy_runs s @ new\<rparr>))"
        "q' \<in> set (sy_runs (s\<lparr>sy_chats := db, sy_used := cs @ sy_used s, sy_runs := sy_runs s @ new\<rparr>))"
        "is_checked q" "is_checked q'" "rn_timer q = rn_timer q'" for q q'
      using that waiting coreD(10) [OF assms(1), of q q'] by auto
  qed (use d(1,3-8) new_claims timers in \<open>auto simp: posted_def\<close>)
qed

lemma core_begin:
  assumes "core s" and "run_of s c = Some q"
    and "\<And>db job. begin_timer repr env secs (rn_timer q) (Some c) (sy_chats s) = (db, Some job) \<Longrightarrow>
      \<forall>q' \<in> set (sy_runs s). is_checked q' \<longrightarrow> rn_timer q' \<noteq> rn_timer q"
  shows "core (begin_run repr env secs q s)"
proof -
  have c: "rn_claim q = c" using run_ofD [OF assms(2)] by simp
  obtain db x where b: "begin_timer repr env secs (rn_timer q) (Some c) (sy_chats s) = (db, x)" by fastforce
  have rows: "core (s\<lparr>sy_chats := db\<rparr>)" by (rule core_calm [OF assms(1) calm_begin [OF b]])
  show ?thesis
  proof (cases x)
    case None
    then show ?thesis using core_end_run [OF rows, of c] b c by (simp add: begin_run_def)
  next
    case (Some job)
    from begin_running [OF b [unfolded Some]] obtain r where "r \<in> set (sy_chats s)" "cr_id r = rn_timer q" "has_status ''running'' r"
      by blast
    then have "\<not> posted s (rn_timer q)" using coreD(8) [OF assms(1)] by (auto simp: active_def)
    moreover have "run_of (s\<lparr>sy_chats := db\<rparr>) c = Some q" using assms(2) by (simp add: run_of_def)
    ultimately have "core (set_phase c (Checked job) (s\<lparr>sy_chats := db\<rparr>))"
      using core_set_phase [OF rows, of c q "Checked job"] assms(3) b Some by (simp add: posted_def)
    then show ?thesis using b c Some by (simp add: begin_run_def)
  qed
qed

lemma core_add_post:
  assumes "core s" and "t \<in> set (sy_used s)" and "\<not> posted s t"
    and "\<And>r. r \<in> set (sy_chats s) \<Longrightarrow> cr_id r = t \<Longrightarrow> \<not> active r"
    and "\<And>q. q \<in> set (sy_runs s) \<Longrightarrow> rn_timer q = t \<Longrightarrow> \<not> is_checked q"
  shows "core (s\<lparr>sy_posts := sy_posts s @ [(t, a)], sy_used := ids @ sy_used s\<rparr>)"
proof (rule coreI)
  let ?s = "s\<lparr>sy_posts := sy_posts s @ [(t, a)], sy_used := ids @ sy_used s\<rparr>"
  note d = coreD [OF assms(1)]
  have p: "posted ?s i \<longleftrightarrow> posted s i \<or> i = t" for i by (auto simp: posted_def)
  show "distinct (map fst (sy_posts ?s))" using d(3) assms(3) by (simp add: posted_def)
  show "\<not> active r" if "r \<in> set (sy_chats ?s)" "posted ?s (cr_id r)" for r
    using that d(8) [of r] assms(4) [of r] unfolding p by auto
  show "\<not> is_checked q" if "q \<in> set (sy_runs ?s)" "posted ?s (rn_timer q)" for q
    using that d(9) [of q] assms(5) [of q] unfolding p by auto
  show "q = q'" if "q \<in> set (sy_runs ?s)" "q' \<in> set (sy_runs ?s)" "is_checked q" "is_checked q'" "rn_timer q = rn_timer q'" for q q'
    using that d(10) [of q q'] by simp
qed (use coreD(1,2,4-7) [OF assms(1)] assms(2) in auto)

lemma core_requeue:
  assumes "core s" and "\<not> posted s t"
  shows "core (s\<lparr>sy_chats := update_row t (requeue_row secs) (sy_chats s)\<rparr>)"
  unfolding update_row_def
proof (rule core_map [OF assms(1)])
  show "cr_id (if cr_id r = t then requeue_row secs r else r) = cr_id r" for r by (simp add: row_simps)
  show "active r" if "posted s (cr_id r)" "active (if cr_id r = t then requeue_row secs r else r)" for r
    using that assms(2) by (auto split: if_splits)
qed

lemma core_commit:
  assumes "core s" and "run_of s c = Some q" and "rn_phase q = Checked job"
  shows "core (commit_run env now secs u a q job s)"
proof -
  have q: "rn_claim q = c" "q \<in> set (sy_runs s)" "rn_timer q \<in> set (sy_used s)" "is_checked q"
    using run_timer_used [OF assms(1,2)] assms(3) by (simp_all add: is_checked_def)
  have new: "\<not> posted s (rn_timer q)" using coreD(9) [OF assms(1) q(2)] q(4) by blast
  obtain db x where p: "post_timer env now secs u a (rn_timer q) job (sy_chats s) = (db, x)" by fastforce
  from p show ?thesis
  proof (cases rule: post_effect)
    case 1
    have rows: "core (s\<lparr>sy_chats := db\<rparr>)" by (rule core_calm [OF assms(1) 1(1)])
    show ?thesis
    proof (cases x)
      case None
      then show ?thesis using core_end_run [OF rows, of c] p q(1) by (simp add: commit_run_def)
    next
      case (Some req)
      define s1 where "s1 = set_phase c Posted (s\<lparr>sy_chats := db\<rparr>)"
      have "run_of (s\<lparr>sy_chats := db\<rparr>) c = Some q" using assms(2) by (simp add: run_of_def)
      then have s1: "core s1" unfolding s1_def using core_set_phase [OF rows, of c q Posted] by simp
      have "\<not> is_checked q'" if q': "q' \<in> set (sy_runs s1)" "rn_timer q' = rn_timer q" for q'
      proof -
        obtain q0 where q0: "q0 \<in> set (sy_runs s)" "q' = (if rn_claim q0 = c then q0\<lparr>rn_phase := Posted\<rparr> else q0)"
          using q'(1) unfolding s1_def in_set_phase by auto
        show ?thesis
        proof (cases "rn_claim q0 = c")
          case True
          then show ?thesis using q0(2) by (simp add: is_checked_def)
        next
          case False
          then have "q' = q0" "q0 \<noteq> q" using q0(2) q(1) by auto
          then show ?thesis using coreD(10) [OF assms(1) q0(1) q(2)] q(4) q'(2) by blast
        qed
      qed
      then have "core (s1\<lparr>sy_posts := sy_posts s1 @ [(rn_timer q, a)], sy_used := [u, a] @ sy_used s1\<rparr>)"
        using 1(2) q(3) new Some by (intro core_add_post [OF s1]) (auto simp: s1_def posted_def)
      moreover have "commit_run env now secs u a q job s = s1\<lparr>sy_posts := sy_posts s1 @ [(rn_timer q, a)], sy_used := [u, a] @ sy_used s1\<rparr>"
        using p Some q(1) by (simp add: commit_run_def s1_def set_phase_def)
      ultimately show ?thesis by simp
    qed
  next
    case 2
    then show ?thesis using core_end_run [OF core_requeue [OF assms(1) new]] p q(1) by (simp add: commit_run_def)
  qed
qed

lemma core_created:
  assumes "core s" and "fresh s [cr_id r]"
  shows "core (s\<lparr>sy_chats := sy_chats s @ [r], sy_used := cr_id r # sy_used s\<rparr>)"
proof (rule coreI)
  let ?s = "s\<lparr>sy_chats := sy_chats s @ [r], sy_used := cr_id r # sy_used s\<rparr>"
  note d = coreD [OF assms(1)]
  have r: "cr_id r \<notin> set (sy_used s)" using assms(2) by (simp add: fresh_def)
  show "distinct (map cr_id (sy_chats ?s))" using d(1,4) r by auto
  show "\<not> active x" if "x \<in> set (sy_chats ?s)" "posted ?s (cr_id x)" for x
    using that d(6) d(8) [of x] r by (auto simp: posted_def)
  show "\<not> is_checked q" if "q \<in> set (sy_runs ?s)" "posted ?s (rn_timer q)" for q
    using that d(9) [of q] by (auto simp: posted_def)
  show "q = q'" if "q \<in> set (sy_runs ?s)" "q' \<in> set (sy_runs ?s)" "is_checked q" "is_checked q'" "rn_timer q = rn_timer q'" for q q'
    using that d(10) [of q q'] by simp
qed (use coreD(2-7) [OF assms(1)] in auto)

lemma core_recovered:
  assumes "core s"
  shows "core (s\<lparr>sy_chats := fst (recover_stale_timers now secs (sy_chats s))\<rparr>)"
  unfolding recover_stale_timers_def fst_conv
proof (rule core_map [OF assms])
  show "cr_id (if is_stale now r then recover_row now secs r else r) = cr_id r" for r by (simp add: row_simps)
  show "active r" if "active (if is_stale now r then recover_row now secs r else r)" for r
    using that by (auto simp: is_stale_def active_def split: if_splits)
qed

text \<open>Every step keeps the invariant, if a run that passes its checks is then the only one of its timer.\<close>

definition starts_alone :: "(json \<Rightarrow> string) \<Rightarrow> sys \<Rightarrow> timer_event \<Rightarrow> bool" where
  "starts_alone repr s e \<longleftrightarrow> (\<forall>c env secs q db job. e = Begun c env secs \<longrightarrow> run_of s c = Some q \<longrightarrow> rn_phase q = Waiting \<longrightarrow>
     \<not> lock_held s (rn_worker q) (rn_timer q) \<longrightarrow>
     begin_timer repr env secs (rn_timer q) (Some c) (sy_chats s) = (db, Some job) \<longrightarrow>
     (\<forall>q' \<in> set (sy_runs s). is_checked q' \<longrightarrow> rn_timer q' \<noteq> rn_timer q))"

lemma step_core:
  assumes "core s" and "step repr s e = Some s'" and "starts_alone repr s e"
  shows "core s'"
proof (cases e)
  case (Created r)
  then show ?thesis using assms(1,2) core_created by (auto split: if_splits)
next
  case (Claimed w now secs cs)
  then show ?thesis using assms(1,2) core_claim by (auto split: if_splits)
next
  case (Cancelled now secs parent event user)
  then show ?thesis using assms(2) core_calm [OF assms(1) calm_cancel] by auto
next
  case (Recovered now secs)
  then show ?thesis using assms(2) core_recovered [OF assms(1)] by auto
next
  case (Begun c env secs)
  then obtain q where q: "run_of s c = Some q" "\<not> lock_held s (rn_worker q) (rn_timer q)" "s' = begin_run repr env secs q s" "rn_phase q = Waiting"
    using assms(2) by (auto split: option.splits if_splits)
  show ?thesis
    unfolding q(3) using assms(3) q(2,4) by (intro core_begin [OF assms(1) q(1)]) (auto simp: starts_alone_def Begun q(1))
next
  case (Committed c env now secs u a)
  then obtain q job where "run_of s c = Some q" "rn_phase q = Checked job" "s' = commit_run env now secs u a q job s"
    using assms(2) by (auto split: option.splits phase.splits if_splits)
  then show ?thesis using core_commit [OF assms(1)] by simp
next
  case (Failed c secs err)
  then show ?thesis using assms(2) core_end_run [OF core_calm [OF assms(1) calm_record_error]]
    by (auto split: option.splits)
next
  case (Replied c)
  then show ?thesis using assms(2) core_end_run [OF assms(1)] by (auto split: option.splits if_splits)
next
  case (ReplyFailed c secs err)
  then show ?thesis using assms(2) core_end_run [OF core_calm [OF assms(1) calm_set_error]]
    by (auto split: option.splits if_splits)
next
  case (Restarted w)
  then show ?thesis using assms(2) core_filter_runs [OF assms(1)] by auto
next
  case (Edited i h)
  then show ?thesis using assms(2) core_calm [OF assms(1) calm_update_row] by auto
next
  case (Deleted i)
  then show ?thesis using assms(2) core_calm [OF assms(1) calm_filter] by auto
qed

lemma core_started: "distinct (map cr_id db) \<Longrightarrow> core (started db)"
  by (rule coreI) (simp_all add: started_def posted_def)

section \<open>What a step does to the runs and the rows\<close>

definition same_run :: "run \<Rightarrow> run \<Rightarrow> bool" where
  "same_run q q' \<longleftrightarrow> rn_worker q' = rn_worker q \<and> rn_timer q' = rn_timer q \<and> rn_claim q' = rn_claim q"

definition run_effect :: "(json \<Rightarrow> string) \<Rightarrow> sys \<Rightarrow> timer_event \<Rightarrow> sys \<Rightarrow> run \<Rightarrow> bool" where
  "run_effect repr s e s' q' \<longleftrightarrow>
     (\<exists>q \<in> set (sy_runs s). same_run q q' \<and> (is_checked q' \<longrightarrow> is_checked q)) \<or>
     (\<exists>q \<in> set (sy_runs s). \<exists>env secs job. same_run q q' \<and> e = Begun (rn_claim q) env secs \<and>
        begin_timer repr env secs (rn_timer q) (Some (rn_claim q)) (sy_chats s) = (sy_chats s', Some job)) \<or>
     (\<exists>now secs cs. e = Claimed (rn_worker q') now secs cs \<and> rn_phase q' = Waiting)"

lemma run_effect_old: "q' \<in> set (sy_runs s) \<Longrightarrow> run_effect repr s e s' q'"
  unfolding run_effect_def same_run_def by blast

lemma end_run_frame [simp]: "sy_chats (end_run c s) = sy_chats s" "sy_runs (end_run c s) = filter (\<lambda>q. rn_claim q \<noteq> c) (sy_runs s)"
  by (simp_all add: end_run_def)

lemma run_effect_begin:
  assumes "core s" and "run_of s c = Some q" and "q' \<in> set (sy_runs (begin_run repr env secs q s))"
  shows "run_effect repr s (Begun c env secs) (begin_run repr env secs q s) q'"
proof -
  have c: "rn_claim q = c" "q \<in> set (sy_runs s)" using run_ofD [OF assms(2)] by simp_all
  obtain db x where b: "begin_timer repr env secs (rn_timer q) (Some c) (sy_chats s) = (db, x)" by fastforce
  show ?thesis
  proof (cases x)
    case None
    then have "q' \<in> set (sy_runs s)" using assms(3) b c by (simp add: begin_run_def)
    then show ?thesis by (rule run_effect_old)
  next
    case (Some job)
    then have s': "begin_run repr env secs q s = set_phase c (Checked job) (s\<lparr>sy_chats := db\<rparr>)"
      using b c by (simp add: begin_run_def)
    obtain q0 where q0: "q0 \<in> set (sy_runs s)" "q' = (if rn_claim q0 = c then q0\<lparr>rn_phase := Checked job\<rparr> else q0)"
      using assms(3) unfolding s' in_set_phase by auto
    show ?thesis
    proof (cases "rn_claim q0 = c")
      case True
      then have "q0 = q" using claim_unique [OF assms(1) q0(1) c(2)] c(1) by simp
      moreover have "same_run q q'" using True q0(2) \<open>q0 = q\<close> by (simp add: same_run_def)
      ultimately show ?thesis using b Some c unfolding run_effect_def s' by auto
    next
      case False
      then have "q' = q0" using q0(2) by simp
      then show ?thesis using q0(1) run_effect_old by blast
    qed
  qed
qed

lemma run_effect_commit:
  assumes "q' \<in> set (sy_runs (commit_run env now secs u a q job s))"
  shows "\<exists>q0 \<in> set (sy_runs s). same_run q0 q' \<and> (is_checked q' \<longrightarrow> is_checked q0)"
proof -
  obtain db x where p: "post_timer env now secs u a (rn_timer q) job (sy_chats s) = (db, x)" by fastforce
  show ?thesis
  proof (cases x)
    case None
    then have "q' \<in> set (sy_runs s)" using assms p by (simp add: commit_run_def)
    then show ?thesis by (auto simp: same_run_def)
  next
    case (Some req)
    then obtain q0 where "q0 \<in> set (sy_runs s)" "q' = (if rn_claim q0 = rn_claim q then q0\<lparr>rn_phase := Posted\<rparr> else q0)"
      using assms p by (auto simp: commit_run_def in_set_phase)
    then show ?thesis by (intro bexI [of _ q0]) (auto simp: same_run_def is_checked_def)
  qed
qed

lemma step_runs:
  assumes "core s" and "step repr s e = Some s'" and "q' \<in> set (sy_runs s')"
  shows "run_effect repr s e s' q'"
proof (cases e)
  case (Claimed w now secs cs)
  then have s': "s' = claim_step w now secs cs s" using assms(2) by (auto split: if_splits)
  show ?thesis
  proof (cases "q' \<in> set (sy_runs s)")
    case False
    then have "rn_worker q' = w \<and> rn_phase q' = Waiting"
      using assms(3) unfolding s' by (auto simp: claim_step_def split: prod.splits)
    then show ?thesis using Claimed by (simp add: run_effect_def)
  qed (rule run_effect_old)
next
  case (Begun c env secs)
  then obtain q where q: "run_of s c = Some q" "s' = begin_run repr env secs q s"
    using assms(2) by (auto split: option.splits if_splits)
  show ?thesis using run_effect_begin [OF assms(1) q(1)] assms(3) unfolding Begun q(2) by blast
next
  case (Committed c env now secs u a)
  then obtain q job where "s' = commit_run env now secs u a q job s"
    using assms(2) by (auto split: option.splits phase.splits if_splits)
  then show ?thesis using run_effect_commit assms(3) unfolding run_effect_def by blast
qed (use assms(2,3) in \<open>auto split: option.splits if_splits intro: run_effect_old\<close>)

text \<open>A row after a step: calmly changed, new, claimed, recovered, or put back by its own checked run.\<close>

definition row_effect :: "sys \<Rightarrow> timer_event \<Rightarrow> sys \<Rightarrow> chat_row \<Rightarrow> bool" where
  "row_effect s e s' r' \<longleftrightarrow>
     (\<exists>r \<in> set (sy_chats s). calm r r') \<or>
     row_ok r' \<and> cr_id r' \<notin> set (sy_used s) \<or>
     (\<exists>r \<in> set (sy_chats s). \<exists>now secs c. is_due now r \<and> r' = claim_row now secs c r) \<or>
     (\<exists>r \<in> set (sy_chats s). \<exists>now secs. e = Recovered now secs \<and> is_stale now r \<and> r' = recover_row now secs r) \<or>
     (\<exists>r \<in> set (sy_chats s). \<exists>secs. \<exists>q \<in> set (sy_runs s). r' = requeue_row secs r \<and> rn_timer q = cr_id r \<and> is_checked q \<and>
        sy_runs s' = filter (\<lambda>x. rn_claim x \<noteq> rn_claim q) (sy_runs s))"

lemma row_effect_calm: "calm_step (sy_chats s) (sy_chats s') \<Longrightarrow> r' \<in> set (sy_chats s') \<Longrightarrow> row_effect s e s' r'"
  unfolding row_effect_def by (blast dest: calm_stepD)

lemma claim_step_rows:
  assumes "distinct (map cr_id (sy_chats s))" and "r' \<in> set (sy_chats (claim_step w now secs cs s))"
  shows "r' \<in> set (sy_chats s) \<or> (\<exists>r \<in> set (sy_chats s). \<exists>c. is_due now r \<and> r' = claim_row now secs c r)"
proof -
  define claimed where "claimed = zip (map cr_id (due_rows now (sy_chats s))) cs"
  obtain r where r: "r \<in> set (sy_chats s)" "r' = (case map_of claimed (cr_id r) of None \<Rightarrow> r | Some c \<Rightarrow> claim_row now secs c r)"
    using assms(2) by (auto simp: claim_step_def claim_due_timers_def Let_def claimed_def split: prod.splits)
  show ?thesis
  proof (cases "map_of claimed (cr_id r)")
    case (Some c)
    then have "r \<in> set (take (length cs) (due_rows now (sy_chats s)))"
      using claimed_in_due [OF assms(1) r(1), of now cs] by (simp add: claimed_def)
    then have "is_due now r" using in_set_takeD by force
    then show ?thesis using r Some by auto
  qed (use r in simp)
qed

lemma commit_rows:
  assumes "q \<in> set (sy_runs s)" and "rn_phase q = Checked job" and "r' \<in> set (sy_chats (commit_run env now secs u a q job s))"
  shows "row_effect s e (commit_run env now secs u a q job s) r'"
proof -
  obtain db x where p: "post_timer env now secs u a (rn_timer q) job (sy_chats s) = (db, x)" by fastforce
  then have db: "sy_chats (commit_run env now secs u a q job s) = db"
    by (cases x) (simp_all add: commit_run_def)
  from p show ?thesis
  proof (cases rule: post_effect)
    case 1
    then show ?thesis using assms(3) db by (intro row_effect_calm) simp_all
  next
    case 2
    then obtain r where r: "r \<in> set (sy_chats s)" "r' = (if cr_id r = rn_timer q then requeue_row secs r else r)"
      using assms(3) db by (auto simp: update_row_def)
    show ?thesis
    proof (cases "cr_id r = rn_timer q")
      case True
      moreover have "sy_runs (commit_run env now secs u a q job s) = filter (\<lambda>x. rn_claim x \<noteq> rn_claim q) (sy_runs s)"
        using p 2(1) by (simp add: commit_run_def)
      ultimately show ?thesis
        using r assms(1,2) unfolding row_effect_def
        by (intro disjI2 bexI [of _ r] exI [of _ secs] bexI [of _ q]) (simp_all add: is_checked_def)
    next
      case False
      then show ?thesis using r by (auto simp: row_effect_def intro: calm_refl)
    qed
  qed
qed

lemma step_rows:
  assumes "distinct (map cr_id (sy_chats s))" and "step repr s e = Some s'" and "r' \<in> set (sy_chats s')"
  shows "row_effect s e s' r'"
proof (cases e)
  case (Created r)
  then have s': "s' = s\<lparr>sy_chats := sy_chats s @ [r], sy_used := cr_id r # sy_used s\<rparr>" and r: "row_ok r" "cr_id r \<notin> set (sy_used s)"
    using assms(2) by (auto simp: fresh_def split: if_splits)
  show ?thesis using assms(3) r unfolding s' row_effect_def by (auto intro: calm_refl)
next
  case (Claimed w now secs cs)
  then have s': "s' = claim_step w now secs cs s" using assms(2) by (auto split: if_splits)
  from claim_step_rows [OF assms(1) assms(3) [unfolded s']] show ?thesis
    unfolding row_effect_def by (blast intro: calm_refl)
next
  case (Cancelled now secs parent event user)
  then show ?thesis using assms(2,3) by (intro row_effect_calm) (auto simp: calm_cancel)
next
  case (Recovered now secs)
  then obtain r where "r \<in> set (sy_chats s)" "r' = (if is_stale now r then recover_row now secs r else r)"
    using assms(2,3) by (auto simp: recover_stale_timers_def)
  then show ?thesis
    unfolding row_effect_def Recovered by (cases "is_stale now r") (auto intro: calm_refl)
next
  case (Begun c env secs)
  then obtain q where q: "run_of s c = Some q" "s' = begin_run repr env secs q s"
    using assms(2) by (auto split: option.splits if_splits)
  obtain db x where b: "begin_timer repr env secs (rn_timer q) (Some (rn_claim q)) (sy_chats s) = (db, x)" by fastforce
  then have "sy_chats s' = db" unfolding q(2) by (cases x) (simp_all add: begin_run_def)
  then show ?thesis using calm_begin [OF b] assms(3) by (intro row_effect_calm) simp_all
next
  case (Committed c env now secs u a)
  then obtain q job where "run_of s c = Some q" "rn_phase q = Checked job" "s' = commit_run env now secs u a q job s"
    using assms(2) by (auto split: option.splits phase.splits if_splits)
  then show ?thesis using commit_rows run_ofD assms(3) by blast
next
  case (Failed c secs err)
  then show ?thesis using assms(2,3) by (intro row_effect_calm) (auto simp: calm_record_error split: option.splits)
next
  case (ReplyFailed c secs err)
  then show ?thesis using assms(2,3) by (intro row_effect_calm) (auto simp: calm_set_error split: option.splits if_splits)
next
  case (Edited i h)
  then show ?thesis using assms(2,3) by (intro row_effect_calm) (auto simp: calm_update_row)
next
  case (Deleted i)
  then show ?thesis using assms(2,3) by (intro row_effect_calm) (auto intro: calm_filter)
next
  case (Replied c)
  then show ?thesis using assms(2,3) by (intro row_effect_calm) (auto split: option.splits if_splits)
next
  case (Restarted w)
  then show ?thesis using assms(2,3) by (intro row_effect_calm) auto
qed

section \<open>One worker\<close>

definition all_of :: "nat \<Rightarrow> sys \<Rightarrow> bool" where
  "all_of w s \<longleftrightarrow> (\<forall>q \<in> set (sy_runs s). rn_worker q = w)"

lemma one_worker_keeps:
  assumes "core s \<and> all_of w s" and "one_worker w s e" and "step repr s e = Some s'"
  shows "core s' \<and> all_of w s'"
proof
  have "starts_alone repr s e"
    unfolding starts_alone_def
  proof (intro allI impI ballI)
    fix c env secs q db job q'
    assume "\<not> lock_held s (rn_worker q) (rn_timer q)" and q: "run_of s c = Some q" and q': "q' \<in> set (sy_runs s)" "is_checked q'"
    have "rn_worker q' = rn_worker q" using assms(1) run_ofD [OF q] q'(1) by (simp add: all_of_def)
    moreover have "rn_phase q' \<noteq> Waiting" using q'(2) by (auto simp: is_checked_def)
    ultimately show "rn_timer q' \<noteq> rn_timer q"
      using \<open>\<not> lock_held s (rn_worker q) (rn_timer q)\<close> q'(1) by (auto simp: lock_held_def list_ex_iff)
  qed
  then show "core s'" using step_core assms(1,3) by blast
  show "all_of w s'"
    unfolding all_of_def
  proof
    fix q' assume "q' \<in> set (sy_runs s')"
    then have "run_effect repr s e s' q'" using step_runs assms(1,3) by blast
    then show "rn_worker q' = w"
      using assms(1,2) by (auto simp: run_effect_def same_run_def all_of_def one_worker_def)
  qed
qed

interpretation single: step_invariant "step repr" "one_worker w" "\<lambda>s. core s \<and> all_of w s" for repr w
  by unfold_locales (rule one_worker_keeps)

text \<open>
  C22. With one worker a timer posts at most once, whatever happens in whatever order: polls,
  cancellations, recoveries of timers (also while a slow run of theirs is still waiting),
  failures, restarts, edits and deletions.
\<close>

theorem one_worker_posts_once:
  assumes "reach (step repr) (one_worker w) (started db) s" and "distinct (map cr_id db)"
  shows "distinct (map fst (sy_posts s))"
proof -
  have "core (started db) \<and> all_of w (started db)"
    using core_started [OF assms(2)] by (simp add: all_of_def started_def)
  with assms(1) have "core s \<and> all_of w s" by (rule single.holds_in_runs)
  then show ?thesis using coreD(3) by blast
qed

section \<open>Several workers\<close>

text \<open>
  Between workers only the claim id guards a timer: a run past its checks stays the claimant of
  its running timer as long as no recovery takes the timer back meanwhile.
\<close>

definition holds_claims :: "sys \<Rightarrow> bool" where
  "holds_claims s \<longleftrightarrow> (\<forall>q \<in> set (sy_runs s). is_checked q \<longrightarrow>
     (\<forall>r \<in> set (sy_chats s). cr_id r = rn_timer q \<longrightarrow> \<not> has_status ''pending'' r \<and>
        (has_status ''running'' r \<longrightarrow> get (cr_meta r) ''timer_claim_id'' = JStr (rn_claim q))))"

lemma holds_claimsD:
  assumes "holds_claims s" "q \<in> set (sy_runs s)" "is_checked q" "r \<in> set (sy_chats s)" "cr_id r = rn_timer q"
  shows "\<not> has_status ''pending'' r" and "has_status ''running'' r \<Longrightarrow> get (cr_meta r) ''timer_claim_id'' = JStr (rn_claim q)"
  using assms unfolding holds_claims_def by blast+

lemma prompt_alone:
  assumes "core s" and "holds_claims s"
  shows "starts_alone repr s e"
  unfolding starts_alone_def
proof (intro allI impI ballI notI)
  fix c env secs q db job q'
  assume q: "run_of s c = Some q" "rn_phase q = Waiting" and q': "q' \<in> set (sy_runs s)" "is_checked q'" "rn_timer q' = rn_timer q"
    and "begin_timer repr env secs (rn_timer q) (Some c) (sy_chats s) = (db, Some job)"
  then obtain r where r: "r \<in> set (sy_chats s)" "cr_id r = rn_timer q" "has_status ''running'' r"
      "get (cr_meta r) ''timer_claim_id'' = JStr c" using begin_running by blast
  then have "rn_claim q' = c" using holds_claimsD(2) [OF assms(2) q'(1,2), of r] q'(3) by simp
  then have "q' = q" using claim_unique [OF assms(1) q'(1)] run_ofD [OF q(1)] by simp
  then show False using q(2) q'(2) by (simp add: is_checked_def)
qed

lemma calm_claim:
  assumes "calm r r'" and "\<not> has_status ''pending'' r" and "has_status ''running'' r \<Longrightarrow> get (cr_meta r) ''timer_claim_id'' = v"
  shows "\<not> has_status ''pending'' r' \<and> (has_status ''running'' r' \<longrightarrow> get (cr_meta r') ''timer_claim_id'' = v)"
  using assms by (auto simp: calm_def active_def has_status_def)

lemma prompt_rows:
  assumes c: "core s" and h: "holds_claims s" and p: "prompt_runs s e" and st: "step repr s e = Some s'"
    and q: "q \<in> set (sy_runs s)" "is_checked q" and q': "q' \<in> set (sy_runs s')" "same_run q q'"
    and r': "r' \<in> set (sy_chats s')" "cr_id r' = rn_timer q"
  shows "\<not> has_status ''pending'' r' \<and> (has_status ''running'' r' \<longrightarrow> get (cr_meta r') ''timer_claim_id'' = JStr (rn_claim q))"
  using step_rows [OF coreD(1) [OF c] st r'(1)] unfolding row_effect_def
proof (elim disjE bexE exE conjE)
  fix r assume r: "r \<in> set (sy_chats s)" "calm r r'"
  then have "cr_id r = rn_timer q" using r'(2) by (simp add: calm_def)
  then show ?thesis using calm_claim [OF r(2)] holds_claimsD [OF h q r(1)] by blast
next
  assume "cr_id r' \<notin> set (sy_used s)"
  then show ?thesis using r'(2) q(1) coreD(7) [OF c] by auto
next
  fix r now secs cl assume r: "r \<in> set (sy_chats s)" "is_due now r" "r' = claim_row now secs cl r"
  then have "cr_id r = rn_timer q" using r'(2) by (simp add: row_simps)
  then show ?thesis using r(2) holds_claimsD(1) [OF h q r(1)] by (simp add: is_due_def)
next
  fix r now secs assume r: "r \<in> set (sy_chats s)" "e = Recovered now secs" "is_stale now r" "r' = recover_row now secs r"
  then have "rn_timer q \<in> set (snd (recover_stale_timers now 0 (sy_chats s)))"
    using r'(2) by (force simp: recover_stale_timers_def row_simps)
  then show ?thesis using p q r(2) by (auto simp: prompt_runs_def list_all_iff)
next
  fix r secs q2 assume r: "r' = requeue_row secs r" and q2: "q2 \<in> set (sy_runs s)" "rn_timer q2 = cr_id r" "is_checked q2"
    and runs: "sy_runs s' = filter (\<lambda>x. rn_claim x \<noteq> rn_claim q2) (sy_runs s)"
  have "rn_timer q2 = rn_timer q" using r r'(2) q2(2) by (simp add: row_simps)
  then have "q2 = q" using coreD(10) [OF c q2(1) q(1) q2(3) q(2)] by simp
  then show ?thesis using runs q' by (simp add: same_run_def)
qed

lemma prompt_keeps:
  assumes "core s \<and> holds_claims s" and "prompt_runs s e" and "step repr s e = Some s'"
  shows "core s' \<and> holds_claims s'"
proof
  have c: "core s" and h: "holds_claims s" using assms(1) by simp_all
  show "core s'" using step_core [OF c assms(3) prompt_alone [OF c h]] .
  show "holds_claims s'"
    unfolding holds_claims_def
  proof (intro ballI impI)
    fix q' r' assume q': "q' \<in> set (sy_runs s')" "is_checked q'" and r': "r' \<in> set (sy_chats s')" "cr_id r' = rn_timer q'"
    from step_runs [OF c assms(3) q'(1)]
    show "\<not> has_status ''pending'' r' \<and> (has_status ''running'' r' \<longrightarrow> get (cr_meta r') ''timer_claim_id'' = JStr (rn_claim q'))"
      unfolding run_effect_def
    proof (elim disjE bexE exE conjE)
      fix q assume "q \<in> set (sy_runs s)" "same_run q q'" "is_checked q' \<longrightarrow> is_checked q"
      then show ?thesis
        using prompt_rows [OF c h assms(2,3), of q q' r'] q' r' by (simp add: same_run_def)
    next
      fix q env secs job assume q: "q \<in> set (sy_runs s)" "same_run q q'"
        and b: "begin_timer repr env secs (rn_timer q) (Some (rn_claim q)) (sy_chats s) = (sy_chats s', Some job)"
      obtain r0 where r0: "r0 \<in> set (sy_chats s)" "cr_id r0 = rn_timer q" "has_status ''running'' r0"
          "get (cr_meta r0) ''timer_claim_id'' = JStr (rn_claim q)" using begin_running [OF b] by blast
      obtain r where r: "r \<in> set (sy_chats s)" "calm r r'" using calm_stepD [OF calm_begin [OF b] r'(1)] by blast
      then have "cr_id r = cr_id r0" using r'(2) r0(2) q(2) by (simp add: calm_def same_run_def)
      then have "r = r0" using coreD(1) [OF c] r(1) r0(1) by (simp add: distinct_map inj_on_def)
      moreover have "\<not> has_status ''pending'' r0" using r0(3) by (simp add: has_status_def)
      ultimately show ?thesis using calm_claim [OF r(2)] r0(4) q(2) by (simp add: same_run_def)
    next
      assume "rn_phase q' = Waiting"
      then show ?thesis using q'(2) by (simp add: is_checked_def)
    qed
  qed
qed

interpretation prompt: step_invariant "step repr" prompt_runs "\<lambda>s. core s \<and> holds_claims s" for repr
  by unfold_locales (rule prompt_keeps)

text \<open>
  With any number of workers a timer still posts at most once when runs are prompt: no
  recovery takes back a timer one of whose runs is between its checks and its commit (what the
  ten minutes of a running timer are meant to ensure).
\<close>

theorem prompt_workers_post_once:
  assumes "reach (step repr) prompt_runs (started db) s" and "distinct (map cr_id db)"
  shows "distinct (map fst (sy_posts s))"
proof -
  have "core (started db) \<and> holds_claims (started db)"
    using core_started [OF assms(2)] by (simp add: holds_claims_def started_def)
  with assms(1) have "core s \<and> holds_claims s" by (rule prompt.holds_in_runs)
  then show ?thesis using coreD(3) by blast
qed

section \<open>Rows stay typed\<close>

lemma row_effect_ok:
  assumes "row_effect s e s' r'" and "\<forall>r \<in> set (sy_chats s). row_ok r"
  shows "row_ok r'"
  using assms(1) unfolding row_effect_def
proof (elim disjE bexE exE conjE)
  fix r assume "r \<in> set (sy_chats s)" "calm r r'"
  then show ?thesis using calm_row_ok assms(2) by blast
next
  fix r now secs c assume "r \<in> set (sy_chats s)" "r' = claim_row now secs c r"
  then show ?thesis using assms(2)
    by (auto simp: row_ok_def is_timer_def claim_row_def has_status_def row_simps)
next
  fix r now secs assume "r \<in> set (sy_chats s)" "r' = recover_row now secs r"
  then show ?thesis using assms(2)
    by (auto simp: row_ok_def is_timer_def recover_row_def has_status_def row_simps pending_fields_def)
next
  fix r secs assume "r \<in> set (sy_chats s)" "r' = requeue_row secs r"
  then show ?thesis using assms(2)
    by (auto simp: row_ok_def is_timer_def requeue_row_def has_status_def row_simps pending_fields_def dest!: is_intD)
qed

lemma created_timer_ok:
  assumes "create_timer absolute isoformat now secs i m prompt at_text cancel_on user metadata parent pm = Inr (r, reply)"
  shows "row_ok r \<and> is_timer r \<and> has_status ''pending'' r \<and> cr_id r = i \<and>
    (\<exists>due. now < due \<and> cr_timer_at r = Some due \<and> get (cr_meta r) ''timer_at'' = JInt due)"
proof -
  obtain due where p: "parse_timer_at absolute now at_text = Inr due"
    and r: "r = new_timer_row secs i m user parent pm (strip_text prompt) (timer_model metadata) due
      (from_keys (case cancel_on of None \<Rightarrow> [] | Some es \<Rightarrow> es)) metadata"
    using assms by (auto simp: create_timer_def Let_def split: if_splits sum.splits)
  have "now < due"
  proof (cases "relative_time (map lower_char (strip_text at_text))")
    case None
    then show ?thesis using p by (auto simp: parse_timer_at_def Let_def split: option.splits if_splits)
  next
    case (Some x)
    moreover have "0 < snd x" using Some
      by (auto simp: relative_time_def Let_def unit_ns_def split: if_splits)
    ultimately show ?thesis using p
      by (auto simp: parse_timer_at_def Let_def split: if_splits prod.splits)
  qed
  then show ?thesis
    by (simp add: r row_ok_def is_timer_def has_status_def new_timer_row_def timer_meta_def get_or_def)
qed

text \<open>The rows' ids, in any run of the system.\<close>

definition rows_fresh :: "sys \<Rightarrow> bool" where
  "rows_fresh s \<longleftrightarrow> distinct (map cr_id (sy_chats s)) \<and> cr_id ` set (sy_chats s) \<subseteq> set (sy_used s)"

lemma rows_fresh_calm:
  "rows_fresh s \<Longrightarrow> calm_step (sy_chats s) (sy_chats s') \<Longrightarrow> sy_used s' = sy_used s \<Longrightarrow> rows_fresh s'"
  using calm_step_ids [of "sy_chats s" "sy_chats s'"] by (auto simp: rows_fresh_def calm_step_def)

lemma rows_fresh_ids:
  "rows_fresh s \<Longrightarrow> map cr_id (sy_chats s') = map cr_id (sy_chats s) \<Longrightarrow> set (sy_used s) \<subseteq> set (sy_used s') \<Longrightarrow> rows_fresh s'"
  unfolding rows_fresh_def by (metis list.set_map subset_trans)

lemma begin_used: "sy_used (begin_run repr env secs q s) = sy_used s"
  by (auto simp: begin_run_def end_run_def split: prod.split option.split)

lemma commit_ids:
  "map cr_id (sy_chats (commit_run env now secs u a q job s)) = map cr_id (sy_chats s)"
  "set (sy_used s) \<subseteq> set (sy_used (commit_run env now secs u a q job s))"
proof -
  obtain db x where p: "post_timer env now secs u a (rn_timer q) job (sy_chats s) = (db, x)" by fastforce
  have "map cr_id db = map cr_id (sy_chats s)"
    using p by (auto simp: post_timer_def set_timer_state_def update_row_def row_simps Let_def split: option.splits if_splits)
  then show "map cr_id (sy_chats (commit_run env now secs u a q job s)) = map cr_id (sy_chats s)"
    using p by (cases x) (simp_all add: commit_run_def)
  show "set (sy_used s) \<subseteq> set (sy_used (commit_run env now secs u a q job s))"
    using p by (cases x) (auto simp: commit_run_def end_run_def)
qed

lemma step_rows_fresh:
  assumes "rows_fresh s" and "step repr s e = Some s'"
  shows "rows_fresh s'"
proof (cases e)
  case (Created r)
  then show ?thesis using assms by (auto simp: rows_fresh_def fresh_def image_subset_iff split: if_splits)
next
  case (Claimed w now secs cs)
  then have s': "s' = claim_step w now secs cs s" using assms(2) by (auto split: if_splits)
  show ?thesis
    using claim_keeps_ids [of now secs cs "sy_chats s"] unfolding s'
    by (intro rows_fresh_ids [OF assms(1)]) (auto simp: claim_step_def split: prod.split)
next
  case (Recovered now secs)
  then show ?thesis using assms(2) recover_keeps_ids [of now secs "sy_chats s"]
    by (intro rows_fresh_ids [OF assms(1)]) auto
next
  case (Begun c env secs)
  then obtain q where q: "run_of s c = Some q" "s' = begin_run repr env secs q s"
    using assms(2) by (auto split: option.splits if_splits)
  obtain db x where b: "begin_timer repr env secs (rn_timer q) (Some (rn_claim q)) (sy_chats s) = (db, x)" by fastforce
  then have "sy_chats s' = db" unfolding q(2) by (cases x) (simp_all add: begin_run_def)
  then show ?thesis using calm_begin [OF b] begin_used q(2) by (intro rows_fresh_calm [OF assms(1)]) simp_all
next
  case (Committed c env now secs u a)
  then obtain q job where "s' = commit_run env now secs u a q job s"
    using assms(2) by (auto split: option.splits phase.splits if_splits)
  then show ?thesis using commit_ids by (intro rows_fresh_ids [OF assms(1)]) simp_all
next
  case (Cancelled now secs parent event user)
  then show ?thesis using assms(2) by (intro rows_fresh_calm [OF assms(1)]) (auto simp: calm_cancel)
next
  case (Failed c secs err)
  then show ?thesis using assms(2)
    by (intro rows_fresh_calm [OF assms(1)]) (auto simp: calm_record_error end_run_def split: option.splits)
next
  case (ReplyFailed c secs err)
  then show ?thesis using assms(2)
    by (intro rows_fresh_calm [OF assms(1)]) (auto simp: calm_set_error end_run_def split: option.splits if_splits)
next
  case (Edited i h)
  then show ?thesis using assms(2) by (intro rows_fresh_calm [OF assms(1)]) (auto simp: calm_update_row)
next
  case (Deleted i)
  then show ?thesis using assms(2) by (intro rows_fresh_calm [OF assms(1)]) (auto simp: calm_filter)
next
  case (Replied c)
  then show ?thesis using assms by (auto simp: rows_fresh_def end_run_def image_subset_iff split: option.splits if_splits)
next
  case (Restarted w)
  then show ?thesis using assms by (auto simp: rows_fresh_def image_subset_iff)
qed

definition rows_typed :: "sys \<Rightarrow> bool" where
  "rows_typed s \<longleftrightarrow> rows_fresh s \<and> (\<forall>r \<in> set (sy_chats s). row_ok r)"

lemma step_rows_typed:
  assumes "rows_typed s" and "step repr s e = Some s'"
  shows "rows_typed s'"
proof -
  have fresh: "rows_fresh s" and ok: "\<forall>r \<in> set (sy_chats s). row_ok r" using assms(1) by (simp_all add: rows_typed_def)
  then have "distinct (map cr_id (sy_chats s))" by (simp add: rows_fresh_def)
  then have "row_ok r'" if "r' \<in> set (sy_chats s')" for r'
    using step_rows [OF _ assms(2) that] row_effect_ok [OF _ ok] by blast
  then show ?thesis using step_rows_fresh [OF fresh assms(2)] by (simp add: rows_typed_def)
qed

interpretation typed: step_invariant "step repr" "\<lambda>_ _. True" rows_typed for repr
  by unfold_locales (rule step_rows_typed)

text \<open>
  C23. The type of the stored timers, in every run of the system with any workers: a timer chat
  keeps its own due time; while it is pending its column holds the time it waits for, so that a
  poll can claim it and a user can cancel it; while it is running it has the time it started,
  so that a recovery can find it. The row \<open>create_timer\<close> makes is of that type.
\<close>

theorem timers_stay_typed:
  assumes "reach (step repr) (\<lambda>_ _. True) (started db) s" and "distinct (map cr_id db)" and "list_all row_ok db"
  shows "list_all row_ok (sy_chats s) \<and> distinct (map cr_id (sy_chats s))"
proof -
  have "rows_typed (started db)" using assms(2,3) by (simp add: rows_typed_def rows_fresh_def started_def list_all_iff)
  with assms(1) have "rows_typed s" by (rule typed.holds_in_runs)
  then show ?thesis by (simp add: rows_typed_def rows_fresh_def list_all_iff)
qed

section \<open>Runs of the system\<close>

text \<open>A poll claims a timer, its run is put off by a busy chat, and the next poll's run posts.\<close>

definition busy_env :: timer_env where
  "busy_env = sample_env\<lparr>te_active := (\<lambda>_. True)\<rparr>"

definition one_chat :: "chat_row list" where
  "one_chat = [sample_chat, sample_timer ''t'' 5]"

definition put_off_run :: "timer_event list" where
  "put_off_run = [Claimed 0 9 0 [''c1''], Begun ''c1'' sample_env 0, Committed ''c1'' busy_env 9 0 ''m1'' ''m2'',
     Claimed 0 20 0 [''c2''], Begun ''c2'' sample_env 0, Committed ''c2'' sample_env 20 0 ''m3'' ''m4'',
     Recovered 30 0, Replied ''c2'']"

lemma distinct_one_chat: "distinct (map cr_id one_chat)"
  by code_simp

theorem one_worker_posts_once_witness:
  "\<exists>s. reach (step (\<lambda>_. [])) (one_worker 0) (started one_chat) s \<and> sy_posts s = [(''t'', ''m4'')] \<and> distinct (map fst (sy_posts s))"
proof -
  have "map_option sy_posts (exec (step (\<lambda>_. [])) (one_worker 0) (started one_chat) put_off_run) = Some [(''t'', ''m4'')]" by code_simp
  then obtain s where "reach (step (\<lambda>_. [])) (one_worker 0) (started one_chat) s" "sy_posts s = [(''t'', ''m4'')]"
    by (rule exec_reach_view)
  then show ?thesis using one_worker_posts_once distinct_one_chat by blast
qed

theorem prompt_workers_post_once_witness:
  "\<exists>s. reach (step (\<lambda>_. [])) prompt_runs (started one_chat) s \<and> sy_posts s = [(''t'', ''m4'')] \<and> distinct (map fst (sy_posts s))"
proof -
  have "map_option sy_posts (exec (step (\<lambda>_. [])) prompt_runs (started one_chat) put_off_run) = Some [(''t'', ''m4'')]" by code_simp
  then obtain s where "reach (step (\<lambda>_. [])) prompt_runs (started one_chat) s" "sy_posts s = [(''t'', ''m4'')]"
    by (rule exec_reach_view)
  then show ?thesis using prompt_workers_post_once distinct_one_chat by blast
qed

theorem timers_stay_typed_witness:
  "\<exists>s. reach (step (\<lambda>_. [])) (\<lambda>_ _. True) (started one_chat) s \<and> sy_posts s = [(''t'', ''m4'')] \<and> list_all row_ok (sy_chats s)"
proof -
  have "map_option sy_posts (exec (step (\<lambda>_. [])) (\<lambda>_ _. True) (started one_chat) put_off_run) = Some [(''t'', ''m4'')]" by code_simp
  then obtain s where "reach (step (\<lambda>_. [])) (\<lambda>_ _. True) (started one_chat) s" "sy_posts s = [(''t'', ''m4'')]"
    by (rule exec_reach_view)
  moreover have "list_all row_ok one_chat" by code_simp
  ultimately show ?thesis using timers_stay_typed distinct_one_chat by blast
qed

definition late_run :: "timer_event list" where
  "late_run = [Claimed 0 9 0 [''c1''], Begun ''c1'' sample_env 0, Recovered (9 + stale_running_ns) 0,
     Claimed 1 (9 + stale_running_ns) 0 [''c2''], Begun ''c2'' sample_env 0,
     Committed ''c2'' sample_env 20 0 ''m1'' ''m2'', Committed ''c1'' sample_env 30 0 ''m3'' ''m4'']"

text \<open>
  With two workers and a run that is not prompt, a timer's messages are posted twice. The
  first worker's run passes its checks and then waits (for the parent's lock, or the database)
  past the ten minutes; a recovery puts the timer back to pending, the second worker claims and
  posts it, and then the first run commits as well: the commit does not look at the status and
  the claim of the timer again, and the locks are per process.
\<close>

theorem late_recovery_posts_twice:
  "\<exists>s. reach (step (\<lambda>_. [])) (\<lambda>_ _. True) (started one_chat) s \<and> sy_posts s = [(''t'', ''m2''), (''t'', ''m4'')]"
proof -
  have "map_option sy_posts (exec (step (\<lambda>_. [])) (\<lambda>_ _. True) (started one_chat) late_run)
      = Some [(''t'', ''m2''), (''t'', ''m4'')]" by code_simp
  then show ?thesis by (rule exec_reach_view) blast
qed

end
