(* ===== verification/ToolApproval.thy ===== *)
theory ToolApproval
  imports OutputMessages Runs
begin

text \<open>
  Approving tool calls (\<open>utils/tool_approval.py\<close>, with \<open>drain_approved_tool_calls\<close> and
  \<open>pause_for_tool_approval\<close> of \<open>utils/middleware.py\<close>): a reply that wants to call a tool stops, its
  output holds the calls, the user resolves them one by one, and each resolve resumes the
  reply, which runs the approved calls. Output items are dicts. Running a tool, the test of a
  result for an error, the JSON printer and the drawn ids are arguments.
\<close>

section \<open>The items of an output\<close>

definition item_type :: "string \<Rightarrow> dict \<Rightarrow> bool" where
  "item_type t item \<longleftrightarrow> get item ''type'' = JStr t"

definition open_statuses :: "json set" where
  "open_statuses = {JStr ''pending'', JStr ''queued'', JStr ''requires_approval''}"

definition is_approved :: "dict \<Rightarrow> bool" where
  "is_approved item \<longleftrightarrow> get item ''approved'' = JBool True"

definition call_key :: "dict \<Rightarrow> json" where
  "call_key item = py_or (get item ''call_id'') (get item ''id'')"

definition result_call_ids :: "dict list \<Rightarrow> json list" where
  "result_call_ids output = filter truthy (map (\<lambda>i. get i ''call_id'') (filter (item_type ''function_call_output'') output))"

section \<open>Resolving a call\<close>

datatype approval_action = Approve | Reject | Answer

record resolve_form =
  rf_call_id :: string
  rf_action :: approval_action
  rf_answers :: json
  rf_timed_out :: bool

datatype resolve_error =
    AccessProhibited
  | MessageNotFound
  | NoResolvableOutput
  | CallNotFound
  | AlreadyResolved
  | StillRunning
  | NeedsAnswer
  | AcceptsNoAnswer
  | AnswersRequired

text \<open>The status code of each refusal.\<close>

fun status_code :: "resolve_error \<Rightarrow> nat" where
  "status_code AccessProhibited = 401"
| "status_code MessageNotFound = 404"
| "status_code NoResolvableOutput = 400"
| "status_code CallNotFound = 404"
| "status_code AlreadyResolved = 409"
| "status_code StillRunning = 409"
| "status_code NeedsAnswer = 400"
| "status_code AcceptsNoAnswer = 400"
| "status_code AnswersRequired = 400"

definition is_call :: "string \<Rightarrow> dict \<Rightarrow> bool" where
  "is_call c item \<longleftrightarrow> item_type ''function_call'' item \<and> call_key item = JStr c"

definition with_call_id :: "string \<Rightarrow> dict \<Rightarrow> dict" where
  "with_call_id c item = (if has_key item ''call_id'' then item else dict_set ''call_id'' (JStr c) item)"

definition already_resolved :: "string \<Rightarrow> dict \<Rightarrow> dict list \<Rightarrow> bool" where
  "already_resolved c call output \<longleftrightarrow>
     list_ex (\<lambda>i. item_type ''function_call_output'' i \<and> get i ''call_id'' = JStr c) output \<or>
     get call ''status'' \<notin> open_statuses \<or> is_approved call"

text \<open>A call that is approved and has no result yet: a resume will run it, or is running it.\<close>

definition unfinished :: "dict list \<Rightarrow> dict \<Rightarrow> bool" where
  "unfinished output item \<longleftrightarrow> item_type ''function_call'' item \<and> is_approved item \<and> call_key item \<notin> set (result_call_ids output)"

definition result_item :: "string \<Rightarrow> string \<Rightarrow> string \<Rightarrow> dict" where
  "result_item c text_value state =
     [(''type'', JStr ''function_call_output''), (''id'', JStr (''fco_'' @ c)), (''call_id'', JStr c),
      (''output'', JArr [JObj [(''type'', JStr ''input_text''), (''text'', JStr text_value)]]), (''status'', JStr state)]"

definition answer_payload :: "resolve_form \<Rightarrow> json" where
  "answer_payload f =
     (if rf_timed_out f
      then JObj [(''status'', JStr ''cancelled''), (''answers'', JObj []), (''timed_out'', JBool True)]
      else JObj [(''status'', JStr ''answered''), (''answers'', py_or (rf_answers f) (JObj []))])"

text \<open>
  \<open>_resolve_tool_call_output\<close> on the stored output, for a user who may: the output it saves.
\<close>

definition resolve_output :: "(json \<Rightarrow> string) \<Rightarrow> resolve_form \<Rightarrow> dict list \<Rightarrow> resolve_error + dict list" where
  "resolve_output dumps f output =
     (let c = rf_call_id f; output1 = modify_first (is_call c) (with_call_id c) output;
          mark = (\<lambda>s item. dict_set ''status'' (JStr s) (with_call_id c item))
      in case find (is_call c) output of
           None \<Rightarrow> Inl CallNotFound
         | Some call \<Rightarrow>
             if already_resolved c (with_call_id c call) output1 then Inl AlreadyResolved
             else if list_ex (unfinished output1) output1 then Inl StillRunning
             else case rf_action f of
               Approve \<Rightarrow>
                 if get call ''name'' = JStr ''ask_user'' then Inl NeedsAnswer
                 else Inr (modify_first (is_call c) (\<lambda>i. dict_set ''approved'' (JBool True) (mark ''queued'' i)) output)
             | Reject \<Rightarrow>
                 Inr (modify_first (is_call c) (mark ''rejected'') output
                   @ [result_item c ''Error: tool call rejected by user.'' ''rejected''])
             | Answer \<Rightarrow>
                 if get call ''name'' \<noteq> JStr ''ask_user'' then Inl AcceptsNoAnswer
                 else if rf_answers f = JNull \<and> \<not> rf_timed_out f then Inl AnswersRequired
                 else Inr (modify_first (is_call c) (mark ''completed'') output
                   @ [result_item c (dumps (answer_payload f)) ''completed'']))"

text \<open>The whole request: who may resolve, and which messages have an output to resolve.\<close>

definition resolve_tool_call_output ::
  "(json \<Rightarrow> string) \<Rightarrow> (string \<times> bool) \<Rightarrow> string option \<Rightarrow> dict option \<Rightarrow> resolve_form \<Rightarrow> resolve_error + dict list" where
  "resolve_tool_call_output dumps user owner message f =
     (case owner of
        None \<Rightarrow> Inl AccessProhibited
      | Some u \<Rightarrow>
          if u \<noteq> fst user \<and> \<not> snd user then Inl AccessProhibited
          else case message of
              None \<Rightarrow> Inl MessageNotFound
            | Some m \<Rightarrow>
                if m = [] then Inl MessageNotFound
                else case py_or (get m ''output'') (JArr []) of
                    JArr items \<Rightarrow> resolve_output dumps f (map as_dict items)
                  | _ \<Rightarrow> Inl NoResolvableOutput)"

definition is_paused :: "dict list \<Rightarrow> bool" where
  "is_paused output \<longleftrightarrow> list_ex (\<lambda>i. item_type ''function_call'' i \<and> truthy (get i ''call_id'') \<and>
     get i ''status'' \<in> open_statuses \<and> get i ''call_id'' \<notin> set (result_call_ids output)) output"

section \<open>Pausing a reply\<close>

text \<open>\<open>pause_for_tool_approval\<close>: the first open call becomes pending, later ones in progress are queued.\<close>

definition named_call :: "dict \<Rightarrow> dict" where
  "named_call item =
     (if item_type ''function_call'' item \<and> \<not> truthy (get item ''call_id'') \<and> truthy (get item ''id'')
      then dict_set ''call_id'' (get item ''id'') item else item)"

definition awaits_approval :: "json set \<Rightarrow> dict \<Rightarrow> bool" where
  "awaits_approval results item \<longleftrightarrow> item_type ''function_call'' item \<and> truthy (get item ''call_id'') \<and>
     get item ''call_id'' \<notin> results \<and> get item ''status'' \<noteq> JStr ''rejected''"

fun pause_items :: "json set \<Rightarrow> bool \<Rightarrow> dict list \<Rightarrow> dict list" where
  "pause_items results has_pending [] = []"
| "pause_items results has_pending (item # items) =
     (let it = named_call item
      in if awaits_approval results it
         then (if \<not> has_pending then dict_set ''status'' (JStr ''pending'') it
               else if get it ''status'' = JStr ''in_progress'' then dict_set ''status'' (JStr ''queued'') it else it)
              # pause_items results True items
         else it # pause_items results has_pending items)"

definition pause_for_tool_approval :: "dict list \<Rightarrow> dict list" where
  "pause_for_tool_approval output = pause_items (set (result_call_ids output)) False output"

section \<open>Running the approved calls\<close>

record tool_result =
  tr_arguments :: json
  tr_content :: string
  tr_files :: "dict list"
  tr_embeds :: json

definition to_run :: "dict list \<Rightarrow> dict \<Rightarrow> bool" where
  "to_run output item \<longleftrightarrow> item_type ''function_call'' item \<and> truthy (get item ''call_id'') \<and>
     get item ''status'' = JStr ''queued'' \<and> is_approved item \<and> get item ''call_id'' \<notin> set (result_call_ids output)"

definition needs_pause :: "dict list \<Rightarrow> bool" where
  "needs_pause output \<longleftrightarrow> list_ex (\<lambda>i. item_type ''function_call'' i \<and> get i ''name'' \<noteq> JStr ''ask_user'' \<and>
     truthy (call_key i) \<and> get i ''status'' = JStr ''queued'' \<and> \<not> is_approved i \<and>
     call_key i \<notin> set (result_call_ids output)) output"

definition tool_call_of :: "dict \<Rightarrow> dict" where
  "tool_call_of item =
     [(''id'', get_or item ''call_id'' (JStr [])), (''type'', JStr ''function''),
      (''function'', JObj [(''name'', get_or item ''name'' (JStr [])), (''arguments'', get_or item ''arguments'' (JStr ''{}''))])]"

definition is_data_image :: "dict \<Rightarrow> bool" where
  "is_data_image f \<longleftrightarrow> get f ''type'' = JStr ''image'' \<and> take 5 (as_str (get f ''url'')) = ''data:''"

definition tool_result_item :: "string \<Rightarrow> json \<Rightarrow> string \<Rightarrow> tool_result \<Rightarrow> dict" where
  "tool_result_item uid c state r =
     [(''type'', JStr ''function_call_output''), (''id'', JStr (''fco_'' @ uid)), (''call_id'', c),
      (''output'', JArr (JObj [(''type'', JStr ''input_text''), (''text'', JStr (tr_content r))]
         # map (\<lambda>f. JObj [(''type'', JStr ''input_image''), (''image_url'', get f ''url'')]) (filter is_data_image (tr_files r)))),
      (''status'', JStr state)]
     @ (if filter (\<lambda>f. \<not> is_data_image f) (tr_files r) \<noteq> []
        then [(''files'', JArr (map JObj (filter (\<lambda>f. \<not> is_data_image f) (tr_files r))))] else [])
     @ (if truthy (tr_embeds r) then [(''embeds'', tr_embeds r)] else [])"

definition result_state :: "(string \<Rightarrow> bool) \<Rightarrow> tool_result \<Rightarrow> string" where
  "result_state is_error r = (if is_error (tr_content r) then ''failed'' else ''completed'')"

text \<open>What happens to an approved call, and the result it adds: a question is asked again.\<close>

definition ran_item :: "(string \<Rightarrow> bool) \<Rightarrow> (dict \<Rightarrow> tool_result) \<Rightarrow> dict \<Rightarrow> dict" where
  "ran_item is_error run item =
     (if get item ''name'' = JStr ''ask_user'' then dict_pop ''approved'' (dict_set ''status'' (JStr ''pending'') item)
      else let r = run (tool_call_of item)
      in dict_set ''status'' (JStr (result_state is_error r)) (dict_set ''arguments'' (tr_arguments r) item))"

definition executed :: "dict list \<Rightarrow> dict list" where
  "executed output = filter (\<lambda>i. to_run output i \<and> get i ''name'' \<noteq> JStr ''ask_user'') output"

definition run_results :: "(nat \<Rightarrow> string) \<Rightarrow> (string \<Rightarrow> bool) \<Rightarrow> (dict \<Rightarrow> tool_result) \<Rightarrow> dict list \<Rightarrow> dict list" where
  "run_results uid is_error run output =
     with_index (\<lambda>n i. let r = run (tool_call_of i)
       in tool_result_item (uid n) (get i ''call_id'') (result_state is_error r) r) 0 (executed output)"

definition in_progress_item :: "string \<Rightarrow> dict" where
  "in_progress_item uid =
     [(''type'', JStr ''message''), (''id'', JStr (''msg_'' @ uid)), (''status'', JStr ''in_progress''), (''role'', JStr ''assistant''),
      (''content'', JArr [JObj [(''type'', JStr ''output_text''), (''text'', JStr [])]])]"

text \<open>
  \<open>drain_approved_tool_calls\<close> on the stored output of the resumed message: the output to save
  (None when nothing is saved) and whether the reply stays paused. \<open>ask\<close> says that the chat asks
  for approval.
\<close>

definition drained :: "(nat \<Rightarrow> string) \<Rightarrow> (string \<Rightarrow> bool) \<Rightarrow> (dict \<Rightarrow> tool_result) \<Rightarrow> dict list \<Rightarrow> dict list" where
  "drained uid is_error run output =
     map (\<lambda>i. if to_run output i then ran_item is_error run i else i) output @ run_results uid is_error run output"

definition drain_approved_tool_calls ::
  "(nat \<Rightarrow> string) \<Rightarrow> (string \<Rightarrow> bool) \<Rightarrow> (dict \<Rightarrow> tool_result) \<Rightarrow> string \<Rightarrow> bool \<Rightarrow> dict list \<Rightarrow> dict list option \<times> bool" where
  "drain_approved_tool_calls uid is_error run msg_uid ask output =
     (if filter (to_run output) output = []
      then (if ask \<and> needs_pause output then (Some (pause_for_tool_approval output), True) else (None, False))
      else let output1 = drained uid is_error run output;
               output2 = (if ask \<and> needs_pause output1 then pause_for_tool_approval output1 else output1);
               paused = is_paused output2
           in (Some (if paused then output2 else output2 @ [in_progress_item msg_uid]), paused))"

section \<open>The resume request\<close>

datatype resume_error = ChatNotFound | NoMessage | NoParent | NoMessageModel

definition dict_at :: "dict \<Rightarrow> string \<Rightarrow> dict" where
  "dict_at d k = as_dict (get d k)"

definition resume_params :: "dict \<Rightarrow> dict \<Rightarrow> dict" where
  "resume_params chat_data meta =
     (let chat_params = dict_at chat_data ''params'';
          mode = get chat_params ''tool_approval_mode'';
          params = dict_update chat_params (dict_at meta ''params'');
          params1 = (if mode \<in> {JStr ''ask'', JStr ''full''} then dict_set ''tool_approval_mode'' mode params else params)
      in if has_key params1 ''tool_approval_mode'' then params1 else dict_set ''tool_approval_mode'' (JStr ''ask'') params1)"

definition resume_model :: "dict \<Rightarrow> dict \<Rightarrow> json" where
  "resume_model message chat_data =
     py_or (get message ''model'') (case as_list (get chat_data ''models'') of [] \<Rightarrow> JNull | m # _ \<Rightarrow> m)"

definition or_none :: "json \<Rightarrow> json" where
  "or_none v = py_or v JNull"

text \<open>\<open>build_tool_approval_resume_payload\<close>, for a chat that was found; a missing message is empty.\<close>

definition build_tool_approval_resume_payload ::
  "string \<Rightarrow> string \<Rightarrow> dict \<Rightarrow> json \<Rightarrow> dict \<Rightarrow> (json \<Rightarrow> dict) \<Rightarrow> resume_error + dict" where
  "build_tool_approval_resume_payload chat_id message_id chat_data variables message find_message =
     (let parent = get message ''parentId'';
          user_message = (if truthy parent then find_message parent else []);
          meta = dict_at message ''meta'';
          params = resume_params chat_data meta;
          model = resume_model message chat_data
      in if message = [] then Inl NoMessage
         else if user_message = [] then Inl NoParent
         else if \<not> truthy model then Inl NoMessageModel
         else Inr [(''stream'', get_or params ''stream_response'' (JBool True)), (''model'', model),
           (''messages'', JArr (if truthy (get params ''system'')
              then [JObj [(''role'', JStr ''system''), (''content'', get params ''system'')]] else [])),
           (''params'', JObj params), (''files'', or_none (py_or (get meta ''files'') (get chat_data ''files''))),
           (''filter_ids'', or_none (get meta ''filter_ids'')), (''tool_ids'', or_none (get meta ''tool_ids'')),
           (''skill_ids'', or_none (get meta ''skill_ids'')), (''terminal_id'', or_none (get meta ''terminal_id'')),
           (''tool_servers'', or_none (get meta ''tool_servers'')), (''features'', py_or (get meta ''features'') (JObj [])),
           (''variables'', py_or (get meta ''variables'') (JObj [])), (''chat_variables'', variables),
           (''session_id'', get meta ''session_id''), (''chat_id'', JStr chat_id), (''id'', JStr message_id),
           (''parent_id'', get user_message ''parentId''), (''user_message'', JObj user_message),
           (''assistant_message_id'', JStr message_id)])"

section \<open>Results and unfinished calls\<close>

lemma call_not_output: "item_type ''function_call'' i \<Longrightarrow> \<not> item_type ''function_call_output'' i"
  by (simp add: item_type_def)

lemma results_Nil [simp]: "result_call_ids [] = []"
  by (simp add: result_call_ids_def)

lemma results_append [simp]: "result_call_ids (xs @ ys) = result_call_ids xs @ result_call_ids ys"
  by (simp add: result_call_ids_def)

text \<open>A change of function_call items alone keeps the results.\<close>

definition calls_only :: "dict \<Rightarrow> dict \<Rightarrow> bool" where
  "calls_only i j \<longleftrightarrow> i = j \<or> item_type ''function_call'' i \<and> item_type ''function_call'' j"

lemma results_calls_only: "list_all2 calls_only xs ys \<Longrightarrow> result_call_ids ys = result_call_ids xs"
  by (induction rule: list_all2_induct) (auto simp: calls_only_def result_call_ids_def call_not_output)

lemma calls_only_refl [simp]: "calls_only i i"
  by (simp add: calls_only_def)

lemma calls_only_list_refl [simp]: "list_all2 calls_only xs xs"
  by (simp add: list_all2_refl)

lemma calls_only_modify:
  assumes "\<And>i. P i \<Longrightarrow> calls_only i (f i)"
  shows "list_all2 calls_only xs (modify_first P f xs)"
  using assms by (induction xs) auto

lemma get_with_call_id: "k \<noteq> ''call_id'' \<Longrightarrow> get (with_call_id c i) k = get i k"
  by (simp add: with_call_id_def get_or_dict_set)

lemma call_key_with_call_id: "call_key i = JStr c \<Longrightarrow> call_key (with_call_id c i) = JStr c"
  by (auto simp: call_key_def with_call_id_def has_key_def get_or_def py_or_def split: option.splits if_splits)

text \<open>The marks a resolve sets on the call it resolves.\<close>

definition marked :: "string \<Rightarrow> string \<Rightarrow> dict \<Rightarrow> dict" where
  "marked c s i = dict_set ''status'' (JStr s) (with_call_id c i)"

lemma marked_is_call:
  assumes "is_call c i"
  shows "is_call c (marked c s i)" and "is_call c (dict_set ''approved'' (JBool True) (marked c s i))"
    and "is_call c (with_call_id c i)"
  using assms call_key_with_call_id [of i c]
  by (simp_all add: is_call_def item_type_def marked_def get_or_dict_set get_with_call_id call_key_def)

lemma marked_approved: "is_approved (marked c s i) \<longleftrightarrow> is_approved i"
  by (simp add: is_approved_def marked_def get_or_dict_set get_with_call_id)

lemma is_call_calls_only: "is_call c i \<Longrightarrow> is_call c j \<Longrightarrow> calls_only i j"
  by (simp add: is_call_def calls_only_def)

lemma find_modify_first:
  "(\<And>i. P i \<Longrightarrow> P (f i)) \<Longrightarrow> find P (modify_first P f xs) = map_option f (find P xs)"
  by (induction xs) auto

lemma split_first:
  assumes "find P xs = Some x"
  obtains us vs where "xs = us @ x # vs" "P x" "\<And>f zs. modify_first P f (us @ x # zs) = us @ f x # zs"
    "\<And>y zs. P y \<Longrightarrow> find P (us @ y # zs) = Some y" "\<And>y f zs. P y \<Longrightarrow> modify_first P f (us @ y # zs) = us @ f y # zs"
  using assms
proof (induction xs arbitrary: thesis)
  case (Cons y ys)
  show ?case
  proof (cases "P y")
    case True
    then show ?thesis using Cons.prems(2) by (intro Cons.prems(1) [of "[]" ys]) auto
  next
    case False
    then obtain us vs where "ys = us @ x # vs" "P x" "\<And>f zs. modify_first P f (us @ x # zs) = us @ f x # zs"
      "\<And>y zs. P y \<Longrightarrow> find P (us @ y # zs) = Some y" "\<And>y f zs. P y \<Longrightarrow> modify_first P f (us @ y # zs) = us @ f y # zs"
      using Cons by auto
    then show ?thesis using False by (intro Cons.prems(1) [of "y # us" vs]) auto
  qed
qed simp

lemma unfinished_results: "set (result_call_ids xs) = set (result_call_ids ys) \<Longrightarrow> unfinished xs i = unfinished ys i"
  by (simp add: unfinished_def)

lemma results_with_call_id: "result_call_ids (modify_first (is_call c) (with_call_id c) output) = result_call_ids output"
  by (intro results_calls_only calls_only_modify) (rule is_call_calls_only [OF _ marked_is_call(3)])

lemma unfinished_with_call_id: "is_call c i \<Longrightarrow> unfinished output (with_call_id c i) = unfinished output i"
  using call_key_with_call_id [of i c]
  by (auto simp: unfinished_def is_call_def item_type_def is_approved_def get_with_call_id)

lemma list_ex_modify_first:
  "(\<And>i. P i \<Longrightarrow> Q (f i) = Q i) \<Longrightarrow> list_ex Q (modify_first P f xs) = list_ex Q xs"
  by (induction xs) auto

lemma still_running:
  "list_ex (unfinished (modify_first (is_call c) (with_call_id c) output)) (modify_first (is_call c) (with_call_id c) output)
     = list_ex (unfinished output) output"
proof -
  have "unfinished (modify_first (is_call c) (with_call_id c) output) = unfinished output"
    by (rule ext, rule unfinished_results) (simp add: results_with_call_id)
  then show ?thesis by (simp add: list_ex_modify_first unfinished_with_call_id)
qed

lemma output_with_call_id:
  "list_ex (\<lambda>i. item_type ''function_call_output'' i \<and> Q i) (modify_first (is_call c) (with_call_id c) output)
     = list_ex (\<lambda>i. item_type ''function_call_output'' i \<and> Q i) output"
  by (rule list_ex_modify_first) (simp add: is_call_def item_type_def get_with_call_id)

definition has_result :: "string \<Rightarrow> dict list \<Rightarrow> bool" where
  "has_result c output \<longleftrightarrow> list_ex (\<lambda>i. item_type ''function_call_output'' i \<and> get i ''call_id'' = JStr c) output"

lemma already_resolved_iff:
  "already_resolved c (with_call_id c call) (modify_first (is_call c) (with_call_id c) output) \<longleftrightarrow>
     has_result c output \<or> get call ''status'' \<notin> open_statuses \<or> is_approved call"
  using output_with_call_id [of "\<lambda>i. get i ''call_id'' = JStr c" c "output"]
  by (simp add: already_resolved_def has_result_def get_with_call_id is_approved_def)

text \<open>What a resolve that is not refused has found and does.\<close>

definition resolved_call :: "resolve_form \<Rightarrow> dict \<Rightarrow> dict" where
  "resolved_call f call =
     (case rf_action f of
        Approve \<Rightarrow> dict_set ''approved'' (JBool True) (marked (rf_call_id f) ''queued'' call)
      | Reject \<Rightarrow> marked (rf_call_id f) ''rejected'' call
      | Answer \<Rightarrow> marked (rf_call_id f) ''completed'' call)"

definition added_result :: "(json \<Rightarrow> string) \<Rightarrow> resolve_form \<Rightarrow> dict list" where
  "added_result dumps f =
     (case rf_action f of
        Approve \<Rightarrow> []
      | Reject \<Rightarrow> [result_item (rf_call_id f) ''Error: tool call rejected by user.'' ''rejected'']
      | Answer \<Rightarrow> [result_item (rf_call_id f) (dumps (answer_payload f)) ''completed''])"

lemma resolve_cases:
  assumes "resolve_output dumps f output = Inr out"
  obtains call us vs where "output = us @ call # vs" "out = us @ resolved_call f call # vs @ added_result dumps f"
    "find (is_call (rf_call_id f)) output = Some call" "is_call (rf_call_id f) call" "\<not> has_result (rf_call_id f) output"
    "get call ''status'' \<in> open_statuses" "\<not> is_approved call" "\<not> list_ex (unfinished output) output"
    "\<And>y zs. is_call (rf_call_id f) y \<Longrightarrow> find (is_call (rf_call_id f)) (us @ y # zs) = Some y"
proof -
  obtain call where call: "find (is_call (rf_call_id f)) output = Some call"
    using assms by (auto simp: resolve_output_def Let_def split: option.splits)
  then obtain us vs where split: "output = us @ call # vs" "is_call (rf_call_id f) call"
      "\<And>g zs. modify_first (is_call (rf_call_id f)) g (us @ call # zs) = us @ g call # zs"
      "\<And>y zs. is_call (rf_call_id f) y \<Longrightarrow> find (is_call (rf_call_id f)) (us @ y # zs) = Some y"
    by (rule split_first) blast
  have ok: "\<not> (has_result (rf_call_id f) output \<or> get call ''status'' \<notin> open_statuses \<or> is_approved call)"
      "\<not> list_ex (unfinished output) output"
    using assms by (auto simp: resolve_output_def Let_def call already_resolved_iff still_running split: if_splits)
  have "out = us @ resolved_call f call # vs @ added_result dumps f"
    using assms ok split(3) unfolding resolve_output_def Let_def call option.case already_resolved_iff still_running
    by (auto simp: resolved_call_def added_result_def marked_def split(1) split: approval_action.splits if_splits)
  then show thesis using that [OF split(1) _ call split(2)] ok split(4) by blast
qed

lemma resolved_is_call: "is_call (rf_call_id f) call \<Longrightarrow> is_call (rf_call_id f) (resolved_call f call)"
  by (simp add: resolved_call_def marked_is_call split: approval_action.split)

lemma resolved_approved:
  "\<not> is_approved call \<Longrightarrow> is_approved (resolved_call f call) \<longleftrightarrow> rf_action f = Approve"
  by (simp add: resolved_call_def marked_approved is_approved_def get_or_dict_set split: approval_action.split)
     (simp add: is_approved_def [symmetric] marked_approved)

section \<open>A call is resolved once\<close>

lemma result_not_call: "x \<in> set (added_result dumps f) \<Longrightarrow>
    item_type ''function_call_output'' x \<and> get x ''call_id'' = JStr (rf_call_id f) \<and> \<not> item_type ''function_call'' x"
  by (auto simp: added_result_def result_item_def item_type_def get_or_def split: approval_action.splits)

lemma added_result_Nil: "added_result dumps f = [] \<longleftrightarrow> rf_action f = Approve"
  by (simp add: added_result_def split: approval_action.split)

lemma resolved_results:
  assumes "output = us @ call # vs" and "is_call (rf_call_id f) call"
  shows "result_call_ids (us @ resolved_call f call # vs @ zs) = result_call_ids output @ result_call_ids zs"
proof -
  have "list_all2 calls_only output (us @ resolved_call f call # vs)"
    unfolding assms(1) using is_call_calls_only [OF assms(2) resolved_is_call [OF assms(2)]]
    by (intro list_all2_appendI) simp_all
  from results_calls_only [OF this] show ?thesis
    using results_append [of "us @ resolved_call f call # vs" zs] by simp
qed

lemma not_in_results: "\<not> has_result c output \<Longrightarrow> JStr c \<notin> set (result_call_ids output)"
  by (auto simp: has_result_def result_call_ids_def list_ex_iff)

lemma unfinished_after_resolve:
  assumes "resolve_output dumps f output = Inr out"
  shows "length (filter (unfinished out) out) = (if rf_action f = Approve then 1 else 0)"
  using assms
proof (cases rule: resolve_cases)
  case (1 call us vs)
  note call = resolved_is_call [OF 1(4)]
  have results: "result_call_ids out = result_call_ids output @ result_call_ids (added_result dumps f)"
    unfolding 1(2) by (rule resolved_results [OF 1(1,4)])
  have others: "\<not> unfinished out i" if "i \<in> set us \<union> set vs" for i
  proof
    assume "unfinished out i"
    then have "unfinished output i" by (auto simp: unfinished_def results)
    then show False using 1(8) that unfolding 1(1) by (auto simp: list_ex_iff)
  qed
  have extra: "\<not> unfinished out i" if "i \<in> set (added_result dumps f)" for i
    using result_not_call [OF that] by (simp add: unfinished_def)
  have mine: "unfinished out (resolved_call f call) \<longleftrightarrow> rf_action f = Approve"
  proof (cases "rf_action f = Approve")
    case True
    then have "added_result dumps f = []" by (simp add: added_result_Nil)
    then have "result_call_ids out = result_call_ids output" using results by simp
    then show ?thesis using True call resolved_approved [OF 1(7), of f] not_in_results [OF 1(5)]
      by (simp add: unfinished_def is_call_def)
  qed (simp add: unfinished_def resolved_approved [OF 1(7)])
  have "filter (unfinished out) out = filter (unfinished out) [resolved_call f call]"
    using others extra unfolding 1(2) by (simp add: filter_empty_conv)
  then show ?thesis using mine by simp
qed

lemma resolve_again:
  assumes "resolve_output dumps f output = Inr out" and "rf_call_id g = rf_call_id f"
  shows "resolve_output dumps g out = Inl AlreadyResolved"
  using assms(1)
proof (cases rule: resolve_cases)
  case (1 call us vs)
  have found: "find (is_call (rf_call_id f)) out = Some (resolved_call f call)"
    unfolding 1(2) by (rule 1(9) [OF resolved_is_call [OF 1(4)]])
  have "has_result (rf_call_id f) out \<or> is_approved (resolved_call f call)"
  proof (cases "rf_action f = Approve")
    case False
    then obtain x where "x \<in> set (added_result dumps f)" using added_result_Nil by (metis list.set_sel(1))
    then show ?thesis using result_not_call [of x dumps f] unfolding 1(2) has_result_def list_ex_iff by auto
  qed (simp add: resolved_approved [OF 1(7)])
  then show ?thesis
    using found unfolding resolve_output_def Let_def assms(2) by (simp add: already_resolved_iff)
qed

lemma resolve_while_unfinished:
  assumes "list_ex (unfinished output) output"
  shows "resolve_output dumps g output \<in> {Inl CallNotFound, Inl AlreadyResolved, Inl StillRunning}"
  unfolding resolve_output_def Let_def still_running using assms by (auto split: option.split)

text \<open>
  A call is resolved once. When \<open>resolve_output\<close> accepts a form, no approved call was waiting
  for its result before, and exactly one waits afterwards if the action was to approve, else
  none; whatever a second form for the same call says, it is refused as already resolved (409);
  and after an approval every form for any call is refused, until the approved call has run.
\<close>

theorem resolve_once:
  assumes "resolve_output dumps f output = Inr out"
  shows "\<not> list_ex (unfinished output) output \<and>
    length (filter (unfinished out) out) = (if rf_action f = Approve then 1 else 0) \<and>
    (rf_call_id g = rf_call_id f \<longrightarrow> resolve_output dumps g out = Inl AlreadyResolved) \<and>
    (rf_action f = Approve \<longrightarrow> resolve_output dumps g out \<in> {Inl CallNotFound, Inl AlreadyResolved, Inl StillRunning})"
proof (intro conjI impI)
  show "\<not> list_ex (unfinished output) output" using assms by (rule resolve_cases)
  show n: "length (filter (unfinished out) out) = (if rf_action f = Approve then 1 else 0)"
    by (rule unfinished_after_resolve [OF assms])
  show "resolve_output dumps g out = Inl AlreadyResolved" if "rf_call_id g = rf_call_id f"
    using assms that by (rule resolve_again)
  show "resolve_output dumps g out \<in> {Inl CallNotFound, Inl AlreadyResolved, Inl StillRunning}" if "rf_action f = Approve"
  proof (rule resolve_while_unfinished)
    have "filter (unfinished out) out \<noteq> []" using n that by auto
    then show "list_ex (unfinished out) out" by (auto simp: filter_empty_conv list_ex_iff)
  qed
qed

definition sample_call :: "string \<Rightarrow> string \<Rightarrow> dict" where
  "sample_call c s = [(''type'', JStr ''function_call''), (''call_id'', JStr c), (''name'', JStr ''search''), (''status'', JStr s)]"

definition two_calls :: "dict list" where
  "two_calls = [sample_call ''a'' ''pending'', sample_call ''b'' ''queued'']"

definition sample_form :: "string \<Rightarrow> approval_action \<Rightarrow> resolve_form" where
  "sample_form c a = \<lparr>rf_call_id = c, rf_action = a, rf_answers = JNull, rf_timed_out = False\<rparr>"

theorem resolve_once_witness:
  "resolve_output (\<lambda>_. []) (sample_form ''a'' Reject) (projr (resolve_output (\<lambda>_. []) (sample_form ''a'' Approve) two_calls))
   = Inl AlreadyResolved"
proof -
  have "isl (resolve_output (\<lambda>_. []) (sample_form ''a'' Approve) two_calls) = False" by code_simp
  then obtain out where out: "resolve_output (\<lambda>_. []) (sample_form ''a'' Approve) two_calls = Inr out"
    by (cases "resolve_output (\<lambda>_. []) (sample_form ''a'' Approve) two_calls") auto
  have "rf_call_id (sample_form ''a'' Reject) = rf_call_id (sample_form ''a'' Approve)" by (simp add: sample_form_def)
  then show ?thesis using resolve_once [OF out, of "sample_form ''a'' Reject"] unfolding out sum.sel by blast
qed

section \<open>Draining\<close>

text \<open>Two items that stand for the same call, or are the same.\<close>

definition same_call :: "dict \<Rightarrow> dict \<Rightarrow> bool" where
  "same_call i j \<longleftrightarrow> calls_only i j \<and> item_type ''function_call'' j = item_type ''function_call'' i \<and>
     is_approved j = is_approved i \<and> call_key j = call_key i"

lemma same_call_refl [simp]: "same_call i i"
  by (simp add: same_call_def)

lemma same_call_trans: "same_call i j \<Longrightarrow> same_call j k \<Longrightarrow> same_call i k"
  by (auto simp: same_call_def calls_only_def)

lemma same_call_status: "item_type ''function_call'' i \<Longrightarrow> same_call i (dict_set ''status'' v i)"
  by (simp add: same_call_def calls_only_def item_type_def is_approved_def call_key_def get_or_dict_set)

lemma same_call_named: "same_call i (named_call i)"
  by (auto simp: named_call_def same_call_def calls_only_def item_type_def is_approved_def call_key_def get_or_dict_set py_or_def)

lemma same_call_pause: "list_all2 same_call items (pause_items results b items)"
proof (induction results b items rule: pause_items.induct)
  case (2 results b item items)
  have t: "item_type ''function_call'' (named_call item)" if "awaits_approval results (named_call item)"
    using that by (simp add: awaits_approval_def)
  show ?case
    using 2 same_call_named [of item] same_call_trans [OF same_call_named same_call_status [OF t]]
    by (auto simp: Let_def)
qed simp

lemma same_call_results: "list_all2 same_call xs ys \<Longrightarrow> result_call_ids ys = result_call_ids xs"
  by (intro results_calls_only) (auto simp: same_call_def elim: list_all2_mono)

lemma same_call_unfinished:
  assumes "list_all2 same_call xs ys"
  shows "length (filter (unfinished ys) ys) = length (filter (unfinished xs) xs)"
proof -
  have r: "unfinished ys = unfinished xs" using same_call_results [OF assms] by (auto simp: unfinished_def fun_eq_iff)
  have "length (filter (unfinished zs) ys) = length (filter (unfinished zs) xs)" for zs
    using assms by (induction rule: list_all2_induct) (auto simp: unfinished_def same_call_def)
  then show ?thesis unfolding r .
qed

lemma pause_keeps:
  "result_call_ids (pause_for_tool_approval output) = result_call_ids output"
  "length (filter (unfinished (pause_for_tool_approval output)) (pause_for_tool_approval output)) = length (filter (unfinished output) output)"
  using same_call_results [OF same_call_pause] same_call_unfinished [OF same_call_pause]
  by (simp_all add: pause_for_tool_approval_def)

lemma to_run_unfinished: "to_run output i \<Longrightarrow> unfinished output i"
  by (auto simp: to_run_def unfinished_def call_key_def py_or_def)

lemma run_result_is_output:
  "item_type ''function_call_output'' (tool_result_item u c s r)" "get (tool_result_item u c s r) ''call_id'' = c"
  "\<not> item_type ''function_call'' (tool_result_item u c s r)"
  by (simp_all add: tool_result_item_def item_type_def get_or_def)

lemma run_results_ids:
  "result_call_ids (run_results uid is_error run output) = map (\<lambda>i. get i ''call_id'') (executed output)"
proof -
  define f where "f = (\<lambda>n i. let r = run (tool_call_of i) in tool_result_item (uid n) (get i ''call_id'') (result_state is_error r) r)"
  have "map (\<lambda>i. get i ''call_id'') (with_index f n xs) = map (\<lambda>i. get i ''call_id'') xs" for n xs
    by (rule map_with_index) (simp add: f_def Let_def run_result_is_output)
  moreover have "filter (item_type ''function_call_output'') (with_index f n xs) = with_index f n xs" for n xs
    by (auto simp: filter_id_conv f_def Let_def run_result_is_output dest!: with_index_memD)
  moreover have "filter truthy (map (\<lambda>i. get i ''call_id'') (executed output)) = map (\<lambda>i. get i ''call_id'') (executed output)"
    by (auto simp: filter_id_conv executed_def to_run_def)
  ultimately show ?thesis by (simp add: result_call_ids_def run_results_def f_def [symmetric])
qed

lemma ran_item_call: "item_type ''function_call'' i \<Longrightarrow> item_type ''function_call'' (ran_item is_error run i)"
  by (simp add: ran_item_def item_type_def get_or_dict_set get_dict_pop Let_def)

lemma drained_results:
  "result_call_ids (drained uid is_error run output) = result_call_ids output @ map (\<lambda>i. get i ''call_id'') (executed output)"
proof -
  have "list_all2 calls_only output (map (\<lambda>i. if to_run output i then ran_item is_error run i else i) output)"
    by (auto simp: list_all2_map2 calls_only_def to_run_def list.rel_refl_strong intro!: list.rel_refl_strong ran_item_call)
  then show ?thesis by (simp add: drained_def results_calls_only run_results_ids)
qed

lemma length_filter_map_le:
  "(\<And>x. x \<in> set xs \<Longrightarrow> P (f x) \<Longrightarrow> Q x) \<Longrightarrow> length (filter P (map f xs)) \<le> length (filter Q xs)"
  by (induction xs) (auto simp: le_SucI)

lemma drained_unfinished:
  "length (filter (unfinished (drained uid is_error run output)) (drained uid is_error run output)) \<le> length (filter (unfinished output) output)"
proof -
  let ?d = "drained uid is_error run output"
  have "\<not> unfinished ?d i" if "i \<in> set (run_results uid is_error run output)" for i
    using that by (auto simp: run_results_def Let_def unfinished_def run_result_is_output dest!: with_index_memD)
  then have none: "filter (unfinished ?d) (run_results uid is_error run output) = []" by (simp add: filter_empty_conv)
  have "unfinished output i" if i: "i \<in> set output" "unfinished ?d (if to_run output i then ran_item is_error run i else i)" for i
  proof (cases "to_run output i")
    case True
    then show ?thesis by (rule to_run_unfinished)
  next
    case False
    then show ?thesis using i(2) by (auto simp: unfinished_def drained_results)
  qed
  then have "length (filter (unfinished ?d) (map (\<lambda>i. if to_run output i then ran_item is_error run i else i) output))
      \<le> length (filter (unfinished output) output)"
    by (intro length_filter_map_le) auto
  then show ?thesis using none by (simp add: drained_def)
qed

lemma in_progress_keeps:
  "result_call_ids (output @ [in_progress_item u]) = result_call_ids output"
  "length (filter (unfinished (output @ [in_progress_item u])) (output @ [in_progress_item u])) = length (filter (unfinished output) output)"
proof -
  have "\<not> item_type ''function_call'' (in_progress_item u)" "result_call_ids [in_progress_item u] = []"
    by (simp_all add: in_progress_item_def item_type_def get_or_def result_call_ids_def)
  then show "result_call_ids (output @ [in_progress_item u]) = result_call_ids output"
    "length (filter (unfinished (output @ [in_progress_item u])) (output @ [in_progress_item u])) = length (filter (unfinished output) output)"
    by (simp_all add: unfinished_def [abs_def])
qed

text \<open>What a drain saves has the results of the calls it ran, and no more unfinished calls.\<close>

lemma drain_keeps:
  assumes "drain_approved_tool_calls uid is_error run u ask output = (Some saved, paused)"
  shows "set (result_call_ids saved) = set (result_call_ids output) \<union> (\<lambda>i. get i ''call_id'') ` set (executed output)"
    and "length (filter (unfinished saved) saved) \<le> length (filter (unfinished output) output)"
proof -
  have none: "executed output = []" if "filter (to_run output) output = []"
    using that by (auto simp: executed_def filter_empty_conv)
  let ?d = "drained uid is_error run output"
  have "set (result_call_ids saved) = set (result_call_ids output) \<union> (\<lambda>i. get i ''call_id'') ` set (executed output) \<and>
      length (filter (unfinished saved) saved) \<le> length (filter (unfinished output) output)"
  proof (cases "filter (to_run output) output = []")
    case True
    then have "saved = pause_for_tool_approval output"
      using assms by (auto simp: drain_approved_tool_calls_def split: if_splits)
    then show ?thesis using none [OF True] by (simp add: pause_keeps)
  next
    case False
    then obtain o2 where o2: "o2 = ?d \<or> o2 = pause_for_tool_approval ?d" "saved = o2 \<or> saved = o2 @ [in_progress_item u]"
      using assms by (auto simp: drain_approved_tool_calls_def Let_def split: if_splits)
    have "result_call_ids o2 = result_call_ids ?d" "length (filter (unfinished o2) o2) = length (filter (unfinished ?d) ?d)"
      using o2(1) pause_keeps by auto
    moreover have "result_call_ids saved = result_call_ids o2" "length (filter (unfinished saved) saved) = length (filter (unfinished o2) o2)"
      using o2(2) in_progress_keeps by (auto simp del: results_append)
    ultimately show ?thesis using drained_unfinished [of uid is_error run "output"] by (simp add: drained_results)
  qed
  then show "set (result_call_ids saved) = set (result_call_ids output) \<union> (\<lambda>i. get i ''call_id'') ` set (executed output)"
    "length (filter (unfinished saved) saved) \<le> length (filter (unfinished output) output)" by simp_all
qed

section \<open>Resolves and resumes over time\<close>

text \<open>
  Each accepted resolve starts a resume; a resume reads the stored output and runs what is
  approved there, and saves its output when the tools have returned. A resume may also fail,
  before it has read the output or while its tools run, and then saves nothing. The reply that
  goes on adds items. \<open>ap_log\<close> lists the calls that were run, \<open>ap_approved\<close> says that the last
  accepted resolve was an approval whose resume has not come back. The lock of a message only
  keeps two resolves apart: the resumes run as tasks of their own.
\<close>

record approval =
  ap_output :: "dict list"
  ap_approved :: bool
  ap_resumes :: nat
  ap_drains :: "dict list list"
  ap_log :: "json list"

datatype approval_event =
    Resolved resolve_form
  | DrainBegun "nat \<Rightarrow> string" "dict \<Rightarrow> tool_result" string bool
  | DrainSaved nat
  | DrainFailed nat
  | ResumeFailed
  | Extended "dict list"

fun approval_step :: "(json \<Rightarrow> string) \<Rightarrow> (string \<Rightarrow> bool) \<Rightarrow> approval \<Rightarrow> approval_event \<Rightarrow> approval option" where
  "approval_step dumps is_error s (Resolved f) =
     (case resolve_output dumps f (ap_output s) of
        Inl e \<Rightarrow> None
      | Inr out \<Rightarrow> Some (s\<lparr>ap_output := out, ap_approved := (rf_action f = Approve), ap_resumes := Suc (ap_resumes s)\<rparr>))"
| "approval_step dumps is_error s (DrainBegun uid run u ask) =
     (case ap_resumes s of
        0 \<Rightarrow> None
      | Suc n \<Rightarrow>
          let s1 = s\<lparr>ap_resumes := n, ap_log := ap_log s @ map (\<lambda>i. get i ''call_id'') (executed (ap_output s))\<rparr>
          in case fst (drain_approved_tool_calls uid is_error run u ask (ap_output s)) of
               None \<Rightarrow> Some (s1\<lparr>ap_approved := False\<rparr>)
             | Some saved \<Rightarrow> Some (s1\<lparr>ap_drains := ap_drains s @ [saved]\<rparr>))"
| "approval_step dumps is_error s (DrainSaved n) =
     (if n < length (ap_drains s)
      then Some (s\<lparr>ap_output := ap_drains s ! n, ap_approved := False,
        ap_drains := take n (ap_drains s) @ drop (Suc n) (ap_drains s)\<rparr>) else None)"
| "approval_step dumps is_error s (DrainFailed n) =
     (if n < length (ap_drains s)
      then Some (s\<lparr>ap_drains := take n (ap_drains s) @ drop (Suc n) (ap_drains s)\<rparr>) else None)"
| "approval_step dumps is_error s ResumeFailed =
     (case ap_resumes s of 0 \<Rightarrow> None | Suc n \<Rightarrow> Some (s\<lparr>ap_resumes := n\<rparr>))"
| "approval_step dumps is_error s (Extended items) =
     (if list_all (\<lambda>i. \<not> is_approved i) items then Some (s\<lparr>ap_output := ap_output s @ items\<rparr>) else None)"

definition waiting_for_approval :: "dict list \<Rightarrow> approval" where
  "waiting_for_approval output = \<lparr>ap_output = output, ap_approved = False, ap_resumes = 0, ap_drains = [], ap_log = []\<rparr>"

text \<open>
  After an approval anything may be asked at any time: while the call waits to run, while it
  runs, and after its run has failed. Only the resume that follows a rejection or an answer
  must have ended before the next resolve (\<open>overtaking_resolve_runs_twice\<close> below), and the
  reply goes on when no resume is under way and no approval is left open.
\<close>

definition no_overtaking :: "approval \<Rightarrow> approval_event \<Rightarrow> bool" where
  "no_overtaking s e \<longleftrightarrow> (case e of
     Resolved _ \<Rightarrow> ap_approved s \<or> ap_resumes s = 0 \<and> ap_drains s = []
   | Extended _ \<Rightarrow> \<not> ap_approved s \<and> ap_resumes s = 0 \<and> ap_drains s = []
   | _ \<Rightarrow> True)"

definition few_unfinished :: "dict list \<Rightarrow> bool" where
  "few_unfinished output \<longleftrightarrow> length (filter (unfinished output) output) \<le> 1"

definition has_unfinished :: "dict list \<Rightarrow> bool" where
  "has_unfinished output \<longleftrightarrow> list_ex (unfinished output) output"

definition approval_ok :: "approval \<Rightarrow> bool" where
  "approval_ok s \<longleftrightarrow> ap_resumes s + length (ap_drains s) \<le> 1 \<and> distinct (ap_log s) \<and>
     few_unfinished (ap_output s) \<and> list_all few_unfinished (ap_drains s) \<and>
     (ap_approved s \<longrightarrow> has_unfinished (ap_output s)) \<and>
     (\<not> ap_approved s \<and> 0 < ap_resumes s \<longrightarrow> \<not> has_unfinished (ap_output s)) \<and>
     (ap_approved s \<and> ap_resumes s = 0 \<or> set (ap_log s) \<subseteq> set (result_call_ids (ap_output s))) \<and>
     list_all (\<lambda>saved. set (ap_log s) \<subseteq> set (result_call_ids saved)) (ap_drains s)"

lemma executed_few:
  assumes "few_unfinished output"
  shows "length (executed output) \<le> 1"
proof -
  have "length (executed output) \<le> length (filter (unfinished output) output)"
    unfolding executed_def using length_filter_map_le [of "output" _ "\<lambda>i. i" "unfinished output"] to_run_unfinished by fastforce
  then show ?thesis using assms by (simp add: few_unfinished_def)
qed

lemma resolve_keeps_results:
  assumes "resolve_output dumps f output = Inr out"
  shows "set (result_call_ids output) \<subseteq> set (result_call_ids out)"
  using assms
proof (cases rule: resolve_cases)
  case (1 call us vs)
  show ?thesis unfolding 1(2) resolved_results [OF 1(1,4)] by simp
qed

lemma extended_few:
  assumes "few_unfinished output" and "list_all (\<lambda>i. \<not> is_approved i) items"
  shows "few_unfinished (output @ items)"
proof -
  have none: "filter (unfinished (output @ items)) items = []"
    using assms(2) by (auto simp: filter_empty_conv unfinished_def list_all_iff)
  have "length (filter (unfinished (output @ items)) output) \<le> length (filter (unfinished output) output)"
    using length_filter_map_le [of "output" "unfinished (output @ items)" "\<lambda>i. i" "unfinished output"]
    by (simp add: unfinished_def)
  then show ?thesis using assms(1) none by (simp add: few_unfinished_def)
qed

lemma resolved_has_unfinished:
  assumes "resolve_output dumps f output = Inr out"
  shows "has_unfinished out \<longleftrightarrow> rf_action f = Approve" and "\<not> has_unfinished output" and "few_unfinished out"
proof -
  note n = unfinished_after_resolve [OF assms]
  have "has_unfinished out \<longleftrightarrow> filter (unfinished out) out \<noteq> []"
    by (auto simp: has_unfinished_def list_ex_iff filter_empty_conv)
  also have "\<dots> \<longleftrightarrow> rf_action f = Approve" using n by (simp split: if_splits add: length_greater_0_conv [symmetric] del: length_greater_0_conv)
  finally show "has_unfinished out \<longleftrightarrow> rf_action f = Approve" .
  show "\<not> has_unfinished output" unfolding has_unfinished_def using assms by (rule resolve_cases)
  show "few_unfinished out" using n by (simp add: few_unfinished_def)
qed

lemma not_executed: "\<not> has_unfinished output \<Longrightarrow> executed output = []"
  by (auto simp: has_unfinished_def executed_def filter_empty_conv list_ex_iff dest: to_run_unfinished)

lemma drain_None: "fst (drain_approved_tool_calls uid is_error run u ask output) = None \<Longrightarrow> executed output = []"
  by (auto simp: drain_approved_tool_calls_def executed_def filter_empty_conv Let_def split: if_splits)

lemma drain_begun_keeps:
  assumes "approval_ok s" and "approval_step dumps is_error s (DrainBegun uid run u ask) = Some s'"
  shows "approval_ok s'"
proof -
  let ?out = "ap_output s"
  let ?ids = "map (\<lambda>i. get i ''call_id'') (executed ?out)"
  from assms(2) have n: "ap_resumes s = Suc 0" using assms(1) by (auto simp: approval_ok_def split: nat.splits)
  then have idle: "ap_drains s = []" and few: "few_unfinished ?out"
    and log: "distinct (ap_log s)" "set (ap_log s) \<subseteq> set (result_call_ids ?out)"
    using assms(1) by (auto simp: approval_ok_def)
  have "distinct ?ids" using executed_few [OF few] by (cases "executed ?out" rule: remdups_adj.cases) auto
  moreover have "set ?ids \<inter> set (ap_log s) = {}" using log(2) by (auto simp: executed_def to_run_def)
  ultimately have d: "distinct (ap_log s @ ?ids)" using log(1) by auto
  obtain r b where r: "drain_approved_tool_calls uid is_error run u ask ?out = (r, b)" by fastforce
  show ?thesis
  proof (cases r)
    case None
    then show ?thesis using assms(2) log few r idle n drain_None [of uid is_error run u ask ?out]
      by (auto simp: approval_ok_def)
  next
    case (Some saved)
    note k = drain_keeps [OF r [unfolded Some]]
    have "few_unfinished saved" using k(2) few by (simp add: few_unfinished_def)
    moreover have "set (ap_log s @ ?ids) \<subseteq> set (result_call_ids saved)" using k(1) log(2) by auto
    moreover have "?ids = []" if "\<not> ap_approved s" using assms(1) n that not_executed by (auto simp: approval_ok_def)
    ultimately show ?thesis using assms d few r Some idle n log(2) by (auto simp: approval_ok_def Let_def)
  qed
qed

lemma approval_keeps:
  assumes "approval_ok s" and "no_overtaking s e" and "approval_step dumps is_error s e = Some s'"
  shows "approval_ok s'"
proof (cases e)
  case (Resolved f)
  then obtain out where out: "resolve_output dumps f (ap_output s) = Inr out"
      "s' = s\<lparr>ap_output := out, ap_approved := (rf_action f = Approve), ap_resumes := Suc (ap_resumes s)\<rparr>"
    using assms(3) by (auto split: sum.splits)
  note u = resolved_has_unfinished [OF out(1)]
  have "\<not> ap_approved s" using assms(1) u(2) by (auto simp: approval_ok_def)
  then show ?thesis using assms(1,2) u resolve_keeps_results [OF out(1)] unfolding out(2)
    by (auto simp: approval_ok_def no_overtaking_def Resolved)
next
  case (DrainBegun uid run u ask)
  show ?thesis using assms(1) assms(3) [unfolded DrainBegun] by (rule drain_begun_keeps)
next
  case (Extended items)
  then show ?thesis using assms extended_few [of "ap_output s" items]
    by (auto simp: approval_ok_def no_overtaking_def split: if_splits)
next
  case ResumeFailed
  then show ?thesis using assms(1,3) by (auto simp: approval_ok_def split: nat.splits)
next
  case (DrainSaved n)
  then have n: "n < length (ap_drains s)"
      and s': "s' = s\<lparr>ap_output := ap_drains s ! n, ap_approved := False, ap_drains := take n (ap_drains s) @ drop (Suc n) (ap_drains s)\<rparr>"
    using assms(3) by (auto split: if_splits)
  then obtain saved where "ap_drains s = [saved]" using assms(1) by (cases "ap_drains s") (auto simp: approval_ok_def)
  then show ?thesis using n assms(1) unfolding s' by (auto simp: approval_ok_def)
next
  case (DrainFailed n)
  then have n: "n < length (ap_drains s)" and s': "s' = s\<lparr>ap_drains := take n (ap_drains s) @ drop (Suc n) (ap_drains s)\<rparr>"
    using assms(3) by (auto split: if_splits)
  then obtain saved where "ap_drains s = [saved]" using assms(1) by (cases "ap_drains s") (auto simp: approval_ok_def)
  then show ?thesis using n assms(1) unfolding s' by (auto simp: approval_ok_def)
qed

interpretation approvals: step_invariant "approval_step dumps is_error" no_overtaking approval_ok for dumps is_error
  by unfold_locales (rule approval_keeps)


definition sample_drain :: "approval_event" where
  "sample_drain = DrainBegun (\<lambda>_. ''u'') (\<lambda>_. \<lparr>tr_arguments = JStr ''{}'', tr_content = ''found'', tr_files = [], tr_embeds = JNull\<rparr>) ''v'' True"

definition approve_both :: "approval_event list" where
  "approve_both = [Resolved (sample_form ''a'' Approve), sample_drain, DrainSaved 0, Resolved (sample_form ''b'' Approve), sample_drain, DrainSaved 0]"


definition overtaking :: "approval_event list" where
  "overtaking = [Resolved (sample_form ''a'' Reject), Resolved (sample_form ''b'' Approve), sample_drain, sample_drain]"

text \<open>
  A resolve that overtakes the resume of the one before runs a tool twice: call a is
  rejected, call b is approved before the first resume has read the output, and then both
  resumes find b approved and without a result, and run it.
\<close>

theorem overtaking_resolve_runs_twice:
  "\<exists>s. reach (approval_step (\<lambda>_. []) (\<lambda>_. False)) (\<lambda>_ _. True) (waiting_for_approval two_calls) s \<and>
     ap_log s = [JStr ''b'', JStr ''b'']"
proof -
  have "map_option ap_log (exec (approval_step (\<lambda>_. []) (\<lambda>_. False)) (\<lambda>_ _. True) (waiting_for_approval two_calls) overtaking)
      = Some [JStr ''b'', JStr ''b'']" by code_simp
  then show ?thesis by (rule exec_reach_view) blast
qed

end
