(* ===== verification/StreamLines.thy ===== *)
theory StreamLines
  imports PyJson
begin

text \<open>
  Reassembling the lines of a provider's stream (\<open>stream_chunks_handler\<close> in \<open>utils/misc.py\<close>): the
  network cuts a reply into chunks anywhere, and the handler yields whole lines, drops lines
  over a configured size and never buffers tail_text than that. Bytes are characters; the setting
  is an argument, None when it is unset. Further the checks of the chunking and embedding settings.
\<close>

section \<open>The handler\<close>

definition line_feed :: char where
  "line_feed = CHR 0x0A"

definition max_buffer_size :: "int option \<Rightarrow> nat option" where
  "max_buffer_size setting = (case setting of None \<Rightarrow> None | Some n \<Rightarrow> if n \<le> 0 then None else Some (nat n))"

definition too_long :: "nat option \<Rightarrow> string \<Rightarrow> bool" where
  "too_long limit line \<longleftrightarrow> (case limit of None \<Rightarrow> False | Some n \<Rightarrow> n < length line)"

text \<open>The completed lines: the first one ends a line that is being dropped, a long one is dropped.\<close>

fun kept_lines :: "nat option \<Rightarrow> bool \<Rightarrow> string list \<Rightarrow> string list" where
  "kept_lines limit dropping [] = []"
| "kept_lines limit dropping (line # lines) =
     (if dropping \<or> too_long limit line then [] else [line @ [line_feed]]) @ kept_lines limit False lines"

record line_state =
  ls_buffer :: string
  ls_dropping :: bool

definition bound_buffer :: "nat option \<Rightarrow> line_state \<Rightarrow> line_state" where
  "bound_buffer limit s = (if too_long limit (ls_buffer s) then \<lparr>ls_buffer = [], ls_dropping = True\<rparr> else s)"

definition chunk_step :: "nat option \<Rightarrow> string \<Rightarrow> line_state \<Rightarrow> line_state \<times> string list" where
  "chunk_step limit data s =
     (if data = [] then (s, [])
      else let buffer = ls_buffer s @ data
      in if line_feed \<in> set data
         then (let parts = split_on line_feed buffer
               in (bound_buffer limit \<lparr>ls_buffer = last parts, ls_dropping = False\<rparr>,
                   kept_lines limit (ls_dropping s) (butlast parts)))
         else (bound_buffer limit (s\<lparr>ls_buffer := buffer\<rparr>), []))"

fun stream_lines :: "nat option \<Rightarrow> line_state \<Rightarrow> string list \<Rightarrow> string list" where
  "stream_lines limit s [] = (if ls_buffer s \<noteq> [] \<and> \<not> ls_dropping s then [ls_buffer s] else [])"
| "stream_lines limit s (data # chunks) =
     (case chunk_step limit data s of (s', out) \<Rightarrow> out @ stream_lines limit s' chunks)"

definition stream_chunks_handler :: "int option \<Rightarrow> string list \<Rightarrow> string list" where
  "stream_chunks_handler setting chunks =
     stream_lines (max_buffer_size setting) \<lparr>ls_buffer = [], ls_dropping = False\<rparr> chunks"

section \<open>Settings\<close>

datatype chunk_error = ChunkTooSmall | OverlapNegative | OverlapTooLarge

text \<open>\<open>isinstance(v, int)\<close>: a bool is an int, too.\<close>

fun py_int :: "json \<Rightarrow> int option" where
  "py_int (JInt i) = Some i"
| "py_int (JBool b) = Some (if b then 1 else 0)"
| "py_int _ = None"

definition chunk_settings_error :: "json \<Rightarrow> json \<Rightarrow> chunk_error option" where
  "chunk_settings_error chunk_size overlap =
     (case py_int chunk_size of
        None \<Rightarrow> Some ChunkTooSmall
      | Some n \<Rightarrow> if n < 1 then Some ChunkTooSmall
          else case py_int overlap of
              None \<Rightarrow> Some OverlapNegative
            | Some m \<Rightarrow> if m < 0 then Some OverlapNegative else if n \<le> m then Some OverlapTooLarge else None)"

text \<open>\<open>embedding_batch_size_error\<close>: whether there is one.\<close>

definition bad_embedding_batch_size :: "json \<Rightarrow> bool" where
  "bad_embedding_batch_size v = (case v of JInt n \<Rightarrow> n < 1 | _ \<Rightarrow> True)"

section \<open>Splitting\<close>

lemma split_not_Nil [simp]: "split_on c s \<noteq> []"
  by (cases s) (auto split: list.split)

lemma split_append: "split_on c (xs @ ys) =
    butlast (split_on c xs) @ (last (split_on c xs) @ hd (split_on c ys)) # tl (split_on c ys)"
proof (induction xs)
  case (Cons x xs)
  obtain w ws where s: "split_on c xs = w # ws" by (meson list.exhaust split_not_Nil)
  show ?case
  proof (cases ws)
    case Nil
    then show ?thesis using Cons s by auto
  next
    case (Cons v vs)
    then show ?thesis using Cons.IH s by auto
  qed
qed simp

lemma split_no_sep: "c \<notin> set s \<Longrightarrow> split_on c s = [s]"
  by (induction s) auto

lemma last_split_no_sep: "c \<notin> set (last (split_on c s))"
  by (induction s) (auto split: list.splits if_splits)

lemma sep_parts: "c \<in> set s \<Longrightarrow> butlast (split_on c s) \<noteq> []"
proof (induction s)
  case (Cons x s)
  then show ?case by (cases "split_on c s") (auto simp: split_no_sep)
qed simp

lemma kept_append: "kept_lines limit False (xs @ ys) = kept_lines limit False xs @ kept_lines limit False ys"
  by (induction xs) auto

lemma kept_filter: "kept_lines limit False lines = map (\<lambda>l. l @ [line_feed]) (filter (\<lambda>l. \<not> too_long limit l) lines)"
  by (induction lines) auto

lemma too_long_append: "too_long limit x \<Longrightarrow> too_long limit (x @ y)" "too_long limit y \<Longrightarrow> too_long limit (x @ y)"
  by (auto simp: too_long_def split: option.splits)

section \<open>The lines do not depend on the chunks\<close>

text \<open>What the handler holds of the text read so far: its unfinished line, or a tail of it when it is being dropped.\<close>

definition holds :: "nat option \<Rightarrow> string \<Rightarrow> line_state \<Rightarrow> bool" where
  "holds limit rest s \<longleftrightarrow> \<not> too_long limit (ls_buffer s) \<and>
     (if ls_dropping s then \<exists>x. rest = x @ ls_buffer s \<and> too_long limit x else ls_buffer s = rest)"

lemma holds_bound:
  assumes "if ls_dropping s then \<exists>x. rest = x @ ls_buffer s \<and> too_long limit x else ls_buffer s = rest"
  shows "holds limit rest (bound_buffer limit s)"
  using assms
  by (auto simp: holds_def bound_buffer_def too_long_append split: if_splits) (auto simp: too_long_def split: option.splits)

lemma chunk_step_lines:
  assumes "holds limit rest s" and "line_feed \<notin> set rest" and "chunk_step limit data s = (s', out)"
  shows "out = kept_lines limit False (butlast (split_on line_feed (rest @ data)))"
    and "holds limit (last (split_on line_feed (rest @ data))) s'"
proof -
  have "out = kept_lines limit False (butlast (split_on line_feed (rest @ data))) \<and>
      holds limit (last (split_on line_feed (rest @ data))) s'"
  proof (cases "data = []")
    case True
    then show ?thesis using assms by (simp add: chunk_step_def split_no_sep)
  next
    case not_empty: False
    show ?thesis
    proof (cases "line_feed \<in> set data")
      case False
      then have split: "split_on line_feed (rest @ data) = [rest @ data]" using assms(2) by (simp add: split_no_sep)
      have "holds limit (rest @ data) (bound_buffer limit (s\<lparr>ls_buffer := ls_buffer s @ data\<rparr>))"
        using assms(1) by (intro holds_bound) (auto simp: holds_def)
      then show ?thesis using assms(3) not_empty False by (simp add: chunk_step_def split Let_def)
    next
      case True
      obtain w ws where ws: "split_on line_feed data = w # ws" by (meson list.exhaust split_not_Nil)
      have ne: "ws \<noteq> []" using sep_parts [OF True] ws by auto
      have parts: "split_on line_feed (xs @ data) = (xs @ w) # ws" if "line_feed \<notin> set xs" for xs
        using that by (simp add: split_append [of line_feed xs data] split_no_sep ws)
      have "line_feed \<notin> set (ls_buffer s)" using assms(1,2) by (auto simp: holds_def split: if_splits)
      then have s': "s' = bound_buffer limit \<lparr>ls_buffer = last ws, ls_dropping = False\<rparr>"
          and out: "out = kept_lines limit (ls_dropping s) ((ls_buffer s @ w) # butlast ws)"
        using assms(3) not_empty True ne by (simp_all add: chunk_step_def parts Let_def)
      have "kept_lines limit (ls_dropping s) ((ls_buffer s @ w) # butlast ws) = kept_lines limit False ((rest @ w) # butlast ws)"
        using assms(1) by (auto simp: holds_def too_long_append split: if_splits)
      moreover have "holds limit (last ws) s'" unfolding s' by (rule holds_bound) simp
      ultimately show ?thesis using parts [OF assms(2)] ne out by simp
    qed
  qed
  then show "out = kept_lines limit False (butlast (split_on line_feed (rest @ data)))"
    "holds limit (last (split_on line_feed (rest @ data))) s'" by simp_all
qed

definition whole_lines :: "nat option \<Rightarrow> string \<Rightarrow> string list" where
  "whole_lines limit text_value =
     (let parts = split_on line_feed text_value; rest = last parts
      in map (\<lambda>l. l @ [line_feed]) (filter (\<lambda>l. \<not> too_long limit l) (butlast parts))
         @ (if rest \<noteq> [] \<and> \<not> too_long limit rest then [rest] else []))"

lemma whole_lines_append:
  assumes "line_feed \<notin> set rest"
  shows "whole_lines limit (rest @ data @ tail_text) =
    kept_lines limit False (butlast (split_on line_feed (rest @ data))) @ whole_lines limit (last (split_on line_feed (rest @ data)) @ tail_text)"
proof -
  let ?p = "split_on line_feed (rest @ data)" and ?m = "split_on line_feed tail_text"
  have whole: "split_on line_feed (rest @ data @ tail_text) = butlast ?p @ (last ?p @ hd ?m) # tl ?m"
    using split_append [of line_feed "rest @ data" tail_text] by simp
  have tail: "split_on line_feed (last ?p @ tail_text) = (last ?p @ hd ?m) # tl ?m"
    using last_split_no_sep [of line_feed "rest @ data"] by (simp add: split_append [of line_feed "last ?p" tail_text] split_no_sep)
  show ?thesis unfolding whole_lines_def Let_def whole tail by (simp add: kept_filter butlast_append)
qed

lemma stream_lines_whole:
  assumes "holds limit rest s" and "line_feed \<notin> set rest"
  shows "stream_lines limit s chunks = whole_lines limit (rest @ concat chunks)"
  using assms
proof (induction chunks arbitrary: s rest)
  case Nil
  show ?case
  proof (cases "ls_dropping s")
    case True
    then have "too_long limit rest" using Nil(1) by (auto simp: holds_def too_long_append)
    then show ?thesis using Nil(2) True by (simp add: whole_lines_def split_no_sep)
  qed (use Nil in \<open>auto simp: whole_lines_def split_no_sep holds_def\<close>)
next
  case (Cons data chunks)
  obtain s' out where st: "chunk_step limit data s = (s', out)" by fastforce
  note step = chunk_step_lines [OF Cons.prems st]
  show ?case
    using Cons.IH [OF step(2) last_split_no_sep] step(1) whole_lines_append [OF Cons.prems(2), of limit data "concat chunks"]
    by (simp add: st)
qed

fun buffers :: "nat option \<Rightarrow> line_state \<Rightarrow> string list \<Rightarrow> string list" where
  "buffers limit s [] = []"
| "buffers limit s (data # chunks) =
     (let s' = fst (chunk_step limit data s) in ls_buffer s' # buffers limit s' chunks)"

lemma buffers_bounded:
  assumes "\<not> too_long limit (ls_buffer s)"
  shows "list_all (\<lambda>b. \<not> too_long limit b) (buffers limit s chunks)"
  using assms
proof (induction chunks arbitrary: s)
  case (Cons data chunks)
  have bound: "\<not> too_long limit (ls_buffer (bound_buffer limit x))" for x
    by (auto simp: bound_buffer_def) (auto simp: too_long_def split: option.splits)
  have "\<not> too_long limit (ls_buffer (fst (chunk_step limit data s)))"
    using Cons.prems bound by (auto simp: chunk_step_def Let_def)
  then show ?case using Cons.IH by (simp add: Let_def)
qed simp

text \<open>
  C26. However the network cuts a stream into chunks, the handler yields the same: the complete
  lines of the whole text in order, each with its line feed, and then the unfinished rest,
  less the lines that are longer than the limit. Between two chunks it never holds tail_text than
  the limit.
\<close>

theorem stream_lines_exact:
  "stream_chunks_handler setting chunks = whole_lines (max_buffer_size setting) (concat chunks) \<and>
   list_all (\<lambda>b. \<not> too_long (max_buffer_size setting) b)
     (buffers (max_buffer_size setting) \<lparr>ls_buffer = [], ls_dropping = False\<rparr> chunks)"
proof -
  let ?limit = "max_buffer_size setting"
  have short: "\<not> too_long ?limit []" by (simp add: too_long_def split: option.split)
  then have "holds ?limit [] \<lparr>ls_buffer = [], ls_dropping = False\<rparr>" by (simp add: holds_def)
  from stream_lines_whole [OF this] show ?thesis
    using short by (simp add: stream_chunks_handler_def buffers_bounded)
qed

end
