(* ===== verification/HostFilter.thy ===== *)
theory HostFilter
  imports PyJson
begin

text \<open>
  The filter lists that decide which hosts the server may fetch from (\<open>utils/misc.py\<close>): reading
  the allow and block entries, and matching hosts and addresses against them. Reading an entry
  as an address range, and the test whether an address lies in it (the ipaddress module), are
  arguments.
\<close>

section \<open>Reading the list\<close>

definition is_quote :: "char \<Rightarrow> bool" where
  "is_quote c \<longleftrightarrow> c = CHR 0x22 \<or> c = CHR 0x27"

definition strip_chars :: "(char \<Rightarrow> bool) \<Rightarrow> string \<Rightarrow> string" where
  "strip_chars P s = rev (dropWhile P (rev (dropWhile P s)))"

definition strip_filter_entry :: "string \<Rightarrow> string" where
  "strip_filter_entry e = strip_text (strip_chars is_quote (strip_text e))"

fun get_allow_block_lists :: "string list \<Rightarrow> string list \<times> string list" where
  "get_allow_block_lists [] = ([], [])"
| "get_allow_block_lists (raw # rest) =
     (let e0 = strip_filter_entry raw; blocked = (take 1 e0 = ''!'');
          e = (if blocked then strip_filter_entry (drop 1 e0) else e0)
      in case get_allow_block_lists rest of (allow, block) \<Rightarrow>
           if e = [] then (allow, block) else if blocked then (allow, e # block) else (e # allow, block))"

definition is_string_allowed :: "string list \<Rightarrow> string list \<Rightarrow> bool" where
  "is_string_allowed strings filters =
     (case get_allow_block_lists filters of (allow, block) \<Rightarrow>
        filters = [] \<or>
        (allow = [] \<or> list_ex (\<lambda>s. list_ex (\<lambda>a. suffix a s) allow) strings) \<and>
        \<not> list_ex (\<lambda>s. list_ex (\<lambda>b. suffix b s) block) strings)"

section \<open>Matching hosts\<close>

definition dot :: char where
  "dot = CHR ''.''"

definition normal_host :: "string \<Rightarrow> string" where
  "normal_host s = rev (dropWhile (\<lambda>c. c = dot) (rev (map lower_char (strip_text s))))"

text \<open>
  \<open>net\<close> is \<open>ipaddress.ip_network\<close> (None where it raises), \<open>in_net\<close> the containment of a host that
  is an address.
\<close>

definition as_network :: "(string \<Rightarrow> 'net option) \<Rightarrow> string \<Rightarrow> 'net option" where
  "as_network net pattern = net (normal_host pattern)"

definition host_matches_pattern :: "(string \<Rightarrow> 'net option) \<Rightarrow> (string \<Rightarrow> 'net \<Rightarrow> bool) \<Rightarrow> string \<Rightarrow> string \<Rightarrow> bool" where
  "host_matches_pattern net in_net host pattern =
     (let h = normal_host host; p = normal_host pattern
      in h \<noteq> [] \<and> p \<noteq> [] \<and>
         (case as_network net p of
            Some n \<Rightarrow> in_net h n
          | None \<Rightarrow> h = p \<or> suffix (dot # p) h))"

definition is_host_blocked :: "(string \<Rightarrow> 'net option) \<Rightarrow> (string \<Rightarrow> 'net \<Rightarrow> bool) \<Rightarrow> string list \<Rightarrow> string list \<Rightarrow> bool" where
  "is_host_blocked net in_net hosts filters \<longleftrightarrow>
     list_ex (\<lambda>h. list_ex (host_matches_pattern net in_net h) (snd (get_allow_block_lists filters))) hosts"

definition is_host_allowed :: "(string \<Rightarrow> 'net option) \<Rightarrow> (string \<Rightarrow> 'net \<Rightarrow> bool) \<Rightarrow> string list \<Rightarrow> string list \<Rightarrow> bool" where
  "is_host_allowed net in_net hosts filters =
     (if filters = [] then True
      else let allow = fst (get_allow_block_lists filters)
      in (allow = [] \<or> list_ex (\<lambda>h. list_ex (host_matches_pattern net in_net h) allow) hosts) \<and>
         \<not> is_host_blocked net in_net hosts filters)"

section \<open>Labels\<close>

definition labels :: "string \<Rightarrow> string list" where
  "labels s = split_on dot (normal_host s)"

lemma split_sep: "split_on c (xs @ c # ys) = split_on c xs @ split_on c ys"
proof (induction xs)
  case (Cons x xs)
  have "split_on c xs \<noteq> []" by (cases xs) (auto split: list.split)
  then show ?case using Cons by (auto split: list.splits)
qed simp

lemma join_split: "join_with [c] (split_on c s) = s"
proof (induction s)
  case (Cons x s)
  have ne: "split_on c s \<noteq> []" by (cases s) (auto split: list.split)
  then obtain w ws where ws: "split_on c s = w # ws" by (meson list.exhaust)
  show ?case using Cons ws by (cases ws) auto
qed simp

lemma join_append:
  "xs \<noteq> [] \<Longrightarrow> ys \<noteq> [] \<Longrightarrow> join_with [c] (xs @ ys) = join_with [c] xs @ c # join_with [c] ys"
proof (induction xs)
  case (Cons x xs)
  then show ?case by (cases xs; cases ys) auto
qed simp

lemma suffix_labels: "(h = p \<or> suffix (c # p) h) \<longleftrightarrow> suffix (split_on c p) (split_on c h)"
proof
  assume "h = p \<or> suffix (c # p) h"
  then show "suffix (split_on c p) (split_on c h)" by (auto simp: suffix_def split_sep)
next
  assume "suffix (split_on c p) (split_on c h)"
  then obtain xs where xs: "split_on c h = xs @ split_on c p" by (auto simp: suffix_def)
  have ne: "split_on c p \<noteq> []" by (cases p) (auto split: list.split)
  have "h = join_with [c] (xs @ split_on c p)" using join_split [of c h] xs by simp
  then show "h = p \<or> suffix (c # p) h"
    using join_append [OF _ ne, of xs c] join_split [of c p] by (cases "xs = []") (auto simp: suffix_def)
qed

lemma lists_append:
  "get_allow_block_lists (xs @ ys) =
     (fst (get_allow_block_lists xs) @ fst (get_allow_block_lists ys), snd (get_allow_block_lists xs) @ snd (get_allow_block_lists ys))"
  by (induction xs) (auto simp: Let_def split: prod.split)

text \<open>
  Entries match whole labels. For an entry that is no address range, a host matches exactly
  when both are named and the labels of the entry (after trimming, lower-casing and dropping the
  trailing dots) are the last labels of the host: \<open>corp.com\<close> matches \<open>api.corp.com\<close> and not
  \<open>evilcorp.com\<close>. And blocking wins: a host that a block entry matches is refused whatever the
  list allows, wherever in the list the entry stands.
\<close>

theorem host_filter_by_labels:
  assumes "as_network net (normal_host entry) = None"
    and "snd (get_allow_block_lists [raw]) = [entry]" and "h \<in> set hosts"
    and "normal_host h \<noteq> []" and "normal_host entry \<noteq> []"
  shows "(host_matches_pattern net in_net h entry \<longleftrightarrow> suffix (labels entry) (labels h)) \<and>
    (suffix (labels entry) (labels h) \<longrightarrow> \<not> is_host_allowed net in_net hosts (before @ raw # behind))"
proof -
  have match: "host_matches_pattern net in_net h entry \<longleftrightarrow> suffix (labels entry) (labels h)"
    using assms(1,4,5) suffix_labels [of "normal_host h" "normal_host entry" dot]
    by (simp add: host_matches_pattern_def labels_def Let_def)
  have "entry \<in> set (snd (get_allow_block_lists (before @ raw # behind)))"
    using assms(2) lists_append [of before "raw # behind"] lists_append [of "[raw]" behind] by simp
  then have "is_host_blocked net in_net hosts (before @ raw # behind)" if "suffix (labels entry) (labels h)"
    using that match assms(3) by (auto simp: is_host_blocked_def list_ex_iff)
  then show ?thesis using match by (auto simp: is_host_allowed_def Let_def)
qed

theorem host_filter_by_labels_witness:
  "\<not> is_host_allowed (\<lambda>_. None :: unit option) (\<lambda>_ _. False) [''API.corp.com.''] [''com'', '' !corp.com ''] \<and>
   is_host_allowed (\<lambda>_. None :: unit option) (\<lambda>_ _. False) [''evilcorp.com''] [''com'', '' !corp.com '']"
proof
  have no_net: "as_network (\<lambda>_. None :: unit option) (normal_host ''corp.com'') = None" by (simp add: as_network_def)
  have entry: "snd (get_allow_block_lists ['' !corp.com '']) = [''corp.com'']" by code_simp
  have host: "normal_host ''API.corp.com.'' \<noteq> []" "normal_host ''corp.com'' \<noteq> []"
    "suffix (labels ''corp.com'') (labels ''API.corp.com.'')" by code_simp+
  from host_filter_by_labels [OF no_net entry, of "''API.corp.com.''" "[''API.corp.com.'']" "\<lambda>_ _. False" "[''com'']" "[]"] host
  show "\<not> is_host_allowed (\<lambda>_. None :: unit option) (\<lambda>_ _. False) [''API.corp.com.''] [''com'', '' !corp.com '']" by simp
  show "is_host_allowed (\<lambda>_. None :: unit option) (\<lambda>_ _. False) [''evilcorp.com''] [''com'', '' !corp.com '']" by code_simp
qed

end
