(* ===== verification/Spec2Isabelle.thy ===== *)
theory Spec2Isabelle
  imports FolderDelete FolderListing AutomationLife ProviderResponse ReplyText ResponsesEvents RateLimit TuneGrid TuneStats AnthropicMessages ChatFork ContextUsage TimerRuns ToolApproval StreamLines HostFilter
begin

text \<open>
  A model of the server of local-llm (\<open>src/apps/server/local_llm\<close>, all paths below are relative
  to it) and the properties that make its parts correct.

  The server is a FastAPI application over a relational database. Requests (\<open>routers/\<close>) check
  who may do what (\<open>utils/access_control/\<close>), change rows through table objects (\<open>models/\<close>), and
  run chats: a request to a model is built from the stored messages (\<open>utils/misc.py\<close>,
  \<open>utils/anthropic.py\<close>), its stream is read line by line, tool calls may wait for the user's
  approval (\<open>utils/tool_approval.py\<close>), and a chat may carry a timer that posts a message later
  (\<open>utils/timers.py\<close>).

  Conventions. A row is a record, a table a list of rows in table order, a commit checks the
  primary key and the unique constraints. A Python value is a \<open>json\<close> of \<open>PyJson\<close>, a dict an
  association list that keeps its order; an exception is the left side of a sum, an
  \<open>HTTPException\<close> its status. A write returns the table it leaves, also when it fails. Whatever
  comes from outside is an argument: drawn uuids, clock readings, \<open>repr\<close>, JSON's \<open>dumps\<close> and
  \<open>loads\<close>, the order of a set, SQL's \<open>lower\<close> and text match, the \<open>ipaddress\<close> module, the parser of
  absolute times, the set of active tasks, the tool runner, the Redis server, and what fails.

  Library.
  \<open>Prelude\<close>: ordered dictionaries, \<open>dict.fromkeys\<close>, finding rows by key, the interface of a
  table whose rows are replaced group by group. \<open>PyJson\<close>: Python's dynamic values, operations
  that raise, strings. \<open>Chain\<close>: walks along parent links that may loop, and the interface of a
  walk with a verdict. \<open>Runs\<close>: runs of a system whose steps interleave, and the interface of an
  invariant of its steps.

  Who may do what.
  \<open>GroupTable\<close> (\<open>models/groups.py\<close>): groups, memberships, synchronisation at sign-in; an
  invariant every write keeps. \<open>Grants\<close> (\<open>models/access_grants.py\<close>): payloads, the grant table and
  its queries; it refines a map from resources to grants, and the bulk queries agree with the
  single one. \<open>AccessControl\<close>, \<open>Permissions\<close>, \<open>Sharing\<close> (\<open>utils/access_control/__init__.py\<close>,
  \<open>folders.py\<close>): permission dicts, chains of base models and folders, the filter of submitted
  grants; what is stored was permitted, the two access checks agree. \<open>FileAccess\<close>
  (\<open>utils/access_control/files.py\<close> with the queries it makes of the files, knowledge bases,
  channels, shared chats, models and notes): who may read or change a file.

  Folders.
  \<open>FolderTable\<close> (\<open>models/folders.py\<close>): rows, queries, writes, the subtree of a folder.
  \<open>FolderRoutes\<close>, \<open>FolderChats\<close>, \<open>FolderDelete\<close>, \<open>FolderListing\<close> (\<open>routers/folders.py\<close> with the
  chat and automation writes it makes): moves make no loop, updates store what both sides may
  read, a deletion strands no chat at whatever step it fails, a listing leaves a tree and counts
  every unread chat once; and the updates after which a listing raises for ever.

  Chats and their messages.
  \<open>ChatHistory\<close> (\<open>models/chats.py\<close>, \<open>utils/misc.py\<close>): repair, merge, delete and insert in the
  message tree, which stays a tree. \<open>ChatFork\<close> (\<open>utils/chat_fork.py\<close>): the copied branch.
  \<open>MessageRows\<close>, \<open>MessageCopies\<close> (\<open>models/chat_messages.py\<close> and the operations of
  \<open>models/chats.py\<close> that write it): a second copy of each message as a row; every write keeps the
  two copies in agreement, in one direction (\<open>copies_agree\<close>: the rows say what the JSON says) or in
  both (\<open>copies_exact\<close>: and hold no other message), as long as the columns can hold the message
  and the chat is stored without null bytes.
  \<open>ContextBudget\<close>, \<open>ContextCompaction\<close>, \<open>CompactionResume\<close>, \<open>ContextUsage\<close>
  (\<open>utils/context_compaction.py\<close>, \<open>utils/chat_id.py\<close>, \<open>_compact_history\<close> and
  \<open>load_messages_from_db\<close> of \<open>utils/middleware.py\<close>): when a history is compacted, where it is cut,
  what is stored, and what later requests load as long as the branch holds the kept messages; no
  message is lost and none comes back.
  \<open>OutputMessages\<close>, \<open>MessageEdits\<close> (\<open>utils/misc.py\<close>): reading,
  editing and replaying a stored output, pairing tool calls with results, edits of a message list.
  \<open>AnthropicStream\<close>, \<open>AnthropicMessages\<close> (\<open>utils/anthropic.py\<close>): the stream converter as a state
  machine whose output is well-formed, the request and the reply conversions.
  \<open>StreamLines\<close> (\<open>stream_chunks_handler\<close>): lines out of chunks, equal to splitting the whole text
  and dropping what is too long. \<open>HostFilter\<close>: host lists match whole labels.
  \<open>Timers\<close>, \<open>TimerRuns\<close> (\<open>utils/timers.py\<close>): the operations on a timer row, and workers, callers
  and the recovery interleaving: a timer is posted at most once unless recovery takes a run for
  dead that still lives. \<open>ToolApproval\<close> (\<open>utils/tool_approval.py\<close>): a call is resolved once and an
  approved call runs once, also when its run fails, unless a second resolve overtakes the resume
  of a rejection or an answer.

  Automations.
  \<open>Recurrence\<close> (\<open>utils/automations.py\<close>): recurrence rules over dateutil's parser, the next run, the
  runs between two instants, the limits on an accepted rule; a counted rule read from a moved start
  runs as stated. \<open>AutomationTable\<close>, \<open>AutomationClaims\<close> (\<open>models/automations.py\<close>): both tables, and the
  claims of the scheduler, which take the earliest due rows, start each one soon, and stop for
  everyone at one row that cannot be moved on. \<open>AutomationRoutes\<close>, \<open>AutomationLife\<close>
  (\<open>routers/automations.py\<close>): the requests, which touch the caller's own automations only, and runs
  of requests, polls and folder deletions, in which an active automation has a next run unless a
  request wrote a rule whose last run fell between its two readings of the clock.

  Model servers.
  \<open>ChatVariables\<close> (\<open>utils/chat_variables.py\<close>): placeholders in a system prompt, their validation and
  rendering. \<open>ProviderPayload\<close> (\<open>utils/payload.py\<close>): the system prompt, stored parameters, an OpenAI
  body for Ollama; custom parameters win over stored ones, and what a request states over both.
  \<open>ProviderResponse\<close> (\<open>utils/response.py\<close>, templates of \<open>utils/misc.py\<close>): Ollama's
  replies, streams and embeddings for OpenAI's clients, and the sums of token counts.
  \<open>TagScanner\<close>, \<open>DeltaBuffer\<close>, \<open>StreamedReply\<close>, \<open>ReplyText\<close> (\<open>utils/middleware.py\<close>): a streamed reply
  becomes output items; its tags are found however the text is cut, when their names and
  attributes are on one line; its text deltas all reach the client, its tool calls arrive whole,
  and its items say all of its text and reasoning, up to the blanks at the ends of the last message.
  \<open>ResponsesEvents\<close> (the same file): the events of a Responses API stream, whose deltas add up in
  every text they are for.

  Other.
  \<open>RateLimit\<close> (\<open>utils/rate_limit.py\<close>): counting in a sliding window, in memory and in Redis.
  \<open>TuneSchedule\<close>, \<open>TuneGrid\<close>, \<open>TuneStats\<close> (\<open>benchmarks/tuning/tune_schedule.py\<close>): the budget of a
  tuning run, grids and draws, statistics.

  Bounds. The only fuel is the code's own: the draw of candidates stops after 200 tries per
  wanted candidate, as in the source. Every other loop is a total function: walks along parent
  links shrink the set of unvisited rows (\<open>trail\<close>, \<open>walk_base_models\<close>, \<open>walk_folders\<close>, \<open>chase\<close>,
  \<open>count_upwards\<close>, \<open>fork_branch\<close>, the subtree worklist), merges and parsers shrink their input.

  Taken as given. Stored histories and output items are dicts, time stamps are integers, a row's
  id columns hold strings, foreign keys are enforced where a property says so, and a single
  statement is atomic. \<open>lower\<close>, \<open>strip\<close> and the character classes cover the first 256 characters.

  Not modelled. The completion pipeline (\<open>utils/middleware.py\<close> apart from streamed
  output, approved calls and the compaction), \<open>execute_automation\<close> and the calendar's alerts, the tools and plugins, retrieval, the
  HTTP side of the providers, accounts and sign-in protocols, configuration, sockets and events,
  audio and images, migrations, the front ends: they are I/O around services the repository does
  not hold, and what they decide is for the most part decided by the parts above. The requests
  and listings of chats, channels, notes and prompts are SQL over tables that are not modelled.
  Within the modelled parts: paged listings with joins, searches by name, the clean-up of tags,
  the publishing of events, and the sending of a due timer's request to the completion handler.
\<close>

end
